(* ===== verification/Prelude.thy ===== *)
theory Prelude
  imports Main
begin

text \<open>
  Shared ground of the development: the result type of fallible Rust code, the \<open>?\<close> and
  \<open>for\<close> idioms over it, the saturating arithmetic of machine counters, and the small
  list idioms (\<open>push\<close> only when absent) that several components use.

  \<^item> \<open>outcome\<close> is \<open>Result<T, E>\<close> together with the third way a Rust function can end, a
    panic (\<open>expect\<close>, \<open>unwrap\<close>, an index out of range).  Keeping \<open>Panic\<close> apart from
    \<open>Fail\<close> lets a theorem say that the code never panics.
  \<^item> \<open>obind\<close> is the \<open>?\<close> operator, \<open>try_for\<close> the \<open>for\<close> loop whose body may leave
    early with \<open>?\<close>.
\<close>

named_theorems outcome_simps \<open>inversion of sequenced fallible steps\<close>

datatype ('e, 'a) outcome = Ret 'a | Fail 'e | Panic

fun obind :: "('e, 'a) outcome \<Rightarrow> ('a \<Rightarrow> ('e, 'b) outcome) \<Rightarrow> ('e, 'b) outcome" where
  "obind (Ret x) f = f x"
| "obind (Fail e) f = Fail e"
| "obind Panic f = Panic"

text \<open>Conversion of the error with \<open>#[from]\<close>, as the \<open>?\<close> operator does it.\<close>

fun omap_err :: "('e \<Rightarrow> 'f) \<Rightarrow> ('e, 'a) outcome \<Rightarrow> ('f, 'a) outcome" where
  "omap_err g (Ret x) = Ret x"
| "omap_err g (Fail e) = Fail (g e)"
| "omap_err g Panic = Panic"

text \<open>\<open>expect\<close> and \<open>ok_or\<close> on options.\<close>

definition expect :: "'a option \<Rightarrow> ('e, 'a) outcome" where
  "expect x = (case x of None \<Rightarrow> Panic | Some y \<Rightarrow> Ret y)"

definition ok_or :: "'e \<Rightarrow> 'a option \<Rightarrow> ('e, 'a) outcome" where
  "ok_or e x = (case x of None \<Rightarrow> Fail e | Some y \<Rightarrow> Ret y)"

fun try_for :: "('x \<Rightarrow> 's \<Rightarrow> ('e, 's) outcome) \<Rightarrow> 'x list \<Rightarrow> 's \<Rightarrow> ('e, 's) outcome" where
  "try_for f [] s = Ret s"
| "try_for f (x # xs) s = obind (f x s) (try_for f xs)"

text \<open>A loop that only checks, and the collecting loop.\<close>

definition check_all :: "('x \<Rightarrow> ('e, unit) outcome) \<Rightarrow> 'x list \<Rightarrow> ('e, unit) outcome" where
  "check_all f xs = try_for (\<lambda>x _. f x) xs ()"

fun try_map :: "('x \<Rightarrow> ('e, 'y) outcome) \<Rightarrow> 'x list \<Rightarrow> ('e, 'y list) outcome" where
  "try_map f [] = Ret []"
| "try_map f (x # xs) = obind (f x) (\<lambda>y. obind (try_map f xs) (\<lambda>ys. Ret (y # ys)))"

lemma obind_cong [fundef_cong]:
  "m = n \<Longrightarrow> (\<And>x. n = Ret x \<Longrightarrow> f x = g x) \<Longrightarrow> obind m f = obind n g"
  by (cases n) auto

lemma obind_Ret_iff [outcome_simps]: "obind m f = Ret y \<longleftrightarrow> (\<exists>x. m = Ret x \<and> f x = Ret y)"
  by (cases m) auto

lemma obind_Fail_iff [outcome_simps]:
  "obind m f = Fail e \<longleftrightarrow> m = Fail e \<or> (\<exists>x. m = Ret x \<and> f x = Fail e)"
  by (cases m) auto

lemma obind_Panic_iff [outcome_simps]:
  "obind m f = Panic \<longleftrightarrow> m = Panic \<or> (\<exists>x. m = Ret x \<and> f x = Panic)"
  by (cases m) auto

lemma omap_err_Ret_iff [outcome_simps]: "omap_err g m = Ret x \<longleftrightarrow> m = Ret x"
  by (cases m) auto

lemma omap_err_Fail_iff [outcome_simps]: "omap_err g m = Fail e \<longleftrightarrow> (\<exists>d. m = Fail d \<and> e = g d)"
  by (cases m) auto

lemma omap_err_Panic_iff [outcome_simps]: "omap_err g m = Panic \<longleftrightarrow> m = Panic"
  by (cases m) auto

lemma expect_simps [simp]: "expect (Some x) = Ret x" "expect None = Panic"
  by (simp_all add: expect_def)

lemma ok_or_simps [simp]: "ok_or e (Some x) = Ret x" "ok_or e None = Fail e"
  by (simp_all add: ok_or_def)

lemma expect_Ret_iff [outcome_simps]: "expect m = Ret x \<longleftrightarrow> m = Some x"
  by (cases m) auto

lemma expect_Panic_iff [outcome_simps]: "expect m = Panic \<longleftrightarrow> m = None"
  by (cases m) auto

lemma expect_not_Fail [simp]: "expect m \<noteq> Fail e"
  by (cases m) auto

lemma ok_or_Ret_iff [outcome_simps]: "ok_or e m = Ret x \<longleftrightarrow> m = Some x"
  by (cases m) auto

lemma ok_or_Fail_iff [outcome_simps]: "ok_or e m = Fail d \<longleftrightarrow> m = None \<and> d = e"
  by (cases m) auto

lemma ok_or_not_Panic [simp]: "ok_or e m \<noteq> Panic"
  by (cases m) auto

lemma obind_assoc: "obind (obind m f) g = obind m (\<lambda>x. obind (f x) g)"
  by (cases m) auto

lemma try_for_append: "try_for f (xs @ ys) s = obind (try_for f xs s) (try_for f ys)"
proof (induction xs arbitrary: s)
  case (Cons x xs)
  then have "try_for f (xs @ ys) = (\<lambda>t. obind (try_for f xs t) (try_for f ys))"
    by (rule ext)
  then show ?case by (simp add: obind_assoc)
qed simp

text \<open>The loop rule: what every round keeps holds of the result.\<close>

lemma try_for_invariant:
  assumes "try_for f xs s = Ret s'" and "P s"
    and "\<And>x t t'. x \<in> set xs \<Longrightarrow> P t \<Longrightarrow> f x t = Ret t' \<Longrightarrow> P t'"
  shows "P s'"
  using assms
proof (induction xs arbitrary: s)
  case Nil
  then show ?case by simp
next
  case (Cons x xs)
  from Cons.prems(1) obtain t where t: "f x s = Ret t" and rest: "try_for f xs t = Ret s'"
    by (auto simp: outcome_simps)
  have "P t" using Cons.prems(2,3) t by auto
  from Cons.IH [OF rest this] Cons.prems(3) show ?case by auto
qed

lemma try_for_total:
  assumes "P s"
    and "\<And>x t. x \<in> set xs \<Longrightarrow> P t \<Longrightarrow> \<exists>t'. f x t = Ret t' \<and> P t'"
  shows "\<exists>s'. try_for f xs s = Ret s' \<and> P s'"
  using assms
proof (induction xs arbitrary: s)
  case Nil
  then show ?case by simp
next
  case (Cons x xs)
  then obtain t where "f x s = Ret t" "P t" by (metis list.set_intros(1))
  with Cons show ?case by auto
qed

text \<open>A loop whose rounds either keep \<open>P\<close> or leave with an error described by \<open>Q\<close>.\<close>

lemma try_for_cases:
  assumes "P s"
    and "\<And>x t. x \<in> set xs \<Longrightarrow> P t \<Longrightarrow>
      (\<exists>t'. f x t = Ret t' \<and> P t') \<or> (\<exists>e. f x t = Fail e \<and> Q e)"
  shows "(\<exists>s'. try_for f xs s = Ret s' \<and> P s') \<or> (\<exists>e. try_for f xs s = Fail e \<and> Q e)"
  using assms
proof (induction xs arbitrary: s)
  case Nil
  then show ?case by simp
next
  case (Cons x xs)
  from Cons.prems(2) [of x s] Cons.prems(1)
  consider t where "f x s = Ret t" "P t" | e where "f x s = Fail e" "Q e" by auto
  then show ?case
  proof cases
    case 1
    with Cons.IH [of t] Cons.prems(2) show ?thesis by auto
  qed auto
qed

text \<open>A loop that collects its elements into a growing set.\<close>

lemma try_for_collects:
  assumes "try_for f xs s = Ret s'" and "P s"
    and "\<And>x t t'. x \<in> set xs \<Longrightarrow> P t \<Longrightarrow> f x t = Ret t' \<Longrightarrow> P t' \<and> x \<in> S t' \<and> S t \<subseteq> S t'"
  shows "P s' \<and> set xs \<subseteq> S s' \<and> S s \<subseteq> S s'"
  using assms
proof (induction xs arbitrary: s)
  case Nil
  then show ?case by simp
next
  case (Cons x xs)
  from Cons.prems(1) obtain t where t: "f x s = Ret t" and rest: "try_for f xs t = Ret s'"
    by (auto simp: outcome_simps)
  from Cons.prems(3) [OF _ Cons.prems(2) t] have "P t" "x \<in> S t" "S s \<subseteq> S t" by auto
  moreover from \<open>P t\<close> have "P s' \<and> set xs \<subseteq> S s' \<and> S t \<subseteq> S s'"
    by (rule Cons.IH [OF rest]) (use Cons.prems(3) in auto)
  ultimately show ?case by auto
qed

lemma check_all_Ret_iff [outcome_simps]:
  "check_all f xs = Ret () \<longleftrightarrow> (\<forall>x\<in>set xs. f x = Ret ())"
  unfolding check_all_def by (induction xs) (auto simp: outcome_simps)

lemma check_all_simps [simp]:
  "check_all f [] = Ret ()"
  "check_all f (x # xs) = obind (f x) (\<lambda>_. check_all f xs)"
proof -
  have "(\<lambda>_. try_for (\<lambda>x _. f x) xs ()) = try_for (\<lambda>x _. f x) xs" by auto
  then show "check_all f (x # xs) = obind (f x) (\<lambda>_. check_all f xs)" by (simp add: check_all_def)
qed (simp add: check_all_def)

lemma check_all_not_Panic: "(\<And>x. x \<in> set xs \<Longrightarrow> f x \<noteq> Panic) \<Longrightarrow> check_all f xs \<noteq> Panic"
  by (induction xs) (auto simp: outcome_simps)

lemma try_map_Ret_iff:
  "try_map f xs = Ret ys \<longleftrightarrow> list_all2 (\<lambda>x y. f x = Ret y) xs ys"
  by (induction xs arbitrary: ys) (auto simp: outcome_simps list_all2_Cons1)

lemma try_map_Ret: "(\<And>x. x \<in> set xs \<Longrightarrow> f x = Ret (g x)) \<Longrightarrow> try_map f xs = Ret (map g xs)"
  by (induction xs) auto

subsection \<open>Counters that saturate\<close>

definition u64_max :: nat where
  "u64_max = 2 ^ 64 - 1"

definition sat_inc_u64 :: "nat \<Rightarrow> nat" where
  "sat_inc_u64 n = min (n + 1) u64_max"

lemma sat_inc_u64_le: "n \<le> u64_max \<Longrightarrow> n \<le> sat_inc_u64 n"
  by (simp add: sat_inc_u64_def)

lemma sat_inc_u64_less: "n < u64_max \<Longrightarrow> n < sat_inc_u64 n"
  by (simp add: sat_inc_u64_def)

lemma sat_inc_u64_bound [simp]: "sat_inc_u64 n \<le> u64_max"
  by (simp add: sat_inc_u64_def)

subsection \<open>Pushing onto a vector unless present\<close>

definition push_unique :: "'a list \<Rightarrow> 'a \<Rightarrow> 'a list" where
  "push_unique xs x = (if x \<in> set xs then xs else xs @ [x])"

definition extend_unique :: "'a list \<Rightarrow> 'a list \<Rightarrow> 'a list" where
  "extend_unique xs ys = fold (\<lambda>y zs. push_unique zs y) ys xs"

lemma set_push_unique [simp]: "set (push_unique xs x) = insert x (set xs)"
  by (auto simp: push_unique_def)

lemma distinct_push_unique [simp]: "distinct (push_unique xs x) = distinct xs"
  by (auto simp: push_unique_def)

lemma set_extend_unique [simp]: "set (extend_unique xs ys) = set xs \<union> set ys"
  unfolding extend_unique_def by (induction ys arbitrary: xs) auto

lemma distinct_extend_unique [simp]: "distinct xs \<Longrightarrow> distinct (extend_unique xs ys)"
  unfolding extend_unique_def by (induction ys arbitrary: xs) auto

lemma extend_unique_simps [simp]:
  "extend_unique xs [] = xs"
  "extend_unique xs (y # ys) = extend_unique (push_unique xs y) ys"
  by (simp_all add: extend_unique_def)

lemma extend_unique_eq_Nil [simp]: "extend_unique xs ys = [] \<longleftrightarrow> xs = [] \<and> ys = []"
  by (metis Un_empty set_empty set_extend_unique)

text \<open>A loop that collects what every round yields, without repetition.\<close>

lemma try_for_extend:
  assumes "\<And>x. x \<in> set xs \<Longrightarrow> \<exists>ys. f x = Ret ys \<and> ys \<noteq> [] \<and> (\<forall>y \<in> set ys. Q y)"
    and "\<forall>z \<in> set acc. Q z"
  shows "\<exists>zs. try_for (\<lambda>x acc. obind (f x) (\<lambda>ys. Ret (extend_unique acc ys))) xs acc = Ret zs \<and>
    (xs \<noteq> [] \<or> acc \<noteq> [] \<longrightarrow> zs \<noteq> []) \<and> (\<forall>z \<in> set zs. Q z)"
  using assms
proof (induction xs arbitrary: acc)
  case Nil
  then show ?case by simp
next
  case (Cons x xs)
  from Cons.prems(1) [of x] obtain ys where ys: "f x = Ret ys" "ys \<noteq> []" "\<forall>y \<in> set ys. Q y" by auto
  have "\<forall>z \<in> set (extend_unique acc ys). Q z" using ys Cons.prems(2) by auto
  from Cons.IH [OF _ this] Cons.prems(1) ys show ?case by simp
qed

subsection \<open>Loops and steps over a state that survives a failure\<close>

text \<open>
  A method with \<open>&mut self\<close> that leaves with \<open>?\<close> keeps what it has changed so far.  Such a
  method is an \<open>action\<close>: it returns its outcome and the state as it is then.
\<close>

type_synonym ('s, 'e, 'a) action = "'s \<Rightarrow> ('e, 'a) outcome \<times> 's"

definition abind :: "('s, 'e, 'a) action \<Rightarrow> ('a \<Rightarrow> ('s, 'e, 'b) action) \<Rightarrow> ('s, 'e, 'b) action" where
  "abind m f s = (case m s of
     (Ret x, t) \<Rightarrow> f x t
   | (Fail e, t) \<Rightarrow> (Fail e, t)
   | (Panic, t) \<Rightarrow> (Panic, t))"

definition areturn :: "'a \<Rightarrow> ('s, 'e, 'a) action" where
  "areturn x s = (Ret x, s)"

definition alift :: "('e, 'a) outcome \<Rightarrow> ('s, 'e, 'a) action" where
  "alift r s = (r, s)"

fun run_for :: "('x \<Rightarrow> 's \<Rightarrow> ('e, 's) outcome) \<Rightarrow> 'x list \<Rightarrow> 's \<Rightarrow> ('e, unit) outcome \<times> 's" where
  "run_for f [] s = (Ret (), s)"
| "run_for f (x # xs) s = (case f x s of
     Ret t \<Rightarrow> run_for f xs t
   | Fail e \<Rightarrow> (Fail e, s)
   | Panic \<Rightarrow> (Panic, s))"

lemma run_for_Ret_iff: "run_for f xs s = (Ret (), t) \<longleftrightarrow> try_for f xs s = Ret t"
  by (induction xs arbitrary: s) (auto split: outcome.splits)

lemma areturn_simps [simp]: "areturn x s = (Ret x, s)" "alift r s = (r, s)"
  by (simp_all add: areturn_def alift_def)

lemma abind_Ret_iff [outcome_simps]:
  "abind m f s = (Ret y, u) \<longleftrightarrow> (\<exists>x t. m s = (Ret x, t) \<and> f x t = (Ret y, u))"
  by (auto simp: abind_def split: outcome.splits prod.splits)

lemma abind_Panic_iff [outcome_simps]:
  "abind m f s = (Panic, u) \<longleftrightarrow> m s = (Panic, u) \<or> (\<exists>x t. m s = (Ret x, t) \<and> f x t = (Panic, u))"
  by (auto simp: abind_def split: outcome.splits prod.splits)

lemma abind_Fail_iff [outcome_simps]:
  "abind m f s = (Fail e, u) \<longleftrightarrow> m s = (Fail e, u) \<or> (\<exists>x t. m s = (Ret x, t) \<and> f x t = (Fail e, u))"
  by (auto simp: abind_def split: outcome.splits prod.splits)

end
