(* ===== verification/Utf8.thy ===== *)
theory Utf8
  imports Prelude
begin

text \<open>
  Rust strings.  A \<open>str\<close> is its UTF-8 bytes, one \<open>char\<close> of HOL per byte, so that offsets and
  lengths are byte offsets as in the code.  \<open>utf8_ok\<close> is the validity check of
  \<open>core::str::from_utf8\<close> (the invariant of every Rust string), \<open>char_indices\<close> the decoding
  iterator, and \<open>trim\<close>, \<open>is_char_boundary\<close>, \<open>char::is_whitespace\<close> and
  \<open>char::is_control\<close> follow the standard library.
\<close>

type_synonym str = string

abbreviation byte :: "char \<Rightarrow> nat" where
  "byte c \<equiv> of_char c"

definition is_cont :: "char \<Rightarrow> bool" where
  "is_cont c \<longleftrightarrow> 128 \<le> byte c \<and> byte c < 192"

definition is_char_boundary :: "str \<Rightarrow> nat \<Rightarrow> bool" where
  "is_char_boundary s i \<longleftrightarrow>
     (if i = 0 then True
      else if i \<ge> length s then i = length s
      else \<not> is_cont (s ! i))"

subsection \<open>Validity\<close>

definition second_byte_ok :: "nat \<Rightarrow> nat \<Rightarrow> bool" where
  "second_byte_ok x y \<longleftrightarrow>
     (if x = 224 then 160 \<le> y \<and> y < 192
      else if x = 237 then 128 \<le> y \<and> y < 160
      else if x = 240 then 144 \<le> y \<and> y < 192
      else if x = 244 then 128 \<le> y \<and> y < 144
      else 128 \<le> y \<and> y < 192)"

text \<open>The width of the well-formed sequence a string starts with.\<close>

definition utf8_step :: "str \<Rightarrow> nat option" where
  "utf8_step s =
     (case s of [] \<Rightarrow> None
      | a # s1 \<Rightarrow>
        (let x = byte a in
         if x < 128 then Some 1
         else if 194 \<le> x \<and> x < 224 then
           (case s1 of b # _ \<Rightarrow> if is_cont b then Some 2 else None | _ \<Rightarrow> None)
         else if 224 \<le> x \<and> x < 240 then
           (case s1 of b # c # _ \<Rightarrow> if second_byte_ok x (byte b) \<and> is_cont c then Some 3 else None
            | _ \<Rightarrow> None)
         else if 240 \<le> x \<and> x < 245 then
           (case s1 of b # c # d # _ \<Rightarrow>
              if second_byte_ok x (byte b) \<and> is_cont c \<and> is_cont d then Some 4 else None
            | _ \<Rightarrow> None)
         else None))"

lemma second_byte_cont: "second_byte_ok x (byte b) \<Longrightarrow> is_cont b"
  by (auto simp: second_byte_ok_def is_cont_def split: if_splits)

lemma utf8_step_cases [consumes 1, case_names One Two Three Four]:
  assumes "utf8_step s = Some n"
  obtains a t where "s = a # t" "n = 1" "byte a < 128"
  | a b t where "s = a # b # t" "n = 2" "194 \<le> byte a" "byte a < 224" "is_cont b"
  | a b c t where "s = a # b # c # t" "n = 3" "224 \<le> byte a" "byte a < 240"
      "second_byte_ok (byte a) (byte b)" "is_cont c"
  | a b c d t where "s = a # b # c # d # t" "n = 4" "240 \<le> byte a" "byte a < 245"
      "second_byte_ok (byte a) (byte b)" "is_cont c" "is_cont d"
  using assms unfolding utf8_step_def Let_def
  by (simp split: list.splits if_splits)

lemma utf8_step_simps:
  "byte a < 128 \<Longrightarrow> utf8_step (a # t) = Some 1"
  "194 \<le> byte a \<Longrightarrow> byte a < 224 \<Longrightarrow> is_cont b \<Longrightarrow> utf8_step (a # b # t) = Some 2"
  "224 \<le> byte a \<Longrightarrow> byte a < 240 \<Longrightarrow> second_byte_ok (byte a) (byte b) \<Longrightarrow> is_cont c \<Longrightarrow>
    utf8_step (a # b # c # t) = Some 3"
  "240 \<le> byte a \<Longrightarrow> byte a < 245 \<Longrightarrow> second_byte_ok (byte a) (byte b) \<Longrightarrow> is_cont c \<Longrightarrow> is_cont d \<Longrightarrow>
    utf8_step (a # b # c # d # t) = Some 4"
  by (simp_all add: utf8_step_def Let_def)

lemma utf8_step_Some:
  assumes "utf8_step s = Some n"
  shows "0 < n" "n \<le> length s" "\<not> is_cont (s ! 0)" "\<And>i. 0 < i \<Longrightarrow> i < n \<Longrightarrow> is_cont (s ! i)"
proof -
  have "0 < n \<and> n \<le> length s \<and> \<not> is_cont (s ! 0)"
    using assms by (cases rule: utf8_step_cases) (auto simp: is_cont_def)
  then show "0 < n" "n \<le> length s" "\<not> is_cont (s ! 0)" by auto
  fix i assume i: "0 < i" "i < n"
  then have "i = 1 \<and> 2 \<le> n \<or> i = 2 \<and> 3 \<le> n \<or> i = 3 \<and> 4 \<le> n \<or> 4 < n" by linarith
  then show "is_cont (s ! i)"
    using assms
    by (auto elim!: utf8_step_cases dest: second_byte_cont simp: numeral_2_eq_2 numeral_3_eq_3)
qed

function utf8_ok :: "str \<Rightarrow> bool" where
  "utf8_ok s = (s = [] \<or> (case utf8_step s of None \<Rightarrow> False | Some n \<Rightarrow> utf8_ok (drop n s)))"
  by pat_completeness auto
termination
proof (relation "measure length")
  fix s n assume st: "utf8_step s = Some n"
  from utf8_step_Some(1,2) [OF st] show "(drop n s, s) \<in> measure length" by simp
qed simp

declare utf8_ok.simps [simp del]

lemma utf8_ok_Nil [simp]: "utf8_ok []"
  by (simp add: utf8_ok.simps)

lemma utf8_ok_step:
  "s \<noteq> [] \<Longrightarrow> utf8_ok s \<longleftrightarrow> (\<exists>n. utf8_step s = Some n \<and> utf8_ok (drop n s))"
  by (subst utf8_ok.simps) (auto split: option.splits)

text \<open>Induction over the characters of a valid string.\<close>

lemma utf8_induct [consumes 1, case_names Nil Char]:
  assumes "utf8_ok s"
    and "P []"
    and "\<And>s n. utf8_step s = Some n \<Longrightarrow> utf8_ok (drop n s) \<Longrightarrow> P (drop n s) \<Longrightarrow> P s"
  shows "P s"
  using assms(1)
proof (induction s rule: utf8_ok.induct)
  case (1 s)
  then show ?case
    using assms(2,3) utf8_ok_step by (cases "s = []") auto
qed

lemma utf8_step_append: "utf8_step s = Some n \<Longrightarrow> utf8_step (s @ t) = Some n"
  by (erule utf8_step_cases) (simp_all add: utf8_step_simps)

lemma utf8_step_take: "utf8_step s = Some n \<Longrightarrow> n \<le> k \<Longrightarrow> utf8_step (take k s) = Some n"
  by (erule utf8_step_cases) (auto simp: utf8_step_simps take_Cons split: nat.splits)

lemma utf8_ok_append: "utf8_ok s \<Longrightarrow> utf8_ok t \<Longrightarrow> utf8_ok (s @ t)"
proof (induction s rule: utf8_induct)
  case Nil
  then show ?case by simp
next
  case (Char s n)
  then have "utf8_step (s @ t) = Some n" "n \<le> length s"
    by (auto intro: utf8_step_append dest: utf8_step_Some)
  with Char show ?case
    by (subst utf8_ok_step) (auto simp: utf8_step_def)
qed

lemma boundary_0 [simp]: "is_char_boundary s 0"
  by (simp add: is_char_boundary_def)

lemma boundary_length [simp]: "is_char_boundary s (length s)"
  by (simp add: is_char_boundary_def)

lemma boundary_le: "is_char_boundary s i \<Longrightarrow> i \<le> length s"
  by (auto simp: is_char_boundary_def split: if_splits)

lemma boundary_step:
  assumes "utf8_step s = Some n" and "is_char_boundary s i" and "0 < i"
  shows "n \<le> i \<and> is_char_boundary (drop n s) (i - n)"
proof -
  have "n \<le> i"
  proof (rule ccontr)
    assume "\<not> n \<le> i"
    then have "is_cont (s ! i)" "i < length s"
      using assms(3) utf8_step_Some [OF assms(1)] by auto
    then show False using assms(2,3) by (simp add: is_char_boundary_def)
  qed
  then show ?thesis
    using assms(2) by (auto simp: is_char_boundary_def split: if_splits)
qed

lemma utf8_ok_take_drop:
  assumes "utf8_ok s" and "is_char_boundary s i"
  shows "utf8_ok (take i s) \<and> utf8_ok (drop i s)"
  using assms
proof (induction s arbitrary: i rule: utf8_induct)
  case Nil
  then show ?case by simp
next
  case (Char s n)
  note st = utf8_step_Some [OF Char.hyps(1)]
  show ?case
  proof (cases "i = 0")
    case True
    then show ?thesis using Char by (subst (2) utf8_ok_step) (auto simp: utf8_step_def)
  next
    case False
    then have ni: "n \<le> i" and b: "is_char_boundary (drop n s) (i - n)"
      using boundary_step Char by auto
    from Char.IH [OF b] have IH: "utf8_ok (take (i - n) (drop n s))" "utf8_ok (drop i s)"
      using ni by auto
    have "drop n (take i s) = take (i - n) (drop n s)" by (simp add: drop_take)
    moreover have "take i s \<noteq> []" using st False by auto
    ultimately have "utf8_ok (take i s)"
      using IH(1) utf8_step_take [OF Char.hyps(1) ni] by (subst utf8_ok_step) auto
    then show ?thesis using IH(2) by simp
  qed
qed

lemma boundary_drop:
  "is_char_boundary s i \<Longrightarrow> is_char_boundary (drop i s) j \<longleftrightarrow> is_char_boundary s (i + j)"
  by (auto simp: is_char_boundary_def split: if_splits)

lemma boundary_take:
  "is_char_boundary s k \<Longrightarrow> j \<le> k \<Longrightarrow> is_char_boundary (take k s) j \<longleftrightarrow> is_char_boundary s j"
  by (auto simp: is_char_boundary_def min_def split: if_splits)

lemma boundary_append:
  assumes "utf8_ok t"
  shows "is_char_boundary (s @ t) (length s + i) \<longleftrightarrow> is_char_boundary t i"
proof (cases "i = 0")
  case True
  show ?thesis
  proof (cases "t = []")
    case False
    with assms obtain n where "utf8_step t = Some n" by (auto simp: utf8_ok_step)
    then have "\<not> is_cont (t ! 0)" by (rule utf8_step_Some)
    then show ?thesis using True False by (auto simp: is_char_boundary_def nth_append)
  qed (simp add: True)
next
  case False
  then show ?thesis by (auto simp: is_char_boundary_def nth_append)
qed

lemma boundary_append_left:
  assumes "utf8_ok t" and "i \<le> length s"
  shows "is_char_boundary (s @ t) i \<longleftrightarrow> is_char_boundary s i"
  using boundary_append [OF assms(1), of s 0] assms(2)
  by (cases "i = length s") (auto simp: is_char_boundary_def nth_append)

text \<open>ASCII bytes are whole characters.\<close>

lemma boundary_ascii: "i < length s \<Longrightarrow> byte (s ! i) < 128 \<Longrightarrow> is_char_boundary s i"
  by (auto simp: is_char_boundary_def is_cont_def)

lemma boundary_after_ascii:
  assumes "utf8_ok s" and "i < length s" and "byte (s ! i) < 128"
  shows "is_char_boundary s (Suc i)"
proof -
  have b: "is_char_boundary s i" using assms(2,3) by (rule boundary_ascii)
  then have ok: "utf8_ok (drop i s)" using utf8_ok_take_drop assms(1) by blast
  have d: "drop i s = s ! i # drop (Suc i) s" using assms(2) by (simp add: Cons_nth_drop_Suc)
  have "utf8_step (drop i s) = Some 1" using assms(3) d by (simp add: utf8_step_def)
  then have okS: "utf8_ok (drop (Suc i) s)"
    using ok d utf8_ok_step [of "drop i s"] by auto
  have "is_char_boundary (take (Suc i) s @ drop (Suc i) s) (length (take (Suc i) s) + 0)"
    using boundary_append [OF okS, of "take (Suc i) s" 0] by simp
  then show ?thesis using assms(2) by simp
qed

subsection \<open>Characters\<close>

definition char_width :: "char \<Rightarrow> nat" where
  "char_width a =
     (if byte a < 128 then 1 else if byte a < 224 then 2 else if byte a < 240 then 3 else 4)"

definition byte_at :: "str \<Rightarrow> nat \<Rightarrow> nat" where
  "byte_at s i = (if i < length s then byte (s ! i) mod 64 else 0)"

definition decode_char :: "str \<Rightarrow> nat" where
  "decode_char s =
     (case s of [] \<Rightarrow> 0
      | a # _ \<Rightarrow>
        (case char_width a of
           Suc 0 \<Rightarrow> byte a
         | Suc (Suc 0) \<Rightarrow> (byte a mod 32) * 64 + byte_at s 1
         | Suc (Suc (Suc 0)) \<Rightarrow> (byte a mod 16) * 4096 + byte_at s 1 * 64 + byte_at s 2
         | _ \<Rightarrow> (byte a mod 8) * 262144 + byte_at s 1 * 4096 + byte_at s 2 * 64 + byte_at s 3))"

text \<open>\<open>char_indices\<close>, with the width of each character kept beside its offset and code point.\<close>

function chars_from :: "nat \<Rightarrow> str \<Rightarrow> (nat \<times> nat \<times> nat) list" where
  "chars_from off [] = []"
| "chars_from off (a # s) =
     (off, decode_char (a # s), char_width a) #
     chars_from (off + char_width a) (drop (char_width a) (a # s))"
  by pat_completeness auto
termination
  by (relation "measure (length \<circ> snd)") (auto simp: char_width_def)

abbreviation char_indices :: "str \<Rightarrow> (nat \<times> nat \<times> nat) list" where
  "char_indices s \<equiv> chars_from 0 s"

definition is_whitespace :: "nat \<Rightarrow> bool" where
  "is_whitespace c \<longleftrightarrow>
     (9 \<le> c \<and> c \<le> 13) \<or> c = 32 \<or> c = 133 \<or> c = 160 \<or> c = 5760 \<or> (8192 \<le> c \<and> c \<le> 8202) \<or>
     c = 8232 \<or> c = 8233 \<or> c = 8239 \<or> c = 8287 \<or> c = 12288"

definition is_control :: "nat \<Rightarrow> bool" where
  "is_control c \<longleftrightarrow> c < 32 \<or> (127 \<le> c \<and> c < 160)"

definition leading_whitespace_end :: "str \<Rightarrow> nat" where
  "leading_whitespace_end s =
     (case find (\<lambda>(off, c, w). \<not> is_whitespace c) (char_indices s) of
        None \<Rightarrow> length s | Some (off, c, w) \<Rightarrow> off)"

definition trim_end_whitespace :: "str \<Rightarrow> nat" where
  "trim_end_whitespace s =
     (case find (\<lambda>(off, c, w). \<not> is_whitespace c) (rev (char_indices s)) of
        None \<Rightarrow> 0 | Some (off, c, w) \<Rightarrow> off + w)"

definition str_trim :: "str \<Rightarrow> str" where
  "str_trim s =
     (let a = leading_whitespace_end s; b = trim_end_whitespace s
      in if a < b then take (b - a) (drop a s) else [])"

text \<open>\<open>s.trim().is_empty()\<close>\<close>

definition is_blank :: "str \<Rightarrow> bool" where
  "is_blank s \<longleftrightarrow> str_trim s = []"

lemma utf8_step_char_width: "utf8_step (a # s) = Some n \<Longrightarrow> char_width a = n"
  by (erule utf8_step_cases) (simp_all add: char_width_def)

text \<open>Every character of a valid string starts and ends at a boundary.\<close>

lemma chars_from_boundary:
  assumes "utf8_ok s" and "(off, c, w) \<in> set (chars_from k s)"
  shows "k \<le> off \<and> 0 < w \<and> is_char_boundary s (off - k) \<and> is_char_boundary s (off - k + w)"
  using assms
proof (induction s arbitrary: k rule: utf8_induct)
  case Nil
  then show ?case by simp
next
  case (Char s n)
  note st = utf8_step_Some [OF Char.hyps(1)]
  obtain a t where s: "s = a # t" using st by (cases s) auto
  have w: "char_width a = n" using Char.hyps(1) s utf8_step_char_width by blast
  have bn: "is_char_boundary s n"
    using boundary_append [OF Char.hyps(2), of "take n s" 0] st(2) by simp
  have "(off, c, w) = (k, decode_char s, n) \<or> (off, c, w) \<in> set (chars_from (k + n) (drop n s))"
    using Char.prems s w by simp
  then show ?case
  proof
    assume "(off, c, w) = (k, decode_char s, n)"
    then show ?case using st(1) bn by simp
  next
    assume "(off, c, w) \<in> set (chars_from (k + n) (drop n s))"
    then have IH: "k + n \<le> off" "0 < w" "is_char_boundary (drop n s) (off - (k + n))"
      "is_char_boundary (drop n s) (off - (k + n) + w)"
      using Char.IH by blast+
    have e: "n + (off - (k + n)) = off - k" "n + (off - (k + n) + w) = off - k + w"
      using IH(1) by auto
    show ?case
      using IH boundary_drop [OF bn, of "off - (k + n)"] boundary_drop [OF bn, of "off - (k + n) + w"]
      unfolding e by simp
  qed
qed

lemma find_SomeD: "find P xs = Some x \<Longrightarrow> x \<in> set xs \<and> P x"
  by (auto simp: find_Some_iff)

lemma leading_whitespace_end_boundary:
  "utf8_ok s \<Longrightarrow> is_char_boundary s (leading_whitespace_end s)"
  unfolding leading_whitespace_end_def
  by (auto split: option.splits dest!: find_SomeD dest: chars_from_boundary)

lemma trim_end_whitespace_boundary:
  "utf8_ok s \<Longrightarrow> is_char_boundary s (trim_end_whitespace s)"
  unfolding trim_end_whitespace_def
  by (auto split: option.splits dest!: find_SomeD dest: chars_from_boundary)

subsection \<open>The characters of a string\<close>

definition codes :: "str \<Rightarrow> nat list" where
  "codes s = map (\<lambda>(off, c, w). c) (char_indices s)"

lemma map_code_chars_from: "map (\<lambda>(off, c, w). c) (chars_from k s) = codes s"
proof -
  have "map (\<lambda>(off, c, w). c) (chars_from k s) = map (\<lambda>(off, c, w). c) (chars_from j s)" for j
    by (induction k s arbitrary: j rule: chars_from.induct) auto
  then show ?thesis by (simp add: codes_def)
qed

lemma codes_Nil [simp]: "codes [] = []"
  by (simp add: codes_def)

lemma codes_code: "(off, c, w) \<in> set (char_indices s) \<Longrightarrow> c \<in> set (codes s)"
  by (force simp: codes_def)

lemma chars_from_offsets:
  "sorted_wrt (\<lambda>(o1, _, w1) (o2, _, _). o1 + w1 \<le> o2) (chars_from k s) \<and>
   (\<forall>(off, _, w) \<in> set (chars_from k s). k \<le> off)"
  by (induction k s rule: chars_from.induct) fastforce+

lemma decode_char_append: "utf8_step s = Some n \<Longrightarrow> decode_char (s @ t) = decode_char s"
  by (erule utf8_step_cases)
    (auto simp: decode_char_def byte_at_def char_width_def nth_append numeral_2_eq_2 numeral_3_eq_3)

lemma chars_from_append:
  "utf8_ok s \<Longrightarrow> chars_from k (s @ t) = chars_from k s @ chars_from (k + length s) t"
proof (induction s arbitrary: k rule: utf8_induct)
  case (Char s n)
  note st = utf8_step_Some [OF Char.hyps(1)]
  obtain a u where s: "s = a # u" using st by (cases s) auto
  have w: "char_width a = n" using Char.hyps(1) s utf8_step_char_width by blast
  have dr: "drop n (s @ t) = drop n s @ t" using st(2) by simp
  have un: "chars_from k (s @ v) = (k, decode_char (s @ v), n) # chars_from (k + n) (drop n (s @ v))" for v
    using s w by simp
  show ?case
    using Char.IH [of "k + n"] decode_char_append [OF Char.hyps(1), of t] st(2) un [of "[]"]
    unfolding un [of t] dr by simp
qed simp

lemma codes_append [simp]: "utf8_ok s \<Longrightarrow> codes (s @ t) = codes s @ codes t"
  unfolding codes_def [of "s @ t"] by (simp only: chars_from_append map_append map_code_chars_from)

lemma chars_from_single:
  assumes "utf8_step s = Some n"
  shows "utf8_ok (take n s)" "chars_from k (take n s) = [(k, decode_char s, n)]"
proof -
  note st = utf8_step_Some [OF assms]
  have st': "utf8_step (take n s) = Some n" using utf8_step_take [OF assms, of n] by simp
  obtain a t where s: "s = a # t" using st by (cases s) auto
  have w: "char_width a = n" using assms s utf8_step_char_width by blast
  obtain t' where t': "take n s = a # t'" using st s by (cases n) auto
  show "utf8_ok (take n s)" using st st' by (subst utf8_ok_step) auto
  have "decode_char (take n s) = decode_char s"
    using decode_char_append [OF st', of "drop n s"] by simp
  moreover have "drop n (a # t') = []" using t' by (metis drop_all length_take min.cobounded2)
  ultimately show "chars_from k (take n s) = [(k, decode_char s, n)]"
    using t' w by simp
qed

text \<open>The bytes of one character of a valid string are a valid string of that one character.\<close>

lemma chars_from_bytes:
  assumes "utf8_ok s" and "(off, c, w) \<in> set (chars_from k s)"
  shows "utf8_ok (take w (drop (off - k) s)) \<and> codes (take w (drop (off - k) s)) = [c] \<and>
    w \<le> length (drop (off - k) s)"
  using assms
proof (induction s arbitrary: k rule: utf8_induct)
  case (Char s n)
  note st = utf8_step_Some [OF Char.hyps(1)]
  obtain a t where s: "s = a # t" using st by (cases s) auto
  have w: "char_width a = n" using Char.hyps(1) s utf8_step_char_width by blast
  consider "(off, c, w) = (k, decode_char s, n)" | "(off, c, w) \<in> set (chars_from (k + n) (drop n s))"
    using Char.prems s w by auto
  then show ?case
  proof cases
    case 1
    then show ?thesis using chars_from_single [OF Char.hyps(1)] st by (simp add: codes_def)
  next
    case 2
    then have "k + n \<le> off" using chars_from_boundary [OF Char.hyps(2) 2] by simp
    then have e: "off - (k + n) + n = off - k" by simp
    show ?thesis using Char.IH [OF 2] unfolding drop_drop e by simp
  qed
qed simp

lemma find_nonblank_None:
  "find (\<lambda>(off, c, w). \<not> is_whitespace c) (char_indices s) = None \<longleftrightarrow>
   (\<forall>c \<in> set (codes s). is_whitespace c)"
  "find (\<lambda>(off, c, w). \<not> is_whitespace c) (rev (char_indices s)) = None \<longleftrightarrow>
   (\<forall>c \<in> set (codes s). is_whitespace c)"
proof -
  have R: "find (\<lambda>(off, c, w). \<not> is_whitespace c) xs = None \<longleftrightarrow>
    (\<forall>c \<in> set (map (\<lambda>(off, c, w). c) xs). is_whitespace c)" for xs :: "(nat \<times> nat \<times> nat) list"
    by (induction xs) auto
  show "find (\<lambda>(off, c, w). \<not> is_whitespace c) (char_indices s) = None \<longleftrightarrow>
    (\<forall>c \<in> set (codes s). is_whitespace c)"
    unfolding R codes_def ..
  show "find (\<lambda>(off, c, w). \<not> is_whitespace c) (rev (char_indices s)) = None \<longleftrightarrow>
    (\<forall>c \<in> set (codes s). is_whitespace c)"
    unfolding R codes_def by (simp only: set_map set_rev)
qed

lemma is_blank_iff:
  assumes "utf8_ok s"
  shows "is_blank s \<longleftrightarrow> (\<forall>c \<in> set (codes s). is_whitespace c)"
proof -
  let ?P = "\<lambda>(off :: nat, c, w :: nat). \<not> is_whitespace c"
  let ?xs = "char_indices s"
  note f1 = find_nonblank_None(1) [of s] and f2 = find_nonblank_None(2) [of s]
  show ?thesis
  proof (cases "\<forall>c \<in> set (codes s). is_whitespace c")
    case True
    then have "trim_end_whitespace s = 0" using f2 by (simp add: trim_end_whitespace_def)
    then show ?thesis using True by (simp add: is_blank_def str_trim_def)
  next
    case False
    then obtain x y where x: "find ?P ?xs = Some x" and y: "find ?P (rev ?xs) = Some y"
      using f1 f2 by (meson not_Some_eq)
    obtain o1 c1 w1 where x3: "x = (o1, c1, w1)" by (cases x)
    obtain o2 c2 w2 where y3: "y = (o2, c2, w2)" by (cases y)
    have my: "(o2, c2, w2) \<in> set ?xs" "?P (o2, c2, w2)"
      using find_SomeD [OF y] unfolding y3 by simp_all
    obtain i where i: "i < length ?xs" "?xs ! i = x" "\<And>j. j < i \<Longrightarrow> \<not> ?P (?xs ! j)"
      using x unfolding find_Some_iff by blast
    obtain j where j: "j < length ?xs" "?xs ! j = (o2, c2, w2)"
      using my(1) by (auto simp: in_set_conv_nth)
    have "\<not> j < i" using i(3) [of j] my(2) unfolding j(2) by blast
    then have "o1 \<le> o2"
      using sorted_wrt_nth_less [OF conjunct1 [OF chars_from_offsets [of 0 s]], of i j] i(2) j x3
      by (cases "i = j") auto
    moreover have "0 < w2" "is_char_boundary s (o2 + w2)"
      using chars_from_boundary [OF assms my(1)] by simp_all
    moreover have "leading_whitespace_end s = o1" "trim_end_whitespace s = o2 + w2"
      using x y x3 y3 by (simp_all add: leading_whitespace_end_def trim_end_whitespace_def)
    ultimately have "str_trim s \<noteq> []"
      using boundary_le [of s "o2 + w2"] by (simp add: str_trim_def)
    then show ?thesis using False by (simp add: is_blank_def)
  qed
qed

end
