(* ===== verification/Text_Range.thy ===== *)
theory Text_Range
  imports Utf8
begin

text \<open>
  \<open>skript-parser/src/text.rs\<close>: half-open UTF-8 byte ranges.  A range may be malformed
  (reversed, out of bounds, off a character boundary); \<open>is_valid_for\<close> is the check every
  other component runs before it slices.
\<close>

record text_range =
  range_start :: nat
  range_end :: nat

definition range_new :: "nat \<Rightarrow> nat \<Rightarrow> text_range" where
  "range_new a b = \<lparr>range_start = a, range_end = b\<rparr>"

definition range_empty :: "nat \<Rightarrow> text_range" where
  "range_empty a = range_new a a"

text \<open>\<open>saturating_sub\<close> is the subtraction of \<open>nat\<close>.\<close>

definition range_len :: "text_range \<Rightarrow> nat" where
  "range_len r = range_end r - range_start r"

definition range_is_empty :: "text_range \<Rightarrow> bool" where
  "range_is_empty r \<longleftrightarrow> range_start r = range_end r"

definition is_valid_for :: "text_range \<Rightarrow> str \<Rightarrow> bool" where
  "is_valid_for r s \<longleftrightarrow>
     range_start r \<le> range_end r \<and> range_end r \<le> length s \<and>
     is_char_boundary s (range_start r) \<and> is_char_boundary s (range_end r)"

text \<open>\<open>str::get\<close>: the substring, if both ends are boundaries in order.\<close>

definition str_slice :: "text_range \<Rightarrow> str \<Rightarrow> str option" where
  "str_slice r s =
     (if range_start r \<le> range_end r \<and> is_char_boundary s (range_start r) \<and> is_char_boundary s (range_end r)
      then Some (take (range_end r - range_start r) (drop (range_start r) s))
      else None)"

definition range_contains :: "text_range \<Rightarrow> text_range \<Rightarrow> bool" where
  "range_contains r q \<longleftrightarrow> range_start r \<le> range_start q \<and> range_end q \<le> range_end r"

definition intersection :: "text_range \<Rightarrow> text_range \<Rightarrow> text_range option" where
  "intersection r q =
     (let a = max (range_start r) (range_start q); b = min (range_end r) (range_end q)
      in if a < b then Some (range_new a b) else None)"

lemma range_new_simps [simp]:
  "range_start (range_new a b) = a" "range_end (range_new a b) = b"
  by (simp_all add: range_new_def)

lemma range_empty_simps [simp]:
  "range_start (range_empty a) = a" "range_end (range_empty a) = a"
  by (simp_all add: range_empty_def)

lemma range_eq_iff: "r = q \<longleftrightarrow> range_start r = range_start q \<and> range_end r = range_end q"
  for r q :: text_range
  by auto

lemma range_new_eq_iff [simp]: "range_new a b = range_new c d \<longleftrightarrow> a = c \<and> b = d"
  by (simp add: range_new_def)

lemma str_slice_valid:
  "is_valid_for r s \<Longrightarrow> str_slice r s = Some (take (range_len r) (drop (range_start r) s))"
  by (simp add: is_valid_for_def str_slice_def range_len_def)

lemma str_slice_Some_iff: "(\<exists>t. str_slice r s = Some t) \<longleftrightarrow> is_valid_for r s"
  by (auto simp: str_slice_def is_valid_for_def dest: boundary_le)

lemma str_slice_SomeD:
  assumes "str_slice r s = Some t"
  shows "is_valid_for r s" and "t = take (range_len r) (drop (range_start r) s)" and "length t = range_len r"
proof -
  show v: "is_valid_for r s" using assms str_slice_Some_iff by blast
  then show "t = take (range_len r) (drop (range_start r) s)" using assms by (simp add: str_slice_valid)
  then show "length t = range_len r" using v by (auto simp: is_valid_for_def range_len_def min_def)
qed

lemma str_slice_utf8_ok: "utf8_ok s \<Longrightarrow> str_slice r s = Some t \<Longrightarrow> utf8_ok t"
proof -
  assume ok: "utf8_ok s" and sl: "str_slice r s = Some t"
  then have v: "is_valid_for r s" and t: "t = take (range_len r) (drop (range_start r) s)"
    by (auto dest: str_slice_SomeD)
  let ?d = "drop (range_start r) s"
  have d: "utf8_ok ?d" using utf8_ok_take_drop ok v by (auto simp: is_valid_for_def)
  have "is_char_boundary ?d (range_len r)"
    using v by (simp add: is_valid_for_def boundary_drop range_len_def)
  then show "utf8_ok t" using utf8_ok_take_drop [OF d] t by blast
qed

lemma intersection_SomeD:
  assumes "intersection r q = Some t"
  shows "range_start t = max (range_start r) (range_start q)"
    "range_end t = min (range_end r) (range_end q)" "range_start t < range_end t"
  using assms by (auto simp: intersection_def Let_def split: if_splits)

lemma intersection_None_iff:
  "intersection r q = None \<longleftrightarrow> min (range_end r) (range_end q) \<le> max (range_start r) (range_start q)"
  by (auto simp: intersection_def Let_def)

text \<open>Taking bytes of a slice of a slice.\<close>

lemma take_drop_take_drop:
  "a + m \<le> n \<Longrightarrow> take m (drop a (take n (drop b s))) = take m (drop (b + a) s)"
  by (simp add: drop_take min_def add.commute)

end
