(* ===== verification/Raw_Lines.thy ===== *)
theory Raw_Lines
  imports Text_Range
begin

text \<open>
  The lexical half of \<open>skript-parser/src/raw_tree.rs\<close>: physical lines with their terminators, and
  the split of one line into code and comment (\<open>split_line\<close>), which follows Skript's own
  state machine over code, string and variable text.  Line feeds, carriage returns and the five
  significant characters are ASCII, so scanning by byte or by character sees the same positions.
\<close>

datatype line_ending = NoEnding | Lf | CrLf | Cr

definition line_ending_str :: "line_ending \<Rightarrow> str" where
  "line_ending_str e = (case e of
     NoEnding \<Rightarrow> [] | Lf \<Rightarrow> [CHR 0x0A] | CrLf \<Rightarrow> [CHR 0x0D, CHR 0x0A] | Cr \<Rightarrow> [CHR 0x0D])"

record physical_line =
  pl_number :: nat
  content_range :: text_range
  line_ending_range :: text_range
  full_range :: text_range
  pl_ending :: line_ending

definition make_line :: "nat \<Rightarrow> nat \<Rightarrow> nat \<Rightarrow> nat \<Rightarrow> line_ending \<Rightarrow> physical_line" where
  "make_line number start cursor end' ending =
     \<lparr>pl_number = number, content_range = range_new start cursor,
      line_ending_range = range_new cursor end', full_range = range_new start end', pl_ending = ending\<rparr>"

text \<open>The terminator that starts at a byte, with its length.\<close>

definition ending_at :: "str \<Rightarrow> nat \<Rightarrow> (line_ending \<times> nat) option" where
  "ending_at s i =
     (if s ! i = CHR 0x0A then Some (Lf, 1)
      else if s ! i = CHR 0x0D \<and> i + 1 < length s \<and> s ! (i + 1) = CHR 0x0A then Some (CrLf, 2)
      else if s ! i = CHR 0x0D then Some (Cr, 1)
      else None)"

function physical_loop :: "str \<Rightarrow> nat \<Rightarrow> nat \<Rightarrow> nat \<Rightarrow> physical_line list" where
  "physical_loop s start number cursor =
     (if cursor < length s then
        (case ending_at s cursor of
           Some (ending, n) \<Rightarrow>
             make_line number start cursor (cursor + n) ending #
             physical_loop s (cursor + n) (number + 1) (cursor + n)
         | None \<Rightarrow> physical_loop s start number (cursor + 1))
      else if start < length s then
        [make_line number start (length s) (length s) NoEnding]
      else [])"
  by pat_completeness auto
termination
  by (relation "measure (\<lambda>(s, _, _, cursor). length s - cursor)")
    (auto simp: ending_at_def split: if_splits)

declare physical_loop.simps [simp del]

definition physical_lines :: "str \<Rightarrow> physical_line list" where
  "physical_lines s = physical_loop s 0 0 0"

subsection \<open>Comments\<close>

datatype comment_kind = LineComment | BlockComment

record comment_split =
  comment_start :: nat
  comment_kind :: comment_kind

datatype block_action = OpenBlock text_range | CloseBlock

record line_split =
  split_value :: str
  split_comment :: "comment_split option"
  split_block_action :: "block_action option"

datatype multiline_support = Unsupported | TripleHash

definition for_skript_version :: "nat \<Rightarrow> nat \<Rightarrow> multiline_support" where
  "for_skript_version major minor =
     (if major > 2 \<or> (major = 2 \<and> minor \<ge> 9) then TripleHash else Unsupported)"

datatype split_state = Code | InString | Variable

abbreviation ch_percent :: nat where "ch_percent \<equiv> 37"
abbreviation ch_quote :: nat where "ch_quote \<equiv> 34"
abbreviation ch_hash :: nat where "ch_hash \<equiv> 35"
abbreviation ch_open :: nat where "ch_open \<equiv> 123"
abbreviation ch_close :: nat where "ch_close \<equiv> 125"

text \<open>The bytes of one character, as \<open>String::push\<close> appends them.\<close>

definition char_bytes :: "str \<Rightarrow> nat \<times> nat \<times> nat \<Rightarrow> str" where
  "char_bytes line ch = (case ch of (off, c, w) \<Rightarrow> take w (drop off line))"

text \<open>The state after one character: (state, previous state).\<close>

definition next_state :: "nat \<Rightarrow> split_state \<Rightarrow> split_state \<Rightarrow> split_state \<times> split_state" where
  "next_state c state previous =
     (if c = ch_percent then
        (let new = (if state = Code then previous else Code)
         in (new, if new = Code then state else previous))
      else if c = ch_quote then
        ((case state of Code \<Rightarrow> InString | InString \<Rightarrow> Code | Variable \<Rightarrow> Variable), previous)
      else if c = ch_open \<and> state \<noteq> InString then (Variable, previous)
      else if c = ch_close \<and> state \<noteq> InString then (Code, previous)
      else (state, previous))"

definition is_doubled :: "nat \<Rightarrow> (nat \<times> nat \<times> nat) list \<Rightarrow> split_state \<Rightarrow> bool" where
  "is_doubled c rest state \<longleftrightarrow>
     c \<in> {ch_percent, ch_quote, ch_hash} \<and>
     (case rest of [] \<Rightarrow> False | (_, d, _) # _ \<Rightarrow> d = c) \<and>
     (c \<noteq> ch_hash \<or> state \<noteq> InString)"

function split_inline_loop ::
    "str \<Rightarrow> split_state \<Rightarrow> split_state \<Rightarrow> str \<Rightarrow> (nat \<times> nat \<times> nat) list \<Rightarrow> line_split" where
  "split_inline_loop line state previous value [] =
     \<lparr>split_value = value, split_comment = None, split_block_action = None\<rparr>"
| "split_inline_loop line state previous value ((off, c, w) # rest) =
     (if is_doubled c rest state then
        split_inline_loop line state previous
          (value @ (if c = ch_hash then ''#''
                    else char_bytes line (off, c, w) @ char_bytes line (off, c, w))) (tl rest)
      else if c = ch_hash \<and> state \<noteq> InString then
        \<lparr>split_value = value,
         split_comment = Some \<lparr>comment_start = off, comment_kind = LineComment\<rparr>,
         split_block_action = None\<rparr>
      else case next_state c state previous of (state', previous') \<Rightarrow>
        split_inline_loop line state' previous' (value @ char_bytes line (off, c, w)) rest)"
  by pat_completeness auto
termination
  by (relation "measure (\<lambda>(_, _, _, _, cs). length cs)") auto

definition split_inline_comment :: "str \<Rightarrow> line_split" where
  "split_inline_comment line = split_inline_loop line Code Code [] (char_indices line)"

definition split_line :: "str \<Rightarrow> bool \<Rightarrow> nat \<Rightarrow> multiline_support \<Rightarrow> line_split" where
  "split_line line in_block indentation_end multiline =
     (let a = leading_whitespace_end line; b = trim_end_whitespace line;
          trimmed = (if a < b then take (b - a) (drop a line) else [])
      in if multiline = TripleHash \<and> trimmed = ''###'' then
           \<lparr>split_value = [],
            split_comment = Some \<lparr>comment_start = indentation_end, comment_kind = BlockComment\<rparr>,
            split_block_action = Some (if in_block then CloseBlock else OpenBlock (range_new a (a + 3)))\<rparr>
         else if in_block then
           \<lparr>split_value = [],
            split_comment = Some \<lparr>comment_start = indentation_end, comment_kind = BlockComment\<rparr>,
            split_block_action = None\<rparr>
         else if trimmed \<noteq> [] \<and> hd trimmed = CHR ''#'' then
           \<lparr>split_value = [],
            split_comment = Some \<lparr>comment_start = a, comment_kind = LineComment\<rparr>,
            split_block_action = None\<rparr>
         else split_inline_comment line)"

subsection \<open>Physical lines\<close>

text \<open>
  The lines of a source from byte \<open>a\<close> with number \<open>k\<close>: contiguous, numbered in order, each
  content free of terminators and followed by the terminator recorded; only a nonempty last
  line may lack one.
\<close>

definition line_at :: "str \<Rightarrow> nat \<Rightarrow> nat \<Rightarrow> nat \<Rightarrow> nat \<Rightarrow> physical_line \<Rightarrow> bool" where
  "line_at s k a c b l \<longleftrightarrow>
     pl_number l = k \<and> content_range l = range_new a c \<and> line_ending_range l = range_new c b \<and>
     full_range l = range_new a b \<and> a \<le> c \<and> c \<le> b \<and> b \<le> length s \<and> a < b \<and>
     (\<forall>i. a \<le> i \<and> i < c \<longrightarrow> s ! i \<noteq> CHR 0x0A \<and> s ! i \<noteq> CHR 0x0D) \<and>
     take (b - c) (drop c s) = line_ending_str (pl_ending l) \<and>
     (pl_ending l = Cr \<longrightarrow> \<not> (b < length s \<and> s ! b = CHR 0x0A))"

fun lines_from :: "str \<Rightarrow> nat \<Rightarrow> nat \<Rightarrow> physical_line list \<Rightarrow> bool" where
  "lines_from s a k [] \<longleftrightarrow> a = length s"
| "lines_from s a k (l # ls) \<longleftrightarrow>
     line_at s k a (range_end (content_range l)) (range_end (full_range l)) l \<and>
     (pl_ending l = NoEnding \<longrightarrow> ls = []) \<and> lines_from s (range_end (full_range l)) (k + 1) ls"

lemma ending_at_Some:
  assumes "ending_at s i = Some (e, n)" and "i < length s"
  shows "0 < n" "i + n \<le> length s" "take n (drop i s) = line_ending_str e" "e \<noteq> NoEnding"
    "e = Cr \<longrightarrow> \<not> (i + n < length s \<and> s ! (i + n) = CHR 0x0A)"
proof -
  have d: "drop i s = s ! i # drop (Suc i) s" using assms(2) by (simp add: Cons_nth_drop_Suc)
  have d2: "Suc i < length s \<Longrightarrow> drop (Suc i) s = s ! Suc i # drop (Suc (Suc i)) s"
    by (simp add: Cons_nth_drop_Suc)
  show "0 < n" "i + n \<le> length s" "take n (drop i s) = line_ending_str e" "e \<noteq> NoEnding"
    "e = Cr \<longrightarrow> \<not> (i + n < length s \<and> s ! (i + n) = CHR 0x0A)"
    using assms d d2
    by (auto simp: ending_at_def line_ending_str_def numeral_2_eq_2 split: if_splits)
qed

lemma ending_at_None: "ending_at s i = None \<Longrightarrow> s ! i \<noteq> CHR 0x0A \<and> s ! i \<noteq> CHR 0x0D"
  by (auto simp: ending_at_def split: if_splits)

lemma physical_loop_lines:
  assumes "a \<le> c" and "c \<le> length s"
    and "\<forall>i. a \<le> i \<and> i < c \<longrightarrow> s ! i \<noteq> CHR 0x0A \<and> s ! i \<noteq> CHR 0x0D"
  shows "lines_from s a k (physical_loop s a k c)"
  using assms
proof (induction s a k c rule: physical_loop.induct)
  case (1 s a k c)
  note prems = "1.prems"
  show ?case
  proof (cases "c < length s")
    case False
    then have "c = length s" using prems(2) by simp
    then show ?thesis using prems(1,3) False
      by (subst physical_loop.simps) (auto simp: make_line_def line_ending_str_def line_at_def)
  next
    case True
    show ?thesis
    proof (cases "ending_at s c")
      case None
      have "\<forall>i. a \<le> i \<and> i < c + 1 \<longrightarrow> s ! i \<noteq> CHR 0x0A \<and> s ! i \<noteq> CHR 0x0D"
        using prems(3) ending_at_None [OF None] by (auto simp: less_Suc_eq)
      then have "lines_from s a k (physical_loop s a k (c + 1))"
        using "1.IH"(1) [OF True None] prems(1) True by simp
      then show ?thesis using True None by (subst physical_loop.simps) simp
    next
      case (Some en)
      obtain e n where en: "en = (e, n)" by (cases en)
      note f = ending_at_Some [OF Some [unfolded en] True]
      have "lines_from s (c + n) (k + 1) (physical_loop s (c + n) (k + 1) (c + n))"
        by (rule "1.IH"(2) [OF True Some en [symmetric]]) (use f(2) in auto)
      then show ?thesis using True Some en f prems(1,3)
        by (subst physical_loop.simps) (auto simp: make_line_def line_at_def)
    qed
  qed
qed

lemma physical_lines_from: "lines_from s 0 0 (physical_lines s)"
  unfolding physical_lines_def by (rule physical_loop_lines) auto

definition line_text :: "str \<Rightarrow> physical_line \<Rightarrow> str" where
  "line_text s l =
     take (range_len (content_range l)) (drop (range_start (content_range l)) s) @
     line_ending_str (pl_ending l)"

lemma line_at_text:
  assumes "line_at s k a c b l"
  shows "line_text s l = take (b - a) (drop a s)"
proof -
  have "line_text s l = take (c - a) (drop a s) @ take (b - c) (drop c s)"
    using assms by (simp add: line_text_def line_at_def range_len_def)
  then show ?thesis
    using assms take_add [of "c - a" "b - c" "drop a s"] by (simp add: line_at_def)
qed

lemma lines_from_text: "lines_from s a k ls \<Longrightarrow> concat (map (line_text s) ls) = drop a s"
proof (induction ls arbitrary: a k)
  case (Cons l ls)
  let ?b = "range_end (full_range l)"
  have la: "line_at s k a (range_end (content_range l)) ?b l" and rest: "lines_from s ?b (k + 1) ls"
    using Cons.prems by simp_all
  have "a \<le> ?b" using la by (simp add: line_at_def)
  then show ?case
    using Cons.IH [OF rest] line_at_text [OF la] append_take_drop_id [of "?b - a" "drop a s"] by simp
qed simp

lemma lines_from_member:
  assumes "lines_from s a k ls" and "l \<in> set ls"
  shows "\<exists>j x c b. line_at s j x c b l \<and> a \<le> x"
  using assms
proof (induction ls arbitrary: a k)
  case (Cons m ls)
  have la: "line_at s k a (range_end (content_range m)) (range_end (full_range m)) m"
    and rest: "lines_from s (range_end (full_range m)) (k + 1) ls"
    using Cons.prems by simp_all
  show ?case
  proof (cases "l = m")
    case False
    then obtain j x c b where "line_at s j x c b l" "range_end (full_range m) \<le> x"
      using Cons.IH [OF rest] Cons.prems(2) by auto
    then show ?thesis using la by (auto simp: line_at_def)
  qed (use la in blast)
qed simp

subsection \<open>Splitting code from comment\<close>

lemma utf8_ok_hash: "utf8_ok ''#''" "codes ''#'' = [ch_hash]"
  by (simp_all add: utf8_ok.simps utf8_step_def codes_def decode_char_def char_width_def)

text \<open>
  What the inline split yields: the characters of the line up to the comment (all of them when
  there is none), from which the value is built.
\<close>

definition split_at :: "(nat \<times> nat \<times> nat) list \<Rightarrow> comment_split option \<Rightarrow> (nat \<times> nat \<times> nat) list \<Rightarrow> bool" where
  "split_at chars comment pre \<longleftrightarrow>
     (case comment of None \<Rightarrow> chars = pre
      | Some c \<Rightarrow> \<exists>w rest. chars = pre @ (comment_start c, ch_hash, w) # rest \<and> comment_kind c = LineComment)"

lemma split_inline_loop_split:
  assumes "utf8_ok line" and "char_indices line = before @ rest"
    and "utf8_ok acc" and "set (codes acc) \<subseteq> (\<lambda>(off, c, w). c) ` set before"
  shows "\<exists>pre. split_at (char_indices line) (split_comment (split_inline_loop line st pv acc rest)) pre \<and>
    utf8_ok (split_value (split_inline_loop line st pv acc rest)) \<and>
    set (codes (split_value (split_inline_loop line st pv acc rest))) \<subseteq> (\<lambda>(off, c, w). c) ` set pre \<and>
    split_block_action (split_inline_loop line st pv acc rest) = None"
  using assms
proof (induction line st pv acc rest arbitrary: before rule: split_inline_loop.induct)
  case (1 line st pv acc)
  then show ?case by (auto simp: split_at_def)
next
  case (2 line st pv acc off c w rest)
  let ?b = "char_bytes line (off, c, w)"
  have mem: "(off, c, w) \<in> set (char_indices line)" using "2.prems"(2) by simp
  then have b: "utf8_ok ?b" "codes ?b = [c]"
    using chars_from_bytes [OF "2.prems"(1) mem] by (simp_all add: char_bytes_def)
  show ?case
  proof (cases "is_doubled c rest st")
    case True
    then obtain x rest' where rest: "rest = x # rest'" by (auto simp: is_doubled_def split: list.splits)
    let ?v = "acc @ (if c = ch_hash then ''#'' else ?b @ ?b)"
    have "char_indices line = (before @ [(off, c, w), x]) @ tl rest" using "2.prems"(2) rest by simp
    moreover have "utf8_ok ?v" using "2.prems"(3) b utf8_ok_hash by (simp add: utf8_ok_append)
    moreover have "set (codes ?v) \<subseteq> (\<lambda>(off, c, w). c) ` set (before @ [(off, c, w), x])"
      using "2.prems"(3,4) b utf8_ok_hash by auto
    ultimately show ?thesis using "2.IH"(1) [OF True "2.prems"(1)] True by simp
  next
    case dbl: False
    show ?thesis
    proof (cases "c = ch_hash \<and> st \<noteq> InString")
      case True
      then show ?thesis using dbl "2.prems" by (auto simp: split_at_def)
    next
      case False
      obtain st' pv' where n: "next_state c st pv = (st', pv')" by (cases "next_state c st pv")
      have e: "split_inline_loop line st pv acc ((off, c, w) # rest) =
        split_inline_loop line st' pv' (acc @ ?b) rest"
        using dbl False n by auto
      have "char_indices line = (before @ [(off, c, w)]) @ rest" using "2.prems"(2) by simp
      moreover have "utf8_ok (acc @ ?b)" using "2.prems"(3) b by (simp add: utf8_ok_append)
      moreover have "set (codes (acc @ ?b)) \<subseteq> (\<lambda>(off, c, w). c) ` set (before @ [(off, c, w)])"
        using "2.prems"(3,4) b by auto
      ultimately show ?thesis
        unfolding e by (rule "2.IH"(2) [OF dbl False n [symmetric] "2.prems"(1)])
    qed
  qed
qed

text \<open>Where the code part of a line ends: at its comment, or at the end of the line.\<close>

definition code_limit :: "str \<Rightarrow> line_split \<Rightarrow> nat" where
  "code_limit line r = (case split_comment r of None \<Rightarrow> length line | Some c \<Rightarrow> comment_start c)"

lemma split_at_limit:
  assumes "utf8_ok line" and "split_at (char_indices line) (split_comment r) pre"
  shows "is_char_boundary line (code_limit line r)" "char_indices (take (code_limit line r) line) = pre"
proof -
  let ?k = "code_limit line r"
  show b: "is_char_boundary line ?k"
  proof (cases "split_comment r")
    case (Some c)
    then obtain w rest where "char_indices line = pre @ (comment_start c, ch_hash, w) # rest"
      using assms(2) by (auto simp: split_at_def)
    then have "(comment_start c, ch_hash, w) \<in> set (char_indices line)" by simp
    then show ?thesis using chars_from_boundary [OF assms(1)] Some by (force simp: code_limit_def)
  qed (simp add: code_limit_def)
  then have ok: "utf8_ok (take ?k line)" using utf8_ok_take_drop assms(1) by blast
  show "char_indices (take ?k line) = pre"
  proof (cases "split_comment r")
    case None
    then show ?thesis using assms(2) by (simp add: split_at_def code_limit_def)
  next
    case (Some c)
    then obtain w rest where l: "char_indices line = pre @ (?k, ch_hash, w) # rest"
      using assms(2) by (auto simp: split_at_def code_limit_def)
    have kl: "?k \<le> length line" using b by (rule boundary_le)
    let ?P = "\<lambda>(off, c :: nat, w :: nat). off < ?k"
    have s: "char_indices line = char_indices (take ?k line) @ chars_from ?k (drop ?k line)"
      using chars_from_append [OF ok, of 0 "drop ?k line"] kl by simp
    have "off < ?k" if x: "(off, c, w) \<in> set (char_indices (take ?k line))" for off c w
      using chars_from_boundary [OF ok x] boundary_le [of "take ?k line" "off + w"] by simp
    then have f1: "filter ?P (char_indices (take ?k line)) = char_indices (take ?k line)"
      by (fastforce intro: filter_True)
    have f2: "filter ?P (chars_from ?k (drop ?k line)) = []"
      using chars_from_offsets [of ?k "drop ?k line"] by (force simp: filter_empty_conv)
    have so: "sorted_wrt (\<lambda>(o1, _, w1) (o2, _, _). o1 + w1 \<le> o2) (pre @ (?k, ch_hash, w) # rest)"
      using chars_from_offsets [of 0 line] l by simp
    have pos: "0 < w'" if "(off, c', w') \<in> set (char_indices line)" for off c' w'
      using chars_from_boundary [OF assms(1) that] by simp
    have "?P x" if "x \<in> set pre" for x
    proof (cases x)
      case (fields off c' w')
      have "(off, c', w') \<in> set (char_indices line)" using that fields l by simp
      then have "0 < w'" by (rule pos)
      moreover have "off + w' \<le> ?k" using so that fields by (force simp: sorted_wrt_append)
      ultimately show ?thesis using fields by simp
    qed
    then have f3: "filter ?P pre = pre" by (simp add: filter_id_conv)
    have "\<not> ?P x" if "x \<in> set ((?k, ch_hash, w) # rest)" for x
      using that so by (cases x) (auto simp: sorted_wrt_append)
    then have f4: "filter ?P ((?k, ch_hash, w) # rest) = []" by (simp only: filter_empty_conv) blast
    have "filter ?P (char_indices line) = pre" unfolding l filter_append f3 f4 by simp
    moreover have "filter ?P (char_indices line) = char_indices (take ?k line)"
      unfolding s filter_append f1 f2 by simp
    ultimately show ?thesis by simp
  qed
qed

lemma chars_blank_or_code:
  assumes "utf8_ok line" and "is_char_boundary line k" and "\<not> is_blank (take k line)"
  shows "leading_whitespace_end line < trim_end_whitespace (take k line)"
proof -
  have ok: "utf8_ok (take k line)" using utf8_ok_take_drop assms(1,2) by blast
  let ?P = "\<lambda>(off :: nat, c, w :: nat). \<not> is_whitespace c"
  have kl: "k \<le> length line" using assms(2) by (rule boundary_le)
  have s: "char_indices line = char_indices (take k line) @ chars_from k (drop k line)"
    using chars_from_append [OF ok, of 0 "drop k line"] kl by simp
  have lt: "leading_whitespace_end (take k line) < trim_end_whitespace (take k line)"
    using assms(3) by (simp add: is_blank_def str_trim_def Let_def split: if_splits)
  have F: "find ?P (xs @ ys) = (case find ?P xs of None \<Rightarrow> find ?P ys | Some x \<Rightarrow> Some x)" for xs ys
    by (induction xs) auto
  have "find ?P (char_indices (take k line)) \<noteq> None"
    using is_blank_iff [OF ok] assms(3) find_nonblank_None(1) [of "take k line"] by blast
  then have "leading_whitespace_end line = leading_whitespace_end (take k line)"
    unfolding leading_whitespace_end_def s F by (auto split: option.splits)
  then show ?thesis using lt by simp
qed

lemma split_inline_facts:
  assumes "utf8_ok line"
  shows "is_char_boundary line (code_limit line (split_inline_comment line)) \<and>
    split_block_action (split_inline_comment line) = None \<and>
    (\<not> is_blank (split_value (split_inline_comment line)) \<longrightarrow>
      \<not> is_blank (take (code_limit line (split_inline_comment line)) line))"
proof -
  let ?r = "split_inline_comment line"
  let ?k = "code_limit line ?r"
  have "\<exists>pre. split_at (char_indices line) (split_comment ?r) pre \<and> utf8_ok (split_value ?r) \<and>
    set (codes (split_value ?r)) \<subseteq> (\<lambda>(off, c, w). c) ` set pre \<and> split_block_action ?r = None"
    unfolding split_inline_comment_def
    by (rule split_inline_loop_split [of _ "[]"]) (use assms in auto)
  then obtain pre where p: "split_at (char_indices line) (split_comment ?r) pre"
    "utf8_ok (split_value ?r)" "set (codes (split_value ?r)) \<subseteq> (\<lambda>(off, c, w). c) ` set pre"
    "split_block_action ?r = None" by blast
  note l = split_at_limit [OF assms p(1)]
  have ok: "utf8_ok (take ?k line)" using utf8_ok_take_drop assms l(1) by blast
  have "set (codes (split_value ?r)) \<subseteq> set (codes (take ?k line))"
    using p(3) unfolding codes_def [of "take ?k line"] l(2) by simp
  then show ?thesis using l(1) p(2,4) is_blank_iff [OF ok] is_blank_iff [of "split_value ?r"] by blast
qed

lemma is_blank_Nil [simp]: "is_blank []"
  by (simp add: is_blank_iff)

lemma trimmed_triple:
  assumes "utf8_ok line" and "str_trim line = ''###''"
  shows "leading_whitespace_end line + 3 \<le> length line"
    "is_char_boundary line (leading_whitespace_end line + 3)"
proof -
  let ?a = "leading_whitespace_end line" and ?b = "trim_end_whitespace line"
  have t: "?a < ?b" "take (?b - ?a) (drop ?a line) = ''###''"
    using assms(2) by (auto simp: str_trim_def Let_def split: if_splits)
  have b: "is_char_boundary line ?b" using trim_end_whitespace_boundary [OF assms(1)] .
  then have "?b \<le> length line" by (rule boundary_le)
  then have "length (take (?b - ?a) (drop ?a line)) = ?b - ?a" by auto
  then have "?b = ?a + 3" using t by simp
  then show "?a + 3 \<le> length line" "is_char_boundary line (?a + 3)"
    using b \<open>?b \<le> length line\<close> by simp_all
qed

lemma split_line_unfold:
  "split_line line in_block ie ml =
     (if ml = TripleHash \<and> str_trim line = ''###'' then
        \<lparr>split_value = [], split_comment = Some \<lparr>comment_start = ie, comment_kind = BlockComment\<rparr>,
         split_block_action = Some (if in_block then CloseBlock
           else OpenBlock (range_new (leading_whitespace_end line) (leading_whitespace_end line + 3)))\<rparr>
      else if in_block then
        \<lparr>split_value = [], split_comment = Some \<lparr>comment_start = ie, comment_kind = BlockComment\<rparr>,
         split_block_action = None\<rparr>
      else if str_trim line \<noteq> [] \<and> hd (str_trim line) = CHR ''#'' then
        \<lparr>split_value = [],
         split_comment = Some \<lparr>comment_start = leading_whitespace_end line, comment_kind = LineComment\<rparr>,
         split_block_action = None\<rparr>
      else split_inline_comment line)"
  by (simp add: split_line_def str_trim_def Let_def)

text \<open>The facts of a split that the tree builder rests on.\<close>

lemma split_line_facts:
  assumes "utf8_ok line"
  fixes in_block ml
  defines "r \<equiv> split_line line in_block (leading_whitespace_end line) ml"
  shows "is_char_boundary line (code_limit line r)"
    "\<not> is_blank (split_value r) \<Longrightarrow>
      leading_whitespace_end line < trim_end_whitespace (take (code_limit line r) line)"
    "split_block_action r = Some (OpenBlock d) \<Longrightarrow>
      is_char_boundary line (range_start d) \<and> is_char_boundary line (range_end d) \<and>
      range_start d \<le> range_end d"
proof -
  note lw = leading_whitespace_end_boundary [OF assms(1)]
  note inl = split_inline_facts [OF assms(1)]
  show b: "is_char_boundary line (code_limit line r)"
    using lw inl by (auto simp: r_def split_line_unfold code_limit_def split: if_splits)
  show "leading_whitespace_end line < trim_end_whitespace (take (code_limit line r) line)"
    if "\<not> is_blank (split_value r)"
  proof (rule chars_blank_or_code [OF assms(1) b])
    show "\<not> is_blank (take (code_limit line r) line)"
      using that inl by (auto simp: r_def split_line_unfold split: if_splits)
  qed
  show "is_char_boundary line (range_start d) \<and> is_char_boundary line (range_end d) \<and>
      range_start d \<le> range_end d" if "split_block_action r = Some (OpenBlock d)"
    using that lw trimmed_triple [OF assms(1)] inl
    by (auto simp: r_def split_line_unfold split: if_splits)
qed

subsection \<open>Escaped code\<close>

text \<open>Code with every \<open>#\<close> doubled, the way Skript writes a literal \<open>#\<close> outside a string.\<close>

definition escape_hash :: "str \<Rightarrow> str" where
  "escape_hash s = concat (map (\<lambda>b. if b = CHR ''#'' then ''##'' else [b]) s)"

lemma escape_hash_simps [simp]:
  "escape_hash [] = []" "escape_hash (b # s) = (if b = CHR ''#'' then ''##'' else [b]) @ escape_hash s"
  "escape_hash (s @ t) = escape_hash s @ escape_hash t"
  by (simp_all add: escape_hash_def)

lemma escape_hash_id: "CHR ''#'' \<notin> set s \<Longrightarrow> escape_hash s = s"
  by (induction s) auto

lemma decode_char_ascii: "byte b < 128 \<Longrightarrow> decode_char (b # s) = byte b"
  by (simp add: decode_char_def char_width_def)

lemma mod_offset: "k * m \<le> x \<Longrightarrow> x < k * m + m \<Longrightarrow> x mod m = x - k * m" for x :: nat
  by (rule mod_nat_eqI) auto

lemma decode_char_wide:
  assumes "utf8_step s = Some n" and "1 < n"
  shows "128 \<le> decode_char s"
  using assms(1)
proof (cases rule: utf8_step_cases)
  case (Two a b t)
  then have "byte a mod 32 = byte a - 192" using mod_offset [of 6 32 "byte a"] by simp
  then show ?thesis using Two by (simp add: decode_char_def char_width_def)
next
  case (Three a b c t)
  have a: "byte a mod 16 = byte a - 224" using Three mod_offset [of 14 16 "byte a"] by simp
  have "byte b mod 64 = byte b - 128"
    using Three mod_offset [of 2 64 "byte b"] second_byte_cont by (force simp: is_cont_def)
  moreover have "byte a = 224 \<Longrightarrow> 160 \<le> byte b" using Three by (simp add: second_byte_ok_def)
  moreover have "byte a \<noteq> 224 \<Longrightarrow> 225 \<le> byte a" using Three by simp
  ultimately have "1 \<le> byte a mod 16 \<or> 32 \<le> byte b mod 64"
    using a by linarith
  then show ?thesis using Three by (auto simp: decode_char_def char_width_def byte_at_def)
next
  case (Four a b c d t)
  have a: "byte a mod 8 = byte a - 240" using Four mod_offset [of 30 8 "byte a"] by simp
  have "byte b mod 64 = byte b - 128"
    using Four mod_offset [of 2 64 "byte b"] second_byte_cont by (force simp: is_cont_def)
  moreover have "byte a = 240 \<Longrightarrow> 144 \<le> byte b" using Four by (simp add: second_byte_ok_def)
  moreover have "byte a \<noteq> 240 \<Longrightarrow> 241 \<le> byte a" using Four by simp
  ultimately have "1 \<le> byte a mod 8 \<or> 16 \<le> byte b mod 64"
    using a by linarith
  then show ?thesis using Four by (auto simp: decode_char_def char_width_def byte_at_def)
qed (use assms in simp)

lemma decode_char_byte:
  assumes "utf8_step t = Some n" and "decode_char t = byte b" and "byte b < 128"
  shows "n = 1 \<and> (\<exists>u. t = b # u)"
proof -
  have n: "n = 1" using decode_char_wide [OF assms(1)] utf8_step_Some(1) [OF assms(1)] assms(2,3) by force
  then obtain a u where s: "t = a # u" "byte a < 128" using assms(1) by (auto elim!: utf8_step_cases)
  then have "byte a = byte b" using assms(2) decode_char_ascii [of a u] by simp
  then have "a = b" by (simp only: of_char_eq_iff)
  then show ?thesis using n s by simp
qed

text \<open>A character other than \<open>#\<close> is copied by the escape.\<close>

lemma escape_hash_char:
  assumes "utf8_step t = Some n" and "decode_char t \<noteq> ch_hash"
  shows "escape_hash t = take n t @ escape_hash (drop n t)"
proof -
  note st = utf8_step_Some [OF assms(1)]
  have "CHR ''#'' \<noteq> t ! i" if "i < n" for i
  proof (cases "i = 0")
    case True
    then show ?thesis
      using assms st by (cases t) (auto simp: decode_char_def char_width_def)
  next
    case False
    then have "is_cont (t ! i)" using st(4) that by simp
    moreover have "\<not> is_cont (CHR ''#'')" by (simp add: is_cont_def)
    ultimately show ?thesis by metis
  qed
  then have "CHR ''#'' \<notin> set (take n t)"
    using st(2) by (auto simp: in_set_conv_nth) metis
  then have "escape_hash (take n t) = take n t" by (rule escape_hash_id)
  moreover have "escape_hash t = escape_hash (take n t) @ escape_hash (drop n t)"
    by (simp flip: escape_hash_simps(3))
  ultimately show ?thesis by simp
qed

lemma utf8_ok_escape: "utf8_ok t \<Longrightarrow> utf8_ok (escape_hash t)"
proof (induction t rule: utf8_induct)
  case (Char s n)
  show ?case
  proof (cases "decode_char s = ch_hash")
    case True
    then obtain u where "n = 1" "s = CHR ''#'' # u"
      using decode_char_byte [OF Char.hyps(1), of "CHR ''#''"] by auto
    then show ?thesis using Char.IH utf8_ok_append [OF utf8_ok_append [OF utf8_ok_hash(1) utf8_ok_hash(1)]]
      by simp
  next
    case False
    then show ?thesis
      using escape_hash_char [OF Char.hyps(1)] Char.IH chars_from_single(1) [OF Char.hyps(1)]
      by (simp add: utf8_ok_append)
  qed
qed simp

text \<open>
  Reading escaped code back: without a double quote no string ever opens, so every \<open>#\<close> is
  outside of strings and the doubled form is undone exactly.
\<close>

lemma next_state_code:
  assumes "c \<noteq> ch_quote" and "st \<noteq> InString" and "pv \<noteq> InString"
  shows "fst (next_state c st pv) \<noteq> InString" "snd (next_state c st pv) \<noteq> InString"
  using assms by (auto simp: next_state_def Let_def)

lemma chars_escape_step:
  assumes "utf8_ok t" and "t \<noteq> []"
  obtains n where "utf8_step t = Some n" and "utf8_ok (drop n t)" and "decode_char t = ch_hash"
      "n = 1" "take n t = ''#''"
      "chars_from k (escape_hash t) =
        (k, ch_hash, 1) # (k + 1, ch_hash, 1) # chars_from (k + 2) (escape_hash (drop n t))"
      "escape_hash t = ''##'' @ escape_hash (drop n t)"
  | n where "utf8_step t = Some n" and "utf8_ok (drop n t)" and "decode_char t \<noteq> ch_hash"
      "chars_from k (escape_hash t) = (k, decode_char t, n) # chars_from (k + n) (escape_hash (drop n t))"
      "escape_hash t = take n t @ escape_hash (drop n t)"
proof -
  obtain n where n: "utf8_step t = Some n" "utf8_ok (drop n t)" using assms utf8_ok_step by blast
  note st = utf8_step_Some [OF n(1)]
  show thesis
  proof (cases "decode_char t = ch_hash")
    case True
    then obtain u where n1: "n = 1" and s: "t = CHR ''#'' # u"
      using decode_char_byte [OF n(1), of "CHR ''#''"] by auto
    then have "escape_hash t = ''##'' @ escape_hash (drop n t)" "take n t = ''#''" using n1 by simp_all
    moreover from this have "chars_from k (escape_hash t) =
        (k, ch_hash, 1) # (k + 1, ch_hash, 1) # chars_from (k + 2) (escape_hash (drop n t))"
      by (simp add: decode_char_def char_width_def)
    ultimately show thesis using that(1) n True n1 by blast
  next
    case False
    note e = escape_hash_char [OF n(1) False]
    have "chars_from k (escape_hash t) = (k, decode_char t, n) # chars_from (k + n) (escape_hash (drop n t))"
      unfolding e using chars_from_append [OF chars_from_single(1) [OF n(1)]] chars_from_single(2) [OF n(1)] st(2)
      by simp
    then show thesis using that(2) n False e by blast
  qed
qed

lemma split_inline_loop_escape:
  assumes "utf8_ok t" and "ch_quote \<notin> set (codes t)" and "st \<noteq> InString" and "pv \<noteq> InString"
    and "line = before @ escape_hash t"
  shows "split_inline_loop line st pv acc (chars_from (length before) (escape_hash t)) =
    \<lparr>split_value = acc @ t, split_comment = None, split_block_action = None\<rparr>"
  using assms
proof (induction t arbitrary: st pv acc before rule: measure_induct_rule [of length])
  case (less t)
  let ?k = "length before"
  show ?case
  proof (cases "t = []")
    case False
    show ?thesis
    proof (rule chars_escape_step [OF less.prems(1) False, of ?k])
      fix n
      assume n: "utf8_step t = Some n" "utf8_ok (drop n t)" "decode_char t = ch_hash" "n = 1"
        "take n t = ''#''"
        "chars_from ?k (escape_hash t) =
          (?k, ch_hash, 1) # (?k + 1, ch_hash, 1) # chars_from (?k + 2) (escape_hash (drop n t))"
        "escape_hash t = ''##'' @ escape_hash (drop n t)"
      have q: "ch_quote \<notin> set (codes (drop n t))"
        using less.prems(2) codes_append [OF chars_from_single(1) [OF n(1)], of "drop n t"] by auto
      have "split_inline_loop line st pv (acc @ ''#'')
          (chars_from (length (before @ ''##'')) (escape_hash (drop n t))) =
        \<lparr>split_value = (acc @ ''#'') @ drop n t, split_comment = None, split_block_action = None\<rparr>"
        by (rule less.IH [OF _ n(2) q less.prems(3,4)])
          (use utf8_step_Some [OF n(1)] less.prems(5) n(7) in auto)
      moreover have "t = ''#'' @ drop n t" using n(5) append_take_drop_id [of n t] by metis
      ultimately show ?thesis using less.prems(3) unfolding n(6)
        by (simp add: is_doubled_def)
    next
      fix n
      assume n: "utf8_step t = Some n" "utf8_ok (drop n t)" "decode_char t \<noteq> ch_hash"
        "chars_from ?k (escape_hash t) = (?k, decode_char t, n) # chars_from (?k + n) (escape_hash (drop n t))"
        "escape_hash t = take n t @ escape_hash (drop n t)"
      note st = utf8_step_Some [OF n(1)]
      let ?c = "decode_char t"
      have ct: "codes t = ?c # codes (drop n t)"
        using codes_append [OF chars_from_single(1) [OF n(1)], of "drop n t"]
          chars_from_single(2) [OF n(1), of 0] by (simp add: codes_def [of "take n t"])
      then have cq: "?c \<noteq> ch_quote" and q: "ch_quote \<notin> set (codes (drop n t))"
        using less.prems(2) by auto
      have b: "char_bytes line (?k, ?c, n) = take n t"
        using less.prems(5) n(5) st(2) by (simp add: char_bytes_def)
      show ?thesis
      proof (cases "is_doubled ?c (chars_from (?k + n) (escape_hash (drop n t))) st")
        case False
        obtain st' pv' where ns: "next_state ?c st pv = (st', pv')" by (cases "next_state ?c st pv")
        have "split_inline_loop line st' pv' (acc @ take n t)
            (chars_from (length (before @ take n t)) (escape_hash (drop n t))) =
          \<lparr>split_value = (acc @ take n t) @ drop n t, split_comment = None, split_block_action = None\<rparr>"
          by (rule less.IH [OF _ n(2) q])
            (use next_state_code [OF cq less.prems(3,4)] ns st less.prems(5) n(5) in auto)
        then show ?thesis using False n(3) b ns st(2) unfolding n(4) by simp
      next
        case True
        then have p: "?c = ch_percent" using n(3) cq by (auto simp: is_doubled_def)
        then obtain u where n1: "n = 1" and t: "t = CHR ''%'' # u"
          using decode_char_byte [OF n(1), of "CHR ''%''"] by auto
        have du: "drop n t = u" using n1 t by simp
        have une: "u \<noteq> []" using True du by (auto simp: is_doubled_def)
        show ?thesis
        proof (rule chars_escape_step [OF n(2) [unfolded du] une, of "?k + n"])
          fix m
          assume "chars_from (?k + n) (escape_hash u) =
            (?k + n, ch_hash, 1) # (?k + n + 1, ch_hash, 1) # chars_from (?k + n + 2) (escape_hash (drop m u))"
          then show ?thesis using True p du by (simp add: is_doubled_def)
        next
          fix m
          assume m: "utf8_step u = Some m" "utf8_ok (drop m u)"
            "chars_from (?k + n) (escape_hash u) =
              (?k + n, decode_char u, m) # chars_from (?k + n + m) (escape_hash (drop m u))"
            "escape_hash u = take m u @ escape_hash (drop m u)"
          have "decode_char u = ch_percent" using True p du m(3) by (simp add: is_doubled_def)
          then obtain v where m1: "m = 1" and u: "u = CHR ''%'' # v"
            using decode_char_byte [OF m(1), of "CHR ''%''"] by auto
          have qv: "ch_quote \<notin> set (codes (drop m u))"
            using q codes_append [OF chars_from_single(1) [OF m(1)], of "drop m u"] du by auto
          have "split_inline_loop line st pv (acc @ ''%%'')
              (chars_from (length (before @ ''%%'')) (escape_hash (drop m u))) =
            \<lparr>split_value = (acc @ ''%%'') @ drop m u, split_comment = None, split_block_action = None\<rparr>"
            by (rule less.IH [OF _ m(2) qv less.prems(3,4)])
              (use less.prems(5) n(5) m(4) du t u n1 m1 in auto)
          then show ?thesis using True p b t u n1 m1 m(3) du unfolding n(4) by simp
        qed
      qed
    qed
  qed simp
qed

subsection \<open>What the lexical layer guarantees\<close>

text \<open>
  The physical lines of a source are its lossless, contiguous partition: numbered from zero,
  each nonempty, its content free of line feeds and carriage returns, its terminator the longest
  one at that place (a carriage return directly before a line feed is never split), only the last
  line possibly unterminated; and writing contents and terminators out again gives the source.
\<close>

theorem physical_lines_correct:
  "lines_from s 0 0 (physical_lines s) \<and> concat (map (line_text s) (physical_lines s)) = s"
  using physical_lines_from lines_from_text by fastforce

text \<open>
  Escaping is undone: code that has no double quote, written with every \<open>#\<close> doubled,
  is read back exactly and without a comment, provided the line does not begin with \<open>#\<close>
  (such a line is a comment whatever follows).
\<close>

theorem split_line_unescapes:
  assumes "utf8_ok code" and "ch_quote \<notin> set (codes code)"
    and "take 1 (str_trim (escape_hash code)) \<noteq> ''#''"
  shows "split_line (escape_hash code) False ie ml =
    \<lparr>split_value = code, split_comment = None, split_block_action = None\<rparr>"
proof -
  have "\<not> (str_trim (escape_hash code) \<noteq> [] \<and> hd (str_trim (escape_hash code)) = CHR ''#'')"
    "str_trim (escape_hash code) \<noteq> ''###''"
    using assms(3) by (cases "str_trim (escape_hash code)", auto)+
  then show ?thesis
    using split_inline_loop_escape [OF assms(1,2), of Code Code "escape_hash code" "[]" "[]"]
    unfolding split_line_unfold split_inline_comment_def by simp
qed

theorem split_line_unescapes_witness:
  "split_line ''a ## b'' False 0 TripleHash =
    \<lparr>split_value = ''a # b'', split_comment = None, split_block_action = None\<rparr>"
proof -
  have "utf8_ok ''a # b''" "ch_quote \<notin> set (codes ''a # b'')"
    "take 1 (str_trim (escape_hash ''a # b'')) \<noteq> ''#''"
    by (simp_all add: utf8_ok.simps utf8_step_def codes_def decode_char_def char_width_def byte_at_def
        str_trim_def leading_whitespace_end_def trim_end_whitespace_def is_whitespace_def)
  from split_line_unescapes [OF this, of 0 TripleHash] show ?thesis by simp
qed

end
