(* ===== verification/Ordered_Map.thy ===== *)
theory Ordered_Map
  imports Prelude "HOL-Library.List_Lexorder" "HOL-Library.Char_ord" "HOL-Library.Product_Lexorder"
begin

text \<open>
  The part of \<open>std::collections::BTreeMap\<close> and \<open>BTreeSet\<close> the program uses: association
  lists kept in ascending key order, so that iteration (\<open>iter\<close>, \<open>values\<close>, \<open>range\<close>,
  \<open>last_key_value\<close>) has the order the code sees.  \<open>ordered_map\<close> is the interface its
  clients rely on; the interpretation \<open>btree\<close> at the end discharges it for the model.
\<close>

type_synonym ('k, 'v) btree = "('k \<times> 'v) list"

abbreviation bt_get :: "('k, 'v) btree \<Rightarrow> 'k \<Rightarrow> 'v option" where
  "bt_get \<equiv> map_of"

fun bt_insert :: "'k::linorder \<Rightarrow> 'v \<Rightarrow> ('k, 'v) btree \<Rightarrow> ('k, 'v) btree" where
  "bt_insert k v [] = [(k, v)]"
| "bt_insert k v ((j, w) # m) =
     (if k < j then (k, v) # (j, w) # m
      else if k = j then (k, v) # m
      else (j, w) # bt_insert k v m)"

definition bt_remove :: "'k \<Rightarrow> ('k, 'v) btree \<Rightarrow> ('k, 'v) btree" where
  "bt_remove k m = filter (\<lambda>e. fst e \<noteq> k) m"

definition bt_contains :: "('k, 'v) btree \<Rightarrow> 'k \<Rightarrow> bool" where
  "bt_contains m k \<longleftrightarrow> bt_get m k \<noteq> None"

definition bt_get_or :: "'v \<Rightarrow> ('k, 'v) btree \<Rightarrow> 'k \<Rightarrow> 'v" where
  "bt_get_or d m k = (case bt_get m k of None \<Rightarrow> d | Some v \<Rightarrow> v)"

definition bt_entry_or :: "'k::linorder \<Rightarrow> 'v \<Rightarrow> ('k, 'v) btree \<Rightarrow> ('k, 'v) btree" where
  "bt_entry_or k v m = (if bt_contains m k then m else bt_insert k v m)"

definition bt_ok :: "('k::linorder, 'v) btree \<Rightarrow> bool" where
  "bt_ok m \<longleftrightarrow> sorted_wrt (<) (map fst m)"

definition bt_last_key :: "('k, 'v) btree \<Rightarrow> 'k option" where
  "bt_last_key m = (if m = [] then None else Some (fst (last m)))"

lemma bt_get_insert: "bt_get (bt_insert k v m) = (bt_get m)(k \<mapsto> v)"
  by (induction k v m rule: bt_insert.induct) (auto simp: fun_eq_iff)

lemma bt_get_remove: "bt_get (bt_remove k m) = (bt_get m)(k := None)"
  unfolding bt_remove_def by (induction m) (auto simp: fun_eq_iff)

lemma bt_keys_insert [simp]: "fst ` set (bt_insert k v m) = insert k (fst ` set m)"
  by (induction k v m rule: bt_insert.induct) auto

lemma bt_insert_not_Nil [simp]: "bt_insert k v m \<noteq> []"
  by (cases "(k, v, m)" rule: bt_insert.cases) auto

lemma bt_ok_Nil [simp]: "bt_ok []"
  by (simp add: bt_ok_def)

lemma bt_ok_Cons: "bt_ok ((k, v) # m) \<longleftrightarrow> (\<forall>j\<in>fst ` set m. k < j) \<and> bt_ok m"
  by (auto simp: bt_ok_def)

lemma bt_ok_insert [simp]: "bt_ok m \<Longrightarrow> bt_ok (bt_insert k v m)"
proof (induction k v m rule: bt_insert.induct)
  case (2 k v j w m)
  then show ?case
    using bt_keys_insert [of k v m] by (auto simp del: bt_keys_insert simp: bt_ok_Cons)
qed (simp add: bt_ok_Cons)

lemma bt_ok_remove [simp]: "bt_ok m \<Longrightarrow> bt_ok (bt_remove k m)"
  unfolding bt_ok_def bt_remove_def
  by (induction m) auto

lemma bt_ok_distinct: "bt_ok m \<Longrightarrow> distinct (map fst m)"
  by (simp add: bt_ok_def strict_sorted_iff)

lemma bt_ok_get: "bt_ok m \<Longrightarrow> (k, v) \<in> set m \<longleftrightarrow> bt_get m k = Some v"
  using bt_ok_distinct map_of_eq_Some_iff by metis

lemma bt_contains_iff: "bt_contains m k \<longleftrightarrow> k \<in> fst ` set m"
  by (auto simp: bt_contains_def map_of_eq_None_iff)

lemma bt_contains_insert [simp]: "bt_contains (bt_insert k v m) j \<longleftrightarrow> j = k \<or> bt_contains m j"
  by (auto simp: bt_contains_iff)

lemma bt_ok_entry_or [simp]: "bt_ok m \<Longrightarrow> bt_ok (bt_entry_or k v m)"
  by (simp add: bt_entry_or_def)

lemma bt_get_entry_or:
  "bt_get (bt_entry_or k v m) = (if bt_contains m k then bt_get m else (bt_get m)(k \<mapsto> v))"
  by (simp add: bt_entry_or_def bt_get_insert)

lemma bt_last_key_max:
  assumes "bt_ok m" and "bt_last_key m = Some k"
  shows "k \<in> fst ` set m" and "\<And>j. j \<in> fst ` set m \<Longrightarrow> j \<le> k"
proof -
  from assms(2) have ne: "m \<noteq> []" and k: "k = last (map fst m)"
    by (auto simp: bt_last_key_def last_map split: if_splits)
  then show "k \<in> fst ` set m"
    by (metis list.set_map last_in_set map_is_Nil_conv)
  have srt: "sorted (map fst m)" using assms(1) by (simp add: bt_ok_def strict_sorted_imp_sorted)
  show "\<And>j. j \<in> fst ` set m \<Longrightarrow> j \<le> k"
  proof -
    fix j assume "j \<in> fst ` set m"
    then obtain i where i: "i < length (map fst m)" "map fst m ! i = j"
      by (metis in_set_conv_nth list.set_map)
    have "map fst m ! i \<le> map fst m ! (length (map fst m) - 1)"
      using srt i(1) by (intro sorted_nth_mono) auto
    then show "j \<le> k" using i ne k by (simp add: last_conv_nth)
  qed
qed

text \<open>Two maps with the same lookups are the same list, as \<open>==\<close> on \<open>BTreeMap\<close> has it.\<close>

lemma bt_ext: "bt_ok m \<Longrightarrow> bt_ok n \<Longrightarrow> bt_get m = bt_get n \<Longrightarrow> m = n"
proof -
  assume m: "bt_ok m" and n: "bt_ok n" and eq: "bt_get m = bt_get n"
  have "set m = set n"
    using bt_ok_get [OF m] bt_ok_get [OF n] eq by auto
  then show "m = n"
    using m n by (intro map_sorted_distinct_set_unique [where f = fst])
      (auto simp: bt_ok_def strict_sorted_iff distinct_map)
qed

subsection \<open>The interface its clients use\<close>

locale ordered_map =
  fixes get :: "'m \<Rightarrow> 'k \<Rightarrow> 'v option"
    and ins :: "'k \<Rightarrow> 'v \<Rightarrow> 'm \<Rightarrow> 'm"
    and rem :: "'k \<Rightarrow> 'm \<Rightarrow> 'm"
    and wf :: "'m \<Rightarrow> bool"
  assumes get_ins: "get (ins k v m) = (get m)(k \<mapsto> v)"
    and get_rem: "get (rem k m) = (get m)(k := None)"
    and wf_ins: "wf m \<Longrightarrow> wf (ins k v m)"
    and wf_rem: "wf m \<Longrightarrow> wf (rem k m)"
    and map_ext: "wf m \<Longrightarrow> wf n \<Longrightarrow> get m = get n \<Longrightarrow> m = n"
begin

text \<open>One staged write (a value, or a deletion), and a batch of them in order.\<close>

definition put :: "'k \<times> 'v option \<Rightarrow> 'm \<Rightarrow> 'm" where
  "put w m = (case snd w of Some v \<Rightarrow> ins (fst w) v m | None \<Rightarrow> rem (fst w) m)"

lemma get_put: "get (put w m) = (get m)(fst w := snd w)"
  by (auto simp: put_def get_ins get_rem split: option.splits)

lemma wf_put: "wf m \<Longrightarrow> wf (put w m)"
  by (auto simp: put_def wf_ins wf_rem split: option.splits)

lemma wf_fold_put: "wf m \<Longrightarrow> wf (fold put ws m)"
  by (induction ws arbitrary: m) (auto simp: wf_put)

lemma get_fold_put:
  "distinct (map fst ws) \<Longrightarrow>
   get (fold put ws m) k = (case map_of ws k of Some v \<Rightarrow> v | None \<Rightarrow> get m k)"
proof (induction ws arbitrary: m)
  case Nil
  then show ?case by simp
next
  case (Cons w ws)
  show ?case
  proof (cases "fst w = k")
    case True
    then have "map_of ws k = None" using Cons.prems by (auto simp: map_of_eq_None_iff)
    then show ?thesis using True Cons by (cases w) (simp add: get_put)
  next
    case False
    then show ?thesis using Cons by (cases w) (simp add: get_put split: option.splits)
  qed
qed

lemma put_same: "wf m \<Longrightarrow> get m k = v \<Longrightarrow> put (k, v) m = m"
  by (rule map_ext) (auto simp: wf_put get_put)

end

interpretation btree: ordered_map bt_get bt_insert bt_remove "bt_ok :: ('k::linorder, 'v) btree \<Rightarrow> bool"
  by unfold_locales (simp_all add: bt_get_insert bt_get_remove bt_ext)

end
