(* ===== verification/Expansion_Graph.thy ===== *)
theory Expansion_Graph
  imports Text_Range Ordered_Map "HOL-Library.Word"
begin

text \<open>
  \<open>skript-parser/src/expansion.rs\<close>: the provenance graph of macro expansions.  An expansion
  points to its parents through the \<open>expansion\<close> of its call sites; \<open>graph_new\<close> accepts a set
  of expansions only if the identities are distinct, the owners are not blank, every reference
  is known and the parent edges have no cycle.  The recursive cycle check and the collection of
  all back traces run on fuel one more than the number of expansions, which is enough
  (\<open>validate_acyclic_total\<close>, \<open>collect_backtraces_complete\<close>).
\<close>

type_synonym expansion_id = "32 word"
type_synonym syntax_context_id = "32 word"
type_synonym component_id = str
type_synonym hook_id = str

datatype expansion_kind = TextKind | TreeKind | AstKind

record expansion_site =
  site_range :: text_range
  site_expansion :: "expansion_id option"

definition site_original :: "text_range \<Rightarrow> expansion_site" where
  "site_original r = \<lparr>site_range = r, site_expansion = None\<rparr>"

definition site_expanded :: "text_range \<Rightarrow> expansion_id \<Rightarrow> expansion_site" where
  "site_expanded r i = \<lparr>site_range = r, site_expansion = Some i\<rparr>"

record expansion =
  exp_id :: expansion_id
  exp_kind :: expansion_kind
  exp_component :: component_id
  exp_hook :: hook_id
  exp_call_sites :: "expansion_site list"
  exp_definition_site :: "expansion_site option"
  exp_syntax_context :: syntax_context_id

type_synonym expansion_graph = "(expansion_id, expansion) btree"

datatype site_kind = CallSite | DefinitionSite

datatype graph_error =
    DuplicateId expansion_id
  | MissingCallSite expansion_id
  | BlankComponent expansion_id
  | BlankHook expansion_id
  | UnknownReference expansion_id site_kind expansion_id
  | Cycle expansion_id
  | IdExhausted

definition exp_parents :: "expansion \<Rightarrow> expansion_id list" where
  "exp_parents e = List.map_filter site_expansion (exp_call_sites e)"

definition graph_collect :: "expansion list \<Rightarrow> (graph_error, expansion_graph) outcome" where
  "graph_collect es =
     try_for (\<lambda>e m.
       if is_blank (exp_component e) then Fail (BlankComponent (exp_id e))
       else if is_blank (exp_hook e) then Fail (BlankHook (exp_id e))
       else if bt_contains m (exp_id e) then Fail (DuplicateId (exp_id e))
       else Ret (bt_insert (exp_id e) e m)) es []"

definition validate_reference ::
    "expansion_graph \<Rightarrow> expansion_id \<Rightarrow> site_kind \<Rightarrow> expansion_site \<Rightarrow> (graph_error, unit) outcome" where
  "validate_reference m i k s =
     (case site_expansion s of
        Some r \<Rightarrow> if bt_contains m r then Ret () else Fail (UnknownReference i k r)
      | None \<Rightarrow> Ret ())"

definition validate_sites :: "expansion_graph \<Rightarrow> expansion \<Rightarrow> (graph_error, unit) outcome" where
  "validate_sites m e =
     (if exp_call_sites e = [] then Fail (MissingCallSite (exp_id e))
      else obind (check_all (validate_reference m (exp_id e) CallSite) (exp_call_sites e))
        (\<lambda>_. case exp_definition_site e of
               Some d \<Rightarrow> validate_reference m (exp_id e) DefinitionSite d
             | None \<Rightarrow> Ret ()))"

text \<open>The recursive depth-first search over call-site parents; the state is (visiting, visited).\<close>

fun validate_acyclic ::
    "nat \<Rightarrow> expansion_graph \<Rightarrow> expansion_id \<Rightarrow> expansion_id set \<times> expansion_id set
      \<Rightarrow> (graph_error, expansion_id set \<times> expansion_id set) outcome" where
  "validate_acyclic 0 m i st = Panic"
| "validate_acyclic (Suc n) m i (visiting, visited) =
     (if i \<in> visited then Ret (visiting, visited)
      else if i \<in> visiting then Fail (Cycle i)
      else obind (expect (bt_get m i))
        (\<lambda>e. obind (try_for (validate_acyclic n m) (exp_parents e) (insert i visiting, visited))
          (\<lambda>(vg, vd). Ret (vg - {i}, insert i vd))))"

definition graph_new :: "expansion list \<Rightarrow> (graph_error, expansion_graph) outcome" where
  "graph_new es =
     obind (graph_collect es) (\<lambda>m.
     obind (check_all (validate_sites m) (map snd m)) (\<lambda>_.
     obind (try_for (validate_acyclic (Suc (length m)) m) (map fst m) ({}, {})) (\<lambda>_.
     Ret m)))"

definition graph_contains :: "expansion_graph \<Rightarrow> expansion_id \<Rightarrow> bool" where
  "graph_contains m i = bt_contains m i"

definition checked_add_u32 :: "32 word \<Rightarrow> 32 word \<Rightarrow> 32 word option" where
  "checked_add_u32 a b = (if unat a + unat b < 2 ^ 32 then Some (a + b) else None)"

definition next_id :: "expansion_graph \<Rightarrow> (graph_error, expansion_id) outcome" where
  "next_id m =
     (let n = (case bt_last_key m of
                 None \<Rightarrow> 1
               | Some i \<Rightarrow> (case checked_add_u32 i 1 of None \<Rightarrow> 0 | Some j \<Rightarrow> j))
      in if n = 0 then Fail IdExhausted else Ret n)"

definition with_expansion :: "expansion_graph \<Rightarrow> expansion \<Rightarrow> (graph_error, expansion_graph) outcome" where
  "with_expansion m e = graph_new (map snd m @ [e])"

text \<open>
  The primary back trace is a loop over first call sites.  The outer option is \<open>None\<close> when
  the loop does not end, the inner one is the \<open>Option\<close> the code returns.
\<close>

definition first_parent :: "expansion \<Rightarrow> expansion_id option" where
  "first_parent e = (case exp_call_sites e of [] \<Rightarrow> None | s # _ \<Rightarrow> site_expansion s)"

partial_function (option) backtrace_loop ::
    "expansion_graph \<Rightarrow> expansion_id option \<Rightarrow> expansion list \<Rightarrow> expansion list option option" where
  "backtrace_loop m cur result =
     (case cur of
        None \<Rightarrow> Some (Some result)
      | Some i \<Rightarrow>
        (case bt_get m i of
           None \<Rightarrow> Some None
         | Some e \<Rightarrow> backtrace_loop m (first_parent e) (result @ [e])))"

definition backtrace :: "expansion_graph \<Rightarrow> expansion_id \<Rightarrow> expansion list option option" where
  "backtrace m i = backtrace_loop m (Some i) []"

definition distinct_parents :: "expansion \<Rightarrow> expansion_id option list" where
  "distinct_parents e = extend_unique [] (map site_expansion (exp_call_sites e))"

text \<open>\<open>collect_backtraces(parent)?\<close> inside the loop: a \<open>None\<close> leaves the function.\<close>

fun concat_options :: "'a list option list \<Rightarrow> 'a list option" where
  "concat_options [] = Some []"
| "concat_options (x # xs) =
     (case x of None \<Rightarrow> None | Some ys \<Rightarrow> map_option (\<lambda>zs. ys @ zs) (concat_options xs))"

fun collect_backtraces :: "nat \<Rightarrow> expansion_graph \<Rightarrow> expansion_id \<Rightarrow> expansion list list option" where
  "collect_backtraces 0 m i = None"
| "collect_backtraces (Suc n) m i =
     (case bt_get m i of
        None \<Rightarrow> None
      | Some e \<Rightarrow>
        concat_options
          (map (\<lambda>p. case p of
                  Some j \<Rightarrow> map_option (map (\<lambda>tail. e # tail)) (collect_backtraces n m j)
                | None \<Rightarrow> Some [[e]])
            (distinct_parents e)))"

definition backtraces :: "expansion_graph \<Rightarrow> expansion_id \<Rightarrow> expansion list list option" where
  "backtraces m i = collect_backtraces (Suc (length m)) m i"

subsection \<open>Well-formed graphs\<close>

text \<open>The edges of the graph, and the nodes from which every path of edges ends.\<close>

definition parent_rel :: "expansion_graph \<Rightarrow> (expansion_id \<times> expansion_id) set" where
  "parent_rel m = {(i, p). \<exists>e. bt_get m i = Some e \<and> p \<in> set (exp_parents e)}"

inductive grounded :: "expansion_graph \<Rightarrow> expansion_id \<Rightarrow> bool" for m where
  grounded: "bt_get m i = Some e \<Longrightarrow> (\<And>p. p \<in> set (exp_parents e) \<Longrightarrow> grounded m p) \<Longrightarrow> grounded m i"

definition site_known :: "expansion_graph \<Rightarrow> expansion_site \<Rightarrow> bool" where
  "site_known m s \<longleftrightarrow> (\<forall>r. site_expansion s = Some r \<longrightarrow> bt_contains m r)"

definition expansion_ok :: "expansion_graph \<Rightarrow> expansion \<Rightarrow> bool" where
  "expansion_ok m e \<longleftrightarrow>
     \<not> is_blank (exp_component e) \<and> \<not> is_blank (exp_hook e) \<and> exp_call_sites e \<noteq> [] \<and>
     (\<forall>s \<in> set (exp_call_sites e) \<union> set_option (exp_definition_site e). site_known m s)"

definition graph_ok :: "expansion_graph \<Rightarrow> bool" where
  "graph_ok m \<longleftrightarrow>
     bt_ok m \<and> (\<forall>(i, e) \<in> set m. exp_id e = i \<and> expansion_ok m e) \<and> acyclic (parent_rel m)"

definition refs_closed :: "expansion_graph \<Rightarrow> bool" where
  "refs_closed m \<longleftrightarrow> (\<forall>i e p. bt_get m i = Some e \<longrightarrow> p \<in> set (exp_parents e) \<longrightarrow> bt_contains m p)"

lemma exp_parents_iff: "p \<in> set (exp_parents e) \<longleftrightarrow> (\<exists>s \<in> set (exp_call_sites e). site_expansion s = Some p)"
  by (force simp: exp_parents_def List.map_filter_def image_iff)

lemma Some_call_site_iff:
  "Some p \<in> site_expansion ` set (exp_call_sites e) \<longleftrightarrow> p \<in> set (exp_parents e)"
  unfolding exp_parents_iff image_iff by metis

lemma bt_contains_get: "bt_contains m i \<longleftrightarrow> (\<exists>e. bt_get m i = Some e)"
  by (auto simp: bt_contains_def)

lemma graph_ok_closed: "graph_ok m \<Longrightarrow> refs_closed m"
  by (fastforce simp: graph_ok_def refs_closed_def expansion_ok_def site_known_def exp_parents_iff
      dest: map_of_SomeD)

lemma parent_relI: "bt_get m i = Some e \<Longrightarrow> p \<in> set (exp_parents e) \<Longrightarrow> (i, p) \<in> parent_rel m"
  by (auto simp: parent_rel_def)

lemma finite_parent_rel: "finite (parent_rel m)"
proof -
  have "parent_rel m \<subseteq> (\<Union>(i, e) \<in> set m. {i} \<times> set (exp_parents e))"
    by (auto simp: parent_rel_def dest!: map_of_SomeD)
  then show ?thesis by (rule finite_subset) auto
qed

lemma grounded_no_cycle: "grounded m i \<Longrightarrow> (i, i) \<notin> (parent_rel m)\<^sup>+"
proof (induction rule: grounded.induct)
  case (grounded i e)
  show ?case
  proof
    assume "(i, i) \<in> (parent_rel m)\<^sup>+"
    then obtain p where p: "(i, p) \<in> parent_rel m" "(p, i) \<in> (parent_rel m)\<^sup>*"
      by (meson tranclD)
    then have "p \<in> set (exp_parents e)" using grounded.hyps(1) by (auto simp: parent_rel_def)
    moreover have "(p, p) \<in> (parent_rel m)\<^sup>+" using p by (meson rtrancl_into_trancl1)
    ultimately show False using grounded.IH by blast
  qed
qed

lemma acyclic_iff_grounded:
  assumes "refs_closed m"
  shows "acyclic (parent_rel m) \<longleftrightarrow> (\<forall>i. bt_contains m i \<longrightarrow> grounded m i)"
proof
  assume "acyclic (parent_rel m)"
  then have wf: "wf ((parent_rel m)\<inverse>)"
    using finite_parent_rel by (rule finite_acyclic_wf_converse [rotated])
  have "bt_contains m i \<longrightarrow> grounded m i" for i
    using wf
  proof (induction i rule: wf_induct_rule)
    case (less i)
    show ?case
    proof
      assume "bt_contains m i"
      then obtain e where e: "bt_get m i = Some e" by (auto simp: bt_contains_get)
      show "grounded m i"
        using e
      proof (rule grounded.grounded)
        fix p assume p: "p \<in> set (exp_parents e)"
        then have "bt_contains m p" using e assms by (auto simp: refs_closed_def)
        with less [of p] p e show "grounded m p" by (auto intro: parent_relI)
      qed
    qed
  qed
  then show "\<forall>i. bt_contains m i \<longrightarrow> grounded m i" by blast
next
  assume g: "\<forall>i. bt_contains m i \<longrightarrow> grounded m i"
  show "acyclic (parent_rel m)"
    unfolding acyclic_def
  proof
    fix i
    show "(i, i) \<notin> (parent_rel m)\<^sup>+"
    proof
      assume c: "(i, i) \<in> (parent_rel m)\<^sup>+"
      then have "bt_contains m i" by (auto dest!: tranclD simp: parent_rel_def bt_contains_get)
      with g c show False using grounded_no_cycle by blast
    qed
  qed
qed

subsection \<open>The depth-first search\<close>

lemma validate_acyclic_sound:
  assumes "validate_acyclic n m i st = Ret st'" and "\<forall>j \<in> snd st. grounded m j"
  shows "(\<forall>j \<in> snd st'. grounded m j) \<and> i \<in> snd st' \<and> snd st \<subseteq> snd st'"
  using assms
proof (induction n arbitrary: i st st')
  case 0
  then show ?case by simp
next
  case (Suc n)
  obtain vg vd where st: "st = (vg, vd)" by (cases st)
  show ?case
  proof (cases "i \<in> vd")
    case True
    then show ?thesis using Suc.prems st by auto
  next
    case False
    then obtain e vg' vd' where e: "bt_get m i = Some e"
      and l: "try_for (validate_acyclic n m) (exp_parents e) (insert i vg, vd) = Ret (vg', vd')"
      and st': "st' = (vg' - {i}, insert i vd')"
      using Suc.prems st by (auto simp: outcome_simps split: if_splits)
    have "(\<forall>j \<in> snd (vg', vd'). grounded m j) \<and> set (exp_parents e) \<subseteq> snd (vg', vd') \<and>
        snd (insert i vg, vd) \<subseteq> snd (vg', vd')"
      by (rule try_for_collects [OF l, where P = "\<lambda>t. \<forall>j \<in> snd t. grounded m j"])
        (use Suc.prems(2) st Suc.IH in auto)
    then show ?thesis using e st st' by (auto intro: grounded.grounded)
  qed
qed

text \<open>
  With enough fuel the search ends: either with the visiting set it started with, or with a
  node that lies on a cycle.
\<close>

lemma validate_acyclic_total:
  assumes "refs_closed m" and "bt_contains m i" and "card (fst ` set m - vg) < n"
    and "\<forall>v \<in> vg. (v, i) \<in> (parent_rel m)\<^sup>+"
  shows "(\<exists>vd'. validate_acyclic n m i (vg, vd) = Ret (vg, vd')) \<or>
    (\<exists>j. validate_acyclic n m i (vg, vd) = Fail (Cycle j) \<and> (j, j) \<in> (parent_rel m)\<^sup>+)"
  using assms(2-)
proof (induction n arbitrary: i vg vd)
  case 0
  then show ?case by simp
next
  case (Suc n)
  show ?case
  proof (cases "i \<in> vd \<or> i \<in> vg")
    case True
    then show ?thesis using Suc.prems by auto
  next
    case False
    obtain e where e: "bt_get m i = Some e" using Suc.prems(1) by (auto simp: bt_contains_get)
    have "i \<in> fst ` set m - vg" using Suc.prems(1) False by (auto simp: bt_contains_iff)
    then have "card (fst ` set m - insert i vg) < card (fst ` set m - vg)"
      by (intro psubset_card_mono) auto
    then have less: "card (fst ` set m - insert i vg) < n" using Suc.prems(2) by linarith
    have step: "(\<exists>t'. validate_acyclic n m p t = Ret t' \<and> fst t' = insert i vg) \<or>
        (\<exists>er. validate_acyclic n m p t = Fail er \<and> (\<exists>j. er = Cycle j \<and> (j, j) \<in> (parent_rel m)\<^sup>+))"
      if p: "p \<in> set (exp_parents e)" and t: "fst t = insert i vg" for p t
    proof -
      have ip: "(i, p) \<in> parent_rel m" using e p by (rule parent_relI)
      have "\<forall>v \<in> insert i vg. (v, p) \<in> (parent_rel m)\<^sup>+"
        using ip Suc.prems(3) by (auto intro: trancl_into_trancl)
      moreover have "bt_contains m p" using assms(1) e p by (auto simp: refs_closed_def)
      ultimately show ?thesis using Suc.IH [of p "insert i vg" "snd t"] less t
        by (cases t) auto
    qed
    have "(\<exists>t'. try_for (validate_acyclic n m) (exp_parents e) (insert i vg, vd) = Ret t' \<and>
          fst t' = insert i vg) \<or>
        (\<exists>er. try_for (validate_acyclic n m) (exp_parents e) (insert i vg, vd) = Fail er \<and>
          (\<exists>j. er = Cycle j \<and> (j, j) \<in> (parent_rel m)\<^sup>+))"
      by (rule try_for_cases [where P = "\<lambda>t. fst t = insert i vg"]) (use step in auto)
    then show ?thesis using False e by (fastforce simp: outcome_simps)
  qed
qed

lemma acyclic_loop_total:
  assumes "refs_closed m"
  shows "(\<exists>st. try_for (validate_acyclic (Suc (length m)) m) (map fst m) ({}, {}) = Ret st) \<or>
    (\<exists>j. try_for (validate_acyclic (Suc (length m)) m) (map fst m) ({}, {}) = Fail (Cycle j) \<and>
      (j, j) \<in> (parent_rel m)\<^sup>+)"
proof -
  have c: "card (fst ` set m - {}) < Suc (length m)"
    using card_image_le [of "set m" fst] card_length [of m] by simp
  have "(\<exists>st. try_for (validate_acyclic (Suc (length m)) m) (map fst m) ({}, {}) = Ret st \<and> fst st = {}) \<or>
    (\<exists>er. try_for (validate_acyclic (Suc (length m)) m) (map fst m) ({}, {}) = Fail er \<and>
      (\<exists>j. er = Cycle j \<and> (j, j) \<in> (parent_rel m)\<^sup>+))"
  proof (rule try_for_cases [where P = "\<lambda>t. fst t = {}"])
    fix i and t :: "expansion_id set \<times> expansion_id set"
    assume "i \<in> set (map fst m)" and t: "fst t = {}"
    then have "bt_contains m i" by (auto simp: bt_contains_iff)
    from validate_acyclic_total [OF assms this c, of "snd t"] t
    show "(\<exists>t'. validate_acyclic (Suc (length m)) m i t = Ret t' \<and> fst t' = {}) \<or>
      (\<exists>er. validate_acyclic (Suc (length m)) m i t = Fail er \<and>
        (\<exists>j. er = Cycle j \<and> (j, j) \<in> (parent_rel m)\<^sup>+))"
      by (cases t) fastforce
  qed simp
  then show ?thesis by auto
qed

lemma acyclic_loop_Ret:
  assumes "refs_closed m"
  shows "(\<exists>st. try_for (validate_acyclic (Suc (length m)) m) (map fst m) ({}, {}) = Ret st) \<longleftrightarrow>
    acyclic (parent_rel m)"
proof
  assume "\<exists>st. try_for (validate_acyclic (Suc (length m)) m) (map fst m) ({}, {}) = Ret st"
  then obtain st where st: "try_for (validate_acyclic (Suc (length m)) m) (map fst m) ({}, {}) = Ret st" ..
  have "(\<forall>j \<in> snd st. grounded m j) \<and> set (map fst m) \<subseteq> snd st \<and>
      snd ({} :: expansion_id set, {} :: expansion_id set) \<subseteq> snd st"
    by (rule try_for_collects [OF st, where P = "\<lambda>t. \<forall>j \<in> snd t. grounded m j" and S = snd])
      (use validate_acyclic_sound in auto)
  then show "acyclic (parent_rel m)"
    unfolding acyclic_iff_grounded [OF assms] by (auto simp: bt_contains_iff)
next
  assume "acyclic (parent_rel m)"
  then show "\<exists>st. try_for (validate_acyclic (Suc (length m)) m) (map fst m) ({}, {}) = Ret st"
    using acyclic_loop_total [OF assms] by (auto simp: acyclic_def)
qed

subsection \<open>What \<open>graph_new\<close> accepts\<close>

definition owner_ok :: "expansion \<Rightarrow> bool" where
  "owner_ok e \<longleftrightarrow> \<not> is_blank (exp_component e) \<and> \<not> is_blank (exp_hook e)"

definition ids_match :: "expansion_graph \<Rightarrow> bool" where
  "ids_match m \<longleftrightarrow> (\<forall>(i, e) \<in> set m. exp_id e = i \<and> owner_ok e)"

lemma set_bt_insert_new:
  "\<not> bt_contains m k \<Longrightarrow> set (bt_insert k v m) = insert (k, v) (set m)"
  by (induction k v m rule: bt_insert.induct) (auto simp: bt_contains_iff)

abbreviation collect_step :: "expansion \<Rightarrow> expansion_graph \<Rightarrow> (graph_error, expansion_graph) outcome" where
  "collect_step \<equiv> \<lambda>e m.
     if is_blank (exp_component e) then Fail (BlankComponent (exp_id e))
     else if is_blank (exp_hook e) then Fail (BlankHook (exp_id e))
     else if bt_contains m (exp_id e) then Fail (DuplicateId (exp_id e))
     else Ret (bt_insert (exp_id e) e m)"

lemma collect_loop:
  assumes "bt_ok m" and "ids_match m"
  shows "try_for collect_step es m = Ret g \<longleftrightarrow>
    bt_ok g \<and> ids_match g \<and> set g = set m \<union> (\<lambda>e. (exp_id e, e)) ` set es \<and>
    distinct (map exp_id es) \<and> (\<forall>e \<in> set es. \<not> bt_contains m (exp_id e))"
  using assms
proof (induction es arbitrary: m)
  case Nil
  have "set g = set m \<Longrightarrow> bt_ok g \<Longrightarrow> g = m" using Nil
    by (intro bt_ext) (auto simp: fun_eq_iff, metis bt_ok_get not_Some_eq)
  then show ?case using Nil by auto
next
  case (Cons e es)
  show ?case
  proof (cases "owner_ok e \<and> \<not> bt_contains m (exp_id e)")
    case False
    then show ?thesis by (auto simp: owner_ok_def ids_match_def)
  next
    case True
    let ?m = "bt_insert (exp_id e) e m"
    have m: "set ?m = insert (exp_id e, e) (set m)" using True by (simp add: set_bt_insert_new)
    have "ids_match ?m" using Cons.prems(2) True unfolding ids_match_def m by simp
    moreover have "try_for collect_step (e # es) m = try_for collect_step es ?m"
      using True by (simp add: owner_ok_def)
    moreover have "bt_ok ?m" using Cons.prems(1) by simp
    moreover have "(\<forall>f \<in> set es. \<not> bt_contains ?m (exp_id f)) \<longleftrightarrow>
        exp_id e \<notin> exp_id ` set es \<and> (\<forall>f \<in> set es. \<not> bt_contains m (exp_id f))"
      by (auto simp: image_iff)
    ultimately show ?thesis
      using Cons.IH [of ?m] True by (simp add: m conj_ac)
  qed
qed

lemma graph_collect_Ret_iff:
  "graph_collect es = Ret g \<longleftrightarrow>
   bt_ok g \<and> ids_match g \<and> set (map snd g) = set es \<and> distinct (map exp_id es)"
proof -
  have "ids_match g \<Longrightarrow> set g = (\<lambda>e. (exp_id e, e)) ` set es \<longleftrightarrow> set (map snd g) = set es"
    by (force simp: ids_match_def image_iff)
  then show ?thesis
    using collect_loop [of "[]" es g] by (auto simp: graph_collect_def ids_match_def bt_contains_iff)
qed

lemma graph_collect_Fail:
  "graph_collect es \<noteq> Panic" "graph_collect es \<noteq> Fail (Cycle j)"
proof -
  have "try_for collect_step es m \<noteq> Panic \<and> try_for collect_step es m \<noteq> Fail (Cycle j)" for m
    by (induction es arbitrary: m) auto
  then show "graph_collect es \<noteq> Panic" "graph_collect es \<noteq> Fail (Cycle j)"
    by (auto simp: graph_collect_def)
qed

lemma validate_reference_Ret_iff:
  "validate_reference m i k s = Ret () \<longleftrightarrow> site_known m s"
  by (auto simp: validate_reference_def site_known_def split: option.splits)

lemma validate_sites_Ret_iff:
  "validate_sites m e = Ret () \<longleftrightarrow>
   exp_call_sites e \<noteq> [] \<and>
   (\<forall>s \<in> set (exp_call_sites e) \<union> set_option (exp_definition_site e). site_known m s)"
  by (auto simp: validate_sites_def outcome_simps validate_reference_Ret_iff split: option.splits)

lemma validate_reference_Fail:
  "validate_reference m i k s \<noteq> Panic" "validate_reference m i k s \<noteq> Fail (Cycle j)"
  by (auto simp: validate_reference_def split: option.splits)

lemma check_all_not_Fail: "(\<And>x. f x \<noteq> Fail e) \<Longrightarrow> check_all f xs \<noteq> Fail e"
  by (induction xs) (auto simp: outcome_simps)

lemma validate_sites_Fail:
  "validate_sites m e \<noteq> Panic" "validate_sites m e \<noteq> Fail (Cycle j)"
  unfolding validate_sites_def
  by (auto simp: outcome_simps validate_reference_Fail check_all_not_Panic check_all_not_Fail
      split: option.splits)

lemma sites_closed:
  assumes "bt_ok m" and "\<forall>e \<in> set (map snd m). validate_sites m e = Ret ()"
  shows "refs_closed m"
  using assms by (fastforce simp: refs_closed_def validate_sites_Ret_iff site_known_def exp_parents_iff
      dest: map_of_SomeD)

lemma graph_ok_alt:
  "graph_ok m \<longleftrightarrow> bt_ok m \<and> ids_match m \<and> (\<forall>e \<in> set (map snd m). validate_sites m e = Ret ()) \<and>
    acyclic (parent_rel m)"
  by (fastforce simp: graph_ok_def ids_match_def owner_ok_def expansion_ok_def validate_sites_Ret_iff)

lemma graph_new_Ret_iff:
  "graph_new es = Ret m \<longleftrightarrow> graph_ok m \<and> set (map snd m) = set es \<and> distinct (map exp_id es)"
  unfolding graph_new_def graph_ok_alt
  by (auto simp: outcome_simps graph_collect_Ret_iff sites_closed simp flip: acyclic_loop_Ret)

text \<open>
  C1. \<open>ExpansionGraph::new\<close> returns a graph exactly when the supplied expansions have
  distinct identities, nonblank owners, at least one call site each, only known references and
  no cycle of call-site parents; the graph then holds exactly those expansions under their
  identities.  It never panics, and it reports a cycle only at an expansion that is on one.
\<close>

theorem graph_new_correct:
  "(graph_new es = Ret m \<longleftrightarrow>
      graph_ok m \<and> set (map snd m) = set es \<and> distinct (map exp_id es)) \<and>
   graph_new es \<noteq> Panic \<and>
   (graph_new es = Fail (Cycle j) \<longrightarrow>
      (\<exists>g. graph_collect es = Ret g \<and> (j, j) \<in> (parent_rel g)\<^sup>+))"
proof (intro conjI graph_new_Ret_iff impI)
  show "graph_new es \<noteq> Panic"
  proof
    assume p: "graph_new es = Panic"
    then obtain g where "graph_collect es = Ret g" and
      "\<forall>e \<in> set (map snd g). validate_sites g e = Ret ()" and
      "try_for (validate_acyclic (Suc (length g)) g) (map fst g) ({}, {}) = Panic"
      by (auto simp: graph_new_def outcome_simps graph_collect_Fail check_all_not_Panic
          validate_sites_Fail)
    then show False
      using acyclic_loop_total [of g] sites_closed [of g] by (auto simp: graph_collect_Ret_iff)
  qed
  assume "graph_new es = Fail (Cycle j)"
  then obtain g where g: "graph_collect es = Ret g" and
    "\<forall>e \<in> set (map snd g). validate_sites g e = Ret ()" and
    "try_for (validate_acyclic (Suc (length g)) g) (map fst g) ({}, {}) = Fail (Cycle j)"
    by (auto simp: graph_new_def outcome_simps graph_collect_Fail check_all_not_Fail
        validate_sites_Fail)
  then show "\<exists>g. graph_collect es = Ret g \<and> (j, j) \<in> (parent_rel g)\<^sup>+"
    using acyclic_loop_total [of g] sites_closed [of g] by (auto simp: graph_collect_Ret_iff)
qed

subsection \<open>Appending an expansion\<close>

lemma checked_add_u32_Some: "checked_add_u32 a b = Some c \<Longrightarrow> unat c = unat a + unat b"
  by (auto simp: checked_add_u32_def unat_word_ariths split: if_splits)

lemma next_id_fresh:
  assumes "bt_ok m" and "next_id m = Ret n"
  shows "\<forall>i. bt_contains m i \<longrightarrow> i < n"
proof (cases "bt_last_key m")
  case None
  then have "m = []" by (auto simp: bt_last_key_def split: if_splits)
  then show ?thesis by (simp add: bt_contains_iff)
next
  case (Some k)
  then obtain j where j: "checked_add_u32 k 1 = Some j" and "n = j"
    using assms(2) by (auto simp: next_id_def Let_def split: option.splits if_splits)
  then have "k < n" using checked_add_u32_Some [OF j] by (simp add: word_less_nat_alt)
  then show ?thesis
    using bt_last_key_max(2) [OF assms(1) Some] by (force simp: bt_contains_iff)
qed

lemma grounded_extend:
  assumes "\<not> bt_contains m n"
  shows "grounded m i \<Longrightarrow> grounded (bt_insert n e m) i"
proof (induction rule: grounded.induct)
  case (grounded i f)
  then have "bt_get (bt_insert n e m) i = Some f"
    using assms by (auto simp: bt_get_insert bt_contains_get)
  from this grounded.IH show ?case by (rule grounded.grounded)
qed

lemma site_known_insert: "site_known m s \<Longrightarrow> site_known (bt_insert n e m) s"
  by (auto simp: site_known_def)

lemma graph_ok_insert_site:
  assumes m: "graph_ok m" and new: "\<not> bt_contains m n" and e: "exp_id e = n" "expansion_ok (bt_insert n e m) e"
    and calls: "\<forall>s \<in> set (exp_call_sites e). site_known m s"
  shows "graph_ok (bt_insert n e m)"
proof -
  let ?m = "bt_insert n e m"
  have set: "set ?m = insert (n, e) (set m)" using new by (rule set_bt_insert_new)
  have ok: "bt_ok ?m \<and> (\<forall>(i, f) \<in> set ?m. exp_id f = i \<and> expansion_ok ?m f)"
    using m e by (auto simp: set graph_ok_def expansion_ok_def site_known_insert)
  then have closed: "refs_closed ?m"
    by (fastforce simp: refs_closed_def expansion_ok_def site_known_def exp_parents_iff
        dest: map_of_SomeD)
  have gm: "\<forall>i. bt_contains m i \<longrightarrow> grounded ?m i"
    using m acyclic_iff_grounded [OF graph_ok_closed [OF m]] grounded_extend [OF new]
    by (auto simp: graph_ok_def)
  have "bt_get ?m n = Some e" by (simp add: bt_get_insert)
  moreover have "p \<in> set (exp_parents e) \<Longrightarrow> grounded ?m p" for p
    using calls gm by (auto simp: site_known_def exp_parents_iff)
  ultimately have "grounded ?m n" by (rule grounded.grounded)
  with gm have "acyclic (parent_rel ?m)"
    unfolding acyclic_iff_grounded [OF closed] by auto
  with ok show ?thesis by (simp add: graph_ok_def)
qed

lemma expansion_ok_insert: "expansion_ok m e \<Longrightarrow> expansion_ok (bt_insert n f m) e"
  by (auto simp: expansion_ok_def site_known_insert)

lemma graph_ok_insert:
  assumes "graph_ok m" and "\<not> bt_contains m n" and "exp_id e = n" "expansion_ok m e"
  shows "graph_ok (bt_insert n e m)"
  using assms by (intro graph_ok_insert_site) (auto simp: expansion_ok_insert, simp add: expansion_ok_def)

lemma graph_values_ids: "graph_ok m \<Longrightarrow> map exp_id (map snd m) = map fst m"
  by (auto simp: graph_ok_def)

lemma with_expansion_new:
  assumes m: "graph_ok m" and new: "\<not> bt_contains m n" and e: "exp_id e = n" "expansion_ok m e"
  shows "with_expansion m e = Ret (bt_insert n e m)"
  unfolding with_expansion_def graph_new_Ret_iff
proof (intro conjI)
  show "graph_ok (bt_insert n e m)" using assms by (rule graph_ok_insert)
  show "set (map snd (bt_insert n e m)) = set (map snd m @ [e])"
    using set_bt_insert_new [OF new, of e] by auto
  have "distinct (map fst m)" using m by (simp add: graph_ok_def bt_ok_distinct)
  then show "distinct (map exp_id (map snd m @ [e]))"
    using new e unfolding map_append graph_values_ids [OF m] by (simp add: bt_contains_iff)
qed

text \<open>Whatever else the new expansion says, if its call sites are known: when it is accepted.\<close>

lemma with_expansion_Ret_iff:
  assumes m: "graph_ok m" and new: "\<not> bt_contains m n" and e: "exp_id e = n"
    and calls: "\<forall>s \<in> set (exp_call_sites e). site_known m s"
  shows "with_expansion m e = Ret g \<longleftrightarrow> g = bt_insert n e m \<and> expansion_ok (bt_insert n e m) e"
proof -
  let ?m = "bt_insert n e m"
  have vals: "set (map snd ?m) = set (map snd m @ [e])" using set_bt_insert_new [OF new, of e] by auto
  have "distinct (map fst m)" using m by (simp add: graph_ok_def bt_ok_distinct)
  then have ids: "distinct (map exp_id (map snd m @ [e]))"
    using new e unfolding map_append graph_values_ids [OF m] by (simp add: bt_contains_iff)
  show ?thesis
  proof
    assume "with_expansion m e = Ret g"
    then have g: "graph_ok g" "set (map snd g) = set (map snd m @ [e])" unfolding with_expansion_def graph_new_Ret_iff by blast+
    have entries: "set h = (\<lambda>f. (exp_id f, f)) ` set (map snd h)" if "\<forall>(i, f) \<in> set h. exp_id f = i" for h :: expansion_graph
      using that by (force simp: image_iff)
    have "\<forall>(i, f) \<in> set g. exp_id f = i" "\<forall>(i, f) \<in> set ?m. exp_id f = i"
      using g(1) m e set_bt_insert_new [OF new, of e] by (auto simp: graph_ok_def)
    then have same: "set g = set ?m" using entries [of g] entries [of ?m] g(2) vals by simp
    have "bt_ok g" "bt_ok ?m" using g(1) m by (simp_all add: graph_ok_def)
    then have "g = ?m"
    proof (rule bt_ext, intro ext)
      fix i
      have "bt_get g i = Some f \<longleftrightarrow> bt_get ?m i = Some f" for f
        using same bt_ok_get [OF \<open>bt_ok g\<close>] bt_ok_get [OF \<open>bt_ok ?m\<close>] by metis
      then show "bt_get g i = bt_get ?m i" by (metis not_Some_eq)
    qed
    moreover have "(n, e) \<in> set ?m" using set_bt_insert_new [OF new, of e] by simp
    ultimately show "g = ?m \<and> expansion_ok ?m e" using g(1) by (auto simp: graph_ok_def)
  next
    assume "g = ?m \<and> expansion_ok ?m e"
    then show "with_expansion m e = Ret g"
      unfolding with_expansion_def graph_new_Ret_iff using graph_ok_insert_site [OF m new e _ calls] vals ids by blast
  qed
qed

lemma with_expansion_total:
  assumes "graph_ok m" and "next_id m = Ret n" and "exp_id e = n" and "expansion_ok m e"
  shows "\<exists>g. with_expansion m e = Ret g \<and> graph_ok g \<and> bt_get g = (bt_get m)(n \<mapsto> e) \<and>
    (\<forall>i. graph_contains m i \<longrightarrow> i < n)"
proof -
  have fresh: "\<forall>i. bt_contains m i \<longrightarrow> i < n"
    using assms(1,2) next_id_fresh by (auto simp: graph_ok_def)
  then have "\<not> bt_contains m n" by blast
  with assms with_expansion_new graph_ok_insert fresh show ?thesis
    by (metis bt_get_insert graph_contains_def)
qed

text \<open>
  Extending a valid graph under the identity \<open>next_id\<close> hands out always succeeds when the new
  expansion names its owner, has a call site and refers to known expansions: the result is valid,
  the identity was unused and larger than every earlier one, and every earlier expansion is
  still found unchanged.
\<close>

theorem with_expansion_appends:
  assumes "graph_ok m" and "next_id m = Ret n" and "exp_id e = n" and "expansion_ok m e"
  shows "\<exists>g. with_expansion m e = Ret g \<and> graph_ok g \<and> bt_get g = (bt_get m)(n \<mapsto> e) \<and>
    (\<forall>i. graph_contains m i \<longrightarrow> i < n)"
  using assms by (rule with_expansion_total)

subsection \<open>Back traces\<close>

text \<open>A path from an expansion to the root: each element is a call-site parent of the one before.\<close>

fun trace_path :: "expansion_graph \<Rightarrow> expansion_id \<Rightarrow> expansion list \<Rightarrow> bool" where
  "trace_path m i [] \<longleftrightarrow> False"
| "trace_path m i (e # tail) \<longleftrightarrow>
     bt_get m i = Some e \<and>
     (if tail = [] then None \<in> site_expansion ` set (exp_call_sites e)
      else \<exists>j. Some j \<in> site_expansion ` set (exp_call_sites e) \<and> trace_path m j tail)"

lemma concat_options_Some:
  "(\<And>x. x \<in> set xs \<Longrightarrow> f x = Some (g x)) \<Longrightarrow> concat_options (map f xs) = Some (concat (map g xs))"
  by (induction xs) auto

lemma set_distinct_parents [simp]:
  "set (distinct_parents e) = site_expansion ` set (exp_call_sites e)"
  by (simp add: distinct_parents_def)

lemma distinct_distinct_parents [simp]: "distinct (distinct_parents e)"
  by (simp add: distinct_parents_def)

lemma extend_unique_prefix: "\<exists>zs. extend_unique xs ys = xs @ zs"
proof (induction ys arbitrary: xs)
  case (Cons y ys)
  show ?case using Cons.IH [of "push_unique xs y"] by (auto simp: push_unique_def)
qed simp

lemma hd_distinct_parents:
  "exp_call_sites e \<noteq> [] \<Longrightarrow> \<exists>zs. distinct_parents e = first_parent e # zs"
proof -
  assume "exp_call_sites e \<noteq> []"
  then obtain s ss where s: "exp_call_sites e = s # ss" by (cases "exp_call_sites e") auto
  obtain zs where "extend_unique [site_expansion s] (map site_expansion ss) = [site_expansion s] @ zs"
    using extend_unique_prefix by blast
  then show ?thesis by (simp add: distinct_parents_def first_parent_def s push_unique_def)
qed

text \<open>The traces through one parent of an expansion.\<close>

definition parent_traces :: "expansion \<Rightarrow> (expansion_id \<Rightarrow> expansion list list) \<Rightarrow>
    expansion_id option \<Rightarrow> expansion list list" where
  "parent_traces e f p = (case p of Some j \<Rightarrow> map (\<lambda>tail. e # tail) (f j) | None \<Rightarrow> [[e]])"

lemma parent_traces_iff:
  "t \<in> set (parent_traces e f p) \<longleftrightarrow>
   (\<exists>tail. t = e # tail \<and> (case p of None \<Rightarrow> tail = [] | Some j \<Rightarrow> tail \<in> set (f j)))"
  by (auto simp: parent_traces_def split: option.splits)

lemma distinct_concat_traces:
  assumes "distinct ps" and "\<And>j. Some j \<in> set ps \<Longrightarrow> distinct (f j)"
    and "\<And>j t. Some j \<in> set ps \<Longrightarrow> t \<in> set (f j) \<Longrightarrow> trace_path m j t"
    and "ids_match m"
  shows "distinct (concat (map (parent_traces e f) ps))"
  using assms
proof (induction ps)
  case Nil
  then show ?case by simp
next
  case (Cons p ps)
  have start: "trace_path m j t \<Longrightarrow> ids_match m \<Longrightarrow> exp_id (hd t) = j" for j t
    by (cases t) (auto simp: ids_match_def dest!: map_of_SomeD)
  then have key: "trace_path m j t \<Longrightarrow> trace_path m k t \<Longrightarrow> ids_match m \<Longrightarrow> j = k" for j k t
    by metis
  have ne: "trace_path m j t \<Longrightarrow> t \<noteq> []" for j t by (cases t) auto
  have "t \<notin> set (parent_traces e f q)"
    if q: "q \<in> set ps" and t: "t \<in> set (parent_traces e f p)" for q t
  proof
    assume "t \<in> set (parent_traces e f q)"
    with t obtain tail where
      p: "case p of None \<Rightarrow> tail = [] | Some j \<Rightarrow> tail \<in> set (f j)" and
      q': "case q of None \<Rightarrow> tail = [] | Some j \<Rightarrow> tail \<in> set (f j)"
      by (auto simp: parent_traces_iff)
    have "p \<noteq> q" using Cons.prems(1) q by auto
    have path: "trace_path m j tail" if "r = Some j" "r = p \<or> r = q" for r j
      using that p q' q Cons.prems(3) [of j tail] by auto
    show False
      using \<open>p \<noteq> q\<close> p q' path [of p] path [of q] key [OF _ _ Cons.prems(4)] ne
      by (cases p; cases q) auto
  qed
  then have "set (parent_traces e f p) \<inter> (\<Union>q \<in> set ps. set (parent_traces e f q)) = {}"
    by blast
  moreover have "distinct (parent_traces e f p)"
    using Cons.prems(2) by (auto simp: parent_traces_def distinct_map inj_on_def split: option.splits)
  ultimately show ?case using Cons by auto
qed

lemma set_concat_traces:
  assumes "bt_get m i = Some e" and "\<And>j. j \<in> set (exp_parents e) \<Longrightarrow> set (f j) = {t. trace_path m j t}"
  shows "set (concat (map (parent_traces e f) (distinct_parents e))) = {t. trace_path m i t}"
proof -
  have "t \<in> set (concat (map (parent_traces e f) (distinct_parents e))) \<longleftrightarrow> trace_path m i t" for t
  proof (cases t)
    case Nil
    then show ?thesis by (auto simp: parent_traces_def split: option.splits)
  next
    case (Cons d tail)
    have "set (f j) = {t. trace_path m j t}" if "Some j \<in> site_expansion ` set (exp_call_sites e)" for j
      using that assms(2) unfolding Some_call_site_iff by blast
    note paths = this
    have sub: "(case p of None \<Rightarrow> tail = [] | Some j \<Rightarrow> tail \<in> set (f j)) \<longleftrightarrow>
        (case p of None \<Rightarrow> tail = [] | Some j \<Rightarrow> trace_path m j tail)"
      if "p \<in> site_expansion ` set (exp_call_sites e)" for p
      using that paths by (cases p) simp_all
    have "d # tail \<in> set (concat (map (parent_traces e f) (distinct_parents e))) \<longleftrightarrow>
        d = e \<and> (\<exists>p \<in> site_expansion ` set (exp_call_sites e).
          case p of None \<Rightarrow> tail = [] | Some j \<Rightarrow> tail \<in> set (f j))"
      by (simp add: parent_traces_iff)
    also have "\<dots> \<longleftrightarrow> d = e \<and> (\<exists>p \<in> site_expansion ` set (exp_call_sites e).
          case p of None \<Rightarrow> tail = [] | Some j \<Rightarrow> trace_path m j tail)"
      using sub by blast
    also have "\<dots> \<longleftrightarrow> d = e \<and> (tail = [] \<and> None \<in> site_expansion ` set (exp_call_sites e) \<or>
          (\<exists>j. Some j \<in> site_expansion ` set (exp_call_sites e) \<and> trace_path m j tail))"
      unfolding Bex_def split_option_ex by auto
    finally have "d # tail \<in> set (concat (map (parent_traces e f) (distinct_parents e))) \<longleftrightarrow>
        d = e \<and> (tail = [] \<and> None \<in> site_expansion ` set (exp_call_sites e) \<or>
          (\<exists>j. Some j \<in> site_expansion ` set (exp_call_sites e) \<and> trace_path m j tail))" .
    then show ?thesis using assms(1) Cons by (cases tail) auto
  qed
  then show ?thesis by blast
qed

lemma collect_backtraces_complete:
  assumes m: "graph_ok m" and "bt_contains m i" and "card (fst ` set m - vg) < n"
    and "\<forall>v \<in> vg. (v, i) \<in> (parent_rel m)\<^sup>+"
  shows "\<exists>ps. collect_backtraces n m i = Some ps \<and> set ps = {t. trace_path m i t} \<and> distinct ps \<and>
    ps \<noteq> [] \<and> (\<forall>acc. backtrace_loop m (Some i) acc = Some (Some (acc @ hd ps)))"
  using assms(2-)
proof (induction n arbitrary: i vg)
  case 0
  then show ?case by simp
next
  case (Suc n)
  obtain e where e: "bt_get m i = Some e" using Suc.prems(1) by (auto simp: bt_contains_get)
  then have ein: "(i, e) \<in> set m" by (rule map_of_SomeD)
  have im: "ids_match m" using m by (simp add: graph_ok_alt)
  have "i \<notin> vg"
    using Suc.prems(3) m by (auto simp: graph_ok_def acyclic_def)
  then have "card (fst ` set m - insert i vg) < card (fst ` set m - vg)"
    using ein by (intro psubset_card_mono) force+
  then have less: "card (fst ` set m - insert i vg) < n" using Suc.prems(2) by linarith
  define Q where "Q j ps \<longleftrightarrow> collect_backtraces n m j = Some ps \<and> set ps = {t. trace_path m j t} \<and>
    distinct ps \<and> ps \<noteq> [] \<and> (\<forall>acc. backtrace_loop m (Some j) acc = Some (Some (acc @ hd ps)))" for j ps
  have "\<exists>ps. Q j ps" if j: "j \<in> set (exp_parents e)" for j
    unfolding Q_def
  proof (rule Suc.IH [OF _ less])
    show "bt_contains m j" using graph_ok_closed [OF m] e j by (auto simp: refs_closed_def)
    show "\<forall>v \<in> insert i vg. (v, j) \<in> (parent_rel m)\<^sup>+"
      using parent_relI [OF e j] Suc.prems(3) by (auto intro: trancl_into_trancl)
  qed
  then obtain f where f: "\<And>j. j \<in> set (exp_parents e) \<Longrightarrow> Q j (f j)" by metis
  let ?ps = "concat (map (parent_traces e f) (distinct_parents e))"
  have par: "Some j \<in> set (distinct_parents e) \<longleftrightarrow> j \<in> set (exp_parents e)" for j
    by (simp add: Some_call_site_iff)
  have col: "collect_backtraces (Suc n) m i = Some ?ps"
  proof -
    have "(case p of Some j \<Rightarrow> map_option (map (\<lambda>tail. e # tail)) (collect_backtraces n m j)
        | None \<Rightarrow> Some [[e]]) = Some (parent_traces e f p)" if "p \<in> set (distinct_parents e)" for p
    proof (cases p)
      case (Some j)
      then have "Q j (f j)" using that par f by blast
      then show ?thesis using Some by (simp add: Q_def parent_traces_def)
    qed (simp add: parent_traces_def)
    then show ?thesis using e by (auto intro!: concat_options_Some)
  qed
  have sp: "set ?ps = {t. trace_path m i t}"
    using set_concat_traces [OF e] f by (auto simp: Q_def)
  have dp: "distinct ?ps"
    by (rule distinct_concat_traces [where m = m]) (use f par im in \<open>auto simp: Q_def\<close>)
  have "expansion_ok m e" using m ein by (auto simp: graph_ok_def)
  then obtain zs where zs: "distinct_parents e = first_parent e # zs"
    using hd_distinct_parents by (auto simp: expansion_ok_def)
  have hd: "?ps \<noteq> [] \<and> backtrace_loop m (Some i) acc = Some (Some (acc @ hd ?ps))" for acc
  proof (cases "first_parent e")
    case None
    then show ?thesis using e zs
      by (simp add: parent_traces_def backtrace_loop.simps [of m "Some i"] backtrace_loop.simps [of m None])
  next
    case (Some j)
    then have "Q j (f j)" using f par zs by (metis list.set_intros(1))
    then show ?thesis using e zs Some
      by (simp add: parent_traces_def Q_def backtrace_loop.simps [of m "Some i"] hd_append hd_map)
  qed
  show ?case using col sp dp hd by blast
qed

text \<open>
  C34. On a valid graph both back traces of a known expansion end.  \<open>backtraces\<close> lists, without
  repetition, exactly the call-site paths from the expansion to the root, and \<open>backtrace\<close> returns
  the first of them.
\<close>

theorem backtraces_complete:
  assumes "graph_ok m" and "graph_contains m i"
  shows "\<exists>ps. backtraces m i = Some ps \<and> set ps = {t. trace_path m i t} \<and> distinct ps \<and>
    ps \<noteq> [] \<and> backtrace m i = Some (Some (hd ps))"
proof -
  have "card (fst ` set m - {}) < Suc (length m)"
    using card_image_le [of "set m" fst] card_length [of m] by simp
  then obtain ps where "backtraces m i = Some ps" "set ps = {t. trace_path m i t}" "distinct ps"
    "ps \<noteq> []" "\<forall>acc. backtrace_loop m (Some i) acc = Some (Some (acc @ hd ps))"
    using collect_backtraces_complete [OF assms(1) _ _, of i "{}" "Suc (length m)"] assms(2)
    unfolding backtraces_def graph_contains_def by blast
  then show ?thesis by (simp add: backtrace_def)
qed

subsection \<open>Concrete graphs\<close>

definition looping :: "expansion_id \<Rightarrow> expansion" where
  "looping i = \<lparr>exp_id = i, exp_kind = TextKind, exp_component = ''c'', exp_hook = ''h'',
     exp_call_sites = [site_expanded (range_empty 0) i], exp_definition_site = None, exp_syntax_context = 0\<rparr>"

definition rooted :: "expansion_id \<Rightarrow> expansion" where
  "rooted i = \<lparr>exp_id = i, exp_kind = TextKind, exp_component = ''c'', exp_hook = ''h'',
     exp_call_sites = [site_original (range_empty 0)], exp_definition_site = None, exp_syntax_context = 0\<rparr>"

lemma name_not_blank: "\<not> is_blank ''c''" "\<not> is_blank ''h''"
  by (simp_all add: is_blank_iff utf8_ok.simps utf8_step_def codes_def decode_char_def char_width_def is_whitespace_def)

theorem graph_new_correct_witness:
  "graph_new [looping 1] = Fail (Cycle 1) \<and> (\<exists>g. graph_collect [looping 1] = Ret g \<and> (1, 1) \<in> (parent_rel g)\<^sup>+)"
proof -
  have "graph_new [looping 1] = Fail (Cycle 1)"
    by (simp add: graph_new_def graph_collect_def looping_def name_not_blank bt_contains_def validate_sites_def
        validate_reference_def site_expanded_def exp_parents_def List.map_filter_def)
  then show ?thesis using graph_new_correct [of "[looping 1]" "[]" 1] by simp
qed

lemma rooted_ok: "expansion_ok m (rooted i)" "graph_ok [(1, rooted 1)]"
proof -
  show e: "expansion_ok m (rooted i)" for m i
    using name_not_blank by (simp add: expansion_ok_def rooted_def site_original_def site_known_def)
  have "exp_parents (rooted 1) = []"
    by (simp add: rooted_def exp_parents_def List.map_filter_def site_original_def)
  then have "parent_rel [(1, rooted 1)] = {}" by (auto simp: parent_rel_def split: if_splits)
  then show "graph_ok [(1, rooted 1)]" using e
    by (simp add: graph_ok_def bt_ok_def acyclic_def rooted_def)
qed

theorem with_expansion_appends_witness:
  "\<exists>g. with_expansion [(1, rooted 1)] (rooted 2) = Ret g \<and> bt_get g 2 = Some (rooted 2) \<and> bt_get g 1 = Some (rooted 1)"
proof -
  have "next_id [(1, rooted 1)] = Ret 2" "exp_id (rooted 2) = 2"
    by (simp_all add: next_id_def bt_last_key_def checked_add_u32_def rooted_def)
  from with_expansion_appends [OF rooted_ok(2) this rooted_ok(1)] show ?thesis by auto
qed

theorem backtraces_complete_witness:
  "\<exists>ps. backtraces [(1, rooted 1)] 1 = Some ps \<and> ps \<noteq> [] \<and> set ps = {t. trace_path [(1, rooted 1)] 1 t}"
  using backtraces_complete [OF rooted_ok(2), of 1] by (auto simp: graph_contains_def bt_contains_def)

end
