(* ===== verification/Source_Map.thy ===== *)
theory Source_Map
  imports Expansion_Graph
begin

text \<open>
  The \<open>SourceMap\<close> of \<open>skript-parser/src/source_map.rs\<close>: the segments that say where each byte of
  the macro-expanded (virtual) source came from.  \<open>source_map_ok\<close> is the declarative meaning of
  the validation: the segments tile the virtual source, every origin is a valid range of the
  original, and exact origins carry the very bytes of the original.
\<close>

datatype origin_kind = Exact | Replaced | Anchored

record source_origin =
  original_range :: text_range
  origin_kind :: origin_kind
  origin_expansion :: "expansion_id option"

definition origin_exact :: "text_range \<Rightarrow> expansion_id option \<Rightarrow> source_origin" where
  "origin_exact r x = \<lparr>original_range = r, origin_kind = Exact, origin_expansion = x\<rparr>"

definition origin_replaced :: "text_range \<Rightarrow> expansion_id option \<Rightarrow> source_origin" where
  "origin_replaced r x = \<lparr>original_range = r, origin_kind = Replaced, origin_expansion = x\<rparr>"

definition origin_anchored :: "nat \<Rightarrow> expansion_id \<Rightarrow> source_origin" where
  "origin_anchored off x =
     \<lparr>original_range = range_empty off, origin_kind = Anchored, origin_expansion = Some x\<rparr>"

record source_map_segment =
  virtual_range :: text_range
  seg_origins :: "source_origin list"

definition segment_new :: "text_range \<Rightarrow> source_origin \<Rightarrow> source_map_segment" where
  "segment_new r org = \<lparr>virtual_range = r, seg_origins = [org]\<rparr>"

definition segment_with_origins :: "text_range \<Rightarrow> source_origin list \<Rightarrow> source_map_segment" where
  "segment_with_origins r os = \<lparr>virtual_range = r, seg_origins = os\<rparr>"

record source_map =
  original_len :: nat
  virtual_len :: nat
  segments :: "source_map_segment list"

datatype input_name = VirtualSource | OriginalSource

datatype source_map_error =
    InvalidRange input_name text_range
  | MissingOrigins text_range
  | MultipleExactOrigins text_range
  | EmptyVirtualSourceMapping
  | EmptySegment text_range
  | Overlap nat nat
  | Gap nat nat
  | IncompleteCoverage nat nat
  | ExactLengthMismatch text_range text_range
  | ExactTextMismatch text_range text_range
  | NonEmptyAnchor text_range
  | AnchorWithoutExpansion
  | UnknownExpansion expansion_id
  | InvalidExpansionSite expansion_id site_kind text_range

definition validate_origin ::
    "str \<Rightarrow> str \<Rightarrow> expansion_graph \<Rightarrow> text_range \<Rightarrow> source_origin \<Rightarrow> (source_map_error, unit) outcome" where
  "validate_origin orig virt g vr org =
     (if \<not> is_valid_for (original_range org) orig
        then Fail (InvalidRange OriginalSource (original_range org))
      else obind
        (case origin_expansion org of
           Some x \<Rightarrow> if graph_contains g x then Ret () else Fail (UnknownExpansion x)
         | None \<Rightarrow> Ret ())
        (\<lambda>_. case origin_kind org of
           Exact \<Rightarrow>
             if range_len vr \<noteq> range_len (original_range org)
               then Fail (ExactLengthMismatch vr (original_range org))
             else if str_slice vr virt \<noteq> str_slice (original_range org) orig
               then Fail (ExactTextMismatch vr (original_range org))
             else Ret ()
         | Replaced \<Rightarrow> Ret ()
         | Anchored \<Rightarrow>
             if \<not> range_is_empty (original_range org) then Fail (NonEmptyAnchor (original_range org))
             else if origin_expansion org = None then Fail AnchorWithoutExpansion
             else Ret ()))"

definition validate_segment ::
    "str \<Rightarrow> str \<Rightarrow> expansion_graph \<Rightarrow> source_map_segment \<Rightarrow> (source_map_error, unit) outcome" where
  "validate_segment orig virt g seg =
     (if \<not> is_valid_for (virtual_range seg) virt
        then Fail (InvalidRange VirtualSource (virtual_range seg))
      else if seg_origins seg = [] then Fail (MissingOrigins (virtual_range seg))
      else if length (seg_origins seg) > 1 \<and> list_ex (\<lambda>org. origin_kind org = Exact) (seg_origins seg)
        then Fail (MultipleExactOrigins (virtual_range seg))
      else check_all (validate_origin orig virt g (virtual_range seg)) (seg_origins seg))"

definition validate_segments ::
    "str \<Rightarrow> str \<Rightarrow> source_map_segment list \<Rightarrow> expansion_graph \<Rightarrow> (source_map_error, unit) outcome" where
  "validate_segments orig virt segs g =
     (if virt = [] then
        (case segs of
           [seg] \<Rightarrow> if virtual_range seg \<noteq> range_empty 0 then Fail EmptyVirtualSourceMapping
                    else validate_segment orig virt g seg
         | _ \<Rightarrow> Fail EmptyVirtualSourceMapping)
      else obind
        (try_for (\<lambda>seg expected.
           if range_is_empty (virtual_range seg) then Fail (EmptySegment (virtual_range seg))
           else if range_start (virtual_range seg) < expected
             then Fail (Overlap expected (range_start (virtual_range seg)))
           else if range_start (virtual_range seg) > expected
             then Fail (Gap expected (range_start (virtual_range seg)))
           else obind (validate_segment orig virt g seg) (\<lambda>_. Ret (range_end (virtual_range seg)))) segs 0)
        (\<lambda>expected. if expected \<noteq> length virt then Fail (IncompleteCoverage expected (length virt))
                    else Ret ()))"

definition source_map_new ::
    "str \<Rightarrow> str \<Rightarrow> source_map_segment list \<Rightarrow> expansion_graph \<Rightarrow> (source_map_error, source_map) outcome" where
  "source_map_new orig virt segs g =
     obind (validate_segments orig virt segs g)
       (\<lambda>_. Ret \<lparr>original_len = length orig, virtual_len = length virt, segments = segs\<rparr>)"

definition source_map_identity :: "str \<Rightarrow> source_map" where
  "source_map_identity s =
     (let r = range_new 0 (length s)
      in \<lparr>original_len = length s, virtual_len = length s,
          segments = [segment_new r (origin_exact r None)]\<rparr>)"

subsection \<open>Lookups\<close>

record mapped_span =
  span_range :: text_range
  span_origins :: "source_origin list"

definition primary_origin :: "mapped_span \<Rightarrow> source_origin option" where
  "primary_origin sp = (case span_origins sp of [] \<Rightarrow> None | org # _ \<Rightarrow> Some org)"

definition is_generated :: "mapped_span \<Rightarrow> bool" where
  "is_generated sp \<longleftrightarrow>
     list_ex (\<lambda>org. origin_expansion org \<noteq> None \<or> origin_kind org \<noteq> Exact) (span_origins sp)"

definition map_overlap :: "source_map_segment \<Rightarrow> text_range \<Rightarrow> source_origin list" where
  "map_overlap seg r =
     map (\<lambda>org. case origin_kind org of
        Exact \<Rightarrow>
          origin_exact
            (range_new (range_start (original_range org) + (range_start r - range_start (virtual_range seg)))
                       (range_start (original_range org) + (range_end r - range_start (virtual_range seg))))
            (origin_expansion org)
      | _ \<Rightarrow> org) (seg_origins seg)"

definition map_point :: "source_map \<Rightarrow> nat \<Rightarrow> (source_map_error, source_origin list) outcome" where
  "map_point sm off =
     obind
       (expect
         (if virtual_len sm = 0 then (case segments sm of [] \<Rightarrow> None | seg # _ \<Rightarrow> Some seg)
          else if off = virtual_len sm
            then (if segments sm = [] then None else Some (last (segments sm)))
          else find (\<lambda>seg. range_start (virtual_range seg) \<le> off \<and> off < range_end (virtual_range seg))
                 (segments sm)))
       (\<lambda>seg. Ret
         (map (\<lambda>org. case origin_kind org of
            Exact \<Rightarrow>
              origin_exact
                (range_empty (range_start (original_range org) + (off - range_start (virtual_range seg))))
                (origin_expansion org)
          | _ \<Rightarrow> org) (seg_origins seg)))"

definition map_range :: "source_map \<Rightarrow> text_range \<Rightarrow> (source_map_error, mapped_span) outcome" where
  "map_range sm r =
     (if range_start r > range_end r \<or> range_end r > virtual_len sm then Fail (InvalidRange VirtualSource r)
      else obind
        (if range_is_empty r then map_point sm (range_start r)
         else Ret (fold (\<lambda>seg origins.
           case intersection (virtual_range seg) r of
             None \<Rightarrow> origins
           | Some overlap \<Rightarrow> extend_unique origins (map_overlap seg overlap)) (segments sm) []))
        (\<lambda>origins. Ret \<lparr>span_range = r, span_origins = origins\<rparr>))"

subsection \<open>What validation means\<close>

definition origin_ok :: "str \<Rightarrow> str \<Rightarrow> expansion_graph \<Rightarrow> text_range \<Rightarrow> source_origin \<Rightarrow> bool" where
  "origin_ok orig virt g vr org \<longleftrightarrow>
     is_valid_for (original_range org) orig \<and>
     (\<forall>x. origin_expansion org = Some x \<longrightarrow> graph_contains g x) \<and>
     (origin_kind org = Exact \<longrightarrow> str_slice (original_range org) orig = str_slice vr virt) \<and>
     (origin_kind org = Anchored \<longrightarrow>
        range_is_empty (original_range org) \<and> origin_expansion org \<noteq> None)"

definition segment_ok :: "str \<Rightarrow> str \<Rightarrow> expansion_graph \<Rightarrow> source_map_segment \<Rightarrow> bool" where
  "segment_ok orig virt g seg \<longleftrightarrow>
     is_valid_for (virtual_range seg) virt \<and> seg_origins seg \<noteq> [] \<and>
     (length (seg_origins seg) > 1 \<longrightarrow> (\<forall>org \<in> set (seg_origins seg). origin_kind org \<noteq> Exact)) \<and>
     (\<forall>org \<in> set (seg_origins seg). origin_ok orig virt g (virtual_range seg) org)"

fun tiles :: "nat \<Rightarrow> source_map_segment list \<Rightarrow> nat \<Rightarrow> bool" where
  "tiles a [] b \<longleftrightarrow> a = b"
| "tiles a (seg # segs) b \<longleftrightarrow>
     range_start (virtual_range seg) = a \<and> a < range_end (virtual_range seg) \<and>
     tiles (range_end (virtual_range seg)) segs b"

definition segments_ok :: "str \<Rightarrow> str \<Rightarrow> expansion_graph \<Rightarrow> source_map_segment list \<Rightarrow> bool" where
  "segments_ok orig virt g segs \<longleftrightarrow>
     (\<forall>seg \<in> set segs. segment_ok orig virt g seg) \<and>
     (if virt = [] then map virtual_range segs = [range_empty 0] else tiles 0 segs (length virt))"

definition source_map_ok :: "str \<Rightarrow> str \<Rightarrow> expansion_graph \<Rightarrow> source_map \<Rightarrow> bool" where
  "source_map_ok orig virt g sm \<longleftrightarrow>
     original_len sm = length orig \<and> virtual_len sm = length virt \<and> segments_ok orig virt g (segments sm)"

lemma origin_simps [simp]:
  "original_range (origin_exact r x) = r" "origin_kind (origin_exact r x) = Exact"
  "origin_expansion (origin_exact r x) = x"
  "original_range (origin_replaced r x) = r" "origin_kind (origin_replaced r x) = Replaced"
  "origin_expansion (origin_replaced r x) = x"
  "original_range (origin_anchored off y) = range_empty off" "origin_kind (origin_anchored off y) = Anchored"
  "origin_expansion (origin_anchored off y) = Some y"
  by (simp_all add: origin_exact_def origin_replaced_def origin_anchored_def)

lemma segment_simps [simp]:
  "virtual_range (segment_with_origins r os) = r" "seg_origins (segment_with_origins r os) = os"
  "virtual_range (segment_new r org) = r" "seg_origins (segment_new r org) = [org]"
  by (simp_all add: segment_with_origins_def segment_new_def)

lemma str_slice_eq_len:
  assumes "str_slice r s = str_slice q t" and "is_valid_for r s"
  shows "range_len r = range_len q"
proof -
  from assms obtain u where "str_slice r s = Some u" "str_slice q t = Some u" by (metis str_slice_Some_iff)
  then show ?thesis by (metis str_slice_SomeD(3))
qed

lemma validate_origin_Ret_iff:
  assumes "is_valid_for vr virt"
  shows "validate_origin orig virt g vr org = Ret () \<longleftrightarrow> origin_ok orig virt g vr org"
proof (cases "is_valid_for (original_range org) orig")
  case True
  have len: "str_slice (original_range org) orig = str_slice vr virt \<Longrightarrow> range_len vr = range_len (original_range org)"
    using str_slice_eq_len [OF _ True] by metis
  show ?thesis
    using True len
    by (cases "origin_kind org"; cases "origin_expansion org")
      (auto simp: validate_origin_def origin_ok_def)
qed (simp add: validate_origin_def origin_ok_def)

lemma validate_segment_Ret_iff:
  "validate_segment orig virt g seg = Ret () \<longleftrightarrow> segment_ok orig virt g seg"
  using validate_origin_Ret_iff
  by (auto simp: validate_segment_def segment_ok_def outcome_simps list_ex_iff)

abbreviation segment_step where
  "segment_step orig virt g \<equiv> (\<lambda>seg expected.
     if range_is_empty (virtual_range seg) then Fail (EmptySegment (virtual_range seg))
     else if range_start (virtual_range seg) < expected
       then Fail (Overlap expected (range_start (virtual_range seg)))
     else if range_start (virtual_range seg) > expected
       then Fail (Gap expected (range_start (virtual_range seg)))
     else obind (validate_segment orig virt g seg) (\<lambda>_. Ret (range_end (virtual_range seg))))"

lemma segment_loop_Ret_iff:
  "try_for (segment_step orig virt g) segs a = Ret b \<longleftrightarrow>
   (\<forall>seg \<in> set segs. segment_ok orig virt g seg) \<and> tiles a segs b"
proof (induction segs arbitrary: a)
  case Nil
  then show ?case by auto
next
  case (Cons seg segs)
  have "segment_step orig virt g seg a = Ret c \<longleftrightarrow>
      segment_ok orig virt g seg \<and> range_start (virtual_range seg) = a \<and>
      a < range_end (virtual_range seg) \<and> c = range_end (virtual_range seg)" for c
    by (auto simp: outcome_simps validate_segment_Ret_iff range_is_empty_def)
      (auto simp: segment_ok_def is_valid_for_def)
  then show ?case using Cons.IH by (auto simp: obind_Ret_iff)
qed

lemma validate_segments_Ret_iff:
  "validate_segments orig virt segs g = Ret () \<longleftrightarrow> segments_ok orig virt g segs"
proof (cases "virt = []")
  case True
  then show ?thesis
    by (auto simp: validate_segments_def segments_ok_def validate_segment_Ret_iff split: list.splits)
next
  case False
  then show ?thesis
    by (auto simp: validate_segments_def segments_ok_def obind_Ret_iff segment_loop_Ret_iff)
qed

lemma source_map_new_Ret_iff:
  "source_map_new orig virt segs g = Ret sm \<longleftrightarrow>
   sm = \<lparr>original_len = length orig, virtual_len = length virt, segments = segs\<rparr> \<and>
   segments_ok orig virt g segs"
  by (auto simp: source_map_new_def outcome_simps validate_segments_Ret_iff)

lemma validate_origin_not_Panic: "validate_origin orig virt g vr org \<noteq> Panic"
  by (auto simp: validate_origin_def outcome_simps split: option.splits origin_kind.splits)

lemma validate_segment_not_Panic: "validate_segment orig virt g seg \<noteq> Panic"
  by (auto simp: validate_segment_def check_all_not_Panic validate_origin_not_Panic)

lemma validate_segments_not_Panic: "validate_segments orig virt segs g \<noteq> Panic"
proof -
  have "try_for (segment_step orig virt g) segs a \<noteq> Panic" for a
    by (induction segs arbitrary: a) (auto simp: outcome_simps validate_segment_not_Panic)
  then show ?thesis
    by (auto simp: validate_segments_def outcome_simps validate_segment_not_Panic split: list.splits)
qed

text \<open>
  \<open>SourceMap::new\<close> accepts a segment list exactly when the segments tile the virtual source from
  byte 0 to its end in order (one zero-width segment for an empty source), every range ends on a
  character boundary, an exact segment has a single origin whose original bytes equal its virtual
  bytes, and every referenced expansion is known; it never panics.
\<close>

theorem source_map_new_correct:
  "(source_map_new orig virt segs g = Ret sm \<longleftrightarrow>
      sm = \<lparr>original_len = length orig, virtual_len = length virt, segments = segs\<rparr> \<and>
      source_map_ok orig virt g sm) \<and>
   source_map_new orig virt segs g \<noteq> Panic"
  by (auto simp: source_map_new_Ret_iff source_map_ok_def)
    (simp add: source_map_new_def outcome_simps validate_segments_not_Panic)

subsection \<open>Looking up a range\<close>

lemma is_valid_forD:
  assumes "is_valid_for r s"
  shows "range_start r \<le> range_end r" "range_end r \<le> length s"
    "is_char_boundary s (range_start r)" "is_char_boundary s (range_end r)"
  using assms by (simp_all add: is_valid_for_def)

text \<open>Shrinking a segment: the restricted origins still describe the restricted text.\<close>

definition restrict_origin :: "source_map_segment \<Rightarrow> text_range \<Rightarrow> source_origin \<Rightarrow> source_origin" where
  "restrict_origin seg r org =
     (case origin_kind org of
        Exact \<Rightarrow>
          origin_exact
            (range_new (range_start (original_range org) + (range_start r - range_start (virtual_range seg)))
                       (range_start (original_range org) + (range_end r - range_start (virtual_range seg))))
            (origin_expansion org)
      | _ \<Rightarrow> org)"

lemma map_overlap_eq: "map_overlap seg r = map (restrict_origin seg r) (seg_origins seg)"
  by (simp add: map_overlap_def restrict_origin_def)

lemma restrict_origin_kind [simp]: "origin_kind (restrict_origin seg r org) = origin_kind org"
  by (simp add: restrict_origin_def split: origin_kind.splits)

lemma sub_boundary:
  assumes eq: "take n (drop p s) = take n (drop q t)" and "p + n \<le> length s" "q + n \<le> length t"
    and "is_char_boundary t q" "is_char_boundary t (q + n)" and "k \<le> n"
    and b: "is_char_boundary s (p + k)"
  shows "is_char_boundary t (q + k)"
proof (cases "k = 0 \<or> k = n")
  case True
  then show ?thesis using assms by auto
next
  case False
  then have k: "0 < k" "k < n" using assms(6) by auto
  have "take n (drop p s) ! k = take n (drop q t) ! k" by (simp add: eq)
  then have "s ! (p + k) = t ! (q + k)" using k assms(2,3) by simp
  moreover have "\<not> is_cont (s ! (p + k))"
    using b k assms(2) by (auto simp: is_char_boundary_def)
  ultimately show ?thesis using k assms(3) by (simp add: is_char_boundary_def)
qed

lemma restrict_origin_ok:
  assumes seg: "segment_ok orig virt g seg" and org: "org \<in> set (seg_origins seg)"
    and r: "is_valid_for r virt" and sub: "range_contains (virtual_range seg) r"
  shows "origin_ok orig virt g r (restrict_origin seg r org)"
proof (cases "origin_kind org = Exact")
  case False
  have "origin_ok orig virt g (virtual_range seg) org" using seg org by (simp add: segment_ok_def)
  moreover have "restrict_origin seg r org = org"
    using False by (cases "origin_kind org") (simp_all add: restrict_origin_def)
  ultimately show ?thesis using False by (simp add: origin_ok_def)
next
  case True
  let ?v = "virtual_range seg" and ?q = "original_range org"
  let ?a = "range_start r - range_start ?v" and ?b = "range_end r - range_start ?v"
  let ?t = "range_new (range_start ?q + ?a) (range_start ?q + ?b)"
  have oo: "origin_ok orig virt g ?v org" and v: "is_valid_for ?v virt"
    using seg org by (simp_all add: segment_ok_def)
  then have q: "is_valid_for ?q orig" and sl: "str_slice ?q orig = str_slice ?v virt"
    using True by (simp_all add: origin_ok_def)
  note vD = is_valid_forD [OF v] and qD = is_valid_forD [OF q] and rD = is_valid_forD [OF r]
  have len: "range_len ?q = range_len ?v" using str_slice_eq_len [OF sl q] .
  then have n: "range_end ?q = range_start ?q + range_len ?v" "range_end ?v = range_start ?v + range_len ?v"
    using vD qD by (simp_all add: range_len_def)
  have eq: "take (range_len ?v) (drop (range_start ?v) virt) = take (range_len ?v) (drop (range_start ?q) orig)"
    using sl q v len by (simp add: str_slice_valid)
  have ab: "?a \<le> ?b" "?b \<le> range_len ?v" "range_start ?v + ?a = range_start r" "range_start ?v + ?b = range_end r"
    using sub rD(1) n by (auto simp: range_contains_def)
  have bnd: "is_char_boundary orig (range_start ?q + k)"
    if "k \<le> range_len ?v" "is_char_boundary virt (range_start ?v + k)" for k
    by (rule sub_boundary [OF eq _ _ _ _ that]) (use n vD qD in simp_all)
  have tv: "is_valid_for ?t orig"
    unfolding is_valid_for_def using ab bnd [of ?a] bnd [of ?b] rD qD n by auto
  have "take (?b - ?a) (drop ?a (take (range_len ?v) (drop (range_start ?v) virt))) =
      take (?b - ?a) (drop ?a (take (range_len ?v) (drop (range_start ?q) orig)))"
    by (simp only: eq)
  then have "take (?b - ?a) (drop (range_start r) virt) = take (?b - ?a) (drop (range_start ?q + ?a) orig)"
    using ab by (simp add: take_drop_take_drop)
  moreover have "?b - ?a = range_len r" "range_len ?t = range_len r"
    using ab by (simp_all add: range_len_def)
  ultimately have "str_slice ?t orig = str_slice r virt"
    using tv r by (simp add: str_slice_valid)
  then show ?thesis
    using True oo tv by (simp add: origin_ok_def restrict_origin_def)
qed

lemma restrict_segment_ok:
  assumes seg: "segment_ok orig virt g seg" and r: "is_valid_for r virt"
    and sub: "range_contains (virtual_range seg) r"
  shows "segment_ok orig virt g (segment_with_origins r (map_overlap seg r))"
  using assms restrict_origin_ok [OF seg _ r sub]
  by (auto simp: segment_ok_def map_overlap_eq)

lemma tiles_le: "tiles a segs b \<Longrightarrow> a \<le> b"
  by (induction segs arbitrary: a) fastforce+

lemma tiles_find:
  "tiles a segs b \<Longrightarrow> a \<le> k \<Longrightarrow> k < b \<Longrightarrow>
   \<exists>seg \<in> set segs. range_start (virtual_range seg) \<le> k \<and> k < range_end (virtual_range seg)"
proof (induction segs arbitrary: a)
  case Nil
  then show ?case by simp
next
  case (Cons seg segs)
  show ?case
  proof (cases "k < range_end (virtual_range seg)")
    case True
    then show ?thesis using Cons.prems by auto
  next
    case False
    then show ?thesis using Cons.IH [of "range_end (virtual_range seg)"] Cons.prems by auto
  qed
qed

lemma tiles_last: "tiles a segs b \<Longrightarrow> a < b \<Longrightarrow> segs \<noteq> [] \<and> range_end (virtual_range (last segs)) = b"
proof (induction segs arbitrary: a)
  case (Cons seg segs)
  have "tiles (range_end (virtual_range seg)) segs b" using Cons.prems by simp
  then have "segs = [] \<and> range_end (virtual_range seg) = b \<or>
      segs \<noteq> [] \<and> range_end (virtual_range seg) < b"
    by (cases segs) (auto dest: tiles_le)
  then show ?case using Cons by auto
qed simp

text \<open>What a lookup promises about each origin it reports.\<close>

definition origin_faithful :: "str \<Rightarrow> str \<Rightarrow> expansion_graph \<Rightarrow> text_range \<Rightarrow> source_origin \<Rightarrow> bool" where
  "origin_faithful orig virt g r org \<longleftrightarrow>
     (\<exists>t. range_contains r t \<and> is_valid_for t virt \<and> origin_ok orig virt g t org)"

lemma map_point_sound:
  assumes sm: "source_map_ok orig virt g sm" and k: "is_char_boundary virt k"
  shows "\<exists>os. map_point sm k = Ret os \<and> os \<noteq> [] \<and>
    (\<forall>org \<in> set os. origin_faithful orig virt g (range_empty k) org)"
proof -
  have kl: "k \<le> length virt" using k by (rule boundary_le)
  have lens: "virtual_len sm = length virt" and ok: "segments_ok orig virt g (segments sm)"
    using sm by (simp_all add: source_map_ok_def)
  define pick where "pick = (if virtual_len sm = 0 then (case segments sm of [] \<Rightarrow> None | seg # _ \<Rightarrow> Some seg)
          else if k = virtual_len sm then (if segments sm = [] then None else Some (last (segments sm)))
          else find (\<lambda>seg. range_start (virtual_range seg) \<le> k \<and> k < range_end (virtual_range seg))
                 (segments sm))"
  have "\<exists>seg. pick = Some seg \<and> seg \<in> set (segments sm) \<and> range_start (virtual_range seg) \<le> k \<and>
      k \<le> range_end (virtual_range seg)"
  proof (cases "virt = []")
    case True
    then have "map virtual_range (segments sm) = [range_empty 0]" using ok by (simp add: segments_ok_def)
    then obtain seg where "segments sm = [seg]" "virtual_range seg = range_empty 0" by auto
    then show ?thesis using True lens kl by (simp add: pick_def)
  next
    case False
    then have t: "tiles 0 (segments sm) (length virt)" using ok by (simp add: segments_ok_def)
    show ?thesis
    proof (cases "k = length virt")
      case True
      have l: "segments sm \<noteq> []" "range_end (virtual_range (last (segments sm))) = length virt"
        using tiles_last [OF t] False by auto
      then have "segment_ok orig virt g (last (segments sm))" using ok by (simp add: segments_ok_def)
      then have "range_start (virtual_range (last (segments sm))) \<le> length virt"
        using l by (auto simp: segment_ok_def dest: is_valid_forD)
      then show ?thesis using l True False lens by (simp add: pick_def)
    next
      case False
      then have "k < length virt" using kl by simp
      from tiles_find [OF t _ this] obtain seg where "seg \<in> set (segments sm)"
        "range_start (virtual_range seg) \<le> k" "k < range_end (virtual_range seg)" by auto
      then have "pick \<noteq> None"
        using False lens \<open>virt \<noteq> []\<close> unfolding pick_def by (auto simp: find_None_iff)
      then obtain seg where "pick = Some seg" by blast
      moreover from this have "seg \<in> set (segments sm) \<and> range_start (virtual_range seg) \<le> k \<and>
          k < range_end (virtual_range seg)"
        using False lens \<open>virt \<noteq> []\<close> find_SomeD [of _ "segments sm" seg] by (auto simp: pick_def)
      ultimately show ?thesis by auto
    qed
  qed
  then obtain seg where seg: "pick = Some seg" "seg \<in> set (segments sm)"
    "range_start (virtual_range seg) \<le> k" "k \<le> range_end (virtual_range seg)" by blast
  have sok: "segment_ok orig virt g seg" using ok seg(2) by (simp add: segments_ok_def)
  have v: "is_valid_for (range_empty k) virt" using k kl by (simp add: is_valid_for_def)
  have sub: "range_contains (virtual_range seg) (range_empty k)" using seg by (simp add: range_contains_def)
  have "map_point sm k = Ret (map (restrict_origin seg (range_empty k)) (seg_origins seg))"
    using seg(1) unfolding map_point_def pick_def [symmetric]
    by (auto simp: restrict_origin_def range_empty_def cong: map_cong split: origin_kind.splits)
  moreover have "origin_faithful orig virt g (range_empty k) (restrict_origin seg (range_empty k) org)"
    if "org \<in> set (seg_origins seg)" for org
    using restrict_origin_ok [OF sok that v sub] v
    unfolding origin_faithful_def by (intro exI [of _ "range_empty k"]) (simp add: range_contains_def)
  ultimately show ?thesis using sok by (auto simp: segment_ok_def)
qed

abbreviation overlap_step :: "text_range \<Rightarrow> source_map_segment \<Rightarrow> source_origin list \<Rightarrow> source_origin list" where
  "overlap_step r \<equiv> (\<lambda>seg origins.
     case intersection (virtual_range seg) r of
       None \<Rightarrow> origins
     | Some overlap \<Rightarrow> extend_unique origins (map_overlap seg overlap))"

lemma set_overlap_fold:
  "set (fold (overlap_step r) segs os) =
   set os \<union> (\<Union>seg \<in> set segs. case intersection (virtual_range seg) r of
      None \<Rightarrow> {} | Some t \<Rightarrow> set (map_overlap seg t))"
  by (induction segs arbitrary: os) (auto split: option.splits)

lemma distinct_overlap_fold: "distinct os \<Longrightarrow> distinct (fold (overlap_step r) segs os)"
  by (induction segs arbitrary: os) (auto split: option.splits)

lemma intersection_valid:
  assumes "intersection q r = Some t" and "is_valid_for q s" and "is_valid_for r s"
  shows "is_valid_for t s" "range_contains q t" "range_contains r t"
  using intersection_SomeD [OF assms(1)] assms(2,3)
  by (auto simp: is_valid_for_def range_contains_def max_def min_def)

lemma map_range_sound:
  assumes sm: "source_map_ok orig virt g sm" and r: "is_valid_for r virt"
  shows "\<exists>sp. map_range sm r = Ret sp \<and> span_range sp = r \<and> span_origins sp \<noteq> [] \<and>
    (\<forall>org \<in> set (span_origins sp). origin_faithful orig virt g r org)"
proof -
  note rD = is_valid_forD [OF r]
  have lens: "virtual_len sm = length virt" and ok: "segments_ok orig virt g (segments sm)"
    using sm by (simp_all add: source_map_ok_def)
  show ?thesis
  proof (cases "range_is_empty r")
    case True
    then have "r = range_empty (range_start r)" by (simp add: range_is_empty_def range_eq_iff)
    then show ?thesis
      using map_point_sound [OF sm rD(3)] True rD lens by (auto simp: map_range_def)
  next
    case False
    let ?os = "fold (overlap_step r) (segments sm) []"
    have ss: "set ?os = (\<Union>seg \<in> set (segments sm). case intersection (virtual_range seg) r of
      None \<Rightarrow> {} | Some t \<Rightarrow> set (map_overlap seg t))"
      using set_overlap_fold [of r "segments sm" "[]"] by simp
    have res: "map_range sm r = Ret \<lparr>span_range = r, span_origins = ?os\<rparr>"
      using False rD lens by (simp add: map_range_def)
    have lt: "range_start r < range_end r" using False rD by (simp add: range_is_empty_def)
    then have "virt \<noteq> []" using rD by auto
    then have t: "tiles 0 (segments sm) (length virt)" using ok by (simp add: segments_ok_def)
    obtain seg where seg: "seg \<in> set (segments sm)" "range_start (virtual_range seg) \<le> range_start r"
      "range_start r < range_end (virtual_range seg)"
      using tiles_find [OF t, of "range_start r"] lt rD by auto
    then have "intersection (virtual_range seg) r \<noteq> None"
      using lt by (simp add: intersection_None_iff)
    moreover have "seg_origins seg \<noteq> []" using ok seg by (simp add: segments_ok_def segment_ok_def)
    ultimately obtain t org where "intersection (virtual_range seg) r = Some t"
      "org \<in> set (map_overlap seg t)"
      by (cases "seg_origins seg") (auto simp: map_overlap_eq)
    then have "org \<in> set ?os"
      unfolding ss using seg(1) by (intro UN_I [of seg]) simp_all
    then have "?os \<noteq> []" by auto
    moreover have "origin_faithful orig virt g r org" if "org \<in> set ?os" for org
    proof -
      from that obtain seg t where s: "seg \<in> set (segments sm)" "intersection (virtual_range seg) r = Some t"
        "org \<in> set (map_overlap seg t)"
        unfolding ss by (auto split: option.splits)
      have sok: "segment_ok orig virt g seg" using ok s by (simp add: segments_ok_def)
      then have v: "is_valid_for (virtual_range seg) virt" by (simp add: segment_ok_def)
      note iv = intersection_valid [OF s(2) v r]
      from s(3) obtain o1 where "o1 \<in> set (seg_origins seg)" "org = restrict_origin seg t o1"
        by (auto simp: map_overlap_eq)
      then show ?thesis
        using restrict_origin_ok [OF sok _ iv(1,2)] iv by (auto simp: origin_faithful_def)
    qed
    ultimately show ?thesis using res by auto
  qed
qed

text \<open>No byte of the range is forgotten.\<close>

lemma map_range_covers:
  assumes sm: "source_map_ok orig virt g sm" and r: "is_valid_for r virt"
    and sp: "map_range sm r = Ret sp" and k: "range_start r \<le> k" "k < range_end r"
  shows "\<exists>org \<in> set (span_origins sp). \<exists>t. range_contains r t \<and> range_start t \<le> k \<and> k < range_end t \<and>
    origin_ok orig virt g t org"
proof -
  note rD = is_valid_forD [OF r]
  have ok: "segments_ok orig virt g (segments sm)" using sm by (simp add: source_map_ok_def)
  have ne: "\<not> range_is_empty r" "virt \<noteq> []" using k rD by (auto simp: range_is_empty_def)
  have ss: "set (span_origins sp) = (\<Union>seg \<in> set (segments sm). case intersection (virtual_range seg) r of
      None \<Rightarrow> {} | Some t \<Rightarrow> set (map_overlap seg t))"
    using sp ne set_overlap_fold [of r "segments sm" "[]"] by (auto simp: map_range_def split: if_splits)
  have "tiles 0 (segments sm) (length virt)" using ok ne by (simp add: segments_ok_def)
  then obtain seg where seg: "seg \<in> set (segments sm)" "range_start (virtual_range seg) \<le> k"
    "k < range_end (virtual_range seg)"
    using tiles_find [of 0 "segments sm" "length virt" k] k rD by auto
  then obtain t where t: "intersection (virtual_range seg) r = Some t"
    using k by (cases "intersection (virtual_range seg) r") (auto simp: intersection_None_iff)
  have sok: "segment_ok orig virt g seg" using ok seg by (simp add: segments_ok_def)
  then have v: "is_valid_for (virtual_range seg) virt" by (simp add: segment_ok_def)
  obtain o1 where o1: "o1 \<in> set (seg_origins seg)" using sok by (cases "seg_origins seg") (auto simp: segment_ok_def)
  note iv = intersection_valid [OF t v r]
  have "restrict_origin seg t o1 \<in> set (span_origins sp)"
    unfolding ss using seg(1) t o1 by (intro UN_I [of seg]) (simp_all add: map_overlap_eq)
  moreover have "range_start t \<le> k" "k < range_end t"
    using intersection_SomeD [OF t] seg k by auto
  ultimately show ?thesis using restrict_origin_ok [OF sok o1 iv(1,2)] iv(3) by blast
qed

lemma map_range_identity:
  assumes "is_valid_for r s"
  shows "map_range (source_map_identity s) r = Ret \<lparr>span_range = r, span_origins = [origin_exact r None]\<rparr>"
proof (cases "range_is_empty r")
  case True
  then have r: "r = range_empty (range_start r)" by (simp add: range_is_empty_def range_eq_iff)
  have "map_point (source_map_identity s) (range_start r) = Ret [origin_exact r None]"
    using is_valid_forD [OF assms] True
    by (auto simp: map_point_def source_map_identity_def Let_def range_is_empty_def range_empty_def
        segment_new_def range_eq_iff origin_exact_def range_new_def)
  then show ?thesis using True is_valid_forD [OF assms]
    by (auto simp: map_range_def source_map_identity_def Let_def)
next
  case False
  then show ?thesis using is_valid_forD [OF assms]
    by (auto simp: map_range_def source_map_identity_def Let_def range_is_empty_def intersection_def
        map_overlap_def push_unique_def range_eq_iff)
qed

lemma source_map_identity_ok: "source_map_ok s s g (source_map_identity s)"
  by (auto simp: source_map_ok_def source_map_identity_def Let_def segments_ok_def segment_ok_def
      origin_ok_def is_valid_for_def range_empty_def)

end
