(* ===== verification/Mapped_Source.thy ===== *)
theory Mapped_Source
  imports Source_Map
begin

text \<open>
  \<open>MappedSource\<close> of \<open>skript-parser/src/source_map.rs\<close>: original text, virtual text, source map and
  expansion graph together, the atomic application of a batch of text edits, and the registration
  of Tree and AST expansions.  \<open>mapped_source_ok\<close> is the invariant; every constructor and
  operation keeps it.
\<close>

record text_edit =
  edit_range :: text_range
  replacement :: str
  anchor :: "nat option"

definition text_edit_new :: "text_range \<Rightarrow> str \<Rightarrow> text_edit" where
  "text_edit_new r t = \<lparr>edit_range = r, replacement = t, anchor = None\<rparr>"

definition text_edit_anchored :: "text_range \<Rightarrow> str \<Rightarrow> nat \<Rightarrow> text_edit" where
  "text_edit_anchored r t a = \<lparr>edit_range = r, replacement = t, anchor = Some a\<rparr>"

record expansion_metadata =
  meta_component :: component_id
  meta_hook :: hook_id
  meta_definition_site :: "expansion_site option"

record mapped_source =
  ms_original :: str
  ms_virtual :: str
  ms_source_map :: source_map
  ms_expansions :: expansion_graph

record text_edit_application =
  tea_source :: mapped_source
  tea_expansion :: "expansion_id option"
  tea_generated_bytes :: nat

record tree_expansion_application =
  xea_source :: mapped_source
  xea_expansion :: expansion_id
  xea_syntax_context :: syntax_context_id

datatype text_edit_error =
    EditInvalidRange nat text_range
  | EditInvalidAnchor nat nat
  | NoOpEdit nat
  | OverlappingEdits nat nat
  | EditExpansion graph_error
  | EditSourceMap source_map_error

datatype tree_expansion_error =
    TreeInvalidVirtualRange text_range
  | TreeMissingOrigins
  | TreeInvalidOriginalRange text_range
  | TreeUnknownExpansion expansion_id
  | TreeExpansionGraph graph_error

definition mapped_source_identity :: "str \<Rightarrow> mapped_source" where
  "mapped_source_identity s =
     \<lparr>ms_original = s, ms_virtual = s, ms_source_map = source_map_identity s, ms_expansions = []\<rparr>"

definition validate_expansion_site ::
    "str \<Rightarrow> expansion_id \<Rightarrow> site_kind \<Rightarrow> text_range \<Rightarrow> (source_map_error, unit) outcome" where
  "validate_expansion_site orig i k r =
     (if \<not> is_valid_for r orig then Fail (InvalidExpansionSite i k r) else Ret ())"

definition mapped_source_new ::
    "str \<Rightarrow> str \<Rightarrow> expansion_graph \<Rightarrow> source_map_segment list \<Rightarrow> (source_map_error, mapped_source) outcome" where
  "mapped_source_new orig virt g segs =
     obind
       (check_all (\<lambda>e.
          obind (check_all (\<lambda>s. validate_expansion_site orig (exp_id e) CallSite (site_range s))
                   (exp_call_sites e))
            (\<lambda>_. case exp_definition_site e of
               Some d \<Rightarrow> validate_expansion_site orig (exp_id e) DefinitionSite (site_range d)
             | None \<Rightarrow> Ret ())) (map snd g))
       (\<lambda>_. obind (source_map_new orig virt segs g)
         (\<lambda>sm. Ret \<lparr>ms_original = orig, ms_virtual = virt, ms_source_map = sm, ms_expansions = g\<rparr>))"

definition ms_map_range :: "mapped_source \<Rightarrow> text_range \<Rightarrow> (source_map_error, mapped_span) outcome" where
  "ms_map_range ms r =
     (if \<not> is_valid_for r (ms_virtual ms) then Fail (InvalidRange VirtualSource r)
      else map_range (ms_source_map ms) r)"

definition origin_site :: "source_origin \<Rightarrow> expansion_site" where
  "origin_site org = \<lparr>site_range = original_range org, site_expansion = origin_expansion org\<rparr>"

subsection \<open>Registering Tree and AST expansions\<close>

definition register_non_text_expansion ::
    "mapped_source \<Rightarrow> mapped_span list \<Rightarrow> expansion_kind \<Rightarrow> expansion_metadata
      \<Rightarrow> (tree_expansion_error, tree_expansion_application) outcome" where
  "register_non_text_expansion ms mapped_sites kind meta =
     (if mapped_sites = [] then Fail TreeMissingOrigins
      else obind
        (try_for (\<lambda>site call_sites.
           if \<not> is_valid_for (span_range site) (ms_virtual ms)
             then Fail (TreeInvalidVirtualRange (span_range site))
           else if span_origins site = [] then Fail TreeMissingOrigins
           else try_for (\<lambda>org sites.
             if \<not> is_valid_for (original_range org) (ms_original ms)
               then Fail (TreeInvalidOriginalRange (original_range org))
             else obind
               (case origin_expansion org of
                  Some x \<Rightarrow> if graph_contains (ms_expansions ms) x then Ret ()
                            else Fail (TreeUnknownExpansion x)
                | None \<Rightarrow> Ret ())
               (\<lambda>_. Ret (push_unique sites (origin_site org)))) (span_origins site) call_sites)
          mapped_sites [])
        (\<lambda>call_sites.
         obind (omap_err TreeExpansionGraph (next_id (ms_expansions ms))) (\<lambda>xid.
         obind (omap_err TreeExpansionGraph (with_expansion (ms_expansions ms)
             \<lparr>exp_id = xid, exp_kind = kind, exp_component = meta_component meta,
              exp_hook = meta_hook meta, exp_call_sites = call_sites,
              exp_definition_site = meta_definition_site meta, exp_syntax_context = xid\<rparr>)) (\<lambda>g.
         Ret \<lparr>xea_source = ms\<lparr>ms_expansions := g\<rparr>, xea_expansion = xid, xea_syntax_context = xid\<rparr>))))"

definition register_tree_expansion where
  "register_tree_expansion ms call_site meta = register_non_text_expansion ms [call_site] TreeKind meta"

definition register_ast_expansion where
  "register_ast_expansion ms call_sites meta = register_non_text_expansion ms call_sites AstKind meta"

subsection \<open>Text edits\<close>

definition mapped_edit_span :: "mapped_source \<Rightarrow> text_edit \<Rightarrow> (source_map_error, mapped_span) outcome" where
  "mapped_edit_span ms e =
     (case anchor e of Some a \<Rightarrow> ms_map_range ms (range_empty a) | None \<Rightarrow> ms_map_range ms (edit_range e))"

definition text_edit_call_sites ::
    "mapped_source \<Rightarrow> text_edit list \<Rightarrow> (source_map_error, expansion_site list) outcome" where
  "text_edit_call_sites ms es =
     try_for (\<lambda>e sites. obind (mapped_edit_span ms e)
        (\<lambda>sp. Ret (extend_unique sites (map origin_site (span_origins sp))))) es []"

definition generated_origin :: "expansion_id \<Rightarrow> source_origin \<Rightarrow> source_origin" where
  "generated_origin x org =
     (if range_is_empty (original_range org) then origin_anchored (range_start (original_range org)) x
      else origin_replaced (original_range org) (Some x))"

definition generated_origins ::
    "mapped_source \<Rightarrow> text_edit \<Rightarrow> expansion_id \<Rightarrow> (source_map_error, source_origin list) outcome" where
  "generated_origins ms e x =
     obind (mapped_edit_span ms e)
       (\<lambda>sp. Ret (extend_unique [] (map (generated_origin x) (span_origins sp))))"

definition generated_origins_for_edits ::
    "mapped_source \<Rightarrow> text_edit list \<Rightarrow> expansion_id \<Rightarrow> (source_map_error, source_origin list) outcome" where
  "generated_origins_for_edits ms es x =
     try_for (\<lambda>e origins. obind (generated_origins ms e x) (\<lambda>os. Ret (extend_unique origins os))) es []"

fun validate_each_edit :: "str \<Rightarrow> nat \<Rightarrow> text_edit list \<Rightarrow> (text_edit_error, unit) outcome" where
  "validate_each_edit virt i [] = Ret ()"
| "validate_each_edit virt i (e # es) =
     (if \<not> is_valid_for (edit_range e) virt then Fail (EditInvalidRange i (edit_range e))
      else if range_is_empty (edit_range e) \<and> replacement e = [] then Fail (NoOpEdit i)
      else case anchor e of
        Some a \<Rightarrow>
          if a > length virt \<or> \<not> is_char_boundary virt a then Fail (EditInvalidAnchor i a)
          else validate_each_edit virt (i + 1) es
      | None \<Rightarrow> validate_each_edit virt (i + 1) es)"

definition edits_overlap :: "text_edit \<Rightarrow> text_edit \<Rightarrow> bool" where
  "edits_overlap previous current \<longleftrightarrow>
     range_start (edit_range current) < range_end (edit_range previous) \<or>
     (range_start (edit_range current) = range_start (edit_range previous) \<and>
      (range_is_empty (edit_range current) \<or> range_is_empty (edit_range previous)))"

fun validate_edit_order :: "nat \<Rightarrow> text_edit list \<Rightarrow> (text_edit_error, unit) outcome" where
  "validate_edit_order i (p # c # es) =
     (if edits_overlap p c then Fail (OverlappingEdits (i - 1) i)
      else validate_edit_order (i + 1) (c # es))"
| "validate_edit_order i _ = Ret ()"

definition validate_text_edits :: "mapped_source \<Rightarrow> text_edit list \<Rightarrow> (text_edit_error, unit) outcome" where
  "validate_text_edits ms es =
     obind (validate_each_edit (ms_virtual ms) 0 es) (\<lambda>_. validate_edit_order 1 es)"

text \<open>The copy of an unchanged range, with the origins of the segments it overlaps.\<close>

fun preserve_segments ::
    "text_range \<Rightarrow> source_map_segment list \<Rightarrow> nat \<Rightarrow> source_map_segment list \<Rightarrow> source_map_segment list" where
  "preserve_segments r [] out_start acc = acc"
| "preserve_segments r (seg # segs) out_start acc =
     (case intersection (virtual_range seg) r of
        None \<Rightarrow> preserve_segments r segs out_start acc
      | Some overlap \<Rightarrow>
          preserve_segments r segs (out_start + range_len overlap)
            (acc @ [segment_with_origins (range_new out_start (out_start + range_len overlap))
                      (map_overlap seg overlap)]))"

definition append_preserved_range ::
    "mapped_source \<Rightarrow> text_range \<Rightarrow> str \<times> source_map_segment list
      \<Rightarrow> (source_map_error, str \<times> source_map_segment list) outcome" where
  "append_preserved_range ms r st =
     (case st of (out, segs) \<Rightarrow>
      if range_is_empty r then Ret (out, segs)
      else obind (ok_or (InvalidRange VirtualSource r) (str_slice r (ms_virtual ms)))
        (\<lambda>text. let out' = out @ text
                in Ret (out', preserve_segments r (segments (ms_source_map ms))
                                (length out' - range_len r) segs)))"

definition apply_edit_step ::
    "mapped_source \<Rightarrow> expansion_id \<Rightarrow> text_edit \<Rightarrow> str \<times> source_map_segment list \<times> nat
      \<Rightarrow> (source_map_error, str \<times> source_map_segment list \<times> nat) outcome" where
  "apply_edit_step ms x e st =
     (case st of (out, segs, cursor) \<Rightarrow>
      obind (append_preserved_range ms (range_new cursor (range_start (edit_range e))) (out, segs))
        (\<lambda>(out1, segs1).
         let out2 = out1 @ replacement e
         in obind
           (if length out1 \<noteq> length out2 then
              obind (generated_origins ms e x)
                (\<lambda>os. Ret (segs1 @ [segment_with_origins (range_new (length out1) (length out2)) os]))
            else Ret segs1)
           (\<lambda>segs2. Ret (out2, segs2, range_end (edit_range e)))))"

definition apply_text_edits ::
    "mapped_source \<Rightarrow> text_edit list \<Rightarrow> expansion_metadata
      \<Rightarrow> (text_edit_error, text_edit_application) outcome" where
  "apply_text_edits ms edits meta =
     (if edits = [] then Ret \<lparr>tea_source = ms, tea_expansion = None, tea_generated_bytes = 0\<rparr>
      else let es = sort_key (\<lambda>e. (range_start (edit_range e), range_end (edit_range e))) edits in
        obind (validate_text_edits ms es) (\<lambda>_.
        obind (omap_err EditExpansion (next_id (ms_expansions ms))) (\<lambda>x.
        obind (omap_err EditSourceMap (text_edit_call_sites ms es)) (\<lambda>sites.
        obind (omap_err EditExpansion (with_expansion (ms_expansions ms)
            \<lparr>exp_id = x, exp_kind = TextKind, exp_component = meta_component meta,
             exp_hook = meta_hook meta, exp_call_sites = sites,
             exp_definition_site = meta_definition_site meta, exp_syntax_context = x\<rparr>)) (\<lambda>g.
        obind (omap_err EditSourceMap (try_for (apply_edit_step ms x) es ([], [], 0)))
          (\<lambda>(out, segs, cursor).
        obind (omap_err EditSourceMap
            (append_preserved_range ms (range_new cursor (length (ms_virtual ms))) (out, segs)))
          (\<lambda>(out, segs).
        obind (if out = [] then
                 obind (omap_err EditSourceMap (generated_origins_for_edits ms es x))
                   (\<lambda>os. Ret (segs @ [segment_with_origins (range_empty 0) os]))
               else Ret segs) (\<lambda>segs.
        obind (omap_err EditSourceMap (mapped_source_new (ms_original ms) out g segs)) (\<lambda>src.
        Ret \<lparr>tea_source = src, tea_expansion = Some x,
             tea_generated_bytes = sum_list (map (length \<circ> replacement) es)\<rparr>)))))))))"

subsection \<open>The invariant\<close>

definition sites_ok :: "str \<Rightarrow> expansion_graph \<Rightarrow> bool" where
  "sites_ok orig g \<longleftrightarrow>
     (\<forall>e \<in> set (map snd g). \<forall>s \<in> set (exp_call_sites e) \<union> set_option (exp_definition_site e).
        is_valid_for (site_range s) orig)"

definition mapped_source_ok :: "mapped_source \<Rightarrow> bool" where
  "mapped_source_ok ms \<longleftrightarrow>
     utf8_ok (ms_original ms) \<and> utf8_ok (ms_virtual ms) \<and> graph_ok (ms_expansions ms) \<and>
     sites_ok (ms_original ms) (ms_expansions ms) \<and>
     source_map_ok (ms_original ms) (ms_virtual ms) (ms_expansions ms) (ms_source_map ms)"

lemma validate_expansion_site_Ret_iff:
  "validate_expansion_site orig i k r = Ret () \<longleftrightarrow> is_valid_for r orig"
  by (simp add: validate_expansion_site_def)

lemma mapped_source_new_Ret_iff:
  "mapped_source_new orig virt g segs = Ret ms \<longleftrightarrow>
   sites_ok orig g \<and> segments_ok orig virt g segs \<and>
   ms = \<lparr>ms_original = orig, ms_virtual = virt,
         ms_source_map = \<lparr>original_len = length orig, virtual_len = length virt, segments = segs\<rparr>,
         ms_expansions = g\<rparr>"
  unfolding mapped_source_new_def sites_ok_def
  by (auto simp: outcome_simps validate_expansion_site_Ret_iff source_map_new_Ret_iff
      split: option.splits)

lemma mapped_source_identity_ok: "utf8_ok s \<Longrightarrow> mapped_source_ok (mapped_source_identity s)"
  by (simp add: mapped_source_ok_def mapped_source_identity_def source_map_identity_ok sites_ok_def
      graph_ok_def parent_rel_def acyclic_def)

lemma ms_map_range_sound:
  assumes "mapped_source_ok ms" and "is_valid_for r (ms_virtual ms)"
  shows "\<exists>sp. ms_map_range ms r = Ret sp \<and> span_range sp = r \<and> span_origins sp \<noteq> [] \<and>
      (\<forall>org \<in> set (span_origins sp).
         origin_faithful (ms_original ms) (ms_virtual ms) (ms_expansions ms) r org) \<and>
      (\<forall>k. range_start r \<le> k \<and> k < range_end r \<longrightarrow>
         (\<exists>org \<in> set (span_origins sp). \<exists>t. range_contains r t \<and> range_start t \<le> k \<and> k < range_end t \<and>
            origin_ok (ms_original ms) (ms_virtual ms) (ms_expansions ms) t org)) \<and>
      (ms = mapped_source_identity (ms_original ms) \<longrightarrow> span_origins sp = [origin_exact r None])"
proof -
  have sm: "source_map_ok (ms_original ms) (ms_virtual ms) (ms_expansions ms) (ms_source_map ms)"
    using assms(1) by (simp add: mapped_source_ok_def)
  have eq: "ms_map_range ms r = map_range (ms_source_map ms) r"
    using assms(2) by (simp add: ms_map_range_def)
  obtain sp where sp: "map_range (ms_source_map ms) r = Ret sp" "span_range sp = r" "span_origins sp \<noteq> []"
    "\<forall>org \<in> set (span_origins sp).
       origin_faithful (ms_original ms) (ms_virtual ms) (ms_expansions ms) r org"
    using map_range_sound [OF sm assms(2)] by blast
  moreover have "span_origins sp = [origin_exact r None]" if "ms = mapped_source_identity (ms_original ms)"
  proof -
    have "ms_source_map ms = source_map_identity (ms_original ms)" "ms_virtual ms = ms_original ms"
      by (subst that, simp add: mapped_source_identity_def)+
    then show ?thesis using map_range_identity [of r "ms_original ms"] assms(2) sp(1) by auto
  qed
  moreover have "\<forall>k. range_start r \<le> k \<and> k < range_end r \<longrightarrow>
      (\<exists>org \<in> set (span_origins sp). \<exists>t. range_contains r t \<and> range_start t \<le> k \<and> k < range_end t \<and>
        origin_ok (ms_original ms) (ms_virtual ms) (ms_expansions ms) t org)"
    using map_range_covers [OF sm assms(2) sp(1)] by simp
  ultimately show ?thesis
    using eq by (intro exI [of _ sp]) simp
qed

text \<open>
  C15. On a source that satisfies the invariant, \<open>map_range\<close> answers every valid range without panicking:
  the span is the range asked for, it has at least one origin, each origin is a valid range of
  the original text (and carries the same bytes if it is exact), and no byte of the range is
  left without an origin.  On an unexpanded source the answer is the range itself.
\<close>

theorem map_range_correct:
  assumes "mapped_source_ok ms" and "is_valid_for r (ms_virtual ms)"
  shows "\<exists>sp. ms_map_range ms r = Ret sp \<and> span_range sp = r \<and> span_origins sp \<noteq> [] \<and>
      (\<forall>org \<in> set (span_origins sp).
         origin_faithful (ms_original ms) (ms_virtual ms) (ms_expansions ms) r org) \<and>
      (\<forall>k. range_start r \<le> k \<and> k < range_end r \<longrightarrow>
         (\<exists>org \<in> set (span_origins sp). \<exists>t. range_contains r t \<and> range_start t \<le> k \<and> k < range_end t \<and>
            origin_ok (ms_original ms) (ms_virtual ms) (ms_expansions ms) t org)) \<and>
      (ms = mapped_source_identity (ms_original ms) \<longrightarrow> span_origins sp = [origin_exact r None])"
  using assms by (rule ms_map_range_sound)

subsection \<open>Moving segments between texts\<close>

lemma is_valid_for_append:
  "utf8_ok t \<Longrightarrow> is_valid_for r s \<Longrightarrow> is_valid_for r (s @ t)"
  by (auto simp: is_valid_for_def boundary_append_left)

lemma str_slice_append:
  "utf8_ok t \<Longrightarrow> is_valid_for r s \<Longrightarrow> str_slice r (s @ t) = str_slice r s"
  using is_valid_for_append [of t r s]
  by (simp add: str_slice_valid) (auto simp: is_valid_for_def range_len_def)

lemma origin_ok_move:
  assumes "origin_ok orig virt g r org" and "str_slice q virt' = str_slice r virt"
    and "\<And>x. graph_contains g x \<Longrightarrow> graph_contains g' x"
  shows "origin_ok orig virt' g' q org"
  using assms by (auto simp: origin_ok_def)

lemma segment_ok_move:
  assumes "segment_ok orig virt g (segment_with_origins r os)" and "is_valid_for q virt'"
    and "str_slice q virt' = str_slice r virt"
    and "\<And>x. graph_contains g x \<Longrightarrow> graph_contains g' x"
  shows "segment_ok orig virt' g' (segment_with_origins q os)"
  using assms by (auto simp: segment_ok_def intro: origin_ok_move)

lemma segment_eta: "segment_with_origins (virtual_range seg) (seg_origins seg) = (seg :: source_map_segment)"
  by (simp add: segment_with_origins_def)

lemma segment_ok_append:
  assumes "segment_ok orig s g seg" and "utf8_ok t"
  shows "segment_ok orig (s @ t) g seg"
proof -
  have v: "is_valid_for (virtual_range seg) s" using assms(1) by (simp add: segment_ok_def)
  show ?thesis
    using segment_ok_move [of orig s g "virtual_range seg" "seg_origins seg" "virtual_range seg" "s @ t" g]
      assms v is_valid_for_append [OF assms(2) v] str_slice_append [OF assms(2) v]
    by (simp add: segment_eta)
qed

lemma tiles_append: "tiles a xs b \<Longrightarrow> tiles b ys c \<Longrightarrow> tiles a (xs @ ys) c"
  by (induction xs arbitrary: a) auto

subsection \<open>Copying an unchanged range\<close>

lemma preserve_segments_acc:
  "preserve_segments r segs n acc = acc @ preserve_segments r segs n []"
proof (induction segs arbitrary: n acc)
  case (Cons seg segs)
  show ?case
  proof (cases "intersection (virtual_range seg) r")
    case (Some t)
    let ?new = "[segment_with_origins (range_new n (n + range_len t)) (map_overlap seg t)]"
    show ?thesis
      using Cons.IH [of "n + range_len t" "acc @ ?new"] Cons.IH [of "n + range_len t" ?new] Some
      by (simp del: segment_simps)
  next
    case None
    then show ?thesis using Cons.IH [of n acc] by simp
  qed
qed simp

lemma preserve_segments_Cons:
  "preserve_segments r (seg # segs) n [] =
   (case intersection (virtual_range seg) r of
      None \<Rightarrow> preserve_segments r segs n []
    | Some t \<Rightarrow> segment_with_origins (range_new n (n + range_len t)) (map_overlap seg t) #
                preserve_segments r segs (n + range_len t) [])"
  using preserve_segments_acc [of r segs _ "[segment_with_origins _ _]"]
  by (auto split: option.splits)

declare preserve_segments.simps(2) [simp del]

lemma intersection_len:
  "intersection q r = Some t \<Longrightarrow>
   range_len t = min (range_end q) (range_end r) - max (range_start q) (range_start r)"
  using intersection_SomeD [of q r t] by (simp add: range_len_def)

lemma preserve_tiles:
  "tiles a segs b \<Longrightarrow> range_end r \<le> b \<Longrightarrow>
   tiles n (preserve_segments r segs n []) (n + (range_end r - max a (range_start r)))"
proof (induction segs arbitrary: a n)
  case Nil
  then show ?case by simp
next
  case (Cons seg segs)
  let ?e = "range_end (virtual_range seg)"
  have IH: "tiles k (preserve_segments r segs k []) (k + (range_end r - max ?e (range_start r)))" for k
    using Cons by simp
  have a: "range_start (virtual_range seg) = a" "a < ?e" using Cons.prems by simp_all
  show ?case
  proof (cases "intersection (virtual_range seg) r")
    case None
    then have "range_end r - max a (range_start r) = range_end r - max ?e (range_start r)"
      using a by (auto simp: intersection_None_iff max_def min_def split: if_splits)
    then show ?thesis using IH [of n] None by (simp add: preserve_segments_Cons)
  next
    case (Some t)
    note t = intersection_SomeD [OF Some]
    have e: "n + range_len t + (range_end r - max ?e (range_start r)) = n + (range_end r - max a (range_start r))"
      and pos: "0 < range_len t"
      using t a by (auto simp: range_len_def max_def min_def split: if_splits)
    have "tiles (n + range_len t) (preserve_segments r segs (n + range_len t) [])
        (n + (range_end r - max a (range_start r)))"
      using IH [of "n + range_len t"] unfolding e .
    then show ?thesis using pos Some by (simp add: preserve_segments_Cons)
  qed
qed

lemma preserve_elements:
  assumes "tiles a segs b" and "new \<in> set (preserve_segments r segs n [])"
  shows "\<exists>seg t. seg \<in> set segs \<and> intersection (virtual_range seg) r = Some t \<and> a \<le> range_start t \<and>
    new = segment_with_origins
      (range_new (n + (range_start t - max a (range_start r))) (n + (range_end t - max a (range_start r))))
      (map_overlap seg t)"
  using assms
proof (induction segs arbitrary: a n)
  case Nil
  then show ?case by simp
next
  case (Cons seg segs)
  let ?e = "range_end (virtual_range seg)"
  have a: "range_start (virtual_range seg) = a" "a < ?e" and tl: "tiles ?e segs b"
    using Cons.prems by simp_all
  show ?case
  proof (cases "intersection (virtual_range seg) r")
    case None
    then have "new \<in> set (preserve_segments r segs n [])" using Cons.prems by (simp add: preserve_segments_Cons)
    from Cons.IH [OF tl this] obtain sg t where st: "sg \<in> set segs" "intersection (virtual_range sg) r = Some t"
      "?e \<le> range_start t" and new: "new = segment_with_origins
        (range_new (n + (range_start t - max ?e (range_start r))) (n + (range_end t - max ?e (range_start r))))
        (map_overlap sg t)" by blast
    have "max ?e (range_start r) = max a (range_start r)"
      using None intersection_SomeD [OF st(2)] st(3) a
      by (auto simp: intersection_None_iff max_def min_def split: if_splits)
    then show ?thesis using st new a by auto
  next
    case (Some t0)
    note t0 = intersection_SomeD [OF Some]
    from Cons.prems(2) Some consider
      "new = segment_with_origins (range_new n (n + range_len t0)) (map_overlap seg t0)"
      | "new \<in> set (preserve_segments r segs (n + range_len t0) [])"
      by (auto simp: preserve_segments_Cons)
    then show ?thesis
    proof cases
      case 1
      then show ?thesis using Some t0 a by (intro exI [of _ seg] exI [of _ t0]) (simp add: range_len_def)
    next
      case 2
      from Cons.IH [OF tl 2] obtain sg t where st: "sg \<in> set segs" "intersection (virtual_range sg) r = Some t"
        "?e \<le> range_start t" and new: "new = segment_with_origins
          (range_new (n + range_len t0 + (range_start t - max ?e (range_start r)))
                     (n + range_len t0 + (range_end t - max ?e (range_start r))))
          (map_overlap sg t)" by blast
      note t = intersection_SomeD [OF st(2)]
      have "n + range_len t0 + (range_start t - max ?e (range_start r)) =
            n + (range_start t - max a (range_start r))"
        "n + range_len t0 + (range_end t - max ?e (range_start r)) =
            n + (range_end t - max a (range_start r))"
        using t t0 a st(3) by (auto simp: range_len_def max_def min_def split: if_splits)
      then show ?thesis using st new a by (intro exI [of _ sg] exI [of _ t]) simp
    qed
  qed
qed

lemma preserve_ok:
  assumes segs: "\<forall>seg \<in> set segs. segment_ok orig virt g seg" and t: "tiles 0 segs (length virt)"
    and r: "is_valid_for r virt" and okv: "utf8_ok virt" and oko: "utf8_ok out"
    and new: "new \<in> set (preserve_segments r segs (length out) [])"
    and mono: "\<And>x. graph_contains g x \<Longrightarrow> graph_contains g' x"
  shows "segment_ok orig (out @ take (range_len r) (drop (range_start r) virt)) g' new"
proof -
  let ?p = "take (range_len r) (drop (range_start r) virt)"
  note rD = is_valid_forD [OF r]
  obtain seg t where st: "seg \<in> set segs" "intersection (virtual_range seg) r = Some t" and
    n: "new = segment_with_origins
      (range_new (length out + (range_start t - range_start r)) (length out + (range_end t - range_start r)))
      (map_overlap seg t)"
    using preserve_elements [OF t new] by auto
  have sok: "segment_ok orig virt g seg" using segs st(1) by blast
  then have v: "is_valid_for (virtual_range seg) virt" by (simp add: segment_ok_def)
  note iv = intersection_valid [OF st(2) v r]
  note tD = is_valid_forD [OF iv(1)]
  have rt: "range_start r \<le> range_start t" "range_end t \<le> range_end r"
    using iv(3) by (simp_all add: range_contains_def)
  have okp: "utf8_ok ?p" using str_slice_utf8_ok [OF okv] str_slice_valid [OF r] by blast
  have lp: "length ?p = range_len r" using rD by (auto simp: range_len_def min_def)
  let ?q = "range_new (length out + (range_start t - range_start r)) (length out + (range_end t - range_start r))"
  have bnd: "is_char_boundary (out @ ?p) (length out + (k - range_start r))"
    if "is_char_boundary virt k" "range_start r \<le> k" "k \<le> range_end r" for k
  proof -
    have "is_char_boundary (drop (range_start r) virt) (k - range_start r)"
      using boundary_drop [OF rD(3), of "k - range_start r"] that by simp
    moreover have "is_char_boundary (drop (range_start r) virt) (range_len r)"
      using boundary_drop [OF rD(3), of "range_len r"] rD by (simp add: range_len_def)
    ultimately have "is_char_boundary ?p (k - range_start r)"
      using boundary_take that by (simp add: range_len_def)
    then show ?thesis using boundary_append [OF okp] by blast
  qed
  have q: "is_valid_for ?q (out @ ?p)"
    unfolding is_valid_for_def
    using bnd [of "range_start t"] bnd [of "range_end t"] tD rt lp by (auto simp: range_len_def)
  have "range_len ?q = range_len t" using rt tD by (simp add: range_len_def)
  moreover have "take (range_len t) (drop (range_start t - range_start r) ?p) =
      take (range_len t) (drop (range_start t) virt)"
    using rt tD by (subst take_drop_take_drop) (auto simp: range_len_def)
  ultimately have "str_slice ?q (out @ ?p) = str_slice t virt"
    using q iv(1) by (simp add: str_slice_valid)
  then show ?thesis
    unfolding n using segment_ok_move [OF restrict_segment_ok [OF sok iv(1,2)] q _ mono] by blast
qed

subsection \<open>The composed source\<close>

text \<open>A text under construction together with the segments that already tile it.\<close>

definition built :: "str \<Rightarrow> expansion_graph \<Rightarrow> str \<Rightarrow> source_map_segment list \<Rightarrow> bool" where
  "built orig g out segs \<longleftrightarrow>
     utf8_ok out \<and> tiles 0 segs (length out) \<and> (\<forall>seg \<in> set segs. segment_ok orig out g seg)"

lemma built_extend:
  assumes "built orig g out segs" and "utf8_ok t" and "tiles (length out) new (length out + length t)"
    and "\<forall>seg \<in> set new. segment_ok orig (out @ t) g seg"
  shows "built orig g (out @ t) (segs @ new)"
  using assms segment_ok_append [OF _ assms(2)]
  by (auto simp: built_def utf8_ok_append intro: tiles_append)

lemma append_preserved_built:
  assumes ms: "mapped_source_ok ms" and b: "built (ms_original ms) g out segs"
    and r: "is_valid_for (range_new c d) (ms_virtual ms)"
    and mono: "\<And>x. graph_contains (ms_expansions ms) x \<Longrightarrow> graph_contains g x"
  shows "\<exists>segs'. append_preserved_range ms (range_new c d) (out, segs) =
      Ret (out @ take (d - c) (drop c (ms_virtual ms)), segs') \<and>
    built (ms_original ms) g (out @ take (d - c) (drop c (ms_virtual ms))) segs'"
proof (cases "c = d")
  case True
  then show ?thesis using b by (simp add: append_preserved_range_def range_is_empty_def)
next
  case False
  let ?v = "ms_virtual ms" and ?r = "range_new c d"
  let ?t = "take (d - c) (drop c ?v)" and ?ss = "segments (ms_source_map ms)"
  note rD = is_valid_forD [OF r, simplified]
  have ok: "segments_ok (ms_original ms) ?v (ms_expansions ms) ?ss" and okv: "utf8_ok ?v"
    using ms by (simp_all add: mapped_source_ok_def source_map_ok_def)
  have "?v \<noteq> []" using False rD by auto
  then have t: "tiles 0 ?ss (length ?v)" and sok: "\<forall>seg \<in> set ?ss. segment_ok (ms_original ms) ?v (ms_expansions ms) seg"
    using ok by (simp_all add: segments_ok_def)
  have sl: "str_slice ?r ?v = Some ?t" using str_slice_valid [OF r] by (simp add: range_len_def)
  have len: "length ?t = d - c" using rD by (auto simp: min_def)
  let ?new = "preserve_segments ?r ?ss (length out) []"
  have "append_preserved_range ms ?r (out, segs) = Ret (out @ ?t, segs @ ?new)"
    using False sl len by (simp add: append_preserved_range_def range_is_empty_def Let_def range_len_def)
      (simp add: preserve_segments_acc [of ?r ?ss _ segs])
  moreover have "built (ms_original ms) g (out @ ?t) (segs @ ?new)"
  proof (rule built_extend [OF b str_slice_utf8_ok [OF okv sl]])
    show "tiles (length out) ?new (length out + length ?t)"
      using preserve_tiles [OF t, of ?r "length out"] rD len by simp
    show "\<forall>seg \<in> set ?new. segment_ok (ms_original ms) (out @ ?t) g seg"
      using preserve_ok [OF sok t r okv _ _ mono] b by (simp add: range_len_def built_def)
  qed
  ultimately show ?thesis by blast
qed

definition edit_ok :: "str \<Rightarrow> text_edit \<Rightarrow> bool" where
  "edit_ok virt e \<longleftrightarrow>
     is_valid_for (edit_range e) virt \<and> \<not> (range_is_empty (edit_range e) \<and> replacement e = []) \<and>
     (\<forall>a. anchor e = Some a \<longrightarrow> is_char_boundary virt a)"

lemma validate_each_edit_Ret_iff:
  "validate_each_edit virt i es = Ret () \<longleftrightarrow> (\<forall>e \<in> set es. edit_ok virt e)"
  by (induction virt i es rule: validate_each_edit.induct)
    (auto simp: edit_ok_def boundary_le split: option.splits dest: boundary_le)

fun edits_from :: "nat \<Rightarrow> text_edit list \<Rightarrow> bool" where
  "edits_from c [] \<longleftrightarrow> True"
| "edits_from c (e # es) \<longleftrightarrow> c \<le> range_start (edit_range e) \<and> edits_from (range_end (edit_range e)) es"

lemma validate_edit_order_from:
  "validate_edit_order i (p # es) = Ret () \<Longrightarrow> edits_from (range_end (edit_range p)) es"
  by (induction es arbitrary: i p) (auto simp: edits_overlap_def not_less split: if_splits)

lemma validated_edits:
  assumes "validate_text_edits ms es = Ret ()"
  shows "\<forall>e \<in> set es. edit_ok (ms_virtual ms) e" and "edits_from 0 es"
  using assms
  by (auto simp: validate_text_edits_def outcome_simps validate_each_edit_Ret_iff)
    (cases es; auto dest: validate_edit_order_from)

lemma mapped_edit_span_total:
  assumes "mapped_source_ok ms" and "edit_ok (ms_virtual ms) e"
  shows "\<exists>sp. mapped_edit_span ms e = Ret sp \<and> span_origins sp \<noteq> [] \<and>
    (\<forall>org \<in> set (span_origins sp). is_valid_for (original_range org) (ms_original ms) \<and>
       (\<forall>x. origin_expansion org = Some x \<longrightarrow> graph_contains (ms_expansions ms) x))"
proof -
  define r where "r = (case anchor e of Some a \<Rightarrow> range_empty a | None \<Rightarrow> edit_range e)"
  have "is_valid_for r (ms_virtual ms)"
    using assms(2) by (auto simp: r_def edit_ok_def is_valid_for_def boundary_le split: option.splits)
  from ms_map_range_sound [OF assms(1) this] obtain sp where
    "ms_map_range ms r = Ret sp" "span_origins sp \<noteq> []"
    "\<forall>org \<in> set (span_origins sp). origin_faithful (ms_original ms) (ms_virtual ms) (ms_expansions ms) r org"
    by blast
  moreover have "mapped_edit_span ms e = ms_map_range ms r"
    by (simp add: mapped_edit_span_def r_def split: option.splits)
  ultimately show ?thesis by (auto simp: origin_faithful_def origin_ok_def)
qed

definition generated_ok :: "str \<Rightarrow> expansion_id \<Rightarrow> source_origin list \<Rightarrow> bool" where
  "generated_ok orig x os \<longleftrightarrow>
     (\<forall>org \<in> set os. is_valid_for (original_range org) orig \<and> origin_expansion org = Some x \<and>
        origin_kind org \<noteq> Exact \<and> (origin_kind org = Anchored \<longrightarrow> range_is_empty (original_range org)))"

lemma generated_origins_total:
  assumes "mapped_source_ok ms" and "edit_ok (ms_virtual ms) e"
  shows "\<exists>os. generated_origins ms e x = Ret os \<and> os \<noteq> [] \<and> generated_ok (ms_original ms) x os"
proof -
  obtain sp where sp: "mapped_edit_span ms e = Ret sp" "span_origins sp \<noteq> []"
    "\<forall>org \<in> set (span_origins sp). is_valid_for (original_range org) (ms_original ms)"
    using mapped_edit_span_total [OF assms] by blast
  let ?os = "extend_unique [] (map (generated_origin x) (span_origins sp))"
  have s: "set ?os = generated_origin x ` set (span_origins sp)" by simp
  have "?os \<noteq> []"
    using s sp(2) by (metis image_is_empty list.set(1) set_empty)
  moreover have "generated_ok (ms_original ms) x ?os"
    unfolding generated_ok_def s using sp(3)
    by (auto simp: generated_origin_def range_is_empty_def is_valid_for_def)
  ultimately show ?thesis using sp(1) by (simp add: generated_origins_def)
qed

lemma generated_segment_ok:
  assumes "generated_ok orig x os" and "os \<noteq> []" and "graph_contains g x" and "is_valid_for r virt"
  shows "segment_ok orig virt g (segment_with_origins r os)"
  using assms by (auto simp: segment_ok_def origin_ok_def generated_ok_def)

text \<open>The text a batch of edits stands for: each edit applied on its own, the last one first.\<close>

definition apply_one :: "text_edit \<Rightarrow> str \<Rightarrow> str" where
  "apply_one e s =
     take (range_start (edit_range e)) s @ replacement e @ drop (range_end (edit_range e)) s"

fun splice_edits :: "str \<Rightarrow> nat \<Rightarrow> text_edit list \<Rightarrow> str" where
  "splice_edits virt c [] = drop c virt"
| "splice_edits virt c (e # es) =
     take (range_start (edit_range e) - c) (drop c virt) @ replacement e @
     splice_edits virt (range_end (edit_range e)) es"

lemma splice_apply_one:
  assumes "edits_from c es" and "\<forall>e \<in> set es. is_valid_for (edit_range e) virt"
  shows "take c virt @ splice_edits virt c es = foldr apply_one es virt"
  using assms
proof (induction es arbitrary: c)
  case Nil
  then show ?case by simp
next
  case (Cons e es)
  let ?a = "range_start (edit_range e)" and ?b = "range_end (edit_range e)"
  have le: "c \<le> ?a" "?a \<le> ?b" "?b \<le> length virt"
    using Cons.prems by (auto dest: is_valid_forD)
  have IH: "foldr apply_one es virt = take ?b virt @ splice_edits virt ?b es"
    using Cons by simp
  have "take c virt @ take (?a - c) (drop c virt) = take ?a virt"
    using le(1) by (metis le_add_diff_inverse take_add)
  moreover have "foldr apply_one (e # es) virt = apply_one e (take ?b virt @ splice_edits virt ?b es)"
    by (simp add: IH)
  moreover have "apply_one e (take ?b virt @ splice_edits virt ?b es) =
      take ?a virt @ replacement e @ splice_edits virt ?b es"
    using le by (simp add: apply_one_def min_def)
  ultimately show ?case by (simp flip: append_assoc)
qed

lemma edit_step_built:
  assumes ms: "mapped_source_ok ms" and e: "edit_ok (ms_virtual ms) e" "utf8_ok (replacement e)"
    and c: "is_char_boundary (ms_virtual ms) c" "c \<le> range_start (edit_range e)"
    and b: "built (ms_original ms) g out segs" and x: "graph_contains g x"
    and mono: "\<And>y. graph_contains (ms_expansions ms) y \<Longrightarrow> graph_contains g y"
  shows "\<exists>out' segs'. apply_edit_step ms x e (out, segs, c) = Ret (out', segs', range_end (edit_range e)) \<and>
    built (ms_original ms) g out' segs' \<and>
    out' = out @ take (range_start (edit_range e) - c) (drop c (ms_virtual ms)) @ replacement e"
proof -
  let ?a = "range_start (edit_range e)"
  have "is_valid_for (range_new c ?a) (ms_virtual ms)"
    using c e(1) by (auto simp: edit_ok_def is_valid_for_def)
  from append_preserved_built [OF ms b this mono] obtain segs1 where
    s1: "append_preserved_range ms (range_new c ?a) (out, segs) =
      Ret (out @ take (?a - c) (drop c (ms_virtual ms)), segs1)"
    and b1: "built (ms_original ms) g (out @ take (?a - c) (drop c (ms_virtual ms))) segs1"
    by blast
  let ?o = "out @ take (?a - c) (drop c (ms_virtual ms))"
  obtain os where os: "generated_origins ms e x = Ret os" "os \<noteq> []" "generated_ok (ms_original ms) x os"
    using generated_origins_total [OF ms e(1)] by blast
  show ?thesis
  proof (cases "replacement e = []")
    case True
    then show ?thesis using s1 b1 by (simp add: apply_edit_step_def)
  next
    case False
    let ?r = "range_new (length ?o) (length ?o + length (replacement e))"
    have okr: "utf8_ok (?o @ replacement e)" using b1 e(2) by (simp add: built_def utf8_ok_append del: append_assoc)
    have v: "is_valid_for ?r (?o @ replacement e)"
      unfolding is_valid_for_def
      using boundary_append [OF e(2), of ?o 0] boundary_append [OF e(2), of ?o "length (replacement e)"]
      by simp
    have "built (ms_original ms) g (?o @ replacement e) (segs1 @ [segment_with_origins ?r os])"
      by (rule built_extend [OF b1 e(2)])
        (use False generated_segment_ok [OF os(3,2) x v] in simp_all)
    moreover have "apply_edit_step ms x e (out, segs, c) =
        Ret (?o @ replacement e, segs1 @ [segment_with_origins ?r os], range_end (edit_range e))"
      using False s1 os(1) by (simp add: apply_edit_step_def Let_def add.assoc)
    ultimately show ?thesis by auto
  qed
qed

lemma edit_loop_built:
  assumes ms: "mapped_source_ok ms" and x: "graph_contains g x"
    and mono: "\<And>y. graph_contains (ms_expansions ms) y \<Longrightarrow> graph_contains g y"
  shows "\<forall>e \<in> set es. edit_ok (ms_virtual ms) e \<and> utf8_ok (replacement e) \<Longrightarrow> edits_from c es \<Longrightarrow>
    is_char_boundary (ms_virtual ms) c \<Longrightarrow> built (ms_original ms) g out segs \<Longrightarrow>
    \<exists>out' segs' c'. try_for (apply_edit_step ms x) es (out, segs, c) = Ret (out', segs', c') \<and>
      built (ms_original ms) g out' segs' \<and> is_char_boundary (ms_virtual ms) c' \<and>
      out' @ drop c' (ms_virtual ms) = out @ splice_edits (ms_virtual ms) c es"
proof (induction es arbitrary: c out segs)
  case Nil
  then show ?case by simp
next
  case (Cons e es)
  from Cons.prems obtain out1 segs1 where
    s: "apply_edit_step ms x e (out, segs, c) = Ret (out1, segs1, range_end (edit_range e))"
    "built (ms_original ms) g out1 segs1"
    "out1 = out @ take (range_start (edit_range e) - c) (drop c (ms_virtual ms)) @ replacement e"
    using edit_step_built [OF ms _ _ _ _ _ x mono, of e c out segs] by auto
  have "is_char_boundary (ms_virtual ms) (range_end (edit_range e))"
    using Cons.prems(1) by (simp add: edit_ok_def is_valid_for_def)
  from Cons.IH [OF _ _ this s(2)] Cons.prems s(1,3) show ?case by auto
qed

lemma text_edit_call_sites_total:
  assumes ms: "mapped_source_ok ms" and es: "\<forall>e \<in> set es. edit_ok (ms_virtual ms) e" "es \<noteq> []"
  shows "\<exists>sites. text_edit_call_sites ms es = Ret sites \<and> sites \<noteq> [] \<and>
    (\<forall>s \<in> set sites. is_valid_for (site_range s) (ms_original ms) \<and> site_known (ms_expansions ms) s)"
proof -
  let ?f = "\<lambda>e. obind (mapped_edit_span ms e) (\<lambda>sp. Ret (map origin_site (span_origins sp)))"
  have "\<exists>ys. ?f e = Ret ys \<and> ys \<noteq> [] \<and>
      (\<forall>s \<in> set ys. is_valid_for (site_range s) (ms_original ms) \<and> site_known (ms_expansions ms) s)"
    if "e \<in> set es" for e
    using mapped_edit_span_total [OF ms, of e] es(1) that
    by (auto simp: origin_site_def site_known_def graph_contains_def)
  from try_for_extend [of es ?f _ "[]", OF this] es(2)
  show ?thesis by (simp add: text_edit_call_sites_def obind_assoc)
qed

lemma generated_for_edits_total:
  assumes ms: "mapped_source_ok ms" and es: "\<forall>e \<in> set es. edit_ok (ms_virtual ms) e" "es \<noteq> []"
  shows "\<exists>os. generated_origins_for_edits ms es x = Ret os \<and> os \<noteq> [] \<and> generated_ok (ms_original ms) x os"
proof -
  have "\<exists>ys. generated_origins ms e x = Ret ys \<and> ys \<noteq> [] \<and>
      (\<forall>org \<in> set ys. generated_ok (ms_original ms) x [org])" if "e \<in> set es" for e
    using generated_origins_total [OF ms, of e x] es(1) that by (auto simp: generated_ok_def)
  from try_for_extend [of es "\<lambda>e. generated_origins ms e x" _ "[]", OF this] es(2)
  show ?thesis by (auto simp: generated_origins_for_edits_def generated_ok_def)
qed

definition metadata_ok :: "mapped_source \<Rightarrow> expansion_metadata \<Rightarrow> bool" where
  "metadata_ok ms meta \<longleftrightarrow>
     \<not> is_blank (meta_component meta) \<and> \<not> is_blank (meta_hook meta) \<and>
     (\<forall>d. meta_definition_site meta = Some d \<longrightarrow>
        is_valid_for (site_range d) (ms_original ms) \<and> site_known (ms_expansions ms) d)"

text \<open>Adding one expansion with valid sites keeps everything the source refers to.\<close>

lemma with_expansion_sites:
  assumes ms: "mapped_source_ok ms" and x: "next_id (ms_expansions ms) = Ret x"
    and meta: "metadata_ok ms meta" and sites: "sites \<noteq> []"
      "\<forall>s \<in> set sites. is_valid_for (site_range s) (ms_original ms) \<and> site_known (ms_expansions ms) s"
    and e: "exp_id e = x" "exp_component e = meta_component meta" "exp_hook e = meta_hook meta"
      "exp_call_sites e = sites" "exp_definition_site e = meta_definition_site meta"
  shows "\<exists>g. with_expansion (ms_expansions ms) e = Ret g \<and> graph_ok g \<and> sites_ok (ms_original ms) g \<and>
    bt_get g = (bt_get (ms_expansions ms))(x \<mapsto> e)"
proof -
  have gok: "graph_ok (ms_expansions ms)" and sok: "sites_ok (ms_original ms) (ms_expansions ms)"
    using ms by (simp_all add: mapped_source_ok_def)
  have "expansion_ok (ms_expansions ms) e"
    using meta sites e by (auto simp: expansion_ok_def metadata_ok_def)
  from with_expansion_total [OF gok x e(1) this] obtain g where
    g: "with_expansion (ms_expansions ms) e = Ret g" "graph_ok g" "bt_get g = (bt_get (ms_expansions ms))(x \<mapsto> e)"
    by blast
  have "set (map snd g) = set (map snd (ms_expansions ms) @ [e])"
    using g(1) unfolding with_expansion_def graph_new_Ret_iff by blast
  then have "sites_ok (ms_original ms) g"
    using sok sites e meta unfolding sites_ok_def by (auto simp: metadata_ok_def)
  then show ?thesis using g by blast
qed

lemma segments_ok_mono:
  assumes "segments_ok orig virt g segs" and "\<And>x. graph_contains g x \<Longrightarrow> graph_contains g' x"
  shows "segments_ok orig virt g' segs"
  using assms by (fastforce simp: segments_ok_def segment_ok_def origin_ok_def)

abbreviation sorted_edits :: "text_edit list \<Rightarrow> text_edit list" where
  "sorted_edits es \<equiv> sort_key (\<lambda>e. (range_start (edit_range e), range_end (edit_range e))) es"

lemma finish_edits:
  assumes ms: "mapped_source_ok ms" and es: "\<forall>e \<in> set es. edit_ok (ms_virtual ms) e" "es \<noteq> []"
    and b: "built (ms_original ms) g out segs" and x: "graph_contains g x"
    and g: "graph_ok g" "sites_ok (ms_original ms) g"
  shows "\<exists>segs' src.
    (if out = [] then
       obind (omap_err EditSourceMap (generated_origins_for_edits ms es x))
         (\<lambda>os. Ret (segs @ [segment_with_origins (range_empty 0) os]))
     else Ret segs) = Ret segs' \<and>
    mapped_source_new (ms_original ms) out g segs' = Ret src \<and> mapped_source_ok src \<and>
    ms_original src = ms_original ms \<and> ms_virtual src = out \<and> ms_expansions src = g"
proof -
  obtain os where os: "generated_origins_for_edits ms es x = Ret os" "os \<noteq> []"
    "generated_ok (ms_original ms) x os"
    using generated_for_edits_total [OF ms es] by blast
  define segs' where "segs' = (if out = [] then segs @ [segment_with_origins (range_empty 0) os] else segs)"
  have nil: "out = [] \<Longrightarrow> segs = []" using b by (cases segs) (auto simp: built_def dest: tiles_le)
  have "is_valid_for (range_empty 0) []" by (simp add: is_valid_for_def)
  then have "segments_ok (ms_original ms) out g segs'"
    using b nil generated_segment_ok [OF os(3,2) x]
    by (auto simp: segs'_def segments_ok_def built_def)
  then have "mapped_source_new (ms_original ms) out g segs' = Ret
      \<lparr>ms_original = ms_original ms, ms_virtual = out,
       ms_source_map = \<lparr>original_len = length (ms_original ms), virtual_len = length out, segments = segs'\<rparr>,
       ms_expansions = g\<rparr>"
    using g(2) by (simp add: mapped_source_new_Ret_iff)
  moreover from \<open>segments_ok (ms_original ms) out g segs'\<close> have "mapped_source_ok
      \<lparr>ms_original = ms_original ms, ms_virtual = out,
       ms_source_map = \<lparr>original_len = length (ms_original ms), virtual_len = length out, segments = segs'\<rparr>,
       ms_expansions = g\<rparr>"
    using ms g b by (simp add: mapped_source_ok_def source_map_ok_def built_def)
  ultimately show ?thesis using os(1) by (intro exI [of _ segs']) (simp add: segs'_def)
qed

lemma apply_text_edits_total:
  assumes ms: "mapped_source_ok ms" and meta: "metadata_ok ms meta"
    and utf8: "\<forall>e \<in> set edits. utf8_ok (replacement e)" and ne: "edits \<noteq> []"
    and val: "validate_text_edits ms (sorted_edits edits) = Ret ()"
    and x: "next_id (ms_expansions ms) = Ret x"
  shows "\<exists>app. apply_text_edits ms edits meta = Ret app \<and> mapped_source_ok (tea_source app) \<and>
    ms_original (tea_source app) = ms_original ms \<and>
    ms_virtual (tea_source app) = foldr apply_one (sorted_edits edits) (ms_virtual ms) \<and>
    tea_expansion app = Some x \<and>
    (\<forall>i e. bt_get (ms_expansions ms) i = Some e \<longrightarrow> bt_get (ms_expansions (tea_source app)) i = Some e)"
proof -
  let ?es = "sorted_edits edits" and ?v = "ms_virtual ms"
  have es: "\<forall>e \<in> set ?es. edit_ok ?v e" "edits_from 0 ?es" "?es \<noteq> []"
    using validated_edits [OF val] ne by (auto simp: length_greater_0_conv [symmetric] simp del: length_greater_0_conv)
  obtain sites where sites: "text_edit_call_sites ms ?es = Ret sites" "sites \<noteq> []"
    "\<forall>s \<in> set sites. is_valid_for (site_range s) (ms_original ms) \<and> site_known (ms_expansions ms) s"
    using text_edit_call_sites_total [OF ms es(1,3)] by blast
  let ?e = "\<lparr>exp_id = x, exp_kind = TextKind, exp_component = meta_component meta,
             exp_hook = meta_hook meta, exp_call_sites = sites,
             exp_definition_site = meta_definition_site meta, exp_syntax_context = x\<rparr>"
  obtain g where g: "with_expansion (ms_expansions ms) ?e = Ret g" "graph_ok g" "sites_ok (ms_original ms) g"
    "bt_get g = (bt_get (ms_expansions ms))(x \<mapsto> ?e)"
    using with_expansion_sites [OF ms x meta sites(2,3), of ?e] by auto
  have xg: "graph_contains g x" and mono: "\<And>y. graph_contains (ms_expansions ms) y \<Longrightarrow> graph_contains g y"
    using g(4) by (auto simp: graph_contains_def bt_contains_def)
  have "built (ms_original ms) g [] []" by (simp add: built_def)
  from edit_loop_built [OF ms xg mono _ es(2) _ this] es(1) utf8 obtain out segs c where
    loop: "try_for (apply_edit_step ms x) ?es ([], [], 0) = Ret (out, segs, c)"
    and b: "built (ms_original ms) g out segs" and c: "is_char_boundary ?v c"
    and out: "out @ drop c ?v = splice_edits ?v 0 ?es"
    by auto
  have "is_valid_for (range_new c (length ?v)) ?v" using c by (simp add: is_valid_for_def boundary_le)
  from append_preserved_built [OF ms b this mono] obtain segs1 where
    s1: "append_preserved_range ms (range_new c (length ?v)) (out, segs) = Ret (out @ drop c ?v, segs1)"
    and b1: "built (ms_original ms) g (out @ drop c ?v) segs1" by auto
  have text_eq: "out @ drop c ?v = foldr apply_one ?es ?v"
    using splice_apply_one [OF es(2)] es(1) out by (auto simp: edit_ok_def)
  have fresh: "\<not> bt_contains (ms_expansions ms) x"
    using next_id_fresh [OF _ x] ms by (auto simp: mapped_source_ok_def graph_ok_def)
  obtain segs2 src where fin:
    "(if out @ drop c ?v = [] then
       obind (omap_err EditSourceMap (generated_origins_for_edits ms ?es x))
         (\<lambda>os. Ret (segs1 @ [segment_with_origins (range_empty 0) os]))
     else Ret segs1) = Ret segs2"
    "mapped_source_new (ms_original ms) (out @ drop c ?v) g segs2 = Ret src" "mapped_source_ok src"
    "ms_original src = ms_original ms" "ms_virtual src = out @ drop c ?v" "ms_expansions src = g"
    using finish_edits [OF ms es(1,3) b1 xg g(2,3)] by blast
  have "apply_text_edits ms edits meta = Ret \<lparr>tea_source = src, tea_expansion = Some x,
      tea_generated_bytes = sum_list (map (length \<circ> replacement) ?es)\<rparr>"
    unfolding apply_text_edits_def Let_def
    using ne val x sites(1) g(1) loop s1 fin(1,2) by (simp only: if_False obind.simps omap_err.simps prod.case)
  then show ?thesis
    using fin(3-6) text_eq g(4) fresh by (auto simp: bt_contains_def)
qed

subsection \<open>Which batches are accepted\<close>

lemma validate_edit_order_Ret_iff:
  "validate_edit_order i es = Ret () \<longleftrightarrow> successively (\<lambda>p c. \<not> edits_overlap p c) es"
  by (induction i es rule: validate_edit_order.induct) auto

text \<open>Neighbours that do not overlap are enough: no two edits of a valid sorted batch overlap.\<close>

lemma successively_no_overlap:
  assumes "\<forall>e \<in> set es. is_valid_for (edit_range e) virt"
  shows "successively (\<lambda>p c. \<not> edits_overlap p c) es \<longleftrightarrow> sorted_wrt (\<lambda>p c. \<not> edits_overlap p c) es"
proof
  assume "successively (\<lambda>p c. \<not> edits_overlap p c) es"
  then show "sorted_wrt (\<lambda>p c. \<not> edits_overlap p c) es"
    using assms
  proof (induction es rule: induct_list012)
    case (3 p c es)
    have IH: "sorted_wrt (\<lambda>p c. \<not> edits_overlap p c) (c # es)" using 3 by simp
    have v: "range_start (edit_range e) \<le> range_end (edit_range e)" if "e \<in> set (p # c # es)" for e
      using 3(4) that by (auto simp: is_valid_for_def)
    have pc: "\<not> edits_overlap p c" using 3(3) by simp
    have "\<not> edits_overlap p d" if d: "d \<in> set es" for d
    proof -
      have cd: "\<not> edits_overlap c d" using IH d by auto
      show ?thesis using pc cd v [of p] v [of c] v [of d] d
        by (auto simp: edits_overlap_def range_is_empty_def)
    qed
    then show ?case using IH pc by auto
  qed simp_all
next
  assume "sorted_wrt (\<lambda>p c. \<not> edits_overlap p c) es"
  then show "successively (\<lambda>p c. \<not> edits_overlap p c) es"
    by (induction es rule: induct_list012) auto
qed

lemma validate_text_edits_Ret_iff:
  "validate_text_edits ms es = Ret () \<longleftrightarrow>
   (\<forall>e \<in> set es. edit_ok (ms_virtual ms) e) \<and> sorted_wrt (\<lambda>p c. \<not> edits_overlap p c) es"
proof (cases "\<forall>e \<in> set es. edit_ok (ms_virtual ms) e")
  case True
  then have "\<forall>e \<in> set es. is_valid_for (edit_range e) (ms_virtual ms)" by (simp add: edit_ok_def)
  from successively_no_overlap [OF this] True show ?thesis
    by (simp add: validate_text_edits_def outcome_simps validate_each_edit_Ret_iff
        validate_edit_order_Ret_iff)
qed (auto simp: validate_text_edits_def outcome_simps validate_each_edit_Ret_iff)

lemma validate_text_edits_not_Panic: "validate_text_edits ms es \<noteq> Panic"
proof -
  have "validate_each_edit v i es \<noteq> Panic" for v i
    by (induction v i es rule: validate_each_edit.induct) (auto split: option.splits)
  moreover have "validate_edit_order i es \<noteq> Panic" for i
    by (induction i es rule: validate_edit_order.induct) auto
  ultimately show ?thesis by (simp add: validate_text_edits_def outcome_simps)
qed

lemma next_id_cases: "(\<exists>x. next_id m = Ret x) \<or> next_id m = Fail IdExhausted"
  by (simp add: next_id_def Let_def)

text \<open>
  C2. A batch of text edits whose ranges and anchors are valid and which do not overlap is applied
  atomically and never rejected by the validation of its own result: the new virtual text is
  what applying the edits one at a time, last one first, gives, the composed source map again satisfies the
  invariant, the original text is unchanged, the new expansion has the fresh identity and every
  earlier expansion is kept.
\<close>

theorem apply_text_edits_refines_splice:
  assumes "mapped_source_ok ms" and "metadata_ok ms meta"
    and "\<forall>e \<in> set edits. utf8_ok (replacement e) \<and> edit_ok (ms_virtual ms) e" and "edits \<noteq> []"
    and "sorted_wrt (\<lambda>p c. \<not> edits_overlap p c) (sorted_edits edits)"
    and "next_id (ms_expansions ms) = Ret x"
  shows "\<exists>app. apply_text_edits ms edits meta = Ret app \<and> mapped_source_ok (tea_source app) \<and>
    ms_original (tea_source app) = ms_original ms \<and>
    ms_virtual (tea_source app) = foldr apply_one (sorted_edits edits) (ms_virtual ms) \<and>
    tea_expansion app = Some x \<and>
    (\<forall>i e. bt_get (ms_expansions ms) i = Some e \<longrightarrow> bt_get (ms_expansions (tea_source app)) i = Some e)"
proof -
  have "validate_text_edits ms (sorted_edits edits) = Ret ()"
    using assms(3,5) by (simp add: validate_text_edits_Ret_iff)
  then show ?thesis using assms by (intro apply_text_edits_total) auto
qed

text \<open>
  On a valid source with nonblank, resolvable metadata \<open>apply_text_edits\<close> never panics and has no
  other errors than these: a nonempty batch with an invalid range, an invalid anchor, an edit
  that changes nothing or two edits that overlap is rejected with the validation error, and the
  only other error is the exhaustion of expansion identities.
\<close>

theorem apply_text_edits_errors:
  assumes ms: "mapped_source_ok ms" and meta: "metadata_ok ms meta"
    and utf8: "\<forall>e \<in> set edits. utf8_ok (replacement e)"
  shows "apply_text_edits ms edits meta \<noteq> Panic \<and>
    (apply_text_edits ms edits meta = Fail err \<longleftrightarrow> edits \<noteq> [] \<and>
       (validate_text_edits ms (sorted_edits edits) = Fail err \<or>
        (\<forall>e \<in> set edits. edit_ok (ms_virtual ms) e) \<and>
        sorted_wrt (\<lambda>p c. \<not> edits_overlap p c) (sorted_edits edits) \<and>
        next_id (ms_expansions ms) = Fail IdExhausted \<and> err = EditExpansion IdExhausted))"
proof (cases "edits = []")
  case True
  then show ?thesis by (simp add: apply_text_edits_def)
next
  case False
  show ?thesis
  proof (cases "validate_text_edits ms (sorted_edits edits)")
    case (Ret u)
    then have val: "validate_text_edits ms (sorted_edits edits) = Ret ()" by simp
    show ?thesis
    proof (cases "\<exists>x. next_id (ms_expansions ms) = Ret x")
      case True
      then obtain x where x: "next_id (ms_expansions ms) = Ret x" ..
      then show ?thesis using apply_text_edits_total [OF ms meta utf8 False val x] val by auto
    next
      case noid: False
      then have "next_id (ms_expansions ms) = Fail IdExhausted" using next_id_cases by blast
      then show ?thesis using val False validate_text_edits_Ret_iff [of ms "sorted_edits edits"]
        by (auto simp: apply_text_edits_def Let_def)
    qed
  next
    case (Fail e)
    then show ?thesis using False validate_text_edits_Ret_iff [of ms "sorted_edits edits"]
      by (auto simp: apply_text_edits_def Let_def)
  next
    case Panic
    then show ?thesis using validate_text_edits_not_Panic by blast
  qed
qed

subsection \<open>Tree and AST expansions\<close>

definition call_span_ok :: "mapped_source \<Rightarrow> mapped_span \<Rightarrow> bool" where
  "call_span_ok ms sp \<longleftrightarrow>
     is_valid_for (span_range sp) (ms_virtual ms) \<and> span_origins sp \<noteq> [] \<and>
     (\<forall>org \<in> set (span_origins sp). is_valid_for (original_range org) (ms_original ms) \<and>
        site_known (ms_expansions ms) (origin_site org))"

lemma origin_loop_Ret_iff:
  "try_for (\<lambda>org sites.
     if \<not> is_valid_for (original_range org) (ms_original ms)
       then Fail (TreeInvalidOriginalRange (original_range org))
     else obind
       (case origin_expansion org of
          Some x \<Rightarrow> if graph_contains (ms_expansions ms) x then Ret ()
                    else Fail (TreeUnknownExpansion x)
        | None \<Rightarrow> Ret ())
       (\<lambda>_. Ret (push_unique sites (origin_site org)))) orgs acc = Ret sites \<longleftrightarrow>
   (\<forall>org \<in> set orgs. is_valid_for (original_range org) (ms_original ms) \<and>
      site_known (ms_expansions ms) (origin_site org)) \<and>
   sites = extend_unique acc (map origin_site orgs)"
  by (induction orgs arbitrary: acc)
    (auto simp: outcome_simps site_known_def origin_site_def graph_contains_def split: option.splits)

lemma span_loop_Ret_iff:
  "try_for (\<lambda>site call_sites.
     if \<not> is_valid_for (span_range site) (ms_virtual ms) then Fail (TreeInvalidVirtualRange (span_range site))
     else if span_origins site = [] then Fail TreeMissingOrigins
     else try_for (\<lambda>org sites.
       if \<not> is_valid_for (original_range org) (ms_original ms)
         then Fail (TreeInvalidOriginalRange (original_range org))
       else obind
         (case origin_expansion org of
            Some x \<Rightarrow> if graph_contains (ms_expansions ms) x then Ret ()
                      else Fail (TreeUnknownExpansion x)
          | None \<Rightarrow> Ret ())
         (\<lambda>_. Ret (push_unique sites (origin_site org)))) (span_origins site) call_sites) sps acc = Ret sites \<longleftrightarrow>
   (\<forall>sp \<in> set sps. call_span_ok ms sp) \<and>
   sites = fold (\<lambda>sp acc. extend_unique acc (map origin_site (span_origins sp))) sps acc"
proof (induction sps arbitrary: acc)
  case (Cons sp sps)
  then show ?case
    by (cases "is_valid_for (span_range sp) (ms_virtual ms)"; cases "span_origins sp = []")
      (auto simp: obind_Ret_iff origin_loop_Ret_iff call_span_ok_def)
qed auto

definition span_sites :: "mapped_span list \<Rightarrow> expansion_site list" where
  "span_sites sps = fold (\<lambda>sp acc. extend_unique acc (map origin_site (span_origins sp))) sps []"

lemma set_span_sites: "set (span_sites sps) = (\<Union>sp \<in> set sps. origin_site ` set (span_origins sp))"
proof -
  have "set (fold (\<lambda>sp acc. extend_unique acc (map origin_site (span_origins sp))) sps acc) =
      set acc \<union> (\<Union>sp \<in> set sps. origin_site ` set (span_origins sp))" for acc
    by (induction sps arbitrary: acc) auto
  then show ?thesis by (simp add: span_sites_def)
qed

text \<open>What the graph requires of the rest of a registration; the range of a definition site is not part of it.\<close>

definition registration_ok :: "mapped_source \<Rightarrow> expansion_metadata \<Rightarrow> bool" where
  "registration_ok ms meta \<longleftrightarrow> \<not> is_blank (meta_component meta) \<and> \<not> is_blank (meta_hook meta) \<and>
     (\<exists>x. next_id (ms_expansions ms) = Ret x \<and>
        (\<forall>d r. meta_definition_site meta = Some d \<longrightarrow> site_expansion d = Some r \<longrightarrow> r = x \<or> graph_contains (ms_expansions ms) r))"

lemma register_expansion_cases:
  assumes ms: "mapped_source_ok ms"
  shows "(\<exists>app. register_non_text_expansion ms sps kind meta = Ret app) \<longleftrightarrow>
      sps \<noteq> [] \<and> (\<forall>sp \<in> set sps. call_span_ok ms sp) \<and> registration_ok ms meta"
    and "register_non_text_expansion ms sps kind meta = Ret app \<Longrightarrow>
      (mapped_source_ok (xea_source app) \<longleftrightarrow>
        (\<forall>d. meta_definition_site meta = Some d \<longrightarrow> is_valid_for (site_range d) (ms_original ms))) \<and>
      graph_ok (ms_expansions (xea_source app)) \<and>
      xea_source app = ms\<lparr>ms_expansions := ms_expansions (xea_source app)\<rparr> \<and>
      next_id (ms_expansions ms) = Ret (xea_expansion app) \<and>
      (\<exists>e. bt_get (ms_expansions (xea_source app)) = (bt_get (ms_expansions ms))(xea_expansion app \<mapsto> e) \<and>
        exp_kind e = kind \<and> exp_component e = meta_component meta \<and> exp_hook e = meta_hook meta \<and>
        exp_definition_site e = meta_definition_site meta \<and> distinct (exp_call_sites e) \<and>
        set (exp_call_sites e) = (\<Union>sp \<in> set sps. origin_site ` set (span_origins sp)))"
proof -
  let ?m = "ms_expansions ms"
  define e where "e x = \<lparr>exp_id = x, exp_kind = kind, exp_component = meta_component meta,
    exp_hook = meta_hook meta, exp_call_sites = span_sites sps,
    exp_definition_site = meta_definition_site meta, exp_syntax_context = x\<rparr>" for x
  have gok: "graph_ok ?m" and sok: "sites_ok (ms_original ms) ?m" using ms by (simp_all add: mapped_source_ok_def)
  have reg: "register_non_text_expansion ms sps kind meta = Ret app \<longleftrightarrow>
      sps \<noteq> [] \<and> (\<forall>sp \<in> set sps. call_span_ok ms sp) \<and>
      (\<exists>x g. next_id ?m = Ret x \<and> with_expansion ?m (e x) = Ret g \<and>
        app = \<lparr>xea_source = ms\<lparr>ms_expansions := g\<rparr>, xea_expansion = x, xea_syntax_context = x\<rparr>)" for app
    unfolding register_non_text_expansion_def
    by (auto simp: obind_Ret_iff omap_err_Ret_iff span_loop_Ret_iff e_def span_sites_def)
  have sites: "span_sites sps \<noteq> []" "\<forall>s \<in> set (span_sites sps). is_valid_for (site_range s) (ms_original ms) \<and> site_known ?m s"
    if ne: "sps \<noteq> []" and ok: "\<forall>sp \<in> set sps. call_span_ok ms sp"
  proof -
    obtain sp where "sp \<in> set sps" "span_origins sp \<noteq> []"
      using ne ok by (metis call_span_ok_def list.set_sel(1))
    then have "set (span_sites sps) \<noteq> {}" unfolding set_span_sites by auto
    then show "span_sites sps \<noteq> []" by auto
    show "\<forall>s \<in> set (span_sites sps). is_valid_for (site_range s) (ms_original ms) \<and> site_known ?m s"
      using ok by (auto simp: set_span_sites call_span_ok_def origin_site_def)
  qed
  have fresh: "\<not> bt_contains ?m x" if x: "next_id ?m = Ret x" for x
    using next_id_fresh [OF _ x] gok by (auto simp: graph_ok_def)
  have accepted: "with_expansion ?m (e x) = Ret g \<longleftrightarrow> g = bt_insert x (e x) ?m \<and>
      \<not> is_blank (meta_component meta) \<and> \<not> is_blank (meta_hook meta) \<and>
      (\<forall>d r. meta_definition_site meta = Some d \<longrightarrow> site_expansion d = Some r \<longrightarrow> r = x \<or> graph_contains ?m r)"
    if ne: "sps \<noteq> []" and ok: "\<forall>sp \<in> set sps. call_span_ok ms sp" and x: "next_id ?m = Ret x" for x g
  proof -
    have known: "\<forall>s \<in> set (exp_call_sites (e x)). site_known ?m s" using sites(2) [OF ne ok] by (simp add: e_def)
    have "with_expansion ?m (e x) = Ret g \<longleftrightarrow> g = bt_insert x (e x) ?m \<and> expansion_ok (bt_insert x (e x) ?m) (e x)"
      by (rule with_expansion_Ret_iff [OF gok fresh [OF x] _ known]) (simp add: e_def)
    moreover have "expansion_ok (bt_insert x (e x) ?m) (e x) \<longleftrightarrow>
      \<not> is_blank (meta_component meta) \<and> \<not> is_blank (meta_hook meta) \<and>
      (\<forall>d r. meta_definition_site meta = Some d \<longrightarrow> site_expansion d = Some r \<longrightarrow> r = x \<or> graph_contains ?m r)"
      using sites [OF ne ok] by (auto simp: expansion_ok_def e_def site_known_def graph_contains_def)
    ultimately show ?thesis by blast
  qed
  show "(\<exists>app. register_non_text_expansion ms sps kind meta = Ret app) \<longleftrightarrow>
      sps \<noteq> [] \<and> (\<forall>sp \<in> set sps. call_span_ok ms sp) \<and> registration_ok ms meta"
    unfolding reg registration_ok_def using accepted by blast
  assume "register_non_text_expansion ms sps kind meta = Ret app"
  then obtain x g where a: "sps \<noteq> []" "\<forall>sp \<in> set sps. call_span_ok ms sp" "next_id ?m = Ret x"
    "with_expansion ?m (e x) = Ret g"
    "app = \<lparr>xea_source = ms\<lparr>ms_expansions := g\<rparr>, xea_expansion = x, xea_syntax_context = x\<rparr>"
    unfolding reg by blast
  have g: "g = bt_insert x (e x) ?m" using accepted [OF a(1-3)] a(4) by blast
  have get: "bt_get g = (bt_get ?m)(x \<mapsto> e x)" by (simp add: g bt_get_insert)
  have ok: "graph_ok g" using a(4) unfolding with_expansion_def graph_new_Ret_iff by blast
  have sites_g: "sites_ok (ms_original ms) g \<longleftrightarrow>
      (\<forall>d. meta_definition_site meta = Some d \<longrightarrow> is_valid_for (site_range d) (ms_original ms))"
    using sok sites(2) [OF a(1,2)] set_bt_insert_new [OF fresh [OF a(3)], of "e x"]
    by (auto simp: sites_ok_def g e_def)
  have "segments_ok (ms_original ms) (ms_virtual ms) g (segments (ms_source_map ms))"
    using segments_ok_mono [of _ _ ?m _ g] ms get
    by (auto simp: mapped_source_ok_def source_map_ok_def graph_contains_def bt_contains_def)
  then have "mapped_source_ok (xea_source app) \<longleftrightarrow> sites_ok (ms_original ms) g"
    using ms ok a(5) by (auto simp: mapped_source_ok_def source_map_ok_def)
  moreover have "distinct (span_sites sps)"
  proof -
    have "distinct acc \<Longrightarrow>
        distinct (fold (\<lambda>sp acc. extend_unique acc (map origin_site (span_origins sp))) sps acc)" for acc
      by (induction sps arbitrary: acc) auto
    then show ?thesis by (simp add: span_sites_def)
  qed
  ultimately show "(mapped_source_ok (xea_source app) \<longleftrightarrow>
        (\<forall>d. meta_definition_site meta = Some d \<longrightarrow> is_valid_for (site_range d) (ms_original ms))) \<and>
      graph_ok (ms_expansions (xea_source app)) \<and>
      xea_source app = ms\<lparr>ms_expansions := ms_expansions (xea_source app)\<rparr> \<and>
      next_id (ms_expansions ms) = Ret (xea_expansion app) \<and>
      (\<exists>e. bt_get (ms_expansions (xea_source app)) = (bt_get (ms_expansions ms))(xea_expansion app \<mapsto> e) \<and>
        exp_kind e = kind \<and> exp_component e = meta_component meta \<and> exp_hook e = meta_hook meta \<and>
        exp_definition_site e = meta_definition_site meta \<and> distinct (exp_call_sites e) \<and>
        set (exp_call_sites e) = (\<Union>sp \<in> set sps. origin_site ` set (span_origins sp)))"
    using a get ok sites_g by (simp, intro exI [of _ "e x"]) (simp add: e_def set_span_sites)
qed

lemma metadata_registration: "metadata_ok ms meta \<Longrightarrow> next_id (ms_expansions ms) = Ret x \<Longrightarrow> registration_ok ms meta"
  by (auto simp: metadata_ok_def registration_ok_def site_known_def graph_contains_def)

text \<open>
  C37. Registering a Tree or AST expansion on a valid source succeeds exactly when there is a call
  site, every call site is a valid range with valid origins that name known expansions, component and
  hook are not blank, an identity is left, and a definition site names no unknown expansion.  It changes
  no text and no segment and adds one expansion to the graph, which stays valid, with the given kind,
  owner and definition site and each original call site once.  The invariant of the source is kept
  exactly when the range of the definition site, if there is one, is valid, which is not checked.
\<close>

theorem register_expansion_correct:
  assumes "mapped_source_ok ms"
  shows "((\<exists>app. register_non_text_expansion ms sps kind meta = Ret app) \<longleftrightarrow>
      sps \<noteq> [] \<and> (\<forall>sp \<in> set sps. call_span_ok ms sp) \<and> registration_ok ms meta) \<and>
    (\<forall>app. register_non_text_expansion ms sps kind meta = Ret app \<longrightarrow>
      (mapped_source_ok (xea_source app) \<longleftrightarrow>
        (\<forall>d. meta_definition_site meta = Some d \<longrightarrow> is_valid_for (site_range d) (ms_original ms))) \<and>
      graph_ok (ms_expansions (xea_source app)) \<and>
      xea_source app = ms\<lparr>ms_expansions := ms_expansions (xea_source app)\<rparr> \<and>
      next_id (ms_expansions ms) = Ret (xea_expansion app) \<and>
      (\<exists>e. bt_get (ms_expansions (xea_source app)) = (bt_get (ms_expansions ms))(xea_expansion app \<mapsto> e) \<and>
        exp_kind e = kind \<and> exp_component e = meta_component meta \<and> exp_hook e = meta_hook meta \<and>
        exp_definition_site e = meta_definition_site meta \<and> distinct (exp_call_sites e) \<and>
        set (exp_call_sites e) = (\<Union>sp \<in> set sps. origin_site ` set (span_origins sp))))"
  by (rule conjI [OF register_expansion_cases(1) [OF assms]], rule allI, rule impI, rule register_expansion_cases(2) [OF assms])

subsection \<open>A concrete batch of edits\<close>

definition two_bytes :: mapped_source where
  "two_bytes = mapped_source_identity ''ab''"

definition sample_meta :: expansion_metadata where
  "sample_meta = \<lparr>meta_component = ''c'', meta_hook = ''h'', meta_definition_site = None\<rparr>"

definition sample_edits :: "text_edit list" where
  "sample_edits = [text_edit_new (range_new 1 2) ''yz'', text_edit_new (range_new 0 1) ''x'']"

lemma two_bytes_ok: "mapped_source_ok two_bytes" "metadata_ok two_bytes sample_meta"
  "ms_original two_bytes = ''ab''" "ms_virtual two_bytes = ''ab''" "ms_expansions two_bytes = []"
proof -
  show "mapped_source_ok two_bytes"
    unfolding two_bytes_def by (rule mapped_source_identity_ok) (simp add: utf8_ok.simps utf8_step_def)
  show "metadata_ok two_bytes sample_meta" using name_not_blank by (simp add: metadata_ok_def sample_meta_def)
qed (simp_all add: two_bytes_def mapped_source_identity_def)

lemma sample_edits_ok:
  "\<forall>e \<in> set sample_edits. utf8_ok (replacement e) \<and> edit_ok (ms_virtual two_bytes) e"
  "sorted_edits sample_edits = [text_edit_new (range_new 0 1) ''x'', text_edit_new (range_new 1 2) ''yz'']"
  "sorted_wrt (\<lambda>p c. \<not> edits_overlap p c) (sorted_edits sample_edits)"
  "sample_edits \<noteq> []" "next_id (ms_expansions two_bytes) = Ret 1"
proof -
  show "\<forall>e \<in> set sample_edits. utf8_ok (replacement e) \<and> edit_ok (ms_virtual two_bytes) e"
    by (auto simp: sample_edits_def text_edit_new_def two_bytes_ok edit_ok_def is_valid_for_def range_is_empty_def
        is_char_boundary_def is_cont_def utf8_ok.simps utf8_step_def)
  show s: "sorted_edits sample_edits = [text_edit_new (range_new 0 1) ''x'', text_edit_new (range_new 1 2) ''yz'']"
    by (simp add: sample_edits_def text_edit_new_def)
  show "sorted_wrt (\<lambda>p c. \<not> edits_overlap p c) (sorted_edits sample_edits)"
    unfolding s by (simp add: text_edit_new_def edits_overlap_def range_is_empty_def)
qed (simp_all add: sample_edits_def two_bytes_ok next_id_def bt_last_key_def)

theorem map_range_correct_witness:
  "\<exists>sp. ms_map_range two_bytes (range_new 0 1) = Ret sp \<and> span_origins sp = [origin_exact (range_new 0 1) None]"
proof -
  have "is_valid_for (range_new 0 1) (ms_virtual two_bytes)"
    by (simp add: two_bytes_ok is_valid_for_def is_char_boundary_def is_cont_def)
  moreover have "two_bytes = mapped_source_identity (ms_original two_bytes)" by (simp add: two_bytes_def mapped_source_identity_def)
  ultimately show ?thesis using map_range_correct [OF two_bytes_ok(1), of "range_new 0 1"] by blast
qed

theorem apply_text_edits_refines_splice_witness:
  "\<exists>app. apply_text_edits two_bytes sample_edits sample_meta = Ret app \<and> ms_virtual (tea_source app) = ''xyz''"
  using apply_text_edits_refines_splice [OF two_bytes_ok(1,2) sample_edits_ok(1,4,3,5)]
  unfolding sample_edits_ok(2) by (auto simp: apply_one_def text_edit_new_def two_bytes_ok)

theorem apply_text_edits_errors_witness:
  "apply_text_edits two_bytes [text_edit_new (range_new 0 9) ''x''] sample_meta = Fail (EditInvalidRange 0 (range_new 0 9))"
proof -
  have v: "validate_text_edits two_bytes (sorted_edits [text_edit_new (range_new 0 9) ''x'']) =
      Fail (EditInvalidRange 0 (range_new 0 9))"
    by (simp add: validate_text_edits_def text_edit_new_def two_bytes_ok is_valid_for_def)
  have "\<forall>e \<in> set [text_edit_new (range_new 0 9) ''x'']. utf8_ok (replacement e)"
    by (simp add: text_edit_new_def utf8_ok.simps utf8_step_def)
  from apply_text_edits_errors [OF two_bytes_ok(1,2) this, of "EditInvalidRange 0 (range_new 0 9)"] v
  show ?thesis by simp
qed

theorem register_expansion_correct_witness:
  "\<exists>app. register_non_text_expansion two_bytes [\<lparr>span_range = range_new 0 1, span_origins = [origin_exact (range_new 0 1) None]\<rparr>]
     TreeKind sample_meta = Ret app"
proof -
  have "call_span_ok two_bytes \<lparr>span_range = range_new 0 1, span_origins = [origin_exact (range_new 0 1) None]\<rparr>"
    by (simp add: call_span_ok_def two_bytes_ok origin_exact_def is_valid_for_def is_char_boundary_def is_cont_def
        site_known_def origin_site_def)
  then show ?thesis
    using register_expansion_correct [OF two_bytes_ok(1), of "[\<lparr>span_range = range_new 0 1, span_origins = [origin_exact (range_new 0 1) None]\<rparr>]" TreeKind sample_meta]
      metadata_registration [OF two_bytes_ok(2) sample_edits_ok(5)] by auto
qed

end
