(* ===== verification/Raw_Tree.thy ===== *)
theory Raw_Tree
  imports Raw_Lines Mapped_Source "HOL-Library.Product_Lexorder"
begin

text \<open>
  The parser of \<open>skript-parser/src/raw_tree.rs\<close>: one node per physical line, linked by
  indentation into sections, with recoverable errors as invalid nodes and diagnostics.

  \<^item> The parser's mutable fields are the record \<open>raw_parser\<close>, passed from step to step; the
    vector of open sections is kept with its top first.
  \<^item> \<open>expect\<close>, slicing off a boundary, an index out of range and the \<open>u32\<close> addition of
    \<open>expected_level\<close> are \<open>Panic\<close>; nothing in this file fails otherwise.
  \<^item> Messages are constructors that carry what the text interpolates.
\<close>

subsection \<open>Data\<close>

type_synonym raw_node_id = nat

datatype indent_kind = IndentSpace | IndentTab

record indentation =
  ind_kind :: indent_kind
  ind_unit :: str

datatype raw_trivia_kind = Whitespace | LineCommentTrivia | BlockCommentTrivia | LineEndingTrivia

record raw_trivia =
  trivia_kind :: raw_trivia_kind
  trivia_text :: str
  trivia_span :: mapped_span

record raw_line =
  line_number :: nat
  raw_text :: str
  raw_ending :: line_ending
  line_span :: mapped_span
  content_span :: mapped_span
  line_ending_span :: mapped_span
  line_indentation :: raw_trivia
  trailing_trivia :: "raw_trivia list"

datatype raw_node_kind = Blank | Comment | Simple | Section | Invalid

datatype raw_invalid_reason = MixedIndent | InvalidIndent | UnexpectedIndent nat nat

record raw_node =
  node_id :: raw_node_id
  node_kind :: raw_node_kind
  node_text :: str
  node_span :: mapped_span
  node_line :: raw_line
  node_code_span :: "mapped_span option"
  header_span :: "mapped_span option"
  body_span :: "mapped_span option"
  indent_level :: "nat option"
  invalid_reason :: "raw_invalid_reason option"
  node_context :: syntax_context_id
  node_parent :: "raw_node_id option"
  node_children :: "raw_node_id list"

datatype raw_diagnostic_code =
  MixedIndentation | InvalidIndentation | UnexpectedIndentation | EmptySection | UnclosedBlockComment

datatype raw_severity = SevError | SevWarning

datatype raw_message =
  MsgMixed | MsgInvalid "str option" | MsgUnexpected nat nat | MsgUnclosed | MsgEnd | MsgEmptySection

record raw_diagnostic =
  diag_code :: raw_diagnostic_code
  diag_severity :: raw_severity
  diag_message :: raw_message
  diag_span :: mapped_span
  diag_related :: "(raw_message \<times> mapped_span) list"

record raw_tree =
  tree_roots :: "raw_node_id list"
  tree_nodes :: "raw_node list"
  tree_diagnostics :: "raw_diagnostic list"
  tree_indentation :: "indentation option"

definition tree_get :: "raw_tree \<Rightarrow> raw_node_id \<Rightarrow> raw_node option" where
  "tree_get t i =
     (if i < length (tree_nodes t) \<and> node_id (tree_nodes t ! i) = i then Some (tree_nodes t ! i) else None)"

record open_section =
  sec_id :: raw_node_id
  sec_level :: nat

record raw_parser =
  tree :: raw_tree
  sections :: "open_section list"
  in_block_comment :: bool
  block_comment_start :: "mapped_span option"

text \<open>The derived order of the diagnostic codes.\<close>

definition code_rank :: "raw_diagnostic_code \<Rightarrow> nat" where
  "code_rank c = (case c of MixedIndentation \<Rightarrow> 0 | InvalidIndentation \<Rightarrow> 1 | UnexpectedIndentation \<Rightarrow> 2
     | EmptySection \<Rightarrow> 3 | UnclosedBlockComment \<Rightarrow> 4)"

lemma code_rank_inject [simp]: "code_rank c = code_rank d \<longleftrightarrow> c = d"
  by (cases c; cases d) (simp_all add: code_rank_def)

instantiation raw_diagnostic_code :: linorder
begin

definition less_eq_raw_diagnostic_code :: "raw_diagnostic_code \<Rightarrow> raw_diagnostic_code \<Rightarrow> bool" where
  "less_eq_raw_diagnostic_code c d \<longleftrightarrow> code_rank c \<le> code_rank d"

definition less_raw_diagnostic_code :: "raw_diagnostic_code \<Rightarrow> raw_diagnostic_code \<Rightarrow> bool" where
  "less_raw_diagnostic_code c d \<longleftrightarrow> code_rank c < code_rank d"

instance
  by standard (auto simp: less_eq_raw_diagnostic_code_def less_raw_diagnostic_code_def)

end

subsection \<open>Lines\<close>

type_synonym 'a may_panic = "(unit, 'a) outcome"

definition mapped :: "mapped_source \<Rightarrow> text_range \<Rightarrow> mapped_span may_panic" where
  "mapped src r = (case ms_map_range src r of Ret sp \<Rightarrow> Ret sp | _ \<Rightarrow> Panic)"

definition offset_range :: "nat \<Rightarrow> text_range \<Rightarrow> text_range" where
  "offset_range base r = range_new (base + range_start r) (base + range_end r)"

text \<open>\<open>&s[a..b]\<close>, which panics where \<open>get\<close> is \<open>None\<close>.\<close>

definition index_range :: "str \<Rightarrow> nat \<Rightarrow> nat \<Rightarrow> str may_panic" where
  "index_range s a b = expect (str_slice (range_new a b) s)"

definition trivia_at :: "mapped_source \<Rightarrow> raw_trivia_kind \<Rightarrow> text_range \<Rightarrow> raw_trivia may_panic" where
  "trivia_at src k r =
     obind (expect (str_slice r (ms_virtual src))) (\<lambda>text.
     obind (mapped src r) (\<lambda>sp. Ret \<lparr>trivia_kind = k, trivia_text = text, trivia_span = sp\<rparr>))"

definition build_line :: "mapped_source \<Rightarrow> physical_line \<Rightarrow> str \<Rightarrow> nat \<Rightarrow> line_split \<Rightarrow> raw_line may_panic" where
  "build_line src ph content indentation_end split =
     (let content_start = range_start (content_range ph);
          comment_at = (case split_comment split of None \<Rightarrow> length content | Some c \<Rightarrow> comment_start c)
      in
      obind (index_range content 0 comment_at) (\<lambda>val.
      let code_end = trim_end_whitespace val; has_code = (\<not> is_blank (split_value split)) in
      obind (if has_code \<and> code_end < comment_at
             then obind (trivia_at src Whitespace
                    (range_new (content_start + code_end) (content_start + comment_at))) (\<lambda>t. Ret [t])
             else Ret []) (\<lambda>trailing1.
      obind (case split_comment split of None \<Rightarrow> Ret []
             | Some c \<Rightarrow> obind (trivia_at src
                    (case comment_kind c of LineComment \<Rightarrow> LineCommentTrivia | BlockComment \<Rightarrow> BlockCommentTrivia)
                    (range_new (content_start + comment_start c) (range_end (content_range ph)))) (\<lambda>t. Ret [t])) (\<lambda>trailing2.
      obind (if pl_ending ph \<noteq> NoEnding
             then obind (mapped src (line_ending_range ph)) (\<lambda>sp.
                    Ret [\<lparr>trivia_kind = LineEndingTrivia, trivia_text = line_ending_str (pl_ending ph),
                          trivia_span = sp\<rparr>])
             else Ret []) (\<lambda>trailing3.
      obind (mapped src (full_range ph)) (\<lambda>full.
      obind (mapped src (content_range ph)) (\<lambda>cspan.
      obind (mapped src (line_ending_range ph)) (\<lambda>espan.
      obind (index_range content 0 indentation_end) (\<lambda>itext.
      obind (mapped src (range_new content_start (content_start + indentation_end))) (\<lambda>ispan.
      Ret \<lparr>line_number = pl_number ph, raw_text = content, raw_ending = pl_ending ph, line_span = full,
           content_span = cspan, line_ending_span = espan,
           line_indentation = \<lparr>trivia_kind = Whitespace, trivia_text = itext, trivia_span = ispan\<rparr>,
           trailing_trivia = trailing1 @ trailing2 @ trailing3\<rparr>))))))))))"

definition code_span :: "mapped_source \<Rightarrow> raw_line \<Rightarrow> mapped_span option may_panic" where
  "code_span src l =
     (let a = range_end (span_range (trivia_span (line_indentation l)));
          b = (case find (\<lambda>t. trivia_kind t \<noteq> LineEndingTrivia) (trailing_trivia l) of
                 None \<Rightarrow> range_end (span_range (content_span l))
               | Some t \<Rightarrow> range_start (span_range (trivia_span t)))
      in if a < b then obind (mapped src (range_new a b)) (\<lambda>sp. Ret (Some sp)) else Ret None)"

subsection \<open>Indentation\<close>

definition indentation_kind :: "str \<Rightarrow> (raw_invalid_reason, indent_kind) outcome" where
  "indentation_kind ind =
     (if list_all (\<lambda>b. b = CHR '' '') ind then Ret IndentSpace
      else if list_all (\<lambda>b. b = CHR 0x09) ind then Ret IndentTab
      else if CHR '' '' \<in> set ind \<and> CHR 0x09 \<in> set ind then Fail MixedIndent
      else Fail InvalidIndent)"

definition u32_max :: nat where
  "u32_max = 2 ^ 32 - 1"

text \<open>The level of an indentation, and the style it fixes when it is the first one.\<close>

definition resolve_indentation ::
    "raw_parser \<Rightarrow> str \<Rightarrow> (raw_invalid_reason, nat) outcome \<times> raw_parser" where
  "resolve_indentation st ind =
     (if ind = [] then (Ret 0, st)
      else case indentation_kind ind of
        Ret kind \<Rightarrow>
          (case tree_indentation (tree st) of
             Some style \<Rightarrow>
               (if ind_kind style \<noteq> kind \<or> \<not> length (ind_unit style) dvd length ind then (Fail InvalidIndent, st)
                else let level = length ind div length (ind_unit style) in
                  (if level \<le> u32_max then Ret level else Fail InvalidIndent, st))
           | None \<Rightarrow>
               if sections st = [] then (Fail (UnexpectedIndent 0 1), st)
               else (Ret 1, st\<lparr>tree := (tree st)\<lparr>tree_indentation := Some \<lparr>ind_kind = kind, ind_unit = ind\<rparr>\<rparr>\<rparr>))
      | Fail e \<Rightarrow> (Fail e, st)
      | Panic \<Rightarrow> (Panic, st))"

definition reason_code :: "raw_invalid_reason \<Rightarrow> raw_diagnostic_code" where
  "reason_code r = (case r of MixedIndent \<Rightarrow> MixedIndentation | InvalidIndent \<Rightarrow> InvalidIndentation
     | UnexpectedIndent _ _ \<Rightarrow> UnexpectedIndentation)"

definition push_diagnostic :: "raw_parser \<Rightarrow> raw_diagnostic \<Rightarrow> raw_parser" where
  "push_diagnostic st d = st\<lparr>tree := (tree st)\<lparr>tree_diagnostics := tree_diagnostics (tree st) @ [d]\<rparr>\<rparr>"

definition push_indentation_diagnostic :: "raw_parser \<Rightarrow> raw_invalid_reason \<Rightarrow> mapped_span \<Rightarrow> raw_parser" where
  "push_indentation_diagnostic st r sp =
     push_diagnostic st
       \<lparr>diag_code = reason_code r, diag_severity = SevError,
        diag_message = (case r of MixedIndent \<Rightarrow> MsgMixed
          | InvalidIndent \<Rightarrow> MsgInvalid (map_option ind_unit (tree_indentation (tree st)))
          | UnexpectedIndent e a \<Rightarrow> MsgUnexpected e a),
        diag_span = sp, diag_related = []\<rparr>"

subsection \<open>Nodes\<close>

text \<open>\<open>nodes[i]\<close> and \<open>nodes[i] = \<dots>\<close>.\<close>

definition node_at :: "raw_node list \<Rightarrow> nat \<Rightarrow> raw_node may_panic" where
  "node_at ns i = (if i < length ns then Ret (ns ! i) else Panic)"

definition push_node ::
    "mapped_source \<Rightarrow> raw_parser \<Rightarrow> raw_node_kind \<Rightarrow> str \<Rightarrow> raw_line \<Rightarrow> raw_invalid_reason option \<Rightarrow> nat option
     \<Rightarrow> raw_node_id option \<Rightarrow> (raw_parser \<times> raw_node_id) may_panic" where
  "push_node src st kind text line reason level parent =
     (let t = tree st; i = length (tree_nodes t) in
      obind (code_span src line) (\<lambda>code.
      let node = \<lparr>node_id = i, node_kind = kind, node_text = text, node_span = line_span line,
          node_line = line, node_code_span = code,
          header_span = (if kind = Section then code else None), body_span = None,
          indent_level = level, invalid_reason = reason, node_context = 0,
          node_parent = parent, node_children = []\<rparr> in
      obind (case parent of
          None \<Rightarrow> Ret (t\<lparr>tree_roots := tree_roots t @ [i]\<rparr>)
        | Some p \<Rightarrow> obind (node_at (tree_nodes t) p) (\<lambda>pn.
            Ret (t\<lparr>tree_nodes := (tree_nodes t)[p := pn\<lparr>node_children := node_children pn @ [i]\<rparr>]\<rparr>)))
        (\<lambda>t. Ret (st\<lparr>tree := t\<lparr>tree_nodes := tree_nodes t @ [node]\<rparr>\<rparr>, i))))"

definition current_parent :: "raw_parser \<Rightarrow> raw_node_id option" where
  "current_parent st = (case sections st of [] \<Rightarrow> None | s # _ \<Rightarrow> Some (sec_id s))"

definition parse_code_line :: "mapped_source \<Rightarrow> raw_parser \<Rightarrow> raw_line \<Rightarrow> str \<Rightarrow> nat \<Rightarrow> raw_parser may_panic" where
  "parse_code_line src st0 line text level =
     (let st = st0\<lparr>sections := dropWhile (\<lambda>s. sec_level s \<ge> level) (sections st0)\<rparr> in
      obind (case sections st of [] \<Rightarrow> Ret 0
             | s # _ \<Rightarrow> if sec_level s < u32_max then Ret (sec_level s + 1) else Panic) (\<lambda>expected.
      if level \<noteq> expected then
        let reason = UnexpectedIndent expected level; ispan = trivia_span (line_indentation line) in
        obind (if range_is_empty (span_range ispan)
               then obind (code_span src line) (\<lambda>c. Ret (case c of Some sp \<Rightarrow> sp | None \<Rightarrow> content_span line))
               else Ret ispan) (\<lambda>dspan.
        let st = push_indentation_diagnostic st reason dspan in
        obind (push_node src st Invalid text line (Some reason) (Some level) (current_parent st)) (\<lambda>(st, _).
        Ret st))
      else
        let parent = current_parent st in
        if text \<noteq> [] \<and> last text = CHR '':'' then
          obind (push_node src st Section (butlast text) line None (Some level) parent) (\<lambda>(st, i).
          Ret (st\<lparr>sections := \<lparr>sec_id = i, sec_level = level\<rparr> # sections st\<rparr>))
        else
          obind (push_node src st Simple text line None (Some level) parent) (\<lambda>(st, _). Ret st)))"

definition parse_line ::
    "mapped_source \<Rightarrow> multiline_support \<Rightarrow> physical_line \<Rightarrow> raw_parser \<Rightarrow> raw_parser may_panic" where
  "parse_line src opts ph st0 =
     obind (expect (str_slice (content_range ph) (ms_virtual src))) (\<lambda>content.
     let indentation_end = leading_whitespace_end content;
         split = split_line content (in_block_comment st0) indentation_end opts
     in
     obind (case split_block_action split of
         Some (OpenBlock delimiter) \<Rightarrow>
           obind (mapped src (offset_range (range_start (content_range ph)) delimiter)) (\<lambda>sp.
           Ret (st0\<lparr>in_block_comment := True, block_comment_start := Some sp\<rparr>))
       | Some CloseBlock \<Rightarrow> Ret (st0\<lparr>in_block_comment := False, block_comment_start := None\<rparr>)
       | None \<Rightarrow> Ret st0) (\<lambda>st.
     obind (build_line src ph content indentation_end split) (\<lambda>line.
     let trimmed = str_trim (split_value split) in
     if split_comment split \<noteq> None \<and> trimmed = [] then
       obind (case split_comment split of None \<Rightarrow> Ret []
              | Some c \<Rightarrow> index_range content (comment_start c) (length content)) (\<lambda>text.
       obind (push_node src st Comment text line None None (current_parent st)) (\<lambda>(st, _). Ret st))
     else if trimmed = [] then
       obind (push_node src st Blank [] line None None (current_parent st)) (\<lambda>(st, _). Ret st)
     else
       obind (index_range content 0 indentation_end) (\<lambda>ind.
       case resolve_indentation st ind of
         (Ret level, st) \<Rightarrow> parse_code_line src st line trimmed level
       | (Fail reason, st) \<Rightarrow>
           obind (push_node src (push_indentation_diagnostic st reason (trivia_span (line_indentation line)))
                    Invalid trimmed line (Some reason) None (current_parent st)) (\<lambda>(st, _). Ret st)
       | (Panic, st) \<Rightarrow> Panic))))"

subsection \<open>Sections and the whole parse\<close>

text \<open>\<open>Iterator::all\<close>, which stops at the first element that fails.\<close>

fun try_all :: "('x \<Rightarrow> bool may_panic) \<Rightarrow> 'x list \<Rightarrow> bool may_panic" where
  "try_all f [] = Ret True"
| "try_all f (x # xs) = obind (f x) (\<lambda>b. if b then try_all f xs else Ret False)"

definition finalize_section :: "mapped_source \<Rightarrow> nat \<Rightarrow> raw_tree \<Rightarrow> raw_tree may_panic" where
  "finalize_section src i t =
     obind (node_at (tree_nodes t) i) (\<lambda>node.
     let children = node_children node;
         line_start = range_start (span_range (line_span (node_line node)));
         line_end = range_end (span_range (line_span (node_line node)))
     in
     obind (case children of
         [] \<Rightarrow> Ret (range_empty line_end)
       | first # _ \<Rightarrow>
           obind (node_at (tree_nodes t) first) (\<lambda>fnode.
           obind (node_at (tree_nodes t) (last children)) (\<lambda>lnode.
           Ret (range_new (range_start (span_range (line_span (node_line fnode))))
                  (range_end (span_range (node_span lnode))))))) (\<lambda>body_range.
     obind (mapped src (range_new line_start (range_end body_range))) (\<lambda>sp.
     obind (mapped src body_range) (\<lambda>bspan.
     obind (try_all (\<lambda>c. obind (node_at (tree_nodes t) c) (\<lambda>n. Ret (node_kind n \<in> {Blank, Comment}))) children) (\<lambda>empty.
     let t' = t\<lparr>tree_nodes := (tree_nodes t)[i := node\<lparr>node_span := sp, body_span := Some bspan\<rparr>]\<rparr> in
     if empty then
       obind (expect (header_span node)) (\<lambda>hspan.
       Ret (t'\<lparr>tree_diagnostics := tree_diagnostics t' @
         [\<lparr>diag_code = EmptySection, diag_severity = SevWarning, diag_message = MsgEmptySection,
           diag_span = hspan, diag_related = []\<rparr>]\<rparr>))
     else Ret t')))))"

definition finalize_sections :: "mapped_source \<Rightarrow> raw_tree \<Rightarrow> raw_tree may_panic" where
  "finalize_sections src t =
     try_for (finalize_section src) (rev (map node_id (filter (\<lambda>n. node_kind n = Section) (tree_nodes t)))) t"

definition raw_parser_new :: raw_parser where
  "raw_parser_new =
     \<lparr>tree = \<lparr>tree_roots = [], tree_nodes = [], tree_diagnostics = [], tree_indentation = None\<rparr>,
      sections = [], in_block_comment = False, block_comment_start = None\<rparr>"

definition close_block_comment :: "mapped_source \<Rightarrow> raw_parser \<Rightarrow> raw_parser may_panic" where
  "close_block_comment src st =
     (case block_comment_start st of
        None \<Rightarrow> Ret st
      | Some opening \<Rightarrow>
          obind (mapped src (range_empty (length (ms_virtual src)))) (\<lambda>eof.
          Ret (push_diagnostic (st\<lparr>block_comment_start := None\<rparr>)
            \<lparr>diag_code = UnclosedBlockComment, diag_severity = SevError, diag_message = MsgUnclosed,
             diag_span = opening, diag_related = [(MsgEnd, eof)]\<rparr>)))"

definition diagnostic_key :: "raw_diagnostic \<Rightarrow> nat \<times> raw_diagnostic_code" where
  "diagnostic_key d = (range_start (span_range (diag_span d)), diag_code d)"

definition parse_raw_tree :: "mapped_source \<Rightarrow> multiline_support \<Rightarrow> raw_tree may_panic" where
  "parse_raw_tree src opts =
     obind (try_for (parse_line src opts) (physical_lines (ms_virtual src)) raw_parser_new) (\<lambda>st.
     obind (close_block_comment src st) (\<lambda>st.
     obind (finalize_sections src (tree st)) (\<lambda>t.
     Ret (t\<lparr>tree_diagnostics := sort_key diagnostic_key (tree_diagnostics t)\<rparr>))))"

subsection \<open>Lines of a valid source\<close>

lemma lines_from_valid:
  assumes "utf8_ok s" and "is_char_boundary s a" and "lines_from s a k (l # ls)"
  shows "is_valid_for (content_range l) s" "is_valid_for (line_ending_range l) s"
    "is_valid_for (full_range l) s" "is_char_boundary s (range_end (full_range l))"
proof -
  define c b where "c = range_end (content_range l)" and "b = range_end (full_range l)"
  have la: "line_at s k a c b l" and last: "pl_ending l = NoEnding \<longrightarrow> b = length s"
    using assms(3) by (auto simp: c_def b_def)
  have r: "content_range l = range_new a c" "line_ending_range l = range_new c b"
    "full_range l = range_new a b" "a \<le> c" "c \<le> b" "b \<le> length s"
    "take (b - c) (drop c s) = line_ending_str (pl_ending l)"
    using la by (simp_all add: line_at_def)
  have cb: "is_char_boundary s c \<and> is_char_boundary s b"
  proof (cases "pl_ending l = NoEnding")
    case True
    then show ?thesis using last r by (auto simp: line_ending_str_def)
  next
    case False
    have n: "length (take (b - c) (drop c s)) = b - c" using r(5,6) by simp
    have hd: "i < b - c \<Longrightarrow> s ! (c + i) = line_ending_str (pl_ending l) ! i" for i
      unfolding r(7) [symmetric] using r(5,6) by simp
    have lt: "c < b" using False n r(7) by (cases "pl_ending l") (auto simp: line_ending_str_def)
    have "byte (s ! c) < 128" using hd [of 0] lt False
      by (cases "pl_ending l") (auto simp: line_ending_str_def)
    moreover have "byte (s ! (b - 1)) < 128"
      using hd [of "b - c - 1"] lt False n r(7)
      by (cases "pl_ending l") (auto simp: line_ending_str_def)
    ultimately show ?thesis
      using boundary_ascii [of c s] boundary_after_ascii [OF assms(1), of "b - 1"] lt r(6) by simp
  qed
  show "is_valid_for (content_range l) s" "is_valid_for (line_ending_range l) s"
    "is_valid_for (full_range l) s" "is_char_boundary s (range_end (full_range l))"
    using cb r assms(2) by (auto simp: is_valid_for_def)
qed

lemma mapped_Ret:
  assumes "mapped_source_ok src" and "is_valid_for r (ms_virtual src)"
  obtains sp where "mapped src r = Ret sp" "span_range sp = r"
proof -
  obtain sp where "ms_map_range src r = Ret sp" "span_range sp = r"
    using ms_map_range_sound [OF assms] by blast
  then show thesis using that by (simp add: mapped_def)
qed

lemma mapped_range: "mapped_source_ok src \<Longrightarrow> mapped src r = Ret sp \<Longrightarrow> span_range sp = r"
proof -
  assume ok: "mapped_source_ok src" and m: "mapped src r = Ret sp"
  then have "is_valid_for r (ms_virtual src)"
    by (auto simp: mapped_def ms_map_range_def split: outcome.splits if_splits)
  then show "span_range sp = r" using mapped_Ret [OF ok] m by (metis outcome.inject(1))
qed

lemma trivia_at_Ret:
  assumes "mapped_source_ok src" and "is_valid_for r (ms_virtual src)"
  shows "\<exists>sp. trivia_at src k r =
    Ret \<lparr>trivia_kind = k, trivia_text = take (range_len r) (drop (range_start r) (ms_virtual src)),
         trivia_span = sp\<rparr> \<and> span_range sp = r"
proof (rule mapped_Ret [OF assms])
  fix sp assume "mapped src r = Ret sp" "span_range sp = r"
  then show ?thesis using str_slice_valid [OF assms(2)] by (simp add: trivia_at_def)
qed

text \<open>A piece of a line's content is a piece of the source.\<close>

lemma content_piece:
  assumes "is_valid_for r s" and "content = take (range_len r) (drop (range_start r) s)"
    and "is_char_boundary content i" and "is_char_boundary content j" and "i \<le> j"
  shows "is_valid_for (range_new (range_start r + i) (range_start r + j)) s"
    "take (j - i) (drop (range_start r + i) s) = take (j - i) (drop i content)"
proof -
  have v: "range_start r \<le> range_end r" "range_end r \<le> length s" "is_char_boundary s (range_start r)"
    "is_char_boundary s (range_end r)" using assms(1) by (auto simp: is_valid_for_def)
  have len: "length content = range_len r" using assms(2) v by (simp add: range_len_def)
  have le: "i \<le> range_len r" "j \<le> range_len r"
    using assms(3,4) boundary_le len by metis+
  have db: "is_char_boundary (drop (range_start r) s) (range_len r)"
    using v by (simp add: boundary_drop range_len_def)
  have "is_char_boundary s (range_start r + i)" "is_char_boundary s (range_start r + j)"
    using assms(3,4) le v(3) unfolding assms(2) boundary_take [OF db le(1)] boundary_take [OF db le(2)]
    by (simp_all add: boundary_drop)
  then show "is_valid_for (range_new (range_start r + i) (range_start r + j)) s"
    using le v assms(5) by (simp add: is_valid_for_def range_len_def)
  show "take (j - i) (drop (range_start r + i) s) = take (j - i) (drop i content)"
    unfolding assms(2) using take_drop_take_drop [of i "j - i" "range_len r" "range_start r" s] le assms(5)
    by simp
qed

subsection \<open>Building a line\<close>

text \<open>Where the trivia after the code of a line starts.\<close>

definition trailing_start :: "raw_line \<Rightarrow> nat" where
  "trailing_start l = (case find (\<lambda>t. trivia_kind t \<noteq> LineEndingTrivia) (trailing_trivia l) of
     None \<Rightarrow> range_end (span_range (content_span l))
   | Some t \<Rightarrow> range_start (span_range (trivia_span t)))"

text \<open>
  A line of the tree for a physical line: its texts and ranges, and its content cut into
  indentation, code and trailing trivia with nothing lost.
\<close>

definition line_built :: "physical_line \<Rightarrow> str \<Rightarrow> bool \<Rightarrow> raw_line \<Rightarrow> bool" where
  "line_built ph content has_code l \<longleftrightarrow>
     line_number l = pl_number ph \<and> raw_text l = content \<and> raw_ending l = pl_ending ph \<and>
     span_range (line_span l) = full_range ph \<and> span_range (content_span l) = content_range ph \<and>
     span_range (line_ending_span l) = line_ending_range ph \<and>
     trivia_kind (line_indentation l) = Whitespace \<and>
     trivia_text (line_indentation l) = take (leading_whitespace_end content) content \<and>
     span_range (trivia_span (line_indentation l)) =
       range_new (range_start (content_range ph)) (range_start (content_range ph) + leading_whitespace_end content) \<and>
     (\<exists>m. trailing_start l = range_start (content_range ph) + m \<and> is_char_boundary content m \<and>
        leading_whitespace_end content \<le> m \<and> (has_code \<longrightarrow> leading_whitespace_end content < m) \<and>
        concat (map trivia_text (trailing_trivia l)) = drop m content @ line_ending_str (pl_ending ph))"

lemma leading_le_limit:
  assumes "utf8_ok content"
  shows "leading_whitespace_end content \<le> code_limit content (split_line content inb (leading_whitespace_end content) ml)"
proof -
  have le: "leading_whitespace_end content \<le> length content"
    using leading_whitespace_end_boundary [OF assms] by (rule boundary_le)
  have "leading_whitespace_end content \<le> comment_start c" if sc: "split_comment (split_inline_comment content) = Some c" for c
  proof -
    obtain pre where "split_at (char_indices content) (split_comment (split_inline_comment content)) pre"
      using split_inline_loop_split [of content "[]" "char_indices content" "[]" Code Code] assms
      unfolding split_inline_comment_def by auto
    then obtain w rest where e: "char_indices content = pre @ (comment_start c, ch_hash, w) # rest"
      using sc by (auto simp: split_at_def)
    have so: "sorted_wrt (\<lambda>(o1, _, w1) (o2, _, _). o1 + w1 \<le> o2) (pre @ (comment_start c, ch_hash, w) # rest)"
      using chars_from_offsets [of 0 content] e by simp
    let ?P = "\<lambda>(off :: nat, c, w :: nat). \<not> is_whitespace c"
    have F: "find ?P (xs @ ys) = (case find ?P xs of None \<Rightarrow> find ?P ys | Some x \<Rightarrow> Some x)" for xs ys
      by (induction xs) auto
    show ?thesis
    proof (cases "find ?P pre")
      case None
      then show ?thesis unfolding leading_whitespace_end_def e F by (simp add: is_whitespace_def)
    next
      case (Some x)
      obtain off d v where x: "x = (off, d, v)" by (cases x)
      have "(off, d, v) \<in> set pre" using find_SomeD [OF Some] x by simp
      then have "off \<le> comment_start c" using so by (fastforce simp: sorted_wrt_append)
      then show ?thesis using Some x unfolding leading_whitespace_end_def e F by simp
    qed
  qed
  then show ?thesis using le by (auto simp: code_limit_def split_line_unfold split: option.splits if_splits)
qed


lemma index_range_Ret: "is_char_boundary s j \<Longrightarrow> index_range s 0 j = Ret (take j s)"
  by (simp add: index_range_def str_slice_def)

lemma index_range_rest: "is_char_boundary s j \<Longrightarrow> index_range s j (length s) = Ret (drop j s)"
  using boundary_le [of s j] by (simp add: index_range_def str_slice_def)

lemma build_line_Ret:
  assumes ok: "mapped_source_ok src"
    and valid: "is_valid_for (content_range ph) (ms_virtual src)" "is_valid_for (line_ending_range ph) (ms_virtual src)"
      "is_valid_for (full_range ph) (ms_virtual src)"
    and content: "content = take (range_len (content_range ph)) (drop (range_start (content_range ph)) (ms_virtual src))"
    and ucontent: "utf8_ok content"
  defines "ie \<equiv> leading_whitespace_end content"
  fixes inb ml
  defines "r \<equiv> split_line content inb ie ml"
  shows "\<exists>l. build_line src ph content ie r = Ret l \<and> line_built ph content (\<not> is_blank (split_value r)) l"
proof -
  let ?s = "range_start (content_range ph)" and ?k = "code_limit content r"
  let ?ce = "trim_end_whitespace (take ?k content)"
  let ?code = "\<not> is_blank (split_value r)"
  have k: "is_char_boundary content ?k" and code: "?code \<Longrightarrow> ie < ?ce" and ik: "ie \<le> ?k"
    using split_line_facts(1,2) [OF ucontent] leading_le_limit [OF ucontent] by (auto simp: r_def ie_def)
  have len: "length content = range_len (content_range ph)" "range_end (content_range ph) = ?s + length content"
    using valid(1) content by (auto simp: is_valid_for_def range_len_def)
  have ib: "is_char_boundary content ie" using leading_whitespace_end_boundary [OF ucontent] by (simp add: ie_def)
  have okk: "utf8_ok (take ?k content)" using utf8_ok_take_drop [OF ucontent k] by blast
  have cek: "?ce \<le> ?k"
    using boundary_le [OF trim_end_whitespace_boundary [OF okk]] by simp
  have ceb: "is_char_boundary content ?ce"
    using trim_end_whitespace_boundary [OF okk] boundary_take [OF k cek] by simp
  note piece = content_piece [OF valid(1) content]
  have kl: "?k \<le> length content" using k by (rule boundary_le)
  obtain tr1 where tr1: "(if ?code \<and> ?ce < ?k then obind (trivia_at src Whitespace
        (range_new (?s + ?ce) (?s + ?k))) (\<lambda>t. Ret [t]) else Ret []) = Ret tr1"
    "if ?code \<and> ?ce < ?k then \<exists>t. tr1 = [t] \<and> trivia_kind t = Whitespace \<and>
       trivia_text t = take (?k - ?ce) (drop ?ce content) \<and> range_start (span_range (trivia_span t)) = ?s + ?ce
     else tr1 = []"
  proof (cases "?code \<and> ?ce < ?k")
    case True
    obtain t where t: "trivia_at src Whitespace (range_new (?s + ?ce) (?s + ?k)) = Ret t"
      "trivia_kind t = Whitespace" "trivia_text t = take (?k - ?ce) (drop ?ce content)"
      "range_start (span_range (trivia_span t)) = ?s + ?ce"
      using trivia_at_Ret [OF ok piece(1) [OF ceb k cek], of Whitespace] piece(2) [OF ceb k cek]
      by (auto simp: range_len_def)
    then show ?thesis using True by (intro that [of "[t]"]) simp_all
  next
    case False
    then show ?thesis by (intro that [of "[]"]) auto
  qed
  obtain tr2 where tr2: "(case split_comment r of None \<Rightarrow> Ret [] | Some c \<Rightarrow> obind (trivia_at src
        (case comment_kind c of LineComment \<Rightarrow> LineCommentTrivia | BlockComment \<Rightarrow> BlockCommentTrivia)
        (range_new (?s + comment_start c) (range_end (content_range ph)))) (\<lambda>t. Ret [t])) = Ret tr2"
    "case split_comment r of None \<Rightarrow> tr2 = [] | Some c \<Rightarrow> \<exists>t. tr2 = [t] \<and> trivia_kind t \<noteq> LineEndingTrivia \<and>
       trivia_text t = drop ?k content \<and> range_start (span_range (trivia_span t)) = ?s + ?k"
  proof (cases "split_comment r")
    case (Some c)
    have "comment_start c = ?k" using Some by (simp add: code_limit_def)
    moreover obtain t where "trivia_at src
        (case comment_kind c of LineComment \<Rightarrow> LineCommentTrivia | BlockComment \<Rightarrow> BlockCommentTrivia)
        (range_new (?s + ?k) (range_end (content_range ph))) = Ret t"
      "trivia_kind t \<noteq> LineEndingTrivia" "trivia_text t = drop ?k content"
      "range_start (span_range (trivia_span t)) = ?s + ?k"
      using trivia_at_Ret [OF ok piece(1) [OF k boundary_length kl], of
          "case comment_kind c of LineComment \<Rightarrow> LineCommentTrivia | BlockComment \<Rightarrow> BlockCommentTrivia"]
        piece(2) [OF k boundary_length kl] len(2)
      by (auto simp: range_len_def split: comment_kind.splits)
    ultimately show ?thesis using Some by (intro that [of "[t]"]) simp_all
  next
    case None
    then show ?thesis by (intro that [of "[]"]) simp_all
  qed
  obtain esp where esp: "mapped src (line_ending_range ph) = Ret esp" "span_range esp = line_ending_range ph"
    using mapped_Ret [OF ok valid(2)] .
  obtain fsp where fsp: "mapped src (full_range ph) = Ret fsp" "span_range fsp = full_range ph"
    using mapped_Ret [OF ok valid(3)] .
  obtain csp where csp: "mapped src (content_range ph) = Ret csp" "span_range csp = content_range ph"
    using mapped_Ret [OF ok valid(1)] .
  obtain isp where isp: "mapped src (range_new ?s (?s + ie)) = Ret isp" "span_range isp = range_new ?s (?s + ie)"
    using mapped_Ret [OF ok] piece(1) [OF boundary_0 ib] by auto
  define tr3 where "tr3 = (if pl_ending ph \<noteq> NoEnding then
     [\<lparr>trivia_kind = LineEndingTrivia, trivia_text = line_ending_str (pl_ending ph), trivia_span = esp\<rparr>] else [])"
  define l where "l = \<lparr>line_number = pl_number ph, raw_text = content, raw_ending = pl_ending ph, line_span = fsp,
    content_span = csp, line_ending_span = esp,
    line_indentation = \<lparr>trivia_kind = Whitespace, trivia_text = take ie content, trivia_span = isp\<rparr>,
    trailing_trivia = tr1 @ tr2 @ tr3\<rparr>"
  have at: "(case split_comment r of None \<Rightarrow> length content | Some c \<Rightarrow> comment_start c) = ?k"
    by (simp add: code_limit_def)
  have b: "build_line src ph content ie r = Ret l"
    unfolding build_line_def Let_def at index_range_Ret [OF k] index_range_Ret [OF ib] obind.simps
      tr1(1) tr2(1) esp(1) fsp(1) csp(1) isp(1)
    by (simp add: l_def tr3_def)
  define m where "m = (if ?code then ?ce else ?k)"
  have t3: "concat (map trivia_text tr3) = line_ending_str (pl_ending ph)"
    "find (\<lambda>t. trivia_kind t \<noteq> LineEndingTrivia) tr3 = None"
    by (auto simp: tr3_def line_ending_str_def)
  have F: "find P (xs @ ys) = (case find P xs of None \<Rightarrow> find P ys | Some x \<Rightarrow> Some x)" for P and xs ys :: "raw_trivia list"
    by (induction xs) auto
  have ts: "trailing_start l = ?s + m"
    using tr1(2) tr2(2) t3(2) cek len(2) csp(2) unfolding trailing_start_def m_def
    by (auto simp: l_def F code_limit_def split: option.splits if_splits)
  have "concat (map trivia_text (tr1 @ tr2)) = drop m content"
    using tr1(2) tr2(2) cek append_take_drop_id [of "?k - ?ce" "drop ?ce content"] unfolding m_def
    by (auto simp: code_limit_def split: option.splits if_splits)
  then have cc: "concat (map trivia_text (trailing_trivia l)) = drop m content @ line_ending_str (pl_ending ph)"
    using t3(1) by (simp add: l_def)
  have "is_char_boundary content m" "ie \<le> m" "?code \<longrightarrow> ie < m"
    using ceb k code ik by (auto simp: m_def)
  then have "line_built ph content ?code l"
    unfolding line_built_def using ts cc fsp csp esp isp by (auto simp: l_def ie_def)
  then show ?thesis using b by blast
qed

lemma code_span_Ret:
  assumes ok: "mapped_source_ok src" and valid: "is_valid_for (content_range ph) (ms_virtual src)"
    and content: "content = take (range_len (content_range ph)) (drop (range_start (content_range ph)) (ms_virtual src))"
    and ucontent: "utf8_ok content" and built: "line_built ph content has_code l"
  shows "\<exists>c. code_span src l = Ret c \<and> (has_code \<longrightarrow> c \<noteq> None) \<and>
    (\<forall>sp. c = Some sp \<longrightarrow> span_range sp = range_new (range_end (span_range (trivia_span (line_indentation l)))) (trailing_start l))"
proof -
  let ?s = "range_start (content_range ph)"
  obtain m where m: "trailing_start l = ?s + m" "is_char_boundary content m" "leading_whitespace_end content \<le> m"
    "has_code \<longrightarrow> leading_whitespace_end content < m"
    using built by (auto simp: line_built_def)
  have i: "span_range (trivia_span (line_indentation l)) = range_new ?s (?s + leading_whitespace_end content)"
    using built by (simp add: line_built_def)
  obtain sp where sp: "mapped src (range_new (?s + leading_whitespace_end content) (?s + m)) = Ret sp"
    "span_range sp = range_new (?s + leading_whitespace_end content) (?s + m)"
    using mapped_Ret [OF ok] content_piece(1) [OF valid content leading_whitespace_end_boundary [OF ucontent] m(2,3)]
    by blast
  have "code_span src l = (if ?s + leading_whitespace_end content < ?s + m then Ret (Some sp) else Ret None)"
    unfolding code_span_def trailing_start_def [symmetric] Let_def i m(1) using sp by simp
  then show ?thesis using m(1,4) i sp(2) by auto
qed

end
