(* ===== verification/Raw_Tree_Parse.thy ===== *)
theory Raw_Tree_Parse
  imports Raw_Tree
begin

text \<open>
  The line loop of the raw-tree parser.  The first part states what a well-formed arena is
  (links, nesting, levels, the stack of open sections) and that appending a node below the top
  of the stack keeps it; the second part is the parser's invariant and its preservation by every
  branch of \<open>parse_line\<close> (blank, comment, invalid indentation, unexpected level, section,
  statement), which includes that no branch panics.
\<close>

subsection \<open>The shape of the tree\<close>

text \<open>
  Links: identities are positions, a parent is an earlier section, and children lists and roots
  are exactly the inverse of the parent links, in source order.
\<close>

definition links_ok :: "raw_node list \<Rightarrow> raw_node_id list \<Rightarrow> bool" where
  "links_ok ns roots \<longleftrightarrow>
     (\<forall>i<length ns. node_id (ns ! i) = i) \<and>
     (\<forall>i<length ns. \<forall>p. node_parent (ns ! i) = Some p \<longrightarrow> p < i \<and> node_kind (ns ! p) = Section) \<and>
     (\<forall>i<length ns. node_children (ns ! i) = filter (\<lambda>j. node_parent (ns ! j) = Some i) [0..<length ns]) \<and>
     roots = filter (\<lambda>j. node_parent (ns ! j) = None) [0..<length ns]"

text \<open>All nodes after \<open>p\<close> up to \<open>j\<close> hang below \<open>p\<close>; every section owns a contiguous run of nodes.\<close>

definition in_subtree :: "raw_node list \<Rightarrow> nat \<Rightarrow> nat \<Rightarrow> bool" where
  "in_subtree ns p j \<longleftrightarrow> (\<forall>k. p < k \<and> k \<le> j \<longrightarrow> (\<exists>q. node_parent (ns ! k) = Some q \<and> p \<le> q))"

definition nested :: "raw_node list \<Rightarrow> bool" where
  "nested ns \<longleftrightarrow> (\<forall>k<length ns. \<forall>p. node_parent (ns ! k) = Some p \<longrightarrow> in_subtree ns p k)"

text \<open>Statements and sections sit exactly one level below their parent.\<close>

definition level_ok :: "raw_node list \<Rightarrow> raw_node \<Rightarrow> bool" where
  "level_ok ns n \<longleftrightarrow> (node_kind n \<in> {Simple, Section} \<longrightarrow>
     (case node_parent n of
        None \<Rightarrow> indent_level n = Some 0
      | Some p \<Rightarrow> (\<exists>l. indent_level (ns ! p) = Some l \<and> indent_level n = Some (Suc l))))"

definition levels_ok :: "raw_node list \<Rightarrow> bool" where
  "levels_ok ns \<longleftrightarrow> (\<forall>i<length ns. level_ok ns (ns ! i))"

fun stack_ok :: "raw_node list \<Rightarrow> open_section list \<Rightarrow> bool" where
  "stack_ok ns [] \<longleftrightarrow> True"
| "stack_ok ns (s # rest) \<longleftrightarrow>
     sec_id s < length ns \<and> node_kind (ns ! sec_id s) = Section \<and>
     indent_level (ns ! sec_id s) = Some (sec_level s) \<and> sec_level s = length rest \<and>
     in_subtree ns (sec_id s) (length ns - 1) \<and> (\<forall>t\<in>set rest. sec_id t < sec_id s) \<and> stack_ok ns rest"

text \<open>Appending a node and linking it to its parent.\<close>

definition link_child :: "raw_node list \<Rightarrow> raw_node_id option \<Rightarrow> nat \<Rightarrow> raw_node list" where
  "link_child ns pa i = (case pa of None \<Rightarrow> ns
     | Some p \<Rightarrow> ns[p := (ns ! p)\<lparr>node_children := node_children (ns ! p) @ [i]\<rparr>])"

definition add_node :: "raw_node list \<Rightarrow> raw_node \<Rightarrow> raw_node list" where
  "add_node ns n = link_child ns (node_parent n) (length ns) @ [n]"

lemma length_add_node [simp]: "length (add_node ns n) = Suc (length ns)"
  by (simp add: add_node_def link_child_def split: option.splits)

lemma add_node_last [simp]: "add_node ns n ! length ns = n"
  by (simp add: add_node_def link_child_def nth_append split: option.splits)

lemma add_node_old:
  assumes "j < length ns"
  shows "\<exists>cs. add_node ns n ! j = (ns ! j)\<lparr>node_children := cs\<rparr> \<and>
    cs = node_children (ns ! j) @ (if node_parent n = Some j then [length ns] else [])"
  using assms
  by (auto simp: add_node_def link_child_def nth_append nth_list_update split: option.splits)

lemma add_node_fields [simp]:
  assumes "j < length ns"
  shows "node_id (add_node ns n ! j) = node_id (ns ! j)" "node_kind (add_node ns n ! j) = node_kind (ns ! j)"
    "node_span (add_node ns n ! j) = node_span (ns ! j)" "node_line (add_node ns n ! j) = node_line (ns ! j)"
    "header_span (add_node ns n ! j) = header_span (ns ! j)" "body_span (add_node ns n ! j) = body_span (ns ! j)"
    "indent_level (add_node ns n ! j) = indent_level (ns ! j)"
    "invalid_reason (add_node ns n ! j) = invalid_reason (ns ! j)"
    "node_parent (add_node ns n ! j) = node_parent (ns ! j)"
    "node_text (add_node ns n ! j) = node_text (ns ! j)"
    "node_children (add_node ns n ! j) = node_children (ns ! j) @ (if node_parent n = Some j then [length ns] else [])"
  using add_node_old [OF assms, of n] by auto

definition parent_ok :: "raw_node list \<Rightarrow> raw_node_id option \<Rightarrow> bool" where
  "parent_ok ns pa \<longleftrightarrow> (\<forall>p. pa = Some p \<longrightarrow> p < length ns \<and> node_kind (ns ! p) = Section \<and>
     in_subtree ns p (length ns - 1))"

lemma filter_upt_cong:
  "(\<And>j. j < n \<Longrightarrow> P j = Q j) \<Longrightarrow> filter P [0..<n] = filter Q [0..<n]"
  by (rule filter_cong) auto

lemma links_add:
  assumes l: "links_ok ns roots" and p: "parent_ok ns (node_parent n)"
    and n: "node_id n = length ns" "node_children n = []"
  shows "links_ok (add_node ns n) (if node_parent n = None then roots @ [length ns] else roots)"
proof -
  let ?m = "add_node ns n"
  have ids: "\<forall>i<length ?m. node_id (?m ! i) = i"
    using l n by (auto simp: links_ok_def less_Suc_eq)
  have pars: "\<forall>i<length ?m. \<forall>q. node_parent (?m ! i) = Some q \<longrightarrow> q < i \<and> node_kind (?m ! q) = Section"
  proof (intro allI impI)
    fix i q assume i: "i < length ?m" and q: "node_parent (?m ! i) = Some q"
    show "q < i \<and> node_kind (?m ! q) = Section"
    proof (cases "i = length ns")
      case True
      then show ?thesis using q p by (auto simp: parent_ok_def)
    next
      case False
      then have "i < length ns" using i by simp
      then show ?thesis using q l by (fastforce simp: links_ok_def)
    qed
  qed
  have F: "filter (\<lambda>j. node_parent (?m ! j) = pa) [0..<length ?m] =
    filter (\<lambda>j. node_parent (ns ! j) = pa) [0..<length ns] @ (if node_parent n = pa then [length ns] else [])" for pa
  proof -
    have "filter (\<lambda>j. node_parent (?m ! j) = pa) [0..<length ns] = filter (\<lambda>j. node_parent (ns ! j) = pa) [0..<length ns]"
      by (rule filter_upt_cong) simp
    then show ?thesis by simp
  qed
  have none: "filter (\<lambda>j. node_parent (ns ! j) = Some (length ns)) [0..<length ns] = []"
    using l by (fastforce simp: links_ok_def filter_empty_conv)
  have "node_parent n \<noteq> Some (length ns)" using p by (auto simp: parent_ok_def)
  then have cs: "\<forall>i<length ?m. node_children (?m ! i) = filter (\<lambda>j. node_parent (?m ! j) = Some i) [0..<length ?m]"
    using l n none unfolding F by (auto simp: links_ok_def less_Suc_eq)
  have "(if node_parent n = None then roots @ [length ns] else roots) =
    filter (\<lambda>j. node_parent (?m ! j) = None) [0..<length ?m]"
    using l unfolding F by (simp add: links_ok_def)
  then show ?thesis using ids pars cs unfolding links_ok_def by blast
qed

lemma in_subtree_add:
  "j < length ns \<Longrightarrow> in_subtree (add_node ns n) p j \<longleftrightarrow> in_subtree ns p j"
  by (auto simp: in_subtree_def)

lemma in_subtree_Suc:
  "in_subtree ns p (Suc j) \<longleftrightarrow> in_subtree ns p j \<and> (p \<le> j \<longrightarrow> (\<exists>q. node_parent (ns ! Suc j) = Some q \<and> p \<le> q))"
  by (auto simp: in_subtree_def le_Suc_eq)

lemma in_subtree_below: "j \<le> p \<Longrightarrow> in_subtree ns p j"
  by (auto simp: in_subtree_def)

lemma in_subtree_add_last:
  assumes "in_subtree ns p (length ns - 1)" and "p < length ns"
    and "\<exists>q. node_parent n = Some q \<and> p \<le> q"
  shows "in_subtree (add_node ns n) p (length ns)"
proof -
  obtain k where k: "length ns = Suc k" using assms(2) by (cases "length ns") auto
  have "in_subtree (add_node ns n) p k" using assms(1) in_subtree_add [of k ns n p] k by simp
  then show ?thesis using assms(3) add_node_last [of ns n] unfolding k in_subtree_Suc by simp
qed

lemma nested_add:
  assumes "nested ns" and "parent_ok ns (node_parent n)"
  shows "nested (add_node ns n)"
  unfolding nested_def
proof (intro allI impI)
  fix k p assume k: "k < length (add_node ns n)" and p: "node_parent (add_node ns n ! k) = Some p"
  show "in_subtree (add_node ns n) p k"
  proof (cases "k = length ns")
    case True
    then show ?thesis using p assms(2) in_subtree_add_last [of ns p n] by (auto simp: parent_ok_def)
  next
    case False
    then have "k < length ns" using k by simp
    then show ?thesis using p assms(1) by (simp add: nested_def in_subtree_add)
  qed
qed

lemma level_ok_add:
  assumes "links_ok ns roots" and "levels_ok ns" and "parent_ok ns (node_parent n)" and "level_ok ns n"
  shows "levels_ok (add_node ns n)"
  unfolding levels_ok_def
proof (intro allI impI)
  fix i assume i: "i < length (add_node ns n)"
  show "level_ok (add_node ns n) (add_node ns n ! i)"
  proof (cases "i = length ns")
    case True
    then show ?thesis using assms(3,4) by (auto simp: level_ok_def parent_ok_def split: option.splits)
  next
    case False
    then have il: "i < length ns" using i by simp
    then have "\<forall>p. node_parent (ns ! i) = Some p \<longrightarrow> p < length ns" using assms(1) by (fastforce simp: links_ok_def)
    then show ?thesis using assms(2) il by (auto simp: levels_ok_def level_ok_def split: option.splits)
  qed
qed

lemma stack_ok_add:
  assumes "stack_ok ns ss" and "\<forall>s\<in>set ss. \<exists>q. node_parent n = Some q \<and> sec_id s \<le> q"
  shows "stack_ok (add_node ns n) ss"
  using assms
proof (induction ss)
  case (Cons s rest)
  then show ?case using in_subtree_add_last [of ns "sec_id s" n] by auto
qed simp

lemma stack_ok_dropWhile: "stack_ok ns ss \<Longrightarrow> stack_ok ns (dropWhile P ss)"
  by (induction ss) auto

text \<open>The parent the parser uses is the top of its stack.\<close>

definition stack_parent :: "open_section list \<Rightarrow> raw_node_id option" where
  "stack_parent ss = (case ss of [] \<Rightarrow> None | s # _ \<Rightarrow> Some (sec_id s))"

lemma stack_parent_ok:
  assumes "stack_ok ns ss"
  shows "parent_ok ns (stack_parent ss)"
    "\<forall>s\<in>set ss. \<exists>q. stack_parent ss = Some q \<and> sec_id s \<le> q"
  using assms by (cases ss; auto simp: stack_parent_def parent_ok_def)+

subsection \<open>The parser's invariant\<close>

text \<open>What a node says of the physical line it was built from.\<close>

definition node_of_line :: "mapped_source \<Rightarrow> physical_line \<Rightarrow> raw_node \<Rightarrow> bool" where
  "node_of_line src ph n \<longleftrightarrow>
     is_valid_for (content_range ph) (ms_virtual src) \<and> is_valid_for (full_range ph) (ms_virtual src) \<and>
     (\<exists>has_code. line_built ph (take (range_len (content_range ph)) (drop (range_start (content_range ph)) (ms_virtual src)))
        has_code (node_line n)) \<and>
     (node_kind n = Section \<longrightarrow> header_span n \<noteq> None) \<and>
     (node_kind n = Invalid \<longleftrightarrow> invalid_reason n \<noteq> None)"

text \<open>An indentation that was accepted is the indentation unit of the file, repeated.\<close>

definition indent_ok :: "indentation option \<Rightarrow> raw_node \<Rightarrow> bool" where
  "indent_ok ind n \<longleftrightarrow> (\<forall>l. indent_level n = Some l \<longrightarrow>
     (let t = trivia_text (line_indentation (node_line n)) in
      if l = 0 then t = [] else \<exists>style. ind = Some style \<and> t = concat (replicate l (ind_unit style))))"

definition style_ok :: "indentation option \<Rightarrow> bool" where
  "style_ok ind \<longleftrightarrow> (\<forall>style. ind = Some style \<longrightarrow> ind_unit style \<noteq> [] \<and>
     (\<forall>b\<in>set (ind_unit style). b = (case ind_kind style of IndentSpace \<Rightarrow> CHR '' '' | IndentTab \<Rightarrow> CHR 0x09)))"

text \<open>Every invalid node is reported at its own line, under the code of its reason.\<close>

definition reported :: "raw_diagnostic list \<Rightarrow> raw_node \<Rightarrow> bool" where
  "reported ds n \<longleftrightarrow> (\<forall>r. invalid_reason n = Some r \<longrightarrow>
     (\<exists>d\<in>set ds. diag_code d = reason_code r \<and> diag_severity d = SevError \<and>
        range_contains (span_range (line_span (node_line n))) (span_range (diag_span d))))"

definition fresh_node :: "raw_node \<Rightarrow> bool" where
  "fresh_node n \<longleftrightarrow> node_span n = line_span (node_line n) \<and> body_span n = None"

definition nodes_ok ::
    "mapped_source \<Rightarrow> physical_line list \<Rightarrow> indentation option \<Rightarrow> raw_diagnostic list \<Rightarrow> raw_node list \<Rightarrow> bool" where
  "nodes_ok src phs ind ds ns \<longleftrightarrow>
     length ns = length phs \<and>
     (\<forall>i<length ns. node_of_line src (phs ! i) (ns ! i) \<and> indent_ok ind (ns ! i) \<and> reported ds (ns ! i) \<and>
        fresh_node (ns ! i))"

definition parser_ok :: "mapped_source \<Rightarrow> physical_line list \<Rightarrow> raw_parser \<Rightarrow> bool" where
  "parser_ok src phs st \<longleftrightarrow>
     (let t = tree st; ns = tree_nodes t in
      links_ok ns (tree_roots t) \<and> nested ns \<and> levels_ok ns \<and> stack_ok ns (sections st) \<and>
      (\<forall>s\<in>set (sections st). sec_level s \<le> length (ms_virtual src)) \<and>
      (\<forall>d\<in>set (tree_diagnostics t). diag_code d \<noteq> EmptySection) \<and>
      style_ok (tree_indentation t) \<and> nodes_ok src phs (tree_indentation t) (tree_diagnostics t) ns)"

lemma parser_ok_new: "parser_ok src [] raw_parser_new"
  by (simp add: parser_ok_def raw_parser_new_def links_ok_def nested_def levels_ok_def style_ok_def nodes_ok_def)

text \<open>A node for the next line, as \<open>push_node\<close> makes it.\<close>

definition new_node where
  "new_node i kind text line reason level parent code =
     \<lparr>node_id = i, node_kind = kind, node_text = text, node_span = line_span line, node_line = line,
      node_code_span = code, header_span = (if kind = Section then code else None), body_span = None,
      indent_level = level, invalid_reason = reason, node_context = 0, node_parent = parent, node_children = []\<rparr>"

definition push_result where
  "push_result st n = st\<lparr>tree := (tree st)\<lparr>tree_nodes := add_node (tree_nodes (tree st)) n,
     tree_roots := (if node_parent n = None then tree_roots (tree st) @ [length (tree_nodes (tree st))]
                    else tree_roots (tree st))\<rparr>\<rparr>"

lemma push_node_Ret:
  assumes "code_span src line = Ret code" and "\<And>p. parent = Some p \<Longrightarrow> p < length (tree_nodes (tree st))"
  shows "push_node src st kind text line reason level parent =
    Ret (push_result st (new_node (length (tree_nodes (tree st))) kind text line reason level parent code),
         length (tree_nodes (tree st)))"
  using assms
  by (auto simp: push_node_def Let_def node_at_def push_result_def add_node_def link_child_def new_node_def
      split: option.splits)

text \<open>
  The one rule behind every way a line becomes a node: the node hangs below the top of the
  stack, its line was built from the next physical line, and its level fits.
\<close>

lemma push_node_ok:
  assumes ok: "mapped_source_ok src" and inv: "parser_ok src phs st"
    and ph: "is_valid_for (content_range ph) (ms_virtual src)" "is_valid_for (full_range ph) (ms_virtual src)"
    and content: "content = take (range_len (content_range ph)) (drop (range_start (content_range ph)) (ms_virtual src))"
    and uc: "utf8_ok content" and built: "line_built ph content has_code line"
    and kind: "kind = Section \<Longrightarrow> has_code" "kind = Invalid \<longleftrightarrow> reason \<noteq> None"
    and level: "kind \<in> {Simple, Section} \<Longrightarrow> level = Some (length (sections st))"
    and ind: "indent_ok (tree_indentation (tree st)) (new_node 0 kind text line reason level None None)"
    and rep: "reported (tree_diagnostics (tree st)) (new_node 0 kind text line reason level None None)"
  shows "\<exists>st'. push_node src st kind text line reason level (current_parent st) =
      Ret (st', length (tree_nodes (tree st))) \<and>
    parser_ok src (phs @ [ph]) st' \<and> sections st' = sections st \<and>
    tree_nodes (tree st') ! length phs = new_node (length phs) kind text line reason level (current_parent st)
      (node_code_span (tree_nodes (tree st') ! length phs)) \<and>
    length (tree_nodes (tree st')) = Suc (length phs) \<and>
    in_block_comment st' = in_block_comment st \<and> block_comment_start st' = block_comment_start st"
proof -
  let ?ns = "tree_nodes (tree st)"
  have i: "links_ok ?ns (tree_roots (tree st))" "nested ?ns" "levels_ok ?ns" "stack_ok ?ns (sections st)"
    "\<forall>s\<in>set (sections st). sec_level s \<le> length (ms_virtual src)" "style_ok (tree_indentation (tree st))"
    "nodes_ok src phs (tree_indentation (tree st)) (tree_diagnostics (tree st)) ?ns"
    "\<forall>d\<in>set (tree_diagnostics (tree st)). diag_code d \<noteq> EmptySection"
    using inv by (simp_all add: parser_ok_def Let_def)
  have len: "length ?ns = length phs" using i(7) by (simp add: nodes_ok_def)
  obtain code where code: "code_span src line = Ret code" "has_code \<longrightarrow> code \<noteq> None"
    using code_span_Ret [OF ok ph(1) content uc built] by blast
  have cp: "current_parent st = stack_parent (sections st)" by (simp add: current_parent_def stack_parent_def)
  note sp = stack_parent_ok [OF i(4)]
  define n where "n = new_node (length ?ns) kind text line reason level (current_parent st) code"
  have n: "node_parent n = stack_parent (sections st)" "node_id n = length ?ns" "node_children n = []"
    by (simp_all add: n_def new_node_def cp)
  have lv: "level_ok ?ns n"
    using level i(4) unfolding level_ok_def
    by (cases "sections st") (auto simp: n_def new_node_def cp stack_parent_def)
  have nl: "node_of_line src ph n"
    unfolding node_of_line_def content [symmetric]
    using ph built kind code by (auto simp: n_def new_node_def)
  have ni: "indent_ok (tree_indentation (tree st)) n" "reported (tree_diagnostics (tree st)) n" "fresh_node n"
    using ind rep by (simp_all add: n_def new_node_def indent_ok_def reported_def fresh_node_def)
  have nodes: "nodes_ok src (phs @ [ph]) (tree_indentation (tree st)) (tree_diagnostics (tree st)) (add_node ?ns n)"
    unfolding nodes_ok_def
  proof (intro conjI allI impI)
    show "length (add_node ?ns n) = length (phs @ [ph])" using len by simp
    fix j assume j: "j < length (add_node ?ns n)"
    have "node_of_line src ((phs @ [ph]) ! j) (add_node ?ns n ! j) \<and>
      indent_ok (tree_indentation (tree st)) (add_node ?ns n ! j) \<and>
      reported (tree_diagnostics (tree st)) (add_node ?ns n ! j) \<and> fresh_node (add_node ?ns n ! j)"
    proof (cases "j = length ?ns")
      case True
      then show ?thesis using nl ni len add_node_last [of ?ns n] by (simp add: nth_append)
    next
      case False
      then have "j < length ?ns" using j by simp
      then show ?thesis using i(7) len
        by (simp add: nodes_ok_def nth_append node_of_line_def indent_ok_def reported_def fresh_node_def)
    qed
    then show "node_of_line src ((phs @ [ph]) ! j) (add_node ?ns n ! j)"
      "indent_ok (tree_indentation (tree st)) (add_node ?ns n ! j)"
      "reported (tree_diagnostics (tree st)) (add_node ?ns n ! j)" "fresh_node (add_node ?ns n ! j)" by simp_all
  qed
  have st: "stack_ok (add_node ?ns n) (sections st)"
    using stack_ok_add [OF i(4)] sp(2) n(1) by simp
  have pok: "parent_ok ?ns (node_parent n)" using sp(1) n(1) by simp
  have "parser_ok src (phs @ [ph]) (push_result st n)"
    using links_add [OF i(1) pok n(2,3)] nested_add [OF i(2) pok] level_ok_add [OF i(1,3) pok lv] st nodes i(5,6,8)
    by (simp add: parser_ok_def push_result_def Let_def)
  moreover have "push_node src st kind text line reason level (current_parent st) = Ret (push_result st n, length ?ns)"
    unfolding n_def using push_node_Ret [OF code(1)] sp(1) cp by (simp add: parent_ok_def)
  moreover have "tree_nodes (tree (push_result st n)) ! length phs = n"
    "length (tree_nodes (tree (push_result st n))) = Suc (length phs)"
    using add_node_last [of ?ns n] len by (simp_all add: push_result_def)
  ultimately show ?thesis
    by (intro exI [of _ "push_result st n"]) (simp add: push_result_def n_def new_node_def len)
qed

lemma parser_ok_diagnostic: "parser_ok src phs st \<Longrightarrow> diag_code d \<noteq> EmptySection \<Longrightarrow> parser_ok src phs (push_diagnostic st d)"
  by (auto simp: parser_ok_def push_diagnostic_def Let_def nodes_ok_def reported_def)

lemma reason_code_not_empty [simp]: "reason_code r \<noteq> EmptySection"
  by (simp add: reason_code_def split: raw_invalid_reason.splits)

lemma parser_ok_block: "parser_ok src phs (st\<lparr>in_block_comment := b, block_comment_start := o'\<rparr>) \<longleftrightarrow> parser_ok src phs st"
  by (simp add: parser_ok_def)

lemma parser_ok_sections:
  "parser_ok src phs st \<Longrightarrow> parser_ok src phs (st\<lparr>sections := dropWhile P (sections st)\<rparr>)"
  by (auto simp: parser_ok_def Let_def stack_ok_dropWhile dest: set_dropWhileD)

subsection \<open>Indentation\<close>

definition indent_char :: "indent_kind \<Rightarrow> char" where
  "indent_char k = (case k of IndentSpace \<Rightarrow> CHR '' '' | IndentTab \<Rightarrow> CHR 0x09)"

lemma indentation_kind_cases:
  shows "indentation_kind ind \<noteq> Panic"
    and "indentation_kind ind = Ret k \<Longrightarrow> set ind \<subseteq> {indent_char k}"
    and "indentation_kind ind = Fail e \<Longrightarrow>
      (e = MixedIndent \<longleftrightarrow> CHR '' '' \<in> set ind \<and> CHR 0x09 \<in> set ind) \<and> (e = MixedIndent \<or> e = InvalidIndent) \<and>
      \<not> (\<exists>k. set ind \<subseteq> {indent_char k})"
  by (auto simp: indentation_kind_def indent_char_def list_all_iff split: if_splits indent_kind.splits)

lemma homogeneous_repeat:
  assumes "set ind \<subseteq> {c}" and "set u \<subseteq> {c}" and "u \<noteq> []" and "length u dvd length ind"
  shows "ind = concat (replicate (length ind div length u) u)"
proof -
  have R: "replicate (length xs) c = xs" if "set xs \<subseteq> {c}" for xs
    using that by (intro replicate_eqI [symmetric]) auto
  have "length (concat (replicate m u)) = m * length u" for m by (induction m) auto
  moreover have "set (concat (replicate m u)) \<subseteq> {c}" for m using assms(2) by (induction m) auto
  ultimately have "concat (replicate m u) = replicate (m * length u) c" for m
    using R [of "concat (replicate m u)"] by metis
  then show ?thesis using R [OF assms(1)] assms(4) by simp
qed

definition unit_repeated :: "indentation option \<Rightarrow> str \<Rightarrow> nat \<Rightarrow> bool" where
  "unit_repeated ind t l \<longleftrightarrow>
     (if l = 0 then t = [] else \<exists>style. ind = Some style \<and> t = concat (replicate l (ind_unit style)))"

lemma indent_ok_alt:
  "indent_ok ind n \<longleftrightarrow> (\<forall>l. indent_level n = Some l \<longrightarrow>
     unit_repeated ind (trivia_text (line_indentation (node_line n))) l)"
  by (simp add: indent_ok_def unit_repeated_def Let_def)

lemma resolve_indentation_ok:
  assumes inv: "parser_ok src phs st" and res: "resolve_indentation st ind = (res, st')"
  shows "parser_ok src phs st' \<and> sections st' = sections st \<and> tree_diagnostics (tree st') = tree_diagnostics (tree st) \<and>
    in_block_comment st' = in_block_comment st \<and> block_comment_start st' = block_comment_start st \<and> res \<noteq> Panic \<and>
    (\<forall>l. res = Ret l \<longrightarrow> l \<le> length ind \<and> unit_repeated (tree_indentation (tree st')) ind l)"
proof (cases "ind = []")
  case True
  then show ?thesis using assms by (auto simp: resolve_indentation_def unit_repeated_def)
next
  case ne: False
  show ?thesis
  proof (cases "indentation_kind ind")
    case (Ret k)
    note ch = indentation_kind_cases(2) [OF Ret]
    show ?thesis
    proof (cases "tree_indentation (tree st)")
      case None
      show ?thesis
      proof (cases "sections st = []")
        case True
        then show ?thesis using assms ne Ret None by (auto simp: resolve_indentation_def)
      next
        case False
        then have st': "res = Ret 1" "st' = st\<lparr>tree := (tree st)\<lparr>tree_indentation := Some \<lparr>ind_kind = k, ind_unit = ind\<rparr>\<rparr>\<rparr>"
          using res ne Ret None by (simp_all add: resolve_indentation_def)
        have "parser_ok src phs st'"
          using inv ne ch None
          by (auto simp: parser_ok_def st' Let_def style_ok_def nodes_ok_def indent_ok_def indent_char_def
              split: indent_kind.splits if_splits)
        moreover have "1 \<le> length ind" using ne by (cases ind) auto
        ultimately show ?thesis by (simp add: st' unit_repeated_def)
      qed
    next
      case (Some style)
      have "style_ok (Some style)" using inv Some by (simp add: parser_ok_def Let_def)
      then have u: "ind_unit style \<noteq> []" "set (ind_unit style) \<subseteq> {indent_char (ind_kind style)}"
        by (auto simp: style_ok_def indent_char_def)
      have st': "st' = st" using res ne Ret Some
        by (simp add: resolve_indentation_def Let_def split: if_splits)
      have "l \<le> length ind \<and> unit_repeated (tree_indentation (tree st)) ind l" if "res = Ret l" for l
      proof -
        have k: "ind_kind style = k" "length (ind_unit style) dvd length ind" "l = length ind div length (ind_unit style)"
          using that res ne Ret Some by (auto simp: resolve_indentation_def Let_def split: if_splits)
        have "ind = concat (replicate l (ind_unit style))"
          using homogeneous_repeat [OF ch u(2) [unfolded k(1)] u(1) k(2)] k(3) by simp
        moreover from this ne have "l \<noteq> 0" by (cases l) auto
        ultimately show ?thesis using Some k(3) by (auto simp: unit_repeated_def)
      qed
      moreover have "res \<noteq> Panic"
        using res ne Ret Some by (auto simp: resolve_indentation_def Let_def split: if_splits)
      ultimately show ?thesis using inv st' by simp
    qed
  next
    case (Fail e)
    then show ?thesis using assms ne by (auto simp: resolve_indentation_def)
  next
    case Panic
    then show ?thesis using indentation_kind_cases(1) by blast
  qed
qed

subsection \<open>One line\<close>

text \<open>The physical line at hand and its content.\<close>

definition line_context :: "mapped_source \<Rightarrow> physical_line \<Rightarrow> str \<Rightarrow> bool" where
  "line_context src ph content \<longleftrightarrow>
     is_valid_for (content_range ph) (ms_virtual src) \<and> is_valid_for (line_ending_range ph) (ms_virtual src) \<and>
     is_valid_for (full_range ph) (ms_virtual src) \<and> range_contains (full_range ph) (content_range ph) \<and>
     content = take (range_len (content_range ph)) (drop (range_start (content_range ph)) (ms_virtual src)) \<and>
     utf8_ok content"

lemma line_contextD:
  assumes "line_context src ph content"
  shows "is_valid_for (content_range ph) (ms_virtual src)" "is_valid_for (line_ending_range ph) (ms_virtual src)"
    "is_valid_for (full_range ph) (ms_virtual src)" "range_contains (full_range ph) (content_range ph)"
    "content = take (range_len (content_range ph)) (drop (range_start (content_range ph)) (ms_virtual src))"
    "utf8_ok content" "length content \<le> length (ms_virtual src)"
    "length content = range_len (content_range ph)"
  using assms by (auto simp: line_context_def is_valid_for_def range_len_def)

text \<open>Spans that lie on the line.\<close>

lemma line_built_inside:
  assumes c: "line_context src ph content" and b: "line_built ph content has_code l"
  shows "range_contains (span_range (line_span l)) (span_range (trivia_span (line_indentation l)))"
    "range_contains (span_range (line_span l)) (span_range (content_span l))"
    "range_contains (span_range (line_span l))
      (range_new (range_end (span_range (trivia_span (line_indentation l)))) (trailing_start l))"
proof -
  note d = line_contextD [OF c]
  obtain m where m: "trailing_start l = range_start (content_range ph) + m" "is_char_boundary content m"
    using b by (auto simp: line_built_def)
  have "m \<le> length content" using m(2) by (rule boundary_le)
  moreover have "leading_whitespace_end content \<le> length content"
    using leading_whitespace_end_boundary [OF d(6)] by (rule boundary_le)
  ultimately show "range_contains (span_range (line_span l)) (span_range (trivia_span (line_indentation l)))"
    "range_contains (span_range (line_span l)) (span_range (content_span l))"
    "range_contains (span_range (line_span l))
      (range_new (range_end (span_range (trivia_span (line_indentation l)))) (trailing_start l))"
    using b d(1,4,8) m(1) by (auto simp: line_built_def range_contains_def range_len_def is_valid_for_def)
qed

lemma push_next_ok:
  assumes ok: "mapped_source_ok src" and inv: "parser_ok src phs st" and c: "line_context src ph content"
    and built: "line_built ph content has_code line"
    and kind: "kind = Section \<Longrightarrow> has_code" "kind = Invalid \<longleftrightarrow> reason \<noteq> None"
    and level: "kind \<in> {Simple, Section} \<Longrightarrow> level = Some (length (sections st))"
    and ind: "\<And>l. level = Some l \<Longrightarrow>
      unit_repeated (tree_indentation (tree st)) (trivia_text (line_indentation line)) l"
    and rep: "\<And>r. reason = Some r \<Longrightarrow> \<exists>d\<in>set (tree_diagnostics (tree st)).
      diag_code d = reason_code r \<and> diag_severity d = SevError \<and>
      range_contains (span_range (line_span line)) (span_range (diag_span d))"
  shows "\<exists>st'. push_node src st kind text line reason level (current_parent st) =
      Ret (st', length (tree_nodes (tree st))) \<and>
    parser_ok src (phs @ [ph]) st' \<and> sections st' = sections st \<and>
    tree_nodes (tree st') ! length phs = new_node (length phs) kind text line reason level (current_parent st)
      (node_code_span (tree_nodes (tree st') ! length phs)) \<and>
    length (tree_nodes (tree st')) = Suc (length phs) \<and>
    in_block_comment st' = in_block_comment st \<and> block_comment_start st' = block_comment_start st"
proof -
  note d = line_contextD [OF c]
  show ?thesis
    by (rule push_node_ok [OF ok inv d(1,3,5,6) built kind level])
      (use ind rep in \<open>auto simp: indent_ok_alt reported_def new_node_def\<close>)
qed

lemma stack_ok_push:
  assumes "stack_ok ns ss" and "i < length ns" and "length ns = Suc i" and "node_kind (ns ! i) = Section"
    and "indent_level (ns ! i) = Some (length ss)" and "\<forall>s\<in>set ss. sec_id s < i"
  shows "stack_ok ns (\<lparr>sec_id = i, sec_level = length ss\<rparr> # ss)"
  using assms by (auto simp: in_subtree_below)

lemma stack_ok_ids: "stack_ok ns ss \<Longrightarrow> s \<in> set ss \<Longrightarrow> sec_id s < length ns"
  by (induction ss) auto

lemma parse_code_line_ok:
  assumes ok: "mapped_source_ok src" and small: "length (ms_virtual src) < u32_max"
    and inv0: "parser_ok src phs st0" and c: "line_context src ph content"
    and built: "line_built ph content True line" and level: "level \<le> length (ms_virtual src)"
    and ind: "unit_repeated (tree_indentation (tree st0)) (trivia_text (line_indentation line)) level"
  shows "\<exists>st'. parse_code_line src st0 line str level = Ret st' \<and> parser_ok src (phs @ [ph]) st' \<and>
    in_block_comment st' = in_block_comment st0 \<and> block_comment_start st' = block_comment_start st0"
proof -
  define st where "st = st0\<lparr>sections := dropWhile (\<lambda>s. sec_level s \<ge> level) (sections st0)\<rparr>"
  have inv: "parser_ok src phs st" unfolding st_def using inv0 by (rule parser_ok_sections)
  have stk: "stack_ok (tree_nodes (tree st)) (sections st)"
    and lim: "\<forall>s\<in>set (sections st). sec_level s \<le> length (ms_virtual src)"
    and len: "length (tree_nodes (tree st)) = length phs"
    using inv by (simp_all add: parser_ok_def Let_def nodes_ok_def)
  have keep: "tree st = tree st0" "in_block_comment st = in_block_comment st0"
    "block_comment_start st = block_comment_start st0" by (simp_all add: st_def)
  have ex: "(case sections st of [] \<Rightarrow> Ret 0 | s # _ \<Rightarrow> if sec_level s < u32_max then Ret (sec_level s + 1) else Panic)
      = (Ret (length (sections st)) :: nat may_panic)"
    using stk lim small by (cases "sections st") fastforce+
  note d = line_contextD [OF c] and inside = line_built_inside [OF c built]
  show ?thesis
  proof (cases "level = length (sections st)")
    case False
    let ?r = "UnexpectedIndent (length (sections st)) level"
    obtain co where co: "code_span src line = Ret co" "\<forall>sp. co = Some sp \<longrightarrow>
      span_range sp = range_new (range_end (span_range (trivia_span (line_indentation line)))) (trailing_start line)"
      using code_span_Ret [OF ok d(1,5,6) built] by blast
    define dspan where "dspan = (if range_is_empty (span_range (trivia_span (line_indentation line)))
      then (case co of Some sp \<Rightarrow> sp | None \<Rightarrow> content_span line) else trivia_span (line_indentation line))"
    have din: "range_contains (span_range (line_span line)) (span_range dspan)"
    proof (cases co)
      case None
      then show ?thesis using inside(1,2) by (simp add: dspan_def)
    next
      case (Some sp)
      then have "span_range sp = range_new (range_end (span_range (trivia_span (line_indentation line)))) (trailing_start line)"
        using co(2) by blast
      then show ?thesis using Some inside(1,3) by (simp only: dspan_def option.case split: if_split) simp
    qed
    define st1 where "st1 = push_indentation_diagnostic st ?r dspan"
    have inv1: "parser_ok src phs st1" unfolding st1_def push_indentation_diagnostic_def
      using inv by (intro parser_ok_diagnostic) simp_all
    have k1: "tree_indentation (tree st1) = tree_indentation (tree st)" "sections st1 = sections st"
      "in_block_comment st1 = in_block_comment st" "block_comment_start st1 = block_comment_start st"
      by (simp_all add: st1_def push_indentation_diagnostic_def push_diagnostic_def)
    have rep: "\<exists>x\<in>set (tree_diagnostics (tree st1)). diag_code x = reason_code ?r \<and> diag_severity x = SevError \<and>
      range_contains (span_range (line_span line)) (span_range (diag_span x))"
      using din by (simp add: st1_def push_indentation_diagnostic_def push_diagnostic_def)
    obtain st' where st': "push_node src st1 Invalid str line (Some ?r) (Some level) (current_parent st1) =
        Ret (st', length (tree_nodes (tree st1)))" "parser_ok src (phs @ [ph]) st'"
        "in_block_comment st' = in_block_comment st1" "block_comment_start st' = block_comment_start st1"
    proof -
      have "unit_repeated (tree_indentation (tree st1)) (trivia_text (line_indentation line)) l"
        if "Some level = Some l" for l
        using that ind k1(1) keep(1) by simp
      moreover have "\<exists>x\<in>set (tree_diagnostics (tree st1)). diag_code x = reason_code r \<and> diag_severity x = SevError \<and>
        range_contains (span_range (line_span line)) (span_range (diag_span x))" if "Some ?r = Some r" for r
        using that rep by simp
      ultimately show ?thesis
        using that push_next_ok [OF ok inv1 c built, of Invalid "Some ?r" "Some level" str] by blast
    qed
    have "parse_code_line src st0 line str level = Ret st'"
      unfolding parse_code_line_def Let_def st_def [symmetric] ex obind.simps using False co(1) st'(1)
      by (auto simp: st1_def dspan_def split: option.splits)
    then show ?thesis using st' k1 keep by auto
  next
    case True
    have cp: "current_parent st = current_parent st" ..
    have push: "\<exists>st'. push_node src st kind tx line None (Some level) (current_parent st) =
        Ret (st', length phs) \<and> parser_ok src (phs @ [ph]) st' \<and> sections st' = sections st \<and>
      tree_nodes (tree st') ! length phs = new_node (length phs) kind tx line None (Some level) (current_parent st)
        (node_code_span (tree_nodes (tree st') ! length phs)) \<and>
      length (tree_nodes (tree st')) = Suc (length phs) \<and>
      in_block_comment st' = in_block_comment st \<and> block_comment_start st' = block_comment_start st"
      if "kind \<in> {Simple, Section}" for kind tx
    proof -
      have "kind = Invalid \<longleftrightarrow> (None :: raw_invalid_reason option) \<noteq> None" using that by auto
      moreover have "unit_repeated (tree_indentation (tree st)) (trivia_text (line_indentation line)) l"
        if "Some level = Some l" for l
        using that ind keep(1) by simp
      ultimately show ?thesis
        using push_next_ok [OF ok inv c built, of kind None "Some level" tx] True unfolding len by blast
    qed
    show ?thesis
    proof (cases "str \<noteq> [] \<and> last str = CHR '':''")
      case colon: True
      obtain st' where st': "push_node src st Section (butlast str) line None (Some level) (current_parent st) =
          Ret (st', length phs)" "parser_ok src (phs @ [ph]) st'" "sections st' = sections st"
        "tree_nodes (tree st') ! length phs = new_node (length phs) Section (butlast str) line None (Some level)
          (current_parent st) (node_code_span (tree_nodes (tree st') ! length phs))"
        "length (tree_nodes (tree st')) = Suc (length phs)"
        "in_block_comment st' = in_block_comment st" "block_comment_start st' = block_comment_start st"
        using push [of Section "butlast str"] by auto
      define st2 where "st2 = st'\<lparr>sections := \<lparr>sec_id = length phs, sec_level = level\<rparr> # sections st'\<rparr>"
      have nk: "node_kind (tree_nodes (tree st') ! length phs) = Section"
        "indent_level (tree_nodes (tree st') ! length phs) = Some level"
        by (subst st'(4), simp add: new_node_def)+
      have "stack_ok (tree_nodes (tree st')) (sections st')" using st'(2) by (simp add: parser_ok_def Let_def)
      moreover have "\<forall>s\<in>set (sections st'). sec_id s < length phs"
        using stack_ok_ids [OF stk] st'(3) len by simp
      ultimately have "stack_ok (tree_nodes (tree st2)) (sections st2)"
        using stack_ok_push [of "tree_nodes (tree st')" "sections st'" "length phs"] nk st'(3,5) True
        by (simp add: st2_def)
      then have "parser_ok src (phs @ [ph]) st2"
        using st'(2) level by (simp add: parser_ok_def Let_def st2_def)
      moreover have "parse_code_line src st0 line str level = Ret st2"
        unfolding parse_code_line_def Let_def st_def [symmetric] ex obind.simps using True colon st'(1)
        by (simp add: st2_def)
      ultimately show ?thesis using st'(6,7) keep by (simp add: st2_def)
    next
      case False
      obtain st' where st': "push_node src st Simple str line None (Some level) (current_parent st) =
          Ret (st', length phs)" "parser_ok src (phs @ [ph]) st'"
        "in_block_comment st' = in_block_comment st" "block_comment_start st' = block_comment_start st"
        using push [of Simple str] by auto
      then have "parse_code_line src st0 line str level = Ret st'"
        unfolding parse_code_line_def Let_def st_def [symmetric] ex obind.simps using True False by auto
      then show ?thesis using st' keep by auto
    qed
  qed
qed

lemma open_delimiter_valid:
  assumes c: "line_context src ph content"
    and d: "split_block_action (split_line content inb (leading_whitespace_end content) ml) = Some (OpenBlock d)"
  shows "is_valid_for (offset_range (range_start (content_range ph)) d) (ms_virtual src)"
  using content_piece(1) [OF line_contextD(1,5) [OF c]] split_line_facts(3) [OF line_contextD(6) [OF c] d]
  by (simp add: offset_range_def)

lemma push_trivia_ok:
  assumes ok: "mapped_source_ok src" and inv: "parser_ok src phs st" and c: "line_context src ph content"
    and built: "line_built ph content has_code line" and k: "kind \<in> {Blank, Comment}"
  shows "\<exists>st' i. push_node src st kind str line None None (current_parent st) = Ret (st', i) \<and>
    parser_ok src (phs @ [ph]) st'"
proof -
  have "kind = Section \<Longrightarrow> has_code" "kind = Invalid \<longleftrightarrow> (None :: raw_invalid_reason option) \<noteq> None"
    "kind \<in> {Simple, Section} \<Longrightarrow> (None :: nat option) = Some (length (sections st))"
    using k by auto
  then show ?thesis using push_next_ok [OF ok inv c built, of kind None None str] by blast
qed

lemma parse_line_ok:
  assumes ok: "mapped_source_ok src" and small: "length (ms_virtual src) < u32_max"
    and inv0: "parser_ok src phs st0" and c: "line_context src ph content"
  shows "\<exists>st'. parse_line src opts ph st0 = Ret st' \<and> parser_ok src (phs @ [ph]) st'"
proof -
  note d = line_contextD [OF c]
  define ie where "ie = leading_whitespace_end content"
  define r where "r = split_line content (in_block_comment st0) ie opts"
  have sl: "str_slice (content_range ph) (ms_virtual src) = Some content"
    using str_slice_valid [OF d(1)] d(5) by simp
  obtain st where st: "(case split_block_action r of
         Some (OpenBlock delimiter) \<Rightarrow>
           obind (mapped src (offset_range (range_start (content_range ph)) delimiter)) (\<lambda>sp.
           Ret (st0\<lparr>in_block_comment := True, block_comment_start := Some sp\<rparr>))
       | Some CloseBlock \<Rightarrow> Ret (st0\<lparr>in_block_comment := False, block_comment_start := None\<rparr>)
       | None \<Rightarrow> Ret st0) = Ret st" and inv: "parser_ok src phs st"
  proof (cases "split_block_action r")
    case None
    then show ?thesis using that inv0 by simp
  next
    case (Some a)
    show ?thesis
    proof (cases a)
      case (OpenBlock dl)
      obtain sp where "mapped src (offset_range (range_start (content_range ph)) dl) = Ret sp"
        by (rule mapped_Ret [OF ok open_delimiter_valid [OF c, of "in_block_comment st0" opts]])
          (use Some OpenBlock in \<open>simp_all add: r_def ie_def\<close>)
      then show ?thesis using that [of "st0\<lparr>in_block_comment := True, block_comment_start := Some sp\<rparr>"]
        Some OpenBlock inv0 by (simp add: parser_ok_block)
    next
      case CloseBlock
      then show ?thesis using that [of "st0\<lparr>in_block_comment := False, block_comment_start := None\<rparr>"]
        Some inv0 by (simp add: parser_ok_block)
    qed
  qed
  obtain line where line: "build_line src ph content ie r = Ret line"
    "line_built ph content (\<not> is_blank (split_value r)) line"
    using build_line_Ret [OF ok d(1,2,3,5,6)] unfolding r_def ie_def by blast
  have P: "parse_line src opts ph st0 =
    (let trimmed = str_trim (split_value r) in
     if split_comment r \<noteq> None \<and> trimmed = [] then
       obind (case split_comment r of None \<Rightarrow> Ret []
              | Some c \<Rightarrow> index_range content (comment_start c) (length content)) (\<lambda>text.
       obind (push_node src st Comment text line None None (current_parent st)) (\<lambda>(st, _). Ret st))
     else if trimmed = [] then
       obind (push_node src st Blank [] line None None (current_parent st)) (\<lambda>(st, _). Ret st)
     else
       obind (index_range content 0 ie) (\<lambda>ind.
       case resolve_indentation st ind of
         (Ret level, st) \<Rightarrow> parse_code_line src st line trimmed level
       | (Fail reason, st) \<Rightarrow>
           obind (push_node src (push_indentation_diagnostic st reason (trivia_span (line_indentation line)))
                    Invalid trimmed line (Some reason) None (current_parent st)) (\<lambda>(st, _). Ret st)
       | (Panic, st) \<Rightarrow> Panic))"
    unfolding parse_line_def sl expect_simps obind.simps Let_def ie_def [symmetric] r_def [symmetric] st line(1) ..
  show ?thesis
  proof (cases "str_trim (split_value r) = []")
    case True
    show ?thesis
    proof (cases "split_comment r")
      case None
      then show ?thesis unfolding P Let_def
        using True push_trivia_ok [OF ok inv c line(2), of Blank "[]"] by auto
    next
      case (Some cm)
      have "is_char_boundary content (comment_start cm)"
        using split_line_facts(1) [OF d(6), of "in_block_comment st0" opts] Some
        unfolding r_def ie_def by (simp add: code_limit_def)
      then have "index_range content (comment_start cm) (length content) = Ret (drop (comment_start cm) content)"
        by (rule index_range_rest)
      then show ?thesis unfolding P Let_def
        using True Some push_trivia_ok [OF ok inv c line(2), of Comment "drop (comment_start cm) content"] by auto
    qed
  next
    case False
    have ib: "index_range content 0 ie = Ret (take ie content)"
      using index_range_Ret [OF leading_whitespace_end_boundary [OF d(6)]] by (simp add: ie_def)
    obtain res st1 where r1: "resolve_indentation st (take ie content) = (res, st1)"
      by (cases "resolve_indentation st (take ie content)")
    note ri = resolve_indentation_ok [OF inv r1]
    have code: "\<not> is_blank (split_value r)" using False by (simp add: is_blank_def)
    then have built: "line_built ph content True line" using line(2) by simp
    have it: "trivia_text (line_indentation line) = take ie content"
      using line(2) by (simp add: line_built_def ie_def)
    show ?thesis
    proof (cases res)
      case (Ret level)
      then have lv: "level \<le> length (take ie content)"
        "unit_repeated (tree_indentation (tree st1)) (trivia_text (line_indentation line)) level"
        using ri it by simp_all
      then have "level \<le> length (ms_virtual src)" using d(7) by simp
      then obtain st' where "parse_code_line src st1 line (str_trim (split_value r)) level = Ret st'"
        "parser_ok src (phs @ [ph]) st'"
        using parse_code_line_ok [OF ok small _ c built _ lv(2)] ri by blast
      then show ?thesis unfolding P Let_def ib obind.simps r1 using False Ret by simp
    next
      case (Fail reason)
      define st2 where "st2 = push_indentation_diagnostic st1 reason (trivia_span (line_indentation line))"
      have inv2: "parser_ok src phs st2" unfolding st2_def push_indentation_diagnostic_def
        using ri by (intro parser_ok_diagnostic) simp_all
      have cp: "current_parent st1 = current_parent st2"
        by (simp add: st2_def push_indentation_diagnostic_def push_diagnostic_def current_parent_def)
      have rep: "\<exists>x\<in>set (tree_diagnostics (tree st2)). diag_code x = reason_code q \<and> diag_severity x = SevError \<and>
        range_contains (span_range (line_span line)) (span_range (diag_span x))" if "Some reason = Some q" for q
        using that line_built_inside(1) [OF c built]
        by (simp add: st2_def push_indentation_diagnostic_def push_diagnostic_def)
      obtain st' i where "push_node src st2 Invalid (str_trim (split_value r)) line (Some reason) None (current_parent st2)
          = Ret (st', i)" "parser_ok src (phs @ [ph]) st'"
        using push_next_ok [OF ok inv2 c built, of Invalid "Some reason" None "str_trim (split_value r)"] rep by blast
      then show ?thesis unfolding P Let_def ib obind.simps r1 using False Fail cp by (simp add: st2_def)
    qed (use ri in simp)
  qed
qed

lemma parse_lines_ok:
  assumes ok: "mapped_source_ok src" and small: "length (ms_virtual src) < u32_max"
  shows "lines_from (ms_virtual src) a k ls \<Longrightarrow> is_char_boundary (ms_virtual src) a \<Longrightarrow> parser_ok src phs st \<Longrightarrow>
    \<exists>st'. try_for (parse_line src opts) ls st = Ret st' \<and> parser_ok src (phs @ ls) st'"
proof (induction ls arbitrary: a k phs st)
  case (Cons l ls)
  have u: "utf8_ok (ms_virtual src)" using ok by (simp add: mapped_source_ok_def)
  note v = lines_from_valid [OF u Cons.prems(2,1)]
  define content where "content = take (range_len (content_range l)) (drop (range_start (content_range l)) (ms_virtual src))"
  have "utf8_ok content"
    using str_slice_utf8_ok [OF u str_slice_valid [OF v(1)]] by (simp add: content_def)
  moreover have "range_contains (full_range l) (content_range l)"
  proof -
    have "line_at (ms_virtual src) k a (range_end (content_range l)) (range_end (full_range l)) l"
      using Cons.prems(1) by simp
    then show ?thesis unfolding line_at_def range_contains_def by (metis order_refl range_new_simps(1,2))
  qed
  ultimately have "line_context src l content" using v by (simp add: line_context_def content_def)
  from parse_line_ok [OF ok small Cons.prems(3) this, of opts] obtain st' where
    "parse_line src opts l st = Ret st'" "parser_ok src (phs @ [l]) st'" by blast
  moreover have "lines_from (ms_virtual src) (range_end (full_range l)) (k + 1) ls" using Cons.prems(1) by simp
  ultimately show ?case using Cons.IH [OF _ v(4)] by fastforce
qed simp

end
