(* ===== verification/Raw_Tree_Result.thy ===== *)
theory Raw_Tree_Result
  imports Raw_Tree_Parse "HOL-Library.Multiset"
begin

text \<open>
  The closing loop of the raw-tree parser (\<open>finalize_sections\<close>, last section first) and the
  guarantees of the whole parse: the extent of a node, the body of a section, the warnings for
  empty sections, and the properties of it.
\<close>

subsection \<open>Closing the sections\<close>

abbreviation line_lo :: "raw_node list \<Rightarrow> nat \<Rightarrow> nat" where
  "line_lo ns i \<equiv> range_start (span_range (line_span (node_line (ns ! i))))"

abbreviation line_hi :: "raw_node list \<Rightarrow> nat \<Rightarrow> nat" where
  "line_hi ns i \<equiv> range_end (span_range (line_span (node_line (ns ! i))))"

abbreviation span_hi :: "raw_node list \<Rightarrow> nat \<Rightarrow> nat" where
  "span_hi ns i \<equiv> range_end (span_range (node_span (ns ! i)))"

lemma lines_from_ordered:
  "lines_from s a k ls \<Longrightarrow> (\<forall>i<length ls. a \<le> range_start (full_range (ls ! i)) \<and>
      range_start (full_range (ls ! i)) < range_end (full_range (ls ! i)) \<and>
      (\<forall>j<length ls. i < j \<longrightarrow> range_end (full_range (ls ! i)) \<le> range_start (full_range (ls ! j))))"
proof (induction ls arbitrary: a k)
  case (Cons l ls)
  have l: "a = range_start (full_range l)" "range_start (full_range l) < range_end (full_range l)"
  proof -
    have "full_range l = range_new a (range_end (full_range l))" "a < range_end (full_range l)"
      using Cons.prems by (simp_all add: line_at_def)
    then show "a = range_start (full_range l)" "range_start (full_range l) < range_end (full_range l)"
      by (metis range_new_simps(1))+
  qed
  have IH: "\<forall>i<length ls. range_end (full_range l) \<le> range_start (full_range (ls ! i)) \<and>
      range_start (full_range (ls ! i)) < range_end (full_range (ls ! i)) \<and>
      (\<forall>j<length ls. i < j \<longrightarrow> range_end (full_range (ls ! i)) \<le> range_start (full_range (ls ! j)))"
    by (rule Cons.IH [of _ "k + 1"]) (use Cons.prems in simp)
  show ?case
  proof (intro allI impI)
    fix i assume i: "i < length (l # ls)"
    show "a \<le> range_start (full_range ((l # ls) ! i)) \<and>
      range_start (full_range ((l # ls) ! i)) < range_end (full_range ((l # ls) ! i)) \<and>
      (\<forall>j<length (l # ls). i < j \<longrightarrow> range_end (full_range ((l # ls) ! i)) \<le> range_start (full_range ((l # ls) ! j)))"
    proof (cases i)
      case 0
      then show ?thesis using l IH by (auto simp: nth_Cons' gr0_conv_Suc)
    next
      case (Suc i')
      then have "i' < length ls" using i by simp
      then show ?thesis using l IH Suc by (fastforce simp: nth_Cons')
    qed
  qed
qed simp

text \<open>Nodes whose lines lie in order in a valid source.\<close>

definition lines_ordered :: "str \<Rightarrow> raw_node list \<Rightarrow> bool" where
  "lines_ordered v ns \<longleftrightarrow> (\<forall>i<length ns. is_valid_for (span_range (line_span (node_line (ns ! i)))) v \<and>
     line_lo ns i < line_hi ns i \<and> (\<forall>j<length ns. i < j \<longrightarrow> line_hi ns i \<le> line_lo ns j))"

text \<open>The span of a node reaches from its line to the end of its subtree, and no further.\<close>

definition extent_ok :: "str \<Rightarrow> raw_node list \<Rightarrow> nat \<Rightarrow> bool" where
  "extent_ok v ns i \<longleftrightarrow>
     range_start (span_range (node_span (ns ! i))) = line_lo ns i \<and> line_hi ns i \<le> span_hi ns i \<and>
     is_char_boundary v (span_hi ns i) \<and>
     (\<forall>k<length ns. i < k \<and> \<not> in_subtree ns i k \<longrightarrow> span_hi ns i \<le> line_lo ns k)"

definition body_range_of :: "raw_node list \<Rightarrow> nat \<Rightarrow> text_range" where
  "body_range_of ns i = (case node_children (ns ! i) of
      [] \<Rightarrow> range_empty (line_hi ns i)
    | c # cs \<Rightarrow> range_new (line_lo ns c) (span_hi ns (last (c # cs))))"

definition section_closed :: "raw_node list \<Rightarrow> nat \<Rightarrow> bool" where
  "section_closed ns i \<longleftrightarrow> (\<exists>b. body_span (ns ! i) = Some b \<and> span_range b = body_range_of ns i \<and>
     span_range (node_span (ns ! i)) = range_new (line_lo ns i) (range_end (span_range b)))"

text \<open>Two arenas that differ in the spans of nodes only.\<close>

definition same_skeleton :: "raw_node list \<Rightarrow> raw_node list \<Rightarrow> bool" where
  "same_skeleton ns ms \<longleftrightarrow> length ms = length ns \<and>
     (\<forall>i<length ns. \<exists>s b. ms ! i = (ns ! i)\<lparr>node_span := s, body_span := b\<rparr>)"

lemma same_skeleton_fields:
  assumes "same_skeleton ns ms" and "i < length ns"
  shows "node_id (ms ! i) = node_id (ns ! i)" "node_kind (ms ! i) = node_kind (ns ! i)"
    "node_line (ms ! i) = node_line (ns ! i)" "header_span (ms ! i) = header_span (ns ! i)"
    "indent_level (ms ! i) = indent_level (ns ! i)" "invalid_reason (ms ! i) = invalid_reason (ns ! i)"
    "node_parent (ms ! i) = node_parent (ns ! i)" "node_children (ms ! i) = node_children (ns ! i)"
    "node_text (ms ! i) = node_text (ns ! i)" "node_code_span (ms ! i) = node_code_span (ns ! i)"
  using assms by (fastforce simp: same_skeleton_def)+

lemma same_skeleton_update:
  assumes "same_skeleton ns ms" and "i < length ns"
  shows "same_skeleton ns (ms[i := (ms ! i)\<lparr>node_span := s, body_span := b\<rparr>])"
  unfolding same_skeleton_def
proof (intro conjI allI impI)
  show "length (ms[i := (ms ! i)\<lparr>node_span := s, body_span := b\<rparr>]) = length ns"
    using assms by (simp add: same_skeleton_def)
  fix j assume j: "j < length ns"
  obtain s' b' where "ms ! j = (ns ! j)\<lparr>node_span := s', body_span := b'\<rparr>" "length ms = length ns"
    using assms(1) j by (auto simp: same_skeleton_def)
  then show "\<exists>s' b'. ms[i := (ms ! i)\<lparr>node_span := s, body_span := b\<rparr>] ! j = (ns ! j)\<lparr>node_span := s', body_span := b'\<rparr>"
    using j by (cases "i = j") (simp_all add: nth_list_update, (intro exI, rule refl)+)
qed

lemma same_skeleton_links:
  assumes "same_skeleton ns ms" and "links_ok ns roots"
  shows "links_ok ms roots"
proof -
  have len: "length ms = length ns" using assms(1) by (simp add: same_skeleton_def)
  have F: "filter (\<lambda>j. node_parent (ms ! j) = pa) [0..<length ns] = filter (\<lambda>j. node_parent (ns ! j) = pa) [0..<length ns]" for pa
    by (rule filter_upt_cong) (simp add: same_skeleton_fields [OF assms(1)])
  have "p < i \<and> node_kind (ms ! p) = Section" if "i < length ns" "node_parent (ms ! i) = Some p" for i p
  proof -
    have "node_parent (ns ! i) = Some p" using that same_skeleton_fields(7) [OF assms(1)] by simp
    then have "p < i" "node_kind (ns ! p) = Section" using assms(2) that(1) unfolding links_ok_def by blast+
    then show ?thesis using that(1) same_skeleton_fields(2) [OF assms(1), of p] by simp
  qed
  then show ?thesis using assms(2) len same_skeleton_fields [OF assms(1)] unfolding links_ok_def len F by simp
qed

lemma same_skeleton_subtree:
  "same_skeleton ns ms \<Longrightarrow> j < length ns \<Longrightarrow> in_subtree ms p j \<longleftrightarrow> in_subtree ns p j"
  by (auto simp: in_subtree_def same_skeleton_fields)

lemma same_skeleton_nested: "same_skeleton ns ms \<Longrightarrow> nested ns \<Longrightarrow> nested ms"
  using same_skeleton_fields(7) same_skeleton_subtree
  by (metis nested_def same_skeleton_def)

lemma same_skeleton_levels:
  assumes "same_skeleton ns ms" and "links_ok ns roots" and "levels_ok ns"
  shows "levels_ok ms"
proof -
  have "level_ok ms (ms ! i)" if i: "i < length ns" for i
  proof -
    have "\<forall>p. node_parent (ns ! i) = Some p \<longrightarrow> p < length ns" using assms(2) i by (fastforce simp: links_ok_def)
    then show ?thesis using assms(3) i same_skeleton_fields [OF assms(1)]
      by (auto simp: levels_ok_def level_ok_def split: option.splits)
  qed
  then show ?thesis using assms(1) by (simp add: levels_ok_def same_skeleton_def)
qed

lemma same_skeleton_lines:
  assumes "same_skeleton ns ms" and "lines_ordered v ns"
  shows "lines_ordered v ms"
  using assms same_skeleton_fields [OF assms(1)] by (simp add: lines_ordered_def same_skeleton_def)

lemma in_subtree_mono: "in_subtree ns p k \<Longrightarrow> j \<le> k \<Longrightarrow> in_subtree ns p j"
  by (auto simp: in_subtree_def)

lemma in_subtree_trans:
  assumes "in_subtree ns p c" and "p \<le> c" and "in_subtree ns c j"
  shows "in_subtree ns p j"
  unfolding in_subtree_def
proof (intro allI impI)
  fix k assume k: "p < k \<and> k \<le> j"
  show "\<exists>q. node_parent (ns ! k) = Some q \<and> p \<le> q"
  proof (cases "k \<le> c")
    case True
    then show ?thesis using assms(1) k by (auto simp: in_subtree_def)
  next
    case False
    then have "c < k" by simp
    then obtain q where "node_parent (ns ! k) = Some q" "c \<le> q"
      using assms(3) k unfolding in_subtree_def by blast
    then show ?thesis using assms(2) by auto
  qed
qed

text \<open>The children of a section.\<close>

lemma links_children:
  assumes "links_ok ns roots" and "i < length ns"
  shows "\<forall>c\<in>set (node_children (ns ! i)). i < c \<and> c < length ns \<and> node_parent (ns ! c) = Some i"
    "sorted_wrt (<) (node_children (ns ! i))"
proof -
  have e: "node_children (ns ! i) = filter (\<lambda>j. node_parent (ns ! j) = Some i) [0..<length ns]"
    using assms by (simp add: links_ok_def)
  show "\<forall>c\<in>set (node_children (ns ! i)). i < c \<and> c < length ns \<and> node_parent (ns ! c) = Some i"
    using assms unfolding e by (auto simp: links_ok_def)
  show "sorted_wrt (<) (node_children (ns ! i))"
    unfolding e by (intro sorted_wrt_filter) (simp add: strict_sorted_iff [symmetric])
qed

text \<open>Once the later nodes have their extent, a section gets its own from its last child.\<close>

lemma section_extent:
  assumes links: "links_ok ns roots" and nest: "nested ns" and lines: "lines_ordered v ns"
    and i: "i < length ns" and later: "\<forall>j<length ns. i < j \<longrightarrow> extent_ok v ns j"
  shows "is_valid_for (range_new (line_lo ns i) (range_end (body_range_of ns i))) v"
    "is_valid_for (body_range_of ns i) v" "line_hi ns i \<le> range_end (body_range_of ns i)"
    "\<forall>k<length ns. i < k \<and> \<not> in_subtree ns i k \<longrightarrow> range_end (body_range_of ns i) \<le> line_lo ns k"
proof -
  note ch = links_children [OF links i]
  have li: "line_lo ns i < line_hi ns i" "is_char_boundary v (line_lo ns i)" "is_char_boundary v (line_hi ns i)"
    "\<forall>k<length ns. i < k \<longrightarrow> line_hi ns i \<le> line_lo ns k"
    using lines i by (auto simp: lines_ordered_def is_valid_for_def)
  have "is_valid_for (range_new (line_lo ns i) (range_end (body_range_of ns i))) v \<and>
    is_valid_for (body_range_of ns i) v \<and> line_hi ns i \<le> range_end (body_range_of ns i) \<and>
    (\<forall>k<length ns. i < k \<and> \<not> in_subtree ns i k \<longrightarrow> range_end (body_range_of ns i) \<le> line_lo ns k)"
  proof (cases "node_children (ns ! i)")
    case Nil
    then show ?thesis using li boundary_le [of v] by (auto simp: body_range_of_def is_valid_for_def)
  next
    case (Cons c cs)
    let ?l = "last (c # cs)"
    have c: "i < c" "c < length ns" using ch(1) Cons by auto
    have "?l \<in> set (node_children (ns ! i))" unfolding Cons by (rule last_in_set) simp
    then have l: "i < ?l" "?l < length ns" "node_parent (ns ! ?l) = Some i" using ch(1) by auto
    have cl: "c \<le> ?l" using ch(2) last_in_set [of cs] unfolding Cons by (cases "cs = []") (auto simp: less_imp_le)
    have e: "extent_ok v ns ?l" using later l by blast
    have b: "is_char_boundary v (line_lo ns c)" "line_lo ns c < line_hi ns c" "line_lo ns ?l < line_hi ns ?l"
      using lines c(2) l(2) by (auto simp: lines_ordered_def is_valid_for_def)
    have "line_lo ns c \<le> line_lo ns ?l"
    proof (cases "c = ?l")
      case False
      then have "c < ?l" using cl by simp
      then have "line_hi ns c \<le> line_lo ns ?l" using lines c(2) l(2) unfolding lines_ordered_def by blast
      then show ?thesis using b(2) by simp
    qed simp
    then have le: "line_lo ns c < span_hi ns ?l" "line_hi ns i \<le> line_lo ns c"
      using e b(3) li(4) c unfolding extent_ok_def by auto
    have sub: "in_subtree ns i ?l" using nest l by (auto simp: nested_def)
    have "span_hi ns ?l \<le> line_lo ns k" if k: "k < length ns" "i < k" "\<not> in_subtree ns i k" for k
    proof -
      have "?l < k" using sub k in_subtree_mono by (metis not_le)
      moreover have "\<not> in_subtree ns ?l k" using in_subtree_trans [OF sub] l(1) k(3) by (meson less_imp_le)
      ultimately show ?thesis using e k(1) unfolding extent_ok_def by blast
    qed
    moreover have "is_char_boundary v (span_hi ns ?l)" using e by (simp add: extent_ok_def)
    moreover have "body_range_of ns i = range_new (line_lo ns c) (span_hi ns ?l)"
      using Cons by (simp add: body_range_of_def)
    ultimately show ?thesis using le li(1,2) b(1) boundary_le [of v "span_hi ns ?l"] by (simp add: is_valid_for_def)
  qed
  then show "is_valid_for (range_new (line_lo ns i) (range_end (body_range_of ns i))) v"
    "is_valid_for (body_range_of ns i) v" "line_hi ns i \<le> range_end (body_range_of ns i)"
    "\<forall>k<length ns. i < k \<and> \<not> in_subtree ns i k \<longrightarrow> range_end (body_range_of ns i) \<le> line_lo ns k" by simp_all
qed

lemma try_all_Ret: "(\<And>x. x \<in> set xs \<Longrightarrow> f x = Ret (P x)) \<Longrightarrow> try_all f xs = Ret (list_all P xs)"
  by (induction xs) auto

text \<open>A section whose body holds nothing but trivia, and the warning it gets.\<close>

definition section_empty :: "raw_node list \<Rightarrow> nat \<Rightarrow> bool" where
  "section_empty ns i \<longleftrightarrow> list_all (\<lambda>c. node_kind (ns ! c) \<in> {Blank, Comment}) (node_children (ns ! i))"

definition empty_warning :: "raw_node list \<Rightarrow> nat \<Rightarrow> raw_diagnostic" where
  "empty_warning ns i = \<lparr>diag_code = EmptySection, diag_severity = SevWarning, diag_message = MsgEmptySection,
     diag_span = the (header_span (ns ! i)), diag_related = []\<rparr>"

lemma finalize_section_Ret:
  assumes ok: "mapped_source_ok src" and links: "links_ok ns roots" and nest: "nested ns"
    and lines: "lines_ordered (ms_virtual src) ns" and i: "i < length ns"
    and later: "\<forall>j<length ns. i < j \<longrightarrow> extent_ok (ms_virtual src) ns j"
    and header: "header_span (ns ! i) \<noteq> None" and ns: "ns = tree_nodes t"
  shows "\<exists>sp bsp. finalize_section src i t =
      Ret (t\<lparr>tree_nodes := ns[i := (ns ! i)\<lparr>node_span := sp, body_span := Some bsp\<rparr>],
             tree_diagnostics := tree_diagnostics t @ (if section_empty ns i then [empty_warning ns i] else [])\<rparr>) \<and>
    span_range sp = range_new (line_lo ns i) (range_end (body_range_of ns i)) \<and>
    span_range bsp = body_range_of ns i"
proof -
  note ch = links_children [OF links i] and e = section_extent [OF links nest lines i later]
  obtain sp where sp: "mapped src (range_new (line_lo ns i) (range_end (body_range_of ns i))) = Ret sp"
    "span_range sp = range_new (line_lo ns i) (range_end (body_range_of ns i))"
    using mapped_Ret [OF ok e(1)] .
  obtain bsp where bsp: "mapped src (body_range_of ns i) = Ret bsp" "span_range bsp = body_range_of ns i"
    using mapped_Ret [OF ok e(2)] .
  have n: "node_at ns j = Ret (ns ! j)" if "j < length ns" for j using that by (simp add: node_at_def)
  have b: "(case node_children (ns ! i) of
         [] \<Rightarrow> Ret (range_empty (line_hi ns i))
       | first # _ \<Rightarrow>
           obind (node_at ns first) (\<lambda>fnode.
           obind (node_at ns (last (node_children (ns ! i)))) (\<lambda>lnode.
           Ret (range_new (range_start (span_range (line_span (node_line fnode))))
                  (range_end (span_range (node_span lnode))))))) = (Ret (body_range_of ns i) :: text_range may_panic)"
  proof (cases "node_children (ns ! i)")
    case (Cons c cs)
    have "c < length ns" "last (node_children (ns ! i)) < length ns"
      using ch(1) Cons last_in_set [of "node_children (ns ! i)"] by auto
    then show ?thesis using Cons n by (simp add: body_range_of_def)
  qed (simp add: body_range_of_def)
  have em: "try_all (\<lambda>c. obind (node_at ns c) (\<lambda>n. Ret (node_kind n \<in> {Blank, Comment}))) (node_children (ns ! i)) =
    Ret (section_empty ns i)"
    unfolding section_empty_def by (rule try_all_Ret) (use ch(1) n in auto)
  obtain h where h: "header_span (ns ! i) = Some h" using header by auto
  have "finalize_section src i t =
      Ret (t\<lparr>tree_nodes := ns[i := (ns ! i)\<lparr>node_span := sp, body_span := Some bsp\<rparr>],
             tree_diagnostics := tree_diagnostics t @ (if section_empty ns i then [empty_warning ns i] else [])\<rparr>)"
    unfolding finalize_section_def ns [symmetric] n [OF i] obind.simps Let_def b sp(1) bsp(1) em h expect_simps
    by (simp add: empty_warning_def h)
  then show ?thesis using sp(2) bsp(2) by blast
qed

text \<open>Where the closing loop stands when the sections from \<open>m\<close> on are closed.\<close>

definition closed_from ::
    "str \<Rightarrow> raw_node list \<Rightarrow> raw_tree \<Rightarrow> nat \<Rightarrow> raw_tree \<Rightarrow> bool" where
  "closed_from v ns t0 m t \<longleftrightarrow>
     same_skeleton ns (tree_nodes t) \<and> tree_roots t = tree_roots t0 \<and> tree_indentation t = tree_indentation t0 \<and>
     (\<forall>j<length ns. (j < m \<or> node_kind (ns ! j) \<noteq> Section) \<longrightarrow> tree_nodes t ! j = ns ! j) \<and>
     (\<forall>j<length ns. m \<le> j \<longrightarrow> extent_ok v (tree_nodes t) j \<and>
        (node_kind (ns ! j) = Section \<longrightarrow> section_closed (tree_nodes t) j)) \<and>
     tree_diagnostics t = tree_diagnostics t0 @
       map (empty_warning ns) (rev (filter (\<lambda>i. node_kind (ns ! i) = Section \<and> section_empty ns i) [m..<length ns]))"

lemma skeleton_empty:
  assumes "same_skeleton ns ms" and "links_ok ns roots" and "i < length ns"
  shows "section_empty ms i = section_empty ns i" "empty_warning ms i = empty_warning ns i"
proof -
  have "list_all (\<lambda>c. node_kind (ms ! c) \<in> {Blank, Comment}) cs = list_all (\<lambda>c. node_kind (ns ! c) \<in> {Blank, Comment}) cs"
    if "\<forall>c\<in>set cs. c < length ns" for cs
    using that same_skeleton_fields(2) [OF assms(1)] by (auto simp: list_all_iff)
  then show "section_empty ms i = section_empty ns i"
    using links_children(1) [OF assms(2,3)] same_skeleton_fields(8) [OF assms(1,3)] by (simp add: section_empty_def)
  show "empty_warning ms i = empty_warning ns i"
    using same_skeleton_fields(4) [OF assms(1,3)] by (simp add: empty_warning_def)
qed

lemma same_skeleton_refl: "same_skeleton ns ns"
  unfolding same_skeleton_def
proof (intro conjI allI impI)
  fix i
  show "\<exists>s b. ns ! i = (ns ! i)\<lparr>node_span := s, body_span := b\<rparr>"
    by (intro exI [of _ "node_span (ns ! i)"] exI [of _ "body_span (ns ! i)"]) simp
qed simp

text \<open>Closing one section leaves what lies after it alone.\<close>

lemma close_frame:
  assumes links: "links_ok ns roots" and k: "k < length ns"
    and ms: "ms = ns[k := (ns ! k)\<lparr>node_span := s, body_span := b\<rparr>]"
  shows "k < j \<Longrightarrow> j < length ns \<Longrightarrow> extent_ok v ns j \<Longrightarrow> extent_ok v ms j"
    and "k \<le> j \<Longrightarrow> j < length ns \<Longrightarrow> body_range_of ms j = body_range_of ns j"
proof -
  have sk: "same_skeleton ns ms"
    unfolding ms by (rule same_skeleton_update [OF same_skeleton_refl k])
  note f = same_skeleton_fields [OF sk]
  have len: "length ms = length ns" by (simp add: ms)
  show "extent_ok v ms j" if "k < j" "j < length ns" "extent_ok v ns j"
    using that f(3) same_skeleton_subtree [OF sk] unfolding extent_ok_def len by (simp add: ms)
  show "body_range_of ms j = body_range_of ns j" if "k \<le> j" "j < length ns"
  proof (cases "node_children (ns ! j)")
    case Nil
    then show ?thesis using f(3,8) that(2) by (simp add: body_range_of_def)
  next
    case (Cons c cs)
    have "\<forall>x\<in>set (c # cs). j < x \<and> x < length ns" using links_children(1) [OF links that(2)] Cons by simp
    moreover have "last (c # cs) \<in> set (c # cs)" by (rule last_in_set) simp
    ultimately have l: "k \<noteq> last (c # cs)" "c < length ns" using that(1) by auto
    then have "ms ! last (c # cs) = ns ! last (c # cs)" by (simp add: ms)
    then show ?thesis using Cons f(3,8) that(2) l(2) by (simp add: body_range_of_def)
  qed
qed

lemma closed_step:
  assumes ok: "mapped_source_ok src" and links: "links_ok ns roots" and nest: "nested ns"
    and lines: "lines_ordered (ms_virtual src) ns" and k: "k < length ns"
    and inv: "closed_from (ms_virtual src) ns t0 (Suc k) t"
    and sec: "node_kind (ns ! k) = Section" and header: "header_span (ns ! k) \<noteq> None"
  shows "\<exists>t'. finalize_section src k t = Ret t' \<and> closed_from (ms_virtual src) ns t0 k t'"
proof -
  let ?v = "ms_virtual src" and ?ms = "tree_nodes t"
  have sk: "same_skeleton ns ?ms" using inv by (simp add: closed_from_def)
  have len: "length ?ms = length ns" using sk by (simp add: same_skeleton_def)
  note f = same_skeleton_fields [OF sk]
  note L = same_skeleton_links [OF sk links] and N = same_skeleton_nested [OF sk nest]
    and O = same_skeleton_lines [OF sk lines]
  have k': "k < length ?ms" using k len by simp
  have later: "\<forall>j<length ?ms. k < j \<longrightarrow> extent_ok ?v ?ms j"
    using inv len by (auto simp: closed_from_def Suc_le_eq)
  obtain sp bsp where fin: "finalize_section src k t =
      Ret (t\<lparr>tree_nodes := ?ms[k := (?ms ! k)\<lparr>node_span := sp, body_span := Some bsp\<rparr>],
             tree_diagnostics := tree_diagnostics t @ (if section_empty ?ms k then [empty_warning ?ms k] else [])\<rparr>)"
    "span_range sp = range_new (line_lo ?ms k) (range_end (body_range_of ?ms k))"
    "span_range bsp = body_range_of ?ms k"
    using finalize_section_Ret [OF ok L N O k' later _ refl] header f(4) [OF k] by auto
  define ms' where "ms' = ?ms[k := (?ms ! k)\<lparr>node_span := sp, body_span := Some bsp\<rparr>]"
  note fr = close_frame [OF L k' ms'_def]
  have sk': "same_skeleton ns ms'" unfolding ms'_def by (rule same_skeleton_update [OF sk k])
  have len': "length ms' = length ?ms" by (simp add: ms'_def)
  note e = section_extent [OF L N O k' later]
  have m: "ms' ! k = (?ms ! k)\<lparr>node_span := sp, body_span := Some bsp\<rparr>" using k' by (simp add: ms'_def)
  have lo: "line_lo ms' j = line_lo ?ms j" "line_hi ms' j = line_hi ?ms j" if "j < length ns" for j
    using same_skeleton_fields(3) [OF sk' that] f(3) [OF that] by simp_all
  have "extent_ok ?v ms' k"
    unfolding extent_ok_def len' len
    using e(1,3,4) fin(2) k m lo same_skeleton_subtree [OF sk'] same_skeleton_subtree [OF sk] len
    by (auto simp: is_valid_for_def)
  moreover have "section_closed ms' k"
    unfolding section_closed_def fr(2) [OF le_refl k'] m using fin(2,3) lo [OF k] m by auto
  moreover have "section_closed ms' j" if "k < j" "j < length ns" "section_closed ?ms j" for j
    using that fr(2) [of j] len lo [OF that(2)] by (auto simp: section_closed_def ms'_def)
  ultimately have "\<forall>j<length ns. k \<le> j \<longrightarrow> extent_ok ?v ms' j \<and>
      (node_kind (ns ! j) = Section \<longrightarrow> section_closed ms' j)"
    using inv fr(1) len sec unfolding closed_from_def by (metis Suc_leI le_eq_less_or_eq)
  moreover have "\<forall>j<length ns. (j < k \<or> node_kind (ns ! j) \<noteq> Section) \<longrightarrow> ms' ! j = ns ! j"
  proof (intro allI impI)
    fix j assume j: "j < length ns" "j < k \<or> node_kind (ns ! j) \<noteq> Section"
    then have "j \<noteq> k" using sec by auto
    then show "ms' ! j = ns ! j" using inv j by (auto simp: closed_from_def ms'_def)
  qed
  moreover have "[k..<length ns] = k # [Suc k..<length ns]" using k by (simp add: upt_conv_Cons)
  ultimately have "closed_from ?v ns t0 k
      (t\<lparr>tree_nodes := ms', tree_diagnostics := tree_diagnostics t @ (if section_empty ?ms k then [empty_warning ?ms k] else [])\<rparr>)"
    using inv sk' sec skeleton_empty [OF sk links k] by (auto simp: closed_from_def)
  then show ?thesis using fin(1) by (simp add: ms'_def)
qed

lemma closed_skip:
  assumes k: "k < length ns" and lines: "lines_ordered v ns" and fresh: "fresh_node (ns ! k)"
    and inv: "closed_from v ns t0 (Suc k) t" and sec: "node_kind (ns ! k) \<noteq> Section"
  shows "closed_from v ns t0 k t"
proof -
  have sk: "same_skeleton ns (tree_nodes t)" using inv by (simp add: closed_from_def)
  then have len: "length (tree_nodes t) = length ns" by (simp add: same_skeleton_def)
  have "tree_nodes t ! k = ns ! k" using inv k by (simp add: closed_from_def)
  then have "node_span (tree_nodes t ! k) = line_span (node_line (tree_nodes t ! k))"
    using fresh by (simp add: fresh_node_def)
  then have "extent_ok v (tree_nodes t) k"
    using same_skeleton_lines [OF sk lines] k len by (auto simp: extent_ok_def lines_ordered_def is_valid_for_def)
  moreover have "[k..<length ns] = k # [Suc k..<length ns]" using k by (simp add: upt_conv_Cons)
  ultimately show ?thesis using inv sec unfolding closed_from_def
    by (auto simp: less_Suc_eq) (metis Suc_leI le_eq_less_or_eq)+
qed

lemma close_all:
  assumes ok: "mapped_source_ok src" and links: "links_ok ns roots" and nest: "nested ns"
    and lines: "lines_ordered (ms_virtual src) ns" and fresh: "\<forall>i<length ns. fresh_node (ns ! i)"
    and header: "\<forall>i<length ns. node_kind (ns ! i) = Section \<longrightarrow> header_span (ns ! i) \<noteq> None"
  shows "m \<le> length ns \<Longrightarrow> closed_from (ms_virtual src) ns t0 m t \<Longrightarrow>
    \<exists>t'. try_for (finalize_section src) (rev (filter (\<lambda>i. node_kind (ns ! i) = Section) [0..<m])) t = Ret t' \<and>
      closed_from (ms_virtual src) ns t0 0 t'"
proof (induction m arbitrary: t)
  case (Suc k)
  then have k: "k < length ns" by simp
  show ?case
  proof (cases "node_kind (ns ! k) = Section")
    case True
    then obtain t' where "finalize_section src k t = Ret t'" "closed_from (ms_virtual src) ns t0 k t'"
      using closed_step [OF ok links nest lines k Suc.prems(2)] header k by blast
    then show ?thesis using True Suc.IH [of t'] k by simp
  next
    case False
    then have "closed_from (ms_virtual src) ns t0 k t"
      using closed_skip [OF k lines _ Suc.prems(2)] fresh k by blast
    then show ?thesis using False Suc.IH [of t] k by simp
  qed
qed simp

subsection \<open>What the whole parse yields\<close>

definition tree_facts :: "mapped_source \<Rightarrow> raw_tree \<Rightarrow> bool" where
  "tree_facts src t \<longleftrightarrow>
     (let ns = tree_nodes t; phs = physical_lines (ms_virtual src) in
      links_ok ns (tree_roots t) \<and> nested ns \<and> levels_ok ns \<and> lines_ordered (ms_virtual src) ns \<and>
      style_ok (tree_indentation t) \<and> length ns = length phs \<and>
      (\<forall>i<length ns. node_of_line src (phs ! i) (ns ! i) \<and> indent_ok (tree_indentation t) (ns ! i) \<and>
         reported (tree_diagnostics t) (ns ! i) \<and> extent_ok (ms_virtual src) ns i \<and>
         (node_kind (ns ! i) = Section \<longrightarrow> section_closed ns i) \<and>
         (node_kind (ns ! i) \<noteq> Section \<longrightarrow> fresh_node (ns ! i))) \<and>
      sorted (map diagnostic_key (tree_diagnostics t)) \<and>
      mset (filter (\<lambda>d. diag_code d = EmptySection) (tree_diagnostics t)) =
        image_mset (empty_warning ns) (mset_set {i. i < length ns \<and> node_kind (ns ! i) = Section \<and> section_empty ns i}))"

lemma close_block_comment_ok:
  assumes ok: "mapped_source_ok src" and inv: "parser_ok src phs st"
  shows "\<exists>st'. close_block_comment src st = Ret st' \<and> parser_ok src phs st'"
proof (cases "block_comment_start st")
  case None
  then show ?thesis using inv by (simp add: close_block_comment_def)
next
  case (Some start)
  have "is_valid_for (range_empty (length (ms_virtual src))) (ms_virtual src)" by (simp add: is_valid_for_def)
  then obtain eof where "mapped src (range_empty (length (ms_virtual src))) = Ret eof"
    using mapped_Ret [OF ok] by blast
  moreover have "parser_ok src phs (st\<lparr>block_comment_start := None\<rparr>)" using inv by (simp add: parser_ok_def)
  ultimately show ?thesis using Some parser_ok_diagnostic by (simp add: close_block_comment_def)
qed

lemma nodes_lines_ordered:
  assumes "lines_from (ms_virtual src) 0 0 phs" and "nodes_ok src phs ind ds ns"
  shows "lines_ordered (ms_virtual src) ns"
proof -
  have e: "span_range (line_span (node_line (ns ! i))) = full_range (phs ! i)" "is_valid_for (full_range (phs ! i)) (ms_virtual src)"
    if "i < length ns" for i
    using assms(2) that by (auto simp: nodes_ok_def node_of_line_def line_built_def)
  show ?thesis using e lines_from_ordered [OF assms(1)] assms(2) by (simp add: lines_ordered_def nodes_ok_def)
qed

lemma parse_raw_tree_facts:
  assumes ok: "mapped_source_ok src" and small: "length (ms_virtual src) < u32_max"
  shows "\<exists>t. parse_raw_tree src opts = Ret t \<and> tree_facts src t"
proof -
  let ?v = "ms_virtual src" and ?phs = "physical_lines (ms_virtual src)"
  obtain st where st: "try_for (parse_line src opts) ?phs raw_parser_new = Ret st" "parser_ok src ?phs st"
    using parse_lines_ok [OF ok small physical_lines_from boundary_0 parser_ok_new] by auto
  obtain st' where st': "close_block_comment src st = Ret st'" "parser_ok src ?phs st'"
    using close_block_comment_ok [OF ok st(2)] by blast
  define t0 where "t0 = tree st'"
  define ns where "ns = tree_nodes t0"
  have i: "links_ok ns (tree_roots t0)" "nested ns" "levels_ok ns" "style_ok (tree_indentation t0)"
    "nodes_ok src ?phs (tree_indentation t0) (tree_diagnostics t0) ns"
    "\<forall>d\<in>set (tree_diagnostics t0). diag_code d \<noteq> EmptySection"
    using st'(2) by (simp_all add: parser_ok_def Let_def t0_def ns_def)
  have lines: "lines_ordered ?v ns" using nodes_lines_ordered [OF physical_lines_from i(5)] .
  have fresh: "\<forall>i<length ns. fresh_node (ns ! i)"
    and header: "\<forall>i<length ns. node_kind (ns ! i) = Section \<longrightarrow> header_span (ns ! i) \<noteq> None"
    using i(5) by (auto simp: nodes_ok_def node_of_line_def)
  have ids: "map node_id (filter (\<lambda>n. node_kind n = Section) ns) = filter (\<lambda>i. node_kind (ns ! i) = Section) [0..<length ns]"
  proof -
    have "filter (\<lambda>n. node_kind n = Section) ns = map ((!) ns) (filter (\<lambda>i. node_kind (ns ! i) = Section) [0..<length ns])"
      using filter_map [of "\<lambda>n. node_kind n = Section" "(!) ns" "[0..<length ns]"] by (simp add: map_nth comp_def)
    then show ?thesis using i(1) by (auto simp: links_ok_def intro!: map_idI)
  qed
  have "closed_from ?v ns t0 (length ns) t0"
    using same_skeleton_refl by (simp add: closed_from_def ns_def)
  then obtain t where t: "try_for (finalize_section src) (rev (filter (\<lambda>i. node_kind (ns ! i) = Section) [0..<length ns])) t0 = Ret t"
    "closed_from ?v ns t0 0 t"
    using close_all [OF ok i(1,2) lines fresh header] by blast
  define t' where "t' = t\<lparr>tree_diagnostics := sort_key diagnostic_key (tree_diagnostics t)\<rparr>"
  have run: "parse_raw_tree src opts = Ret t'"
    unfolding parse_raw_tree_def st(1) obind.simps st'(1) finalize_sections_def
    by (simp add: t(1) ids t0_def [symmetric] ns_def [symmetric] t'_def)
  have c: "same_skeleton ns (tree_nodes t)" "tree_roots t = tree_roots t0" "tree_indentation t = tree_indentation t0"
    "\<forall>j<length ns. node_kind (ns ! j) \<noteq> Section \<longrightarrow> tree_nodes t ! j = ns ! j"
    "\<forall>j<length ns. extent_ok ?v (tree_nodes t) j \<and> (node_kind (ns ! j) = Section \<longrightarrow> section_closed (tree_nodes t) j)"
    "tree_diagnostics t = tree_diagnostics t0 @
       map (empty_warning ns) (rev (filter (\<lambda>i. node_kind (ns ! i) = Section \<and> section_empty ns i) [0..<length ns]))"
    using t(2) by (simp_all add: closed_from_def)
  note f = same_skeleton_fields [OF c(1)]
  have len: "length (tree_nodes t) = length ns" using c(1) by (simp add: same_skeleton_def)
  let ?empty = "\<lambda>ns i. node_kind (ns ! i) = Section \<and> section_empty ns i"
  have old: "filter (\<lambda>d. diag_code d = EmptySection) (tree_diagnostics t0) = []" using i(6) by (simp add: filter_empty_conv)
  have new: "filter (\<lambda>d. diag_code d = EmptySection) (map (empty_warning ns) js) = map (empty_warning ns) js" for js
    by (simp add: filter_map comp_def empty_warning_def)
  have "{i. i < length ns \<and> ?empty ns i} = {i. i < length ns \<and> ?empty (tree_nodes t) i}"
    using skeleton_empty(1) [OF c(1) i(1)] f(2) by auto
  moreover have "mset (filter (?empty ns) [0..<length ns]) = mset_set {i. i < length ns \<and> ?empty ns i}"
    by (simp add: mset_filter [symmetric] atLeastLessThan_def)
  ultimately have ds: "mset (filter (\<lambda>d. diag_code d = EmptySection) (tree_diagnostics t)) =
      image_mset (empty_warning ns) (mset_set {i. i < length ns \<and> ?empty (tree_nodes t) i})"
    unfolding c(6) filter_append old new by simp
  also have "\<dots> = image_mset (empty_warning (tree_nodes t)) (mset_set {i. i < length ns \<and> ?empty (tree_nodes t) i})"
    by (rule image_mset_cong) (use skeleton_empty(2) [OF c(1) i(1)] in simp)
  finally have ds': "mset (filter (\<lambda>d. diag_code d = EmptySection) (tree_diagnostics t)) = \<dots>" .
  have node: "node_of_line src (?phs ! j) (tree_nodes t ! j) \<and> indent_ok (tree_indentation t) (tree_nodes t ! j) \<and>
      reported (tree_diagnostics t) (tree_nodes t ! j)" if "j < length ns" for j
    using i(5) that f [OF that] c(3,6)
    by (auto simp: nodes_ok_def node_of_line_def indent_ok_def reported_def) blast
  have "tree_facts src t'"
    unfolding tree_facts_def Let_def
    using same_skeleton_links [OF c(1) i(1)] same_skeleton_nested [OF c(1) i(2)]
      same_skeleton_levels [OF c(1) i(1,3)] same_skeleton_lines [OF c(1) lines] i(4,5) c node len ds' f(2) fresh
    by (auto simp: t'_def nodes_ok_def reported_def)
  then show ?thesis using run by blast
qed

lemma tree_factsD:
  assumes "tree_facts src t"
  defines "ns \<equiv> tree_nodes t"
  shows "links_ok ns (tree_roots t)" "nested ns" "levels_ok ns" "lines_ordered (ms_virtual src) ns"
    "style_ok (tree_indentation t)" "length ns = length (physical_lines (ms_virtual src))"
    "\<And>i. i < length ns \<Longrightarrow> node_of_line src (physical_lines (ms_virtual src) ! i) (ns ! i)"
    "\<And>i. i < length ns \<Longrightarrow> indent_ok (tree_indentation t) (ns ! i)"
    "\<And>i. i < length ns \<Longrightarrow> reported (tree_diagnostics t) (ns ! i)"
    "\<And>i. i < length ns \<Longrightarrow> extent_ok (ms_virtual src) ns i"
    "\<And>i. i < length ns \<Longrightarrow> node_kind (ns ! i) = Section \<Longrightarrow> section_closed ns i"
    "\<And>i. i < length ns \<Longrightarrow> node_kind (ns ! i) \<noteq> Section \<Longrightarrow> fresh_node (ns ! i)"
    "sorted (map diagnostic_key (tree_diagnostics t))"
    "mset (filter (\<lambda>d. diag_code d = EmptySection) (tree_diagnostics t)) =
        image_mset (empty_warning ns) (mset_set {i. i < length ns \<and> node_kind (ns ! i) = Section \<and> section_empty ns i})"
  using assms(1) unfolding tree_facts_def Let_def ns_def [symmetric] by simp_all

text \<open>A node written out again: indentation, code, and the trivia behind it.\<close>

definition node_source :: "mapped_source \<Rightarrow> raw_node \<Rightarrow> str" where
  "node_source src n =
     (let l = node_line n; a = range_end (span_range (trivia_span (line_indentation l))) in
      trivia_text (line_indentation l) @ take (trailing_start l - a) (drop a (ms_virtual src)) @
      concat (map trivia_text (trailing_trivia l)))"

lemma node_source_line:
  assumes "node_of_line src ph n"
  shows "node_source src n = line_text (ms_virtual src) ph"
    "raw_text (node_line n) @ line_ending_str (raw_ending (node_line n)) = line_text (ms_virtual src) ph"
proof -
  let ?v = "ms_virtual src"
  define content where "content = take (range_len (content_range ph)) (drop (range_start (content_range ph)) ?v)"
  obtain hc where b: "line_built ph content hc (node_line n)" and v: "is_valid_for (content_range ph) ?v"
    using assms by (auto simp: node_of_line_def content_def)
  let ?s = "range_start (content_range ph)" and ?a = "leading_whitespace_end content"
  obtain m where m: "trailing_start (node_line n) = ?s + m" "is_char_boundary content m" "?a \<le> m"
    "concat (map trivia_text (trailing_trivia (node_line n))) = drop m content @ line_ending_str (pl_ending ph)"
    using b by (auto simp: line_built_def)
  have i: "trivia_text (line_indentation (node_line n)) = take ?a content"
    "range_end (span_range (trivia_span (line_indentation (node_line n)))) = ?s + ?a"
    using b by (simp_all add: line_built_def)
  have len: "m \<le> range_len (content_range ph)"
    using boundary_le [OF m(2)] v by (simp add: content_def is_valid_for_def range_len_def)
  have "take (m - ?a) (drop (?s + ?a) ?v) = take (m - ?a) (drop ?a content)"
    unfolding content_def using take_drop_take_drop [of "leading_whitespace_end content" "m - ?a" "range_len (content_range ph)" ?s ?v]
      m(3) len by (simp add: content_def)
  moreover have "take ?a content @ take (m - ?a) (drop ?a content) = take m content"
    using take_add [of ?a "m - ?a" content] m(3) by simp
  ultimately have "node_source src n = content @ line_ending_str (pl_ending ph)"
    using m i by (simp add: node_source_def Let_def) (metis append.assoc append_take_drop_id)
  then show "node_source src n = line_text ?v ph" by (simp add: line_text_def content_def)
  show "raw_text (node_line n) @ line_ending_str (raw_ending (node_line n)) = line_text ?v ph"
    using b by (simp add: line_built_def line_text_def content_def)
qed

lemma tree_source:
  assumes "tree_facts src t"
  shows "concat (map (node_source src) (tree_nodes t)) = ms_virtual src"
    "concat (map (\<lambda>n. raw_text (node_line n) @ line_ending_str (raw_ending (node_line n))) (tree_nodes t)) = ms_virtual src"
proof -
  let ?phs = "physical_lines (ms_virtual src)"
  note f = tree_factsD [OF assms]
  have "map (node_source src) (tree_nodes t) = map (line_text (ms_virtual src)) ?phs"
    by (rule nth_equalityI) (use f(6,7) node_source_line in auto)
  then show "concat (map (node_source src) (tree_nodes t)) = ms_virtual src"
    using lines_from_text [OF physical_lines_from, of "ms_virtual src"] by simp
  have "map (\<lambda>n. raw_text (node_line n) @ line_ending_str (raw_ending (node_line n))) (tree_nodes t) =
    map (line_text (ms_virtual src)) ?phs"
    by (rule nth_equalityI) (use f(6,7) node_source_line in auto)
  then show "concat (map (\<lambda>n. raw_text (node_line n) @ line_ending_str (raw_ending (node_line n))) (tree_nodes t)) = ms_virtual src"
    using lines_from_text [OF physical_lines_from, of "ms_virtual src"] by simp
qed

lemma strict_le_last: "sorted_wrt (<) xs \<Longrightarrow> x \<in> set xs \<Longrightarrow> x \<le> last xs" for x :: nat
  by (induction xs) (auto simp: less_imp_le)

lemma tree_spans:
  assumes "tree_facts src t"
  defines "ns \<equiv> tree_nodes t"
  assumes c: "c < length ns" and p: "node_parent (ns ! c) = Some p"
  shows "\<exists>b. body_span (ns ! p) = Some b \<and> range_contains (span_range b) (span_range (node_span (ns ! c))) \<and>
    range_contains (span_range (node_span (ns ! p))) (span_range b)"
proof -
  note f = tree_factsD [OF assms(1), folded ns_def]
  have pc: "p < c" "node_kind (ns ! p) = Section" using f(1) c p by (auto simp: links_ok_def)
  then have pl: "p < length ns" using c by simp
  obtain b where b: "body_span (ns ! p) = Some b" "span_range b = body_range_of ns p"
    "span_range (node_span (ns ! p)) = range_new (line_lo ns p) (range_end (span_range b))"
    using f(11) [OF pl pc(2)] by (auto simp: section_closed_def)
  note ch = links_children [OF f(1) pl]
  have "c \<in> set (node_children (ns ! p))" using f(1) c p pl by (simp add: links_ok_def)
  then obtain d ds where cs: "node_children (ns ! p) = d # ds" "c = d \<or> c \<in> set ds" by (cases "node_children (ns ! p)") auto
  let ?l = "last (d # ds)"
  have "?l \<in> set (node_children (ns ! p))" unfolding cs(1) by (rule last_in_set) simp
  then have l: "p < ?l" "?l < length ns" "node_parent (ns ! ?l) = Some p" using ch(1) by auto
  have d: "p < d" "d < length ns" using ch(1) cs by auto
  have dc: "d \<le> c" using ch(2) cs by auto
  have cl: "c \<le> ?l"
    using strict_le_last [OF ch(2) [unfolded cs(1)], of c] cs(2) by simp
  have ord: "line_lo ns i \<le> line_lo ns j" if "i \<le> j" "j < length ns" for i j
  proof (cases "i = j")
    case False
    then have ij: "i < j" "i < length ns" using that by simp_all
    have "line_lo ns i < line_hi ns i" "line_hi ns i \<le> line_lo ns j"
      using f(4) ij that(2) unfolding lines_ordered_def by blast+
    then show ?thesis by simp
  qed simp
  have e: "extent_ok (ms_virtual src) ns c" "extent_ok (ms_virtual src) ns ?l" using f(10) c l by blast+
  have hi: "span_hi ns c \<le> span_hi ns ?l"
  proof (cases "c = ?l")
    case False
    then have "c < ?l" using cl by simp
    moreover have "\<not> in_subtree ns c ?l" using \<open>c < ?l\<close> l(3) pc(1) by (force simp: in_subtree_def)
    ultimately have "span_hi ns c \<le> line_lo ns ?l" using e(1) l(2) unfolding extent_ok_def by blast
    moreover have "line_hi ns ?l \<le> span_hi ns ?l" using e(2) by (simp add: extent_ok_def)
    moreover have "line_lo ns ?l < line_hi ns ?l" using f(4) l(2) unfolding lines_ordered_def by blast
    ultimately show ?thesis by simp
  qed simp
  have "body_range_of ns p = range_new (line_lo ns d) (span_hi ns ?l)" using cs(1) by (simp add: body_range_of_def)
  then show ?thesis using b ord [OF dc c] hi e(1) ord [of p d] d by (simp add: range_contains_def extent_ok_def)
qed

subsection \<open>The guarantees of \<open>parse_raw_tree\<close>\<close>

text \<open>
  C3. The parser is total and lossless.  On every source that satisfies its invariant (and is
  shorter than \<open>u32::MAX\<close> bytes) \<open>parse_raw_tree\<close> returns a tree without panicking, with
  exactly one node per physical line, in order and numbered like it; writing the nodes out again,
  either as raw text and terminator or as indentation, code and trailing trivia, gives the source.
\<close>

theorem parse_raw_tree_lossless:
  assumes "mapped_source_ok src" and "length (ms_virtual src) < u32_max"
  shows "\<exists>t. parse_raw_tree src opts = Ret t \<and>
    map (\<lambda>n. (line_number (node_line n), span_range (line_span (node_line n)))) (tree_nodes t) =
      map (\<lambda>l. (pl_number l, full_range l)) (physical_lines (ms_virtual src)) \<and>
    concat (map (\<lambda>n. raw_text (node_line n) @ line_ending_str (raw_ending (node_line n))) (tree_nodes t)) = ms_virtual src \<and>
    concat (map (node_source src) (tree_nodes t)) = ms_virtual src"
proof -
  obtain t where t: "parse_raw_tree src opts = Ret t" "tree_facts src t"
    using parse_raw_tree_facts [OF assms] by blast
  note f = tree_factsD [OF t(2)]
  have "map (\<lambda>n. (line_number (node_line n), span_range (line_span (node_line n)))) (tree_nodes t) =
      map (\<lambda>l. (pl_number l, full_range l)) (physical_lines (ms_virtual src))"
    by (rule nth_equalityI) (use f(6,7) in \<open>auto simp: node_of_line_def line_built_def\<close>)
  then show ?thesis using t(1) tree_source [OF t(2)] by blast
qed

text \<open>
  C10. The tree is well formed: a node's identity is its position, parents are earlier sections,
  children lists and roots invert the parent links in source order, every section owns a
  contiguous run of nodes, statements and sections sit exactly one level below their parent, and
  the indentation of every node with a level is the file's indentation unit repeated that often.
\<close>

theorem parse_raw_tree_structure:
  assumes "mapped_source_ok src" and "length (ms_virtual src) < u32_max"
  shows "\<exists>t. parse_raw_tree src opts = Ret t \<and> links_ok (tree_nodes t) (tree_roots t) \<and>
    nested (tree_nodes t) \<and> levels_ok (tree_nodes t) \<and> style_ok (tree_indentation t) \<and>
    (\<forall>n\<in>set (tree_nodes t). indent_ok (tree_indentation t) n)"
proof -
  obtain t where t: "parse_raw_tree src opts = Ret t" "tree_facts src t"
    using parse_raw_tree_facts [OF assms] by blast
  note f = tree_factsD [OF t(2)]
  have "\<forall>n\<in>set (tree_nodes t). indent_ok (tree_indentation t) n"
    using f(8) by (auto simp: in_set_conv_nth)
  then show ?thesis using t(1) f(1,2,3,5) by blast
qed

text \<open>
  C16. Spans nest like the tree: a node's span starts at its line; the body span of a section
  contains the span of every child and lies in the section's own span; and a node that is not
  inside another's subtree starts at or after the other's end, so siblings never overlap.
\<close>

theorem parse_raw_tree_spans:
  assumes "mapped_source_ok src" and "length (ms_virtual src) < u32_max"
  shows "\<exists>t. parse_raw_tree src opts = Ret t \<and>
    (\<forall>c p. c < length (tree_nodes t) \<and> node_parent (tree_nodes t ! c) = Some p \<longrightarrow>
       (\<exists>b. body_span (tree_nodes t ! p) = Some b \<and>
          range_contains (span_range b) (span_range (node_span (tree_nodes t ! c))) \<and>
          range_contains (span_range (node_span (tree_nodes t ! p))) (span_range b))) \<and>
    (\<forall>i < length (tree_nodes t). extent_ok (ms_virtual src) (tree_nodes t) i)"
proof -
  obtain t where t: "parse_raw_tree src opts = Ret t" "tree_facts src t"
    using parse_raw_tree_facts [OF assms] by blast
  then show ?thesis using tree_spans [OF t(2)] tree_factsD(10) [OF t(2)] by blast
qed

text \<open>
  C25. Errors are reported, in order: diagnostics are sorted by position and then by code, every
  invalid node has an error under the code of its reason within its own line, a node is invalid
  exactly when it carries a reason, and the empty-section warnings are exactly one for each
  section whose children are all blank or comments.
\<close>

theorem parse_raw_tree_diagnostics:
  assumes "mapped_source_ok src" and "length (ms_virtual src) < u32_max"
  shows "\<exists>t. parse_raw_tree src opts = Ret t \<and> sorted (map diagnostic_key (tree_diagnostics t)) \<and>
    (\<forall>n\<in>set (tree_nodes t). reported (tree_diagnostics t) n \<and> (node_kind n = Invalid \<longleftrightarrow> invalid_reason n \<noteq> None)) \<and>
    mset (filter (\<lambda>d. diag_code d = EmptySection) (tree_diagnostics t)) =
      image_mset (empty_warning (tree_nodes t)) (mset_set {i. i < length (tree_nodes t) \<and>
         node_kind (tree_nodes t ! i) = Section \<and> section_empty (tree_nodes t) i})"
proof -
  obtain t where t: "parse_raw_tree src opts = Ret t" "tree_facts src t"
    using parse_raw_tree_facts [OF assms] by blast
  note f = tree_factsD [OF t(2)]
  have "\<forall>n\<in>set (tree_nodes t). reported (tree_diagnostics t) n \<and> (node_kind n = Invalid \<longleftrightarrow> invalid_reason n \<noteq> None)"
    using f(7,9) by (auto simp: in_set_conv_nth node_of_line_def)
  then show ?thesis using t(1) f(13,14) by blast
qed

subsection \<open>A small script\<close>

definition small_script :: mapped_source where
  "small_script = mapped_source_identity (''on join:'' @ [CHR 0x0A] @ ''  stop'' @ [CHR 0x0A])"

lemma small_script_ok:
  "mapped_source_ok small_script" "length (ms_virtual small_script) < u32_max"
proof -
  have "utf8_ok (''on join:'' @ [CHR 0x0A] @ ''  stop'' @ [CHR 0x0A])"
    by (simp add: utf8_ok.simps utf8_step_def)
  then show "mapped_source_ok small_script" unfolding small_script_def by (rule mapped_source_identity_ok)
  show "length (ms_virtual small_script) < u32_max"
    by (simp add: small_script_def mapped_source_identity_def u32_max_def)
qed

lemma small_script_lines: "length (physical_lines (ms_virtual small_script)) = 2"
  by (simp add: small_script_def mapped_source_identity_def physical_lines_def physical_loop.simps ending_at_def)

theorem parse_raw_tree_lossless_witness:
  "\<exists>t. parse_raw_tree small_script TripleHash = Ret t \<and> length (tree_nodes t) = 2 \<and>
    concat (map (node_source small_script) (tree_nodes t)) = ms_virtual small_script"
  using parse_raw_tree_lossless [OF small_script_ok, of TripleHash] small_script_lines
  by (metis (no_types, lifting) length_map)

theorem parse_raw_tree_structure_witness:
  "\<exists>t. parse_raw_tree small_script TripleHash = Ret t \<and> links_ok (tree_nodes t) (tree_roots t) \<and> levels_ok (tree_nodes t)"
  using parse_raw_tree_structure [OF small_script_ok, of TripleHash] by blast

theorem parse_raw_tree_spans_witness:
  "\<exists>t. parse_raw_tree small_script TripleHash = Ret t \<and>
    (\<forall>i < length (tree_nodes t). extent_ok (ms_virtual small_script) (tree_nodes t) i)"
  using parse_raw_tree_spans [OF small_script_ok, of TripleHash] by blast

theorem parse_raw_tree_diagnostics_witness:
  "\<exists>t. parse_raw_tree small_script TripleHash = Ret t \<and> sorted (map diagnostic_key (tree_diagnostics t)) \<and>
    (\<forall>n\<in>set (tree_nodes t). reported (tree_diagnostics t) n)"
  using parse_raw_tree_diagnostics [OF small_script_ok, of TripleHash] by blast

end
