(* ===== verification/Tree_Edit.thy ===== *)
theory Tree_Edit
  imports Raw_Tree_Result
begin

text \<open>
  \<open>skript-parser/src/tree_edit.rs\<close>: the replacement of a node of the raw tree, or of the children
  of a section, by a tree that a macro generated.

  The tree is inflated into a forest of owned subtrees, edited there, written out behind the
  virtual source (the lines of the new tree, in order), and flattened into a new arena.  The
  recursions over arenas with arbitrary links take fuel, one more than the number of nodes; running
  out of it would be \<open>Panic\<close>.  The mutable references of \<open>find_generated_mut\<close> are the pair of
  \<open>find_generated\<close> (the node it finds) and \<open>update_generated\<close> (the write through it).
\<close>

subsection \<open>Data\<close>

type_synonym generated_id = nat

datatype generated_kind = GenBlank | GenComment | GenSimple | GenSection

record generated_node =
  gen_id :: generated_id
  gen_kind :: generated_kind
  gen_text :: str
  gen_children :: "generated_id list"

record generated_tree =
  gen_roots :: "generated_id list"
  gen_nodes :: "generated_node list"

datatype placement = Prepend | Append

record retained_children =
  ret_parent :: generated_id
  ret_placement :: placement

datatype tree_edit =
    ReplaceNode generated_tree "retained_children option"
  | ReplaceChildren generated_tree

record tree_edit_metadata =
  edit_component :: component_id
  edit_hook :: hook_id

record tree_edit_application =
  app_source :: mapped_source
  app_tree :: raw_tree
  app_expansion :: expansion_id
  app_syntax_context :: syntax_context_id
  app_replacement_roots :: nat

datatype tree_edit_error =
    UnknownInputNode raw_node_id
  | InputCycle raw_node_id
  | ReusedInputNode raw_node_id
  | UnreachableInputNode raw_node_id
  | UnknownTarget raw_node_id
  | ChildrenOfNonSection raw_node_id
  | DuplicateGeneratedId generated_id
  | UnknownGeneratedNode generated_id
  | ReusedGeneratedNode generated_id
  | GeneratedCycle generated_id
  | UnreachableGeneratedNode generated_id
  | ChildrenOfGeneratedLeaf generated_id generated_kind
  | InvalidGeneratedText generated_id generated_kind
  | UnknownRetainedChildrenParent generated_id
  | RetainedChildrenParentNotSection generated_id
  | ExpansionError tree_expansion_error
  | SourceMapError source_map_error

datatype owned =
  Owned (local_id: "generated_id option") (owned_node: raw_node) (owned_children: "owned list")

subsection \<open>Inflating the tree\<close>

text \<open>The two sets are \<open>visiting\<close> and \<open>visited\<close>.\<close>

fun inflate_node ::
      "raw_tree \<Rightarrow> nat \<Rightarrow> raw_node_id \<Rightarrow> raw_node_id set \<times> raw_node_id set
        \<Rightarrow> (tree_edit_error, owned \<times> raw_node_id set \<times> raw_node_id set) outcome"
  and inflate_children ::
      "raw_tree \<Rightarrow> nat \<Rightarrow> raw_node_id list \<Rightarrow> raw_node_id set \<times> raw_node_id set
        \<Rightarrow> (tree_edit_error, owned list \<times> raw_node_id set \<times> raw_node_id set) outcome" where
  "inflate_node t 0 i st = Panic"
| "inflate_node t (Suc n) i (visiting, visited) =
     (if i \<in> visited then Fail (ReusedInputNode i)
      else if i \<in> visiting then Fail (InputCycle i)
      else obind (ok_or (UnknownInputNode i) (tree_get t i)) (\<lambda>node.
        obind (inflate_children t n (node_children node) (insert i visiting, visited)) (\<lambda>(children, visiting, visited).
        Ret (Owned None node children, visiting - {i}, insert i visited))))"
| "inflate_children t n [] st = Ret ([], st)"
| "inflate_children t n (i # is) st =
     obind (inflate_node t n i st) (\<lambda>(x, st).
     obind (inflate_children t n is st) (\<lambda>(xs, st). Ret (x # xs, st)))"

definition inflate_tree :: "raw_tree \<Rightarrow> (tree_edit_error, owned list) outcome" where
  "inflate_tree t =
     obind (inflate_children t (Suc (length (tree_nodes t))) (tree_roots t) ({}, {})) (\<lambda>(forest, visiting, visited).
     obind (check_all (\<lambda>node. if node_id node \<notin> visited then Fail (UnreachableInputNode (node_id node)) else Ret ())
       (tree_nodes t)) (\<lambda>_. Ret forest))"

subsection \<open>Validating the generated fragment\<close>

definition contains_newline :: "str \<Rightarrow> bool" where
  "contains_newline s \<longleftrightarrow> CHR 0x0D \<in> set s \<or> CHR 0x0A \<in> set s"

definition ends_with_colon :: "str \<Rightarrow> bool" where
  "ends_with_colon s \<longleftrightarrow> s \<noteq> [] \<and> last s = CHR '':''"

definition validate_generated_node :: "generated_node \<Rightarrow> (tree_edit_error, unit) outcome" where
  "validate_generated_node node =
     (if gen_kind node \<noteq> GenSection \<and> gen_children node \<noteq> [] then
        Fail (ChildrenOfGeneratedLeaf (gen_id node) (gen_kind node))
      else if contains_newline (gen_text node) \<or> (case gen_kind node of
            GenBlank \<Rightarrow> gen_text node \<noteq> []
          | GenComment \<Rightarrow> False
          | GenSimple \<Rightarrow> is_blank (gen_text node)
          | GenSection \<Rightarrow> is_blank (gen_text node) \<or>
              ends_with_colon (take (trim_end_whitespace (gen_text node)) (gen_text node)))
        then Fail (InvalidGeneratedText (gen_id node) (gen_kind node))
      else Ret ())"

definition index_step :: "nat \<times> generated_node \<Rightarrow> (generated_id, nat) btree \<Rightarrow> (tree_edit_error, (generated_id, nat) btree) outcome" where
  "index_step x m = (case x of (index, node) \<Rightarrow>
     if bt_contains m (gen_id node) then Fail (DuplicateGeneratedId (gen_id node))
     else obind (validate_generated_node node) (\<lambda>_. Ret (bt_insert (gen_id node) index m)))"

definition count_step :: "(generated_id, nat) btree \<Rightarrow> generated_id \<Rightarrow> (generated_id, nat) btree \<Rightarrow> (tree_edit_error, (generated_id, nat) btree) outcome" where
  "count_step by_id i counts =
     (if \<not> bt_contains by_id i then Fail (UnknownGeneratedNode i)
      else Ret (bt_insert i (bt_get_or 0 counts i + 1) counts))"

text \<open>\<open>fragment.nodes[by_id[&id]]\<close>\<close>

definition fragment_node :: "generated_tree \<Rightarrow> (generated_id, nat) btree \<Rightarrow> generated_id \<Rightarrow> ('e, generated_node) outcome" where
  "fragment_node fragment by_id i =
     obind (expect (bt_get by_id i)) (\<lambda>k. if k < length (gen_nodes fragment) then Ret (gen_nodes fragment ! k) else Panic)"

fun check_acyclic ::
      "generated_tree \<Rightarrow> (generated_id, nat) btree \<Rightarrow> nat \<Rightarrow> generated_id \<Rightarrow> generated_id set \<times> generated_id set
        \<Rightarrow> (tree_edit_error, generated_id set \<times> generated_id set) outcome"
  and check_acyclic_all ::
      "generated_tree \<Rightarrow> (generated_id, nat) btree \<Rightarrow> nat \<Rightarrow> generated_id list \<Rightarrow> generated_id set \<times> generated_id set
        \<Rightarrow> (tree_edit_error, generated_id set \<times> generated_id set) outcome" where
  "check_acyclic fragment by_id 0 i st = Panic"
| "check_acyclic fragment by_id (Suc n) i (visiting, visited) =
     (if i \<in> visited then Ret (visiting, visited)
      else if i \<in> visiting then Fail (GeneratedCycle i)
      else obind (fragment_node fragment by_id i) (\<lambda>node.
        obind (check_acyclic_all fragment by_id n (gen_children node) (insert i visiting, visited)) (\<lambda>(visiting, visited).
        Ret (visiting - {i}, insert i visited))))"
| "check_acyclic_all fragment by_id n [] st = Ret st"
| "check_acyclic_all fragment by_id n (i # is) st =
     obind (check_acyclic fragment by_id n i st) (check_acyclic_all fragment by_id n is)"

definition validate_fragment :: "generated_tree \<Rightarrow> (tree_edit_error, (generated_id, nat) btree) outcome" where
  "validate_fragment fragment =
     obind (try_for index_step (enumerate 0 (gen_nodes fragment)) []) (\<lambda>by_id.
     obind (try_for (count_step by_id) (gen_roots fragment) []) (\<lambda>counts.
     obind (try_for (\<lambda>node. try_for (count_step by_id) (gen_children node)) (gen_nodes fragment) counts) (\<lambda>counts.
     case find (\<lambda>(_, count). count > 1) counts of
       Some (i, _) \<Rightarrow> Fail (ReusedGeneratedNode i)
     | None \<Rightarrow>
        obind (check_acyclic_all fragment by_id (Suc (length (gen_nodes fragment))) (gen_roots fragment) ({}, {}))
          (\<lambda>(visiting, visited).
        obind (check_all (\<lambda>node. if gen_id node \<notin> visited then Fail (UnreachableGeneratedNode (gen_id node)) else Ret ())
          (gen_nodes fragment)) (\<lambda>_. Ret by_id)))))"

subsection \<open>Building the generated nodes\<close>

definition generated_span :: "mapped_span \<Rightarrow> expansion_id \<Rightarrow> mapped_span" where
  "generated_span call_site x = \<lparr>span_range = span_range call_site,
     span_origins = map (\<lambda>org. \<lparr>original_range = original_range org,
       origin_kind = (if range_is_empty (original_range org) then Anchored else Replaced),
       origin_expansion = Some x\<rparr>) (span_origins call_site)\<rparr>"

definition generated_point :: "mapped_span \<Rightarrow> expansion_id \<Rightarrow> mapped_span" where
  "generated_point call_site x =
     (generated_span call_site x)\<lparr>span_range := range_empty (range_end (span_range call_site))\<rparr>"

definition raw_kind :: "generated_kind \<Rightarrow> raw_node_kind" where
  "raw_kind k = (case k of GenBlank \<Rightarrow> Blank | GenComment \<Rightarrow> Comment | GenSimple \<Rightarrow> Simple | GenSection \<Rightarrow> Section)"

definition generated_raw_text :: "generated_node \<Rightarrow> str" where
  "generated_raw_text g = (case gen_kind g of GenBlank \<Rightarrow> [] | GenSection \<Rightarrow> gen_text g @ '':'' | _ \<Rightarrow> gen_text g)"

definition generated_raw_node :: "generated_node \<Rightarrow> mapped_span \<Rightarrow> mapped_span \<Rightarrow> nat \<Rightarrow> syntax_context_id \<Rightarrow> raw_node" where
  "generated_raw_node g sp pt line context =
     \<lparr>node_id = 0, node_kind = raw_kind (gen_kind g), node_text = gen_text g, node_span = sp,
      node_line = \<lparr>line_number = line, raw_text = generated_raw_text g, raw_ending = Lf, line_span = sp,
        content_span = sp, line_ending_span = pt,
        line_indentation = \<lparr>trivia_kind = Whitespace, trivia_text = [], trivia_span = pt\<rparr>, trailing_trivia = []\<rparr>,
      node_code_span = (if gen_kind g \<in> {GenSimple, GenSection} then Some sp else None),
      header_span = (if raw_kind (gen_kind g) = Section then Some sp else None),
      body_span = (if raw_kind (gen_kind g) = Section then Some pt else None),
      indent_level = None, invalid_reason = None, node_context = context, node_parent = None, node_children = []\<rparr>"

fun build_generated_node ::
    "generated_tree \<Rightarrow> (generated_id, nat) btree \<Rightarrow> mapped_span \<Rightarrow> mapped_span \<Rightarrow> nat \<Rightarrow> syntax_context_id
      \<Rightarrow> nat \<Rightarrow> generated_id \<Rightarrow> (tree_edit_error, owned) outcome" where
  "build_generated_node fragment by_id sp pt line context 0 i = Panic"
| "build_generated_node fragment by_id sp pt line context (Suc n) i =
     obind (fragment_node fragment by_id i) (\<lambda>g.
     obind (try_map (build_generated_node fragment by_id sp pt line context n) (gen_children g)) (\<lambda>children.
     Ret (Owned (Some i) (generated_raw_node g sp pt line context) children)))"

definition build_generated_forest ::
    "generated_tree \<Rightarrow> (generated_id, nat) btree \<Rightarrow> mapped_span \<Rightarrow> mapped_span \<Rightarrow> nat \<Rightarrow> syntax_context_id
      \<Rightarrow> (tree_edit_error, owned list) outcome" where
  "build_generated_forest fragment by_id sp pt line context =
     try_map (build_generated_node fragment by_id sp pt line context (Suc (length (gen_nodes fragment)))) (gen_roots fragment)"

subsection \<open>Editing the forest\<close>

fun find_subtree :: "owned list \<Rightarrow> raw_node_id \<Rightarrow> owned option" where
  "find_subtree [] target = None"
| "find_subtree (Owned l node children # rest) target =
     (if node_id node = target then Some (Owned l node children)
      else case find_subtree children target of
        Some found \<Rightarrow> Some found
      | None \<Rightarrow> find_subtree rest target)"

fun find_generated :: "owned list \<Rightarrow> generated_id \<Rightarrow> owned option" where
  "find_generated [] i = None"
| "find_generated (Owned l node children # rest) i =
     (if l = Some i then Some (Owned l node children)
      else case find_generated children i of
        Some found \<Rightarrow> Some found
      | None \<Rightarrow> find_generated rest i)"

fun update_generated :: "(owned list \<Rightarrow> owned list) \<Rightarrow> owned list \<Rightarrow> generated_id \<Rightarrow> owned list" where
  "update_generated f [] i = []"
| "update_generated f (Owned l node children # rest) i =
     (if l = Some i then Owned l node (f children) # rest
      else if find_generated children i \<noteq> None then Owned l node (update_generated f children i) # rest
      else Owned l node children # update_generated f rest i)"

definition retain_children ::
    "owned list \<Rightarrow> retained_children option \<Rightarrow> owned list \<Rightarrow> (tree_edit_error, owned list) outcome" where
  "retain_children new_nodes retained original =
     (case retained of
        None \<Rightarrow> Ret new_nodes
      | Some r \<Rightarrow>
          obind (ok_or (UnknownRetainedChildrenParent (ret_parent r)) (find_generated new_nodes (ret_parent r))) (\<lambda>parent.
          if node_kind (owned_node parent) \<noteq> Section then Fail (RetainedChildrenParentNotSection (ret_parent r))
          else Ret (update_generated (\<lambda>children. case ret_placement r of
              Prepend \<Rightarrow> original @ children
            | Append \<Rightarrow> children @ original) new_nodes (ret_parent r))))"

fun replace_node ::
    "owned list \<Rightarrow> raw_node_id \<Rightarrow> owned list \<Rightarrow> retained_children option \<Rightarrow> (tree_edit_error, owned list \<times> bool) outcome" where
  "replace_node [] target new_nodes retained = Ret ([], False)"
| "replace_node (Owned l node children # rest) target new_nodes retained =
     (if node_id node = target then
        obind (retain_children new_nodes retained children) (\<lambda>new. Ret (new @ rest, True))
      else obind (replace_node children target new_nodes retained) (\<lambda>(children, found).
        if found then Ret (Owned l node children # rest, True)
        else obind (replace_node rest target new_nodes retained) (\<lambda>(rest, found).
          Ret (Owned l node children # rest, found))))"

fun replace_children :: "owned list \<Rightarrow> raw_node_id \<Rightarrow> owned list \<Rightarrow> owned list \<times> bool" where
  "replace_children [] target new_nodes = ([], False)"
| "replace_children (Owned l node children # rest) target new_nodes =
     (if node_id node = target then (Owned l node new_nodes # rest, True)
      else case replace_children children target new_nodes of
        (children, True) \<Rightarrow> (Owned l node children # rest, True)
      | (children, False) \<Rightarrow>
          (case replace_children rest target new_nodes of (rest, found) \<Rightarrow> (Owned l node children # rest, found)))"

subsection \<open>Writing the forest behind the source\<close>

definition initialize_generated_line :: "raw_node \<Rightarrow> nat \<Rightarrow> nat \<Rightarrow> source_origin list \<Rightarrow> raw_node" where
  "initialize_generated_line node line_start line_end origins =
     (let content_end = line_end - 1;
          at = (\<lambda>r. \<lparr>span_range = r, span_origins = origins\<rparr>);
          line = node_line node
      in node\<lparr>node_line := line\<lparr>
           line_span := at (range_new line_start line_end),
           content_span := at (range_new line_start content_end),
           line_ending_span := at (range_new content_end line_end),
           line_indentation := (line_indentation line)\<lparr>trivia_span := at (range_empty line_start)\<rparr>,
           trailing_trivia := []\<rparr>,
         node_code_span := (if node_kind node \<in> {Simple, Section} then Some (at (range_new line_start content_end)) else None),
         header_span := (if node_kind node = Section then Some (at (range_new line_start content_end)) else None)\<rparr>)"

text \<open>
  The subtraction is that of \<open>nat\<close>; \<open>editable\<close> below has every span of a line start no earlier than
  the line, so that it never goes below zero.
\<close>

definition rebase_range :: "nat \<Rightarrow> nat \<Rightarrow> text_range \<Rightarrow> text_range" where
  "rebase_range old_start new_start r =
     range_new (new_start + range_start r - old_start) (new_start + range_end r - old_start)"

definition rebase_span :: "nat \<Rightarrow> nat \<Rightarrow> mapped_span \<Rightarrow> mapped_span" where
  "rebase_span old_start new_start sp = sp\<lparr>span_range := rebase_range old_start new_start (span_range sp)\<rparr>"

text \<open>Both passes over the spans of a line change them in the same places.\<close>

definition map_line_spans :: "(mapped_span \<Rightarrow> mapped_span) \<Rightarrow> raw_node \<Rightarrow> raw_node" where
  "map_line_spans f node =
     (let line = node_line node; trivia = (\<lambda>t. t\<lparr>trivia_span := f (trivia_span t)\<rparr>)
      in node\<lparr>node_line := line\<lparr>line_span := f (line_span line), content_span := f (content_span line),
           line_ending_span := f (line_ending_span line), line_indentation := trivia (line_indentation line),
           trailing_trivia := map trivia (trailing_trivia line)\<rparr>,
         node_code_span := map_option f (node_code_span node), header_span := map_option f (header_span node)\<rparr>)"

definition rebase_existing_line :: "raw_node \<Rightarrow> nat \<Rightarrow> nat \<Rightarrow> raw_node" where
  "rebase_existing_line node old_start new_start = map_line_spans (rebase_span old_start new_start) node"

fun append_projected_subtree ::
      "mapped_source \<Rightarrow> source_origin list \<Rightarrow> owned \<Rightarrow> str \<times> source_map_segment list
        \<Rightarrow> (source_map_error, owned \<times> str \<times> source_map_segment list) outcome"
  and append_projected_forest ::
      "mapped_source \<Rightarrow> source_origin list \<Rightarrow> owned list \<Rightarrow> str \<times> source_map_segment list
        \<Rightarrow> (source_map_error, owned list \<times> str \<times> source_map_segment list) outcome" where
  "append_projected_subtree src origins (Owned l node children) (virt, segs) =
     obind (if l \<noteq> None then
         let virt' = virt @ raw_text (node_line node) @ [CHR 0x0A] in
         Ret (initialize_generated_line node (length virt) (length virt') origins, virt',
           segs @ [\<lparr>virtual_range = range_new (length virt) (length virt'), seg_origins = origins\<rparr>])
       else
         let r = span_range (line_span (node_line node)) in
         obind (append_preserved_range src r (virt, segs)) (\<lambda>(virt', segs').
         Ret (rebase_existing_line node (range_start r) (length virt), virt', segs'))) (\<lambda>(node, virt, segs).
     obind (append_projected_forest src origins children (virt, segs)) (\<lambda>(children, virt, segs).
     Ret (Owned l node children, virt, segs)))"
| "append_projected_forest src origins [] st = Ret ([], st)"
| "append_projected_forest src origins (x # xs) st =
     obind (append_projected_subtree src origins x st) (\<lambda>(x, st).
     obind (append_projected_forest src origins xs st) (\<lambda>(xs, st). Ret (x # xs, st)))"

text \<open>\<open>remap_line_spans\<close>: the spans are mapped one after the other, the first error leaves.\<close>

definition remap_span :: "mapped_source \<Rightarrow> mapped_span \<Rightarrow> (source_map_error, mapped_span) outcome" where
  "remap_span src sp = ms_map_range src (span_range sp)"

definition remap_option :: "mapped_source \<Rightarrow> mapped_span option \<Rightarrow> (source_map_error, mapped_span option) outcome" where
  "remap_option src sp = (case sp of None \<Rightarrow> Ret None | Some sp \<Rightarrow> obind (remap_span src sp) (\<lambda>sp. Ret (Some sp)))"

definition remap_line_spans :: "mapped_source \<Rightarrow> raw_node \<Rightarrow> (source_map_error, raw_node) outcome" where
  "remap_line_spans src node =
     (let line = node_line node; remap_trivia = (\<lambda>t. obind (remap_span src (trivia_span t)) (\<lambda>sp. Ret (t\<lparr>trivia_span := sp\<rparr>)))
      in
      obind (remap_span src (line_span line)) (\<lambda>full.
      obind (remap_span src (content_span line)) (\<lambda>content.
      obind (remap_span src (line_ending_span line)) (\<lambda>ending.
      obind (remap_trivia (line_indentation line)) (\<lambda>indentation.
      obind (try_map remap_trivia (trailing_trivia line)) (\<lambda>trailing.
      obind (remap_option src (node_code_span node)) (\<lambda>code.
      obind (remap_option src (header_span node)) (\<lambda>header.
      Ret (node\<lparr>node_line := line\<lparr>line_span := full, content_span := content, line_ending_span := ending,
             line_indentation := indentation, trailing_trivia := trailing\<rparr>,
           node_code_span := code, header_span := header\<rparr>)))))))))"

definition subtree_line_range :: "owned \<Rightarrow> text_range" where
  "subtree_line_range x = span_range (line_span (node_line (owned_node x)))"

definition projected_body_range :: "text_range \<Rightarrow> owned list \<Rightarrow> text_range" where
  "projected_body_range line_range children = (case children of
      [] \<Rightarrow> range_empty (range_end line_range)
    | first # _ \<Rightarrow> range_new (range_start (subtree_line_range first))
        (range_end (span_range (node_span (owned_node (last children))))))"

fun finalize_projected_subtree :: "mapped_source \<Rightarrow> owned \<Rightarrow> (source_map_error, owned) outcome"
  and finalize_projected_forest :: "mapped_source \<Rightarrow> owned list \<Rightarrow> (source_map_error, owned list) outcome" where
  "finalize_projected_subtree src (Owned l node children) =
     obind (remap_line_spans src node) (\<lambda>node.
     obind (finalize_projected_forest src children) (\<lambda>children.
     if node_kind node = Section then
       let line_range = span_range (line_span (node_line node));
           body_range = projected_body_range line_range children
       in
       obind (ms_map_range src body_range) (\<lambda>body.
       obind (ms_map_range src (range_new (range_start line_range) (range_end body_range))) (\<lambda>sp.
       Ret (Owned l (node\<lparr>body_span := Some body, node_span := sp\<rparr>) children)))
     else Ret (Owned l (node\<lparr>body_span := None, node_span := line_span (node_line node)\<rparr>) children)))"
| "finalize_projected_forest src [] = Ret []"
| "finalize_projected_forest src (x # xs) =
     obind (finalize_projected_subtree src x) (\<lambda>x. obind (finalize_projected_forest src xs) (\<lambda>xs. Ret (x # xs)))"

definition needs_newline :: "str \<Rightarrow> bool" where
  "needs_newline virt \<longleftrightarrow> virt \<noteq> [] \<and> last virt \<noteq> CHR 0x0A \<and> last virt \<noteq> CHR 0x0D"

definition project_forest ::
    "mapped_source \<Rightarrow> owned list \<Rightarrow> mapped_span \<Rightarrow> expansion_id \<Rightarrow> (source_map_error, mapped_source \<times> owned list) outcome" where
  "project_forest src forest call_site x =
     (if forest = [] then Ret (src, [])
      else
        let origins = span_origins (generated_span call_site x);
            virt = ms_virtual src;
            segs = segments (ms_source_map src);
            (virt, segs) = (if needs_newline virt
              then (virt @ [CHR 0x0A],
                segs @ [\<lparr>virtual_range = range_new (length virt) (length virt + 1), seg_origins = origins\<rparr>])
              else (virt, segs))
        in
        obind (append_projected_forest src origins forest (virt, segs)) (\<lambda>(forest, virt, segs).
        obind (mapped_source_new (ms_original src) virt (ms_expansions src) segs) (\<lambda>projected.
        obind (finalize_projected_forest projected forest) (\<lambda>forest.
        Ret (projected, forest)))))"

subsection \<open>Flattening into an arena\<close>

fun flatten_node :: "owned \<Rightarrow> raw_node_id option \<Rightarrow> raw_node list \<Rightarrow> raw_node_id \<times> raw_node list"
  and flatten_forest :: "owned list \<Rightarrow> raw_node_id option \<Rightarrow> raw_node list \<Rightarrow> raw_node_id list \<times> raw_node list" where
  "flatten_node (Owned l node children) parent nodes =
     (let i = length nodes;
          node = node\<lparr>node_id := i, node_parent := parent, node_children := []\<rparr>
      in case flatten_forest children (Some i) (nodes @ [node]) of
        (child_ids, nodes) \<Rightarrow> (i, nodes[i := (nodes ! i)\<lparr>node_children := child_ids\<rparr>]))"
| "flatten_forest [] parent nodes = ([], nodes)"
| "flatten_forest (x # xs) parent nodes =
     (case flatten_node x parent nodes of (i, nodes) \<Rightarrow>
        (case flatten_forest xs parent nodes of (is, nodes) \<Rightarrow> (i # is, nodes)))"

definition flatten_tree :: "owned list \<Rightarrow> raw_tree \<Rightarrow> raw_tree" where
  "flatten_tree forest original =
     (case flatten_forest forest None [] of (roots, nodes) \<Rightarrow>
        \<lparr>tree_roots = roots, tree_nodes = nodes, tree_diagnostics = tree_diagnostics original,
         tree_indentation = tree_indentation original\<rparr>)"

subsection \<open>The edit\<close>

definition edit_fragment :: "tree_edit \<Rightarrow> generated_tree" where
  "edit_fragment edit = (case edit of ReplaceNode f _ \<Rightarrow> f | ReplaceChildren f \<Rightarrow> f)"

definition apply_tree_edit ::
    "mapped_source \<Rightarrow> raw_tree \<Rightarrow> raw_node_id \<Rightarrow> tree_edit \<Rightarrow> tree_edit_metadata
      \<Rightarrow> (tree_edit_error, tree_edit_application) outcome" where
  "apply_tree_edit src t target edit meta =
     (let fragment = edit_fragment edit in
      obind (validate_fragment fragment) (\<lambda>by_id.
      obind (inflate_tree t) (\<lambda>forest.
      obind (ok_or (UnknownTarget target) (find_subtree forest target)) (\<lambda>found.
      let target_node = owned_node found in
      obind (case edit of
          ReplaceChildren _ \<Rightarrow> if node_kind target_node \<noteq> Section then Fail (ChildrenOfNonSection target) else Ret ()
        | ReplaceNode _ _ \<Rightarrow> Ret ()) (\<lambda>_.
      obind (omap_err ExpansionError (register_tree_expansion src (node_span target_node)
          \<lparr>meta_component = edit_component meta, meta_hook = edit_hook meta, meta_definition_site = None\<rparr>)) (\<lambda>expansion.
      let x = xea_expansion expansion in
      obind (build_generated_forest fragment by_id (generated_span (node_span target_node) x)
          (generated_point (node_span target_node) x) (line_number (node_line target_node)) (xea_syntax_context expansion))
        (\<lambda>generated.
      obind (case edit of
          ReplaceNode _ retained \<Rightarrow> replace_node forest target generated retained
        | ReplaceChildren _ \<Rightarrow> Ret (replace_children forest target generated)) (\<lambda>(forest, replaced).
      if \<not> replaced then Fail (UnknownTarget target)
      else obind (omap_err SourceMapError (project_forest (xea_source expansion) forest (node_span target_node) x))
        (\<lambda>(source, forest).
      Ret \<lparr>app_source = source, app_tree = flatten_tree forest t, app_expansion = x,
        app_syntax_context = xea_syntax_context expansion, app_replacement_roots = length generated\<rparr>)))))))))"

end
