(* ===== verification/Linked_Forest.thy ===== *)
theory Linked_Forest
  imports Prelude
begin

text \<open>
  Forests behind links.  An arena stores, for every identity, the identities of the children; when
  nothing is linked twice, what hangs below the roots is a forest.  \<open>tree_edit.rs\<close> relies on this
  for the tree it edits and for the fragment a macro supplies.
\<close>

datatype 'k rose = Rose (label: 'k) "'k rose list"

fun preorder :: "'k rose \<Rightarrow> 'k list" and preorders :: "'k rose list \<Rightarrow> 'k list" where
  "preorder (Rose i xs) = i # preorders xs"
| "preorders [] = []"
| "preorders (x # xs) = preorder x @ preorders xs"

text \<open>The forest has the links that \<open>kids\<close> tells.\<close>

fun linked :: "('k \<Rightarrow> 'k list) \<Rightarrow> 'k rose \<Rightarrow> bool" where
  "linked kids (Rose i xs) \<longleftrightarrow> map label xs = kids i \<and> (\<forall>x \<in> set xs. linked kids x)"

definition child_link :: "('k \<Rightarrow> 'k list) \<Rightarrow> ('k \<times> 'k) set" where
  "child_link kids = {(i, c). c \<in> set (kids i)}"

definition hanging :: "('k \<Rightarrow> 'k list) \<Rightarrow> 'k list \<Rightarrow> 'k set" where
  "hanging kids roots = {j. \<exists>r \<in> set roots. (r, j) \<in> (child_link kids)\<^sup>*}"

text \<open>Nothing that hangs below the roots is linked twice.\<close>

definition linked_once :: "('k \<Rightarrow> 'k list) \<Rightarrow> 'k list \<Rightarrow> bool" where
  "linked_once kids roots \<longleftrightarrow> distinct roots \<and>
     (\<forall>i \<in> hanging kids roots. distinct (kids i) \<and> set (kids i) \<inter> set roots = {} \<and>
        (\<forall>j \<in> hanging kids roots. i \<noteq> j \<longrightarrow> set (kids i) \<inter> set (kids j) = {}))"

lemma set_preorders: "set (preorders xs) = (\<Union>x \<in> set xs. set (preorder x))"
  by (induction xs) auto

lemma preorders_append [simp]: "preorders (xs @ ys) = preorders xs @ preorders ys"
  by (induction xs) auto

lemma label_in_preorder [simp]: "label x \<in> set (preorder x)"
  by (cases x) simp

lemma hanging_step: "i \<in> hanging kids roots \<Longrightarrow> c \<in> set (kids i) \<Longrightarrow> c \<in> hanging kids roots"
proof -
  assume i: "i \<in> hanging kids roots" and c: "c \<in> set (kids i)"
  obtain r where "r \<in> set roots" "(r, i) \<in> (child_link kids)\<^sup>*" using i by (auto simp: hanging_def)
  moreover have "(i, c) \<in> child_link kids" using c by (simp add: child_link_def)
  ultimately show ?thesis unfolding hanging_def using rtrancl_into_rtrancl [of r i _ c] by blast
qed

lemma hanging_root: "r \<in> set roots \<Longrightarrow> r \<in> hanging kids roots"
  unfolding hanging_def by auto

lemma hanging_rtrancl: "i \<in> hanging kids roots \<Longrightarrow> (i, j) \<in> (child_link kids)\<^sup>* \<Longrightarrow> j \<in> hanging kids roots"
  unfolding hanging_def using rtrancl_trans [of _ i _ j] by blast

lemma linked_preorder:
  "linked kids x \<Longrightarrow> set (preorder x) = {j. (label x, j) \<in> (child_link kids)\<^sup>*}"
proof (induction x)
  case (Rose i xs)
  have sub: "set (preorder y) = {j. (label y, j) \<in> (child_link kids)\<^sup>*}" if "y \<in> set xs" for y
    using Rose that by simp
  have k: "set (kids i) = label ` set xs" using Rose.prems by (metis linked.simps set_map)
  have "(i, j) \<in> (child_link kids)\<^sup>* \<longleftrightarrow> j = i \<or> (\<exists>y \<in> set xs. (label y, j) \<in> (child_link kids)\<^sup>*)" for j
  proof
    assume "(i, j) \<in> (child_link kids)\<^sup>*"
    then show "j = i \<or> (\<exists>y \<in> set xs. (label y, j) \<in> (child_link kids)\<^sup>*)"
      by (cases rule: converse_rtranclE) (use k in \<open>auto simp: child_link_def\<close>)
  next
    assume "j = i \<or> (\<exists>y \<in> set xs. (label y, j) \<in> (child_link kids)\<^sup>*)"
    then show "(i, j) \<in> (child_link kids)\<^sup>*"
      using k by (auto simp: child_link_def intro: converse_rtrancl_into_rtrancl)
  qed
  then show ?case using sub by (auto simp: set_preorders)
qed

lemma linked_preorders:
  assumes "\<forall>x \<in> set xs. linked kids x" and "map label xs = roots"
  shows "set (preorders xs) = hanging kids roots"
proof -
  have "set (preorders xs) = (\<Union>x \<in> set xs. {j. (label x, j) \<in> (child_link kids)\<^sup>*})"
    using linked_preorder assms(1) by (fastforce simp: set_preorders)
  then show ?thesis using assms(2) by (auto simp: hanging_def)
qed

text \<open>No cycle can be reached.\<close>

lemma unique_link:
  assumes "linked_once kids roots" and "(i, c) \<in> child_link kids" "(j, c) \<in> child_link kids"
    and "i \<in> hanging kids roots" "j \<in> hanging kids roots"
  shows "i = j"
  using assms unfolding linked_once_def child_link_def by blast

lemma no_root_cycle:
  assumes "linked_once kids roots" and "r \<in> set roots" and "i \<in> hanging kids roots"
  shows "(i, r) \<notin> (child_link kids)\<^sup>+"
proof
  assume "(i, r) \<in> (child_link kids)\<^sup>+"
  then obtain p where p: "(i, p) \<in> (child_link kids)\<^sup>*" "(p, r) \<in> child_link kids" by (meson tranclD2)
  then have "p \<in> hanging kids roots" using assms(3) hanging_rtrancl by metis
  then show False using assms(1,2) p(2) by (auto simp: linked_once_def child_link_def)
qed

lemma no_cycle:
  assumes once: "linked_once kids roots" and "i \<in> hanging kids roots"
  shows "(i, i) \<notin> (child_link kids)\<^sup>+"
proof -
  obtain r where r: "r \<in> set roots" "(r, i) \<in> (child_link kids)\<^sup>*" using assms(2) by (auto simp: hanging_def)
  from r(2) show ?thesis
  proof (induction rule: rtrancl_induct)
    case base
    show ?case using no_root_cycle [OF once r(1)] hanging_root [OF r(1)] by metis
  next
    case (step j i)
    have j: "j \<in> hanging kids roots" using step(1) r(1) by (auto simp: hanging_def)
    show ?case
    proof
      assume "(i, i) \<in> (child_link kids)\<^sup>+"
      then obtain p where p: "(i, p) \<in> (child_link kids)\<^sup>*" "(p, i) \<in> child_link kids" by (meson tranclD2)
      have "i \<in> hanging kids roots" using j step(2) hanging_rtrancl by (metis r_into_rtrancl)
      then have "p \<in> hanging kids roots" using p(1) hanging_rtrancl by metis
      then have "p = j" using unique_link [OF once p(2) step(2)] j by simp
      then have "(j, j) \<in> (child_link kids)\<^sup>+" using p step(2) by (meson rtrancl_into_trancl2)
      then show False using step.IH by simp
    qed
  qed
qed

text \<open>Two siblings, or two roots, never share what hangs below them.\<close>

lemma meeting:
  assumes once: "linked_once kids roots" and "c \<in> hanging kids roots" "d \<in> hanging kids roots"
    and "(c, j) \<in> (child_link kids)\<^sup>*" "(d, j) \<in> (child_link kids)\<^sup>*"
  shows "(c, d) \<in> (child_link kids)\<^sup>* \<or> (d, c) \<in> (child_link kids)\<^sup>*"
  using assms(4,5)
proof (induction rule: rtrancl_induct)
  case base
  then show ?case by simp
next
  case (step p j)
  show ?case
  proof (cases "d = j")
    case True
    then show ?thesis using step by (meson rtrancl_into_rtrancl)
  next
    case False
    then obtain q where q: "(d, q) \<in> (child_link kids)\<^sup>*" "(q, j) \<in> child_link kids"
      using step.prems by (meson rtranclE)
    have "p = q"
      using unique_link [OF once step(2) q(2)] hanging_rtrancl [OF assms(2) step(1)] hanging_rtrancl [OF assms(3) q(1)]
      by simp
    then show ?thesis using step.IH q(1) by simp
  qed
qed

lemma siblings_apart:
  assumes once: "linked_once kids roots" and i: "i \<in> hanging kids roots"
    and c: "c \<in> set (kids i)" and d: "d \<in> set (kids i)" and "c \<noteq> d"
    and "(c, j) \<in> (child_link kids)\<^sup>*" "(d, j) \<in> (child_link kids)\<^sup>*"
  shows False
proof -
  have below: "(a, b) \<notin> (child_link kids)\<^sup>*" if ab: "a \<in> set (kids i)" "b \<in> set (kids i)" "a \<noteq> b" for a b
  proof
    assume "(a, b) \<in> (child_link kids)\<^sup>*"
    then obtain q where q: "(a, q) \<in> (child_link kids)\<^sup>*" "(q, b) \<in> child_link kids" using ab(3) by (meson rtranclE)
    have "(i, b) \<in> child_link kids" "(i, a) \<in> child_link kids" using ab by (simp_all add: child_link_def)
    moreover have "q \<in> hanging kids roots" using hanging_rtrancl [OF hanging_step [OF i ab(1)] q(1)] .
    ultimately have "q = i" using unique_link [OF once q(2)] i by simp
    then have "(i, i) \<in> (child_link kids)\<^sup>+"
      using q(1) \<open>(i, a) \<in> child_link kids\<close> by (meson rtrancl_into_trancl2)
    then show False using no_cycle [OF once i] by simp
  qed
  show False
    using meeting [OF once hanging_step [OF i c] hanging_step [OF i d] assms(6,7)] below c d assms(5) by metis
qed

lemma roots_apart:
  assumes once: "linked_once kids roots" and c: "c \<in> set roots" and d: "d \<in> set roots" and "c \<noteq> d"
    and "(c, j) \<in> (child_link kids)\<^sup>*" "(d, j) \<in> (child_link kids)\<^sup>*"
  shows False
  using meeting [OF once hanging_root [OF c] hanging_root [OF d] assms(5,6)] assms(4)
    no_root_cycle [OF once d hanging_root [OF c]] no_root_cycle [OF once c hanging_root [OF d]]
  by (auto dest: rtranclD)

lemma distinct_preorders_apart:
  assumes "\<forall>x \<in> set xs. distinct (preorder x)" and "distinct (map label xs)"
    and "\<And>x y j. x \<in> set xs \<Longrightarrow> y \<in> set xs \<Longrightarrow> label x \<noteq> label y \<Longrightarrow> j \<in> set (preorder x) \<Longrightarrow> j \<notin> set (preorder y)"
  shows "distinct (preorders xs)"
  using assms
proof (induction xs)
  case (Cons x xs)
  have "set (preorder x) \<inter> set (preorder y) = {}" if "y \<in> set xs" for y
  proof -
    have "label x \<noteq> label y" using Cons.prems(2) that by auto
    then show ?thesis using Cons.prems(3) [of x y] that by auto
  qed
  moreover have "distinct (preorders xs)" using Cons.IH Cons.prems by auto
  ultimately show ?case using Cons.prems(1) by (auto simp: set_preorders)
qed simp

lemma linked_distinct:
  assumes once: "linked_once kids roots"
  shows "linked kids x \<Longrightarrow> label x \<in> hanging kids roots \<Longrightarrow> distinct (preorder x)"
proof (induction x)
  case (Rose i xs)
  have i: "i \<in> hanging kids roots" and k: "map label xs = kids i" using Rose.prems by simp_all
  have l: "linked kids y \<and> label y \<in> set (kids i)" if "y \<in> set xs" for y
    using Rose.prems(1) that k by (metis linked.simps imageI set_map)
  have "distinct (preorders xs)"
  proof (rule distinct_preorders_apart)
    show "\<forall>x \<in> set xs. distinct (preorder x)" using Rose.IH l hanging_step [OF i] by blast
    show "distinct (map label xs)" using once i k by (simp add: linked_once_def)
    show "j \<notin> set (preorder y)" if "x \<in> set xs" "y \<in> set xs" "label x \<noteq> label y" "j \<in> set (preorder x)" for x y j
      using siblings_apart [OF once i] l that linked_preorder by (metis mem_Collect_eq)
  qed
  moreover have "i \<notin> set (preorders xs)"
  proof
    assume "i \<in> set (preorders xs)"
    then obtain y where y: "y \<in> set xs" "i \<in> set (preorder y)" by (auto simp: set_preorders)
    then have "(label y, i) \<in> (child_link kids)\<^sup>*" "(i, label y) \<in> child_link kids"
      using l linked_preorder by (auto simp: child_link_def)
    then show False using no_cycle [OF once i] by (meson rtrancl_into_trancl2)
  qed
  ultimately show ?case by simp
qed

lemma linked_forest_distinct:
  assumes once: "linked_once kids roots" and "\<forall>x \<in> set xs. linked kids x" and "map label xs = roots"
  shows "distinct (preorders xs)"
proof (rule distinct_preorders_apart)
  have r: "label x \<in> set roots" if "x \<in> set xs" for x using that assms(3) by auto
  show "\<forall>x \<in> set xs. distinct (preorder x)"
    using linked_distinct [OF once] assms(2) hanging_root r by metis
  show "distinct (map label xs)" using once assms(3) by (simp add: linked_once_def)
  show "j \<notin> set (preorder y)" if "x \<in> set xs" "y \<in> set xs" "label x \<noteq> label y" "j \<in> set (preorder x)" for x y j
    using roots_apart [OF once] r that linked_preorder assms(2) by (metis mem_Collect_eq)
qed

lemma linked_exists:
  assumes once: "linked_once kids roots" and fin: "finite (hanging kids roots)" and "i \<in> hanging kids roots"
  shows "\<exists>x. linked kids x \<and> label x = i"
proof -
  let ?S = "{(c, i). (i, c) \<in> child_link kids \<and> i \<in> hanging kids roots}"
  have sub: "?S \<subseteq> hanging kids roots \<times> hanging kids roots"
    using hanging_step by (fastforce simp: child_link_def)
  have "acyclic ?S"
  proof -
    have "(j, i) \<in> (child_link kids)\<^sup>+ \<and> j \<in> hanging kids roots" if "(i, j) \<in> ?S\<^sup>+" for i j
      using that by (induction rule: trancl_induct) (auto intro: trancl_into_trancl2)
    then show ?thesis using no_cycle [OF once] unfolding acyclic_def by blast
  qed
  then have "wf ?S" using finite_acyclic_wf finite_subset [OF sub] fin by blast
  then show ?thesis using assms(3)
  proof (induction i rule: wf_induct_rule)
    case (less i)
    have "\<forall>c \<in> set (kids i). \<exists>x. linked kids x \<and> label x = c"
      using less.IH less.prems hanging_step [OF less.prems] by (simp add: child_link_def)
    then obtain f where f: "\<forall>c \<in> set (kids i). linked kids (f c) \<and> label (f c) = c" by metis
    then have "map label (map f (kids i)) = kids i" by (simp add: map_idI)
    then show ?case using f by (intro exI [of _ "Rose i (map f (kids i))"]) simp
  qed
qed

lemma linked_forest_exists:
  assumes "linked_once kids roots" and "finite (hanging kids roots)"
  obtains xs where "map label xs = roots" and "\<forall>x \<in> set xs. linked kids x" and "distinct (preorders xs)"
    and "set (preorders xs) = hanging kids roots"
proof -
  obtain f where f: "\<forall>r \<in> set roots. linked kids (f r) \<and> label (f r) = r"
    using linked_exists [OF assms] hanging_root by metis
  have xs: "map label (map f roots) = roots" using f by (simp add: map_idI)
  moreover have l: "\<forall>x \<in> set (map f roots). linked kids x" using f by simp
  moreover note linked_forest_distinct [OF assms(1) l xs] linked_preorders [OF l xs]
  ultimately show thesis by (rule that)
qed

end
