(* ===== verification/Tree_Arena.thy ===== *)
theory Tree_Arena
  imports Tree_Edit Linked_Forest
begin

text \<open>
  Forests and arenas: what \<open>inflate_tree\<close> reads is what \<open>flatten_tree\<close> writes, every arena with the
  links of the parser inflates, and every flattened forest has these links again.
\<close>

subsection \<open>Forests\<close>

fun subtree_nodes :: "owned \<Rightarrow> raw_node list" and forest_nodes :: "owned list \<Rightarrow> raw_node list" where
  "subtree_nodes (Owned l node children) = node # forest_nodes children"
| "forest_nodes [] = []"
| "forest_nodes (x # xs) = subtree_nodes x @ forest_nodes xs"

fun subtrees :: "owned \<Rightarrow> owned list" and subtrees_of :: "owned list \<Rightarrow> owned list" where
  "subtrees (Owned l n xs) = Owned l n xs # subtrees_of xs"
| "subtrees_of [] = []"
| "subtrees_of (x # xs) = subtrees x @ subtrees_of xs"

abbreviation root_id :: "owned \<Rightarrow> raw_node_id" where
  "root_id x \<equiv> node_id (owned_node x)"

text \<open>Only sections have children.\<close>

fun sections_only :: "owned \<Rightarrow> bool" where
  "sections_only (Owned l node children) \<longleftrightarrow>
     (children \<noteq> [] \<longrightarrow> node_kind node = Section) \<and> (\<forall>x \<in> set children. sections_only x)"

lemma forest_nodes_append [simp]: "forest_nodes (xs @ ys) = forest_nodes xs @ forest_nodes ys"
  by (induction xs) auto

lemma set_forest_nodes: "set (forest_nodes xs) = (\<Union>x \<in> set xs. set (subtree_nodes x))"
  by (induction xs) auto

lemma subtree_nodes_not_Nil [simp]: "subtree_nodes x \<noteq> []"
  by (cases x) simp

lemma root_in_subtree [simp]: "owned_node x \<in> set (subtree_nodes x)"
  by (cases x) simp

subsection \<open>Inflating what an arena stores\<close>

fun stored :: "raw_tree \<Rightarrow> owned \<Rightarrow> bool" where
  "stored t (Owned l node children) \<longleftrightarrow> l = None \<and> tree_get t (node_id node) = Some node \<and>
     node_children node = map root_id children \<and> (\<forall>x \<in> set children. stored t x)"

lemma inflate_stored:
  "stored t x \<Longrightarrow> length (subtree_nodes x) \<le> n \<Longrightarrow> distinct (map node_id (subtree_nodes x)) \<Longrightarrow>
     node_id ` set (subtree_nodes x) \<inter> (visiting \<union> visited) = {} \<Longrightarrow>
     inflate_node t n (root_id x) (visiting, visited) = Ret (x, visiting, visited \<union> node_id ` set (subtree_nodes x))"
  "\<forall>x \<in> set xs. stored t x \<Longrightarrow> length (forest_nodes xs) \<le> n \<Longrightarrow> distinct (map node_id (forest_nodes xs)) \<Longrightarrow>
     node_id ` set (forest_nodes xs) \<inter> (visiting \<union> visited) = {} \<Longrightarrow>
     inflate_children t n (map root_id xs) (visiting, visited) =
       Ret (xs, visiting, visited \<union> node_id ` set (forest_nodes xs))"
proof (induction x and xs arbitrary: n visiting visited and n visiting visited rule: subtree_nodes_forest_nodes.induct)
  case (1 l node children)
  obtain m where m: "n = Suc m" "length (forest_nodes children) \<le> m" using "1.prems"(2) by (cases n) auto
  have get: "tree_get t (node_id node) = Some node" "node_children node = map root_id children" "l = None"
    using "1.prems"(1) by auto
  have i: "node_id node \<notin> visited" "node_id node \<notin> visiting" using "1.prems"(4) by auto
  have "inflate_children t m (map root_id children) (insert (node_id node) visiting, visited) =
      Ret (children, insert (node_id node) visiting, visited \<union> node_id ` set (forest_nodes children))"
    using "1.prems" m(2) by (intro "1.IH") auto
  then show ?case using get i m(1) by auto
next
  case 2
  then show ?case by simp
next
  case (3 x xs)
  have "inflate_node t n (root_id x) (visiting, visited) = Ret (x, visiting, visited \<union> node_id ` set (subtree_nodes x))"
    using "3.prems" by (intro "3.IH"(1)) auto
  moreover have "inflate_children t n (map root_id xs) (visiting, visited \<union> node_id ` set (subtree_nodes x)) =
      Ret (xs, visiting, visited \<union> node_id ` set (subtree_nodes x) \<union> node_id ` set (forest_nodes xs))"
    using "3.prems" by (intro "3.IH"(2)) auto
  ultimately show ?case by (simp add: Un_assoc image_Un)
qed

lemma inflate_tree_stored:
  assumes "\<forall>x \<in> set xs. stored t x" and "tree_roots t = map root_id xs"
    and "distinct (map node_id (forest_nodes xs))" and "length (forest_nodes xs) \<le> length (tree_nodes t)"
    and "\<forall>n \<in> set (tree_nodes t). node_id n \<in> node_id ` set (forest_nodes xs)"
  shows "inflate_tree t = Ret xs"
proof -
  have "inflate_children t (Suc (length (tree_nodes t))) (map root_id xs) ({}, {}) =
      Ret (xs, {}, {} \<union> node_id ` set (forest_nodes xs))"
    using assms by (intro inflate_stored(2)) auto
  moreover have "check_all (\<lambda>node. if node_id node \<notin> node_id ` set (forest_nodes xs)
      then Fail (UnreachableInputNode (node_id node)) else Ret ()) (tree_nodes t) = Ret ()"
    using assms(5) by (simp add: check_all_Ret_iff)
  ultimately show ?thesis using assms(2) by (simp add: inflate_tree_def)
qed

subsection \<open>Flattening\<close>

fun root_ids :: "nat \<Rightarrow> owned list \<Rightarrow> nat list" where
  "root_ids b [] = []"
| "root_ids b (x # xs) = b # root_ids (b + length (subtree_nodes x)) xs"

text \<open>The forest with the identities and links of its place in the arena.\<close>

fun placed :: "nat \<Rightarrow> raw_node_id option \<Rightarrow> owned \<Rightarrow> owned"
  and placed_forest :: "nat \<Rightarrow> raw_node_id option \<Rightarrow> owned list \<Rightarrow> owned list" where
  "placed b p (Owned l node children) =
     Owned None (node\<lparr>node_id := b, node_parent := p, node_children := root_ids (b + 1) children\<rparr>)
       (placed_forest (b + 1) (Some b) children)"
| "placed_forest b p [] = []"
| "placed_forest b p (x # xs) = placed b p x # placed_forest (b + length (subtree_nodes x)) p xs"

lemma length_placed [simp]:
  "length (subtree_nodes (placed b p x)) = length (subtree_nodes x)"
  "length (forest_nodes (placed_forest b p xs)) = length (forest_nodes xs)"
  by (induction b p x and b p xs rule: placed_placed_forest.induct) auto

lemma root_id_placed [simp]: "root_id (placed b p x) = b"
  by (cases x) simp

lemma root_ids_placed: "map root_id (placed_forest b p xs) = root_ids b xs"
  by (induction xs arbitrary: b) auto

lemma ids_placed:
  "map node_id (subtree_nodes (placed b p x)) = [b..<b + length (subtree_nodes x)]"
  "map node_id (forest_nodes (placed_forest b p xs)) = [b..<b + length (forest_nodes xs)]"
proof (induction b p x and b p xs rule: placed_placed_forest.induct)
  case (1 b p l node children)
  have "[b..<b + Suc m] = b # [b + 1..<b + 1 + m]" for m by (simp add: upt_conv_Cons del: upt_Suc)
  then show ?case using 1 by simp
next
  case (3 b p x xs)
  have "[b..<b + (m + k)] = [b..<b + m] @ [b + m..<b + m + k]" for m k
    using upt_add_eq_append [of b "b + m" k] by (simp add: add.assoc)
  then show ?case using 3 by simp
qed simp

lemma flatten_placed:
  "flatten_node x p nodes = (length nodes, nodes @ subtree_nodes (placed (length nodes) p x))"
  "flatten_forest xs p nodes = (root_ids (length nodes) xs, nodes @ forest_nodes (placed_forest (length nodes) p xs))"
proof (induction x p nodes and xs p nodes rule: flatten_node_flatten_forest.induct)
  case (1 l node children p nodes)
  then show ?case by (simp add: Let_def nth_append list_update_append)
next
  case (3 x xs p nodes)
  then show ?case by simp
qed simp

lemma stored_placed:
  assumes "tree_nodes t = before @ middle @ after" and "length before = b"
  shows "middle = subtree_nodes (placed b p x) \<Longrightarrow> stored t (placed b p x)"
    and "middle = forest_nodes (placed_forest b p xs) \<Longrightarrow> \<forall>y \<in> set (placed_forest b p xs). stored t y"
  using assms
proof (induction b p x and b p xs arbitrary: before middle after and before middle after rule: placed_placed_forest.induct)
  case (1 b p l node children)
  let ?n = "node\<lparr>node_id := b, node_parent := p, node_children := root_ids (b + 1) children\<rparr>"
  have nodes: "tree_nodes t = (before @ [?n]) @ forest_nodes (placed_forest (b + 1) (Some b) children) @ after"
    using "1.prems" by simp
  have "tree_get t b = Some ?n" using nodes "1.prems"(3) by (simp add: tree_get_def nth_append)
  moreover have "\<forall>y \<in> set (placed_forest (b + 1) (Some b) children). stored t y"
    using "1.prems"(3) by (intro "1.IH" [OF refl nodes]) simp
  ultimately show ?case by (simp add: root_ids_placed)
next
  case (3 b p x xs)
  let ?b = "b + length (subtree_nodes x)"
  have n1: "tree_nodes t = before @ subtree_nodes (placed b p x) @ (forest_nodes (placed_forest ?b p xs) @ after)"
    and n2: "tree_nodes t = (before @ subtree_nodes (placed b p x)) @ forest_nodes (placed_forest ?b p xs) @ after"
    using "3.prems" by simp_all
  have "stored t (placed b p x)" using "3.prems"(3) by (intro "3.IH"(1) [OF refl n1]) simp
  moreover have "\<forall>y \<in> set (placed_forest ?b p xs). stored t y" using "3.prems"(3) by (intro "3.IH"(2) [OF refl n2]) simp
  ultimately show ?case by simp
qed simp

lemma inflate_flatten: "inflate_tree (flatten_tree xs t) = Ret (placed_forest 0 None xs)"
proof -
  let ?f = "placed_forest 0 None xs"
  have t: "tree_nodes (flatten_tree xs t) = forest_nodes ?f" "tree_roots (flatten_tree xs t) = map root_id ?f"
    by (simp_all add: flatten_tree_def flatten_placed root_ids_placed)
  show ?thesis
  proof (rule inflate_tree_stored)
    show "\<forall>x \<in> set ?f. stored (flatten_tree xs t) x"
      using stored_placed(2) [of "flatten_tree xs t" "[]" _ "[]" 0] t(1) by simp
    show "distinct (map node_id (forest_nodes ?f))" by (simp add: ids_placed)
  qed (use t in auto)
qed

subsection \<open>The links of a flattened forest\<close>

lemma root_ids_bounds: "i \<in> set (root_ids b xs) \<Longrightarrow> b \<le> i \<and> i < b + length (forest_nodes xs)"
proof (induction xs arbitrary: b)
  case (Cons x xs)
  have "0 < length (subtree_nodes x)" by simp
  then show ?case using Cons.IH [of "b + length (subtree_nodes x)"] Cons.prems by auto
qed simp

lemma sorted_root_ids: "sorted (root_ids b xs) \<and> distinct (root_ids b xs)"
proof (induction xs arbitrary: b)
  case (Cons x xs)
  have "0 < length (subtree_nodes x)" by simp
  then show ?case using Cons.IH [of "b + length (subtree_nodes x)"] root_ids_bounds [of _ "b + length (subtree_nodes x)" xs]
    by fastforce
qed simp

lemma placed_nodes_bounds:
  "n \<in> set (forest_nodes (placed_forest b p xs)) \<Longrightarrow> b \<le> node_id n \<and> node_id n < b + length (forest_nodes xs)"
proof -
  assume "n \<in> set (forest_nodes (placed_forest b p xs))"
  then have "node_id n \<in> set (map node_id (forest_nodes (placed_forest b p xs)))" by simp
  then show ?thesis unfolding ids_placed by simp
qed

text \<open>A node hangs below the given parent as a root, or below an earlier section that lists it.\<close>

lemma placed_parents:
  "sections_only x \<Longrightarrow> n \<in> set (subtree_nodes (placed b p x)) \<Longrightarrow>
     node_id n = b \<and> node_parent n = p \<or>
     (\<exists>q \<in> set (subtree_nodes (placed b p x)). node_parent n = Some (node_id q) \<and> node_id q < node_id n \<and>
        node_kind q = Section \<and> node_id n \<in> set (node_children q))"
  "\<forall>x \<in> set xs. sections_only x \<Longrightarrow> n \<in> set (forest_nodes (placed_forest b p xs)) \<Longrightarrow>
     node_id n \<in> set (root_ids b xs) \<and> node_parent n = p \<or>
     (\<exists>q \<in> set (forest_nodes (placed_forest b p xs)). node_parent n = Some (node_id q) \<and> node_id q < node_id n \<and>
        node_kind q = Section \<and> node_id n \<in> set (node_children q))"
proof (induction b p x and b p xs rule: placed_placed_forest.induct)
  case (1 b p l node children)
  let ?n = "node\<lparr>node_id := b, node_parent := p, node_children := root_ids (b + 1) children\<rparr>"
  consider "n = ?n" | "n \<in> set (forest_nodes (placed_forest (b + 1) (Some b) children))" using "1.prems"(2) by auto
  then show ?case
  proof cases
    case 2
    have "node_kind node = Section" using 2 "1.prems"(1) by (cases children) auto
    moreover have "b < node_id n" using placed_nodes_bounds [OF 2] by simp
    ultimately show ?thesis using "1.IH" 2 "1.prems"(1) by auto
  qed simp
next
  case (3 b p x xs)
  then show ?case by (auto; blast)
qed auto

text \<open>Listed children name their parent.\<close>

lemma placed_roots: "i \<in> set (root_ids b xs) \<Longrightarrow> \<exists>n \<in> set (forest_nodes (placed_forest b p xs)). node_id n = i \<and> node_parent n = p"
proof (induction xs arbitrary: b)
  case (Cons x xs)
  consider "i = b" | "i \<in> set (root_ids (b + length (subtree_nodes x)) xs)" using Cons.prems by auto
  then show ?case
  proof cases
    case 1
    have "owned_node (placed b p x) \<in> set (subtree_nodes (placed b p x))" "node_parent (owned_node (placed b p x)) = p"
      by (simp, cases x, simp)
    then show ?thesis using 1 by (intro bexI [of _ "owned_node (placed b p x)"]) auto
  next
    case 2
    then show ?thesis using Cons.IH by auto
  qed
qed simp

lemma placed_children:
  "q \<in> set (subtree_nodes (placed b p x)) \<Longrightarrow> i \<in> set (node_children q) \<Longrightarrow>
     \<exists>n \<in> set (subtree_nodes (placed b p x)). node_id n = i \<and> node_parent n = Some (node_id q)"
  "q \<in> set (forest_nodes (placed_forest b p xs)) \<Longrightarrow> i \<in> set (node_children q) \<Longrightarrow>
     \<exists>n \<in> set (forest_nodes (placed_forest b p xs)). node_id n = i \<and> node_parent n = Some (node_id q)"
proof (induction b p x and b p xs rule: placed_placed_forest.induct)
  case (1 b p l node children)
  then show ?case using placed_roots [of i "b + 1" children "Some b"] by auto
qed auto

lemma placed_sorted_children:
  "q \<in> set (subtree_nodes (placed b p x)) \<Longrightarrow> sorted (node_children q) \<and> distinct (node_children q)"
  "q \<in> set (forest_nodes (placed_forest b p xs)) \<Longrightarrow> sorted (node_children q) \<and> distinct (node_children q)"
  by (induction b p x and b p xs rule: placed_placed_forest.induct) (auto simp: sorted_root_ids)

lemma placed_nth:
  assumes "i < length (forest_nodes xs)"
  shows "node_id (forest_nodes (placed_forest 0 None xs) ! i) = i"
proof -
  have "map node_id (forest_nodes (placed_forest 0 None xs)) ! i = i" using assms by (simp only: ids_placed) simp
  then show ?thesis using assms by simp
qed

lemma flatten_links:
  assumes so: "\<forall>x \<in> set xs. sections_only x"
  shows "links_ok (tree_nodes (flatten_tree xs t)) (tree_roots (flatten_tree xs t))"
proof -
  let ?ns = "forest_nodes (placed_forest 0 None xs)"
  have t: "tree_nodes (flatten_tree xs t) = ?ns" "tree_roots (flatten_tree xs t) = root_ids 0 xs"
    by (simp_all add: flatten_tree_def flatten_placed)
  have len: "length ?ns = length (forest_nodes xs)" by simp
  have id: "node_id (?ns ! i) = i" if "i < length ?ns" for i using placed_nth that by simp
  have at: "n = ?ns ! node_id n \<and> node_id n < length ?ns" if "n \<in> set ?ns" for n
    using that id by (metis in_set_conv_nth)
  have parent: "node_id n \<in> set (root_ids 0 xs) \<and> node_parent n = None \<or>
      (\<exists>q \<in> set ?ns. node_parent n = Some (node_id q) \<and> node_id q < node_id n \<and> node_kind q = Section \<and>
        node_id n \<in> set (node_children q))" if "n \<in> set ?ns" for n
    using placed_parents(2) [OF so that] .
  have sortf: "ys = filter P [0..<m]" if "sorted ys" "distinct ys" "set ys = {j. j < m \<and> P j}" for ys P m
  proof (rule sorted_distinct_set_unique [OF that(1,2)])
    show "sorted (filter P [0..<m])" "distinct (filter P [0..<m])" by (simp_all add: sorted_wrt_filter)
    show "set ys = set (filter P [0..<m])" using that(3) by auto
  qed
  have children: "node_children (?ns ! i) = filter (\<lambda>j. node_parent (?ns ! j) = Some i) [0..<length ?ns]" if i: "i < length ?ns" for i
  proof (rule sortf)
    have m: "?ns ! i \<in> set ?ns" using i nth_mem by blast
    show "sorted (node_children (?ns ! i))" "distinct (node_children (?ns ! i))"
      using placed_sorted_children(2) [OF m] by auto
    show "set (node_children (?ns ! i)) = {j. j < length ?ns \<and> node_parent (?ns ! j) = Some i}"
    proof (intro set_eqI iffI)
      fix j assume "j \<in> set (node_children (?ns ! i))"
      then obtain n where "n \<in> set ?ns" "node_id n = j" "node_parent n = Some i"
        using placed_children(2) [OF m] id [OF i] by auto
      then show "j \<in> {j. j < length ?ns \<and> node_parent (?ns ! j) = Some i}" using at by fastforce
    next
      fix j assume "j \<in> {j. j < length ?ns \<and> node_parent (?ns ! j) = Some i}"
      then have j: "j < length ?ns" "node_parent (?ns ! j) = Some i" by auto
      then obtain q where q: "q \<in> set ?ns" "node_id q = i" "j \<in> set (node_children q)"
        using parent [OF nth_mem [OF j(1)]] id [OF j(1)] by auto
      then show "j \<in> set (node_children (?ns ! i))" using at [OF q(1)] by simp
    qed
  qed
  have roots: "root_ids 0 xs = filter (\<lambda>j. node_parent (?ns ! j) = None) [0..<length ?ns]"
  proof (rule sortf)
    show "set (root_ids 0 xs) = {j. j < length ?ns \<and> node_parent (?ns ! j) = None}"
    proof (intro set_eqI iffI)
      fix j assume "j \<in> set (root_ids 0 xs)"
      then obtain n where "n \<in> set ?ns" "node_id n = j" "node_parent n = None" using placed_roots by blast
      then show "j \<in> {j. j < length ?ns \<and> node_parent (?ns ! j) = None}" using at by fastforce
    next
      fix j assume "j \<in> {j. j < length ?ns \<and> node_parent (?ns ! j) = None}"
      then have j: "j < length ?ns" "node_parent (?ns ! j) = None" by auto
      then show "j \<in> set (root_ids 0 xs)" using parent [OF nth_mem [OF j(1)]] id [OF j(1)] by auto
    qed
  qed (use sorted_root_ids in auto)
  have up: "p < i \<and> node_kind (?ns ! p) = Section" if i: "i < length ?ns" "node_parent (?ns ! i) = Some p" for i p
  proof -
    obtain q where q: "q \<in> set ?ns" "Some p = Some (node_id q)" "node_id q < i" "node_kind q = Section"
      using parent [OF nth_mem [OF i(1)]] id [OF i(1)] i(2) by auto
    then show ?thesis using at [OF q(1)] by simp
  qed
  show ?thesis unfolding links_ok_def t
  proof (intro conjI allI impI)
    show "\<And>i. i < length ?ns \<Longrightarrow> node_id (?ns ! i) = i" by (rule id)
    show "\<And>i p. i < length ?ns \<Longrightarrow> node_parent (?ns ! i) = Some p \<Longrightarrow> p < i" using up by simp
    show "\<And>i p. i < length ?ns \<Longrightarrow> node_parent (?ns ! i) = Some p \<Longrightarrow> node_kind (?ns ! p) = Section" using up by simp
    show "\<And>i. i < length ?ns \<Longrightarrow> node_children (?ns ! i) = filter (\<lambda>j. node_parent (?ns ! j) = Some i) [0..<length ?ns]"
      by (rule children)
  qed (rule roots)
qed

subsection \<open>The forest of an arena\<close>

text \<open>What the arena of a tree stores, as a forest: every node once, below the parent that lists it.\<close>

definition arena :: "raw_tree \<Rightarrow> owned list \<Rightarrow> bool" where
  "arena t xs \<longleftrightarrow> (\<forall>x \<in> set xs. stored t x) \<and> map root_id xs = tree_roots t \<and>
     distinct (map node_id (forest_nodes xs)) \<and> node_id ` set (forest_nodes xs) = {..<length (tree_nodes t)}"

lemma inflate_arena:
  assumes "arena t xs" and "\<forall>i<length (tree_nodes t). node_id (tree_nodes t ! i) = i"
  shows "inflate_tree t = Ret xs"
proof (rule inflate_tree_stored)
  have d: "distinct (map node_id (forest_nodes xs))" and s: "set (map node_id (forest_nodes xs)) = {..<length (tree_nodes t)}"
    using assms(1) by (simp_all add: arena_def)
  have "length (forest_nodes xs) = card (set (map node_id (forest_nodes xs)))"
    using distinct_card [OF d] by simp
  also have "\<dots> = length (tree_nodes t)" unfolding s by simp
  finally show "length (forest_nodes xs) \<le> length (tree_nodes t)" by simp
  show "\<forall>n \<in> set (tree_nodes t). node_id n \<in> node_id ` set (forest_nodes xs)"
    using assms by (auto simp: arena_def in_set_conv_nth)
qed (use assms(1) in \<open>simp_all add: arena_def\<close>)

lemma arena_unique:
  assumes "arena t xs" "arena t ys" and "\<forall>i<length (tree_nodes t). node_id (tree_nodes t ! i) = i"
  shows "xs = ys"
  using inflate_arena [OF assms(1,3)] inflate_arena [OF assms(2,3)] by simp

lemma arena_flatten: "arena (flatten_tree xs t) (placed_forest 0 None xs)"
proof -
  let ?f = "placed_forest 0 None xs"
  have t: "tree_nodes (flatten_tree xs t) = forest_nodes ?f" "tree_roots (flatten_tree xs t) = map root_id ?f"
    by (simp_all add: flatten_tree_def flatten_placed root_ids_placed)
  have "\<forall>x \<in> set ?f. stored (flatten_tree xs t) x"
    using stored_placed(2) [of "flatten_tree xs t" "[]" _ "[]" 0] t(1) by simp
  moreover have "node_id ` set (forest_nodes ?f) = set (map node_id (forest_nodes ?f))" by simp
  moreover have "set (map node_id (forest_nodes ?f)) = {..<length (forest_nodes ?f)}" unfolding ids_placed by auto
  ultimately show ?thesis using t by (simp add: arena_def ids_placed)
qed

fun grown :: "raw_tree \<Rightarrow> nat rose \<Rightarrow> owned" where
  "grown t (Rose i xs) = Owned None (tree_nodes t ! i) (map (grown t) xs)"

lemma grown_nodes:
  "subtree_nodes (grown t x) = map ((!) (tree_nodes t)) (preorder x)"
  "forest_nodes (map (grown t) xs) = map ((!) (tree_nodes t)) (preorders xs)"
  by (induction x and xs rule: preorder_preorders.induct) auto

lemma links_arena:
  assumes links: "links_ok (tree_nodes t) (tree_roots t)"
  shows "\<exists>xs. arena t xs \<and> (\<forall>x \<in> set xs. sections_only x)"
proof -
  let ?ns = "tree_nodes t" and ?R = "tree_roots t"
  define kids where "kids i = node_children (?ns ! i)" for i
  have id: "\<And>i. i < length ?ns \<Longrightarrow> node_id (?ns ! i) = i"
    and up: "\<And>i p. i < length ?ns \<Longrightarrow> node_parent (?ns ! i) = Some p \<Longrightarrow> p < i \<and> node_kind (?ns ! p) = Section"
    and ch: "\<And>i. i < length ?ns \<Longrightarrow> kids i = filter (\<lambda>j. node_parent (?ns ! j) = Some i) [0..<length ?ns]"
    and roots: "?R = filter (\<lambda>j. node_parent (?ns ! j) = None) [0..<length ?ns]"
    using links unfolding links_ok_def kids_def by blast+
  have inside: "j < length ?ns" if "j \<in> hanging kids ?R" for j
  proof -
    obtain r where r: "r \<in> set ?R" "(r, j) \<in> (child_link kids)\<^sup>*" using \<open>j \<in> hanging kids ?R\<close> by (auto simp: hanging_def)
    from r(2) show ?thesis
    proof (induction rule: rtrancl_induct)
      case base
      show ?case using r(1) roots by auto
    next
      case (step y z)
      then show ?case using ch [of y] by (auto simp: child_link_def)
    qed
  qed
  have all: "j \<in> hanging kids ?R" if "j < length ?ns" for j
    using that
  proof (induction j rule: less_induct)
    case (less j)
    show ?case
    proof (cases "node_parent (?ns ! j)")
      case None
      then show ?thesis using less.prems roots by (intro hanging_root) simp
    next
      case (Some p)
      then have p: "p < j" using up [OF less.prems] by simp
      then have "p \<in> hanging kids ?R" using less.IH [of p] less.prems by simp
      moreover have "j \<in> set (kids p)" using ch [of p] p less.prems Some by simp
      ultimately show ?thesis by (rule hanging_step)
    qed
  qed
  have once: "linked_once kids ?R"
    unfolding linked_once_def
  proof (intro conjI ballI impI)
    have k: "set (kids i) = {j. j < length ?ns \<and> node_parent (?ns ! j) = Some i}" if "i \<in> hanging kids ?R" for i
      using ch [OF inside [OF that]] by auto
    have r: "set ?R = {j. j < length ?ns \<and> node_parent (?ns ! j) = None}" unfolding roots by auto
    show "distinct ?R" unfolding roots by simp
    show "distinct (kids i)" if "i \<in> hanging kids ?R" for i using ch [OF inside [OF that]] by simp
    show "set (kids i) \<inter> set ?R = {}" if "i \<in> hanging kids ?R" for i unfolding k [OF that] r by auto
    show "set (kids i) \<inter> set (kids j) = {}" if "i \<in> hanging kids ?R" "j \<in> hanging kids ?R" "i \<noteq> j" for i j
      unfolding k [OF that(1)] k [OF that(2)] using that(3) by auto
  qed
  have hang: "hanging kids ?R = {..<length ?ns}" using inside all by auto
  obtain xs where xs: "map label xs = ?R" "\<forall>x \<in> set xs. linked kids x" "distinct (preorders xs)"
    "set (preorders xs) = hanging kids ?R"
    using linked_forest_exists [OF once] hang by (metis finite_lessThan)
  have st: "stored t (grown t x) \<and> sections_only (grown t x) \<and> root_id (grown t x) = label x"
    if "linked kids x" "set (preorder x) \<subseteq> {..<length ?ns}" for x
    using that
  proof (induction x)
    case (Rose i ys)
    have i: "i < length ?ns" using Rose.prems(2) by simp
    have sub: "stored t (grown t y) \<and> sections_only (grown t y) \<and> root_id (grown t y) = label y" if "y \<in> set ys" for y
      using Rose.IH [OF that] Rose.prems that by (auto simp: set_preorders)
    then have "map root_id (map (grown t) ys) = map label ys" by simp
    moreover have "map label ys = kids i" using Rose.prems(1) by simp
    moreover have "node_kind (?ns ! i) = Section" if "ys \<noteq> []"
    proof -
      obtain c where "c \<in> set (kids i)" using \<open>ys \<noteq> []\<close> \<open>map label ys = kids i\<close> by (metis last_in_set map_is_Nil_conv)
      then show ?thesis using ch [OF i] up [of c] by auto
    qed
    ultimately show ?case using i id sub by (auto simp: tree_get_def kids_def)
  qed
  have sub: "set (preorder x) \<subseteq> {..<length ?ns}" if "x \<in> set xs" for x
    using that xs(4) hang by (auto simp: set_preorders)
  have ids: "map node_id (forest_nodes (map (grown t) xs)) = preorders xs"
    unfolding grown_nodes using xs(4) hang id by (auto intro!: map_idI)
  have "map root_id (map (grown t) xs) = map label xs" using st [OF _ sub] xs(2) by simp
  then have rs: "map root_id (map (grown t) xs) = ?R" using xs(1) by simp
  have "arena t (map (grown t) xs)"
    unfolding arena_def
  proof (intro conjI rs)
    show "\<forall>x \<in> set (map (grown t) xs). stored t x" using st [OF _ sub] xs(2) by simp
    show "distinct (map node_id (forest_nodes (map (grown t) xs)))" unfolding ids by (rule xs(3))
    have "node_id ` set (forest_nodes (map (grown t) xs)) = set (map node_id (forest_nodes (map (grown t) xs)))" by simp
    then show "node_id ` set (forest_nodes (map (grown t) xs)) = {..<length ?ns}" unfolding ids using xs(4) hang by simp
  qed
  then show ?thesis using st sub xs(2) by (intro exI [of _ "map (grown t) xs"]) auto
qed

end
