(* ===== verification/Tree_Fragment.thy ===== *)
theory Tree_Fragment
  imports Tree_Arena
begin

text \<open>
  The validation of a generated fragment, and the forest that is built from a valid one: a fragment
  is accepted exactly when its nodes form one forest below its roots and every text fits its kind.
\<close>

subsection \<open>What a valid fragment is\<close>

definition gen_ids :: "generated_tree \<Rightarrow> generated_id list" where
  "gen_ids f = map gen_id (gen_nodes f)"

text \<open>Every place that refers to a node: the roots, then all children lists.\<close>

definition gen_refs :: "generated_tree \<Rightarrow> generated_id list" where
  "gen_refs f = gen_roots f @ concat (map gen_children (gen_nodes f))"

definition gen_kids :: "generated_tree \<Rightarrow> generated_id \<Rightarrow> generated_id list" where
  "gen_kids f i = concat (map gen_children (filter (\<lambda>g. gen_id g = i) (gen_nodes f)))"

definition text_fits :: "generated_kind \<Rightarrow> str \<Rightarrow> bool" where
  "text_fits k s \<longleftrightarrow> CHR 0x0D \<notin> set s \<and> CHR 0x0A \<notin> set s \<and>
     (k = GenBlank \<longrightarrow> s = []) \<and> (k = GenSimple \<or> k = GenSection \<longrightarrow> \<not> is_blank s) \<and>
     (k = GenSection \<longrightarrow> (\<forall>t. take (trim_end_whitespace s) s \<noteq> t @ '':''))"

definition fragment_ok :: "generated_tree \<Rightarrow> bool" where
  "fragment_ok f \<longleftrightarrow> distinct (gen_ids f) \<and>
     (\<forall>g \<in> set (gen_nodes f). (gen_children g \<noteq> [] \<longrightarrow> gen_kind g = GenSection) \<and> text_fits (gen_kind g) (gen_text g)) \<and>
     set (gen_refs f) \<subseteq> set (gen_ids f) \<and> distinct (gen_refs f) \<and>
     set (gen_ids f) \<subseteq> hanging (gen_kids f) (gen_roots f)"

text \<open>What an error says about the fragment.\<close>

fun fragment_defect :: "generated_tree \<Rightarrow> tree_edit_error \<Rightarrow> bool" where
  "fragment_defect f (DuplicateGeneratedId i) \<longleftrightarrow> 1 < count_list (gen_ids f) i"
| "fragment_defect f (ChildrenOfGeneratedLeaf i k) \<longleftrightarrow>
     (\<exists>g \<in> set (gen_nodes f). gen_id g = i \<and> gen_kind g = k \<and> k \<noteq> GenSection \<and> gen_children g \<noteq> [])"
| "fragment_defect f (InvalidGeneratedText i k) \<longleftrightarrow>
     (\<exists>g \<in> set (gen_nodes f). gen_id g = i \<and> gen_kind g = k \<and> \<not> text_fits k (gen_text g))"
| "fragment_defect f (UnknownGeneratedNode i) \<longleftrightarrow> i \<in> set (gen_refs f) \<and> i \<notin> set (gen_ids f)"
| "fragment_defect f (ReusedGeneratedNode i) \<longleftrightarrow> 1 < count_list (gen_refs f) i"
| "fragment_defect f (UnreachableGeneratedNode i) \<longleftrightarrow> i \<in> set (gen_ids f) \<and> i \<notin> hanging (gen_kids f) (gen_roots f)"
| "fragment_defect f _ \<longleftrightarrow> False"

subsection \<open>Nodes\<close>

lemma ends_with_colon_iff: "ends_with_colon s \<longleftrightarrow> (\<exists>t. s = t @ '':'')"
  by (auto simp: ends_with_colon_def intro: exI [of _ "butlast s"]) (metis append_butlast_last_id)

lemma validate_generated_node_cases:
  "validate_generated_node g =
     (if gen_kind g \<noteq> GenSection \<and> gen_children g \<noteq> [] then Fail (ChildrenOfGeneratedLeaf (gen_id g) (gen_kind g))
      else if \<not> text_fits (gen_kind g) (gen_text g) then Fail (InvalidGeneratedText (gen_id g) (gen_kind g))
      else Ret ())"
  by (cases "gen_kind g")
    (auto simp: validate_generated_node_def text_fits_def contains_newline_def ends_with_colon_iff)

lemma validate_generated_node_Ret_iff:
  "validate_generated_node g = Ret () \<longleftrightarrow>
     (gen_children g \<noteq> [] \<longrightarrow> gen_kind g = GenSection) \<and> text_fits (gen_kind g) (gen_text g)"
  by (auto simp: validate_generated_node_cases)

subsection \<open>The index\<close>

definition indexes :: "generated_node list \<Rightarrow> nat \<Rightarrow> (generated_id, nat) btree \<Rightarrow> (generated_id, nat) btree \<Rightarrow> bool" where
  "indexes gs k m m' \<longleftrightarrow> (\<forall>j<length gs. bt_get m' (gen_id (gs ! j)) = Some (k + j)) \<and>
     (\<forall>i. i \<notin> gen_id ` set gs \<longrightarrow> bt_get m' i = bt_get m i)"

lemma index_step_simp:
  "index_step (k, g) m = (if bt_contains m (gen_id g) then Fail (DuplicateGeneratedId (gen_id g))
     else obind (validate_generated_node g) (\<lambda>_. Ret (bt_insert (gen_id g) k m)))"
  by (simp add: index_step_def)

lemma index_loop_Ret_iff:
  "(\<exists>m'. try_for index_step (enumerate k gs) m = Ret m') \<longleftrightarrow>
     distinct (map gen_id gs) \<and> (\<forall>g \<in> set gs. \<not> bt_contains m (gen_id g) \<and> validate_generated_node g = Ret ())"
proof (induction gs arbitrary: k m)
  case (Cons g gs)
  show ?case
  proof (cases "\<not> bt_contains m (gen_id g) \<and> validate_generated_node g = Ret ()")
    case True
    have "try_for index_step (enumerate k (g # gs)) m =
        try_for index_step (enumerate (Suc k) gs) (bt_insert (gen_id g) k m)"
      using True by (simp add: index_step_simp)
    moreover have "gen_id g \<notin> gen_id ` set gs \<longleftrightarrow> (\<forall>x \<in> set gs. gen_id x \<noteq> gen_id g)" by (metis image_iff)
    ultimately show ?thesis using Cons.IH [of "Suc k" "bt_insert (gen_id g) k m"] True by auto
  next
    case False
    then show ?thesis by (cases "validate_generated_node g") (auto simp: index_step_simp)
  qed
qed simp

lemma index_loop_indexes:
  "try_for index_step (enumerate k gs) m = Ret m' \<Longrightarrow> indexes gs k m m'"
proof (induction gs arbitrary: k m)
  case (Cons g gs)
  have s: "\<not> bt_contains m (gen_id g)" "validate_generated_node g = Ret ()"
    "try_for index_step (enumerate (Suc k) gs) (bt_insert (gen_id g) k m) = Ret m'"
    using Cons.prems by (auto simp: index_step_simp outcome_simps split: if_splits)
  then have "gen_id g \<notin> gen_id ` set gs"
    using index_loop_Ret_iff [of "Suc k" gs "bt_insert (gen_id g) k m"] by auto
  then show ?case using Cons.IH [OF s(3)] by (auto simp: indexes_def nth_Cons' bt_get_insert less_Suc_eq_0_disj)
qed (simp add: indexes_def)

lemma index_loop_defect:
  assumes "try_for index_step (enumerate k gs) m = Fail e" and "\<forall>i. bt_contains m i \<longleftrightarrow> i \<in> gen_id ` set before"
    and "gen_nodes f = before @ gs"
  shows "fragment_defect f e"
  using assms
proof (induction gs arbitrary: k m before)
  case (Cons g gs)
  consider "bt_contains m (gen_id g)" "e = DuplicateGeneratedId (gen_id g)"
    | "\<not> bt_contains m (gen_id g)" "validate_generated_node g = Fail e"
    | "\<not> bt_contains m (gen_id g)" "validate_generated_node g = Ret ()"
      "try_for index_step (enumerate (Suc k) gs) (bt_insert (gen_id g) k m) = Fail e"
    using Cons.prems(1) by (auto simp: index_step_simp outcome_simps split: if_splits)
  then show ?case
  proof cases
    case 1
    then have "gen_id g \<in> set (map gen_id before)" using Cons.prems(2) by simp
    then have "0 < count_list (map gen_id before) (gen_id g)"
      using count_list_0_iff [of "map gen_id before" "gen_id g"] by simp
    then show ?thesis using 1(2) Cons.prems(3) by (simp add: gen_ids_def)
  next
    case 2
    then show ?thesis using Cons.prems(3) by (auto simp: validate_generated_node_cases split: if_splits)
  next
    case 3
    show ?thesis
      by (rule Cons.IH [OF 3(3), of "before @ [g]"]) (use Cons.prems in auto)
  qed
qed simp

lemma index_loop_not_Panic: "try_for index_step (enumerate k gs) m \<noteq> Panic"
  by (induction gs arbitrary: k m) (auto simp: index_step_simp outcome_simps validate_generated_node_cases)

subsection \<open>The references\<close>

lemma try_for_concat: "try_for (\<lambda>x. try_for f (g x)) xs s = try_for f (concat (map g xs)) s"
proof (induction xs arbitrary: s)
  case (Cons x xs)
  then show ?case by (simp add: try_for_append) (cases "try_for f (g x) s"; simp)
qed simp

lemma count_step_at:
  "count_step m r c = (if bt_contains m r then Ret (bt_insert r (Suc (bt_get_or 0 c r)) c) else Fail (UnknownGeneratedNode r))"
  by (simp add: count_step_def)

lemma count_loop:
  "try_for (count_step m) rs c = Ret c' \<Longrightarrow> bt_ok c \<Longrightarrow>
     bt_ok c' \<and> (\<forall>i. bt_get_or 0 c' i = bt_get_or 0 c i + count_list rs i) \<and> set rs \<subseteq> {i. bt_contains m i}"
proof (induction rs arbitrary: c)
  case (Cons r rs)
  let ?c = "bt_insert r (Suc (bt_get_or 0 c r)) c"
  have s: "bt_contains m r" "try_for (count_step m) rs ?c = Ret c'"
    using Cons.prems(1) count_step_at [of m r c] by (auto split: if_splits)
  have "bt_get_or 0 ?c i = bt_get_or 0 c i + (if i = r then 1 else 0)" for i
    by (simp add: bt_get_or_def bt_get_insert)
  then show ?case using Cons.IH [OF s(2)] Cons.prems(2) s(1) by auto
qed simp

lemma count_loop_Ret: "set rs \<subseteq> {i. bt_contains m i} \<Longrightarrow> \<exists>c'. try_for (count_step m) rs c = Ret c'"
  by (induction rs arbitrary: c) (auto simp: count_step_def)

lemma count_loop_Fail:
  "try_for (count_step m) rs c = Fail e \<Longrightarrow> \<exists>i \<in> set rs. e = UnknownGeneratedNode i \<and> \<not> bt_contains m i"
  by (induction rs arbitrary: c) (auto simp: count_step_def split: if_splits)

lemma count_loop_not_Panic: "try_for (count_step m) rs c \<noteq> Panic"
  by (induction rs arbitrary: c) (auto simp: count_step_def)

lemma distinct_count: "distinct xs \<longleftrightarrow> (\<forall>i. count_list xs i \<le> 1)"
proof (induction xs)
  case (Cons x xs)
  have "count_list xs i \<le> 1" if "\<forall>j. count_list (x # xs) j \<le> 1" for i
    using that [rule_format, of i] by (auto split: if_splits)
  then show ?case using Cons.IH count_list_0_iff [of xs x] by (auto split: if_splits)
qed simp

lemma find_reused:
  assumes "try_for (count_step m) rs [] = Ret c"
  shows "find (\<lambda>(_, n). n > 1) c = None \<longleftrightarrow> distinct rs"
    and "find (\<lambda>(_, n). n > 1) c = Some (i, n) \<Longrightarrow> 1 < count_list rs i"
proof -
  have c: "bt_ok c" "\<And>i. bt_get_or 0 c i = count_list rs i"
    using count_loop [OF assms bt_ok_Nil] by (simp_all add: bt_get_or_def)
  have mem: "n = count_list rs i" if "(i, n) \<in> set c" for i n
    using that c(2) [of i] bt_ok_get [OF c(1)] by (simp add: bt_get_or_def)
  have more: "(i, count_list rs i) \<in> set c" if "1 < count_list rs i" for i
    using that c(2) [of i] bt_ok_get [OF c(1), of i] by (auto simp: bt_get_or_def split: option.splits)
  show "find (\<lambda>(_, n). n > 1) c = None \<longleftrightarrow> distinct rs"
  proof -
    have "(\<forall>(j, n) \<in> set c. \<not> 1 < n) \<longleftrightarrow> (\<forall>j. \<not> 1 < count_list rs j)" using mem more by fastforce
    then show ?thesis unfolding distinct_count find_None_iff not_less [symmetric] by auto
  qed
  assume "find (\<lambda>(_, n). n > 1) c = Some (i, n)"
  then have "(i, n) \<in> set c \<and> n > 1" by (auto simp: find_Some_iff in_set_conv_nth)
  then show "1 < count_list rs i" using mem by blast
qed

subsection \<open>The forest of a fragment\<close>

text \<open>The tree below an identity, as \<open>build_generated_node\<close> is meant to build it.\<close>

fun generated_at ::
    "generated_tree \<Rightarrow> mapped_span \<Rightarrow> mapped_span \<Rightarrow> nat \<Rightarrow> syntax_context_id \<Rightarrow> owned \<Rightarrow> bool" where
  "generated_at f sp pt line context (Owned l node children) \<longleftrightarrow>
     (\<exists>g \<in> set (gen_nodes f). l = Some (gen_id g) \<and> node = generated_raw_node g sp pt line context \<and>
        map local_id children = map Some (gen_children g)) \<and>
     (\<forall>x \<in> set children. generated_at f sp pt line context x)"

definition node_of :: "generated_tree \<Rightarrow> generated_id \<Rightarrow> generated_node" where
  "node_of f i = hd (filter (\<lambda>g. gen_id g = i) (gen_nodes f))"

fun built_tree :: "generated_tree \<Rightarrow> mapped_span \<Rightarrow> mapped_span \<Rightarrow> nat \<Rightarrow> syntax_context_id \<Rightarrow> generated_id rose \<Rightarrow> owned" where
  "built_tree f sp pt line context (Rose i xs) =
     Owned (Some i) (generated_raw_node (node_of f i) sp pt line context) (map (built_tree f sp pt line context) xs)"

lemma filter_unique:
  assumes "distinct (gen_ids f)" and "g \<in> set (gen_nodes f)"
  shows "filter (\<lambda>h. gen_id h = gen_id g) (gen_nodes f) = [g]"
proof -
  have "filter (\<lambda>h. k h = k g) gs = [g]" if "distinct (map k gs)" "g \<in> set gs" for k :: "generated_node \<Rightarrow> nat" and gs
    using that
  proof (induction gs)
    case (Cons h gs)
    show ?case
    proof (cases "h = g")
      case True
      then have "filter (\<lambda>h. k h = k g) gs = []" using Cons.prems(1) by (simp add: filter_empty_conv) (metis image_iff)
      then show ?thesis using True by simp
    next
      case False
      then have "k h \<noteq> k g" using Cons.prems by auto
      then show ?thesis using Cons False by auto
    qed
  qed simp
  then show ?thesis using assms by (simp add: gen_ids_def)
qed

lemma node_of_id:
  assumes "distinct (gen_ids f)" and "g \<in> set (gen_nodes f)"
  shows "node_of f (gen_id g) = g" "gen_kids f (gen_id g) = gen_children g"
  using filter_unique [OF assms] by (simp_all add: node_of_def gen_kids_def)

lemma node_of_mem:
  assumes "distinct (gen_ids f)" and "i \<in> set (gen_ids f)"
  shows "node_of f i \<in> set (gen_nodes f)" "gen_id (node_of f i) = i" "gen_kids f i = gen_children (node_of f i)"
proof -
  obtain g where g: "g \<in> set (gen_nodes f)" "gen_id g = i" using assms(2) by (auto simp: gen_ids_def)
  then show "node_of f i \<in> set (gen_nodes f)" "gen_id (node_of f i) = i" "gen_kids f i = gen_children (node_of f i)"
    using node_of_id [OF assms(1) g(1)] by auto
qed

text \<open>References that occur once link every reachable node once.\<close>

lemma hanging_known:
  assumes "set (gen_refs f) \<subseteq> set (gen_ids f)"
  shows "hanging (gen_kids f) (gen_roots f) \<subseteq> set (gen_ids f)"
proof
  fix i assume "i \<in> hanging (gen_kids f) (gen_roots f)"
  then obtain r where r: "r \<in> set (gen_roots f)" "(r, i) \<in> (child_link (gen_kids f))\<^sup>*" by (auto simp: hanging_def)
  from r(2) show "i \<in> set (gen_ids f)"
  proof cases
    case base
    then show ?thesis using r(1) assms by (auto simp: gen_refs_def)
  next
    case (step p)
    then have "i \<in> set (gen_refs f)" by (auto simp: child_link_def gen_kids_def gen_refs_def)
    then show ?thesis using assms by auto
  qed
qed

lemma distinct_concat_twice:
  "distinct (concat (map f xs)) \<Longrightarrow> x \<in> set xs \<Longrightarrow> y \<in> set xs \<Longrightarrow> x \<noteq> y \<Longrightarrow> set (f x) \<inter> set (f y) = {}"
  by (induction xs) auto

lemma refs_once:
  assumes ids: "distinct (gen_ids f)" and refs: "set (gen_refs f) \<subseteq> set (gen_ids f)" "distinct (gen_refs f)"
  shows "linked_once (gen_kids f) (gen_roots f)"
  unfolding linked_once_def
proof (intro conjI ballI impI)
  have kid: "gen_kids f i = gen_children (node_of f i) \<and> node_of f i \<in> set (gen_nodes f) \<and> gen_id (node_of f i) = i"
    if "i \<in> hanging (gen_kids f) (gen_roots f)" for i
    using node_of_mem [OF ids] hanging_known [OF refs(1)] that by blast
  have d: "distinct (gen_roots f)" "distinct (concat (map gen_children (gen_nodes f)))"
    "set (gen_roots f) \<inter> set (concat (map gen_children (gen_nodes f))) = {}"
    using refs(2) by (simp_all add: gen_refs_def)
  show "distinct (gen_roots f)" by (rule d)
  show "distinct (gen_kids f i)" if "i \<in> hanging (gen_kids f) (gen_roots f)" for i
    using kid [OF that] d(2) by (simp add: distinct_concat_iff)
  show "set (gen_kids f i) \<inter> set (gen_roots f) = {}" if "i \<in> hanging (gen_kids f) (gen_roots f)" for i
    using kid [OF that] d(3) by auto
  show "set (gen_kids f i) \<inter> set (gen_kids f j) = {}"
    if "i \<in> hanging (gen_kids f) (gen_roots f)" "j \<in> hanging (gen_kids f) (gen_roots f)" "i \<noteq> j" for i j
    using kid [OF that(1)] kid [OF that(2)] that(3) distinct_concat_twice [OF d(2)] by metis
qed

lemma fragment_rose:
  assumes "distinct (gen_ids f)" "set (gen_refs f) \<subseteq> set (gen_ids f)" "distinct (gen_refs f)"
  obtains xs where "map label xs = gen_roots f" "\<forall>x \<in> set xs. linked (gen_kids f) x" "distinct (preorders xs)"
    "set (preorders xs) = hanging (gen_kids f) (gen_roots f)" "length (preorders xs) \<le> length (gen_nodes f)"
proof -
  have fin: "finite (hanging (gen_kids f) (gen_roots f))"
    using hanging_known [OF assms(2)] finite_subset by blast
  obtain xs where xs: "map label xs = gen_roots f" "\<forall>x \<in> set xs. linked (gen_kids f) x" "distinct (preorders xs)"
    "set (preorders xs) = hanging (gen_kids f) (gen_roots f)"
    using linked_forest_exists [OF refs_once [OF assms] fin] .
  have "length (preorders xs) = card (hanging (gen_kids f) (gen_roots f))" using distinct_card [OF xs(3)] xs(4) by simp
  also have "\<dots> \<le> card (set (gen_ids f))" using hanging_known [OF assms(2)] by (simp add: card_mono)
  also have "\<dots> \<le> length (gen_nodes f)" using card_length [of "gen_ids f"] by (simp add: gen_ids_def)
  finally show thesis using that xs by blast
qed

lemma fragment_node_Ret:
  assumes m: "indexes (gen_nodes f) 0 [] m" and ids: "distinct (gen_ids f)" and i: "i \<in> set (gen_ids f)"
  shows "fragment_node f m i = Ret (node_of f i)"
proof -
  obtain j where j: "j < length (gen_nodes f)" "gen_nodes f ! j = node_of f i"
    using node_of_mem(1) [OF ids i] by (auto simp: in_set_conv_nth)
  have "bt_get m i = Some j" using m j node_of_mem(2) [OF ids i] by (metis add_0 indexes_def)
  then show ?thesis using j by (simp add: fragment_node_def)
qed

text \<open>The depth-first search never meets a node twice, and visits what hangs below the roots.\<close>

lemma check_acyclic_linked:
  assumes m: "indexes (gen_nodes f) 0 [] m" and ids: "distinct (gen_ids f)"
  shows "linked (gen_kids f) x \<Longrightarrow> set (preorder x) \<subseteq> set (gen_ids f) \<Longrightarrow> length (preorder x) \<le> n \<Longrightarrow>
      distinct (preorder x) \<Longrightarrow> set (preorder x) \<inter> (visiting \<union> visited) = {} \<Longrightarrow>
      check_acyclic f m n (label x) (visiting, visited) = Ret (visiting, visited \<union> set (preorder x))"
    and "\<forall>x \<in> set xs. linked (gen_kids f) x \<Longrightarrow> set (preorders xs) \<subseteq> set (gen_ids f) \<Longrightarrow> length (preorders xs) \<le> n \<Longrightarrow>
      distinct (preorders xs) \<Longrightarrow> set (preorders xs) \<inter> (visiting \<union> visited) = {} \<Longrightarrow>
      check_acyclic_all f m n (map label xs) (visiting, visited) = Ret (visiting, visited \<union> set (preorders xs))"
proof (induction x and xs arbitrary: n visiting visited and n visiting visited rule: preorder_preorders.induct)
  case (1 i xs)
  obtain k where k: "n = Suc k" "length (preorders xs) \<le> k" using "1.prems"(3) by (cases n) auto
  have i: "i \<in> set (gen_ids f)" using "1.prems"(2) by simp
  have "check_acyclic_all f m k (map label xs) (insert i visiting, visited) =
      Ret (insert i visiting, visited \<union> set (preorders xs))"
    using "1.prems" k(2) by (intro "1.IH") auto
  moreover have "map label xs = gen_children (node_of f i)"
    using "1.prems"(1) node_of_mem(3) [OF ids i] by simp
  ultimately show ?case using k(1) "1.prems"(5) by (auto simp: fragment_node_Ret [OF m ids i])
next
  case (3 x xs)
  have "check_acyclic f m n (label x) (visiting, visited) = Ret (visiting, visited \<union> set (preorder x))"
    using "3.prems" by (intro "3.IH"(1)) auto
  moreover have "check_acyclic_all f m n (map label xs) (visiting, visited \<union> set (preorder x)) =
      Ret (visiting, visited \<union> set (preorder x) \<union> set (preorders xs))"
    using "3.prems" by (intro "3.IH"(2)) auto
  ultimately show ?case by (simp add: Un_assoc)
qed simp

lemma check_reached:
  assumes "indexes (gen_nodes f) 0 [] m" "distinct (gen_ids f)" "set (gen_refs f) \<subseteq> set (gen_ids f)" "distinct (gen_refs f)"
  shows "check_acyclic_all f m (Suc (length (gen_nodes f))) (gen_roots f) ({}, {}) =
    Ret ({}, hanging (gen_kids f) (gen_roots f))"
proof -
  obtain xs where xs: "map label xs = gen_roots f" "\<forall>x \<in> set xs. linked (gen_kids f) x" "distinct (preorders xs)"
    "set (preorders xs) = hanging (gen_kids f) (gen_roots f)" "length (preorders xs) \<le> length (gen_nodes f)"
    using fragment_rose [OF assms(2-4)] .
  have "check_acyclic_all f m (Suc (length (gen_nodes f))) (map label xs) ({}, {}) = Ret ({}, {} \<union> set (preorders xs))"
    using xs(2-5) hanging_known [OF assms(3)] by (intro check_acyclic_linked(2) [OF assms(1,2)]) auto
  then show ?thesis using xs(1,4) by simp
qed

lemma build_linked:
  assumes m: "indexes (gen_nodes f) 0 [] m" and ids: "distinct (gen_ids f)"
  shows "linked (gen_kids f) x \<Longrightarrow> set (preorder x) \<subseteq> set (gen_ids f) \<Longrightarrow> length (preorder x) \<le> n \<Longrightarrow>
      build_generated_node f m sp pt line context n (label x) = Ret (built_tree f sp pt line context x)"
    and "\<forall>x \<in> set xs. linked (gen_kids f) x \<Longrightarrow> set (preorders xs) \<subseteq> set (gen_ids f) \<Longrightarrow> length (preorders xs) \<le> n \<Longrightarrow>
      try_map (build_generated_node f m sp pt line context n) (map label xs) = Ret (map (built_tree f sp pt line context) xs)"
proof (induction x and xs arbitrary: n and n rule: preorder_preorders.induct)
  case (1 i xs)
  obtain k where k: "n = Suc k" "length (preorders xs) \<le> k" using "1.prems"(3) by (cases n) auto
  have i: "i \<in> set (gen_ids f)" using "1.prems"(2) by simp
  have "map label xs = gen_children (node_of f i)"
    using "1.prems"(1) node_of_mem(3) [OF ids i] by simp
  moreover have "try_map (build_generated_node f m sp pt line context k) (map label xs) =
      Ret (map (built_tree f sp pt line context) xs)"
    using "1.prems" k(2) by (intro "1.IH") auto
  ultimately show ?case using k(1) by (simp add: fragment_node_Ret [OF m ids i])
qed simp_all

lemma built_generated_at:
  assumes ids: "distinct (gen_ids f)"
  shows "linked (gen_kids f) x \<Longrightarrow> set (preorder x) \<subseteq> set (gen_ids f) \<Longrightarrow>
     generated_at f sp pt line context (built_tree f sp pt line context x) \<and>
     local_id (built_tree f sp pt line context x) = Some (label x)"
proof (induction x)
  case (Rose i xs)
  have i: "i \<in> set (gen_ids f)" using Rose.prems(2) by simp
  have sub: "generated_at f sp pt line context (built_tree f sp pt line context x) \<and>
      local_id (built_tree f sp pt line context x) = Some (label x)" if "x \<in> set xs" for x
    using Rose.IH [OF that] Rose.prems that by (auto simp: set_preorders)
  have "map local_id (map (built_tree f sp pt line context) xs) = map Some (map label xs)" using sub by simp
  moreover have "map label xs = gen_children (node_of f i)" using Rose.prems(1) node_of_mem(3) [OF ids i] by simp
  ultimately show ?case using sub node_of_mem(1,2) [OF ids i]
    by (simp, intro bexI [of _ "node_of f i"]) simp_all
qed

subsection \<open>Validation\<close>

text \<open>The four stages of the validation, and what is known after each.\<close>

lemma validate_stages:
  obtains
    (unindexed) e where "validate_fragment f = Fail e" "fragment_defect f e"
      "\<not> (distinct (gen_ids f) \<and> (\<forall>g \<in> set (gen_nodes f). validate_generated_node g = Ret ()))"
  | (indexed) m where "distinct (gen_ids f)" "\<forall>g \<in> set (gen_nodes f). validate_generated_node g = Ret ()"
      "indexes (gen_nodes f) 0 [] m"
      "validate_fragment f =
         obind (try_for (count_step m) (gen_refs f) []) (\<lambda>counts.
         case find (\<lambda>(_, count). count > 1) counts of
           Some (i, _) \<Rightarrow> Fail (ReusedGeneratedNode i)
         | None \<Rightarrow>
            obind (check_acyclic_all f m (Suc (length (gen_nodes f))) (gen_roots f) ({}, {})) (\<lambda>(visiting, visited).
            obind (check_all (\<lambda>g. if gen_id g \<notin> visited then Fail (UnreachableGeneratedNode (gen_id g)) else Ret ())
              (gen_nodes f)) (\<lambda>_. Ret m)))"
proof (cases "try_for index_step (enumerate 0 (gen_nodes f)) []")
  case (Ret m)
  have "distinct (gen_ids f)" "\<forall>g \<in> set (gen_nodes f). validate_generated_node g = Ret ()"
    using index_loop_Ret_iff [of 0 "gen_nodes f" "[]"] Ret by (auto simp: gen_ids_def)
  moreover have "try_for (count_step m) (gen_refs f) [] = obind (try_for (count_step m) (gen_roots f) [])
      (try_for (\<lambda>node. try_for (count_step m) (gen_children node)) (gen_nodes f))"
  proof -
    have "try_for (\<lambda>node. try_for (count_step m) (gen_children node)) (gen_nodes f) =
        try_for (count_step m) (concat (map gen_children (gen_nodes f)))"
      by (rule ext) (rule try_for_concat)
    then show ?thesis by (simp add: gen_refs_def try_for_append)
  qed
  ultimately show thesis
    using Ret by (intro indexed [OF _ _ index_loop_indexes [OF Ret]]) (simp_all add: validate_fragment_def obind_assoc)
next
  case (Fail e)
  have "\<not> (distinct (gen_ids f) \<and> (\<forall>g \<in> set (gen_nodes f). validate_generated_node g = Ret ()))"
    using index_loop_Ret_iff [of 0 "gen_nodes f" "[]"] Fail by (auto simp: gen_ids_def bt_contains_def)
  moreover have "fragment_defect f e"
    by (rule index_loop_defect [OF Fail, of "[]"]) (simp_all add: bt_contains_def)
  ultimately show thesis using Fail by (intro unindexed [of e]) (simp_all add: validate_fragment_def)
next
  case Panic
  then show thesis using index_loop_not_Panic by blast
qed

lemma validate_fragment_cases:
  obtains (valid) m where "validate_fragment f = Ret m" "fragment_ok f" "indexes (gen_nodes f) 0 [] m"
    | (invalid) e where "validate_fragment f = Fail e" "fragment_defect f e" "\<not> fragment_ok f"
proof (cases rule: validate_stages [of f])
  case (unindexed e)
  then show thesis by (intro invalid [of e]) (auto simp: fragment_ok_def validate_generated_node_Ret_iff)
next
  case (indexed m)
  note 2 = indexed
  have dom: "bt_contains m i \<longleftrightarrow> i \<in> set (gen_ids f)" for i
    using 2(3) by (auto simp: indexes_def bt_contains_def gen_ids_def in_set_conv_nth)
  show thesis
  proof (cases "try_for (count_step m) (gen_refs f) []")
    case (Fail e)
    then obtain i where "i \<in> set (gen_refs f)" "e = UnknownGeneratedNode i" "i \<notin> set (gen_ids f)"
      using count_loop_Fail dom by blast
    then show thesis using 2(4) Fail by (intro invalid [of e]) (auto simp: fragment_ok_def)
  next
    case Panic
    then show thesis using count_loop_not_Panic by blast
  next
    case (Ret c)
    have refs: "set (gen_refs f) \<subseteq> set (gen_ids f)" using count_loop [OF Ret bt_ok_Nil] dom by auto
    show thesis
    proof (cases "find (\<lambda>(_, count). count > 1) c")
      case (Some p)
      obtain i n where p: "p = (i, n)" by (cases p)
      have "1 < count_list (gen_refs f) i" using find_reused(2) [OF Ret] Some p by simp
      moreover have "\<not> distinct (gen_refs f)" using find_reused(1) [OF Ret] Some by simp
      ultimately show thesis using 2(4) Ret Some p by (intro invalid [of "ReusedGeneratedNode i"]) (auto simp: fragment_ok_def)
    next
      case None
      have once: "distinct (gen_refs f)" using find_reused(1) [OF Ret] None by simp
      let ?h = "hanging (gen_kids f) (gen_roots f)"
      let ?check = "\<lambda>g. if gen_id g \<notin> ?h then Fail (UnreachableGeneratedNode (gen_id g)) else Ret ()"
      have v: "validate_fragment f = obind (check_all ?check (gen_nodes f)) (\<lambda>_. Ret m)"
        using 2(4) Ret None check_reached [OF 2(3,1) refs once] by simp
      show thesis
      proof (cases "set (gen_ids f) \<subseteq> ?h")
        case True
        then have "check_all ?check (gen_nodes f) = Ret ()" by (auto simp: check_all_Ret_iff gen_ids_def)
        then show thesis using v 2 refs once True
          by (intro valid [of m]) (auto simp: fragment_ok_def validate_generated_node_Ret_iff)
      next
        case False
        have loop: "\<exists>g \<in> set gs. check_all ?check gs = Fail (UnreachableGeneratedNode (gen_id g)) \<and> gen_id g \<notin> ?h"
          if "\<not> gen_id ` set gs \<subseteq> ?h" for gs
          using that by (induction gs) auto
        obtain g where "g \<in> set (gen_nodes f)" "gen_id g \<notin> ?h"
          "check_all ?check (gen_nodes f) = Fail (UnreachableGeneratedNode (gen_id g))"
          using loop [of "gen_nodes f"] False by (auto simp: gen_ids_def)
        then show thesis using v False
          by (intro invalid [of "UnreachableGeneratedNode (gen_id g)"]) (auto simp: fragment_ok_def gen_ids_def)
      qed
    qed
  qed
qed

lemma built_tree_ids:
  "map local_id (subtrees (built_tree f sp pt line context x)) = map Some (preorder x)"
  "map local_id (subtrees_of (map (built_tree f sp pt line context) xs)) = map Some (preorders xs)"
  by (induction x and xs rule: preorder_preorders.induct) auto

lemma build_generated_forest_Ret:
  assumes ok: "fragment_ok f" and m: "indexes (gen_nodes f) 0 [] m"
  shows "\<exists>xs. build_generated_forest f m sp pt line context = Ret xs \<and> map local_id xs = map Some (gen_roots f) \<and>
    (\<forall>x \<in> set xs. generated_at f sp pt line context x) \<and> distinct (map local_id (subtrees_of xs)) \<and>
    local_id ` set (subtrees_of xs) = Some ` set (gen_ids f)"
proof -
  have f: "distinct (gen_ids f)" "set (gen_refs f) \<subseteq> set (gen_ids f)" "distinct (gen_refs f)"
    using ok by (simp_all add: fragment_ok_def)
  obtain xs where xs: "map label xs = gen_roots f" "\<forall>x \<in> set xs. linked (gen_kids f) x" "distinct (preorders xs)"
    "set (preorders xs) = hanging (gen_kids f) (gen_roots f)" "length (preorders xs) \<le> length (gen_nodes f)"
    using fragment_rose [OF f] .
  have all: "set (preorders xs) = set (gen_ids f)"
    using xs(4) hanging_known [OF f(2)] ok by (auto simp: fragment_ok_def)
  let ?xs = "map (built_tree f sp pt line context) xs"
  have b: "build_generated_forest f m sp pt line context = Ret ?xs"
    using build_linked(2) [OF m f(1) xs(2)] all xs(1,5) by (simp add: build_generated_forest_def)
  have "generated_at f sp pt line context (built_tree f sp pt line context x) \<and>
      local_id (built_tree f sp pt line context x) = Some (label x)" if "x \<in> set xs" for x
  proof (rule built_generated_at [OF f(1)])
    show "linked (gen_kids f) x" using xs(2) that by simp
    show "set (preorder x) \<subseteq> set (gen_ids f)" using all that by (auto simp: set_preorders)
  qed
  then have "map local_id ?xs = map Some (map label xs)" "\<forall>x \<in> set ?xs. generated_at f sp pt line context x"
    by simp_all
  moreover have "distinct (map local_id (subtrees_of ?xs))"
    unfolding built_tree_ids using xs(3) by (simp add: distinct_map)
  moreover have "local_id ` set (subtrees_of ?xs) = set (map local_id (subtrees_of ?xs))" by simp
  moreover have "set (map local_id (subtrees_of ?xs)) = Some ` set (gen_ids f)"
    unfolding built_tree_ids using all by simp
  ultimately show ?thesis using b xs(1) by (intro exI [of _ ?xs]) simp
qed

text \<open>
  C19. A generated fragment passes \<open>validate_fragment\<close> exactly when its identities are distinct, only
  sections have children, every text fits its kind, every reference names a node and occurs once,
  and every node hangs below a root.  The validation never panics or runs out of the fuel of its
  depth-first search; every error it reports is one the fragment has, and \<open>GeneratedCycle\<close> is never
  among them (a cycle is reported as reuse or as unreachable).  From an accepted fragment
  \<open>build_generated_forest\<close> builds, without panicking, the trees its links describe.
\<close>

theorem validate_fragment_exact:
  "((\<exists>m. validate_fragment f = Ret m) \<longleftrightarrow> fragment_ok f) \<and> validate_fragment f \<noteq> Panic \<and>
   (\<forall>e. validate_fragment f = Fail e \<longrightarrow> fragment_defect f e) \<and>
   (\<forall>m. validate_fragment f = Ret m \<longrightarrow>
      (\<exists>xs. build_generated_forest f m sp pt line context = Ret xs \<and> map local_id xs = map Some (gen_roots f) \<and>
         (\<forall>x \<in> set xs. generated_at f sp pt line context x)))"
proof (cases rule: validate_fragment_cases [of f])
  case (valid m)
  obtain xs where "build_generated_forest f m sp pt line context = Ret xs" "map local_id xs = map Some (gen_roots f)"
    "\<forall>x \<in> set xs. generated_at f sp pt line context x"
    using build_generated_forest_Ret [OF valid(2,3)] by blast
  then show ?thesis using valid(1,2) by auto
next
  case (invalid e)
  then show ?thesis by simp
qed

end
