(* ===== verification/Tree_Layout.thy ===== *)
theory Tree_Layout
  imports Tree_Fragment
begin

text \<open>
  Where the lines of a forest are: what the nodes of an editable tree satisfy, and how
  \<open>append_projected_forest\<close> writes a forest behind a source.
\<close>

subsection \<open>The content of a node\<close>

definition no_span :: mapped_span where
  "no_span = \<lparr>span_range = range_empty 0, span_origins = []\<rparr>"

text \<open>A node without its identity, its links and its spans.\<close>

definition erased :: "raw_node \<Rightarrow> raw_node" where
  "erased n = (map_line_spans (\<lambda>_. no_span) n)
     \<lparr>node_id := 0, node_span := no_span, body_span := None, node_parent := None, node_children := []\<rparr>"

fun outline :: "owned \<Rightarrow> raw_node rose" where
  "outline (Owned l n xs) = Rose (erased n) (map outline xs)"

definition written_line :: "raw_node \<Rightarrow> str" where
  "written_line n = raw_text (node_line n) @ line_ending_str (raw_ending (node_line n))"

definition subtree_text :: "owned \<Rightarrow> str" where
  "subtree_text x = concat (map written_line (subtree_nodes x))"

definition forest_text :: "owned list \<Rightarrow> str" where
  "forest_text xs = concat (map written_line (forest_nodes xs))"

lemma subtree_text_simps [simp]:
  "subtree_text (Owned l n xs) = written_line n @ forest_text xs"
  "forest_text [] = []" "forest_text (x # xs) = subtree_text x @ forest_text xs"
  by (simp_all add: subtree_text_def forest_text_def)

definition line_spans :: "raw_node \<Rightarrow> mapped_span list" where
  "line_spans n = (let l = node_line n in
     [line_span l, content_span l, line_ending_span l, trivia_span (line_indentation l)] @
     map trivia_span (trailing_trivia l) @
     (case node_code_span n of None \<Rightarrow> [] | Some sp \<Rightarrow> [sp]) @ (case header_span n of None \<Rightarrow> [] | Some sp \<Rightarrow> [sp]))"

abbreviation line_range :: "raw_node \<Rightarrow> text_range" where
  "line_range n \<equiv> span_range (line_span (node_line n))"

lemma map_line_spans_simps [simp]:
  "line_spans (map_line_spans f n) = map f (line_spans n)"
  "node_kind (map_line_spans f n) = node_kind n" "node_text (map_line_spans f n) = node_text n"
  "raw_text (node_line (map_line_spans f n)) = raw_text (node_line n)"
  "raw_ending (node_line (map_line_spans f n)) = raw_ending (node_line n)"
  "line_span (node_line (map_line_spans f n)) = f (line_span (node_line n))"
  "node_span (map_line_spans f n) = node_span n" "body_span (map_line_spans f n) = body_span n"
  by (simp_all add: map_line_spans_def line_spans_def Let_def split: option.splits)

lemma map_line_spans_comp [simp]: "map_line_spans f (map_line_spans g n) = map_line_spans (\<lambda>sp. f (g sp)) n"
  by (simp add: map_line_spans_def Let_def option.map_comp comp_def)

lemma map_line_spans_cong:
  assumes "\<And>sp. sp \<in> set (line_spans n) \<Longrightarrow> f sp = g sp"
  shows "map_line_spans f n = map_line_spans g n"
proof -
  have "map (\<lambda>t. t\<lparr>trivia_span := f (trivia_span t)\<rparr>) (trailing_trivia (node_line n)) =
      map (\<lambda>t. t\<lparr>trivia_span := g (trivia_span t)\<rparr>) (trailing_trivia (node_line n))"
    using assms by (simp add: line_spans_def Let_def)
  moreover have "map_option f (node_code_span n) = map_option g (node_code_span n)"
    "map_option f (header_span n) = map_option g (header_span n)"
    using assms by (cases "node_code_span n"; simp add: line_spans_def Let_def)
      (use assms in \<open>cases "header_span n"; simp add: line_spans_def Let_def\<close>)
  ultimately show ?thesis using assms by (simp add: map_line_spans_def line_spans_def Let_def)
qed

lemma erased_facts:
  assumes "erased m = erased n"
  shows "written_line m = written_line n" "node_kind m = node_kind n"
proof -
  have "raw_text (node_line (erased m)) = raw_text (node_line n)"
    "raw_ending (node_line (erased m)) = raw_ending (node_line n)" "node_kind (erased m) = node_kind n"
    unfolding assms by (simp_all add: erased_def)
  then show "written_line m = written_line n" "node_kind m = node_kind n"
    by (simp_all add: erased_def written_line_def)
qed

lemma erased_updates [simp]:
  "erased (map_line_spans f n) = erased n"
  "erased (n\<lparr>node_id := i, node_parent := p, node_children := cs\<rparr>) = erased n"
  "erased (n\<lparr>body_span := b, node_span := sp\<rparr>) = erased n"
  by (simp_all add: erased_def map_line_spans_def Let_def option.map_comp comp_def)

subsection \<open>Spans of a line relative to its text\<close>

definition fits :: "nat \<Rightarrow> str \<Rightarrow> raw_node \<Rightarrow> bool" where
  "fits a text n \<longleftrightarrow> line_range n = range_new a (a + length text) \<and>
     (\<forall>sp \<in> set (line_spans n). a \<le> range_start (span_range sp) \<and> range_start (span_range sp) \<le> range_end (span_range sp) \<and>
        is_char_boundary text (range_start (span_range sp) - a) \<and> is_char_boundary text (range_end (span_range sp) - a))"

text \<open>A span that is what \<open>map_range\<close> answers for its own range.\<close>

definition span_of :: "mapped_source \<Rightarrow> mapped_span \<Rightarrow> bool" where
  "span_of src sp \<longleftrightarrow> ms_map_range src (span_range sp) = Ret sp"

definition node_ok :: "mapped_source \<Rightarrow> raw_node \<Rightarrow> bool" where
  "node_ok src n \<longleftrightarrow> span_of src (node_span n) \<and> (\<forall>sp \<in> set (line_spans n). span_of src sp) \<and>
     written_line n \<noteq> [] \<and> str_slice (line_range n) (ms_virtual src) = Some (written_line n) \<and>
     fits (range_start (line_range n)) (written_line n) n"

definition editable :: "mapped_source \<Rightarrow> raw_tree \<Rightarrow> bool" where
  "editable src t \<longleftrightarrow> mapped_source_ok src \<and> links_ok (tree_nodes t) (tree_roots t) \<and>
     (\<forall>n \<in> set (tree_nodes t). node_ok src n)"

lemma line_span_mem [simp]: "line_span (node_line n) \<in> set (line_spans n)"
  by (simp add: line_spans_def Let_def)

lemma rebase_fits:
  assumes "fits a text n"
  shows "fits b text (rebase_existing_line n a b)"
proof -
  have s: "range_new (b + range_start (span_range sp) - a) (b + range_end (span_range sp) - a) = span_range (rebase_span a b sp)" for sp
    by (simp add: rebase_span_def rebase_range_def)
  have "b + range_start (span_range sp) - a - b = range_start (span_range sp) - a \<and>
      b + range_end (span_range sp) - a - b = range_end (span_range sp) - a \<and>
      b \<le> b + range_start (span_range sp) - a \<and> b + range_start (span_range sp) - a \<le> b + range_end (span_range sp) - a"
    if "sp \<in> set (line_spans n)" for sp
    using assms that by (auto simp: fits_def)
  moreover have "line_range n = range_new a (a + length text)" using assms by (simp add: fits_def)
  ultimately show ?thesis using assms
    by (auto simp: fits_def rebase_existing_line_def rebase_span_def rebase_range_def)
qed

lemma fits_valid:
  assumes "fits (length pre) text n" and "utf8_ok pre" "utf8_ok text" "utf8_ok post" and "sp \<in> set (line_spans n)"
  shows "is_valid_for (span_range sp) (pre @ text @ post)"
proof -
  have f: "length pre \<le> range_start (span_range sp)" "range_start (span_range sp) \<le> range_end (span_range sp)"
    "is_char_boundary text (range_start (span_range sp) - length pre)" "is_char_boundary text (range_end (span_range sp) - length pre)"
    using assms(1,5) by (auto simp: fits_def)
  have b: "is_char_boundary (pre @ text @ post) k" if "length pre \<le> k" "is_char_boundary text (k - length pre)" for k
  proof -
    have "is_char_boundary (pre @ text) (length pre + (k - length pre))"
      using boundary_append [OF assms(3)] that(2) by blast
    then have *: "is_char_boundary (pre @ text) k" using that(1) by simp
    then have "is_char_boundary ((pre @ text) @ post) k"
      using boundary_append_left [OF assms(4) boundary_le [OF *]] by blast
    then show ?thesis by simp
  qed
  show ?thesis using f b [of "range_start (span_range sp)"] b [of "range_end (span_range sp)"]
    by (auto simp: is_valid_for_def dest: boundary_le)
qed

subsection \<open>Writing a forest\<close>

text \<open>A generated line that has not been written yet.\<close>

definition fresh_line :: "raw_node \<Rightarrow> bool" where
  "fresh_line n \<longleftrightarrow> raw_ending (node_line n) = Lf \<and> utf8_ok (raw_text (node_line n)) \<and>
     trailing_trivia (node_line n) = [] \<and> (node_code_span n \<noteq> None \<longleftrightarrow> node_kind n \<in> {Simple, Section}) \<and>
     (header_span n \<noteq> None \<longleftrightarrow> node_kind n = Section)"

fun writable :: "mapped_source \<Rightarrow> owned \<Rightarrow> bool" where
  "writable src (Owned l n xs) \<longleftrightarrow> (if l = None then node_ok src n else fresh_line n) \<and> (\<forall>x \<in> set xs. writable src x)"

text \<open>The same forest, each line at its place in the new text.\<close>

fun laid :: "nat \<Rightarrow> owned \<Rightarrow> owned \<Rightarrow> bool" and laid_forest :: "nat \<Rightarrow> owned list \<Rightarrow> owned list \<Rightarrow> bool" where
  "laid a (Owned l n xs) (Owned l' n' xs') \<longleftrightarrow> l' = l \<and> erased n' = erased n \<and> fits a (written_line n) n' \<and>
     laid_forest (a + length (written_line n)) xs xs'"
| "laid_forest a [] ys \<longleftrightarrow> ys = []"
| "laid_forest a (x # xs) ys \<longleftrightarrow> (\<exists>z zs. ys = z # zs \<and> laid a x z \<and> laid_forest (a + length (subtree_text x)) xs zs)"

lemma line_ending_str_Lf [simp]: "line_ending_str Lf = [CHR 0x0A]"
  by (simp add: line_ending_str_def)

lemma utf8_newline: "utf8_ok [CHR 0x0A]"
  by (simp add: utf8_ok.simps utf8_step_def)

lemma node_ok_utf8: "mapped_source_ok src \<Longrightarrow> node_ok src n \<Longrightarrow> utf8_ok (written_line n)"
  using str_slice_utf8_ok [of "ms_virtual src"] by (auto simp: node_ok_def mapped_source_ok_def)

lemma fresh_line_utf8: "fresh_line n \<Longrightarrow> utf8_ok (written_line n)"
  by (simp add: fresh_line_def written_line_def utf8_ok_append utf8_newline)

lemma writable_utf8:
  assumes "mapped_source_ok src"
  shows "writable src x \<Longrightarrow> utf8_ok (subtree_text x)" and "\<forall>x \<in> set xs. writable src x \<Longrightarrow> utf8_ok (forest_text xs)"
  by (induction x and xs rule: subtree_nodes_forest_nodes.induct)
    (auto simp: utf8_ok_append node_ok_utf8 [OF assms] fresh_line_utf8 split: if_splits)

lemma initialize_fits:
  assumes "fresh_line n"
  shows "fits a (written_line n) (initialize_generated_line n a (a + length (written_line n)) os)"
    and "erased (initialize_generated_line n a (a + length (written_line n)) os) = erased n"
proof -
  let ?t = "written_line n"
  have len: "length ?t = Suc (length (raw_text (node_line n)))" using assms by (simp add: written_line_def fresh_line_def)
  have u: "utf8_ok ?t" using fresh_line_utf8 [OF assms] .
  have b: "is_char_boundary ?t 0" "is_char_boundary ?t (length ?t)" "is_char_boundary ?t (length ?t - 1)"
  proof -
    show "is_char_boundary ?t 0" "is_char_boundary ?t (length ?t)" by simp_all
    have "is_char_boundary (raw_text (node_line n) @ [CHR 0x0A]) (length (raw_text (node_line n)) + 0)"
      using boundary_append [OF utf8_newline, of "raw_text (node_line n)" 0] by simp
    then show "is_char_boundary ?t (length ?t - 1)" using assms by (simp add: written_line_def fresh_line_def)
  qed
  show "fits a ?t (initialize_generated_line n a (a + length ?t) os)"
    using b assms len
    by (auto simp: fits_def initialize_generated_line_def line_spans_def Let_def fresh_line_def split: if_splits)
  show "erased (initialize_generated_line n a (a + length ?t) os) = erased n"
    using assms by (auto simp: erased_def initialize_generated_line_def map_line_spans_def Let_def fresh_line_def)
qed

lemma append_projected:
  assumes ms: "mapped_source_ok src" and os: "generated_ok (ms_original src) x os" "os \<noteq> []"
    and x: "graph_contains (ms_expansions src) x"
  shows "writable src t \<Longrightarrow> built (ms_original src) (ms_expansions src) out segs \<Longrightarrow>
      \<exists>y segs'. append_projected_subtree src os t (out, segs) = Ret (y, out @ subtree_text t, segs') \<and>
        built (ms_original src) (ms_expansions src) (out @ subtree_text t) segs' \<and> laid (length out) t y"
    and "\<forall>t \<in> set ts. writable src t \<Longrightarrow> built (ms_original src) (ms_expansions src) out segs \<Longrightarrow>
      \<exists>ys segs'. append_projected_forest src os ts (out, segs) = Ret (ys, out @ forest_text ts, segs') \<and>
        built (ms_original src) (ms_expansions src) (out @ forest_text ts) segs' \<and> laid_forest (length out) ts ys"
proof (induction t and ts arbitrary: out segs and out segs rule: subtree_nodes_forest_nodes.induct)
  case (1 l n ts)
  let ?t = "written_line n" and ?line = "if l \<noteq> None then
         let virt' = out @ raw_text (node_line n) @ [CHR 0x0A] in
         Ret (initialize_generated_line n (length out) (length virt') os, virt',
           segs @ [\<lparr>virtual_range = range_new (length out) (length virt'), seg_origins = os\<rparr>])
       else
         let r = line_range n in
         obind (append_preserved_range src r (out, segs)) (\<lambda>(virt', segs').
         Ret (rebase_existing_line n (range_start r) (length out), virt', segs'))"
  have "\<exists>n' segs1. ?line = Ret (n', out @ ?t, segs1) \<and> built (ms_original src) (ms_expansions src) (out @ ?t) segs1 \<and>
      erased n' = erased n \<and> fits (length out) ?t n'"
  proof (cases "l = None")
    case True
    then have ok: "node_ok src n" using "1.prems"(1) by simp
    let ?r = "line_range n"
    have sl: "str_slice ?r (ms_virtual src) = Some ?t" using ok by (simp add: node_ok_def)
    then have v: "is_valid_for ?r (ms_virtual src)" using str_slice_Some_iff by blast
    then have e: "take (range_end ?r - range_start ?r) (drop (range_start ?r) (ms_virtual src)) = ?t"
      using sl by (simp add: str_slice_valid range_len_def)
    have r: "range_new (range_start ?r) (range_end ?r) = ?r" by (simp add: range_eq_iff)
    obtain segs1 where "append_preserved_range src ?r (out, segs) = Ret (out @ ?t, segs1)"
      "built (ms_original src) (ms_expansions src) (out @ ?t) segs1"
      using append_preserved_built [OF ms "1.prems"(2), of "range_start ?r" "range_end ?r" ] v unfolding r e by blast
    moreover have "fits (length out) ?t (rebase_existing_line n (range_start ?r) (length out))"
      using rebase_fits ok by (simp add: node_ok_def)
    ultimately show ?thesis using True by (simp add: Let_def rebase_existing_line_def)
  next
    case False
    then have fr: "fresh_line n" using "1.prems"(1) by simp
    have t: "?t = raw_text (node_line n) @ [CHR 0x0A]" using fr by (simp add: written_line_def fresh_line_def)
    let ?r = "range_new (length out) (length out + length ?t)"
    note u = fresh_line_utf8 [OF fr]
    have v: "is_valid_for ?r (out @ ?t)"
      unfolding is_valid_for_def using boundary_append [OF u, of out 0] boundary_append [OF u, of out "length ?t"] by simp
    have "built (ms_original src) (ms_expansions src) (out @ ?t) (segs @ [segment_with_origins ?r os])"
      by (rule built_extend [OF "1.prems"(2) u])
        (use generated_segment_ok [OF os x v] t in simp_all)
    then show ?thesis using False initialize_fits [OF fr, of "length out" os] t
      by (simp add: Let_def segment_with_origins_def add.assoc)
  qed
  then obtain n' segs1 where n': "?line = Ret (n', out @ ?t, segs1)"
    "built (ms_original src) (ms_expansions src) (out @ ?t) segs1" "erased n' = erased n" "fits (length out) ?t n'" by blast
  obtain ys segs2 where "append_projected_forest src os ts (out @ ?t, segs1) = Ret (ys, (out @ ?t) @ forest_text ts, segs2)"
    "built (ms_original src) (ms_expansions src) ((out @ ?t) @ forest_text ts) segs2"
    "laid_forest (length (out @ ?t)) ts ys"
    using "1.IH" [OF _ n'(2)] "1.prems"(1) by auto
  then show ?case using n' unfolding append_projected_subtree.simps n'(1) by simp
next
  case 2
  then show ?case by simp
next
  case (3 t ts)
  obtain y segs1 where y: "append_projected_subtree src os t (out, segs) = Ret (y, out @ subtree_text t, segs1)"
    "built (ms_original src) (ms_expansions src) (out @ subtree_text t) segs1" "laid (length out) t y"
    using "3.IH"(1) [OF _ "3.prems"(2)] "3.prems"(1) by auto
  obtain ys segs2 where "append_projected_forest src os ts (out @ subtree_text t, segs1) =
      Ret (ys, (out @ subtree_text t) @ forest_text ts, segs2)"
    "built (ms_original src) (ms_expansions src) ((out @ subtree_text t) @ forest_text ts) segs2"
    "laid_forest (length (out @ subtree_text t)) ts ys"
    using "3.IH"(2) [OF _ y(2)] "3.prems"(1) by auto
  then show ?case using y by simp
qed

end
