(* ===== verification/Tree_Projection.thy ===== *)
theory Tree_Projection
  imports Tree_Layout
begin

text \<open>
  \<open>project_forest\<close>: after the lines of a forest have been written behind the source, every span of
  the forest is mapped again, and the span of every node covers exactly the text of its subtree.
\<close>

text \<open>A node that is in order, and whose span covers the text of its subtree.\<close>

definition covered :: "mapped_source \<Rightarrow> owned \<Rightarrow> bool" where
  "covered src x \<longleftrightarrow> node_ok src (owned_node x) \<and>
     str_slice (span_range (node_span (owned_node x))) (ms_virtual src) = Some (subtree_text x)"

lemma outline_facts:
  "outline z = outline x \<Longrightarrow> sections_only z = sections_only x \<and> subtree_text z = subtree_text x"
  "map outline zs = map outline xs \<Longrightarrow> (\<forall>z \<in> set zs. sections_only z) = (\<forall>x \<in> set xs. sections_only x) \<and> forest_text zs = forest_text xs"
proof (induction x and xs arbitrary: z and zs rule: subtree_nodes_forest_nodes.induct)
  case (1 l n xs)
  obtain k m zs where z: "z = Owned k m zs" by (cases z)
  have e: "erased m = erased n" and o: "map outline zs = map outline xs" using "1.prems" z by simp_all
  have "zs = [] \<longleftrightarrow> xs = []" using map_eq_imp_length_eq [OF o] by auto
  then show ?case using "1.IH" [OF o] erased_facts [OF e] z by simp
next
  case (3 x xs)
  then obtain y ys where z: "zs = y # ys" "outline y = outline x" "map outline ys = map outline xs" by (cases zs) auto
  show ?case unfolding z(1) using "3.IH"(1) [OF z(2)] "3.IH"(2) [OF z(3)] by simp
qed auto

lemma utf8_concat: "\<forall>s \<in> set ss. utf8_ok s \<Longrightarrow> utf8_ok (concat ss)"
  by (induction ss) (auto simp: utf8_ok_append)

lemma valid_middle:
  assumes "utf8_ok m" "utf8_ok post"
  shows "is_valid_for (range_new (length pre) (length pre + length m)) (pre @ m @ post)"
    and "str_slice (range_new (length pre) (length pre + length m)) (pre @ m @ post) = Some m"
proof -
  have b: "is_char_boundary ((pre @ m) @ post) (length pre)" "is_char_boundary ((pre @ m) @ post) (length pre + length m)"
    using boundary_append [OF assms(1), of pre 0] boundary_append [OF assms(1), of pre "length m"]
      boundary_append_left [OF assms(2), of _ "pre @ m"] by simp_all
  then show v: "is_valid_for (range_new (length pre) (length pre + length m)) (pre @ m @ post)"
    by (simp add: is_valid_for_def)
  show "str_slice (range_new (length pre) (length pre + length m)) (pre @ m @ post) = Some m"
    using str_slice_valid [OF v] by (simp add: range_len_def)
qed

subsection \<open>Mapping the spans of a line again\<close>

definition remapped :: "mapped_source \<Rightarrow> mapped_span \<Rightarrow> mapped_span" where
  "remapped src sp = (case ms_map_range src (span_range sp) of Ret q \<Rightarrow> q | _ \<Rightarrow> sp)"

lemma remapped_facts:
  assumes "mapped_source_ok src" and "is_valid_for (span_range sp) (ms_virtual src)"
  shows "remap_span src sp = Ret (remapped src sp)" "span_range (remapped src sp) = span_range sp" "span_of src (remapped src sp)"
proof -
  obtain q where "ms_map_range src (span_range sp) = Ret q" "span_range q = span_range sp"
    using ms_map_range_sound [OF assms] by blast
  then show "remap_span src sp = Ret (remapped src sp)" "span_range (remapped src sp) = span_range sp" "span_of src (remapped src sp)"
    by (simp_all add: remap_span_def remapped_def span_of_def)
qed

lemma remap_line_spans_Ret:
  assumes "mapped_source_ok src" and "\<forall>sp \<in> set (line_spans n). is_valid_for (span_range sp) (ms_virtual src)"
  shows "remap_line_spans src n = Ret (map_line_spans (remapped src) n)"
proof -
  have r: "remap_span src sp = Ret (remapped src sp)" if "sp \<in> set (line_spans n)" for sp
    using remapped_facts(1) [OF assms(1)] assms(2) that by blast
  have "try_map (\<lambda>t. obind (remap_span src (trivia_span t)) (\<lambda>sp. Ret (t\<lparr>trivia_span := sp\<rparr>))) (trailing_trivia (node_line n)) =
      Ret (map (\<lambda>t. t\<lparr>trivia_span := remapped src (trivia_span t)\<rparr>) (trailing_trivia (node_line n)))"
    by (rule try_map_Ret) (simp add: r line_spans_def Let_def)
  moreover have "remap_option src (node_code_span n) = Ret (map_option (remapped src) (node_code_span n))"
    using r by (cases "node_code_span n") (simp_all add: remap_option_def line_spans_def Let_def)
  moreover have "remap_option src (header_span n) = Ret (map_option (remapped src) (header_span n))"
    using r by (cases "header_span n") (simp_all add: remap_option_def line_spans_def Let_def)
  ultimately show ?thesis
    by (simp add: remap_line_spans_def Let_def r [unfolded line_spans_def Let_def] map_line_spans_def)
qed

lemma remapped_line:
  assumes src: "mapped_source_ok src" and v: "ms_virtual src = pre @ written_line n @ post"
    and ok: "utf8_ok pre" "utf8_ok (written_line n)" "utf8_ok post" and e: "erased n' = erased n" and f: "fits (length pre) (written_line n) n'"
  shows "remap_line_spans src n' = Ret (map_line_spans (remapped src) n')"
    and "fits (length pre) (written_line n) (map_line_spans (remapped src) n')"
    and "\<forall>sp \<in> set (line_spans (map_line_spans (remapped src) n')). span_of src sp"
    and "line_range (map_line_spans (remapped src) n') = range_new (length pre) (length pre + length (written_line n))"
    and "str_slice (line_range (map_line_spans (remapped src) n')) (ms_virtual src) = Some (written_line n)"
proof -
  have valid: "\<forall>sp \<in> set (line_spans n'). is_valid_for (span_range sp) (ms_virtual src)"
    unfolding v using fits_valid [OF f ok] by blast
  show "remap_line_spans src n' = Ret (map_line_spans (remapped src) n')" using remap_line_spans_Ret [OF src valid] .
  have r: "span_range (remapped src sp) = span_range sp \<and> span_of src (remapped src sp)" if "sp \<in> set (line_spans n')" for sp
    using remapped_facts [OF src] valid that by blast
  show lr: "line_range (map_line_spans (remapped src) n') = range_new (length pre) (length pre + length (written_line n))"
    using f r by (simp add: fits_def)
  show "fits (length pre) (written_line n) (map_line_spans (remapped src) n')"
    using f r lr by (auto simp: fits_def)
  show "\<forall>sp \<in> set (line_spans (map_line_spans (remapped src) n')). span_of src sp" using r by simp
  show "str_slice (line_range (map_line_spans (remapped src) n')) (ms_virtual src) = Some (written_line n)"
    unfolding lr v using valid_middle(2) [OF ok(2,3)] by simp
qed

lemma node_ok_finalized:
  assumes "fits (range_start (line_range n)) (written_line n) n" "\<forall>sp \<in> set (line_spans n). span_of src sp" "written_line n \<noteq> []"
    "str_slice (line_range n) (ms_virtual src) = Some (written_line n)" "span_of src sp"
  shows "node_ok src (n\<lparr>body_span := b, node_span := sp\<rparr>)"
proof -
  have "line_spans (n\<lparr>body_span := b, node_span := sp\<rparr>) = line_spans n" by (simp add: line_spans_def Let_def)
  moreover have "written_line (n\<lparr>body_span := b, node_span := sp\<rparr>) = written_line n" by (simp add: written_line_def)
  ultimately show ?thesis using assms by (simp add: node_ok_def fits_def)
qed

lemma span_of_valid:
  assumes "mapped_source_ok src" "is_valid_for r (ms_virtual src)"
  obtains sp where "ms_map_range src r = Ret sp" "span_range sp = r" "span_of src sp"
  using ms_map_range_sound [OF assms] by (metis span_of_def)

lemma finalize_projected:
  assumes src: "mapped_source_ok src"
  shows "sections_only t \<Longrightarrow> laid (length pre) t y \<Longrightarrow> ms_virtual src = pre @ subtree_text t @ post \<Longrightarrow>
      utf8_ok pre \<Longrightarrow> \<forall>n \<in> set (subtree_nodes t). utf8_ok (written_line n) \<and> written_line n \<noteq> [] \<Longrightarrow> utf8_ok post \<Longrightarrow>
      \<exists>z. finalize_projected_subtree src y = Ret z \<and> outline z = outline t \<and> (\<forall>w \<in> set (subtrees z). covered src w) \<and>
        range_start (line_range (owned_node z)) = length pre \<and>
        range_end (span_range (node_span (owned_node z))) = length pre + length (subtree_text t)"
    and "\<forall>t \<in> set ts. sections_only t \<Longrightarrow> laid_forest (length pre) ts ys \<Longrightarrow> ms_virtual src = pre @ forest_text ts @ post \<Longrightarrow>
      utf8_ok pre \<Longrightarrow> \<forall>n \<in> set (forest_nodes ts). utf8_ok (written_line n) \<and> written_line n \<noteq> [] \<Longrightarrow> utf8_ok post \<Longrightarrow>
      \<exists>zs. finalize_projected_forest src ys = Ret zs \<and> map outline zs = map outline ts \<and> (\<forall>w \<in> set (subtrees_of zs). covered src w) \<and>
        (zs \<noteq> [] \<longrightarrow> range_start (line_range (owned_node (hd zs))) = length pre \<and>
           range_end (span_range (node_span (owned_node (last zs)))) = length pre + length (forest_text ts))"
proof (induction t and ts arbitrary: pre post y and pre post ys rule: subtree_nodes_forest_nodes.induct)
  case (1 l n ts)
  let ?t = "written_line n" and ?f = "forest_text ts"
  obtain n' ys where y: "y = Owned l n' ys" "erased n' = erased n" "fits (length pre) ?t n'"
    "laid_forest (length (pre @ ?t)) ts ys"
    using "1.prems"(2) by (cases y) auto
  have fu: "utf8_ok ?f" unfolding forest_text_def by (rule utf8_concat) (use "1.prems"(5) in auto)
  have nu: "utf8_ok ?t" "?t \<noteq> []" using "1.prems"(5) by simp_all
  have v: "ms_virtual src = pre @ ?t @ (?f @ post)" "ms_virtual src = (pre @ ?t) @ ?f @ post"
    "ms_virtual src = pre @ (?t @ ?f) @ post"
    using "1.prems"(3) by simp_all
  have fp: "utf8_ok (?f @ post)" using fu "1.prems"(6) by (simp add: utf8_ok_append)
  note line = remapped_line [OF src v(1) "1.prems"(4) nu(1) fp y(2,3)]
  let ?m = "map_line_spans (remapped src) n'"
  have wm: "written_line ?m = ?t" "node_kind ?m = node_kind n" "erased ?m = erased n"
    using erased_facts [of ?m n] y(2) by simp_all
  have okm: "node_ok src (?m\<lparr>body_span := b, node_span := sp\<rparr>)" if "span_of src sp" for b sp
    by (rule node_ok_finalized) (use line nu(2) wm that in simp_all)
  have pu: "utf8_ok (pre @ ?t)" using "1.prems"(4) nu by (simp add: utf8_ok_append)
  obtain zs where zs: "finalize_projected_forest src ys = Ret zs" "map outline zs = map outline ts"
    "\<forall>w \<in> set (subtrees_of zs). covered src w"
    "zs \<noteq> [] \<longrightarrow> range_start (line_range (owned_node (hd zs))) = length (pre @ ?t) \<and>
       range_end (span_range (node_span (owned_node (last zs)))) = length (pre @ ?t) + length ?f"
    using "1.IH" [OF _ y(4) v(2) pu _ "1.prems"(6)] "1.prems"(1,5) by auto
  have ft: "forest_text zs = ?f" using outline_facts(2) [OF zs(2)] by simp
  have e: "zs = [] \<longleftrightarrow> ts = []" using map_eq_imp_length_eq [OF zs(2)] by auto
  let ?region = "range_new (length pre) (length pre + length (?t @ ?f))"
  have region: "is_valid_for ?region (ms_virtual src)" "str_slice ?region (ms_virtual src) = Some (?t @ ?f)"
    using valid_middle [of "?t @ ?f" post pre] nu fu "1.prems"(6) v(3) by (simp_all add: utf8_ok_append)
  show ?case
  proof (cases "node_kind n = Section")
    case True
    let ?body = "range_new (length (pre @ ?t)) (length (pre @ ?t) + length ?f)"
    have body: "projected_body_range (line_range ?m) zs = ?body"
      using zs(4) e line(4) by (cases zs) (simp_all add: projected_body_range_def range_empty_def subtree_line_range_def add.assoc)
    have "is_valid_for ?body (ms_virtual src)" using valid_middle(1) [of ?f post "pre @ ?t"] fu "1.prems"(6) v(2) by simp
    then obtain bsp where b: "ms_map_range src ?body = Ret bsp" using span_of_valid [OF src] by blast
    obtain sp where sp: "ms_map_range src ?region = Ret sp" "span_range sp = ?region" "span_of src sp"
      using span_of_valid [OF src region(1)] .
    let ?z = "Owned l (?m\<lparr>body_span := Some bsp, node_span := sp\<rparr>) zs"
    have "range_new (range_start (line_range ?m)) (range_end ?body) = ?region" using line(4) by (simp add: add.assoc)
    then have "finalize_projected_subtree src y = Ret ?z"
      using y(1) line(1) zs(1) True wm(2) body b sp(1) by (simp add: Let_def add.assoc)
    moreover have "covered src ?z" using okm [OF sp(3)] sp(2) region(2) ft wm(1) by (simp add: covered_def written_line_def)
    ultimately show ?thesis using zs wm(3) line(4) sp(2) by simp
  next
    case False
    then have ts: "ts = []" using "1.prems"(1) by auto
    then have zs0: "zs = []" using e by simp
    let ?z = "Owned l (?m\<lparr>body_span := None, node_span := line_span (node_line ?m)\<rparr>) []"
    have so: "span_of src (line_span (node_line ?m))" using line(3) line_span_mem by blast
    have "finalize_projected_subtree src y = Ret ?z"
      using y(1) line(1) zs(1) False wm(2) zs0 by (simp add: Let_def)
    moreover have "covered src ?z"
      using okm [OF so] line(4,5) wm(1) ts by (simp add: covered_def written_line_def)
    ultimately show ?thesis using wm(3) line(4) ts by simp
  qed
next
  case 2
  then show ?case by simp
next
  case (3 t ts)
  obtain y ys' where ys: "ys = y # ys'" "laid (length pre) t y" "laid_forest (length (pre @ subtree_text t)) ts ys'"
    using "3.prems"(2) by auto
  have u: "utf8_ok (subtree_text t)" "utf8_ok (forest_text ts)"
    unfolding forest_text_def subtree_text_def by (rule utf8_concat; use "3.prems"(5) in auto)+
  have v: "ms_virtual src = pre @ subtree_text t @ (forest_text ts @ post)"
    "ms_virtual src = (pre @ subtree_text t) @ forest_text ts @ post"
    using "3.prems"(3) by simp_all
  have pu: "utf8_ok (forest_text ts @ post)" "utf8_ok (pre @ subtree_text t)"
    using u "3.prems"(4,6) by (simp_all add: utf8_ok_append)
  obtain z where z: "finalize_projected_subtree src y = Ret z" "outline z = outline t" "\<forall>w \<in> set (subtrees z). covered src w"
    "range_start (line_range (owned_node z)) = length pre"
    "range_end (span_range (node_span (owned_node z))) = length pre + length (subtree_text t)"
    using "3.IH"(1) [OF _ ys(2) v(1) "3.prems"(4) _ pu(1)] "3.prems"(1,5) by auto
  obtain zs where zs: "finalize_projected_forest src ys' = Ret zs" "map outline zs = map outline ts"
    "\<forall>w \<in> set (subtrees_of zs). covered src w"
    "zs \<noteq> [] \<longrightarrow> range_start (line_range (owned_node (hd zs))) = length (pre @ subtree_text t) \<and>
       range_end (span_range (node_span (owned_node (last zs)))) = length (pre @ subtree_text t) + length (forest_text ts)"
    using "3.IH"(2) [OF _ ys(3) v(2) pu(2) _ "3.prems"(6)] "3.prems"(1,5) by auto
  have "zs = [] \<longleftrightarrow> ts = []" using map_eq_imp_length_eq [OF zs(2)] by auto
  then show ?case using ys(1) z zs by auto
qed

subsection \<open>The projection\<close>

definition separator :: "str \<Rightarrow> str" where
  "separator virt = (if virt = [] \<or> last virt = CHR 0x0A \<or> last virt = CHR 0x0D then [] else [CHR 0x0A])"

lemma writable_lines:
  assumes "mapped_source_ok src"
  shows "writable src t \<Longrightarrow> \<forall>n \<in> set (subtree_nodes t). utf8_ok (written_line n) \<and> written_line n \<noteq> []"
    and "\<forall>t \<in> set ts. writable src t \<Longrightarrow> \<forall>n \<in> set (forest_nodes ts). utf8_ok (written_line n) \<and> written_line n \<noteq> []"
proof (induction t and ts rule: subtree_nodes_forest_nodes.induct)
  case (1 l n ts)
  have "utf8_ok (written_line n) \<and> written_line n \<noteq> []"
  proof (cases "l = None")
    case True
    then show ?thesis using "1.prems" node_ok_utf8 [OF assms] by (simp add: node_ok_def)
  next
    case False
    then have fr: "fresh_line n" using "1.prems" by simp
    then have "written_line n \<noteq> []" by (simp add: fresh_line_def written_line_def)
    then show ?thesis using fresh_line_utf8 [OF fr] by simp
  qed
  then show ?case using 1 by auto
qed auto

lemma generated_span_ok:
  assumes "call_span_ok src call"
  shows "generated_ok (ms_original src) x (span_origins (generated_span call x))" "span_origins (generated_span call x) \<noteq> []"
  using assms by (auto simp: call_span_ok_def generated_ok_def generated_span_def)

lemma project_forest_Ret:
  assumes src: "mapped_source_ok src" and call: "call_span_ok src call" and x: "graph_contains (ms_expansions src) x"
    and virt: "ms_virtual src \<noteq> []" and forest: "\<forall>t \<in> set ts. sections_only t \<and> writable src t"
  shows "\<exists>P zs. project_forest src ts call x = Ret (P, zs) \<and> mapped_source_ok P \<and>
    ms_original P = ms_original src \<and> ms_expansions P = ms_expansions src \<and>
    ms_virtual P = ms_virtual src @ (if ts = [] then [] else separator (ms_virtual src) @ forest_text ts) \<and>
    map outline zs = map outline ts \<and> (\<forall>w \<in> set (subtrees_of zs). covered P w)"
proof (cases "ts = []")
  case True
  then show ?thesis using src by (simp add: project_forest_def)
next
  case False
  let ?v = "ms_virtual src" and ?ss = "segments (ms_source_map src)" and ?g = "ms_expansions src" and ?o = "ms_original src"
  define os where "os = span_origins (generated_span call x)"
  have os: "generated_ok ?o x os" "os \<noteq> []" unfolding os_def using generated_span_ok [OF call] by blast+
  have b0: "built ?o ?g ?v ?ss"
    using src virt by (auto simp: mapped_source_ok_def source_map_ok_def segments_ok_def built_def)
  define segs where "segs = (if needs_newline ?v
    then ?ss @ [segment_with_origins (range_new (length ?v) (length ?v + 1)) os] else ?ss)"
  have sep: "separator ?v = (if needs_newline ?v then [CHR 0x0A] else [])"
    by (auto simp: separator_def needs_newline_def)
  have b1: "built ?o ?g (?v @ separator ?v) segs"
  proof (cases "needs_newline ?v")
    case True
    let ?r = "range_new (length ?v) (length ?v + 1)"
    have "is_valid_for ?r (?v @ [CHR 0x0A])"
      using valid_middle(1) [OF utf8_newline, of "[]" ?v] by simp
    then have "built ?o ?g (?v @ [CHR 0x0A]) (?ss @ [segment_with_origins ?r os])"
      using generated_segment_ok [OF os x] by (intro built_extend [OF b0 utf8_newline]) simp_all
    then show ?thesis using True by (simp add: segs_def sep)
  qed (use b0 in \<open>simp add: segs_def sep\<close>)
  let ?out = "?v @ separator ?v"
  obtain ys segs' where ys: "append_projected_forest src os ts (?out, segs) = Ret (ys, ?out @ forest_text ts, segs')"
    "built ?o ?g (?out @ forest_text ts) segs'" "laid_forest (length ?out) ts ys"
    using append_projected(2) [OF src os x _ b1] forest by blast
  have segs_ok: "segments_ok ?o (?out @ forest_text ts) ?g segs'"
    using ys(2) virt by (simp add: built_def segments_ok_def)
  define P where "P = \<lparr>ms_original = ?o, ms_virtual = ?out @ forest_text ts,
    ms_source_map = \<lparr>original_len = length ?o, virtual_len = length (?out @ forest_text ts), segments = segs'\<rparr>,
    ms_expansions = ?g\<rparr>"
  have new: "mapped_source_new ?o (?out @ forest_text ts) ?g segs' = Ret P"
    using src segs_ok by (simp add: mapped_source_new_Ret_iff P_def mapped_source_ok_def)
  have ok: "mapped_source_ok P"
    using src segs_ok ys(2) by (simp add: P_def mapped_source_ok_def source_map_ok_def built_def)
  have "\<forall>t \<in> set ts. sections_only t" "\<forall>n \<in> set (forest_nodes ts). utf8_ok (written_line n) \<and> written_line n \<noteq> []"
    using forest writable_lines(2) [OF src] by auto
  moreover have "utf8_ok ?out" using b1 by (simp add: built_def)
  ultimately obtain zs where zs: "finalize_projected_forest P ys = Ret zs" "map outline zs = map outline ts"
    "\<forall>w \<in> set (subtrees_of zs). covered P w"
    using finalize_projected(2) [OF ok, of ts ?out ys "[]"] ys(3) by (auto simp: P_def)
  have "project_forest src ts call x = Ret (P, zs)"
  proof (cases "needs_newline ?v")
    case True
    then have "segs = ?ss @ [\<lparr>virtual_range = range_new (length ?v) (length ?v + 1), seg_origins = os\<rparr>]"
      by (simp add: segs_def segment_with_origins_def)
    then show ?thesis using False ys(1) new zs(1) True sep
      by (simp add: project_forest_def Let_def os_def [symmetric] del: append_assoc)
  next
    case no: False
    then have "segs = ?ss" by (simp add: segs_def)
    then show ?thesis using False ys(1) new zs(1) no sep
      by (simp add: project_forest_def Let_def os_def [symmetric])
  qed
  then show ?thesis using ok zs False by (intro exI [of _ P] exI [of _ zs]) (simp add: P_def)
qed

end
