(* ===== verification/Tree_Refine.thy ===== *)
theory Tree_Refine
  imports Tree_Projection
begin

text \<open>
  The edit of a forest against its specification: \<open>edit_at\<close> replaces one subtree by a forest, and
  \<open>attach\<close> hands the children of the replaced section to the generated one that was named.
\<close>

subsection \<open>The specification\<close>

fun edit_at :: "raw_node_id \<Rightarrow> (owned \<Rightarrow> owned list) \<Rightarrow> owned \<Rightarrow> owned list" where
  "edit_at target f (Owned l n xs) =
     (if node_id n = target then f (Owned l n xs) else [Owned l n (concat (map (edit_at target f) xs))])"

abbreviation edit_forest :: "raw_node_id \<Rightarrow> (owned \<Rightarrow> owned list) \<Rightarrow> owned list \<Rightarrow> owned list" where
  "edit_forest target f xs \<equiv> concat (map (edit_at target f) xs)"

fun attach :: "generated_id \<Rightarrow> (owned list \<Rightarrow> owned list) \<Rightarrow> owned \<Rightarrow> owned" where
  "attach i f (Owned l n xs) = Owned l n (if l = Some i then f xs else map (attach i f) xs)"

definition retained_forest :: "retained_children option \<Rightarrow> owned list \<Rightarrow> owned list \<Rightarrow> owned list" where
  "retained_forest retained original new = (case retained of
      None \<Rightarrow> new
    | Some r \<Rightarrow> map (attach (ret_parent r)
        (\<lambda>xs. case ret_placement r of Prepend \<Rightarrow> original @ xs | Append \<Rightarrow> xs @ original)) new)"

definition edited :: "tree_edit \<Rightarrow> owned list \<Rightarrow> owned \<Rightarrow> owned list" where
  "edited edit new x = (case edit of
      ReplaceNode _ retained \<Rightarrow> retained_forest retained (owned_children x) new
    | ReplaceChildren _ \<Rightarrow> [Owned (local_id x) (owned_node x) new])"

subsection \<open>Finding\<close>

lemma find_subtree_None: "find_subtree xs target = None \<longleftrightarrow> target \<notin> node_id ` set (forest_nodes xs)"
  by (induction xs target rule: find_subtree.induct) (auto simp: image_Un split: option.splits)

lemma find_subtree_Some:
  "find_subtree xs target = Some x \<Longrightarrow> x \<in> set (subtrees_of xs) \<and> root_id x = target"
  by (induction xs target rule: find_subtree.induct) (auto split: option.splits if_splits)

lemma edit_at_absent:
  "target \<notin> node_id ` set (subtree_nodes x) \<Longrightarrow> edit_at target f x = [x]"
  "target \<notin> node_id ` set (forest_nodes xs) \<Longrightarrow> edit_forest target f xs = xs"
  by (induction x and xs rule: subtree_nodes_forest_nodes.induct) (auto simp: image_Un)

lemma replace_node_absent:
  "target \<notin> node_id ` set (forest_nodes xs) \<Longrightarrow> replace_node xs target new r = Ret (xs, False)"
  by (induction xs target new r rule: replace_node.induct) (auto simp: image_Un)

lemma replace_node_found:
  "distinct (map node_id (forest_nodes xs)) \<Longrightarrow> find_subtree xs target = Some x \<Longrightarrow>
     replace_node xs target new r =
       obind (retain_children new r (owned_children x)) (\<lambda>ys. Ret (edit_forest target (\<lambda>_. ys) xs, True))"
proof (induction xs target arbitrary: x rule: find_subtree.induct)
  case (2 l n children rest target)
  have d: "distinct (map node_id (forest_nodes children))" "distinct (map node_id (forest_nodes rest))"
    "node_id n \<notin> node_id ` set (forest_nodes children)" "node_id n \<notin> node_id ` set (forest_nodes rest)"
    "node_id ` set (forest_nodes children) \<inter> node_id ` set (forest_nodes rest) = {}"
    using "2.prems"(1) by auto
  show ?case
  proof (cases "node_id n = target")
    case True
    then have "x = Owned l n children" using "2.prems"(2) by simp
    then show ?thesis using True d edit_at_absent(2) [of target rest] by simp
  next
    case False
    show ?thesis
    proof (cases "find_subtree children target")
      case None
      then have c: "target \<notin> node_id ` set (forest_nodes children)" using find_subtree_None by blast
      have "replace_node rest target new r =
          obind (retain_children new r (owned_children x)) (\<lambda>ys. Ret (edit_forest target (\<lambda>_. ys) rest, True))"
        using "2.IH"(2) [OF False None d(2)] "2.prems"(2) False None by simp
      then show ?thesis using False replace_node_absent [OF c] edit_at_absent(2) [OF c]
        by (cases "retain_children new r (owned_children x)") simp_all
    next
      case (Some y)
      then have y: "y = x" using "2.prems"(2) False by simp
      have "target \<in> node_id ` set (forest_nodes children)" using Some find_subtree_None [of children target] by auto
      then have c: "target \<notin> node_id ` set (forest_nodes rest)" using d(5) by auto
      have "replace_node children target new r =
          obind (retain_children new r (owned_children x)) (\<lambda>ys. Ret (edit_forest target (\<lambda>_. ys) children, True))"
        using "2.IH"(1) [OF False d(1) Some] y by simp
      then show ?thesis using False edit_at_absent(2) [OF c]
        by (cases "retain_children new r (owned_children x)") simp_all
    qed
  qed
qed simp

lemma replace_children_absent:
  "target \<notin> node_id ` set (forest_nodes xs) \<Longrightarrow> replace_children xs target new = (xs, False)"
  by (induction xs target new rule: replace_children.induct) (auto simp: image_Un)

lemma replace_children_found:
  "distinct (map node_id (forest_nodes xs)) \<Longrightarrow> target \<in> node_id ` set (forest_nodes xs) \<Longrightarrow>
     replace_children xs target new = (edit_forest target (\<lambda>x. [Owned (local_id x) (owned_node x) new]) xs, True)"
proof (induction xs target new rule: replace_children.induct)
  case (2 l n children rest target new)
  have d: "distinct (map node_id (forest_nodes children))" "distinct (map node_id (forest_nodes rest))"
    "node_id n \<notin> node_id ` set (forest_nodes rest)"
    "node_id ` set (forest_nodes children) \<inter> node_id ` set (forest_nodes rest) = {}"
    using "2.prems"(1) by auto
  show ?case
  proof (cases "node_id n = target")
    case True
    then show ?thesis using d edit_at_absent(2) [of target rest] by simp
  next
    case False
    show ?thesis
    proof (cases "target \<in> node_id ` set (forest_nodes children)")
      case True
      then have c: "target \<notin> node_id ` set (forest_nodes rest)" using d(4) by auto
      then show ?thesis using False "2.IH"(1) [OF False d(1) True] edit_at_absent(2) [OF c] by simp
    next
      case no: False
      have c: "replace_children children target new = (children, False)" using replace_children_absent [OF no] .
      have "replace_children rest target new = (edit_forest target (\<lambda>x. [Owned (local_id x) (owned_node x) new]) rest, True)"
        using "2.IH"(2) [OF False c [symmetric] refl d(2)] "2.prems"(2) no False by auto
      then show ?thesis using False c edit_at_absent(2) [OF no] by simp
    qed
  qed
qed simp

subsection \<open>Retained children\<close>

lemma find_generated_None: "find_generated xs i = None \<longleftrightarrow> Some i \<notin> local_id ` set (subtrees_of xs)"
  by (induction xs i rule: find_generated.induct) (auto simp: image_Un split: option.splits)

lemma find_generated_Some:
  "find_generated xs i = Some x \<Longrightarrow> x \<in> set (subtrees_of xs) \<and> local_id x = Some i"
  by (induction xs i rule: find_generated.induct) (auto split: option.splits if_splits)

lemma attach_absent:
  "Some i \<notin> local_id ` set (subtrees x) \<Longrightarrow> attach i f x = x"
  "Some i \<notin> local_id ` set (subtrees_of xs) \<Longrightarrow> map (attach i f) xs = xs"
  by (induction x and xs rule: subtrees_subtrees_of.induct) (auto simp: image_Un)

lemma update_generated_attach:
  "distinct (map local_id (subtrees_of xs)) \<Longrightarrow> update_generated f xs i = map (attach i f) xs"
proof (induction f xs i rule: update_generated.induct)
  case (2 f l n children rest i)
  have d: "distinct (map local_id (subtrees_of children))" "distinct (map local_id (subtrees_of rest))"
    "l \<notin> local_id ` set (subtrees_of rest)" "local_id ` set (subtrees_of children) \<inter> local_id ` set (subtrees_of rest) = {}"
    using "2.prems" by auto
  consider "l = Some i" | "l \<noteq> Some i" "find_generated children i \<noteq> None" | "l \<noteq> Some i" "find_generated children i = None" by blast
  then show ?case
  proof cases
    case 1
    then show ?thesis using attach_absent(2) [of i rest] d(3) by simp
  next
    case 2
    then have "Some i \<in> local_id ` set (subtrees_of children)" using find_generated_None [of children i] by metis
    then have "Some i \<notin> local_id ` set (subtrees_of rest)" using d(4) by auto
    then show ?thesis using 2 "2.IH"(1) [OF 2 d(1)] attach_absent(2) by simp
  next
    case 3
    then have "Some i \<notin> local_id ` set (subtrees_of children)" using find_generated_None [of children i] by metis
    then show ?thesis using 3 "2.IH"(2) [OF 3(1) _ d(2)] attach_absent(2) by simp
  qed
qed simp

subsection \<open>What an edited forest satisfies\<close>

text \<open>Only sections have children, and every line can be written.\<close>

definition sound :: "mapped_source \<Rightarrow> owned \<Rightarrow> bool" where
  "sound src x \<longleftrightarrow> sections_only x \<and> writable src x"

lemma sound_simps [simp]:
  "sound src (Owned l n xs) \<longleftrightarrow> (xs \<noteq> [] \<longrightarrow> node_kind n = Section) \<and>
     (if l = None then node_ok src n else fresh_line n) \<and> (\<forall>x \<in> set xs. sound src x)"
  by (auto simp: sound_def)

lemma edit_at_sound:
  assumes "\<And>x. sound src x \<Longrightarrow> root_id x = target \<Longrightarrow> \<forall>y \<in> set (f x). sound src y"
  shows "sound src x \<Longrightarrow> \<forall>y \<in> set (edit_at target f x). sound src y"
proof (induction x)
  case (Owned l n xs)
  show ?case
  proof (cases "node_id n = target")
    case True
    then show ?thesis using assms [OF Owned.prems] by simp
  next
    case False
    have "\<forall>y \<in> set (edit_forest target f xs). sound src y" using Owned by fastforce
    moreover have "edit_forest target f xs \<noteq> [] \<longrightarrow> xs \<noteq> []" by auto
    ultimately show ?thesis using Owned.prems False by simp
  qed
qed

lemma attach_sound:
  assumes "\<And>xs. \<forall>x \<in> set xs. sound src x \<Longrightarrow> \<forall>y \<in> set (f xs). sound src y"
  shows "sound src x \<Longrightarrow> \<forall>y \<in> set (subtrees x). local_id y = Some i \<longrightarrow> node_kind (owned_node y) = Section \<Longrightarrow>
     sound src (attach i f x)"
proof (induction x)
  case (Owned l n xs)
  have sub: "sound src (attach i f x)" if "x \<in> set xs" for x
  proof (rule Owned.IH [OF that])
    show "sound src x" using Owned.prems(1) that by simp
    have "set (subtrees x) \<subseteq> set (subtrees_of xs)" using that by (induction xs) auto
    then show "\<forall>y \<in> set (subtrees x). local_id y = Some i \<longrightarrow> node_kind (owned_node y) = Section"
      using Owned.prems(2) by auto
  qed
  then show ?case using Owned.prems assms [of xs] by auto
qed

lemma generated_raw_node_simps [simp]:
  "node_kind (generated_raw_node g sp pt line context) = raw_kind (gen_kind g)"
  "raw_kind k = Section \<longleftrightarrow> k = GenSection"
  by (simp_all add: generated_raw_node_def raw_kind_def split: generated_kind.splits)

lemma generated_fresh: "utf8_ok (gen_text g) \<Longrightarrow> fresh_line (generated_raw_node g sp pt line context)"
  by (cases "gen_kind g")
    (auto simp: fresh_line_def generated_raw_node_def generated_raw_text_def raw_kind_def utf8_ok_append
      utf8_ok.simps [of "'':''"] utf8_step_def)

lemma generated_sound:
  assumes ok: "fragment_ok f" and "\<forall>g \<in> set (gen_nodes f). utf8_ok (gen_text g)"
  shows "generated_at f sp pt line context x \<Longrightarrow> sound src x"
proof (induction x)
  case (Owned l n xs)
  obtain g where g: "g \<in> set (gen_nodes f)" "l = Some (gen_id g)" "n = generated_raw_node g sp pt line context"
    "map local_id xs = map Some (gen_children g)" using Owned.prems by auto
  have "gen_kind g = GenSection" if "xs \<noteq> []"
  proof -
    have "gen_children g \<noteq> []" using g(4) that by auto
    then show ?thesis using ok g(1) by (auto simp: fragment_ok_def)
  qed
  then show ?case using Owned g generated_fresh assms(2) by auto
qed

lemma generated_kind_at:
  "generated_at f sp pt line context x \<Longrightarrow> y \<in> set (subtrees x) \<Longrightarrow>
     \<exists>g \<in> set (gen_nodes f). local_id y = Some (gen_id g) \<and> node_kind (owned_node y) = raw_kind (gen_kind g)"
  "\<forall>x \<in> set xs. generated_at f sp pt line context x \<Longrightarrow> y \<in> set (subtrees_of xs) \<Longrightarrow>
     \<exists>g \<in> set (gen_nodes f). local_id y = Some (gen_id g) \<and> node_kind (owned_node y) = raw_kind (gen_kind g)"
  by (induction x and xs rule: subtrees_subtrees_of.induct) auto

subsection \<open>Stored nodes\<close>

lemma stored_subtrees:
  "stored t x \<Longrightarrow> y \<in> set (subtrees x) \<Longrightarrow> stored t y"
  "\<forall>x \<in> set xs. stored t x \<Longrightarrow> y \<in> set (subtrees_of xs) \<Longrightarrow> stored t y"
  by (induction x and xs rule: subtrees_subtrees_of.induct) auto

lemma stored_sound:
  assumes "\<forall>n \<in> set (tree_nodes t). node_ok src n"
  shows "stored t x \<Longrightarrow> sections_only x \<Longrightarrow> sound src x"
proof (induction x)
  case (Owned l n xs)
  have "n \<in> set (tree_nodes t)" using Owned.prems(1) by (auto simp: tree_get_def split: if_splits) (metis nth_mem)
  then show ?case using Owned assms by auto
qed

end
