(* ===== verification/Tree_Correct.thy ===== *)
theory Tree_Correct
  imports Tree_Refine
begin

text \<open>
  \<open>apply_tree_edit\<close> as a whole: on an editable tree it answers for every target and every fragment,
  and its result refines the edit of the forest.
\<close>

definition names_ok :: "tree_edit_metadata \<Rightarrow> bool" where
  "names_ok meta \<longleftrightarrow> \<not> is_blank (edit_component meta) \<and> \<not> is_blank (edit_hook meta)"

definition texts_ok :: "generated_tree \<Rightarrow> bool" where
  "texts_ok f \<longleftrightarrow> (\<forall>g \<in> set (gen_nodes f). utf8_ok (gen_text g))"

lemma span_of_call:
  assumes "mapped_source_ok src" and "span_of src sp"
  shows "call_span_ok src sp"
proof -
  have v: "is_valid_for (span_range sp) (ms_virtual src)"
    using assms(2) by (auto simp: span_of_def ms_map_range_def split: if_splits)
  have "span_origins sp \<noteq> []" "\<forall>org \<in> set (span_origins sp).
      origin_faithful (ms_original src) (ms_virtual src) (ms_expansions src) (span_range sp) org"
    using ms_map_range_sound [OF assms(1) v] assms(2) by (auto simp: span_of_def)
  then show ?thesis using v
    by (auto simp: call_span_ok_def origin_faithful_def origin_ok_def origin_site_def site_known_def graph_contains_def)
qed

lemma node_ok_expansions: "node_ok (src\<lparr>ms_expansions := g\<rparr>) n = node_ok src n"
  by (simp add: node_ok_def span_of_def ms_map_range_def)

lemma sound_expansions: "sound (src\<lparr>ms_expansions := g\<rparr>) x = sound src x"
  by (induction x) (simp add: node_ok_expansions cong: conj_cong)

lemma register_tree_cases:
  assumes src: "mapped_source_ok src" and call: "call_span_ok src sp" and meta: "metadata_ok src meta"
  obtains (registered) app where "register_tree_expansion src sp meta = Ret app"
      "next_id (ms_expansions src) = Ret (xea_expansion app)"
      "mapped_source_ok (xea_source app)" "xea_source app = src\<lparr>ms_expansions := ms_expansions (xea_source app)\<rparr>"
      "graph_contains (ms_expansions (xea_source app)) (xea_expansion app)"
      "\<And>x. graph_contains (ms_expansions src) x \<Longrightarrow> graph_contains (ms_expansions (xea_source app)) x"
  | (exhausted) "register_tree_expansion src sp meta = Fail (TreeExpansionGraph IdExhausted)"
      "next_id (ms_expansions src) = Fail IdExhausted"
proof (cases "next_id (ms_expansions src)")
  case (Ret x)
  then obtain app where app: "register_non_text_expansion src [sp] TreeKind meta = Ret app"
    using register_expansion_cases(1) [OF src, of "[sp]" TreeKind meta] metadata_registration [OF meta Ret] call by auto
  note r = register_expansion_cases(2) [OF src app]
  have "mapped_source_ok (xea_source app)" using r meta by (auto simp: metadata_ok_def)
  show thesis
    by (rule registered [of app]) (use app r \<open>mapped_source_ok (xea_source app)\<close> in \<open>auto simp: register_tree_expansion_def graph_contains_def bt_contains_def\<close>)
next
  case (Fail e)
  then have n: "next_id (ms_expansions src) = Fail IdExhausted" using next_id_cases [of "ms_expansions src"] by auto
  have "\<exists>sites. try_for (\<lambda>site call_sites.
     if \<not> is_valid_for (span_range site) (ms_virtual src) then Fail (TreeInvalidVirtualRange (span_range site))
     else if span_origins site = [] then Fail TreeMissingOrigins
     else try_for (\<lambda>org sites.
       if \<not> is_valid_for (original_range org) (ms_original src)
         then Fail (TreeInvalidOriginalRange (original_range org))
       else obind
         (case origin_expansion org of
            Some x \<Rightarrow> if graph_contains (ms_expansions src) x then Ret ()
                      else Fail (TreeUnknownExpansion x)
          | None \<Rightarrow> Ret ())
         (\<lambda>_. Ret (push_unique sites (origin_site org)))) (span_origins site) call_sites) [sp] [] = Ret sites"
    unfolding span_loop_Ret_iff using call by simp
  then show thesis
    using n by (intro exhausted) (auto simp: register_tree_expansion_def register_non_text_expansion_def simp del: try_for.simps)
next
  case Panic
  then show thesis using next_id_cases [of "ms_expansions src"] by auto
qed

subsection \<open>Retaining\<close>

definition retain_ok :: "generated_tree \<Rightarrow> retained_children option \<Rightarrow> bool" where
  "retain_ok f retained \<longleftrightarrow> (\<forall>r. retained = Some r \<longrightarrow>
     (\<exists>g \<in> set (gen_nodes f). gen_id g = ret_parent r \<and> gen_kind g = GenSection))"

lemma gen_id_mem: "g \<in> set (gen_nodes f) \<Longrightarrow> gen_id g \<in> set (gen_ids f)"
  by (simp add: gen_ids_def)

lemma retain_children_cases:
  assumes new: "\<forall>x \<in> set new. generated_at f sp pt line ctx x" "distinct (map local_id (subtrees_of new))"
    "local_id ` set (subtrees_of new) = Some ` set (gen_ids f)" and ids: "distinct (gen_ids f)"
  obtains (kept) "retain_ok f retained" "retain_children new retained original = Ret (retained_forest retained original new)"
  | (unknown) r where "retained = Some r" "ret_parent r \<notin> set (gen_ids f)"
      "retain_children new retained original = Fail (UnknownRetainedChildrenParent (ret_parent r))"
  | (leaf) r g where "retained = Some r" "g \<in> set (gen_nodes f)" "gen_id g = ret_parent r" "gen_kind g \<noteq> GenSection"
      "retain_children new retained original = Fail (RetainedChildrenParentNotSection (ret_parent r))"
proof (cases retained)
  case None
  then show thesis by (intro kept) (simp_all add: retain_ok_def retain_children_def retained_forest_def)
next
  case (Some r)
  show thesis
  proof (cases "find_generated new (ret_parent r)")
    case None
    then have "ret_parent r \<notin> set (gen_ids f)" using find_generated_None [of new "ret_parent r"] new(3) by auto
    then show thesis using None Some by (intro unknown [of r]) (simp_all add: retain_children_def)
  next
    case found: (Some y)
    note y = find_generated_Some [OF found]
    obtain g where g: "g \<in> set (gen_nodes f)" "local_id y = Some (gen_id g)" "node_kind (owned_node y) = raw_kind (gen_kind g)"
      using generated_kind_at(2) [OF new(1)] y by blast
    then have gid: "gen_id g = ret_parent r" using y by simp
    show thesis
    proof (cases "gen_kind g = GenSection")
      case True
      have "retain_children new retained original = Ret (retained_forest retained original new)"
        using Some found g(3) True update_generated_attach [OF new(2)]
        by (simp add: retain_children_def retained_forest_def)
      moreover have "retain_ok f retained" using Some g(1) gid True by (auto simp: retain_ok_def)
      ultimately show thesis by (rule kept [rotated])
    next
      case False
      then show thesis using Some found g gid by (intro leaf [of r g]) (simp_all add: retain_children_def)
    qed
  qed
qed

lemma retained_sound:
  assumes new: "\<forall>x \<in> set new. generated_at f sp pt line ctx x" and snd: "\<forall>x \<in> set new. sound src x" "\<forall>x \<in> set original. sound src x"
    and ok: "retain_ok f retained" and ids: "distinct (gen_ids f)"
  shows "\<forall>x \<in> set (retained_forest retained original new). sound src x"
proof (cases retained)
  case None
  then show ?thesis using snd by (simp add: retained_forest_def)
next
  case (Some r)
  obtain g where g: "g \<in> set (gen_nodes f)" "gen_id g = ret_parent r" "gen_kind g = GenSection"
    using ok Some by (auto simp: retain_ok_def)
  have kind: "node_kind (owned_node y) = Section" if "x \<in> set new" "y \<in> set (subtrees x)" "local_id y = Some (ret_parent r)" for x y
  proof -
    note at = generated_kind_at(1) [OF bspec [OF new that(1)] that(2)]
    then obtain h where h: "h \<in> set (gen_nodes f)" "local_id y = Some (gen_id h)" "node_kind (owned_node y) = raw_kind (gen_kind h)"
      by blast
    then have "h = g" using node_of_id(1) [OF ids] g that(3) by (metis option.inject)
    then show ?thesis using h g by simp
  qed
  show ?thesis
    unfolding retained_forest_def Some
    using snd kind by (auto intro!: attach_sound split: placement.splits)
qed

subsection \<open>The edit\<close>

text \<open>
  What a successful edit yields: the forest of the new tree is the edited forest of the old one, its
  lines stand behind the old text, and every node spans the text of its subtree.
\<close>

definition refined ::
    "mapped_source \<Rightarrow> raw_tree \<Rightarrow> raw_node_id \<Rightarrow> tree_edit \<Rightarrow> tree_edit_application \<Rightarrow> bool" where
  "refined src t target edit app \<longleftrightarrow>
     (\<exists>forest forest' new sp pt line.
        arena t forest \<and> arena (app_tree app) forest' \<and>
        map local_id new = map Some (gen_roots (edit_fragment edit)) \<and>
        (\<forall>x \<in> set new. generated_at (edit_fragment edit) sp pt line (app_syntax_context app) x) \<and>
        map outline forest' = map outline (edit_forest target (edited edit new) forest) \<and>
        (\<forall>x \<in> set (subtrees_of forest'). covered (app_source app) x) \<and>
        ms_virtual (app_source app) = ms_virtual src @
          (if forest' = [] then [] else separator (ms_virtual src) @ forest_text forest')) \<and>
     ms_original (app_source app) = ms_original src \<and>
     tree_diagnostics (app_tree app) = tree_diagnostics t \<and> tree_indentation (app_tree app) = tree_indentation t \<and>
     app_replacement_roots app = length (gen_roots (edit_fragment edit)) \<and>
     next_id (ms_expansions src) = Ret (app_expansion app) \<and>
     graph_contains (ms_expansions (app_source app)) (app_expansion app) \<and>
     (\<forall>x. graph_contains (ms_expansions src) x \<longrightarrow> graph_contains (ms_expansions (app_source app)) x)"

lemma placed_covered:
  "\<forall>y \<in> set (subtrees x). covered src y \<Longrightarrow> \<forall>y \<in> set (subtrees (placed b p x)). covered src y"
  "\<forall>y \<in> set (subtrees_of xs). covered src y \<Longrightarrow> \<forall>y \<in> set (subtrees_of (placed_forest b p xs)). covered src y"
  "outline (placed b p x) = outline x" "map outline (placed_forest b p xs) = map outline xs"
proof -
  have o: "outline (placed b p x) = outline x" "map outline (placed_forest b p xs) = map outline xs" for b p x xs
    by (induction b p x and b p xs rule: placed_placed_forest.induct) auto
  then show "outline (placed b p x) = outline x" "map outline (placed_forest b p xs) = map outline xs" by blast+
  have ok: "node_ok src (n\<lparr>node_id := i, node_parent := q, node_children := cs\<rparr>) = node_ok src n" for n i q cs
    by (simp add: node_ok_def fits_def line_spans_def written_line_def Let_def cong: option.case_cong)
  have w: "written_line (n\<lparr>node_id := i, node_parent := q, node_children := cs\<rparr>) = written_line n" for n i q cs
    by (simp add: written_line_def)
  have imp: "(\<forall>y \<in> set (subtrees x). covered src y) \<longrightarrow> (\<forall>y \<in> set (subtrees (placed b p x)). covered src y)"
    "(\<forall>y \<in> set (subtrees_of xs). covered src y) \<longrightarrow> (\<forall>y \<in> set (subtrees_of (placed_forest b p xs)). covered src y)" for b p x xs
  proof (induction b p x and b p xs rule: placed_placed_forest.induct)
    case (1 b p l n xs)
    have "forest_text (placed_forest (b + 1) (Some b) xs) = forest_text xs"
      using outline_facts(2) [OF o(2)] by blast
    then have "covered src (placed b p (Owned l n xs)) = covered src (Owned l n xs)"
      by (simp add: covered_def ok w)
    then show ?case using "1.IH" by simp
  next
    case (3 b p x xs)
    then show ?case unfolding subtrees_of.simps placed_forest.simps set_append ball_Un by blast
  qed simp
  show "\<forall>y \<in> set (subtrees (placed b p x)). covered src y" if "\<forall>y \<in> set (subtrees x). covered src y"
    by (rule imp(1) [THEN mp, OF that])
  show "\<forall>y \<in> set (subtrees_of (placed_forest b p xs)). covered src y" if "\<forall>y \<in> set (subtrees_of xs). covered src y"
    by (rule imp(2) [THEN mp, OF that])
qed

lemma subtrees_nodes:
  "map owned_node (subtrees x) = subtree_nodes x" "map owned_node (subtrees_of xs) = forest_nodes xs"
  by (induction x and xs rule: subtrees_subtrees_of.induct) auto

lemma project_flatten:
  assumes src: "mapped_source_ok src" and call: "call_span_ok src call" and x: "graph_contains (ms_expansions src) x"
    and virt: "ms_virtual src \<noteq> []" and forest: "\<forall>y \<in> set ts. sound src y"
  shows "\<exists>P zs forest'. project_forest src ts call x = Ret (P, zs) \<and> editable P (flatten_tree zs t) \<and>
    ms_original P = ms_original src \<and> ms_expansions P = ms_expansions src \<and> arena (flatten_tree zs t) forest' \<and>
    map outline forest' = map outline ts \<and> (\<forall>w \<in> set (subtrees_of forest'). covered P w) \<and>
    ms_virtual P = ms_virtual src @ (if forest' = [] then [] else separator (ms_virtual src) @ forest_text forest')"
proof -
  have "\<forall>y \<in> set ts. sections_only y \<and> writable src y" using forest by (simp add: sound_def)
  from project_forest_Ret [OF src call x virt this] obtain P zs where
    P: "project_forest src ts call x = Ret (P, zs)" "mapped_source_ok P" "ms_original P = ms_original src"
      "ms_expansions P = ms_expansions src"
      "ms_virtual P = ms_virtual src @ (if ts = [] then [] else separator (ms_virtual src) @ forest_text ts)"
      "map outline zs = map outline ts" "\<forall>w \<in> set (subtrees_of zs). covered P w"
    by blast
  let ?f = "placed_forest 0 None zs" and ?t = "flatten_tree zs t"
  have o: "map outline ?f = map outline ts" using placed_covered(4) P(6) by metis
  have cov: "\<forall>w \<in> set (subtrees_of ?f). covered P w" using placed_covered(2) P(7) by blast
  have "\<forall>y \<in> set zs. sections_only y" using outline_facts(2) [OF P(6)] forest by (simp add: sound_def)
  then have "links_ok (tree_nodes ?t) (tree_roots ?t)" by (rule flatten_links)
  moreover have "tree_nodes ?t = map owned_node (subtrees_of ?f)"
    by (simp add: flatten_tree_def flatten_placed subtrees_nodes)
  ultimately have "editable P ?t" using P(2) cov by (auto simp: editable_def covered_def)
  moreover have "?f = [] \<longleftrightarrow> ts = []" using map_eq_imp_length_eq [OF o] by auto
  ultimately show ?thesis using P(1,3-5) arena_flatten o cov outline_facts(2) [OF o]
    by (intro exI [of _ P] exI [of _ zs] exI [of _ ?f]) simp
qed

text \<open>The forest of the target, and the node that is edited.\<close>

lemma target_found:
  assumes ok: "editable src t" and a: "arena t forest" and so: "\<forall>x \<in> set forest. sections_only x"
  obtains (missing) "length (tree_nodes t) \<le> target" "find_subtree forest target = None"
  | (found) x where "target < length (tree_nodes t)" "find_subtree forest target = Some x"
      "owned_node x = tree_nodes t ! target" "node_ok src (tree_nodes t ! target)" "sound src x" "local_id x = None"
proof (cases "find_subtree forest target")
  case None
  then show thesis using missing find_subtree_None [of forest target] a by (auto simp: arena_def)
next
  case (Some x)
  note x = find_subtree_Some [OF Some]
  have st: "\<forall>y \<in> set forest. stored t y" using a by (simp add: arena_def)
  have sx: "stored t x" using stored_subtrees(2) [OF st] x by blast
  have "tree_get t (root_id x) = Some (owned_node x)" "local_id x = None" using sx by (cases x; simp)+
  then have n: "target < length (tree_nodes t)" "owned_node x = tree_nodes t ! target"
    using x by (auto simp: tree_get_def split: if_splits)
  have subs: "y \<in> set (subtrees x) \<Longrightarrow> sections_only x \<Longrightarrow> sections_only y"
    "y \<in> set (subtrees_of xs) \<Longrightarrow> \<forall>x \<in> set xs. sections_only x \<Longrightarrow> sections_only y" for x xs y
    by (induction x and xs rule: subtrees_subtrees_of.induct) auto
  have "sections_only x" using subs(2) x so by blast
  have "\<forall>n \<in> set (tree_nodes t). node_ok src n" using ok by (simp add: editable_def)
  then have "sound src x" by (rule stored_sound [OF _ sx \<open>sections_only x\<close>])
  then show thesis using found [OF n(1) Some n(2)] n ok \<open>local_id x = None\<close> by (simp add: editable_def)
qed

lemma edited_sound:
  assumes new: "\<forall>x \<in> set new. generated_at f sp pt line ctx x" "\<forall>x \<in> set new. sound src x" and ids: "distinct (gen_ids f)"
    and ok: "case edit of ReplaceNode _ retained \<Rightarrow> retain_ok f retained | ReplaceChildren _ \<Rightarrow> node_kind (owned_node x) = Section"
    and x: "sound src x" "local_id x = None"
  shows "\<forall>y \<in> set (edited edit new x). sound src y"
proof (cases x)
  case (Owned l n xs)
  show ?thesis
  proof (cases edit)
    case (ReplaceNode g retained)
    then have "retain_ok f retained" using ok by simp
    moreover have "\<forall>y \<in> set xs. sound src y" using x Owned by simp
    ultimately show ?thesis using retained_sound [OF new(1,2) _ _ ids] ReplaceNode Owned by (simp add: edited_def)
  next
    case (ReplaceChildren g)
    then show ?thesis using x Owned new(2) ok by (simp add: edited_def)
  qed
qed

lemma edit_forest_only:
  "distinct (map node_id (subtree_nodes y)) \<Longrightarrow> x \<in> set (subtrees y) \<Longrightarrow> f x = g x \<Longrightarrow>
     edit_at (root_id x) f y = edit_at (root_id x) g y"
  "distinct (map node_id (forest_nodes ys)) \<Longrightarrow> x \<in> set (subtrees_of ys) \<Longrightarrow> f x = g x \<Longrightarrow>
     edit_forest (root_id x) f ys = edit_forest (root_id x) g ys"
proof (induction y and ys rule: subtree_nodes_forest_nodes.induct)
  case (1 l n xs)
  show ?case
  proof (cases "x = Owned l n xs")
    case True
    then show ?thesis using "1.prems"(3) by simp
  next
    case False
    then have x: "x \<in> set (subtrees_of xs)" using "1.prems"(2) by simp
    then have "owned_node x \<in> set (forest_nodes xs)" using subtrees_nodes(2) [of xs] by (metis image_eqI set_map)
    then have "node_id n \<noteq> root_id x" using "1.prems"(1) by auto
    then show ?thesis using "1.IH" [OF _ x] "1.prems"(1,3) by simp
  qed
next
  case (3 y ys)
  have mem: "root_id x \<in> node_id ` set (subtree_nodes y)" if "x \<in> set (subtrees y)"
    using that subtrees_nodes(1) [of y] by (metis image_eqI set_map)
  have mems: "root_id x \<in> node_id ` set (forest_nodes ys)" if "x \<in> set (subtrees_of ys)"
    using that subtrees_nodes(2) [of ys] by (metis image_eqI set_map)
  have dis: "node_id ` set (subtree_nodes y) \<inter> node_id ` set (forest_nodes ys) = {}"
    "distinct (map node_id (subtree_nodes y))" "distinct (map node_id (forest_nodes ys))"
    using "3.prems"(1) by auto
  show ?case
  proof (cases "x \<in> set (subtrees y)")
    case True
    then have "root_id x \<notin> node_id ` set (forest_nodes ys)" using mem dis(1) by auto
    then have "edit_forest (root_id x) h ys = ys" for h by (rule edit_at_absent(2))
    then show ?thesis using "3.IH"(1) [OF dis(2) True "3.prems"(3)] by simp
  next
    case False
    then have x: "x \<in> set (subtrees_of ys)" using "3.prems"(2) by simp
    then have "root_id x \<notin> node_id ` set (subtree_nodes y)" using mems dis(1) by auto
    then have "edit_at (root_id x) h y = [y]" for h by (rule edit_at_absent(1))
    then show ?thesis using "3.IH"(2) [OF dis(3) x "3.prems"(3)] by simp
  qed
qed simp

text \<open>
  The way through the edit: what happens after the fragment has been validated and the expansion
  has been registered.
\<close>

definition finish_edit ::
    "raw_tree \<Rightarrow> raw_node_id \<Rightarrow> tree_edit \<Rightarrow> mapped_span \<Rightarrow> tree_expansion_application \<Rightarrow> owned list \<Rightarrow> owned list
      \<Rightarrow> (tree_edit_error, tree_edit_application) outcome" where
  "finish_edit t target edit call expansion forest generated =
     obind (case edit of
         ReplaceNode _ retained \<Rightarrow> replace_node forest target generated retained
       | ReplaceChildren _ \<Rightarrow> Ret (replace_children forest target generated)) (\<lambda>(forest, replaced).
     if \<not> replaced then Fail (UnknownTarget target)
     else obind (omap_err SourceMapError (project_forest (xea_source expansion) forest call (xea_expansion expansion)))
       (\<lambda>(source, forest).
     Ret \<lparr>app_source = source, app_tree = flatten_tree forest t, app_expansion = xea_expansion expansion,
       app_syntax_context = xea_syntax_context expansion, app_replacement_roots = length generated\<rparr>))"

lemma finish_edit_Ret:
  assumes ok: "editable src t" and a: "arena t forest" and so: "\<forall>x \<in> set forest. sections_only x"
    and found: "find_subtree forest target = Some x" "sound src x" "local_id x = None"
      "node_ok src (owned_node x)"
    and frag: "fragment_ok (edit_fragment edit)" "texts_ok (edit_fragment edit)"
    and new: "map local_id new = map Some (gen_roots (edit_fragment edit))"
      "\<forall>y \<in> set new. generated_at (edit_fragment edit) sp pt line (xea_syntax_context e) y"
      "distinct (map local_id (subtrees_of new))" "local_id ` set (subtrees_of new) = Some ` set (gen_ids (edit_fragment edit))"
    and e: "next_id (ms_expansions src) = Ret (xea_expansion e)" "mapped_source_ok (xea_source e)"
      "xea_source e = src\<lparr>ms_expansions := ms_expansions (xea_source e)\<rparr>"
      "graph_contains (ms_expansions (xea_source e)) (xea_expansion e)"
      "\<And>x. graph_contains (ms_expansions src) x \<Longrightarrow> graph_contains (ms_expansions (xea_source e)) x"
    and edit: "case edit of ReplaceNode f retained \<Rightarrow> retain_ok f retained | ReplaceChildren _ \<Rightarrow> node_kind (owned_node x) = Section"
  shows "\<exists>app. finish_edit t target edit (node_span (owned_node x)) e forest new = Ret app \<and>
    editable (app_source app) (app_tree app) \<and> refined src t target edit app"
proof -
  let ?f = "edit_fragment edit" and ?S = "xea_source e"
  have ids: "distinct (gen_ids ?f)" using frag(1) by (simp add: fragment_ok_def)
  have dis: "distinct (map node_id (forest_nodes forest))" using a by (simp add: arena_def)
  note x = find_subtree_Some [OF found(1)]
  have tgt: "target \<in> node_id ` set (forest_nodes forest)" using found(1) find_subtree_None [of forest target] by auto
  have snd: "\<forall>y \<in> set forest. sound src y"
    using stored_sound ok a so by (auto simp: editable_def arena_def)
  have newsound: "\<forall>y \<in> set new. sound src y"
    using generated_sound [OF frag(1)] frag(2) new(2) by (auto simp: texts_ok_def)
  let ?forest = "edit_forest target (edited edit new) forest"
  have rep: "(case edit of
         ReplaceNode _ retained \<Rightarrow> replace_node forest target new retained
       | ReplaceChildren _ \<Rightarrow> Ret (replace_children forest target new)) = Ret (?forest, True)"
  proof (cases edit)
    case (ReplaceNode g retained)
    have "retain_children new retained (owned_children x) = Ret (retained_forest retained (owned_children x) new)"
    proof (cases rule: retain_children_cases [OF new(2-4) ids, of retained "owned_children x"])
      case 1
      then show ?thesis by simp
    next
      case (2 r)
      obtain k where "k \<in> set (gen_nodes ?f)" "gen_id k = ret_parent r"
        using edit ReplaceNode 2(1) by (auto simp: retain_ok_def edit_fragment_def)
      then have "ret_parent r \<in> set (gen_ids ?f)" by (metis gen_ids_def image_eqI set_map)
      then show ?thesis using 2(2) by simp
    next
      case (3 r h)
      obtain k where k: "k \<in> set (gen_nodes ?f)" "gen_id k = ret_parent r" "gen_kind k = GenSection"
        using edit ReplaceNode 3(1) by (auto simp: retain_ok_def edit_fragment_def)
      then have "k = h" using node_of_id(1) [OF ids] 3(2,3) by metis
      then show ?thesis using k 3(4) by simp
    qed
    moreover have "edit_forest target (\<lambda>_. retained_forest retained (owned_children x) new) forest = ?forest"
      using edit_forest_only(2) [OF dis, of x "\<lambda>_. retained_forest retained (owned_children x) new" "edited edit new"] x
      by (simp add: edited_def ReplaceNode)
    ultimately show ?thesis using replace_node_found [OF dis found(1), of new retained] ReplaceNode by simp
  next
    case (ReplaceChildren g)
    then have "edited edit new = (\<lambda>x. [Owned (local_id x) (owned_node x) new])" by (auto simp: edited_def)
    then show ?thesis using replace_children_found [OF dis tgt, of new] ReplaceChildren by simp
  qed
  have fs: "\<forall>y \<in> set ?forest. sound ?S y"
  proof -
    have "\<forall>z \<in> set (edit_at target (\<lambda>y. if y = x then edited edit new x else [y]) y). sound src z" if "y \<in> set forest" for y
    proof (rule edit_at_sound)
      show "sound src y" using snd that by simp
      have "\<forall>z \<in> set (edited edit new x). sound src z"
      proof (rule edited_sound [OF new(2) newsound ids _ found(2,3)])
        show "case edit of ReplaceNode _ retained \<Rightarrow> retain_ok ?f retained | ReplaceChildren _ \<Rightarrow> node_kind (owned_node x) = Section"
          using edit by (cases edit) (simp_all add: edit_fragment_def)
      qed
      then show "\<forall>z \<in> set (if w = x then edited edit new x else [w]). sound src z" if "sound src w" for w
        using that by simp
    qed
    then have "\<forall>z \<in> set (edit_forest target (\<lambda>y. if y = x then edited edit new x else [y]) forest). sound src z" by simp
    moreover have "edit_forest target (\<lambda>y. if y = x then edited edit new x else [y]) forest = ?forest"
      using edit_forest_only(2) [OF dis, of x "\<lambda>y. if y = x then edited edit new x else [y]" "edited edit new"] x by simp
    ultimately have "\<forall>y \<in> set ?forest. sound src y" by metis
    then show ?thesis by (subst e(3)) (simp add: sound_expansions)
  qed
  have "call_span_ok src (node_span (owned_node x))"
    using span_of_call ok found(4) by (simp add: editable_def node_ok_def)
  then have call: "call_span_ok ?S (node_span (owned_node x))"
    by (subst e(3)) (use e(5) in \<open>auto simp: call_span_ok_def site_known_def graph_contains_def\<close>)
  have "ms_virtual src \<noteq> []"
  proof
    assume "ms_virtual src = []"
    then have "written_line (owned_node x) = []" using found(4) by (auto simp: node_ok_def str_slice_def split: if_splits)
    then show False using found(4) by (simp add: node_ok_def)
  qed
  then have virt: "ms_virtual ?S \<noteq> []" by (subst e(3)) simp
  obtain P zs forest' where P: "project_forest ?S ?forest (node_span (owned_node x)) (xea_expansion e) = Ret (P, zs)"
    "editable P (flatten_tree zs t)" "ms_original P = ms_original ?S" "ms_expansions P = ms_expansions ?S"
    "arena (flatten_tree zs t) forest'" "map outline forest' = map outline ?forest" "\<forall>w \<in> set (subtrees_of forest'). covered P w"
    "ms_virtual P = ms_virtual ?S @ (if forest' = [] then [] else separator (ms_virtual ?S) @ forest_text forest')"
    using project_flatten [OF e(2) call e(4) virt fs, of t] by blast
  let ?app = "\<lparr>app_source = P, app_tree = flatten_tree zs t, app_expansion = xea_expansion e,
       app_syntax_context = xea_syntax_context e, app_replacement_roots = length new\<rparr>"
  have "finish_edit t target edit (node_span (owned_node x)) e forest new = Ret ?app"
    unfolding finish_edit_def rep using P(1) by simp
  moreover have "refined src t target edit ?app"
  proof -
    have S: "ms_virtual ?S = ms_virtual src" "ms_original ?S = ms_original src" by (subst e(3), simp)+
    have "tree_diagnostics (flatten_tree zs t) = tree_diagnostics t" "tree_indentation (flatten_tree zs t) = tree_indentation t"
      by (simp_all add: flatten_tree_def split: prod.splits)
    moreover have "length new = length (gen_roots ?f)" using map_eq_imp_length_eq [OF new(1)] by simp
    moreover have "ms_virtual P = ms_virtual src @ (if forest' = [] then [] else separator (ms_virtual src) @ forest_text forest')"
      using P(8) S(1) by simp
    ultimately show ?thesis
      unfolding refined_def using a new(1,2) P(3-7) S e(1,4,5)
      by (intro conjI exI [of _ forest] exI [of _ forest'] exI [of _ new] exI [of _ sp] exI [of _ pt] exI [of _ line]) simp_all
  qed
  ultimately show ?thesis using P(2) by (intro exI [of _ ?app]) simp
qed

text \<open>The reasons for which an edit of an editable tree is refused, in the order of the checks.\<close>

fun edit_refused :: "mapped_source \<Rightarrow> raw_tree \<Rightarrow> raw_node_id \<Rightarrow> tree_edit \<Rightarrow> tree_edit_error \<Rightarrow> bool" where
  "edit_refused src t target edit (UnknownTarget i) \<longleftrightarrow>
     fragment_ok (edit_fragment edit) \<and> i = target \<and> length (tree_nodes t) \<le> target"
| "edit_refused src t target edit (ChildrenOfNonSection i) \<longleftrightarrow>
     fragment_ok (edit_fragment edit) \<and> i = target \<and> target < length (tree_nodes t) \<and>
     (\<exists>f. edit = ReplaceChildren f) \<and> node_kind (tree_nodes t ! target) \<noteq> Section"
| "edit_refused src t target edit (ExpansionError e) \<longleftrightarrow>
     fragment_ok (edit_fragment edit) \<and> target < length (tree_nodes t) \<and>
     e = TreeExpansionGraph IdExhausted \<and> next_id (ms_expansions src) = Fail IdExhausted"
| "edit_refused src t target edit (UnknownRetainedChildrenParent i) \<longleftrightarrow>
     fragment_ok (edit_fragment edit) \<and> target < length (tree_nodes t) \<and>
     (\<exists>f r. edit = ReplaceNode f (Some r) \<and> ret_parent r = i \<and> i \<notin> set (gen_ids f))"
| "edit_refused src t target edit (RetainedChildrenParentNotSection i) \<longleftrightarrow>
     fragment_ok (edit_fragment edit) \<and> target < length (tree_nodes t) \<and>
     (\<exists>f r g. edit = ReplaceNode f (Some r) \<and> ret_parent r = i \<and>
        g \<in> set (gen_nodes f) \<and> gen_id g = i \<and> gen_kind g \<noteq> GenSection)"
| "edit_refused src t target edit e \<longleftrightarrow> fragment_defect (edit_fragment edit) e"

text \<open>When nothing stands in the way.\<close>

definition edit_ready :: "mapped_source \<Rightarrow> raw_tree \<Rightarrow> raw_node_id \<Rightarrow> tree_edit \<Rightarrow> bool" where
  "edit_ready src t target edit \<longleftrightarrow>
     fragment_ok (edit_fragment edit) \<and> target < length (tree_nodes t) \<and> (\<exists>x. next_id (ms_expansions src) = Ret x) \<and>
     (case edit of
        ReplaceNode f retained \<Rightarrow> retain_ok f retained
      | ReplaceChildren _ \<Rightarrow> node_kind (tree_nodes t ! target) = Section)"

lemma fragment_defect_refused: "fragment_defect (edit_fragment edit) e \<Longrightarrow> edit_refused src t target edit e"
  by (cases e) auto

lemma fragment_refuses:
  assumes "\<not> fragment_ok (edit_fragment edit)"
  shows "\<not> edit_ready src t target edit"
  using assms by (simp add: edit_ready_def)

lemma apply_tree_edit_cases:
  assumes ok: "editable src t" and meta: "names_ok meta" and texts: "texts_ok (edit_fragment edit)"
  obtains (applied) app where "apply_tree_edit src t target edit meta = Ret app" "edit_ready src t target edit"
      "editable (app_source app) (app_tree app)" "refined src t target edit app"
    | (refused) e where "apply_tree_edit src t target edit meta = Fail e" "edit_refused src t target edit e"
      "\<not> edit_ready src t target edit"
proof (cases rule: validate_fragment_cases [of "edit_fragment edit"])
  case (invalid e)
  then show thesis using fragment_defect_refused fragment_refuses by (intro refused [of e]) (simp_all add: apply_tree_edit_def)
next
  case (valid m)
  let ?f = "edit_fragment edit"
  obtain forest where forest: "arena t forest" "\<forall>x \<in> set forest. sections_only x"
    using links_arena [of t] ok by (auto simp: editable_def)
  have infl: "inflate_tree t = Ret forest"
    using inflate_arena [OF forest(1)] ok by (simp add: editable_def links_ok_def)
  note start = apply_tree_edit_def [of src t target edit meta, unfolded Let_def valid(1) infl obind.simps]
  show thesis
  proof (cases rule: target_found [OF ok forest, of target])
    case 1
    then show thesis using start valid(2)
      by (intro refused [of "UnknownTarget target"]) (simp_all add: edit_ready_def)
  next
    case (2 x)
    let ?call = "node_span (owned_node x)"
    let ?meta = "\<lparr>meta_component = edit_component meta, meta_hook = edit_hook meta, meta_definition_site = None\<rparr>"
    have src: "mapped_source_ok src" using ok by (simp add: editable_def)
    show thesis
    proof (cases "(\<exists>f. edit = ReplaceChildren f) \<and> node_kind (owned_node x) \<noteq> Section")
      case True
      then show thesis using start valid(2) 2
        by (intro refused [of "ChildrenOfNonSection target"]) (auto simp: edit_ready_def)
    next
      case False
      then have check: "(case edit of
          ReplaceChildren _ \<Rightarrow> if node_kind (owned_node x) \<noteq> Section then Fail (ChildrenOfNonSection target) else Ret ()
        | ReplaceNode _ _ \<Rightarrow> Ret ()) = Ret ()"
        by (cases edit) auto
      have call: "call_span_ok src ?call" using span_of_call [OF src] 2(3,4) by (simp add: node_ok_def)
      have mok: "metadata_ok src ?meta" using meta by (simp add: metadata_ok_def names_ok_def)
      show thesis
      proof (cases rule: register_tree_cases [OF src call mok])
        case 2
        have "apply_tree_edit src t target edit meta = Fail (ExpansionError (TreeExpansionGraph IdExhausted))"
          unfolding start \<open>find_subtree forest target = Some x\<close> using check 2(1) by simp
        then show thesis using valid(2) \<open>target < length (tree_nodes t)\<close> 2(2)
          by (intro refused) (auto simp: edit_ready_def)
      next
        case (1 e)
        let ?line = "line_number (node_line (owned_node x))"
        obtain new where new: "build_generated_forest ?f m (generated_span ?call (xea_expansion e))
            (generated_point ?call (xea_expansion e)) ?line (xea_syntax_context e) = Ret new"
          "map local_id new = map Some (gen_roots ?f)"
          "\<forall>y \<in> set new. generated_at ?f (generated_span ?call (xea_expansion e))
            (generated_point ?call (xea_expansion e)) ?line (xea_syntax_context e) y"
          "distinct (map local_id (subtrees_of new))" "local_id ` set (subtrees_of new) = Some ` set (gen_ids ?f)"
          using build_generated_forest_Ret [OF valid(2,3)] by blast
        have run: "apply_tree_edit src t target edit meta = finish_edit t target edit ?call e forest new"
          unfolding start \<open>find_subtree forest target = Some x\<close> finish_edit_def using check 1(1) new(1) by simp
        have ids: "distinct (gen_ids ?f)" using valid(2) by (simp add: fragment_ok_def)
        have dis: "distinct (map node_id (forest_nodes forest))" using forest(1) by (simp add: arena_def)
        have succeed: thesis if c: "case edit of ReplaceNode f retained \<Rightarrow> retain_ok f retained | ReplaceChildren _ \<Rightarrow> node_kind (owned_node x) = Section"
        proof -
          obtain app where "finish_edit t target edit ?call e forest new = Ret app"
            "editable (app_source app) (app_tree app)" "refined src t target edit app"
            using finish_edit_Ret [OF ok forest 2(2,5,6) _ valid(2) texts new(2-5) 1(2-6) c] 2(3,4) by auto
          moreover have "edit_ready src t target edit"
            using valid(2) 2(1,3) 1(2) c by (auto simp: edit_ready_def split: tree_edit.splits)
          ultimately show thesis using run applied by metis
        qed
        show thesis
        proof (cases edit)
          case (ReplaceChildren f)
          then show thesis using succeed False by simp
        next
          case (ReplaceNode f retained)
          have f: "?f = f" using ReplaceNode by (simp add: edit_fragment_def)
          note rc = retain_children_cases [OF new(3-5) ids, of retained "owned_children x", unfolded f]
          have fin: "finish_edit t target edit ?call e forest new = Fail d"
            if "retain_children new retained (owned_children x) = Fail d" for d
            unfolding finish_edit_def ReplaceNode using replace_node_found [OF dis 2(2), of new retained] that by simp
          show thesis
          proof (cases rule: rc)
            case 1
            then show thesis using succeed ReplaceNode by simp
          next
            case (2 r)
            have "\<not> edit_ready src t target edit"
              using 2(1,2) ReplaceNode gen_id_mem by (fastforce simp: edit_ready_def retain_ok_def)
            then show thesis using run fin [OF 2(3)] 2(1,2) ReplaceNode valid(2) \<open>target < length (tree_nodes t)\<close>
              by (intro refused [of "UnknownRetainedChildrenParent (ret_parent r)"]) auto
          next
            case (3 r g)
            have "\<not> retain_ok f retained"
              using 3 node_of_id(1) [OF ids [unfolded f]] by (metis option.inject retain_ok_def)
            then have "\<not> edit_ready src t target edit" using ReplaceNode by (simp add: edit_ready_def)
            then show thesis using run fin [OF 3(5)] 3(1-4) ReplaceNode valid(2) \<open>target < length (tree_nodes t)\<close>
              by (intro refused [of "RetainedChildrenParentNotSection (ret_parent r)"]) auto
          qed
        qed
      qed
    qed
  qed
qed

end
