(* ===== verification/Tree_Parsed.thy ===== *)
theory Tree_Parsed
  imports Tree_Correct
begin

text \<open>
  The trees of the parser can be edited: every span it stores is what \<open>map_range\<close> answers, and the
  spans of a line lie inside the line.
\<close>

subsection \<open>Lines as the parser makes them\<close>

lemma mapped_span_of:
  assumes "mapped_source_ok src" and "mapped src r = Ret sp"
  shows "span_of src sp" "span_range sp = r" "is_valid_for r (ms_virtual src)"
proof -
  have m: "ms_map_range src r = Ret sp" using assms(2) by (auto simp: mapped_def split: outcome.splits)
  then show v: "is_valid_for r (ms_virtual src)" by (auto simp: ms_map_range_def split: if_splits)
  show r: "span_range sp = r" using mapped_range [OF assms] .
  show "span_of src sp" unfolding span_of_def r by (rule m)
qed

lemma index_range_le: "index_range s a b = Ret t \<Longrightarrow> b \<le> length s"
  by (auto simp: index_range_def outcome_simps str_slice_def dest: boundary_le split: if_splits)

lemma build_line_inv:
  assumes b: "build_line src ph content ie split = Ret l"
  defines "s \<equiv> range_start (content_range ph)"
  assumes len: "s + length content = range_end (content_range ph)"
  shows "mapped src (full_range ph) = Ret (line_span l)" "mapped src (content_range ph) = Ret (content_span l)"
    "mapped src (line_ending_range ph) = Ret (line_ending_span l)"
    "mapped src (range_new s (s + ie)) = Ret (trivia_span (line_indentation l))" "ie \<le> length content"
    "\<forall>t \<in> set (trailing_trivia l). \<exists>r. mapped src r = Ret (trivia_span t) \<and>
       (r = line_ending_range ph \<or> range_contains (content_range ph) r)"
    "raw_text l = content" "raw_ending l = pl_ending ph"
proof -
  define at where "at = (case split_comment split of None \<Rightarrow> length content | Some c \<Rightarrow> comment_start c)"
  obtain val t1 t2 t3 full cs es it isp where r: "index_range content 0 at = Ret val"
    "(if \<not> is_blank (split_value split) \<and> trim_end_whitespace val < at
             then obind (trivia_at src Whitespace
                    (range_new (s + trim_end_whitespace val) (s + at))) (\<lambda>t. Ret [t])
             else Ret []) = Ret t1"
    "(case split_comment split of None \<Rightarrow> Ret []
             | Some c \<Rightarrow> obind (trivia_at src
                    (case comment_kind c of LineComment \<Rightarrow> LineCommentTrivia | BlockComment \<Rightarrow> BlockCommentTrivia)
                    (range_new (s + comment_start c) (range_end (content_range ph)))) (\<lambda>t. Ret [t])) = Ret t2"
    "(if pl_ending ph \<noteq> NoEnding
             then obind (mapped src (line_ending_range ph)) (\<lambda>sp.
                    Ret [\<lparr>trivia_kind = LineEndingTrivia, trivia_text = line_ending_str (pl_ending ph),
                          trivia_span = sp\<rparr>])
             else Ret []) = Ret t3"
    "mapped src (full_range ph) = Ret full" "mapped src (content_range ph) = Ret cs" "mapped src (line_ending_range ph) = Ret es"
    "index_range content 0 ie = Ret it" "mapped src (range_new s (s + ie)) = Ret isp"
    "l = \<lparr>line_number = pl_number ph, raw_text = content, raw_ending = pl_ending ph, line_span = full,
           content_span = cs, line_ending_span = es,
           line_indentation = \<lparr>trivia_kind = Whitespace, trivia_text = it, trivia_span = isp\<rparr>,
           trailing_trivia = t1 @ t2 @ t3\<rparr>"
    using b unfolding build_line_def Let_def obind_Ret_iff at_def [symmetric] s_def [symmetric] by auto
  show "mapped src (full_range ph) = Ret (line_span l)" "mapped src (content_range ph) = Ret (content_span l)"
    "mapped src (line_ending_range ph) = Ret (line_ending_span l)"
    "mapped src (range_new s (s + ie)) = Ret (trivia_span (line_indentation l))" "ie \<le> length content"
    "raw_text l = content" "raw_ending l = pl_ending ph"
    using r index_range_le [OF r(8)] by simp_all
  have le: "at \<le> length content" using index_range_le [OF r(1)] .
  have "\<exists>r. mapped src r = Ret (trivia_span t) \<and> range_contains (content_range ph) r" if "t \<in> set t1" for t
    using r(2) that le len by (auto simp: outcome_simps trivia_at_def range_contains_def s_def split: if_splits)
  moreover have "\<exists>r. mapped src r = Ret (trivia_span t) \<and> range_contains (content_range ph) r" if "t \<in> set t2" for t
    using r(3) that len by (auto simp: outcome_simps trivia_at_def range_contains_def s_def split: option.splits)
  moreover have "mapped src (line_ending_range ph) = Ret (trivia_span t)" if "t \<in> set t3" for t
    using r(4) that by (auto simp: outcome_simps split: if_splits)
  ultimately show "\<forall>t \<in> set (trailing_trivia l). \<exists>r. mapped src r = Ret (trivia_span t) \<and>
       (r = line_ending_range ph \<or> range_contains (content_range ph) r)"
    unfolding r(10) by (auto; blast)
qed

lemma valid_relative:
  assumes F: "is_valid_for F v" "str_slice F v = Some text" and r: "is_valid_for r v" "range_contains F r"
  shows "is_char_boundary text (range_start r - range_start F)" "is_char_boundary text (range_end r - range_start F)"
proof -
  have t: "text = take (range_len F) (drop (range_start F) v)" using F by (simp add: str_slice_valid)
  have b: "is_char_boundary text (k - range_start F)"
    if "is_char_boundary v k" "range_start F \<le> k" "k \<le> range_end F" for k
  proof -
    note FD = is_valid_forD [OF F(1)]
    have "is_char_boundary (drop (range_start F) v) (k - range_start F)"
      using boundary_drop [OF FD(3), of "k - range_start F"] that by simp
    moreover have "is_char_boundary (drop (range_start F) v) (range_len F)"
      using boundary_drop [OF FD(3), of "range_len F"] FD by (simp add: range_len_def)
    ultimately show ?thesis unfolding t using boundary_take that by (simp add: range_len_def)
  qed
  have "range_start F \<le> range_start r" "range_end r \<le> range_end F" "range_start r \<le> range_end r"
    using r by (simp_all add: range_contains_def is_valid_for_def)
  then show "is_char_boundary text (range_start r - range_start F)" "is_char_boundary text (range_end r - range_start F)"
    using b r(1) by (simp_all add: is_valid_for_def)
qed

definition line_made :: "mapped_source \<Rightarrow> raw_line \<Rightarrow> bool" where
  "line_made src l \<longleftrightarrow> (\<exists>ph content ie split. ph \<in> set (physical_lines (ms_virtual src)) \<and>
     str_slice (content_range ph) (ms_virtual src) = Some content \<and> build_line src ph content ie split = Ret l)"

definition node_made :: "mapped_source \<Rightarrow> raw_node \<Rightarrow> bool" where
  "node_made src n \<longleftrightarrow> line_made src (node_line n) \<and> code_span src (node_line n) = Ret (node_code_span n) \<and>
     (header_span n = None \<or> header_span n = node_code_span n) \<and> span_of src (node_span n)"

lemma code_span_inv:
  assumes "code_span src l = Ret (Some sp)"
  shows "\<exists>a b. a < b \<and> mapped src (range_new a b) = Ret sp \<and> a = range_end (span_range (trivia_span (line_indentation l))) \<and>
    (b = range_end (span_range (content_span l)) \<or> (\<exists>t \<in> set (trailing_trivia l). b = range_start (span_range (trivia_span t))))"
  using assms
  by (fastforce simp: code_span_def Let_def outcome_simps find_Some_iff split: if_splits option.splits)

lemma node_made_ok:
  assumes src: "mapped_source_ok src" and made: "node_made src n"
  shows "node_ok src n"
proof -
  let ?v = "ms_virtual src" and ?l = "node_line n"
  obtain ph content ie split where ph: "ph \<in> set (physical_lines ?v)" "str_slice (content_range ph) ?v = Some content"
    "build_line src ph content ie split = Ret ?l"
    using made by (auto simp: node_made_def line_made_def)
  obtain k a c b where la: "line_at ?v k a c b ph" using lines_from_member [OF physical_lines_from ph(1)] by blast
  have r: "content_range ph = range_new a c" "line_ending_range ph = range_new c b" "full_range ph = range_new a b"
    "a \<le> c" "c \<le> b" "a < b" "b \<le> length ?v"
    using la by (simp_all add: line_at_def)
  have vc: "is_valid_for (content_range ph) ?v" using ph(2) str_slice_Some_iff by blast
  have content: "content = take (c - a) (drop a ?v)" using ph(2) str_slice_valid [OF vc] r(1) by (simp add: range_len_def)
  then have len: "range_start (content_range ph) + length content = range_end (content_range ph)" using r by simp
  note bl = build_line_inv [OF ph(3) len]
  have F: "line_range n = full_range ph" "is_valid_for (full_range ph) ?v"
    using mapped_span_of [OF src bl(1)] by simp_all
  have w: "written_line n = line_text ?v ph"
    using bl(7,8) content r(1) by (simp add: written_line_def line_text_def range_len_def)
  then have wt: "written_line n = take (b - a) (drop a ?v)" using line_at_text [OF la] by simp
  have sl: "str_slice (line_range n) ?v = Some (written_line n)"
    using F str_slice_valid [OF F(2)] wt r(3) by (simp add: range_len_def)
  have wl: "length (written_line n) = b - a" using wt r by simp
  have good: "span_of src sp \<and> range_contains (full_range ph) (span_range sp) \<and> is_valid_for (span_range sp) ?v"
    if "mapped src q = Ret sp" "range_contains (full_range ph) q" for q sp
    using mapped_span_of [OF src that(1)] that(2) by simp
  have isp: "span_of src (trivia_span (line_indentation ?l)) \<and> range_contains (full_range ph) (span_range (trivia_span (line_indentation ?l))) \<and>
      is_valid_for (span_range (trivia_span (line_indentation ?l))) ?v"
    using good [OF bl(4)] bl(5) len r by (simp add: range_contains_def)
  have tr: "span_of src (trivia_span t) \<and> range_contains (full_range ph) (span_range (trivia_span t)) \<and>
      is_valid_for (span_range (trivia_span t)) ?v" if "t \<in> set (trailing_trivia ?l)" for t
  proof -
    note t = bspec [OF bl(6) that]
    then obtain q where "mapped src q = Ret (trivia_span t)" "q = line_ending_range ph \<or> range_contains (content_range ph) q"
      by (elim exE conjE)
    then show ?thesis using good [of q] r by (auto simp: range_contains_def)
  qed
  have cs: "span_of src (content_span ?l) \<and> range_contains (full_range ph) (span_range (content_span ?l)) \<and>
      is_valid_for (span_range (content_span ?l)) ?v"
    using good [OF bl(2)] r by (simp add: range_contains_def)
  have code: "span_of src sp \<and> range_contains (full_range ph) (span_range sp) \<and> is_valid_for (span_range sp) ?v"
    if "node_code_span n = Some sp" for sp
  proof -
    have "code_span src ?l = Ret (Some sp)" using made that by (simp add: node_made_def)
    from code_span_inv [OF this] obtain x y where xy: "x < y" "mapped src (range_new x y) = Ret sp"
      "x = range_end (span_range (trivia_span (line_indentation ?l)))"
      "y = range_end (span_range (content_span ?l)) \<or> (\<exists>t \<in> set (trailing_trivia ?l). y = range_start (span_range (trivia_span t)))"
      by blast
    have "a \<le> x" using xy(3) isp r(3) by (auto simp: range_contains_def is_valid_for_def)
    moreover have "y \<le> b" using xy(4) cs tr r(3) by (fastforce simp: range_contains_def is_valid_for_def)
    ultimately show ?thesis using good [OF xy(2)] r(3) by (simp add: range_contains_def)
  qed
  have all: "span_of src sp \<and> range_contains (full_range ph) (span_range sp) \<and> is_valid_for (span_range sp) ?v"
    if "sp \<in> set (line_spans n)" for sp
  proof -
    note mem = that
    consider "sp = line_span ?l" | "sp = content_span ?l" | "sp = line_ending_span ?l" | "sp = trivia_span (line_indentation ?l)"
      | t where "t \<in> set (trailing_trivia ?l)" "sp = trivia_span t" | "node_code_span n = Some sp"
      using mem made by (auto simp: line_spans_def Let_def node_made_def split: option.splits)
    then show ?thesis
    proof cases
      case 1
      then show ?thesis using good [OF bl(1)] by (simp add: range_contains_def)
    next
      case 3
      then show ?thesis using good [OF bl(3)] r by (simp add: range_contains_def)
    qed (use cs isp tr code in auto)
  qed
  have "fits (range_start (line_range n)) (written_line n) n"
    unfolding fits_def F(1)
  proof (intro conjI ballI)
    show "full_range ph = range_new (range_start (full_range ph)) (range_start (full_range ph) + length (written_line n))"
      using r wl by simp
    fix sp assume "sp \<in> set (line_spans n)"
    note sp = all [OF this]
    show "range_start (full_range ph) \<le> range_start (span_range sp)" "range_start (span_range sp) \<le> range_end (span_range sp)"
      using sp by (auto simp: range_contains_def is_valid_for_def)
    show "is_char_boundary (written_line n) (range_start (span_range sp) - range_start (full_range ph))"
      "is_char_boundary (written_line n) (range_end (span_range sp) - range_start (full_range ph))"
      using valid_relative [OF F(2) sl [unfolded F(1)], of "span_range sp"] sp by auto
  qed
  moreover have "written_line n \<noteq> []" using wl r(6) by auto
  ultimately show ?thesis using made all sl by (auto simp: node_ok_def node_made_def)
qed

subsection \<open>The parser\<close>

text \<open>Partial correctness: what holds of a result, if there is one.\<close>

definition yields :: "('a \<Rightarrow> bool) \<Rightarrow> ('e, 'a) outcome \<Rightarrow> bool" where
  "yields P m \<longleftrightarrow> (\<forall>x. m = Ret x \<longrightarrow> P x)"

lemma yields_simps [simp]: "yields P (Ret x) = P x" "yields P (Fail e)" "yields P Panic"
  by (simp_all add: yields_def)

lemma yields_bind: "(\<And>x. m = Ret x \<Longrightarrow> yields P (f x)) \<Longrightarrow> yields P (obind m f)"
  by (cases m) auto

lemma yields_bind_with: "yields Q m \<Longrightarrow> (\<And>x. Q x \<Longrightarrow> yields P (f x)) \<Longrightarrow> yields P (obind m f)"
  by (cases m) auto

abbreviation all_made :: "mapped_source \<Rightarrow> raw_parser \<Rightarrow> bool" where
  "all_made src st \<equiv> \<forall>n \<in> set (tree_nodes (tree st)). node_made src n"

lemma node_made_children [simp]: "node_made src (n\<lparr>node_children := cs\<rparr>) = node_made src n"
  by (simp add: node_made_def)

lemma push_node_made:
  assumes src: "mapped_source_ok src" and st: "all_made src st" and line: "line_made src l"
  shows "yields (\<lambda>(st', i). all_made src st') (push_node src st kind text l reason level parent)"
proof -
  have lsp: "span_of src (line_span l)"
    using line mapped_span_of(1) [OF src] by (auto simp: line_made_def build_line_def Let_def outcome_simps)
  show ?thesis
    unfolding push_node_def Let_def
  proof (rule yields_bind)
    fix code assume code: "code_span src l = Ret code"
    let ?node = "\<lparr>node_id = length (tree_nodes (tree st)), node_kind = kind, node_text = text, node_span = line_span l,
          node_line = l, node_code_span = code, header_span = if kind = Section then code else None, body_span = None,
          indent_level = level, invalid_reason = reason, node_context = 0, node_parent = parent, node_children = []\<rparr>"
    have new: "node_made src ?node" using line code lsp by (simp add: node_made_def)
    show "yields (\<lambda>(st', i). all_made src st')
       (obind (case parent of None \<Rightarrow> Ret ((tree st)\<lparr>tree_roots := tree_roots (tree st) @ [length (tree_nodes (tree st))]\<rparr>)
         | Some p \<Rightarrow> obind (node_at (tree_nodes (tree st)) p) (\<lambda>pn.
             Ret ((tree st)\<lparr>tree_nodes := (tree_nodes (tree st))[p := pn\<lparr>node_children := node_children pn @ [length (tree_nodes (tree st))]\<rparr>]\<rparr>)))
         (\<lambda>t. Ret (st\<lparr>tree := t\<lparr>tree_nodes := tree_nodes t @ [?node]\<rparr>\<rparr>, length (tree_nodes (tree st)))))"
    proof (rule yields_bind_with [of "\<lambda>t. \<forall>n \<in> set (tree_nodes t). node_made src n"])
      show "yields (\<lambda>t. \<forall>n \<in> set (tree_nodes t). node_made src n)
         (case parent of None \<Rightarrow> Ret ((tree st)\<lparr>tree_roots := tree_roots (tree st) @ [length (tree_nodes (tree st))]\<rparr>)
         | Some p \<Rightarrow> obind (node_at (tree_nodes (tree st)) p) (\<lambda>pn.
             Ret ((tree st)\<lparr>tree_nodes := (tree_nodes (tree st))[p := pn\<lparr>node_children := node_children pn @ [length (tree_nodes (tree st))]\<rparr>]\<rparr>)))"
        using st by (auto simp: node_at_def split: option.splits dest!: set_update_subset_insert [THEN subsetD])
    qed (use new in simp)
  qed
qed

lemma push_then_made:
  assumes "mapped_source_ok src" "all_made src st" "line_made src l" and "\<And>st' i. all_made src st' \<Longrightarrow> yields (all_made src) (f (st', i))"
  shows "yields (all_made src) (obind (push_node src st kind text l reason level parent) f)"
  by (rule yields_bind_with [OF push_node_made [OF assms(1-3)]]) (use assms(4) in auto)

lemma push_diagnostic_nodes [simp]:
  "tree_nodes (tree (push_diagnostic st d)) = tree_nodes (tree st)"
  "tree_nodes (tree (push_indentation_diagnostic st r sp)) = tree_nodes (tree st)"
  by (simp_all add: push_diagnostic_def push_indentation_diagnostic_def)

lemma resolve_indentation_nodes: "resolve_indentation st ind = (r, st') \<Longrightarrow> tree_nodes (tree st') = tree_nodes (tree st)"
  by (auto simp: resolve_indentation_def Let_def split: if_splits outcome.splits option.splits)

lemma yields_if: "(b \<Longrightarrow> yields P x) \<Longrightarrow> (\<not> b \<Longrightarrow> yields P y) \<Longrightarrow> yields P (if b then x else y)"
  by simp

lemma parse_code_line_made:
  assumes "mapped_source_ok src" "all_made src st" "line_made src l"
  shows "yields (all_made src) (parse_code_line src st l text level)"
  unfolding parse_code_line_def Let_def
  apply (rule yields_bind, rule yields_if, rule yields_bind)
   apply (rule push_then_made [OF assms(1) _ assms(3)]; simp add: assms(2))
  apply (rule yields_if; rule push_then_made [OF assms(1) _ assms(3)]; simp add: assms(2))
  done

lemma parse_indented_made:
  assumes "mapped_source_ok src" "all_made src st" "line_made src l"
  shows "yields (all_made src) (case resolve_indentation st ind of
       (Ret level, st) \<Rightarrow> parse_code_line src st l text level
     | (Fail reason, st) \<Rightarrow>
         obind (push_node src (push_indentation_diagnostic st reason (trivia_span (line_indentation l)))
                  Invalid text l (Some reason) None (current_parent st)) (\<lambda>(st, _). Ret st)
     | (Panic, st) \<Rightarrow> Panic)"
proof (cases "resolve_indentation st ind")
  case (Pair r st')
  have st': "all_made src st'" using resolve_indentation_nodes [OF Pair] assms(2) by simp
  show ?thesis
  proof (cases r)
    case (Ret level)
    then show ?thesis using Pair parse_code_line_made [OF assms(1) st' assms(3)] by simp
  next
    case (Fail reason)
    have "yields (all_made src) (obind (push_node src (push_indentation_diagnostic st' reason (trivia_span (line_indentation l)))
        Invalid text l (Some reason) None (current_parent st')) (\<lambda>(st, _). Ret st))"
      by (rule push_then_made [OF assms(1) _ assms(3)]; simp add: st')
    then show ?thesis using Pair Fail by simp
  qed (use Pair in simp)
qed

lemma parse_line_made:
  assumes src: "mapped_source_ok src" and st: "all_made src st" and ph: "ph \<in> set (physical_lines (ms_virtual src))"
  shows "yields (all_made src) (parse_line src opts ph st)"
  unfolding parse_line_def Let_def
  apply (rule yields_bind, rule yields_bind_with [of "all_made src"])
  subgoal using st by (auto intro!: yields_bind split: option.splits block_action.splits)
  apply (rule yields_bind)
  subgoal premises made for content st' l
  proof -
    have l: "line_made src l" using made(1,3) ph by (auto simp: line_made_def outcome_simps)
    show ?thesis
      apply (rule yields_if, rule yields_bind)
       apply (rule push_then_made [OF src made(2) l]; simp)
      apply (rule yields_if)
       apply (rule push_then_made [OF src made(2) l]; simp)
      apply (rule yields_bind, rule parse_indented_made [OF src made(2) l])
      done
  qed
  done

lemma parse_lines_made:
  assumes src: "mapped_source_ok src"
  shows "all_made src st \<Longrightarrow> set phs \<subseteq> set (physical_lines (ms_virtual src)) \<Longrightarrow>
    yields (all_made src) (try_for (parse_line src opts) phs st)"
proof (induction phs arbitrary: st)
  case (Cons ph phs)
  then show ?case by (auto intro!: yields_bind_with [OF parse_line_made [OF src]])
qed simp

subsection \<open>Closing the sections\<close>

lemma node_made_span:
  "span_of src sp \<Longrightarrow> node_made src n \<Longrightarrow> node_made src (n\<lparr>node_span := sp, body_span := b\<rparr>)"
  by (simp add: node_made_def)

lemma finalize_section_made:
  assumes src: "mapped_source_ok src" and t: "\<forall>n \<in> set (tree_nodes t). node_made src n"
  shows "yields (\<lambda>t. \<forall>n \<in> set (tree_nodes t). node_made src n) (finalize_section src i t)"
  unfolding finalize_section_def Let_def
  apply (rule yields_bind, rule yields_bind, rule yields_bind, rule yields_bind, rule yields_bind)
  subgoal premises p for n r sp bsp empt
  proof -
    have "node_made src n" using p(1) t by (auto simp: node_at_def split: if_splits)
    then have "node_made src (n\<lparr>node_span := sp, body_span := Some bsp\<rparr>)"
      using node_made_span mapped_span_of(1) [OF src p(3)] by blast
    then have "\<forall>m \<in> set ((tree_nodes t)[i := n\<lparr>node_span := sp, body_span := Some bsp\<rparr>]). node_made src m"
      using t set_update_subset_insert [of "tree_nodes t" i] by blast
    then show ?thesis by (auto intro!: yields_if yields_bind)
  qed
  done

lemma parse_raw_tree_editable:
  assumes src: "mapped_source_ok src" and small: "length (ms_virtual src) < u32_max" and t: "parse_raw_tree src opts = Ret t"
  shows "editable src t"
proof -
  let ?P = "\<lambda>t. \<forall>n \<in> set (tree_nodes t). node_made src n"
  have "yields ?P (parse_raw_tree src opts)"
    unfolding parse_raw_tree_def
  proof (rule yields_bind_with [OF parse_lines_made [OF src]])
    show "all_made src raw_parser_new" by (simp add: raw_parser_new_def)
    show "set (physical_lines (ms_virtual src)) \<subseteq> set (physical_lines (ms_virtual src))" by simp
    fix st assume st: "all_made src st"
    have close: "yields (all_made src) (close_block_comment src st)"
      using st by (auto simp: close_block_comment_def intro!: yields_bind split: option.splits)
    have sections: "yields ?P (try_for (finalize_section src) is t)" if "?P t" for "is" t
      using that
    proof (induction "is" arbitrary: t)
      case (Cons i "is")
      then show ?case by (auto intro!: yields_bind_with [OF finalize_section_made [OF src]])
    qed simp
    show "yields ?P (obind (close_block_comment src st) (\<lambda>st.
       obind (finalize_sections src (tree st)) (\<lambda>t.
       Ret (t\<lparr>tree_diagnostics := sort_key diagnostic_key (tree_diagnostics t)\<rparr>))))"
    proof (rule yields_bind_with [OF close])
      fix st' assume "all_made src st'"
      then have "yields ?P (finalize_sections src (tree st'))" unfolding finalize_sections_def by (rule sections)
      then show "yields ?P (obind (finalize_sections src (tree st')) (\<lambda>t.
         Ret (t\<lparr>tree_diagnostics := sort_key diagnostic_key (tree_diagnostics t)\<rparr>)))"
        by (rule yields_bind_with) simp
    qed
  qed
  then have "\<forall>n \<in> set (tree_nodes t). node_ok src n" using t node_made_ok [OF src] by (simp add: yields_def)
  moreover have "links_ok (tree_nodes t) (tree_roots t)"
    using parse_raw_tree_facts [OF src small, of opts] t tree_factsD(1) by auto
  ultimately show ?thesis using src by (simp add: editable_def)
qed

end
