(* ===== verification/Tree_Session.thy ===== *)
theory Tree_Session
  imports Tree_Parsed
begin

text \<open>
  Parsing and tree edits together: the states a tree can reach by parsing, text edits with a new
  parse, and tree edits; all of them can be edited further.
\<close>

inductive tree_session :: "multiline_support \<Rightarrow> mapped_source \<Rightarrow> raw_tree \<Rightarrow> bool" for opts where
  parsed: "mapped_source_ok src \<Longrightarrow> length (ms_virtual src) < u32_max \<Longrightarrow> parse_raw_tree src opts = Ret t \<Longrightarrow>
     tree_session opts src t"
| rewritten: "tree_session opts src t \<Longrightarrow> \<forall>e \<in> set edits. utf8_ok (replacement e) \<Longrightarrow> metadata_ok src meta \<Longrightarrow>
     apply_text_edits src edits meta = Ret app \<Longrightarrow> length (ms_virtual (tea_source app)) < u32_max \<Longrightarrow>
     parse_raw_tree (tea_source app) opts = Ret t' \<Longrightarrow> tree_session opts (tea_source app) t'"
| restructured: "tree_session opts src t \<Longrightarrow> texts_ok (edit_fragment edit) \<Longrightarrow> names_ok m \<Longrightarrow>
     apply_tree_edit src t target edit m = Ret res \<Longrightarrow> tree_session opts (app_source res) (app_tree res)"

inductive_cases tree_sessionE: "tree_session opts src t"

lemma text_edits_source_ok:
  assumes "mapped_source_ok src" and "metadata_ok src meta" and "\<forall>e \<in> set edits. utf8_ok (replacement e)"
    and "apply_text_edits src edits meta = Ret app"
  shows "mapped_source_ok (tea_source app)"
proof (cases "edits = []")
  case True
  then show ?thesis using assms(1,4) by (auto simp: apply_text_edits_def)
next
  case False
  obtain x where "validate_text_edits src (sorted_edits edits) = Ret ()" "next_id (ms_expansions src) = Ret x"
    using assms(4) False by (auto simp: apply_text_edits_def Let_def obind_Ret_iff omap_err_Ret_iff)
  from apply_text_edits_total [OF assms(1-3) False this] show ?thesis using assms(4) by auto
qed

lemma session_editable: "tree_session opts src t \<Longrightarrow> editable src t"
proof (induction rule: tree_session.induct)
  case (parsed src t)
  then show ?case by (rule parse_raw_tree_editable)
next
  case (rewritten src t edits meta app t')
  then have "mapped_source_ok (tea_source app)"
    by (intro text_edits_source_ok [of src meta edits]) (simp_all add: editable_def)
  then show ?case using rewritten by (intro parse_raw_tree_editable)
next
  case (restructured src t edit m target res)
  show ?case
    by (rule apply_tree_edit_cases [OF restructured.IH restructured.hyps(3,2), of target]) (use restructured.hyps(4) in auto)
qed

text \<open>
  C11. Editing the tree refines the edit of the forest it stands for.  If the tree is editable (its links
  are those of a forest, its spans are what \<open>map_range\<close> answers, and every line lies in the virtual
  source with its text), the fragment is valid, the target exists (and is a section, if its
  children are replaced) and retained children have a generated section to go to, then
  \<open>apply_tree_edit\<close> succeeds and the result is editable again.  The new arena stores the old forest
  with the target replaced (by the generated forest, to whose named section the old children are
  prepended or appended; or by the target itself over the generated forest): the same lines with the
  same kinds, texts and trivia.  The original text is unchanged; the virtual source is the old one
  followed by the lines of the new forest in order, and the span of every node covers exactly the
  lines of its subtree.
\<close>

theorem apply_tree_edit_refines:
  assumes "editable src t" and "names_ok meta" and "texts_ok (edit_fragment edit)"
    and "edit_ready src t target edit"
  shows "\<exists>app. apply_tree_edit src t target edit meta = Ret app \<and> editable (app_source app) (app_tree app) \<and>
    refined src t target edit app"
  by (rule apply_tree_edit_cases [OF assms(1-3), of target]) (use assms(4) in auto)

text \<open>
  C12. Every tree that parsing, text edits and tree edits can reach is editable, and a tree edit of it
  never panics.  It is refused exactly when it is not ready, and then with an error that states a
  true reason: a defect of the fragment, a target that is not in the tree, children of a node that
  is no section, retained children without a generated section, or an expansion graph without a
  further identity.  An error about the input tree or about the source map never occurs.
\<close>

theorem tree_session_edits:
  assumes "tree_session opts src t" and "names_ok meta" and "texts_ok (edit_fragment edit)"
  shows "editable src t \<and> apply_tree_edit src t target edit meta \<noteq> Panic \<and>
    ((\<exists>app. apply_tree_edit src t target edit meta = Ret app) \<longleftrightarrow> edit_ready src t target edit) \<and>
    (\<forall>e. apply_tree_edit src t target edit meta = Fail e \<longrightarrow> edit_refused src t target edit e)"
proof -
  note ok = session_editable [OF assms(1)]
  show ?thesis
    by (rule apply_tree_edit_cases [OF ok assms(2,3), of target]) (use ok in auto)
qed

subsection \<open>A concrete edit\<close>

definition sample_fragment :: generated_tree where
  "sample_fragment = \<lparr>gen_roots = [7, 8],
     gen_nodes = [\<lparr>gen_id = 7, gen_kind = GenSimple, gen_text = ''c'', gen_children = []\<rparr>,
                  \<lparr>gen_id = 8, gen_kind = GenBlank, gen_text = [], gen_children = []\<rparr>]\<rparr>"

definition sample_edit_meta :: tree_edit_metadata where
  "sample_edit_meta = \<lparr>edit_component = ''c'', edit_hook = ''h''\<rparr>"

lemma sample_fragment_ok:
  "fragment_ok sample_fragment" "texts_ok sample_fragment" "names_ok sample_edit_meta"
proof -
  have "hanging (gen_kids sample_fragment) (gen_roots sample_fragment) \<supseteq> {7, 8}"
    by (auto simp: sample_fragment_def intro: hanging_root)
  then show "fragment_ok sample_fragment"
    using name_not_blank by (auto simp: fragment_ok_def sample_fragment_def gen_ids_def gen_refs_def text_fits_def)
  show "texts_ok sample_fragment" by (simp add: texts_ok_def sample_fragment_def utf8_ok.simps utf8_step_def)
  show "names_ok sample_edit_meta" using name_not_blank by (simp add: names_ok_def sample_edit_meta_def)
qed

lemma sample_session:
  obtains t where "tree_session TripleHash small_script t" "length (tree_nodes t) = 2"
proof -
  obtain t where t: "parse_raw_tree small_script TripleHash = Ret t" "tree_facts small_script t"
    using parse_raw_tree_facts [OF small_script_ok, of TripleHash] by blast
  have "tree_session TripleHash small_script t" using parsed [OF small_script_ok t(1)] .
  moreover have "length (tree_nodes t) = 2" using tree_factsD(6) [OF t(2)] small_script_lines by simp
  ultimately show thesis using that by blast
qed

lemma sample_ready:
  "length (tree_nodes t) = 2 \<Longrightarrow> edit_ready small_script t 1 (ReplaceNode sample_fragment None)"
  "\<not> edit_ready small_script t 1 (ReplaceNode sample_fragment (Some \<lparr>ret_parent = 7, ret_placement = Append\<rparr>))"
  using sample_fragment_ok(1)
  by (auto simp: edit_ready_def edit_fragment_def retain_ok_def small_script_def mapped_source_identity_def next_id_def
      bt_last_key_def sample_fragment_def)

theorem validate_fragment_exact_witness:
  "(\<exists>m. validate_fragment sample_fragment = Ret m) \<and>
   validate_fragment \<lparr>gen_roots = [7], gen_nodes = []\<rparr> \<noteq> Panic"
  using validate_fragment_exact [of sample_fragment] validate_fragment_exact [of "\<lparr>gen_roots = [7], gen_nodes = []\<rparr>"]
    sample_fragment_ok(1) by blast

theorem apply_tree_edit_refines_witness:
  "\<exists>t app. tree_session TripleHash small_script t \<and>
    apply_tree_edit small_script t 1 (ReplaceNode sample_fragment None) sample_edit_meta = Ret app \<and>
    refined small_script t 1 (ReplaceNode sample_fragment None) app"
proof -
  obtain t where t: "tree_session TripleHash small_script t" "length (tree_nodes t) = 2" using sample_session .
  show ?thesis
    using apply_tree_edit_refines [OF session_editable [OF t(1)] sample_fragment_ok(3) _ sample_ready(1) [OF t(2)]]
      sample_fragment_ok(2) t(1) by (auto simp: edit_fragment_def)
qed

theorem tree_session_edits_witness:
  "\<exists>t e. tree_session TripleHash small_script t \<and>
    apply_tree_edit small_script t 1 (ReplaceNode sample_fragment (Some \<lparr>ret_parent = 7, ret_placement = Append\<rparr>)) sample_edit_meta = Fail e \<and>
    edit_refused small_script t 1 (ReplaceNode sample_fragment (Some \<lparr>ret_parent = 7, ret_placement = Append\<rparr>)) e"
proof -
  obtain t where t: "tree_session TripleHash small_script t" "length (tree_nodes t) = 2" using sample_session .
  let ?e = "ReplaceNode sample_fragment (Some \<lparr>ret_parent = 7, ret_placement = Append\<rparr>)"
  have "texts_ok (edit_fragment ?e)" using sample_fragment_ok(2) by (simp add: edit_fragment_def)
  from tree_session_edits [OF t(1) sample_fragment_ok(3) this, of 1] sample_ready(2)
  obtain e where "apply_tree_edit small_script t 1 ?e sample_edit_meta = Fail e" "edit_refused small_script t 1 ?e e"
    by (cases "apply_tree_edit small_script t 1 ?e sample_edit_meta") auto
  then show ?thesis using t(1) by blast
qed

end
