(* ===== verification/State_Types.thy ===== *)
theory State_Types
  imports Text_Range Ordered_Map
begin

text \<open>
  Data of the transactional state store, \<open>parser-wasm/src/state/mod.rs\<close>: scopes, namespaces, values,
  quotas and errors, the registry of namespaces with its access rules, and the checks on names and
  sizes.

  \<^item> Structs that serve as keys of ordered maps are datatypes with selectors, ordered as the
    derived \<open>Ord\<close> has it; strings are ordered by their bytes, as \<open>str\<close> is.
  \<^item> Messages are constructors that carry what the text interpolates.
  \<^item> Byte counts saturate at \<open>usize::MAX\<close>, revisions at \<open>u64::MAX\<close>.
\<close>

subsection \<open>Scopes, namespaces and values\<close>

datatype state_scope = InvocationScope | ParseScope | DocumentScope | ProjectScope | PersistentScope

datatype visibility = Private | Shared

datatype state_encoding = Raw | Cbor | Json

type_synonym bytes = string

record state_value =
  schema_id :: str
  val_encoding :: state_encoding
  val_bytes :: bytes

record state_entry =
  entry_key :: str
  entry_value :: state_value

record namespace_declaration =
  decl_name :: str
  decl_visibility :: visibility
  decl_schema_id :: str
  decl_schema_version :: nat
  decl_readers :: "str list"
  decl_writers :: "str list"

datatype namespace_key = PrivateKey (ns_owner: str) (ns_name: str) | SharedKey (ns_name: str)

definition key_visibility :: "namespace_key \<Rightarrow> visibility" where
  "key_visibility k = (case k of PrivateKey _ _ \<Rightarrow> Private | SharedKey _ \<Rightarrow> Shared)"

definition key_owner :: "namespace_key \<Rightarrow> str option" where
  "key_owner k = (case k of PrivateKey owner _ \<Rightarrow> Some owner | SharedKey _ \<Rightarrow> None)"

datatype address = Address (addr_scope: state_scope) (addr_namespace: namespace_key) (addr_key: str)

datatype revision_key = RevisionKey (rev_scope: state_scope) (rev_namespace: namespace_key)

datatype state_record_key =
  RecordKey state_scope visibility "str option" str str

datatype state_namespace_key =
  NamespaceId state_scope visibility "str option" str

definition address_public :: "address \<Rightarrow> state_record_key" where
  "address_public a = RecordKey (addr_scope a) (key_visibility (addr_namespace a))
     (key_owner (addr_namespace a)) (ns_name (addr_namespace a)) (addr_key a)"

definition revision_public :: "revision_key \<Rightarrow> state_namespace_key" where
  "revision_public k = NamespaceId (rev_scope k) (key_visibility (rev_namespace k))
     (key_owner (rev_namespace k)) (ns_name (rev_namespace k))"

text \<open>The revision key under which an address is versioned.\<close>

definition address_revision_key :: "address \<Rightarrow> revision_key" where
  "address_revision_key a = RevisionKey (addr_scope a) (addr_namespace a)"

subsection \<open>The derived orders\<close>

definition scope_rank :: "state_scope \<Rightarrow> nat" where
  "scope_rank s = (case s of InvocationScope \<Rightarrow> 0 | ParseScope \<Rightarrow> 1 | DocumentScope \<Rightarrow> 2
     | ProjectScope \<Rightarrow> 3 | PersistentScope \<Rightarrow> 4)"

lemma scope_rank_inject [simp]: "scope_rank s = scope_rank t \<longleftrightarrow> s = t"
  by (cases s; cases t) (simp_all add: scope_rank_def)

definition namespace_rank :: "namespace_key \<Rightarrow> nat \<times> str \<times> str" where
  "namespace_rank k = (case k of PrivateKey owner name \<Rightarrow> (0, owner, name) | SharedKey name \<Rightarrow> (1, name, []))"

lemma namespace_rank_inject [simp]: "namespace_rank k = namespace_rank j \<longleftrightarrow> k = j"
  by (cases k; cases j) (simp_all add: namespace_rank_def)

instantiation namespace_key :: linorder
begin

definition less_eq_namespace_key :: "namespace_key \<Rightarrow> namespace_key \<Rightarrow> bool" where
  "less_eq_namespace_key k j \<longleftrightarrow> namespace_rank k \<le> namespace_rank j"

definition less_namespace_key :: "namespace_key \<Rightarrow> namespace_key \<Rightarrow> bool" where
  "less_namespace_key k j \<longleftrightarrow> namespace_rank k < namespace_rank j"

instance
proof
  fix k j :: namespace_key
  assume "k \<le> j" "j \<le> k"
  then have "namespace_rank k = namespace_rank j" by (simp add: less_eq_namespace_key_def)
  then show "k = j" by (simp only: namespace_rank_inject)
qed (auto simp: less_eq_namespace_key_def less_namespace_key_def less_le)

end

definition address_rank :: "address \<Rightarrow> nat \<times> namespace_key \<times> str" where
  "address_rank a = (scope_rank (addr_scope a), addr_namespace a, addr_key a)"

lemma address_rank_inject [simp]: "address_rank a = address_rank b \<longleftrightarrow> a = b"
  by (cases a; cases b) (simp add: address_rank_def)

instantiation address :: linorder
begin

definition less_eq_address :: "address \<Rightarrow> address \<Rightarrow> bool" where
  "less_eq_address a b \<longleftrightarrow> address_rank a \<le> address_rank b"

definition less_address :: "address \<Rightarrow> address \<Rightarrow> bool" where
  "less_address a b \<longleftrightarrow> address_rank a < address_rank b"

instance
proof
  fix a b :: address
  assume "a \<le> b" "b \<le> a"
  then have "address_rank a = address_rank b" by (simp add: less_eq_address_def)
  then show "a = b" by (simp only: address_rank_inject)
qed (auto simp: less_eq_address_def less_address_def less_le)

end

definition revision_rank :: "revision_key \<Rightarrow> nat \<times> namespace_key" where
  "revision_rank k = (scope_rank (rev_scope k), rev_namespace k)"

lemma revision_rank_inject [simp]: "revision_rank k = revision_rank j \<longleftrightarrow> k = j"
  by (cases k; cases j) (simp add: revision_rank_def)

instantiation revision_key :: linorder
begin

definition less_eq_revision_key :: "revision_key \<Rightarrow> revision_key \<Rightarrow> bool" where
  "less_eq_revision_key k j \<longleftrightarrow> revision_rank k \<le> revision_rank j"

definition less_revision_key :: "revision_key \<Rightarrow> revision_key \<Rightarrow> bool" where
  "less_revision_key k j \<longleftrightarrow> revision_rank k < revision_rank j"

instance
proof
  fix k j :: revision_key
  assume "k \<le> j" "j \<le> k"
  then have "revision_rank k = revision_rank j" by (simp add: less_eq_revision_key_def)
  then show "k = j" by (simp only: revision_rank_inject)
qed (auto simp: less_eq_revision_key_def less_revision_key_def less_le)

end

text \<open>Collecting into a \<open>BTreeSet\<close>: iteration is ascending and without repetition.\<close>

definition bt_set_of :: "'a::linorder list \<Rightarrow> 'a list" where
  "bt_set_of xs = sort (remdups xs)"

lemma set_bt_set_of [simp]: "set (bt_set_of xs) = set xs" "distinct (bt_set_of xs)"
  by (simp_all add: bt_set_of_def)

subsection \<open>Errors\<close>

datatype input_message =
    MsgZeroQuota | MsgZeroVersion str | MsgDeclaredTwice str str | MsgPrivateAccess str
  | MsgAlreadyDeclared str | MsgBlankName str | MsgLongName str | MsgProjectUri str

datatype quota_message =
    MsgScanLimit nat nat | MsgNamespaceSize str nat nat | MsgValueSize nat nat | MsgKeySize nat nat

datatype internal_message = MsgDisappeared str | MsgDeltaOverflow

datatype state_error =
    NoActiveTransaction
  | InvalidInput input_message
  | UnknownNamespace visibility str
  | AccessDenied str str bool
  | SchemaMismatch str str str
  | QuotaExceeded quota_message
  | StaleDocumentRevision str nat nat
  | TransactionConflict str
  | TransactionClosed
  | ForeignSavepoint
  | Persistence str
  | Internal internal_message

subsection \<open>Sizes and names\<close>

definition usize_max :: nat where
  "usize_max = 2 ^ 64 - 1"

definition sat_add :: "nat \<Rightarrow> nat \<Rightarrow> nat" where
  "sat_add a b = min (a + b) usize_max"

definition stored_size :: "state_value \<Rightarrow> nat" where
  "stored_size v = sat_add (sat_add (length (schema_id v)) (length (val_bytes v))) 1"

type_synonym namespace_values = "(str, state_value) btree"

definition namespace_size :: "namespace_values \<Rightarrow> nat" where
  "namespace_size values =
     fold (\<lambda>(key, v) size. sat_add (sat_add size (length key)) (stored_size v)) values 0"

record state_quotas =
  max_key_bytes :: nat
  max_value_bytes :: nat
  max_namespace_bytes :: nat
  max_scan_entries :: nat

definition default_quotas :: state_quotas where
  "default_quotas = \<lparr>max_key_bytes = 4 * 1024, max_value_bytes = 1024 * 1024,
     max_namespace_bytes = 16 * 1024 * 1024, max_scan_entries = 1024\<rparr>"

definition quotas_validate :: "state_quotas \<Rightarrow> (state_error, unit) outcome" where
  "quotas_validate q =
     (if max_key_bytes q = 0 \<or> max_value_bytes q = 0 \<or> max_namespace_bytes q = 0 \<or> max_scan_entries q = 0
      then Fail (InvalidInput MsgZeroQuota) else Ret ())"

definition validate_identifier :: "str \<Rightarrow> str \<Rightarrow> (state_error, unit) outcome" where
  "validate_identifier kind name =
     (if is_blank name \<or> list_ex is_control (codes name) then Fail (InvalidInput (MsgBlankName kind))
      else if length name > 1024 then Fail (InvalidInput (MsgLongName kind))
      else Ret ())"

definition validate_key :: "str \<Rightarrow> nat \<Rightarrow> (state_error, unit) outcome" where
  "validate_key key maximum =
     (if length key > maximum then Fail (QuotaExceeded (MsgKeySize (length key) maximum)) else Ret ())"

definition apply_overlay :: "str \<Rightarrow> state_value option \<Rightarrow> namespace_values \<Rightarrow> namespace_values" where
  "apply_overlay key v values = (case v of Some w \<Rightarrow> bt_insert key w values | None \<Rightarrow> bt_remove key values)"

subsection \<open>The registry of namespaces\<close>

record namespace_record =
  rec_owner :: str
  rec_declaration :: namespace_declaration

type_synonym namespace_registry = "(namespace_key, namespace_record) btree"

definition declaration_key :: "str \<Rightarrow> visibility \<Rightarrow> str \<Rightarrow> namespace_key" where
  "declaration_key component vis name = (case vis of Private \<Rightarrow> PrivateKey component name | Shared \<Rightarrow> SharedKey name)"

text \<open>One declaration; the state is the names seen so far and the registry.\<close>

definition register_declaration ::
    "str \<Rightarrow> namespace_declaration \<Rightarrow> (visibility \<times> str) set \<times> namespace_registry
      \<Rightarrow> (state_error, (visibility \<times> str) set \<times> namespace_registry) outcome" where
  "register_declaration component d st =
     (case st of (names, records) \<Rightarrow>
      obind (validate_identifier ''namespace'' (decl_name d)) (\<lambda>_.
      obind (validate_identifier ''schema ID'' (decl_schema_id d)) (\<lambda>_.
      if decl_schema_version d = 0 then Fail (InvalidInput (MsgZeroVersion (decl_name d)))
      else if (decl_visibility d, decl_name d) \<in> names
        then Fail (InvalidInput (MsgDeclaredTwice component (decl_name d)))
      else if decl_visibility d = Private \<and> (decl_readers d \<noteq> [] \<or> decl_writers d \<noteq> [])
        then Fail (InvalidInput (MsgPrivateAccess (decl_name d)))
      else obind (check_all (validate_identifier ''component access ID'') (decl_readers d @ decl_writers d)) (\<lambda>_.
      let key = declaration_key component (decl_visibility d) (decl_name d) in
      if bt_contains records key then Fail (InvalidInput (MsgAlreadyDeclared (decl_name d)))
      else Ret (insert (decl_visibility d, decl_name d) names,
                bt_insert key \<lparr>rec_owner = component, rec_declaration = d\<rparr> records)))))"

definition registry_register ::
    "str \<Rightarrow> namespace_declaration list \<Rightarrow> namespace_registry \<Rightarrow> (state_error, namespace_registry) outcome" where
  "registry_register component ds records =
     obind (validate_identifier ''component ID'' component) (\<lambda>_.
     obind (try_for (register_declaration component) ds ({}, records)) (\<lambda>(_, records). Ret records))"

definition access_allowed :: "str \<Rightarrow> namespace_record \<Rightarrow> bool \<Rightarrow> bool" where
  "access_allowed component r write \<longleftrightarrow>
     rec_owner r = component \<or>
     (if write then component \<in> set (decl_writers (rec_declaration r))
      else component \<in> set (decl_readers (rec_declaration r)) \<or> component \<in> set (decl_writers (rec_declaration r)))"

definition registry_resolve ::
    "namespace_registry \<Rightarrow> str \<Rightarrow> visibility \<Rightarrow> str \<Rightarrow> bool
      \<Rightarrow> (state_error, namespace_key \<times> namespace_record) outcome" where
  "registry_resolve records component vis name write =
     (let key = declaration_key component vis name in
      obind (ok_or (UnknownNamespace vis name) (bt_get records key)) (\<lambda>r.
      if \<not> access_allowed component r write then Fail (AccessDenied component name write)
      else Ret (key, r)))"

end
