(* ===== verification/State_Codec.thy ===== *)
theory State_Codec
  imports State_Types
begin

text \<open>
  The binary encoding of the persistent state store, \<open>parser-wasm/src/state/persistent.rs\<close>:
  length-prefixed strings, namespace keys, record keys, values and namespace metadata.  A codec is
  specified by the locale \<open>prefix_codec\<close>: decoding what was encoded gives the value back and
  the number of bytes used, whatever follows; from it follow exact round trips and that two
  encodings never run into each other (distinct keys have distinct bytes).
\<close>

subsection \<open>The code\<close>

definition malformed :: "str \<Rightarrow> state_error" where
  "malformed message = Persistence (''malformed persistent StateStore data: '' @ message)"

definition le_bytes :: "nat \<Rightarrow> nat \<Rightarrow> bytes" where
  "le_bytes k n = map (\<lambda>i. char_of (n div 256 ^ i mod 256)) [0..<k]"

definition le_value :: "bytes \<Rightarrow> nat" where
  "le_value bs = foldr (\<lambda>b acc. byte b + 256 * acc) bs 0"

text \<open>\<open>push_string\<close>; a length that does not fit \<open>u32\<close> panics.\<close>

definition push_string :: "bytes \<Rightarrow> str \<Rightarrow> (state_error, bytes) outcome" where
  "push_string output s =
     (if length s < 2 ^ 32 then Ret (output @ le_bytes 4 (length s) @ s) else Panic)"

definition read_string :: "bytes \<Rightarrow> (state_error, str \<times> nat) outcome" where
  "read_string bs =
     (if length bs < 4 then Fail (malformed ''length-prefixed string is truncated'')
      else let n = le_value (take 4 bs); end' = 4 + n in
        if end' > usize_max then Fail (malformed ''length-prefixed string overflows'')
        else if length bs < end' then Fail (malformed ''length-prefixed string is truncated'')
        else let s = take n (drop 4 bs) in
          if utf8_ok s then Ret (s, end') else Fail (malformed ''length-prefixed string is not UTF-8''))"

definition encode_namespace :: "namespace_key \<Rightarrow> (state_error, bytes) outcome" where
  "encode_namespace k = (case k of
     PrivateKey owner name \<Rightarrow> obind (push_string [char_of (0::nat)] owner) (\<lambda>out. push_string out name)
   | SharedKey name \<Rightarrow> push_string [char_of (1::nat)] name)"

definition decode_namespace :: "bytes \<Rightarrow> (state_error, namespace_key \<times> nat) outcome" where
  "decode_namespace bs =
     (case bs of [] \<Rightarrow> Fail (malformed ''empty namespace key'')
      | tag # rest \<Rightarrow>
          if byte tag = 0 then
            obind (read_string rest) (\<lambda>(owner, used).
            obind (read_string (drop (1 + used) bs)) (\<lambda>(name, used').
            Ret (PrivateKey owner name, 1 + used + used')))
          else if byte tag = 1 then
            obind (read_string rest) (\<lambda>(name, used). Ret (SharedKey name, 1 + used))
          else Fail (malformed ''unknown namespace visibility tag''))"

definition decode_namespace_exact :: "bytes \<Rightarrow> (state_error, namespace_key) outcome" where
  "decode_namespace_exact bs =
     obind (decode_namespace bs) (\<lambda>(k, used).
       if used \<noteq> length bs then Fail (malformed ''namespace key has trailing bytes'') else Ret k)"

definition encode_persistent_key :: "namespace_key \<Rightarrow> str \<Rightarrow> (state_error, bytes) outcome" where
  "encode_persistent_key k key = obind (encode_namespace k) (\<lambda>out. push_string out key)"

definition decode_persistent_key :: "bytes \<Rightarrow> (state_error, namespace_key \<times> str) outcome" where
  "decode_persistent_key bs =
     obind (decode_namespace bs) (\<lambda>(k, used).
     obind (read_string (drop used bs)) (\<lambda>(key, key_used).
       if used + key_used \<noteq> length bs then Fail (malformed ''persistent key has trailing bytes'')
       else Ret (k, key)))"

definition encoding_tag :: "state_encoding \<Rightarrow> nat" where
  "encoding_tag e = (case e of Raw \<Rightarrow> 0 | Cbor \<Rightarrow> 1 | Json \<Rightarrow> 2)"

definition encode_value :: "state_value \<Rightarrow> (state_error, bytes) outcome" where
  "encode_value v =
     obind (push_string [] (schema_id v)) (\<lambda>out.
     Ret (out @ [char_of (encoding_tag (val_encoding v))] @ val_bytes v))"

definition decode_value :: "bytes \<Rightarrow> (state_error, state_value) outcome" where
  "decode_value bs =
     obind (read_string bs) (\<lambda>(schema, used).
     case drop used bs of
       [] \<Rightarrow> Fail (malformed ''state value has no encoding'')
     | tag # payload \<Rightarrow>
         obind (if byte tag = 0 then Ret Raw else if byte tag = 1 then Ret Cbor
                else if byte tag = 2 then Ret Json
                else Fail (malformed ''state value has an unknown encoding'')) (\<lambda>e.
         Ret \<lparr>schema_id = schema, val_encoding = e, val_bytes = payload\<rparr>))"

record namespace_metadata =
  md_schema_id :: str
  md_schema_version :: nat
  md_revision :: nat

definition encode_metadata :: "namespace_metadata \<Rightarrow> (state_error, bytes) outcome" where
  "encode_metadata m =
     obind (push_string [] (md_schema_id m)) (\<lambda>out.
     Ret (out @ le_bytes 4 (md_schema_version m) @ le_bytes 8 (md_revision m)))"

definition decode_metadata :: "bytes \<Rightarrow> (state_error, namespace_metadata) outcome" where
  "decode_metadata bs =
     obind (read_string bs) (\<lambda>(schema, used).
     if length bs \<noteq> used + 12 then Fail (malformed ''namespace metadata has an invalid length'')
     else Ret \<lparr>md_schema_id = schema, md_schema_version = le_value (take 4 (drop used bs)),
               md_revision = le_value (drop (used + 4) bs)\<rparr>)"

subsection \<open>Little-endian numbers\<close>

lemma length_le_bytes [simp]: "length (le_bytes k n) = k"
  by (simp add: le_bytes_def)

lemma le_bytes_Suc: "le_bytes (Suc k) n = char_of (n mod 256) # le_bytes k (n div 256)"
  unfolding le_bytes_def
  by (simp add: map_upt_Suc div_mult2_eq power_Suc mult.commute del: upt_Suc)

lemma le_value_Cons: "le_value (b # bs) = byte b + 256 * le_value bs"
  by (simp add: le_value_def)

lemma le_value_bytes: "n < 256 ^ k \<Longrightarrow> le_value (le_bytes k n) = n"
proof (induction k arbitrary: n)
  case 0
  then show ?case by (simp add: le_bytes_def le_value_def)
next
  case (Suc k)
  then have "n div 256 < 256 ^ k" by (simp add: less_mult_imp_div_less mult.commute)
  then show ?case using Suc.IH by (simp add: le_bytes_Suc le_value_Cons)
qed

subsection \<open>The contract of a codec\<close>

locale prefix_codec =
  fixes enc :: "'a \<Rightarrow> (state_error, bytes) outcome"
    and dec :: "bytes \<Rightarrow> (state_error, 'a \<times> nat) outcome"
    and ok :: "'a \<Rightarrow> bool"
  assumes enc_total: "ok x \<Longrightarrow> \<exists>b. enc x = Ret b"
    and dec_enc: "ok x \<Longrightarrow> enc x = Ret b \<Longrightarrow> dec (b @ rest) = Ret (x, length b)"
begin

lemma dec_enc_exact: "ok x \<Longrightarrow> enc x = Ret b \<Longrightarrow> dec b = Ret (x, length b)"
  using dec_enc [of x b "[]"] by simp

text \<open>Encodings are prefix free: what follows them cannot change what is read.\<close>

lemma enc_prefix_free:
  assumes "ok x" and "ok y" and "enc x = Ret b" and "enc y = Ret c" and "b @ r = c @ s"
  shows "x = y \<and> r = s"
proof -
  have "dec (b @ r) = Ret (x, length b)" "dec (c @ s) = Ret (y, length c)"
    using dec_enc assms(1-4) by blast+
  then have "x = y" "length b = length c" using assms(5) by simp_all
  then show ?thesis using assms(5) by simp
qed

lemma enc_inject: "ok x \<Longrightarrow> ok y \<Longrightarrow> enc x = Ret b \<Longrightarrow> enc y = Ret b \<Longrightarrow> x = y"
  using enc_prefix_free [of x y b b "[]" "[]"] by simp

end

text \<open>Strings the codec accepts: valid UTF-8 whose length fits \<open>u32\<close>.\<close>

definition name_ok :: "str \<Rightarrow> bool" where
  "name_ok s \<longleftrightarrow> utf8_ok s \<and> length s < 2 ^ 32"

definition ns_ok :: "namespace_key \<Rightarrow> bool" where
  "ns_ok k \<longleftrightarrow> name_ok (ns_name k) \<and> (\<forall>owner. key_owner k = Some owner \<longrightarrow> name_ok owner)"

lemma push_string_Ret: "name_ok s \<Longrightarrow> push_string out s = Ret (out @ le_bytes 4 (length s) @ s)"
  by (simp add: push_string_def name_ok_def)

lemma read_string_pushed:
  assumes "name_ok s"
  shows "read_string (le_bytes 4 (length s) @ s @ rest) = Ret (s, 4 + length s)"
proof -
  have "le_value (le_bytes 4 (length s)) = length s"
    by (rule le_value_bytes) (use assms in \<open>simp add: name_ok_def\<close>)
  then show ?thesis using assms
    by (simp add: read_string_def name_ok_def Let_def usize_max_def)
qed

interpretation string_codec: prefix_codec "push_string []" read_string name_ok
  by unfold_locales (auto simp: push_string_Ret read_string_pushed)

lemma encode_namespace_Ret:
  assumes "ns_ok k"
  shows "encode_namespace k = Ret (case k of
      PrivateKey owner name \<Rightarrow> char_of (0::nat) # le_bytes 4 (length owner) @ owner @ le_bytes 4 (length name) @ name
    | SharedKey name \<Rightarrow> char_of (1::nat) # le_bytes 4 (length name) @ name)"
  using assms by (cases k) (simp_all add: encode_namespace_def ns_ok_def key_owner_def push_string_Ret)

interpretation namespace_codec: prefix_codec encode_namespace decode_namespace ns_ok
proof
  fix k b and rest :: bytes
  assume k: "ns_ok k" and b: "encode_namespace k = Ret b"
  note e = encode_namespace_Ret [OF k, unfolded b, simplified]
  show "decode_namespace (b @ rest) = Ret (k, length b)"
  proof (cases k)
    case (PrivateKey owner name)
    then show ?thesis using k read_string_pushed [of name rest]
      read_string_pushed [of owner "le_bytes 4 (length name) @ name @ rest"]
      by (simp add: e decode_namespace_def ns_ok_def key_owner_def)
  next
    case (SharedKey name)
    then show ?thesis using k read_string_pushed [of name rest]
      by (simp add: e decode_namespace_def ns_ok_def)
  qed
qed (simp add: encode_namespace_Ret)

text \<open>A record key is a namespace followed by a string.\<close>

definition decode_key_prefix :: "bytes \<Rightarrow> (state_error, (namespace_key \<times> str) \<times> nat) outcome" where
  "decode_key_prefix bs =
     obind (decode_namespace bs) (\<lambda>(k, used).
     obind (read_string (drop used bs)) (\<lambda>(key, key_used). Ret ((k, key), used + key_used)))"

lemma encode_persistent_key_Ret:
  assumes "ns_ok k" and "name_ok key"
  obtains b where "encode_namespace k = Ret b"
    and "encode_persistent_key k key = Ret (b @ le_bytes 4 (length key) @ key)"
proof -
  obtain b where "encode_namespace k = Ret b" using namespace_codec.enc_total [OF assms(1)] by blast
  then show thesis using that push_string_Ret [OF assms(2)] by (simp add: encode_persistent_key_def)
qed

interpretation key_codec: prefix_codec
  "\<lambda>(k, key). encode_persistent_key k key" decode_key_prefix "\<lambda>(k, key). ns_ok k \<and> name_ok key"
proof
  fix x :: "namespace_key \<times> str" and b and rest :: bytes
  assume x: "case x of (k, key) \<Rightarrow> ns_ok k \<and> name_ok key"
  obtain k key where xk: "x = (k, key)" by (cases x)
  then have ok: "ns_ok k" "name_ok key" using x by simp_all
  obtain c where c: "encode_namespace k = Ret c"
      "encode_persistent_key k key = Ret (c @ le_bytes 4 (length key) @ key)"
    using encode_persistent_key_Ret [OF ok] .
  show "\<exists>b. (case x of (k, key) \<Rightarrow> encode_persistent_key k key) = Ret b" using c xk by simp
  assume "(case x of (k, key) \<Rightarrow> encode_persistent_key k key) = Ret b"
  then have b: "b = c @ le_bytes 4 (length key) @ key" using c xk by simp
  have "decode_namespace (b @ rest) = Ret (k, length c)"
    using namespace_codec.dec_enc [OF ok(1) c(1), of "le_bytes 4 (length key) @ key @ rest"] b by simp
  then show "decode_key_prefix (b @ rest) = Ret (x, length b)"
    using read_string_pushed [OF ok(2), of rest] xk b by (simp add: decode_key_prefix_def)
qed

lemma decode_persistent_key_alt:
  "decode_persistent_key bs = obind (decode_key_prefix bs) (\<lambda>(x, used).
     if used \<noteq> length bs then Fail (malformed ''persistent key has trailing bytes'') else Ret x)"
  by (auto simp: decode_persistent_key_def decode_key_prefix_def obind_assoc intro!: obind_cong)

lemma persistent_key_roundtrip:
  assumes "ns_ok k" and "name_ok key"
  shows "\<exists>b. encode_persistent_key k key = Ret b \<and> decode_persistent_key b = Ret (k, key)"
  using key_codec.enc_total [of "(k, key)"] key_codec.dec_enc_exact [of "(k, key)"] assms
  by (auto simp: decode_persistent_key_alt)

lemma persistent_key_inject:
  assumes "ns_ok k" "name_ok key" "ns_ok j" "name_ok key'"
    and "encode_persistent_key k key = Ret b" "encode_persistent_key j key' = Ret b"
  shows "k = j \<and> key = key'"
  using key_codec.enc_inject [of "(k, key)" "(j, key')" b] assms by simp

lemma namespace_roundtrip: "ns_ok k \<Longrightarrow> \<exists>b. encode_namespace k = Ret b \<and> decode_namespace_exact b = Ret k"
  using namespace_codec.enc_total namespace_codec.dec_enc_exact
  by (fastforce simp: decode_namespace_exact_def)

lemma value_roundtrip:
  assumes "name_ok (schema_id v)"
  shows "\<exists>b. encode_value v = Ret b \<and> decode_value b = Ret v"
proof -
  have "encode_value v = Ret (le_bytes 4 (length (schema_id v)) @ schema_id v @
      char_of (encoding_tag (val_encoding v)) # val_bytes v)"
    using assms by (simp add: encode_value_def push_string_Ret)
  moreover have "decode_value (le_bytes 4 (length (schema_id v)) @ schema_id v @
      char_of (encoding_tag (val_encoding v)) # val_bytes v) = Ret v"
    using read_string_pushed [OF assms] by (cases "val_encoding v") (simp_all add: decode_value_def encoding_tag_def)
  ultimately show ?thesis by blast
qed

lemma metadata_roundtrip:
  assumes "name_ok (md_schema_id m)" and "md_schema_version m < 2 ^ 32" and "md_revision m < 2 ^ 64"
  shows "\<exists>b. encode_metadata m = Ret b \<and> decode_metadata b = Ret m"
proof -
  let ?s = "md_schema_id m" and ?v = "le_bytes 4 (md_schema_version m)" and ?r = "le_bytes 8 (md_revision m)"
  have e: "encode_metadata m = Ret (le_bytes 4 (length ?s) @ ?s @ ?v @ ?r)"
    using assms by (simp add: encode_metadata_def push_string_Ret)
  have "le_value ?v = md_schema_version m" "le_value ?r = md_revision m"
    using assms by (simp_all add: le_value_bytes)
  then have "decode_metadata (le_bytes 4 (length ?s) @ ?s @ ?v @ ?r) = Ret m"
    using read_string_pushed [OF assms(1), of "?v @ ?r"] by (simp add: decode_metadata_def)
  then show ?thesis using e by blast
qed

text \<open>
  C35. The persistent encoding is faithful: namespaces, record keys, values and metadata whose
  strings are valid UTF-8 of less than 4 GiB are encoded without panicking and decoded back
  exactly, and two distinct (namespace, key) pairs never share their bytes.
\<close>

theorem persistent_encoding_faithful:
  assumes "ns_ok k" and "name_ok key" and "name_ok (schema_id v)"
    and "name_ok (md_schema_id m)" and "md_schema_version m < 2 ^ 32" and "md_revision m < 2 ^ 64"
  shows "(\<exists>b. encode_namespace k = Ret b \<and> decode_namespace_exact b = Ret k) \<and>
    (\<exists>b. encode_persistent_key k key = Ret b \<and> decode_persistent_key b = Ret (k, key) \<and>
      (\<forall>j key'. ns_ok j \<and> name_ok key' \<and> encode_persistent_key j key' = Ret b \<longrightarrow> j = k \<and> key' = key)) \<and>
    (\<exists>b. encode_value v = Ret b \<and> decode_value b = Ret v) \<and>
    (\<exists>b. encode_metadata m = Ret b \<and> decode_metadata b = Ret m)"
proof -
  obtain b where b: "encode_persistent_key k key = Ret b" "decode_persistent_key b = Ret (k, key)"
    using persistent_key_roundtrip [OF assms(1,2)] by blast
  have "\<forall>j key'. ns_ok j \<and> name_ok key' \<and> encode_persistent_key j key' = Ret b \<longrightarrow> j = k \<and> key' = key"
    using persistent_key_inject [OF _ _ assms(1,2) _ b(1)] by blast
  then show ?thesis
    using b namespace_roundtrip [OF assms(1)] value_roundtrip [OF assms(3)] metadata_roundtrip [OF assms(4-6)] by blast
qed

theorem persistent_encoding_faithful_witness:
  "\<exists>b. encode_persistent_key (PrivateKey ''a'' ''b'') ''k'' = Ret b \<and>
    decode_persistent_key b = Ret (PrivateKey ''a'' ''b'', ''k'')"
proof -
  have n: "name_ok ''a''" "name_ok ''b''" "name_ok ''k''"
    by (simp_all add: name_ok_def utf8_ok.simps utf8_step_def)
  then have k: "ns_ok (PrivateKey ''a'' ''b'')" by (simp add: ns_ok_def key_owner_def)
  have v: "name_ok (schema_id \<lparr>schema_id = ''a'', val_encoding = Json, val_bytes = ''x''\<rparr>)"
    "name_ok (md_schema_id \<lparr>md_schema_id = ''a'', md_schema_version = 1, md_revision = 7\<rparr>)"
    "md_schema_version \<lparr>md_schema_id = ''a'', md_schema_version = 1, md_revision = 7\<rparr> < 2 ^ 32"
    "md_revision \<lparr>md_schema_id = ''a'', md_schema_version = 1, md_revision = 7\<rparr> < 2 ^ 64"
    using n by simp_all
  show ?thesis using persistent_encoding_faithful [OF k n(3) v] by blast
qed

subsection \<open>What decodes was encoded\<close>

lemma le_bytes_value: "length bs = k \<Longrightarrow> le_bytes k (le_value bs) = bs"
proof (induction bs arbitrary: k)
  case Nil
  then show ?case by (simp add: le_bytes_def)
next
  case (Cons b bs)
  have lt: "byte b < 256" by (rule nat_of_char_less_256)
  have "(byte b + 256 * le_value bs) mod 256 = byte b" "(byte b + 256 * le_value bs) div 256 = le_value bs"
    using lt by simp_all
  moreover obtain j where "k = Suc j" "length bs = j" using Cons.prems by auto
  ultimately show ?case using Cons.IH [of j] by (simp only: le_value_Cons le_bytes_Suc char_of_char)
qed

lemma read_string_canonical:
  assumes "read_string bs = Ret (s, used)"
  shows "name_ok s \<and> used = 4 + length s \<and> (\<exists>rest. bs = le_bytes 4 (length s) @ s @ rest)"
proof -
  let ?n = "le_value (take 4 bs)"
  have f: "4 \<le> length bs" "4 + ?n \<le> length bs" "s = take ?n (drop 4 bs)" "utf8_ok s" "used = 4 + ?n"
    using assms by (auto simp: read_string_def Let_def split: if_splits)
  have len: "length s = ?n" using f by simp
  have b4: "le_bytes 4 ?n = take 4 bs" by (rule le_bytes_value) (use f(1) in simp)
  have bound: "le_value cs < 256 ^ length cs" for cs
  proof (induction cs)
    case (Cons b cs)
    have b: "byte b < 256" by (rule nat_of_char_less_256)
    then have "byte b + 256 * le_value cs < 256 * (le_value cs + 1)" by simp
    also have "\<dots> \<le> 256 * 256 ^ length cs" using Cons by (intro mult_le_mono) simp_all
    finally show ?case by (simp add: le_value_Cons)
  qed (simp add: le_value_def)
  have "?n < 2 ^ 32" using bound [of "take 4 bs"] f(1) by (simp add: min_absorb2)
  moreover have "bs = take 4 bs @ take ?n (drop 4 bs) @ drop ?n (drop 4 bs)"
    by (simp only: append_take_drop_id)
  then have "bs = le_bytes 4 (length s) @ s @ drop ?n (drop 4 bs)"
    unfolding len b4 using f(3) by simp
  ultimately show ?thesis using f len by (auto simp: name_ok_def)
qed

lemma decode_namespace_canonical:
  assumes "decode_namespace bs = Ret (k, used)"
  shows "ns_ok k \<and> (\<exists>b rest. encode_namespace k = Ret b \<and> bs = b @ rest \<and> used = length b)"
proof -
  obtain tag rest where bs: "bs = tag # rest" using assms by (cases bs) (auto simp: decode_namespace_def)
  consider "byte tag = 0" | "byte tag = 1" using assms bs by (auto simp: decode_namespace_def split: if_splits)
  then show ?thesis
  proof cases
    case 1
    then obtain owner u name u' where r: "read_string rest = Ret (owner, u)"
      "read_string (drop (1 + u) bs) = Ret (name, u')" "k = PrivateKey owner name" "used = 1 + u + u'"
      using assms bs by (auto simp: decode_namespace_def outcome_simps)
    have tag: "tag = char_of (0::nat)" using 1 by (metis char_of_char)
    obtain rest1 where o1: "name_ok owner" "u = 4 + length owner" "rest = le_bytes 4 (length owner) @ owner @ rest1"
      using read_string_canonical [OF r(1)] by blast
    obtain rest2 where n1: "name_ok name" "u' = 4 + length name" "drop (1 + u) bs = le_bytes 4 (length name) @ name @ rest2"
      using read_string_canonical [OF r(2)] by blast
    have "drop (1 + u) bs = drop u rest" by (simp add: bs)
    then have "rest1 = le_bytes 4 (length name) @ name @ rest2" using n1(3) unfolding o1(2,3) by simp
    then show ?thesis using o1 n1 bs tag r(3,4)
      by (simp add: ns_ok_def key_owner_def encode_namespace_Ret)
  next
    case 2
    then obtain name u where r: "read_string rest = Ret (name, u)" "k = SharedKey name" "used = 1 + u"
      using assms bs by (auto simp: decode_namespace_def outcome_simps)
    have tag: "tag = char_of (1::nat)" using 2 by (metis char_of_char)
    obtain rest1 where "name_ok name" "u = 4 + length name" "rest = le_bytes 4 (length name) @ name @ rest1"
      using read_string_canonical [OF r(1)] by blast
    then show ?thesis using bs tag r(2,3) by (simp add: ns_ok_def key_owner_def encode_namespace_Ret)
  qed
qed

lemma decode_persistent_key_canonical:
  assumes "decode_persistent_key bs = Ret (k, key)"
  shows "ns_ok k \<and> name_ok key \<and> encode_persistent_key k key = Ret bs"
proof -
  obtain u u' where r: "decode_namespace bs = Ret (k, u)" "read_string (drop u bs) = Ret (key, u')"
    "u + u' = length bs"
    using assms by (auto simp: decode_persistent_key_def outcome_simps split: if_splits)
  obtain b rest where b: "ns_ok k" "encode_namespace k = Ret b" "bs = b @ rest" "u = length b"
    using decode_namespace_canonical [OF r(1)] by blast
  obtain rest' where n: "name_ok key" "u' = 4 + length key" "drop u bs = le_bytes 4 (length key) @ key @ rest'"
    using read_string_canonical [OF r(2)] by blast
  have "rest = le_bytes 4 (length key) @ key @ rest'" using n(3) b(3,4) by simp
  moreover from this have "rest' = []" using r(3) b(3,4) n(2) by simp
  ultimately show ?thesis using b n(1) by (simp add: encode_persistent_key_def push_string_Ret)
qed

lemma decode_namespace_exact_canonical:
  assumes "decode_namespace_exact bs = Ret k"
  shows "ns_ok k \<and> encode_namespace k = Ret bs"
proof -
  have "decode_namespace bs = Ret (k, length bs)"
    using assms by (auto simp: decode_namespace_exact_def outcome_simps split: if_splits)
  from decode_namespace_canonical [OF this] show ?thesis by auto
qed

end
