(* ===== verification/State_Persistent.thy ===== *)
theory State_Persistent
  imports State_Codec
begin

text \<open>
  \<open>PersistentProject\<close> of \<open>parser-wasm/src/state/persistent.rs\<close>: the in-memory copy of the
  persistent scope and the \<open>redb\<close> database behind it.

  The database is third-party code and enters as a parameter, the record \<open>redb\<close> of the
  operations the source calls: opening a file, scanning a table, and a write transaction given as
  the list of its inserts and removals, which takes effect as a whole or not at all.  The
  documented behaviour the properties rely on is the hypothesis \<open>redb_ok\<close>: what a scan
  returns is the content, and a committed transaction changes the content by its operations.
\<close>

subsection \<open>The database\<close>

datatype redb_table = ValuesTable | NamespacesTable

datatype redb_error = TableMissing | RedbError str

datatype table_op = TableInsert redb_table bytes bytes | TableRemove redb_table bytes

record 'd redb =
  redb_open :: "str \<Rightarrow> (redb_error, 'd) outcome"
  redb_scan :: "'d \<Rightarrow> redb_table \<Rightarrow> (redb_error, (bytes \<times> bytes) list) outcome"
  redb_write :: "'d \<Rightarrow> table_op list \<Rightarrow> (redb_error, 'd) outcome"

definition persistence_error :: "redb_error \<Rightarrow> state_error" where
  "persistence_error e = Persistence (case e of TableMissing \<Rightarrow> ''table does not exist'' | RedbError m \<Rightarrow> m)"

type_synonym table_view = "redb_table \<Rightarrow> bytes \<Rightarrow> bytes option"

definition apply_op :: "table_op \<Rightarrow> table_view \<Rightarrow> table_view" where
  "apply_op w view = (case w of
     TableInsert t k v \<Rightarrow> view(t := (view t)(k \<mapsto> v))
   | TableRemove t k \<Rightarrow> view(t := (view t)(k := None)))"

definition redb_ok :: "'d redb \<Rightarrow> ('d \<Rightarrow> table_view) \<Rightarrow> bool" where
  "redb_ok env view \<longleftrightarrow>
     (\<forall>d t es. redb_scan env d t = Ret es \<longrightarrow> distinct (map fst es) \<and> map_of es = view d t) \<and>
     (\<forall>d t. redb_scan env d t = Fail TableMissing \<longrightarrow> view d t = Map.empty) \<and>
     (\<forall>d ws d'. redb_write env d ws = Ret d' \<longrightarrow> view d' = fold apply_op ws (view d)) \<and>
     (\<forall>d t. redb_scan env d t \<noteq> Panic) \<and> (\<forall>d ws. redb_write env d ws \<noteq> Panic)"

text \<open>A table that does not exist reads as empty.\<close>

definition table_entries :: "'d redb \<Rightarrow> 'd \<Rightarrow> redb_table \<Rightarrow> (state_error, (bytes \<times> bytes) list) outcome" where
  "table_entries env d t = (case redb_scan env d t of
     Ret es \<Rightarrow> Ret es
   | Fail TableMissing \<Rightarrow> Ret []
   | Fail e \<Rightarrow> Fail (persistence_error e)
   | Panic \<Rightarrow> Panic)"

subsection \<open>The persistent project\<close>

record 'd persistent_project =
  pp_database :: 'd
  pp_values :: "(namespace_key, namespace_values) btree"
  pp_revisions :: "(namespace_key, nat) btree"

definition read_metadata :: "'d redb \<Rightarrow> 'd \<Rightarrow> (state_error, (namespace_key, namespace_metadata) btree) outcome" where
  "read_metadata env d =
     obind (table_entries env d NamespacesTable) (\<lambda>es.
     try_for (\<lambda>(key, v) m.
       obind (decode_namespace_exact key) (\<lambda>ns.
       obind (decode_metadata v) (\<lambda>md. Ret (bt_insert ns md m)))) es [])"

definition schema_matches :: "namespace_metadata \<Rightarrow> namespace_declaration \<Rightarrow> bool" where
  "schema_matches md d \<longleftrightarrow> md_schema_id md = decl_schema_id d \<and> md_schema_version md = decl_schema_version d"

definition matching_revisions ::
    "(namespace_key, namespace_metadata) btree \<Rightarrow> namespace_registry \<Rightarrow> (namespace_key, nat) btree" where
  "matching_revisions metadata records =
     fold (\<lambda>(ns, r) revs. case bt_get metadata ns of
         None \<Rightarrow> revs
       | Some stored \<Rightarrow> if schema_matches stored (rec_declaration r)
           then bt_insert ns (md_revision stored) revs else revs) records []"

definition load_value ::
    "namespace_registry \<Rightarrow> bytes \<times> bytes \<Rightarrow> (namespace_key, namespace_values) btree
      \<Rightarrow> (state_error, (namespace_key, namespace_values) btree) outcome" where
  "load_value records e vals = (case e of (bkey, bvalue) \<Rightarrow>
     obind (decode_persistent_key bkey) (\<lambda>(ns, key).
     case bt_get records ns of
       None \<Rightarrow> Ret vals
     | Some r \<Rightarrow> obind (decode_value bvalue) (\<lambda>v.
         if schema_id v \<noteq> decl_schema_id (rec_declaration r) then Ret vals
         else Ret (bt_insert ns (bt_insert key v (bt_get_or [] vals ns)) vals))))"

definition reload :: "'d redb \<Rightarrow> namespace_registry \<Rightarrow> ('d persistent_project, state_error, unit) action" where
  "reload env records p0 =
     (let p = p0\<lparr>pp_values := [], pp_revisions := []\<rparr> in
      case read_metadata env (pp_database p) of
        Fail e \<Rightarrow> (Fail e, p)
      | Panic \<Rightarrow> (Panic, p)
      | Ret metadata \<Rightarrow>
        (let p = p\<lparr>pp_revisions := matching_revisions metadata records\<rparr> in
         case table_entries env (pp_database p) ValuesTable of
           Fail e \<Rightarrow> (Fail e, p)
         | Panic \<Rightarrow> (Panic, p)
         | Ret es \<Rightarrow>
             (case run_for (load_value records) es [] of (r, vals) \<Rightarrow> (r, p\<lparr>pp_values := vals\<rparr>))))"

text \<open>The metadata to write for each namespace, and the namespaces whose schema has changed.\<close>

definition schema_changed ::
    "(namespace_key, namespace_metadata) btree \<Rightarrow> namespace_key \<Rightarrow> namespace_declaration \<Rightarrow> bool" where
  "schema_changed stored ns d =
     (case bt_get stored ns of None \<Rightarrow> False | Some previous \<Rightarrow> \<not> schema_matches previous d)"

definition new_metadata ::
    "(namespace_key, namespace_metadata) btree \<Rightarrow> namespace_key \<Rightarrow> namespace_declaration \<Rightarrow> namespace_metadata" where
  "new_metadata stored ns d =
     \<lparr>md_schema_id = decl_schema_id d, md_schema_version = decl_schema_version d,
      md_revision = (case bt_get stored ns of
          None \<Rightarrow> 0
        | Some previous \<Rightarrow> if schema_changed stored ns d then sat_inc_u64 (md_revision previous)
            else md_revision previous)\<rparr>"

definition metadata_op :: "namespace_key \<Rightarrow> namespace_metadata \<Rightarrow> (state_error, table_op) outcome" where
  "metadata_op ns md =
     obind (encode_namespace ns) (\<lambda>k. obind (encode_metadata md) (\<lambda>v. Ret (TableInsert NamespacesTable k v)))"

definition reset_namespaces :: "(namespace_key, namespace_metadata) btree \<Rightarrow> namespace_registry \<Rightarrow> namespace_key list" where
  "reset_namespaces stored records = map fst (filter (\<lambda>(ns, r). schema_changed stored ns (rec_declaration r)) records)"

text \<open>The keys to remove; a key that cannot be decoded is left alone.\<close>

definition belongs_to :: "namespace_key list \<Rightarrow> bytes \<Rightarrow> bool" where
  "belongs_to reset key = (case decode_persistent_key key of Ret (ns, _) \<Rightarrow> ns \<in> set reset | _ \<Rightarrow> False)"

definition reset_keys :: "'d redb \<Rightarrow> 'd \<Rightarrow> namespace_key list \<Rightarrow> (state_error, bytes list) outcome" where
  "reset_keys env d reset =
     (if reset = [] then Ret []
      else obind (table_entries env d ValuesTable) (\<lambda>es. Ret (filter (belongs_to reset) (map fst es))))"

definition synchronize :: "'d redb \<Rightarrow> namespace_registry \<Rightarrow> ('d persistent_project, state_error, unit) action" where
  "synchronize env records p =
     (case
        obind (read_metadata env (pp_database p)) (\<lambda>stored.
        obind (reset_keys env (pp_database p) (reset_namespaces stored records)) (\<lambda>keys.
        obind (try_map (\<lambda>(ns, r). metadata_op ns (new_metadata stored ns (rec_declaration r))) records) (\<lambda>ops.
        omap_err persistence_error (redb_write env (pp_database p) (map (TableRemove ValuesTable) keys @ ops)))))
      of
        Ret d \<Rightarrow> reload env records (p\<lparr>pp_database := d\<rparr>)
      | Fail e \<Rightarrow> (Fail e, p)
      | Panic \<Rightarrow> (Panic, p))"

definition persistent_open ::
    "'d redb \<Rightarrow> str \<Rightarrow> namespace_registry \<Rightarrow> (state_error, 'd persistent_project) outcome" where
  "persistent_open env path records =
     obind (omap_err persistence_error (redb_open env path)) (\<lambda>d.
     case synchronize env records \<lparr>pp_database = d, pp_values = [], pp_revisions = []\<rparr> of
       (Ret _, p) \<Rightarrow> Ret p
     | (Fail e, _) \<Rightarrow> Fail e
     | (Panic, _) \<Rightarrow> Panic)"

definition value_op :: "address \<times> state_value option \<Rightarrow> (state_error, table_op) outcome" where
  "value_op w = (case w of (a, replacement) \<Rightarrow>
     obind (encode_persistent_key (addr_namespace a) (addr_key a)) (\<lambda>k.
     case replacement of
       Some v \<Rightarrow> obind (encode_value v) (\<lambda>b. Ret (TableInsert ValuesTable k b))
     | None \<Rightarrow> Ret (TableRemove ValuesTable k)))"

definition revision_op ::
    "namespace_registry \<Rightarrow> (namespace_key, nat) btree \<Rightarrow> namespace_key \<Rightarrow> (state_error, table_op) outcome" where
  "revision_op records revs ns =
     obind (ok_or (Internal (MsgDisappeared (ns_name ns))) (bt_get records ns)) (\<lambda>r.
     metadata_op ns \<lparr>md_schema_id = decl_schema_id (rec_declaration r),
       md_schema_version = decl_schema_version (rec_declaration r),
       md_revision = sat_inc_u64 (bt_get_or 0 revs ns)\<rparr>)"

definition overlay_values ::
    "address \<times> state_value option \<Rightarrow> (namespace_key, namespace_values) btree \<Rightarrow> (namespace_key, namespace_values) btree" where
  "overlay_values w vals = (case w of (a, v) \<Rightarrow>
     bt_insert (addr_namespace a) (apply_overlay (addr_key a) v (bt_get_or [] vals (addr_namespace a))) vals)"

definition bump_revision :: "'k::linorder \<Rightarrow> ('k, nat) btree \<Rightarrow> ('k, nat) btree" where
  "bump_revision k revs = bt_insert k (sat_inc_u64 (bt_get_or 0 revs k)) revs"

text \<open>A failed commit leaves memory and database as they were.\<close>

definition persistent_commit ::
    "'d redb \<Rightarrow> (address, state_value option) btree \<Rightarrow> namespace_registry \<Rightarrow> 'd persistent_project
      \<Rightarrow> (state_error, 'd persistent_project) outcome" where
  "persistent_commit env writes records p =
     (let touched = bt_set_of (map (addr_namespace \<circ> fst) writes) in
      obind (try_map value_op writes) (\<lambda>vops.
      obind (try_map (revision_op records (pp_revisions p)) touched) (\<lambda>rops.
      obind (omap_err persistence_error (redb_write env (pp_database p) (vops @ rops))) (\<lambda>d.
      Ret \<lparr>pp_database = d, pp_values = fold overlay_values writes (pp_values p),
           pp_revisions = fold bump_revision touched (pp_revisions p)\<rparr>))))"

end
