(* ===== verification/State_Cache.thy ===== *)
theory State_Cache
  imports State_Persistent
begin

text \<open>
  The cache of a persistent project against its database: what \<open>db_value\<close>, \<open>db_metadata\<close> and
  \<open>db_revision\<close> read from the tables through the registered schemas, the invariant \<open>cache_ok\<close> that
  the cache shows exactly that, and its proof for loading, schema synchronization and commits.
  \<open>persistent_reachable\<close> are the projects the store can hold.
\<close>


subsection \<open>The cache and the database\<close>

text \<open>A lookup in the nested maps of the cache.\<close>

definition val_at :: "(namespace_key, namespace_values) btree \<Rightarrow> namespace_key \<Rightarrow> str \<Rightarrow> state_value option" where
  "val_at vals ns key = (case bt_get vals ns of None \<Rightarrow> None | Some m \<Rightarrow> bt_get m key)"

text \<open>What the database holds for a record, as the registered schema lets it be seen.\<close>

definition stored_value :: "namespace_registry \<Rightarrow> namespace_key \<Rightarrow> bytes \<Rightarrow> state_value option" where
  "stored_value records ns w = (case bt_get records ns of
     None \<Rightarrow> None
   | Some r \<Rightarrow> (case decode_value w of
       Ret v \<Rightarrow> if schema_id v = decl_schema_id (rec_declaration r) then Some v else None
     | _ \<Rightarrow> None))"

definition db_value :: "table_view \<Rightarrow> namespace_registry \<Rightarrow> namespace_key \<Rightarrow> str \<Rightarrow> state_value option" where
  "db_value view records ns key = (case encode_persistent_key ns key of
     Ret b \<Rightarrow> Option.bind (view ValuesTable b) (stored_value records ns)
   | _ \<Rightarrow> None)"

definition db_metadata :: "table_view \<Rightarrow> namespace_key \<Rightarrow> namespace_metadata option" where
  "db_metadata view ns = (case encode_namespace ns of
     Ret b \<Rightarrow> (case view NamespacesTable b of
         None \<Rightarrow> None
       | Some w \<Rightarrow> (case decode_metadata w of Ret md \<Rightarrow> Some md | _ \<Rightarrow> None))
   | _ \<Rightarrow> None)"

definition db_revision :: "table_view \<Rightarrow> namespace_registry \<Rightarrow> namespace_key \<Rightarrow> nat option" where
  "db_revision view records ns = (case (bt_get records ns, db_metadata view ns) of
     (Some r, Some md) \<Rightarrow> if schema_matches md (rec_declaration r) then Some (md_revision md) else None
   | _ \<Rightarrow> None)"

definition db_decodes :: "table_view \<Rightarrow> namespace_registry \<Rightarrow> bool" where
  "db_decodes view records \<longleftrightarrow>
     (\<forall>b w. view ValuesTable b = Some w \<longrightarrow>
        (\<exists>k key. decode_persistent_key b = Ret (k, key) \<and>
           (bt_contains records k \<longrightarrow> (\<exists>v. decode_value w = Ret v)))) \<and>
     (\<forall>b w. view NamespacesTable b = Some w \<longrightarrow>
        (\<exists>k md. decode_namespace_exact b = Ret k \<and> decode_metadata w = Ret md))"

text \<open>The cache shows exactly the database.\<close>

definition cache_ok :: "table_view \<Rightarrow> namespace_registry \<Rightarrow> 'd persistent_project \<Rightarrow> bool" where
  "cache_ok view records p \<longleftrightarrow> db_decodes view records \<and>
     (\<forall>ns key. ns_ok ns \<and> name_ok key \<longrightarrow> val_at (pp_values p) ns key = db_value view records ns key) \<and>
     (\<forall>ns. ns_ok ns \<longrightarrow> bt_get (pp_revisions p) ns = db_revision view records ns)"

lemma val_at_insert:
  "val_at (bt_insert ns m vals) k key = (if k = ns then bt_get m key else val_at vals k key)"
  by (simp add: val_at_def bt_get_insert)

lemma val_at_insert_in:
  "val_at (bt_insert ns (bt_insert key v (bt_get_or [] vals ns)) vals) k j =
    (if k = ns \<and> j = key then Some v else val_at vals k j)"
  by (auto simp: val_at_insert bt_get_insert bt_get_or_def val_at_def split: option.splits)

lemma val_at_overlay:
  "val_at (overlay_values (a, v) vals) k j =
    (if k = addr_namespace a \<and> j = addr_key a then v else val_at vals k j)"
  by (auto simp: overlay_values_def apply_overlay_def val_at_insert bt_get_insert bt_get_remove bt_get_or_def
      val_at_def split: option.splits)

subsection \<open>Loading\<close>

lemma load_value_Ret:
  assumes "load_value records (b, w) vals = Ret vals'" and "encode_persistent_key ns key = Ret c"
    and "ns_ok ns" "name_ok key"
  shows "val_at vals' ns key = (if b = c then
      (case stored_value records ns w of Some v \<Rightarrow> Some v | None \<Rightarrow> val_at vals ns key)
    else val_at vals ns key)"
proof -
  obtain k j where d: "decode_persistent_key b = Ret (k, j)"
    using assms(1) by (auto simp: load_value_def outcome_simps)
  have canon: "ns_ok k" "name_ok j" "encode_persistent_key k j = Ret b"
    using decode_persistent_key_canonical [OF d] by simp_all
  have same: "b = c \<longleftrightarrow> k = ns \<and> j = key"
    using persistent_key_inject [OF canon(1,2) assms(3,4) canon(3)] assms(2) canon(3) by auto
  show ?thesis
  proof (cases "bt_get records k")
    case None
    then show ?thesis using assms(1) d same by (auto simp: load_value_def stored_value_def)
  next
    case (Some r)
    then obtain v where v: "decode_value w = Ret v"
      "vals' = (if schema_id v \<noteq> decl_schema_id (rec_declaration r) then vals
        else bt_insert k (bt_insert j v (bt_get_or [] vals k)) vals)"
      using assms(1) d by (auto simp: load_value_def outcome_simps split: if_splits)
    then show ?thesis using Some same by (auto simp: stored_value_def val_at_insert_in)
  qed
qed

lemma load_values_Ret:
  assumes "try_for (load_value records) es vals = Ret vals'" and "distinct (map fst es)"
    and "encode_persistent_key ns key = Ret c" "ns_ok ns" "name_ok key"
  shows "val_at vals' ns key =
    (case Option.bind (map_of es c) (stored_value records ns) of Some v \<Rightarrow> Some v | None \<Rightarrow> val_at vals ns key)"
  using assms(1,2)
proof (induction es arbitrary: vals)
  case (Cons e es)
  obtain b w where e: "e = (b, w)" by (cases e)
  obtain vals1 where v: "load_value records (b, w) vals = Ret vals1" "try_for (load_value records) es vals1 = Ret vals'"
    using Cons.prems(1) e by (auto simp: outcome_simps)
  have "b = c \<Longrightarrow> map_of es c = None" using Cons.prems(2) e by (auto simp: map_of_eq_None_iff)
  then show ?case
    using Cons.IH [OF v(2)] Cons.prems(2) load_value_Ret [OF v(1) assms(3-5)] e
    by (auto split: option.splits)
qed simp

lemma load_values_decodes:
  assumes "try_for (load_value records) es vals = Ret vals'" and "(b, w) \<in> set es"
  shows "\<exists>k key. decode_persistent_key b = Ret (k, key) \<and> (bt_contains records k \<longrightarrow> (\<exists>v. decode_value w = Ret v))"
  using assms
proof (induction es arbitrary: vals)
  case (Cons e es)
  obtain vals1 where v: "load_value records e vals = Ret vals1" "try_for (load_value records) es vals1 = Ret vals'"
    using Cons.prems(1) by (auto simp: outcome_simps)
  show ?case
  proof (cases "e = (b, w)")
    case True
    then show ?thesis using v(1)
      by (auto simp: load_value_def outcome_simps bt_contains_def split: option.splits)
  next
    case False
    then show ?thesis using Cons.IH [OF v(2)] Cons.prems(2) by auto
  qed
qed simp

lemma load_values_total:
  assumes "\<forall>(b, w) \<in> set es. \<exists>k key. decode_persistent_key b = Ret (k, key) \<and>
      (bt_contains records k \<longrightarrow> (\<exists>v. decode_value w = Ret v))"
  shows "\<exists>vals'. try_for (load_value records) es vals = Ret vals'"
  using assms
proof (induction es arbitrary: vals)
  case (Cons e es)
  obtain b w k key where "e = (b, w)" "decode_persistent_key b = Ret (k, key)"
    "bt_contains records k \<longrightarrow> (\<exists>v. decode_value w = Ret v)"
    using Cons.prems by (cases e) auto
  then have "\<exists>vals1. load_value records e vals = Ret vals1"
    by (auto simp: load_value_def bt_contains_def split: option.splits)
  then show ?case using Cons by fastforce
qed simp

text \<open>Metadata.\<close>

lemma read_entries_Ret:
  assumes "try_for (\<lambda>(key, v) m. obind (decode_namespace_exact key) (\<lambda>ns.
       obind (decode_metadata v) (\<lambda>md. Ret (bt_insert ns md m)))) es m0 = Ret m"
    and "distinct (map fst es)" and "encode_namespace ns = Ret c" "ns_ok ns"
  shows "bt_get m ns = (case map_of es c of
      None \<Rightarrow> bt_get m0 ns | Some w \<Rightarrow> (case decode_metadata w of Ret md \<Rightarrow> Some md | _ \<Rightarrow> bt_get m0 ns))"
  using assms(1,2)
proof (induction es arbitrary: m0)
  case (Cons e es)
  obtain b w where e: "e = (b, w)" by (cases e)
  obtain k md where v: "decode_namespace_exact b = Ret k" "decode_metadata w = Ret md"
    and rest: "try_for (\<lambda>(key, v) m. obind (decode_namespace_exact key) (\<lambda>ns.
       obind (decode_metadata v) (\<lambda>md. Ret (bt_insert ns md m)))) es (bt_insert k md m0) = Ret m"
    using Cons.prems(1) e by (auto simp: outcome_simps)
  have canon: "ns_ok k" "encode_namespace k = Ret b" using decode_namespace_exact_canonical [OF v(1)] by simp_all
  have same: "b = c \<longleftrightarrow> k = ns"
    using namespace_codec.enc_inject [OF canon(1) assms(4) canon(2)] assms(3) canon(2) by auto
  have "b = c \<Longrightarrow> map_of es c = None" using Cons.prems(2) e by (auto simp: map_of_eq_None_iff)
  then show ?case using Cons.IH [OF rest] Cons.prems(2) e same v(2)
    by (auto simp: bt_get_insert split: option.splits outcome.splits)
qed simp

lemma matching_revisions_get:
  assumes "bt_ok records"
  shows "bt_get (matching_revisions md records) ns = (case (bt_get records ns, bt_get md ns) of
     (Some r, Some stored) \<Rightarrow> if schema_matches stored (rec_declaration r) then Some (md_revision stored) else None
   | _ \<Rightarrow> None)"
proof -
  let ?f = "\<lambda>(ns, r) revs. case bt_get md ns of
         None \<Rightarrow> revs
       | Some stored \<Rightarrow> if schema_matches stored (rec_declaration r)
           then bt_insert ns (md_revision stored) revs else revs"
  have "bt_get (fold ?f rs revs) ns = (case (map_of rs ns, bt_get md ns) of
     (Some r, Some stored) \<Rightarrow> if schema_matches stored (rec_declaration r) then Some (md_revision stored) else bt_get revs ns
   | _ \<Rightarrow> bt_get revs ns)" if "distinct (map fst rs)" for rs revs
    using that
  proof (induction rs arbitrary: revs)
    case (Cons x rs)
    obtain k r where x: "x = (k, r)" by (cases x)
    have "map_of rs k = None" using Cons.prems x by (auto simp: map_of_eq_None_iff)
    then show ?case using Cons x by (auto simp: bt_get_insert split: option.splits)
  qed simp
  from this [OF bt_ok_distinct [OF assms]] show ?thesis
    by (simp add: matching_revisions_def split: option.splits)
qed



subsection \<open>Reloading shows the database\<close>

lemma table_entries_Ret:
  assumes "redb_ok env view" and "table_entries env d t = Ret es"
  shows "distinct (map fst es)" and "map_of es = view d t"
proof -
  have "redb_scan env d t = Ret es \<or> (es = [] \<and> redb_scan env d t = Fail TableMissing)"
    using assms(2) by (auto simp: table_entries_def split: outcome.splits redb_error.splits)
  then show "distinct (map fst es)" "map_of es = view d t"
    using assms(1) by (auto simp: redb_ok_def)
qed

lemma read_entries_decodes:
  assumes "try_for (\<lambda>(key, v) m. obind (decode_namespace_exact key) (\<lambda>ns.
       obind (decode_metadata v) (\<lambda>md. Ret (bt_insert ns md m)))) es m0 = Ret m" and "(b, w) \<in> set es"
  shows "\<exists>k md. decode_namespace_exact b = Ret k \<and> decode_metadata w = Ret md"
  using assms
proof (induction es arbitrary: m0)
  case (Cons e es)
  obtain b' w' where e: "e = (b', w')" by (cases e)
  then obtain k md where v: "decode_namespace_exact b' = Ret k" "decode_metadata w' = Ret md"
    and rest: "try_for (\<lambda>(key, v) m. obind (decode_namespace_exact key) (\<lambda>ns.
       obind (decode_metadata v) (\<lambda>md. Ret (bt_insert ns md m)))) es (bt_insert k md m0) = Ret m"
    using Cons.prems(1) by (auto simp: outcome_simps)
  then show ?case using Cons.IH [OF rest] Cons.prems(2) e by auto
qed simp

definition metadata_decodes :: "table_view \<Rightarrow> bool" where
  "metadata_decodes view \<longleftrightarrow> (\<forall>b w. view NamespacesTable b = Some w \<longrightarrow>
     (\<exists>k md. decode_namespace_exact b = Ret k \<and> decode_metadata w = Ret md))"

lemma read_metadata_Ret:
  assumes "redb_ok env view" and "read_metadata env d = Ret m"
  shows "metadata_decodes (view d)" and "ns_ok ns \<Longrightarrow> bt_get m ns = db_metadata (view d) ns"
proof -
  obtain es where es: "table_entries env d NamespacesTable = Ret es"
    and l: "try_for (\<lambda>(key, v) m. obind (decode_namespace_exact key) (\<lambda>ns.
       obind (decode_metadata v) (\<lambda>md. Ret (bt_insert ns md m)))) es [] = Ret m"
    using assms(2) by (auto simp: read_metadata_def outcome_simps)
  note t = table_entries_Ret [OF assms(1) es]
  show "metadata_decodes (view d)"
    unfolding metadata_decodes_def t(2) [symmetric]
    using read_entries_decodes [OF l] map_of_SomeD by fast
  show "bt_get m ns = db_metadata (view d) ns" if ns: "ns_ok ns"
  proof -
    obtain c where c: "encode_namespace ns = Ret c" using namespace_codec.enc_total [OF ns] by blast
    show ?thesis using read_entries_Ret [OF l t(1) c ns] t(2) c by (auto simp: db_metadata_def split: option.splits outcome.splits)
  qed
qed

lemma load_all_Ret:
  assumes "redb_ok env view" and "table_entries env d ValuesTable = Ret es"
    and "try_for (load_value records) es [] = Ret vals" and "ns_ok ns" "name_ok key"
  shows "val_at vals ns key = db_value (view d) records ns key"
proof -
  note t = table_entries_Ret [OF assms(1,2)]
  obtain c where c: "encode_persistent_key ns key = Ret c"
    using key_codec.enc_total [of "(ns, key)"] assms(4,5) by auto
  show ?thesis
    using load_values_Ret [OF assms(3) t(1) c assms(4,5)] t(2) c
    by (auto simp: db_value_def val_at_def split: option.splits)
qed

lemma reload_Ret:
  assumes "redb_ok env view" and "bt_ok records" and "reload env records p0 = (Ret (), p)"
  shows "cache_ok (view (pp_database p0)) records p" and "pp_database p = pp_database p0"
proof -
  let ?d = "pp_database p0"
  obtain md es vals where r: "read_metadata env ?d = Ret md" "table_entries env ?d ValuesTable = Ret es"
    "try_for (load_value records) es [] = Ret vals"
    "p = p0\<lparr>pp_values := vals, pp_revisions := matching_revisions md records\<rparr>"
    using assms(3) by (auto simp: reload_def Let_def run_for_Ret_iff [symmetric] split: outcome.splits prod.splits)
  show "pp_database p = pp_database p0" using r(4) by simp
  note md = read_metadata_Ret [OF assms(1) r(1)]
  have "db_decodes (view ?d) records"
    unfolding db_decodes_def
  proof (intro conjI allI impI)
    fix b w assume "view ?d ValuesTable b = Some w"
    then have "(b, w) \<in> set es" using table_entries_Ret [OF assms(1) r(2)] by (metis map_of_SomeD)
    then show "\<exists>k key. decode_persistent_key b = Ret (k, key) \<and>
        (bt_contains records k \<longrightarrow> (\<exists>v. decode_value w = Ret v))"
      using load_values_decodes [OF r(3)] by blast
  qed (use md(1) in \<open>auto simp: metadata_decodes_def\<close>)
  moreover have "val_at (pp_values p) ns key = db_value (view ?d) records ns key"
    if "ns_ok ns" "name_ok key" for ns key
    using load_all_Ret [OF assms(1) r(2,3) that] r(4) by simp
  moreover have "bt_get (pp_revisions p) ns = db_revision (view ?d) records ns" if "ns_ok ns" for ns
    using matching_revisions_get [OF assms(2)] md(2) [OF that] r(4)
    by (simp add: db_revision_def split: option.splits)
  ultimately show "cache_ok (view ?d) records p" by (simp add: cache_ok_def)
qed

subsection \<open>Table operations seen through the schema\<close>

definition record_ok :: "namespace_record \<Rightarrow> bool" where
  "record_ok r \<longleftrightarrow> name_ok (decl_schema_id (rec_declaration r)) \<and> decl_schema_version (rec_declaration r) < 2 ^ 32"

definition records_ok :: "namespace_registry \<Rightarrow> bool" where
  "records_ok records \<longleftrightarrow> bt_ok records \<and> (\<forall>(ns, r) \<in> set records. ns_ok ns \<and> record_ok r)"

lemma records_okD:
  assumes "records_ok records" and "bt_get records ns = Some r"
  shows "ns_ok ns" "record_ok r"
  using assms map_of_SomeD [OF assms(2)] by (auto simp: records_ok_def)

lemma persistent_key_eq:
  assumes "ns_ok k" "name_ok j" "ns_ok ns" "name_ok key" "encode_persistent_key k j = Ret b"
  obtains c where "encode_persistent_key ns key = Ret c" and "c = b \<longleftrightarrow> ns = k \<and> key = j"
proof -
  obtain c where c: "encode_persistent_key ns key = Ret c"
    using persistent_key_roundtrip [OF assms(3,4)] by blast
  then have "c = b \<longleftrightarrow> ns = k \<and> key = j"
    using persistent_key_inject [OF assms(3,4,1,2)] assms(5) by auto
  with c show thesis by (rule that)
qed

lemma namespace_eq:
  assumes "ns_ok k" "ns_ok ns" "encode_namespace k = Ret b"
  obtains c where "encode_namespace ns = Ret c" and "c = b \<longleftrightarrow> ns = k"
proof -
  obtain c where c: "encode_namespace ns = Ret c"
    using namespace_roundtrip [OF assms(2)] by blast
  then have "c = b \<longleftrightarrow> ns = k"
    using namespace_codec.enc_inject [OF assms(2,1)] assms(3) by auto
  with c show thesis by (rule that)
qed

lemma db_value_insert:
  assumes "encode_persistent_key k j = Ret b" "ns_ok k" "name_ok j" "ns_ok ns" "name_ok key"
  shows "db_value (apply_op (TableInsert ValuesTable b w) view) records ns key =
    (if ns = k \<and> key = j then stored_value records ns w else db_value view records ns key)"
  by (rule persistent_key_eq [OF assms(2-5,1)]) (simp add: db_value_def apply_op_def)

lemma db_value_remove:
  assumes "encode_persistent_key k j = Ret b" "ns_ok k" "name_ok j" "ns_ok ns" "name_ok key"
  shows "db_value (apply_op (TableRemove ValuesTable b) view) records ns key =
    (if ns = k \<and> key = j then None else db_value view records ns key)"
  by (rule persistent_key_eq [OF assms(2-5,1)]) (simp add: db_value_def apply_op_def)

lemma db_value_namespaces [simp]:
  "db_value (apply_op (TableInsert NamespacesTable b w) view) records ns key = db_value view records ns key"
  by (simp add: db_value_def apply_op_def split: outcome.split)

lemma db_metadata_values [simp]:
  "db_metadata (apply_op (TableInsert ValuesTable b w) view) ns = db_metadata view ns"
  "db_metadata (apply_op (TableRemove ValuesTable b) view) ns = db_metadata view ns"
  by (simp_all add: db_metadata_def apply_op_def split: outcome.split)

lemma metadata_op_Ret:
  assumes "ns_ok ns" and "name_ok (md_schema_id md)" "md_schema_version md < 2 ^ 32" "md_revision md < 2 ^ 64"
  obtains b w where "metadata_op ns md = Ret (TableInsert NamespacesTable b w)"
    and "encode_namespace ns = Ret b" and "decode_namespace_exact b = Ret ns" and "decode_metadata w = Ret md"
  using namespace_roundtrip [OF assms(1)] metadata_roundtrip [OF assms(2-4)] that
  by (auto simp: metadata_op_def)

lemma db_metadata_insert:
  assumes "encode_namespace k = Ret b" "ns_ok k" "ns_ok ns" "decode_metadata w = Ret md"
  shows "db_metadata (apply_op (TableInsert NamespacesTable b w) view) ns = (if ns = k then Some md else db_metadata view ns)"
  by (rule namespace_eq [OF assms(2,3,1)]) (simp add: db_metadata_def apply_op_def assms(4))

lemma db_decodes_apply:
  assumes "db_decodes view records"
  shows "db_decodes (apply_op (TableRemove t b) view) records"
    and "decode_persistent_key b = Ret (k, key) \<Longrightarrow> decode_value w = Ret v \<Longrightarrow>
      db_decodes (apply_op (TableInsert ValuesTable b w) view) records"
    and "decode_namespace_exact b = Ret k \<Longrightarrow> decode_metadata w = Ret md \<Longrightarrow>
      db_decodes (apply_op (TableInsert NamespacesTable b w) view) records"
  using assms by (auto simp: db_decodes_def apply_op_def)



subsection \<open>A commit keeps the cache\<close>

text \<open>The writes a commit is called with: persistent addresses of registered namespaces, with values of the declared schema.\<close>

definition write_ok :: "namespace_registry \<Rightarrow> address \<times> state_value option \<Rightarrow> bool" where
  "write_ok records w \<longleftrightarrow> addr_scope (fst w) = PersistentScope \<and> name_ok (addr_key (fst w)) \<and>
     (\<exists>r. bt_get records (addr_namespace (fst w)) = Some r \<and>
       (\<forall>v. snd w = Some v \<longrightarrow> schema_id v = decl_schema_id (rec_declaration r)))"

lemma value_op_step:
  assumes "records_ok records" and "write_ok records w" and "value_op w = Ret op"
    and "db_decodes view records" and "\<And>ns key. ns_ok ns \<Longrightarrow> name_ok key \<Longrightarrow> val_at vals ns key = db_value view records ns key"
  shows "db_decodes (apply_op op view) records"
    and "ns_ok ns \<Longrightarrow> name_ok key \<Longrightarrow>
      val_at (overlay_values w vals) ns key = db_value (apply_op op view) records ns key"
    and "db_metadata (apply_op op view) = db_metadata view"
proof -
  obtain a v where w: "w = (a, v)" by (cases w)
  obtain r where r: "bt_get records (addr_namespace a) = Some r" "name_ok (addr_key a)"
    "\<And>x. v = Some x \<Longrightarrow> schema_id x = decl_schema_id (rec_declaration r)"
    using assms(2) w by (auto simp: write_ok_def)
  have ns: "ns_ok (addr_namespace a)" "record_ok r" using records_okD [OF assms(1) r(1)] by simp_all
  obtain b where b: "encode_persistent_key (addr_namespace a) (addr_key a) = Ret b"
    "decode_persistent_key b = Ret (addr_namespace a, addr_key a)"
    using persistent_key_roundtrip [OF ns(1) r(2)] by blast
  consider "v = None" "op = TableRemove ValuesTable b"
    | x c where "v = Some x" "decode_value c = Ret x" "op = TableInsert ValuesTable b c"
  proof (cases v)
    case None
    then show thesis using that(1) assms(3) w b by (simp add: value_op_def)
  next
    case (Some x)
    then have "name_ok (schema_id x)" using r(3) ns(2) by (simp add: record_ok_def)
    then obtain c where "encode_value x = Ret c" "decode_value c = Ret x" using value_roundtrip by blast
    then show thesis using that(2) [of x c] Some assms(3) w b by (simp add: value_op_def)
  qed
  note cases = this
  show "db_decodes (apply_op op view) records"
    using cases db_decodes_apply(1,2) [OF assms(4)] b(2) by cases auto
  show "db_metadata (apply_op op view) = db_metadata view"
    using cases by cases (auto simp: fun_eq_iff)
  show "val_at (overlay_values w vals) ns key = db_value (apply_op op view) records ns key"
    if "ns_ok ns" "name_ok key"
    using cases
  proof cases
    case 1
    then show ?thesis
      using db_value_remove [OF b(1) ns(1) r(2) that] assms(5) [OF that] w by (simp add: val_at_overlay)
  next
    case (2 x c)
    then have "stored_value records (addr_namespace a) c = Some x"
      using r(1,3) by (simp add: stored_value_def)
    then show ?thesis
      using 2 db_value_insert [OF b(1) ns(1) r(2) that] assms(5) [OF that] w by (simp add: val_at_overlay)
  qed
qed

lemma value_ops_fold:
  assumes "records_ok records" and "\<forall>w \<in> set writes. write_ok records w" and "try_map value_op writes = Ret ops"
    and "db_decodes view records" and "\<And>ns key. ns_ok ns \<Longrightarrow> name_ok key \<Longrightarrow> val_at vals ns key = db_value view records ns key"
  shows "db_decodes (fold apply_op ops view) records \<and>
    (\<forall>ns key. ns_ok ns \<longrightarrow> name_ok key \<longrightarrow>
      val_at (fold overlay_values writes vals) ns key = db_value (fold apply_op ops view) records ns key) \<and>
    db_metadata (fold apply_op ops view) = db_metadata view"
  using assms(2-5)
proof (induction writes arbitrary: ops view vals)
  case (Cons w writes)
  obtain op ops' where op: "value_op w = Ret op" "try_map value_op writes = Ret ops'" "ops = op # ops'"
    using Cons.prems(2) by (auto simp: outcome_simps)
  have w: "write_ok records w" using Cons.prems(1) by simp
  note step = value_op_step [OF assms(1) w op(1) Cons.prems(3,4)]
  show ?case using Cons.IH [OF _ op(2) step(1,2)] Cons.prems(1) op(3) step(3) by simp
qed simp

lemma revision_op_step:
  assumes "records_ok records" and "revision_op records revs0 k = Ret op" and "db_decodes view records"
    and "bt_get revs k = bt_get revs0 k"
    and "\<And>ns. ns_ok ns \<Longrightarrow> bt_get revs ns = db_revision view records ns"
  shows "db_decodes (apply_op op view) records"
    and "ns_ok ns \<Longrightarrow> bt_get (bump_revision k revs) ns = db_revision (apply_op op view) records ns"
    and "db_value (apply_op op view) records ns key = db_value view records ns key"
proof -
  obtain r where r: "bt_get records k = Some r"
    "metadata_op k \<lparr>md_schema_id = decl_schema_id (rec_declaration r),
       md_schema_version = decl_schema_version (rec_declaration r),
       md_revision = sat_inc_u64 (bt_get_or 0 revs0 k)\<rparr> = Ret op" (is "metadata_op k ?md = _")
    using assms(2) by (auto simp: revision_op_def outcome_simps)
  have k: "ns_ok k" "record_ok r" using records_okD [OF assms(1) r(1)] by simp_all
  have "sat_inc_u64 (bt_get_or 0 revs0 k) < 2 ^ 64"
    using sat_inc_u64_bound [of "bt_get_or 0 revs0 k"] by (simp add: u64_max_def)
  then obtain b w where op: "op = TableInsert NamespacesTable b w" "encode_namespace k = Ret b"
    "decode_namespace_exact b = Ret k" "decode_metadata w = Ret ?md"
    using metadata_op_Ret [OF k(1), of ?md] r(2) k(2) by (auto simp: record_ok_def)
  show "db_decodes (apply_op op view) records"
    using db_decodes_apply(3) [OF assms(3)] op by simp
  show "db_value (apply_op op view) records ns key = db_value view records ns key" using op(1) by simp
  show "bt_get (bump_revision k revs) ns = db_revision (apply_op op view) records ns" if "ns_ok ns"
    using db_metadata_insert [OF op(2) k(1) that op(4)] assms(4,5) that r(1) op(1)
    by (auto simp: db_revision_def bump_revision_def bt_get_insert bt_get_or_def schema_matches_def)
qed

lemma revision_ops_fold:
  assumes "records_ok records" and "distinct ks" and "try_map (revision_op records revs0) ks = Ret ops"
    and "db_decodes view records" and "\<And>k. k \<in> set ks \<Longrightarrow> bt_get revs k = bt_get revs0 k"
    and "\<And>ns. ns_ok ns \<Longrightarrow> bt_get revs ns = db_revision view records ns"
  shows "db_decodes (fold apply_op ops view) records \<and>
    (\<forall>ns. ns_ok ns \<longrightarrow> bt_get (fold bump_revision ks revs) ns = db_revision (fold apply_op ops view) records ns) \<and>
    db_value (fold apply_op ops view) records = db_value view records"
  using assms(2-6)
proof (induction ks arbitrary: ops view revs)
  case (Cons k ks)
  obtain op ops' where op: "revision_op records revs0 k = Ret op" "try_map (revision_op records revs0) ks = Ret ops'"
    "ops = op # ops'"
    using Cons.prems(2) by (auto simp: outcome_simps)
  have "bt_get revs k = bt_get revs0 k" using Cons.prems(4) by simp
  note step = revision_op_step [OF assms(1) op(1) Cons.prems(3) this Cons.prems(5)]
  have dist: "distinct ks" and new: "k \<notin> set ks" using Cons.prems(1) by simp_all
  have same: "bt_get (bump_revision k revs) j = bt_get revs0 j" if "j \<in> set ks" for j
    using that Cons.prems(4) new by (auto simp: bump_revision_def bt_get_insert)
  have "db_value (apply_op op view) records = db_value view records" using step(3) by blast
  then show ?case using Cons.IH [OF dist op(2) step(1) same step(2)] op(3) by simp
qed simp

lemma bt_get_bump_fold:
  assumes "distinct ks"
  shows "bt_get (fold bump_revision ks revs) k = (if k \<in> set ks then Some (sat_inc_u64 (bt_get_or 0 revs k)) else bt_get revs k)"
  using assms
  by (induction ks arbitrary: revs) (auto simp: bump_revision_def bt_get_insert bt_get_or_def)

lemma val_at_overlay_fold:
  assumes "distinct (map fst writes)" and "\<forall>w \<in> set writes. addr_scope (fst w) = PersistentScope"
  shows "val_at (fold overlay_values writes vals) ns key =
    (case bt_get writes (Address PersistentScope ns key) of Some v \<Rightarrow> v | None \<Rightarrow> val_at vals ns key)"
  using assms
proof (induction writes arbitrary: vals)
  case (Cons w writes)
  obtain a v where w: "w = (a, v)" by (cases w)
  have a: "a = Address PersistentScope ns key \<longleftrightarrow> ns = addr_namespace a \<and> key = addr_key a"
    using Cons.prems(2) w by (cases a) auto
  have "bt_get writes a = None" using Cons.prems(1) w by (auto simp: map_of_eq_None_iff)
  then show ?case using Cons a w by (auto simp: val_at_overlay split: option.splits)
qed simp

lemma commit_Ret:
  assumes "redb_ok env view" and "records_ok records" and "bt_ok writes" and "\<forall>w \<in> set writes. write_ok records w"
    and "cache_ok (view (pp_database p)) records p" and "persistent_commit env writes records p = Ret p'"
  shows "cache_ok (view (pp_database p')) records p'"
    and "val_at (pp_values p') ns key =
      (case bt_get writes (Address PersistentScope ns key) of Some v \<Rightarrow> v | None \<Rightarrow> val_at (pp_values p) ns key)"
    and "bt_get (pp_revisions p') ns = (if ns \<in> addr_namespace ` fst ` set writes
      then Some (sat_inc_u64 (bt_get_or 0 (pp_revisions p) ns)) else bt_get (pp_revisions p) ns)"
proof -
  let ?touched = "bt_set_of (map (addr_namespace \<circ> fst) writes)"
  obtain vops rops d where r: "try_map value_op writes = Ret vops"
    "try_map (revision_op records (pp_revisions p)) ?touched = Ret rops"
    "redb_write env (pp_database p) (vops @ rops) = Ret d"
    "p' = \<lparr>pp_database = d, pp_values = fold overlay_values writes (pp_values p),
           pp_revisions = fold bump_revision ?touched (pp_revisions p)\<rparr>"
    using assms(6) by (auto simp: persistent_commit_def Let_def outcome_simps)
  have d: "view d = fold apply_op rops (fold apply_op vops (view (pp_database p)))"
    using assms(1) r(3) by (simp add: redb_ok_def)
  let ?v = "view (pp_database p)"
  have c: "db_decodes ?v records"
    "\<And>ns key. ns_ok ns \<Longrightarrow> name_ok key \<Longrightarrow> val_at (pp_values p) ns key = db_value ?v records ns key"
    "\<And>ns. ns_ok ns \<Longrightarrow> bt_get (pp_revisions p) ns = db_revision ?v records ns"
    using assms(5) by (simp_all add: cache_ok_def)
  note vf = value_ops_fold [OF assms(2,4) r(1) c(1,2)]
  have revs: "bt_get (pp_revisions p) k = db_revision (fold apply_op vops ?v) records k" if "ns_ok k" for k
    using c(3) [OF that] vf by (simp add: db_revision_def)
  note rf = revision_ops_fold [OF assms(2) set_bt_set_of(2) r(2) _ refl revs]
  show "cache_ok (view (pp_database p')) records p'"
    using vf rf r(4) d by (auto simp: cache_ok_def)
  show "val_at (pp_values p') ns key =
      (case bt_get writes (Address PersistentScope ns key) of Some v \<Rightarrow> v | None \<Rightarrow> val_at (pp_values p) ns key)"
    using val_at_overlay_fold [OF bt_ok_distinct [OF assms(3)]] assms(4) r(4) by (auto simp: write_ok_def)
  show "bt_get (pp_revisions p') ns = (if ns \<in> addr_namespace ` fst ` set writes
      then Some (sat_inc_u64 (bt_get_or 0 (pp_revisions p) ns)) else bt_get (pp_revisions p) ns)"
    using bt_get_bump_fold [OF set_bt_set_of(2), of "map (addr_namespace \<circ> fst) writes" "pp_revisions p" ns] r(4)
    by (simp add: image_image comp_def)
qed

subsection \<open>Opening and schema changes\<close>

lemma decode_metadata_revision:
  assumes "decode_metadata w = Ret md"
  shows "md_revision md < 2 ^ 64"
proof -
  obtain schema used where "read_string w = Ret (schema, used)" "length w = used + 12"
    "md_revision md = le_value (drop (used + 4) w)"
    using assms by (auto simp: decode_metadata_def outcome_simps split: if_splits)
  moreover have "le_value bs < 256 ^ length bs" for bs
  proof (induction bs)
    case (Cons b bs)
    have "byte b < 256" by (rule nat_of_char_less_256)
    moreover have "256 ^ length (b # bs) = 256 * (256::nat) ^ length bs" by simp
    ultimately show ?case using Cons unfolding le_value_Cons by linarith
  qed (simp add: le_value_def)
  moreover have "(256::nat) ^ 8 = 2 ^ 64" by simp
  ultimately show ?thesis using \<open>\<And>bs. le_value bs < 256 ^ length bs\<close> [of "drop (used + 4) w"] by simp
qed

lemma db_metadata_revision: "db_metadata view ns = Some md \<Longrightarrow> md_revision md < 2 ^ 64"
  by (auto simp: db_metadata_def dest: decode_metadata_revision split: outcome.splits option.splits)

text \<open>Removing the records of the namespaces to reset.\<close>

lemma removes_fold:
  "fold apply_op (map (TableRemove t) keys) view s k = (if s = t \<and> k \<in> set keys then None else view s k)"
  by (induction keys arbitrary: view) (auto simp: apply_op_def)

lemma reset_keys_value:
  assumes "redb_ok env view" and "reset_keys env d reset = Ret keys" and "ns_ok ns" "name_ok key"
  shows "db_value (fold apply_op (map (TableRemove ValuesTable) keys) (view d)) records ns key =
    (if ns \<in> set reset then None else db_value (view d) records ns key)"
proof (cases "reset = []")
  case True
  then show ?thesis using assms(2) by (simp add: reset_keys_def)
next
  case False
  then obtain es where es: "table_entries env d ValuesTable = Ret es" "keys = filter (belongs_to reset) (map fst es)"
    using assms(2) by (auto simp: reset_keys_def outcome_simps)
  obtain c where c: "encode_persistent_key ns key = Ret c" "decode_persistent_key c = Ret (ns, key)"
    using persistent_key_roundtrip [OF assms(3,4)] by blast
  have "c \<in> set keys \<longleftrightarrow> ns \<in> set reset \<and> c \<in> fst ` set es"
    using c(2) es(2) by (auto simp: belongs_to_def)
  moreover have "c \<notin> fst ` set es \<Longrightarrow> view d ValuesTable c = None"
    using table_entries_Ret(2) [OF assms(1) es(1)] by (metis map_of_eq_None_iff)
  ultimately have "fold apply_op (map (TableRemove ValuesTable) keys) (view d) ValuesTable c =
      (if ns \<in> set reset then None else view d ValuesTable c)"
    unfolding removes_fold by auto
  then show ?thesis using c(1) by (simp add: db_value_def)
qed

text \<open>Writing the metadata of every registered namespace.\<close>

lemma metadata_ops_fold:
  assumes "\<forall>(ns, r) \<in> set rs. ns_ok ns \<and> record_ok r" and "distinct (map fst rs)"
    and "try_map (\<lambda>(ns, r). metadata_op ns (new_metadata stored ns (rec_declaration r))) rs = Ret ops"
    and "\<And>ns md. ns_ok ns \<Longrightarrow> bt_get stored ns = Some md \<Longrightarrow> md_revision md < 2 ^ 64"
  shows "(\<forall>ns. ns_ok ns \<longrightarrow> db_metadata (fold apply_op ops view) ns = (case map_of rs ns of
      Some r \<Rightarrow> Some (new_metadata stored ns (rec_declaration r)) | None \<Rightarrow> db_metadata view ns)) \<and>
    db_value (fold apply_op ops view) records = db_value view records"
  using assms(1-3)
proof (induction rs arbitrary: ops view)
  case (Cons x rs)
  obtain k r where x: "x = (k, r)" by (cases x)
  obtain op ops' where op: "metadata_op k (new_metadata stored k (rec_declaration r)) = Ret op"
    "try_map (\<lambda>(ns, r). metadata_op ns (new_metadata stored ns (rec_declaration r))) rs = Ret ops'" "ops = op # ops'"
    using Cons.prems(3) x by (auto simp: outcome_simps)
  have k: "ns_ok k" "record_ok r" using Cons.prems(1) x by auto
  let ?md = "new_metadata stored k (rec_declaration r)"
  have md: "name_ok (md_schema_id ?md)" "md_schema_version ?md < 2 ^ 32" "md_revision ?md < 2 ^ 64"
    using assms(4) [OF k(1)] k(2)
    by (auto simp: record_ok_def new_metadata_def sat_inc_u64_def u64_max_def split: option.split)
  obtain b w where bw: "metadata_op k ?md = Ret (TableInsert NamespacesTable b w)" "encode_namespace k = Ret b"
    "decode_metadata w = Ret ?md"
    by (rule metadata_op_Ret [OF k(1) md])
  then have b: "op = TableInsert NamespacesTable b w" "encode_namespace k = Ret b" "decode_metadata w = Ret ?md"
    using op(1) by simp_all
  have new: "map_of rs k = None" using Cons.prems(2) x by (auto simp: map_of_eq_None_iff)
  have dist: "distinct (map fst rs)" and ok: "\<forall>(ns, r) \<in> set rs. ns_ok ns \<and> record_ok r" using Cons.prems(1,2) by auto
  have "db_value (apply_op op view) records = db_value view records" using b(1) by (simp add: fun_eq_iff)
  then show ?case
    using Cons.IH [OF ok dist op(2), of "apply_op op view"] db_metadata_insert [OF b(2) k(1) _ b(3)] x op(3) b(1) new
    by (auto split: option.splits)
qed simp

text \<open>What is left of a stored value after the registered schema has been imposed.\<close>

definition synchronized_value :: "table_view \<Rightarrow> namespace_registry \<Rightarrow> namespace_key \<Rightarrow> str \<Rightarrow> state_value option" where
  "synchronized_value view records ns key = (case bt_get records ns of
     None \<Rightarrow> None
   | Some r \<Rightarrow> (case db_metadata view ns of
       Some md \<Rightarrow> if schema_matches md (rec_declaration r) then db_value view records ns key else None
     | None \<Rightarrow> db_value view records ns key))"

definition synchronized_revision :: "table_view \<Rightarrow> namespace_registry \<Rightarrow> namespace_key \<Rightarrow> nat option" where
  "synchronized_revision view records ns = (case bt_get records ns of
     None \<Rightarrow> None
   | Some r \<Rightarrow> (case db_metadata view ns of
       Some md \<Rightarrow> Some (if schema_matches md (rec_declaration r) then md_revision md else sat_inc_u64 (md_revision md))
     | None \<Rightarrow> Some 0))"

lemma synchronize_Ret:
  assumes "redb_ok env view" and "records_ok records" and "synchronize env records p = (Ret (), p')"
  shows "cache_ok (view (pp_database p')) records p'"
    and "ns_ok ns \<Longrightarrow> name_ok key \<Longrightarrow> val_at (pp_values p') ns key = synchronized_value (view (pp_database p)) records ns key"
    and "ns_ok ns \<Longrightarrow> bt_get (pp_revisions p') ns = synchronized_revision (view (pp_database p)) records ns"
proof -
  let ?v = "view (pp_database p)"
  obtain stored keys ops d where r: "read_metadata env (pp_database p) = Ret stored"
    "reset_keys env (pp_database p) (reset_namespaces stored records) = Ret keys"
    "try_map (\<lambda>(ns, r). metadata_op ns (new_metadata stored ns (rec_declaration r))) records = Ret ops"
    "redb_write env (pp_database p) (map (TableRemove ValuesTable) keys @ ops) = Ret d"
    "reload env records (p\<lparr>pp_database := d\<rparr>) = (Ret (), p')"
    using assms(3) by (auto simp: synchronize_def outcome_simps split: outcome.splits)
  have recs: "bt_ok records" "distinct (map fst records)" "\<forall>(ns, r) \<in> set records. ns_ok ns \<and> record_ok r"
    using assms(2) bt_ok_distinct by (auto simp: records_ok_def)
  define R where "R = set (reset_namespaces stored records)"
  have R: "ns \<in> R \<longleftrightarrow> (\<exists>r. bt_get records ns = Some r \<and> schema_changed stored ns (rec_declaration r))" for ns
    using recs(2) by (force simp: R_def reset_namespaces_def dest: map_of_SomeD)
  note md = read_metadata_Ret [OF assms(1) r(1)]
  have bound: "md_revision m < 2 ^ 64" if "ns_ok k" "bt_get stored k = Some m" for k m
    using md(2) [OF that(1)] that(2) db_metadata_revision by simp
  define v1 where "v1 = fold apply_op (map (TableRemove ValuesTable) keys) ?v"
  have d: "view d = fold apply_op ops v1"
    using assms(1) r(4) by (simp add: redb_ok_def v1_def)
  have v1: "db_value v1 records ns key = (if ns \<in> R then None else db_value ?v records ns key)"
    if "ns_ok ns" "name_ok key" for ns key
    using reset_keys_value [OF assms(1) r(2) that] by (simp add: v1_def R_def)
  have m1: "db_metadata v1 = db_metadata ?v"
    by (rule ext) (simp add: v1_def removes_fold db_metadata_def split: outcome.split)
  have mf: "(\<forall>ns. ns_ok ns \<longrightarrow> db_metadata (fold apply_op ops v1) ns = (case bt_get records ns of
      Some r \<Rightarrow> Some (new_metadata stored ns (rec_declaration r)) | None \<Rightarrow> db_metadata v1 ns)) \<and>
    db_value (fold apply_op ops v1) records = db_value v1 records"
    by (rule metadata_ops_fold [OF recs(3,2) r(3)]) (rule bound)
  have rl: "cache_ok (view d) records p'" "pp_database p' = d"
    using reload_Ret [OF assms(1) recs(1) r(5)] by simp_all
  then show "cache_ok (view (pp_database p')) records p'" by simp
  show "val_at (pp_values p') ns key = synchronized_value ?v records ns key" if ok: "ns_ok ns" "name_ok key"
  proof -
    have "val_at (pp_values p') ns key = (if ns \<in> R then None else db_value ?v records ns key)"
      using rl(1) ok mf v1 [OF ok] d by (simp add: cache_ok_def)
    moreover have "db_value ?v records ns key = None" if "bt_get records ns = None"
      using that by (auto simp: db_value_def stored_value_def split: outcome.split bind_split)
    ultimately show ?thesis
      using R [of ns] md(2) [OF ok(1)] by (auto simp: synchronized_value_def schema_changed_def split: option.splits)
  qed
  show "bt_get (pp_revisions p') ns = synchronized_revision ?v records ns" if ok: "ns_ok ns"
  proof -
    have "db_metadata (view d) ns = (case bt_get records ns of
      Some r \<Rightarrow> Some (new_metadata stored ns (rec_declaration r)) | None \<Rightarrow> db_metadata ?v ns)"
      using mf ok d m1 by (simp split: option.split)
    then show ?thesis
      using rl(1) ok md(2) [OF ok]
      by (auto simp: cache_ok_def db_revision_def synchronized_revision_def new_metadata_def
        schema_matches_def schema_changed_def split: option.splits)
  qed
qed


subsection \<open>Histories of an open project\<close>

text \<open>A project as the store sees it: opened, then committed to any number of times.\<close>

inductive persistent_reachable :: "'d redb \<Rightarrow> namespace_registry \<Rightarrow> 'd persistent_project \<Rightarrow> bool"
  for env records where
  opened: "persistent_open env path records = Ret p \<Longrightarrow> persistent_reachable env records p"
| committed: "persistent_reachable env records p \<Longrightarrow> bt_ok writes \<Longrightarrow> \<forall>w \<in> set writes. write_ok records w \<Longrightarrow>
    persistent_commit env writes records p = Ret p' \<Longrightarrow> persistent_reachable env records p'"

lemma persistent_open_Ret:
  assumes "persistent_open env path records = Ret p"
  obtains d where "redb_open env path = Ret d"
    and "synchronize env records \<lparr>pp_database = d, pp_values = [], pp_revisions = []\<rparr> = (Ret (), p)"
proof -
  obtain d where d: "redb_open env path = Ret d"
    "(case synchronize env records \<lparr>pp_database = d, pp_values = [], pp_revisions = []\<rparr> of
       (Ret _, p) \<Rightarrow> Ret p | (Fail e, _) \<Rightarrow> Fail e | (Panic, _) \<Rightarrow> Panic) = Ret p"
    using assms by (auto simp: persistent_open_def outcome_simps)
  then have "synchronize env records \<lparr>pp_database = d, pp_values = [], pp_revisions = []\<rparr> = (Ret (), p)"
    by (cases "synchronize env records \<lparr>pp_database = d, pp_values = [], pp_revisions = []\<rparr>")
      (simp split: outcome.splits)
  with d(1) show thesis by (rule that)
qed

lemma synchronized_revision_known:
  "bt_contains records ns \<Longrightarrow> \<exists>n. synchronized_revision view records ns = Some n"
  by (auto simp: synchronized_revision_def bt_contains_def split: option.splits)

lemma persistent_reachable_cache:
  assumes "redb_ok env view" and "records_ok records" and "persistent_reachable env records p"
  shows "cache_ok (view (pp_database p)) records p \<and>
    (\<forall>ns. bt_contains records ns \<longrightarrow> (\<exists>n. bt_get (pp_revisions p) ns = Some n))"
  using assms(3)
proof induction
  case (opened path p)
  obtain d where "synchronize env records \<lparr>pp_database = d, pp_values = [], pp_revisions = []\<rparr> = (Ret (), p)"
    using persistent_open_Ret [OF opened] by blast
  note s = synchronize_Ret [OF assms(1,2) this]
  have "ns_ok ns" if "bt_contains records ns" for ns
    using that records_okD(1) [OF assms(2)] by (auto simp: bt_contains_def)
  then show ?case using s(1,3) synchronized_revision_known by metis
next
  case (committed p writes p')
  note c = commit_Ret [OF assms(1,2) committed.hyps(2,3) _ committed.hyps(4)]
  then show ?case using committed.IH by auto
qed

text \<open>Opening the database of a project again gives what the project shows.\<close>

lemma reopen_shows_cache:
  assumes "redb_ok env view" and "records_ok records" and "persistent_reachable env records p"
    and "redb_open env path = Ret (pp_database p)" and "persistent_open env path records = Ret q"
    and "ns_ok ns"
  shows "name_ok key \<Longrightarrow> val_at (pp_values q) ns key = val_at (pp_values p) ns key"
    and "bt_get (pp_revisions q) ns = bt_get (pp_revisions p) ns"
proof -
  let ?v = "view (pp_database p)"
  have p: "cache_ok ?v records p" and known: "bt_contains records ns \<Longrightarrow> \<exists>n. bt_get (pp_revisions p) ns = Some n"
    using persistent_reachable_cache [OF assms(1-3)] by auto
  have "synchronize env records \<lparr>pp_database = pp_database p, pp_values = [], pp_revisions = []\<rparr> = (Ret (), q)"
    using persistent_open_Ret [OF assms(5)] assms(4) by (metis outcome.inject(1))
  note s = synchronize_Ret(2,3) [OF assms(1,2) this, simplified]
  have rev: "bt_get (pp_revisions p) ns = db_revision ?v records ns" using p assms(6) by (simp add: cache_ok_def)
  have match: "\<exists>md. db_metadata ?v ns = Some md \<and> schema_matches md (rec_declaration r)"
    if "bt_get records ns = Some r" for r
    using known rev that by (auto simp: bt_contains_def db_revision_def split: option.splits if_splits)
  show "bt_get (pp_revisions q) ns = bt_get (pp_revisions p) ns"
    using s(2) [OF assms(6)] match rev
    by (auto simp: synchronized_revision_def db_revision_def split: option.splits)
  show "val_at (pp_values q) ns key = val_at (pp_values p) ns key" if "name_ok key"
  proof -
    have "db_value ?v records ns key = None" if "bt_get records ns = None"
      using that by (auto simp: db_value_def stored_value_def split: outcome.split bind_split)
    then show ?thesis
      using s(1) [OF assms(6) that] match p assms(6) that
      by (auto simp: synchronized_value_def cache_ok_def split: option.splits)
  qed
qed

end
