(* ===== verification/State_Durability.thy ===== *)
theory State_Durability
  imports State_Cache "HOL-Library.AList"
begin

text \<open>
  The properties of the persistent scope (opening, schema changes, durability and failures of
  commits) and, for their witnesses, an instance of the database parameter held in memory.
\<close>

subsection \<open>The properties of the persistent scope\<close>

text \<open>
  C23. Opening a project imposes the registered schemas on what is stored: namespaces whose schema
  ID or version changed come up empty and under a new revision, all others with exactly the stored
  values and revisions, and the cache then agrees with the database.
\<close>

theorem persistent_open_correct:
  assumes "redb_ok env view" and "records_ok records"
    and "redb_open env path = Ret d" and "persistent_open env path records = Ret p"
    and "ns_ok ns" and "name_ok key"
  shows "cache_ok (view (pp_database p)) records p \<and>
    val_at (pp_values p) ns key = synchronized_value (view d) records ns key \<and>
    bt_get (pp_revisions p) ns = synchronized_revision (view d) records ns"
  using persistent_open_Ret [OF assms(4)] synchronize_Ret [OF assms(1,2)] assms(3,5,6)
  by (metis outcome.inject(1) persistent_project.select_convs(1))

text \<open>
  C14. A committed batch is durable.  After any history of commits to an open project, the batch is
  overlaid on the values and bumps the revision of every namespace it touches once; opening the database again, by
  any path that leads to it, shows the same values and the same revisions.
\<close>

theorem persistent_commit_durable:
  assumes "redb_ok env view" and "records_ok records" and "persistent_reachable env records p"
    and "bt_ok writes" and "\<forall>w \<in> set writes. write_ok records w"
    and "persistent_commit env writes records p = Ret p'"
    and "redb_open env path = Ret (pp_database p')" and "persistent_open env path records = Ret q"
    and "ns_ok ns" and "name_ok key"
  shows "val_at (pp_values q) ns key = (case bt_get writes (Address PersistentScope ns key) of
        Some v \<Rightarrow> v | None \<Rightarrow> val_at (pp_values p) ns key) \<and>
    bt_get (pp_revisions q) ns = (if ns \<in> addr_namespace ` fst ` set writes
        then Some (sat_inc_u64 (bt_get_or 0 (pp_revisions p) ns)) else bt_get (pp_revisions p) ns)"
proof -
  have "cache_ok (view (pp_database p)) records p"
    using persistent_reachable_cache [OF assms(1-3)] by blast
  note c = commit_Ret(2,3) [OF assms(1,2,4,5) this assms(6)]
  have "persistent_reachable env records p'"
    by (rule persistent_reachable.committed [OF assms(3-6)])
  note r = reopen_shows_cache [OF assms(1,2) this assms(7,8,9)]
  show ?thesis using r(1) [OF assms(10)] r(2) c by simp
qed

text \<open>
  A commit of writes to registered namespaces fails only where the database refuses the
  transaction, with the database's error; it never panics and never reports a missing namespace.
\<close>

theorem persistent_commit_errors:
  assumes "redb_ok env view" and "records_ok records" and "\<forall>w \<in> set writes. write_ok records w"
  shows "(\<exists>p'. persistent_commit env writes records p = Ret p') \<or>
    (\<exists>ops e. redb_write env (pp_database p) ops = Fail e \<and>
      persistent_commit env writes records p = Fail (persistence_error e))"
proof -
  let ?touched = "bt_set_of (map (addr_namespace \<circ> fst) writes)"
  have "\<exists>ops. try_map value_op ws = Ret ops" if "set ws \<subseteq> set writes" for ws
    using that
  proof (induction ws)
    case (Cons w ws)
    obtain a v where w: "w = (a, v)" by (cases w)
    obtain r where r: "bt_get records (addr_namespace a) = Some r" "name_ok (addr_key a)"
      "\<And>x. v = Some x \<Longrightarrow> schema_id x = decl_schema_id (rec_declaration r)"
      using assms(3) Cons.prems w by (auto simp: write_ok_def)
    have ns: "ns_ok (addr_namespace a)" "record_ok r" using records_okD [OF assms(2) r(1)] by simp_all
    have "\<exists>op. value_op w = Ret op"
    proof (cases v)
      case None
      then show ?thesis using persistent_key_roundtrip [OF ns(1) r(2)] w by (auto simp: value_op_def)
    next
      case (Some x)
      then have "name_ok (schema_id x)" using r(3) ns(2) by (simp add: record_ok_def)
      then show ?thesis using value_roundtrip persistent_key_roundtrip [OF ns(1) r(2)] w Some
        by (fastforce simp: value_op_def)
    qed
    then show ?case using Cons by auto
  qed simp
  moreover have "\<exists>ops. try_map (revision_op records (pp_revisions p)) ks = Ret ops"
    if "set ks \<subseteq> addr_namespace ` fst ` set writes" for ks
    using that
  proof (induction ks)
    case (Cons k ks)
    obtain r where r: "bt_get records k = Some r" using Cons.prems assms(3) by (auto simp: write_ok_def)
    have k: "ns_ok k" "record_ok r" using records_okD [OF assms(2) r] by simp_all
    have "sat_inc_u64 (bt_get_or 0 (pp_revisions p) k) < 2 ^ 64"
      using sat_inc_u64_bound [of "bt_get_or 0 (pp_revisions p) k"] by (simp add: u64_max_def)
    define md where "md = \<lparr>md_schema_id = decl_schema_id (rec_declaration r),
       md_schema_version = decl_schema_version (rec_declaration r),
       md_revision = sat_inc_u64 (bt_get_or 0 (pp_revisions p) k)\<rparr>"
    have "name_ok (md_schema_id md)" "md_schema_version md < 2 ^ 32" "md_revision md < 2 ^ 64"
      using k(2) \<open>sat_inc_u64 _ < _\<close> by (simp_all add: record_ok_def md_def)
    from metadata_op_Ret [OF k(1) this] obtain b w where "metadata_op k md = Ret (TableInsert NamespacesTable b w)" .
    then have "\<exists>op. revision_op records (pp_revisions p) k = Ret op"
      using r by (simp add: revision_op_def md_def)
    then show ?case using Cons by auto
  qed simp
  ultimately obtain vops rops where ops: "try_map value_op writes = Ret vops"
    "try_map (revision_op records (pp_revisions p)) ?touched = Ret rops"
    by (metis (no_types, lifting) comp_apply image_comp list.set_map set_bt_set_of(1) subset_refl)
  show ?thesis
  proof (cases "redb_write env (pp_database p) (vops @ rops)")
    case Panic
    then show ?thesis using assms(1) by (simp add: redb_ok_def)
  qed (use ops in \<open>auto simp: persistent_commit_def Let_def\<close>)
qed

text \<open>
  A synchronization whose transaction is accepted but whose reload cannot read the tables
  fails and leaves the open project with an empty cache in front of a populated database.
\<close>

theorem synchronize_failure_empties_cache:
  assumes "read_metadata env (pp_database p) = Ret stored" and "reset_namespaces stored records = []"
    and "try_map (\<lambda>(ns, r). metadata_op ns (new_metadata stored ns (rec_declaration r))) records = Ret ops"
    and "redb_write env (pp_database p) ops = Ret d" and "redb_scan env d NamespacesTable = Fail (RedbError m)"
  shows "synchronize env records p =
    (Fail (Persistence m), p\<lparr>pp_database := d, pp_values := [], pp_revisions := []\<rparr>)"
proof -
  have "read_metadata env d = Fail (Persistence m)"
    using assms(5) by (simp add: read_metadata_def table_entries_def persistence_error_def)
  then show ?thesis
    using assms(1-4) by (simp add: synchronize_def reset_keys_def reload_def Let_def)
qed

subsection \<open>A database in memory\<close>

text \<open>An instance of the parameter: tables are association lists, later entries hide earlier ones.\<close>

definition memory_op :: "table_op \<Rightarrow> (redb_table \<Rightarrow> (bytes \<times> bytes) list) \<Rightarrow> redb_table \<Rightarrow> (bytes \<times> bytes) list" where
  "memory_op w d = (case w of
     TableInsert t k v \<Rightarrow> d(t := (k, v) # d t)
   | TableRemove t k \<Rightarrow> d(t := filter (\<lambda>e. fst e \<noteq> k) (d t)))"

definition memory_redb :: "(str \<Rightarrow> redb_table \<Rightarrow> (bytes \<times> bytes) list) \<Rightarrow> (redb_table \<Rightarrow> (bytes \<times> bytes) list) redb" where
  "memory_redb files = \<lparr>redb_open = (\<lambda>path. Ret (files path)),
     redb_scan = (\<lambda>d t. Ret (AList.clearjunk (d t))),
     redb_write = (\<lambda>d ws. Ret (fold memory_op ws d))\<rparr>"

lemma memory_redb_ok: "redb_ok (memory_redb files) (\<lambda>d t. map_of (d t))"
proof -
  have op: "(\<lambda>t. map_of (memory_op w d t)) = apply_op w (\<lambda>t. map_of (d t))" for w d
  proof (cases w)
    case (TableRemove t k)
    have "map_of (filter (\<lambda>e. fst e \<noteq> k) es) = (map_of es)(k := None)" for es :: "(bytes \<times> bytes) list"
      by (induction es) (auto simp: fun_eq_iff)
    then show ?thesis using TableRemove by (simp add: memory_op_def apply_op_def fun_eq_iff)
  qed (simp add: memory_op_def apply_op_def fun_eq_iff)
  have "(\<lambda>t. map_of (fold memory_op ws d t)) = fold apply_op ws (\<lambda>t. map_of (d t))" for ws d
    by (induction ws arbitrary: d) (simp_all add: op)
  then show ?thesis
    by (simp add: redb_ok_def memory_redb_def distinct_clearjunk map_of_clearjunk)
qed

definition sample_records :: namespace_registry where
  "sample_records = [(SharedKey ''n'', \<lparr>rec_owner = ''c'', rec_declaration =
     \<lparr>decl_name = ''n'', decl_visibility = Shared, decl_schema_id = ''s'', decl_schema_version = 1,
      decl_readers = [], decl_writers = []\<rparr>\<rparr>)]"

definition sample_value :: state_value where
  "sample_value = \<lparr>schema_id = ''s'', val_encoding = Raw, val_bytes = ''x''\<rparr>"

definition sample_writes :: "(address, state_value option) btree" where
  "sample_writes = [(Address PersistentScope (SharedKey ''n'') ''k'', Some sample_value)]"

lemma sample_records_ok: "records_ok sample_records"
  by (simp add: records_ok_def bt_ok_def sample_records_def record_ok_def ns_ok_def name_ok_def key_owner_def
      utf8_ok.simps utf8_step_def)


lemmas codec_eval = encode_namespace_def encode_persistent_key_def encode_value_def encode_metadata_def push_string_def
  decode_namespace_exact_def decode_namespace_def decode_persistent_key_def decode_value_def decode_metadata_def
  read_string_def le_bytes_def le_value_def encoding_tag_def utf8_ok.simps utf8_step_def usize_max_def upt_rec

lemmas persistent_eval = persistent_open_def synchronize_def read_metadata_def table_entries_def reset_namespaces_def
  reset_keys_def schema_changed_def metadata_op_def new_metadata_def reload_def matching_revisions_def schema_matches_def
  load_value_def persistent_commit_def value_op_def revision_op_def overlay_values_def bump_revision_def apply_overlay_def
  bt_set_of_def bt_get_or_def sat_inc_u64_def u64_max_def memory_redb_def memory_op_def Let_def

text \<open>Two files: an empty one, and the tables that one commit leaves behind.\<close>

definition sample_tables :: "redb_table \<Rightarrow> (bytes \<times> bytes) list" where
  "sample_tables = (case persistent_open (memory_redb (\<lambda>_ _. [])) ''new'' sample_records of
     Ret p \<Rightarrow> (case persistent_commit (memory_redb (\<lambda>_ _. [])) sample_writes sample_records p of
        Ret p' \<Rightarrow> pp_database p' | _ \<Rightarrow> (\<lambda>_. []))
   | _ \<Rightarrow> (\<lambda>_. []))"

definition sample_redb :: "(redb_table \<Rightarrow> (bytes \<times> bytes) list) redb" where
  "sample_redb = memory_redb (\<lambda>path. if path = ''new'' then (\<lambda>_. []) else sample_tables)"

lemma sample_history:
  obtains p p' q where "persistent_open sample_redb ''new'' sample_records = Ret p"
    and "persistent_commit sample_redb sample_writes sample_records p = Ret p'"
    and "redb_open sample_redb ''old'' = Ret (pp_database p')"
    and "persistent_open sample_redb ''old'' sample_records = Ret q"
  by (simp add: persistent_eval codec_eval sample_redb_def sample_records_def sample_writes_def sample_value_def sample_tables_def)

lemma sample_writes_ok: "bt_ok sample_writes" "\<forall>w \<in> set sample_writes. write_ok sample_records w"
  by (simp_all add: bt_ok_def sample_writes_def sample_value_def write_ok_def sample_records_def name_ok_def utf8_ok.simps utf8_step_def)

lemma sample_names_ok: "ns_ok (SharedKey ''n'')" "name_ok ''k''"
  by (simp_all add: ns_ok_def name_ok_def key_owner_def utf8_ok.simps utf8_step_def)

theorem persistent_open_correct_witness:
  "\<exists>p. persistent_open sample_redb ''new'' sample_records = Ret p \<and>
    val_at (pp_values p) (SharedKey ''n'') ''k'' = None \<and> bt_get (pp_revisions p) (SharedKey ''n'') = Some 0"
proof -
  obtain p where p: "persistent_open sample_redb ''new'' sample_records = Ret p"
    using sample_history by blast
  have d: "redb_open sample_redb ''new'' = Ret (\<lambda>_. [])" by (simp add: sample_redb_def memory_redb_def)
  have ok: "redb_ok sample_redb (\<lambda>d t. map_of (d t))" unfolding sample_redb_def by (rule memory_redb_ok)
  note c = persistent_open_correct [OF ok sample_records_ok d p sample_names_ok]
  have "db_value (\<lambda>_ _. None) sample_records ns key = None" "db_metadata (\<lambda>_ _. None) ns = None" for ns key
    by (simp_all add: db_value_def db_metadata_def split: outcome.split)
  then show ?thesis
    using c p by (auto simp: synchronized_value_def synchronized_revision_def sample_records_def)
qed

theorem persistent_commit_durable_witness:
  "\<exists>p p' q. persistent_commit sample_redb sample_writes sample_records p = Ret p' \<and>
    persistent_open sample_redb ''old'' sample_records = Ret q \<and>
    val_at (pp_values q) (SharedKey ''n'') ''k'' = Some sample_value"
proof -
  obtain p p' q where h: "persistent_open sample_redb ''new'' sample_records = Ret p"
    "persistent_commit sample_redb sample_writes sample_records p = Ret p'"
    "redb_open sample_redb ''old'' = Ret (pp_database p')"
    "persistent_open sample_redb ''old'' sample_records = Ret q"
    by (rule sample_history)
  have ok: "redb_ok sample_redb (\<lambda>d t. map_of (d t))" unfolding sample_redb_def by (rule memory_redb_ok)
  have "persistent_reachable sample_redb sample_records p" by (rule persistent_reachable.opened [OF h(1)])
  from persistent_commit_durable [OF ok sample_records_ok this sample_writes_ok h(2,3,4) sample_names_ok] h(2,4)
  show ?thesis by (auto simp: sample_writes_def)
qed

theorem persistent_commit_errors_witness:
  "\<exists>p p'. persistent_open sample_redb ''new'' sample_records = Ret p \<and>
    persistent_commit sample_redb sample_writes sample_records p = Ret p'"
proof -
  obtain p where p: "persistent_open sample_redb ''new'' sample_records = Ret p"
    using sample_history by blast
  have ok: "redb_ok sample_redb (\<lambda>d t. map_of (d t))" unfolding sample_redb_def by (rule memory_redb_ok)
  have "redb_write sample_redb d ops \<noteq> Fail e" for d ops e by (simp add: sample_redb_def memory_redb_def)
  then show ?thesis
    using persistent_commit_errors [OF ok sample_records_ok sample_writes_ok(2), of p] p by blast
qed

text \<open>A database that stops answering once it has been written to.\<close>

definition failing_redb :: "bool redb" where
  "failing_redb = \<lparr>redb_open = (\<lambda>_. Ret False),
     redb_scan = (\<lambda>written t. if written then Fail (RedbError ''io'') else Ret []),
     redb_write = (\<lambda>_ _. Ret True)\<rparr>"

theorem synchronize_failure_empties_cache_witness:
  "synchronize failing_redb [] \<lparr>pp_database = False, pp_values = [(SharedKey ''n'', [(''k'', sample_value)])], pp_revisions = [(SharedKey ''n'', 1)]\<rparr>
    = (Fail (Persistence ''io''), \<lparr>pp_database = True, pp_values = [], pp_revisions = []\<rparr>)"
  using synchronize_failure_empties_cache [of failing_redb "\<lparr>pp_database = False,
      pp_values = [(SharedKey ''n'', [(''k'', sample_value)])], pp_revisions = [(SharedKey ''n'', 1)]\<rparr>" "[]" "[]" "[]" True "''io''"]
  by (simp add: failing_redb_def read_metadata_def table_entries_def reset_namespaces_def)

end
