(* ===== verification/State_Store.thy ===== *)
theory State_Store
  imports State_Durability
begin

text \<open>
  The transactional store of \<open>parser-wasm/src/state/mod.rs\<close>: \<open>StateStore\<close>, \<open>ParseTransaction\<close> and
  \<open>InvocationTransaction\<close> with every operation.

  A method that works under the locks of the store and of the transaction is an \<open>action\<close> on the
  pair of both (\<open>world\<close>), or on the pair with the invocation (\<open>session\<close>); what it has changed
  before it fails stays changed.  Third-party code is in \<open>store_env\<close>: the database, URL
  normalization, the hashed path of a project's database, the data directory of the system.  The
  poisoning of a mutex, which takes a panic while it is held, is not modelled.
\<close>

section \<open>The store\<close>

record 'd project_state =
  ps_documents :: "(str, (namespace_key, namespace_values) btree) btree"
  ps_project :: "(namespace_key, namespace_values) btree"
  ps_persistent :: "'d persistent_project option"
  ps_revisions :: "(revision_key, nat) btree"

definition empty_project :: "'d project_state" where
  "empty_project = \<lparr>ps_documents = [], ps_project = [], ps_persistent = None, ps_revisions = []\<rparr>"

record 'd store_state =
  st_data_directory :: str
  st_quotas :: state_quotas
  st_namespaces :: namespace_registry
  st_projects :: "(str, 'd project_state) btree"
  st_latest :: "(str \<times> str, nat) btree"

record 'd store_env =
  env_redb :: "'d redb"
  env_canonical_uri :: "str \<Rightarrow> str option"
  env_database_path :: "str \<Rightarrow> str \<Rightarrow> str"
  env_default_directory :: "str option"

definition canonical_project_uri :: "'d store_env \<Rightarrow> str \<Rightarrow> (state_error, str) outcome" where
  "canonical_project_uri env uri = ok_or (InvalidInput (MsgProjectUri uri)) (env_canonical_uri env uri)"

definition default_data_directory :: "'d store_env \<Rightarrow> (state_error, str) outcome" where
  "default_data_directory env =
     ok_or (Persistence ''the operating system did not provide an LSP data directory'') (env_default_directory env)"

definition store_new :: "'d store_env \<Rightarrow> str option \<Rightarrow> state_quotas \<Rightarrow> (state_error, 'd store_state) outcome" where
  "store_new env directory quotas =
     obind (quotas_validate quotas) (\<lambda>_.
     obind (case directory of Some path \<Rightarrow> Ret path | None \<Rightarrow> default_data_directory env) (\<lambda>path.
     Ret \<lparr>st_data_directory = path, st_quotas = quotas, st_namespaces = [], st_projects = [], st_latest = []\<rparr>))"

text \<open>The loop of \<open>register_component\<close>: the projects up to the first failure have been synchronized.\<close>

fun synchronize_projects ::
    "'d redb \<Rightarrow> namespace_registry \<Rightarrow> ((str, 'd project_state) btree, state_error, unit) action" where
  "synchronize_projects env records [] = (Ret (), [])"
| "synchronize_projects env records ((uri, project) # projects) =
     (case ps_persistent project of
       None \<Rightarrow> (case synchronize_projects env records projects of
         (r, projects') \<Rightarrow> (r, (uri, project) # projects'))
     | Some persistent \<Rightarrow> (case synchronize env records persistent of
         (Ret _, persistent') \<Rightarrow> (case synchronize_projects env records projects of
           (r, projects') \<Rightarrow> (r, (uri, project\<lparr>ps_persistent := Some persistent'\<rparr>) # projects'))
       | (r, persistent') \<Rightarrow> (r, (uri, project\<lparr>ps_persistent := Some persistent'\<rparr>) # projects)))"

definition register_component ::
    "'d store_env \<Rightarrow> str \<Rightarrow> namespace_declaration list \<Rightarrow> ('d store_state, state_error, unit) action" where
  "register_component env component declarations s =
     (case registry_register component declarations (st_namespaces s) of
       Fail e \<Rightarrow> (Fail e, s)
     | Panic \<Rightarrow> (Panic, s)
     | Ret records \<Rightarrow> (case synchronize_projects (env_redb env) records (st_projects s) of
         (Ret _, projects) \<Rightarrow> (Ret (), s\<lparr>st_projects := projects, st_namespaces := records\<rparr>)
       | (r, projects) \<Rightarrow> (r, s\<lparr>st_projects := projects\<rparr>)))"

definition get_project :: "'d store_state \<Rightarrow> str \<Rightarrow> 'd project_state" where
  "get_project s uri = bt_get_or empty_project (st_projects s) uri"

definition put_project :: "str \<Rightarrow> 'd project_state \<Rightarrow> 'd store_state \<Rightarrow> 'd store_state" where
  "put_project uri p s = s\<lparr>st_projects := bt_insert uri p (st_projects s)\<rparr>"

definition ensure_persistent :: "'d store_env \<Rightarrow> str \<Rightarrow> ('d store_state, state_error, unit) action" where
  "ensure_persistent env uri s =
     (let project = get_project s uri; s = put_project uri project s in
      case ps_persistent project of
        Some _ \<Rightarrow> (Ret (), s)
      | None \<Rightarrow>
        (case persistent_open (env_redb env) (env_database_path env (st_data_directory s) uri) (st_namespaces s) of
           Ret persistent \<Rightarrow> (Ret (), put_project uri
             (project\<lparr>ps_revisions := fold (\<lambda>(ns, revision). bt_insert (RevisionKey PersistentScope ns) revision)
                 (pp_revisions persistent) (ps_revisions project),
               ps_persistent := Some persistent\<rparr>) s)
         | Fail e \<Rightarrow> (Fail e, s)
         | Panic \<Rightarrow> (Panic, s)))"

definition project_values :: "'d project_state \<Rightarrow> str \<Rightarrow> state_scope \<Rightarrow> namespace_key \<Rightarrow> namespace_values" where
  "project_values project doc scope ns = (case scope of
     InvocationScope \<Rightarrow> []
   | ParseScope \<Rightarrow> []
   | DocumentScope \<Rightarrow> (case bt_get (ps_documents project) doc of None \<Rightarrow> [] | Some m \<Rightarrow> bt_get_or [] m ns)
   | ProjectScope \<Rightarrow> bt_get_or [] (ps_project project) ns
   | PersistentScope \<Rightarrow> (case ps_persistent project of None \<Rightarrow> [] | Some p \<Rightarrow> bt_get_or [] (pp_values p) ns))"

definition ensure_scope :: "'d store_env \<Rightarrow> str \<Rightarrow> state_scope \<Rightarrow> ('d store_state, state_error, unit) action" where
  "ensure_scope env uri scope = (if scope = PersistentScope then ensure_persistent env uri else areturn ())"

definition committed_namespace ::
    "'d store_env \<Rightarrow> str \<Rightarrow> str \<Rightarrow> state_scope \<Rightarrow> namespace_key \<Rightarrow> ('d store_state, state_error, namespace_values) action" where
  "committed_namespace env uri doc scope ns =
     abind (ensure_scope env uri scope) (\<lambda>_ s.
       let project = get_project s uri in (Ret (project_values project doc scope ns), put_project uri project s))"

definition committed_revision :: "'d store_env \<Rightarrow> str \<Rightarrow> revision_key \<Rightarrow> ('d store_state, state_error, nat) action" where
  "committed_revision env uri key =
     abind (ensure_scope env uri (rev_scope key)) (\<lambda>_ s.
       let project = get_project s uri in (Ret (bt_get_or 0 (ps_revisions project) key), put_project uri project s))"

text \<open>Publishing: one write, and the new revision of one touched namespace.\<close>

definition publish_write :: "str \<Rightarrow> address \<times> state_value option \<Rightarrow> 'd project_state \<Rightarrow> 'd project_state" where
  "publish_write doc w project = (case w of (a, v) \<Rightarrow> (case addr_scope a of
     DocumentScope \<Rightarrow>
       (let namespaces = bt_get_or [] (ps_documents project) doc;
            values = apply_overlay (addr_key a) v (bt_get_or [] namespaces (addr_namespace a)) in
        project\<lparr>ps_documents := bt_insert doc (bt_insert (addr_namespace a) values namespaces) (ps_documents project)\<rparr>)
   | ProjectScope \<Rightarrow>
       project\<lparr>ps_project := bt_insert (addr_namespace a)
         (apply_overlay (addr_key a) v (bt_get_or [] (ps_project project) (addr_namespace a))) (ps_project project)\<rparr>
   | _ \<Rightarrow> project))"

definition published :: "address \<Rightarrow> bool" where
  "published a \<longleftrightarrow> addr_scope a \<noteq> InvocationScope \<and> addr_scope a \<noteq> ParseScope"

definition publish_revision :: "revision_key \<Rightarrow> 'd project_state \<Rightarrow> 'd project_state" where
  "publish_revision key project =
     (let revision = (if rev_scope key = PersistentScope
        then (case ps_persistent project of None \<Rightarrow> 0 | Some p \<Rightarrow> bt_get_or 0 (pp_revisions p) (rev_namespace key))
        else sat_inc_u64 (bt_get_or 0 (ps_revisions project) key)) in
      project\<lparr>ps_revisions := bt_insert key revision (ps_revisions project)\<rparr>)"

definition is_persistent_write :: "address \<times> state_value option \<Rightarrow> bool" where
  "is_persistent_write w \<longleftrightarrow> addr_scope (fst w) = PersistentScope"

definition commit_persistent ::
    "'d store_env \<Rightarrow> str \<Rightarrow> (address, state_value option) btree \<Rightarrow> ('d store_state, state_error, unit) action" where
  "commit_persistent env uri writes =
     (if writes = [] then areturn () else
      abind (ensure_persistent env uri) (\<lambda>_ s.
        (case Option.bind (bt_get (st_projects s) uri) ps_persistent of
           None \<Rightarrow> (Panic, s)
         | Some persistent \<Rightarrow> (case persistent_commit (env_redb env) writes (st_namespaces s) persistent of
             Ret persistent' \<Rightarrow>
               (Ret (), put_project uri ((get_project s uri)\<lparr>ps_persistent := Some persistent'\<rparr>) s)
           | Fail e \<Rightarrow> (Fail e, s)
           | Panic \<Rightarrow> (Panic, s)))))"

definition publish_project ::
    "str \<Rightarrow> (address, state_value option) btree \<Rightarrow> 'd project_state \<Rightarrow> 'd project_state" where
  "publish_project doc writes project =
     (let visible = filter (published \<circ> fst) writes in
      fold publish_revision (bt_set_of (map (address_revision_key \<circ> fst) visible))
        (fold (publish_write doc) visible project))"

definition commit_writes ::
    "'d store_env \<Rightarrow> str \<Rightarrow> str \<Rightarrow> (address, state_value option) btree \<Rightarrow> ('d store_state, state_error, nat) action" where
  "commit_writes env uri doc writes =
     abind (commit_persistent env uri (filter is_persistent_write writes)) (\<lambda>_ s.
       (Ret (min (length (filter (published \<circ> fst) writes)) usize_max),
        put_project uri (publish_project doc writes (get_project s uri)) s))"

section \<open>Parse transactions\<close>

record read_write_set =
  rws_reads :: "state_record_key set"
  rws_writes :: "state_record_key set"
  rws_revisions :: "state_namespace_key \<rightharpoonup> nat"

definition empty_rws :: read_write_set where
  "empty_rws = \<lparr>rws_reads = {}, rws_writes = {}, rws_revisions = Map.empty\<rparr>"

record parse_transaction =
  pt_id :: nat
  pt_project :: str
  pt_document :: str
  pt_document_revision :: nat
  pt_writes :: "(address, state_value option) btree"
  pt_rws :: read_write_set
  pt_base :: "(revision_key, nat) btree"
  pt_current :: "(revision_key, nat) btree"
  pt_overlay :: nat
  pt_next_overlay :: nat
  pt_applied :: "nat set"
  pt_next_delta :: nat
  pt_closed :: bool

record savepoint =
  sp_transaction :: nat
  sp_writes :: "(address, state_value option) btree"
  sp_rws :: read_write_set
  sp_base :: "(revision_key, nat) btree"
  sp_current :: "(revision_key, nat) btree"
  sp_overlay :: nat
  sp_applied :: "nat set"

record delta =
  dl_transaction :: nat
  dl_id :: nat
  dl_writes :: "(address, state_value option) btree"
  dl_reads :: "state_record_key set"
  dl_write_set :: "state_record_key set"
  dl_observed :: "(revision_key, nat) btree"
  dl_nested :: "nat set"

record invocation =
  iv_component :: str
  iv_writes :: "(address, state_value option) btree"
  iv_reads :: "state_record_key set"
  iv_write_set :: "state_record_key set"
  iv_observed :: "(revision_key, nat) btree"

record commit_summary =
  cs_writes :: nat
  cs_rws :: read_write_set

text \<open>\<open>begin_parse\<close>; the identity of the new transaction, an \<open>Arc\<close> pointer, is an argument.\<close>

definition begin_parse ::
    "'d store_env \<Rightarrow> nat \<Rightarrow> str \<Rightarrow> str \<Rightarrow> nat \<Rightarrow> ('d store_state, state_error, parse_transaction) action" where
  "begin_parse env tid uri doc revision s =
     (case obind (validate_identifier ''document ID'' doc) (\<lambda>_. canonical_project_uri env uri) of
       Fail e \<Rightarrow> (Fail e, s)
     | Panic \<Rightarrow> (Panic, s)
     | Ret project \<Rightarrow>
         (Ret \<lparr>pt_id = tid, pt_project = project, pt_document = doc, pt_document_revision = revision,
            pt_writes = [], pt_rws = empty_rws, pt_base = [], pt_current = [], pt_overlay = 0,
            pt_next_overlay = 1, pt_applied = {}, pt_next_delta = 0, pt_closed = False\<rparr>,
          s\<lparr>st_latest := bt_insert (project, doc) (max (bt_get_or revision (st_latest s) (project, doc)) revision) (st_latest s),
            st_projects := bt_entry_or project empty_project (st_projects s)\<rparr>))"

definition ensure_open :: "parse_transaction \<Rightarrow> (state_error, unit) outcome" where
  "ensure_open t = (if pt_closed t then Fail TransactionClosed else Ret ())"

definition restore :: "savepoint \<Rightarrow> parse_transaction \<Rightarrow> parse_transaction" where
  "restore sp t = t\<lparr>pt_writes := sp_writes sp, pt_rws := sp_rws sp, pt_base := sp_base sp,
     pt_current := sp_current sp, pt_overlay := sp_overlay sp, pt_applied := sp_applied sp\<rparr>"

definition take_savepoint :: "parse_transaction \<Rightarrow> (state_error, savepoint) outcome" where
  "take_savepoint t = obind (ensure_open t) (\<lambda>_.
     Ret \<lparr>sp_transaction = pt_id t, sp_writes = pt_writes t, sp_rws = pt_rws t, sp_base = pt_base t,
          sp_current = pt_current t, sp_overlay = pt_overlay t, sp_applied = pt_applied t\<rparr>)"

definition rollback_to :: "savepoint \<Rightarrow> parse_transaction \<Rightarrow> (state_error, parse_transaction) outcome" where
  "rollback_to sp t = obind (ensure_open t) (\<lambda>_.
     if pt_id t \<noteq> sp_transaction sp then Fail ForeignSavepoint else Ret (restore sp t))"

definition defer_since :: "savepoint \<Rightarrow> parse_transaction \<Rightarrow> (state_error, delta \<times> parse_transaction) outcome" where
  "defer_since before t = obind (ensure_open t) (\<lambda>_.
     if pt_id t \<noteq> sp_transaction before then Fail ForeignSavepoint
     else if pt_next_delta t = u64_max then Fail (Internal MsgDeltaOverflow)
     else Ret
       (\<lparr>dl_transaction = pt_id t, dl_id = pt_next_delta t,
         dl_writes = filter (\<lambda>(a, v). bt_get (sp_writes before) a \<noteq> Some v) (pt_writes t),
         dl_reads = rws_reads (pt_rws t) - rws_reads (sp_rws before),
         dl_write_set = rws_writes (pt_rws t) - rws_writes (sp_rws before),
         dl_observed = map (\<lambda>(key, _). (key, case bt_get (sp_current before) key of
             Some r \<Rightarrow> r | None \<Rightarrow> bt_get_or 0 (pt_base t) key)) (pt_current t),
         dl_nested = pt_applied t - sp_applied before\<rparr>,
        restore before (t\<lparr>pt_next_delta := pt_next_delta t + 1\<rparr>)))"

definition begin_invocation :: "str \<Rightarrow> parse_transaction \<Rightarrow> (state_error, invocation) outcome" where
  "begin_invocation component t =
     obind (validate_identifier ''component ID'' component) (\<lambda>_. obind (ensure_open t) (\<lambda>_.
     Ret \<lparr>iv_component = component, iv_writes = [], iv_reads = {}, iv_write_set = {}, iv_observed = []\<rparr>))"

type_synonym 'd world = "'d store_state \<times> parse_transaction"

text \<open>An action of the store inside one of the transaction.\<close>

definition in_store :: "('d store_state, state_error, 'a) action \<Rightarrow> ('d world, state_error, 'a) action" where
  "in_store act w = (case act (fst w) of (r, s) \<Rightarrow> (r, (s, snd w)))"

definition parse_revision :: "'d store_env \<Rightarrow> revision_key \<Rightarrow> ('d world, state_error, nat) action" where
  "parse_revision env key w = (case bt_get (pt_current (snd w)) key of
     Some r \<Rightarrow> (Ret r, w)
   | None \<Rightarrow> abind (in_store (committed_revision env (pt_project (snd w)) key)) (\<lambda>r (s, t).
       (Ret r, (s, t\<lparr>pt_base := bt_insert key r (pt_base t), pt_current := bt_insert key r (pt_current t)\<rparr>))) w)"

definition overlay_namespace ::
    "state_scope \<Rightarrow> namespace_key \<Rightarrow> (address, state_value option) btree \<Rightarrow> namespace_values \<Rightarrow> namespace_values" where
  "overlay_namespace scope ns writes values =
     fold (\<lambda>(a, v) vals. if addr_scope a = scope \<and> addr_namespace a = ns then apply_overlay (addr_key a) v vals else vals)
       writes values"

definition committed_below ::
    "'d store_env \<Rightarrow> state_scope \<Rightarrow> namespace_key \<Rightarrow> ('d world, state_error, namespace_values) action" where
  "committed_below env scope ns w =
     (if scope = InvocationScope \<or> scope = ParseScope then (Ret [], w)
      else in_store (committed_namespace env (pt_project (snd w)) (pt_document (snd w)) scope ns) w)"

text \<open>\<open>merge_into\<close>\<close>

definition conflicting :: "(revision_key, nat) btree \<Rightarrow> revision_key \<times> nat \<Rightarrow> bool" where
  "conflicting current e = (case bt_get current (fst e) of None \<Rightarrow> False | Some r \<Rightarrow> r \<noteq> snd e)"

fun each :: "('x \<Rightarrow> ('s, 'e, unit) action) \<Rightarrow> 'x list \<Rightarrow> ('s, 'e, unit) action" where
  "each f [] = areturn ()"
| "each f (x # xs) = abind (f x) (\<lambda>_. each f xs)"

definition check_namespace_quota ::
    "'d store_env \<Rightarrow> (address, state_value option) btree \<Rightarrow> revision_key \<Rightarrow> ('d world, state_error, unit) action" where
  "check_namespace_quota env writes key =
     abind (committed_below env (rev_scope key) (rev_namespace key)) (\<lambda>values (s, t).
       let size = namespace_size (overlay_namespace (rev_scope key) (rev_namespace key) writes
             (overlay_namespace (rev_scope key) (rev_namespace key) (pt_writes t) values));
           quota = max_namespace_bytes (st_quotas s) in
       (if size > quota then Fail (QuotaExceeded (MsgNamespaceSize (ns_name (rev_namespace key)) size quota)) else Ret (), (s, t)))"

definition retained :: "(address, state_value option) btree \<Rightarrow> (address, state_value option) btree" where
  "retained writes = filter (\<lambda>(a, _). addr_scope a \<noteq> InvocationScope) writes"

definition record_observed :: "(revision_key, nat) btree \<Rightarrow> parse_transaction \<Rightarrow> parse_transaction" where
  "record_observed observed t = t\<lparr>
     pt_base := fold (\<lambda>(key, r). bt_entry_or key r) observed (pt_base t),
     pt_current := fold (\<lambda>(key, r). bt_entry_or key r) observed (pt_current t),
     pt_rws := (pt_rws t)\<lparr>rws_revisions := fold (\<lambda>(key, r) m. case m (revision_public key) of
         None \<Rightarrow> m(revision_public key \<mapsto> r) | Some _ \<Rightarrow> m) observed (rws_revisions (pt_rws t))\<rparr>\<rparr>"

definition merge_into :: "'d store_env \<Rightarrow> invocation \<Rightarrow> ('d world, state_error, unit) action" where
  "merge_into env iv w =
     (let kept = retained (iv_writes iv);
          touched = bt_set_of (map (address_revision_key \<circ> fst) kept) in
      abind (alift (ensure_open (snd w))) (\<lambda>_.
      abind (alift (case find (conflicting (pt_current (snd w))) (iv_observed iv) of
          Some (key, _) \<Rightarrow> Fail (TransactionConflict (ns_name (rev_namespace key)))
        | None \<Rightarrow> Ret ())) (\<lambda>_.
      abind (each (check_namespace_quota env (iv_writes iv)) touched) (\<lambda>_ (s, t).
        let t = t\<lparr>pt_writes := fold (\<lambda>(a, v). bt_insert a v) kept (pt_writes t),
              pt_rws := (pt_rws t)\<lparr>rws_reads := rws_reads (pt_rws t) \<union> iv_reads iv,
                                    rws_writes := rws_writes (pt_rws t) \<union> iv_write_set iv\<rparr>\<rparr>;
            t = record_observed (iv_observed iv) t;
            t = t\<lparr>pt_current := fold (\<lambda>key m. bt_insert key (sat_inc_u64 (bt_get_or 0 m key)) m) touched (pt_current t)\<rparr>;
            t = (if kept \<noteq> [] then t\<lparr>pt_overlay := pt_next_overlay t, pt_next_overlay := sat_inc_u64 (pt_next_overlay t)\<rparr>
                 else t)
        in (Ret (), (s, t))))) w)"

definition apply_delta :: "'d store_env \<Rightarrow> delta \<Rightarrow> ('d world, state_error, bool) action" where
  "apply_delta env d w =
     abind (alift (ensure_open (snd w))) (\<lambda>_ w.
       if pt_id (snd w) \<noteq> dl_transaction d then (Fail ForeignSavepoint, w)
       else if dl_id d \<in> pt_applied (snd w) then (Ret False, w)
       else abind (merge_into env \<lparr>iv_component = [], iv_writes = dl_writes d, iv_reads = dl_reads d,
              iv_write_set = dl_write_set d, iv_observed = dl_observed d\<rparr>) (\<lambda>_ (s, t).
           (Ret True, (s, t\<lparr>pt_applied := insert (dl_id d) (pt_applied t \<union> dl_nested d)\<rparr>))) w) w"

definition state_revision :: "parse_transaction \<Rightarrow> (state_error, nat) outcome" where
  "state_revision t = obind (ensure_open t) (\<lambda>_. Ret (pt_overlay t))"

definition parse_cancel :: "parse_transaction \<Rightarrow> (state_error, parse_transaction) outcome" where
  "parse_cancel t = obind (ensure_open t) (\<lambda>_. Ret (t\<lparr>pt_closed := True, pt_writes := []\<rparr>))"

text \<open>The revision check of one namespace at commit time.\<close>

definition check_base :: "'d store_env \<Rightarrow> str \<Rightarrow> revision_key \<times> nat \<Rightarrow> ('d store_state, state_error, unit) action" where
  "check_base env uri e = (case e of (key, expected) \<Rightarrow>
     if rev_scope key = InvocationScope \<or> rev_scope key = ParseScope then areturn ()
     else abind (committed_revision env uri key) (\<lambda>r. alift
       (if r \<noteq> expected then Fail (TransactionConflict (ns_name (rev_namespace key))) else Ret ())))"

definition parse_commit :: "'d store_env \<Rightarrow> ('d world, state_error, commit_summary) action" where
  "parse_commit env w = (let t = snd w in
     abind (alift (ensure_open t)) (\<lambda>_.
     abind (\<lambda>(s, t). let latest = bt_get_or (pt_document_revision t) (st_latest s) (pt_project t, pt_document t) in
       (if latest \<noteq> pt_document_revision t
        then Fail (StaleDocumentRevision (pt_document t) (pt_document_revision t) latest) else Ret (), (s, t))) (\<lambda>_.
     abind (in_store (each (check_base env (pt_project t)) (pt_base t))) (\<lambda>_.
     abind (in_store (commit_writes env (pt_project t) (pt_document t) (pt_writes t))) (\<lambda>n (s, t).
       (Ret \<lparr>cs_writes = n, cs_rws = pt_rws t\<rparr>, (s, t\<lparr>pt_closed := True\<rparr>)))))) w)"

section \<open>Invocation transactions\<close>

type_synonym 'd session = "'d world \<times> invocation"

definition session_quotas :: "'d session \<Rightarrow> (state_error, state_quotas) outcome" where
  "session_quotas x = obind (ensure_open (snd (fst x))) (\<lambda>_. Ret (st_quotas (fst (fst x))))"

definition in_world :: "('d world, state_error, 'a) action \<Rightarrow> ('d session, state_error, 'a) action" where
  "in_world act x = (case act (fst x) of (r, w) \<Rightarrow> (r, (w, snd x)))"

definition materialize ::
    "'d store_env \<Rightarrow> state_scope \<Rightarrow> visibility \<Rightarrow> str \<Rightarrow> bool
      \<Rightarrow> ('d session, state_error, namespace_key \<times> namespace_record \<times> namespace_values \<times> nat) action" where
  "materialize env scope vis namespace write x =
     abind (alift (validate_identifier ''namespace'' namespace)) (\<lambda>_.
     abind (\<lambda>x. alift (ensure_open (snd (fst x))) x) (\<lambda>_.
     abind (\<lambda>x. alift (registry_resolve (st_namespaces (fst (fst x))) (iv_component (snd x)) vis namespace write) x) (\<lambda>(ns, r).
     abind (in_world (parse_revision env (RevisionKey scope ns))) (\<lambda>revision.
     abind (in_world (committed_below env scope ns)) (\<lambda>values x.
       (Ret (ns, r, overlay_namespace scope ns (iv_writes (snd x))
            (overlay_namespace scope ns (pt_writes (snd (fst x))) values), revision), x)))))) x"

definition observe :: "revision_key \<Rightarrow> nat \<Rightarrow> invocation \<Rightarrow> invocation" where
  "observe key revision iv = iv\<lparr>iv_observed := bt_insert key revision (iv_observed iv)\<rparr>"

definition inv_get ::
    "'d store_env \<Rightarrow> state_scope \<Rightarrow> visibility \<Rightarrow> str \<Rightarrow> str \<Rightarrow> ('d session, state_error, state_value option) action" where
  "inv_get env scope vis namespace key x =
     abind (alift (obind (session_quotas x) (\<lambda>q. validate_key key (max_key_bytes q)))) (\<lambda>_.
     abind (materialize env scope vis namespace False) (\<lambda>(ns, _, values, revision) (w, iv).
       (Ret (bt_get values key), (w, observe (RevisionKey scope ns) revision
          (iv\<lparr>iv_reads := insert (address_public (Address scope ns key)) (iv_reads iv)\<rparr>))))) x"

definition starts_with :: "str \<Rightarrow> str \<Rightarrow> bool" where
  "starts_with pre s \<longleftrightarrow> take (length pre) s = pre"

definition scan_values :: "str \<Rightarrow> nat \<Rightarrow> namespace_values \<Rightarrow> namespace_values" where
  "scan_values pre limit values =
     take limit (takeWhile (\<lambda>e. starts_with pre (fst e)) (dropWhile (\<lambda>e. fst e < pre) values))"

definition scan_prefix ::
    "'d store_env \<Rightarrow> state_scope \<Rightarrow> visibility \<Rightarrow> str \<Rightarrow> str \<Rightarrow> nat \<Rightarrow> ('d session, state_error, state_entry list) action" where
  "scan_prefix env scope vis namespace pre limit x =
     abind (alift (obind (session_quotas x) (\<lambda>q. obind (validate_key pre (max_key_bytes q)) (\<lambda>_.
       if limit > max_scan_entries q then Fail (QuotaExceeded (MsgScanLimit limit (max_scan_entries q))) else Ret ())))) (\<lambda>_.
     abind (materialize env scope vis namespace False) (\<lambda>(ns, _, values, revision) (w, iv).
       let found = scan_values pre limit values in
       (Ret (map (\<lambda>(k, v). \<lparr>entry_key = k, entry_value = v\<rparr>) found),
        (w, (observe (RevisionKey scope ns) revision iv)\<lparr>iv_reads :=
          iv_reads iv \<union> set (map (\<lambda>(k, _). address_public (Address scope ns k)) found)\<rparr>)))) x"

text \<open>The checks of a write against the declared schema and the namespace quota; the value is whether the key existed.\<close>

definition check_write ::
    "nat \<Rightarrow> str \<Rightarrow> namespace_record \<Rightarrow> str \<Rightarrow> state_value option \<Rightarrow> namespace_values \<Rightarrow> (state_error, bool) outcome" where
  "check_write maximum namespace r key replacement values =
     obind (case replacement of
        None \<Rightarrow> Ret ()
      | Some v \<Rightarrow> if schema_id v \<noteq> decl_schema_id (rec_declaration r)
          then Fail (SchemaMismatch namespace (decl_schema_id (rec_declaration r)) (schema_id v)) else Ret ()) (\<lambda>_.
     let size = namespace_size (apply_overlay key replacement values) in
     if size > maximum then Fail (QuotaExceeded (MsgNamespaceSize namespace size maximum))
     else Ret (bt_contains values key))"

definition check_value_size :: "nat \<Rightarrow> state_value option \<Rightarrow> (state_error, unit) outcome" where
  "check_value_size maximum replacement = (case replacement of
     None \<Rightarrow> Ret ()
   | Some v \<Rightarrow> if stored_size v > maximum then Fail (QuotaExceeded (MsgValueSize (stored_size v) maximum)) else Ret ())"

definition inv_write ::
    "'d store_env \<Rightarrow> state_scope \<Rightarrow> visibility \<Rightarrow> str \<Rightarrow> str \<Rightarrow> state_value option \<Rightarrow> ('d session, state_error, bool) action" where
  "inv_write env scope vis namespace key replacement x =
     abind (alift (obind (session_quotas x) (\<lambda>q. obind (validate_key key (max_key_bytes q)) (\<lambda>_.
       obind (check_value_size (max_value_bytes q) replacement) (\<lambda>_. Ret (max_namespace_bytes q)))))) (\<lambda>maximum.
     abind (materialize env scope vis namespace True) (\<lambda>(ns, r, values, revision).
     abind (alift (check_write maximum namespace r key replacement values)) (\<lambda>existed (w, iv).
       (Ret existed, (w, observe (RevisionKey scope ns) revision
          (iv\<lparr>iv_writes := bt_insert (Address scope ns key) replacement (iv_writes iv),
              iv_write_set := insert (address_public (Address scope ns key)) (iv_write_set iv)\<rparr>)))))) x"

definition inv_put ::
    "'d store_env \<Rightarrow> state_scope \<Rightarrow> visibility \<Rightarrow> str \<Rightarrow> str \<Rightarrow> state_value \<Rightarrow> ('d session, state_error, unit) action" where
  "inv_put env scope vis namespace key v = abind (inv_write env scope vis namespace key (Some v)) (\<lambda>_. areturn ())"

definition inv_delete ::
    "'d store_env \<Rightarrow> state_scope \<Rightarrow> visibility \<Rightarrow> str \<Rightarrow> str \<Rightarrow> ('d session, state_error, bool) action" where
  "inv_delete env scope vis namespace key = inv_write env scope vis namespace key None"

definition compare_and_swap ::
    "'d store_env \<Rightarrow> state_scope \<Rightarrow> visibility \<Rightarrow> str \<Rightarrow> str \<Rightarrow> state_value option \<Rightarrow> state_value option
      \<Rightarrow> ('d session, state_error, bool) action" where
  "compare_and_swap env scope vis namespace key expected replacement =
     abind (inv_get env scope vis namespace key) (\<lambda>current.
       if current \<noteq> expected then areturn False
       else abind (inv_write env scope vis namespace key replacement) (\<lambda>_. areturn True))"

definition invocation_rws :: "invocation \<Rightarrow> read_write_set" where
  "invocation_rws iv = \<lparr>rws_reads = iv_reads iv, rws_writes = iv_write_set iv,
     rws_revisions = map_of (rev (map (\<lambda>(key, r). (revision_public key, r)) (iv_observed iv)))\<rparr>"

text \<open>\<open>InvocationTransaction::commit\<close> consumes the invocation.\<close>

definition inv_commit :: "'d store_env \<Rightarrow> ('d session, state_error, unit) action" where
  "inv_commit env x = in_world (merge_into env (snd x)) x"

end
