(* ===== verification/State_Overlay.thy ===== *)
theory State_Overlay
  imports State_Store
begin

text \<open>
  What a component sees: the view of an invocation is its own writes over the accepted writes of
  the parse transaction over the committed data.  The lemmas reduce every operation of an
  invocation to this view; \<open>reads_only\<close> says that nothing before a commit changes committed data.
\<close>

subsection \<open>The view through the overlays\<close>

definition committed_value :: "'d store_state \<Rightarrow> str \<Rightarrow> str \<Rightarrow> address \<Rightarrow> state_value option" where
  "committed_value s uri doc a = bt_get (project_values (get_project s uri) doc (addr_scope a) (addr_namespace a)) (addr_key a)"

definition overlaid :: "(address, state_value option) btree \<Rightarrow> (address \<Rightarrow> state_value option) \<Rightarrow> address \<Rightarrow> state_value option" where
  "overlaid writes f a = (case bt_get writes a of Some v \<Rightarrow> v | None \<Rightarrow> f a)"

definition parse_view :: "'d store_state \<Rightarrow> parse_transaction \<Rightarrow> address \<Rightarrow> state_value option" where
  "parse_view s t = overlaid (pt_writes t) (committed_value s (pt_project t) (pt_document t))"

definition invocation_view :: "'d session \<Rightarrow> address \<Rightarrow> state_value option" where
  "invocation_view x = overlaid (iv_writes (snd x)) (parse_view (fst (fst x)) (snd (fst x)))"

definition parse_ok :: "parse_transaction \<Rightarrow> bool" where
  "parse_ok t \<longleftrightarrow> bt_ok (pt_writes t) \<and> (\<forall>a \<in> fst ` set (pt_writes t). addr_scope a \<noteq> InvocationScope)"

definition session_ok :: "'d session \<Rightarrow> bool" where
  "session_ok x \<longleftrightarrow> parse_ok (snd (fst x)) \<and> bt_ok (iv_writes (snd x))"

lemma overlay_namespace_get:
  assumes "bt_ok writes"
  shows "bt_get (overlay_namespace scope ns writes vals) key =
    (case bt_get writes (Address scope ns key) of Some v \<Rightarrow> v | None \<Rightarrow> bt_get vals key)"
proof -
  have "bt_get (overlay_namespace scope ns writes vals) key =
    (case bt_get writes (Address scope ns key) of Some v \<Rightarrow> v | None \<Rightarrow> bt_get vals key)"
    if "distinct (map fst writes)" for writes
    using that
  proof (induction writes arbitrary: vals)
    case (Cons w writes)
    obtain a v where w: "w = (a, v)" by (cases w)
    obtain sc n k where a: "a = Address sc n k" by (cases a)
    have new: "bt_get writes a = None" using Cons.prems w by (auto simp: map_of_eq_None_iff)
    define vals1 where "vals1 = (if addr_scope a = scope \<and> addr_namespace a = ns then apply_overlay (addr_key a) v vals else vals)"
    have "overlay_namespace scope ns (w # writes) vals = overlay_namespace scope ns writes vals1"
      by (simp add: overlay_namespace_def w vals1_def)
    moreover have "bt_get vals1 key = (if a = Address scope ns key then v else bt_get vals key)"
      by (auto simp: vals1_def a apply_overlay_def bt_get_insert bt_get_remove split: option.split)
    ultimately show ?case using Cons.IH [of vals1] Cons.prems new by (auto simp: w split: option.split)
  qed (simp add: overlay_namespace_def)
  then show ?thesis using bt_ok_distinct [OF assms] by blast
qed

lemma bt_ok_overlay [simp]: "bt_ok vals \<Longrightarrow> bt_ok (apply_overlay key v vals)"
  by (simp add: apply_overlay_def split: option.split)

lemma bt_get_apply_overlay: "bt_get (apply_overlay key v vals) k = (if k = key then v else bt_get vals k)"
  by (simp add: apply_overlay_def bt_get_insert bt_get_remove split: option.split)

lemma bt_ok_overlay_namespace: "bt_ok vals \<Longrightarrow> bt_ok (overlay_namespace scope ns writes vals)"
  unfolding overlay_namespace_def by (induction writes arbitrary: vals) (auto split: prod.split)

text \<open>The actions of the store change neither the transaction nor the invocation.\<close>

lemma in_store_iff [outcome_simps]: "in_store act (s, t) = (r, (s', t')) \<longleftrightarrow> act s = (r, s') \<and> t' = t"
  by (auto simp: in_store_def split: prod.splits)

lemma in_world_iff [outcome_simps]: "in_world act (w, iv) = (r, (w', iv')) \<longleftrightarrow> act w = (r, w') \<and> iv' = iv"
  by (auto simp: in_world_def split: prod.splits)

lemma get_put_project [simp]: "get_project (put_project uri p s) u = (if u = uri then p else get_project s u)"
  by (auto simp: get_project_def put_project_def bt_get_or_def bt_get_insert)

lemma committed_namespace_Ret:
  assumes "committed_namespace env uri doc scope ns s = (Ret values, s')"
  shows "values = project_values (get_project s' uri) doc scope ns"
  using assms by (auto simp: committed_namespace_def Let_def outcome_simps)

lemma committed_below_Ret:
  assumes "committed_below env scope ns (s, t) = (Ret values, (s', t'))"
  shows "t' = t" and "values = project_values (get_project s' (pt_project t)) (pt_document t) scope ns"
  using assms committed_namespace_Ret
  by (auto simp: committed_below_def project_values_def in_store_iff split: if_splits)

text \<open>What a read leaves of the transaction: everything but the cached revisions.\<close>

definition same_overlay :: "parse_transaction \<Rightarrow> parse_transaction \<Rightarrow> bool" where
  "same_overlay t t' \<longleftrightarrow> (\<exists>base current. t' = t\<lparr>pt_base := base, pt_current := current\<rparr>)"

lemma same_overlay_refl [simp]: "same_overlay t t"
  unfolding same_overlay_def by (rule exI [of _ "pt_base t"], rule exI [of _ "pt_current t"]) simp

lemma same_overlay_trans: "same_overlay t u \<Longrightarrow> same_overlay u v \<Longrightarrow> same_overlay t v"
  unfolding same_overlay_def by (elim exE) (simp, blast)

lemma same_overlayD:
  assumes "same_overlay t t'"
  shows "pt_writes t' = pt_writes t" "pt_project t' = pt_project t" "pt_document t' = pt_document t"
    "pt_closed t' = pt_closed t" "pt_rws t' = pt_rws t" "pt_overlay t' = pt_overlay t"
    "pt_next_overlay t' = pt_next_overlay t" "pt_id t' = pt_id t" "pt_applied t' = pt_applied t"
    "pt_next_delta t' = pt_next_delta t" "pt_document_revision t' = pt_document_revision t" "parse_ok t' = parse_ok t"
  using assms by (auto simp: same_overlay_def parse_ok_def)

lemma parse_revision_result:
  assumes "parse_revision env key (s, t) = (r, (s', t'))"
  shows "same_overlay t t'" and "r = Ret n \<Longrightarrow> bt_get (pt_current t') key = Some n"
proof -
  show "same_overlay t t'"
    using assms
    by (auto simp: parse_revision_def abind_def in_store_def same_overlay_def
        split: option.splits outcome.splits prod.splits intro: same_overlay_refl [unfolded same_overlay_def])
  show "r = Ret n \<Longrightarrow> bt_get (pt_current t') key = Some n"
    using assms by (auto simp: parse_revision_def outcome_simps bt_get_insert split: option.splits)
qed

lemma materialize_Ret:
  assumes "materialize env scope vis namespace write ((s, t), iv) = (Ret (ns, r, values, revision), ((s', t'), iv'))"
    and "session_ok ((s, t), iv)"
  shows "iv' = iv" and "same_overlay t t'" and "\<not> pt_closed t" and "bt_get (pt_current t') (RevisionKey scope ns) = Some revision"
    and "registry_resolve (st_namespaces s) (iv_component iv) vis namespace write = Ret (ns, r)"
    and "bt_get values key = invocation_view ((s', t'), iv') (Address scope ns key)"
proof -
  have "pt_closed t = False \<and> registry_resolve (st_namespaces s) (iv_component iv) vis namespace write = Ret (ns, r) \<and>
    (\<exists>s1 t1 below. parse_revision env (RevisionKey scope ns) (s, t) = (Ret revision, (s1, t1)) \<and>
      committed_below env scope ns (s1, t1) = (Ret below, (s', t')) \<and> iv' = iv \<and>
      values = overlay_namespace scope ns (iv_writes iv) (overlay_namespace scope ns (pt_writes t') below))"
    using assms(1) by (force simp: materialize_def outcome_simps ensure_open_def split: if_splits)
  then obtain s1 t1 below where m: "\<not> pt_closed t"
    "registry_resolve (st_namespaces s) (iv_component iv) vis namespace write = Ret (ns, r)"
    "parse_revision env (RevisionKey scope ns) (s, t) = (Ret revision, (s1, t1))"
    "committed_below env scope ns (s1, t1) = (Ret below, (s', t'))" "iv' = iv"
    "values = overlay_namespace scope ns (iv_writes iv) (overlay_namespace scope ns (pt_writes t') below)"
    by blast
  note p = parse_revision_result [OF m(3)]
  note c = committed_below_Ret [OF m(4)]
  show "iv' = iv" "\<not> pt_closed t" "registry_resolve (st_namespaces s) (iv_component iv) vis namespace write = Ret (ns, r)"
    using m by simp_all
  show "same_overlay t t'" "bt_get (pt_current t') (RevisionKey scope ns) = Some revision" using p c(1) by simp_all
  have "bt_ok (pt_writes t')" "bt_ok (iv_writes iv)"
    using assms(2) same_overlayD [OF p(1)] c(1) by (simp_all add: session_ok_def parse_ok_def)
  then show "bt_get values key = invocation_view ((s', t'), iv') (Address scope ns key)"
    using m(5,6) c by (simp add: overlay_namespace_get invocation_view_def parse_view_def overlaid_def committed_value_def
        split: option.split)
qed

subsection \<open>Operations of an invocation\<close>

lemma inv_get_facts:
  assumes "inv_get env scope vis namespace key x = (Ret v, x')" and "session_ok x"
  obtains ns r where
    "registry_resolve (st_namespaces (fst (fst x))) (iv_component (snd x)) vis namespace False = Ret (ns, r)"
    and "v = invocation_view x' (Address scope ns key)"
    and "same_overlay (snd (fst x)) (snd (fst x'))" and "iv_writes (snd x') = iv_writes (snd x)"
    and "iv_component (snd x') = iv_component (snd x)"
    and "iv_write_set (snd x') = iv_write_set (snd x)"
    and "address_public (Address scope ns key) \<in> iv_reads (snd x')" 
    and "bt_get (iv_observed (snd x')) (RevisionKey scope ns) = bt_get (pt_current (snd (fst x'))) (RevisionKey scope ns)"
proof -
  obtain s t iv s' t' iv' where x: "x = ((s, t), iv)" "x' = ((s', t'), iv')" by (metis prod.collapse)
  obtain ns r vals rev where m: "materialize env scope vis namespace False x = (Ret (ns, r, vals, rev), ((s', t'), iv))"
    and v: "v = bt_get vals key" and iv': "iv' = observe (RevisionKey scope ns) rev
          (iv\<lparr>iv_reads := insert (address_public (Address scope ns key)) (iv_reads iv)\<rparr>)"
    using assms(1) materialize_Ret(1) assms(2) x by (fastforce simp: inv_get_def outcome_simps)
  note f = materialize_Ret [OF m [unfolded x(1)] assms(2) [unfolded x(1)]]
  have "invocation_view x' = invocation_view ((s', t'), iv)" by (simp add: x iv' invocation_view_def observe_def)
  then show thesis
    using f v by (intro that [of ns r]) (simp_all add: x iv' observe_def bt_get_insert)
qed

lemma inv_write_facts:
  assumes "inv_write env scope vis namespace key replacement x = (Ret existed, x')" and "session_ok x"
  obtains ns r where
    "registry_resolve (st_namespaces (fst (fst x))) (iv_component (snd x)) vis namespace True = Ret (ns, r)"
    and "invocation_view x' = (invocation_view (fst x', snd x)) (Address scope ns key := replacement)"
    and "existed \<longleftrightarrow> invocation_view (fst x', snd x) (Address scope ns key) \<noteq> None"
    and "same_overlay (snd (fst x)) (snd (fst x'))"
    and "iv_writes (snd x') = bt_insert (Address scope ns key) replacement (iv_writes (snd x))"
    and "\<forall>v. replacement = Some v \<longrightarrow> schema_id v = decl_schema_id (rec_declaration r)"
    and "length key \<le> max_key_bytes (st_quotas (fst (fst x)))"
    and "\<forall>v. replacement = Some v \<longrightarrow> stored_size v \<le> max_value_bytes (st_quotas (fst (fst x)))"
    and "iv_component (snd x') = iv_component (snd x)"
    and "\<exists>vals. (\<forall>k. bt_get vals k = invocation_view x' (Address scope ns k)) \<and>
      namespace_size vals \<le> max_namespace_bytes (st_quotas (fst (fst x)))"
proof -
  obtain s t iv s' t' iv' where x: "x = ((s, t), iv)" "x' = ((s', t'), iv')" by (metis prod.collapse)
  obtain ns r vals rev where m: "materialize env scope vis namespace True x = (Ret (ns, r, vals, rev), ((s', t'), iv))"
    and w: "check_write (max_namespace_bytes (st_quotas s)) namespace r key replacement vals = Ret existed"
    and iv': "iv' = observe (RevisionKey scope ns) rev
          (iv\<lparr>iv_writes := bt_insert (Address scope ns key) replacement (iv_writes iv),
              iv_write_set := insert (address_public (Address scope ns key)) (iv_write_set iv)\<rparr>)"
    and c: "validate_key key (max_key_bytes (st_quotas s)) = Ret ()" "check_value_size (max_value_bytes (st_quotas s)) replacement = Ret ()"
    using assms(1) materialize_Ret(1) assms(2) x
    by (fastforce simp: inv_write_def outcome_simps session_quotas_def)
  note f = materialize_Ret [OF m [unfolded x(1)] assms(2) [unfolded x(1)]]
  have ex: "existed \<longleftrightarrow> bt_get vals key \<noteq> None" "\<forall>v. replacement = Some v \<longrightarrow> schema_id v = decl_schema_id (rec_declaration r)"
    using w by (auto simp: check_write_def outcome_simps bt_contains_def Let_def split: option.splits if_splits)
  have v: "bt_get vals key = invocation_view ((s', t'), iv) (Address scope ns key)" using f(6) by simp
  have view: "invocation_view x' = (invocation_view ((s', t'), iv)) (Address scope ns key := replacement)"
    by (auto simp: x iv' invocation_view_def observe_def overlaid_def bt_get_insert fun_eq_iff)
  let ?vals = "apply_overlay key replacement vals"
  have "\<forall>k. bt_get ?vals k = invocation_view x' (Address scope ns k)"
    unfolding view using f(6) by (simp add: bt_get_apply_overlay)
  moreover have "namespace_size ?vals \<le> max_namespace_bytes (st_quotas s)"
    using w by (auto simp: check_write_def outcome_simps Let_def split: if_splits)
  ultimately have "\<exists>vals. (\<forall>k. bt_get vals k = invocation_view x' (Address scope ns k)) \<and>
      namespace_size vals \<le> max_namespace_bytes (st_quotas s)" by blast
  moreover note view
  moreover have "length key \<le> max_key_bytes (st_quotas s)" using c(1) by (auto simp: validate_key_def split: if_splits)
  moreover have "\<forall>v. replacement = Some v \<longrightarrow> stored_size v \<le> max_value_bytes (st_quotas s)"
    using c(2) by (auto simp: check_value_size_def split: option.splits if_splits)
  ultimately show thesis
    using f ex v by (intro that [of ns r]) (simp_all add: x iv' observe_def)
qed

subsection \<open>Prefix scans\<close>

lemma starts_with_simps [simp]:
  "starts_with [] s" "\<not> starts_with (p # ps) []" "starts_with (p # ps) (c # cs) \<longleftrightarrow> p = c \<and> starts_with ps cs"
  by (auto simp: starts_with_def)

lemma starts_with_ge: "starts_with pre s \<Longrightarrow> pre \<le> s"
proof (induction pre arbitrary: s)
  case (Cons p pre)
  then show ?case by (cases s) auto
qed simp

lemma past_prefix: "pre \<le> s \<Longrightarrow> \<not> starts_with pre s \<Longrightarrow> s \<le> u \<Longrightarrow> \<not> starts_with pre u"
proof (induction pre arbitrary: s u)
  case (Cons p pre)
  then obtain c cs where s: "s = c # cs" by (cases s) auto
  then obtain d ds where u: "u = d # ds" using Cons.prems(3) by (cases u) auto
  show ?case using Cons.prems Cons.IH [of cs ds] s u by auto
qed simp

lemma takeWhile_prefix:
  assumes "bt_ok vals" and "\<forall>e \<in> set vals. pre \<le> fst e"
  shows "takeWhile (\<lambda>e. starts_with pre (fst e)) vals = filter (\<lambda>e. starts_with pre (fst e)) vals"
  using assms
proof (induction vals)
  case (Cons e vals)
  obtain k v where e: "e = (k, v)" by (cases e)
  have ok: "bt_ok vals" and less: "\<forall>j \<in> fst ` set vals. k < j" using Cons.prems(1) e by (auto simp: bt_ok_Cons)
  show ?case
  proof (cases "starts_with pre k")
    case True
    then show ?thesis using Cons.IH [OF ok] Cons.prems(2) e by simp
  next
    case False
    have "\<not> starts_with pre (fst x)" if "x \<in> set vals" for x
      using past_prefix [of pre k "fst x"] False Cons.prems(2) less that e by (auto simp: less_imp_le)
    then show ?thesis using False e by (simp add: filter_empty_conv)
  qed
qed simp

lemma scan_values_eq:
  assumes "bt_ok vals"
  shows "scan_values pre limit vals = take limit (filter (\<lambda>e. starts_with pre (fst e)) vals)"
proof -
  have "takeWhile (\<lambda>e. starts_with pre (fst e)) (dropWhile (\<lambda>e. fst e < pre) vals) =
      filter (\<lambda>e. starts_with pre (fst e)) vals"
    using assms
  proof (induction vals)
    case (Cons e vals)
    obtain k v where e: "e = (k, v)" by (cases e)
    have ok: "bt_ok vals" and less: "\<forall>j \<in> fst ` set vals. k < j" using Cons.prems e by (auto simp: bt_ok_Cons)
    show ?case
    proof (cases "k < pre")
      case True
      then have "\<not> starts_with pre k" using starts_with_ge [of pre k] by auto
      then show ?thesis using True Cons.IH [OF ok] e by simp
    next
      case False
      then have "\<forall>x \<in> set (e # vals). pre \<le> fst x" using less e by fastforce
      then show ?thesis using takeWhile_prefix [OF Cons.prems] False e by simp
    qed
  qed simp
  then show ?thesis by (simp add: scan_values_def)
qed

lemma scan_prefix_facts:
  assumes "scan_prefix env scope vis namespace pre limit x = (Ret es, x')" and "session_ok x"
  obtains ns r vals where
    "registry_resolve (st_namespaces (fst (fst x))) (iv_component (snd x)) vis namespace False = Ret (ns, r)"
    and "\<forall>key. bt_get vals key = invocation_view x' (Address scope ns key)"
    and "es = map (\<lambda>(k, v). \<lparr>entry_key = k, entry_value = v\<rparr>) (scan_values pre limit vals)"
    and "\<exists>below. vals = overlay_namespace scope ns (iv_writes (snd x)) (overlay_namespace scope ns (pt_writes (snd (fst x'))) below) \<and>
      below = project_values (get_project (fst (fst x')) (pt_project (snd (fst x')))) (pt_document (snd (fst x'))) scope ns"
proof -
  obtain s t iv s' t' iv' where x: "x = ((s, t), iv)" "x' = ((s', t'), iv')" by (metis prod.collapse)
  obtain ns r vals rev where m: "materialize env scope vis namespace False x = (Ret (ns, r, vals, rev), ((s', t'), iv))"
    and es: "es = map (\<lambda>(k, v). \<lparr>entry_key = k, entry_value = v\<rparr>) (scan_values pre limit vals)"
    and iv': "iv_writes iv' = iv_writes iv"
    using assms(1) materialize_Ret(1) assms(2) x
    by (fastforce simp: scan_prefix_def Let_def outcome_simps observe_def)
  note f = materialize_Ret [OF m [unfolded x(1)] assms(2) [unfolded x(1)]]
  have "invocation_view x' = invocation_view ((s', t'), iv)" by (simp add: x iv' invocation_view_def)
  moreover have "\<exists>below. vals = overlay_namespace scope ns (iv_writes iv) (overlay_namespace scope ns (pt_writes t') below) \<and>
      below = project_values (get_project s' (pt_project t')) (pt_document t') scope ns"
    using m x committed_below_Ret by (fastforce simp: materialize_def outcome_simps)
  ultimately show thesis
    using f es by (intro that [of ns r vals]) (simp_all add: x)
qed

subsection \<open>Reads leave the committed data alone\<close>

text \<open>A scope of a project is settled when its committed data is in memory.\<close>

definition settled :: "'d store_state \<Rightarrow> str \<Rightarrow> state_scope \<Rightarrow> bool" where
  "settled s uri scope \<longleftrightarrow> scope = PersistentScope \<longrightarrow> ps_persistent (get_project s uri) \<noteq> None"

definition committed_revision_of :: "'d store_state \<Rightarrow> str \<Rightarrow> revision_key \<Rightarrow> nat" where
  "committed_revision_of s uri key = bt_get_or 0 (ps_revisions (get_project s uri)) key"

definition reads_only :: "'d store_state \<Rightarrow> 'd store_state \<Rightarrow> bool" where
  "reads_only s s' \<longleftrightarrow> st_quotas s' = st_quotas s \<and> st_namespaces s' = st_namespaces s \<and> st_latest s' = st_latest s \<and>
     st_data_directory s' = st_data_directory s \<and>
     (\<forall>uri scope. settled s uri scope \<longrightarrow> settled s' uri scope \<and>
       (\<forall>doc ns. project_values (get_project s' uri) doc scope ns = project_values (get_project s uri) doc scope ns) \<and>
       (\<forall>ns. committed_revision_of s' uri (RevisionKey scope ns) = committed_revision_of s uri (RevisionKey scope ns)))"

lemma reads_only_refl [simp]: "reads_only s s"
  by (simp add: reads_only_def)

lemma reads_only_trans: "reads_only s u \<Longrightarrow> reads_only u v \<Longrightarrow> reads_only s v"
  by (simp add: reads_only_def)

lemma put_project_simps [simp]:
  "st_data_directory (put_project uri p s) = st_data_directory s" "st_quotas (put_project uri p s) = st_quotas s"
  "st_namespaces (put_project uri p s) = st_namespaces s" "st_latest (put_project uri p s) = st_latest s"
  by (simp_all add: put_project_def)

lemma reads_only_visit [simp]: "reads_only s (put_project uri (get_project s uri) s)"
  by (simp add: reads_only_def settled_def committed_revision_of_def)

lemma get_insert_persistent:
  "scope \<noteq> PersistentScope \<Longrightarrow>
    bt_get (fold (\<lambda>(ns, r). bt_insert (RevisionKey PersistentScope ns) r) xs m) (RevisionKey scope ns) = bt_get m (RevisionKey scope ns)"
  by (induction xs arbitrary: m) (auto simp: bt_get_insert)

lemma project_values_persistent:
  "scope \<noteq> PersistentScope \<Longrightarrow> project_values (p\<lparr>ps_revisions := r, ps_persistent := pp\<rparr>) doc scope ns = project_values p doc scope ns"
  by (cases scope) (simp_all add: project_values_def)

lemma ensure_persistent_reads:
  assumes "ensure_persistent env uri s = (r, s')"
  shows "reads_only s s' \<and> (r = Ret () \<longrightarrow> settled s' uri scope)"
proof -
  let ?p = "get_project s uri"
  show ?thesis
  proof (cases "ps_persistent ?p")
    case (Some pp)
    then have "s' = put_project uri ?p s" using assms by (simp add: ensure_persistent_def Let_def)
    then show ?thesis using Some by (simp add: settled_def)
  next
    case None
    show ?thesis
    proof (cases "persistent_open (env_redb env) (env_database_path env (st_data_directory s) uri) (st_namespaces s)")
      case (Ret pp)
      let ?q = "?p\<lparr>ps_revisions := fold (\<lambda>(ns, r). bt_insert (RevisionKey PersistentScope ns) r) (pp_revisions pp) (ps_revisions ?p),
               ps_persistent := Some pp\<rparr>"
      have s': "s' = put_project uri ?q (put_project uri ?p s)" and r: "r = Ret ()"
        using assms None Ret by (simp_all add: ensure_persistent_def Let_def)
      have "settled s' uri scope'" for scope' by (simp add: settled_def s')
      moreover have "project_values (get_project s' u) doc scope' ns = project_values (get_project s u) doc scope' ns \<and>
          committed_revision_of s' u (RevisionKey scope' ns) = committed_revision_of s u (RevisionKey scope' ns)"
        if "settled s u scope'" for u doc scope' ns
      proof (cases "u = uri")
        case True
        then have "scope' \<noteq> PersistentScope" using that None by (simp add: settled_def)
        then show ?thesis
          by (simp add: s' True committed_revision_of_def bt_get_or_def project_values_persistent get_insert_persistent)
      qed (simp add: s' committed_revision_of_def)
      ultimately show ?thesis
        by (auto simp: reads_only_def settled_def s' r)
    qed (use assms None in \<open>auto simp: ensure_persistent_def Let_def\<close>)
  qed
qed

lemma ensure_scope_reads:
  assumes "ensure_scope env uri scope s = (r, s')"
  shows "reads_only s s' \<and> (r = Ret () \<longrightarrow> settled s' uri scope)"
proof (cases "scope = PersistentScope")
  case True
  then show ?thesis using assms ensure_persistent_reads [of env uri s r s'] by (simp add: ensure_scope_def)
qed (use assms in \<open>simp add: ensure_scope_def settled_def\<close>)

lemma abind_reads:
  assumes "abind m f s = (r, s')" and "\<And>x t. m s = (x, t) \<Longrightarrow> reads_only s t"
    and "\<And>x t. m s = (Ret x, t) \<Longrightarrow> f x t = (r, s') \<Longrightarrow> reads_only t s'"
  shows "reads_only s s'"
proof -
  obtain x t where m: "m s = (x, t)" by (cases "m s")
  show ?thesis
  proof (cases x)
    case (Ret y)
    then have "f y t = (r, s')" using assms(1) m by (simp add: abind_def)
    then show ?thesis using assms(2,3) m Ret reads_only_trans by blast
  qed (use assms(1,2) m in \<open>auto simp: abind_def\<close>)
qed

lemma committed_namespace_reads:
  assumes "committed_namespace env uri doc scope ns s = (r, s')"
  shows "reads_only s s'"
  by (rule abind_reads [OF assms [unfolded committed_namespace_def]])
    (auto dest: ensure_scope_reads simp: Let_def)

lemma settled_visit [simp]: "settled (put_project uri (get_project s uri) s) u scope = settled s u scope"
  by (simp add: settled_def)

lemma committed_namespace_settled:
  assumes "committed_namespace env uri doc scope ns s = (Ret vals, s')"
  shows "settled s' uri scope"
proof -
  obtain s1 where "ensure_scope env uri scope s = (Ret (), s1)" "s' = put_project uri (get_project s1 uri) s1"
    using assms by (auto simp: committed_namespace_def Let_def outcome_simps)
  then show ?thesis using ensure_scope_reads [of env uri scope s "Ret ()" s1] by simp
qed

lemma committed_revision_reads:
  assumes "committed_revision env uri key s = (r, s')"
  shows "reads_only s s'"
  by (rule abind_reads [OF assms [unfolded committed_revision_def]])
    (auto dest: ensure_scope_reads simp: Let_def)

lemma committed_revision_Ret:
  assumes "committed_revision env uri key s = (Ret n, s')"
  shows "settled s' uri (rev_scope key)" and "n = committed_revision_of s' uri key"
proof -
  obtain s1 where s: "ensure_scope env uri (rev_scope key) s = (Ret (), s1)" "s' = put_project uri (get_project s1 uri) s1"
    "n = bt_get_or 0 (ps_revisions (get_project s1 uri)) key"
    using assms by (auto simp: committed_revision_def Let_def outcome_simps)
  then show "settled s' uri (rev_scope key)" using ensure_scope_reads [of env uri "rev_scope key" s "Ret ()" s1] by simp
  show "n = committed_revision_of s' uri key" using s by (simp add: committed_revision_of_def)
qed

lemma committed_below_reads:
  assumes "committed_below env scope ns (s, t) = (r, (s', t'))"
  shows "reads_only s s'" "t' = t"
  using assms committed_namespace_reads [of env "pt_project t" "pt_document t" scope ns s r s']
  by (auto simp: committed_below_def in_store_iff split: if_splits)

lemma committed_below_settled:
  assumes "committed_below env scope ns (s, t) = (Ret vals, (s', t'))"
  shows "settled s' (pt_project t) scope"
  using assms committed_namespace_settled [of env "pt_project t" "pt_document t" scope ns s vals s']
  by (auto simp: committed_below_def in_store_iff settled_def split: if_splits)

lemma parse_revision_reads:
  assumes "parse_revision env key (s, t) = (r, (s', t'))"
  shows "reads_only s s'"
proof (cases "bt_get (pt_current t) key")
  case None
  obtain x u where c: "committed_revision env (pt_project t) key s = (x, u)" by (cases "committed_revision env (pt_project t) key s")
  then have "s' = u" using assms None by (auto simp: parse_revision_def abind_def in_store_def split: outcome.splits)
  then show ?thesis using committed_revision_reads [OF c] by simp
qed (use assms in \<open>simp add: parse_revision_def\<close>)

subsection \<open>Accepting an invocation\<close>

lemma check_namespace_quota_result:
  assumes "check_namespace_quota env writes key (s, t) = (r, (s', t'))"
  shows "reads_only s s'" and "t' = t"
proof -
  obtain x s1 t1 where c: "committed_below env (rev_scope key) (rev_namespace key) (s, t) = (x, (s1, t1))"
    by (metis prod.collapse)
  then have "s' = s1" "t' = t1" using assms by (auto simp: check_namespace_quota_def abind_def Let_def split: outcome.splits if_splits)
  then show "reads_only s s'" "t' = t" using committed_below_reads [OF c] by simp_all
qed

lemma check_namespace_quota_Ret:
  assumes "check_namespace_quota env writes key (s, t) = (Ret (), (s', t'))"
  shows "settled s' (pt_project t) (rev_scope key)" and
    "namespace_size (overlay_namespace (rev_scope key) (rev_namespace key) writes
      (overlay_namespace (rev_scope key) (rev_namespace key) (pt_writes t)
        (project_values (get_project s' (pt_project t)) (pt_document t) (rev_scope key) (rev_namespace key))))
      \<le> max_namespace_bytes (st_quotas s')"
proof -
  obtain vals s1 t1 where c: "committed_below env (rev_scope key) (rev_namespace key) (s, t) = (Ret vals, (s1, t1))"
    and q: "s' = s1" "t' = t1" "namespace_size (overlay_namespace (rev_scope key) (rev_namespace key) writes
             (overlay_namespace (rev_scope key) (rev_namespace key) (pt_writes t1) vals)) \<le> max_namespace_bytes (st_quotas s1)"
    using assms by (auto simp: check_namespace_quota_def Let_def outcome_simps split: if_splits)
  note b = committed_below_Ret [OF c]
  show "settled s' (pt_project t) (rev_scope key)" using committed_below_settled [OF c] q by simp
  show "namespace_size (overlay_namespace (rev_scope key) (rev_namespace key) writes
      (overlay_namespace (rev_scope key) (rev_namespace key) (pt_writes t)
        (project_values (get_project s' (pt_project t)) (pt_document t) (rev_scope key) (rev_namespace key))))
      \<le> max_namespace_bytes (st_quotas s')" using q b by simp
qed

definition within_quota :: "'d store_state \<Rightarrow> parse_transaction \<Rightarrow> (address, state_value option) btree \<Rightarrow> revision_key \<Rightarrow> bool" where
  "within_quota s t writes key \<longleftrightarrow> namespace_size (overlay_namespace (rev_scope key) (rev_namespace key) writes
      (overlay_namespace (rev_scope key) (rev_namespace key) (pt_writes t)
        (project_values (get_project s (pt_project t)) (pt_document t) (rev_scope key) (rev_namespace key))))
      \<le> max_namespace_bytes (st_quotas s)"

lemma check_quotas:
  assumes "each (check_namespace_quota env writes) keys (s, t) = (r, (s', t'))"
  shows "reads_only s s' \<and> t' = t \<and>
    (r = Ret () \<longrightarrow> (\<forall>key \<in> set keys. settled s' (pt_project t) (rev_scope key) \<and> within_quota s' t writes key))"
  using assms
proof (induction keys arbitrary: s)
  case (Cons key keys)
  obtain x s1 t1 where c: "check_namespace_quota env writes key (s, t) = (x, (s1, t1))" by (metis prod.collapse)
  note one = check_namespace_quota_result [OF c]
  show ?case
  proof (cases x)
    case (Ret y)
    then have "each (check_namespace_quota env writes) keys (s1, t) = (r, (s', t'))"
      using Cons.prems c one(2) by (simp add: abind_def)
    note ih = Cons.IH [OF this]
    note ok = check_namespace_quota_Ret [of env writes key s t s1 t1]
    have keep: "reads_only s1 s'" using ih by simp
    have "settled s' (pt_project t) (rev_scope key) \<and> within_quota s' t writes key"
      using ok c Ret keep by (simp add: reads_only_def within_quota_def)
    then show ?thesis using ih one(1) reads_only_trans by auto
  qed (use Cons.prems c one in \<open>auto simp: abind_def\<close>)
qed simp

text \<open>The transaction after an accepted invocation.\<close>

definition merged :: "invocation \<Rightarrow> parse_transaction \<Rightarrow> parse_transaction" where
  "merged iv t =
     (let kept = retained (iv_writes iv);
          touched = bt_set_of (map (address_revision_key \<circ> fst) kept);
          t = t\<lparr>pt_writes := fold (\<lambda>(a, v). bt_insert a v) kept (pt_writes t),
              pt_rws := (pt_rws t)\<lparr>rws_reads := rws_reads (pt_rws t) \<union> iv_reads iv,
                                    rws_writes := rws_writes (pt_rws t) \<union> iv_write_set iv\<rparr>\<rparr>;
          t = record_observed (iv_observed iv) t;
          t = t\<lparr>pt_current := fold (\<lambda>key m. bt_insert key (sat_inc_u64 (bt_get_or 0 m key)) m) touched (pt_current t)\<rparr>
      in if kept \<noteq> [] then t\<lparr>pt_overlay := pt_next_overlay t, pt_next_overlay := sat_inc_u64 (pt_next_overlay t)\<rparr>
         else t)"

lemma merge_into_cases:
  assumes "merge_into env iv (s, t) = (r, (s', t'))"
  obtains (refused) "r \<noteq> Ret ()" "t' = t" "reads_only s s'"
  | (accepted) "r = Ret ()" "t' = merged iv t" "reads_only s s'" "\<not> pt_closed t"
      "\<forall>e \<in> set (iv_observed iv). \<not> conflicting (pt_current t) e"
      "\<forall>key \<in> (address_revision_key \<circ> fst) ` set (retained (iv_writes iv)).
        settled s' (pt_project t) (rev_scope key) \<and> within_quota s' t (iv_writes iv) key"
proof (cases "pt_closed t \<or> find (conflicting (pt_current t)) (iv_observed iv) \<noteq> None")
  case True
  then show thesis using assms refused
    by (cases "pt_closed t") (auto simp: merge_into_def abind_def ensure_open_def)
next
  case False
  then have no: "\<not> pt_closed t" "find (conflicting (pt_current t)) (iv_observed iv) = None" by blast+
  let ?touched = "bt_set_of (map (address_revision_key \<circ> fst) (retained (iv_writes iv)))"
  obtain x s1 t1 where q: "each (check_namespace_quota env (iv_writes iv)) ?touched (s, t) = (x, (s1, t1))"
    by (metis prod.collapse)
  note c = check_quotas [OF q]
  have "t1 = t" using c by simp
  with no q have "merge_into env iv (s, t) =
      (case x of Ret _ \<Rightarrow> (Ret (), (s1, merged iv t)) | Fail e \<Rightarrow> (Fail e, (s1, t)) | Panic \<Rightarrow> (Panic, (s1, t)))"
    by (cases x) (simp_all add: merge_into_def abind_def ensure_open_def Let_def merged_def)
  then have m: "(r, (s', t')) = (case x of Ret _ \<Rightarrow> (Ret (), (s1, merged iv t)) | Fail e \<Rightarrow> (Fail e, (s1, t)) | Panic \<Rightarrow> (Panic, (s1, t)))"
    using assms by simp
  have nc: "\<forall>e \<in> set (iv_observed iv). \<not> conflicting (pt_current t) e"
    using no(2) by (auto simp: find_None_iff)
  show thesis
  proof (cases x)
    case (Ret y)
    then show thesis using m c nc no(1) by (intro accepted) auto
  qed (use m c in \<open>auto intro!: refused\<close>)
qed

lemma merged_fields [simp]:
  "pt_id (merged iv t) = pt_id t" "pt_project (merged iv t) = pt_project t" "pt_document (merged iv t) = pt_document t"
  "pt_document_revision (merged iv t) = pt_document_revision t" "pt_applied (merged iv t) = pt_applied t"
  "pt_next_delta (merged iv t) = pt_next_delta t" "pt_closed (merged iv t) = pt_closed t"
  "pt_overlay (merged iv t) = (if retained (iv_writes iv) \<noteq> [] then pt_next_overlay t else pt_overlay t)"
  "pt_next_overlay (merged iv t) = (if retained (iv_writes iv) \<noteq> [] then sat_inc_u64 (pt_next_overlay t) else pt_next_overlay t)"
  "pt_writes (merged iv t) = fold (\<lambda>(a, v). bt_insert a v) (retained (iv_writes iv)) (pt_writes t)"
  by (simp_all add: merged_def Let_def record_observed_def)

lemma fold_bt_insert_get:
  "distinct (map fst ws) \<Longrightarrow> bt_get (fold (\<lambda>(a, v). bt_insert a v) ws m) k = (case bt_get ws k of Some v \<Rightarrow> Some v | None \<Rightarrow> bt_get m k)"
proof (induction ws arbitrary: m)
  case (Cons w ws)
  obtain a v where w: "w = (a, v)" by (cases w)
  have "bt_get ws a = None" using Cons.prems w by (auto simp: map_of_eq_None_iff)
  then show ?case using Cons w by (auto simp: bt_get_insert split: option.split)
qed simp

lemma bt_ok_fold_insert: "bt_ok m \<Longrightarrow> bt_ok (fold (\<lambda>(a, v). bt_insert a v) ws m)"
  by (induction ws arbitrary: m) auto

lemma bt_get_retained:
  "distinct (map fst ws) \<Longrightarrow> bt_get (retained ws) a = (if addr_scope a = InvocationScope then None else bt_get ws a)"
  unfolding retained_def
  by (induction ws) (auto simp: map_of_eq_None_iff dest: map_of_SomeD)

lemma bt_ok_filter: "bt_ok m \<Longrightarrow> bt_ok (filter P m)"
  unfolding bt_ok_def by (induction m) auto

lemma fold_bt_insert_keys: "fst ` set (fold (\<lambda>(a, v). bt_insert a v) ws m) = fst ` set ws \<union> fst ` set m"
  by (induction ws arbitrary: m) (simp_all add: case_prod_beta)

lemma merged_writes:
  assumes "parse_ok t" and "bt_ok (iv_writes iv)"
  shows "parse_ok (merged iv t)"
    and "bt_get (pt_writes (merged iv t)) a = (if addr_scope a = InvocationScope then None
      else case bt_get (iv_writes iv) a of Some v \<Rightarrow> Some v | None \<Rightarrow> bt_get (pt_writes t) a)"
proof -
  have d: "distinct (map fst (iv_writes iv))" "distinct (map fst (retained (iv_writes iv)))"
    using bt_ok_distinct [OF assms(2)] bt_ok_distinct [OF bt_ok_filter [OF assms(2)]] by (simp_all add: retained_def)
  show ok: "parse_ok (merged iv t)"
    using assms(1) by (auto simp: parse_ok_def bt_ok_fold_insert fold_bt_insert_keys image_Un retained_def)
  have "bt_get (pt_writes t) a = None" if "addr_scope a = InvocationScope"
    using that assms(1) by (auto simp: parse_ok_def map_of_eq_None_iff)
  then show "bt_get (pt_writes (merged iv t)) a = (if addr_scope a = InvocationScope then None
      else case bt_get (iv_writes iv) a of Some v \<Rightarrow> Some v | None \<Rightarrow> bt_get (pt_writes t) a)"
    by (auto simp: fold_bt_insert_get [OF d(2)] bt_get_retained [OF d(1)] split: option.split)
qed

lemma merged_view:
  assumes "parse_ok t" and "bt_ok (iv_writes iv)"
  shows "parse_view s (merged iv t) a =
    (if addr_scope a = InvocationScope then None else invocation_view ((s, t), iv) a)"
  using merged_writes(2) [OF assms, of a]
  by (auto simp: parse_view_def invocation_view_def overlaid_def committed_value_def project_values_def split: option.splits)

subsection \<open>The properties of an invocation\<close>

text \<open>
  C21. A read answers from the overlays.  When it succeeds, the component may read the namespace,
  and the answer is the invocation's own latest write to the address, else what the transaction has
  accepted, else the committed value; no overlay changes, and the read is recorded with the
  namespace revision the transaction knows.
\<close>

theorem inv_get_correct:
  assumes "session_ok x" and "inv_get env scope vis namespace key x = (Ret v, x')"
  shows "\<exists>ns r. registry_resolve (st_namespaces (fst (fst x))) (iv_component (snd x)) vis namespace False = Ret (ns, r) \<and>
    v = overlaid (iv_writes (snd x)) (overlaid (pt_writes (snd (fst x)))
      (committed_value (fst (fst x')) (pt_project (snd (fst x))) (pt_document (snd (fst x))))) (Address scope ns key) \<and>
    iv_writes (snd x') = iv_writes (snd x) \<and> pt_writes (snd (fst x')) = pt_writes (snd (fst x)) \<and>
    address_public (Address scope ns key) \<in> iv_reads (snd x') \<and>
    bt_get (iv_observed (snd x')) (RevisionKey scope ns) = bt_get (pt_current (snd (fst x'))) (RevisionKey scope ns)"
proof -
  obtain ns r where f: "registry_resolve (st_namespaces (fst (fst x))) (iv_component (snd x)) vis namespace False = Ret (ns, r)"
    "v = invocation_view x' (Address scope ns key)" "same_overlay (snd (fst x)) (snd (fst x'))"
    "iv_writes (snd x') = iv_writes (snd x)" "address_public (Address scope ns key) \<in> iv_reads (snd x')"
    "bt_get (iv_observed (snd x')) (RevisionKey scope ns) = bt_get (pt_current (snd (fst x'))) (RevisionKey scope ns)"
    using inv_get_facts [OF assms(2,1)] by blast
  then show ?thesis
    using same_overlayD [OF f(3)] by (intro exI [of _ ns] exI [of _ r]) (simp add: invocation_view_def parse_view_def)
qed

text \<open>
  C20. A write is read back.  When it succeeds, the component may write the namespace, key and value are
  within their quotas and of the declared schema, the namespace as the invocation then sees it is within
  the namespace quota, the invocation's view changes at exactly this address to the new value (or to
  nothing, for a deletion), and the result tells whether the address held a value before; the parent
  transaction's overlay is untouched.
\<close>

theorem inv_write_correct:
  assumes "session_ok x" and "inv_write env scope vis namespace key replacement x = (Ret existed, x')"
  shows "\<exists>ns r. registry_resolve (st_namespaces (fst (fst x))) (iv_component (snd x)) vis namespace True = Ret (ns, r) \<and>
    access_allowed (iv_component (snd x)) r True \<and>
    invocation_view x' = (invocation_view (fst x', snd x)) (Address scope ns key := replacement) \<and>
    (existed \<longleftrightarrow> invocation_view (fst x', snd x) (Address scope ns key) \<noteq> None) \<and>
    parse_view (fst (fst x')) (snd (fst x')) = parse_view (fst (fst x')) (snd (fst x)) \<and>
    (\<forall>v. replacement = Some v \<longrightarrow> schema_id v = decl_schema_id (rec_declaration r) \<and>
      stored_size v \<le> max_value_bytes (st_quotas (fst (fst x)))) \<and>
    length key \<le> max_key_bytes (st_quotas (fst (fst x))) \<and>
    (\<exists>vals. (\<forall>k. bt_get vals k = invocation_view x' (Address scope ns k)) \<and>
      namespace_size vals \<le> max_namespace_bytes (st_quotas (fst (fst x)))) \<and> session_ok x'"
proof -
  obtain ns r where f:
    "registry_resolve (st_namespaces (fst (fst x))) (iv_component (snd x)) vis namespace True = Ret (ns, r)"
    "invocation_view x' = (invocation_view (fst x', snd x)) (Address scope ns key := replacement)"
    "existed \<longleftrightarrow> invocation_view (fst x', snd x) (Address scope ns key) \<noteq> None"
    "same_overlay (snd (fst x)) (snd (fst x'))"
    "iv_writes (snd x') = bt_insert (Address scope ns key) replacement (iv_writes (snd x))"
    "\<forall>v. replacement = Some v \<longrightarrow> schema_id v = decl_schema_id (rec_declaration r)"
    "length key \<le> max_key_bytes (st_quotas (fst (fst x)))"
    "\<forall>v. replacement = Some v \<longrightarrow> stored_size v \<le> max_value_bytes (st_quotas (fst (fst x)))"
    "\<exists>vals. (\<forall>k. bt_get vals k = invocation_view x' (Address scope ns k)) \<and>
      namespace_size vals \<le> max_namespace_bytes (st_quotas (fst (fst x)))"
    by (rule inv_write_facts [OF assms(2,1)]) (rule that; assumption)
  have access: "access_allowed (iv_component (snd x)) r True"
    using f(1) by (auto simp: registry_resolve_def Let_def outcome_simps split: if_splits)
  have session: "session_ok x'" using assms(1) f(5) same_overlayD [OF f(4)] by (simp add: session_ok_def)
  have parent: "parse_view (fst (fst x')) (snd (fst x')) = parse_view (fst (fst x')) (snd (fst x))"
    using same_overlayD [OF f(4)] by (simp add: parse_view_def)
  have legal: "\<forall>v. replacement = Some v \<longrightarrow> schema_id v = decl_schema_id (rec_declaration r) \<and>
      stored_size v \<le> max_value_bytes (st_quotas (fst (fst x)))" using f(6,8) by blast
  show ?thesis by (rule exI [of _ ns], rule exI [of _ r]) (intro conjI f(1-3,7,9) access session parent legal)
qed

text \<open>
  C36. A prefix scan lists, in ascending key order, the first \<open>limit\<close> of exactly the visible keys that begin with the
  prefix, with their visible values.
\<close>

theorem scan_prefix_correct:
  assumes "session_ok x" and "scan_prefix env scope vis namespace pre limit x = (Ret es, x')"
    and "\<And>ns. bt_ok (project_values (get_project (fst (fst x')) (pt_project (snd (fst x')))) (pt_document (snd (fst x'))) scope ns)"
  shows "\<exists>ns r vals. registry_resolve (st_namespaces (fst (fst x))) (iv_component (snd x)) vis namespace False = Ret (ns, r) \<and>
    bt_ok vals \<and> (\<forall>key. bt_get vals key = invocation_view x' (Address scope ns key)) \<and>
    es = take limit (map (\<lambda>(k, v). \<lparr>entry_key = k, entry_value = v\<rparr>) (filter (\<lambda>(k, _). starts_with pre k) vals))"
proof -
  obtain ns r vals where f:
    "registry_resolve (st_namespaces (fst (fst x))) (iv_component (snd x)) vis namespace False = Ret (ns, r)"
    "\<forall>key. bt_get vals key = invocation_view x' (Address scope ns key)"
    "es = map (\<lambda>(k, v). \<lparr>entry_key = k, entry_value = v\<rparr>) (scan_values pre limit vals)"
    "vals = overlay_namespace scope ns (iv_writes (snd x)) (overlay_namespace scope ns (pt_writes (snd (fst x')))
      (project_values (get_project (fst (fst x')) (pt_project (snd (fst x')))) (pt_document (snd (fst x'))) scope ns))"
    using scan_prefix_facts [OF assms(2,1)] by blast
  have "bt_ok vals" using f(4) assms(3) by (simp add: bt_ok_overlay_namespace)
  then show ?thesis
    using f(1,2,3) by (intro exI [of _ ns] exI [of _ r] exI [of _ vals]) (simp add: scan_values_eq take_map case_prod_beta')
qed

text \<open>
  C9. Accepting an invocation is all or nothing.  Either it is refused and the transaction is exactly
  what it was, or every namespace it wrote is within the quota, none of the revisions it observed
  has moved, and the transaction now shows, at every address outside the invocation scope, exactly what the
  invocation saw.  Committed data is never touched.
\<close>

theorem merge_into_correct:
  assumes "session_ok ((s, t), iv)" and "merge_into env iv (s, t) = (r, (s', t'))"
  shows "reads_only s s' \<and>
    (r \<noteq> Ret () \<longrightarrow> t' = t) \<and>
    (r = Ret () \<longrightarrow> \<not> pt_closed t \<and> session_ok ((s', t'), iv) \<and>
      (\<forall>(key, n) \<in> set (iv_observed iv). bt_get (pt_current t) key = None \<or> bt_get (pt_current t) key = Some n) \<and>
      (\<forall>a v. bt_get (iv_writes iv) a = Some v \<longrightarrow> addr_scope a \<noteq> InvocationScope \<longrightarrow>
        within_quota s' t (iv_writes iv) (address_revision_key a)) \<and>
      (\<forall>a. addr_scope a \<noteq> InvocationScope \<longrightarrow> parse_view s' t' a = invocation_view ((s', t), iv) a))"
  using assms(2)
proof (cases rule: merge_into_cases)
  case accepted
  have ok: "parse_ok t" "bt_ok (iv_writes iv)" using assms(1) by (simp_all add: session_ok_def)
  have "within_quota s' t (iv_writes iv) (address_revision_key a)"
    if "bt_get (iv_writes iv) a = Some v" "addr_scope a \<noteq> InvocationScope" for a v
    using accepted(6) that map_of_SomeD [OF that(1)] by (force simp: retained_def)
  moreover have "bt_get (pt_current t) key = None \<or> bt_get (pt_current t) key = Some n"
    if "(key, n) \<in> set (iv_observed iv)" for key n
    using accepted(5) that by (fastforce simp: conflicting_def split: option.splits)
  ultimately show ?thesis
    using accepted(1-4) ok merged_writes(1) [OF ok] merged_view [OF ok, of s']
    by (auto simp: session_ok_def)
qed auto

text \<open>
  A compare-and-swap reports success exactly when the visible value was the expected one; then
  the address shows the replacement and no other address changes, otherwise nothing is staged.
\<close>

theorem compare_and_swap_correct:
  assumes "session_ok x" and "compare_and_swap env scope vis namespace key expected replacement x = (Ret swapped, x')"
  shows "\<exists>ns seen x1. inv_get env scope vis namespace key x = (Ret seen, x1) \<and> seen = invocation_view x1 (Address scope ns key) \<and>
    (swapped \<longleftrightarrow> seen = expected) \<and>
    (if swapped then invocation_view x' = (invocation_view (fst x', snd x)) (Address scope ns key := replacement)
     else iv_writes (snd x') = iv_writes (snd x) \<and> pt_writes (snd (fst x')) = pt_writes (snd (fst x)))"
proof -
  obtain seen x1 where g: "inv_get env scope vis namespace key x = (Ret seen, x1)"
    and rest: "(if seen \<noteq> expected then areturn False
       else abind (inv_write env scope vis namespace key replacement) (\<lambda>_. areturn True)) x1 = (Ret swapped, x')"
    using assms(2) by (auto simp: compare_and_swap_def outcome_simps)
  obtain ns r where f: "seen = invocation_view x1 (Address scope ns key)"
    "registry_resolve (st_namespaces (fst (fst x))) (iv_component (snd x)) vis namespace False = Ret (ns, r)"
    "same_overlay (snd (fst x)) (snd (fst x1))" "iv_writes (snd x1) = iv_writes (snd x)"
    using inv_get_facts [OF g assms(1)] by metis
  have ns: "ns = declaration_key (iv_component (snd x)) vis namespace"
    using f(2) by (auto simp: registry_resolve_def Let_def outcome_simps split: if_splits)
  show ?thesis
  proof (cases "seen = expected")
    case False
    then have "swapped = False" "x' = x1" using rest by auto
    then show ?thesis using g f False same_overlayD(1) [OF f(3)] by auto
  next
    case True
    then obtain e where w: "inv_write env scope vis namespace key replacement x1 = (Ret e, x')" and "swapped"
      using rest by (auto simp: outcome_simps)
    have "session_ok x1" using assms(1) f(4) same_overlayD [OF f(3)] by (simp add: session_ok_def)
    from inv_write_facts [OF w this] obtain ns' r' where w':
      "registry_resolve (st_namespaces (fst (fst x1))) (iv_component (snd x1)) vis namespace True = Ret (ns', r')"
      "invocation_view x' = (invocation_view (fst x', snd x1)) (Address scope ns' key := replacement)"
      by blast
    have "iv_component (snd x1) = iv_component (snd x)"
      using inv_get_facts [OF g assms(1)] by metis
    then have "ns' = ns"
      using w'(1) ns by (auto simp: registry_resolve_def Let_def outcome_simps split: if_splits)
    moreover have "invocation_view (fst x', snd x1) = invocation_view (fst x', snd x)"
      using f(4) by (simp add: invocation_view_def)
    ultimately show ?thesis using w'(2) g f(1) True \<open>swapped\<close> by auto
  qed
qed

end
