(* ===== verification/State_Publish.thy ===== *)
theory State_Publish
  imports State_Overlay
begin

text \<open>
  Publication of a transaction's writes: \<open>published_from\<close> is the contract of \<open>commit_writes\<close>
  (values and revisions afterwards, everything else untouched), and \<open>versions_ok\<close> the invariant
  that ties the revisions of the store to those of the open databases.
\<close>

subsection \<open>Publishing\<close>

lemma publish_write_get:
  "bt_get (project_values (publish_write doc (a, v) p) doc' (addr_scope b) (addr_namespace b)) (addr_key b) =
    (if b = a \<and> (addr_scope a = ProjectScope \<or> addr_scope a = DocumentScope \<and> doc' = doc) then v
     else bt_get (project_values p doc' (addr_scope b) (addr_namespace b)) (addr_key b))"
proof -
  obtain sa na ka sb nb kb where ab: "a = Address sa na ka" "b = Address sb nb kb" by (cases a; cases b)
  show ?thesis
    by (cases sa; cases sb) (auto simp: ab publish_write_def project_values_def Let_def apply_overlay_def bt_get_or_def
        bt_get_insert bt_get_remove split: option.split)
qed

lemma publish_write_fields [simp]:
  "ps_persistent (publish_write doc w p) = ps_persistent p" "ps_revisions (publish_write doc w p) = ps_revisions p"
  by (auto simp: publish_write_def Let_def split: prod.split state_scope.split)

lemma publish_writes_fields [simp]:
  "ps_persistent (fold (publish_write doc) ws p) = ps_persistent p"
  "ps_revisions (fold (publish_write doc) ws p) = ps_revisions p"
  by (induction ws arbitrary: p) auto

lemma publish_writes_get:
  assumes "distinct (map fst ws)"
  shows "bt_get (project_values (fold (publish_write doc) ws p) doc' (addr_scope b) (addr_namespace b)) (addr_key b) =
    (case bt_get ws b of
       Some v \<Rightarrow> if addr_scope b = ProjectScope \<or> addr_scope b = DocumentScope \<and> doc' = doc then v
         else bt_get (project_values p doc' (addr_scope b) (addr_namespace b)) (addr_key b)
     | None \<Rightarrow> bt_get (project_values p doc' (addr_scope b) (addr_namespace b)) (addr_key b))"
  using assms
proof (induction ws arbitrary: p)
  case (Cons w ws)
  obtain a v where w: "w = (a, v)" by (cases w)
  have "bt_get ws a = None" using Cons.prems w by (auto simp: map_of_eq_None_iff)
  then show ?case
    using Cons.IH [of "publish_write doc (a, v) p"] Cons.prems publish_write_get [of doc a v p doc' b] w
    by (auto split: option.split)
qed simp

lemma publish_revision_fields [simp]:
  "ps_persistent (publish_revision key p) = ps_persistent p"
  "project_values (publish_revision key p) doc scope ns = project_values p doc scope ns"
  by (simp_all add: publish_revision_def Let_def project_values_def split: state_scope.split)

lemma publish_revisions_fields [simp]:
  "ps_persistent (fold publish_revision keys p) = ps_persistent p"
  "project_values (fold publish_revision keys p) doc scope ns = project_values p doc scope ns"
  by (induction keys arbitrary: p) auto

text \<open>The revision a touched namespace is published under.\<close>

definition next_revision :: "'d project_state \<Rightarrow> revision_key \<Rightarrow> nat" where
  "next_revision p key = (if rev_scope key = PersistentScope
     then (case ps_persistent p of None \<Rightarrow> 0 | Some pp \<Rightarrow> bt_get_or 0 (pp_revisions pp) (rev_namespace key))
     else sat_inc_u64 (bt_get_or 0 (ps_revisions p) key))"

lemma publish_revision_get:
  "bt_get_or 0 (ps_revisions (publish_revision key p)) k = (if k = key then next_revision p key else bt_get_or 0 (ps_revisions p) k)"
  by (simp add: publish_revision_def Let_def bt_get_or_def bt_get_insert next_revision_def)

lemma publish_revisions_get:
  assumes "distinct keys"
  shows "bt_get_or 0 (ps_revisions (fold publish_revision keys p)) k =
    (if k \<in> set keys then next_revision p k else bt_get_or 0 (ps_revisions p) k)"
  using assms
proof (induction keys arbitrary: p)
  case (Cons key keys)
  have "next_revision (publish_revision key p) k = next_revision p k" if "k \<noteq> key"
    using that publish_revision_get [of key p k] by (simp add: next_revision_def)
  then show ?case using Cons by (auto simp: publish_revision_get)
qed simp

lemma project_values_replace_persistent:
  "bt_get (project_values (p\<lparr>ps_persistent := Some pp\<rparr>) doc scope ns) key =
    (if scope = PersistentScope then val_at (pp_values pp) ns key else bt_get (project_values p doc scope ns) key)"
  by (cases scope) (simp_all add: project_values_def val_at_def bt_get_or_def split: option.split)

lemma commit_persistent_cases:
  assumes "commit_persistent env uri ws s = (r, s')"
  obtains (none) "ws = []" "r = Ret ()" "s' = s"
  | (refused) "r \<noteq> Ret ()" "reads_only s s'"
  | (committed) s1 pp pp' where "r = Ret ()" "ws \<noteq> []" "ensure_persistent env uri s = (Ret (), s1)" "ps_persistent (get_project s1 uri) = Some pp"
      "persistent_commit (env_redb env) ws (st_namespaces s1) pp = Ret pp'"
      "s' = put_project uri ((get_project s1 uri)\<lparr>ps_persistent := Some pp'\<rparr>) s1"
proof (cases "ws = []")
  case True
  then show thesis using none assms by (simp add: commit_persistent_def)
next
  case False
  obtain x s1 where e: "ensure_persistent env uri s = (x, s1)" by (cases "ensure_persistent env uri s")
  have ro: "reads_only s s1" using ensure_persistent_reads [OF e] by simp
  show thesis
  proof (cases x)
    case (Ret u)
    have x: "ensure_persistent env uri s = (Ret (), s1)" using e Ret by simp
    show thesis
    proof (cases "Option.bind (bt_get (st_projects s1) uri) ps_persistent")
      case None
      then have "r = Panic" "s' = s1" using assms False x by (simp_all add: commit_persistent_def abind_def)
      then show thesis using ro refused by simp
    next
      case (Some pp)
      then have pp: "ps_persistent (get_project s1 uri) = Some pp"
        by (auto simp: get_project_def bt_get_or_def bind_eq_Some_conv)
      show thesis
      proof (cases "persistent_commit (env_redb env) ws (st_namespaces s1) pp")
        case (Ret pp')
        then show thesis using committed [OF _ False x pp Ret] assms False x Some
          by (simp add: commit_persistent_def abind_def)
      qed (use refused ro assms False x Some in \<open>auto simp: commit_persistent_def abind_def\<close>)
    qed
  qed (use refused ro assms False e in \<open>auto simp: commit_persistent_def abind_def\<close>)
qed

lemma commit_values:
  assumes "persistent_commit env ws records pp = Ret pp'"
  shows "pp_values pp' = fold overlay_values ws (pp_values pp)"
    and "pp_revisions pp' = fold bump_revision (bt_set_of (map (addr_namespace \<circ> fst) ws)) (pp_revisions pp)"
  using assms by (auto simp: persistent_commit_def Let_def outcome_simps)

text \<open>
  A successful publication, seen from the store \<open>s1\<close> it starts from once the database is open.
\<close>

definition published_from ::
    "str \<Rightarrow> str \<Rightarrow> (address, state_value option) btree \<Rightarrow> 'd store_state \<Rightarrow> 'd store_state \<Rightarrow> bool" where
  "published_from uri doc ws s1 s' \<longleftrightarrow>
     st_quotas s' = st_quotas s1 \<and> st_namespaces s' = st_namespaces s1 \<and> st_latest s' = st_latest s1 \<and>
     st_data_directory s' = st_data_directory s1 \<and>
     (\<forall>u. u \<noteq> uri \<longrightarrow> get_project s' u = get_project s1 u) \<and>
     (\<forall>scope. settled s' uri scope = settled s1 uri scope) \<and>
     (\<forall>doc' a. committed_value s' uri doc' a =
        (if published a \<and> (addr_scope a = DocumentScope \<longrightarrow> doc' = doc) then overlaid ws (committed_value s1 uri doc') a
         else committed_value s1 uri doc' a)) \<and>
     (\<forall>scope ns. committed_revision_of s' uri (RevisionKey scope ns) =
        (if \<exists>a \<in> fst ` set ws. published a \<and> addr_scope a = scope \<and> addr_namespace a = ns
         then (if scope = PersistentScope
               then (case ps_persistent (get_project s1 uri) of None \<Rightarrow> 0 | Some pp \<Rightarrow> sat_inc_u64 (bt_get_or 0 (pp_revisions pp) ns))
               else sat_inc_u64 (committed_revision_of s1 uri (RevisionKey scope ns)))
         else committed_revision_of s1 uri (RevisionKey scope ns)))"

lemma bt_get_filter:
  "distinct (map fst m) \<Longrightarrow> bt_get (filter (P \<circ> fst) m) k = (if P k then bt_get m k else None)"
  by (induction m) (auto simp: map_of_eq_None_iff dest: map_of_SomeD)


lemma publish_project_persistent [simp]: "ps_persistent (publish_project doc ws p) = ps_persistent p"
  by (simp add: publish_project_def Let_def)

lemma publish_project_get:
  assumes "bt_ok ws"
  shows "bt_get (project_values (publish_project doc ws p) doc' (addr_scope a) (addr_namespace a)) (addr_key a) =
    (case bt_get ws a of
       Some v \<Rightarrow> if addr_scope a = ProjectScope \<or> addr_scope a = DocumentScope \<and> doc' = doc then v
         else bt_get (project_values p doc' (addr_scope a) (addr_namespace a)) (addr_key a)
     | None \<Rightarrow> bt_get (project_values p doc' (addr_scope a) (addr_namespace a)) (addr_key a))"
proof -
  have "distinct (map fst (filter (published \<circ> fst) ws))"
    using bt_ok_distinct [OF bt_ok_filter [OF assms]] .
  note g = publish_writes_get [OF this, of doc p doc' a]
  have "bt_get (filter (published \<circ> fst) ws) a = (if published a then bt_get ws a else None)"
    by (rule bt_get_filter [OF bt_ok_distinct [OF assms]])
  then show ?thesis
    using g by (cases "addr_scope a") (auto simp: publish_project_def Let_def published_def split: option.split)
qed

lemma publish_project_lookup:
  assumes "bt_ok ws"
  shows "bt_get (project_values (publish_project doc ws p) doc' scope ns) key =
    (case bt_get ws (Address scope ns key) of
       Some v \<Rightarrow> if scope = ProjectScope \<or> scope = DocumentScope \<and> doc' = doc then v
         else bt_get (project_values p doc' scope ns) key
     | None \<Rightarrow> bt_get (project_values p doc' scope ns) key)"
  using publish_project_get [OF assms, of doc p doc' "Address scope ns key"] unfolding address.sel .

lemma publish_project_revision:
  "bt_get_or 0 (ps_revisions (publish_project doc ws p)) (RevisionKey scope ns) =
    (if \<exists>a \<in> fst ` set ws. published a \<and> addr_scope a = scope \<and> addr_namespace a = ns
     then next_revision p (RevisionKey scope ns) else bt_get_or 0 (ps_revisions p) (RevisionKey scope ns))"
proof -
  let ?touched = "bt_set_of (map (address_revision_key \<circ> fst) (filter (published \<circ> fst) ws))"
  have "RevisionKey scope ns \<in> set ?touched \<longleftrightarrow>
      (\<exists>a \<in> fst ` set ws. published a \<and> addr_scope a = scope \<and> addr_namespace a = ns)"
    by (force simp: address_revision_key_def)
  then show ?thesis
    using publish_revisions_get [OF set_bt_set_of(2), of "map (address_revision_key \<circ> fst) (filter (published \<circ> fst) ws)"
        "fold (publish_write doc) (filter (published \<circ> fst) ws) p" "RevisionKey scope ns"]
    by (auto simp: publish_project_def Let_def next_revision_def simp del: set_bt_set_of(1))
qed

lemma commit_writes_Ret:
  assumes "commit_writes env uri doc ws s = (Ret n, s')" and "bt_ok ws"
  obtains s1 where "reads_only s s1" and "published_from uri doc ws s1 s'"
    and "\<forall>a \<in> fst ` set ws. settled s1 uri (addr_scope a)" and "n = min (length (filter (published \<circ> fst) ws)) usize_max"
    and "s1 = s \<or> ensure_persistent env uri s = (Ret (), s1)"
proof -
  have d: "distinct (map fst ws)" using bt_ok_distinct [OF assms(2)] .
  let ?pw = "filter is_persistent_write ws"
  obtain s2 where c: "commit_persistent env uri ?pw s = (Ret (), s2)"
    and s': "s' = put_project uri (publish_project doc ws (get_project s2 uri)) s2"
    and n: "n = min (length (filter (published \<circ> fst) ws)) usize_max"
    using assms(1) by (auto simp: commit_writes_def outcome_simps)
  note pub = publish_project_lookup [OF assms(2)] publish_project_revision
  show thesis
    using c
  proof (cases rule: commit_persistent_cases)
    case none
    have np: "addr_scope a \<noteq> PersistentScope" if "a \<in> fst ` set ws" for a
      using none(1) that by (auto simp: filter_empty_conv is_persistent_write_def)
    then have "bt_get ws a = None" if "addr_scope a = PersistentScope" for a
      using that by (auto simp: map_of_eq_None_iff)
    then have "committed_value s' uri doc' a =
        (if published a \<and> (addr_scope a = DocumentScope \<longrightarrow> doc' = doc) then overlaid ws (committed_value s uri doc') a
         else committed_value s uri doc' a)" for doc' a
    proof (cases a)
      case (Address sc ns key)
      then show ?thesis using none(3) \<open>\<And>a. addr_scope a = PersistentScope \<Longrightarrow> bt_get ws a = None\<close>
        by (cases sc) (auto simp: committed_value_def s' pub overlaid_def published_def split: option.split)
    qed
    then have "published_from uri doc ws s s'"
      using none(3) np
      by (auto simp: published_from_def s' settled_def committed_revision_of_def pub(2) next_revision_def)
    then show thesis using that [of s] np n by (auto simp: settled_def)
  next
    case (committed s1 pp pp')
    note v = commit_values [OF committed(5)]
    have dp: "distinct (map fst ?pw)" using bt_ok_distinct [OF bt_ok_filter [OF assms(2)]] .
    have pw: "bt_get ?pw a = (if addr_scope a = PersistentScope then bt_get ws a else None)" for a
      using bt_get_filter [OF d, of "\<lambda>a. addr_scope a = PersistentScope" a] by (simp add: comp_def is_persistent_write_def [abs_def])
    have vals: "val_at (pp_values pp') ns key = (case bt_get ws (Address PersistentScope ns key) of
        Some v \<Rightarrow> v | None \<Rightarrow> val_at (pp_values pp) ns key)" for ns key
      using val_at_overlay_fold [OF dp, of "pp_values pp" ns key] pw v(1) by (simp add: is_persistent_write_def)
    have revs: "bt_get_or 0 (pp_revisions pp') ns = (if \<exists>a \<in> fst ` set ws. addr_scope a = PersistentScope \<and> addr_namespace a = ns
        then sat_inc_u64 (bt_get_or 0 (pp_revisions pp) ns) else bt_get_or 0 (pp_revisions pp) ns)" for ns
      using bt_get_bump_fold [OF set_bt_set_of(2), of "map (addr_namespace \<circ> fst) ?pw" "pp_revisions pp" ns] v(2)
      by (auto simp: bt_get_or_def is_persistent_write_def)
    let ?p = "get_project s1 uri"
    have get: "get_project s' u = (if u = uri then publish_project doc ws (?p\<lparr>ps_persistent := Some pp'\<rparr>) else get_project s1 u)" for u
      using committed(6) s' by simp
    have before: "val_at (pp_values pp) ns key = bt_get (project_values ?p doc' PersistentScope ns) key" for ns key doc'
      using committed(4) by (auto simp: project_values_def val_at_def bt_get_or_def split: option.split)
    have "committed_value s' uri doc' a =
        (if published a \<and> (addr_scope a = DocumentScope \<longrightarrow> doc' = doc) then overlaid ws (committed_value s1 uri doc') a
         else committed_value s1 uri doc' a)" for doc' a
    proof (cases a)
      case (Address sc ns key)
      then show ?thesis using vals [of ns key] before [of ns key doc']
        by (cases sc) (simp_all add: committed_value_def get pub project_values_replace_persistent overlaid_def
          published_def split: option.split)
    qed
    moreover have "committed_revision_of s' uri (RevisionKey scope ns) =
        (if \<exists>a \<in> fst ` set ws. published a \<and> addr_scope a = scope \<and> addr_namespace a = ns
         then (if scope = PersistentScope
               then (case ps_persistent ?p of None \<Rightarrow> 0 | Some pp \<Rightarrow> sat_inc_u64 (bt_get_or 0 (pp_revisions pp) ns))
               else sat_inc_u64 (committed_revision_of s1 uri (RevisionKey scope ns)))
         else committed_revision_of s1 uri (RevisionKey scope ns))" for scope ns
    proof (cases "scope = PersistentScope")
      case True
      then have "(\<exists>a \<in> fst ` set ws. published a \<and> addr_scope a = scope \<and> addr_namespace a = ns) \<longleftrightarrow>
          (\<exists>a \<in> fst ` set ws. addr_scope a = PersistentScope \<and> addr_namespace a = ns)"
        by (intro bex_cong) (auto simp: published_def)
      then show ?thesis
        using revs [of ns] committed(4) True by (auto simp: committed_revision_of_def get pub(2) next_revision_def)
    qed (auto simp: committed_revision_of_def get pub(2) next_revision_def)
    moreover have "settled s' uri scope = settled s1 uri scope" for scope
      using committed(4) by (simp add: settled_def get)
    ultimately have "published_from uri doc ws s1 s'"
      using s' committed(6) get by (simp add: published_from_def)
    moreover have "settled s1 uri scope" for scope using committed(4) by (simp add: settled_def)
    moreover have "reads_only s s1" using ensure_persistent_reads [OF committed(3)] by simp
    ultimately show thesis using that n committed(3) by blast
  qed auto
qed

lemma commit_writes_refused:
  assumes "commit_writes env uri doc ws s = (r, s')" and "\<forall>n. r \<noteq> Ret n"
  shows "reads_only s s'"
proof -
  obtain x s1 where c: "commit_persistent env uri (filter is_persistent_write ws) s = (x, s1)"
    by (metis prod.collapse)
  have x: "x \<noteq> Ret ()" "s' = s1"
    using assms c by (auto simp: commit_writes_def abind_def split: outcome.splits)
  from c show ?thesis by (cases rule: commit_persistent_cases) (use x in auto)
qed

subsection \<open>Revisions of an opened database\<close>

definition revisions_bounded :: "('k, nat) btree \<Rightarrow> bool" where
  "revisions_bounded m \<longleftrightarrow> (\<forall>n \<in> snd ` set m. n \<le> u64_max)"

lemma set_bt_insert_sub: "set (bt_insert k v m) \<subseteq> insert (k, v) (set m)"
  by (induction k v m rule: bt_insert.induct) auto

lemma revisions_bounded_insert: "revisions_bounded m \<Longrightarrow> n \<le> u64_max \<Longrightarrow> revisions_bounded (bt_insert k n m)"
  using set_bt_insert_sub [of k n m] by (auto simp: revisions_bounded_def)

lemma revisions_bounded_get: "revisions_bounded m \<Longrightarrow> bt_get_or 0 m k \<le> u64_max"
  by (fastforce simp: revisions_bounded_def bt_get_or_def dest: map_of_SomeD split: option.split)

lemma read_metadata_bounded:
  assumes "read_metadata env d = Ret m" and "(ns, md) \<in> set m"
  shows "md_revision md \<le> u64_max"
proof -
  obtain es where "try_for (\<lambda>(key, v) m. obind (decode_namespace_exact key) (\<lambda>ns.
       obind (decode_metadata v) (\<lambda>md. Ret (bt_insert ns md m)))) es [] = Ret m"
    using assms(1) by (auto simp: read_metadata_def outcome_simps)
  then have "\<forall>(ns, md) \<in> set m. md_revision md \<le> u64_max"
  proof (rule try_for_invariant)
    fix e t t'
    assume t: "\<forall>(ns, md) \<in> set t. md_revision md \<le> u64_max"
      and step: "(case e of (key, v) \<Rightarrow> \<lambda>m. obind (decode_namespace_exact key) (\<lambda>ns.
        obind (decode_metadata v) (\<lambda>md. Ret (bt_insert ns md m)))) t = Ret t'"
    then obtain ns md v where i: "t' = bt_insert ns md t" "decode_metadata v = Ret md"
      by (auto simp: outcome_simps split: prod.splits)
    have "md_revision md \<le> u64_max" using decode_metadata_revision [OF i(2)] by (simp add: u64_max_def)
    then show "\<forall>(ns, md) \<in> set t'. md_revision md \<le> u64_max"
      using t set_bt_insert_sub [of ns md t] i(1) by fastforce
  qed simp
  then show ?thesis using assms(2) by auto
qed

lemma matching_revisions_ok:
  assumes "\<forall>(ns, md) \<in> set m. md_revision md \<le> u64_max"
  shows "bt_ok (matching_revisions m records) \<and> revisions_bounded (matching_revisions m records)"
proof -
  define step where "step = (\<lambda>(ns, r :: namespace_record) revs. case bt_get m ns of
         None \<Rightarrow> revs
       | Some stored \<Rightarrow> if schema_matches stored (rec_declaration r)
           then bt_insert ns (md_revision stored) revs else revs)"
  have one: "bt_ok (step x revs) \<and> revisions_bounded (step x revs)" if revs: "bt_ok revs \<and> revisions_bounded revs" for x revs
  proof -
    obtain ns r where x: "x = (ns, r)" by (cases x)
    have "md_revision md \<le> u64_max" if "bt_get m ns = Some md" for md
      using assms map_of_SomeD [OF that] by auto
    then show ?thesis using revs revisions_bounded_insert by (auto simp: step_def x split: option.split)
  qed
  have "bt_ok (fold step rs revs) \<and> revisions_bounded (fold step rs revs)"
    if "bt_ok revs \<and> revisions_bounded revs" for rs revs
    using that by (induction rs arbitrary: revs) (auto simp: one)
  from this [of "[]" records] show ?thesis
    by (simp add: matching_revisions_def step_def revisions_bounded_def)
qed

lemma persistent_open_revisions:
  assumes "persistent_open env path records = Ret p"
  shows "bt_ok (pp_revisions p) \<and> revisions_bounded (pp_revisions p)"
proof -
  obtain d where "synchronize env records \<lparr>pp_database = d, pp_values = [], pp_revisions = []\<rparr> = (Ret (), p)"
    using persistent_open_Ret [OF assms] by blast
  then obtain d' where "reload env records \<lparr>pp_database = d', pp_values = [], pp_revisions = []\<rparr> = (Ret (), p)"
    by (auto simp: synchronize_def split: outcome.splits)
  then obtain md where "read_metadata env d' = Ret md" "pp_revisions p = matching_revisions md records"
    by (auto simp: reload_def Let_def split: outcome.splits prod.splits)
  then show ?thesis using matching_revisions_ok read_metadata_bounded by fastforce
qed

subsection \<open>Versions\<close>

text \<open>
  The revisions of the store against those of the open databases: equal or behind for a namespace
  of the persistent scope, and zero before the database is open.
\<close>

definition project_versions_ok :: "'d project_state \<Rightarrow> bool" where
  "project_versions_ok p \<longleftrightarrow> (\<forall>key. bt_get_or 0 (ps_revisions p) key \<le> u64_max) \<and>
     (ps_persistent p = None \<longrightarrow> (\<forall>ns. bt_get_or 0 (ps_revisions p) (RevisionKey PersistentScope ns) = 0)) \<and>
     (\<forall>pp. ps_persistent p = Some pp \<longrightarrow> (\<forall>ns.
        bt_get_or 0 (ps_revisions p) (RevisionKey PersistentScope ns) \<le> bt_get_or 0 (pp_revisions pp) ns \<and>
        bt_get_or 0 (pp_revisions pp) ns \<le> u64_max))"

definition versions_ok :: "'d store_state \<Rightarrow> bool" where
  "versions_ok s \<longleftrightarrow> (\<forall>uri. project_versions_ok (get_project s uri))"

lemma versions_ok_put:
  "versions_ok s \<Longrightarrow> project_versions_ok p \<Longrightarrow> versions_ok (put_project uri p s)"
  by (simp add: versions_ok_def)

lemma versions_ok_visit [simp]: "versions_ok (put_project uri (get_project s uri) s) = versions_ok s"
  by (auto simp: versions_ok_def)

lemma fold_insert_persistent_get:
  assumes "bt_ok xs"
  shows "bt_get (fold (\<lambda>(ns, r). bt_insert (RevisionKey PersistentScope ns) r) xs m) (RevisionKey PersistentScope ns) =
    (case bt_get xs ns of Some r \<Rightarrow> Some r | None \<Rightarrow> bt_get m (RevisionKey PersistentScope ns))"
proof -
  have "bt_get (fold (\<lambda>(ns, r). bt_insert (RevisionKey PersistentScope ns) r) xs m) (RevisionKey PersistentScope ns) =
    (case bt_get xs ns of Some r \<Rightarrow> Some r | None \<Rightarrow> bt_get m (RevisionKey PersistentScope ns))"
    if "distinct (map fst xs)" for xs
    using that
  proof (induction xs arbitrary: m)
    case (Cons x xs)
    obtain k r where x: "x = (k, r)" by (cases x)
    have "bt_get xs k = None" using Cons.prems x by (auto simp: map_of_eq_None_iff)
    then show ?case using Cons x by (auto simp: bt_get_insert split: option.split)
  qed simp
  then show ?thesis using bt_ok_distinct [OF assms] by blast
qed

lemma ensure_persistent_versions:
  assumes "versions_ok s" and "ensure_persistent env uri s = (r, s')"
  shows "versions_ok s'"
proof -
  let ?p = "get_project s uri"
  show ?thesis
  proof (cases "ps_persistent ?p")
    case (Some pp)
    then show ?thesis using assms by (auto simp: ensure_persistent_def Let_def)
  next
    case None
    show ?thesis
    proof (cases "persistent_open (env_redb env) (env_database_path env (st_data_directory s) uri) (st_namespaces s)")
      case (Ret pp)
      note open_ok = persistent_open_revisions [OF Ret]
      let ?revs = "fold (\<lambda>(ns, r). bt_insert (RevisionKey PersistentScope ns) r) (pp_revisions pp) (ps_revisions ?p)"
      let ?q = "?p\<lparr>ps_revisions := ?revs, ps_persistent := Some pp\<rparr>"
      have s': "s' = put_project uri ?q (put_project uri ?p s)"
        using assms None Ret by (simp add: ensure_persistent_def Let_def)
      have p: "project_versions_ok ?p" using assms(1) by (simp add: versions_ok_def)
      then have zero: "bt_get_or 0 (ps_revisions ?p) (RevisionKey PersistentScope ns) = 0" for ns
        using None by (simp add: project_versions_ok_def)
      have rev: "bt_get_or 0 ?revs (RevisionKey PersistentScope ns) = bt_get_or 0 (pp_revisions pp) ns" for ns
        using zero [of ns] fold_insert_persistent_get [of "pp_revisions pp" "ps_revisions ?p" ns] open_ok
        by (auto simp: bt_get_or_def split: option.splits)
      have bound: "bt_get_or 0 (pp_revisions pp) ns \<le> u64_max" for ns
        using open_ok revisions_bounded_get [of "pp_revisions pp" ns] by simp
      have "bt_get_or 0 ?revs key \<le> u64_max" for key
      proof (cases key)
        case (RevisionKey scope ns)
        show ?thesis
        proof (cases "scope = PersistentScope")
          case False
          then have "bt_get_or 0 ?revs key = bt_get_or 0 (ps_revisions ?p) key"
            using RevisionKey by (simp add: bt_get_or_def get_insert_persistent [OF False])
          then show ?thesis using p by (simp add: project_versions_ok_def)
        qed (use rev bound RevisionKey in simp)
      qed
      then have "project_versions_ok ?q" using rev bound by (simp add: project_versions_ok_def)
      then show ?thesis using assms(1) by (simp add: s' versions_ok_put)
    qed (use assms None in \<open>auto simp: ensure_persistent_def Let_def\<close>)
  qed
qed

end
