(* ===== verification/State_History.thy ===== *)
theory State_History
  imports State_Publish
begin

text \<open>
  Histories of the store as a step relation: along any history a namespace whose revision has not moved holds what it
  held (\<open>advances\<close>), and the latest revision of a document never goes back.  From this follow the
  properties of committing a parse transaction.
\<close>

lemma ensure_scope_versions:
  "versions_ok s \<Longrightarrow> ensure_scope env uri scope s = (r, s') \<Longrightarrow> versions_ok s'"
  using ensure_persistent_versions by (auto simp: ensure_scope_def split: if_splits)

lemma committed_namespace_versions:
  assumes "versions_ok s" and "committed_namespace env uri doc scope ns s = (r, s')"
  shows "versions_ok s'"
proof -
  obtain x s1 where e: "ensure_scope env uri scope s = (x, s1)" by (cases "ensure_scope env uri scope s")
  show ?thesis
    using assms(2) ensure_scope_versions [OF assms(1) e] e
    by (cases x) (auto simp: committed_namespace_def abind_def Let_def)
qed

lemma committed_revision_versions:
  assumes "versions_ok s" and "committed_revision env uri key s = (r, s')"
  shows "versions_ok s'"
proof -
  obtain x s1 where e: "ensure_scope env uri (rev_scope key) s = (x, s1)" by (cases "ensure_scope env uri (rev_scope key) s")
  show ?thesis
    using assms(2) ensure_scope_versions [OF assms(1) e] e
    by (cases x) (auto simp: committed_revision_def abind_def Let_def)
qed

lemma publish_project_versions:
  assumes "project_versions_ok p"
    and "\<And>pp ns. ps_persistent p = Some pp \<Longrightarrow> bt_get_or 0 (pp_revisions pp) ns \<le> u64_max"
  shows "project_versions_ok (publish_project doc ws p)"
proof -
  have bound: "bt_get_or 0 (ps_revisions (publish_project doc ws p)) key \<le> u64_max" for key
  proof (cases key)
    case (RevisionKey scope ns)
    have "next_revision p key \<le> u64_max"
      using assms(2) by (auto simp: next_revision_def split: option.split)
    then show ?thesis
      using assms(1) RevisionKey publish_project_revision [of doc ws p scope ns] by (auto simp: project_versions_ok_def)
  qed
  have "bt_get_or 0 (ps_revisions (publish_project doc ws p)) (RevisionKey PersistentScope ns) = 0"
    if "ps_persistent p = None" for ns
    using that assms(1) publish_project_revision [of doc ws p PersistentScope ns]
    by (auto simp: project_versions_ok_def next_revision_def)
  moreover have "bt_get_or 0 (ps_revisions (publish_project doc ws p)) (RevisionKey PersistentScope ns) \<le> bt_get_or 0 (pp_revisions pp) ns"
    if "ps_persistent p = Some pp" for pp ns
    using that assms(1) publish_project_revision [of doc ws p PersistentScope ns]
    by (auto simp: project_versions_ok_def next_revision_def)
  ultimately show ?thesis using bound assms(2) by (simp add: project_versions_ok_def)
qed

lemma persistent_commit_versions:
  assumes "persistent_commit env ws records pp = Ret pp'" and "\<And>ns. bt_get_or 0 (pp_revisions pp) ns \<le> u64_max"
  shows "bt_get_or 0 (pp_revisions pp) ns \<le> bt_get_or 0 (pp_revisions pp') ns" "bt_get_or 0 (pp_revisions pp') ns \<le> u64_max"
  using bt_get_bump_fold [OF set_bt_set_of(2), of "map (addr_namespace \<circ> fst) ws" "pp_revisions pp" ns]
    commit_values(2) [OF assms(1)] assms(2) [of ns] sat_inc_u64_le [of "bt_get_or 0 (pp_revisions pp) ns"]
  by (auto simp: bt_get_or_def split: if_splits option.splits)

lemma commit_persistent_versions:
  assumes "versions_ok s" and "commit_persistent env uri ws s = (r, s')"
  shows "versions_ok s'"
proof (cases "ws = []")
  case True
  then show ?thesis using assms by (simp add: commit_persistent_def)
next
  case False
  obtain x s1 where e: "ensure_persistent env uri s = (x, s1)" by (cases "ensure_persistent env uri s")
  have s1: "versions_ok s1" by (rule ensure_persistent_versions [OF assms(1) e])
  from assms(2) have "s' = s1 \<or> (\<exists>pp pp'. ps_persistent (get_project s1 uri) = Some pp \<and>
      persistent_commit (env_redb env) ws (st_namespaces s1) pp = Ret pp' \<and>
      s' = put_project uri ((get_project s1 uri)\<lparr>ps_persistent := Some pp'\<rparr>) s1)"
    using False e
    by (auto simp: commit_persistent_def abind_def get_project_def bt_get_or_def bind_eq_Some_conv
        split: outcome.splits option.splits)
  then show ?thesis
  proof (elim disjE exE conjE)
    fix pp pp'
    assume pp: "ps_persistent (get_project s1 uri) = Some pp"
      and c: "persistent_commit (env_redb env) ws (st_namespaces s1) pp = Ret pp'"
      and s': "s' = put_project uri ((get_project s1 uri)\<lparr>ps_persistent := Some pp'\<rparr>) s1"
    have p: "project_versions_ok (get_project s1 uri)" using s1 by (simp add: versions_ok_def)
    then have b: "bt_get_or 0 (pp_revisions pp) ns \<le> u64_max" for ns using pp by (simp add: project_versions_ok_def)
    note v = persistent_commit_versions [OF c b]
    have "project_versions_ok ((get_project s1 uri)\<lparr>ps_persistent := Some pp'\<rparr>)"
      using p pp v by (auto simp: project_versions_ok_def intro: order_trans)
    then show ?thesis using s1 by (simp add: s' versions_ok_put)
  qed (use s1 in simp)
qed

lemma commit_writes_versions:
  assumes "versions_ok s" and "commit_writes env uri doc ws s = (r, s')"
  shows "versions_ok s'"
proof -
  obtain x s1 where c: "commit_persistent env uri (filter is_persistent_write ws) s = (x, s1)" by (metis prod.collapse)
  have s1: "versions_ok s1" by (rule commit_persistent_versions [OF assms(1) c])
  then have "project_versions_ok (publish_project doc ws (get_project s1 uri))"
    by (intro publish_project_versions) (auto simp: versions_ok_def project_versions_ok_def)
  then show ?thesis
    using assms(2) c s1 by (cases x) (auto simp: commit_writes_def abind_def versions_ok_put)
qed

subsection \<open>Histories of the store\<close>

text \<open>
  The steps of the store between registrations of components: the reads that invocations and
  transactions make under its lock, the start of a transaction, and a publication.
\<close>

inductive store_step :: "'d store_env \<Rightarrow> 'd store_state \<Rightarrow> 'd store_state \<Rightarrow> bool" for env where
  read_namespace: "committed_namespace env uri doc scope ns s = (r, s') \<Longrightarrow> store_step env s s'"
| read_revision: "committed_revision env uri key s = (r', s') \<Longrightarrow> store_step env s s'"
| started: "begin_parse env tid uri doc n s = (r'', s') \<Longrightarrow> store_step env s s'"
| publish: "bt_ok ws \<Longrightarrow> commit_writes env uri doc ws s = (r''', s') \<Longrightarrow> store_step env s s'"

abbreviation store_steps :: "'d store_env \<Rightarrow> 'd store_state \<Rightarrow> 'd store_state \<Rightarrow> bool" where
  "store_steps env \<equiv> (store_step env)\<^sup>*\<^sup>*"

text \<open>
  A namespace whose revision is unchanged (and not saturated) holds what it held.
\<close>

definition advances :: "'d store_state \<Rightarrow> 'd store_state \<Rightarrow> bool" where
  "advances s s' \<longleftrightarrow> (\<forall>uri scope. settled s uri scope \<longrightarrow> settled s' uri scope \<and> (\<forall>ns.
     committed_revision_of s uri (RevisionKey scope ns) \<le> committed_revision_of s' uri (RevisionKey scope ns) \<and>
     (committed_revision_of s' uri (RevisionKey scope ns) = committed_revision_of s uri (RevisionKey scope ns) \<longrightarrow>
      committed_revision_of s uri (RevisionKey scope ns) < u64_max \<longrightarrow>
      (\<forall>doc key. committed_value s' uri doc (Address scope ns key) = committed_value s uri doc (Address scope ns key)))))"

lemma advances_trans:
  assumes "advances s u" and "advances u v"
  shows "advances s v"
  unfolding advances_def
proof (intro allI impI conjI)
  fix uri scope assume st: "settled s uri scope"
  then have su: "settled u uri scope" using assms(1) by (simp add: advances_def)
  then show "settled v uri scope" using assms(2) by (simp add: advances_def)
  fix ns
  let ?r = "\<lambda>s. committed_revision_of s uri (RevisionKey scope ns)"
  have le: "?r s \<le> ?r u" "?r u \<le> ?r v" using assms st su by (simp_all add: advances_def)
  then show "?r s \<le> ?r v" by simp
  assume eq: "?r v = ?r s" and less: "?r s < u64_max"
  with le have "?r u = ?r s" "?r v = ?r u" by simp_all
  then show "committed_value v uri doc (Address scope ns key) = committed_value s uri doc (Address scope ns key)" for doc key
    using assms st su less by (simp add: advances_def)
qed

lemma reads_only_advances: "reads_only s s' \<Longrightarrow> advances s s'"
  by (simp add: reads_only_def advances_def committed_value_def)

lemma published_advances:
  assumes "published_from uri doc ws s s'" and "versions_ok s"
  shows "advances s s'"
  unfolding advances_def
proof (intro allI impI conjI)
  fix u scope assume st: "settled s u scope"
  have pub: "\<forall>u. u \<noteq> uri \<longrightarrow> get_project s' u = get_project s u" "\<forall>scope. settled s' uri scope = settled s uri scope"
    using assms(1) by (simp_all add: published_from_def)
  then show "settled s' u scope" using st by (cases "u = uri") (simp_all add: settled_def)
  fix ns
  let ?r = "\<lambda>s. committed_revision_of s u (RevisionKey scope ns)"
  define touched where "touched \<longleftrightarrow> (\<exists>a \<in> fst ` set ws. published a \<and> addr_scope a = scope \<and> addr_namespace a = ns)"
  have vo: "project_versions_ok (get_project s u)" using assms(2) by (simp add: versions_ok_def)
  have rev: "?r s' = (if u = uri \<and> touched then (if scope = PersistentScope
               then (case ps_persistent (get_project s uri) of None \<Rightarrow> 0 | Some pp \<Rightarrow> sat_inc_u64 (bt_get_or 0 (pp_revisions pp) ns))
               else sat_inc_u64 (?r s)) else ?r s)"
  proof (cases "u = uri")
    case True
    then show ?thesis using assms(1) unfolding published_from_def touched_def by meson
  qed (use pub(1) in \<open>simp add: committed_revision_of_def\<close>)
  have bound: "?r s \<le> u64_max" using vo by (simp add: project_versions_ok_def committed_revision_of_def)
  have grow: "?r s \<le> ?r s' \<and> (touched \<and> u = uri \<and> ?r s < u64_max \<longrightarrow> ?r s < ?r s')"
  proof (cases "u = uri \<and> touched \<and> scope = PersistentScope")
    case True
    then obtain pp where pp: "ps_persistent (get_project s uri) = Some pp" using st by (auto simp: settled_def)
    then have "?r s \<le> bt_get_or 0 (pp_revisions pp) ns" "bt_get_or 0 (pp_revisions pp) ns \<le> u64_max"
      using vo True by (simp_all add: project_versions_ok_def committed_revision_of_def)
    moreover have "?r s' = sat_inc_u64 (bt_get_or 0 (pp_revisions pp) ns)" using rev True pp by simp
    ultimately show ?thesis by (auto simp: sat_inc_u64_def)
  qed (use rev bound in \<open>auto simp: sat_inc_u64_def\<close>)
  then show "?r s \<le> ?r s'" by simp
  assume eq: "?r s' = ?r s" and less: "?r s < u64_max"
  then have untouched: "u = uri \<longrightarrow> \<not> touched" using grow by auto
  fix doc' key
  show "committed_value s' u doc' (Address scope ns key) = committed_value s u doc' (Address scope ns key)"
  proof (cases "u = uri")
    case True
    have "bt_get ws (Address scope ns key) = None" if "published (Address scope ns key)"
      using untouched True that unfolding touched_def by (force simp: map_of_eq_None_iff)
    then show ?thesis using assms(1) True by (simp add: published_from_def overlaid_def)
  qed (use pub(1) in \<open>simp add: committed_value_def\<close>)
qed

lemma begin_parse_store:
  fixes s :: "'d store_state"
  assumes "begin_parse env tid uri doc n s = (r, s')"
  shows "get_project s' u = get_project s u"
    and "bt_get (st_latest s) k = Some m \<Longrightarrow> \<exists>m' \<ge> m. bt_get (st_latest s') k = Some m'"
proof -
  have "s' = s \<or> (\<exists>p. s' = s\<lparr>st_latest := bt_insert (p, doc) (max (bt_get_or n (st_latest s) (p, doc)) n) (st_latest s),
            st_projects := bt_entry_or p empty_project (st_projects s)\<rparr>)"
    using assms by (auto simp: begin_parse_def split: outcome.splits)
  moreover have "bt_get_or empty_project (bt_entry_or p empty_project m) u = bt_get_or empty_project m u"
    for p and m :: "(str, 'd project_state) btree"
    by (simp add: bt_get_or_def bt_entry_or_def bt_contains_def bt_get_insert split: option.split)
  ultimately show "get_project s' u = get_project s u"
    and "bt_get (st_latest s) k = Some m \<Longrightarrow> \<exists>m' \<ge> m. bt_get (st_latest s') k = Some m'"
    by (auto simp: get_project_def bt_get_or_def [of n] bt_get_insert)
qed

lemma store_step_advances:
  assumes "store_step env s s'" and "versions_ok s"
  shows "versions_ok s' \<and> advances s s'"
  using assms(1)
proof cases
  case (read_namespace uri doc scope ns r)
  then show ?thesis
    using assms(2) committed_namespace_versions committed_namespace_reads reads_only_advances by blast
next
  case (read_revision uri key r)
  then show ?thesis
    using assms(2) committed_revision_versions committed_revision_reads reads_only_advances by blast
next
  case (started tid uri doc n r)
  note g = begin_parse_store(1) [OF started]
  then show ?thesis
    using assms(2) by (simp add: versions_ok_def advances_def settled_def committed_revision_of_def committed_value_def)
next
  case (publish ws uri doc r)
  have "advances s s'"
  proof (cases r)
    case (Ret n)
    obtain s1 where s1: "reads_only s s1" "published_from uri doc ws s1 s'" "s1 = s \<or> ensure_persistent env uri s = (Ret (), s1)"
      using commit_writes_Ret [of env uri doc ws s n s'] publish Ret by blast
    then have "versions_ok s1" using assms(2) ensure_persistent_versions by blast
    then show ?thesis
      using s1 published_advances advances_trans reads_only_advances by blast
  next
    case (Fail e)
    then show ?thesis using commit_writes_refused [OF publish(2)] reads_only_advances by simp
  next
    case Panic
    then show ?thesis using commit_writes_refused [OF publish(2)] reads_only_advances by simp
  qed
  then show ?thesis using commit_writes_versions [OF assms(2) publish(2)] by simp
qed

lemma store_steps_advances:
  assumes "store_steps env s s'" and "versions_ok s"
  shows "versions_ok s' \<and> advances s s'"
  using assms
proof (induction rule: rtranclp_induct)
  case base
  then show ?case by (simp add: reads_only_advances)
next
  case (step u v)
  then show ?case using store_step_advances advances_trans by blast
qed

lemma store_steps_latest:
  assumes "store_steps env s s'" and "bt_get (st_latest s) k = Some m"
  shows "\<exists>m' \<ge> m. bt_get (st_latest s') k = Some m'"
  using assms(1)
proof (induction rule: rtranclp_induct)
  case base
  then show ?case using assms(2) by auto
next
  case (step u v)
  then obtain m' where m': "m \<le> m'" "bt_get (st_latest u) k = Some m'" by blast
  have same: "\<exists>m' \<ge> m. bt_get (st_latest v) k = Some m'" if "reads_only u v" using m' that by (auto simp: reads_only_def)
  from step(2) show ?case
  proof cases
    case (read_namespace uri doc scope ns r)
    then show ?thesis using committed_namespace_reads same by blast
  next
    case (read_revision uri key r)
    then show ?thesis using committed_revision_reads same by blast
  next
    case (started tid uri doc n r)
    from begin_parse_store(2) [OF this m'(2)] m'(1) show ?thesis by (meson order_trans)
  next
    case (publish ws uri doc r)
    show ?thesis
    proof (cases "\<exists>n. r = Ret n")
      case True
      then obtain s1 where "reads_only u s1" "published_from uri doc ws s1 v"
        using commit_writes_Ret publish by blast
      then show ?thesis using m' by (auto simp: reads_only_def published_from_def)
    qed (use commit_writes_refused [OF publish(2)] same in blast)
  qed
qed

subsection \<open>Committing a transaction\<close>

lemma check_base_result:
  assumes "check_base env uri (key, n) s = (r, s')"
  shows "reads_only s s'" and "versions_ok s \<Longrightarrow> versions_ok s'"
    and "r = Ret () \<Longrightarrow> rev_scope key \<noteq> InvocationScope \<Longrightarrow> rev_scope key \<noteq> ParseScope \<Longrightarrow>
      settled s' uri (rev_scope key) \<and> committed_revision_of s' uri key = n"
proof -
  obtain x s1 where c: "committed_revision env uri key s = (x, s1)" by (cases "committed_revision env uri key s")
  have "s' = s \<or> s' = s1"
    using assms c by (auto simp: check_base_def abind_def split: if_splits outcome.splits)
  then show "reads_only s s'" and "versions_ok s \<Longrightarrow> versions_ok s'"
    using committed_revision_reads [OF c] committed_revision_versions [OF _ c] by auto
  assume "r = Ret ()" "rev_scope key \<noteq> InvocationScope" "rev_scope key \<noteq> ParseScope"
  then have "x = Ret n" "s' = s1"
    using assms c by (auto simp: check_base_def abind_def split: if_splits outcome.splits)
  then show "settled s' uri (rev_scope key) \<and> committed_revision_of s' uri key = n"
    using committed_revision_Ret [of env uri key s n s1] c by simp
qed

definition shared_scope :: "revision_key \<Rightarrow> bool" where
  "shared_scope key \<longleftrightarrow> rev_scope key \<noteq> InvocationScope \<and> rev_scope key \<noteq> ParseScope"

lemma check_bases:
  assumes "each (check_base env uri) bases s = (r, s')"
  shows "reads_only s s' \<and> (versions_ok s \<longrightarrow> versions_ok s') \<and> (r = Ret () \<longrightarrow> (\<forall>(key, n) \<in> set bases. shared_scope key \<longrightarrow>
    settled s' uri (rev_scope key) \<and> committed_revision_of s' uri key = n))"
  using assms
proof (induction bases arbitrary: s)
  case (Cons b bases)
  obtain key n where b: "b = (key, n)" by (cases b)
  obtain x s1 where c: "check_base env uri (key, n) s = (x, s1)" by (cases "check_base env uri (key, n) s")
  note one = check_base_result [OF c]
  show ?case
  proof (cases x)
    case (Ret y)
    then have "each (check_base env uri) bases s1 = (r, s')" using Cons.prems b c by (simp add: abind_def)
    note ih = Cons.IH [OF this]
    have "settled s' uri (rev_scope key) \<and> committed_revision_of s' uri key = n" if "shared_scope key"
    proof -
      have "settled s1 uri (rev_scope key)" "committed_revision_of s1 uri key = n"
        using one(3) that Ret by (simp_all add: shared_scope_def)
      moreover have "reads_only s1 s'" using ih by simp
      ultimately show ?thesis by (cases key) (auto simp: reads_only_def)
    qed
    then show ?thesis using ih one(1,2) reads_only_trans b by auto
  qed (use Cons.prems b c one in \<open>auto simp: abind_def\<close>)
qed simp

lemma parse_commit_cases:
  assumes "parse_commit env (s, t) = (r, (s', t'))"
  obtains (refused) "\<forall>cs. r \<noteq> Ret cs" "reads_only s s'" "t' = t"
  | (accepted) s1 n where "r = Ret \<lparr>cs_writes = n, cs_rws = pt_rws t\<rparr>" "\<not> pt_closed t" "t' = t\<lparr>pt_closed := True\<rparr>"
      "bt_get_or (pt_document_revision t) (st_latest s) (pt_project t, pt_document t) = pt_document_revision t"
      "each (check_base env (pt_project t)) (pt_base t) s = (Ret (), s1)"
      "commit_writes env (pt_project t) (pt_document t) (pt_writes t) s1 = (Ret n, s')"
proof -
  let ?latest = "bt_get_or (pt_document_revision t) (st_latest s) (pt_project t, pt_document t)"
  show thesis
  proof (cases "pt_closed t \<or> ?latest \<noteq> pt_document_revision t")
    case True
    then show thesis using assms refused
      by (cases "pt_closed t") (auto simp: parse_commit_def ensure_open_def abind_def Let_def)
  next
    case False
    then have ok: "\<not> pt_closed t" "?latest = pt_document_revision t" by auto
    obtain x s1 where c: "each (check_base env (pt_project t)) (pt_base t) s = (x, s1)"
      by (cases "each (check_base env (pt_project t)) (pt_base t) s")
    obtain y s2 where w: "commit_writes env (pt_project t) (pt_document t) (pt_writes t) s1 = (y, s2)"
      by (cases "commit_writes env (pt_project t) (pt_document t) (pt_writes t) s1")
    have eq: "parse_commit env (s, t) = (case x of
        Ret _ \<Rightarrow> (case y of Ret n \<Rightarrow> (Ret \<lparr>cs_writes = n, cs_rws = pt_rws t\<rparr>, (s2, t\<lparr>pt_closed := True\<rparr>))
          | Fail e \<Rightarrow> (Fail e, (s2, t)) | Panic \<Rightarrow> (Panic, (s2, t)))
      | Fail e \<Rightarrow> (Fail e, (s1, t)) | Panic \<Rightarrow> (Panic, (s1, t)))"
      using ok c w by (cases x; cases y) (simp_all add: parse_commit_def ensure_open_def abind_def Let_def in_store_def)
    have ro: "reads_only s s1" using check_bases [OF c] by simp
    show thesis
    proof (cases x)
      case (Ret u)
      show thesis
      proof (cases y)
        case (Ret n)
        then show thesis using accepted [of n s1] ok c w \<open>x = Ret u\<close> eq assms by simp
      next
        case (Fail e)
        then have "reads_only s1 s2" using commit_writes_refused [OF w] by simp
        then show thesis using refused eq assms \<open>x = Ret u\<close> Fail ro reads_only_trans by auto
      next
        case Panic
        then have "reads_only s1 s2" using commit_writes_refused [OF w] by simp
        then show thesis using refused eq assms \<open>x = Ret u\<close> Panic ro reads_only_trans by auto
      qed
    qed (use refused eq assms ro in auto)
  qed
qed

subsection \<open>The properties of a transaction\<close>

text \<open>
  C8. Committing a transaction is all or nothing.  Either it is refused, the committed data and the
  transaction are what they were, or the transaction is the latest revision of its document, every
  revision it relied on still holds, and the committed data of its document and project becomes
  exactly what the transaction showed, with other documents and projects untouched.
\<close>

theorem parse_commit_correct:
  assumes "parse_ok t" and "parse_commit env (s, t) = (r, (s', t'))"
  shows "((\<forall>cs. r \<noteq> Ret cs) \<and> reads_only s s' \<and> t' = t) \<or>
    (\<exists>s1. r = Ret \<lparr>cs_writes = min (length (filter (published \<circ> fst) (pt_writes t))) usize_max, cs_rws = pt_rws t\<rparr> \<and>
      \<not> pt_closed t \<and> t' = t\<lparr>pt_closed := True\<rparr> \<and> reads_only s s1 \<and>
      bt_get_or (pt_document_revision t) (st_latest s) (pt_project t, pt_document t) = pt_document_revision t \<and>
      (\<forall>(key, n) \<in> set (pt_base t). shared_scope key \<longrightarrow> committed_revision_of s1 (pt_project t) key = n) \<and>
      (\<forall>a. published a \<longrightarrow> committed_value s' (pt_project t) (pt_document t) a = parse_view s1 t a) \<and>
      (\<forall>doc a. doc \<noteq> pt_document t \<longrightarrow> addr_scope a = DocumentScope \<longrightarrow>
        committed_value s' (pt_project t) doc a = committed_value s1 (pt_project t) doc a) \<and>
      (\<forall>uri. uri \<noteq> pt_project t \<longrightarrow> get_project s' uri = get_project s1 uri))"
  using assms(2)
proof (cases rule: parse_commit_cases)
  case (accepted s0 n)
  have "bt_ok (pt_writes t)" using assms(1) by (simp add: parse_ok_def)
  from commit_writes_Ret [OF accepted(6) this] obtain s1 where s1: "reads_only s0 s1"
    "published_from (pt_project t) (pt_document t) (pt_writes t) s1 s'"
    "n = min (length (filter (published \<circ> fst) (pt_writes t))) usize_max"
    by blast
  note b = check_bases [OF accepted(5)]
  have "committed_revision_of s1 (pt_project t) key = m" if "(key, m) \<in> set (pt_base t)" "shared_scope key" for key m
    using b s1(1) that by (cases key) (auto simp: reads_only_def)
  moreover have "reads_only s s1" using b s1(1) reads_only_trans by blast
  ultimately show ?thesis
    using accepted(1-4) s1(2,3)
    by (intro disjI2 exI [of _ s1]) (auto simp: published_from_def parse_view_def)
qed auto

text \<open>
  C7. Optimistic concurrency control is sound.  When a transaction commits, every namespace of
  a shared scope it relied on holds, at that moment, exactly the values it held at the moment
  the transaction first took note of its revision, whatever other transactions did in between
  (short of 2^64 - 1 commits to the namespace).
\<close>

theorem commit_validates_reads:
  assumes "versions_ok s0" and "store_steps env s0 s" and "parse_commit env (s, t) = (Ret cs, (s', t'))"
    and "(key, committed_revision_of s0 (pt_project t) key) \<in> set (pt_base t)" and "shared_scope key"
    and "settled s0 (pt_project t) (rev_scope key)" and "committed_revision_of s0 (pt_project t) key < u64_max"
  shows "committed_value s (pt_project t) doc (Address (rev_scope key) (rev_namespace key) k) =
    committed_value s0 (pt_project t) doc (Address (rev_scope key) (rev_namespace key) k)"
proof -
  obtain scope ns where key: "key = RevisionKey scope ns" by (cases key)
  have adv: "advances s0 s" using store_steps_advances [OF assms(2,1)] by simp
  have st: "settled s (pt_project t) scope" using adv assms(6) key by (simp add: advances_def)
  obtain s1 where s1: "each (check_base env (pt_project t)) (pt_base t) s = (Ret (), s1)"
    using assms(3) by (cases rule: parse_commit_cases) auto
  have "committed_revision_of s1 (pt_project t) key = committed_revision_of s0 (pt_project t) key" "reads_only s s1"
    using check_bases [OF s1] assms(4,5) by auto
  then have "committed_revision_of s (pt_project t) key = committed_revision_of s0 (pt_project t) key"
    using st key by (simp add: reads_only_def)
  then show ?thesis using adv assms(6,7) key by (simp add: advances_def)
qed

text \<open>
  C17. The first committer wins.  Once another transaction of the project has published a write to a
  namespace, no transaction that took note of the namespace's revision before that can commit.
\<close>

theorem overlapping_commit_rejected:
  assumes "versions_ok s0" and "store_steps env s0 s1" and "bt_ok ws"
    and "commit_writes env (pt_project t) doc ws s1 = (Ret n, s2)" and "store_steps env s2 s3"
    and "a \<in> fst ` set ws" and "published a" and "key = address_revision_key a"
    and "(key, committed_revision_of s0 (pt_project t) key) \<in> set (pt_base t)"
    and "settled s0 (pt_project t) (rev_scope key)" and "committed_revision_of s1 (pt_project t) key < u64_max"
  shows "fst (parse_commit env (s3, t)) \<noteq> Ret cs"
proof
  assume "fst (parse_commit env (s3, t)) = Ret cs"
  then obtain s4 t4 where c: "parse_commit env (s3, t) = (Ret cs, (s4, t4))"
    by (metis prod.collapse)
  let ?u = "pt_project t"
  obtain scope ns where key: "key = RevisionKey scope ns" "scope = addr_scope a" "ns = addr_namespace a"
    using assms(8) by (simp add: address_revision_key_def)
  have v1: "versions_ok s1" and a1: "advances s0 s1" using store_steps_advances [OF assms(2,1)] by simp_all
  from commit_writes_Ret [OF assms(4,3)] obtain u where u: "reads_only s1 u" "published_from ?u doc ws u s2"
    "s1 = u \<or> ensure_persistent env ?u s1 = (Ret (), u)"
    by metis
  have vu: "versions_ok u" using u(3) v1 ensure_persistent_versions by blast
  have st: "settled s1 ?u scope" "settled u ?u scope" using assms(10) a1 key u(1) by (simp_all add: advances_def reads_only_def)
  have ru: "committed_revision_of u ?u key = committed_revision_of s1 ?u key" using u(1) st(1) key by (simp add: reads_only_def)
  have "\<exists>a \<in> fst ` set ws. published a \<and> addr_scope a = scope \<and> addr_namespace a = ns"
    using assms(6,7) key by blast
  then have r2: "committed_revision_of s2 ?u key = (if scope = PersistentScope
      then (case ps_persistent (get_project u ?u) of None \<Rightarrow> 0 | Some pp \<Rightarrow> sat_inc_u64 (bt_get_or 0 (pp_revisions pp) ns))
      else sat_inc_u64 (committed_revision_of u ?u key))"
    using u(2) unfolding published_from_def key(1) by meson
  have pv: "project_versions_ok (get_project u ?u)" using vu by (simp add: versions_ok_def)
  have less: "committed_revision_of s1 ?u key < committed_revision_of s2 ?u key"
  proof (cases "scope = PersistentScope")
    case True
    then obtain pp where pp: "ps_persistent (get_project u ?u) = Some pp" using st(2) by (auto simp: settled_def)
    then have "committed_revision_of u ?u key \<le> bt_get_or 0 (pp_revisions pp) ns"
      using pv True key(1) by (simp add: project_versions_ok_def committed_revision_of_def)
    then show ?thesis using r2 True pp ru assms(11) by (auto simp: sat_inc_u64_def)
  qed (use r2 ru assms(11) in \<open>auto simp: sat_inc_u64_def\<close>)
  have "advances s2 s3" using store_steps_advances [OF assms(5)] vu u(2) commit_writes_versions [OF v1 assms(4)] by simp
  moreover have st2: "settled s2 ?u scope" using u(2) st(2) by (simp add: published_from_def)
  ultimately have st3: "settled s3 ?u scope" and le3: "committed_revision_of s2 ?u key \<le> committed_revision_of s3 ?u key"
    using key(1) by (simp_all add: advances_def)
  obtain s5 where s5: "each (check_base env ?u) (pt_base t) s3 = (Ret (), s5)"
    using c by (cases rule: parse_commit_cases) auto
  have "committed_revision_of s5 ?u key = committed_revision_of s0 ?u key" "reads_only s3 s5"
    using check_bases [OF s5] assms(7,9) key by (auto simp: shared_scope_def published_def)
  then have "committed_revision_of s3 ?u key = committed_revision_of s0 ?u key"
    using st3 key(1) by (simp add: reads_only_def)
  moreover have "committed_revision_of s0 ?u key \<le> committed_revision_of s1 ?u key"
    using a1 assms(10) key by (simp add: advances_def)
  ultimately show False using less le3 by simp
qed

text \<open>
  An outdated parse never publishes.  Once a parse of a newer revision of the same document has begun, committing
  the older transaction fails as stale and changes nothing.
\<close>

theorem stale_revision_rejected:
  assumes "begin_parse env tid uri (pt_document t) n s0 = (Ret newer, s1)" and "pt_project newer = pt_project t"
    and "pt_document_revision t < n" and "store_steps env s1 s2" and "\<not> pt_closed t"
  shows "\<exists>latest \<ge> n. parse_commit env (s2, t) =
    (Fail (StaleDocumentRevision (pt_document t) (pt_document_revision t) latest), (s2, t))"
proof -
  obtain p where p: "pt_project newer = p"
    "st_latest s1 = bt_insert (p, pt_document t) (max (bt_get_or n (st_latest s0) (p, pt_document t)) n) (st_latest s0)"
    using assms(1) by (auto simp: begin_parse_def split: outcome.splits)
  then have "bt_get (st_latest s1) (pt_project t, pt_document t) = Some (max (bt_get_or n (st_latest s0) (p, pt_document t)) n)"
    using assms(2) by (simp add: bt_get_insert)
  from store_steps_latest [OF assms(4) this] obtain latest where "latest \<ge> n"
    "bt_get (st_latest s2) (pt_project t, pt_document t) = Some latest"
    by auto
  then show ?thesis
    using assms(3,5) by (intro exI [of _ latest]) (simp add: parse_commit_def ensure_open_def abind_def Let_def bt_get_or_def)
qed

end
