(* ===== verification/State_Speculation.thy ===== *)
theory State_Speculation
  imports State_History
begin

text \<open>
  A parse transaction while the parser speculates: savepoints, rollbacks and deltas as a step
  relation, the soundness of the overlay revision as a memo key, and the replay of deferred work.
\<close>

subsection \<open>Speculation inside a parse\<close>

text \<open>
  The steps of a transaction while the parser speculates: the savepoints taken so far are part of
  the state, the store may be any at each step.
\<close>

inductive parse_step :: "'d store_env \<Rightarrow> parse_transaction \<times> savepoint set \<Rightarrow> parse_transaction \<times> savepoint set \<Rightarrow> bool"
  for env where
  observe_revision: "parse_revision env key (s, t) = (r, (s', t')) \<Longrightarrow> parse_step env (t, S) (t', S)"
| accept: "bt_ok (iv_writes iv) \<Longrightarrow> merge_into env iv (s, t) = (r', (s', t')) \<Longrightarrow> parse_step env (t, S) (t', S)"
| save: "take_savepoint t = Ret sp \<Longrightarrow> parse_step env (t, S) (t, insert sp S)"
| roll_back: "sp \<in> S \<Longrightarrow> rollback_to sp t = Ret t' \<Longrightarrow> parse_step env (t, S) (t', S)"
| set_aside: "sp \<in> S \<Longrightarrow> defer_since sp t = Ret (d, t') \<Longrightarrow> parse_step env (t, S) (t', S)"
| replay: "bt_ok (dl_writes d) \<Longrightarrow> apply_delta env d (s, t) = (r'', (s', t')) \<Longrightarrow> parse_step env (t, S) (t', S)"

abbreviation parse_steps :: "'d store_env \<Rightarrow> parse_transaction \<times> savepoint set \<Rightarrow> parse_transaction \<times> savepoint set \<Rightarrow> bool" where
  "parse_steps env \<equiv> (parse_step env)\<^sup>*\<^sup>*"

text \<open>The overlay revisions handed out so far, each with the writes it stands for.\<close>

definition overlays_known :: "(nat \<times> (address, state_value option) btree) set \<Rightarrow> parse_transaction \<times> savepoint set \<Rightarrow> bool" where
  "overlays_known H st \<longleftrightarrow> single_valued H \<and> (\<forall>(n, _) \<in> H. n < pt_next_overlay (fst st)) \<and>
     (pt_overlay (fst st), pt_writes (fst st)) \<in> H \<and> (\<forall>sp \<in> snd st. (sp_overlay sp, sp_writes sp) \<in> H)"

lemma overlays_known_same:
  assumes "overlays_known H (t, S)" and "pt_next_overlay t' = pt_next_overlay t" and "(pt_overlay t', pt_writes t') \<in> H"
  shows "overlays_known H (t', S)"
  using assms by (simp add: overlays_known_def)

lemma overlays_known_merged:
  assumes "overlays_known H (t, S)" and "pt_next_overlay (merged iv t) < u64_max"
  shows "\<exists>H'. H \<subseteq> H' \<and> overlays_known H' (merged iv t, S)"
proof (cases "retained (iv_writes iv) = []")
  case True
  then show ?thesis using assms(1) by (intro exI [of _ H]) (auto intro: overlays_known_same simp: overlays_known_def)
next
  case False
  let ?H = "insert (pt_next_overlay t, pt_writes (merged iv t)) H"
  have nxt: "pt_next_overlay (merged iv t) = pt_next_overlay t + 1"
    using assms(2) False by (auto simp: sat_inc_u64_def u64_max_def)
  have H: "single_valued H" "\<And>n w. (n, w) \<in> H \<Longrightarrow> n < pt_next_overlay t" "\<And>sp. sp \<in> S \<Longrightarrow> (sp_overlay sp, sp_writes sp) \<in> H"
    using assms(1) by (auto simp: overlays_known_def)
  then have new: "(pt_next_overlay t, w) \<notin> H" for w by blast
  have "single_valued ?H"
    by (rule single_valuedI) (use H(1) new in \<open>auto dest: single_valuedD\<close>)
  moreover have "\<forall>(n, _) \<in> ?H. n < pt_next_overlay (merged iv t)" using H(2) nxt by fastforce
  moreover have "(pt_overlay (merged iv t), pt_writes (merged iv t)) \<in> ?H" using False by (simp del: merged_fields(10))
  ultimately have "overlays_known ?H (merged iv t, S)"
    using H(3) unfolding overlays_known_def fst_conv snd_conv by blast
  then show ?thesis by blast
qed

lemma apply_delta_cases:
  assumes "apply_delta env d (s, t) = (r, (s', t'))"
  obtains (unchanged) "t' = t" "reads_only s s'" "r \<noteq> Ret True"
  | (applied) iv u where "r = Ret True" "dl_id d \<notin> pt_applied t" "pt_id t = dl_transaction d"
      "iv = \<lparr>iv_component = [], iv_writes = dl_writes d, iv_reads = dl_reads d, iv_write_set = dl_write_set d, iv_observed = dl_observed d\<rparr>"
      "merge_into env iv (s, t) = (Ret (), (s', u))" "u = merged iv t"
      "t' = u\<lparr>pt_applied := insert (dl_id d) (pt_applied u \<union> dl_nested d)\<rparr>"
proof (cases "pt_closed t \<or> pt_id t \<noteq> dl_transaction d \<or> dl_id d \<in> pt_applied t")
  case True
  then show thesis using assms unchanged
    by (cases "pt_closed t"; cases "pt_id t = dl_transaction d") (auto simp: apply_delta_def abind_def ensure_open_def)
next
  case False
  define iv where "iv = \<lparr>iv_component = [], iv_writes = dl_writes d, iv_reads = dl_reads d, iv_write_set = dl_write_set d, iv_observed = dl_observed d\<rparr>"
  obtain x s1 u where m: "merge_into env iv (s, t) = (x, (s1, u))" by (metis prod.collapse)
  have eq: "apply_delta env d (s, t) = (case x of
      Ret _ \<Rightarrow> (Ret True, (s1, u\<lparr>pt_applied := insert (dl_id d) (pt_applied u \<union> dl_nested d)\<rparr>))
    | Fail e \<Rightarrow> (Fail e, (s1, u)) | Panic \<Rightarrow> (Panic, (s1, u)))"
    using False m by (cases x) (simp_all add: apply_delta_def abind_def ensure_open_def iv_def)
  from m show thesis
  proof (cases rule: merge_into_cases)
    case refused
    then show thesis using unchanged eq assms by (cases x) auto
  next
    case accepted
    then show thesis using applied [OF _ _ _ iv_def] eq assms m False by simp
  qed
qed

lemma parse_step_overlays:
  assumes "parse_step env st st'" and "overlays_known H st" and "pt_next_overlay (fst st') < u64_max"
  shows "\<exists>H'. H \<subseteq> H' \<and> overlays_known H' st'"
  using assms(1)
proof cases
  case (observe_revision key s t r s' t' S)
  note same = same_overlayD [OF parse_revision_result(1) [OF observe_revision(3)]]
  then show ?thesis using assms(2) observe_revision(1,2)
    by (intro exI [of _ H]) (simp add: overlays_known_def)
next
  case (accept iv s t r s' t' S)
  from accept(4) show ?thesis
  proof (cases rule: merge_into_cases)
    case refused
    then show ?thesis using assms(2) accept(1,2) by auto
  next
    case accepted
    then show ?thesis using overlays_known_merged [of H t S iv] assms(2,3) accept(1,2) by simp
  qed
next
  case (save t sp S)
  then show ?thesis using assms(2)
    by (intro exI [of _ H]) (auto simp: overlays_known_def take_savepoint_def ensure_open_def split: if_splits)
next
  case (roll_back sp S t t')
  then show ?thesis using assms(2)
    by (intro exI [of _ H]) (auto simp: overlays_known_def rollback_to_def restore_def ensure_open_def split: if_splits)
next
  case (set_aside sp S t d t')
  then show ?thesis using assms(2)
    by (intro exI [of _ H]) (auto simp: overlays_known_def defer_since_def restore_def ensure_open_def split: if_splits)
next
  case (replay d s t r s' t' S)
  from replay(4) show ?thesis
  proof (cases rule: apply_delta_cases)
    case unchanged
    then show ?thesis using assms(2) replay(1,2) by auto
  next
    case (applied iv u)
    have "pt_next_overlay (merged iv t) < u64_max" using assms(3) replay(2) applied by simp
    from overlays_known_merged [OF _ this] assms(2) replay(1) obtain H' where "H \<subseteq> H'" "overlays_known H' (merged iv t, S)"
      by blast
    then show ?thesis using replay(2) applied(6,7) by (intro exI [of _ H']) (simp add: overlays_known_def)
  qed
qed

lemma parse_step_next:
  assumes "parse_step env st st'" and "pt_next_overlay (fst st') < u64_max"
  shows "pt_next_overlay (fst st) \<le> pt_next_overlay (fst st')"
  using assms(1)
proof cases
  case (observe_revision key s t r s' t' S)
  then show ?thesis using same_overlayD [OF parse_revision_result(1) [OF observe_revision(3)]] by simp
next
  case (accept iv s t r s' t' S)
  from accept(4) show ?thesis
    by (cases rule: merge_into_cases) (use accept assms(2) in \<open>auto simp: sat_inc_u64_def split: if_splits\<close>)
next
  case (replay d s t r s' t' S)
  from replay(4) show ?thesis
    by (cases rule: apply_delta_cases) (use replay assms(2) in \<open>auto simp: sat_inc_u64_def split: if_splits\<close>)
qed (auto simp: rollback_to_def defer_since_def restore_def ensure_open_def split: if_splits)

lemma parse_steps_overlays:
  assumes "parse_steps env st st'" and "overlays_known H st" and "pt_next_overlay (fst st') < u64_max"
  shows "\<exists>H'. H \<subseteq> H' \<and> overlays_known H' st'"
  using assms(1,3)
proof (induction rule: rtranclp_induct)
  case base
  then show ?case using assms(2) by blast
next
  case (step u v)
  have "pt_next_overlay (fst u) < u64_max" using parse_step_next [OF step(2,4)] step(4) by simp
  from step.IH [OF this] obtain H1 where "H \<subseteq> H1" "overlays_known H1 u" by blast
  then show ?case using parse_step_overlays [OF step(2) _ step(4)] by (meson order_trans)
qed

text \<open>
  C13. The overlay revision is a sound memo key.  Whatever a parse accepts, rolls back, sets aside
  and replays, two moments with the same overlay revision have the same staged writes
  (while fewer than 2^64 - 1 overlays were made).
\<close>

theorem state_revision_sound:
  assumes "begin_parse env tid uri doc n s0 = (Ret t0, s1)"
    and "parse_steps env (t0, {}) (t, S)" and "parse_steps env (t, S) (t', S')"
    and "state_revision t = Ret k" and "state_revision t' = Ret k" and "pt_next_overlay t' < u64_max"
  shows "pt_writes t' = pt_writes t"
proof -
  have "overlays_known {(0, [])} (t0, {})"
    using assms(1) by (auto simp: begin_parse_def overlays_known_def single_valued_def split: outcome.splits)
  moreover have nxt: "pt_next_overlay t < u64_max"
  proof -
    have "parse_steps env st st' \<Longrightarrow> pt_next_overlay (fst st') < u64_max \<Longrightarrow> pt_next_overlay (fst st) < u64_max" for st st'
    proof (induction rule: rtranclp_induct)
      case (step u v)
      then show ?case using parse_step_next [OF step(2,4)] by simp
    qed simp
    from this [OF assms(3)] assms(6) show ?thesis by simp
  qed
  ultimately obtain H where H: "overlays_known H (t, S)"
    using parse_steps_overlays [OF assms(2)] by auto
  obtain H' where "H \<subseteq> H'" "overlays_known H' (t', S')"
    using parse_steps_overlays [OF assms(3) H] assms(6) by auto
  moreover have "pt_overlay t = k" "pt_overlay t' = k"
    using assms(4,5) by (auto simp: state_revision_def ensure_open_def split: if_splits)
  ultimately show ?thesis using H by (auto simp: overlays_known_def single_valued_def)
qed

subsection \<open>Deltas\<close>

lemma bt_get_filter_pairs:
  "distinct (map fst m) \<Longrightarrow> bt_get (filter P m) k = (case bt_get m k of Some v \<Rightarrow> if P (k, v) then Some v else None | None \<Rightarrow> None)"
  by (induction m) (auto simp: map_of_eq_None_iff split: option.split dest: map_of_SomeD)

text \<open>
  C22. Setting a candidate's work aside and replaying it loses nothing.  Deferring since a savepoint restores the
  savepoint's writes; replaying the delta there meets no conflict, and when the quotas let it
  through the transaction's writes are exactly those before, however many of them are deletions; a second
  replay is refused as already applied and changes nothing.
\<close>

theorem deferred_work_replays:
  assumes "parse_ok t" and "bt_ok (sp_writes before)" and "fst ` set (sp_writes before) \<subseteq> fst ` set (pt_writes t)"
    and "defer_since before t = Ret (d, t0)" and "dl_id d \<notin> sp_applied before"
    and "apply_delta env d (s, t0) = (r, (s', t1))"
  shows "pt_writes t0 = sp_writes before \<and>
    find (conflicting (pt_current t0)) (dl_observed d) = None \<and>
    (r = Ret True \<longrightarrow> pt_writes t1 = pt_writes t \<and> apply_delta env d (s', t1) = (Ret False, (s', t1)))"
proof -
  have d: "\<not> pt_closed t" "pt_id t = dl_transaction d" "pt_id t = pt_id t0" "\<not> pt_closed t0"
    "dl_writes d = filter (\<lambda>(a, v). bt_get (sp_writes before) a \<noteq> Some v) (pt_writes t)"
    "dl_observed d = map (\<lambda>(key, _). (key, case bt_get (sp_current before) key of
             Some r \<Rightarrow> r | None \<Rightarrow> bt_get_or 0 (pt_base t) key)) (pt_current t)"
    "pt_writes t0 = sp_writes before" "pt_current t0 = sp_current before"
    using assms(4) by (auto simp: defer_since_def restore_def ensure_open_def split: if_splits)
  have "find (conflicting (pt_current t0)) (dl_observed d) = None"
    unfolding d(6,8) by (auto simp: find_None_iff conflicting_def split: option.splits)
  moreover have "pt_writes t1 = pt_writes t \<and> apply_delta env d (s', t1) = (Ret False, (s', t1))" if "r = Ret True"
    using assms(6)
  proof (cases rule: apply_delta_cases)
    case (applied iv u)
    have dist: "distinct (map fst (pt_writes t))" using assms(1) bt_ok_distinct [of "pt_writes t"] by (simp add: parse_ok_def)
    have inv: "bt_get (pt_writes t) a = None" if "addr_scope a = InvocationScope" for a
      using that assms(1) by (auto simp: parse_ok_def map_of_eq_None_iff)
    have sub: "bt_get (pt_writes t) a = None \<Longrightarrow> bt_get (sp_writes before) a = None" for a
      using assms(3) by (auto simp: map_of_eq_None_iff)
    have t0: "parse_ok t0"
      using assms(2) d(7) subsetD [OF assms(3)] assms(1) unfolding parse_ok_def by metis
    have iw: "bt_ok (iv_writes iv)" using applied(4) d(5) assms(1) by (simp add: parse_ok_def bt_ok_filter)
    have "bt_get (pt_writes u) a = bt_get (pt_writes t) a" for a
      using merged_writes(2) [OF t0 iw, of a] applied(4,6) d(5,7) inv [of a] sub [of a]
        bt_get_filter_pairs [OF dist, of "\<lambda>(a, v). bt_get (sp_writes before) a \<noteq> Some v" a]
      by (auto split: option.splits if_splits)
    then have "pt_writes u = pt_writes t"
      using merged_writes(1) [OF t0 iw] applied(6) assms(1) by (intro bt_ext) (auto simp: parse_ok_def)
    moreover have "\<not> pt_closed u" "pt_id u = pt_id t0" using applied(6) d(4) by simp_all
    ultimately show ?thesis
      using applied(7) d(2,3) by (simp add: apply_delta_def abind_def ensure_open_def)
  qed (use that in simp)
  ultimately show ?thesis using d(7) by blast
qed

end
