(* ===== verification/State_Registry.thy ===== *)
theory State_Registry
  imports State_Types
begin

text \<open>
  The registry of namespaces: what a registration adds, that it changes nothing else, and that the
  access rules isolate components from each other in every registry that can arise.
\<close>

subsection \<open>Registration\<close>

abbreviation declared_key :: "str \<Rightarrow> namespace_declaration \<Rightarrow> namespace_key" where
  "declared_key component d \<equiv> declaration_key component (decl_visibility d) (decl_name d)"

definition declaration_ok :: "namespace_declaration \<Rightarrow> bool" where
  "declaration_ok d \<longleftrightarrow> decl_schema_version d \<noteq> 0 \<and> (decl_visibility d = Private \<longrightarrow> decl_readers d = [] \<and> decl_writers d = [])"

lemma register_declaration_Ret:
  assumes "register_declaration component d (names, records) = Ret (names', records')"
  shows "declaration_ok d" "bt_get records (declared_key component d) = None"
    "records' = bt_insert (declared_key component d) \<lparr>rec_owner = component, rec_declaration = d\<rparr> records"
  using assms
  by (auto simp: register_declaration_def outcome_simps Let_def bt_contains_def declaration_ok_def split: if_splits)

lemma register_loop:
  assumes "try_for (register_declaration component) ds (names, records) = Ret (names', records')" and "bt_ok records"
  shows "bt_ok records' \<and>
    (\<forall>d \<in> set ds. declaration_ok d \<and> bt_get records (declared_key component d) = None \<and>
      bt_get records' (declared_key component d) = Some \<lparr>rec_owner = component, rec_declaration = d\<rparr>) \<and>
    (\<forall>ns. ns \<notin> declared_key component ` set ds \<longrightarrow> bt_get records' ns = bt_get records ns)"
  using assms
proof (induction ds arbitrary: names records)
  case (Cons d ds)
  obtain names1 records1 where d: "register_declaration component d (names, records) = Ret (names1, records1)"
    and rest: "try_for (register_declaration component) ds (names1, records1) = Ret (names', records')"
    using Cons.prems(1) by (auto simp: outcome_simps)
  note r = register_declaration_Ret [OF d]
  have "bt_ok records1" using r(3) Cons.prems(2) by simp
  note ih = Cons.IH [OF rest this]
  have new: "declared_key component d \<notin> declared_key component ` set ds"
    using ih r(3) by (force simp: bt_get_insert)
  show ?case using ih r new by (auto simp: bt_get_insert split: if_splits)
qed simp

text \<open>
  Registration is all or nothing and never touches what is registered.  When it succeeds, every
  declaration was for a new namespace and is now recorded under the component's own key, with a nonzero schema
  version and without grants if it is private; all other namespaces are as they were.
\<close>

theorem registry_register_correct:
  assumes "bt_ok records" and "registry_register component ds records = Ret records'"
  shows "bt_ok records' \<and>
    (\<forall>d \<in> set ds. declaration_ok d \<and> bt_get records (declared_key component d) = None \<and>
      bt_get records' (declared_key component d) = Some \<lparr>rec_owner = component, rec_declaration = d\<rparr>) \<and>
    (\<forall>ns. ns \<notin> declared_key component ` set ds \<longrightarrow> bt_get records' ns = bt_get records ns)"
proof -
  obtain names where "try_for (register_declaration component) ds ({}, records) = Ret (names, records')"
    using assms(2) by (auto simp: registry_register_def outcome_simps)
  from register_loop [OF this assms(1)] show ?thesis .
qed

text \<open>The registries that a store can come to hold.\<close>

inductive registry_reachable :: "namespace_registry \<Rightarrow> bool" where
  nothing: "registry_reachable []"
| register: "registry_reachable records \<Longrightarrow> registry_register component ds records = Ret records' \<Longrightarrow> registry_reachable records'"

lemma registry_reachable_ok:
  assumes "registry_reachable records"
  shows "bt_ok records \<and> (\<forall>ns r. bt_get records ns = Some r \<longrightarrow>
    ns = declared_key (rec_owner r) (rec_declaration r) \<and> declaration_ok (rec_declaration r))"
  using assms
proof induction
  case (register records component ds records')
  obtain names where "try_for (register_declaration component) ds ({}, records) = Ret (names, records')"
    using register.hyps(2) by (auto simp: registry_register_def outcome_simps)
  note l = register_loop [OF this conjunct1 [OF register.IH]]
  show ?case
  proof (intro conjI allI impI)
    fix ns r assume r: "bt_get records' ns = Some r"
    have "ns = declared_key (rec_owner r) (rec_declaration r) \<and> declaration_ok (rec_declaration r)"
    proof (cases "ns \<in> declared_key component ` set ds")
      case True
      then obtain d where "d \<in> set ds" "ns = declared_key component d" by blast
      then show ?thesis using l r by auto
    next
      case False
      then show ?thesis using l r register.IH by auto
    qed
    then show "ns = declared_key (rec_owner r) (rec_declaration r)" "declaration_ok (rec_declaration r)" by simp_all
  qed (use l in simp)
qed simp

text \<open>
  C24. Components are isolated.  In every registry that can arise, a name resolves for a component
  only to a namespace of that name and visibility; a private one is always its own, and to write
  into a shared one it must be the owner or a declared writer.
\<close>

theorem registry_isolates_components:
  assumes "registry_reachable records" and "registry_resolve records component vis name write = Ret (ns, r)"
  shows "bt_get records ns = Some r \<and> ns_name ns = name \<and> decl_visibility (rec_declaration r) = vis \<and>
    (vis = Private \<longrightarrow> ns = PrivateKey component name \<and> rec_owner r = component) \<and>
    (write \<longrightarrow> rec_owner r = component \<or> component \<in> set (decl_writers (rec_declaration r))) \<and>
    (rec_owner r = component \<or> component \<in> set (decl_readers (rec_declaration r)) \<union> set (decl_writers (rec_declaration r)))"
proof -
  have r: "ns = declaration_key component vis name" "bt_get records ns = Some r" "access_allowed component r write"
    using assms(2) by (auto simp: registry_resolve_def Let_def outcome_simps split: if_splits)
  have k: "ns = declared_key (rec_owner r) (rec_declaration r)"
    using registry_reachable_ok [OF assms(1)] r(2) by blast
  show ?thesis
    using r k by (auto simp: declaration_key_def access_allowed_def split: visibility.splits if_splits)
qed

lemma sample_identifiers: "validate_identifier kind ''n'' = Ret ()" "validate_identifier kind ''m'' = Ret ()"
  by (simp_all add: validate_identifier_def is_blank_iff utf8_ok.simps utf8_step_def codes_def decode_char_def char_width_def
      is_whitespace_def is_control_def)

theorem registry_register_correct_witness:
  "\<exists>records'. registry_register ''n'' [\<lparr>decl_name = ''m'', decl_visibility = Private, decl_schema_id = ''n'',
      decl_schema_version = 1, decl_readers = [], decl_writers = []\<rparr>] [] = Ret records' \<and>
    bt_contains records' (PrivateKey ''n'' ''m'')"
proof -
  let ?d = "\<lparr>decl_name = ''m'', decl_visibility = Private, decl_schema_id = ''n'',
      decl_schema_version = 1, decl_readers = [], decl_writers = []\<rparr>"
  obtain records' where "registry_register ''n'' [?d] [] = Ret records'"
    by (simp add: registry_register_def register_declaration_def sample_identifiers bt_contains_def)
  then show ?thesis
    using registry_register_correct [of "[]" "''n''" "[?d]" records'] by (simp add: bt_contains_def declaration_key_def)
qed

theorem registry_isolates_components_witness:
  "\<exists>records r. registry_resolve records ''n'' Private ''m'' True = Ret (PrivateKey ''n'' ''m'', r) \<and> rec_owner r = ''n''"
proof -
  let ?d = "\<lparr>decl_name = ''m'', decl_visibility = Private, decl_schema_id = ''n'',
      decl_schema_version = 1, decl_readers = [], decl_writers = []\<rparr>"
  let ?r = "\<lparr>rec_owner = ''n'', rec_declaration = ?d\<rparr>"
  have reg: "registry_register ''n'' [?d] [] = Ret [(PrivateKey ''n'' ''m'', ?r)]"
    by (simp add: registry_register_def register_declaration_def sample_identifiers bt_contains_def declaration_key_def)
  have "registry_reachable [(PrivateKey ''n'' ''m'', ?r)]"
    by (rule registry_reachable.register [OF registry_reachable.nothing reg])
  moreover have "registry_resolve [(PrivateKey ''n'' ''m'', ?r)] ''n'' Private ''m'' True = Ret (PrivateKey ''n'' ''m'', ?r)"
    by (simp add: registry_resolve_def declaration_key_def access_allowed_def)
  ultimately show ?thesis
    using registry_isolates_components [of "[(PrivateKey ''n'' ''m'', ?r)]" "''n''" Private "''m''" True] by blast
qed

end
