(* ===== verification/State_Samples.thy ===== *)
theory State_Samples
  imports State_Speculation State_Registry
begin

text \<open>
  A small store with one registered namespace, one transaction and one invocation, on which the
  properties of the store are applied.
\<close>

definition sample_env :: "(redb_table \<Rightarrow> (bytes \<times> bytes) list) store_env" where
  "sample_env = \<lparr>env_redb = sample_redb, env_canonical_uri = Some, env_database_path = (\<lambda>_ _. ''new''),
     env_default_directory = None\<rparr>"

definition sample_store :: "(redb_table \<Rightarrow> (bytes \<times> bytes) list) store_state" where
  "sample_store = \<lparr>st_data_directory = ''d'', st_quotas = default_quotas, st_namespaces = sample_records,
     st_projects = [], st_latest = []\<rparr>"

definition sample_parse :: parse_transaction where
  "sample_parse = \<lparr>pt_id = 0, pt_project = ''p'', pt_document = ''m'', pt_document_revision = 1,
     pt_writes = [], pt_rws = empty_rws, pt_base = [], pt_current = [], pt_overlay = 0,
     pt_next_overlay = 1, pt_applied = {}, pt_next_delta = 0, pt_closed = False\<rparr>"

definition sample_address :: address where
  "sample_address = Address ProjectScope (SharedKey ''n'') ''k''"

definition sample_invocation :: invocation where
  "sample_invocation = \<lparr>iv_component = ''c'', iv_writes = [(sample_address, Some sample_value)], iv_reads = {},
     iv_write_set = {address_public sample_address}, iv_observed = [(RevisionKey ProjectScope (SharedKey ''n''), 0)]\<rparr>"

lemmas sample_defs = sample_env_def sample_store_def sample_parse_def sample_address_def sample_invocation_def
  sample_value_def sample_records_def

lemmas session_eval = session_quotas_def ensure_open_def validate_key_def check_value_size_def materialize_def
  sample_identifiers registry_resolve_def declaration_key_def access_allowed_def parse_revision_def committed_revision_def
  committed_below_def committed_namespace_def ensure_scope_def in_world_def in_store_def abind_def
  overlay_namespace_def apply_overlay_def check_write_def namespace_size_def stored_size_def sat_add_def usize_max_def
  project_values_def get_project_def put_project_def bt_get_or_def empty_project_def default_quotas_def observe_def Let_def

lemma sample_get: "\<exists>x'. inv_get sample_env ProjectScope Shared ''n'' ''k'' ((sample_store, sample_parse), sample_invocation)
    = (Ret (Some sample_value), x')"
  by (simp add: inv_get_def session_eval sample_defs)

lemma sample_write: "\<exists>x'. inv_write sample_env ProjectScope Shared ''n'' ''k'' None ((sample_store, sample_parse), sample_invocation)
    = (Ret True, x')"
  by (simp add: inv_write_def session_eval sample_defs bt_contains_def bt_remove_def)


lemma sample_session_ok: "session_ok ((sample_store, sample_parse), sample_invocation)"
  by (simp add: session_ok_def parse_ok_def bt_ok_def sample_defs)

theorem inv_get_correct_witness:
  "\<exists>x' ns r. inv_get sample_env ProjectScope Shared ''n'' ''k'' ((sample_store, sample_parse), sample_invocation)
      = (Ret (Some sample_value), x') \<and>
    registry_resolve (st_namespaces sample_store) ''c'' Shared ''n'' False = Ret (ns, r) \<and>
    address_public (Address ProjectScope ns ''k'') \<in> iv_reads (snd x')"
proof -
  obtain x' where g: "inv_get sample_env ProjectScope Shared ''n'' ''k'' ((sample_store, sample_parse), sample_invocation)
      = (Ret (Some sample_value), x')"
    using sample_get by blast
  have "iv_component sample_invocation = ''c''" by (simp add: sample_defs)
  then show ?thesis using inv_get_correct [OF sample_session_ok g] g by auto
qed

theorem inv_write_correct_witness:
  "\<exists>x' ns r. inv_write sample_env ProjectScope Shared ''n'' ''k'' None ((sample_store, sample_parse), sample_invocation) = (Ret True, x') \<and>
    registry_resolve (st_namespaces sample_store) ''c'' Shared ''n'' True = Ret (ns, r) \<and>
    invocation_view x' (Address ProjectScope ns ''k'') = None"
proof -
  obtain x' where w: "inv_write sample_env ProjectScope Shared ''n'' ''k'' None ((sample_store, sample_parse), sample_invocation)
      = (Ret True, x')"
    using sample_write by blast
  have "iv_component sample_invocation = ''c''" by (simp add: sample_defs)
  then show ?thesis using inv_write_correct [OF sample_session_ok w] w by auto
qed

lemma sample_scan: "\<exists>x'. scan_prefix sample_env ProjectScope Shared ''n'' ''k'' 1 ((sample_store, sample_parse), sample_invocation)
    = (Ret [\<lparr>entry_key = ''k'', entry_value = sample_value\<rparr>], x') \<and>
    (\<forall>ns. project_values (get_project (fst (fst x')) (pt_project (snd (fst x')))) (pt_document (snd (fst x'))) ProjectScope ns = [])"
  by (simp add: scan_prefix_def scan_values_def session_eval sample_defs)

theorem scan_prefix_correct_witness:
  "\<exists>x' vals. scan_prefix sample_env ProjectScope Shared ''n'' ''k'' 1 ((sample_store, sample_parse), sample_invocation)
      = (Ret [\<lparr>entry_key = ''k'', entry_value = sample_value\<rparr>], x') \<and> bt_ok vals \<and>
    take 1 (filter (\<lambda>(k, _). starts_with ''k'' k) vals) = [(''k'', sample_value)]"
proof -
  obtain x' where s: "scan_prefix sample_env ProjectScope Shared ''n'' ''k'' 1 ((sample_store, sample_parse), sample_invocation)
      = (Ret [\<lparr>entry_key = ''k'', entry_value = sample_value\<rparr>], x')"
    and e: "\<And>ns. bt_ok (project_values (get_project (fst (fst x')) (pt_project (snd (fst x')))) (pt_document (snd (fst x'))) ProjectScope ns)"
    using sample_scan by auto
  obtain vals where v: "bt_ok vals" "[\<lparr>entry_key = ''k'', entry_value = sample_value\<rparr>] =
      map (\<lambda>(k, v). \<lparr>entry_key = k, entry_value = v\<rparr>) (take 1 (filter (\<lambda>(k, _). starts_with ''k'' k) vals))"
    using scan_prefix_correct [OF sample_session_ok s e] by (auto simp: take_map)
  have "take 1 (filter (\<lambda>(k, _). starts_with ''k'' k) vals) = [(''k'', sample_value)]"
    using v(2) [symmetric] by (auto simp: map_eq_Cons_conv)
  then show ?thesis using s v(1) by blast
qed

lemma sample_merge: "\<exists>s' t'. merge_into sample_env sample_invocation (sample_store, sample_parse) = (Ret (), (s', t')) \<and>
    pt_writes t' = [(sample_address, Some sample_value)] \<and> pt_next_overlay t' = 2 \<and> pt_overlay t' = 1 \<and> pt_closed t' = False \<and> pt_id t' = 0"
  by (simp add: merge_into_def session_eval sample_defs conflicting_def retained_def bt_set_of_def
      address_revision_key_def check_namespace_quota_def record_observed_def sat_inc_u64_def u64_max_def)

theorem merge_into_correct_witness:
  "\<exists>s' t'. merge_into sample_env sample_invocation (sample_store, sample_parse) = (Ret (), (s', t')) \<and>
    parse_view s' t' sample_address = Some sample_value"
proof -
  obtain s' t' where m: "merge_into sample_env sample_invocation (sample_store, sample_parse) = (Ret (), (s', t'))"
    using sample_merge by blast
  have "invocation_view ((s', sample_parse), sample_invocation) sample_address = Some sample_value"
    by (simp add: invocation_view_def overlaid_def sample_invocation_def)
  then show ?thesis
    using merge_into_correct [OF sample_session_ok m] m by (auto simp: sample_address_def)
qed

subsection \<open>Transactions\<close>

definition sample_written :: parse_transaction where
  "sample_written = sample_parse\<lparr>pt_writes := [(sample_address, Some sample_value)],
     pt_base := [(RevisionKey ProjectScope (SharedKey ''n''), 0)], pt_current := [(RevisionKey ProjectScope (SharedKey ''n''), 1)],
     pt_overlay := 1, pt_next_overlay := 2\<rparr>"

lemma sample_commit: "\<exists>cs s' t'. parse_commit sample_env (sample_store, sample_written) = (Ret cs, (s', t')) \<and> cs_writes cs = 1"
  by (simp add: parse_commit_def session_eval sample_defs sample_written_def check_base_def commit_writes_def commit_persistent_def
      is_persistent_write_def publish_project_def publish_write_def publish_revision_def published_def bt_set_of_def address_revision_key_def)

lemma sample_versions: "versions_ok sample_store"
  by (simp add: versions_ok_def project_versions_ok_def get_project_def sample_store_def bt_get_or_def empty_project_def)

theorem parse_commit_correct_witness:
  "\<exists>cs s' t'. parse_commit sample_env (sample_store, sample_written) = (Ret cs, (s', t')) \<and>
    committed_value s' ''p'' ''m'' sample_address = Some sample_value"
proof -
  obtain cs s' t' where c: "parse_commit sample_env (sample_store, sample_written) = (Ret cs, (s', t'))"
    using sample_commit by blast
  have ok: "parse_ok sample_written" by (simp add: parse_ok_def bt_ok_def sample_written_def sample_address_def)
  have "parse_view s sample_written sample_address = Some sample_value" for s :: "(redb_table \<Rightarrow> (bytes \<times> bytes) list) store_state"
    by (simp add: parse_view_def overlaid_def sample_written_def)
  moreover have "pt_project sample_written = ''p''" "pt_document sample_written = ''m''"
    by (simp_all add: sample_written_def sample_parse_def)
  moreover have "published sample_address" by (simp add: published_def sample_address_def)
  ultimately show ?thesis
    using parse_commit_correct [OF ok c] c by auto
qed

theorem commit_validates_reads_witness:
  "\<exists>cs s' t'. parse_commit sample_env (sample_store, sample_written) = (Ret cs, (s', t')) \<and>
    committed_value sample_store ''p'' ''m'' (Address ProjectScope (SharedKey ''n'') ''k'') = None"
proof -
  obtain cs s' t' where c: "parse_commit sample_env (sample_store, sample_written) = (Ret cs, (s', t'))"
    using sample_commit by blast
  have p: "pt_project sample_written = ''p''" by (simp add: sample_written_def sample_parse_def)
  have r: "committed_revision_of sample_store ''p'' (RevisionKey ProjectScope (SharedKey ''n'')) = 0"
    by (simp add: committed_revision_of_def get_project_def sample_store_def bt_get_or_def empty_project_def)
  have "committed_value sample_store ''p'' ''m'' (Address ProjectScope (SharedKey ''n'') ''k'') =
      committed_value sample_store ''p'' ''m'' (Address ProjectScope (SharedKey ''n'') ''k'')"
    using commit_validates_reads [OF sample_versions rtranclp.rtrancl_refl c, of "RevisionKey ProjectScope (SharedKey ''n'')" "''m''" "''k''"]
    by (simp add: p r settled_def shared_scope_def u64_max_def sample_written_def)
  then show ?thesis using c
    by (auto simp: committed_value_def project_values_def get_project_def sample_store_def bt_get_or_def empty_project_def)
qed

theorem compare_and_swap_correct_witness:
  "\<exists>x'. compare_and_swap sample_env ProjectScope Shared ''n'' ''k'' None None ((sample_store, sample_parse), sample_invocation)
      = (Ret False, x') \<and> iv_writes (snd x') = iv_writes sample_invocation"
proof -
  obtain x' where "inv_get sample_env ProjectScope Shared ''n'' ''k'' ((sample_store, sample_parse), sample_invocation)
      = (Ret (Some sample_value), x')"
    using sample_get by blast
  then have c: "compare_and_swap sample_env ProjectScope Shared ''n'' ''k'' None None ((sample_store, sample_parse), sample_invocation)
      = (Ret False, x')"
    by (simp add: compare_and_swap_def abind_def)
  from compare_and_swap_correct [OF sample_session_ok c] c show ?thesis by auto
qed

lemma sample_publish: "\<exists>n s'. commit_writes sample_env ''p'' ''m'' [(sample_address, Some sample_value)] sample_store = (Ret n, s')"
  by (simp add: session_eval sample_defs commit_writes_def commit_persistent_def
      is_persistent_write_def publish_project_def publish_write_def publish_revision_def published_def bt_set_of_def address_revision_key_def)

theorem overlapping_commit_rejected_witness:
  "\<exists>n s2. commit_writes sample_env ''p'' ''m'' [(sample_address, Some sample_value)] sample_store = (Ret n, s2) \<and>
    (\<forall>cs. fst (parse_commit sample_env (s2, sample_written)) \<noteq> Ret cs)"
proof -
  obtain n s2 where c: "commit_writes sample_env ''p'' ''m'' [(sample_address, Some sample_value)] sample_store = (Ret n, s2)"
    using sample_publish by blast
  have p: "pt_project sample_written = ''p''" by (simp add: sample_written_def sample_parse_def)
  have r: "committed_revision_of sample_store ''p'' (RevisionKey ProjectScope (SharedKey ''n'')) = 0"
    by (simp add: committed_revision_of_def get_project_def sample_store_def bt_get_or_def empty_project_def)
  let ?key = "RevisionKey ProjectScope (SharedKey ''n'')"
  have c': "commit_writes sample_env (pt_project sample_written) ''m'' [(sample_address, Some sample_value)] sample_store = (Ret n, s2)"
    using c p by simp
  have base: "(?key, committed_revision_of sample_store (pt_project sample_written) ?key) \<in> set (pt_base sample_written)"
    using p r by (simp add: sample_written_def)
  have set: "settled sample_store (pt_project sample_written) (rev_scope ?key)" by (simp add: settled_def)
  have less: "committed_revision_of sample_store (pt_project sample_written) ?key < u64_max" using p r by (simp add: u64_max_def)
  have a: "bt_ok [(sample_address, Some sample_value)]" "sample_address \<in> fst ` set [(sample_address, Some sample_value)]"
    "published sample_address" "?key = address_revision_key sample_address"
    by (simp_all add: bt_ok_def published_def sample_address_def address_revision_key_def)
  have "fst (parse_commit sample_env (s2, sample_written)) \<noteq> Ret cs" for cs
    by (rule overlapping_commit_rejected [OF sample_versions rtranclp.rtrancl_refl a(1) c' rtranclp.rtrancl_refl a(2-4) base set less])
  then show ?thesis using c by blast
qed

lemma sample_begin: "\<exists>newer s1. begin_parse sample_env 7 ''p'' ''m'' 2 sample_store = (Ret newer, s1) \<and> pt_project newer = ''p''"
  by (simp add: begin_parse_def sample_identifiers canonical_project_uri_def sample_env_def)

theorem stale_revision_rejected_witness:
  "\<exists>newer s1 latest. begin_parse sample_env 7 ''p'' ''m'' 2 sample_store = (Ret newer, s1) \<and>
    parse_commit sample_env (s1, sample_written) = (Fail (StaleDocumentRevision ''m'' 1 latest), (s1, sample_written))"
proof -
  obtain newer s1 where b: "begin_parse sample_env 7 ''p'' ''m'' 2 sample_store = (Ret newer, s1)" "pt_project newer = ''p''"
    using sample_begin by blast
  have w: "pt_project sample_written = ''p''" "pt_document sample_written = ''m''" "pt_document_revision sample_written = 1"
    "\<not> pt_closed sample_written"
    by (simp_all add: sample_written_def sample_parse_def)
  from stale_revision_rejected [of sample_env 7 "''p''" sample_written 2 sample_store newer s1 s1] b w
  show ?thesis by auto
qed

definition sample_savepoint :: savepoint where
  "sample_savepoint = \<lparr>sp_transaction = 0, sp_writes = [], sp_rws = empty_rws, sp_base = [], sp_current = [],
     sp_overlay = 0, sp_applied = {}\<rparr>"

text \<open>Accept an invocation and roll it back: the overlay revision is 0 again, and so are the writes.\<close>

theorem state_revision_sound_witness:
  "\<exists>t'. parse_steps sample_env (sample_parse, {sample_savepoint}) (t', {sample_savepoint}) \<and> pt_next_overlay t' = 2 \<and>
    pt_writes t' = pt_writes sample_parse"
proof -
  obtain t0 s1 where b: "begin_parse sample_env 0 ''p'' ''m'' 1 sample_store = (Ret t0, s1)" "t0 = sample_parse"
    by (simp add: begin_parse_def sample_identifiers canonical_project_uri_def sample_env_def sample_parse_def)
  obtain s' t' where m: "merge_into sample_env sample_invocation (sample_store, sample_parse) = (Ret (), (s', t'))"
    and t': "pt_closed t' = False" "pt_id t' = 0" "pt_next_overlay t' = 2"
    using sample_merge by blast
  have save: "parse_step sample_env (sample_parse, {}) (sample_parse, {sample_savepoint})"
    using parse_step.save [of sample_parse sample_savepoint sample_env "{}"]
    by (simp add: take_savepoint_def ensure_open_def sample_parse_def sample_savepoint_def)
  have acc: "parse_step sample_env (sample_parse, {sample_savepoint}) (t', {sample_savepoint})"
    by (rule parse_step.accept [OF _ m]) (simp add: sample_invocation_def bt_ok_def)
  let ?t = "restore sample_savepoint t'"
  have undo: "parse_step sample_env (t', {sample_savepoint}) (?t, {sample_savepoint})"
    by (rule parse_step.roll_back [of sample_savepoint]) (simp_all add: rollback_to_def ensure_open_def t' sample_savepoint_def)
  have steps: "parse_steps sample_env (sample_parse, {sample_savepoint}) (?t, {sample_savepoint})"
    using acc undo by (meson rtranclp.rtrancl_into_rtrancl rtranclp.rtrancl_refl)
  have "pt_writes ?t = pt_writes sample_parse"
    by (rule state_revision_sound [OF b(1) _ steps, of 0])
      (use b(2) save t' in \<open>simp_all add: state_revision_def ensure_open_def restore_def sample_savepoint_def sample_parse_def u64_max_def r_into_rtranclp\<close>)
  then show ?thesis using steps t' by (auto simp: restore_def)
qed

lemma sample_delta: "\<exists>d t0 s' t1. defer_since sample_savepoint sample_written = Ret (d, t0) \<and> dl_id d = 0 \<and>
    apply_delta sample_env d (sample_store, t0) = (Ret True, (s', t1))"
  by (simp add: defer_since_def restore_def apply_delta_def merge_into_def session_eval sample_defs sample_written_def sample_savepoint_def
      conflicting_def retained_def bt_set_of_def address_revision_key_def check_namespace_quota_def record_observed_def u64_max_def)

theorem deferred_work_replays_witness:
  "\<exists>d t0 s' t1. defer_since sample_savepoint sample_written = Ret (d, t0) \<and> pt_writes t0 = [] \<and>
    apply_delta sample_env d (sample_store, t0) = (Ret True, (s', t1)) \<and> pt_writes t1 = [(sample_address, Some sample_value)]"
proof -
  obtain d t0 s' t1 where a: "defer_since sample_savepoint sample_written = Ret (d, t0)" "dl_id d = 0"
    "apply_delta sample_env d (sample_store, t0) = (Ret True, (s', t1))"
    using sample_delta by blast
  have ok: "parse_ok sample_written" by (simp add: parse_ok_def bt_ok_def sample_written_def sample_address_def)
  have "pt_writes t0 = [] \<and> pt_writes t1 = pt_writes sample_written"
    using deferred_work_replays [OF ok _ _ a(1) _ a(3)] a(2) by (simp add: sample_savepoint_def bt_ok_def)
  then show ?thesis using a by (auto simp: sample_written_def)
qed

end
