(* ===== verification/Plural_Rules.thy ===== *)
theory Plural_Rules
  imports Utf8 Prelude
begin

text \<open>
  \<open>syntax-pattern-parser/src/plural.rs\<close>: the plural rules of a server, their validation, and
  the conversion of type words.

  The Unicode case mapping of \<open>to_uppercase\<close> and \<open>to_lowercase\<close> is a table of the Unicode
  standard and enters as the parameter \<open>case_table\<close>; no property needs to know it.  The JSON
  deserialization in front of \<open>plural_try_from\<close> is \<open>serde\<close>'s.
\<close>

datatype plural_algorithm = LegacyFirstMatch | SingularAware | Unresolved

datatype plural_rule_origin = BuiltIn | Override

record plural_rule_addon =
  addon_name :: str
  addon_version :: str

record plural_rule =
  rule_order :: nat
  rule_singular :: str
  rule_plural :: str
  complete_word :: "bool option"
  rule_origin :: plural_rule_origin
  override_order :: "nat option"
  rule_addon :: plural_rule_addon

record plural_rules =
  plural_algorithm :: plural_algorithm
  override_supported :: bool
  rules :: "plural_rule list"

record case_table =
  to_upper :: "str \<Rightarrow> str"
  to_lower :: "str \<Rightarrow> str"

datatype plural_rules_error =
    UnresolvedAlgorithm
  | EmptyRules
  | InvalidRuleOrder nat nat
  | MissingCompleteWord nat
  | UnexpectedCompleteWord nat
  | InvalidAddon nat
  | UnsupportedOverride nat
  | OverrideAfterBuiltIn nat
  | MissingOverrideRegistrationOrder nat
  | UnexpectedOverrideRegistrationOrder nat
  | InvalidOverrideRegistrationOrder nat nat
  | InvalidFallbackRule

text \<open>One round of the validation loop; the state is whether a built-in rule was seen and the override orders.\<close>

definition check_rule ::
    "plural_rules \<Rightarrow> nat \<times> plural_rule \<Rightarrow> bool \<times> nat list \<Rightarrow> (plural_rules_error, bool \<times> nat list) outcome" where
  "check_rule raw x st = (case (x, st) of ((expected, rule), (built_in_reached, orders)) \<Rightarrow>
     if rule_order rule \<noteq> expected then Fail (InvalidRuleOrder expected (rule_order rule))
     else if plural_algorithm raw = SingularAware \<and> complete_word rule = None
       then Fail (MissingCompleteWord (rule_order rule))
     else if plural_algorithm raw = LegacyFirstMatch \<and> complete_word rule \<noteq> None
       then Fail (UnexpectedCompleteWord (rule_order rule))
     else if is_blank (addon_name (rule_addon rule)) \<or> is_blank (addon_version (rule_addon rule))
       then Fail (InvalidAddon (rule_order rule))
     else (case rule_origin rule of
         Override \<Rightarrow>
           if \<not> override_supported raw then Fail (UnsupportedOverride (rule_order rule))
           else if built_in_reached then Fail (OverrideAfterBuiltIn (rule_order rule))
           else obind (ok_or (MissingOverrideRegistrationOrder (rule_order rule)) (override_order rule))
             (\<lambda>n. Ret (built_in_reached, orders @ [n]))
       | BuiltIn \<Rightarrow>
           if override_order rule \<noteq> None then Fail (UnexpectedOverrideRegistrationOrder (rule_order rule))
           else Ret (True, orders)))"

definition plural_try_from :: "plural_rules \<Rightarrow> (plural_rules_error, plural_rules) outcome" where
  "plural_try_from raw =
     (if plural_algorithm raw = Unresolved then Fail UnresolvedAlgorithm
      else if rules raw = [] then Fail EmptyRules
      else obind (try_for (check_rule raw) (enumerate 0 (rules raw)) (False, [])) (\<lambda>(_, orders).
        obind (check_all (\<lambda>(expected, actual).
            if expected \<noteq> actual then Fail (InvalidOverrideRegistrationOrder expected actual) else Ret ())
          (enumerate 0 (sort orders))) (\<lambda>_.
        let fallback = last (rules raw) in
        if rule_origin fallback \<noteq> BuiltIn \<or> rule_singular fallback \<noteq> [] \<or> complete_word fallback = Some True
        then Fail InvalidFallbackRule else Ret raw)))"

definition strip_suffix :: "str \<Rightarrow> str \<Rightarrow> str option" where
  "strip_suffix word suffix =
     (if length suffix \<le> length word \<and> drop (length word - length suffix) word = suffix
      then Some (take (length word - length suffix) word) else None)"

definition could_be_singular :: "case_table \<Rightarrow> plural_rules \<Rightarrow> str \<Rightarrow> bool" where
  "could_be_singular tab rs word =
     list_ex (\<lambda>rule. \<not> is_blank (rule_singular rule) \<and>
       (complete_word rule \<noteq> Some True \<or> length word = length (rule_singular rule)) \<and>
       (strip_suffix word (rule_singular rule) \<noteq> None \<or> strip_suffix (to_lower tab word) (rule_singular rule) \<noteq> None))
     (rules rs)"

fun singular_by :: "case_table \<Rightarrow> str \<Rightarrow> plural_rule list \<Rightarrow> str \<times> bool" where
  "singular_by tab word [] = (word, False)"
| "singular_by tab word (rule # rest) =
     (if complete_word rule = Some True \<and> length word \<noteq> length (rule_plural rule) then singular_by tab word rest
      else (case strip_suffix word (rule_plural rule) of
          Some stem \<Rightarrow> (stem @ rule_singular rule, True)
        | None \<Rightarrow> (case strip_suffix word (to_upper tab (rule_plural rule)) of
            Some stem \<Rightarrow> (stem @ to_upper tab (rule_singular rule), True)
          | None \<Rightarrow> singular_by tab word rest)))"

definition to_singular :: "case_table \<Rightarrow> plural_rules \<Rightarrow> str \<Rightarrow> str \<times> bool" where
  "to_singular tab rs word =
     (if word = [] then ([], False)
      else if plural_algorithm rs = SingularAware \<and> could_be_singular tab rs word then (word, False)
      else singular_by tab word (rules rs))"

text \<open>\<open>to_plural\<close>; running out of rules is the \<open>unreachable!\<close> of the source.\<close>

fun plural_by :: "str \<Rightarrow> plural_rule list \<Rightarrow> ('e, str) outcome" where
  "plural_by word [] = Panic"
| "plural_by word (rule # rest) =
     (if complete_word rule = Some True \<and> length word \<noteq> length (rule_singular rule) then plural_by word rest
      else (case strip_suffix word (rule_singular rule) of
          Some stem \<Rightarrow> Ret (stem @ rule_plural rule)
        | None \<Rightarrow> plural_by word rest))"

definition to_plural :: "plural_rules \<Rightarrow> str \<Rightarrow> ('e, str) outcome" where
  "to_plural rs word = plural_by word (rules rs)"

subsection \<open>Validation\<close>

definition rule_ok :: "plural_rules \<Rightarrow> nat \<Rightarrow> plural_rule \<Rightarrow> bool" where
  "rule_ok raw i rule \<longleftrightarrow> rule_order rule = i \<and>
     (complete_word rule = None \<longleftrightarrow> plural_algorithm raw = LegacyFirstMatch) \<and>
     \<not> is_blank (addon_name (rule_addon rule)) \<and> \<not> is_blank (addon_version (rule_addon rule)) \<and>
     (override_order rule = None \<longleftrightarrow> rule_origin rule = BuiltIn) \<and>
     (rule_origin rule = Override \<longrightarrow> override_supported raw)"

definition overrides_of :: "plural_rule list \<Rightarrow> nat list" where
  "overrides_of rs = concat (map (\<lambda>r. case override_order r of None \<Rightarrow> [] | Some n \<Rightarrow> [n]) rs)"

text \<open>
  The invariant a validated set of rules has: numbered rules of the right shape, the overrides first and
  registered in some order 0, 1, 2, and so on, and a built-in fallback that applies to every word.
\<close>

definition plural_rules_ok :: "plural_rules \<Rightarrow> bool" where
  "plural_rules_ok raw \<longleftrightarrow> plural_algorithm raw \<noteq> Unresolved \<and> rules raw \<noteq> [] \<and>
     (\<forall>i < length (rules raw). rule_ok raw i (rules raw ! i)) \<and>
     (\<exists>k \<le> length (rules raw). (\<forall>i < length (rules raw). rule_origin (rules raw ! i) = Override \<longleftrightarrow> i < k)) \<and>
     distinct (overrides_of (rules raw)) \<and> set (overrides_of (rules raw)) = {0..<length (overrides_of (rules raw))} \<and>
     rule_origin (last (rules raw)) = BuiltIn \<and> rule_singular (last (rules raw)) = [] \<and>
     complete_word (last (rules raw)) \<noteq> Some True"

lemma check_rule_Ret_iff:
  assumes "plural_algorithm raw \<noteq> Unresolved"
  shows "check_rule raw (i, rule) (reached, orders) = Ret st \<longleftrightarrow> rule_ok raw i rule \<and> (rule_origin rule = Override \<longrightarrow> \<not> reached) \<and>
    st = (reached \<or> rule_origin rule = BuiltIn, orders @ overrides_of [rule])"
proof (cases "rule_origin rule")
  case BuiltIn
  then show ?thesis using assms
    by (cases "plural_algorithm raw") (auto simp: check_rule_def rule_ok_def overrides_of_def split: if_splits)
next
  case Override
  then show ?thesis using assms
    by (cases "plural_algorithm raw"; cases "override_order rule") (auto simp: check_rule_def rule_ok_def overrides_of_def split: if_splits)
qed

lemma check_rules_Ret_iff:
  assumes "plural_algorithm raw \<noteq> Unresolved"
  shows "try_for (check_rule raw) (enumerate n rs) (reached, orders) = Ret st \<longleftrightarrow>
    (\<forall>i < length rs. rule_ok raw (n + i) (rs ! i)) \<and>
    (\<exists>k \<le> length rs. (\<forall>i < length rs. rule_origin (rs ! i) = Override \<longleftrightarrow> i < k) \<and> (reached \<longrightarrow> k = 0)) \<and>
    st = (reached \<or> (\<exists>r \<in> set rs. rule_origin r = BuiltIn), orders @ overrides_of rs)"
proof (induction rs arbitrary: n reached orders)
  case Nil
  then show ?case by (auto simp: overrides_of_def)
next
  case (Cons rule rs)
  have split: "(\<forall>i < length (rule # rs). P i ((rule # rs) ! i)) \<longleftrightarrow> P 0 rule \<and> (\<forall>i < length rs. P (Suc i) (rs ! i))" for P
    by (auto simp: nth_Cons less_Suc_eq_0_disj split: nat.splits)
  have runs: "(\<exists>k \<le> length (rule # rs). (\<forall>i < length (rule # rs). rule_origin ((rule # rs) ! i) = Override \<longleftrightarrow> i < k) \<and> (reached \<longrightarrow> k = 0)) \<longleftrightarrow>
      (rule_origin rule = Override \<longrightarrow> \<not> reached) \<and>
      (\<exists>k \<le> length rs. (\<forall>i < length rs. rule_origin (rs ! i) = Override \<longleftrightarrow> i < k) \<and> (reached \<or> rule_origin rule = BuiltIn \<longrightarrow> k = 0))"
    (is "?L \<longleftrightarrow> ?R")
  proof
    assume ?L
    then obtain k where k: "k \<le> length (rule # rs)" "reached \<longrightarrow> k = 0"
      "\<forall>i < length (rule # rs). rule_origin ((rule # rs) ! i) = Override \<longleftrightarrow> i < k" by blast
    have h: "rule_origin rule = Override \<longleftrightarrow> 0 < k" "\<forall>i < length rs. rule_origin (rs ! i) = Override \<longleftrightarrow> Suc i < k"
      using k(3) split [of "\<lambda>i r. rule_origin r = Override \<longleftrightarrow> i < k"] by blast+
    have "k - 1 \<le> length rs \<and> (\<forall>i < length rs. rule_origin (rs ! i) = Override \<longleftrightarrow> i < k - 1) \<and>
        (reached \<or> rule_origin rule = BuiltIn \<longrightarrow> k - 1 = 0)"
      using k(1,2) h by auto
    then show ?R using k(2) h(1) by blast
  next
    assume r: ?R
    then obtain k where k: "k \<le> length rs" "\<forall>i < length rs. rule_origin (rs ! i) = Override \<longleftrightarrow> i < k"
      "reached \<or> rule_origin rule = BuiltIn \<longrightarrow> k = 0" by blast
    define j where "j = (if rule_origin rule = Override then Suc k else 0)"
    have "rule_origin rule = Override \<longleftrightarrow> 0 < j" by (simp add: j_def)
    moreover have "\<forall>i < length rs. rule_origin (rs ! i) = Override \<longleftrightarrow> Suc i < j"
      using k by (cases "rule_origin rule") (simp_all add: j_def)
    moreover have "j \<le> length (rule # rs)" "reached \<longrightarrow> j = 0" using k(1) r by (auto simp: j_def)
    ultimately show ?L using split [of "\<lambda>i r. rule_origin r = Override \<longleftrightarrow> i < j"] by blast
  qed
  have "try_for (check_rule raw) (enumerate n (rule # rs)) (reached, orders) = Ret st \<longleftrightarrow>
      rule_ok raw n rule \<and> (rule_origin rule = Override \<longrightarrow> \<not> reached) \<and>
      try_for (check_rule raw) (enumerate (Suc n) rs) (reached \<or> rule_origin rule = BuiltIn, orders @ overrides_of [rule]) = Ret st"
    by (simp only: enumerate_simps try_for.simps obind_Ret_iff check_rule_Ret_iff [OF assms]) blast
  moreover have "(\<forall>i < length (rule # rs). rule_ok raw (n + i) ((rule # rs) ! i)) \<longleftrightarrow>
      rule_ok raw n rule \<and> (\<forall>i < length rs. rule_ok raw (Suc n + i) (rs ! i))"
    using split [of "\<lambda>i. rule_ok raw (n + i)"] by simp
  moreover have "orders @ overrides_of (rule # rs) = (orders @ overrides_of [rule]) @ overrides_of rs"
    by (simp add: overrides_of_def)
  moreover have "(reached \<or> (\<exists>r \<in> set (rule # rs). rule_origin r = BuiltIn)) \<longleftrightarrow>
      ((reached \<or> rule_origin rule = BuiltIn) \<or> (\<exists>r \<in> set rs. rule_origin r = BuiltIn))"
    by simp
  ultimately show ?case unfolding runs by (simp only: Cons.IH) blast
qed

lemma sorted_is_range:
  fixes ns :: "nat list"
  shows "check_all (\<lambda>(expected, actual). if expected \<noteq> actual then Fail (InvalidOverrideRegistrationOrder expected actual) else Ret ())
      (enumerate 0 (sort ns)) = Ret () \<longleftrightarrow> distinct ns \<and> set ns = {0..<length ns}"
    (is "?L \<longleftrightarrow> ?R")
proof -
  have "?L \<longleftrightarrow> (\<forall>(i, n) \<in> set (enumerate 0 (sort ns)). i = n)"
    by (auto simp: check_all_Ret_iff split: if_splits)
  also have "\<dots> \<longleftrightarrow> (\<forall>i < length ns. sort ns ! i = i)"
    by (force simp: set_conv_nth nth_enumerate_eq)
  also have "\<dots> \<longleftrightarrow> sort ns = [0..<length ns]"
    unfolding list_eq_iff_nth_eq [of "sort ns" "[0..<length ns]"] by simp
  also have "\<dots> \<longleftrightarrow> ?R"
  proof
    assume s: "sort ns = [0..<length ns]"
    have "distinct (sort ns)" "set (sort ns) = {0..<length ns}" unfolding s by simp_all
    then show ?R by simp
  next
    assume ?R
    then show "sort ns = [0..<length ns]" by (intro sorted_distinct_set_unique) simp_all
  qed
  finally show ?thesis .
qed

lemma plural_try_from_Ret_iff: "plural_try_from raw = Ret rs \<longleftrightarrow> rs = raw \<and> plural_rules_ok raw"
proof (cases "plural_algorithm raw = Unresolved \<or> rules raw = []")
  case True
  then show ?thesis by (auto simp: plural_try_from_def plural_rules_ok_def)
next
  case False
  then have alg: "plural_algorithm raw \<noteq> Unresolved" by simp
  have "plural_try_from raw = Ret rs \<longleftrightarrow>
      (\<exists>st. try_for (check_rule raw) (enumerate 0 (rules raw)) (False, []) = Ret st \<and>
        (distinct (snd st) \<and> set (snd st) = {0..<length (snd st)}) \<and>
        rule_origin (last (rules raw)) = BuiltIn \<and> rule_singular (last (rules raw)) = [] \<and>
        complete_word (last (rules raw)) \<noteq> Some True \<and> rs = raw)"
    using False by (simp add: plural_try_from_def obind_Ret_iff sorted_is_range Let_def case_prod_beta) blast
  then show ?thesis
    unfolding check_rules_Ret_iff [OF alg] using False
    by (simp add: plural_rules_ok_def) blast
qed

lemma strip_empty [simp]: "strip_suffix word [] = Some word"
  by (simp add: strip_suffix_def)

lemma plural_by_total:
  assumes "rs \<noteq> []" and "rule_singular (last rs) = []" and "complete_word (last rs) \<noteq> Some True"
  shows "\<exists>p. plural_by word rs = Ret p"
  using assms
proof (induction rs)
  case (Cons rule rs)
  then show ?case by (cases "rs = []") (auto split: option.split)
qed simp

text \<open>
  C38. Rules are validated exactly.  \<open>try_from\<close> accepts a set of rules if and only if it satisfies the
  invariant, never panics, and under the invariant every word has a plural: the \<open>unreachable!\<close> of
  \<open>to_plural\<close> is unreachable.
\<close>

theorem plural_rules_validated:
  "(plural_try_from raw = Ret rs \<longleftrightarrow> rs = raw \<and> plural_rules_ok raw) \<and> plural_try_from raw \<noteq> Panic \<and>
   (plural_try_from raw = Ret rs \<longrightarrow> (\<exists>p. (to_plural rs word :: ('e, str) outcome) = Ret p))"
proof -
  have step: "check_rule raw x st \<noteq> Panic" for x st
    by (auto simp: check_rule_def outcome_simps split: prod.splits plural_rule_origin.splits)
  have "try_for (check_rule raw) xs st \<noteq> Panic" for xs st
    using step by (induction xs arbitrary: st) (auto simp: outcome_simps)
  then have "plural_try_from raw \<noteq> Panic"
    by (auto simp: plural_try_from_def outcome_simps Let_def check_all_not_Panic split: prod.splits if_splits)
  then show ?thesis
    using plural_by_total [of "rules raw" word] by (auto simp: plural_try_from_Ret_iff plural_rules_ok_def to_plural_def)
qed

text \<open>The shape of a generated set of rules: an override of an addon in front of the built-in fallback.\<close>

definition sample_rules :: plural_rules where
  "sample_rules = \<lparr>plural_algorithm = SingularAware, override_supported = True, rules =
     [\<lparr>rule_order = 0, rule_singular = ''person'', rule_plural = ''people'', complete_word = Some False,
        rule_origin = Override, override_order = Some 0, rule_addon = \<lparr>addon_name = ''A'', addon_version = ''1''\<rparr>\<rparr>,
      \<lparr>rule_order = 1, rule_singular = [], rule_plural = ''s'', complete_word = Some False,
        rule_origin = BuiltIn, override_order = None, rule_addon = \<lparr>addon_name = ''Skript'', addon_version = ''2''\<rparr>\<rparr>]\<rparr>"

lemma sample_names: "\<not> is_blank ''A''" "\<not> is_blank ''Skript''" "\<not> is_blank ''1''" "\<not> is_blank ''2''"
  by (simp_all add: is_blank_iff utf8_ok.simps utf8_step_def codes_def decode_char_def char_width_def is_whitespace_def)

lemma sample_rules_ok: "plural_try_from sample_rules = Ret sample_rules"
proof -
  have two: "i < 2 \<longleftrightarrow> i = 0 \<or> i = Suc 0" for i by auto
  have "plural_rules_ok sample_rules"
    unfolding plural_rules_ok_def sample_rules_def overrides_of_def
    by (simp add: rule_ok_def sample_names two All_less_Suc numeral_2_eq_2) (auto intro!: exI [of _ "Suc 0"])
  then show ?thesis by (simp add: plural_try_from_Ret_iff)
qed

theorem plural_rules_validated_witness:
  "plural_try_from sample_rules = Ret sample_rules \<and>
   (\<exists>p. (to_plural sample_rules ''message'' :: (plural_rules_error, str) outcome) = Ret p)"
  using plural_rules_validated [of sample_rules sample_rules "''message''"] sample_rules_ok by blast

end
