(* ===== verification/Syntax_Pattern.thy ===== *)
theory Syntax_Pattern
  imports Plural_Rules Text_Range
begin

text \<open>
  \<open>syntax-pattern-parser/src/pattern.rs\<close>: the parser of registration patterns.

  The peekable character iterator of the source is the list of the characters still to come, each
  with its offset, code point and width.  \<open>parse_sequence\<close> and the branch loop of \<open>parse_choice\<close>
  call each other; their recursion is bounded by fuel, and running out of fuel is \<open>Panic\<close>, so that
  the theorem that \<open>parse\<close> never panics shows that the fuel is always enough.  A \<open>Span\<close> of the
  source has the fields of \<open>text_range\<close>.
\<close>

subsection \<open>Data\<close>

type_synonym pchar = "nat \<times> nat \<times> nat"

record type_alternative =
  alt_name :: str
  alt_plural :: bool

record type_expr =
  alternatives :: "type_alternative list"
  nullable :: bool
  allow_literals :: bool
  allow_expressions :: bool
  time :: int

datatype 'a spanned = Spanned (element: 'a) (span: text_range)

datatype pattern_element =
    Literal str
  | Choice "pattern_element spanned list list"
  | Group "pattern_element spanned list"
  | OptionElement "pattern_element spanned list"
  | Regex str
  | TypeExpr type_expr
  | ParseTag str
  | ParseMark int
  | EmptyBranch

type_synonym spanned_element = "pattern_element spanned"

datatype parse_error_kind =
    UnclosedParenthesis
  | UnclosedBracket
  | UnclosedTypeDelimiter
  | UnclosedRegexDelimiter
  | IncorrectTimeState
  | InvalidParseMark

datatype related_span = OpeningDelimiter text_range

record parse_error =
  error_kind :: parse_error_kind
  error_span :: text_range
  related_spans :: "related_span list"

datatype parse_warning = LabelNotSupported text_range

record parse_result =
  elements :: "spanned_element list"
  warnings :: "parse_warning list"

datatype scope = Global | InGroup text_range | InOption text_range

definition is_group :: "scope \<Rightarrow> bool" where
  "is_group sc = (case sc of InGroup _ \<Rightarrow> True | _ \<Rightarrow> False)"

definition is_option :: "scope \<Rightarrow> bool" where
  "is_option sc = (case sc of InOption _ \<Rightarrow> True | _ \<Rightarrow> False)"

definition parse_error :: "parse_error_kind \<Rightarrow> text_range \<Rightarrow> parse_error" where
  "parse_error k r = \<lparr>error_kind = k, error_span = r, related_spans = []\<rparr>"

definition with_related_span :: "parse_error \<Rightarrow> text_range \<Rightarrow> parse_error" where
  "with_related_span e r = e\<lparr>related_spans := related_spans e @ [OpeningDelimiter r]\<rparr>"

subsection \<open>Standard-library helpers\<close>

text \<open>\<open>str::find\<close> of an ASCII character, as the offset of its byte.\<close>

fun find_byte :: "char \<Rightarrow> str \<Rightarrow> nat option" where
  "find_byte c [] = None"
| "find_byte c (x # xs) = (if x = c then Some 0 else map_option Suc (find_byte c xs))"

text \<open>\<open>str::split\<close> at an ASCII character.\<close>

fun split_at_char :: "char \<Rightarrow> str \<Rightarrow> str list" where
  "split_at_char c [] = [[]]"
| "split_at_char c (x # xs) =
     (if x = c then [] # split_at_char c xs
      else (case split_at_char c xs of [] \<Rightarrow> [[x]] | p # ps \<Rightarrow> (x # p) # ps))"

definition is_digit :: "char \<Rightarrow> bool" where
  "is_digit c \<longleftrightarrow> byte CHR ''0'' \<le> byte c \<and> byte c \<le> byte CHR ''9''"

definition decimal :: "str \<Rightarrow> int" where
  "decimal s = foldl (\<lambda>n c. n * 10 + int (byte c - byte CHR ''0'')) 0 s"

text \<open>\<open>str::parse::<i32>\<close>: an optional sign, digits only and at least one, in range.\<close>

definition parse_i32 :: "str \<Rightarrow> int option" where
  "parse_i32 s =
     (let (negative, digits) = (case s of
          [] \<Rightarrow> (False, [])
        | c # cs \<Rightarrow> if c = CHR ''-'' then (True, cs) else if c = CHR ''+'' then (False, cs) else (False, s));
          n = (if negative then - decimal digits else decimal digits)
      in if digits \<noteq> [] \<and> list_all is_digit digits \<and> - (2 ^ 31) \<le> n \<and> n < 2 ^ 31 then Some n else None)"

subsection \<open>Type expressions\<close>

text \<open>The loop over the leading flags.\<close>

fun strip_flags :: "str \<times> type_expr \<Rightarrow> str \<times> type_expr" where
  "strip_flags ([], t) = ([], t)"
| "strip_flags (c # cs, t) =
     (if c = CHR ''-'' then strip_flags (cs, t\<lparr>nullable := True\<rparr>)
      else if c = CHR ''*'' then strip_flags (cs, t\<lparr>allow_expressions := False\<rparr>)
      else if c = CHR ''~'' then strip_flags (cs, t\<lparr>allow_literals := False\<rparr>)
      else (c # cs, t))"

definition parse_pattern_type_expr ::
    "case_table \<Rightarrow> plural_rules \<Rightarrow> str \<Rightarrow> nat \<Rightarrow> (parse_error, type_expr) outcome" where
  "parse_pattern_type_expr tab rs input input_offset =
     (let (body, t) = strip_flags (input, \<lparr>alternatives = [], nullable = False, allow_literals = True,
          allow_expressions = True, time = 0\<rparr>);
          body_offset = length input - length body;
          singular = (\<lambda>word. case to_singular tab rs word of (name, plural) \<Rightarrow> \<lparr>alt_name = name, alt_plural = plural\<rparr>)
      in obind
        (case find_byte CHR ''@'' body of
           Some time_start \<Rightarrow>
             (case parse_i32 (drop (time_start + 1) body) of
                None \<Rightarrow> Fail (parse_error IncorrectTimeState
                  (range_new (input_offset + body_offset + time_start + 1) (input_offset + length input)))
              | Some n \<Rightarrow> Ret (take time_start body, n))
         | None \<Rightarrow> Ret (body, 0))
        (\<lambda>(alts, n). Ret (t\<lparr>alternatives := map singular (split_at_char CHR ''/'' alts), time := n\<rparr>)))"

subsection \<open>Sequences\<close>

definition current_offset :: "pchar list \<Rightarrow> nat \<Rightarrow> nat" where
  "current_offset cs input_len = (case cs of [] \<Rightarrow> input_len | (off, _, _) # _ \<Rightarrow> off)"

fun consume_until :: "nat \<Rightarrow> pchar list \<Rightarrow> pchar list" where
  "consume_until end [] = []"
| "consume_until end ((j, c, w) # cs) =
     (if j < end then consume_until end cs else if j = end then cs else (j, c, w) # cs)"

text \<open>The bytes of one character, as \<open>String::push\<close> appends them.\<close>

definition char_bytes :: "str \<Rightarrow> pchar \<Rightarrow> str" where
  "char_bytes raw x = (case x of (off, _, w) \<Rightarrow> take w (drop off raw))"

text \<open>The local variables of \<open>parse_sequence\<close> with the iterator.\<close>

record sequence_state =
  chars :: "pchar list"
  seq_elements :: "spanned_element list"
  buffer :: str
  buffer_start :: "nat option"
  seq_warnings :: "parse_warning list"

definition push_literal :: "nat \<Rightarrow> sequence_state \<Rightarrow> sequence_state" where
  "push_literal end st =
     (if buffer st = [] then st\<lparr>buffer_start := None\<rparr>
      else st\<lparr>seq_elements := seq_elements st @
          [Spanned (Literal (buffer st)) (range_new (case buffer_start st of None \<Rightarrow> end | Some s \<Rightarrow> s) end)],
        buffer := [], buffer_start := None\<rparr>)"

definition push_char :: "str \<Rightarrow> pchar \<Rightarrow> sequence_state \<Rightarrow> sequence_state" where
  "push_char raw x st =
     st\<lparr>buffer_start := Some (case buffer_start st of None \<Rightarrow> fst x | Some s \<Rightarrow> s),
       buffer := buffer st @ char_bytes raw x\<rparr>"

definition push_element :: "pattern_element \<Rightarrow> text_range \<Rightarrow> pchar list \<Rightarrow> sequence_state \<Rightarrow> sequence_state" where
  "push_element e r cs st = st\<lparr>chars := cs, seq_elements := seq_elements st @ [Spanned e r]\<rparr>"

text \<open>\<open>raw_pattern[content_start..].find(delimiter)\<close> and the content it delimits.\<close>

definition delimited :: "str \<Rightarrow> nat \<Rightarrow> char \<Rightarrow> ('e, nat option) outcome" where
  "delimited raw content_start delimiter =
     obind (expect (str_slice (range_new content_start (length raw)) raw)) (\<lambda>rest.
     Ret (map_option (\<lambda>relative_end. content_start + relative_end) (find_byte delimiter rest)))"

definition unclosed :: "str \<Rightarrow> parse_error_kind \<Rightarrow> text_range \<Rightarrow> parse_error" where
  "unclosed raw k opening = with_related_span (parse_error k (range_new (length raw) (length raw))) opening"

definition regex_step :: "str \<Rightarrow> pchar \<Rightarrow> pchar list \<Rightarrow> sequence_state \<Rightarrow> (parse_error, sequence_state) outcome" where
  "regex_step raw x cs st = (case x of (i, c, w) \<Rightarrow>
     let st = push_literal i st; content_start = i + w in
     obind (delimited raw content_start CHR ''>'') (\<lambda>found. case found of
         Some content_end \<Rightarrow>
           obind (expect (str_slice (range_new content_start content_end) raw)) (\<lambda>regex.
           Ret (push_element (Regex regex) (range_new i (content_end + 1)) (consume_until content_end cs) st))
       | None \<Rightarrow> Fail (unclosed raw UnclosedRegexDelimiter (range_new i content_start))))"

definition type_step ::
    "case_table \<Rightarrow> plural_rules \<Rightarrow> str \<Rightarrow> pchar \<Rightarrow> pchar list \<Rightarrow> sequence_state \<Rightarrow> (parse_error, sequence_state) outcome" where
  "type_step tab rs raw x cs st = (case x of (i, c, w) \<Rightarrow>
     let st = push_literal i st; content_start = i + w in
     obind (delimited raw content_start CHR ''%'') (\<lambda>found. case found of
         Some content_end \<Rightarrow>
           obind (expect (str_slice (range_new content_start content_end) raw)) (\<lambda>content.
           obind (parse_pattern_type_expr tab rs content content_start) (\<lambda>t.
           Ret (push_element (TypeExpr t) (range_new i (content_end + 1)) (consume_until content_end cs) st)))
       | None \<Rightarrow> Fail (unclosed raw UnclosedTypeDelimiter (range_new i content_start))))"

definition escape_step :: "str \<Rightarrow> pchar \<Rightarrow> pchar list \<Rightarrow> sequence_state \<Rightarrow> sequence_state" where
  "escape_step raw x cs st =
     (let st = st\<lparr>buffer_start := Some (case buffer_start st of None \<Rightarrow> fst x | Some s \<Rightarrow> s)\<rparr> in
      case cs of
        escaped # cs' \<Rightarrow> st\<lparr>buffer := buffer st @ char_bytes raw escaped, chars := cs'\<rparr>
      | [] \<Rightarrow> st\<lparr>buffer := buffer st @ [CHR 0x5C], chars := []\<rparr>)"

definition take_start :: "nat \<Rightarrow> sequence_state \<Rightarrow> nat" where
  "take_start i st = (case buffer_start st of None \<Rightarrow> i | Some s \<Rightarrow> s)"

definition tag_step :: "pchar \<Rightarrow> pchar list \<Rightarrow> sequence_state \<Rightarrow> sequence_state" where
  "tag_step x cs st = (case x of (i, c, w) \<Rightarrow>
     push_element (ParseTag (buffer st)) (range_new (take_start i st) (i + w)) cs
       (st\<lparr>buffer := [], buffer_start := None\<rparr>))"

definition mark_step :: "pchar \<Rightarrow> pchar list \<Rightarrow> sequence_state \<Rightarrow> (parse_error, sequence_state) outcome" where
  "mark_step x cs st = (case x of (i, c, w) \<Rightarrow>
     obind (ok_or (parse_error InvalidParseMark (range_new (take_start i st) i)) (parse_i32 (buffer st))) (\<lambda>mark.
     Ret (push_element (ParseMark mark) (range_new (take_start i st) (i + w)) cs
       (st\<lparr>buffer := [], buffer_start := None\<rparr>))))"

definition mark_char :: nat where
  "mark_char = 166"

text \<open>The arms of the loop that neither recurse nor leave it.\<close>

definition leaf_step ::
    "case_table \<Rightarrow> plural_rules \<Rightarrow> str \<Rightarrow> pchar \<Rightarrow> pchar list \<Rightarrow> sequence_state \<Rightarrow> (parse_error, sequence_state) outcome" where
  "leaf_step tab rs raw x cs st = (let c = fst (snd x) in
     if c = byte CHR ''<'' then regex_step raw x cs st
     else if c = byte CHR ''%'' then type_step tab rs raw x cs st
     else if c = byte CHR 0x5C then Ret (escape_step raw x cs st)
     else if c = byte CHR '':'' then Ret (tag_step x cs st)
     else if c = mark_char then mark_step x cs st
     else Ret ((push_char raw x st)\<lparr>chars := cs\<rparr>))"

text \<open>What follows the loop.\<close>

definition sequence_result :: "str \<Rightarrow> sequence_state \<Rightarrow> pchar list \<times> parse_result" where
  "sequence_result raw st =
     (let st = push_literal (current_offset (chars st) (length raw)) st
      in (chars st, \<lparr>elements = seq_elements st, warnings = seq_warnings st\<rparr>))"

definition sequence_start :: "pchar list \<Rightarrow> sequence_state" where
  "sequence_start cs = \<lparr>chars = cs, seq_elements = [], buffer = [], buffer_start = None, seq_warnings = []\<rparr>"

definition closes :: "scope \<Rightarrow> nat \<Rightarrow> bool" where
  "closes sc c \<longleftrightarrow> c = byte CHR '')'' \<and> is_group sc \<or> c = byte CHR '']'' \<and> is_option sc"

record branch_state =
  branch_chars :: "pchar list"
  branches :: "spanned_element list list"
  choice_end :: nat
  choice_warnings :: "parse_warning list"

text \<open>What \<open>parse_choice\<close> does after its loop.\<close>

definition finish_choice ::
    "str \<Rightarrow> scope \<Rightarrow> nat \<Rightarrow> branch_state \<times> bool \<Rightarrow> (parse_error, pchar list \<times> parse_result) outcome" where
  "finish_choice raw sc choice_start x = (case x of (b, closed) \<Rightarrow>
     obind (case sc of
         InGroup opening \<Rightarrow> if \<not> closed then Fail (unclosed raw UnclosedParenthesis opening) else Ret ()
       | InOption opening \<Rightarrow> if \<not> closed then Fail (unclosed raw UnclosedBracket opening) else Ret ()
       | Global \<Rightarrow> Ret ()) (\<lambda>_.
     Ret (branch_chars b,
       (case branches b of
          [es] \<Rightarrow> \<lparr>elements = es, warnings = choice_warnings b\<rparr>
        | bs \<Rightarrow> \<lparr>elements = [Spanned (Choice bs) (range_new choice_start (choice_end b))],
            warnings = choice_warnings b\<rparr>))))"

definition add_branch :: "str \<Rightarrow> branch_state \<Rightarrow> pchar list \<times> parse_result \<Rightarrow> branch_state" where
  "add_branch raw b x = (case x of (cs, r) \<Rightarrow>
     let branch_start = current_offset (branch_chars b) (length raw) in
     \<lparr>branch_chars = cs,
      branches = branches b @
        [if elements r = [] then [Spanned EmptyBranch (range_new branch_start branch_start)] else elements r],
      choice_end = current_offset cs (length raw),
      choice_warnings = choice_warnings b @ warnings r\<rparr>)"

definition choice_begin :: "str \<Rightarrow> pchar list \<Rightarrow> branch_state" where
  "choice_begin raw cs = \<lparr>branch_chars = cs, branches = [], choice_end = current_offset cs (length raw), choice_warnings = []\<rparr>"

fun parse_sequence ::
      "case_table \<Rightarrow> plural_rules \<Rightarrow> str \<Rightarrow> nat \<Rightarrow> scope \<Rightarrow> sequence_state \<Rightarrow> (parse_error, pchar list \<times> parse_result) outcome"
  and choice_loop ::
      "case_table \<Rightarrow> plural_rules \<Rightarrow> str \<Rightarrow> nat \<Rightarrow> scope \<Rightarrow> branch_state \<Rightarrow> (parse_error, branch_state \<times> bool) outcome" where
  "parse_sequence tab rs raw 0 sc st = Panic"
| "parse_sequence tab rs raw (Suc n) sc st =
     (case chars st of
        [] \<Rightarrow> Ret (sequence_result raw st)
      | (i, c, w) # cs \<Rightarrow>
        if c = byte CHR ''('' then
          obind (choice_loop tab rs raw n (InGroup (range_new i (i + w))) (choice_begin raw cs)) (\<lambda>x.
          obind (finish_choice raw (InGroup (range_new i (i + w))) (current_offset cs (length raw)) x) (\<lambda>(cs', group).
          parse_sequence tab rs raw n sc
            (push_element (Group (elements group)) (range_new i (current_offset cs' (length raw))) cs'
              ((push_literal i st)\<lparr>seq_warnings := seq_warnings st @ warnings group\<rparr>))))
        else if c = byte CHR ''['' then
          obind (choice_loop tab rs raw n (InOption (range_new i (i + w))) (choice_begin raw cs)) (\<lambda>x.
          obind (finish_choice raw (InOption (range_new i (i + w))) (current_offset cs (length raw)) x) (\<lambda>(cs', group).
          parse_sequence tab rs raw n sc
            (push_element (OptionElement (elements group)) (range_new i (current_offset cs' (length raw))) cs'
              ((push_literal i st)\<lparr>seq_warnings := seq_warnings st @ warnings group\<rparr>))))
        else if closes sc c \<or> c = byte CHR ''|'' then Ret (sequence_result raw (push_literal i st))
        else obind (leaf_step tab rs raw (i, c, w) cs st) (parse_sequence tab rs raw n sc))"
| "choice_loop tab rs raw 0 sc b = Panic"
| "choice_loop tab rs raw (Suc n) sc b =
     obind (parse_sequence tab rs raw n sc (sequence_start (branch_chars b))) (\<lambda>x.
     let b = add_branch raw b x in
     case branch_chars b of
       [] \<Rightarrow> Ret (b, False)
     | (_, c, _) # cs \<Rightarrow>
       if c = byte CHR ''|'' then choice_loop tab rs raw n sc (b\<lparr>branch_chars := cs\<rparr>)
       else if closes sc c then Ret (b\<lparr>branch_chars := cs\<rparr>, True)
       else Ret (b, False))"

definition parse_choice ::
    "case_table \<Rightarrow> plural_rules \<Rightarrow> str \<Rightarrow> nat \<Rightarrow> scope \<Rightarrow> pchar list \<Rightarrow> (parse_error, pchar list \<times> parse_result) outcome" where
  "parse_choice tab rs raw n sc cs =
     obind (choice_loop tab rs raw n sc (choice_begin raw cs)) (finish_choice raw sc (current_offset cs (length raw)))"

definition pattern_fuel :: "str \<Rightarrow> nat" where
  "pattern_fuel raw = 2 * length raw + 2"

definition parse :: "case_table \<Rightarrow> plural_rules \<Rightarrow> str \<Rightarrow> (parse_error, parse_result) outcome" where
  "parse tab rs raw = obind (parse_choice tab rs raw (pattern_fuel raw) Global (char_indices raw)) (\<lambda>(_, r). Ret r)"

subsection \<open>Printing type expressions\<close>

text \<open>Decimal digits of a number, as \<open>write!\<close> prints an \<open>i32\<close>.\<close>

fun show_nat :: "nat \<Rightarrow> str" where
  "show_nat n = (if n < 10 then [char_of (byte CHR ''0'' + n)] else show_nat (n div 10) @ [char_of (byte CHR ''0'' + n mod 10)])"

declare show_nat.simps [simp del]

definition show_i32 :: "int \<Rightarrow> str" where
  "show_i32 n = (if n < 0 then CHR ''-'' # show_nat (nat (- n)) else show_nat (nat n))"

definition display_alternative :: "plural_rules \<Rightarrow> type_alternative \<Rightarrow> ('e, str) outcome" where
  "display_alternative rs a = (if alt_plural a then to_plural rs (alt_name a) else Ret (alt_name a))"

fun display_alternatives :: "plural_rules \<Rightarrow> type_alternative list \<Rightarrow> ('e, str) outcome" where
  "display_alternatives rs [] = Ret []"
| "display_alternatives rs [a] = display_alternative rs a"
| "display_alternatives rs (a # as) =
     obind (display_alternative rs a) (\<lambda>s. obind (display_alternatives rs as) (\<lambda>t. Ret (s @ CHR ''/'' # t)))"

definition display_flags :: "type_expr \<Rightarrow> str" where
  "display_flags t =
     (if nullable t then ''-'' else []) @
     (if \<not> allow_literals t then ''~'' else if \<not> allow_expressions t then ''*'' else [])"

definition display_type_expr :: "plural_rules \<Rightarrow> type_expr \<Rightarrow> ('e, str) outcome" where
  "display_type_expr rs t =
     obind (display_alternatives rs (alternatives t)) (\<lambda>s.
     Ret (display_flags t @ s @ (if time t \<noteq> 0 then CHR ''@'' # show_i32 (time t) else [])))"

end
