(* ===== verification/Pattern_Grammar.thy ===== *)
theory Pattern_Grammar
  imports Syntax_Pattern
begin

text \<open>
  The grammar of registration patterns, stated over the bytes of the source, and the proof that
  \<open>parse\<close> decides it: what it returns is derived from the source and covers all of it, whatever is
  derivable is returned, and every error names a real defect of the source.
\<close>

subsection \<open>Characters of a segment\<close>

definition segment :: "str \<Rightarrow> nat \<Rightarrow> nat \<Rightarrow> pchar list" where
  "segment raw i j = chars_from i (take (j - i) (drop i raw))"

abbreviation rest_from :: "str \<Rightarrow> nat \<Rightarrow> pchar list" where
  "rest_from raw i \<equiv> segment raw i (length raw)"

definition char_at :: "str \<Rightarrow> nat \<Rightarrow> char \<Rightarrow> bool" where
  "char_at raw i c \<longleftrightarrow> i < length raw \<and> raw ! i = c"

lemma segment_empty [simp]: "segment raw i i = []"
  by (simp add: segment_def)

lemma rest_from_0: "rest_from raw 0 = char_indices raw"
  by (simp add: segment_def)

lemma rest_from_eq: "rest_from raw i = chars_from i (drop i raw)"
  by (simp add: segment_def)

lemma rest_from_eq_Nil [simp]: "rest_from raw i = [] \<longleftrightarrow> length raw \<le> i"
  by (cases "drop i raw") (auto simp: rest_from_eq)

lemma segment_split:
  assumes "utf8_ok raw" and "is_char_boundary raw i" "is_char_boundary raw j" and "i \<le> j" "j \<le> k"
  shows "segment raw i k = segment raw i j @ segment raw j k"
proof -
  have ok: "utf8_ok (drop i raw)" using utf8_ok_take_drop assms(1,2) by blast
  have "is_char_boundary (drop i raw) (j - i)" using assms(2-4) by (simp add: boundary_drop)
  then have t: "utf8_ok (take (j - i) (drop i raw))" using utf8_ok_take_drop [OF ok] by blast
  have j: "j \<le> length raw" using assms(3) by (rule boundary_le)
  have "take (k - i) (drop i raw) = take (j - i) (drop i raw) @ take (k - j) (drop j raw)"
  proof -
    have "take (k - i) (drop i raw) = take ((j - i) + (k - j)) (drop i raw)" using assms by simp
    also have "\<dots> = take (j - i) (drop i raw) @ take (k - j) (drop (j - i) (drop i raw))" by (rule take_add)
    finally show ?thesis using assms by simp
  qed
  then show ?thesis using chars_from_append [OF t, of i "take (k - j) (drop j raw)"] assms j
    by (simp add: segment_def min_def)
qed

lemma rest_from_Cons:
  assumes ok: "utf8_ok raw" and b: "is_char_boundary raw k" and r: "rest_from raw k = (i, c, w) # cs"
  shows "i = k" "0 < w" "k + w \<le> length raw" "is_char_boundary raw (k + w)" "cs = rest_from raw (k + w)"
    "segment raw k (k + w) = [(k, c, w)]" "c = decode_char (drop k raw)" "utf8_step (drop k raw) = Some w"
proof -
  have ok': "utf8_ok (drop k raw)" using utf8_ok_take_drop ok b by blast
  obtain a t where d: "drop k raw = a # t" using r by (cases "drop k raw") (auto simp: rest_from_eq)
  then obtain n where n: "utf8_step (drop k raw) = Some n" using ok' utf8_ok_step [of "drop k raw"] by auto
  note st = utf8_step_Some [OF n]
  have wn: "w = n" and e: "i = k" "c = decode_char (drop k raw)" "cs = chars_from (k + w) (drop w (drop k raw))"
    using r n d utf8_step_char_width [of a t n] by (auto simp: rest_from_eq)
  show "i = k" "c = decode_char (drop k raw)" by fact+
  have "n \<le> length raw - k" using st(2) by simp
  moreover have "k < length raw" using d by (metis drop_all list.distinct(1) not_le)
  ultimately show "0 < w" "k + w \<le> length raw" using st(1) wn by auto
  show "utf8_step (drop k raw) = Some w" using n wn by simp
  show "cs = rest_from raw (k + w)" using e(3) by (simp add: rest_from_eq add.commute)
  have "is_char_boundary (drop k raw) n"
  proof -
    have "utf8_ok (drop n (drop k raw))" using ok' n utf8_ok_step [of "drop k raw"] d by auto
    from boundary_append [OF this, of "take n (drop k raw)" 0] show ?thesis using st(2) by (simp del: drop_drop)
  qed
  then show "is_char_boundary raw (k + w)" using b wn by (simp add: boundary_drop)
  show "segment raw k (k + w) = [(k, c, w)]"
    using chars_from_single(2) [OF n, of k] wn e(2) by (simp add: segment_def)
qed

lemma current_offset_rest [simp]:
  assumes "k \<le> length raw"
  shows "current_offset (rest_from raw k) (length raw) = k"
  using assms by (cases "drop k raw") (auto simp: current_offset_def rest_from_eq)

text \<open>ASCII characters are their byte.\<close>

lemma mod_window: "q * m \<le> x \<Longrightarrow> x < q * m + m \<Longrightarrow> x mod m = x - q * m" for x :: nat
  by (metis add.commute le_add_diff_inverse less_diff_conv2 mod_less mod_mult_self1 mult.commute add_diff_cancel_left')

lemma lead_byte_bits:
  fixes x y :: nat
  shows "224 \<le> x \<Longrightarrow> x < 240 \<Longrightarrow> (x = 224 \<Longrightarrow> 160 \<le> y \<and> y < 192) \<Longrightarrow> 1 \<le> x mod 16 \<or> 32 \<le> y mod 64"
    and "240 \<le> x \<Longrightarrow> x < 245 \<Longrightarrow> (x = 240 \<Longrightarrow> 144 \<le> y \<and> y < 192) \<Longrightarrow> 1 \<le> x mod 8 \<or> 16 \<le> y mod 64"
proof -
  have m: "160 \<le> y \<Longrightarrow> y < 192 \<Longrightarrow> 32 \<le> y mod 64" "144 \<le> y \<Longrightarrow> y < 192 \<Longrightarrow> 16 \<le> y mod 64"
    using mod_window [of 2 64 y] by simp_all
  have n: "224 < x \<Longrightarrow> x < 240 \<Longrightarrow> 1 \<le> x mod 16" "240 < x \<Longrightarrow> x < 245 \<Longrightarrow> 1 \<le> x mod 8"
    using mod_window [of 14 16 x] mod_window [of 30 8 x] by simp_all
  show "224 \<le> x \<Longrightarrow> x < 240 \<Longrightarrow> (x = 224 \<Longrightarrow> 160 \<le> y \<and> y < 192) \<Longrightarrow> 1 \<le> x mod 16 \<or> 32 \<le> y mod 64"
    using m n by (cases "x = 224") auto
  show "240 \<le> x \<Longrightarrow> x < 245 \<Longrightarrow> (x = 240 \<Longrightarrow> 144 \<le> y \<and> y < 192) \<Longrightarrow> 1 \<le> x mod 8 \<or> 16 \<le> y mod 64"
    using m n by (cases "x = 240") auto
qed

lemma decode_char_lead:
  assumes "utf8_step s = Some n"
  shows "decode_char s < 128 \<longleftrightarrow> byte (hd s) < 128"
  using assms
proof (cases rule: utf8_step_cases)
  case (One a t)
  then show ?thesis by (simp add: decode_char_def char_width_def)
next
  case (Two a b t)
  have "2 \<le> byte a mod 32" using Two mod_window [of 6 32 "byte a"] by simp
  then show ?thesis using Two by (simp add: decode_char_def char_width_def)
next
  case (Three a b c t)
  have "1 \<le> byte a mod 16 \<or> 32 \<le> byte b mod 64"
    using lead_byte_bits(1) [OF Three(3,4)] Three(5) by (simp add: second_byte_ok_def)
  then have "2 \<le> byte a mod 16 * 64 + byte b mod 64" by auto
  then show ?thesis using Three by (simp add: decode_char_def char_width_def byte_at_def)
next
  case (Four a b c d t)
  have "1 \<le> byte a mod 8 \<or> 16 \<le> byte b mod 64"
    using lead_byte_bits(2) [OF Four(3,4)] Four(5) by (simp add: second_byte_ok_def)
  then have "2 \<le> byte a mod 8 * 64 + byte b mod 64" by auto
  then show ?thesis using Four by (simp add: decode_char_def char_width_def byte_at_def)
qed

lemma ascii_head:
  assumes "utf8_ok raw" and "is_char_boundary raw k" and "rest_from raw k = (i, c, w) # cs"
  shows "c < 128 \<longleftrightarrow> byte (raw ! k) < 128" "c < 128 \<Longrightarrow> w = 1 \<and> raw ! k = char_of c \<and> k < length raw"
    "byte (raw ! k) < 128 \<Longrightarrow> c = byte (raw ! k)"
proof -
  have s: "utf8_step (drop k raw) = Some w" "c = decode_char (drop k raw)" and kl: "k < length raw"
    using rest_from_Cons [OF assms] by auto
  have d: "drop k raw = raw ! k # drop (Suc k) raw" using kl by (simp add: Cons_nth_drop_Suc)
  have w1: "byte (raw ! k) < 128 \<Longrightarrow> w = 1 \<and> c = byte (raw ! k)"
    using s unfolding d by (auto simp: utf8_step_def decode_char_def char_width_def)
  have c: "c < 128 \<longleftrightarrow> byte (raw ! k) < 128" using decode_char_lead [OF s(1)] s(2) d by simp
  then show "c < 128 \<longleftrightarrow> byte (raw ! k) < 128" .
  show "byte (raw ! k) < 128 \<Longrightarrow> c = byte (raw ! k)" using w1 by simp
  show "c < 128 \<Longrightarrow> w = 1 \<and> raw ! k = char_of c \<and> k < length raw" using w1 c kl by auto
qed

subsection \<open>Reading characters\<close>

definition mark_at :: "str \<Rightarrow> nat \<Rightarrow> bool" where
  "mark_at raw j \<longleftrightarrow> char_at raw j CHR 0xC2 \<and> char_at raw (j + 1) CHR 0xA6"

definition between :: "str \<Rightarrow> nat \<Rightarrow> nat \<Rightarrow> str" where
  "between raw i j = take (j - i) (drop i raw)"

lemma rest_from_cases:
  assumes "utf8_ok raw" and "is_char_boundary raw k" and "k < length raw"
  obtains w where "rest_from raw k = (k, decode_char (drop k raw), w) # rest_from raw (k + w)" "0 < w"
    "k + w \<le> length raw" "is_char_boundary raw (k + w)"
    "segment raw k (k + w) = [(k, decode_char (drop k raw), w)]" "utf8_step (drop k raw) = Some w"
proof -
  obtain i c w cs where r: "rest_from raw k = (i, c, w) # cs"
    using assms(3) rest_from_eq_Nil [of raw k] by (cases "rest_from raw k") auto
  note h = rest_from_Cons [OF assms(1,2) r]
  show thesis by (rule that [of w]) (use h r in auto)
qed

lemma drop_char_at: "char_at raw j a \<Longrightarrow> drop j raw = a # drop (Suc j) raw"
  by (auto simp: char_at_def Cons_nth_drop_Suc)

lemma ascii_rest:
  assumes ok: "utf8_ok raw" and at: "char_at raw j a" and asc: "byte a < 128"
  shows "is_char_boundary raw j" "is_char_boundary raw (j + 1)" "rest_from raw j = (j, byte a, 1) # rest_from raw (j + 1)"
proof -
  have j: "j < length raw" "raw ! j = a" using at by (auto simp: char_at_def)
  show b: "is_char_boundary raw j" using boundary_ascii j asc by simp
  show "is_char_boundary raw (j + 1)" using boundary_after_ascii [OF ok] j asc by simp
  obtain w where w: "rest_from raw j = (j, decode_char (drop j raw), w) # rest_from raw (j + w)"
    using rest_from_cases [OF ok b j(1)] by metis
  have "decode_char (drop j raw) = byte a" "w = 1"
    using ascii_head [OF ok b w] asc j by auto
  then show "rest_from raw j = (j, byte a, 1) # rest_from raw (j + 1)" using w by simp
qed

lemma ascii_char:
  assumes "utf8_ok raw" and "is_char_boundary raw k" and "rest_from raw k = (i, byte a, w) # cs" and "byte a < 128"
  shows "char_at raw k a" "i = k" "w = 1" "cs = rest_from raw (k + 1)"
proof -
  have "w = 1 \<and> raw ! k = char_of (byte a) \<and> k < length raw" using ascii_head(2) [OF assms(1-3)] assms(4) by simp
  then show "char_at raw k a" "w = 1" by (simp_all add: char_at_def)
  then show "i = k" "cs = rest_from raw (k + 1)" using rest_from_Cons [OF assms(1-3)] by simp_all
qed

lemma decode_char_mark:
  assumes "utf8_step s = Some n"
  shows "decode_char s = mark_char \<longleftrightarrow> n = 2 \<and> s ! 0 = CHR 0xC2 \<and> s ! 1 = CHR 0xA6"
  using assms
proof (cases rule: utf8_step_cases)
  case (One a t)
  then show ?thesis by (simp add: decode_char_def char_width_def mark_char_def)
next
  case (Two a b t)
  have ab: "byte a mod 32 = byte a - 192" "byte b mod 64 = byte b - 128"
    using Two mod_window [of 6 32 "byte a"] mod_window [of 2 64 "byte b"] by (auto simp: is_cont_def)
  have "decode_char s = mark_char \<longleftrightarrow> (byte a - 192) * 64 + (byte b - 128) = 166"
    using Two by (simp add: decode_char_def char_width_def byte_at_def mark_char_def ab)
  also have "\<dots> \<longleftrightarrow> byte a = 194 \<and> byte b = 166"
  proof -
    obtain x y where "byte a = 192 + x" "byte b = 128 + y" "y < 64" "2 \<le> x"
      using Two nat_le_iff_add [of 192 "byte a"] nat_le_iff_add [of 128 "byte b"] by (auto simp: is_cont_def)
    moreover have "x * 64 + y = 166 \<longleftrightarrow> x = 2 \<and> y = 38" if "y < 64" "2 \<le> x" for x y :: nat using that by arith
    ultimately show ?thesis by simp
  qed
  also have "\<dots> \<longleftrightarrow> a = CHR 0xC2 \<and> b = CHR 0xA6"
  proof -
    have "byte a = 194 \<longleftrightarrow> byte a = byte CHR 0xC2" "byte b = 166 \<longleftrightarrow> byte b = byte CHR 0xA6" by simp_all
    then show ?thesis by (simp only: of_char_eq_iff)
  qed
  finally show ?thesis using Two by simp
next
  case (Three a b c t)
  have "1 \<le> byte a mod 16 \<or> 32 \<le> byte b mod 64"
    using lead_byte_bits(1) [OF Three(3,4)] Three(5) by (simp add: second_byte_ok_def)
  then have "3 \<le> byte a mod 16 * 64 + byte b mod 64" by auto
  then show ?thesis using Three by (simp add: decode_char_def char_width_def byte_at_def mark_char_def)
next
  case (Four a b c d t)
  have "1 \<le> byte a mod 8 \<or> 16 \<le> byte b mod 64"
    using lead_byte_bits(2) [OF Four(3,4)] Four(5) by (simp add: second_byte_ok_def)
  then have "3 \<le> byte a mod 8 * 64 + byte b mod 64" by auto
  then show ?thesis using Four by (simp add: decode_char_def char_width_def byte_at_def mark_char_def)
qed

lemma mark_rest:
  assumes ok: "utf8_ok raw" and at: "mark_at raw j"
  shows "is_char_boundary raw j" "is_char_boundary raw (j + 2)" "rest_from raw j = (j, mark_char, 2) # rest_from raw (j + 2)"
proof -
  have j: "j + 1 < length raw" "raw ! j = CHR 0xC2" "raw ! (j + 1) = CHR 0xA6" using at by (auto simp: mark_at_def char_at_def)
  then show b: "is_char_boundary raw j" by (auto simp: is_char_boundary_def is_cont_def)
  have "j < length raw" using j(1) by simp
  from rest_from_cases [OF ok b this] obtain w where
    w: "rest_from raw j = (j, decode_char (drop j raw), w) # rest_from raw (j + w)" "utf8_step (drop j raw) = Some w"
      "is_char_boundary raw (j + w)" by metis
  have "drop j raw = CHR 0xC2 # CHR 0xA6 # drop (j + 2) raw"
    using j by (simp add: list_eq_iff_nth_eq nth_Cons split: nat.split)
  then have "decode_char (drop j raw) = mark_char \<and> w = 2"
    using w(2) by (auto simp: utf8_step_def decode_char_def char_width_def byte_at_def mark_char_def is_cont_def)
  then show "rest_from raw j = (j, mark_char, 2) # rest_from raw (j + 2)" "is_char_boundary raw (j + 2)" using w by auto
qed

lemma mark_char_at:
  assumes "utf8_ok raw" and "is_char_boundary raw k" and "rest_from raw k = (i, mark_char, w) # cs"
  shows "mark_at raw k" "w = 2"
proof -
  have s: "utf8_step (drop k raw) = Some w" "decode_char (drop k raw) = mark_char" "0 < w" "k + w \<le> length raw"
    using rest_from_Cons [OF assms] by auto
  then have "w = 2 \<and> drop k raw ! 0 = CHR 0xC2 \<and> drop k raw ! 1 = CHR 0xA6"
    using decode_char_mark by blast
  then show "mark_at raw k" "w = 2" using s(4) by (simp_all add: mark_at_def char_at_def)
qed

lemma find_byte_None [simp]: "find_byte c s = None \<longleftrightarrow> c \<notin> set s"
  by (induction s) auto

lemma find_byte_Some: "find_byte c s = Some n \<longleftrightarrow> n < length s \<and> s ! n = c \<and> c \<notin> set (take n s)"
proof (induction s arbitrary: n)
  case (Cons x s)
  then show ?case by (cases n) auto
qed simp

lemma consume_until_append: "(\<And>x. x \<in> set xs \<Longrightarrow> fst x < e) \<Longrightarrow> consume_until e (xs @ ys) = consume_until e ys"
  by (induction xs) force+

lemma segment_offsets:
  assumes "utf8_ok raw" "is_char_boundary raw i" "is_char_boundary raw j" "i \<le> j" "x \<in> set (segment raw i j)"
  shows "i \<le> fst x" "fst x < j" "char_bytes raw x \<noteq> []"
proof -
  have ok: "utf8_ok (drop i raw)" using utf8_ok_take_drop assms(1,2) by blast
  have "is_char_boundary (drop i raw) (j - i)" using assms(2-4) by (simp add: boundary_drop)
  then have t: "utf8_ok (take (j - i) (drop i raw))" using utf8_ok_take_drop [OF ok] by blast
  obtain f c w where x: "x = (f, c, w)" by (cases x)
  have xm: "(f, c, w) \<in> set (chars_from i (take (j - i) (drop i raw)))" using assms(5) x by (simp add: segment_def)
  have "i \<le> f" "0 < w" "f - i + w \<le> j - i"
    using chars_from_boundary [OF t xm] boundary_le [of "take (j - i) (drop i raw)" "f - i + w"] by auto
  moreover have "j \<le> length raw" using assms(3) by (rule boundary_le)
  ultimately show "i \<le> fst x" "fst x < j" "char_bytes raw x \<noteq> []"
    using x by (auto simp: char_bytes_def)
qed

lemma consume_until_rest:
  assumes ok: "utf8_ok raw" and b: "is_char_boundary raw k" "k \<le> j" and at: "char_at raw j a" "byte a < 128"
  shows "consume_until j (rest_from raw k) = rest_from raw (j + 1)"
proof -
  note r = ascii_rest [OF ok at]
  have "j \<le> length raw" using at by (simp add: char_at_def)
  then have "rest_from raw k = segment raw k j @ rest_from raw j"
    by (rule segment_split [OF ok b(1) r(1) b(2)])
  also have "consume_until j \<dots> = consume_until j (rest_from raw j)"
    using segment_offsets(2) [OF ok b(1) r(1) b(2)] by (rule consume_until_append)
  finally show ?thesis unfolding r(3) by simp
qed

lemma delimited_eq:
  assumes "is_char_boundary raw k"
  shows "delimited raw k d = Ret (map_option (\<lambda>n. k + n) (find_byte d (drop k raw)))"
proof -
  have "k \<le> length raw" using assms by (rule boundary_le)
  then have "str_slice (range_new k (length raw)) raw = Some (drop k raw)"
    using assms by (simp add: str_slice_def)
  then show ?thesis by (simp add: delimited_def)
qed

lemma delimited_cases:
  assumes ok: "utf8_ok raw" and b: "is_char_boundary raw k" and d: "byte d < 128"
  obtains (found) j where "delimited raw k d = (Ret (Some j) :: (parse_error, nat option) outcome)" "k \<le> j" "char_at raw j d" "d \<notin> set (between raw k j)"
      "str_slice (range_new k j) raw = Some (between raw k j)" "is_char_boundary raw (j + 1)"
      "consume_until j (rest_from raw k) = rest_from raw (j + 1)"
  | (missing) "delimited raw k d = (Ret None :: (parse_error, nat option) outcome)" "d \<notin> set (drop k raw)"
proof (cases "find_byte d (drop k raw)")
  case None
  then have "d \<notin> set (drop k raw)" by simp
  then show thesis using missing None by (simp add: delimited_eq [OF b])
next
  case (Some n)
  then have n: "n < length raw - k" "raw ! (k + n) = d" "d \<notin> set (take n (drop k raw))" by (auto simp: find_byte_Some)
  have at: "char_at raw (k + n) d" using n by (simp add: char_at_def)
  note r = ascii_rest [OF ok at d]
  show thesis
  proof (rule found [of "k + n"])
    show "delimited raw k d = Ret (Some (k + n))" using Some by (simp add: delimited_eq [OF b])
    show "k \<le> k + n" by simp
    show "char_at raw (k + n) d" by (fact at)
    show "d \<notin> set (between raw k (k + n))" using n(3) by (simp add: between_def)
    show "str_slice (range_new k (k + n)) raw = Some (between raw k (k + n))"
      using b r(1) by (simp add: str_slice_def between_def)
    show "is_char_boundary raw (k + n + 1)" by (fact r(2))
    show "consume_until (k + n) (rest_from raw k) = rest_from raw (k + n + 1)"
      using consume_until_rest [OF ok b _ at d] by simp
  qed
qed

subsection \<open>Literal text\<close>

definition backslash :: nat where
  "backslash = byte CHR 0x5C"

text \<open>The text a run of characters stands for once its escapes are resolved.\<close>

fun unescape :: "str \<Rightarrow> pchar list \<Rightarrow> str" where
  "unescape raw [] = []"
| "unescape raw [x] = char_bytes raw x"
| "unescape raw (x # y # cs) =
     (if fst (snd x) = backslash then char_bytes raw y @ unescape raw cs
      else char_bytes raw x @ unescape raw (y # cs))"

text \<open>No escape is left open at the end.\<close>

fun complete :: "pchar list \<Rightarrow> bool" where
  "complete [] = True"
| "complete [x] = (fst (snd x) \<noteq> backslash)"
| "complete (x # y # cs) = (if fst (snd x) = backslash then complete cs else complete (y # cs))"

definition special :: "scope \<Rightarrow> nat \<Rightarrow> bool" where
  "special sc c \<longleftrightarrow> c \<in> byte ` set ''([<%|:'' \<or> c = mark_char \<or>
     (case sc of Global \<Rightarrow> False | InGroup _ \<Rightarrow> c = byte CHR '')'' | InOption _ \<Rightarrow> c = byte CHR '']'')"

lemma special_closes: "special sc c \<longleftrightarrow> c \<in> byte ` set ''([<%|:'' \<or> c = mark_char \<or> closes sc c"
  by (cases sc) (auto simp: special_def closes_def is_group_def is_option_def)

text \<open>Every special character is escaped.\<close>

fun plain :: "scope \<Rightarrow> pchar list \<Rightarrow> bool" where
  "plain sc [] = True"
| "plain sc [x] = (\<not> special sc (fst (snd x)))"
| "plain sc (x # y # cs) =
     (if fst (snd x) = backslash then plain sc cs else \<not> special sc (fst (snd x)) \<and> plain sc (y # cs))"

lemma not_special_backslash [simp]: "\<not> special sc backslash"
  by (auto simp: special_closes backslash_def mark_char_def closes_def)

lemma complete_append: "complete xs \<Longrightarrow> complete (xs @ ys) \<longleftrightarrow> complete ys"
  by (induction xs rule: complete.induct) (cases ys; auto)+

lemma unescape_append: "complete xs \<Longrightarrow> unescape raw (xs @ ys) = unescape raw xs @ unescape raw ys"
  by (induction xs rule: complete.induct) (cases ys; auto)+

lemma plain_append: "complete xs \<Longrightarrow> plain sc (xs @ ys) \<longleftrightarrow> plain sc xs \<and> plain sc ys"
  by (induction xs rule: complete.induct) (cases ys; auto)+

definition literal_at :: "str \<Rightarrow> scope \<Rightarrow> nat \<Rightarrow> nat \<Rightarrow> str \<Rightarrow> bool" where
  "literal_at raw sc i j s \<longleftrightarrow>
     i \<le> j \<and> is_char_boundary raw i \<and> is_char_boundary raw j \<and> plain sc (segment raw i j) \<and>
     (complete (segment raw i j) \<or> j = length raw) \<and> s = unescape raw (segment raw i j)"

subsection \<open>The grammar\<close>

fun bracketed :: "pattern_element \<Rightarrow> bool" where
  "bracketed (Group es) = True"
| "bracketed (OptionElement es) = True"
| "bracketed (Regex s) = True"
| "bracketed (TypeExpr t) = True"
| "bracketed e = False"

fun is_literal :: "pattern_element \<Rightarrow> bool" where
  "is_literal (Literal s) = True"
| "is_literal e = False"

text \<open>A literal extends as far as it can: only an element in delimiters may follow it.\<close>

definition follows :: "spanned_element \<Rightarrow> spanned_element list \<Rightarrow> bool" where
  "follows e es \<longleftrightarrow> is_literal (element e) \<longrightarrow> (case es of [] \<Rightarrow> True | f # _ \<Rightarrow> bracketed (element f))"

text \<open>\<open>element_at sc i e j\<close>: the bytes from \<open>i\<close> to \<open>j\<close> are an occurrence of the element \<open>e\<close>.\<close>

inductive element_at :: "case_table \<Rightarrow> plural_rules \<Rightarrow> str \<Rightarrow> scope \<Rightarrow> nat \<Rightarrow> spanned_element \<Rightarrow> nat \<Rightarrow> bool"
  and items_at :: "case_table \<Rightarrow> plural_rules \<Rightarrow> str \<Rightarrow> scope \<Rightarrow> nat \<Rightarrow> spanned_element list \<Rightarrow> nat \<Rightarrow> bool"
  and branch_at :: "case_table \<Rightarrow> plural_rules \<Rightarrow> str \<Rightarrow> scope \<Rightarrow> nat \<Rightarrow> spanned_element list \<Rightarrow> nat \<Rightarrow> bool"
  and branches_at :: "case_table \<Rightarrow> plural_rules \<Rightarrow> str \<Rightarrow> scope \<Rightarrow> nat \<Rightarrow> spanned_element list list \<Rightarrow> nat \<Rightarrow> bool"
  and body_at :: "case_table \<Rightarrow> plural_rules \<Rightarrow> str \<Rightarrow> scope \<Rightarrow> nat \<Rightarrow> spanned_element list \<Rightarrow> nat \<Rightarrow> bool"
  for tab :: case_table and rs :: plural_rules and raw :: str where
  literal: "literal_at raw sc i j s \<Longrightarrow> i < j \<Longrightarrow>
    element_at tab rs raw sc i (Spanned (Literal s) (range_new i j)) j"
| group: "char_at raw i CHR ''('' \<Longrightarrow> body_at tab rs raw (InGroup (range_new i (i + 1))) (i + 1) es j \<Longrightarrow>
    char_at raw j CHR '')'' \<Longrightarrow>
    element_at tab rs raw sc i (Spanned (Group es) (range_new i (j + 1))) (j + 1)"
| option: "char_at raw i CHR ''['' \<Longrightarrow> body_at tab rs raw (InOption (range_new i (i + 1))) (i + 1) es j \<Longrightarrow>
    char_at raw j CHR '']'' \<Longrightarrow>
    element_at tab rs raw sc i (Spanned (OptionElement es) (range_new i (j + 1))) (j + 1)"
| regex: "char_at raw i CHR ''<'' \<Longrightarrow> i < j \<Longrightarrow> char_at raw j CHR ''>'' \<Longrightarrow>
    CHR ''>'' \<notin> set (between raw (i + 1) j) \<Longrightarrow>
    element_at tab rs raw sc i (Spanned (Regex (between raw (i + 1) j)) (range_new i (j + 1))) (j + 1)"
| type: "char_at raw i CHR ''%'' \<Longrightarrow> i < j \<Longrightarrow> char_at raw j CHR ''%'' \<Longrightarrow>
    CHR ''%'' \<notin> set (between raw (i + 1) j) \<Longrightarrow>
    parse_pattern_type_expr tab rs (between raw (i + 1) j) (i + 1) = Ret t \<Longrightarrow>
    element_at tab rs raw sc i (Spanned (TypeExpr t) (range_new i (j + 1))) (j + 1)"
| tag: "literal_at raw sc i j s \<Longrightarrow> char_at raw j CHR '':'' \<Longrightarrow>
    element_at tab rs raw sc i (Spanned (ParseTag s) (range_new i (j + 1))) (j + 1)"
| mark: "literal_at raw sc i j s \<Longrightarrow> mark_at raw j \<Longrightarrow> parse_i32 s = Some n \<Longrightarrow>
    element_at tab rs raw sc i (Spanned (ParseMark n) (range_new i (j + 2))) (j + 2)"
| items_Nil: "items_at tab rs raw sc i [] i"
| items_Cons: "element_at tab rs raw sc i e k \<Longrightarrow> items_at tab rs raw sc k es j \<Longrightarrow> follows e es \<Longrightarrow>
    items_at tab rs raw sc i (e # es) j"
| branch_empty: "branch_at tab rs raw sc i [Spanned EmptyBranch (range_new i i)] i"
| branch_items: "items_at tab rs raw sc i es j \<Longrightarrow> es \<noteq> [] \<Longrightarrow> branch_at tab rs raw sc i es j"
| branches_one: "branch_at tab rs raw sc i es j \<Longrightarrow> branches_at tab rs raw sc i [es] j"
| branches_more: "branch_at tab rs raw sc i es k \<Longrightarrow> char_at raw k CHR ''|'' \<Longrightarrow>
    branches_at tab rs raw sc (k + 1) bs j \<Longrightarrow> branches_at tab rs raw sc i (es # bs) j"
| body_branch: "branch_at tab rs raw sc i es j \<Longrightarrow> body_at tab rs raw sc i es j"
| body_choice: "branches_at tab rs raw sc i bs j \<Longrightarrow> 2 \<le> length bs \<Longrightarrow>
    body_at tab rs raw sc i [Spanned (Choice bs) (range_new i j)] j"

inductive_cases items_at_ConsE: "items_at tab rs raw sc i (e # es) j"

lemma items_at_Nil [simp]: "items_at tab rs raw sc i [] j \<longleftrightarrow> i = j"
  by (auto intro: items_Nil elim: items_at.cases)

definition ends_literal :: "spanned_element list \<Rightarrow> bool" where
  "ends_literal es \<longleftrightarrow> es \<noteq> [] \<and> is_literal (element (last es))"

lemma items_snoc:
  "items_at tab rs raw sc i es k \<Longrightarrow> element_at tab rs raw sc k e j \<Longrightarrow>
   (ends_literal es \<longrightarrow> bracketed (element e)) \<Longrightarrow> items_at tab rs raw sc i (es @ [e]) j"
proof (induction es arbitrary: i)
  case Nil
  then show ?case by (auto intro: items_Cons items_Nil simp: follows_def)
next
  case (Cons f es)
  from Cons.prems(1) obtain m where m: "element_at tab rs raw sc i f m" "items_at tab rs raw sc m es k" "follows f es"
    by (elim items_at_ConsE) auto
  have "items_at tab rs raw sc m (es @ [e]) j"
    using Cons.IH [OF m(2) Cons.prems(2)] Cons.prems(3) by (auto simp: ends_literal_def)
  moreover have "follows f (es @ [e])"
    using m(3) Cons.prems(3) by (cases es) (auto simp: follows_def ends_literal_def)
  ultimately show ?case using m(1) by (auto intro: items_Cons)
qed

subsection \<open>Soundness\<close>

lemma segment_snoc:
  assumes ok: "utf8_ok raw" and b: "is_char_boundary raw m" "is_char_boundary raw k" "m \<le> k"
    and r: "rest_from raw k = (i, c, w) # cs"
  shows "segment raw m (k + w) = segment raw m k @ [(k, c, w)]"
  using segment_split [OF ok b(1,2,3), of "k + w"] rest_from_Cons [OF ok b(2) r] by simp

lemma unescape_nonempty: "xs \<noteq> [] \<Longrightarrow> (\<And>x. x \<in> set xs \<Longrightarrow> char_bytes raw x \<noteq> []) \<Longrightarrow> unescape raw xs \<noteq> []"
  by (induction raw xs rule: unescape.induct) auto

lemma segment_nonempty:
  assumes ok: "utf8_ok raw" and b: "is_char_boundary raw m" "is_char_boundary raw k" "m < k"
  shows "segment raw m k \<noteq> []"
proof -
  have "drop m raw \<noteq> []" "take (k - m) (drop m raw) \<noteq> []" using b boundary_le [OF b(2)] by auto
  then show ?thesis by (cases "take (k - m) (drop m raw)") (auto simp: segment_def)
qed

lemma literal_at_empty_iff:
  assumes ok: "utf8_ok raw" and l: "literal_at raw sc m k s"
  shows "s = [] \<longleftrightarrow> m = k"
proof (cases "m = k")
  case True
  then show ?thesis using l by (simp add: literal_at_def)
next
  case False
  then have b: "is_char_boundary raw m" "is_char_boundary raw k" "m < k" using l by (auto simp: literal_at_def)
  have "unescape raw (segment raw m k) \<noteq> []"
    using segment_nonempty [OF ok b] segment_offsets(3) [OF ok b(1,2)] b(3) by (intro unescape_nonempty) auto
  then show ?thesis using l False by (simp add: literal_at_def)
qed

lemma literal_at_refl: "is_char_boundary raw k \<Longrightarrow> literal_at raw sc k k []"
  by (simp add: literal_at_def)

lemma literal_at_push:
  assumes ok: "utf8_ok raw" and l: "literal_at raw sc m k s" and r: "rest_from raw k = (i, c, w) # cs"
    and c: "\<not> special sc c" "c \<noteq> backslash"
  shows "literal_at raw sc m (k + w) (s @ char_bytes raw (i, c, w))"
proof -
  have b: "is_char_boundary raw m" "is_char_boundary raw k" "m \<le> k" using l by (auto simp: literal_at_def)
  note h = rest_from_Cons [OF ok b(2) r] and sn = segment_snoc [OF ok b r]
  have "complete (segment raw m k)" using l h by (auto simp: literal_at_def)
  then show ?thesis
    using l h c by (simp add: literal_at_def sn complete_append plain_append unescape_append)
qed

lemma literal_at_escape:
  assumes ok: "utf8_ok raw" and l: "literal_at raw sc m k s"
    and r: "rest_from raw k = (i, backslash, w) # (i2, c2, w2) # cs"
  shows "literal_at raw sc m (k + w + w2) (s @ char_bytes raw (i2, c2, w2))" "cs = rest_from raw (k + w + w2)"
proof -
  have b: "is_char_boundary raw m" "is_char_boundary raw k" "m \<le> k" using l by (auto simp: literal_at_def)
  note h = rest_from_Cons [OF ok b(2) r] and sn = segment_snoc [OF ok b r]
  have r2: "rest_from raw (k + w) = (i2, c2, w2) # cs" using h(5) by simp
  note h2 = rest_from_Cons [OF ok h(4) r2]
  have sn2: "segment raw m (k + w + w2) = segment raw m k @ [(k, backslash, w), (k + w, c2, w2)]"
    using segment_snoc [OF ok b(1) h(4) _ r2] b(3) sn by simp
  have "complete (segment raw m k)" using l h by (auto simp: literal_at_def)
  then show "literal_at raw sc m (k + w + w2) (s @ char_bytes raw (i2, c2, w2))"
    using l h h2 by (simp add: literal_at_def sn2 complete_append plain_append unescape_append)
  show "cs = rest_from raw (k + w + w2)" by (fact h2(5))
qed

lemma literal_at_open_escape:
  assumes ok: "utf8_ok raw" and l: "literal_at raw sc m k s" and r: "rest_from raw k = [(i, backslash, w)]"
  shows "literal_at raw sc m (length raw) (s @ [CHR 0x5C])" "k < length raw"
proof -
  have b: "is_char_boundary raw m" "is_char_boundary raw k" "m \<le> k" using l by (auto simp: literal_at_def)
  note h = rest_from_Cons [OF ok b(2) r] and sn = segment_snoc [OF ok b r]
  have e: "k + w = length raw" using h(3,5) rest_from_eq_Nil [of raw "k + w"] by simp
  have at: "char_at raw k CHR 0x5C" "w = 1"
    using ascii_char [OF ok b(2), of i "CHR 0x5C" w "[]"] r by (auto simp: backslash_def)
  have cb: "char_bytes raw (k, backslash, w) = [CHR 0x5C]"
    using drop_char_at [OF at(1)] at(2) by (simp add: char_bytes_def)
  have "complete (segment raw m k)" using l h by (auto simp: literal_at_def)
  then show "literal_at raw sc m (length raw) (s @ [CHR 0x5C])"
    using l h e cb sn by (simp add: literal_at_def complete_append plain_append unescape_append)
  show "k < length raw" using h by simp
qed

text \<open>The loop invariant of \<open>parse_sequence\<close>: the elements so far, then the pending literal.\<close>

definition sequence_ok ::
    "case_table \<Rightarrow> plural_rules \<Rightarrow> str \<Rightarrow> scope \<Rightarrow> nat \<Rightarrow> nat \<Rightarrow> sequence_state \<Rightarrow> bool" where
  "sequence_ok tab rs raw sc i k st \<longleftrightarrow>
     chars st = rest_from raw k \<and> is_char_boundary raw k \<and> seq_warnings st = [] \<and> \<not> ends_literal (seq_elements st) \<and>
     (\<exists>m. items_at tab rs raw sc i (seq_elements st) m \<and> literal_at raw sc m k (buffer st) \<and>
        buffer_start st = (if m = k then None else Some m))"

lemma sequence_ok_start: "is_char_boundary raw k \<Longrightarrow> sequence_ok tab rs raw sc k k (sequence_start (rest_from raw k))"
  by (auto simp: sequence_ok_def sequence_start_def ends_literal_def literal_at_refl intro: items_Nil)

lemma sequence_ok_flush:
  assumes ok: "utf8_ok raw" and st: "sequence_ok tab rs raw sc i k st"
  shows "items_at tab rs raw sc i (seq_elements (push_literal k st)) k" "buffer (push_literal k st) = []"
    "buffer_start (push_literal k st) = None" "chars (push_literal k st) = chars st"
    "seq_warnings (push_literal k st) = seq_warnings st"
proof -
  obtain m where m: "items_at tab rs raw sc i (seq_elements st) m" "literal_at raw sc m k (buffer st)"
    "buffer_start st = (if m = k then None else Some m)" "\<not> ends_literal (seq_elements st)"
    using st by (auto simp: sequence_ok_def)
  show "items_at tab rs raw sc i (seq_elements (push_literal k st)) k"
  proof (cases "m = k")
    case True
    then show ?thesis using m literal_at_empty_iff [OF ok m(2)] by (simp add: push_literal_def)
  next
    case False
    then have "m < k" using m(2) by (simp add: literal_at_def)
    then have "items_at tab rs raw sc i (seq_elements st @ [Spanned (Literal (buffer st)) (range_new m k)]) k"
      using m(4) by (intro items_snoc [OF m(1) literal [OF m(2)]]) auto
    then show ?thesis using False m literal_at_empty_iff [OF ok m(2)] by (simp add: push_literal_def)
  qed
qed (simp_all add: push_literal_def)

lemma sequence_ok_bracket:
  assumes ok: "utf8_ok raw" and st: "sequence_ok tab rs raw sc i k st" and "is_char_boundary raw j"
    and e: "element_at tab rs raw sc k (Spanned e r) j" "bracketed e"
  shows "sequence_ok tab rs raw sc i j (push_element e r (rest_from raw j) (push_literal k st))"
proof -
  note f = sequence_ok_flush [OF ok st]
  have "items_at tab rs raw sc i (seq_elements (push_literal k st) @ [Spanned e r]) j"
    using items_snoc [OF f(1) e(1)] e(2) by simp
  moreover have "\<not> ends_literal (seq_elements (push_literal k st) @ [Spanned e r])"
    using e(2) by (cases e) (auto simp: ends_literal_def)
  ultimately show ?thesis
    using f assms(3) st by (auto simp: sequence_ok_def push_element_def intro!: exI [of _ j] literal_at_refl)
qed

end
