(* ===== verification/Pattern_Sound.thy ===== *)
theory Pattern_Sound
  imports Pattern_Grammar
begin

text \<open>
  Soundness of \<open>parse\<close>: every run of the parser ends, within its fuel, in a derivation of the part
  of the source it consumed or in an error that names a defect of the source.
\<close>

text \<open>The defects an error can name, with the spans the error carries.\<close>

definition unclosed_at :: "str \<Rightarrow> parse_error_kind \<Rightarrow> nat \<Rightarrow> parse_error" where
  "unclosed_at raw k i = \<lparr>error_kind = k, error_span = range_new (length raw) (length raw),
     related_spans = [OpeningDelimiter (range_new i (i + 1))]\<rparr>"

definition error_at :: "parse_error_kind \<Rightarrow> nat \<Rightarrow> nat \<Rightarrow> parse_error" where
  "error_at k i j = \<lparr>error_kind = k, error_span = range_new i j, related_spans = []\<rparr>"

inductive defect :: "case_table \<Rightarrow> plural_rules \<Rightarrow> str \<Rightarrow> parse_error \<Rightarrow> bool"
  for tab :: case_table and rs :: plural_rules and raw :: str where
  group_defect: "char_at raw i CHR ''('' \<Longrightarrow>
    branches_at tab rs raw (InGroup (range_new i (i + 1))) (i + 1) bs (length raw) \<Longrightarrow>
    defect tab rs raw (unclosed_at raw UnclosedParenthesis i)"
| option_defect: "char_at raw i CHR ''['' \<Longrightarrow>
    branches_at tab rs raw (InOption (range_new i (i + 1))) (i + 1) bs (length raw) \<Longrightarrow>
    defect tab rs raw (unclosed_at raw UnclosedBracket i)"
| regex_defect: "char_at raw i CHR ''<'' \<Longrightarrow> CHR ''>'' \<notin> set (drop (i + 1) raw) \<Longrightarrow>
    defect tab rs raw (unclosed_at raw UnclosedRegexDelimiter i)"
| type_defect: "char_at raw i CHR ''%'' \<Longrightarrow> CHR ''%'' \<notin> set (drop (i + 1) raw) \<Longrightarrow>
    defect tab rs raw (unclosed_at raw UnclosedTypeDelimiter i)"
| time_defect: "char_at raw i CHR ''%'' \<Longrightarrow> char_at raw k CHR ''@'' \<Longrightarrow> char_at raw j CHR ''%'' \<Longrightarrow> i < k \<Longrightarrow> k < j \<Longrightarrow>
    CHR ''%'' \<notin> set (between raw (i + 1) j) \<Longrightarrow> CHR ''@'' \<notin> set (between raw (i + 1) k) \<Longrightarrow>
    parse_i32 (between raw (k + 1) j) = None \<Longrightarrow>
    defect tab rs raw (error_at IncorrectTimeState (k + 1) j)"
| mark_defect: "literal_at raw sc i j s \<Longrightarrow> mark_at raw j \<Longrightarrow> parse_i32 s = None \<Longrightarrow>
    defect tab rs raw (error_at InvalidParseMark i j)"

lemma unclosed_eq: "unclosed raw k (range_new i (i + 1)) = unclosed_at raw k i"
  by (simp add: unclosed_def with_related_span_def parse_error_def unclosed_at_def)

lemma parse_error_eq: "parse_error k (range_new i j) = error_at k i j"
  by (simp add: parse_error_def error_at_def)

lemmas open_group = group_defect [folded unclosed_eq]
lemmas open_option = option_defect [folded unclosed_eq]
lemmas open_regex = regex_defect [folded unclosed_eq]
lemmas open_type = type_defect [folded unclosed_eq]
lemmas bad_time = time_defect [folded parse_error_eq]
lemmas bad_mark = mark_defect [folded parse_error_eq]

subsection \<open>Type expressions\<close>

lemma strip_flags_body:
  "\<exists>n. fst (strip_flags (s, t)) = drop n s \<and> n \<le> length s \<and> set (take n s) \<subseteq> set ''-*~''"
proof (induction "(s, t)" arbitrary: s t rule: strip_flags.induct)
  case (1 t)
  then show ?case by simp
next
  case (2 c cs t)
  show ?case
  proof (cases "c \<in> set ''-*~''")
    case True
    then have "\<exists>t'. strip_flags (c # cs, t) = strip_flags (cs, t') \<and>
        (\<exists>n. fst (strip_flags (cs, t')) = drop n cs \<and> n \<le> length cs \<and> set (take n cs) \<subseteq> set ''-*~'')"
      using 2 by auto
    then obtain t' n where "strip_flags (c # cs, t) = strip_flags (cs, t')" "fst (strip_flags (cs, t')) = drop n cs"
      "n \<le> length cs" "set (take n cs) \<subseteq> set ''-*~''" by blast
    then show ?thesis using True by (intro exI [of _ "Suc n"]) auto
  next
    case False
    then show ?thesis by (intro exI [of _ 0]) auto
  qed
qed

lemma parse_pattern_type_expr_cases:
  obtains (parsed) t where "parse_pattern_type_expr tab rs s off = Ret t"
  | (bad) n where "n < length s" "s ! n = CHR ''@''" "CHR ''@'' \<notin> set (take n s)" "parse_i32 (drop (n + 1) s) = None"
      "parse_pattern_type_expr tab rs s off =
        Fail (parse_error IncorrectTimeState (range_new (off + n + 1) (off + length s)))"
proof -
  let ?t0 = "\<lparr>alternatives = [], nullable = False, allow_literals = True, allow_expressions = True, time = 0\<rparr>"
  obtain body t where bt: "strip_flags (s, ?t0) = (body, t)" by (cases "strip_flags (s, ?t0)")
  obtain f where f: "body = drop f s" "f \<le> length s" "set (take f s) \<subseteq> set ''-*~''"
    using strip_flags_body [of s ?t0] bt by auto
  show thesis
  proof (cases "find_byte CHR ''@'' body")
    case None
    show thesis
      by (rule parsed) (simp add: parse_pattern_type_expr_def bt None Let_def del: find_byte_None)
  next
    case (Some p)
    then have p: "f + p < length s" "s ! (f + p) = CHR ''@''" "CHR ''@'' \<notin> set (take p (drop f s))"
      using f by (auto simp: find_byte_Some)
    show thesis
    proof (cases "parse_i32 (drop (p + 1) body)")
      case None
      have d: "drop (p + 1) body = drop (f + p + 1) s" using f(1) by (simp add: add.commute)
      show thesis
      proof (rule bad [of "f + p"])
        show "f + p < length s" "s ! (f + p) = CHR ''@''" using p by auto
        have "CHR ''@'' \<notin> set (take f s)" using f(3) by auto
        then show "CHR ''@'' \<notin> set (take (f + p) s)" using p(3) by (simp add: take_add)
        show "parse_i32 (drop (f + p + 1) s) = None" using None d by simp
        show "parse_pattern_type_expr tab rs s off =
            Fail (parse_error IncorrectTimeState (range_new (off + (f + p) + 1) (off + length s)))"
          using Some None bt f(1,2) by (simp add: parse_pattern_type_expr_def Let_def add.assoc)
      qed
    next
      case (Some n)
      then show thesis using parsed bt \<open>find_byte CHR ''@'' body = Some p\<close>
        by (auto simp: parse_pattern_type_expr_def Let_def)
    qed
  qed
qed

subsection \<open>The arms that do not recurse\<close>

text \<open>A run from \<open>k\<close> either arrives further on with the invariant, or fails with a defect.\<close>

definition advances ::
    "case_table \<Rightarrow> plural_rules \<Rightarrow> str \<Rightarrow> scope \<Rightarrow> nat \<Rightarrow> nat \<Rightarrow> (parse_error, sequence_state) outcome \<Rightarrow> bool" where
  "advances tab rs raw sc i k r \<longleftrightarrow>
     (\<exists>st j. r = Ret st \<and> k < j \<and> sequence_ok tab rs raw sc i j st) \<or> (\<exists>e. r = Fail e \<and> defect tab rs raw e)"

lemma regex_step_advances:
  assumes ok: "utf8_ok raw" and st: "sequence_ok tab rs raw sc i k st"
    and r: "rest_from raw k = (p, byte CHR ''<'', w) # cs"
  shows "advances tab rs raw sc i k (regex_step raw (p, byte CHR ''<'', w) cs st)"
proof -
  have b: "is_char_boundary raw k" using st by (simp add: sequence_ok_def)
  have "byte CHR ''<'' < (128 :: nat)" by simp
  note a = ascii_char [OF ok b r this] and h = rest_from_Cons [OF ok b r]
  have b1: "is_char_boundary raw (k + 1)" using h a by simp
  have d: "byte CHR ''>'' < (128 :: nat)" by simp
  show ?thesis
  proof (cases rule: delimited_cases [OF ok b1 d])
    case (1 j)
    note found = 1
    have "element_at tab rs raw sc k (Spanned (Regex (between raw (k + 1) j)) (range_new k (j + 1))) (j + 1)"
      using found a by (intro regex) auto
    from sequence_ok_bracket [OF ok st found(6) this] show ?thesis
      using found a by (auto simp: advances_def regex_step_def Let_def intro!: exI [of _ "j + 1"])
  next
    case 2
    note missing = 2
    have "defect tab rs raw (unclosed raw UnclosedRegexDelimiter (range_new k (k + 1)))"
      using missing a by (intro open_regex) auto
    then show ?thesis using missing a by (auto simp: advances_def regex_step_def Let_def)
  qed
qed

lemma type_step_advances:
  assumes ok: "utf8_ok raw" and st: "sequence_ok tab rs raw sc i k st"
    and r: "rest_from raw k = (p, byte CHR ''%'', w) # cs"
  shows "advances tab rs raw sc i k (type_step tab rs raw (p, byte CHR ''%'', w) cs st)"
proof -
  have b: "is_char_boundary raw k" using st by (simp add: sequence_ok_def)
  have d: "byte CHR ''%'' < (128 :: nat)" by simp
  note a = ascii_char [OF ok b r d] and h = rest_from_Cons [OF ok b r]
  have b1: "is_char_boundary raw (k + 1)" using h a by simp
  show ?thesis
  proof (cases rule: delimited_cases [OF ok b1 d])
    case (1 j)
    note found = 1
    have len: "length (between raw (k + 1) j) = j - (k + 1)" "j < length raw"
      using found(3) by (auto simp: between_def char_at_def)
    show ?thesis
    proof (cases rule: parse_pattern_type_expr_cases [of tab rs "between raw (k + 1) j" "k + 1"])
      case (parsed t)
      then have "element_at tab rs raw sc k (Spanned (TypeExpr t) (range_new k (j + 1))) (j + 1)"
        using found a by (intro type) auto
      from sequence_ok_bracket [OF ok st found(6) this] show ?thesis
        using found a parsed by (auto simp: advances_def type_step_def Let_def intro!: exI [of _ "j + 1"])
    next
      case (bad n)
      let ?q = "k + 1 + n"
      have q: "?q < j" using bad(1) len by simp
      have "between raw (k + 1) ?q = take n (between raw (k + 1) j)" using q by (simp add: between_def min_def)
      then have "defect tab rs raw (parse_error IncorrectTimeState (range_new (?q + 1) j))"
        using found a bad len q
        by (intro bad_time [of raw k ?q j]) (auto simp: char_at_def between_def drop_take add.commute)
      then show ?thesis
        using found a bad(5) len q by (auto simp: advances_def type_step_def Let_def)
    qed
  next
    case 2
    note missing = 2
    have "defect tab rs raw (unclosed raw UnclosedTypeDelimiter (range_new k (k + 1)))"
      using missing a by (intro open_type) auto
    then show ?thesis using missing a by (auto simp: advances_def type_step_def Let_def)
  qed
qed

lemma sequence_okE:
  assumes "sequence_ok tab rs raw sc i k st"
  obtains m where "items_at tab rs raw sc i (seq_elements st) m" "literal_at raw sc m k (buffer st)"
    "buffer_start st = (if m = k then None else Some m)" "\<not> ends_literal (seq_elements st)" "m \<le> k"
    "take_start k st = m" "is_char_boundary raw k" "chars st = rest_from raw k" "seq_warnings st = []"
  using assms by (auto simp: sequence_ok_def take_start_def literal_at_def split: if_splits)

lemma sequence_ok_pending:
  assumes "sequence_ok tab rs raw sc i k st" and "items_at tab rs raw sc i (seq_elements st) m"
    and "literal_at raw sc m j s" and "m < j"
  shows "sequence_ok tab rs raw sc i j (st\<lparr>chars := rest_from raw j, buffer := s, buffer_start := Some m\<rparr>)"
  using assms unfolding sequence_ok_def by (auto simp: literal_at_def intro!: exI [of _ m])

lemma push_char_advances:
  assumes ok: "utf8_ok raw" and st: "sequence_ok tab rs raw sc i k st"
    and r: "rest_from raw k = (p, c, w) # cs" and c: "\<not> special sc c" "c \<noteq> backslash"
  shows "advances tab rs raw sc i k (Ret ((push_char raw (p, c, w) st)\<lparr>chars := cs\<rparr>))"
proof -
  from st obtain m where m: "items_at tab rs raw sc i (seq_elements st) m" "literal_at raw sc m k (buffer st)"
    "take_start k st = m" "is_char_boundary raw k" "m \<le> k" by (rule sequence_okE)
  note h = rest_from_Cons [OF ok m(4) r]
  have "(push_char raw (p, c, w) st)\<lparr>chars := cs\<rparr> =
      st\<lparr>chars := rest_from raw (k + w), buffer := buffer st @ char_bytes raw (p, c, w), buffer_start := Some m\<rparr>"
    using h(1,5) m(3) by (simp add: push_char_def take_start_def split: option.splits)
  moreover have "sequence_ok tab rs raw sc i (k + w) \<dots>"
    using m(5) h(2) by (intro sequence_ok_pending [OF st m(1) literal_at_push [OF ok m(2) r c]]) simp
  ultimately show ?thesis using h(2) by (auto simp: advances_def intro!: exI [of _ "k + w"])
qed

lemma escape_step_advances:
  assumes ok: "utf8_ok raw" and st: "sequence_ok tab rs raw sc i k st"
    and r: "rest_from raw k = (p, backslash, w) # cs"
  shows "advances tab rs raw sc i k (Ret (escape_step raw (p, backslash, w) cs st))"
proof -
  from st obtain m where m: "items_at tab rs raw sc i (seq_elements st) m" "literal_at raw sc m k (buffer st)"
    "take_start k st = m" "is_char_boundary raw k" "m \<le> k" by (rule sequence_okE)
  note h = rest_from_Cons [OF ok m(4) r]
  show ?thesis
  proof (cases cs)
    case Nil
    have "escape_step raw (p, backslash, w) cs st =
        st\<lparr>chars := rest_from raw (length raw), buffer := buffer st @ [CHR 0x5C], buffer_start := Some m\<rparr>"
      using h(1) m(3) Nil by (simp add: escape_step_def take_start_def split: option.splits)
    moreover have "literal_at raw sc m (length raw) (buffer st @ [CHR 0x5C])" "k < length raw"
      using literal_at_open_escape [OF ok m(2)] r Nil by auto
    ultimately show ?thesis using sequence_ok_pending [OF st m(1), of "length raw"] m(5)
      by (auto simp: advances_def intro!: exI [of _ "length raw"])
  next
    case (Cons x cs')
    obtain i2 c2 w2 where x: "x = (i2, c2, w2)" by (cases x)
    let ?j = "k + w + w2"
    note l = literal_at_escape [OF ok m(2) r [unfolded Cons x]]
    have "escape_step raw (p, backslash, w) cs st =
        st\<lparr>chars := rest_from raw ?j, buffer := buffer st @ char_bytes raw (i2, c2, w2), buffer_start := Some m\<rparr>"
      using h(1) m(3) l(2) Cons x by (simp add: escape_step_def take_start_def split: option.splits)
    moreover have "sequence_ok tab rs raw sc i ?j \<dots>"
      using m(5) h(2) by (intro sequence_ok_pending [OF st m(1) l(1)]) simp
    ultimately show ?thesis using h(2) by (auto simp: advances_def intro!: exI [of _ ?j])
  qed
qed

lemma sequence_ok_prefixed:
  assumes "sequence_ok tab rs raw sc i k st" and "items_at tab rs raw sc i (seq_elements st) m"
    and "element_at tab rs raw sc m (Spanned e r) j" and "is_char_boundary raw j" and "\<not> is_literal e"
  shows "sequence_ok tab rs raw sc i j (push_element e r (rest_from raw j) (st\<lparr>buffer := [], buffer_start := None\<rparr>))"
proof -
  have "items_at tab rs raw sc i (seq_elements st @ [Spanned e r]) j"
    using assms(1) by (intro items_snoc [OF assms(2,3)]) (simp add: sequence_ok_def)
  then show ?thesis
    using assms by (auto simp: sequence_ok_def push_element_def ends_literal_def intro!: exI [of _ j] literal_at_refl)
qed

lemma tag_step_advances:
  assumes ok: "utf8_ok raw" and st: "sequence_ok tab rs raw sc i k st"
    and r: "rest_from raw k = (p, byte CHR '':'', w) # cs"
  shows "advances tab rs raw sc i k (Ret (tag_step (p, byte CHR '':'', w) cs st))"
proof -
  from st obtain m where m: "items_at tab rs raw sc i (seq_elements st) m" "literal_at raw sc m k (buffer st)"
    "take_start k st = m" "is_char_boundary raw k" by (rule sequence_okE)
  have d: "byte CHR '':'' < (128 :: nat)" by simp
  note a = ascii_char [OF ok m(4) r d] and h = rest_from_Cons [OF ok m(4) r]
  have b: "is_char_boundary raw (k + 1)" using h a by simp
  have "sequence_ok tab rs raw sc i (k + 1) (tag_step (p, byte CHR '':'', w) cs st)"
    using sequence_ok_prefixed [OF st m(1) tag [OF m(2) a(1)] b] a m(3) by (simp add: tag_step_def)
  then show ?thesis by (auto simp: advances_def intro!: exI [of _ "k + 1"])
qed

lemma mark_step_advances:
  assumes ok: "utf8_ok raw" and st: "sequence_ok tab rs raw sc i k st"
    and r: "rest_from raw k = (p, mark_char, w) # cs"
  shows "advances tab rs raw sc i k (mark_step (p, mark_char, w) cs st)"
proof -
  from st obtain m where m: "items_at tab rs raw sc i (seq_elements st) m" "literal_at raw sc m k (buffer st)"
    "take_start k st = m" "is_char_boundary raw k" by (rule sequence_okE)
  note a = mark_char_at [OF ok m(4) r] and h = rest_from_Cons [OF ok m(4) r]
  have b: "is_char_boundary raw (k + 2)" using h a by simp
  show ?thesis
  proof (cases "parse_i32 (buffer st)")
    case None
    have "defect tab rs raw (parse_error InvalidParseMark (range_new m k))"
      by (rule bad_mark [OF m(2) a(1) None])
    then show ?thesis using None h(1) m(3) by (auto simp: advances_def mark_step_def)
  next
    case (Some n)
    have "sequence_ok tab rs raw sc i (k + 2)
        (push_element (ParseMark n) (range_new m (k + 2)) (rest_from raw (k + 2)) (st\<lparr>buffer := [], buffer_start := None\<rparr>))"
      using sequence_ok_prefixed [OF st m(1) mark [OF m(2) a(1) Some] b] by simp
    then show ?thesis using Some h(1,5) a(2) m(3) by (auto simp: advances_def mark_step_def intro!: exI [of _ "k + 2"])
  qed
qed

lemma leaf_step_advances:
  assumes ok: "utf8_ok raw" and st: "sequence_ok tab rs raw sc i k st"
    and r: "rest_from raw k = (p, c, w) # cs"
    and c: "c \<noteq> byte CHR ''(''" "c \<noteq> byte CHR ''[''" "c \<noteq> byte CHR ''|''" "\<not> closes sc c"
  shows "advances tab rs raw sc i k (leaf_step tab rs raw (p, c, w) cs st)"
proof -
  consider "c = byte CHR ''<''" | "c = byte CHR ''%''" | "c = backslash" | "c = byte CHR '':''" | "c = mark_char"
    | "c \<noteq> byte CHR ''<''" "c \<noteq> byte CHR ''%''" "c \<noteq> backslash" "c \<noteq> byte CHR '':''" "c \<noteq> mark_char" by blast
  then show ?thesis
  proof cases
    case 1
    then show ?thesis using regex_step_advances [OF ok st] r by (simp add: leaf_step_def)
  next
    case 2
    then show ?thesis using type_step_advances [OF ok st] r by (simp add: leaf_step_def)
  next
    case 3
    then show ?thesis using escape_step_advances [OF ok st] r by (simp add: leaf_step_def backslash_def)
  next
    case 4
    then show ?thesis using tag_step_advances [OF ok st] r by (simp add: leaf_step_def)
  next
    case 5
    then show ?thesis using mark_step_advances [OF ok st] r by (simp add: leaf_step_def mark_char_def)
  next
    case 6
    then have "\<not> special sc c" using c by (auto simp: special_closes)
    from push_char_advances [OF ok st r this 6(3)] show ?thesis
      using 6 by (simp add: leaf_step_def backslash_def)
  qed
qed

subsection \<open>Sequences and branches\<close>

definition stops :: "str \<Rightarrow> scope \<Rightarrow> nat \<Rightarrow> bool" where
  "stops raw sc j \<longleftrightarrow> j = length raw \<or> char_at raw j CHR ''|'' \<or> (\<exists>a. char_at raw j a \<and> closes sc (byte a))"

definition sequence_done ::
    "case_table \<Rightarrow> plural_rules \<Rightarrow> str \<Rightarrow> scope \<Rightarrow> nat \<Rightarrow> nat \<Rightarrow> (parse_error, pchar list \<times> parse_result) outcome \<Rightarrow> bool" where
  "sequence_done tab rs raw sc i k r \<longleftrightarrow>
     (\<exists>res j. r = Ret (rest_from raw j, res) \<and> k \<le> j \<and> is_char_boundary raw j \<and>
        items_at tab rs raw sc i (elements res) j \<and> warnings res = [] \<and> stops raw sc j) \<or>
     (\<exists>e. r = Fail e \<and> defect tab rs raw e)"

definition loop_done ::
    "case_table \<Rightarrow> plural_rules \<Rightarrow> str \<Rightarrow> scope \<Rightarrow> nat \<Rightarrow> branch_state \<Rightarrow> (parse_error, branch_state \<times> bool) outcome \<Rightarrow> bool" where
  "loop_done tab rs raw sc k b r \<longleftrightarrow>
     (\<exists>b' closed bs j. r = Ret (b', closed) \<and> k \<le> j \<and> branches b' = branches b @ bs \<and>
        branches_at tab rs raw sc k bs j \<and> choice_end b' = j \<and> choice_warnings b' = [] \<and>
        (if closed then (\<exists>a. char_at raw j a \<and> closes sc (byte a)) \<and> branch_chars b' = rest_from raw (j + 1)
         else j = length raw)) \<or>
     (\<exists>e. r = Fail e \<and> defect tab rs raw e)"

lemma closes_iff: "closes sc (byte a) \<longleftrightarrow> a = CHR '')'' \<and> is_group sc \<or> a = CHR '']'' \<and> is_option sc"
  by (simp only: closes_def of_char_eq_iff)

lemma closes_ascii: "closes sc (byte a) \<Longrightarrow> byte a < (128 :: nat)"
  by (auto simp: closes_def)

lemma sequence_result_done:
  assumes ok: "utf8_ok raw" and st: "sequence_ok tab rs raw sc i k st" and stop: "stops raw sc k"
    and st': "st' = st \<or> st' = push_literal k st"
  shows "sequence_done tab rs raw sc i k (Ret (sequence_result raw st'))"
proof -
  note f = sequence_ok_flush [OF ok st]
  from st have b: "is_char_boundary raw k" "chars st = rest_from raw k" "seq_warnings st = []"
    by (auto simp: sequence_ok_def)
  have "push_literal k (push_literal k st) = push_literal k st"
    using f(2,3) by (simp add: push_literal_def)
  then have "sequence_result raw st' = (rest_from raw k, \<lparr>elements = seq_elements (push_literal k st), warnings = []\<rparr>)"
    using st' b f(4,5) boundary_le [OF b(1)] by (auto simp: sequence_result_def Let_def)
  then show ?thesis using f(1) b stop by (auto simp: sequence_done_def)
qed

lemma branches_one_or_more:
  "branches_at tab rs raw sc k bs j \<Longrightarrow> (\<exists>es. bs = [es] \<and> branch_at tab rs raw sc k es j) \<or> 2 \<le> length bs"
  by (cases rule: branches_at.cases, assumption) (auto elim: branches_at.cases)

text \<open>What a finished loop over the branches of a delimited element gives.\<close>

lemma finish_choice_body:
  assumes "branches_at tab rs raw sc k bs j"
  shows "body_at tab rs raw sc k (case bs of [es] \<Rightarrow> es | _ \<Rightarrow> [Spanned (Choice bs) (range_new k j)]) j"
proof -
  from branches_one_or_more [OF assms] show ?thesis
  proof
    assume "\<exists>es. bs = [es] \<and> branch_at tab rs raw sc k es j"
    then show ?thesis by (auto intro: body_branch)
  next
    assume two: "2 \<le> length bs"
    then obtain x y zs where "bs = x # y # zs" by (cases bs; cases "tl bs") auto
    then show ?thesis using body_choice [OF assms two] by simp
  qed
qed

lemma finish_choice_nested:
  assumes ok: "utf8_ok raw" and l: "loop_done tab rs raw sc (k + 1) (choice_begin raw (rest_from raw (k + 1))) r"
    and sc: "sc = InGroup (range_new k (k + 1)) \<and> char_at raw k CHR ''('' \<and> d = CHR '')'' \<or>
      sc = InOption (range_new k (k + 1)) \<and> char_at raw k CHR ''['' \<and> d = CHR '']''"
  shows "(\<exists>res j. obind r (finish_choice raw sc (k + 1)) = Ret (rest_from raw (j + 1), res) \<and> k < j \<and>
      body_at tab rs raw sc (k + 1) (elements res) j \<and> char_at raw j d \<and> warnings res = []) \<or>
    (\<exists>e. obind r (finish_choice raw sc (k + 1)) = Fail e \<and> defect tab rs raw e)"
proof -
  from l consider e where "r = Fail e" "defect tab rs raw e"
    | b closed bs j where "r = Ret (b, closed)" "k + 1 \<le> j" "branches b = bs" "branches_at tab rs raw sc (k + 1) bs j"
      "choice_end b = j" "choice_warnings b = []"
      "if closed then (\<exists>a. char_at raw j a \<and> closes sc (byte a)) \<and> branch_chars b = rest_from raw (j + 1) else j = length raw"
    by (auto simp: loop_done_def choice_begin_def)
  then show ?thesis
  proof cases
    case 1
    then show ?thesis by simp
  next
    case 2
    show ?thesis
    proof (cases closed)
      case True
      then obtain a where a: "char_at raw j a" "closes sc (byte a)" "branch_chars b = rest_from raw (j + 1)" using 2(7) by auto
      have "a = d" using a(2) sc unfolding closes_iff by (auto simp: is_group_def is_option_def)
      then have "char_at raw j d" using a(1) by simp
      moreover have "obind r (finish_choice raw sc (k + 1)) = Ret (rest_from raw (j + 1),
          \<lparr>elements = (case bs of [es] \<Rightarrow> es | _ \<Rightarrow> [Spanned (Choice bs) (range_new (k + 1) j)]), warnings = []\<rparr>)"
        using 2 True a sc by (auto simp: finish_choice_def split: list.split)
      ultimately show ?thesis using finish_choice_body [OF 2(4)] 2(2) by force
    next
      case False
      then have "branches_at tab rs raw sc (k + 1) bs (length raw)" using 2(4,7) by simp
      then have "\<exists>e. finish_choice raw sc (k + 1) (b, False) = Fail e \<and> defect tab rs raw e"
        using sc by (auto simp: finish_choice_def intro: open_group [simplified] open_option [simplified])
      then show ?thesis using 2(1) False by simp
    qed
  qed
qed

lemma element_nested:
  assumes "body_at tab rs raw sc' (k + 1) es j" and "char_at raw j d"
    and "sc' = InGroup (range_new k (k + 1)) \<and> char_at raw k CHR ''('' \<and> d = CHR '')'' \<and> e = Group es \<or>
      sc' = InOption (range_new k (k + 1)) \<and> char_at raw k CHR ''['' \<and> d = CHR '']'' \<and> e = OptionElement es"
  shows "element_at tab rs raw sc k (Spanned e (range_new k (j + 1))) (j + 1)" "bracketed e"
  using assms by (auto intro: group [simplified] option [simplified])

lemma sequence_done_later:
  "sequence_done tab rs raw sc i j r \<Longrightarrow> k \<le> j \<Longrightarrow> sequence_done tab rs raw sc i k r"
  unfolding sequence_done_def by (auto intro: order_trans)

text \<open>One round of \<open>parse_sequence\<close>, given what the calls it makes do.\<close>

lemma sequence_round:
  assumes ok: "utf8_ok raw" and st: "sequence_ok tab rs raw sc i k st" and fuel: "2 * (length raw - k) + 1 \<le> Suc n"
    and seq: "\<And>j st'. sequence_ok tab rs raw sc i j st' \<Longrightarrow> 2 * (length raw - j) + 1 \<le> n \<Longrightarrow>
      sequence_done tab rs raw sc i j (parse_sequence tab rs raw n sc st')"
    and loop: "\<And>j sc'. is_char_boundary raw j \<Longrightarrow> 2 * (length raw - j) + 2 \<le> n \<Longrightarrow>
      loop_done tab rs raw sc' j (choice_begin raw (rest_from raw j))
        (choice_loop tab rs raw n sc' (choice_begin raw (rest_from raw j)))"
  shows "sequence_done tab rs raw sc i k (parse_sequence tab rs raw (Suc n) sc st)"
proof -
  from st have b: "is_char_boundary raw k" "chars st = rest_from raw k" "seq_warnings st = []"
    by (auto simp: sequence_ok_def)
  have kl: "k \<le> length raw" using boundary_le [OF b(1)] .
  show ?thesis
  proof (cases "rest_from raw k")
    case Nil
    then have "stops raw sc k" using kl by (simp add: stops_def)
    moreover have "chars st = []" by (simp only: b(2) Nil)
    ultimately show ?thesis using sequence_result_done [OF ok st] by simp
  next
    case (Cons x cs)
    obtain p c w where x: "x = (p, c, w)" by (cases x)
    note r = Cons [unfolded x]
    note h = rest_from_Cons [OF ok b(1) r]
    have less: "2 * (length raw - j) + 2 \<le> n" if "k < j" for j using that fuel h(2,3) by linarith
    have nested: "sequence_done tab rs raw sc i k
        (obind (choice_loop tab rs raw n sc' (choice_begin raw cs)) (\<lambda>y.
          obind (finish_choice raw sc' (current_offset cs (length raw)) y) (\<lambda>(cs', g).
          parse_sequence tab rs raw n sc
            (push_element (con (elements g)) (range_new p (current_offset cs' (length raw))) cs'
              ((push_literal p st)\<lparr>seq_warnings := seq_warnings st @ warnings g\<rparr>)))))"
      if w: "w = 1" and sc': "\<And>es. sc' = InGroup (range_new k (k + 1)) \<and> char_at raw k CHR ''('' \<and> d = CHR '')'' \<and> con es = Group es \<or>
        sc' = InOption (range_new k (k + 1)) \<and> char_at raw k CHR ''['' \<and> d = CHR '']'' \<and> con es = OptionElement es"
      for sc' con d
    proof -
      have b1: "is_char_boundary raw (k + 1)" "k + 1 \<le> length raw" and cs: "cs = rest_from raw (k + 1)" and pk: "p = k"
        using h w by auto
      let ?r = "choice_loop tab rs raw n sc' (choice_begin raw (rest_from raw (k + 1)))"
      have assoc: "obind (choice_loop tab rs raw n sc' (choice_begin raw cs)) (\<lambda>y.
          obind (finish_choice raw sc' (current_offset cs (length raw)) y) G) = obind (obind ?r (finish_choice raw sc' (k + 1))) G" for G
        unfolding cs using b1(2) by (simp add: obind_assoc)
      have l: "loop_done tab rs raw sc' (k + 1) (choice_begin raw (rest_from raw (k + 1))) ?r"
        using loop [OF b1(1) less] by simp
      have sc'': "sc' = InGroup (range_new k (k + 1)) \<and> char_at raw k CHR ''('' \<and> d = CHR '')'' \<or>
          sc' = InOption (range_new k (k + 1)) \<and> char_at raw k CHR ''['' \<and> d = CHR '']''"
        using sc' by blast
      from finish_choice_nested [OF ok l sc''] show ?thesis
      proof (elim disjE exE conjE)
        fix e
        assume "obind ?r (finish_choice raw sc' (k + 1)) = Fail e" "defect tab rs raw e"
        then show ?thesis unfolding assoc by (simp add: sequence_done_def)
      next
        fix res j
        assume d: "obind ?r (finish_choice raw sc' (k + 1)) = Ret (rest_from raw (j + 1), res)" "k < j"
          "body_at tab rs raw sc' (k + 1) (elements res) j" "char_at raw j d" "warnings res = []"
        have j: "j + 1 \<le> length raw" using d(4) by (simp add: char_at_def)
        have asc: "byte d < (128 :: nat)" using sc'' by (elim disjE) simp_all
        note el = element_nested [OF d(3,4) sc']
        let ?st = "push_element (con (elements res)) (range_new k (j + 1)) (rest_from raw (j + 1)) (push_literal k st)"
        have so: "sequence_ok tab rs raw sc i (j + 1) ?st"
          by (rule sequence_ok_bracket [OF ok st ascii_rest(2) [OF ok d(4) asc] el])
        have "k < j + 1" "k \<le> j + 1" using d(2) by simp_all
        then have "sequence_done tab rs raw sc i (j + 1) (parse_sequence tab rs raw n sc ?st)"
          using seq [OF so] less [of "j + 1"] by simp
        then have "sequence_done tab rs raw sc i k (parse_sequence tab rs raw n sc ?st)"
          using \<open>k \<le> j + 1\<close> by (rule sequence_done_later)
        moreover have "(push_literal k st)\<lparr>seq_warnings := seq_warnings st @ warnings res\<rparr> = push_literal k st"
          using sequence_ok_flush(5) [OF ok st] d(5) b(3) by simp
        ultimately show ?thesis unfolding assoc d(1) pk using j by simp
      qed
    qed
    have cst: "chars st = (p, c, w) # cs" by (simp only: b(2) r)
    consider "c = byte CHR ''(''" | "c = byte CHR ''[''" | "c \<noteq> byte CHR ''(''" "c \<noteq> byte CHR ''[''" "closes sc c \<or> c = byte CHR ''|''"
      | "c \<noteq> byte CHR ''(''" "c \<noteq> byte CHR ''[''" "\<not> closes sc c" "c \<noteq> byte CHR ''|''" by blast
    then show ?thesis
    proof cases
      case 1
      have "char_at raw k CHR ''(''" "w = 1" "p = k"
        using ascii_char [OF ok b(1), of p "CHR ''(''" w cs] r 1 by auto
      then show ?thesis using nested [of "InGroup (range_new p (p + w))" "CHR '')''" Group] cst 1 by simp
    next
      case 2
      have "char_at raw k CHR ''[''" "w = 1" "p = k"
        using ascii_char [OF ok b(1), of p "CHR ''[''" w cs] r 2 by auto
      then show ?thesis using nested [of "InOption (range_new p (p + w))" "CHR '']''" OptionElement] cst 2 by simp
    next
      case 3
      then obtain a where a: "c = byte a" "a \<in> set '')]|''"
        unfolding closes_def by (metis list.set_intros)
      have "char_at raw k a" "p = k" using ascii_char [OF ok b(1), of p a w cs] r a by auto
      then have "stops raw sc k" using 3 a by (auto simp: stops_def)
      then show ?thesis using sequence_result_done [OF ok st _ disjI2, of "push_literal p st"] \<open>p = k\<close> cst 3 by simp
    next
      case 4
      from leaf_step_advances [OF ok st r 4(1,2,4,3)]
      consider e where "leaf_step tab rs raw (p, c, w) cs st = Fail e" "defect tab rs raw e"
        | st' j where "leaf_step tab rs raw (p, c, w) cs st = Ret st'" "k < j" "sequence_ok tab rs raw sc i j st'"
        by (auto simp: advances_def)
      then show ?thesis
      proof cases
        case 1
        then show ?thesis using cst 4 by (auto simp: sequence_done_def)
      next
        case 2
        have "sequence_done tab rs raw sc i j (parse_sequence tab rs raw n sc st')"
          using seq [OF 2(3)] less [OF 2(2)] by simp
        then show ?thesis using sequence_done_later 2 cst 4 by (auto simp: less_imp_le)
      qed
    qed
  qed
qed

lemma branch_of_items:
  assumes "items_at tab rs raw sc k es j"
  shows "branch_at tab rs raw sc k (if es = [] then [Spanned EmptyBranch (range_new k k)] else es) j"
  using assms by (auto intro: branch_empty branch_items)

text \<open>One round of the loop over the branches.\<close>

lemma choice_round:
  assumes ok: "utf8_ok raw" and b: "branch_chars b = rest_from raw k" "choice_warnings b = []" and bk: "is_char_boundary raw k"
    and fuel: "2 * (length raw - k) + 2 \<le> Suc n"
    and seq: "sequence_done tab rs raw sc k k (parse_sequence tab rs raw n sc (sequence_start (rest_from raw k)))"
    and loop: "\<And>j b'. is_char_boundary raw j \<Longrightarrow> branch_chars b' = rest_from raw j \<Longrightarrow> choice_warnings b' = [] \<Longrightarrow>
      2 * (length raw - j) + 2 \<le> n \<Longrightarrow> loop_done tab rs raw sc j b' (choice_loop tab rs raw n sc b')"
  shows "loop_done tab rs raw sc k b (choice_loop tab rs raw (Suc n) sc b)"
proof -
  let ?p = "parse_sequence tab rs raw n sc (sequence_start (rest_from raw k))"
  from seq show ?thesis unfolding sequence_done_def
  proof (elim disjE exE conjE)
    fix e
    assume "?p = Fail e" "defect tab rs raw e"
    then show ?thesis using b(1) by (auto simp: loop_done_def)
  next
    fix res j
    assume p: "?p = Ret (rest_from raw j, res)" "k \<le> j" "is_char_boundary raw j"
      "items_at tab rs raw sc k (elements res) j" "warnings res = []" "stops raw sc j"
    have kl: "k \<le> length raw" "j \<le> length raw" using boundary_le bk p(3) by auto
    let ?es = "if elements res = [] then [Spanned EmptyBranch (range_new k k)] else elements res"
    define b1 where "b1 = add_branch raw b (rest_from raw j, res)"
    have b1: "branch_chars b1 = rest_from raw j" "branches b1 = branches b @ [?es]" "choice_end b1 = j" "choice_warnings b1 = []"
      using b p(5) kl by (simp_all add: b1_def add_branch_def Let_def)
    note br = branch_of_items [OF p(4)]
    have un: "choice_loop tab rs raw (Suc n) sc b = (case rest_from raw j of
         [] \<Rightarrow> Ret (b1, False)
       | (_, c, _) # cs \<Rightarrow>
         if c = byte CHR ''|'' then choice_loop tab rs raw n sc (b1\<lparr>branch_chars := cs\<rparr>)
         else if closes sc c then Ret (b1\<lparr>branch_chars := cs\<rparr>, True)
         else Ret (b1, False))"
      unfolding choice_loop.simps b(1) p(1) obind.simps b1_def [symmetric] Let_def b1(1) ..
    consider "j = length raw" | "char_at raw j CHR ''|''" | a where "char_at raw j a" "closes sc (byte a)" "a \<noteq> CHR ''|''"
      using p(6) by (auto simp: stops_def closes_iff)
    then show ?thesis
    proof cases
      case 1
      then have nil: "rest_from raw j = []" by simp
      have "choice_loop tab rs raw (Suc n) sc b = Ret (b1, False)" unfolding un nil by simp
      then show ?thesis using b1 p(2) branches_one [OF br] 1 unfolding loop_done_def by fastforce
    next
      case 2
      have asc: "byte CHR ''|'' < (128 :: nat)" by simp
      note r = ascii_rest [OF ok 2 asc]
      have jl: "j < length raw" using 2 by (simp add: char_at_def)
      let ?b = "b1\<lparr>branch_chars := rest_from raw (j + 1)\<rparr>"
      have e: "choice_loop tab rs raw (Suc n) sc b = choice_loop tab rs raw n sc ?b"
        unfolding un r(3) by simp
      have "loop_done tab rs raw sc (j + 1) ?b (choice_loop tab rs raw n sc ?b)"
        using loop [OF r(2), of ?b] b1(4) fuel p(2) jl by simp
      then show ?thesis unfolding e loop_done_def
      proof (elim disjE exE conjE)
        fix b' closed bs m
        assume l: "choice_loop tab rs raw n sc ?b = Ret (b', closed)" "j + 1 \<le> m" "branches b' = branches ?b @ bs"
          "branches_at tab rs raw sc (j + 1) bs m" "choice_end b' = m" "choice_warnings b' = []"
          "if closed then (\<exists>a. char_at raw m a \<and> closes sc (byte a)) \<and> branch_chars b' = rest_from raw (m + 1) else m = length raw"
        have "branches_at tab rs raw sc k (?es # bs) m" by (rule branches_more [OF br 2 l(4)])
        moreover have "branches b' = branches b @ ?es # bs" using l(3) b1(2) by simp
        moreover have "k \<le> m" using l(2) p(2) by simp
        ultimately show "(\<exists>b' closed bs m. choice_loop tab rs raw n sc ?b = Ret (b', closed) \<and> k \<le> m \<and>
            branches b' = branches b @ bs \<and> branches_at tab rs raw sc k bs m \<and> choice_end b' = m \<and> choice_warnings b' = [] \<and>
            (if closed then (\<exists>a. char_at raw m a \<and> closes sc (byte a)) \<and> branch_chars b' = rest_from raw (m + 1)
             else m = length raw)) \<or> (\<exists>e. choice_loop tab rs raw n sc ?b = Fail e \<and> defect tab rs raw e)"
          using l(1,5,6,7) by blast
      qed auto
    next
      case 3
      note r = ascii_rest [OF ok 3(1) closes_ascii [OF 3(2)]]
      have "byte a \<noteq> (byte CHR ''|'' :: nat)" using 3(3) by (simp only: of_char_eq_iff not_False_eq_True)
      then have "choice_loop tab rs raw (Suc n) sc b = Ret (b1\<lparr>branch_chars := rest_from raw (j + 1)\<rparr>, True)"
        unfolding un r(3) using 3(2) by simp
      then show ?thesis using b1 p(2) branches_one [OF br] 3(1,2) unfolding loop_done_def by fastforce
    qed
  qed
qed

lemma parser_sound:
  assumes ok: "utf8_ok raw"
  shows "(\<forall>sc i k st. sequence_ok tab rs raw sc i k st \<longrightarrow> 2 * (length raw - k) + 1 \<le> n \<longrightarrow>
      sequence_done tab rs raw sc i k (parse_sequence tab rs raw n sc st)) \<and>
    (\<forall>sc k b. is_char_boundary raw k \<longrightarrow> branch_chars b = rest_from raw k \<longrightarrow> choice_warnings b = [] \<longrightarrow>
      2 * (length raw - k) + 2 \<le> n \<longrightarrow> loop_done tab rs raw sc k b (choice_loop tab rs raw n sc b))"
proof (induction n)
  case 0
  then show ?case by simp
next
  case (Suc n)
  have start: "branch_chars (choice_begin raw cs) = cs" "choice_warnings (choice_begin raw cs) = []" for cs
    by (simp_all add: choice_begin_def)
  show ?case
  proof (intro conjI allI impI)
    fix sc i k st
    assume "sequence_ok tab rs raw sc i k st" "2 * (length raw - k) + 1 \<le> Suc n"
    then show "sequence_done tab rs raw sc i k (parse_sequence tab rs raw (Suc n) sc st)"
      using Suc.IH start by (intro sequence_round [OF ok]) auto
  next
    fix sc k and b :: branch_state
    assume h: "is_char_boundary raw k" "branch_chars b = rest_from raw k" "choice_warnings b = []"
      "2 * (length raw - k) + 2 \<le> Suc n"
    have "sequence_done tab rs raw sc k k (parse_sequence tab rs raw n sc (sequence_start (rest_from raw k)))"
      using Suc.IH sequence_ok_start [OF h(1)] h(4) by simp
    then show "loop_done tab rs raw sc k b (choice_loop tab rs raw (Suc n) sc b)"
      using Suc.IH by (intro choice_round [OF ok h(2,3,1,4)]) auto
  qed
qed

lemma parse_sound:
  assumes ok: "utf8_ok raw"
  shows "(\<exists>es. parse tab rs raw = Ret \<lparr>elements = es, warnings = []\<rparr> \<and> body_at tab rs raw Global 0 es (length raw)) \<or>
    (\<exists>e. parse tab rs raw = Fail e \<and> defect tab rs raw e)"
proof -
  let ?r = "choice_loop tab rs raw (pattern_fuel raw) Global (choice_begin raw (rest_from raw 0))"
  have p: "parse tab rs raw = obind ?r (\<lambda>x. obind (finish_choice raw Global 0 x) (\<lambda>(_, r). Ret r))"
    unfolding parse_def parse_choice_def rest_from_0 [symmetric] by (simp add: obind_assoc)
  have "loop_done tab rs raw Global 0 (choice_begin raw (rest_from raw 0)) ?r"
    using parser_sound [OF ok, of tab rs "pattern_fuel raw"] by (simp add: choice_begin_def pattern_fuel_def)
  then show ?thesis unfolding loop_done_def
  proof (elim disjE exE conjE)
    fix e
    assume "?r = Fail e" "defect tab rs raw e"
    then show ?thesis unfolding p by simp
  next
    fix b closed bs j
    assume l: "?r = Ret (b, closed)" "branches b = branches (choice_begin raw (rest_from raw 0)) @ bs"
      "branches_at tab rs raw Global 0 bs j" "choice_end b = j" "choice_warnings b = []"
      "if closed then (\<exists>a. char_at raw j a \<and> closes Global (byte a)) \<and> branch_chars b = rest_from raw (j + 1) else j = length raw"
    have "\<not> closed" "j = length raw" using l(6) by (auto simp: closes_def is_group_def is_option_def split: if_splits)
    moreover have "parse tab rs raw = Ret \<lparr>elements = (case bs of [es] \<Rightarrow> es | _ \<Rightarrow> [Spanned (Choice bs) (range_new 0 j)]), warnings = []\<rparr>"
      unfolding p using l by (simp add: finish_choice_def choice_begin_def split: list.split)
    ultimately show ?thesis using finish_choice_body [OF l(3)] by simp
  qed
qed

end
