(* ===== verification/Pattern_Complete.thy ===== *)
theory Pattern_Complete
  imports Pattern_Sound
begin

text \<open>
  Completeness of \<open>parse\<close>: whatever the grammar derives from the source is what the parser returns,
  so that the grammar is unambiguous and \<open>parse\<close> decides it.
\<close>

definition fresh :: "sequence_state \<Rightarrow> bool" where
  "fresh st \<longleftrightarrow> buffer st = [] \<and> buffer_start st = None"

lemma push_literal_fresh [simp]: "fresh st \<Longrightarrow> push_literal k st = st"
  by (simp add: fresh_def push_literal_def)

text \<open>The run from \<open>st\<close> at \<open>k\<close> goes on from \<open>st'\<close> at \<open>j\<close>, with fuel enough for the rest.\<close>

definition goes_on ::
    "case_table \<Rightarrow> plural_rules \<Rightarrow> str \<Rightarrow> scope \<Rightarrow> nat \<Rightarrow> nat \<Rightarrow> sequence_state \<Rightarrow> nat \<Rightarrow> sequence_state \<Rightarrow> bool" where
  "goes_on tab rs raw sc n k st j st' \<longleftrightarrow>
     (\<exists>n'. 2 * (length raw - j) + 1 \<le> n' \<and> parse_sequence tab rs raw n sc st = parse_sequence tab rs raw n' sc st')"

lemma goes_on_refl: "2 * (length raw - k) + 1 \<le> n \<Longrightarrow> goes_on tab rs raw sc n k st k st"
  by (auto simp: goes_on_def)

lemma goes_on_trans:
  assumes "goes_on tab rs raw sc n k st j st'"
    and "\<And>n'. 2 * (length raw - j) + 1 \<le> n' \<Longrightarrow> goes_on tab rs raw sc n' j st' m st''"
  shows "goes_on tab rs raw sc n k st m st''"
  using assms unfolding goes_on_def by metis

lemma leaf_goes_on:
  assumes "chars st = (p, c, w) # cs" and "2 * (length raw - k) + 1 \<le> n" and "k < j" "j \<le> length raw"
    and "c \<noteq> byte CHR ''(''" "c \<noteq> byte CHR ''[''" "c \<noteq> byte CHR ''|''" "\<not> closes sc c"
    and "leaf_step tab rs raw (p, c, w) cs st = Ret st'"
  shows "goes_on tab rs raw sc n k st j st'"
proof -
  obtain m where m: "n = Suc m" using assms(2) by (cases n) auto
  have "parse_sequence tab rs raw n sc st = parse_sequence tab rs raw m sc st'"
    using assms unfolding m by simp
  moreover have "2 * (length raw - j) + 1 \<le> m" using assms(2-4) m by linarith
  ultimately show ?thesis unfolding goes_on_def by blast
qed

subsection \<open>Literal text\<close>

lemma not_special_leaf:
  assumes "\<not> special sc c"
  shows "c \<noteq> byte CHR ''(''" "c \<noteq> byte CHR ''[''" "c \<noteq> byte CHR ''|''" "\<not> closes sc c"
    "c \<noteq> byte CHR ''<''" "c \<noteq> byte CHR ''%''" "c \<noteq> byte CHR '':''" "c \<noteq> mark_char"
  using assms by (auto simp: special_closes)

definition pending :: "str \<Rightarrow> nat \<Rightarrow> nat \<Rightarrow> str \<Rightarrow> sequence_state \<Rightarrow> sequence_state" where
  "pending raw k j s st = st\<lparr>chars := rest_from raw j, buffer := buffer st @ s,
     buffer_start := (if k = j then buffer_start st else Some (take_start k st))\<rparr>"

lemma take_start_pending [simp]: "k \<le> j \<Longrightarrow> take_start j (pending raw k j s st) = take_start k st"
  by (simp add: pending_def take_start_def split: option.splits)

lemma pending_refl: "chars st = rest_from raw k \<Longrightarrow> pending raw k k [] st = st"
  by (cases st) (simp add: pending_def)

lemma pending_pending:
  "k < j \<Longrightarrow> j \<le> m \<Longrightarrow> pending raw j m t (pending raw k j s st) = pending raw k m (s @ t) st"
  using take_start_pending [of k j raw s st] by (auto simp: pending_def take_start_def)

lemma push_char_goes_on:
  assumes ok: "utf8_ok raw" and st: "chars st = rest_from raw k" and b: "is_char_boundary raw k"
    and r: "rest_from raw k = (p, c, w) # cs" and c: "\<not> special sc c" "c \<noteq> backslash"
    and n: "2 * (length raw - k) + 1 \<le> n"
  shows "goes_on tab rs raw sc n k st (k + w) (pending raw k (k + w) (char_bytes raw (p, c, w)) st)"
proof -
  note h = rest_from_Cons [OF ok b r]
  have "chars st = (p, c, w) # cs" by (simp only: st r)
  then show ?thesis
  proof (rule leaf_goes_on [OF _ n])
    show "k < k + w" "k + w \<le> length raw" using h by auto
    show "leaf_step tab rs raw (p, c, w) cs st = Ret (pending raw k (k + w) (char_bytes raw (p, c, w)) st)"
      using not_special_leaf [OF c(1)] c(2) h(1,2,5)
      by (simp add: leaf_step_def backslash_def pending_def push_char_def take_start_def split: option.splits)
  qed (use not_special_leaf [OF c(1)] in auto)
qed

lemma escape_goes_on:
  assumes ok: "utf8_ok raw" and st: "chars st = rest_from raw k" and b: "is_char_boundary raw k"
    and r: "rest_from raw k = (p, backslash, w) # cs" and n: "2 * (length raw - k) + 1 \<le> n"
    and j: "case cs of [] \<Rightarrow> s = [CHR 0x5C] \<and> j = length raw
      | (i2, c2, w2) # _ \<Rightarrow> s = char_bytes raw (i2, c2, w2) \<and> j = k + w + w2"
  shows "goes_on tab rs raw sc n k st j (pending raw k j s st)"
proof -
  note h = rest_from_Cons [OF ok b r]
  have js: "k < j \<and> j \<le> length raw \<and> escape_step raw (p, backslash, w) cs st = pending raw k j s st"
  proof (cases cs)
    case Nil
    have "escape_step raw (p, backslash, w) [] st = pending raw k j s st \<and> k < j \<and> j \<le> length raw"
      using j Nil h(1-3) by (simp add: escape_step_def pending_def take_start_def split: option.splits)
    then show ?thesis using Nil by simp
  next
    case (Cons x cs')
    obtain i2 c2 w2 where x: "x = (i2, c2, w2)" by (cases x)
    have "rest_from raw (k + w) = (i2, c2, w2) # cs'" using h(5) Cons x by simp
    note h2 = rest_from_Cons [OF ok h(4) this]
    have "escape_step raw (p, backslash, w) (x # cs') st = pending raw k j s st \<and> k < j \<and> j \<le> length raw"
      using j Cons h(1-3) h2(2,3,5) x by (simp add: escape_step_def pending_def take_start_def split: option.splits)
    then show ?thesis using Cons by simp
  qed
  have "chars st = (p, backslash, w) # cs" by (simp only: st r)
  then show ?thesis
  proof (rule leaf_goes_on [OF _ n])
    show "leaf_step tab rs raw (p, backslash, w) cs st = Ret (pending raw k j s st)"
      using js by (simp add: leaf_step_def backslash_def)
  qed (use js not_special_leaf [OF not_special_backslash] in auto)
qed

lemma text_goes_on:
  assumes ok: "utf8_ok raw" and "xs = segment raw k j" and "is_char_boundary raw k" "is_char_boundary raw j" "k \<le> j"
    and "plain sc xs" and "complete xs \<or> j = length raw" and "chars st = rest_from raw k"
    and "2 * (length raw - k) + 1 \<le> n"
  shows "goes_on tab rs raw sc n k st j (pending raw k j (unescape raw xs) st)"
  using assms(2-)
proof (induction sc xs arbitrary: k st n rule: plain.induct)
  case (1 sc)
  then have "k = j" using segment_nonempty [OF ok, of k j] by (metis le_neq_implies_less)
  then show ?case using 1 by (auto simp: pending_refl intro: goes_on_refl)
next
  case (2 sc x)
  obtain i c w where x: "x = (i, c, w)" by (cases x)
  have sp: "rest_from raw k = x # rest_from raw j"
    using segment_split [OF ok 2(2,3,4), of "length raw"] boundary_le [OF 2(3)] 2(1) by simp
  note r = sp [unfolded x]
  note h = rest_from_Cons [OF ok 2(2) r]
  have j: "j = k + w" using h(5) boundary_le [OF 2(3)] h(3) current_offset_rest by metis
  show ?case
  proof (cases "c = backslash")
    case True
    then have jl: "j = length raw" using 2(6) x by simp
    then have "rest_from raw j = []" by simp
    moreover have "char_bytes raw x = [CHR 0x5C]"
    proof -
      have "byte CHR 0x5C < (128 :: nat)" by simp
      then have "char_at raw k CHR 0x5C" "i = k" "w = 1" using ascii_char [OF ok 2(2), of i "CHR 0x5C" w "rest_from raw j"] r True
        by (simp_all add: backslash_def)
      then show ?thesis using x drop_char_at by (simp add: char_bytes_def)
    qed
    ultimately show ?thesis
      using escape_goes_on [OF ok 2(7,2) r [unfolded True] 2(8), of _ j] jl by simp
  next
    case False
    then have "\<not> special sc c" using 2(5) x by simp
    from push_char_goes_on [OF ok 2(7,2) r this False 2(8)] show ?thesis using j x by simp
  qed
next
  case (3 sc x y cs)
  obtain i c w where x: "x = (i, c, w)" by (cases x)
  obtain i2 c2 w2 where y: "y = (i2, c2, w2)" by (cases y)
  have sp: "rest_from raw k = x # y # cs @ rest_from raw j"
    using segment_split [OF ok "3.prems"(2,3,4), of "length raw"] boundary_le [OF "3.prems"(3)] "3.prems"(1) by simp
  note r = sp [unfolded x]
  note h = rest_from_Cons [OF ok "3.prems"(2) r]
  have r2: "rest_from raw (k + w) = (i2, c2, w2) # cs @ rest_from raw j" using h(5) y by simp
  note h2 = rest_from_Cons [OF ok h(4) r2]
  have in_segment: "x \<in> set (segment raw k j)" "y \<in> set (segment raw k j)"
    unfolding "3.prems"(1) [symmetric] by simp_all
  have i2: "i2 = k + w" by (fact h2(1))
  have kw: "k + w < j" using segment_offsets(2) [OF ok "3.prems"(2,3,4) in_segment(2)] y i2 by simp
  have seg1: "segment raw (k + w) j = y # cs"
    using segment_split [OF ok "3.prems"(2) h(4) _ less_imp_le [OF kw]] h(6) "3.prems"(1) x h(1) by simp
  show ?case
  proof (cases "c = backslash")
    case False
    then have c: "\<not> special sc c" "plain sc (y # cs)" "complete (y # cs) \<or> j = length raw"
      using "3.prems"(5,6) x by auto
    note g = push_char_goes_on [OF ok "3.prems"(7,2) r c(1) False "3.prems"(8), of tab rs]
    show ?thesis
    proof (rule goes_on_trans [OF g])
      fix n' assume n': "2 * (length raw - (k + w)) + 1 \<le> n'"
      let ?st = "pending raw k (k + w) (char_bytes raw (i, c, w)) st"
      have "goes_on tab rs raw sc n' (k + w) ?st j (pending raw (k + w) j (unescape raw (y # cs)) ?st)"
        by (rule "3.IH"(2)) (use x False c seg1 h(4) "3.prems"(3) kw n' in \<open>auto simp: pending_def\<close>)
      then show "goes_on tab rs raw sc n' (k + w) ?st j (pending raw k j (unescape raw (x # y # cs)) st)"
        using pending_pending [of k "k + w" j raw] h(2) kw x False by simp
    qed
  next
    case True
    have c: "plain sc cs" "complete cs \<or> j = length raw" using "3.prems"(5,6) x True by auto
    let ?k = "k + w + w2"
    have kj: "?k \<le> j"
    proof (rule ccontr)
      assume "\<not> ?k \<le> j"
      then have "is_cont (raw ! j)" "k + w < j" "j < ?k"
        using utf8_step_Some(4) [OF h2(8), of "j - (k + w)"] kw h2(3) by auto
      then show False using "3.prems"(3) h2(3) by (auto simp: is_char_boundary_def)
    qed
    have seg2: "segment raw ?k j = cs"
      using segment_split [OF ok h(4) h2(4) _ kj] h2(6) seg1 y i2 by simp
    have g: "goes_on tab rs raw sc n k st ?k (pending raw k ?k (char_bytes raw y) st)"
      using escape_goes_on [OF ok "3.prems"(7,2) r [unfolded True] "3.prems"(8), of "char_bytes raw y" ?k] y by simp
    show ?thesis
    proof (rule goes_on_trans [OF g])
      fix n' assume n': "2 * (length raw - ?k) + 1 \<le> n'"
      let ?st = "pending raw k ?k (char_bytes raw y) st"
      have "goes_on tab rs raw sc n' ?k ?st j (pending raw ?k j (unescape raw cs) ?st)"
        by (rule "3.IH"(1)) (use x True c seg2 h2(4) "3.prems"(3) kj n' in \<open>auto simp: pending_def\<close>)
      then show "goes_on tab rs raw sc n' ?k ?st j (pending raw k j (unescape raw (x # y # cs)) st)"
        using pending_pending [of k ?k j raw] h(2) kj x True by simp
    qed
  qed
qed

lemma literal_goes_on:
  assumes "utf8_ok raw" and l: "literal_at raw sc k j s" and "chars st = rest_from raw k"
    and "2 * (length raw - k) + 1 \<le> n"
  shows "goes_on tab rs raw sc n k st j (pending raw k j s st)"
  using l by (simp add: literal_at_def) (intro text_goes_on [OF assms(1)]; use assms in auto)

subsection \<open>Simulation of the grammar\<close>

lemma delimited_at:
  assumes ok: "utf8_ok raw" and b: "is_char_boundary raw k" and d: "byte d < 128"
    and j: "k \<le> j" "char_at raw j d" "d \<notin> set (between raw k j)"
  shows "delimited raw k d = (Ret (Some j) :: (parse_error, nat option) outcome)"
    "str_slice (range_new k j) raw = Some (between raw k j)"
    "consume_until j (rest_from raw k) = rest_from raw (j + 1)"
proof -
  have inside: "d \<in> set (between raw k m)" if "char_at raw i d" "k \<le> i" "i < m" for i m
  proof -
    have "between raw k m ! (i - k) = d" "i - k < length (between raw k m)"
      using that by (auto simp: between_def char_at_def)
    then show ?thesis using nth_mem by metis
  qed
  have "d \<in> set (drop k raw)" using inside [OF j(2,1), of "length raw"] j(2) by (simp add: between_def char_at_def)
  with delimited_cases [OF ok b d] obtain m where m: "delimited raw k d = (Ret (Some m) :: (parse_error, nat option) outcome)"
    "k \<le> m" "char_at raw m d" "d \<notin> set (between raw k m)" "str_slice (range_new k m) raw = Some (between raw k m)"
    "consume_until m (rest_from raw k) = rest_from raw (m + 1)" by metis
  have "m = j" using inside [OF j(2,1), of m] inside [OF m(3,2), of j] j(3) m(4) by (meson linorder_neqE_nat)
  then show "delimited raw k d = (Ret (Some j) :: (parse_error, nat option) outcome)"
    "str_slice (range_new k j) raw = Some (between raw k j)"
    "consume_until j (rest_from raw k) = rest_from raw (j + 1)" using m by auto
qed

definition after_element :: "str \<Rightarrow> nat \<Rightarrow> spanned_element \<Rightarrow> nat \<Rightarrow> sequence_state \<Rightarrow> sequence_state" where
  "after_element raw k x j st = (case element x of
     Literal s \<Rightarrow> pending raw k j s st
   | e \<Rightarrow> push_element e (span x) (rest_from raw j) (push_literal k st))"

definition element_sim ::
    "case_table \<Rightarrow> plural_rules \<Rightarrow> str \<Rightarrow> scope \<Rightarrow> nat \<Rightarrow> spanned_element \<Rightarrow> nat \<Rightarrow> bool" where
  "element_sim tab rs raw sc k x j \<longleftrightarrow> k < j \<and> j \<le> length raw \<and>
     (\<forall>s. element x = Literal s \<longrightarrow> s \<noteq> [] \<and> span x = range_new k j) \<and>
     (\<forall>n st. chars st = rest_from raw k \<longrightarrow> seq_warnings st = [] \<longrightarrow> fresh st \<or> bracketed (element x) \<longrightarrow>
        2 * (length raw - k) + 1 \<le> n \<longrightarrow> goes_on tab rs raw sc n k st j (after_element raw k x j st))"

definition sequence_sim ::
    "case_table \<Rightarrow> plural_rules \<Rightarrow> str \<Rightarrow> scope \<Rightarrow> nat \<Rightarrow> spanned_element list \<Rightarrow> nat \<Rightarrow> bool" where
  "sequence_sim tab rs raw sc k es j \<longleftrightarrow> k \<le> j \<and>
     (\<forall>n st. chars st = rest_from raw k \<longrightarrow> seq_warnings st = [] \<longrightarrow>
        fresh st \<or> es = [] \<or> bracketed (element (hd es)) \<longrightarrow> stops raw sc j \<longrightarrow> 2 * (length raw - k) + 1 \<le> n \<longrightarrow>
        parse_sequence tab rs raw n sc st =
          Ret (rest_from raw j, \<lparr>elements = seq_elements (push_literal k st) @ es, warnings = []\<rparr>))"

definition branch_sim ::
    "case_table \<Rightarrow> plural_rules \<Rightarrow> str \<Rightarrow> scope \<Rightarrow> nat \<Rightarrow> spanned_element list \<Rightarrow> nat \<Rightarrow> bool" where
  "branch_sim tab rs raw sc k es j \<longleftrightarrow> k \<le> j \<and>
     (\<forall>n b. branch_chars b = rest_from raw k \<longrightarrow> choice_warnings b = [] \<longrightarrow> stops raw sc j \<longrightarrow>
        k \<le> length raw \<longrightarrow> 2 * (length raw - k) + 1 \<le> n \<longrightarrow>
        (\<exists>x. parse_sequence tab rs raw n sc (sequence_start (rest_from raw k)) = Ret x \<and>
          add_branch raw b x = \<lparr>branch_chars = rest_from raw j, branches = branches b @ [es], choice_end = j, choice_warnings = []\<rparr>))"

text \<open>Where the loop over the branches ends: behind the closing delimiter, or at the end of the source.\<close>

definition loop_ends :: "str \<Rightarrow> scope \<Rightarrow> nat \<Rightarrow> pchar list \<Rightarrow> bool \<Rightarrow> bool" where
  "loop_ends raw sc j cs closed \<longleftrightarrow>
     j = length raw \<and> cs = [] \<and> \<not> closed \<or> (\<exists>a. char_at raw j a \<and> closes sc (byte a)) \<and> cs = rest_from raw (j + 1) \<and> closed"

definition loop_sim ::
    "case_table \<Rightarrow> plural_rules \<Rightarrow> str \<Rightarrow> scope \<Rightarrow> nat \<Rightarrow> spanned_element list list \<Rightarrow> nat \<Rightarrow> bool" where
  "loop_sim tab rs raw sc k bs j \<longleftrightarrow> k \<le> j \<and> bs \<noteq> [] \<and>
     (\<forall>n b cs closed. branch_chars b = rest_from raw k \<longrightarrow> choice_warnings b = [] \<longrightarrow> loop_ends raw sc j cs closed \<longrightarrow>
        k \<le> length raw \<longrightarrow> 2 * (length raw - k) + 2 \<le> n \<longrightarrow>
        choice_loop tab rs raw n sc b =
          Ret (\<lparr>branch_chars = cs, branches = branches b @ bs, choice_end = j, choice_warnings = []\<rparr>, closed))"

definition body_sim ::
    "case_table \<Rightarrow> plural_rules \<Rightarrow> str \<Rightarrow> scope \<Rightarrow> nat \<Rightarrow> spanned_element list \<Rightarrow> nat \<Rightarrow> bool" where
  "body_sim tab rs raw sc k es j \<longleftrightarrow>
     (\<exists>bs. loop_sim tab rs raw sc k bs j \<and> es = (case bs of [x] \<Rightarrow> x | _ \<Rightarrow> [Spanned (Choice bs) (range_new k j)]))"

lemma sim_literal:
  assumes "utf8_ok raw" and "literal_at raw sc k j s" and "k < j"
  shows "element_sim tab rs raw sc k (Spanned (Literal s) (range_new k j)) j"
proof -
  have "j \<le> length raw" using assms(2) boundary_le by (auto simp: literal_at_def)
  then show ?thesis using literal_goes_on [OF assms(1,2)] literal_at_empty_iff [OF assms(1,2)] assms(3)
    by (simp add: element_sim_def after_element_def)
qed

lemma sim_bracket:
  assumes "chars st = (k, c, 1) # cs" and "2 * (length raw - k) + 1 \<le> n" and "k < j" "j \<le> length raw"
    and "c = byte CHR ''<'' \<or> c = byte CHR ''%''"
    and "leaf_step tab rs raw (k, c, 1) cs st = Ret (push_element e r (rest_from raw j) (push_literal k st))" and "bracketed e"
  shows "goes_on tab rs raw sc n k st j (after_element raw k (Spanned e r) j st)"
proof -
  have "after_element raw k (Spanned e r) j st = push_element e r (rest_from raw j) (push_literal k st)"
    using assms(7) by (cases e) (auto simp: after_element_def)
  then show ?thesis using assms by (intro leaf_goes_on [of st k c 1 cs]) (auto simp: closes_def)
qed

lemma sim_regex:
  assumes ok: "utf8_ok raw" and at: "char_at raw k CHR ''<''" "k < j" "char_at raw j CHR ''>''"
    "CHR ''>'' \<notin> set (between raw (k + 1) j)"
  shows "element_sim tab rs raw sc k (Spanned (Regex (between raw (k + 1) j)) (range_new k (j + 1))) (j + 1)"
proof -
  have a: "byte CHR ''<'' < (128 :: nat)" "byte CHR ''>'' < (128 :: nat)" by simp_all
  note r = ascii_rest [OF ok at(1) a(1)]
  have kj: "k + 1 \<le> j" using at(2) by simp
  note d = delimited_at [OF ok r(2) a(2) kj at(3,4)]
  have jl: "k < j + 1" "j + 1 \<le> length raw" using at(2,3) by (auto simp: char_at_def)
  show ?thesis unfolding element_sim_def
  proof (intro conjI allI impI)
    fix n and st :: sequence_state
    assume st: "chars st = rest_from raw k" and n: "2 * (length raw - k) + 1 \<le> n"
    have c: "chars st = (k, byte CHR ''<'', 1) # rest_from raw (k + 1)" by (simp only: st r(3))
    show "goes_on tab rs raw sc n k st (j + 1)
        (after_element raw k (Spanned (Regex (between raw (k + 1) j)) (range_new k (j + 1))) (j + 1) st)"
      by (rule sim_bracket [OF c n jl]) (use d in \<open>simp_all add: leaf_step_def regex_step_def Let_def\<close>)
  qed (use jl in simp_all)
qed

lemma sim_type:
  assumes ok: "utf8_ok raw" and at: "char_at raw k CHR ''%''" "k < j" "char_at raw j CHR ''%''"
    "CHR ''%'' \<notin> set (between raw (k + 1) j)" and t: "parse_pattern_type_expr tab rs (between raw (k + 1) j) (k + 1) = Ret t"
  shows "element_sim tab rs raw sc k (Spanned (TypeExpr t) (range_new k (j + 1))) (j + 1)"
proof -
  have a: "byte CHR ''%'' < (128 :: nat)" by simp
  note r = ascii_rest [OF ok at(1) a]
  have kj: "k + 1 \<le> j" using at(2) by simp
  note d = delimited_at [OF ok r(2) a kj at(3,4)]
  have jl: "k < j + 1" "j + 1 \<le> length raw" using at(2,3) by (auto simp: char_at_def)
  show ?thesis unfolding element_sim_def
  proof (intro conjI allI impI)
    fix n and st :: sequence_state
    assume st: "chars st = rest_from raw k" and n: "2 * (length raw - k) + 1 \<le> n"
    have c: "chars st = (k, byte CHR ''%'', 1) # rest_from raw (k + 1)" by (simp only: st r(3))
    show "goes_on tab rs raw sc n k st (j + 1)
        (after_element raw k (Spanned (TypeExpr t) (range_new k (j + 1))) (j + 1) st)"
      by (rule sim_bracket [OF c n jl]) (use d t in \<open>simp_all add: leaf_step_def type_step_def Let_def\<close>)
  qed (use jl in simp_all)
qed

text \<open>A tag or a mark ends the pending text.\<close>

lemma pending_taken:
  "fresh st \<Longrightarrow> chars st = rest_from raw k \<Longrightarrow>
   push_element e r cs (pending raw k j s st\<lparr>buffer := [], buffer_start := None\<rparr>) = push_element e r cs st"
  by (cases st) (simp add: push_element_def pending_def fresh_def)

lemma sim_prefixed:
  assumes ok: "utf8_ok raw" and l: "literal_at raw sc k j s" and e: "\<not> is_literal e" "\<not> bracketed e"
    and r: "rest_from raw j = (j, c, w) # rest_from raw (j + w)" and jw: "0 < w" "j + w \<le> length raw"
    and c: "c \<noteq> byte CHR ''(''" "c \<noteq> byte CHR ''[''" "c \<noteq> byte CHR ''|''" "\<And>sc. \<not> closes sc c"
    and step: "\<And>st. buffer st = s \<Longrightarrow> take_start j st = k \<Longrightarrow>
      leaf_step tab rs raw (j, c, w) (rest_from raw (j + w)) st =
        Ret (push_element e (range_new k (j + w)) (rest_from raw (j + w)) (st\<lparr>buffer := [], buffer_start := None\<rparr>))"
  shows "element_sim tab rs raw sc k (Spanned e (range_new k (j + w))) (j + w)"
proof -
  have kj: "k \<le> j" using l by (simp add: literal_at_def)
  show ?thesis unfolding element_sim_def
  proof (intro conjI allI impI)
    fix n and st :: sequence_state
    assume st: "chars st = rest_from raw k" and f: "fresh st \<or> bracketed (element (Spanned e (range_new k (j + w))))"
      and n: "2 * (length raw - k) + 1 \<le> n"
    have fr: "fresh st" using f e by simp
    have eq: "after_element raw k (Spanned e (range_new k (j + w))) (j + w) st =
        push_element e (range_new k (j + w)) (rest_from raw (j + w)) (pending raw k j s st\<lparr>buffer := [], buffer_start := None\<rparr>)"
      using e(1) pending_taken [OF fr st] fr by (cases e) (auto simp: after_element_def)
    show "goes_on tab rs raw sc n k st (j + w) (after_element raw k (Spanned e (range_new k (j + w))) (j + w) st)"
    proof (rule goes_on_trans [OF literal_goes_on [OF ok l st n]])
      fix n' assume n': "2 * (length raw - j) + 1 \<le> n'"
      have cs: "chars (pending raw k j s st) = (j, c, w) # rest_from raw (j + w)"
        unfolding r [symmetric] by (simp add: pending_def)
      have ts: "take_start j (pending raw k j s st) = k" "buffer (pending raw k j s st) = s"
        using fr kj by (simp_all add: fresh_def take_start_def pending_def)
      show "goes_on tab rs raw sc n' j (pending raw k j s st) (j + w)
          (after_element raw k (Spanned e (range_new k (j + w))) (j + w) st)"
        unfolding eq by (rule leaf_goes_on [OF cs n']) (use jw c step [OF ts(2,1)] in auto)
    qed
  qed (use e kj jw in auto)
qed

lemma sim_tag:
  assumes ok: "utf8_ok raw" and l: "literal_at raw sc k j s" and at: "char_at raw j CHR '':''"
  shows "element_sim tab rs raw sc k (Spanned (ParseTag s) (range_new k (j + 1))) (j + 1)"
proof -
  have "byte CHR '':'' < (128 :: nat)" by simp
  note r = ascii_rest [OF ok at this]
  show ?thesis
    by (rule sim_prefixed [OF ok l _ _ r(3)])
      (use boundary_le [OF r(2)] in \<open>auto simp: closes_def leaf_step_def tag_step_def mark_char_def\<close>)
qed

lemma sim_mark:
  assumes ok: "utf8_ok raw" and l: "literal_at raw sc k j s" and at: "mark_at raw j" and n: "parse_i32 s = Some n"
  shows "element_sim tab rs raw sc k (Spanned (ParseMark n) (range_new k (j + 2))) (j + 2)"
proof -
  note r = mark_rest [OF ok at]
  show ?thesis
    by (rule sim_prefixed [OF ok l _ _ r(3)])
      (use boundary_le [OF r(2)] n in \<open>auto simp: closes_def leaf_step_def mark_step_def mark_char_def\<close>)
qed

lemma sim_nested:
  assumes ok: "utf8_ok raw" and body: "body_sim tab rs raw sc' (k + 1) es j" and close: "char_at raw j d"
    and sc': "sc' = InGroup (range_new k (k + 1)) \<and> char_at raw k CHR ''('' \<and> d = CHR '')'' \<and> e = Group es \<or>
      sc' = InOption (range_new k (k + 1)) \<and> char_at raw k CHR ''['' \<and> d = CHR '']'' \<and> e = OptionElement es"
  shows "element_sim tab rs raw sc k (Spanned e (range_new k (j + 1))) (j + 1)"
proof -
  obtain bs where bs: "loop_sim tab rs raw sc' (k + 1) bs j"
    "es = (case bs of [x] \<Rightarrow> x | _ \<Rightarrow> [Spanned (Choice bs) (range_new (k + 1) j)])"
    using body unfolding body_sim_def by blast
  define a where "a = raw ! k"
  have a: "char_at raw k a" "byte a < (128 :: nat)" "a = CHR ''('' \<and> is_group sc' \<or> a = CHR ''['' \<and> is_option sc'"
    using sc' by (auto simp: a_def char_at_def is_group_def is_option_def)
  note r = ascii_rest [OF ok a(1,2)]
  have kl: "k + 1 \<le> length raw" "j + 1 \<le> length raw" using boundary_le [OF r(2)] close by (auto simp: char_at_def)
  have kj: "k + 1 \<le> j" using bs(1) by (simp add: loop_sim_def)
  have ends: "loop_ends raw sc' j (rest_from raw (j + 1)) True"
    using close sc' by (auto simp: loop_ends_def closes_def is_group_def is_option_def)
  show ?thesis unfolding element_sim_def
  proof (intro conjI allI impI)
    fix n and st :: sequence_state
    assume st: "chars st = rest_from raw k" "seq_warnings st = []" and n: "2 * (length raw - k) + 1 \<le> n"
    obtain m where m: "n = Suc m" using n by (cases n) auto
    have fuel: "2 * (length raw - (k + 1)) + 2 \<le> m" using n m kl(1) by linarith
    let ?b = "choice_begin raw (rest_from raw (k + 1))"
    have "choice_loop tab rs raw m sc' ?b =
        Ret (\<lparr>branch_chars = rest_from raw (j + 1), branches = bs, choice_end = j, choice_warnings = []\<rparr>, True)"
      using bs(1) ends fuel kl(1) by (simp add: loop_sim_def choice_begin_def)
    moreover have "finish_choice raw sc' (k + 1)
        (\<lparr>branch_chars = rest_from raw (j + 1), branches = bs, choice_end = j, choice_warnings = []\<rparr>, True) =
        Ret (rest_from raw (j + 1), \<lparr>elements = es, warnings = []\<rparr>)"
      using sc' bs(2) by (auto simp: finish_choice_def split: list.split)
    ultimately have l: "obind (choice_loop tab rs raw m sc' ?b) (\<lambda>x. obind (finish_choice raw sc' (k + 1) x) G) =
        G (rest_from raw (j + 1), \<lparr>elements = es, warnings = []\<rparr>)" for G :: "_ \<Rightarrow> (parse_error, pchar list \<times> parse_result) outcome"
      by simp
    have c: "chars st = (k, byte a, 1) # rest_from raw (k + 1)" by (simp only: st r(3))
    have w: "(push_literal k st)\<lparr>seq_warnings := []\<rparr> = push_literal k st"
      using st(2) by (simp add: push_literal_def)
    have "parse_sequence tab rs raw n sc st = parse_sequence tab rs raw m sc
        (push_element e (range_new k (j + 1)) (rest_from raw (j + 1)) (push_literal k st))"
      using sc' a(1) c l kl st(2) w unfolding m by (auto simp: char_at_def)
    moreover have "after_element raw k (Spanned e (range_new k (j + 1))) (j + 1) st =
        push_element e (range_new k (j + 1)) (rest_from raw (j + 1)) (push_literal k st)"
      using sc' by (auto simp: after_element_def)
    moreover have "2 * (length raw - (j + 1)) + 1 \<le> m" using fuel kj by linarith
    ultimately show "goes_on tab rs raw sc n k st (j + 1) (after_element raw k (Spanned e (range_new k (j + 1))) (j + 1) st)"
      unfolding goes_on_def by metis
  qed (use kj kl sc' in auto)
qed

lemma stops_rest:
  assumes "utf8_ok raw" and "stops raw sc k"
  shows "rest_from raw k = [] \<or> (\<exists>a. rest_from raw k = (k, byte a, 1) # rest_from raw (k + 1) \<and> (a = CHR ''|'' \<or> closes sc (byte a)))"
    "k \<le> length raw"
proof -
  show "rest_from raw k = [] \<or> (\<exists>a. rest_from raw k = (k, byte a, 1) # rest_from raw (k + 1) \<and> (a = CHR ''|'' \<or> closes sc (byte a)))"
  proof (cases "k = length raw")
    case True
    then show ?thesis by simp
  next
    case False
    then obtain a where a: "char_at raw k a" "a = CHR ''|'' \<or> closes sc (byte a)" using assms(2) by (auto simp: stops_def)
    have "byte a < (128 :: nat)" using a(2) closes_ascii by auto
    from ascii_rest(3) [OF assms(1) a(1) this] a(2) show ?thesis by blast
  qed
  show "k \<le> length raw" using assms(2) by (auto simp: stops_def char_at_def)
qed

lemma sim_items_Nil:
  assumes ok: "utf8_ok raw"
  shows "sequence_sim tab rs raw sc k [] k"
  unfolding sequence_sim_def
proof (intro conjI allI impI)
  fix n and st :: sequence_state
  assume st: "chars st = rest_from raw k" "seq_warnings st = []" and stop: "stops raw sc k"
    and n: "2 * (length raw - k) + 1 \<le> n"
  obtain m where m: "n = Suc m" using n by (cases n) auto
  note r = stops_rest [OF ok stop]
  have pp: "push_literal k (push_literal k st) = push_literal k st" "chars (push_literal k st) = chars st"
    "seq_warnings (push_literal k st) = []"
    using st by (simp_all add: push_literal_def)
  have res: "sequence_result raw st' = (rest_from raw k, \<lparr>elements = seq_elements (push_literal k st), warnings = []\<rparr>)"
    if "st' = st \<or> st' = push_literal k st" for st'
    using that pp st r(2) by (auto simp: sequence_result_def Let_def)
  from r(1) show "parse_sequence tab rs raw n sc st =
      Ret (rest_from raw k, \<lparr>elements = seq_elements (push_literal k st) @ [], warnings = []\<rparr>)"
  proof
    assume "rest_from raw k = []"
    then have "chars st = []" by (simp only: st)
    then show ?thesis using res m by simp
  next
    assume "\<exists>a. rest_from raw k = (k, byte a, 1) # rest_from raw (k + 1) \<and> (a = CHR ''|'' \<or> closes sc (byte a))"
    then obtain a where a: "rest_from raw k = (k, byte a, 1) # rest_from raw (k + 1)" "a = CHR ''|'' \<or> closes sc (byte a)" by blast
    have c: "chars st = (k, byte a, 1) # rest_from raw (k + 1)" by (simp only: st a)
    have "byte a \<noteq> (byte CHR ''('' :: nat)" "byte a \<noteq> (byte CHR ''['' :: nat)" using a(2) by (auto simp: closes_def)
    then show ?thesis using res m c a(2) by auto
  qed
qed simp

lemma sim_items_Cons:
  assumes e: "element_sim tab rs raw sc k x m" and es: "sequence_sim tab rs raw sc m es j" and f: "follows x es"
  shows "sequence_sim tab rs raw sc k (x # es) j"
  unfolding sequence_sim_def
proof (intro conjI allI impI)
  show "k \<le> j" using e es by (auto simp: element_sim_def sequence_sim_def)
  fix n and st :: sequence_state
  assume st: "chars st = rest_from raw k" "seq_warnings st = []" and stop: "stops raw sc j"
    and fb: "fresh st \<or> x # es = [] \<or> bracketed (element (hd (x # es)))" and n: "2 * (length raw - k) + 1 \<le> n"
  let ?st = "after_element raw k x m st"
  have "goes_on tab rs raw sc n k st m ?st" using e st fb n unfolding element_sim_def by auto
  then obtain n' where n': "2 * (length raw - m) + 1 \<le> n'" "parse_sequence tab rs raw n sc st = parse_sequence tab rs raw n' sc ?st"
    by (auto simp: goes_on_def)
  have km: "k < m" and lit: "\<And>s. element x = Literal s \<Longrightarrow> s \<noteq> [] \<and> span x = range_new k m" using e by (auto simp: element_sim_def)
  have after: "chars ?st = rest_from raw m \<and> seq_warnings ?st = [] \<and> (fresh ?st \<or> es = [] \<or> bracketed (element (hd es))) \<and>
      seq_elements (push_literal m ?st) = seq_elements (push_literal k st) @ [x]"
  proof (cases "is_literal (element x)")
    case True
    then obtain s where s: "element x = Literal s" by (cases "element x") auto
    then have fr: "fresh st" using fb by auto
    have "x = Spanned (Literal s) (range_new k m)" using s lit [OF s] by (cases x) auto
    moreover have "es = [] \<or> bracketed (element (hd es))" using f s by (cases es) (auto simp: follows_def)
    ultimately show ?thesis
      using fr km st lit [OF s] by (auto simp: after_element_def pending_def fresh_def push_literal_def take_start_def)
  next
    case False
    have "?st = push_element (element x) (span x) (rest_from raw m) (push_literal k st)"
      using False by (cases "element x") (auto simp: after_element_def)
    then show ?thesis using st by (simp add: push_element_def push_literal_def fresh_def)
  qed
  have "parse_sequence tab rs raw n' sc ?st =
      Ret (rest_from raw j, \<lparr>elements = seq_elements (push_literal m ?st) @ es, warnings = []\<rparr>)"
    using es after stop n'(1) unfolding sequence_sim_def by blast
  then show "parse_sequence tab rs raw n sc st =
      Ret (rest_from raw j, \<lparr>elements = seq_elements (push_literal k st) @ x # es, warnings = []\<rparr>)"
    using n'(2) after by simp
qed

lemma sim_branch:
  assumes ok: "utf8_ok raw" and s: "sequence_sim tab rs raw sc k es j"
  shows "branch_sim tab rs raw sc k (if es = [] then [Spanned EmptyBranch (range_new k k)] else es) j"
  unfolding branch_sim_def
proof (intro conjI allI impI)
  show "k \<le> j" using s by (simp add: sequence_sim_def)
  fix n and b :: branch_state
  assume b: "branch_chars b = rest_from raw k" "choice_warnings b = []" and stop: "stops raw sc j"
    and kl: "k \<le> length raw" and n: "2 * (length raw - k) + 1 \<le> n"
  have "fresh (sequence_start (rest_from raw k))" by (simp add: fresh_def sequence_start_def)
  then have "parse_sequence tab rs raw n sc (sequence_start (rest_from raw k)) =
      Ret (rest_from raw j, \<lparr>elements = es, warnings = []\<rparr>)"
    using s stop n by (simp add: sequence_sim_def) (simp add: sequence_start_def)
  then show "\<exists>x. parse_sequence tab rs raw n sc (sequence_start (rest_from raw k)) = Ret x \<and>
      add_branch raw b x = \<lparr>branch_chars = rest_from raw j,
        branches = branches b @ [if es = [] then [Spanned EmptyBranch (range_new k k)] else es],
        choice_end = j, choice_warnings = []\<rparr>"
    using b kl stops_rest(2) [OF ok stop] by (simp add: add_branch_def Let_def)
qed

lemma sim_branches_one:
  assumes ok: "utf8_ok raw" and s: "branch_sim tab rs raw sc k es j"
  shows "loop_sim tab rs raw sc k [es] j"
  unfolding loop_sim_def
proof (intro conjI allI impI)
  show "k \<le> j" using s by (simp add: branch_sim_def)
  fix n cs closed and b :: branch_state
  assume b: "branch_chars b = rest_from raw k" "choice_warnings b = []" and ends: "loop_ends raw sc j cs closed"
    and kl: "k \<le> length raw" and n: "2 * (length raw - k) + 2 \<le> n"
  obtain m where m: "n = Suc m" "2 * (length raw - k) + 1 \<le> m" using n by (cases n) auto
  have stop: "stops raw sc j" using ends by (auto simp: loop_ends_def stops_def)
  let ?b = "\<lparr>branch_chars = rest_from raw j, branches = branches b @ [es], choice_end = j, choice_warnings = []\<rparr>"
  obtain x where x: "parse_sequence tab rs raw m sc (sequence_start (rest_from raw k)) = Ret x" "add_branch raw b x = ?b"
    using s b stop kl m(2) unfolding branch_sim_def by blast
  from ends consider "j = length raw" "cs = []" "\<not> closed"
    | a where "char_at raw j a" "closes sc (byte a)" "cs = rest_from raw (j + 1)" "closed" by (auto simp: loop_ends_def)
  then show "choice_loop tab rs raw n sc b =
      Ret (\<lparr>branch_chars = cs, branches = branches b @ [es], choice_end = j, choice_warnings = []\<rparr>, closed)"
  proof cases
    case 1
    then show ?thesis unfolding m choice_loop.simps b(1) x obind.simps Let_def by (simp add: x(2))
  next
    case 2
    note r = ascii_rest [OF ok 2(1) closes_ascii [OF 2(2)]]
    have "byte a \<noteq> (byte CHR ''|'' :: nat)" using 2(2) by (auto simp: closes_def)
    then show ?thesis using 2(2-4) unfolding m choice_loop.simps b(1) x obind.simps Let_def r(3) by (simp add: x(2))
  qed
qed simp

lemma sim_branches_more:
  assumes ok: "utf8_ok raw" and s: "branch_sim tab rs raw sc k es i" and at: "char_at raw i CHR ''|''"
    and l: "loop_sim tab rs raw sc (i + 1) bs j"
  shows "loop_sim tab rs raw sc k (es # bs) j"
  unfolding loop_sim_def
proof (intro conjI allI impI)
  have ki: "k \<le> i" "i + 1 \<le> j" using s l by (auto simp: branch_sim_def loop_sim_def)
  then show "k \<le> j" by simp
  fix n cs closed and b :: branch_state
  assume b: "branch_chars b = rest_from raw k" "choice_warnings b = []" and ends: "loop_ends raw sc j cs closed"
    and kl: "k \<le> length raw" and n: "2 * (length raw - k) + 2 \<le> n"
  obtain m where m: "n = Suc m" "2 * (length raw - k) + 1 \<le> m" using n by (cases n) auto
  have stop: "stops raw sc i" using at by (simp add: stops_def)
  let ?b = "\<lparr>branch_chars = rest_from raw i, branches = branches b @ [es], choice_end = i, choice_warnings = []\<rparr>"
  obtain x where x: "parse_sequence tab rs raw m sc (sequence_start (rest_from raw k)) = Ret x" "add_branch raw b x = ?b"
    using s b stop kl m(2) unfolding branch_sim_def by blast
  have asc: "byte CHR ''|'' < (128 :: nat)" by simp
  note r = ascii_rest [OF ok at asc]
  have il: "i + 1 \<le> length raw" using at by (simp add: char_at_def)
  have fuel: "2 * (length raw - (i + 1)) + 2 \<le> m" using m(2) ki il by linarith
  have "choice_loop tab rs raw n sc b = choice_loop tab rs raw m sc (?b\<lparr>branch_chars := rest_from raw (i + 1)\<rparr>)"
    unfolding m choice_loop.simps b(1) x obind.simps Let_def r(3) by (simp add: x(2) r(3) [simplified])
  also have "\<dots> = Ret (\<lparr>branch_chars = cs, branches = branches b @ es # bs, choice_end = j, choice_warnings = []\<rparr>, closed)"
    using l ends il fuel by (simp add: loop_sim_def)
  finally show "choice_loop tab rs raw n sc b =
      Ret (\<lparr>branch_chars = cs, branches = branches b @ es # bs, choice_end = j, choice_warnings = []\<rparr>, closed)" .
qed simp

lemma grammar_simulated:
  assumes ok: "utf8_ok raw"
  shows "element_at tab rs raw sc k x j \<Longrightarrow> element_sim tab rs raw sc k x j"
    and "items_at tab rs raw sc k es j \<Longrightarrow> sequence_sim tab rs raw sc k es j"
    and "branch_at tab rs raw sc k es j \<Longrightarrow> branch_sim tab rs raw sc k es j"
    and "branches_at tab rs raw sc k bs j \<Longrightarrow> loop_sim tab rs raw sc k bs j"
    and "body_at tab rs raw sc k es j \<Longrightarrow> body_sim tab rs raw sc k es j"
proof (induction rule: element_at_items_at_branch_at_branches_at_body_at.inducts)
  case (group i es j sc)
  then show ?case using sim_nested [OF ok group(3,4)] by blast
next
  case (option i es j sc)
  then show ?case using sim_nested [OF ok option(3,4)] by blast
next
  case (branch_empty sc i)
  then show ?case using sim_branch [OF ok sim_items_Nil [OF ok]] by simp
next
  case (branch_items sc i es j)
  then show ?case using sim_branch [OF ok branch_items(2)] by simp
next
  case (body_branch sc i es j)
  then show ?case using sim_branches_one [OF ok] by (auto simp: body_sim_def intro!: exI [of _ "[es]"])
next
  case (body_choice sc i bs j)
  then obtain x y zs where "bs = x # y # zs" by (cases bs; cases "tl bs") auto
  then show ?case using body_choice by (auto simp: body_sim_def intro!: exI [of _ bs])
qed (blast intro: sim_literal [OF ok] sim_regex [OF ok] sim_type [OF ok] sim_tag [OF ok] sim_mark [OF ok]
    sim_items_Nil [OF ok] sim_items_Cons sim_branches_one [OF ok] sim_branches_more [OF ok])+

lemma parse_complete:
  assumes ok: "utf8_ok raw" and body: "body_at tab rs raw Global 0 es (length raw)"
  shows "parse tab rs raw = Ret \<lparr>elements = es, warnings = []\<rparr>"
proof -
  obtain bs where bs: "loop_sim tab rs raw Global 0 bs (length raw)"
    "es = (case bs of [x] \<Rightarrow> x | _ \<Rightarrow> [Spanned (Choice bs) (range_new 0 (length raw))])"
    using grammar_simulated(5) [OF ok body] unfolding body_sim_def by blast
  have "choice_loop tab rs raw (pattern_fuel raw) Global (choice_begin raw (rest_from raw 0)) =
      Ret (\<lparr>branch_chars = [], branches = bs, choice_end = length raw, choice_warnings = []\<rparr>, False)"
  proof -
    have "loop_ends raw Global (length raw) [] False" by (simp add: loop_ends_def)
    moreover have "branch_chars (choice_begin raw (rest_from raw 0)) = rest_from raw 0"
      "choice_warnings (choice_begin raw (rest_from raw 0)) = []" "branches (choice_begin raw (rest_from raw 0)) = []"
      by (simp_all add: choice_begin_def)
    moreover have "2 * (length raw - 0) + 2 \<le> pattern_fuel raw" by (simp add: pattern_fuel_def)
    ultimately show ?thesis using bs(1) unfolding loop_sim_def by (metis append_Nil le0)
  qed
  then show ?thesis
    unfolding parse_def parse_choice_def rest_from_0 [symmetric] bs(2)
    by (simp add: finish_choice_def split: list.split)
qed

end
