(* ===== verification/Pattern_Correct.thy ===== *)
theory Pattern_Correct
  imports Pattern_Complete
begin

text \<open>
  What the parser of registration patterns promises: it decides the grammar, its errors name the
  defects of the source, its spans cover the source, and printed type expressions are read back.
\<close>

lemma parse_RetD:
  assumes "utf8_ok raw" and "parse tab rs raw = Ret r"
  shows "warnings r = [] \<and> body_at tab rs raw Global 0 (elements r) (length raw)"
  using parse_sound [OF assms(1), of tab rs]
proof (elim disjE exE conjE)
  fix es
  assume "parse tab rs raw = Ret \<lparr>elements = es, warnings = []\<rparr>" "body_at tab rs raw Global 0 es (length raw)"
  with assms(2) show ?thesis by auto
qed (use assms(2) in simp)

lemma parse_not_Panic: "utf8_ok raw \<Longrightarrow> parse tab rs raw \<noteq> Panic"
  by (drule parse_sound [of raw tab rs]) (elim disjE exE conjE; simp)

lemma parse_FailD:
  assumes "utf8_ok raw" and "parse tab rs raw = Fail e"
  shows "defect tab rs raw e"
  using parse_sound [OF assms(1), of tab rs]
proof (elim disjE exE conjE)
  fix d
  assume "parse tab rs raw = Fail d" "defect tab rs raw d"
  with assms(2) show ?thesis by simp
qed (use assms(2) in simp)

text \<open>
  C4. The parser decides the grammar.  For every pattern, \<open>parse\<close> never panics (the fuel of the
  model is enough), and it returns a tree if and only if the grammar derives exactly this tree from
  the whole pattern, with no warning; so the grammar is unambiguous.
\<close>

theorem parse_decides_grammar:
  assumes "utf8_ok raw"
  shows "parse tab rs raw \<noteq> Panic \<and>
    (parse tab rs raw = Ret r \<longleftrightarrow> warnings r = [] \<and> body_at tab rs raw Global 0 (elements r) (length raw))"
proof -
  have "parse tab rs raw = Ret r" if "warnings r = []" "body_at tab rs raw Global 0 (elements r) (length raw)"
    using parse_complete [OF assms that(2)] that(1) by (cases r) simp
  then show ?thesis using parse_RetD [OF assms, of tab rs r] parse_not_Panic [OF assms] by blast
qed

text \<open>
  C18. Errors are exact.  \<open>parse\<close> fails precisely on the patterns the grammar does not derive, and the
  error names a real defect with its place: the delimiter that opens a construct with no end (and the
  end of the pattern as the primary span), the time state or the parse mark that is no 32-bit integer.
  All spans of an error are valid ranges of the pattern.
\<close>

lemma defect_spans:
  assumes ok: "utf8_ok raw" and d: "defect tab rs raw e"
  shows "is_valid_for (error_span e) raw" "\<And>q. OpeningDelimiter q \<in> set (related_spans e) \<Longrightarrow> is_valid_for q raw \<and> range_len q = 1"
proof -
  have opened: "is_valid_for (range_new i (i + 1)) raw" if "char_at raw i a" "byte a < 128" for i a
    using ascii_rest [OF ok that] that(1) by (simp add: is_valid_for_def char_at_def)
  have at_end: "is_valid_for (range_new (length raw) (length raw)) raw" by (simp add: is_valid_for_def)
  have inner: "is_valid_for (range_new (k + 1) j) raw" if "char_at raw k CHR ''@''" "char_at raw j CHR ''%''" "k < j" for k j
  proof -
    have a: "byte CHR ''@'' < (128 :: nat)" "byte CHR ''%'' < (128 :: nat)" by simp_all
    show ?thesis using ascii_rest(2) [OF ok that(1) a(1)] ascii_rest(1) [OF ok that(2) a(2)] that(2,3)
      by (simp add: is_valid_for_def char_at_def)
  qed
  have "is_valid_for (error_span e) raw \<and> (\<forall>q. OpeningDelimiter q \<in> set (related_spans e) \<longrightarrow> is_valid_for q raw \<and> range_len q = 1)"
    using d
  proof cases
    case (mark_defect sc i j s)
    then show ?thesis using boundary_le [of raw j] by (simp add: error_at_def is_valid_for_def literal_at_def)
  qed (use at_end inner opened in \<open>auto simp: error_at_def unclosed_at_def range_len_def\<close>)
  then show "is_valid_for (error_span e) raw" "\<And>q. OpeningDelimiter q \<in> set (related_spans e) \<Longrightarrow> is_valid_for q raw \<and> range_len q = 1"
    by auto
qed

theorem parse_errors_exact:
  assumes "utf8_ok raw"
  shows "((\<exists>e. parse tab rs raw = Fail e) \<longleftrightarrow> \<not> (\<exists>es. body_at tab rs raw Global 0 es (length raw))) \<and>
    (parse tab rs raw = Fail e \<longrightarrow> defect tab rs raw e \<and> is_valid_for (error_span e) raw \<and>
      (\<forall>q. OpeningDelimiter q \<in> set (related_spans e) \<longrightarrow> is_valid_for q raw \<and> range_len q = 1))"
proof -
  have "\<not> (\<exists>es. body_at tab rs raw Global 0 es (length raw))" if "parse tab rs raw = Fail e" for e
    using parse_complete [OF assms] that by (metis outcome.distinct(1))
  moreover have "(\<exists>e. parse tab rs raw = Fail e) \<or> (\<exists>es. body_at tab rs raw Global 0 es (length raw))"
    using parse_sound [OF assms, of tab rs] by blast
  moreover have "defect tab rs raw e" if "parse tab rs raw = Fail e"
    using parse_FailD [OF assms that] .
  ultimately show ?thesis using defect_spans [OF assms] by blast
qed

subsection \<open>Spans\<close>

function (sequential) subelements :: "spanned_element \<Rightarrow> spanned_element list" where
  "subelements (Spanned (Group es) r) = Spanned (Group es) r # concat (map subelements es)"
| "subelements (Spanned (OptionElement es) r) = Spanned (OptionElement es) r # concat (map subelements es)"
| "subelements (Spanned (Choice bs) r) = Spanned (Choice bs) r # concat (map (\<lambda>es. concat (map subelements es)) bs)"
| "subelements x = [x]"
  by pat_completeness auto

termination
proof (relation "measure (size_spanned size)")
  have le: "x \<in> set es \<Longrightarrow> size_spanned size x \<le> size_list (size_spanned size) es"
    for es and x :: spanned_element
    by (rule size_list_estimation' [OF _ order.refl])
  show "(x, Spanned (Group es) r) \<in> measure (size_spanned size)" if "x \<in> set es" for es r and x :: spanned_element
    using le [OF that] by simp
  show "(x, Spanned (OptionElement es) r) \<in> measure (size_spanned size)" if "x \<in> set es" for es r and x :: spanned_element
    using le [OF that] by simp
  show "(x, Spanned (Choice bs) r) \<in> measure (size_spanned size)" if "es \<in> set bs" "x \<in> set es"
    for es bs r and x :: spanned_element
  proof -
    have "size_list (size_spanned size) es \<le> size_list (size_list (size_spanned size)) bs"
      by (rule size_list_estimation' [OF that(1) order.refl])
    then show ?thesis using le [OF that(2)] by simp
  qed
qed simp

definition spans_within :: "str \<Rightarrow> nat \<Rightarrow> nat \<Rightarrow> spanned_element list \<Rightarrow> bool" where
  "spans_within raw i j es \<longleftrightarrow> i \<le> j \<and> j \<le> length raw \<and> (\<forall>x \<in> set es. \<forall>y \<in> set (subelements x).
     is_valid_for (span y) raw \<and> i \<le> range_start (span y) \<and> range_end (span y) \<le> j)"

definition source_of :: "str \<Rightarrow> spanned_element list \<Rightarrow> str" where
  "source_of raw es = concat (map (\<lambda>x. between raw (range_start (span x)) (range_end (span x))) es)"

lemma spans_within_mono:
  "spans_within raw i j es \<Longrightarrow> i' \<le> i \<Longrightarrow> j \<le> j' \<Longrightarrow> j' \<le> length raw \<Longrightarrow> spans_within raw i' j' es"
  unfolding spans_within_def by (meson order_trans)

lemma spans_within_Cons:
  "spans_within raw i k [x] \<Longrightarrow> spans_within raw k j es \<Longrightarrow> spans_within raw i j (x # es)"
  using spans_within_mono [of raw i k "[x]" i j] spans_within_mono [of raw k j es i j]
  by (auto simp: spans_within_def)

lemma spans_within_append:
  "spans_within raw i k xs \<Longrightarrow> spans_within raw k j ys \<Longrightarrow> spans_within raw i j (xs @ ys)"
  using spans_within_mono [of raw i k xs i j] spans_within_mono [of raw k j ys i j]
  by (auto simp: spans_within_def)

lemma between_append: "i \<le> k \<Longrightarrow> k \<le> j \<Longrightarrow> between raw i k @ between raw k j = between raw i j"
  using take_add [of "k - i" "j - k" "drop i raw"] by (simp add: between_def)

lemma valid_span: "is_char_boundary raw i \<Longrightarrow> is_char_boundary raw j \<Longrightarrow> i \<le> j \<Longrightarrow> is_valid_for (range_new i j) raw"
  using boundary_le by (auto simp: is_valid_for_def)

text \<open>A leaf of the tree, and a node over a body.\<close>

lemma leaf_within:
  assumes "is_char_boundary raw i" "is_char_boundary raw j" "i \<le> j" and "subelements (Spanned e (range_new i j)) = [Spanned e (range_new i j)]"
  shows "spans_within raw i j [Spanned e (range_new i j)]"
  using assms valid_span [OF assms(1-3)] boundary_le by (simp add: spans_within_def)

lemma node_within:
  assumes "is_char_boundary raw i" "is_char_boundary raw j" and "spans_within raw i' j' es" and "i \<le> i'" "j' \<le> j"
    and "set (subelements (Spanned e (range_new i j))) = insert (Spanned e (range_new i j)) (\<Union>x \<in> set es. set (subelements x))"
  shows "spans_within raw i j [Spanned e (range_new i j)]"
proof -
  have "i \<le> j" "j \<le> length raw" using assms(2-5) boundary_le [OF assms(2)] by (auto simp: spans_within_def)
  then show ?thesis
    using spans_within_mono [OF assms(3-5)] valid_span [OF assms(1,2)] assms(6) by (simp add: spans_within_def)
qed

definition covers :: "str \<Rightarrow> nat \<Rightarrow> nat \<Rightarrow> spanned_element list \<Rightarrow> bool" where
  "covers raw i j es \<longleftrightarrow> is_char_boundary raw i \<longrightarrow>
     is_char_boundary raw j \<and> spans_within raw i j es \<and> source_of raw es = between raw i j"

lemma covers_leaf:
  assumes "is_char_boundary raw j" "i \<le> j" and "subelements (Spanned e (range_new i j)) = [Spanned e (range_new i j)]"
  shows "covers raw i j [Spanned e (range_new i j)]"
  using assms leaf_within by (simp add: covers_def source_of_def)

lemma covers_nested:
  assumes ok: "utf8_ok raw" and "covers raw (i + 1) j es" and a: "char_at raw i a" "char_at raw j d" "byte a < 128" "byte d < 128"
    and "e = Group es \<or> e = OptionElement es"
  shows "covers raw i (j + 1) [Spanned e (range_new i (j + 1))]"
proof -
  have b: "is_char_boundary raw (i + 1)" "is_char_boundary raw (j + 1)"
    using ascii_rest(2) [OF ok a(1,3)] ascii_rest(2) [OF ok a(2,4)] by auto
  then have w: "spans_within raw (i + 1) j es" using assms(2) by (simp add: covers_def)
  have "is_char_boundary raw i \<Longrightarrow> spans_within raw i (j + 1) [Spanned e (range_new i (j + 1))]"
    by (rule node_within [OF _ b(2) w]) (use assms(7) in auto)
  then show ?thesis using b w by (simp add: covers_def source_of_def)
qed

lemma derivation_covers:
  assumes ok: "utf8_ok raw"
  shows "element_at tab rs raw sc i x j \<Longrightarrow> covers raw i j [x]"
    and "items_at tab rs raw sc i es j \<Longrightarrow> covers raw i j es"
    and "branch_at tab rs raw sc i es j \<Longrightarrow> covers raw i j es"
    and "branches_at tab rs raw sc i bs j \<Longrightarrow> is_char_boundary raw i \<longrightarrow> is_char_boundary raw j \<and> spans_within raw i j (concat bs)"
    and "body_at tab rs raw sc i es j \<Longrightarrow> covers raw i j es"
proof (induction rule: element_at_items_at_branch_at_branches_at_body_at.inducts)
  case (literal sc i j s)
  then show ?case by (intro covers_leaf) (auto simp: literal_at_def)
next
  case (group i es j sc)
  then show ?case by (intro covers_nested [OF ok group(3,1,4)]) auto
next
  case (option i es j sc)
  then show ?case by (intro covers_nested [OF ok option(3,1,4)]) auto
next
  case (regex i j sc)
  then show ?case using ascii_rest(2) [OF ok \<open>char_at raw j CHR ''>''\<close>] by (intro covers_leaf) auto
next
  case (type i j t sc)
  then show ?case using ascii_rest(2) [OF ok \<open>char_at raw j CHR ''%''\<close>] by (intro covers_leaf) auto
next
  case (tag sc i j s)
  then show ?case using ascii_rest(2) [OF ok \<open>char_at raw j CHR '':''\<close>] by (intro covers_leaf) (auto simp: literal_at_def)
next
  case (mark sc i j s n)
  then show ?case using mark_rest(2) [OF ok \<open>mark_at raw j\<close>] by (intro covers_leaf) (auto simp: literal_at_def)
next
  case (items_Nil sc i)
  then show ?case using boundary_le by (auto simp: covers_def spans_within_def source_of_def between_def)
next
  case (items_Cons sc i e k es j)
  show ?case unfolding covers_def
  proof
    assume b: "is_char_boundary raw i"
    then have e: "is_char_boundary raw k" "spans_within raw i k [e]" "source_of raw [e] = between raw i k"
      using items_Cons by (auto simp: covers_def)
    then have es: "is_char_boundary raw j" "spans_within raw k j es" "source_of raw es = between raw k j"
      using items_Cons by (auto simp: covers_def)
    have "source_of raw (e # es) = between raw i j"
      using e(2,3) es(2,3) between_append [of i k j raw] by (simp add: source_of_def spans_within_def)
    then show "is_char_boundary raw j \<and> spans_within raw i j (e # es) \<and> source_of raw (e # es) = between raw i j"
      using es(1) spans_within_Cons [OF e(2) es(2)] by blast
  qed
next
  case (branch_empty sc i)
  then show ?case by (auto simp: covers_def source_of_def intro: leaf_within)
next
  case (branches_one sc i es j)
  then show ?case by (simp add: covers_def)
next
  case (branches_more sc i es k bs j)
  have "byte CHR ''|'' < (128 :: nat)" by simp
  note r = ascii_rest [OF ok \<open>char_at raw k CHR ''|''\<close> this]
  show ?case
  proof
    assume "is_char_boundary raw i"
    then have e: "spans_within raw i k es" using branches_more by (auto simp: covers_def)
    have bs: "is_char_boundary raw j" "spans_within raw (k + 1) j (concat bs)" using branches_more r(2) by auto
    have "k + 1 \<le> length raw" using boundary_le [OF r(2)] .
    then have "spans_within raw i (k + 1) es" using spans_within_mono [OF e, of i "k + 1"] by simp
    from spans_within_append [OF this bs(2)] show "is_char_boundary raw j \<and> spans_within raw i j (concat (es # bs))"
      using bs(1) by simp
  qed
next
  case (body_choice sc i bs j)
  show ?case unfolding covers_def
  proof
    assume b: "is_char_boundary raw i"
    then have bs: "is_char_boundary raw j" "spans_within raw i j (concat bs)" using body_choice by auto
    have "spans_within raw i j [Spanned (Choice bs) (range_new i j)]"
      by (rule node_within [OF b bs]) auto
    then show "is_char_boundary raw j \<and> spans_within raw i j [Spanned (Choice bs) (range_new i j)] \<and>
        source_of raw [Spanned (Choice bs) (range_new i j)] = between raw i j"
      using bs(1) by (simp add: source_of_def)
  qed
qed auto

text \<open>
  C26. Nothing of a pattern is lost.  The spans of the top-level elements, in order, are exactly the
  bytes of the pattern; and every element at any depth has a valid span of the pattern.
\<close>

theorem parse_covers_source:
  assumes "utf8_ok raw" and "parse tab rs raw = Ret r"
  shows "source_of raw (elements r) = raw \<and> spans_within raw 0 (length raw) (elements r)"
proof -
  have "body_at tab rs raw Global 0 (elements r) (length raw)"
    using parse_RetD [OF assms] by simp
  from derivation_covers(5) [OF assms(1) this] show ?thesis by (simp add: covers_def between_def)
qed

subsection \<open>A pattern and a defect\<close>

definition identity_table :: case_table where
  "identity_table = \<lparr>to_upper = id, to_lower = id\<rparr>"

definition sample_elements :: "spanned_element list" where
  "sample_elements =
     [Spanned (OptionElement [Spanned (ParseTag ''x'') (range_new 1 3), Spanned (Literal ''a'') (range_new 3 4)]) (range_new 0 5),
      Spanned (Literal ''(b'') (range_new 5 8),
      Spanned (Group [Spanned (Choice [[Spanned (ParseMark 1) (range_new 9 12)], [Spanned EmptyBranch (range_new 13 13)]])
        (range_new 9 13)]) (range_new 8 14)]"

definition sample_pattern :: str where
  "sample_pattern = ''[x:a]'' @ [CHR 0x5C] @ ''(b(1'' @ [CHR 0xC2, CHR 0xA6] @ ''|)''"

lemma sample_pattern_utf8: "utf8_ok sample_pattern" "utf8_ok ''ab(c''"
  by (simp_all add: sample_pattern_def utf8_ok.simps utf8_step_def is_cont_def)

lemma parse_sample:
  "parse identity_table sample_rules sample_pattern = Ret \<lparr>elements = sample_elements, warnings = []\<rparr>"
  by code_simp

lemma parse_sample_defect:
  "parse identity_table sample_rules ''ab(c'' = Fail (unclosed ''ab(c'' UnclosedParenthesis (range_new 2 3))"
  by code_simp

theorem parse_decides_grammar_witness:
  "body_at identity_table sample_rules sample_pattern Global 0 sample_elements (length sample_pattern)"
  using parse_decides_grammar [OF sample_pattern_utf8(1), of identity_table sample_rules
      "\<lparr>elements = sample_elements, warnings = []\<rparr>"] parse_sample by simp

theorem parse_errors_exact_witness:
  "\<not> (\<exists>es. body_at identity_table sample_rules ''ab(c'' Global 0 es (length ''ab(c'')) \<and>
   defect identity_table sample_rules ''ab(c'' (unclosed ''ab(c'' UnclosedParenthesis (range_new 2 3))"
  using parse_errors_exact [OF sample_pattern_utf8(2), of identity_table sample_rules
      "unclosed ''ab(c'' UnclosedParenthesis (range_new 2 3)"] parse_sample_defect by blast

theorem parse_covers_source_witness:
  "source_of sample_pattern sample_elements = sample_pattern \<and> spans_within sample_pattern 0 (length sample_pattern) sample_elements"
  using parse_covers_source [OF sample_pattern_utf8(1) parse_sample] by simp

end
