(* ===== verification/Pattern_Display.thy ===== *)
theory Pattern_Display
  imports Pattern_Correct "HOL-Library.Sublist"
begin

text \<open>
  Printing type expressions: \<open>PatternTypeExprDisplay\<close> against \<open>parse_pattern_type_expr\<close>.
\<close>

subsection \<open>Numbers\<close>

lemma decimal_Nil [simp]: "decimal [] = 0"
  by (simp add: decimal_def)

lemma decimal_snoc: "decimal (s @ [c]) = decimal s * 10 + int (byte c - 48)"
  by (simp add: decimal_def)

lemma show_nat_reads:
  "decimal (show_nat n) = int n \<and> list_all is_digit (show_nat n) \<and> show_nat n \<noteq> []"
proof (induction n rule: show_nat.induct)
  case (1 n)
  have d: "byte (char_of (48 + k) :: char) = 48 + k" if "k < 10" for k :: nat
    using that by (simp add: of_char_of)
  show ?case
  proof (cases "n < 10")
    case True
    then have "show_nat n = [char_of (48 + n)]" using show_nat.simps [of n] by simp
    then show ?thesis using d [OF True] True by (simp add: decimal_def is_digit_def del: of_char_of)
  next
    case False
    define c :: char where "c = char_of (48 + n mod 10)"
    have c: "byte c = 48 + n mod 10" unfolding c_def by (rule d) simp
    have un: "show_nat n = show_nat (n div 10) @ [c]" using False show_nat.simps [of n] by (simp add: c_def)
    have IH: "decimal (show_nat (n div 10)) = int (n div 10)" "list_all is_digit (show_nat (n div 10))"
      using 1 False by auto
    have "decimal (show_nat n) = int (n div 10) * 10 + int (n mod 10)" unfolding un decimal_snoc IH(1) c by simp
    also have "\<dots> = int (n div 10 * 10 + n mod 10)" by (simp only: of_nat_add of_nat_mult of_nat_numeral)
    also have "\<dots> = int n" by (simp only: div_mult_mod_eq)
    finally have "decimal (show_nat n) = int n" .
    moreover have "n mod 10 \<le> 9" using mod_less_divisor [of 10 n] by linarith
    then have "is_digit c" using c by (simp add: is_digit_def)
    ultimately show ?thesis using IH(2) un by simp
  qed
qed

lemma parse_show_i32:
  assumes "- (2 ^ 31) \<le> n" and "n < 2 ^ 31"
  shows "parse_i32 (show_i32 n) = Some n"
proof (cases "n < 0")
  case True
  then show ?thesis using assms show_nat_reads [of "nat (- n)"] by (simp add: show_i32_def parse_i32_def)
next
  case False
  obtain c cs where c: "show_nat (nat n) = c # cs" using show_nat_reads [of "nat n"] by (cases "show_nat (nat n)") auto
  then have "is_digit c" using show_nat_reads [of "nat n"] by simp
  then have "c \<noteq> CHR ''-''" "c \<noteq> CHR ''+''" by (auto simp: is_digit_def)
  then show ?thesis using assms False c show_nat_reads [of "nat n"] by (simp add: show_i32_def parse_i32_def)
qed

subsection \<open>Type expressions\<close>

definition flag :: "char \<Rightarrow> bool" where
  "flag c \<longleftrightarrow> c \<in> set ''-*~''"

text \<open>A text without separators and without a flag in front.\<close>

definition plain_text :: "str \<Rightarrow> bool" where
  "plain_text w \<longleftrightarrow> CHR ''/'' \<notin> set w \<and> CHR ''@'' \<notin> set w \<and> (w = [] \<or> \<not> flag (hd w))"

lemma plain_text_append: "plain_text s \<Longrightarrow> plain_text w \<Longrightarrow> plain_text (s @ w)"
  by (cases s) (auto simp: plain_text_def)

lemma plain_text_prefix: "plain_text (s @ w) \<Longrightarrow> plain_text s"
  by (cases s) (auto simp: plain_text_def)

subsection \<open>Words\<close>

text \<open>How the parser of type expressions reads a word, and what becomes of an alternative that is printed and read.\<close>

definition read_word :: "case_table \<Rightarrow> plural_rules \<Rightarrow> str \<Rightarrow> type_alternative" where
  "read_word tab rs w = (case to_singular tab rs w of (n, p) \<Rightarrow> \<lparr>alt_name = n, alt_plural = p\<rparr>)"

definition word_of :: "plural_rules \<Rightarrow> type_alternative \<Rightarrow> str" where
  "word_of rs a = (case (display_alternative rs a :: (unit, str) outcome) of Ret w \<Rightarrow> w | _ \<Rightarrow> [])"

text \<open>
  When a word is unambiguous, in terms of suffixes.  A rule makes a plural of names with its singular
  suffix, and takes words with its plural suffix for plurals; under the newer algorithm a word with the
  singular suffix of some rule is never taken for a plural.
\<close>

definition makes_plural :: "plural_rule \<Rightarrow> str \<Rightarrow> bool" where
  "makes_plural r name \<longleftrightarrow> suffix (rule_singular r) name \<and> (complete_word r = Some True \<longrightarrow> name = rule_singular r)"

definition takes_for_plural :: "case_table \<Rightarrow> plural_rule \<Rightarrow> str \<Rightarrow> bool" where
  "takes_for_plural tab r w \<longleftrightarrow> (suffix (rule_plural r) w \<or> suffix (to_upper tab (rule_plural r)) w) \<and>
     (complete_word r = Some True \<longrightarrow> length w = length (rule_plural r))"

definition looks_singular :: "case_table \<Rightarrow> plural_rules \<Rightarrow> str \<Rightarrow> bool" where
  "looks_singular tab rs w \<longleftrightarrow> plural_algorithm rs = SingularAware \<and>
     (\<exists>r \<in> set (rules rs). \<not> is_blank (rule_singular r) \<and> (suffix (rule_singular r) w \<or> suffix (rule_singular r) (to_lower tab w)) \<and>
       (complete_word r = Some True \<longrightarrow> length w = length (rule_singular r)))"

text \<open>
  A singular name is unambiguous if it looks singular or no rule takes it for a plural; a plural, if the
  word does not look singular and no rule before the one that made it takes it for a plural.
\<close>

definition unambiguous :: "case_table \<Rightarrow> plural_rules \<Rightarrow> type_alternative \<Rightarrow> bool" where
  "unambiguous tab rs a \<longleftrightarrow>
     (if alt_plural a then
        \<exists>before r after stem. rules rs = before @ r # after \<and> makes_plural r (alt_name a) \<and> alt_name a = stem @ rule_singular r \<and>
          stem @ rule_plural r \<noteq> [] \<and> \<not> looks_singular tab rs (stem @ rule_plural r) \<and>
          (\<forall>r' \<in> set before. \<not> makes_plural r' (alt_name a) \<and> \<not> takes_for_plural tab r' (stem @ rule_plural r))
      else alt_name a = [] \<or> looks_singular tab rs (alt_name a) \<or> (\<forall>r \<in> set (rules rs). \<not> takes_for_plural tab r (alt_name a)))"

lemma strip_suffix_Some_iff: "strip_suffix w s = Some stem \<longleftrightarrow> w = stem @ s"
  unfolding strip_suffix_def by (auto, metis append_take_drop_id)

lemma strip_suffix_None_iff: "strip_suffix w s = None \<longleftrightarrow> \<not> suffix s w"
  by (cases "strip_suffix w s") (auto simp: strip_suffix_Some_iff suffix_def, auto simp: strip_suffix_def)

lemma could_be_singular_iff: "plural_algorithm rs = SingularAware \<and> could_be_singular tab rs w \<longleftrightarrow> looks_singular tab rs w"
  by (auto simp: looks_singular_def could_be_singular_def list_ex_iff strip_suffix_None_iff)

lemma suffix_same_length: "suffix s w \<Longrightarrow> length w = length s \<Longrightarrow> w = s"
  by (auto simp: suffix_def)

lemma plural_by_first:
  assumes "makes_plural r (stem @ rule_singular r)" and "\<forall>r' \<in> set before. \<not> makes_plural r' (stem @ rule_singular r)"
  shows "plural_by (stem @ rule_singular r) (before @ r # after) = Ret (stem @ rule_plural r)"
  using assms(2)
proof (induction before)
  case Nil
  have "strip_suffix (stem @ rule_singular r) (rule_singular r) = Some stem" by (simp add: strip_suffix_Some_iff)
  then show ?case using assms(1) by (auto simp: makes_plural_def)
next
  case (Cons r' before)
  have "strip_suffix (stem @ rule_singular r) (rule_singular r') = None \<or>
      complete_word r' = Some True \<and> length (stem @ rule_singular r) \<noteq> length (rule_singular r')"
    using Cons.prems unfolding strip_suffix_None_iff makes_plural_def
    using suffix_same_length by (auto simp del: length_append)
  then show ?case using Cons by auto
qed

lemma singular_by_skip:
  "\<forall>r \<in> set before. \<not> takes_for_plural tab r w \<Longrightarrow> singular_by tab w (before @ rest) = singular_by tab w rest"
proof (induction before)
  case (Cons r before)
  have "complete_word r = Some True \<and> length w \<noteq> length (rule_plural r) \<or>
      strip_suffix w (rule_plural r) = None \<and> strip_suffix w (to_upper tab (rule_plural r)) = None"
    using Cons.prems by (auto simp: strip_suffix_None_iff takes_for_plural_def)
  then show ?case using Cons by auto
qed simp

lemma read_unambiguous:
  assumes "unambiguous tab rs a"
  shows "read_word tab rs (word_of rs a) = a"
proof (cases "alt_plural a")
  case True
  then obtain before r after stem where r: "rules rs = before @ r # after" "makes_plural r (alt_name a)" "alt_name a = stem @ rule_singular r"
    and w: "stem @ rule_plural r \<noteq> []" "\<not> looks_singular tab rs (stem @ rule_plural r)"
      "\<forall>r' \<in> set before. \<not> makes_plural r' (alt_name a) \<and> \<not> takes_for_plural tab r' (stem @ rule_plural r)"
    using assms by (auto simp: unambiguous_def)
  have "plural_by (alt_name a) (rules rs) = (Ret (stem @ rule_plural r) :: (unit, str) outcome)"
    unfolding r(1,3) by (rule plural_by_first) (use r(2,3) w(3) in auto)
  then have "word_of rs a = stem @ rule_plural r" using True by (simp add: word_of_def display_alternative_def to_plural_def)
  moreover have "to_singular tab rs (stem @ rule_plural r) = (alt_name a, True)"
  proof -
    have "strip_suffix (stem @ rule_plural r) (rule_plural r) = Some stem" by (simp add: strip_suffix_Some_iff)
    moreover have "complete_word r = Some True \<Longrightarrow> stem = []" using r(2,3) by (simp add: makes_plural_def)
    ultimately have "singular_by tab (stem @ rule_plural r) (r # after) = (alt_name a, True)" using r(3) by auto
    then have "singular_by tab (stem @ rule_plural r) (rules rs) = (alt_name a, True)"
      using singular_by_skip [of before tab "stem @ rule_plural r" "r # after"] w(3) r(1) by simp
    then show ?thesis using w(1,2) could_be_singular_iff [of rs tab "stem @ rule_plural r"] by (simp add: to_singular_def)
  qed
  ultimately show ?thesis using True by (cases a) (simp add: read_word_def)
next
  case False
  then have "word_of rs a = alt_name a" by (simp add: word_of_def display_alternative_def)
  moreover have "to_singular tab rs (alt_name a) = (alt_name a, False)"
    using assms False singular_by_skip [of "rules rs" tab "alt_name a" "[]"] could_be_singular_iff [of rs tab "alt_name a"]
    by (auto simp: unambiguous_def to_singular_def)
  ultimately show ?thesis using False by (cases a) (simp add: read_word_def)
qed

lemma plural_by_plain:
  "(plural_by name rs :: ('e, str) outcome) = Ret w \<Longrightarrow> plain_text name \<Longrightarrow> \<forall>r \<in> set rs. plain_text (rule_plural r) \<Longrightarrow> plain_text w"
proof (induction rs)
  case (Cons r rs)
  show ?case
  proof (cases "(plural_by name rs :: ('e, str) outcome) = Ret w")
    case False
    then obtain stem where "strip_suffix name (rule_singular r) = Some stem" "w = stem @ rule_plural r"
      using Cons.prems(1) by (auto split: if_splits option.splits)
    then have "plain_text stem" "w = stem @ rule_plural r" using Cons.prems(2) by (auto simp: strip_suffix_Some_iff intro: plain_text_prefix)
    then show ?thesis using Cons.prems(3) by (simp add: plain_text_append)
  qed (use Cons in auto)
qed simp

lemma display_alternative_word:
  assumes "plural_rules_ok rs" and "\<forall>r \<in> set (rules rs). plain_text (rule_plural r)" and "plain_text (alt_name a)"
  shows "display_alternative rs a = (Ret (word_of rs a) :: ('e, str) outcome) \<and> plain_text (word_of rs a)"
proof (cases "alt_plural a")
  case True
  have r: "rules rs \<noteq> []" "rule_singular (last (rules rs)) = []" "complete_word (last (rules rs)) \<noteq> Some True"
    using assms(1) by (simp_all add: plural_rules_ok_def)
  obtain w where w: "plural_by (alt_name a) (rules rs) = (Ret w :: ('e, str) outcome)" using plural_by_total [OF r] by blast
  have "plural_by name rl = (Ret w :: ('e, str) outcome) \<Longrightarrow> plural_by name rl = (Ret w :: (unit, str) outcome)" for name rl
    by (induction rl) (auto split: option.splits if_splits)
  from this [OF w] w show ?thesis
    using True plural_by_plain [OF w assms(3,2)] by (simp add: word_of_def display_alternative_def to_plural_def)
qed (use assms(3) in \<open>simp add: word_of_def display_alternative_def\<close>)

lemma split_word: "c \<notin> set w \<Longrightarrow> split_at_char c w = [w]"
  by (induction w) auto

lemma split_append: "c \<notin> set w \<Longrightarrow> split_at_char c (w @ c # s) = w # split_at_char c s"
  by (induction w) auto

lemma display_alternatives_read:
  assumes "as \<noteq> []" and "\<forall>a \<in> set as. display_alternative rs a = (Ret (word_of rs a) :: ('e, str) outcome) \<and> plain_text (word_of rs a)"
  shows "\<exists>s. display_alternatives rs as = (Ret s :: ('e, str) outcome) \<and>
    split_at_char CHR ''/'' s = map (word_of rs) as \<and> CHR ''@'' \<notin> set s \<and> (s = [] \<or> \<not> flag (hd s))"
  using assms
proof (induction as rule: induct_list012)
  case (2 a)
  then show ?case by (simp add: split_word plain_text_def)
next
  case (3 a b as)
  obtain s where s: "display_alternatives rs (b # as) = (Ret s :: ('e, str) outcome)"
    "split_at_char CHR ''/'' s = map (word_of rs) (b # as)" "CHR ''@'' \<notin> set s"
    using "3.IH"(2) "3.prems" by auto
  have "\<not> flag CHR ''/''" by (simp add: flag_def)
  then have "word_of rs a @ CHR ''/'' # s = [] \<or> \<not> flag (hd (word_of rs a @ CHR ''/'' # s))"
    using "3.prems" by (cases "word_of rs a") (auto simp: plain_text_def)
  then show ?case using "3.prems" s by (simp add: split_append plain_text_def)
qed simp

lemma strip_flags_stop: "s = [] \<or> \<not> flag (hd s) \<Longrightarrow> strip_flags (s, t) = (s, t)"
  by (cases s) (auto simp: flag_def)

lemma find_byte_append: "c \<notin> set s \<Longrightarrow> find_byte c (s @ c # t) = Some (length s)"
  by (induction s) auto

text \<open>Reading a printed expression: flags, words and time are taken apart again.\<close>

lemma parse_printed:
  assumes "CHR ''@'' \<notin> set s" and "s = [] \<or> \<not> flag (hd s)" and "- (2 ^ 31) \<le> time t" and "time t < 2 ^ 31"
  shows "parse_pattern_type_expr tab rs (display_flags t @ s @ (if time t \<noteq> 0 then CHR ''@'' # show_i32 (time t) else [])) off =
    Ret (t\<lparr>alternatives := map (read_word tab rs) (split_at_char CHR ''/'' s),
      allow_expressions := allow_expressions t \<or> \<not> allow_literals t\<rparr>)"
    (is "_ = Ret ?reread")
proof -
  define tail where "tail = (if time t \<noteq> 0 then CHR ''@'' # show_i32 (time t) else [])"
  let ?t0 = "\<lparr>alternatives = [], nullable = False, allow_literals = True, allow_expressions = True, time = 0\<rparr>"
  let ?t1 = "\<lparr>alternatives = [], nullable = nullable t, allow_literals = allow_literals t,
    allow_expressions = allow_expressions t \<or> \<not> allow_literals t, time = 0\<rparr>"
  have body: "s @ tail = [] \<or> \<not> flag (hd (s @ tail))"
    using assms(2) by (cases s) (auto simp: tail_def flag_def)
  have flags: "strip_flags (display_flags t @ s @ tail, ?t0) = (s @ tail, ?t1)"
    using strip_flags_stop [OF body] by (simp add: display_flags_def)
  have single: "(\<lambda>word. case to_singular tab rs word of (name, plural) \<Rightarrow> \<lparr>alt_name = name, alt_plural = plural\<rparr>) = read_word tab rs"
    by (simp add: read_word_def fun_eq_iff)
  have result: "?t1\<lparr>alternatives := map (read_word tab rs) (split_at_char CHR ''/'' s), time := time t\<rparr> = ?reread"
    by (cases t) simp
  have "parse_pattern_type_expr tab rs (display_flags t @ s @ tail) off = Ret ?reread"
  proof (cases "time t = 0")
    case True
    then have "tail = []" by (simp add: tail_def)
    moreover have "find_byte CHR ''@'' s = None" using assms(1) by simp
    ultimately show ?thesis using flags result True
      unfolding parse_pattern_type_expr_def single by (simp add: Let_def del: find_byte_None)
  next
    case False
    then have "tail = CHR ''@'' # show_i32 (time t)" by (simp add: tail_def)
    then show ?thesis using flags result find_byte_append [OF assms(1)] parse_show_i32 [OF assms(3,4)]
      unfolding parse_pattern_type_expr_def single by (simp add: Let_def)
  qed
  then show ?thesis unfolding tail_def .
qed

text \<open>
  C40. What printing a type expression and parsing it again gives.  Under validated rules, with names and
  plural suffixes free of separators and leading flags, the expression is printed, and parsing the
  printed text gives it with two changes: each alternative is what the plural rules read its printed word
  as, and an expression that admits neither literals nor expressions, printed with \<open>~\<close> alone, comes
  back as one that admits expressions.  An unambiguous alternative comes back as it is, so an expression of
  unambiguous alternatives that admits literals or expressions is read back exactly.
\<close>

theorem display_type_expr_roundtrip:
  assumes "plural_rules_ok rs" and "\<forall>r \<in> set (rules rs). plain_text (rule_plural r)"
    and "alternatives t \<noteq> []" and "\<forall>a \<in> set (alternatives t). plain_text (alt_name a)"
    and "- (2 ^ 31) \<le> time t" and "time t < 2 ^ 31"
  shows "\<exists>s. display_type_expr rs t = (Ret s :: (parse_error, str) outcome) \<and>
    parse_pattern_type_expr tab rs s off =
      Ret (t\<lparr>alternatives := map (\<lambda>a. read_word tab rs (word_of rs a)) (alternatives t),
        allow_expressions := allow_expressions t \<or> \<not> allow_literals t\<rparr>) \<and>
    (\<forall>a \<in> set (alternatives t). unambiguous tab rs a \<longrightarrow> read_word tab rs (word_of rs a) = a) \<and>
    ((\<forall>a \<in> set (alternatives t). unambiguous tab rs a) \<and> (allow_expressions t \<or> allow_literals t) \<longrightarrow>
      parse_pattern_type_expr tab rs s off = Ret t)"
proof -
  let ?reread = "t\<lparr>alternatives := map (\<lambda>a. read_word tab rs (word_of rs a)) (alternatives t),
      allow_expressions := allow_expressions t \<or> \<not> allow_literals t\<rparr>"
  have "\<forall>a \<in> set (alternatives t). display_alternative rs a = (Ret (word_of rs a) :: (parse_error, str) outcome) \<and> plain_text (word_of rs a)"
    using display_alternative_word [OF assms(1,2)] assms(4) by blast
  from display_alternatives_read [OF assms(3) this]
  obtain s where s: "display_alternatives rs (alternatives t) = (Ret s :: (parse_error, str) outcome)"
    "split_at_char CHR ''/'' s = map (word_of rs) (alternatives t)" "CHR ''@'' \<notin> set s" "s = [] \<or> \<not> flag (hd s)" by blast
  have "parse_pattern_type_expr tab rs (display_flags t @ s @ (if time t \<noteq> 0 then CHR ''@'' # show_i32 (time t) else [])) off = Ret ?reread"
    using parse_printed [OF s(3,4) assms(5,6)] by (simp add: s(2) comp_def)
  moreover have "display_type_expr rs t = (Ret (display_flags t @ s @ (if time t \<noteq> 0 then CHR ''@'' # show_i32 (time t) else [])) :: (parse_error, str) outcome)"
    using s(1) by (simp add: display_type_expr_def)
  moreover have "?reread = t" if "\<forall>a \<in> set (alternatives t). unambiguous tab rs a" "allow_expressions t \<or> allow_literals t"
  proof -
    have "map (\<lambda>a. read_word tab rs (word_of rs a)) (alternatives t) = alternatives t"
      by (rule map_idI) (use that(1) read_unambiguous in blast)
    then show ?thesis using that(2) by (cases t) auto
  qed
  ultimately show ?thesis using read_unambiguous by metis
qed

text \<open>Plurals made by the override and by the fallback rule of \<open>sample_rules\<close>, and a singular name.\<close>

definition sample_type :: type_expr where
  "sample_type = \<lparr>alternatives = [\<lparr>alt_name = ''person'', alt_plural = True\<rparr>, \<lparr>alt_name = ''player'', alt_plural = True\<rparr>,
       \<lparr>alt_name = ''text'', alt_plural = False\<rparr>],
     nullable = True, allow_literals = False, allow_expressions = True, time = - 1\<rparr>"

lemma sample_suffixes:
  "\<not> suffix ''person'' ''people''" "\<not> suffix ''person'' ''player''" "\<not> suffix ''person'' ''players''" "\<not> suffix ''people'' ''players''"
  "\<not> suffix ''person'' ''text''" "\<not> suffix ''people'' ''text''" "\<not> suffix ''s'' ''text''"
  by (simp_all add: suffix_to_prefix)

lemma unambiguous_plural:
  assumes "rules rs = before @ r # after" and "makes_plural r (stem @ rule_singular r)" and "stem @ rule_plural r \<noteq> []"
    and "\<not> looks_singular tab rs (stem @ rule_plural r)"
    and "\<forall>r' \<in> set before. \<not> makes_plural r' (stem @ rule_singular r) \<and> \<not> takes_for_plural tab r' (stem @ rule_plural r)"
  shows "unambiguous tab rs \<lparr>alt_name = stem @ rule_singular r, alt_plural = True\<rparr>"
  unfolding unambiguous_def using assms by (simp del: append_is_Nil_conv) blast

lemma sample_type_unambiguous: "\<forall>a \<in> set (alternatives sample_type). unambiguous identity_table sample_rules a"
proof -
  let ?r = "\<lparr>rule_order = 0, rule_singular = ''person'', rule_plural = ''people'', complete_word = Some False,
    rule_origin = Override, override_order = Some 0, rule_addon = \<lparr>addon_name = ''A'', addon_version = ''1''\<rparr>\<rparr>"
  let ?q = "\<lparr>rule_order = 1, rule_singular = [], rule_plural = ''s'', complete_word = Some False,
    rule_origin = BuiltIn, override_order = None, rule_addon = \<lparr>addon_name = ''Skript'', addon_version = ''2''\<rparr>\<rparr>"
  have r: "rules sample_rules = [?r, ?q]" "plural_algorithm sample_rules = SingularAware" by (simp_all add: sample_rules_def)
  have blank: "is_blank []" by (simp add: is_blank_iff codes_def)
  have plain_text: "to_lower identity_table w = w" "to_upper identity_table w = w" for w by (simp_all add: identity_table_def)
  have words: "\<not> looks_singular identity_table sample_rules ''people''" "\<not> looks_singular identity_table sample_rules ''players''"
    using r blank plain_text sample_suffixes by (simp_all add: looks_singular_def)
  have "unambiguous identity_table sample_rules \<lparr>alt_name = [] @ rule_singular ?r, alt_plural = True\<rparr>"
    by (rule unambiguous_plural [of _ "[]" ?r "[?q]"]) (use r words in \<open>simp_all add: makes_plural_def\<close>)
  moreover have "unambiguous identity_table sample_rules \<lparr>alt_name = ''player'' @ rule_singular ?q, alt_plural = True\<rparr>"
    by (rule unambiguous_plural [of _ "[?r]" ?q "[]"])
      (use r words plain_text sample_suffixes in \<open>simp_all add: makes_plural_def takes_for_plural_def\<close>)
  moreover have "unambiguous identity_table sample_rules \<lparr>alt_name = ''text'', alt_plural = False\<rparr>"
    unfolding unambiguous_def using r plain_text sample_suffixes by (auto simp: takes_for_plural_def)
  ultimately show ?thesis by (simp add: sample_type_def)
qed

theorem display_type_expr_roundtrip_witness:
  "\<exists>s. display_type_expr sample_rules sample_type = (Ret s :: (parse_error, str) outcome) \<and>
    parse_pattern_type_expr identity_table sample_rules s 0 = Ret sample_type"
proof -
  have "plural_rules_ok sample_rules" using sample_rules_ok by (simp add: plural_try_from_Ret_iff)
  moreover have "\<forall>r \<in> set (rules sample_rules). plain_text (rule_plural r)" by (simp add: sample_rules_def plain_text_def flag_def)
  moreover have "alternatives sample_type \<noteq> []" "\<forall>a \<in> set (alternatives sample_type). plain_text (alt_name a)"
    "- (2 ^ 31) \<le> time sample_type" "time sample_type < 2 ^ 31" "allow_expressions sample_type"
    by (simp_all add: sample_type_def plain_text_def flag_def)
  ultimately show ?thesis
    using display_type_expr_roundtrip [of sample_rules sample_type identity_table 0] sample_type_unambiguous by blast
qed

end
