(* ===== verification/Failure_Trace.thy ===== *)
theory Failure_Trace
  imports Mapped_Source Syntax_Pattern "HOL-Library.Sorting_Algorithms"
begin

text \<open>
  \<open>skript-parser/src/failure.rs\<close> with the data types of \<open>pattern_match.rs\<close> and
  \<open>default_expression.rs\<close> that it mentions: why a pattern did not match, the syntax frames around a
  failure, and the order that decides which of several failures is shown to the user.

  \<open>Ordering\<close> is \<open>comp\<close> of the library theory \<open>Comparator\<close>; \<open>sort_by\<close> is its stable \<open>sort\<close>, which
  needs the proof that the comparison is a linear quasi-order.
\<close>

subsection \<open>Data\<close>

record match_span =
  local_range :: text_range
  mapped :: mapped_span

datatype match_syntax_kind =
    EventSyntax
  | ConditionSyntax
  | EffectSyntax
  | ExpressionSyntax
  | TypeSyntax
  | FunctionSyntax
  | SectionSyntax
  | StructureSyntax

datatype path_segment = ElementSegment nat | BranchSegment nat

datatype default_expression_failure_kind = RejectedDefault | UnresolvedDefault

datatype pattern_failure_reason =
    ExpectedLiteral str
  | ExpectedRegex str
  | ExpectedExpression
  | ExpectedTypes "str list"
  | DefaultExpression nat type_expr default_expression_failure_kind str
  | EventRestricted "str list" "str list"
  | TypeParserUnresolved str str "str option" str "str option"
  | TrailingInput
  | HookRejected str

record pattern_failure =
  failure_span :: match_span
  failure_reasons :: "pattern_failure_reason list"

datatype failure_frame_role =
    SemanticCandidate
  | TypeExpressionCapture
  | ExpressionCapture nat
  | ConditionCapture nat
  | EffectCapture nat

record failure_frame =
  frame_kind :: match_syntax_kind
  frame_definition_id :: str
  frame_registration_id :: str
  frame_pattern_index :: nat
  frame_pattern :: str
  frame_element_path :: "path_segment list"
  frame_pattern_span :: "text_range option"
  frame_input_span :: match_span
  frame_role :: failure_frame_role

datatype semantic_severity = SeverityError | SeverityWarning | SeverityInformation | SeverityHint

record semantic_related_span =
  related_message :: str
  related_mapped :: mapped_span

record semantic_diagnostic =
  diagnostic_code :: str
  diagnostic_message :: str
  diagnostic_severity :: semantic_severity
  diagnostic_span :: mapped_span
  diagnostic_related :: "semantic_related_span list"

datatype failure_trace =
  FailureTrace
    (trace_failure: pattern_failure)
    (trace_frame: "failure_frame option")
    (trace_cause: "failure_trace option")
    (trace_diagnostics: "semantic_diagnostic list")

record 'a ranked_failures =
  fallback :: "failure_trace option"
  candidates :: "'a list"

definition primary :: "'a ranked_failures \<Rightarrow> 'a option" where
  "primary r = (case candidates r of [] \<Rightarrow> None | x # _ \<Rightarrow> Some x)"

subsection \<open>Traces\<close>

definition leaf :: "pattern_failure \<Rightarrow> failure_trace" where
  "leaf f = FailureTrace f None None []"

definition with_semantic_diagnostics :: "failure_trace \<Rightarrow> semantic_diagnostic list \<Rightarrow> failure_trace" where
  "with_semantic_diagnostics t ds = FailureTrace (trace_failure t) (trace_frame t) (trace_cause t) ds"

text \<open>Diagnostics of the deepest cause first, those of the trace itself last.\<close>

fun semantic_diagnostics :: "failure_trace \<Rightarrow> semantic_diagnostic list" where
  "semantic_diagnostics (FailureTrace f fr cause ds) =
     (case cause of None \<Rightarrow> [] | Some c \<Rightarrow> semantic_diagnostics c) @ ds"

fun has_semantic_diagnostics :: "failure_trace \<Rightarrow> bool" where
  "has_semantic_diagnostics (FailureTrace f fr cause ds) \<longleftrightarrow>
     ds \<noteq> [] \<or> (case cause of None \<Rightarrow> False | Some c \<Rightarrow> has_semantic_diagnostics c)"

fun root_cause :: "failure_trace \<Rightarrow> failure_trace" where
  "root_cause (FailureTrace f fr cause ds) =
     (case cause of None \<Rightarrow> FailureTrace f fr cause ds | Some c \<Rightarrow> root_cause c)"

definition with_parent :: "failure_trace \<Rightarrow> failure_frame \<Rightarrow> failure_trace" where
  "with_parent t frame = FailureTrace (trace_failure t) (Some frame) (Some t) []"

text \<open>The virtual range of a failure, and of the root cause of a trace.\<close>

definition failure_range :: "pattern_failure \<Rightarrow> text_range" where
  "failure_range f = span_range (mapped (failure_span f))"

definition root_range :: "failure_trace \<Rightarrow> text_range" where
  "root_range t = failure_range (trace_failure (root_cause t))"

definition push_range :: "text_range list \<Rightarrow> text_range \<Rightarrow> text_range list" where
  "push_range rs r = (if rs \<noteq> [] \<and> last rs = r then rs else rs @ [r])"

text \<open>The loop of \<open>specificity\<close> over the causes.\<close>

fun frame_ranges :: "text_range list \<Rightarrow> failure_trace \<Rightarrow> text_range list" where
  "frame_ranges rs (FailureTrace f fr cause ds) =
     (let rs' = (case fr of None \<Rightarrow> rs | Some frame \<Rightarrow> push_range rs (span_range (mapped (frame_input_span frame))))
      in case cause of None \<Rightarrow> rs' | Some c \<Rightarrow> frame_ranges rs' c)"

definition specificity :: "failure_trace \<Rightarrow> nat" where
  "specificity t = length (push_range (frame_ranges [] t) (root_range t))"

definition is_event_restriction :: "failure_trace \<Rightarrow> bool" where
  "is_event_restriction t \<longleftrightarrow>
     list_ex (\<lambda>r. case r of EventRestricted _ _ \<Rightarrow> True | _ \<Rightarrow> False) (failure_reasons (trace_failure (root_cause t)))"

fun is_semantic_rejection :: "failure_trace \<Rightarrow> bool" where
  "is_semantic_rejection (FailureTrace f fr cause ds) \<longleftrightarrow>
     (case fr of None \<Rightarrow> False | Some frame \<Rightarrow> frame_role frame = SemanticCandidate) \<or>
     (case cause of None \<Rightarrow> False | Some c \<Rightarrow> is_semantic_rejection c)"

definition is_default_expression_failure :: "failure_trace \<Rightarrow> bool" where
  "is_default_expression_failure t \<longleftrightarrow>
     list_ex (\<lambda>r. case r of DefaultExpression _ _ _ _ \<Rightarrow> True | _ \<Rightarrow> False) (failure_reasons (trace_failure (root_cause t)))"

definition semantic_failure_span :: "match_span \<Rightarrow> semantic_diagnostic list \<Rightarrow> match_span" where
  "semantic_failure_span sp ds =
     (case (case find (\<lambda>d. diagnostic_severity d = SeverityError) ds of
          Some d \<Rightarrow> Some d | None \<Rightarrow> (case ds of [] \<Rightarrow> None | d # _ \<Rightarrow> Some d)) of
        None \<Rightarrow> sp
      | Some d \<Rightarrow>
          (let v = span_range (diagnostic_span d); f = span_range (mapped sp) in
           if range_start v < range_start f \<or> range_end v > range_end f then sp
           else \<lparr>local_range = range_new (range_start (local_range sp) + range_start v - range_start f)
                  (range_start (local_range sp) + range_end v - range_start f),
                mapped = diagnostic_span d\<rparr>))"

subsection \<open>Comparing failures\<close>

text \<open>\<open>Ord::cmp\<close> and \<open>Ordering::then_with\<close>.\<close>

definition cmp :: "'a::linorder \<Rightarrow> 'a \<Rightarrow> comp" where
  "cmp a b = (if a < b then Less else if a = b then Equiv else Greater)"

definition then_with :: "comp \<Rightarrow> comp \<Rightarrow> comp" where
  "then_with c d = (if c = Equiv then d else c)"

definition compare_failure_rank_at_progress ::
    "text_range \<Rightarrow> nat \<Rightarrow> nat \<Rightarrow> text_range \<Rightarrow> nat \<Rightarrow> nat \<Rightarrow> comp" where
  "compare_failure_rank_at_progress r p s r' p' s' =
     (let len = range_len r; len' = range_len r' in
      if len = 0 \<and> len' > 0 then Greater
      else if len > 0 \<and> len' = 0 then Less
      else if len > 0
        then then_with (cmp p' p) (then_with (cmp s' s) (then_with (cmp (range_start r') (range_start r)) (cmp len len')))
      else then_with (cmp s' s) (cmp (range_start r') (range_start r)))"

definition compare_failure_rank :: "text_range \<Rightarrow> nat \<Rightarrow> text_range \<Rightarrow> nat \<Rightarrow> comp" where
  "compare_failure_rank r s r' s' = compare_failure_rank_at_progress r (range_start r) s r' (range_start r') s'"

definition trace_progress :: "failure_trace \<Rightarrow> nat" where
  "trace_progress t = (if is_event_restriction t then range_end (root_range t) else range_start (root_range t))"

definition compare_failure_trace_rank :: "failure_trace \<Rightarrow> failure_trace \<Rightarrow> comp" where
  "compare_failure_trace_rank t t' =
     then_with (cmp (is_default_expression_failure t') (is_default_expression_failure t))
       (then_with (compare_failure_rank_at_progress (root_range t) (trace_progress t) (specificity t)
          (root_range t') (trace_progress t') (specificity t'))
         (cmp (is_semantic_rejection t') (is_semantic_rejection t)))"

definition choose_failure_trace :: "failure_trace option \<Rightarrow> failure_trace option \<Rightarrow> failure_trace option" where
  "choose_failure_trace current candidate =
     (case (current, candidate) of
        (None, value) \<Rightarrow> value
      | (value, None) \<Rightarrow> value
      | (Some c, Some d) \<Rightarrow> if compare_failure_trace_rank c d = Greater then Some d else Some c)"

subsection \<open>The comparisons are linear quasi-orders\<close>

text \<open>
  A comparison in several stages is a linear quasi-order if every stage is, and so is the comparison
  of a key, ascending or descending.
\<close>

lemma comparator_then:
  assumes "comparator f" and "comparator g"
  shows "comparator (\<lambda>a b. then_with (f a b) (g a b))"
proof -
  have equiv: "then_with c d = Equiv \<longleftrightarrow> c = Equiv \<and> d = Equiv" for c d
    by (simp add: then_with_def)
  have less: "then_with c d = Less \<longleftrightarrow> c = Less \<or> c = Equiv \<and> d = Less" for c d
    by (auto simp: then_with_def)
  have greater: "then_with c d = Greater \<longleftrightarrow> c = Greater \<or> c = Equiv \<and> d = Greater" for c d
    by (auto simp: then_with_def)
  note f = comparator.trans_less [OF assms(1)] comparator.trans_equiv_less [OF assms(1)]
    comparator.trans_less_equiv [OF assms(1)] comparator.trans_equiv [OF assms(1)]
  show ?thesis
  proof
    show "then_with (f a a) (g a a) = Equiv" for a
      unfolding equiv using comparator.refl [OF assms(1)] comparator.refl [OF assms(2)] by blast
    show "then_with (f a c) (g a c) = Equiv"
      if "then_with (f a b) (g a b) = Equiv" "then_with (f b c) (g b c) = Equiv" for a b c
      using that f(4) [of a b c] comparator.trans_equiv [OF assms(2), of a b c] unfolding equiv by simp
    show "then_with (f a c) (g a c) = Less"
      if "then_with (f a b) (g a b) = Less" "then_with (f b c) (g b c) = Less" for a b c
      using that f(1) [of a b c] f(2) [of a b c] f(3) [of a b c] f(4) [of a b c]
        comparator.trans_less [OF assms(2), of a b c] unfolding less by (elim disjE) simp_all
    show "then_with (f b a) (g b a) = Greater \<longleftrightarrow> then_with (f a b) (g a b) = Less" for a b
      unfolding less greater comparator.greater_iff_sym_less [OF assms(1)]
        comparator.greater_iff_sym_less [OF assms(2)] comparator.sym [OF assms(1), of a b] ..
  qed
qed

lemma comparator_cmp: "comparator (\<lambda>a b. cmp (k a) (k b))" "comparator (\<lambda>a b. cmp (k b) (k a))"
  by (standard; auto simp: cmp_def split: if_splits)+

lemma comparator_key: "comparator f \<Longrightarrow> comparator (\<lambda>a b. f (k a) (k b))"
  unfolding comparator_def by blast

text \<open>The key of a failure: a nonempty range first, then progress, depth and start; the shortest range last.\<close>

definition rank_progress :: "text_range \<Rightarrow> nat \<Rightarrow> nat" where
  "rank_progress r p = (if range_len r > 0 then p else 0)"

lemma compare_failure_rank_key:
  "compare_failure_rank_at_progress r p s r' p' s' =
     then_with (cmp (range_len r' > 0) (range_len r > 0))
       (then_with (cmp (rank_progress r' p') (rank_progress r p))
         (then_with (cmp s' s) (then_with (cmp (range_start r') (range_start r)) (cmp (range_len r) (range_len r')))))"
  by (auto simp: compare_failure_rank_at_progress_def Let_def then_with_def cmp_def rank_progress_def)

lemma comparator_failure_rank:
  "comparator (\<lambda>a b. compare_failure_rank_at_progress (r a) (p a) (s a) (r b) (p b) (s b))"
  unfolding compare_failure_rank_key by (intro comparator_then comparator_cmp)

lemma comparator_trace_rank: "comparator compare_failure_trace_rank"
  unfolding compare_failure_trace_rank_def
  by (intro comparator_then comparator_cmp comparator_failure_rank)

lift_definition trace_comparator :: "failure_trace comparator" is compare_failure_trace_rank
  by (rule comparator_trace_rank)

text \<open>
  Choosing among failures one after the other is taking the first of the stable order of all of them.
\<close>

definition choose_all :: "failure_trace list \<Rightarrow> failure_trace option" where
  "choose_all ts = foldl choose_failure_trace None (map Some ts)"

lemma hd_insort:
  "hd (insort c x xs) = (if xs = [] \<or> compare c x (hd xs) \<noteq> Greater then x else hd xs)"
  by (cases xs) auto

lemma insort_not_Nil [simp]: "insort c x xs \<noteq> []"
  by (cases xs) auto

lemma sort_eq_Nil [simp]: "sort c xs = [] \<longleftrightarrow> xs = []"
  by (cases xs) auto

lemma choose_Some:
  "choose_failure_trace (Some a) (Some b) = Some (hd (sort trace_comparator [a, b]))"
  by (simp add: choose_failure_trace_def trace_comparator.rep_eq)

lemma hd_sort_merge: "hd (sort c (x # y # zs)) = hd (sort c (hd (sort c [x, y]) # zs))"
proof (cases "sort c zs = []")
  case False
  note tr = compare.trans_greater [of c] compare.trans_not_greater [of c]
  show ?thesis
    using False tr(1) [of x y "hd (sort c zs)"] tr(2) [of x y "hd (sort c zs)"]
    by (auto simp: hd_insort)
qed simp

lemma choose_all_sorted:
  "choose_all ts = (case sort trace_comparator ts of [] \<Rightarrow> None | t # _ \<Rightarrow> Some t)"
proof -
  have step: "foldl choose_failure_trace (Some a) (map Some ts) = Some (hd (sort trace_comparator (a # ts)))" for a ts
  proof (induction ts arbitrary: a)
    case (Cons t ts)
    show ?case
      unfolding list.map foldl_Cons choose_Some Cons.IH hd_sort_merge [of trace_comparator a t ts] ..
  qed simp
  show ?thesis
  proof (cases ts)
    case (Cons a rest)
    have "choose_failure_trace None (Some a) = Some a" by (simp add: choose_failure_trace_def)
    then have "choose_all ts = Some (hd (sort trace_comparator ts))"
      unfolding choose_all_def Cons list.map foldl_Cons using step [of a] Cons by (simp only:)
    moreover have "sort trace_comparator ts \<noteq> []" using Cons by simp
    ultimately show ?thesis by (simp split: list.split)
  qed (simp add: choose_all_def)
qed

end
