(* ===== verification/Failure_Tracker.thy ===== *)
theory Failure_Tracker
  imports Failure_Trace
begin

text \<open>
  The \<open>FailureTracker\<close> of \<open>pattern_match.rs\<close>: while a candidate is matched, every mismatch is
  recorded; the tracker keeps the most actionable one, with all reasons that rank equally at the
  same offset.  \<open>BTreeSet<PatternFailureReason>\<close> is an ascending list; the derived \<open>Ord\<close> compares
  the variant first and then the fields in order, which \<open>reason_key\<close> spells out.
\<close>

subsection \<open>The order of reasons\<close>

definition of_option :: "str option \<Rightarrow> str list" where
  "of_option x = (case x of None \<Rightarrow> [] | Some s \<Rightarrow> [s])"

definition type_expr_key :: "type_expr \<Rightarrow> (str \<times> bool) list \<times> bool \<times> bool \<times> bool \<times> int" where
  "type_expr_key t = (map (\<lambda>a. (alt_name a, alt_plural a)) (alternatives t), nullable t, allow_literals t,
     allow_expressions t, time t)"

definition default_kind_rank :: "default_expression_failure_kind \<Rightarrow> nat" where
  "default_kind_rank k = (case k of RejectedDefault \<Rightarrow> 0 | UnresolvedDefault \<Rightarrow> 1)"

type_synonym reason_key =
  "nat \<times> nat \<times> ((str \<times> bool) list \<times> bool \<times> bool \<times> bool \<times> int) \<times> nat \<times> str list list"

abbreviation strings_key :: "nat \<Rightarrow> str list list \<Rightarrow> reason_key" where
  "strings_key n ss \<equiv> (n, 0, ([], False, False, False, 0), 0, ss)"

definition reason_key :: "pattern_failure_reason \<Rightarrow> reason_key" where
  "reason_key r = (case r of
     ExpectedLiteral s \<Rightarrow> strings_key 0 [[s]]
   | ExpectedRegex s \<Rightarrow> strings_key 1 [[s]]
   | ExpectedExpression \<Rightarrow> strings_key 2 []
   | ExpectedTypes ss \<Rightarrow> strings_key 3 [ss]
   | DefaultExpression i t k s \<Rightarrow> (4, i, type_expr_key t, default_kind_rank k, [[s]])
   | EventRestricted ss cs \<Rightarrow> strings_key 5 [ss, cs]
   | TypeParserUnresolved d i c s p \<Rightarrow> strings_key 6 [[d], [i], of_option c, [s], of_option p]
   | TrailingInput \<Rightarrow> strings_key 7 []
   | HookRejected s \<Rightarrow> strings_key 8 [[s]])"

lemma of_option_inject [simp]: "of_option x = of_option y \<longleftrightarrow> x = y"
  by (simp add: of_option_def split: option.splits)

lemma alternative_eqI: "alt_name a = alt_name b \<Longrightarrow> alt_plural a = alt_plural b \<Longrightarrow> a = b" for a b :: type_alternative
  by (cases a; cases b) simp

lemma type_expr_key_inject [simp]: "type_expr_key t = type_expr_key u \<longleftrightarrow> t = u"
proof -
  have "inj (\<lambda>a :: type_alternative. (alt_name a, alt_plural a))" by (rule injI) (simp add: alternative_eqI)
  then show ?thesis by (auto simp: type_expr_key_def inj_map_eq_map)
qed

lemma default_kind_rank_inject [simp]: "default_kind_rank k = default_kind_rank l \<longleftrightarrow> k = l"
  by (cases k; cases l) (simp_all add: default_kind_rank_def)

lemma reason_key_inject [simp]: "reason_key r = reason_key s \<longleftrightarrow> r = s"
  by (cases r; cases s) (simp_all add: reason_key_def)

instantiation pattern_failure_reason :: linorder
begin

definition less_eq_pattern_failure_reason :: "pattern_failure_reason \<Rightarrow> pattern_failure_reason \<Rightarrow> bool" where
  "less_eq_pattern_failure_reason r s \<longleftrightarrow> reason_key r \<le> reason_key s"

definition less_pattern_failure_reason :: "pattern_failure_reason \<Rightarrow> pattern_failure_reason \<Rightarrow> bool" where
  "less_pattern_failure_reason r s \<longleftrightarrow> reason_key r < reason_key s"

instance
  by standard (auto simp: less_eq_pattern_failure_reason_def less_pattern_failure_reason_def
      intro: order.trans dest: order.antisym)

end

text \<open>\<open>BTreeSet::insert\<close> and \<open>BTreeSet::extend\<close>.\<close>

fun set_insert :: "'a::linorder \<Rightarrow> 'a list \<Rightarrow> 'a list" where
  "set_insert x [] = [x]"
| "set_insert x (y # ys) = (if x < y then x # y # ys else if x = y then y # ys else y # set_insert x ys)"

definition set_extend :: "'a::linorder list \<Rightarrow> 'a list \<Rightarrow> 'a list" where
  "set_extend xs ys = fold set_insert ys xs"

lemma set_set_insert [simp]: "set (set_insert x xs) = insert x (set xs)"
  by (induction xs) auto

lemma set_set_extend [simp]: "set (set_extend xs ys) = set xs \<union> set ys"
  unfolding set_extend_def by (induction ys arbitrary: xs) auto

subsection \<open>The tracker\<close>

record failure_tracker =
  tracker_offset :: nat
  tracker_range :: "text_range option"
  tracker_reasons :: "pattern_failure_reason list"
  tracker_frame :: "failure_frame option"
  tracker_cause :: "failure_trace option"
  initialized :: bool

definition tracker_new :: failure_tracker where
  "tracker_new = \<lparr>tracker_offset = 0, tracker_range = None, tracker_reasons = [], tracker_frame = None,
     tracker_cause = None, initialized = False\<rparr>"

text \<open>The depth, range and completeness that \<open>record_detailed\<close> and \<open>merge\<close> compare.\<close>

definition cause_specificity :: "failure_trace option \<Rightarrow> nat" where
  "cause_specificity cause = (case cause of None \<Rightarrow> 0 | Some t \<Rightarrow> specificity t)"

definition cause_range :: "failure_trace option \<Rightarrow> text_range option \<Rightarrow> nat \<Rightarrow> text_range" where
  "cause_range cause r off = (case cause of
     Some t \<Rightarrow> root_range t
   | None \<Rightarrow> (case r of Some q \<Rightarrow> q | None \<Rightarrow> range_empty off))"

definition frame_completed :: "failure_frame option \<Rightarrow> bool" where
  "frame_completed fr = (case fr of None \<Rightarrow> False | Some f \<Rightarrow> frame_role f = SemanticCandidate)"

definition tracker_rank :: "failure_tracker \<Rightarrow> failure_tracker \<Rightarrow> comp" where
  "tracker_rank current new =
     then_with (cmp (frame_completed (tracker_frame new)) (frame_completed (tracker_frame current)))
       (compare_failure_rank
         (cause_range (tracker_cause current) (tracker_range current) (tracker_offset current))
         (cause_specificity (tracker_cause current))
         (cause_range (tracker_cause new) (tracker_range new) (tracker_offset new))
         (cause_specificity (tracker_cause new)))"

definition record_detailed ::
    "nat \<Rightarrow> text_range option \<Rightarrow> pattern_failure_reason \<Rightarrow> failure_frame option \<Rightarrow> failure_trace option \<Rightarrow>
     failure_tracker \<Rightarrow> failure_tracker" where
  "record_detailed off r reason fr cause t =
     (let rank = then_with (cmp (frame_completed fr) (frame_completed (tracker_frame t)))
          (compare_failure_rank (cause_range (tracker_cause t) (tracker_range t) (tracker_offset t))
            (cause_specificity (tracker_cause t)) (cause_range cause r off) (cause_specificity cause))
      in if \<not> initialized t \<or> rank = Greater then
           \<lparr>tracker_offset = off, tracker_range = r, tracker_reasons = [reason], tracker_frame = fr,
            tracker_cause = cause, initialized = True\<rparr>
         else if rank = Equiv \<and> cause_specificity cause = cause_specificity (tracker_cause t) \<and> off = tracker_offset t then
           (let replace = tracker_frame t = None \<or> (tracker_cause t = None \<and> cause \<noteq> None) in
            t\<lparr>tracker_range := (case tracker_range t of None \<Rightarrow> r | Some q \<Rightarrow> Some q),
              tracker_frame := (if replace then fr else tracker_frame t),
              tracker_cause := (if replace then cause else tracker_cause t),
              tracker_reasons := set_insert reason (tracker_reasons t)\<rparr>)
         else t)"

definition record_range :: "nat \<Rightarrow> text_range option \<Rightarrow> pattern_failure_reason \<Rightarrow> failure_tracker \<Rightarrow> failure_tracker" where
  "record_range off r reason = record_detailed off r reason None None"

definition record_failure :: "nat \<Rightarrow> pattern_failure_reason \<Rightarrow> failure_tracker \<Rightarrow> failure_tracker" where
  "record_failure off reason = record_range off None reason"

definition merge_failure :: "failure_tracker \<Rightarrow> failure_tracker \<Rightarrow> failure_tracker" where
  "merge_failure t new =
     (if \<not> initialized new then t
      else (let rank = tracker_rank t new in
        if \<not> initialized t \<or> rank = Greater then new
        else if rank = Equiv \<and> cause_specificity (tracker_cause new) = cause_specificity (tracker_cause t) \<and>
            tracker_offset new = tracker_offset t then
          (let replace = tracker_frame t = None \<or> (tracker_cause t = None \<and> tracker_cause new \<noteq> None) in
           t\<lparr>tracker_range := (case tracker_range t of None \<Rightarrow> tracker_range new | Some q \<Rightarrow> Some q),
             tracker_reasons := set_extend (tracker_reasons t) (tracker_reasons new),
             tracker_frame := (if replace then tracker_frame new else tracker_frame t),
             tracker_cause := (if replace then tracker_cause new else tracker_cause t)\<rparr>)
        else t))"

subsection \<open>The tracker keeps the best failure\<close>

text \<open>
  A tracker that ranks like another: the rank only sees completeness, range and depth.  Recording
  and merging never make the rank worse, and reach the rank of what is recorded.
\<close>

definition tracker_key :: "failure_tracker \<Rightarrow> bool \<times> text_range \<times> nat" where
  "tracker_key t = (frame_completed (tracker_frame t),
     cause_range (tracker_cause t) (tracker_range t) (tracker_offset t), cause_specificity (tracker_cause t))"

lemma comparator_tracker_rank: "comparator tracker_rank"
  unfolding tracker_rank_def compare_failure_rank_def
  by (intro comparator_then comparator_cmp comparator_failure_rank)

lift_definition tracker_comparator :: "failure_tracker comparator" is tracker_rank
  by (rule comparator_tracker_rank)

definition single_failure ::
    "nat \<Rightarrow> text_range option \<Rightarrow> pattern_failure_reason \<Rightarrow> failure_frame option \<Rightarrow> failure_trace option \<Rightarrow> failure_tracker" where
  "single_failure off r reason fr cause =
     \<lparr>tracker_offset = off, tracker_range = r, tracker_reasons = [reason], tracker_frame = fr,
      tracker_cause = cause, initialized = True\<rparr>"

text \<open>Recording is merging the tracker that holds the one failure.\<close>

lemma record_detailed_merge:
  "record_detailed off r reason fr cause t = merge_failure t (single_failure off r reason fr cause)"
proof -
  have e: "t\<lparr>tracker_range := a, tracker_frame := b, tracker_cause := c, tracker_reasons := d\<rparr> =
    t\<lparr>tracker_range := a, tracker_reasons := d, tracker_frame := b, tracker_cause := c\<rparr>" for a b c d
    by simp
  show ?thesis
    unfolding record_detailed_def merge_failure_def single_failure_def tracker_rank_def Let_def
    by (auto simp: e set_extend_def split: option.split)
qed

lemma specificity_nonzero [simp]: "specificity t \<noteq> 0"
  by (auto simp: specificity_def push_range_def)

lemma merge_equal_key:
  assumes eq: "tracker_rank t new = Equiv" and s: "cause_specificity (tracker_cause new) = cause_specificity (tracker_cause t)"
    and off: "tracker_offset new = tracker_offset t"
  shows "tracker_rank (merge_failure t new) t = Equiv"
proof -
  have c: "tracker_cause new = None \<longleftrightarrow> tracker_cause t = None"
    using s by (auto simp: cause_specificity_def split: option.splits)
  have sym: "tracker_rank new t = Equiv" "tracker_rank t t = Equiv"
    using eq comparator.sym [OF comparator_tracker_rank] comparator.refl [OF comparator_tracker_rank] by auto
  let ?m = "merge_failure t new"
  have cr: "(frame_completed (tracker_frame x) = frame_completed (tracker_frame t)) \<and>
      compare_failure_rank (cause_range (tracker_cause x) (tracker_range x) (tracker_offset x)) (cause_specificity (tracker_cause x))
        (cause_range (tracker_cause t) (tracker_range t) (tracker_offset t)) (cause_specificity (tracker_cause t)) = Equiv"
    if "tracker_rank x t = Equiv" for x
    using that by (auto simp: tracker_rank_def then_with_def cmp_def split: if_splits)
  have "frame_completed (tracker_frame ?m) = frame_completed (tracker_frame t)"
    using conjunct1 [OF cr [OF sym(1)]] by (simp add: merge_failure_def Let_def)
  moreover have "cause_specificity (tracker_cause ?m) = cause_specificity (tracker_cause t)"
    using s by (simp add: merge_failure_def Let_def)
  moreover have "cause_range (tracker_cause ?m) (tracker_range ?m) (tracker_offset ?m) \<in>
      {cause_range (tracker_cause t) (tracker_range t) (tracker_offset t),
       cause_range (tracker_cause new) (tracker_range new) (tracker_offset new)}"
    using c off by (cases "tracker_cause t"; cases "tracker_cause new"; cases "tracker_range t"; cases "tracker_range new")
      (simp_all add: merge_failure_def Let_def cause_range_def)
  ultimately show ?thesis
    using cr [OF sym(1)] cr [OF sym(2)] s by (auto simp: tracker_rank_def then_with_def cmp_def)
qed

lemma merge_initialized [simp]: "initialized (merge_failure t new) \<longleftrightarrow> initialized t \<or> initialized new"
  by (simp add: merge_failure_def Let_def)

text \<open>What a merge does to the rank: it becomes the better of the two.\<close>

lemma merge_rank:
  assumes "initialized new"
  shows "(\<not> initialized t \<or> tracker_rank t new = Greater \<longrightarrow> merge_failure t new = new) \<and>
    (initialized t \<and> tracker_rank t new \<noteq> Greater \<longrightarrow> tracker_rank (merge_failure t new) t = Equiv)"
proof (intro conjI impI)
  show "merge_failure t new = new" if "\<not> initialized t \<or> tracker_rank t new = Greater"
    using that assms by (auto simp: merge_failure_def)
  assume a: "initialized t \<and> tracker_rank t new \<noteq> Greater"
  show "tracker_rank (merge_failure t new) t = Equiv"
  proof (cases "tracker_rank t new = Equiv \<and> cause_specificity (tracker_cause new) = cause_specificity (tracker_cause t) \<and>
      tracker_offset new = tracker_offset t")
    case True
    then show ?thesis by (simp add: merge_equal_key)
  next
    case False
    then have "merge_failure t new = t" using a assms by (auto simp: merge_failure_def Let_def)
    then show ?thesis using comparator.refl [OF comparator_tracker_rank] by simp
  qed
qed

lemma merge_reasons: "set (tracker_reasons (merge_failure t new)) \<subseteq> set (tracker_reasons t) \<union> set (tracker_reasons new)"
  by (auto simp: merge_failure_def Let_def)

text \<open>
  C39. Whatever is recorded while a candidate is matched, the tracker reports the most actionable
  failure: no recorded failure ranks better than the one that is kept, one of them ranks exactly like
  it, and every reason it lists was recorded.  Recording a single failure is merging it.
\<close>

theorem tracker_keeps_best:
  assumes "fs \<noteq> []" and "\<forall>f \<in> set fs. initialized f"
  shows "(let t = fold (\<lambda>f t. merge_failure t f) fs tracker_new in
      initialized t \<and> (\<forall>f \<in> set fs. tracker_rank t f \<noteq> Greater) \<and> (\<exists>f \<in> set fs. tracker_rank t f = Equiv) \<and>
      set (tracker_reasons t) \<subseteq> (\<Union>f \<in> set fs. set (tracker_reasons f))) \<and>
    record_detailed off r reason fr cause t = merge_failure t (single_failure off r reason fr cause)"
proof -
  note c = comparator_tracker_rank
  define best where "best t gs \<longleftrightarrow> initialized t \<and> (\<forall>f \<in> gs. tracker_rank t f \<noteq> Greater) \<and>
    (\<exists>f \<in> gs. tracker_rank t f = Equiv) \<and> set (tracker_reasons t) \<subseteq> (\<Union>f \<in> gs. set (tracker_reasons f))" for t gs
  have step: "best (merge_failure t f) (insert f gs)" if "best t gs" "initialized f" for t f gs
  proof -
    have t: "initialized t" "\<And>g. g \<in> gs \<Longrightarrow> tracker_rank t g \<noteq> Greater"
      "\<exists>g \<in> gs. tracker_rank t g = Equiv" "set (tracker_reasons t) \<subseteq> (\<Union>g \<in> gs. set (tracker_reasons g))"
      using that(1) by (auto simp: best_def)
    have r: "set (tracker_reasons (merge_failure t f)) \<subseteq> (\<Union>g \<in> insert f gs. set (tracker_reasons g))"
      using t(4) merge_reasons [of t f] by auto
    show ?thesis
    proof (cases "tracker_rank t f = Greater")
      case True
      then have m: "merge_failure t f = f" using merge_rank [OF that(2), of t] by simp
      have less: "tracker_rank f t = Less" using True comparator.less_iff_sym_greater [OF c] by blast
      have "tracker_rank f g \<noteq> Greater" if "g \<in> gs" for g
        using t(2) [OF that] comparator.trans_not_greater [OF c, of f t g] less by simp
      then show ?thesis
        using r comparator.refl [OF c] that(2) unfolding best_def m by auto
    next
      case False
      then have m: "tracker_rank (merge_failure t f) t = Equiv" using merge_rank [OF that(2), of t] t(1) by simp
      have e: "tracker_rank (merge_failure t f) g = tracker_rank t g" for g
        using comparator.equiv_subst_left [OF c m] by blast
      show ?thesis using r t False that(2) unfolding best_def e by auto
    qed
  qed
  have many: "best (fold (\<lambda>f t. merge_failure t f) fs t) (gs \<union> set fs)" if "best t gs" "\<forall>f \<in> set fs. initialized f" for t gs fs
    using that
  proof (induction fs arbitrary: t gs)
    case (Cons f fs)
    then show ?case using Cons.IH [OF step [OF Cons.prems(1)]] by simp
  qed simp
  obtain f rest where fs: "fs = f # rest" using assms(1) by (cases fs) auto
  have "merge_failure tracker_new f = f" using merge_rank [of f tracker_new] assms(2) fs by (simp add: tracker_new_def)
  moreover have "best f {f}" using comparator.refl [OF c] assms(2) fs by (simp add: best_def)
  ultimately have "best (fold (\<lambda>f t. merge_failure t f) fs tracker_new) (set fs)"
    using many [of f "{f}" rest] assms(2) fs by simp
  then show ?thesis unfolding best_def Let_def using record_detailed_merge by blast
qed

theorem tracker_keeps_best_witness:
  "let f = single_failure 3 None TrailingInput None None;
       g = single_failure 5 None (ExpectedLiteral ''x'') None None;
       t = fold (\<lambda>f t. merge_failure t f) [f, g] tracker_new
   in initialized t \<and> tracker_rank t f \<noteq> Greater \<and> tracker_rank t g \<noteq> Greater \<and>
     set (tracker_reasons t) \<subseteq> {TrailingInput, ExpectedLiteral ''x''} \<and>
     record_detailed 5 None (ExpectedLiteral ''x'') None None f = merge_failure f g"
  using tracker_keeps_best [of "[single_failure 3 None TrailingInput None None, single_failure 5 None (ExpectedLiteral ''x'') None None]"
      5 None "ExpectedLiteral ''x''" None None "single_failure 3 None TrailingInput None None"]
  by (simp add: single_failure_def Let_def insert_commute)

end
