(* ===== verification/Match_Scan.thy ===== *)
theory Match_Scan
  imports Syntax_Pattern Text_Range
begin

text \<open>
  The lexical part of \<open>pattern_match.rs\<close>: literals under Skript's whitespace rules, the legal split
  points of an input (strings, variables and parentheses are skipped as a whole), and the literal
  prefixes of what follows an element, by which split points are discarded early.

  \<open>char::to_lowercase\<close> is a table of the Unicode standard and enters as the parameter \<open>lower\<close>.
\<close>

type_synonym lower_table = "nat \<Rightarrow> nat list"

text \<open>\<open>input.get(cursor..end)\<close> and then \<open>chars().next()\<close>: code point and width.\<close>

definition next_char :: "str \<Rightarrow> nat \<Rightarrow> nat \<Rightarrow> (nat \<times> nat) option" where
  "next_char input cursor end = (case str_slice (range_new cursor end) input of
     None \<Rightarrow> None
   | Some s \<Rightarrow> (case s of [] \<Rightarrow> None | a # _ \<Rightarrow> Some (decode_char s, char_width a)))"

definition byte_is :: "str \<Rightarrow> nat \<Rightarrow> char \<Rightarrow> bool" where
  "byte_is input i c \<longleftrightarrow> i < length input \<and> input ! i = c"

definition java_trim_range :: "str \<Rightarrow> text_range" where
  "java_trim_range input =
     (let start = (case find (\<lambda>(off, c, w). c > 0x20) (char_indices input) of
          None \<Rightarrow> length input | Some (off, c, w) \<Rightarrow> off)
      in range_new start (case find (\<lambda>(off, c, w). c > 0x20) (rev (char_indices input)) of
          None \<Rightarrow> start | Some (off, c, w) \<Rightarrow> off + w))"

subsection \<open>Literals\<close>

definition char_eq_ignore_case :: "lower_table \<Rightarrow> nat \<Rightarrow> nat \<Rightarrow> bool" where
  "char_eq_ignore_case lower a b \<longleftrightarrow> a = b \<or> lower a = lower b"

text \<open>One round of \<open>match_literal_at\<close>: the next cursor, or \<open>None\<close> if the character does not match here.\<close>

definition literal_step :: "lower_table \<Rightarrow> str \<Rightarrow> text_range \<Rightarrow> nat \<Rightarrow> nat \<Rightarrow> nat option" where
  "literal_step lower input complete cursor expected =
     (if expected = byte CHR '' '' then
        (if cursor = range_start complete \<or> cursor = range_end complete then Some cursor
         else if byte_is input cursor CHR '' '' then Some (cursor + 1)
         else if cursor > range_start complete \<and> byte_is input (cursor - 1) CHR '' '' then Some cursor
         else None)
      else (case next_char input cursor (range_end complete) of
         None \<Rightarrow> None
       | Some (actual, w) \<Rightarrow> if char_eq_ignore_case lower expected actual then Some (cursor + w) else None))"

fun literal_loop :: "lower_table \<Rightarrow> str \<Rightarrow> text_range \<Rightarrow> nat \<Rightarrow> nat list \<Rightarrow> nat + nat" where
  "literal_loop lower input complete cursor [] = Inr cursor"
| "literal_loop lower input complete cursor (c # cs) =
     (case literal_step lower input complete cursor c of
        None \<Rightarrow> Inl cursor
      | Some cursor' \<Rightarrow> literal_loop lower input complete cursor' cs)"

definition match_literal_at :: "lower_table \<Rightarrow> str \<Rightarrow> text_range \<Rightarrow> nat \<Rightarrow> str \<Rightarrow> nat + nat" where
  "match_literal_at lower input complete cursor literal = literal_loop lower input complete cursor (codes literal)"

subsection \<open>Split points\<close>

lemma next_char_width:
  assumes "next_char input cursor end = Some (c, w)"
  shows "cursor < end \<and> 0 < w"
proof -
  from assms obtain a s where "str_slice (range_new cursor end) input = Some (a # s)" "w = char_width a"
    by (auto simp: next_char_def split: option.splits list.splits)
  then show ?thesis using str_slice_SomeD(3) [of "range_new cursor end" input "a # s"]
    by (auto simp: range_len_def char_width_def)
qed

text \<open>\<open>find_quote_end\<close>: a doubled quote is escaped, percent signs enclose an expression.\<close>

function quote_end :: "str \<Rightarrow> bool \<Rightarrow> nat \<Rightarrow> nat \<Rightarrow> nat option" where
  "quote_end input in_expression cursor end =
     (if cursor < end then
        (case next_char input cursor end of
           None \<Rightarrow> None
         | Some (c, w) \<Rightarrow>
             if c = byte CHR 0x22 \<and> \<not> in_expression then
               (if byte_is input (cursor + w) CHR 0x22 then quote_end input in_expression (cursor + w + 1) end
                else Some cursor)
             else quote_end input (if c = byte CHR ''%'' then \<not> in_expression else in_expression) (cursor + w) end)
      else None)"
  by pat_completeness auto
termination
  by (relation "measure (\<lambda>(_, _, cursor, end). end - cursor)") (auto dest: next_char_width)

definition find_quote_end :: "str \<Rightarrow> nat \<Rightarrow> nat \<Rightarrow> nat option" where
  "find_quote_end input cursor end = quote_end input False cursor end"

function variable_end :: "str \<Rightarrow> nat \<Rightarrow> nat \<Rightarrow> nat \<Rightarrow> nat option" where
  "variable_end input depth cursor end =
     (if cursor < end then
        (case next_char input cursor end of
           None \<Rightarrow> None
         | Some (c, w) \<Rightarrow>
             if c = byte CHR 0x7B then variable_end input (depth + 1) (cursor + w) end
             else if c = byte CHR 0x7D then
               (if depth = 0 then Some cursor else variable_end input (depth - 1) (cursor + w) end)
             else variable_end input depth (cursor + w) end)
      else None)"
  by pat_completeness auto
termination
  by (relation "measure (\<lambda>(_, _, cursor, end). end - cursor)") (auto dest: next_char_width)

definition find_variable_end :: "str \<Rightarrow> nat \<Rightarrow> nat \<Rightarrow> nat option" where
  "find_variable_end input cursor end = variable_end input 0 cursor end"

declare quote_end.simps [simp del] variable_end.simps [simp del]

lemma quote_end_bounds: "quote_end input b cursor end = Some q \<Longrightarrow> cursor \<le> q \<and> q < end"
proof (induction input b cursor "end" rule: quote_end.induct)
  case (1 input b cursor "end")
  from 1(3) 1(1,2) show ?case
    by (subst (asm) quote_end.simps) (fastforce split: if_splits option.splits dest: next_char_width)
qed

lemma variable_end_bounds: "variable_end input d cursor end = Some q \<Longrightarrow> cursor \<le> q \<and> q < end"
proof (induction input d cursor "end" rule: variable_end.induct)
  case (1 input d cursor "end")
  from 1(4) 1(1-3) show ?case
    by (subst (asm) variable_end.simps) (fastforce split: if_splits option.splits dest: next_char_width)
qed

function parenthesis_end :: "str \<Rightarrow> nat \<Rightarrow> nat \<Rightarrow> nat \<Rightarrow> nat option" where
  "parenthesis_end input depth cursor end =
     (if cursor < end then
        (case next_char input cursor end of
           None \<Rightarrow> None
         | Some (c, w) \<Rightarrow>
             if c = byte CHR 0x22 then
               (case find_quote_end input (cursor + w) end of
                  None \<Rightarrow> None | Some q \<Rightarrow> parenthesis_end input depth (q + w) end)
             else if c = byte CHR 0x7B then
               (case find_variable_end input (cursor + w) end of
                  None \<Rightarrow> None | Some q \<Rightarrow> parenthesis_end input depth (q + 1) end)
             else if c = byte CHR ''('' then parenthesis_end input (depth + 1) (cursor + w) end
             else if c = byte CHR '')'' then
               (if depth = 0 then Some cursor else parenthesis_end input (depth - 1) (cursor + w) end)
             else parenthesis_end input depth (cursor + w) end)
      else None)"
  by pat_completeness auto
termination
  by (relation "measure (\<lambda>(_, _, cursor, end). end - cursor)")
    (auto simp: find_quote_end_def find_variable_end_def dest!: next_char_width quote_end_bounds variable_end_bounds)

declare parenthesis_end.simps [simp del]

definition find_parenthesis_end :: "str \<Rightarrow> nat \<Rightarrow> nat \<Rightarrow> nat option" where
  "find_parenthesis_end input cursor end = parenthesis_end input 0 cursor end"

definition skript_next :: "str \<Rightarrow> nat \<Rightarrow> nat \<Rightarrow> nat option" where
  "skript_next input start end = (case next_char input start end of
     None \<Rightarrow> None
   | Some (c, w) \<Rightarrow>
       if c = byte CHR 0x22 then map_option (\<lambda>i. i + 1) (find_quote_end input (start + w) end)
       else if c = byte CHR 0x7B then map_option (\<lambda>i. i + 1) (find_variable_end input (start + w) end)
       else if c = byte CHR ''('' then map_option (\<lambda>i. i + 1) (find_parenthesis_end input (start + w) end)
       else Some (start + w))"

function boundaries_from :: "str \<Rightarrow> nat \<Rightarrow> nat \<Rightarrow> nat list" where
  "boundaries_from input cursor end =
     (if cursor < end then
        (case skript_next input cursor end of
           None \<Rightarrow> []
         | Some next_cursor \<Rightarrow> if next_cursor \<le> cursor \<or> next_cursor > end then [] else next_cursor # boundaries_from input next_cursor end)
      else [])"
  by pat_completeness auto
termination
  by (relation "measure (\<lambda>(_, cursor, end). end - cursor)") auto

declare boundaries_from.simps [simp del]

definition skript_boundaries :: "str \<Rightarrow> nat \<Rightarrow> nat \<Rightarrow> nat list" where
  "skript_boundaries input start end = (if start \<ge> end then [] else boundaries_from input start end)"

subsection \<open>The literal prefixes of a tail\<close>

record tail_prefix =
  prefix_text :: str
  prefix_dynamic :: bool

definition tail_prefix :: "str \<Rightarrow> bool \<Rightarrow> tail_prefix" where
  "tail_prefix s d = \<lparr>prefix_text = s, prefix_dynamic = d\<rparr>"

definition append_tail_prefixes :: "tail_prefix \<Rightarrow> tail_prefix list \<Rightarrow> tail_prefix list \<Rightarrow> tail_prefix list" where
  "append_tail_prefixes parent children output =
     fold (\<lambda>child out. push_unique out (tail_prefix (prefix_text parent @ prefix_text child) (prefix_dynamic child))) children output"

text \<open>A branch is smaller than the choice it belongs to.\<close>

lemma branch_size: "b \<in> set bs \<Longrightarrow> size_list f b \<le> size_list (size_list f) bs"
  by (rule size_list_estimation' [OF _ order.refl])

function (sequential) leading_loop :: "spanned_element list \<Rightarrow> tail_prefix list \<Rightarrow> tail_prefix list"
  and leading_element :: "pattern_element \<Rightarrow> tail_prefix \<Rightarrow> tail_prefix list \<Rightarrow> tail_prefix list" where
  "leading_loop [] states = states"
| "leading_loop (Spanned e r # es) states =
     (let next_states = fold (\<lambda>st out. if prefix_dynamic st then push_unique out st else leading_element e st out) states []
      in if length next_states > 256 then [tail_prefix [] True] else leading_loop es next_states)"
| "leading_element (Literal s) st out = push_unique out (tail_prefix (prefix_text st @ s) (prefix_dynamic st))"
| "leading_element (Regex s) st out = push_unique out (tail_prefix (prefix_text st) True)"
| "leading_element (TypeExpr t) st out = push_unique out (tail_prefix (prefix_text st) True)"
| "leading_element (Group es) st out = append_tail_prefixes st (leading_loop es [tail_prefix [] False]) out"
| "leading_element (OptionElement es) st out =
     append_tail_prefixes st (leading_loop es [tail_prefix [] False]) (push_unique out st)"
| "leading_element (Choice bs) st out =
     fold (\<lambda>b. append_tail_prefixes st (leading_loop b [tail_prefix [] False])) bs out"
| "leading_element e st out = push_unique out st"
  by pat_completeness auto

termination
  by (relation "measure (case_sum (\<lambda>(es, _). size_list (size_spanned size) es) (\<lambda>(e, _, _). size e))")
    (auto dest: branch_size [of _ _ "size_spanned size"])

definition leading_tail_prefixes :: "spanned_element list \<Rightarrow> tail_prefix list" where
  "leading_tail_prefixes es = leading_loop es [tail_prefix [] False]"

definition sequence_tail_prefixes :: "spanned_element list \<Rightarrow> tail_prefix list \<Rightarrow> tail_prefix list" where
  "sequence_tail_prefixes es continuation =
     fold (\<lambda>p out. if prefix_dynamic p then push_unique out p
       else fold (\<lambda>s out. push_unique out (tail_prefix (prefix_text p @ prefix_text s) (prefix_dynamic s))) continuation out)
     (leading_tail_prefixes es) []"

definition boundary_matches_tail_prefix :: "lower_table \<Rightarrow> str \<Rightarrow> text_range \<Rightarrow> nat \<Rightarrow> tail_prefix \<Rightarrow> bool" where
  "boundary_matches_tail_prefix lower input complete boundary p \<longleftrightarrow>
     (if prefix_text p \<noteq> [] \<and> hd (prefix_text p) = CHR '' '' \<and> boundary > range_start complete \<and>
         byte_is input (boundary - 1) CHR '' '' then False
      else \<not> isl (match_literal_at lower input complete boundary (prefix_text p)))"

definition boundary_allows_tail :: "lower_table \<Rightarrow> str \<Rightarrow> text_range \<Rightarrow> nat \<Rightarrow> tail_prefix list \<Rightarrow> bool" where
  "boundary_allows_tail lower input complete boundary tail \<longleftrightarrow>
     tail = [] \<or> list_ex (\<lambda>p. if prefix_text p = [] then prefix_dynamic p \<or> boundary = range_end complete
       else boundary_matches_tail_prefix lower input complete boundary p) tail"

definition tail_literal_specificity :: "lower_table \<Rightarrow> str \<Rightarrow> text_range \<Rightarrow> nat \<Rightarrow> tail_prefix list \<Rightarrow> nat option" where
  "tail_literal_specificity lower input complete boundary tail =
     (case map (\<lambda>p. length (prefix_text p)) (filter (\<lambda>p. \<not> is_blank (prefix_text p) \<and>
         boundary_matches_tail_prefix lower input complete boundary p) tail) of
        [] \<Rightarrow> None
      | n # ns \<Rightarrow> Some (fold max ns n))"

end
