(* ===== verification/Match_Types.thy ===== *)
theory Match_Types
  imports Failure_Tracker Match_Scan "HOL-Library.Word"
begin

text \<open>
  The data of \<open>skript-parser/src/pattern_match.rs\<close>: the input with its provenance, candidates,
  captures, results and errors, and the two interfaces to code outside the matcher, the extension
  environment (\<open>PatternMatchEnvironment\<close>) and the regular expression engine (\<open>fancy_regex\<close>).
  Both are parameters: the environment is a record of operations on a state of its own.
\<close>

subsection \<open>Input\<close>

datatype input_mapping = FromSource mapped_source text_range | FixedSpan mapped_span

record match_input =
  input_text :: str
  input_mapping :: input_mapping

datatype match_limit = States | Backtracks | RegexExecutions | RegexEvaluatedBytes | RegexBacktracks

record matcher_config =
  max_states :: nat
  max_backtracks :: nat
  max_regex_executions :: nat
  max_regex_evaluated_bytes :: nat
  max_regex_backtracks :: nat
  max_candidate_failures :: nat
  recover_type_expression_failures :: bool

definition default_config :: matcher_config where
  "default_config = \<lparr>max_states = 100000, max_backtracks = 50000, max_regex_executions = 10000,
     max_regex_evaluated_bytes = 8 * 1024 * 1024, max_regex_backtracks = 1000000, max_candidate_failures = 256,
     recover_type_expression_failures = False\<rparr>"

record extension_fault =
  fault_component_id :: str
  fault_subscription_id :: str
  fault_phase :: str
  fault_target :: str
  fault_code :: str
  fault_message :: str

datatype match_error =
    Cancelled
  | ExtensionFault extension_fault
  | InvalidConfiguration
  | InvalidInputRange text_range
  | SourceMapFailure source_map_error
  | InvalidRegex text_range str
  | TypeResolverFailure text_range str
  | HookFailure str
  | LimitExceeded match_limit nat
  | InvalidTypeResolution text_range

definition validate_config :: "matcher_config \<Rightarrow> (match_error, unit) outcome" where
  "validate_config c =
     (if max_states c = 0 \<or> max_backtracks c = 0 \<or> max_regex_executions c = 0 \<or> max_regex_evaluated_bytes c = 0 \<or>
         max_regex_backtracks c = 0 \<or> max_candidate_failures c = 0
      then Fail InvalidConfiguration else Ret ())"

definition input_from_source :: "mapped_source \<Rightarrow> text_range \<Rightarrow> (match_error, match_input) outcome" where
  "input_from_source ms r =
     obind (ok_or (InvalidInputRange r) (str_slice r (ms_virtual ms))) (\<lambda>text.
     Ret \<lparr>input_text = text, input_mapping = FromSource ms r\<rparr>)"

definition input_generated :: "str \<Rightarrow> mapped_span \<Rightarrow> match_input" where
  "input_generated text call_site = \<lparr>input_text = text, input_mapping = FixedSpan call_site\<rparr>"

definition input_map_range :: "match_input \<Rightarrow> text_range \<Rightarrow> (match_error, match_span) outcome" where
  "input_map_range inp r =
     (if \<not> is_valid_for r (input_text inp) then Fail (InvalidInputRange r)
      else obind (case input_mapping inp of
          FromSource ms source_range \<Rightarrow> omap_err SourceMapFailure
            (ms_map_range ms (range_new (range_start source_range + range_start r) (range_start source_range + range_end r)))
        | FixedSpan call_site \<Rightarrow> Ret call_site) (\<lambda>m.
      Ret \<lparr>local_range = r, mapped = m\<rparr>))"

text \<open>Anchors absent source text: every range shrinks to its end.\<close>

definition implicit_capture_span :: "match_span \<Rightarrow> match_span" where
  "implicit_capture_span sp =
     \<lparr>local_range = range_empty (range_end (local_range sp)),
      mapped = \<lparr>span_range = range_empty (range_end (span_range (mapped sp))),
        span_origins = map (\<lambda>org. org\<lparr>original_range := range_empty (range_end (original_range org)),
          origin_kind := (if origin_expansion org \<noteq> None then Anchored else origin_kind org)\<rparr>) (span_origins (mapped sp))\<rparr>\<rparr>"

subsection \<open>Candidates and results\<close>

record match_pattern =
  pattern_index :: nat
  pattern_source :: str
  parsed :: parse_result

record pattern_candidate =
  candidate_kind :: match_syntax_kind
  definition_id :: str
  registration_id :: str
  priority :: int
  registration_order :: nat
  resolved_order :: "nat option"
  patterns :: "match_pattern list"

record candidate_failure =
  cf_kind :: match_syntax_kind
  cf_definition_id :: str
  cf_registration_id :: str
  cf_priority :: int
  cf_registration_order :: nat
  cf_resolved_order :: "nat option"
  cf_literal_anchor :: bool
  cf_pattern_index :: "nat option"
  cf_pattern :: "str option"
  cf_trace :: failure_trace
  cf_related :: "failure_trace list"

record regex_group =
  group_index :: nat
  group_value :: "str option"
  group_span :: "match_span option"

datatype type_capture_state = ExplicitCapture | OmittedCapture | NullCapture | DefaultCapture

datatype pattern_capture =
    RegexCapture (capture_index: nat) (capture_pattern_span: text_range) (capture_value: str) (capture_span: match_span)
      (capture_groups: "regex_group list")
  | TypeCapture (capture_index: nat) (capture_state: type_capture_state) (capture_pattern_span: text_range)
      (capture_expression: type_expr) (capture_value: str) (capture_span: match_span)
      (capture_alternative: "nat option") (capture_resolution: "str option")

record tag_capture =
  tag_value :: str
  tag_pattern_span :: text_range
  tag_input_span :: match_span
  tag_implicit :: bool

record mark_capture =
  mark_value :: int
  mark_pattern_span :: text_range
  mark_input_span :: match_span
  mark_accumulated :: int

record pattern_match =
  pm_span :: match_span
  pm_captures :: "pattern_capture list"
  pm_tags :: "tag_capture list"
  pm_mark :: int
  pm_marks :: "mark_capture list"
  pm_recovered :: "failure_trace list"

record 'x candidate_match =
  cm_extension_state :: "'x option"
  cm_kind :: match_syntax_kind
  cm_definition_id :: str
  cm_registration_id :: str
  cm_priority :: int
  cm_registration_order :: nat
  cm_literal_anchor :: bool
  cm_pattern_index :: nat
  cm_pattern :: str
  cm_matched :: pattern_match

record 'x candidate_matches =
  selected :: "'x candidate_match option"
  other_matches :: "'x candidate_match list"
  failures :: "candidate_failure ranked_failures"

definition primary_failure :: "'x candidate_matches \<Rightarrow> failure_trace option" where
  "primary_failure m = (case primary (failures m) of Some c \<Rightarrow> Some (cf_trace c) | None \<Rightarrow> fallback (failures m))"

subsection \<open>The extension environment\<close>

record type_resolution =
  resolution_range :: text_range
  alternative_index :: "nat option"
  resolution_id :: "str option"

record type_outcome =
  resolutions :: "type_resolution list"
  outcome_failure :: "failure_trace option"

record type_request =
  request_input :: str
  request_expression :: type_expr
  request_pattern_span :: text_range
  request_remaining :: text_range
  candidate_ends :: "nat list"

datatype hook_scope = DefinitionScope | RegistrationScope | PatternScope | ElementScope

datatype hook_timing = Before | After

datatype hook_outcome = Pending | Matched text_range | Failed str

datatype hook_control = Continue | MatchTo text_range | Reject str

record hook_event =
  event_kind :: match_syntax_kind
  event_definition_id :: str
  event_registration_id :: str
  event_pattern_index :: "nat option"
  event_pattern :: "str option"
  event_element_path :: "path_segment list"
  event_pattern_span :: "text_range option"
  event_scope :: hook_scope
  event_timing :: hook_timing
  event_input_range :: text_range
  event_input_span :: match_span
  event_outcome :: hook_outcome

text \<open>An operation returns \<open>Result<_, String>\<close> (\<open>Inl\<close> the message) and the next state of the environment.\<close>

type_synonym ('e, 'a) env_op = "'e \<Rightarrow> (str + 'a) \<times> 'e"

record ('e, 'x) match_environment =
  cancellation_requested :: "'e \<Rightarrow> bool \<times> 'e"
  take_parse_cancellation :: "'e \<Rightarrow> bool \<times> 'e"
  take_extension_fault :: "'e \<Rightarrow> extension_fault option \<times> 'e"
  complete_typed_captures :: "pattern_candidate \<Rightarrow> match_pattern \<Rightarrow> pattern_match \<Rightarrow> ('e, failure_trace option \<times> pattern_match) env_op"
  take_candidate_state :: "'e \<Rightarrow> 'x option \<times> 'e"
  select_resolution :: "type_resolution \<Rightarrow> ('e, unit) env_op"
  begin_match :: "('e, unit) env_op"
  finish_match :: "bool \<Rightarrow> ('e, unit) env_op"
  checkpoint_branch :: "('e, nat option) env_op"
  restore_branch :: "nat \<Rightarrow> ('e, unit) env_op"
  allows_regex :: "match_syntax_kind \<Rightarrow> str \<Rightarrow> nat \<Rightarrow> ('e, bool) env_op"
  resolve_type :: "type_request \<Rightarrow> ('e, type_outcome) env_op"
  env_dispatch :: "hook_event \<Rightarrow> ('e, hook_control) env_op"

text \<open>\<open>pattern_environment_error\<close>: a forwarded cancellation or fault takes precedence over the message.\<close>

definition pattern_environment_error :: "('e, 'x) match_environment \<Rightarrow> match_error \<Rightarrow> 'e \<Rightarrow> match_error \<times> 'e" where
  "pattern_environment_error ops err e =
     (case take_parse_cancellation ops e of (c, e1) \<Rightarrow>
      if c then (Cancelled, e1)
      else case take_extension_fault ops e1 of (f, e2) \<Rightarrow>
        ((case f of None \<Rightarrow> err | Some x \<Rightarrow> ExtensionFault x), e2))"

definition env_run ::
    "('e, 'x) match_environment \<Rightarrow> (str \<Rightarrow> match_error) \<Rightarrow> ('e, 'a) env_op \<Rightarrow> ('e, match_error, 'a) action" where
  "env_run ops mk call e = (case call e of
     (Inr x, e1) \<Rightarrow> (Ret x, e1)
   | (Inl message, e1) \<Rightarrow> (case pattern_environment_error ops (mk message) e1 of (err, e2) \<Rightarrow> (Fail err, e2)))"

definition env_cancelled :: "('e, 'x) match_environment \<Rightarrow> ('e, match_error, unit) action" where
  "env_cancelled ops e = (case cancellation_requested ops e of (c, e1) \<Rightarrow> (if c then Fail Cancelled else Ret (), e1))"

text \<open>
  \<open>SplitPatternMatchEnvironment\<close>: a resolver of type expressions and hooks behind one environment.
  What the trait leaves to its defaults neither fails nor changes anything.
\<close>

record 'h match_hooks =
  hooks_cancellation_requested :: "'h \<Rightarrow> bool \<times> 'h"
  hooks_take_cancellation :: "'h \<Rightarrow> bool \<times> 'h"
  hooks_take_fault :: "'h \<Rightarrow> extension_fault option \<times> 'h"
  hooks_begin :: "('h, unit) env_op"
  hooks_finish :: "bool \<Rightarrow> ('h, unit) env_op"
  hooks_checkpoint :: "('h, nat option) env_op"
  hooks_restore :: "nat \<Rightarrow> ('h, unit) env_op"
  hooks_allows_regex :: "match_syntax_kind \<Rightarrow> str \<Rightarrow> nat \<Rightarrow> ('h, bool) env_op"
  hooks_dispatch :: "hook_event \<Rightarrow> ('h, hook_control) env_op"

definition on_hooks :: "('h \<Rightarrow> 'a \<times> 'h) \<Rightarrow> 'r \<times> 'h \<Rightarrow> 'a \<times> ('r \<times> 'h)" where
  "on_hooks f x = (case f (snd x) of (a, h) \<Rightarrow> (a, (fst x, h)))"

definition split_environment :: "(type_request \<Rightarrow> ('r, type_outcome) env_op) \<Rightarrow> 'h match_hooks \<Rightarrow> ('r \<times> 'h, 'x) match_environment" where
  "split_environment resolve hooks =
     \<lparr>cancellation_requested = on_hooks (hooks_cancellation_requested hooks),
      take_parse_cancellation = on_hooks (hooks_take_cancellation hooks),
      take_extension_fault = on_hooks (hooks_take_fault hooks),
      complete_typed_captures = (\<lambda>c p m e. (Inr (None, m), e)),
      take_candidate_state = (\<lambda>e. (None, e)),
      select_resolution = (\<lambda>r e. (Inr (), e)),
      begin_match = on_hooks (hooks_begin hooks),
      finish_match = (\<lambda>b. on_hooks (hooks_finish hooks b)),
      checkpoint_branch = on_hooks (hooks_checkpoint hooks),
      restore_branch = (\<lambda>n. on_hooks (hooks_restore hooks n)),
      allows_regex = (\<lambda>k r i. on_hooks (hooks_allows_regex hooks k r i)),
      resolve_type = (\<lambda>req x. case resolve req (fst x) of (a, r) \<Rightarrow> (a, (r, snd x))),
      env_dispatch = (\<lambda>ev. on_hooks (hooks_dispatch hooks ev))\<rparr>"

text \<open>\<open>NoopPatternMatchHooks\<close> and \<open>RejectTypeExpressions\<close>.\<close>

definition noop_hooks :: "unit match_hooks" where
  "noop_hooks =
     \<lparr>hooks_cancellation_requested = Pair False, hooks_take_cancellation = Pair False, hooks_take_fault = Pair None,
      hooks_begin = Pair (Inr ()), hooks_finish = (\<lambda>_. Pair (Inr ())), hooks_checkpoint = Pair (Inr None),
      hooks_restore = (\<lambda>_. Pair (Inr ())), hooks_allows_regex = (\<lambda>_ _ _. Pair (Inr True)),
      hooks_dispatch = (\<lambda>_. Pair (Inr Continue))\<rparr>"

definition reject_types :: "type_request \<Rightarrow> (unit, type_outcome) env_op" where
  "reject_types req = Pair (Inr \<lparr>resolutions = [], outcome_failure = None\<rparr>)"

subsection \<open>The regular expression engine\<close>

text \<open>
  \<open>Regex::captures\<close> on a subject: no match, the ranges of all groups (the first is the whole match),
  the backtrack limit, or another runtime error.  \<open>RegexBuilder::build\<close> takes the backtrack limit and
  the pattern, and fails with a message.
\<close>

datatype regex_result =
    RegexNoMatch
  | RegexGroups "(nat \<times> nat) option list"
  | RegexBacktrackLimit
  | RegexRuntimeError str

type_synonym regex = "str \<Rightarrow> regex_result"
type_synonym regex_builder = "nat \<Rightarrow> str \<Rightarrow> str + regex"

end
