(* ===== verification/Pattern_Match.thy ===== *)
theory Pattern_Match
  imports Match_Types
begin

text \<open>
  \<open>skript-parser/src/pattern_match.rs\<close>: the backtracking matcher.

  A \<open>MatchEngine\<close> of the source is split in two: what never changes during a match (the operations of
  the environment, the regular expression engine, the input, the limits) is the record \<open>matcher\<close>, what
  changes is the record \<open>engine\<close>, threaded through \<open>action\<close>s, so that the counters, caches, recorded
  failures and the state of the environment survive an error as they do in the source.  The recursion
  over the elements of a pattern needs no fuel: every call is on a smaller part of the pattern.
\<close>

subsection \<open>Actions\<close>

definition amodify :: "('s \<Rightarrow> 's) \<Rightarrow> ('s, 'e, unit) action" where
  "amodify f s = (Ret (), f s)"

definition aget :: "('s \<Rightarrow> 'a) \<Rightarrow> ('s, 'e, 'a) action" where
  "aget f s = (Ret (f s), s)"

fun amap :: "('x \<Rightarrow> ('s, 'e, 'y) action) \<Rightarrow> 'x list \<Rightarrow> ('s, 'e, 'y list) action" where
  "amap f [] = areturn []"
| "amap f (x # xs) = abind (f x) (\<lambda>y. abind (amap f xs) (\<lambda>ys. areturn (y # ys)))"

definition aconcat :: "('x \<Rightarrow> ('s, 'e, 'y list) action) \<Rightarrow> 'x list \<Rightarrow> ('s, 'e, 'y list) action" where
  "aconcat f xs = abind (amap f xs) (\<lambda>yss. areturn (concat yss))"

text \<open>The result of a step kept as a value, to be returned with \<open>?\<close> later.\<close>

definition acatch :: "('s, 'e, 'a) action \<Rightarrow> ('s, 'e, 'e + 'a) action" where
  "acatch m s = (case m s of
     (Ret x, t) \<Rightarrow> (Ret (Inr x), t)
   | (Fail e, t) \<Rightarrow> (Ret (Inl e), t)
   | (Panic, t) \<Rightarrow> (Panic, t))"

subsection \<open>The engine\<close>

record pending_tag =
  pending_pattern_span :: text_range
  pending_input_span :: match_span

record match_state =
  cursor :: nat
  captures :: "pattern_capture list"
  tags :: "tag_capture list"
  mark :: int
  marks :: "mark_capture list"
  pending_implicit_tag :: "pending_tag option"
  recovered_failures :: "failure_trace list"
  extension_checkpoint :: "nat option"

definition match_state_new :: "nat \<Rightarrow> match_state" where
  "match_state_new c = \<lparr>cursor = c, captures = [], tags = [], mark = 0, marks = [], pending_implicit_tag = None,
     recovered_failures = [], extension_checkpoint = None\<rparr>"

record transition_key =
  key_source :: str
  key_path :: "path_segment list"
  key_cursor :: nat

datatype cached_transition =
    CachedLiteral nat
  | CachedRegex text_range "text_range option list"

record candidate_context =
  context_candidate :: pattern_candidate
  context_pattern :: "match_pattern option"
  context_indices :: "text_range \<Rightarrow> nat option"

record ('e, 'x) matcher =
  ops :: "('e, 'x) match_environment"
  build_regex :: regex_builder
  lower :: lower_table
  config :: matcher_config
  match_text :: match_input
  trim :: text_range

record 'e engine =
  environment :: 'e
  failure :: failure_tracker
  states :: nat
  backtracks :: nat
  regex_executions :: nat
  regex_evaluated_bytes :: nat
  transitions :: "transition_key \<Rightarrow> cached_transition list option"
  regexes :: "str \<Rightarrow> (str + regex) option"
  current :: "candidate_context option"

type_synonym ('e, 'a) engine_action = "('e engine, match_error, 'a) action"

definition sat_add :: "nat \<Rightarrow> nat \<Rightarrow> nat" where
  "sat_add a b = min (a + b) u64_max"

definition in_env :: "('e, match_error, 'a) action \<Rightarrow> ('e, 'a) engine_action" where
  "in_env m s = (case m (environment s) of (r, e) \<Rightarrow> (r, s\<lparr>environment := e\<rparr>))"

abbreviation call_env :: "('e, 'x) matcher \<Rightarrow> (str \<Rightarrow> match_error) \<Rightarrow> ('e, 'a) env_op \<Rightarrow> ('e, 'a) engine_action" where
  "call_env mc mk call \<equiv> in_env (env_run (ops mc) mk call)"

definition check_cancelled :: "('e, 'x) matcher \<Rightarrow> ('e, unit) engine_action" where
  "check_cancelled mc = in_env (env_cancelled (ops mc))"

definition record_at :: "nat \<Rightarrow> pattern_failure_reason \<Rightarrow> ('e, unit) engine_action" where
  "record_at off reason = amodify (\<lambda>s. s\<lparr>failure := record_failure off reason (failure s)\<rparr>)"

definition text_of :: "('e, 'x) matcher \<Rightarrow> str" where
  "text_of mc = input_text (match_text mc)"

definition map_input :: "('e, 'x) matcher \<Rightarrow> text_range \<Rightarrow> (match_error, match_span) outcome" where
  "map_input mc r = input_map_range (match_text mc) r"

definition checkpoint :: "('e, 'x) matcher \<Rightarrow> ('e, nat option) engine_action" where
  "checkpoint mc = call_env mc HookFailure (checkpoint_branch (ops mc))"

definition restore_to :: "('e, 'x) matcher \<Rightarrow> nat option \<Rightarrow> ('e, unit) engine_action" where
  "restore_to mc saved = (case saved of None \<Rightarrow> areturn () | Some n \<Rightarrow> call_env mc HookFailure (restore_branch (ops mc) n))"

definition visit_state :: "('e, 'x) matcher \<Rightarrow> ('e, unit) engine_action" where
  "visit_state mc = abind (check_cancelled mc) (\<lambda>_. abind (amodify (\<lambda>s. s\<lparr>states := sat_add (states s) 1\<rparr>)) (\<lambda>_.
     abind (aget states) (\<lambda>n.
     if n > max_states (config mc) then alift (Fail (LimitExceeded States (max_states (config mc)))) else areturn ())))"

definition add_backtracks :: "('e, 'x) matcher \<Rightarrow> nat \<Rightarrow> ('e, unit) engine_action" where
  "add_backtracks mc amount = abind (amodify (\<lambda>s. s\<lparr>backtracks := sat_add (backtracks s) amount\<rparr>)) (\<lambda>_.
     abind (aget backtracks) (\<lambda>n.
     if n > max_backtracks (config mc) then alift (Fail (LimitExceeded Backtracks (max_backtracks (config mc)))) else areturn ()))"

subsection \<open>Captures of a pattern\<close>

function (sequential) collect_captures :: "spanned_element list \<Rightarrow> text_range list" where
  "collect_captures [] = []"
| "collect_captures (Spanned (Regex s) r # es) = r # collect_captures es"
| "collect_captures (Spanned (TypeExpr t) r # es) = r # collect_captures es"
| "collect_captures (Spanned (Group cs) r # es) = collect_captures cs @ collect_captures es"
| "collect_captures (Spanned (OptionElement cs) r # es) = collect_captures cs @ collect_captures es"
| "collect_captures (Spanned (Choice bs) r # es) = concat (map collect_captures bs) @ collect_captures es"
| "collect_captures (Spanned e r # es) = collect_captures es"
  by pat_completeness auto

termination
  by (relation "measure (size_list (size_spanned size))") (auto dest: branch_size [of _ _ "size_spanned size"])

text \<open>The slots in traversal order, numbered from zero; of equal spans the last number counts.\<close>

definition pattern_capture_indices :: "spanned_element list \<Rightarrow> text_range \<Rightarrow> nat option" where
  "pattern_capture_indices es =
     foldl (\<lambda>m (i, r). m(r \<mapsto> i)) Map.empty (enumerate 0 (collect_captures es))"

definition candidate_context :: "pattern_candidate \<Rightarrow> match_pattern option \<Rightarrow> candidate_context" where
  "candidate_context c p =
     \<lparr>context_candidate = c, context_pattern = p,
      context_indices = (case p of None \<Rightarrow> Map.empty | Some q \<Rightarrow> pattern_capture_indices (elements (parsed q)))\<rparr>"

definition set_current :: "pattern_candidate \<Rightarrow> match_pattern option \<Rightarrow> ('e, unit) engine_action" where
  "set_current c p = amodify (\<lambda>s. s\<lparr>current := Some (candidate_context c p)\<rparr>)"

definition current_capture_index :: "candidate_context option \<Rightarrow> text_range \<Rightarrow> ('err, nat) outcome" where
  "current_capture_index cur sp = expect (case cur of None \<Rightarrow> None | Some c \<Rightarrow> context_indices c sp)"

function (sequential) pattern_contains_regex :: "spanned_element list \<Rightarrow> bool" where
  "pattern_contains_regex [] \<longleftrightarrow> False"
| "pattern_contains_regex (Spanned (Regex s) r # es) \<longleftrightarrow> True"
| "pattern_contains_regex (Spanned (Group cs) r # es) \<longleftrightarrow> pattern_contains_regex cs \<or> pattern_contains_regex es"
| "pattern_contains_regex (Spanned (OptionElement cs) r # es) \<longleftrightarrow> pattern_contains_regex cs \<or> pattern_contains_regex es"
| "pattern_contains_regex (Spanned (Choice bs) r # es) \<longleftrightarrow> list_ex pattern_contains_regex bs \<or> pattern_contains_regex es"
| "pattern_contains_regex (Spanned e r # es) \<longleftrightarrow> pattern_contains_regex es"
  by pat_completeness auto

termination
  by (relation "measure (size_list (size_spanned size))") (auto dest: branch_size [of _ _ "size_spanned size"])

text \<open>\<open>retain_omitted_captures\<close>: a slot that was not captured is kept, empty, at the anchor.\<close>

definition omitted_capture ::
    "('e, 'x) matcher \<Rightarrow> candidate_context option \<Rightarrow> nat \<Rightarrow> type_expr \<Rightarrow> text_range \<Rightarrow> pattern_capture list \<Rightarrow>
     (match_error, pattern_capture list) outcome" where
  "omitted_capture mc cur pos t r caps =
     obind (current_capture_index cur r) (\<lambda>i.
     if list_ex (\<lambda>c. capture_index c = i) caps then Ret caps
     else obind (map_input mc (range_empty pos)) (\<lambda>sp.
       Ret (caps @ [TypeCapture i (if nullable t then NullCapture else OmittedCapture) r t [] (implicit_capture_span sp) None None])))"

lemma try_for_cong [fundef_cong]:
  "xs = ys \<Longrightarrow> s = t \<Longrightarrow> (\<And>x u. x \<in> set ys \<Longrightarrow> f x u = g x u) \<Longrightarrow> try_for f xs s = try_for g ys t"
proof (induction xs arbitrary: ys s t)
  case (Cons x xs)
  have "try_for f xs u = try_for g xs u" for u by (rule Cons.IH) (use Cons.prems in auto)
  then have "try_for f xs = try_for g xs" by (rule ext)
  then show ?case using Cons.prems by auto
qed simp

function (sequential) retain_omitted ::
    "('e, 'x) matcher \<Rightarrow> candidate_context option \<Rightarrow> nat \<Rightarrow> spanned_element list \<Rightarrow> pattern_capture list \<Rightarrow>
     (match_error, pattern_capture list) outcome" where
  "retain_omitted mc cur pos [] caps = Ret caps"
| "retain_omitted mc cur pos (Spanned (TypeExpr t) r # es) caps =
     obind (omitted_capture mc cur pos t r caps) (retain_omitted mc cur pos es)"
| "retain_omitted mc cur pos (Spanned (Group cs) r # es) caps =
     obind (retain_omitted mc cur pos cs caps) (retain_omitted mc cur pos es)"
| "retain_omitted mc cur pos (Spanned (OptionElement cs) r # es) caps =
     obind (retain_omitted mc cur pos cs caps) (retain_omitted mc cur pos es)"
| "retain_omitted mc cur pos (Spanned (Choice bs) r # es) caps =
     obind (try_for (retain_omitted mc cur pos) bs caps) (retain_omitted mc cur pos es)"
| "retain_omitted mc cur pos (Spanned e r # es) caps = retain_omitted mc cur pos es caps"
  by pat_completeness auto


termination
  by (relation "measure (\<lambda>(_, _, _, es, _). size_list (size_spanned size) es)") (auto dest: branch_size [of _ _ "size_spanned size"])

subsection \<open>Hooks\<close>

definition failure_frame ::
    "('e, 'x) matcher \<Rightarrow> candidate_context option \<Rightarrow> path_segment list \<Rightarrow> text_range option \<Rightarrow> text_range \<Rightarrow> failure_frame_role \<Rightarrow>
     (match_error, failure_frame option) outcome" where
  "failure_frame mc cur path sp r role = (case cur of
     None \<Rightarrow> Ret None
   | Some c \<Rightarrow> (case context_pattern c of
       None \<Rightarrow> Ret None
     | Some p \<Rightarrow> obind (map_input mc r) (\<lambda>isp.
         Ret (Some \<lparr>frame_kind = candidate_kind (context_candidate c),
           frame_definition_id = definition_id (context_candidate c),
           frame_registration_id = registration_id (context_candidate c),
           frame_pattern_index = pattern_index p, frame_pattern = pattern_source p, frame_element_path = path,
           frame_pattern_span = sp, frame_input_span = isp, frame_role = role\<rparr>))))"

definition dispatch_hook ::
    "('e, 'x) matcher \<Rightarrow> hook_scope \<Rightarrow> hook_timing \<Rightarrow> path_segment list \<Rightarrow> text_range option \<Rightarrow> text_range \<Rightarrow> hook_outcome \<Rightarrow>
     ('e, hook_control) engine_action" where
  "dispatch_hook mc scope timing path sp r outcome =
     abind (aget current) (\<lambda>cur. abind (alift (expect cur)) (\<lambda>c.
     abind (alift (map_input mc r)) (\<lambda>isp.
     call_env mc HookFailure (env_dispatch (ops mc)
       \<lparr>event_kind = candidate_kind (context_candidate c), event_definition_id = definition_id (context_candidate c),
        event_registration_id = registration_id (context_candidate c),
        event_pattern_index = map_option pattern_index (context_pattern c),
        event_pattern = map_option pattern_source (context_pattern c), event_element_path = path,
        event_pattern_span = sp, event_scope = scope, event_timing = timing, event_input_range = r,
        event_input_span = isp, event_outcome = outcome\<rparr>))))"

definition validate_hook_range :: "('e, 'x) matcher \<Rightarrow> text_range \<Rightarrow> text_range \<Rightarrow> (match_error, unit) outcome" where
  "validate_hook_range mc r allowed =
     (if \<not> is_valid_for r (text_of mc) \<or> range_start r \<noteq> range_start allowed \<or> range_end r > range_end allowed
      then Fail (InvalidInputRange r) else Ret ())"

datatype scope_decision = ScopeContinue | ScopeMatched text_range | ScopeFailed

text \<open>How \<open>scope_before\<close> and \<open>scope_after_failed\<close> read the decision of a hook.\<close>

definition scope_control :: "('e, 'x) matcher \<Rightarrow> hook_control \<Rightarrow> ('e, scope_decision) engine_action" where
  "scope_control mc control = (case control of
     Continue \<Rightarrow> areturn ScopeContinue
   | MatchTo r \<Rightarrow> abind (alift (validate_hook_range mc r (trim mc))) (\<lambda>_. areturn (ScopeMatched r))
   | Reject reason \<Rightarrow> abind (record_at (range_start (trim mc)) (HookRejected reason)) (\<lambda>_. areturn ScopeFailed))"

definition scope_before :: "('e, 'x) matcher \<Rightarrow> hook_scope \<Rightarrow> ('e, scope_decision) engine_action" where
  "scope_before mc scope =
     abind (dispatch_hook mc scope Before [] None (trim mc) Pending) (scope_control mc)"

definition scope_after_failed :: "('e, 'x) matcher \<Rightarrow> hook_scope \<Rightarrow> str \<Rightarrow> ('e, scope_decision) engine_action" where
  "scope_after_failed mc scope reason =
     abind (dispatch_hook mc scope After [] None (range_empty (range_start (trim mc))) (Failed reason)) (scope_control mc)"

definition scope_after_matched :: "('e, 'x) matcher \<Rightarrow> hook_scope \<Rightarrow> text_range \<Rightarrow> ('e, bool) engine_action" where
  "scope_after_matched mc scope r =
     abind (dispatch_hook mc scope After [] None r (Matched r)) (\<lambda>control. case control of
       Reject reason \<Rightarrow> abind (record_at (range_end r) (HookRejected reason)) (\<lambda>_. areturn False)
     | MatchTo q \<Rightarrow> abind (alift (validate_hook_range mc q (trim mc))) (\<lambda>_. areturn (q = trim mc))
     | Continue \<Rightarrow> areturn True)"

definition with_checkpoint :: "('e, 'x) matcher \<Rightarrow> match_state \<Rightarrow> ('e, match_state) engine_action" where
  "with_checkpoint mc st = abind (checkpoint mc) (\<lambda>saved.
     areturn (case saved of None \<Rightarrow> st | Some n \<Rightarrow> st\<lparr>extension_checkpoint := Some n\<rparr>))"

subsection \<open>Literals and regular expressions\<close>

definition transition_key :: "candidate_context option \<Rightarrow> path_segment list \<Rightarrow> nat \<Rightarrow> transition_key" where
  "transition_key cur path c =
     \<lparr>key_source = (case cur of None \<Rightarrow> [] | Some x \<Rightarrow> (case context_pattern x of None \<Rightarrow> [] | Some p \<Rightarrow> pattern_source p)),
      key_path = path, key_cursor = c\<rparr>"

definition store_transitions :: "transition_key \<Rightarrow> cached_transition list \<Rightarrow> ('e, unit) engine_action" where
  "store_transitions k ts = amodify (\<lambda>s. s\<lparr>transitions := (transitions s)(k \<mapsto> ts)\<rparr>)"

definition literal_transitions ::
    "('e, 'x) matcher \<Rightarrow> str \<Rightarrow> match_state \<Rightarrow> transition_key \<Rightarrow> ('e, cached_transition list) engine_action" where
  "literal_transitions mc literal st k =
     abind (aget (\<lambda>s. transitions s k)) (\<lambda>known. case known of
       Some ts \<Rightarrow> areturn ts
     | None \<Rightarrow> abind
         (case match_literal_at (lower mc) (text_of mc) (trim mc) (cursor st) literal of
            Inr stop \<Rightarrow> areturn [CachedLiteral stop]
          | Inl off \<Rightarrow> abind (record_at off (ExpectedLiteral literal)) (\<lambda>_. areturn []))
         (\<lambda>ts. abind (store_transitions k ts) (\<lambda>_. areturn ts)))"

definition match_literal ::
    "('e, 'x) matcher \<Rightarrow> str \<Rightarrow> match_state \<Rightarrow> path_segment list \<Rightarrow> ('e, match_state list) engine_action" where
  "match_literal mc literal st path =
     abind (aget current) (\<lambda>cur.
     abind (literal_transitions mc literal st (transition_key cur path (cursor st))) (\<lambda>ts.
     case ts of
       CachedLiteral stop # _ \<Rightarrow> areturn [st\<lparr>cursor := stop\<rparr>]
     | _ \<Rightarrow> abind (record_at (cursor st) (ExpectedLiteral literal)) (\<lambda>_. areturn [])))"

text \<open>Compiling a regular expression once, anchored at both ends.\<close>

definition compiled_regex :: "('e, 'x) matcher \<Rightarrow> str \<Rightarrow> text_range \<Rightarrow> ('e, regex) engine_action" where
  "compiled_regex mc pattern sp =
     abind (aget (\<lambda>s. regexes s pattern)) (\<lambda>known.
     abind (case known of
         Some r \<Rightarrow> areturn r
       | None \<Rightarrow> (let r = build_regex mc (max_regex_backtracks (config mc))
             (CHR 0x5C # ''A(?:'' @ pattern @ '')'' @ CHR 0x5C # ''z'') in
           abind (amodify (\<lambda>s. s\<lparr>regexes := (regexes s)(pattern \<mapsto> r)\<rparr>)) (\<lambda>_. areturn r)))
       (\<lambda>r. alift (case r of Inl message \<Rightarrow> Fail (InvalidRegex sp message) | Inr re \<Rightarrow> Ret re)))"

text \<open>One split point of the loop in \<open>match_regex\<close>.\<close>

definition regex_at ::
    "('e, 'x) matcher \<Rightarrow> regex \<Rightarrow> text_range \<Rightarrow> nat \<Rightarrow> nat \<Rightarrow> ('e, cached_transition list) engine_action" where
  "regex_at mc re sp from stop =
     abind (check_cancelled mc) (\<lambda>_.
     abind (amodify (\<lambda>s. s\<lparr>regex_executions := sat_add (regex_executions s) 1\<rparr>)) (\<lambda>_.
     abind (aget regex_executions) (\<lambda>n.
     if n > max_regex_executions (config mc)
     then alift (Fail (LimitExceeded RegexExecutions (max_regex_executions (config mc))))
     else abind (amodify (\<lambda>s. s\<lparr>regex_evaluated_bytes := sat_add (regex_evaluated_bytes s) (stop - from)\<rparr>)) (\<lambda>_.
     abind (aget regex_evaluated_bytes) (\<lambda>bytes.
     if bytes > max_regex_evaluated_bytes (config mc)
     then alift (Fail (LimitExceeded RegexEvaluatedBytes (max_regex_evaluated_bytes (config mc))))
     else (case str_slice (range_new from stop) (text_of mc) of
         None \<Rightarrow> areturn []
       | Some subject \<Rightarrow> (case re subject of
           RegexNoMatch \<Rightarrow> areturn []
         | RegexBacktrackLimit \<Rightarrow> alift (Fail (LimitExceeded RegexBacktracks (max_regex_backtracks (config mc))))
         | RegexRuntimeError message \<Rightarrow> alift (Fail (InvalidRegex sp message))
         | RegexGroups groups \<Rightarrow> areturn [CachedRegex (range_new from stop)
             (map (map_option (\<lambda>(a, b). range_new (from + a) (from + b))) (tl groups))])))))))"

definition regex_transitions ::
    "('e, 'x) matcher \<Rightarrow> text_range \<Rightarrow> str \<Rightarrow> match_state \<Rightarrow> transition_key \<Rightarrow> ('e, cached_transition list) engine_action" where
  "regex_transitions mc sp pattern st k =
     abind (aget (\<lambda>s. transitions s k)) (\<lambda>known. case known of
       Some ts \<Rightarrow> areturn ts
     | None \<Rightarrow>
         abind (compiled_regex mc pattern sp) (\<lambda>re.
         abind (aconcat (regex_at mc re sp (cursor st)) (skript_boundaries (text_of mc) (cursor st) (range_end (trim mc)))) (\<lambda>ts.
         abind (store_transitions k ts) (\<lambda>_. areturn ts))))"

definition regex_group :: "('e, 'x) matcher \<Rightarrow> nat \<times> text_range option \<Rightarrow> (match_error, regex_group) outcome" where
  "regex_group mc g = (case g of (i, r) \<Rightarrow>
     obind (case r of None \<Rightarrow> Ret None | Some q \<Rightarrow> obind (map_input mc q) (\<lambda>sp. Ret (Some sp))) (\<lambda>sp.
     Ret \<lparr>group_index = i + 1, group_value = (case r of None \<Rightarrow> None | Some q \<Rightarrow> str_slice q (text_of mc)), group_span = sp\<rparr>))"

text \<open>A transition of another kind under the key would be \<open>unreachable!\<close>.\<close>

definition regex_state ::
    "('e, 'x) matcher \<Rightarrow> nat \<Rightarrow> text_range \<Rightarrow> match_state \<Rightarrow> cached_transition \<Rightarrow> (match_error, match_state) outcome" where
  "regex_state mc slot sp st t = (case t of
     CachedLiteral _ \<Rightarrow> Panic
   | CachedRegex r groups \<Rightarrow>
       obind (expect (str_slice r (text_of mc))) (\<lambda>value.
       obind (map_input mc r) (\<lambda>span.
       obind (try_map (regex_group mc) (enumerate 0 groups)) (\<lambda>gs.
       Ret (st\<lparr>cursor := range_end r, captures := captures st @ [RegexCapture slot sp value span gs]\<rparr>)))))"

definition match_regex ::
    "('e, 'x) matcher \<Rightarrow> text_range \<Rightarrow> str \<Rightarrow> match_state \<Rightarrow> path_segment list \<Rightarrow> ('e, match_state list) engine_action" where
  "match_regex mc sp pattern st path =
     abind (aget current) (\<lambda>cur.
     abind (alift (current_capture_index cur sp)) (\<lambda>slot.
     abind (regex_transitions mc sp pattern st (transition_key cur path (cursor st))) (\<lambda>ts.
     if ts = [] then abind (record_at (cursor st) (ExpectedRegex pattern)) (\<lambda>_. areturn [])
     else alift (try_map (regex_state mc slot sp st) ts))))"

subsection \<open>Typed expressions\<close>

definition allowed_boundaries :: "('e, 'x) matcher \<Rightarrow> nat \<Rightarrow> tail_prefix list \<Rightarrow> nat list" where
  "allowed_boundaries mc from tail =
     filter (\<lambda>b. boundary_allows_tail (lower mc) (text_of mc) (trim mc) b tail)
       (skript_boundaries (text_of mc) from (range_end (trim mc)))"

text \<open>\<open>max_by_key\<close> of specificity and closeness: the last of the greatest.\<close>

definition better_anchor :: "nat \<Rightarrow> nat \<times> nat \<Rightarrow> (nat \<times> nat) option \<Rightarrow> (nat \<times> nat) option" where
  "better_anchor from x best = (case (x, best) of
     (_, None) \<Rightarrow> Some x
   | ((b, s), Some (b', s')) \<Rightarrow> if s > s' \<or> s = s' \<and> b - from \<le> b' - from then Some x else best)"

definition anchored_failure_end :: "('e, 'x) matcher \<Rightarrow> nat \<Rightarrow> tail_prefix list \<Rightarrow> nat list \<Rightarrow> nat option" where
  "anchored_failure_end mc from tail bs =
     map_option fst (fold (better_anchor from)
       (List.map_filter (\<lambda>b. map_option (Pair b) (tail_literal_specificity (lower mc) (text_of mc) (trim mc) b tail)) bs) None)"

definition first_after :: "nat \<Rightarrow> nat list \<Rightarrow> nat option" where
  "first_after from bs = find (\<lambda>b. b > from) bs"

definition resolution_legal :: "('e, 'x) matcher \<Rightarrow> nat \<Rightarrow> type_expr \<Rightarrow> nat list \<Rightarrow> type_resolution \<Rightarrow> bool" where
  "resolution_legal mc from t bs res \<longleftrightarrow>
     (let r = resolution_range res in
      range_start r = from \<and> range_end r \<le> range_end (trim mc) \<and> is_valid_for r (text_of mc) \<and> range_end r \<in> set bs \<and>
      (case alternative_index res of None \<Rightarrow> True | Some i \<Rightarrow> i < length (alternatives t)))"

text \<open>The capture of an accepted resolution.\<close>

definition resolved_capture ::
    "('e, 'x) matcher \<Rightarrow> nat \<Rightarrow> text_range \<Rightarrow> type_expr \<Rightarrow> type_resolution \<Rightarrow> (match_error, pattern_capture) outcome" where
  "resolved_capture mc slot sp t res =
     (let r = resolution_range res in
      obind (expect (str_slice r (text_of mc))) (\<lambda>value.
      obind (map_input mc r) (\<lambda>span.
      Ret (TypeCapture slot (if range_is_empty r then NullCapture else ExplicitCapture) sp t value
        (if range_is_empty r then implicit_capture_span span else span) (alternative_index res) (resolution_id res)))))"

definition select_state ::
    "('e, 'x) matcher \<Rightarrow> nat \<Rightarrow> text_range \<Rightarrow> type_expr \<Rightarrow> match_state \<Rightarrow> nat list \<Rightarrow> nat option \<Rightarrow> type_resolution \<Rightarrow>
     ('e, match_state) engine_action" where
  "select_state mc slot sp t st bs saved res =
     (if \<not> resolution_legal mc (cursor st) t bs res then alift (Fail (InvalidTypeResolution (resolution_range res)))
      else abind (restore_to mc saved) (\<lambda>_.
        abind (call_env mc HookFailure (select_resolution (ops mc) res)) (\<lambda>_.
        abind (checkpoint mc) (\<lambda>branch.
        abind (alift (resolved_capture mc slot sp t res)) (\<lambda>cap.
        areturn (st\<lparr>extension_checkpoint := branch, cursor := range_end (resolution_range res),
          captures := captures st @ [cap]\<rparr>))))))"

text \<open>Whether the failure of the resolver is more telling than the failure of the capture itself.\<close>

definition actionable_reason :: "bool \<Rightarrow> pattern_failure_reason \<Rightarrow> bool" where
  "actionable_reason diagnosed r = (case r of
     EventRestricted _ _ \<Rightarrow> True
   | TypeParserUnresolved _ _ _ _ _ \<Rightarrow> True
   | HookRejected _ \<Rightarrow> diagnosed
   | _ \<Rightarrow> False)"

definition cause_relevant :: "text_range \<Rightarrow> failure_trace \<Rightarrow> bool" where
  "cause_relevant within cause \<longleftrightarrow>
     (let root = root_range cause in
      (root \<noteq> within \<or> list_ex (actionable_reason (has_semantic_diagnostics cause)) (failure_reasons (trace_failure (root_cause cause)))) \<and>
      range_start root \<ge> range_start within \<and> range_end root \<le> range_end within)"

text \<open>Diagnostic recovery: a failed capture is skipped up to every split point after it.\<close>

definition recovered_state ::
    "('e, 'x) matcher \<Rightarrow> nat \<Rightarrow> text_range \<Rightarrow> type_expr \<Rightarrow> match_state \<Rightarrow> failure_trace \<Rightarrow> nat \<Rightarrow> (match_error, match_state) outcome" where
  "recovered_state mc slot sp t st trace stop =
     (let r = range_new (cursor st) stop in
      obind (expect (str_slice r (text_of mc))) (\<lambda>value.
      obind (map_input mc r) (\<lambda>span.
      Ret (st\<lparr>cursor := stop,
        captures := captures st @ [TypeCapture slot ExplicitCapture sp t value span None None],
        recovered_failures := recovered_failures st @ [trace]\<rparr>))))"

definition report_type_failure ::
    "('e, 'x) matcher \<Rightarrow> nat \<Rightarrow> text_range \<Rightarrow> type_expr \<Rightarrow> match_state \<Rightarrow> path_segment list \<Rightarrow> nat option \<Rightarrow> text_range option \<Rightarrow>
     nat list \<Rightarrow> failure_trace option \<Rightarrow> match_state list \<Rightarrow> ('e, match_state list) engine_action" where
  "report_type_failure mc slot sp t st path anchored failed bs cause found =
     (let potential = range_new (cursor st) (fold max bs (cursor st));
          within = (case anchored of Some stop \<Rightarrow> range_new (cursor st) stop | None \<Rightarrow> potential);
          here = (case failed of Some r \<Rightarrow> r | None \<Rightarrow> range_empty (cursor st)) in
      abind (alift (map_input mc within)) (\<lambda>span.
      let cause = (case cause of None \<Rightarrow> None
            | Some c \<Rightarrow> if cause_relevant (span_range (mapped span)) c then Some c else None) in
      abind (aget current) (\<lambda>cur.
      abind (alift (failure_frame mc cur path (Some sp) (if cause \<noteq> None then potential else here) TypeExpressionCapture)) (\<lambda>frame.
      let reason = ExpectedTypes (map alt_name (alternatives t)) in
      abind (amodify (\<lambda>s. s\<lparr>failure := record_detailed (cursor st) failed reason frame cause (failure s)\<rparr>)) (\<lambda>_.
      if found = [] \<and> recover_type_expression_failures (config mc)
      then abind (alift (map_input mc here)) (\<lambda>failed_span.
        alift (try_map (recovered_state mc slot sp t st
            (FailureTrace \<lparr>failure_span = failed_span, failure_reasons = [reason]\<rparr> frame cause []))
          (filter (\<lambda>stop. stop > cursor st) bs)))
      else areturn found)))))"

definition match_type_expression ::
    "('e, 'x) matcher \<Rightarrow> text_range \<Rightarrow> type_expr \<Rightarrow> match_state \<Rightarrow> path_segment list \<Rightarrow> tail_prefix list \<Rightarrow>
     ('e, match_state list) engine_action" where
  "match_type_expression mc sp t st path tail =
     abind (aget current) (\<lambda>cur.
     abind (alift (current_capture_index cur sp)) (\<lambda>slot.
     let allowed = allowed_boundaries mc (cursor st) tail;
         anchored = anchored_failure_end mc (cursor st) tail allowed;
         failed = map_option (range_new (cursor st)) (case anchored of Some b \<Rightarrow> Some b | None \<Rightarrow> first_after (cursor st) allowed);
         bs = (if nullable t \<and> boundary_allows_tail (lower mc) (text_of mc) (trim mc) (cursor st) tail
               then cursor st # allowed else allowed) in
     abind (call_env mc (TypeResolverFailure sp) (resolve_type (ops mc)
       \<lparr>request_input = text_of mc, request_expression = t, request_pattern_span = sp,
        request_remaining = range_new (cursor st) (range_end (trim mc)), candidate_ends = bs\<rparr>)) (\<lambda>res.
     abind (if resolutions res = [] then areturn None else checkpoint mc) (\<lambda>saved.
     abind (amap (select_state mc slot sp t st bs saved) (resolutions res)) (\<lambda>found.
     abind (restore_to mc saved) (\<lambda>_.
     if found = [] \<or> outcome_failure res \<noteq> None
     then report_type_failure mc slot sp t st path anchored failed bs (outcome_failure res) found
     else areturn found))))))"

subsection \<open>Elements and sequences\<close>

definition path_index :: "nat \<Rightarrow> nat" where
  "path_index i = min i (2 ^ 32 - 1)"

definition push_implicit_tag :: "str \<Rightarrow> match_state \<Rightarrow> match_state" where
  "push_implicit_tag literal st = (case pending_implicit_tag st of
     None \<Rightarrow> st
   | Some p \<Rightarrow>
       (let st = st\<lparr>pending_implicit_tag := None\<rparr>; value = str_trim literal in
        if value = [] then st
        else st\<lparr>tags := tags st @ [\<lparr>tag_value = value, tag_pattern_span = pending_pattern_span p,
          tag_input_span = pending_input_span p, tag_implicit = True\<rparr>]\<rparr>))"

definition push_mark :: "int \<Rightarrow> text_range \<Rightarrow> match_span \<Rightarrow> match_state \<Rightarrow> match_state" where
  "push_mark n sp isp st =
     (let m = semiring_bit_operations_class.xor (mark st) n in
      st\<lparr>mark := m, marks := marks st @ [\<lparr>mark_value = n, mark_pattern_span = sp, mark_input_span = isp, mark_accumulated = m\<rparr>]\<rparr>)"

definition match_tag ::
    "('e, 'x) matcher \<Rightarrow> str \<Rightarrow> text_range \<Rightarrow> match_state \<Rightarrow> (match_error, match_state) outcome" where
  "match_tag mc tag sp st =
     obind (map_input mc (range_empty (cursor st))) (\<lambda>isp.
     if tag = [] then Ret (st\<lparr>pending_implicit_tag := Some \<lparr>pending_pattern_span = sp, pending_input_span = isp\<rparr>\<rparr>)
     else (let st = st\<lparr>tags := tags st @ [\<lparr>tag_value = tag, tag_pattern_span = sp, tag_input_span = isp, tag_implicit = False\<rparr>]\<rparr>;
         st = (case parse_i32 tag of None \<Rightarrow> st | Some n \<Rightarrow> push_mark n sp isp st) in
       Ret (st\<lparr>pending_implicit_tag := None\<rparr>)))"

definition match_mark :: "('e, 'x) matcher \<Rightarrow> int \<Rightarrow> text_range \<Rightarrow> match_state \<Rightarrow> (match_error, match_state) outcome" where
  "match_mark mc n sp st =
     obind (map_input mc (range_empty (cursor st))) (\<lambda>isp. Ret (push_mark n sp isp (st\<lparr>pending_implicit_tag := None\<rparr>)))"

text \<open>The hook before an element, then the element, then the hook after each of its matches.\<close>

definition after_element ::
    "('e, 'x) matcher \<Rightarrow> text_range \<Rightarrow> nat \<Rightarrow> path_segment list \<Rightarrow> match_state \<Rightarrow> ('e, match_state list) engine_action" where
  "after_element mc sp start path st =
     abind (restore_to mc (extension_checkpoint st)) (\<lambda>_.
     let r = range_new start (cursor st) in
     abind (dispatch_hook mc ElementScope After path (Some sp) r (Matched r)) (\<lambda>control. case control of
       Continue \<Rightarrow> abind (with_checkpoint mc st) (\<lambda>st. areturn [st])
     | MatchTo q \<Rightarrow> abind (alift (validate_hook_range mc q (range_new start (range_end (trim mc))))) (\<lambda>_.
         abind (with_checkpoint mc (st\<lparr>cursor := range_end q\<rparr>)) (\<lambda>st. areturn [st]))
     | Reject reason \<Rightarrow> abind (record_at (cursor st) (HookRejected reason)) (\<lambda>_. areturn [])))"

definition after_failed_element ::
    "('e, 'x) matcher \<Rightarrow> text_range \<Rightarrow> nat \<Rightarrow> path_segment list \<Rightarrow> match_state \<Rightarrow> ('e, match_state list) engine_action" where
  "after_failed_element mc sp start path original =
     abind (restore_to mc (extension_checkpoint original)) (\<lambda>_.
     abind (dispatch_hook mc ElementScope After path (Some sp) (range_empty start)
       (Failed ''pattern element did not match'')) (\<lambda>control. case control of
       Continue \<Rightarrow> areturn []
     | MatchTo q \<Rightarrow> abind (alift (validate_hook_range mc q (range_new start (range_end (trim mc))))) (\<lambda>_.
         abind (with_checkpoint mc (original\<lparr>cursor := range_end q\<rparr>)) (\<lambda>st. areturn [st]))
     | Reject reason \<Rightarrow> abind (record_at start (HookRejected reason)) (\<lambda>_. areturn [])))"

definition element_hooks ::
    "('e, 'x) matcher \<Rightarrow> text_range \<Rightarrow> match_state \<Rightarrow> path_segment list \<Rightarrow> (match_state \<Rightarrow> ('e, match_state list) engine_action) \<Rightarrow>
     ('e, match_state list) engine_action" where
  "element_hooks mc sp st path native =
     (let start = cursor st in
      abind (dispatch_hook mc ElementScope Before path (Some sp) (range_empty start) Pending) (\<lambda>control.
      abind (with_checkpoint mc st) (\<lambda>original.
      abind (case control of
          Continue \<Rightarrow> native original
        | MatchTo q \<Rightarrow> abind (alift (validate_hook_range mc q (range_new start (range_end (trim mc))))) (\<lambda>_.
            areturn [original\<lparr>cursor := range_end q\<rparr>])
        | Reject reason \<Rightarrow> abind (record_at start (HookRejected reason)) (\<lambda>_. areturn [])) (\<lambda>found.
      if found = [] then after_failed_element mc sp start path original
      else aconcat (after_element mc sp start path) found))))"

definition has_tail :: "pattern_element \<Rightarrow> bool" where
  "has_tail e = (case e of TypeExpr _ \<Rightarrow> True | Group _ \<Rightarrow> True | OptionElement _ \<Rightarrow> True | Choice _ \<Rightarrow> True | _ \<Rightarrow> False)"

text \<open>The captures of the branches that a match did not take, in order.\<close>

definition retain_other_branches ::
    "('e, 'x) matcher \<Rightarrow> candidate_context option \<Rightarrow> nat \<Rightarrow> spanned_element list list \<Rightarrow> nat \<Rightarrow> match_state \<Rightarrow>
     (match_error, match_state) outcome" where
  "retain_other_branches mc cur from every i st =
     obind (try_for (\<lambda>(j, branch) caps. if j = i then Ret caps else retain_omitted mc cur from branch caps)
         (enumerate 0 every) (captures st)) (\<lambda>caps. Ret (st\<lparr>captures := caps\<rparr>))"

function (sequential) match_sequence ::
      "('e, 'x) matcher \<Rightarrow> spanned_element list \<Rightarrow> nat \<Rightarrow> match_state \<Rightarrow> path_segment list \<Rightarrow> tail_prefix list \<Rightarrow>
       ('e, match_state list) engine_action"
  and match_element ::
      "('e, 'x) matcher \<Rightarrow> spanned_element \<Rightarrow> match_state \<Rightarrow> path_segment list \<Rightarrow> tail_prefix list \<Rightarrow>
       ('e, match_state list) engine_action"
  and match_element_default ::
      "('e, 'x) matcher \<Rightarrow> pattern_element \<Rightarrow> text_range \<Rightarrow> match_state \<Rightarrow> path_segment list \<Rightarrow> tail_prefix list \<Rightarrow>
       ('e, match_state list) engine_action"
  and match_branches ::
      "('e, 'x) matcher \<Rightarrow> spanned_element list list \<Rightarrow> spanned_element list list \<Rightarrow> nat \<Rightarrow> match_state \<Rightarrow> path_segment list \<Rightarrow>
       tail_prefix list \<Rightarrow> ('e, match_state list) engine_action" where
  "match_sequence mc [] i st path outer =
     abind (restore_to mc (extension_checkpoint st)) (\<lambda>_. abind (visit_state mc) (\<lambda>_. areturn [st]))"
| "match_sequence mc (x # xs) i st path outer =
     abind (restore_to mc (extension_checkpoint st)) (\<lambda>_.
     abind (visit_state mc) (\<lambda>_.
     abind (match_element mc x st (path @ [ElementSegment (path_index i)])
       (if has_tail (element x) then sequence_tail_prefixes xs outer else outer)) (\<lambda>found.
     abind (add_backtracks mc (length found - 1)) (\<lambda>_.
     aconcat (\<lambda>next_state. match_sequence mc xs (i + 1) next_state path outer) found))))"
| "match_element mc (Spanned e sp) st path tail =
     element_hooks mc sp st path (\<lambda>st. match_element_default mc e sp st path tail)"
| "match_element_default mc (Literal s) sp st path tail = match_literal mc s (push_implicit_tag s st) path"
| "match_element_default mc (Choice bs) sp st path tail =
     abind (add_backtracks mc (length bs - 1)) (\<lambda>_. match_branches mc bs bs 0 st path tail)"
| "match_element_default mc (Group es) sp st path tail = match_sequence mc es 0 st path tail"
| "match_element_default mc (OptionElement es) sp st path tail =
     abind (match_sequence mc es 0 st path tail) (\<lambda>found.
     abind (aget current) (\<lambda>cur.
     abind (alift (retain_omitted mc cur (cursor st) es (captures st))) (\<lambda>caps.
     areturn (found @ [st\<lparr>pending_implicit_tag := None, captures := caps\<rparr>]))))"
| "match_element_default mc (Regex s) sp st path tail =
     match_regex mc sp s (st\<lparr>pending_implicit_tag := None\<rparr>) path"
| "match_element_default mc (TypeExpr t) sp st path tail =
     match_type_expression mc sp t (st\<lparr>pending_implicit_tag := None\<rparr>) path tail"
| "match_element_default mc (ParseTag s) sp st path tail = alift (obind (match_tag mc s sp st) (\<lambda>st. Ret [st]))"
| "match_element_default mc (ParseMark n) sp st path tail = alift (obind (match_mark mc n sp st) (\<lambda>st. Ret [st]))"
| "match_element_default mc EmptyBranch sp st path tail = areturn [st\<lparr>pending_implicit_tag := None\<rparr>]"
| "match_branches mc every [] i st path tail = areturn []"
| "match_branches mc every (b # bs) i st path tail =
     abind (match_sequence mc b 0 st (path @ [BranchSegment (path_index i)]) tail) (\<lambda>found.
     abind (aget current) (\<lambda>cur.
     abind (alift (try_map (retain_other_branches mc cur (cursor st) every i) found)) (\<lambda>kept.
     abind (match_branches mc every bs (i + 1) st path tail) (\<lambda>more. areturn (kept @ more)))))"
  by pat_completeness auto

termination
  by (relation "measure (case_sum
      (case_sum (\<lambda>(_, es, _). size_list (size_spanned size) es) (\<lambda>(_, x, _). size_spanned size x))
      (case_sum (\<lambda>(_, e, _). size e) (\<lambda>(_, _, bs, _). size_list (size_list (size_spanned size)) bs)))") auto

end
