(* ===== verification/Match_Candidates.thy ===== *)
theory Match_Candidates
  imports Pattern_Match
begin

text \<open>
  The candidate level of \<open>pattern_match.rs\<close>: the hooks of a candidate and of its patterns, completion
  of a match, the order in which candidates are tried, and the entry points.
\<close>

subsection \<open>Completing a match\<close>

definition candidate_has_literal_anchor :: "lower_table \<Rightarrow> pattern_candidate \<Rightarrow> str \<Rightarrow> text_range \<Rightarrow> bool" where
  "candidate_has_literal_anchor low c input complete \<longleftrightarrow>
     list_ex (\<lambda>p. list_ex (\<lambda>prefix. \<not> isl (match_literal_at low input complete (range_start complete) (prefix_text prefix)))
       (filter (\<lambda>prefix. list_ex (\<lambda>ch. ch \<noteq> CHR '' '') (prefix_text prefix)) (leading_tail_prefixes (elements (parsed p)))))
     (patterns c)"

text \<open>A match of a candidate before it is completed.\<close>

definition raw_match :: "('e, 'x) matcher \<Rightarrow> pattern_candidate \<Rightarrow> match_pattern \<Rightarrow> match_state \<Rightarrow> (match_error, 'x candidate_match) outcome" where
  "raw_match mc c p st =
     obind (map_input mc (trim mc)) (\<lambda>span.
     Ret \<lparr>cm_extension_state = None, cm_kind = candidate_kind c, cm_definition_id = definition_id c,
       cm_registration_id = registration_id c, cm_priority = priority c, cm_registration_order = registration_order c,
       cm_literal_anchor = candidate_has_literal_anchor (lower mc) c (text_of mc) (trim mc),
       cm_pattern_index = pattern_index p, cm_pattern = pattern_source p,
       cm_matched = \<lparr>pm_span = span, pm_captures = captures st, pm_tags = tags st, pm_mark = mark st, pm_marks = marks st,
         pm_recovered = recovered_failures st\<rparr>\<rparr>)"

definition is_omitted :: "pattern_capture \<Rightarrow> bool" where
  "is_omitted c = (case c of TypeCapture _ s _ _ _ _ _ _ \<Rightarrow> s = OmittedCapture | _ \<Rightarrow> False)"

text \<open>\<open>complete_candidate_match\<close>: \<open>None\<close> when the environment rejects an omitted capture.\<close>

definition complete_match ::
    "('e, 'x) matcher \<Rightarrow> pattern_candidate \<Rightarrow> match_pattern \<Rightarrow> 'x candidate_match \<Rightarrow> ('e, 'x candidate_match option) engine_action" where
  "complete_match mc c p value =
     abind (aget current) (\<lambda>cur.
     abind (alift (retain_omitted mc cur (range_end (local_range (pm_span (cm_matched value)))) (elements (parsed p))
       (pm_captures (cm_matched value)))) (\<lambda>caps.
     let m = (cm_matched value)\<lparr>pm_captures := sort_key capture_index caps\<rparr> in
     if \<not> list_ex is_omitted (pm_captures m) then areturn (Some (value\<lparr>cm_matched := m\<rparr>))
     else abind (checkpoint mc) (\<lambda>saved.
       abind (acatch (call_env mc HookFailure (complete_typed_captures (ops mc) c p m))) (\<lambda>result.
       abind (case result of Inr (None, _) \<Rightarrow> areturn () | _ \<Rightarrow> restore_to mc saved) (\<lambda>_.
       case result of
         Inl err \<Rightarrow> alift (Fail err)
       | Inr (None, m) \<Rightarrow> areturn (Some (value\<lparr>cm_matched := m\<rparr>))
       | Inr (Some trace, _) \<Rightarrow>
           abind (aget current) (\<lambda>cur.
           abind (alift (failure_frame mc cur [] None (trim mc) SemanticCandidate)) (\<lambda>frame.
           let reason = (case failure_reasons (trace_failure trace) of
                 r # _ \<Rightarrow> r | [] \<Rightarrow> HookRejected ''omitted typed capture could not be resolved'') in
           abind (amodify (\<lambda>s. s\<lparr>failure := record_detailed (range_end (trim mc))
             (Some (local_range (failure_span (trace_failure trace)))) reason frame (Some trace) (failure s)\<rparr>)) (\<lambda>_.
           areturn None))))))))"

definition synthetic_match ::
    "('e, 'x) matcher \<Rightarrow> pattern_candidate \<Rightarrow> match_pattern \<Rightarrow> ('e, 'x candidate_match option) engine_action" where
  "synthetic_match mc c p =
     abind (alift (raw_match mc c p (match_state_new 0))) (\<lambda>value. complete_match mc c p value)"

fun first_synthetic ::
    "('e, 'x) matcher \<Rightarrow> pattern_candidate \<Rightarrow> match_pattern list \<Rightarrow> ('e, 'x candidate_match option) engine_action" where
  "first_synthetic mc c [] = areturn None"
| "first_synthetic mc c (p # ps) =
     abind (set_current c (Some p)) (\<lambda>_.
     abind (synthetic_match mc c p) (\<lambda>found. case found of
       Some m \<Rightarrow> areturn (Some m)
     | None \<Rightarrow> first_synthetic mc c ps))"

text \<open>The complete states of a pattern, until the captures of one can be completed.\<close>

fun first_completed ::
    "('e, 'x) matcher \<Rightarrow> pattern_candidate \<Rightarrow> match_pattern \<Rightarrow> match_state list \<Rightarrow> ('e, 'x candidate_match option) engine_action" where
  "first_completed mc c p [] = areturn None"
| "first_completed mc c p (st # sts) =
     abind (restore_to mc (extension_checkpoint st)) (\<lambda>_.
     abind (alift (raw_match mc c p st)) (\<lambda>value.
     abind (complete_match mc c p value) (\<lambda>found. case found of
       Some m \<Rightarrow> areturn (Some m)
     | None \<Rightarrow> first_completed mc c p sts)))"

subsection \<open>One pattern\<close>

text \<open>A hook after a failed pattern may still match it.\<close>

definition override_failed_pattern ::
    "('e, 'x) matcher \<Rightarrow> pattern_candidate \<Rightarrow> match_pattern \<Rightarrow> str \<Rightarrow> ('e, 'x candidate_match option) engine_action" where
  "override_failed_pattern mc c p reason =
     abind (scope_after_failed mc PatternScope reason) (\<lambda>after.
     if after = ScopeMatched (trim mc) then synthetic_match mc c p else areturn None)"

definition close_pattern ::
    "('e, 'x) matcher \<Rightarrow> text_range \<Rightarrow> 'x candidate_match \<Rightarrow> ('e, 'x candidate_match option) engine_action" where
  "close_pattern mc r value =
     abind (scope_after_matched mc PatternScope r) (\<lambda>accepted. areturn (if accepted then Some value else None))"

definition pattern_end :: "tail_prefix list" where
  "pattern_end = [tail_prefix [] False]"

definition match_pattern_natively ::
    "('e, 'x) matcher \<Rightarrow> pattern_candidate \<Rightarrow> match_pattern \<Rightarrow> ('e, 'x candidate_match option) engine_action" where
  "match_pattern_natively mc c p =
     abind (match_sequence mc (elements (parsed p)) 0 (match_state_new (range_start (trim mc))) [] pattern_end) (\<lambda>sts.
     let complete = filter (\<lambda>st. cursor st = range_end (trim mc)) sts in
     abind (first_completed mc c p complete) (\<lambda>found. case found of
       Some value \<Rightarrow> close_pattern mc (trim mc) value
     | None \<Rightarrow>
         abind (if complete = []
           then amodify (\<lambda>s. s\<lparr>failure := fold (\<lambda>st. record_failure (cursor st) TrailingInput) sts (failure s)\<rparr>)
           else areturn ()) (\<lambda>_.
         override_failed_pattern mc c p
           (if complete \<noteq> [] then ''pattern default expression completion failed''
            else ''pattern did not consume the complete input''))))"

definition match_one_pattern ::
    "('e, 'x) matcher \<Rightarrow> pattern_candidate \<Rightarrow> match_pattern \<Rightarrow> ('e, 'x candidate_match option) engine_action" where
  "match_one_pattern mc c p =
     abind (if pattern_contains_regex (elements (parsed p))
         then call_env mc HookFailure (allows_regex (ops mc) (candidate_kind c) (registration_id c) (pattern_index p))
         else areturn True) (\<lambda>allowed.
     if \<not> allowed then areturn None
     else abind (set_current c (Some p)) (\<lambda>_.
       abind (scope_before mc PatternScope) (\<lambda>before. case before of
         ScopeFailed \<Rightarrow> override_failed_pattern mc c p ''pattern hook rejected the pattern''
       | ScopeMatched r \<Rightarrow>
           if r = trim mc then
             abind (synthetic_match mc c p) (\<lambda>found. case found of
               None \<Rightarrow> override_failed_pattern mc c p ''pattern default expression completion failed''
             | Some value \<Rightarrow> close_pattern mc r value)
           else match_pattern_natively mc c p
       | ScopeContinue \<Rightarrow> match_pattern_natively mc c p)))"

fun match_patterns ::
    "('e, 'x) matcher \<Rightarrow> pattern_candidate \<Rightarrow> match_pattern list \<Rightarrow> ('e, 'x candidate_match option) engine_action" where
  "match_patterns mc c [] = areturn None"
| "match_patterns mc c (p # ps) =
     abind (match_one_pattern mc c p) (\<lambda>found. case found of
       Some m \<Rightarrow> areturn (Some m)
     | None \<Rightarrow> match_patterns mc c ps)"

subsection \<open>One candidate\<close>

definition synthetic_if ::
    "('e, 'x) matcher \<Rightarrow> pattern_candidate \<Rightarrow> scope_decision \<Rightarrow> ('e, 'x candidate_match option) engine_action" where
  "synthetic_if mc c after =
     (if after = ScopeMatched (trim mc) then first_synthetic mc c (patterns c) else areturn None)"

definition keep_if_after_matched ::
    "('e, 'x) matcher \<Rightarrow> hook_scope \<Rightarrow> text_range \<Rightarrow> 'x candidate_match option \<Rightarrow> ('e, 'x candidate_match option) engine_action" where
  "keep_if_after_matched mc scope r value =
     abind (scope_after_matched mc scope r) (\<lambda>accepted. areturn (if accepted then value else None))"

text \<open>The registration hook after a failure overrides it: the definition hook has the last word.\<close>

definition registration_override ::
    "('e, 'x) matcher \<Rightarrow> pattern_candidate \<Rightarrow> scope_decision \<Rightarrow> str \<Rightarrow> ('e, 'x candidate_match option) engine_action" where
  "registration_override mc c after reason =
     (if after = ScopeMatched (trim mc) then
        abind (first_synthetic mc c (patterns c)) (\<lambda>value.
        if value = None then
          abind (scope_after_failed mc DefinitionScope ''registration override has no valid completed pattern'') (\<lambda>_. areturn None)
        else keep_if_after_matched mc DefinitionScope (trim mc) value)
      else abind (scope_after_failed mc DefinitionScope reason) (synthetic_if mc c))"

text \<open>The hooks after a match of the candidate.\<close>

definition close_registration ::
    "('e, 'x) matcher \<Rightarrow> text_range \<Rightarrow> 'x candidate_match \<Rightarrow> ('e, 'x candidate_match option) engine_action" where
  "close_registration mc r value =
     abind (scope_after_matched mc RegistrationScope r) (\<lambda>accepted.
     if accepted then keep_if_after_matched mc DefinitionScope r (Some value)
     else abind (scope_after_failed mc DefinitionScope ''registration hook rejected the candidate after matching'') (\<lambda>after.
       areturn (if after = ScopeMatched (trim mc) then Some value else None)))"

definition match_registered_patterns ::
    "('e, 'x) matcher \<Rightarrow> pattern_candidate \<Rightarrow> ('e, 'x candidate_match option) engine_action" where
  "match_registered_patterns mc c =
     abind (match_patterns mc c (patterns c)) (\<lambda>found.
     abind (set_current c (case found of None \<Rightarrow> None
       | Some m \<Rightarrow> find (\<lambda>p. pattern_index p = cm_pattern_index m) (patterns c))) (\<lambda>_.
     case found of
       Some m \<Rightarrow> close_registration mc (trim mc) m
     | None \<Rightarrow>
         abind (scope_after_failed mc RegistrationScope ''no registered pattern matched'') (\<lambda>after.
         registration_override mc c after ''no registered pattern matched'')))"

definition match_registration ::
    "('e, 'x) matcher \<Rightarrow> pattern_candidate \<Rightarrow> ('e, 'x candidate_match option) engine_action" where
  "match_registration mc c =
     abind (scope_before mc RegistrationScope) (\<lambda>before. case before of
       ScopeFailed \<Rightarrow>
         abind (scope_after_failed mc RegistrationScope ''registration hook rejected the candidate'') (\<lambda>after.
         registration_override mc c after ''registration hook rejected the candidate'')
     | ScopeMatched r \<Rightarrow>
         if r = trim mc then
           abind (first_synthetic mc c (patterns c)) (\<lambda>found. case found of
             None \<Rightarrow>
               abind (scope_after_failed mc RegistrationScope ''registration hook matched a candidate without patterns'') (\<lambda>_.
               abind (scope_after_failed mc DefinitionScope ''registration hook matched a candidate without patterns'') (\<lambda>_.
               areturn None))
           | Some value \<Rightarrow> close_registration mc r value)
         else match_registered_patterns mc c
     | ScopeContinue \<Rightarrow> match_registered_patterns mc c)"

definition match_candidate ::
    "('e, 'x) matcher \<Rightarrow> pattern_candidate \<Rightarrow> ('e, 'x candidate_match option) engine_action" where
  "match_candidate mc c =
     abind (set_current c None) (\<lambda>_.
     abind (scope_before mc DefinitionScope) (\<lambda>before. case before of
       ScopeFailed \<Rightarrow>
         abind (scope_after_failed mc DefinitionScope ''definition hook rejected the candidate'') (synthetic_if mc c)
     | ScopeMatched r \<Rightarrow>
         if r = trim mc then
           abind (first_synthetic mc c (patterns c)) (\<lambda>found.
           if found = None then
             abind (scope_after_failed mc DefinitionScope ''definition hook matched a candidate without patterns'') (\<lambda>_. areturn None)
           else keep_if_after_matched mc DefinitionScope r found)
         else match_registration mc c
     | ScopeContinue \<Rightarrow> match_registration mc c))"

subsection \<open>All candidates\<close>

definition tracker_failure :: "('e, 'x) matcher \<Rightarrow> failure_tracker \<Rightarrow> (match_error, pattern_failure) outcome" where
  "tracker_failure mc t =
     obind (map_input mc (case tracker_range t of Some r \<Rightarrow> r | None \<Rightarrow> range_empty (tracker_offset t))) (\<lambda>span.
     Ret \<lparr>failure_span = span, failure_reasons = tracker_reasons t\<rparr>)"

definition tracker_trace :: "failure_tracker \<Rightarrow> pattern_failure \<Rightarrow> failure_trace" where
  "tracker_trace t f = FailureTrace f (tracker_frame t) (tracker_cause t) []"

definition kind_order :: "pattern_candidate list \<Rightarrow> match_syntax_kind list" where
  "kind_order cs = extend_unique [] (map candidate_kind cs)"

fun position :: "'a \<Rightarrow> 'a list \<Rightarrow> nat" where
  "position x [] = 0"
| "position x (y # ys) = (if x = y then 0 else Suc (position x ys))"

text \<open>The key by which candidates are ordered; a missing resolved order comes last.\<close>

definition registry_key :: "nat option \<Rightarrow> int \<Rightarrow> nat \<Rightarrow> bool \<times> nat \<times> int \<times> nat" where
  "registry_key resolved prio order = (resolved = None, (case resolved of None \<Rightarrow> u64_max | Some n \<Rightarrow> n), prio, order)"

definition rank_candidates :: "pattern_candidate list \<Rightarrow> pattern_candidate list" where
  "rank_candidates cs = map snd (sort_key (\<lambda>(i, c).
     (position (candidate_kind c) (kind_order cs), registry_key (resolved_order c) (priority c) (registration_order c), i))
     (enumerate 0 cs))"

definition structural_failure ::
    "('e, 'x) matcher \<Rightarrow> pattern_candidate \<Rightarrow> failure_tracker \<Rightarrow> (match_error, candidate_failure) outcome" where
  "structural_failure mc c t =
     obind (tracker_failure mc t) (\<lambda>f.
     Ret \<lparr>cf_kind = candidate_kind c, cf_definition_id = definition_id c, cf_registration_id = registration_id c,
       cf_priority = priority c, cf_registration_order = registration_order c, cf_resolved_order = resolved_order c,
       cf_literal_anchor = True, cf_pattern_index = map_option frame_pattern_index (tracker_frame t),
       cf_pattern = map_option frame_pattern (tracker_frame t), cf_trace = tracker_trace t f, cf_related = []\<rparr>)"

definition recovered_failure :: "pattern_candidate \<Rightarrow> 'x candidate_match \<Rightarrow> failure_trace \<Rightarrow> failure_trace list \<Rightarrow> candidate_failure" where
  "recovered_failure c m trace related =
     \<lparr>cf_kind = cm_kind m, cf_definition_id = cm_definition_id m, cf_registration_id = cm_registration_id m,
      cf_priority = cm_priority m, cf_registration_order = cm_registration_order m, cf_resolved_order = resolved_order c,
      cf_literal_anchor = cm_literal_anchor m, cf_pattern_index = Some (cm_pattern_index m), cf_pattern = Some (cm_pattern m),
      cf_trace = trace, cf_related = related\<rparr>"

record 'x ranked_state =
  found_matches :: "'x candidate_match list"
  aggregate_failure :: failure_tracker
  candidate_failures :: "candidate_failure list"

definition structural_failures ::
    "('e, 'x) matcher \<Rightarrow> pattern_candidate \<Rightarrow> 'x candidate_match option \<Rightarrow> failure_tracker \<Rightarrow>
     (match_error, candidate_failure list) outcome" where
  "structural_failures mc c found t =
     (if found = None \<and> initialized t \<and> tracker_offset t > range_start (trim mc) \<and>
         candidate_has_literal_anchor (lower mc) c (text_of mc) (trim mc)
      then obind (structural_failure mc c t) (\<lambda>f. Ret [f]) else Ret [])"

definition rank_step ::
    "('e, 'x) matcher \<Rightarrow> pattern_candidate \<Rightarrow> 'x ranked_state \<Rightarrow> ('e, 'x ranked_state) engine_action" where
  "rank_step mc c acc =
     abind (check_cancelled mc) (\<lambda>_.
     abind (amodify (\<lambda>s. s\<lparr>failure := tracker_new\<rparr>)) (\<lambda>_.
     abind (match_candidate mc c) (\<lambda>found.
     abind (aget failure) (\<lambda>t.
     abind (amodify (\<lambda>s. s\<lparr>failure := tracker_new\<rparr>)) (\<lambda>_.
     abind (alift (structural_failures mc c found t)) (\<lambda>fs.
     let acc = acc\<lparr>candidate_failures := candidate_failures acc @ fs,
           aggregate_failure := merge_failure (aggregate_failure acc) t\<rparr> in
     case found of
       None \<Rightarrow> areturn acc
     | Some m \<Rightarrow>
         abind (in_env (\<lambda>e. case take_candidate_state (ops mc) e of (x, e) \<Rightarrow> (Ret x, e))) (\<lambda>x.
         let m = m\<lparr>cm_extension_state := x\<rparr> in
         areturn (case pm_recovered (cm_matched m) of
           [] \<Rightarrow> acc\<lparr>found_matches := found_matches acc @ [m]\<rparr>
         | trace # related \<Rightarrow>
             acc\<lparr>candidate_failures := candidate_failures acc @ [recovered_failure c m trace related]\<rparr>))))))))"

fun rank_loop ::
    "('e, 'x) matcher \<Rightarrow> pattern_candidate list \<Rightarrow> 'x ranked_state \<Rightarrow> ('e, 'x ranked_state) engine_action" where
  "rank_loop mc [] acc = areturn acc"
| "rank_loop mc (c # cs) acc = abind (rank_step mc c acc) (rank_loop mc cs)"

text \<open>The order of the failures: actionable first, then the order of the registry.\<close>

definition compare_candidate_failure :: "candidate_failure \<Rightarrow> candidate_failure \<Rightarrow> comp" where
  "compare_candidate_failure a b =
     then_with (compare_failure_trace_rank (cf_trace a) (cf_trace b))
       (cmp (registry_key (cf_resolved_order a) (cf_priority a) (cf_registration_order a))
         (registry_key (cf_resolved_order b) (cf_priority b) (cf_registration_order b)))"

lift_definition candidate_failure_comparator :: "candidate_failure comparator" is compare_candidate_failure
  unfolding compare_candidate_failure_def
  by (intro comparator_then comparator_cmp comparator_key [OF comparator_trace_rank])

definition match_in_environment ::
    "('e, 'x) matcher \<Rightarrow> pattern_candidate list \<Rightarrow> ('e, 'x candidate_matches) engine_action" where
  "match_in_environment mc cs =
     abind (rank_loop mc (rank_candidates cs) \<lparr>found_matches = [], aggregate_failure = tracker_new, candidate_failures = []\<rparr>) (\<lambda>acc.
     let t = aggregate_failure acc in
     abind (alift (if found_matches acc = [] \<and> initialized t
         then obind (tracker_failure mc t) (\<lambda>f. Ret (Some (tracker_trace t f))) else Ret None)) (\<lambda>fb.
     areturn \<lparr>selected = (case found_matches acc of [] \<Rightarrow> None | m # _ \<Rightarrow> Some m),
       other_matches = tl (found_matches acc),
       failures = \<lparr>fallback = fb, candidates = take (max_candidate_failures (config mc))
         (Sorting_Algorithms.sort candidate_failure_comparator (candidate_failures acc))\<rparr>\<rparr>))"

definition matcher_for ::
    "('e, 'x) match_environment \<Rightarrow> regex_builder \<Rightarrow> lower_table \<Rightarrow> matcher_config \<Rightarrow> match_input \<Rightarrow> ('e, 'x) matcher" where
  "matcher_for env_ops build low cfg inp = \<lparr>ops = env_ops, build_regex = build, lower = low, config = cfg, match_text = inp,
     trim = java_trim_range (input_text inp)\<rparr>"

definition engine_new :: "'e \<Rightarrow> 'e engine" where
  "engine_new e = \<lparr>environment = e, failure = tracker_new, states = 0, backtracks = 0, regex_executions = 0,
     regex_evaluated_bytes = 0, transitions = Map.empty, regexes = Map.empty, current = None\<rparr>"

definition run_engine :: "('e, 'a) engine_action \<Rightarrow> ('e, match_error, 'a) action" where
  "run_engine m e = (case m (engine_new e) of (r, s) \<Rightarrow> (r, environment s))"

definition match_with_environment ::
    "('e, 'x) match_environment \<Rightarrow> regex_builder \<Rightarrow> lower_table \<Rightarrow> matcher_config \<Rightarrow> match_input \<Rightarrow> pattern_candidate list \<Rightarrow>
     ('e, match_error, 'x candidate_matches) action" where
  "match_with_environment env_ops build low cfg inp cs =
     abind (alift (validate_config cfg)) (\<lambda>_.
     abind (env_cancelled env_ops) (\<lambda>_.
     abind (env_run env_ops HookFailure (begin_match env_ops)) (\<lambda>_.
     abind (acatch (run_engine (match_in_environment (matcher_for env_ops build low cfg inp) cs))) (\<lambda>result.
     abind (env_run env_ops HookFailure (finish_match env_ops
       (case result of Inl _ \<Rightarrow> False | Inr m \<Rightarrow> selected m \<noteq> None))) (\<lambda>_.
     alift (case result of Inl err \<Rightarrow> Fail err | Inr m \<Rightarrow> Ret m))))))"

definition match_pattern_candidates ::
    "(type_request \<Rightarrow> ('r, type_outcome) env_op) \<Rightarrow> 'h match_hooks \<Rightarrow> regex_builder \<Rightarrow> lower_table \<Rightarrow> matcher_config \<Rightarrow>
     match_input \<Rightarrow> pattern_candidate list \<Rightarrow> ('r \<times> 'h, match_error, 'x candidate_matches) action" where
  "match_pattern_candidates resolve hooks = match_with_environment (split_environment resolve hooks)"

end
