(* ===== verification/Match_Logic.thy ===== *)
theory Match_Logic
  imports Match_Candidates
begin

text \<open>
  A Hoare logic for the actions of the matcher.  \<open>runs P m Q E\<close>: from every state in \<open>P\<close> the action
  does not panic, ends in \<open>Q\<close> with its result, or in \<open>E\<close> with its error.  The collection \<open>runs_intro\<close>
  holds the rules for the operations all proofs share.
\<close>

named_theorems runs_intro \<open>rules of the logic of actions\<close>

definition runs :: "('s \<Rightarrow> bool) \<Rightarrow> ('s, 'e, 'a) action \<Rightarrow> ('a \<Rightarrow> 's \<Rightarrow> bool) \<Rightarrow> ('e \<Rightarrow> 's \<Rightarrow> bool) \<Rightarrow> bool" where
  "runs P m Q E \<longleftrightarrow> (\<forall>s. P s \<longrightarrow> (case m s of (Ret x, t) \<Rightarrow> Q x t | (Fail e, t) \<Rightarrow> E e t | (Panic, t) \<Rightarrow> False))"

lemma runsI: "(\<And>s. P s \<Longrightarrow> (case m s of (Ret x, t) \<Rightarrow> Q x t | (Fail e, t) \<Rightarrow> E e t | (Panic, t) \<Rightarrow> False)) \<Longrightarrow> runs P m Q E"
  by (simp add: runs_def)

lemma runsD:
  assumes "runs P m Q E" and "P s"
  shows "m s = (Ret x, t) \<Longrightarrow> Q x t" "m s = (Fail e, t) \<Longrightarrow> E e t" "m s \<noteq> (Panic, t)"
  using assms by (auto simp: runs_def split: prod.splits outcome.splits)

lemma runs_conseq:
  "runs P' m Q' E' \<Longrightarrow> (\<And>s. P s \<Longrightarrow> P' s) \<Longrightarrow> (\<And>x s. Q' x s \<Longrightarrow> Q x s) \<Longrightarrow> (\<And>e s. E' e s \<Longrightarrow> E e s) \<Longrightarrow> runs P m Q E"
  by (fastforce simp: runs_def split: prod.splits outcome.splits)

lemma runs_post: "runs P m Q' E \<Longrightarrow> (\<And>x s. Q' x s \<Longrightarrow> Q x s) \<Longrightarrow> runs P m Q E"
  by (rule runs_conseq)

lemma runs_pre: "runs P' m Q E \<Longrightarrow> (\<And>s. P s \<Longrightarrow> P' s) \<Longrightarrow> runs P m Q E"
  by (rule runs_conseq)

lemma runs_conj: "runs P m Q E \<Longrightarrow> runs P m Q' E \<Longrightarrow> runs P m (\<lambda>x s. Q x s \<and> Q' x s) E"
  by (fastforce simp: runs_def split: prod.splits outcome.splits)

text \<open>A fact about no state in the precondition is an assumption.\<close>

lemma runs_fact: "(\<phi> \<Longrightarrow> runs P m Q E) \<Longrightarrow> runs (\<lambda>s. P s \<and> \<phi>) m Q E"
  by (auto simp: runs_def)

lemma runs_bind: "runs P m R E \<Longrightarrow> (\<And>x. runs (R x) (f x) Q E) \<Longrightarrow> runs P (abind m f) Q E"
  unfolding runs_def abind_def by (fastforce split: prod.splits outcome.splits)

lemma runs_return: "(\<And>s. P s \<Longrightarrow> Q x s) \<Longrightarrow> runs P (areturn x) Q E"
  by (simp add: runs_def)

lemma runs_lift:
  "(\<And>s x. P s \<Longrightarrow> r = Ret x \<Longrightarrow> Q x s) \<Longrightarrow> (\<And>s e. P s \<Longrightarrow> r = Fail e \<Longrightarrow> E e s) \<Longrightarrow> (\<And>s. P s \<Longrightarrow> r \<noteq> Panic) \<Longrightarrow>
   runs P (alift r) Q E"
  by (cases r) (auto simp: runs_def)

lemma runs_modify: "(\<And>s. P s \<Longrightarrow> Q () (f s)) \<Longrightarrow> runs P (amodify f) Q E"
  by (simp add: runs_def amodify_def)

lemma runs_get: "(\<And>s. P s \<Longrightarrow> Q (f s) s) \<Longrightarrow> runs P (aget f) Q E"
  by (simp add: runs_def aget_def)

text \<open>Reading a component whose value the precondition fixes.\<close>

lemma runs_get_known: "(\<And>s. P s \<Longrightarrow> f s = v) \<Longrightarrow> runs P (k v) Q E \<Longrightarrow> runs P (abind (aget f) k) Q E"
  by (auto simp: runs_def abind_def aget_def)

lemma runs_lift_known: "r = Ret v \<Longrightarrow> runs P (k v) Q E \<Longrightarrow> runs P (abind (alift r) k) Q E"
  by (auto simp: runs_def abind_def)

lemma runs_option:
  "(x = None \<Longrightarrow> runs P m Q E) \<Longrightarrow> (\<And>y. x = Some y \<Longrightarrow> runs P (f y) Q E) \<Longrightarrow> runs P (case x of None \<Rightarrow> m | Some y \<Rightarrow> f y) Q E"
  by (cases x) auto

lemma runs_if: "(b \<Longrightarrow> runs P m Q E) \<Longrightarrow> (\<not> b \<Longrightarrow> runs P n Q E) \<Longrightarrow> runs P (if b then m else n) Q E"
  by simp

lemma runs_control:
  "(c = Continue \<Longrightarrow> runs P m Q E) \<Longrightarrow> (\<And>r. c = MatchTo r \<Longrightarrow> runs P (f r) Q E) \<Longrightarrow> (\<And>s. c = Reject s \<Longrightarrow> runs P (g s) Q E) \<Longrightarrow>
   runs P (case c of Continue \<Rightarrow> m | MatchTo r \<Rightarrow> f r | Reject s \<Rightarrow> g s) Q E"
  by (cases c) auto

lemma runs_amap:
  assumes "\<And>x. x \<in> set xs \<Longrightarrow> runs I (f x) (\<lambda>y s. I s \<and> R x y) E"
  shows "runs I (amap f xs) (\<lambda>ys s. I s \<and> list_all2 R xs ys) E"
  using assms
proof (induction xs)
  case Nil
  show ?case unfolding amap.simps by (rule runs_return) simp
next
  case (Cons x xs)
  show ?case unfolding amap.simps
    by (rule runs_bind [OF Cons.prems [of x]], simp, rule runs_fact,
        rule runs_bind [OF Cons.IH], rule Cons.prems, simp, rule runs_fact, rule runs_return) simp
qed

lemma runs_aconcat:
  assumes "\<And>x. x \<in> set xs \<Longrightarrow> runs I (f x) (\<lambda>ys s. I s \<and> R x ys) E"
  shows "runs I (aconcat f xs) (\<lambda>ys s. I s \<and> (\<exists>yss. list_all2 R xs yss \<and> ys = concat yss)) E"
  unfolding aconcat_def by (rule runs_bind [OF runs_amap [OF assms]], assumption) (auto intro: runs_return)

text \<open>The same for a set of results.\<close>

lemma concat_list_all2_set:
  assumes "list_all2 (\<lambda>x ys. set ys = {y. R x y}) xs yss"
  shows "set (concat yss) = {y. \<exists>x \<in> set xs. R x y}"
  using assms by (induction rule: list_all2_induct) auto

lemma concat_list_all2_all:
  assumes "list_all2 (\<lambda>x ys. \<forall>y \<in> set ys. R x y) xs yss"
  shows "\<forall>y \<in> set (concat yss). \<exists>x \<in> set xs. R x y"
  using assms by (induction rule: list_all2_induct) auto

subsection \<open>Parts of the engine that a step leaves alone\<close>

text \<open>An assertion that sees neither the environment nor the recorded failure nor the counters.\<close>

definition stable :: "('e engine \<Rightarrow> bool) \<Rightarrow> bool" where
  "stable I \<longleftrightarrow> (\<forall>s. I s \<longrightarrow> (\<forall>e. I (s\<lparr>environment := e\<rparr>)) \<and> (\<forall>t. I (s\<lparr>failure := t\<rparr>)) \<and> (\<forall>n. I (s\<lparr>states := n\<rparr>)) \<and>
     (\<forall>n. I (s\<lparr>backtracks := n\<rparr>)) \<and> (\<forall>n. I (s\<lparr>regex_executions := n\<rparr>)) \<and> (\<forall>n. I (s\<lparr>regex_evaluated_bytes := n\<rparr>)))"

lemma stableD:
  assumes "stable I" and "I s"
  shows "I (s\<lparr>environment := e\<rparr>)" "I (s\<lparr>failure := t\<rparr>)" "I (s\<lparr>states := n\<rparr>)" "I (s\<lparr>backtracks := n\<rparr>)"
    "I (s\<lparr>regex_executions := n\<rparr>)" "I (s\<lparr>regex_evaluated_bytes := n\<rparr>)"
  using assms by (auto simp: stable_def)

subsection \<open>Errors\<close>

text \<open>
  An environment is quiet if none of its operations fails and it never cancels.  The errors of the
  matcher itself come from limits, ranges and regular expressions; all others need the environment.
\<close>

definition never_fails :: "('e, 'a) env_op \<Rightarrow> bool" where
  "never_fails call \<longleftrightarrow> (\<forall>e. \<not> isl (fst (call e)))"

definition quiet :: "('e, 'x) match_environment \<Rightarrow> bool" where
  "quiet env_ops \<longleftrightarrow> (\<forall>e. \<not> fst (cancellation_requested env_ops e)) \<and>
     (\<forall>c p m. never_fails (complete_typed_captures env_ops c p m)) \<and> (\<forall>r. never_fails (select_resolution env_ops r)) \<and>
     never_fails (begin_match env_ops) \<and> (\<forall>b. never_fails (finish_match env_ops b)) \<and>
     never_fails (checkpoint_branch env_ops) \<and> (\<forall>n. never_fails (restore_branch env_ops n)) \<and>
     (\<forall>k r i. never_fails (allows_regex env_ops k r i)) \<and> (\<forall>req. never_fails (resolve_type env_ops req)) \<and>
     (\<forall>ev. never_fails (env_dispatch env_ops ev))"

definition intrinsic :: "match_error \<Rightarrow> bool" where
  "intrinsic err = (case err of
     Cancelled \<Rightarrow> False | ExtensionFault _ \<Rightarrow> False | TypeResolverFailure _ _ \<Rightarrow> False | HookFailure _ \<Rightarrow> False | _ \<Rightarrow> True)"

lemma intrinsic_simps [simp]:
  "intrinsic InvalidConfiguration" "intrinsic (InvalidInputRange r)" "intrinsic (SourceMapFailure x)" "intrinsic (InvalidRegex sp m)"
  "intrinsic (LimitExceeded k n)" "intrinsic (InvalidTypeResolution r)"
  by (simp_all add: intrinsic_def)

definition tolerant :: "('e, 'x) match_environment \<Rightarrow> (match_error \<Rightarrow> bool) \<Rightarrow> bool" where
  "tolerant env_ops E \<longleftrightarrow> (\<forall>err. intrinsic err \<longrightarrow> E err) \<and> (quiet env_ops \<or> (\<forall>err. E err))"

lemma tolerant_intrinsic: "tolerant env_ops E \<Longrightarrow> intrinsic err \<Longrightarrow> E err"
  by (simp add: tolerant_def)

subsection \<open>Steps that keep every stable assertion\<close>

lemma runs_call_env:
  assumes "tolerant (ops mc) E" and "stable I" and "quiet (ops mc) \<Longrightarrow> never_fails call"
  shows "runs I (call_env mc mk call) (\<lambda>_. I) (\<lambda>err _. E err)"
  using assms unfolding tolerant_def never_fails_def runs_def in_env_def env_run_def
  by (auto split: prod.splits sum.splits intro: stableD) (metis fst_conv isl_def)+

lemma runs_cancelled:
  "tolerant (ops mc) E \<Longrightarrow> stable I \<Longrightarrow> runs I (check_cancelled mc) (\<lambda>_. I) (\<lambda>err _. E err)"
  by (auto simp: runs_def check_cancelled_def in_env_def env_cancelled_def tolerant_def quiet_def
      split: prod.splits intro: stableD) (metis fst_conv)+

lemma runs_record_at: "stable I \<Longrightarrow> runs I (record_at off reason) (\<lambda>_. I) E"
  by (auto simp: record_at_def intro!: runs_modify intro: stableD)

lemma runs_checkpoint: "tolerant (ops mc) E \<Longrightarrow> stable I \<Longrightarrow> runs I (checkpoint mc) (\<lambda>_. I) (\<lambda>err _. E err)"
  unfolding checkpoint_def by (rule runs_call_env) (auto simp: quiet_def)

lemma runs_restore: "tolerant (ops mc) E \<Longrightarrow> stable I \<Longrightarrow> runs I (restore_to mc saved) (\<lambda>_. I) (\<lambda>err _. E err)"
  unfolding restore_to_def by (rule runs_option) (auto intro: runs_call_env runs_return simp: quiet_def)

lemma runs_counted:
  assumes "tolerant env_ops E" and "\<And>s. I s \<Longrightarrow> I (upd s)" and "runs I m Q (\<lambda>err _. E err)"
  shows "runs I (abind (amodify upd) (\<lambda>_. abind (aget fld) (\<lambda>n.
    if n > limit then alift (Fail (LimitExceeded k limit)) else m))) Q (\<lambda>err _. E err)"
proof (rule runs_bind [OF runs_modify [where Q = "\<lambda>_. I"]])
  show "I (upd s)" if "I s" for s using assms(2) that .
  have "runs I (if n > limit then alift (Fail (LimitExceeded k limit)) else m) Q (\<lambda>err _. E err)" for n
    using assms(3) tolerant_intrinsic [OF assms(1)] by (auto intro: runs_lift)
  then show "runs I (abind (aget fld) (\<lambda>n. if n > limit then alift (Fail (LimitExceeded k limit)) else m)) Q (\<lambda>err _. E err)" for x :: unit
    by (intro runs_bind [OF runs_get [where Q = "\<lambda>_. I"]])
qed

lemma runs_visit: "tolerant (ops mc) E \<Longrightarrow> stable I \<Longrightarrow> runs I (visit_state mc) (\<lambda>_. I) (\<lambda>err _. E err)"
  unfolding visit_state_def
  by (rule runs_bind [OF runs_cancelled], assumption, assumption, rule runs_counted, assumption)
    (auto intro: stableD runs_return)

lemma runs_backtracks: "tolerant (ops mc) E \<Longrightarrow> stable I \<Longrightarrow> runs I (add_backtracks mc n) (\<lambda>_. I) (\<lambda>err _. E err)"
  unfolding add_backtracks_def by (rule runs_counted) (auto intro: stableD runs_return)

definition same_but_checkpoint :: "match_state \<Rightarrow> match_state \<Rightarrow> bool" where
  "same_but_checkpoint st st' \<longleftrightarrow> st' = st\<lparr>extension_checkpoint := extension_checkpoint st'\<rparr>"

lemma runs_with_checkpoint:
  assumes "tolerant (ops mc) E" and "stable I"
  shows "runs I (with_checkpoint mc st) (\<lambda>st' s. I s \<and> same_but_checkpoint st st') (\<lambda>err _. E err)"
  unfolding with_checkpoint_def
  by (rule runs_bind [OF runs_checkpoint [OF assms]], rule runs_return) (auto simp: same_but_checkpoint_def split: option.split)

lemma map_input_intrinsic: "map_input mc r = Fail err \<Longrightarrow> intrinsic err"
  by (auto simp: map_input_def input_map_range_def outcome_simps split: if_splits input_mapping.splits)

text \<open>A hook is dispatched for the current candidate, whose input range maps.\<close>

lemma runs_dispatch:
  assumes "tolerant (ops mc) E" and "stable I" and "\<And>s. I s \<Longrightarrow> current s \<noteq> None" and "map_input mc r \<noteq> Panic"
  shows "runs I (dispatch_hook mc scope timing path sp r outcome) (\<lambda>_. I) (\<lambda>err _. E err)"
proof -
  have err: "map_input mc r = Fail e \<Longrightarrow> E e" for e
    using tolerant_intrinsic [OF assms(1)] map_input_intrinsic by blast
  show ?thesis unfolding dispatch_hook_def
    apply (rule runs_bind [OF runs_get [where Q = "\<lambda>c s. I s \<and> c \<noteq> None"]])
     apply (simp add: assms(3))
    apply (rule runs_fact)
    apply (rule runs_bind [OF runs_lift [where Q = "\<lambda>_. I"]])
       apply (auto simp: outcome_simps) [3]
    apply (rule runs_bind [OF runs_lift [where Q = "\<lambda>_. I"]])
       apply (use assms(4) err in auto) [3]
    by (rule runs_call_env [OF assms(1,2)]) (simp add: quiet_def)
qed

end
