(* ===== verification/Match_Lexical.thy ===== *)
theory Match_Lexical
  imports Match_Scan Pattern_Grammar
begin

text \<open>
  The scanners of \<open>Match_Scan\<close> stay on character boundaries of a valid string: literals end on one,
  split points lie on them and increase, and a literal may be matched in pieces.
\<close>

subsection \<open>One character\<close>

lemma next_charD:
  assumes ok: "utf8_ok input" and n: "next_char input cursor end = Some (c, w)"
  shows "is_char_boundary input cursor" "cursor < end" "end \<le> length input" "0 < w" "cursor + w \<le> end"
    "is_char_boundary input (cursor + w)" "c = decode_char (drop cursor input)"
    "c < 128 \<longleftrightarrow> byte (input ! cursor) < 128" "\<And>x. c = byte x \<Longrightarrow> byte x < 128 \<Longrightarrow> w = 1 \<and> input ! cursor = x"
proof -
  obtain a t where sl: "str_slice (range_new cursor end) input = Some (a # t)" and c: "c = decode_char (a # t)" "w = char_width a"
    using n by (auto simp: next_char_def split: option.splits list.splits)
  note v = str_slice_SomeD [OF sl]
  have b: "is_char_boundary input cursor" "is_char_boundary input end" "cursor \<le> end" "end \<le> length input"
    using v(1) by (auto simp: is_valid_for_def)
  have s: "a # t = take (end - cursor) (drop cursor input)" using v(2) by (simp add: range_len_def)
  have oks: "utf8_ok (a # t)" by (rule str_slice_utf8_ok [OF ok sl])
  then obtain k where k: "utf8_step (a # t) = Some k" "utf8_ok (drop k (a # t))" using utf8_ok_step [of "a # t"] by auto
  have w: "w = k" using k(1) c(2) utf8_step_char_width by simp
  note st = utf8_step_Some [OF k(1)]
  have len: "length (a # t) = end - cursor" using v(3) by (simp add: range_len_def)
  have kb: "is_char_boundary (a # t) k"
    using boundary_append [OF k(2), of "take k (a # t)" 0] st(2) by simp
  have pref: "decode_char (drop cursor input) = decode_char (a # t)"
    using decode_char_append [OF k(1), of "drop (end - cursor) (drop cursor input)"] unfolding s append_take_drop_id .
  have lt: "cursor < end" using len by (cases "end - cursor") auto
  have d: "drop cursor input = input ! cursor # drop (Suc cursor) input" using lt b(4) by (simp add: Cons_nth_drop_Suc)
  then have a: "a = input ! cursor" using s lt by (cases "end - cursor") auto
  show "is_char_boundary input cursor" "cursor < end" "end \<le> length input" "c = decode_char (drop cursor input)"
    using b lt c pref by auto
  show "0 < w" using st w by simp
  show we: "cursor + w \<le> end" using st(2) len w lt by simp
  have "is_char_boundary (drop cursor input) k"
    using kb boundary_take [of "drop cursor input" "end - cursor" k] boundary_drop [OF b(1), of "end - cursor"] b(2,3) st(2) len
    unfolding s by simp
  then show "is_char_boundary input (cursor + w)" using boundary_drop [OF b(1)] w by simp
  show c128: "c < 128 \<longleftrightarrow> byte (input ! cursor) < 128" using decode_char_lead [OF k(1)] c(1) a by simp
  show "w = 1 \<and> input ! cursor = x" if "c = byte x" "byte x < 128" for x
  proof -
    have w1: "w = 1" "c = byte (input ! cursor)" using c128 c a that by (simp_all add: char_width_def decode_char_def)
    then have "byte x = (byte (input ! cursor) :: nat)" using that by simp
    then show ?thesis using w1 by (simp only: of_char_eq_iff)
  qed
qed

lemma next_charI:
  assumes ok: "utf8_ok input" and b: "is_char_boundary input cursor" "is_char_boundary input end" "cursor < end"
  obtains c w where "next_char input cursor end = Some (c, w)"
proof -
  have v: "is_valid_for (range_new cursor end) input" using b boundary_le [OF b(2)] by (simp add: is_valid_for_def)
  then obtain s where s: "str_slice (range_new cursor end) input = Some s" using str_slice_Some_iff by blast
  then have "length s = end - cursor" using str_slice_SomeD(3) [OF s] by (simp add: range_len_def)
  then obtain a t where "s = a # t" using b(3) by (cases s) auto
  then show thesis using s that by (simp add: next_char_def)
qed

text \<open>An ASCII byte is a character of its own.\<close>

lemma byte_is_boundary:
  assumes "utf8_ok input" and "byte_is input i a" and "byte a < 128"
  shows "is_char_boundary input i" "is_char_boundary input (i + 1)" "i < length input"
  using assms boundary_ascii [of i input] boundary_after_ascii [OF assms(1), of i] by (auto simp: byte_is_def)

subsection \<open>Literals\<close>

lemma literal_step_boundary:
  assumes "utf8_ok input" and "is_char_boundary input (range_end rng)" and "literal_step lower input rng cursor c = Some cursor'"
    and "is_char_boundary input cursor" and "cursor \<le> range_end rng"
  shows "is_char_boundary input cursor' \<and> cursor \<le> cursor' \<and> cursor' \<le> range_end rng"
proof (cases "c = byte CHR '' ''")
  case True
  then show ?thesis
    using assms byte_is_boundary(2) [OF assms(1), of cursor "CHR '' ''"]
    by (auto simp: literal_step_def split: if_splits)
next
  case False
  then show ?thesis using assms next_charD [OF assms(1)]
    by (auto simp: literal_step_def split: option.splits if_splits)
qed

lemma literal_loop_boundary:
  assumes "utf8_ok input" and "is_char_boundary input (range_end rng)" and "literal_loop lower input rng cursor cs = Inr stop"
    and "is_char_boundary input cursor" and "cursor \<le> range_end rng"
  shows "is_char_boundary input stop \<and> cursor \<le> stop \<and> stop \<le> range_end rng"
  using assms(3-5)
proof (induction cs arbitrary: cursor)
  case (Cons c cs)
  then obtain k where k: "literal_step lower input rng cursor c = Some k" "literal_loop lower input rng k cs = Inr stop"
    by (auto split: option.splits)
  have kb: "is_char_boundary input k \<and> cursor \<le> k \<and> k \<le> range_end rng"
    by (rule literal_step_boundary [OF assms(1,2) k(1) Cons.prems(2,3)])
  then show ?case using Cons.IH [OF k(2)] by auto
qed simp

lemma match_literal_boundary:
  assumes "utf8_ok input" and "is_char_boundary input (range_end rng)" and "match_literal_at lower input rng cursor s = Inr stop"
    and "is_char_boundary input cursor" and "cursor \<le> range_end rng"
  shows "is_char_boundary input stop \<and> cursor \<le> stop \<and> stop \<le> range_end rng"
  using literal_loop_boundary [OF assms(1,2) assms(3) [unfolded match_literal_at_def] assms(4,5)] .

lemma literal_loop_append:
  "literal_loop lower input rng cursor (cs @ ds) =
     (case literal_loop lower input rng cursor cs of Inl e \<Rightarrow> Inl e | Inr k \<Rightarrow> literal_loop lower input rng k ds)"
  by (induction cs arbitrary: cursor) (auto split: option.splits)

lemma literal_loop_offset:
  assumes "utf8_ok input" and "is_char_boundary input (range_end rng)" and "literal_loop lower input rng cursor cs = Inl off"
    and "is_char_boundary input cursor" and "cursor \<le> range_end rng"
  shows "is_char_boundary input off \<and> cursor \<le> off \<and> off \<le> range_end rng"
  using assms(3-5)
proof (induction cs arbitrary: cursor)
  case (Cons c cs)
  show ?case
  proof (cases "literal_step lower input rng cursor c")
    case None
    then show ?thesis using Cons.prems by simp
  next
    case (Some k)
    have kb: "is_char_boundary input k \<and> cursor \<le> k \<and> k \<le> range_end rng"
      by (rule literal_step_boundary [OF assms(1,2) Some Cons.prems(2,3)])
    then show ?thesis using Cons.IH [of k] Cons.prems(1) Some by auto
  qed
qed simp

lemma match_literal_append:
  assumes "utf8_ok s"
  shows "match_literal_at lower input rng cursor (s @ t) =
     (case match_literal_at lower input rng cursor s of Inl e \<Rightarrow> Inl e | Inr k \<Rightarrow> match_literal_at lower input rng k t)"
  by (simp add: match_literal_at_def assms literal_loop_append split: sum.split)

lemma match_literal_Nil [simp]: "match_literal_at lower input rng cursor [] = Inr cursor"
  by (simp add: match_literal_at_def)

subsection \<open>Split points\<close>

text \<open>Closing delimiters are ASCII characters.\<close>

lemma quote_end_byte: "utf8_ok input \<Longrightarrow> quote_end input b cursor end = Some q \<Longrightarrow> byte_is input q CHR 0x22"
proof (induction input b cursor "end" rule: quote_end.induct)
  case (1 input b cursor "end")
  from 1(4) obtain c w where c: "next_char input cursor end = Some (c, w)" and lt: "cursor < end"
    by (subst (asm) quote_end.simps) (auto split: if_splits option.splits)
  note d = next_charD [OF 1(3) c]
  show ?case
  proof (cases "c = byte CHR 0x22 \<and> \<not> b")
    case True
    then have "input ! cursor = CHR 0x22" using d(9) [of "CHR 0x22"] by simp
    then show ?thesis using 1(1) [OF lt c refl True _ 1(3)] 1(4) True lt c d(2,3)
      by (subst (asm) quote_end.simps) (auto simp: byte_is_def split: if_splits)
  next
    case False
    have "quote_end input (if c = byte CHR ''%'' then \<not> b else b) (cursor + w) end = Some q"
      using 1(4) lt c False by (subst (asm) quote_end.simps) (simp split: if_splits)
    then show ?thesis using 1(2) [OF lt c refl False 1(3)] by blast
  qed
qed

lemma variable_end_byte: "utf8_ok input \<Longrightarrow> variable_end input n cursor end = Some q \<Longrightarrow> byte_is input q CHR 0x7D"
proof (induction input n cursor "end" rule: variable_end.induct)
  case (1 input n cursor "end")
  from 1(5) obtain c w where c: "next_char input cursor end = Some (c, w)" and lt: "cursor < end"
    by (subst (asm) variable_end.simps) (auto split: if_splits option.splits)
  note d = next_charD [OF 1(4) c]
  consider (op) "c = byte CHR 0x7B" | (close) "c = byte CHR 0x7D" | (other) "c \<noteq> byte CHR 0x7B" "c \<noteq> byte CHR 0x7D" by blast
  then show ?case
  proof cases
    case op
    then show ?thesis using 1(1) [OF lt c refl op 1(4)] 1(5) lt c by (subst (asm) variable_end.simps) simp
  next
    case close
    then have "input ! cursor = CHR 0x7D" using d(9) [of "CHR 0x7D"] by simp
    then show ?thesis using 1(2) [OF lt c refl _ close _ 1(4)] 1(5) close lt c d(2,3)
      by (subst (asm) variable_end.simps) (auto simp: byte_is_def split: if_splits)
  next
    case other
    then show ?thesis using 1(3) [OF lt c refl other 1(4)] 1(5) lt c by (subst (asm) variable_end.simps) simp
  qed
qed

lemma parenthesis_end_byte: "utf8_ok input \<Longrightarrow> parenthesis_end input n cursor end = Some q \<Longrightarrow> byte_is input q CHR '')'' \<and> cursor \<le> q \<and> q < end"
proof (induction input n cursor "end" rule: parenthesis_end.induct)
  case (1 input n cursor "end")
  from 1(7) obtain c w where c: "next_char input cursor end = Some (c, w)" and lt: "cursor < end"
    by (subst (asm) parenthesis_end.simps) (auto split: if_splits option.splits)
  note d = next_charD [OF 1(6) c]
  consider (quote) "c = byte CHR 0x22" | (brace) "c = byte CHR 0x7B" | (op) "c = byte CHR ''(''" | (close) "c = byte CHR '')''"
    | (other) "c \<noteq> byte CHR 0x22" "c \<noteq> byte CHR 0x7B" "c \<noteq> byte CHR ''(''" "c \<noteq> byte CHR '')''" by blast
  then show ?case
  proof cases
    case quote
    with 1(7) lt c obtain k where k: "find_quote_end input (cursor + w) end = Some k" "parenthesis_end input n (k + w) end = Some q"
      by (subst (asm) parenthesis_end.simps) (auto split: option.splits)
    then show ?thesis using 1(1) [OF lt c refl quote k(1) 1(6) k(2)] quote_end_bounds [of input False "cursor + w" "end" k]
      by (simp add: find_quote_end_def)
  next
    case brace
    with 1(7) lt c obtain k where k: "find_variable_end input (cursor + w) end = Some k" "parenthesis_end input n (k + 1) end = Some q"
      by (subst (asm) parenthesis_end.simps) (auto split: option.splits)
    then show ?thesis using 1(2) [OF lt c refl _ brace k(1) 1(6) k(2)] brace variable_end_bounds [of input 0 "cursor + w" "end" k]
      by (simp add: find_variable_end_def)
  next
    case op
    then show ?thesis using 1(3) [OF lt c refl _ _ op 1(6)] 1(7) lt c by (subst (asm) parenthesis_end.simps) simp
  next
    case close
    then have "input ! cursor = CHR '')''" using d(9) [of "CHR '')''"] by simp
    then show ?thesis using 1(4) [OF lt c refl _ _ _ close _ 1(6)] 1(7) close lt c d(2,3)
      by (subst (asm) parenthesis_end.simps) (auto simp: byte_is_def split: if_splits)
  next
    case other
    then show ?thesis using 1(5) [OF lt c refl other 1(6)] 1(7) lt c by (subst (asm) parenthesis_end.simps) simp
  qed
qed

lemma skript_next_boundary:
  assumes "utf8_ok input" and "skript_next input start end = Some k"
  shows "is_char_boundary input k"
proof -
  obtain c w where c: "next_char input start end = Some (c, w)"
    using assms(2) by (auto simp: skript_next_def split: option.splits)
  have "is_char_boundary input (start + w)" using next_charD(6) [OF assms(1) c] .
  then show ?thesis
    using assms(2) c byte_is_boundary(2) [OF assms(1), of "k - 1"] quote_end_byte [OF assms(1), of False "start + w" "end"]
      variable_end_byte [OF assms(1), of 0 "start + w" "end"] parenthesis_end_byte [OF assms(1), of 0 "start + w" "end"]
    by (auto simp: skript_next_def find_quote_end_def find_variable_end_def find_parenthesis_end_def split: if_splits)
qed

text \<open>Split points are character boundaries after the start, in ascending order.\<close>

lemma boundaries_from_sorted:
  assumes "utf8_ok input"
  shows "sorted_wrt (<) (boundaries_from input cursor end) \<and>
    (\<forall>b \<in> set (boundaries_from input cursor end). cursor < b \<and> b \<le> end \<and> is_char_boundary input b)"
  using assms
proof (induction input cursor "end" rule: boundaries_from.induct)
  case (1 input cursor "end")
  show ?case
  proof (cases "cursor < end \<and> (\<exists>k. skript_next input cursor end = Some k \<and> cursor < k \<and> k \<le> end)")
    case True
    then obtain k where k: "cursor < end" "skript_next input cursor end = Some k" "cursor < k" "k \<le> end" by auto
    have e: "boundaries_from input cursor end = k # boundaries_from input k end"
      using k by (subst boundaries_from.simps) simp
    have IH: "sorted_wrt (<) (boundaries_from input k end) \<and>
        (\<forall>b \<in> set (boundaries_from input k end). k < b \<and> b \<le> end \<and> is_char_boundary input b)"
      using 1(1) [OF k(1,2)] k(3,4) 1(2) by simp
    show ?thesis unfolding e using IH k skript_next_boundary [OF 1(2) k(2)] by auto
  next
    case False
    then have "boundaries_from input cursor end = []"
      by (subst boundaries_from.simps) (auto split: option.splits simp: not_le not_less)
    then show ?thesis by simp
  qed
qed

lemma skript_boundaries_sorted:
  assumes "utf8_ok input"
  shows "sorted_wrt (<) (skript_boundaries input start end)"
    "b \<in> set (skript_boundaries input start end) \<Longrightarrow> start < b \<and> b \<le> end \<and> is_char_boundary input b"
  using boundaries_from_sorted [OF assms, of start "end"] by (auto simp: skript_boundaries_def split: if_splits)

subsection \<open>The trimmed input\<close>

lemma java_trim_valid:
  assumes "utf8_ok input"
  shows "is_valid_for (java_trim_range input) input"
proof -
  let ?P = "\<lambda>(off :: nat, c, w :: nat). c > (0x20 :: nat)"
  have f: "find ?P (char_indices input) = None \<longleftrightarrow> find ?P (rev (char_indices input)) = None"
    by (simp add: find_None_iff)
  show ?thesis
  proof (cases "find ?P (char_indices input)")
    case None
    then show ?thesis using f by (simp add: java_trim_range_def Let_def is_valid_for_def)
  next
    case (Some x)
    then obtain y where y: "find ?P (rev (char_indices input)) = Some y" using f by fastforce
    obtain o1 c1 w1 o2 c2 w2 where xy: "x = (o1, c1, w1)" "y = (o2, c2, w2)" by (cases x; cases y) auto
    have mx: "(o1, c1, w1) \<in> set (char_indices input)" and my: "(o2, c2, w2) \<in> set (char_indices input)" "?P (o2, c2, w2)"
      using find_SomeD [OF Some] find_SomeD [OF y] xy by auto
    obtain i where i: "i < length (char_indices input)" "char_indices input ! i = x" "\<And>j. j < i \<Longrightarrow> \<not> ?P (char_indices input ! j)"
      using Some unfolding find_Some_iff by blast
    obtain j where j: "j < length (char_indices input)" "char_indices input ! j = (o2, c2, w2)"
      using my(1) by (auto simp: in_set_conv_nth)
    have "\<not> j < i" using i(3) [of j] my(2) unfolding j(2) by blast
    then have "o1 \<le> o2"
      using sorted_wrt_nth_less [OF conjunct1 [OF chars_from_offsets [of 0 input]], of i j] i(2) j xy
      by (cases "i = j") auto
    then show ?thesis
      using Some y xy chars_from_boundary [OF assms mx] chars_from_boundary [OF assms my(1)] boundary_le [of input "o2 + w2"]
      by (simp add: java_trim_range_def is_valid_for_def)
  qed
qed

end
