(* ===== verification/Match_Context.thy ===== *)
theory Match_Context
  imports Match_Logic Match_Lexical
begin

text \<open>
  What the proofs about the matcher assume of its inputs, and the invariants of its state: the input
  carries valid provenance, patterns with the same source have the same elements (they are parsed from
  it), the caches hold what the code would compute afresh, and a match state describes text of the input.
\<close>

subsection \<open>The input\<close>

definition input_ok :: "match_input \<Rightarrow> bool" where
  "input_ok inp \<longleftrightarrow> utf8_ok (input_text inp) \<and> (case input_mapping inp of
     FromSource ms r \<Rightarrow> mapped_source_ok ms \<and> str_slice r (ms_virtual ms) = Some (input_text inp)
   | FixedSpan _ \<Rightarrow> True)"

lemma slice_valid_within:
  assumes "str_slice q s = Some t" and "is_valid_for r t"
  shows "is_valid_for (range_new (range_start q + range_start r) (range_start q + range_end r)) s"
proof -
  note q = str_slice_SomeD [OF assms(1)]
  have vq: "is_char_boundary s (range_start q)" "is_char_boundary s (range_end q)" "range_start q \<le> range_end q" "range_end q \<le> length s"
    using q(1) by (auto simp: is_valid_for_def)
  have r: "range_start r \<le> range_end r" "range_end r \<le> range_len q" "is_char_boundary t (range_start r)" "is_char_boundary t (range_end r)"
    using assms(2) q(3) by (auto simp: is_valid_for_def)
  have "is_char_boundary (drop (range_start q) s) (range_len q)"
    using vq boundary_drop [OF vq(1), of "range_len q"] by (simp add: range_len_def)
  note b = boundary_take [OF this]
  have "is_char_boundary (drop (range_start q) s) (range_start r)" "is_char_boundary (drop (range_start q) s) (range_end r)"
    using b [of "range_start r"] b [of "range_end r"] r q(2) by auto
  then show ?thesis
    using boundary_drop [OF vq(1)] r vq by (auto simp: is_valid_for_def range_len_def)
qed

lemma input_map_valid:
  assumes "input_ok inp" and "is_valid_for r (input_text inp)"
  shows "\<exists>m. input_map_range inp r = Ret \<lparr>local_range = r, mapped = m\<rparr>"
proof (cases "input_mapping inp")
  case (FromSource ms q)
  then have ms: "mapped_source_ok ms" "str_slice q (ms_virtual ms) = Some (input_text inp)"
    using assms(1) by (auto simp: input_ok_def)
  have "\<exists>m. ms_map_range ms (range_new (range_start q + range_start r) (range_start q + range_end r)) = Ret m"
    using ms_map_range_sound [OF ms(1) slice_valid_within [OF ms(2) assms(2)]] by blast
  then show ?thesis using FromSource assms(2) by (auto simp: input_map_range_def)
qed (use assms in \<open>auto simp: input_map_range_def\<close>)

lemma input_map_Ret_iff:
  assumes "input_ok inp"
  shows "(\<exists>sp. input_map_range inp r = Ret sp) \<longleftrightarrow> is_valid_for r (input_text inp)"
  using input_map_valid [OF assms] by (auto simp: input_map_range_def)

lemma input_map_local: "input_map_range inp r = Ret sp \<Longrightarrow> local_range sp = r \<and> is_valid_for r (input_text inp)"
  by (auto simp: input_map_range_def outcome_simps split: if_splits)

lemma input_map_not_Panic: "input_ok inp \<Longrightarrow> input_map_range inp r \<noteq> Panic"
  using input_map_valid [of inp r] by (cases "is_valid_for r (input_text inp)") (auto simp: input_map_range_def)

text \<open>The input as a slice of a mapped source is one.\<close>

lemma input_from_source_ok:
  assumes "mapped_source_ok ms" and "utf8_ok (ms_virtual ms)" and "input_from_source ms r = Ret inp"
  shows "input_ok inp"
  using assms str_slice_utf8_ok [OF assms(2)] by (auto simp: input_from_source_def input_ok_def outcome_simps)

definition matcher_ok :: "('e, 'x) matcher \<Rightarrow> bool" where
  "matcher_ok mc \<longleftrightarrow> input_ok (match_text mc) \<and> is_valid_for (trim mc) (text_of mc)"

lemma matcher_okD:
  assumes "matcher_ok mc"
  shows "input_ok (match_text mc)" "utf8_ok (text_of mc)" "is_valid_for (trim mc) (text_of mc)"
    "is_char_boundary (text_of mc) (range_start (trim mc))" "is_char_boundary (text_of mc) (range_end (trim mc))"
    "range_start (trim mc) \<le> range_end (trim mc)"
  using assms by (auto simp: matcher_ok_def input_ok_def text_of_def is_valid_for_def)

lemma map_input_valid:
  assumes "matcher_ok mc" and "is_valid_for r (text_of mc)"
  obtains m where "map_input mc r = Ret \<lparr>local_range = r, mapped = m\<rparr>"
  using input_map_valid [OF matcher_okD(1) [OF assms(1)]] assms(2) by (auto simp: map_input_def text_of_def)

lemma map_input_not_Panic: "matcher_ok mc \<Longrightarrow> map_input mc r \<noteq> Panic"
  using input_map_not_Panic [OF matcher_okD(1)] by (simp add: map_input_def)

lemma matcher_for_ok: "input_ok inp \<Longrightarrow> matcher_ok (matcher_for env_ops build low cfg inp)"
  by (simp add: matcher_ok_def matcher_for_def text_of_def input_ok_def java_trim_valid)

lemma empty_range_valid: "is_char_boundary s i \<Longrightarrow> is_valid_for (range_empty i) s"
  using boundary_le by (simp add: is_valid_for_def)

subsection \<open>Elements behind a path\<close>

fun sub_element :: "pattern_element \<Rightarrow> path_segment list \<Rightarrow> pattern_element option" where
  "sub_element e [] = Some e"
| "sub_element (Group es) (ElementSegment i # rest) = (if i < length es then sub_element (element (es ! i)) rest else None)"
| "sub_element (OptionElement es) (ElementSegment i # rest) = (if i < length es then sub_element (element (es ! i)) rest else None)"
| "sub_element (Choice bs) (BranchSegment j # ElementSegment i # rest) =
     (if j < length bs \<and> i < length (bs ! j) then sub_element (element (bs ! j ! i)) rest else None)"
| "sub_element e (s # rest) = None"

text \<open>Indices of a path are 32-bit; no list of a pattern is longer.\<close>

function (sequential) small :: "spanned_element list \<Rightarrow> bool" where
  "small [] \<longleftrightarrow> True"
| "small (Spanned (Group cs) r # es) \<longleftrightarrow> length es < 2 ^ 32 - 1 \<and> small cs \<and> small es"
| "small (Spanned (OptionElement cs) r # es) \<longleftrightarrow> length es < 2 ^ 32 - 1 \<and> small cs \<and> small es"
| "small (Spanned (Choice bs) r # es) \<longleftrightarrow> length es < 2 ^ 32 - 1 \<and> length bs < 2 ^ 32 \<and> list_all small bs \<and> small es"
| "small (Spanned e r # es) \<longleftrightarrow> length es < 2 ^ 32 - 1 \<and> small es"
  by pat_completeness auto

termination
  by (relation "measure (size_list (size_spanned size))") (auto dest: branch_size [of _ _ "size_spanned size"])

lemma small_length: "small es \<Longrightarrow> length es < 2 ^ 32"
  by (cases es rule: small.cases) auto

text \<open>A path leads to an element, a path and a start index to a sequence, in the pattern of the key.\<close>

definition leads_to :: "spanned_element list \<Rightarrow> path_segment list \<Rightarrow> pattern_element \<Rightarrow> bool" where
  "leads_to es path e \<longleftrightarrow> (\<forall>rest. sub_element (Group es) (path @ rest) = sub_element e rest)"

definition leads_to_from :: "spanned_element list \<Rightarrow> path_segment list \<Rightarrow> nat \<Rightarrow> spanned_element list \<Rightarrow> bool" where
  "leads_to_from es path i xs \<longleftrightarrow> (\<forall>j < length xs. leads_to es (path @ [ElementSegment (path_index (i + j))]) (element (xs ! j)))"

lemma path_index_small: "i < 2 ^ 32 \<Longrightarrow> path_index i = i"
  by (simp add: path_index_def)

lemma leads_to_from_Cons:
  "leads_to_from es path i (x # xs) \<longleftrightarrow>
     leads_to es (path @ [ElementSegment (path_index i)]) (element x) \<and> leads_to_from es path (i + 1) xs"
  unfolding leads_to_from_def by (auto simp: less_Suc_eq_0_disj)

lemma leads_to_root: "small es \<Longrightarrow> leads_to_from es [] 0 es"
  unfolding leads_to_from_def leads_to_def using path_index_small small_length [of es] by simp

lemma leads_to_children:
  assumes "leads_to es path e" and "e = Group cs \<or> e = OptionElement cs" and "small cs"
  shows "leads_to_from es path 0 cs"
  using assms path_index_small small_length [OF assms(3)] unfolding leads_to_from_def leads_to_def by auto

lemma leads_to_branch:
  assumes "leads_to es path (Choice bs)" and "j < length bs" and "length bs < 2 ^ 32" and "small (bs ! j)"
  shows "leads_to_from es (path @ [BranchSegment (path_index j)]) 0 (bs ! j)"
  using assms path_index_small small_length [OF assms(4)] unfolding leads_to_from_def leads_to_def by auto

subsection \<open>The caches\<close>

text \<open>What the loop of \<open>match_regex\<close> collects when nothing stops it.\<close>

definition regex_results :: "('e, 'x) matcher \<Rightarrow> regex \<Rightarrow> nat \<Rightarrow> nat \<Rightarrow> cached_transition list" where
  "regex_results mc re from stop = (case str_slice (range_new from stop) (text_of mc) of
     None \<Rightarrow> []
   | Some subject \<Rightarrow> (case re subject of
       RegexGroups groups \<Rightarrow> [CachedRegex (range_new from stop)
         (map (map_option (\<lambda>(a, b). range_new (from + a) (from + b))) (tl groups))]
     | _ \<Rightarrow> []))"

definition compile :: "('e, 'x) matcher \<Rightarrow> str \<Rightarrow> str + regex" where
  "compile mc pattern = build_regex mc (max_regex_backtracks (config mc)) (CHR 0x5C # ''A(?:'' @ pattern @ '')'' @ CHR 0x5C # ''z'')"

definition fresh_transitions :: "('e, 'x) matcher \<Rightarrow> pattern_element \<Rightarrow> nat \<Rightarrow> cached_transition list" where
  "fresh_transitions mc e from = (case e of
     Literal s \<Rightarrow> (case match_literal_at (lower mc) (text_of mc) (trim mc) from s of Inl _ \<Rightarrow> [] | Inr stop \<Rightarrow> [CachedLiteral stop])
   | Regex s \<Rightarrow> (case compile mc s of
       Inl _ \<Rightarrow> []
     | Inr re \<Rightarrow> concat (map (regex_results mc re from) (skript_boundaries (text_of mc) from (range_end (trim mc)))))
   | _ \<Rightarrow> [])"

type_synonym plan = "str \<Rightarrow> spanned_element list"

text \<open>
  A key names an element of the pattern with that source; the cache holds what would be computed there.
  A transition stored for a regular expression shows that it compiles.
\<close>

definition cache_ok :: "plan \<Rightarrow> ('e, 'x) matcher \<Rightarrow> 'e engine \<Rightarrow> bool" where
  "cache_ok plan mc s \<longleftrightarrow>
     (\<forall>k ts. transitions s k = Some ts \<longrightarrow>
       (\<exists>e. sub_element (Group (plan (key_source k))) (key_path k) = Some e \<and> ts = fresh_transitions mc e (key_cursor k) \<and>
         (\<forall>p. e = Regex p \<longrightarrow> (\<exists>re. compile mc p = Inr re)))) \<and>
     (\<forall>p r. regexes s p = Some r \<longrightarrow> r = compile mc p)"

lemma cache_ok_update [simp]:
  "cache_ok plan mc (s\<lparr>environment := e\<rparr>) = cache_ok plan mc s"
  "cache_ok plan mc (s\<lparr>failure := t\<rparr>) = cache_ok plan mc s"
  "cache_ok plan mc (s\<lparr>states := n\<rparr>) = cache_ok plan mc s"
  "cache_ok plan mc (s\<lparr>backtracks := n\<rparr>) = cache_ok plan mc s"
  "cache_ok plan mc (s\<lparr>regex_executions := n\<rparr>) = cache_ok plan mc s"
  "cache_ok plan mc (s\<lparr>regex_evaluated_bytes := n\<rparr>) = cache_ok plan mc s"
  "cache_ok plan mc (s\<lparr>current := c\<rparr>) = cache_ok plan mc s"
  by (simp_all add: cache_ok_def)

text \<open>The engine while a pattern is matched: its caches are right and the pattern is the current one.\<close>

definition matching :: "plan \<Rightarrow> ('e, 'x) matcher \<Rightarrow> candidate_context \<Rightarrow> 'e engine \<Rightarrow> bool" where
  "matching plan mc cur s \<longleftrightarrow> cache_ok plan mc s \<and> current s = Some cur"

lemma stable_matching [simp]: "stable (matching plan mc cur)"
  by (simp add: stable_def matching_def)

definition context_source :: "candidate_context \<Rightarrow> str" where
  "context_source cur = (case context_pattern cur of None \<Rightarrow> [] | Some p \<Rightarrow> pattern_source p)"

lemma transition_key_simps [simp]:
  "key_source (transition_key (Some cur) path c) = context_source cur"
  "key_path (transition_key cur' path c) = path" "key_cursor (transition_key cur' path c) = c"
  by (simp_all add: transition_key_def context_source_def)

definition here :: "plan \<Rightarrow> candidate_context \<Rightarrow> path_segment list \<Rightarrow> pattern_element \<Rightarrow> bool" where
  "here plan cur path e \<longleftrightarrow> leads_to (plan (context_source cur)) path e"

definition here_from :: "plan \<Rightarrow> candidate_context \<Rightarrow> path_segment list \<Rightarrow> nat \<Rightarrow> spanned_element list \<Rightarrow> bool" where
  "here_from plan cur path i es \<longleftrightarrow> leads_to_from (plan (context_source cur)) path i es"

lemma cache_hit:
  assumes "matching plan mc cur s" and "here plan cur path e" and "transitions s (transition_key (Some cur) path c) = Some ts"
  shows "ts = fresh_transitions mc e c" "e = Regex p \<Longrightarrow> \<exists>re. compile mc p = Inr re"
proof -
  have "sub_element (Group (plan (context_source cur))) path = Some e"
    using assms(2) unfolding here_def leads_to_def by (metis append_Nil2 sub_element.simps(1))
  then show "ts = fresh_transitions mc e c" "e = Regex p \<Longrightarrow> \<exists>re. compile mc p = Inr re"
    using assms(1,3) unfolding matching_def cache_ok_def by fastforce+
qed

lemma cache_store:
  assumes "matching plan mc cur s" and "here plan cur path e" and "ts = fresh_transitions mc e c"
    and "\<And>p. e = Regex p \<Longrightarrow> \<exists>re. compile mc p = Inr re"
  shows "matching plan mc cur (s\<lparr>transitions := (transitions s)(transition_key (Some cur) path c \<mapsto> ts)\<rparr>)"
proof -
  have "sub_element (Group (plan (context_source cur))) path = Some e"
    using assms(2) unfolding here_def leads_to_def by (metis append_Nil2 sub_element.simps(1))
  then show ?thesis
    using assms(1,3,4) by (auto simp: matching_def cache_ok_def)
qed

end
