(* ===== verification/Match_Leaves.thy ===== *)
theory Match_Leaves
  imports Match_Context
begin

text \<open>
  The elements without children, for every environment: a literal and a regular expression give
  exactly what a fresh computation gives, whatever the caches hold; a typed expression gives only legal
  states.
\<close>

subsection \<open>Invariants of a match state\<close>

definition capture_ok :: "('e, 'x) matcher \<Rightarrow> pattern_capture \<Rightarrow> bool" where
  "capture_ok mc c \<longleftrightarrow>
     (let sp = capture_span c; r = local_range sp in
      is_valid_for r (text_of mc) \<and> range_contains (trim mc) r \<and>
      (case c of
         RegexCapture _ _ v _ _ \<Rightarrow> str_slice r (text_of mc) = Some v \<and> map_input mc r = Ret sp
       | TypeCapture _ ExplicitCapture _ _ v _ _ _ \<Rightarrow> str_slice r (text_of mc) = Some v \<and> v \<noteq> [] \<and> map_input mc r = Ret sp
       | TypeCapture _ _ _ _ v _ _ _ \<Rightarrow> v = [] \<and> range_is_empty r \<and>
           (\<exists>raw. map_input mc r = Ret raw \<and> sp = implicit_capture_span raw)))"

definition span_ok :: "('e, 'x) matcher \<Rightarrow> match_span \<Rightarrow> bool" where
  "span_ok mc sp \<longleftrightarrow> range_is_empty (local_range sp) \<and> range_contains (trim mc) (local_range sp) \<and> map_input mc (local_range sp) = Ret sp"

text \<open>The accumulated marks are the running exclusive or of the marks.\<close>

fun marks_from :: "int \<Rightarrow> mark_capture list \<Rightarrow> int \<Rightarrow> bool" where
  "marks_from m [] n \<longleftrightarrow> m = n"
| "marks_from m (x # xs) n \<longleftrightarrow>
     mark_accumulated x = semiring_bit_operations_class.xor m (mark_value x) \<and> marks_from (mark_accumulated x) xs n"

definition state_ok :: "('e, 'x) matcher \<Rightarrow> match_state \<Rightarrow> bool" where
  "state_ok mc st \<longleftrightarrow>
     is_char_boundary (text_of mc) (cursor st) \<and> range_start (trim mc) \<le> cursor st \<and> cursor st \<le> range_end (trim mc) \<and>
     (\<forall>c \<in> set (captures st). capture_ok mc c) \<and>
     (\<forall>t \<in> set (tags st). tag_value t \<noteq> [] \<and> span_ok mc (tag_input_span t)) \<and>
     (\<forall>p. pending_implicit_tag st = Some p \<longrightarrow> span_ok mc (pending_input_span p)) \<and>
     (\<forall>m \<in> set (marks st). span_ok mc (mark_input_span m)) \<and> marks_from 0 (marks st) (mark st)"

text \<open>A match moves forward only.\<close>

definition onward :: "('e, 'x) matcher \<Rightarrow> match_state \<Rightarrow> match_state \<Rightarrow> bool" where
  "onward mc st st' \<longleftrightarrow> state_ok mc st' \<and> cursor st \<le> cursor st'"

lemma onward_refl: "state_ok mc st \<Longrightarrow> onward mc st st"
  by (simp add: onward_def)

lemma onward_trans: "onward mc st st1 \<Longrightarrow> onward mc st1 st2 \<Longrightarrow> onward mc st st2"
  by (auto simp: onward_def)

lemma state_ok_checkpoint [simp]: "state_ok mc (st\<lparr>extension_checkpoint := c\<rparr>) = state_ok mc st"
  by (simp add: state_ok_def)

lemma state_ok_same: "same_but_checkpoint st st' \<Longrightarrow> state_ok mc st' = state_ok mc st \<and> cursor st' = cursor st"
  unfolding same_but_checkpoint_def by (metis match_state.ext_inject match_state.select_convs(1) match_state.surjective
      match_state.update_convs(8) state_ok_checkpoint)

lemma state_ok_pending: "state_ok mc st \<Longrightarrow> state_ok mc (st\<lparr>pending_implicit_tag := None\<rparr>)"
  by (simp add: state_ok_def)

lemma state_ok_cursor:
  "state_ok mc st \<Longrightarrow> is_char_boundary (text_of mc) c \<Longrightarrow> range_start (trim mc) \<le> c \<Longrightarrow> c \<le> range_end (trim mc) \<Longrightarrow>
   state_ok mc (st\<lparr>cursor := c\<rparr>)"
  by (simp add: state_ok_def)

lemma marks_from_append: "marks_from m (xs @ ys) n \<longleftrightarrow> (\<exists>k. marks_from m xs k \<and> marks_from k ys n)"
  by (induction xs arbitrary: m) auto

lemma state_ok_push_implicit: "state_ok mc st \<Longrightarrow> state_ok mc (push_implicit_tag s st) \<and> cursor (push_implicit_tag s st) = cursor st"
  by (auto simp: push_implicit_tag_def state_ok_def Let_def split: option.split)

lemma state_ok_push_mark:
  "state_ok mc st \<Longrightarrow> span_ok mc sp \<Longrightarrow> state_ok mc (push_mark n r sp st) \<and> cursor (push_mark n r sp st) = cursor st"
  by (auto simp: push_mark_def state_ok_def Let_def marks_from_append)

lemma point_span_ok:
  assumes "state_ok mc st" and "map_input mc (range_empty (cursor st)) = Ret sp"
  shows "span_ok mc sp"
  using assms input_map_local [of "match_text mc" "range_empty (cursor st)" sp]
  by (simp add: span_ok_def state_ok_def map_input_def range_is_empty_def range_contains_def)

lemma match_tag_ok:
  assumes "state_ok mc st" and "match_tag mc s r st = Ret st'"
  shows "onward mc st st'"
proof -
  from assms(2) obtain sp where sp: "map_input mc (range_empty (cursor st)) = Ret sp"
    by (auto simp: match_tag_def outcome_simps)
  note ok = point_span_ok [OF assms(1) sp]
  let ?t = "st\<lparr>tags := tags st @ [\<lparr>tag_value = s, tag_pattern_span = r, tag_input_span = sp, tag_implicit = False\<rparr>]\<rparr>"
  have t: "s \<noteq> [] \<Longrightarrow> state_ok mc ?t" using assms(1) ok by (auto simp: state_ok_def)
  have m: "s \<noteq> [] \<Longrightarrow> state_ok mc (push_mark n r sp ?t) \<and> cursor (push_mark n r sp ?t) = cursor ?t" for n
    using state_ok_push_mark [OF t ok] by blast
  show ?thesis
    using assms(1,2) sp ok t m state_ok_pending [of mc ?t] state_ok_pending [OF conjunct1 [OF m]]
    by (auto simp: match_tag_def onward_def state_ok_def Let_def split: if_splits option.splits)
qed

lemma match_mark_ok:
  assumes "state_ok mc st" and "match_mark mc n r st = Ret st'"
  shows "onward mc st st'"
  using assms point_span_ok [OF assms(1)] state_ok_push_mark [OF state_ok_pending [OF assms(1)]]
  by (auto simp: match_mark_def onward_def outcome_simps)

subsection \<open>Literals\<close>

definition literal_states :: "('e, 'x) matcher \<Rightarrow> str \<Rightarrow> match_state \<Rightarrow> match_state list" where
  "literal_states mc s st = (case match_literal_at (lower mc) (text_of mc) (trim mc) (cursor st) s of
     Inl _ \<Rightarrow> [] | Inr stop \<Rightarrow> [st\<lparr>cursor := stop\<rparr>])"

lemma runs_literal:
  assumes "here plan cur path (Literal s)"
  shows "runs (matching plan mc cur) (match_literal mc s st path)
    (\<lambda>found t. matching plan mc cur t \<and> found = literal_states mc s st) E"
proof -
  let ?I = "matching plan mc cur"
  let ?k = "transition_key (Some cur) path (cursor st)"
  let ?ts = "fresh_transitions mc (Literal s) (cursor st)"
  have cached: "runs ?I (literal_transitions mc s st ?k) (\<lambda>ts t. ?I t \<and> ts = ?ts) E"
    unfolding literal_transitions_def
  proof (rule runs_bind [OF runs_get [where Q = "\<lambda>ts t. ?I t \<and> (\<forall>x. ts = Some x \<longrightarrow> x = ?ts)"]])
    show "?I t \<and> (\<forall>x. transitions t ?k = Some x \<longrightarrow> x = ?ts)" if "?I t" for t
      using that cache_hit(1) [OF that assms] by simp
    show "runs (\<lambda>t. ?I t \<and> (\<forall>x. known = Some x \<longrightarrow> x = ?ts))
        (case known of None \<Rightarrow> abind (case match_literal_at (lower mc) (text_of mc) (trim mc) (cursor st) s of
            Inl off \<Rightarrow> abind (record_at off (ExpectedLiteral s)) (\<lambda>_. areturn []) | Inr stop \<Rightarrow> areturn [CachedLiteral stop])
          (\<lambda>ts. abind (store_transitions ?k ts) (\<lambda>_. areturn ts)) | Some ts \<Rightarrow> areturn ts)
        (\<lambda>ts t. ?I t \<and> ts = ?ts) E" for known
    proof (rule runs_fact, rule runs_option)
      have "runs ?I (case match_literal_at (lower mc) (text_of mc) (trim mc) (cursor st) s of
            Inl off \<Rightarrow> abind (record_at off (ExpectedLiteral s)) (\<lambda>_. areturn []) | Inr stop \<Rightarrow> areturn [CachedLiteral stop])
          (\<lambda>ts t. ?I t \<and> ts = ?ts) E"
        by (auto simp: fresh_transitions_def split: sum.split intro!: runs_return runs_bind [OF runs_record_at])
      then show "runs ?I (abind (case match_literal_at (lower mc) (text_of mc) (trim mc) (cursor st) s of
            Inl off \<Rightarrow> abind (record_at off (ExpectedLiteral s)) (\<lambda>_. areturn []) | Inr stop \<Rightarrow> areturn [CachedLiteral stop])
          (\<lambda>ts. abind (store_transitions ?k ts) (\<lambda>_. areturn ts))) (\<lambda>ts t. ?I t \<and> ts = ?ts) E"
        unfolding store_transitions_def
        by (elim runs_bind, intro runs_fact runs_bind [OF runs_modify [where Q = "\<lambda>_. ?I"]] runs_return)
          (auto intro: cache_store [OF _ assms])
    qed (auto intro: runs_return)
  qed
  show ?thesis unfolding match_literal_def
  proof (rule runs_get_known)
    show "current t = Some cur" if "?I t" for t using that by (simp add: matching_def)
    show "runs ?I (abind (literal_transitions mc s st ?k) (\<lambda>ts. case ts of
        CachedLiteral stop # _ \<Rightarrow> areturn [st\<lparr>cursor := stop\<rparr>]
      | _ \<Rightarrow> abind (record_at (cursor st) (ExpectedLiteral s)) (\<lambda>_. areturn [])))
      (\<lambda>found t. ?I t \<and> found = literal_states mc s st) E"
      by (rule runs_bind [OF cached], rule runs_fact)
        (auto simp: fresh_transitions_def literal_states_def split: sum.split
          intro!: runs_return runs_bind [OF runs_record_at])
  qed
qed

lemma literal_states_ok:
  assumes "matcher_ok mc" and "state_ok mc st" and "st' \<in> set (literal_states mc s st)"
  shows "onward mc st st'"
proof -
  obtain stop where m: "match_literal_at (lower mc) (text_of mc) (trim mc) (cursor st) s = Inr stop" "st' = st\<lparr>cursor := stop\<rparr>"
    using assms(3) by (cases "match_literal_at (lower mc) (text_of mc) (trim mc) (cursor st) s") (auto simp: literal_states_def)
  have "is_char_boundary (text_of mc) stop \<and> cursor st \<le> stop \<and> stop \<le> range_end (trim mc)"
    by (rule match_literal_boundary [OF matcher_okD(2,5) [OF assms(1)] m(1)]) (use assms(2) in \<open>auto simp: state_ok_def\<close>)
  then show ?thesis using m(2) assms(2) by (auto simp: onward_def state_ok_def)
qed

subsection \<open>Regular expressions\<close>

lemma runs_compiled:
  assumes "tolerant (ops mc) E"
  shows "runs (matching plan mc cur) (compiled_regex mc s sp) (\<lambda>re t. matching plan mc cur t \<and> compile mc s = Inr re) (\<lambda>err _. E err)"
proof -
  let ?I = "matching plan mc cur"
  have known: "?I t \<and> (\<forall>x. regexes t s = Some x \<longrightarrow> x = compile mc s)" if "?I t" for t
    using that by (auto simp: matching_def cache_ok_def)
  have store: "?I (t\<lparr>regexes := (regexes t)(s \<mapsto> compile mc s)\<rparr>)" if "?I t" for t
    using that by (auto simp: matching_def cache_ok_def)
  have fresh: "runs ?I (abind (amodify (\<lambda>t. t\<lparr>regexes := (regexes t)(s \<mapsto> compile mc s)\<rparr>)) (\<lambda>_. areturn (compile mc s)))
      (\<lambda>r t. ?I t \<and> r = compile mc s) (\<lambda>err _. E err)"
    by (intro runs_bind [OF runs_modify [where Q = "\<lambda>_. ?I"]] runs_return) (use store in auto)
  show ?thesis unfolding compiled_regex_def Let_def compile_def [symmetric]
  proof (rule runs_bind [OF runs_get [where Q = "\<lambda>r t. ?I t \<and> (\<forall>x. r = Some x \<longrightarrow> x = compile mc s)"]], erule known, rule runs_fact)
    fix r assume r: "\<forall>x. r = Some x \<longrightarrow> x = compile mc s"
    have "runs ?I (case r of None \<Rightarrow> abind (amodify (\<lambda>t. t\<lparr>regexes := (regexes t)(s \<mapsto> compile mc s)\<rparr>)) (\<lambda>_. areturn (compile mc s))
        | Some r \<Rightarrow> areturn r) (\<lambda>r t. ?I t \<and> r = compile mc s) (\<lambda>err _. E err)"
      by (rule runs_option) (use fresh r in \<open>auto intro: runs_return\<close>)
    then show "runs ?I (abind (case r of None \<Rightarrow> abind (amodify (\<lambda>t. t\<lparr>regexes := (regexes t)(s \<mapsto> compile mc s)\<rparr>)) (\<lambda>_. areturn (compile mc s))
        | Some r \<Rightarrow> areturn r) (\<lambda>r. alift (case r of Inl message \<Rightarrow> Fail (InvalidRegex sp message) | Inr re \<Rightarrow> Ret re)))
        (\<lambda>re t. ?I t \<and> compile mc s = Inr re) (\<lambda>err _. E err)"
      by (elim runs_bind, intro runs_fact runs_lift) (use tolerant_intrinsic [OF assms] in \<open>auto split: sum.splits\<close>)
  qed
qed

lemma runs_regex_at:
  assumes "tolerant (ops mc) E"
  shows "runs (matching plan mc cur) (regex_at mc re sp from stop) (\<lambda>ts t. matching plan mc cur t \<and> ts = regex_results mc re from stop) (\<lambda>err _. E err)"
  unfolding regex_at_def
proof (rule runs_bind [OF runs_cancelled [OF assms stable_matching]], rule runs_counted [OF assms])
  let ?I = "matching plan mc cur"
  have leaf: "runs ?I (case str_slice (range_new from stop) (text_of mc) of
         None \<Rightarrow> areturn []
       | Some subject \<Rightarrow> (case re subject of
           RegexNoMatch \<Rightarrow> areturn []
         | RegexBacktrackLimit \<Rightarrow> alift (Fail (LimitExceeded RegexBacktracks (max_regex_backtracks (config mc))))
         | RegexRuntimeError message \<Rightarrow> alift (Fail (InvalidRegex sp message))
         | RegexGroups groups \<Rightarrow> areturn [CachedRegex (range_new from stop)
             (map (map_option (\<lambda>(a, b). range_new (from + a) (from + b))) (tl groups))]))
     (\<lambda>ts t. ?I t \<and> ts = regex_results mc re from stop) (\<lambda>err _. E err)"
    using tolerant_intrinsic [OF assms]
    by (auto simp: regex_results_def split: option.split regex_result.split intro!: runs_return runs_lift)
  show "runs ?I (abind (amodify (\<lambda>s. s\<lparr>regex_evaluated_bytes := sat_add (regex_evaluated_bytes s) (stop - from)\<rparr>)) (\<lambda>_.
     abind (aget regex_evaluated_bytes) (\<lambda>bytes.
     if bytes > max_regex_evaluated_bytes (config mc)
     then alift (Fail (LimitExceeded RegexEvaluatedBytes (max_regex_evaluated_bytes (config mc))))
     else (case str_slice (range_new from stop) (text_of mc) of
         None \<Rightarrow> areturn []
       | Some subject \<Rightarrow> (case re subject of
           RegexNoMatch \<Rightarrow> areturn []
         | RegexBacktrackLimit \<Rightarrow> alift (Fail (LimitExceeded RegexBacktracks (max_regex_backtracks (config mc))))
         | RegexRuntimeError message \<Rightarrow> alift (Fail (InvalidRegex sp message))
         | RegexGroups groups \<Rightarrow> areturn [CachedRegex (range_new from stop)
             (map (map_option (\<lambda>(a, b). range_new (from + a) (from + b))) (tl groups))])))))
     (\<lambda>ts t. ?I t \<and> ts = regex_results mc re from stop) (\<lambda>err _. E err)"
    by (rule runs_counted [OF assms _ leaf]) (simp add: matching_def)
qed (simp add: matching_def)

lemma runs_regex_transitions:
  assumes "tolerant (ops mc) E" and "here plan cur path (Regex s)"
  shows "runs (matching plan mc cur) (regex_transitions mc sp s st (transition_key (Some cur) path (cursor st)))
    (\<lambda>ts t. matching plan mc cur t \<and> (\<exists>re. compile mc s = Inr re) \<and> ts = fresh_transitions mc (Regex s) (cursor st)) (\<lambda>err _. E err)"
proof -
  let ?I = "matching plan mc cur"
  let ?k = "transition_key (Some cur) path (cursor st)"
  let ?fresh = "fresh_transitions mc (Regex s) (cursor st)"
  let ?bs = "skript_boundaries (text_of mc) (cursor st) (range_end (trim mc))"
  have all: "runs ?I (aconcat (regex_at mc re sp (cursor st)) ?bs) (\<lambda>ts t. ?I t \<and> ts = concat (map (regex_results mc re (cursor st)) ?bs)) (\<lambda>err _. E err)" for re
    by (rule runs_post [OF runs_aconcat [where R = "\<lambda>b ts. ts = regex_results mc re (cursor st) b"]])
      (use runs_regex_at [OF assms(1)] in \<open>auto simp: list_all2_conv_all_nth intro!: arg_cong [of _ _ concat] nth_equalityI\<close>)
  have store: "?I (t\<lparr>transitions := (transitions t)(?k \<mapsto> ?fresh)\<rparr>)" if "?I t" "compile mc s = Inr re" for t re
    using cache_store [OF that(1) assms(2) refl] that(2) by simp
  have miss: "runs ?I (abind (compiled_regex mc s sp) (\<lambda>re. abind (aconcat (regex_at mc re sp (cursor st)) ?bs) (\<lambda>ts.
      abind (store_transitions ?k ts) (\<lambda>_. areturn ts))))
      (\<lambda>ts t. ?I t \<and> (\<exists>re. compile mc s = Inr re) \<and> ts = ?fresh) (\<lambda>err _. E err)"
  proof (rule runs_bind [OF runs_compiled [OF assms(1)]], rule runs_fact)
    fix re assume re: "compile mc s = Inr re"
    then have f: "?fresh = concat (map (regex_results mc re (cursor st)) ?bs)" by (simp add: fresh_transitions_def)
    show "runs ?I (abind (aconcat (regex_at mc re sp (cursor st)) ?bs) (\<lambda>ts. abind (store_transitions ?k ts) (\<lambda>_. areturn ts)))
      (\<lambda>ts t. ?I t \<and> (\<exists>re. compile mc s = Inr re) \<and> ts = ?fresh) (\<lambda>err _. E err)"
      unfolding store_transitions_def
      by (rule runs_bind [OF all], rule runs_fact, rule runs_bind [OF runs_modify [where Q = "\<lambda>_. ?I"]])
        (use re store [OF _ re] f in \<open>auto intro: runs_return\<close>)
  qed
  show ?thesis unfolding regex_transitions_def
  proof (rule runs_bind [OF runs_get [where Q = "\<lambda>ts t. ?I t \<and> (\<forall>x. ts = Some x \<longrightarrow> x = ?fresh \<and> (\<exists>re. compile mc s = Inr re))"]])
    show "?I t \<and> (\<forall>x. transitions t ?k = Some x \<longrightarrow> x = ?fresh \<and> (\<exists>re. compile mc s = Inr re))" if "?I t" for t
      using that cache_hit [OF that assms(2)] by simp
  qed (rule runs_fact, rule runs_option, use miss in \<open>auto intro: runs_return\<close>)
qed

definition regex_states :: "('e, 'x) matcher \<Rightarrow> nat \<Rightarrow> text_range \<Rightarrow> str \<Rightarrow> match_state \<Rightarrow> (match_error, match_state list) outcome" where
  "regex_states mc slot sp s st = try_map (regex_state mc slot sp st) (fresh_transitions mc (Regex s) (cursor st))"

text \<open>Every transition of a regular expression is a piece of the input between the cursor and a split point.\<close>

lemma fresh_regex:
  assumes "t \<in> set (fresh_transitions mc (Regex s) from)"
  obtains stop groups where "t = CachedRegex (range_new from stop) groups" "stop \<in> set (skript_boundaries (text_of mc) from (range_end (trim mc)))"
    "str_slice (range_new from stop) (text_of mc) \<noteq> None"
  using assms that
  by (auto simp: fresh_transitions_def regex_results_def split: sum.splits option.splits regex_result.splits) (metis option.simps(3))

lemma regex_group_total: "matcher_ok mc \<Longrightarrow> regex_group mc g \<noteq> Panic"
  using map_input_not_Panic by (auto simp: regex_group_def outcome_simps split: prod.splits option.splits)

lemma try_map_Panic: "(\<And>x. x \<in> set xs \<Longrightarrow> f x \<noteq> Panic) \<Longrightarrow> try_map f xs \<noteq> Panic"
  by (induction xs) (auto simp: outcome_simps)

lemma try_map_intrinsic: "try_map f xs = Fail e \<Longrightarrow> \<exists>x \<in> set xs. f x = Fail e"
  by (induction xs) (auto simp: outcome_simps)

lemma try_map_member: "try_map f xs = Ret ys \<Longrightarrow> y \<in> set ys \<Longrightarrow> \<exists>x \<in> set xs. f x = Ret y"
  by (induction xs arbitrary: ys) (auto simp: outcome_simps)

lemma regex_state_cases:
  assumes "matcher_ok mc" and "t \<in> set (fresh_transitions mc (Regex s) (cursor st))"
  shows "regex_state mc slot sp st t \<noteq> Panic" "regex_state mc slot sp st t = Fail e \<Longrightarrow> intrinsic e"
    "state_ok mc st \<Longrightarrow> regex_state mc slot sp st t = Ret st' \<Longrightarrow> onward mc st st'"
proof -
  obtain stop groups where t: "t = CachedRegex (range_new (cursor st) stop) groups"
    "stop \<in> set (skript_boundaries (text_of mc) (cursor st) (range_end (trim mc)))" "str_slice (range_new (cursor st) stop) (text_of mc) \<noteq> None"
    using fresh_regex [OF assms(2)] by metis
  note b = skript_boundaries_sorted(2) [OF matcher_okD(2) [OF assms(1)] t(2)]
  show "regex_state mc slot sp st t \<noteq> Panic"
    using t map_input_not_Panic [OF assms(1)] try_map_Panic [of _ "regex_group mc"] regex_group_total [OF assms(1)]
    by (auto simp: regex_state_def outcome_simps)
  show "intrinsic e" if "regex_state mc slot sp st t = Fail e"
    using that t map_input_intrinsic
    by (auto simp: regex_state_def regex_group_def outcome_simps dest!: try_map_intrinsic split: option.splits)
  show "onward mc st st'" if "state_ok mc st" "regex_state mc slot sp st t = Ret st'"
  proof -
    from that(2) t obtain v span gs where v: "str_slice (range_new (cursor st) stop) (text_of mc) = Some v"
      "map_input mc (range_new (cursor st) stop) = Ret span"
      "st' = st\<lparr>cursor := stop, captures := captures st @ [RegexCapture slot sp v span gs]\<rparr>"
      by (auto simp: regex_state_def outcome_simps)
    have l: "local_range span = range_new (cursor st) stop" "is_valid_for (range_new (cursor st) stop) (text_of mc)"
      using input_map_local [of "match_text mc"] v(2) by (auto simp: map_input_def text_of_def)
    have "capture_ok mc (RegexCapture slot sp v span gs)"
      using v l b that(1) by (simp add: capture_ok_def Let_def range_contains_def state_ok_def)
    then show ?thesis using that(1) b v(3) by (auto simp: onward_def state_ok_def)
  qed
qed

lemma runs_regex:
  assumes "tolerant (ops mc) E" and "matcher_ok mc" and "here plan cur path (Regex s)" and "context_indices cur sp = Some slot"
  shows "runs (matching plan mc cur) (match_regex mc sp s st path)
    (\<lambda>found t. matching plan mc cur t \<and> (\<exists>re. compile mc s = Inr re) \<and> regex_states mc slot sp s st = Ret found) (\<lambda>err _. E err)"
proof -
  let ?I = "matching plan mc cur"
  have np: "regex_states mc slot sp s st \<noteq> Panic"
    unfolding regex_states_def by (rule try_map_Panic) (rule regex_state_cases(1) [OF assms(2)])
  have intr: "E e" if "regex_states mc slot sp s st = Fail e" for e
  proof -
    note f = that
    obtain t where "t \<in> set (fresh_transitions mc (Regex s) (cursor st))" "regex_state mc slot sp st t = Fail e"
      using try_map_intrinsic [OF f [unfolded regex_states_def]] by blast
    then show ?thesis using regex_state_cases(2) [OF assms(2)] tolerant_intrinsic [OF assms(1)] by blast
  qed
  show ?thesis unfolding match_regex_def
  proof (rule runs_get_known)
    show "current t = Some cur" if "?I t" for t using that by (simp add: matching_def)
    have slot: "(current_capture_index (Some cur) sp :: (match_error, nat) outcome) = Ret slot"
      by (simp add: current_capture_index_def assms(4))
    show "runs ?I (abind (alift (current_capture_index (Some cur) sp)) (\<lambda>slot.
       abind (regex_transitions mc sp s st (transition_key (Some cur) path (cursor st))) (\<lambda>ts.
       if ts = [] then abind (record_at (cursor st) (ExpectedRegex s)) (\<lambda>_. areturn [])
       else alift (try_map (regex_state mc slot sp st) ts))))
      (\<lambda>found t. ?I t \<and> (\<exists>re. compile mc s = Inr re) \<and> regex_states mc slot sp s st = Ret found) (\<lambda>err _. E err)"
    proof (rule runs_lift_known [OF slot], rule runs_bind [OF runs_regex_transitions [OF assms(1,3)]], rule runs_fact, rule runs_if)
      fix ts assume c: "(\<exists>re. compile mc s = Inr re) \<and> ts = fresh_transitions mc (Regex s) (cursor st)"
      show "runs ?I (abind (record_at (cursor st) (ExpectedRegex s)) (\<lambda>_. areturn []))
        (\<lambda>found t. ?I t \<and> (\<exists>re. compile mc s = Inr re) \<and> regex_states mc slot sp s st = Ret found) (\<lambda>err _. E err)" if "ts = []"
        using c that by (auto simp: regex_states_def intro!: runs_bind [OF runs_record_at] runs_return)
      show "runs ?I (alift (try_map (regex_state mc slot sp st) ts))
        (\<lambda>found t. ?I t \<and> (\<exists>re. compile mc s = Inr re) \<and> regex_states mc slot sp s st = Ret found) (\<lambda>err _. E err)"
        using c np intr by (auto simp: regex_states_def intro!: runs_lift)
    qed
  qed
qed

lemma regex_states_ok:
  assumes "matcher_ok mc" and "state_ok mc st" and "regex_states mc slot sp s st = Ret found" and "st' \<in> set found"
  shows "onward mc st st'"
proof -
  obtain t where "t \<in> set (fresh_transitions mc (Regex s) (cursor st))" "regex_state mc slot sp st t = Ret st'"
    using try_map_member [OF assms(3) [unfolded regex_states_def] assms(4)] by blast
  then show ?thesis using regex_state_cases(3) [OF assms(1) _ assms(2)] by blast
qed

end
