(* ===== verification/Match_Types_Safe.thy ===== *)
theory Match_Types_Safe
  imports Match_Leaves
begin

text \<open>
  Typed expressions and omitted captures, for every environment: what a resolver returns is only used
  when it is legal, and every capture describes text of the input.
\<close>

lemma resolved_capture_ok:
  assumes "matcher_ok mc" and "state_ok mc st" and "resolution_legal mc (cursor st) t bs res"
  shows "\<exists>c. resolved_capture mc slot sp t res = Ret c \<and> capture_ok mc c \<and> capture_index c = slot"
proof -
  let ?r = "resolution_range res"
  have l: "range_start ?r = cursor st" "range_end ?r \<le> range_end (trim mc)" "is_valid_for ?r (text_of mc)"
    using assms(3) by (auto simp: resolution_legal_def Let_def)
  obtain v where v: "str_slice ?r (text_of mc) = Some v" using l(3) str_slice_Some_iff by blast
  obtain m where m: "map_input mc ?r = Ret \<lparr>local_range = ?r, mapped = m\<rparr>" using map_input_valid [OF assms(1) l(3)] by blast
  have c: "range_contains (trim mc) ?r" using l assms(2) by (simp add: range_contains_def state_ok_def)
  have vl: "length v = range_len ?r" using str_slice_SomeD(3) [OF v] .
  show ?thesis
  proof (cases "range_is_empty ?r")
    case True
    then have e: "range_empty (range_end ?r) = ?r" by (simp add: range_is_empty_def range_eq_iff)
    have "v = []" using vl True by (simp add: range_len_def range_is_empty_def)
    then show ?thesis using v m e l(3) c True
      by (auto simp: resolved_capture_def Let_def capture_ok_def implicit_capture_span_def)
  next
    case False
    then have "v \<noteq> []" using vl l(3) by (auto simp: range_len_def range_is_empty_def is_valid_for_def)
    then show ?thesis using v m l(3) c False by (auto simp: resolved_capture_def Let_def capture_ok_def)
  qed
qed

lemma legal_state_ok:
  assumes "matcher_ok mc" and "state_ok mc st" and "resolution_legal mc (cursor st) t bs res" and "capture_ok mc c"
  shows "onward mc st (st\<lparr>extension_checkpoint := k, cursor := range_end (resolution_range res), captures := captures st @ [c]\<rparr>)"
  using assms by (auto simp: resolution_legal_def Let_def onward_def state_ok_def is_valid_for_def)

lemma runs_select:
  assumes "tolerant (ops mc) E" and "matcher_ok mc" and "state_ok mc st" and "stable I"
  shows "runs I (select_state mc slot sp t st bs saved res) (\<lambda>st' s. I s \<and> onward mc st st') (\<lambda>err _. E err)"
  unfolding select_state_def
proof (rule runs_if)
  show "runs I (alift (Fail (InvalidTypeResolution (resolution_range res)))) (\<lambda>st' s. I s \<and> onward mc st st') (\<lambda>err _. E err)"
    using tolerant_intrinsic [OF assms(1)] by (intro runs_lift) auto
  assume "\<not> \<not> resolution_legal mc (cursor st) t bs res"
  then have l: "resolution_legal mc (cursor st) t bs res" by simp
  obtain c where c: "resolved_capture mc slot sp t res = Ret c" "capture_ok mc c"
    using resolved_capture_ok [OF assms(2,3) l] by blast
  show "runs I (abind (restore_to mc saved) (\<lambda>_. abind (call_env mc HookFailure (select_resolution (ops mc) res)) (\<lambda>_.
        abind (checkpoint mc) (\<lambda>branch. abind (alift (resolved_capture mc slot sp t res)) (\<lambda>cap.
        areturn (st\<lparr>extension_checkpoint := branch, cursor := range_end (resolution_range res), captures := captures st @ [cap]\<rparr>))))))
      (\<lambda>st' s. I s \<and> onward mc st st') (\<lambda>err _. E err)"
    by (rule runs_bind [OF runs_restore [OF assms(1,4)]], rule runs_bind [OF runs_call_env [OF assms(1,4)]], simp add: quiet_def,
        rule runs_bind [OF runs_checkpoint [OF assms(1,4)]], rule runs_lift_known [OF c(1)], rule runs_return)
      (use legal_state_ok [OF assms(2,3) l c(2)] in simp)
qed

lemma recovered_state_ok:
  assumes "matcher_ok mc" and "state_ok mc st" and "cursor st < stop" and "stop \<le> range_end (trim mc)" and "is_char_boundary (text_of mc) stop"
  shows "\<exists>st'. recovered_state mc slot sp t st trace stop = Ret st' \<and> onward mc st st' \<and> recovered_failures st' \<noteq> []"
proof -
  let ?r = "range_new (cursor st) stop"
  have vr: "is_valid_for ?r (text_of mc)" using assms boundary_le [OF assms(5)] by (simp add: is_valid_for_def state_ok_def)
  obtain v where v: "str_slice ?r (text_of mc) = Some v" using vr str_slice_Some_iff by blast
  obtain m where m: "map_input mc ?r = Ret \<lparr>local_range = ?r, mapped = m\<rparr>" using map_input_valid [OF assms(1) vr] by blast
  have "v \<noteq> []" using str_slice_SomeD(3) [OF v] assms(3) by (auto simp: range_len_def)
  then have "capture_ok mc (TypeCapture slot ExplicitCapture sp t v \<lparr>local_range = ?r, mapped = m\<rparr> None None)"
    using vr v m assms(2,4) by (simp add: capture_ok_def Let_def range_contains_def state_ok_def)
  then show ?thesis using v m assms by (auto simp: recovered_state_def Let_def onward_def state_ok_def)
qed

lemma try_map_total:
  assumes "\<And>x. x \<in> set xs \<Longrightarrow> \<exists>y. f x = Ret y \<and> P y"
  shows "\<exists>ys. try_map f xs = Ret ys \<and> (\<forall>y \<in> set ys. P y)"
  using assms
proof (induction xs)
  case (Cons x xs)
  then obtain y ys where "f x = Ret y" "P y" "try_map f xs = Ret ys" "\<forall>y \<in> set ys. P y" by (metis list.set_intros)
  then show ?case by simp
qed simp

lemma failure_frame_cases:
  assumes "matcher_ok mc"
  shows "failure_frame mc cur path sp r role \<noteq> Panic" "failure_frame mc cur path sp r role = Fail e \<Longrightarrow> intrinsic e"
  using map_input_not_Panic [OF assms, of r] map_input_intrinsic [of mc r]
  by (auto simp: failure_frame_def outcome_simps split: option.splits)

lemma runs_frame:
  assumes "tolerant (ops mc) E" and "matcher_ok mc"
  shows "runs I (alift (failure_frame mc cur path sp r role)) (\<lambda>_. I) (\<lambda>err _. E err)"
  using failure_frame_cases [OF assms(2)] tolerant_intrinsic [OF assms(1)] by (blast intro: runs_lift)

lemma runs_map_input:
  assumes "tolerant (ops mc) E" and "matcher_ok mc"
  shows "runs I (alift (map_input mc r)) (\<lambda>_. I) (\<lambda>err _. E err)"
  using map_input_not_Panic [OF assms(2)] map_input_intrinsic tolerant_intrinsic [OF assms(1)] by (blast intro: runs_lift)

lemma runs_report:
  assumes "tolerant (ops mc) E" and "matcher_ok mc" and "state_ok mc st" and "stable I"
    and bs: "\<And>b. b \<in> set bs \<Longrightarrow> b \<le> range_end (trim mc) \<and> is_char_boundary (text_of mc) b"
    and found: "\<forall>st' \<in> set found. onward mc st st'"
  shows "runs I (report_type_failure mc slot sp t st path anchored failed bs cause found)
    (\<lambda>out s. I s \<and> (\<forall>st' \<in> set out. onward mc st st') \<and>
      (\<not> recover_type_expression_failures (config mc) \<or> found \<noteq> [] \<longrightarrow> out = found)) (\<lambda>err _. E err)"
proof -
  have rec: "runs I (alift (try_map (recovered_state mc slot sp t st trace) (filter (\<lambda>stop. stop > cursor st) bs)))
    (\<lambda>out s. I s \<and> (\<forall>st' \<in> set out. onward mc st st')) (\<lambda>err _. E err)" for trace
  proof -
    have "\<exists>ys. try_map (recovered_state mc slot sp t st trace) (filter (\<lambda>stop. stop > cursor st) bs) = Ret ys \<and> (\<forall>y \<in> set ys. onward mc st y)"
      by (rule try_map_total) (use recovered_state_ok [OF assms(2,3)] bs in fastforce)
    then show ?thesis by (auto intro: runs_lift)
  qed
  show ?thesis unfolding report_type_failure_def Let_def
    apply (rule runs_bind [OF runs_map_input [OF assms(1,2)]])
    apply (rule runs_bind [OF runs_get [where Q = "\<lambda>_. I"]], assumption)
    apply (rule runs_bind [OF runs_frame [OF assms(1,2)]])
    apply (rule runs_bind [OF runs_modify [where Q = "\<lambda>_. I"]])
     apply (rule stableD(2) [OF assms(4)], assumption)
    apply (rule runs_if)
     apply (rule runs_bind [OF runs_map_input [OF assms(1,2)]])
     apply (rule runs_post [OF rec])
     apply simp
    apply (rule runs_return)
    using found by simp
qed

lemma allowed_boundaries_ok:
  assumes "matcher_ok mc" and "b \<in> set (allowed_boundaries mc from tail)"
  shows "from < b \<and> b \<le> range_end (trim mc) \<and> is_char_boundary (text_of mc) b"
  using skript_boundaries_sorted(2) [OF matcher_okD(2) [OF assms(1)], of b] assms(2) by (auto simp: allowed_boundaries_def)

text \<open>The split points offered to a resolver.\<close>

definition offered :: "('e, 'x) matcher \<Rightarrow> nat \<Rightarrow> type_expr \<Rightarrow> tail_prefix list \<Rightarrow> nat list" where
  "offered mc from t tail =
     (if nullable t \<and> boundary_allows_tail (lower mc) (text_of mc) (trim mc) from tail
      then from # allowed_boundaries mc from tail else allowed_boundaries mc from tail)"

lemma offered_ok:
  assumes "matcher_ok mc" and "state_ok mc st" and "b \<in> set (offered mc (cursor st) t tail)"
  shows "b \<le> range_end (trim mc) \<and> is_char_boundary (text_of mc) b"
  using allowed_boundaries_ok [OF assms(1), of b "cursor st" tail] assms(2,3)
  by (auto simp: offered_def state_ok_def split: if_splits)

definition request_at :: "('e, 'x) matcher \<Rightarrow> text_range \<Rightarrow> type_expr \<Rightarrow> nat \<Rightarrow> tail_prefix list \<Rightarrow> type_request" where
  "request_at mc sp t from tail =
     \<lparr>request_input = text_of mc, request_expression = t, request_pattern_span = sp,
      request_remaining = range_new from (range_end (trim mc)), candidate_ends = offered mc from t tail\<rparr>"

lemma runs_type:
  assumes "tolerant (ops mc) E" and "matcher_ok mc" and "state_ok mc st" and "context_indices cur sp = Some slot"
  shows "runs (matching plan mc cur) (match_type_expression mc sp t st path tail)
    (\<lambda>found s. matching plan mc cur s \<and> (\<forall>st' \<in> set found. onward mc st st')) (\<lambda>err _. E err)"
proof -
  let ?I = "matching plan mc cur"
  let ?bs = "offered mc (cursor st) t tail"
  have slot: "(current_capture_index (Some cur) sp :: (match_error, nat) outcome) = Ret slot"
    by (simp add: current_capture_index_def assms(4))
  have all: "runs ?I (amap (select_state mc slot sp t st ?bs saved) rs) (\<lambda>found s. ?I s \<and> (\<forall>st' \<in> set found. onward mc st st')) (\<lambda>err _. E err)" for rs saved
    by (rule runs_post [OF runs_amap [where R = "\<lambda>_ st'. onward mc st st'"]])
      (use runs_select [OF assms(1-3) stable_matching] in \<open>auto simp: list_all2_conv_all_nth in_set_conv_nth\<close>)
  show ?thesis unfolding match_type_expression_def Let_def
  proof (rule runs_get_known)
    show "current s = Some cur" if "?I s" for s using that by (simp add: matching_def)
  next
    show "runs ?I (abind (alift (current_capture_index (Some cur) sp)) (\<lambda>slot.
       abind (call_env mc (TypeResolverFailure sp) (resolve_type (ops mc)
         \<lparr>request_input = text_of mc, request_expression = t, request_pattern_span = sp,
          request_remaining = range_new (cursor st) (range_end (trim mc)),
          candidate_ends = (if nullable t \<and> boundary_allows_tail (lower mc) (text_of mc) (trim mc) (cursor st) tail
            then cursor st # allowed_boundaries mc (cursor st) tail else allowed_boundaries mc (cursor st) tail)\<rparr>)) (\<lambda>res.
       abind (if resolutions res = [] then areturn None else checkpoint mc) (\<lambda>saved.
       abind (amap (select_state mc slot sp t st (if nullable t \<and> boundary_allows_tail (lower mc) (text_of mc) (trim mc) (cursor st) tail
            then cursor st # allowed_boundaries mc (cursor st) tail else allowed_boundaries mc (cursor st) tail) saved) (resolutions res)) (\<lambda>found.
       abind (restore_to mc saved) (\<lambda>_.
       if found = [] \<or> outcome_failure res \<noteq> None
       then report_type_failure mc slot sp t st path (anchored_failure_end mc (cursor st) tail (allowed_boundaries mc (cursor st) tail))
         (map_option (range_new (cursor st)) (case anchored_failure_end mc (cursor st) tail (allowed_boundaries mc (cursor st) tail) of
            None \<Rightarrow> first_after (cursor st) (allowed_boundaries mc (cursor st) tail) | Some b \<Rightarrow> Some b))
         (if nullable t \<and> boundary_allows_tail (lower mc) (text_of mc) (trim mc) (cursor st) tail
            then cursor st # allowed_boundaries mc (cursor st) tail else allowed_boundaries mc (cursor st) tail) (outcome_failure res) found
       else areturn found))))))
      (\<lambda>found s. ?I s \<and> (\<forall>st' \<in> set found. onward mc st st')) (\<lambda>err _. E err)"
      unfolding offered_def [symmetric]
      apply (rule runs_lift_known [OF slot])
      apply (rule runs_bind [OF runs_call_env [OF assms(1) stable_matching]], simp add: quiet_def)
      apply (rule runs_bind [where R = "\<lambda>_. ?I"])
       apply (rule runs_if)
        apply (rule runs_return, assumption)
       apply (rule runs_checkpoint [OF assms(1) stable_matching])
      apply (rule runs_bind [OF all], rule runs_fact)
      apply (rule runs_bind [OF runs_restore [OF assms(1) stable_matching]])
      apply (rule runs_if)
       apply (rule runs_post [OF runs_report [OF assms(1-3) stable_matching]])
         apply (rule offered_ok [OF assms(2,3)], assumption, assumption, simp)
      apply (rule runs_return)
      by simp
  qed
qed

subsection \<open>Omitted captures\<close>

lemma omitted_capture_ok:
  assumes "matcher_ok mc" and "is_char_boundary (text_of mc) pos" and "range_start (trim mc) \<le> pos" "pos \<le> range_end (trim mc)"
    and "context_indices cur r = Some slot" and "\<forall>c \<in> set caps. capture_ok mc c"
  shows "\<exists>caps'. omitted_capture mc (Some cur) pos t r caps = Ret caps' \<and> set caps \<subseteq> set caps' \<and> (\<forall>c \<in> set caps'. capture_ok mc c) \<and>
    (\<exists>c \<in> set caps'. capture_index c = slot)"
proof -
  obtain m where m: "map_input mc (range_empty pos) = Ret \<lparr>local_range = range_empty pos, mapped = m\<rparr>"
    using map_input_valid [OF assms(1) empty_range_valid [OF assms(2)]] by blast
  have "capture_ok mc (TypeCapture slot (if nullable t then NullCapture else OmittedCapture) r t []
      (implicit_capture_span \<lparr>local_range = range_empty pos, mapped = m\<rparr>) None None)"
    using m assms(3,4) empty_range_valid [OF assms(2)]
    by (auto simp: capture_ok_def Let_def implicit_capture_span_def range_contains_def range_is_empty_def)
  then show ?thesis
    using assms(5,6) m by (auto simp: omitted_capture_def current_capture_index_def list_ex_iff)
qed

text \<open>After \<open>retain_omitted\<close> every typed slot of the elements has a capture.\<close>

function (sequential) typed_slots :: "spanned_element list \<Rightarrow> text_range list" where
  "typed_slots [] = []"
| "typed_slots (Spanned (TypeExpr t) r # es) = r # typed_slots es"
| "typed_slots (Spanned (Group cs) r # es) = typed_slots cs @ typed_slots es"
| "typed_slots (Spanned (OptionElement cs) r # es) = typed_slots cs @ typed_slots es"
| "typed_slots (Spanned (Choice bs) r # es) = concat (map typed_slots bs) @ typed_slots es"
| "typed_slots (Spanned e r # es) = typed_slots es"
  by pat_completeness auto

termination
  by (relation "measure (size_list (size_spanned size))") (auto dest: branch_size [of _ _ "size_spanned size"])

definition retained :: "('e, 'x) matcher \<Rightarrow> candidate_context \<Rightarrow> text_range list \<Rightarrow> pattern_capture list \<Rightarrow> pattern_capture list \<Rightarrow> bool" where
  "retained mc cur slots caps caps' \<longleftrightarrow> set caps \<subseteq> set caps' \<and> (\<forall>c \<in> set caps'. capture_ok mc c) \<and>
     (\<forall>r \<in> set slots. \<exists>c \<in> set caps'. context_indices cur r = Some (capture_index c))"

definition covered :: "candidate_context \<Rightarrow> spanned_element list \<Rightarrow> bool" where
  "covered cur es \<longleftrightarrow> (\<forall>r \<in> set (collect_captures es). context_indices cur r \<noteq> None)"

lemma covered_simps [simp]:
  "covered cur []"
  "covered cur (Spanned (Regex s) r # es) \<longleftrightarrow> context_indices cur r \<noteq> None \<and> covered cur es"
  "covered cur (Spanned (TypeExpr t) r # es) \<longleftrightarrow> context_indices cur r \<noteq> None \<and> covered cur es"
  "covered cur (Spanned (Group cs) r # es) \<longleftrightarrow> covered cur cs \<and> covered cur es"
  "covered cur (Spanned (OptionElement cs) r # es) \<longleftrightarrow> covered cur cs \<and> covered cur es"
  "covered cur (Spanned (Choice bs) r # es) \<longleftrightarrow> (\<forall>b \<in> set bs. covered cur b) \<and> covered cur es"
  "covered cur (Spanned (Literal s) r # es) \<longleftrightarrow> covered cur es"
  "covered cur (Spanned (ParseTag s) r # es) \<longleftrightarrow> covered cur es"
  "covered cur (Spanned (ParseMark n) r # es) \<longleftrightarrow> covered cur es"
  "covered cur (Spanned EmptyBranch r # es) \<longleftrightarrow> covered cur es"
  by (auto simp: covered_def)

lemma retained_append:
  "retained mc cur xs caps caps1 \<Longrightarrow> retained mc cur ys caps1 caps2 \<Longrightarrow> retained mc cur (xs @ ys) caps caps2"
  unfolding retained_def by (auto dest: subsetD) blast

lemma retained_ok: "retained mc cur xs caps caps' \<Longrightarrow> \<forall>c \<in> set caps'. capture_ok mc c"
  by (simp add: retained_def)

lemma try_for_retained:
  assumes "\<And>b caps. b \<in> set bs \<Longrightarrow> \<forall>c \<in> set caps. capture_ok mc c \<Longrightarrow> \<exists>caps'. f b caps = Ret caps' \<and> retained mc cur (g b) caps caps'"
    and "\<forall>c \<in> set caps. capture_ok mc c"
  shows "\<exists>caps'. try_for f bs caps = Ret caps' \<and> retained mc cur (concat (map g bs)) caps caps'"
  using assms
proof (induction bs arbitrary: caps)
  case Nil
  then show ?case by (simp add: retained_def)
next
  case (Cons b bs)
  obtain caps1 where 1: "f b caps = Ret caps1" "retained mc cur (g b) caps caps1" using Cons.prems by (metis list.set_intros(1))
  obtain caps2 where "try_for f bs caps1 = Ret caps2" "retained mc cur (concat (map g bs)) caps1 caps2"
    using Cons.IH [of caps1] Cons.prems(1) retained_ok [OF 1(2)] by (metis list.set_intros(2))
  then show ?case using 1 retained_append by fastforce
qed

lemma retain_omitted_ok:
  "matcher_ok mc \<Longrightarrow> is_char_boundary (text_of mc) pos \<Longrightarrow> range_start (trim mc) \<le> pos \<Longrightarrow> pos \<le> range_end (trim mc) \<Longrightarrow>
    covered cur es \<Longrightarrow> \<forall>c \<in> set caps. capture_ok mc c \<Longrightarrow> c = Some cur \<Longrightarrow>
    \<exists>caps'. retain_omitted mc c pos es caps = Ret caps' \<and> retained mc cur (typed_slots es) caps caps'"
proof (induction mc c pos es caps rule: retain_omitted.induct)
  case (1 mc c pos caps)
  then show ?case by (simp add: retained_def)
next
  case (2 mc c pos t r es caps)
  obtain slot where slot: "context_indices cur r = Some slot" using "2.prems"(5) by auto
  obtain caps1 where o: "omitted_capture mc (Some cur) pos t r caps = Ret caps1" "set caps \<subseteq> set caps1"
      "\<forall>c \<in> set caps1. capture_ok mc c" "\<exists>c \<in> set caps1. capture_index c = slot"
    using omitted_capture_ok [OF "2.prems"(1-4) slot "2.prems"(6), of t] by blast
  have 1: "omitted_capture mc c pos t r caps = Ret caps1" "retained mc cur [r] caps caps1"
    using o slot "2.prems"(7) by (simp_all add: retained_def) metis
  obtain caps2 where "retain_omitted mc c pos es caps1 = Ret caps2" "retained mc cur (typed_slots es) caps1 caps2"
    using "2.IH" [OF 1(1)] "2.prems" retained_ok [OF 1(2)] by auto
  then show ?case using 1 retained_append by fastforce
next
  case (3 mc c pos cs r es caps)
  obtain caps1 where 1: "retain_omitted mc c pos cs caps = Ret caps1" "retained mc cur (typed_slots cs) caps caps1"
    using "3.IH"(1) "3.prems" by auto
  obtain caps2 where "retain_omitted mc c pos es caps1 = Ret caps2" "retained mc cur (typed_slots es) caps1 caps2"
    using "3.IH"(2) [OF 1(1)] "3.prems" retained_ok [OF 1(2)] by auto
  then show ?case using 1 retained_append by fastforce
next
  case (4 mc c pos cs r es caps)
  obtain caps1 where 1: "retain_omitted mc c pos cs caps = Ret caps1" "retained mc cur (typed_slots cs) caps caps1"
    using "4.IH"(1) "4.prems" by auto
  obtain caps2 where "retain_omitted mc c pos es caps1 = Ret caps2" "retained mc cur (typed_slots es) caps1 caps2"
    using "4.IH"(2) [OF 1(1)] "4.prems" retained_ok [OF 1(2)] by auto
  then show ?case using 1 retained_append by fastforce
next
  case (5 mc c pos bs r es caps)
  obtain caps1 where 1: "try_for (retain_omitted mc c pos) bs caps = Ret caps1" "retained mc cur (concat (map typed_slots bs)) caps caps1"
    using try_for_retained [of bs mc "retain_omitted mc c pos" cur typed_slots caps] "5.IH"(1) "5.prems" by auto
  obtain caps2 where "retain_omitted mc c pos es caps1 = Ret caps2" "retained mc cur (typed_slots es) caps1 caps2"
    using "5.IH"(2) [OF 1(1)] "5.prems" retained_ok [OF 1(2)] by auto
  then show ?case using 1 retained_append by fastforce
qed auto

end
