(* ===== verification/Match_Safe.thy ===== *)
theory Match_Safe
  imports Match_Types_Safe
begin

text \<open>
  The recursion over a pattern, for every environment: it never panics, it only moves forward, and it
  reaches only legal states.
\<close>

subsection \<open>Hooks around an element\<close>

definition forward :: "('e engine \<Rightarrow> bool) \<Rightarrow> ('e, 'x) matcher \<Rightarrow> match_state \<Rightarrow> match_state list \<Rightarrow> 'e engine \<Rightarrow> bool" where
  "forward I mc st found s \<longleftrightarrow> I s \<and> (\<forall>st' \<in> set found. onward mc st st')"

lemma runs_hook_range:
  assumes "tolerant (ops mc) E"
  shows "runs I (alift (validate_hook_range mc q allowed)) (\<lambda>_ s. I s \<and> is_valid_for q (text_of mc) \<and>
    range_start q = range_start allowed \<and> range_end q \<le> range_end allowed) (\<lambda>err _. E err)"
  using tolerant_intrinsic [OF assms] by (intro runs_lift) (auto simp: validate_hook_range_def split: if_splits)

text \<open>The cursor set by a hook.\<close>

lemma hooked_state_ok:
  assumes "state_ok mc st" and "state_ok mc st0" and "is_valid_for q (text_of mc)" and "range_start q = cursor st0" and "range_end q \<le> range_end (trim mc)"
  shows "onward mc st0 (st\<lparr>cursor := range_end q\<rparr>)"
  using assms by (auto simp: onward_def state_ok_def is_valid_for_def)

lemma runs_hooked:
  assumes "tolerant (ops mc) E" and "stable I" and "state_ok mc st" and "state_ok mc st0"
  shows "runs I (abind (alift (validate_hook_range mc q (range_new (cursor st0) (range_end (trim mc))))) (\<lambda>_.
      abind (with_checkpoint mc (st\<lparr>cursor := range_end q\<rparr>)) (\<lambda>st. areturn [st]))) (forward I mc st0) (\<lambda>err _. E err)"
proof (rule runs_bind [OF runs_hook_range [OF assms(1)]], rule runs_fact)
  fix u :: unit
  assume "is_valid_for q (text_of mc) \<and> range_start q = range_start (range_new (cursor st0) (range_end (trim mc))) \<and>
    range_end q \<le> range_end (range_new (cursor st0) (range_end (trim mc)))"
  then have "onward mc st0 (st\<lparr>cursor := range_end q\<rparr>)" using hooked_state_ok [OF assms(3,4)] by simp
  then show "runs I (abind (with_checkpoint mc (st\<lparr>cursor := range_end q\<rparr>)) (\<lambda>st. areturn [st])) (forward I mc st0) (\<lambda>err _. E err)"
    by (intro runs_bind [OF runs_with_checkpoint [OF assms(1,2)]] runs_return)
      (auto simp: forward_def onward_def dest!: state_ok_same [where mc = mc])
qed

lemma runs_after_element:
  assumes "tolerant (ops mc) E" and "matcher_ok mc" and "stable I" and "\<And>s. I s \<Longrightarrow> current s \<noteq> None"
    and "onward mc st0 st" and "state_ok mc st0"
  shows "runs I (after_element mc sp (cursor st0) path st) (forward I mc st0) (\<lambda>err _. E err)"
proof -
  have ok: "state_ok mc st" using assms(5) by (simp add: onward_def)
  show ?thesis unfolding after_element_def Let_def
    apply (rule runs_bind [OF runs_restore [OF assms(1,3)]])
    apply (rule runs_bind [OF runs_dispatch [OF assms(1,3,4) map_input_not_Panic [OF assms(2)]]], assumption)
    apply (rule runs_control)
      apply (intro runs_bind [OF runs_with_checkpoint [OF assms(1,3)]] runs_return)
    using assms(5) apply (auto simp: forward_def onward_def dest!: state_ok_same [where mc = mc]) [1]
     apply (rule runs_hooked [OF assms(1,3) ok assms(6)])
    apply (rule runs_bind [OF runs_record_at [OF assms(3)]], rule runs_return)
    by (simp add: forward_def)
qed

lemma runs_after_failed_element:
  assumes "tolerant (ops mc) E" and "matcher_ok mc" and "stable I" and "\<And>s. I s \<Longrightarrow> current s \<noteq> None" and "state_ok mc st"
  shows "runs I (after_failed_element mc sp (cursor st) path st) (forward I mc st) (\<lambda>err _. E err)"
  unfolding after_failed_element_def
  apply (rule runs_bind [OF runs_restore [OF assms(1,3)]])
  apply (rule runs_bind [OF runs_dispatch [OF assms(1,3,4) map_input_not_Panic [OF assms(2)]]], assumption)
  apply (rule runs_control)
    apply (rule runs_return, simp add: forward_def)
   apply (rule runs_hooked [OF assms(1,3,5,5)])
  apply (rule runs_bind [OF runs_record_at [OF assms(3)]], rule runs_return)
  by (simp add: forward_def)

lemma forward_same: "same_but_checkpoint st st' \<Longrightarrow> forward I mc st' found s \<Longrightarrow> forward I mc st found s"
  using state_ok_same [of st st' mc] by (simp add: forward_def onward_def)

lemma runs_element_hooks:
  assumes "tolerant (ops mc) E" and "matcher_ok mc" and "stable I" and "\<And>s. I s \<Longrightarrow> current s \<noteq> None" and "state_ok mc st"
    and native: "\<And>st. state_ok mc st \<Longrightarrow> runs I (native st) (forward I mc st) (\<lambda>err _. E err)"
  shows "runs I (element_hooks mc sp st path native) (forward I mc st) (\<lambda>err _. E err)"
  unfolding element_hooks_def Let_def
proof (rule runs_bind [OF runs_dispatch [OF assms(1,3,4) map_input_not_Panic [OF assms(2)]]], assumption,
    rule runs_bind [OF runs_with_checkpoint [OF assms(1,3)]], rule runs_fact)
  fix control st0 assume same: "same_but_checkpoint st st0"
  then have st0: "state_ok mc st0" "cursor st0 = cursor st" using state_ok_same [OF same, of mc] assms(5) by auto
  have body: "runs I (case control of
          Continue \<Rightarrow> native st0
        | MatchTo q \<Rightarrow> abind (alift (validate_hook_range mc q (range_new (cursor st0) (range_end (trim mc))))) (\<lambda>_.
            areturn [st0\<lparr>cursor := range_end q\<rparr>])
        | Reject reason \<Rightarrow> abind (record_at (cursor st0) (HookRejected reason)) (\<lambda>_. areturn [])) (forward I mc st0) (\<lambda>err _. E err)"
    apply (rule runs_control)
      apply (rule native [OF st0(1)])
     apply (rule runs_bind [OF runs_hook_range [OF assms(1)]], rule runs_fact, rule runs_return)
     apply (use hooked_state_ok [OF st0(1) st0(1)] in \<open>simp add: forward_def\<close>)
    by (rule runs_bind [OF runs_record_at [OF assms(3)]], rule runs_return) (simp add: forward_def)
  have after: "runs I (aconcat (after_element mc sp (cursor st0) path) found) (forward I mc st0) (\<lambda>err _. E err)"
    if "\<forall>st' \<in> set found. onward mc st0 st'" for found
  proof (rule runs_post [OF runs_aconcat [where R = "\<lambda>_ ys. \<forall>y \<in> set ys. onward mc st0 y"]])
    show "runs I (after_element mc sp (cursor st0) path x) (\<lambda>y s. I s \<and> (\<forall>y \<in> set y. onward mc st0 y)) (\<lambda>err _. E err)" if "x \<in> set found" for x
      using runs_after_element [OF assms(1-4) _ st0(1), of x] \<open>\<forall>st' \<in> set found. onward mc st0 st'\<close> that by (simp add: forward_def [abs_def])
    show "forward I mc st0 ys s" if "I s \<and> (\<exists>yss. list_all2 (\<lambda>_ ys. \<forall>y \<in> set ys. onward mc st0 y) found yss \<and> ys = concat yss)" for ys s
      using that concat_list_all2_all [of "\<lambda>_. onward mc st0"] by (auto simp: forward_def) blast
  qed
  have "runs I (abind (case control of
          Continue \<Rightarrow> native st0
        | MatchTo q \<Rightarrow> abind (alift (validate_hook_range mc q (range_new (cursor st0) (range_end (trim mc))))) (\<lambda>_.
            areturn [st0\<lparr>cursor := range_end q\<rparr>])
        | Reject reason \<Rightarrow> abind (record_at (cursor st0) (HookRejected reason)) (\<lambda>_. areturn [])) (\<lambda>found.
      if found = [] then after_failed_element mc sp (cursor st0) path st0
      else aconcat (after_element mc sp (cursor st0) path) found)) (forward I mc st0) (\<lambda>err _. E err)"
  proof (rule runs_bind [OF body], unfold forward_def [of I mc st0, abs_def], rule runs_fact, rule runs_if)
    fix found assume f: "\<forall>st' \<in> set found. onward mc st0 st'"
    show "runs I (after_failed_element mc sp (cursor st0) path st0) (\<lambda>found s. I s \<and> (\<forall>st' \<in> set found. onward mc st0 st')) (\<lambda>err _. E err)"
      using runs_after_failed_element [OF assms(1-4) st0(1)] by (simp add: forward_def [abs_def])
    show "runs I (aconcat (after_element mc sp (cursor st0) path) found) (\<lambda>found s. I s \<and> (\<forall>st' \<in> set found. onward mc st0 st')) (\<lambda>err _. E err)"
      using after [OF f] by (simp add: forward_def [abs_def])
  qed
  note all = runs_post [OF this, of "forward I mc st", OF forward_same [OF same]]
  show "runs I (abind (case control of
          Continue \<Rightarrow> native st0
        | MatchTo q \<Rightarrow> abind (alift (validate_hook_range mc q (range_new (cursor st) (range_end (trim mc))))) (\<lambda>_.
            areturn [st0\<lparr>cursor := range_end q\<rparr>])
        | Reject reason \<Rightarrow> abind (record_at (cursor st) (HookRejected reason)) (\<lambda>_. areturn [])) (\<lambda>found.
      if found = [] then after_failed_element mc sp (cursor st) path st0
      else aconcat (after_element mc sp (cursor st) path) found)) (forward I mc st) (\<lambda>err _. E err)"
    using all unfolding st0(2) by simp
qed

subsection \<open>The recursion\<close>

lemma forwardI: "I s \<Longrightarrow> (\<And>st'. st' \<in> set found \<Longrightarrow> onward mc st st') \<Longrightarrow> forward I mc st found s"
  by (simp add: forward_def)

lemma forward_trans: "onward mc st st1 \<Longrightarrow> forward I mc st1 found s \<Longrightarrow> forward I mc st found s"
  by (auto simp: forward_def intro: onward_trans)

lemma runs_forward: "runs I m (\<lambda>found s. I s \<and> (\<forall>st' \<in> set found. onward mc st st')) E \<longleftrightarrow> runs I m (forward I mc st) E"
  by (simp add: forward_def [abs_def])

lemma forward_fact: "(\<And>x. (\<And>st'. st' \<in> set x \<Longrightarrow> onward mc st st') \<Longrightarrow> runs I (f x) Q E) \<Longrightarrow> runs (forward I mc st x) (f x) Q E"
  unfolding forward_def by (rule runs_fact) blast

lemma runs_forward_concat:
  assumes "\<And>st'. st' \<in> set found \<Longrightarrow> onward mc st st'"
    and "\<And>st'. st' \<in> set found \<Longrightarrow> state_ok mc st' \<Longrightarrow> runs I (f st') (forward I mc st') E"
  shows "runs I (aconcat f found) (forward I mc st) E"
proof (rule runs_post [OF runs_aconcat [where R = "\<lambda>_ ys. \<forall>y \<in> set ys. onward mc st y"]])
  show "runs I (f x) (\<lambda>y s. I s \<and> (\<forall>y \<in> set y. onward mc st y)) E" if "x \<in> set found" for x
    unfolding runs_forward
    by (rule runs_post [OF assms(2) [OF that] forward_trans]) (use assms(1) [OF that] in \<open>auto simp: onward_def\<close>)
  show "forward I mc st ys s" if "I s \<and> (\<exists>yss. list_all2 (\<lambda>_ ys. \<forall>y \<in> set ys. onward mc st y) found yss \<and> ys = concat yss)" for ys s
    using that concat_list_all2_all [of "\<lambda>_. onward mc st"] by (auto simp: forward_def) blast
qed

lemma state_ok_captures: "state_ok mc st \<Longrightarrow> \<forall>c \<in> set caps. capture_ok mc c \<Longrightarrow> state_ok mc (st\<lparr>captures := caps\<rparr>)"
  by (simp add: state_ok_def)

lemma state_ok_captures_of: "state_ok mc st \<Longrightarrow> \<forall>c \<in> set (captures st). capture_ok mc c"
  by (simp add: state_ok_def)

text \<open>Keeping the omitted captures of a part of the pattern.\<close>

lemma retain_state_ok:
  assumes "matcher_ok mc" and "state_ok mc st0" and "covered cur es" and "\<forall>c \<in> set caps. capture_ok mc c"
  obtains caps' where "retain_omitted mc (Some cur) (cursor st0) es caps = Ret caps'" "\<forall>c \<in> set caps'. capture_ok mc c"
    "retained mc cur (typed_slots es) caps caps'"
  using retain_omitted_ok [of mc "cursor st0" cur es caps "Some cur"] assms retained_ok by (metis state_ok_def)

lemma retain_other_ok:
  assumes "matcher_ok mc" and "state_ok mc st0" and "\<forall>b \<in> set every. covered cur b" and "state_ok mc st"
  shows "\<exists>st'. retain_other_branches mc (Some cur) (cursor st0) every i st = Ret st' \<and>
    (\<exists>caps. st' = st\<lparr>captures := caps\<rparr> \<and> (\<forall>c \<in> set caps. capture_ok mc c))"
proof -
  let ?f = "\<lambda>(j, branch) caps. if j = i then Ret caps else retain_omitted mc (Some cur) (cursor st0) branch caps"
  have "\<exists>caps. try_for ?f (enumerate 0 every) (captures st) = Ret caps \<and> (\<forall>c \<in> set caps. capture_ok mc c)"
  proof (rule try_for_total [where P = "\<lambda>caps. \<forall>c \<in> set caps. capture_ok mc c"])
    fix x u assume x: "x \<in> set (enumerate 0 every)" and u: "\<forall>c \<in> set u. capture_ok mc c"
    show "\<exists>v. ?f x u = Ret v \<and> (\<forall>c \<in> set v. capture_ok mc c)"
    proof (cases x)
      case (Pair j b)
      have "b \<in> set every" using x Pair by (auto simp: in_set_enumerate_eq)
      then obtain v where "retain_omitted mc (Some cur) (cursor st0) b u = Ret v" "\<forall>c \<in> set v. capture_ok mc c"
        using retain_state_ok [OF assms(1,2) _ u] assms(3) by metis
      then show ?thesis using Pair u by auto
    qed
  qed (use assms(4) in \<open>simp add: state_ok_def\<close>)
  then show ?thesis by (auto simp: retain_other_branches_def)
qed

lemma runs_retain_other:
  assumes "matcher_ok mc" and "state_ok mc st" and "\<forall>b \<in> set every. covered cur b" and "\<And>st'. st' \<in> set found \<Longrightarrow> onward mc st st'"
  shows "runs I (alift (try_map (retain_other_branches mc (Some cur) (cursor st) every i) found)) (forward I mc st) E"
proof -
  have "\<exists>ys. try_map (retain_other_branches mc (Some cur) (cursor st) every i) found = Ret ys \<and> (\<forall>y \<in> set ys. onward mc st y)"
  proof (rule try_map_total)
    fix x assume "x \<in> set found"
    then have x: "state_ok mc x" "cursor st \<le> cursor x" using assms(4) by (auto simp: onward_def)
    then show "\<exists>y. retain_other_branches mc (Some cur) (cursor st) every i x = Ret y \<and> onward mc st y"
      using retain_other_ok [OF assms(1,2,3) x(1)] state_ok_captures [OF x(1)] by (fastforce simp: onward_def)
  qed
  then show ?thesis by (auto intro: runs_lift simp: forward_def)
qed

text \<open>What the recursion needs to know about an element and its place in the pattern.\<close>

definition placed :: "plan \<Rightarrow> candidate_context \<Rightarrow> path_segment list \<Rightarrow> nat \<Rightarrow> spanned_element list \<Rightarrow> bool" where
  "placed plan cur path i es \<longleftrightarrow> small es \<and> covered cur es \<and> here_from plan cur path i es"

definition placed_element :: "plan \<Rightarrow> candidate_context \<Rightarrow> path_segment list \<Rightarrow> pattern_element \<Rightarrow> text_range \<Rightarrow> bool" where
  "placed_element plan cur path e r \<longleftrightarrow> small [Spanned e r] \<and> covered cur [Spanned e r] \<and> here plan cur path e"

lemma small_Cons: "small (x # xs) \<Longrightarrow> small [x] \<and> small xs"
  by (cases "x # xs" rule: small.cases) auto

lemma covered_Cons: "covered cur (x # xs) \<longleftrightarrow> covered cur [x] \<and> covered cur xs"
  by (cases "x # xs" rule: small.cases) auto

lemma placed_Cons:
  "placed plan cur path i (Spanned e r # xs) \<Longrightarrow>
   placed_element plan cur (path @ [ElementSegment (path_index i)]) e r \<and> placed plan cur path (i + 1) xs"
  using small_Cons [of "Spanned e r" xs] covered_Cons [of cur "Spanned e r" xs]
  by (auto simp: placed_def placed_element_def here_from_def here_def leads_to_from_Cons)

lemma placed_inside:
  "placed_element plan cur path (Group es) r \<Longrightarrow> placed plan cur path 0 es"
  "placed_element plan cur path (OptionElement es) r \<Longrightarrow> placed plan cur path 0 es"
  by (auto simp: placed_def placed_element_def here_from_def here_def intro: leads_to_children)

lemma placed_branch:
  assumes "placed_element plan cur path (Choice bs) r" and "j < length bs"
  shows "placed plan cur (path @ [BranchSegment (path_index j)]) 0 (bs ! j)"
  using assms by (auto simp: placed_def placed_element_def here_from_def here_def list_all_iff intro: leads_to_branch)

definition safe :: "plan \<Rightarrow> ('e, 'x) matcher \<Rightarrow> candidate_context \<Rightarrow> (match_error \<Rightarrow> bool) \<Rightarrow> match_state \<Rightarrow>
    ('e, match_state list) engine_action \<Rightarrow> bool" where
  "safe plan mc cur E st m \<longleftrightarrow> (matcher_ok mc \<longrightarrow> tolerant (ops mc) E \<longrightarrow> state_ok mc st \<longrightarrow>
     runs (matching plan mc cur) m (forward (matching plan mc cur) mc st) (\<lambda>err _. E err))"

lemma safeI:
  "(matcher_ok mc \<Longrightarrow> tolerant (ops mc) E \<Longrightarrow> state_ok mc st \<Longrightarrow>
     runs (matching plan mc cur) m (forward (matching plan mc cur) mc st) (\<lambda>err _. E err)) \<Longrightarrow> safe plan mc cur E st m"
  by (simp add: safe_def)

lemma safeD:
  "safe plan mc cur E st m \<Longrightarrow> matcher_ok mc \<Longrightarrow> tolerant (ops mc) E \<Longrightarrow> state_ok mc st \<Longrightarrow>
     runs (matching plan mc cur) m (forward (matching plan mc cur) mc st) (\<lambda>err _. E err)"
  by (simp add: safe_def)

lemma matching_current: "matching plan mc cur s \<Longrightarrow> current s = Some cur"
  by (simp add: matching_def)

lemma safe_sequence_Cons:
  assumes "safe plan mc cur E st (match_element mc x st (path @ [ElementSegment (path_index i)])
      (if has_tail (element x) then sequence_tail_prefixes xs outer else outer))"
    and "\<And>st. safe plan mc cur E st (match_sequence mc xs (i + 1) st path outer)"
  shows "safe plan mc cur E st (match_sequence mc (x # xs) i st path outer)"
proof (rule safeI)
  assume a: "matcher_ok mc" "tolerant (ops mc) E" "state_ok mc st"
  note here = a(2) stable_matching
  show "runs (matching plan mc cur) (match_sequence mc (x # xs) i st path outer) (forward (matching plan mc cur) mc st) (\<lambda>err _. E err)"
    unfolding match_sequence.simps
    apply (rule runs_bind [OF runs_restore [OF here]])
    apply (rule runs_bind [OF runs_visit [OF here]])
    apply (rule runs_bind [OF safeD [OF assms(1) a]])
    apply (rule forward_fact)
    apply (rule runs_bind [OF runs_backtracks [OF here]])
    apply (rule runs_forward_concat, assumption)
    by (rule safeD [OF assms(2) a(1,2)])
qed

lemma safe_option:
  assumes "covered cur es" and "safe plan mc cur E st (match_sequence mc es 0 st path tail)"
  shows "safe plan mc cur E st (match_element_default mc (OptionElement es) r st path tail)"
proof (rule safeI)
  assume a: "matcher_ok mc" "tolerant (ops mc) E" "state_ok mc st"
  obtain caps where caps: "retain_omitted mc (Some cur) (cursor st) es (captures st) = Ret caps" "\<forall>c \<in> set caps. capture_ok mc c"
    using retain_state_ok [OF a(1,3) assms(1) state_ok_captures_of [OF a(3)]] by metis
  have ok: "onward mc st (st\<lparr>pending_implicit_tag := None, captures := caps\<rparr>)"
    using state_ok_captures [OF state_ok_pending [OF a(3)] caps(2)] by (simp add: onward_def)
  show "runs (matching plan mc cur) (match_element_default mc (OptionElement es) r st path tail)
      (forward (matching plan mc cur) mc st) (\<lambda>err _. E err)"
    unfolding match_element_default.simps
    apply (rule runs_bind [OF safeD [OF assms(2) a]])
    apply (rule forward_fact)
    apply (rule runs_get_known, erule matching_current)
    apply (rule runs_lift_known [OF caps(1)])
    apply (rule runs_return)
    using ok by (auto simp: forward_def)
qed

lemma safe_branches_Cons:
  assumes "\<forall>b \<in> set every. covered cur b" and "safe plan mc cur E st (match_sequence mc b 0 st (path @ [BranchSegment (path_index i)]) tail)"
    and "safe plan mc cur E st (match_branches mc every bs (i + 1) st path tail)"
  shows "safe plan mc cur E st (match_branches mc every (b # bs) i st path tail)"
proof (rule safeI)
  assume a: "matcher_ok mc" "tolerant (ops mc) E" "state_ok mc st"
  show "runs (matching plan mc cur) (match_branches mc every (b # bs) i st path tail) (forward (matching plan mc cur) mc st) (\<lambda>err _. E err)"
    unfolding match_branches.simps
    apply (rule runs_bind [OF safeD [OF assms(2) a]])
    apply (rule forward_fact)
    apply (rule runs_get_known, erule matching_current)
    apply (rule runs_bind [OF runs_retain_other [OF a(1,3) assms(1)]], assumption)
    apply (rule forward_fact)
    apply (rule runs_bind [OF safeD [OF assms(3) a]])
    apply (rule forward_fact)
    apply (rule runs_return)
    by (auto simp: forward_def)
qed

lemma safe_leaf:
  assumes "matcher_ok mc \<Longrightarrow> state_ok mc st \<Longrightarrow> r \<noteq> Panic \<and> (\<forall>err. r = Fail err \<longrightarrow> intrinsic err) \<and> (\<forall>st'. r = Ret st' \<longrightarrow> onward mc st st')"
  shows "safe plan mc cur E st (alift (obind r (\<lambda>st. Ret [st])))"
  using assms tolerant_intrinsic [of "ops mc" E] unfolding safe_def
  by (auto intro!: runs_lift simp: forward_def outcome_simps)

lemma match_tag_cases:
  "matcher_ok mc \<Longrightarrow> match_tag mc s sp st \<noteq> Panic" "match_tag mc s sp st = Fail err \<Longrightarrow> intrinsic err"
  "matcher_ok mc \<Longrightarrow> match_mark mc n sp st \<noteq> Panic" "match_mark mc n sp st = Fail err \<Longrightarrow> intrinsic err"
  using map_input_not_Panic [of mc "range_empty (cursor st)"] map_input_intrinsic [of mc "range_empty (cursor st)"]
  by (auto simp: match_tag_def match_mark_def outcome_simps Let_def split: if_splits)

lemma captured_slot: "covered cur [Spanned (Regex s) r] \<Longrightarrow> \<exists>slot. context_indices cur r = Some slot"
  "covered cur [Spanned (TypeExpr t) r] \<Longrightarrow> \<exists>slot. context_indices cur r = Some slot"
  by auto

lemma recursion_safe:
  shows "placed plan cur path i es \<Longrightarrow> safe plan mc cur E st (match_sequence mc es i st path tail)"
    and "placed_element plan cur path (element x) (span x) \<Longrightarrow> safe plan mc cur E st (match_element mc x st path tail)"
    and "placed_element plan cur path e r \<Longrightarrow> safe plan mc cur E st (match_element_default mc e r st path tail)"
    and "\<exists>r. placed_element plan cur path (Choice every) r \<Longrightarrow> bs = drop i every \<Longrightarrow>
      safe plan mc cur E st (match_branches mc every bs i st path tail)"
proof (induction mc es i st path tail and mc x st path tail and mc e r st path tail and mc every bs i st path tail
    rule: match_sequence_match_element_match_element_default_match_branches.induct)
  case (1 mc i st path outer)
  show ?case
    by (rule safeI, unfold match_sequence.simps, rule runs_bind [OF runs_restore runs_bind [OF runs_visit runs_return]])
      (auto simp: forward_def onward_refl)
next
  case (2 mc x xs i st path outer)
  then show ?case using placed_Cons [of plan cur path i "element x" "span x" xs] by (intro safe_sequence_Cons) auto
next
  case (3 mc e sp st path tail)
  show ?case
    by (rule safeI, unfold match_element.simps, rule runs_element_hooks)
      (use 3 in \<open>auto simp: matching_current intro: safeD\<close>)
next
  case (4 mc s sp st path tail)
  then have "here plan cur path (Literal s)" by (simp add: placed_element_def)
  then show ?case
    by (intro safeI, unfold match_element_default.simps, intro runs_post [OF runs_literal])
      (use state_ok_push_implicit [of mc st s] literal_states_ok [of mc "push_implicit_tag s st"] in \<open>auto simp: forward_def onward_def\<close>)
next
  case (5 mc bs sp st path tail)
  then have "safe plan mc cur E st (match_branches mc bs bs 0 st path tail)" by auto
  then show ?case
    by (intro safeI, unfold match_element_default.simps, intro runs_bind [OF runs_backtracks]) (auto intro: safeD)
next
  case (6 mc es sp st path tail)
  then show ?case using placed_inside(1) by simp
next
  case (7 mc es sp st path tail)
  then show ?case using placed_inside(2) [OF "7.prems"] by (intro safe_option) (auto simp: placed_def)
next
  case (8 mc s sp st path tail)
  then obtain slot where "here plan cur path (Regex s)" "context_indices cur sp = Some slot"
    using captured_slot(1) by (auto simp: placed_element_def)
  then show ?case
    by (intro safeI, unfold match_element_default.simps, intro runs_post [OF runs_regex])
      (auto simp: forward_def onward_def dest: regex_states_ok [OF _ state_ok_pending])
next
  case (9 mc t sp st path tail)
  then obtain slot where slot: "context_indices cur sp = Some slot"
    using captured_slot(2) by (auto simp: placed_element_def)
  show ?case
    by (intro safeI, unfold match_element_default.simps, intro runs_post [OF runs_type [OF _ _ state_ok_pending slot]])
      (auto simp: forward_def onward_def)
next
  case (10 mc s sp st path tail)
  show ?case unfolding match_element_default.simps
    by (rule safe_leaf) (simp add: match_tag_cases(1,2) match_tag_ok)
next
  case (11 mc n sp st path tail)
  show ?case unfolding match_element_default.simps
    by (rule safe_leaf) (simp add: match_tag_cases(3,4) match_mark_ok)
next
  case (12 mc sp st path tail)
  show ?case
    by (rule safeI, unfold match_element_default.simps, rule runs_return)
      (auto simp: forward_def onward_def intro: state_ok_pending)
next
  case (13 mc every i st path tail)
  show ?case by (rule safeI, unfold match_branches.simps, rule runs_return) (auto simp: forward_def)
next
  case (14 mc every b bs i st path tail)
  then obtain r where r: "placed_element plan cur path (Choice every) r" by blast
  have l: "i < length every" using "14.prems"(2) by (metis drop_eq_Nil leI list.distinct(1))
  then have "b # bs = every ! i # drop (i + 1) every" using "14.prems"(2) Cons_nth_drop_Suc [OF l] by simp
  then have "b = every ! i" "bs = drop (i + 1) every" using list.inject by auto
  then show ?case
    using 14 placed_branch [OF r l] r by (intro safe_branches_Cons) (auto simp: placed_element_def)
qed

end
