(* ===== verification/Match_Returned.thy ===== *)
theory Match_Returned
  imports Match_Safe
begin

text \<open>
  The candidate level, for every environment: what is returned is a match of one of the candidates by
  one of its patterns, with every typed slot captured, or what the environment made of such a match.
\<close>

subsection \<open>Slots of a pattern\<close>

lemma indices_defined:
  "foldl (\<lambda>m (i, r). m(r \<mapsto> i)) m (enumerate n rs) r = None \<longleftrightarrow> m r = None \<and> r \<notin> set rs"
  by (induction rs arbitrary: m n) (auto split: if_splits)

lemma covered_pattern: "covered (candidate_context c (Some p)) (elements (parsed p))"
  by (auto simp: covered_def candidate_context_def pattern_capture_indices_def indices_defined)

subsection \<open>Completed matches\<close>

definition good_match :: "('e, 'x) matcher \<Rightarrow> pattern_candidate \<Rightarrow> match_pattern \<Rightarrow> pattern_match \<Rightarrow> bool" where
  "good_match mc c p m \<longleftrightarrow>
     map_input mc (trim mc) = Ret (pm_span m) \<and>
     sorted_wrt (\<le>) (map capture_index (pm_captures m)) \<and> (\<forall>x \<in> set (pm_captures m). capture_ok mc x) \<and>
     (\<forall>r \<in> set (typed_slots (elements (parsed p))). \<exists>x \<in> set (pm_captures m).
        context_indices (candidate_context c (Some p)) r = Some (capture_index x)) \<and>
     (\<forall>t \<in> set (pm_tags m). tag_value t \<noteq> [] \<and> span_ok mc (tag_input_span t)) \<and>
     (\<forall>x \<in> set (pm_marks m). span_ok mc (mark_input_span x)) \<and> marks_from 0 (pm_marks m) (pm_mark m)"

text \<open>The match names its candidate and its pattern, and is good or was completed from a good one.\<close>

definition returned :: "('e, 'x) matcher \<Rightarrow> pattern_candidate \<Rightarrow> 'x candidate_match \<Rightarrow> bool" where
  "returned mc c m \<longleftrightarrow> (\<exists>p \<in> set (patterns c). \<exists>g.
     cm_kind m = candidate_kind c \<and> cm_definition_id m = definition_id c \<and> cm_registration_id m = registration_id c \<and>
     cm_pattern_index m = pattern_index p \<and> cm_pattern m = pattern_source p \<and> good_match mc c p g \<and>
     (cm_matched m = g \<or> (\<exists>e e'. complete_typed_captures (ops mc) c p g e = (Inr (None, cm_matched m), e'))))"

definition agrees :: "plan \<Rightarrow> pattern_candidate list \<Rightarrow> bool" where
  "agrees plan cs \<longleftrightarrow> (\<forall>c \<in> set cs. \<forall>p \<in> set (patterns c). plan (pattern_source p) = elements (parsed p) \<and> small (elements (parsed p)))"

text \<open>The engine between two patterns of a candidate.\<close>

definition visiting :: "plan \<Rightarrow> ('e, 'x) matcher \<Rightarrow> pattern_candidate \<Rightarrow> 'e engine \<Rightarrow> bool" where
  "visiting plan mc c s \<longleftrightarrow> cache_ok plan mc s \<and> (\<exists>p. current s = Some (candidate_context c p))"

definition outcome_of :: "plan \<Rightarrow> ('e, 'x) matcher \<Rightarrow> pattern_candidate \<Rightarrow> 'x candidate_match option \<Rightarrow> 'e engine \<Rightarrow> bool" where
  "outcome_of plan mc c found s \<longleftrightarrow> visiting plan mc c s \<and> (\<forall>m. found = Some m \<longrightarrow> returned mc c m)"

lemma stable_visiting [simp]: "stable (visiting plan mc c)"
  by (simp add: stable_def visiting_def)

lemma matching_visiting: "matching plan mc (candidate_context c p) s \<Longrightarrow> visiting plan mc c s"
  by (auto simp: matching_def visiting_def)

lemma visiting_current: "visiting plan mc c s \<Longrightarrow> current s \<noteq> None"
  by (auto simp: visiting_def)

lemma runs_catch:
  assumes "runs I m Q E"
  shows "runs I (acatch m) (\<lambda>r s. case r of Inl err \<Rightarrow> E err s | Inr x \<Rightarrow> Q x s) E'"
  unfolding runs_def acatch_def
proof (intro allI impI)
  fix s assume "I s"
  then show "case (case m s of (Ret x, t) \<Rightarrow> (Ret (Inr x), t) | (Fail e, t) \<Rightarrow> (Ret (Inl e), t) | (Panic, t) \<Rightarrow> (Panic, t)) of
      (Ret x, t) \<Rightarrow> (case x of Inl err \<Rightarrow> E err t | Inr y \<Rightarrow> Q y t) | (Fail e, t) \<Rightarrow> E' e t | (Panic, t) \<Rightarrow> False"
    using runsD [OF assms, of s] by (cases "m s"; cases "fst (m s)") auto
qed

subsection \<open>Completion\<close>

lemma raw_match_cases:
  assumes "matcher_ok mc"
  obtains span where "map_input mc (trim mc) = Ret span" "local_range span = trim mc"
  using map_input_valid [OF assms matcher_okD(3) [OF assms]] by (metis match_span.select_convs(1))

text \<open>What \<open>complete_match\<close> is given: the match of a state, or of no state at all.\<close>

definition raw_ok :: "('e, 'x) matcher \<Rightarrow> pattern_candidate \<Rightarrow> match_pattern \<Rightarrow> 'x candidate_match \<Rightarrow> bool" where
  "raw_ok mc c p m \<longleftrightarrow>
     cm_kind m = candidate_kind c \<and> cm_definition_id m = definition_id c \<and> cm_registration_id m = registration_id c \<and>
     cm_pattern_index m = pattern_index p \<and> cm_pattern m = pattern_source p \<and>
     map_input mc (trim mc) = Ret (pm_span (cm_matched m)) \<and> local_range (pm_span (cm_matched m)) = trim mc \<and>
     (\<forall>x \<in> set (pm_captures (cm_matched m)). capture_ok mc x) \<and>
     (\<forall>t \<in> set (pm_tags (cm_matched m)). tag_value t \<noteq> [] \<and> span_ok mc (tag_input_span t)) \<and>
     (\<forall>x \<in> set (pm_marks (cm_matched m)). span_ok mc (mark_input_span x)) \<and>
     marks_from 0 (pm_marks (cm_matched m)) (pm_mark (cm_matched m))"

lemma raw_match_ok:
  assumes "matcher_ok mc" and "state_ok mc st \<or> st = match_state_new 0"
  obtains m where "raw_match mc c p st = Ret m" "raw_ok mc c p m"
proof -
  obtain span where "map_input mc (trim mc) = Ret span" "local_range span = trim mc" using raw_match_cases [OF assms(1)] .
  then have "\<exists>m. raw_match mc c p st = Ret m \<and> raw_ok mc c p m"
    using assms(2) by (auto simp: raw_match_def raw_ok_def state_ok_def match_state_new_def)
  then show thesis using that by blast
qed

lemma completed_good:
  assumes "matcher_ok mc" and "raw_ok mc c p m"
  obtains caps where "retain_omitted mc (Some (candidate_context c (Some p))) (range_end (local_range (pm_span (cm_matched m))))
      (elements (parsed p)) (pm_captures (cm_matched m)) = Ret caps"
    "good_match mc c p ((cm_matched m)\<lparr>pm_captures := sort_key capture_index caps\<rparr>)"
proof -
  note ok = matcher_okD [OF assms(1)]
  have e: "range_end (local_range (pm_span (cm_matched m))) = range_end (trim mc)" using assms(2) by (simp add: raw_ok_def)
  obtain caps where "retain_omitted mc (Some (candidate_context c (Some p))) (range_end (trim mc)) (elements (parsed p)) (pm_captures (cm_matched m)) = Ret caps"
    "retained mc (candidate_context c (Some p)) (typed_slots (elements (parsed p))) (pm_captures (cm_matched m)) caps"
    using retain_omitted_ok [OF assms(1) ok(5,6) order.refl covered_pattern [of c p], where caps = "pm_captures (cm_matched m)" and c = "Some (candidate_context c (Some p))"] assms(2)
    by (auto simp: raw_ok_def)
  then show thesis using assms(2) that unfolding e by (auto simp: raw_ok_def good_match_def retained_def)
qed

lemma runs_call_env_result:
  assumes "tolerant (ops mc) E" and "stable I" and "quiet (ops mc) \<Longrightarrow> never_fails call"
  shows "runs I (call_env mc mk call) (\<lambda>x s. I s \<and> (\<exists>e e'. call e = (Inr x, e'))) (\<lambda>err _. E err)"
proof (rule runs_conj [OF runs_call_env [OF assms]])
  show "runs I (call_env mc mk call) (\<lambda>x s. \<exists>e e'. call e = (Inr x, e')) (\<lambda>err _. E err)"
    using runs_call_env [OF assms, of mk] unfolding runs_def in_env_def env_run_def
    by (fastforce split: prod.splits sum.splits)
qed

definition completed_from :: "('e, 'x) matcher \<Rightarrow> pattern_candidate \<Rightarrow> match_pattern \<Rightarrow> 'x candidate_match option \<Rightarrow> bool" where
  "completed_from mc c p found \<longleftrightarrow> (\<forall>m. found = Some m \<longrightarrow> p \<in> set (patterns c) \<longrightarrow> returned mc c m)"

lemma returnedI:
  assumes "raw_ok mc c p v" and "good_match mc c p g"
    and "m = g \<or> (\<exists>e e'. complete_typed_captures (ops mc) c p g e = (Inr (None, m), e'))"
  shows "completed_from mc c p (Some (v\<lparr>cm_matched := m\<rparr>))"
  using assms unfolding completed_from_def returned_def raw_ok_def by (auto intro!: bexI [of _ p] exI [of _ g])

lemma stable_True [simp]: "stable (\<lambda>_. True)"
  by (simp add: stable_def)

lemma runs_complete:
  fixes plan :: plan
  assumes t: "tolerant (ops mc) E" and ok: "matcher_ok mc" and raw: "raw_ok mc c p v"
    and J: "J = matching plan mc (candidate_context c (Some p))"
  shows "runs J (complete_match mc c p v) (\<lambda>found s. J s \<and> completed_from mc c p found) (\<lambda>err _. E err)"
proof -
  have stable: "stable J" by (simp add: J)
  have known: "current s = Some (candidate_context c (Some p))" if "J s" for s using that by (simp add: J matching_def)
  obtain caps where caps: "retain_omitted mc (Some (candidate_context c (Some p))) (range_end (local_range (pm_span (cm_matched v))))
      (elements (parsed p)) (pm_captures (cm_matched v)) = Ret caps"
    "good_match mc c p ((cm_matched v)\<lparr>pm_captures := sort_key capture_index caps\<rparr>)"
    using completed_good [OF ok raw] .
  let ?g = "(cm_matched v)\<lparr>pm_captures := sort_key capture_index caps\<rparr>"
  let ?call = "call_env mc HookFailure (complete_typed_captures (ops mc) c p ?g)"
  let ?result = "\<lambda>result s. case result of Inl err \<Rightarrow> E err
    | Inr x \<Rightarrow> J s \<and> (\<exists>e e'. complete_typed_captures (ops mc) c p ?g e = (Inr x, e'))"
  have caught: "runs J (acatch ?call) ?result (\<lambda>err _. E err)"
    by (rule runs_catch [OF runs_call_env_result [OF t stable]]) (simp add: quiet_def)
  have rest: "runs (?result result) (abind (case result of Inr (None, _) \<Rightarrow> areturn () | _ \<Rightarrow> restore_to mc saved) (\<lambda>_.
       case result of
         Inl err \<Rightarrow> alift (Fail err)
       | Inr (None, m) \<Rightarrow> areturn (Some (v\<lparr>cm_matched := m\<rparr>))
       | Inr (Some trace, _) \<Rightarrow>
           abind (aget current) (\<lambda>cur.
           abind (alift (failure_frame mc cur [] None (trim mc) SemanticCandidate)) (\<lambda>frame.
           abind (amodify (\<lambda>s. s\<lparr>failure := record_detailed (range_end (trim mc))
             (Some (local_range (failure_span (trace_failure trace)))) (case failure_reasons (trace_failure trace) of
                 r # _ \<Rightarrow> r | [] \<Rightarrow> HookRejected ''omitted typed capture could not be resolved'') frame (Some trace) (failure s)\<rparr>)) (\<lambda>_.
           areturn None)))))
     (\<lambda>found s. J s \<and> completed_from mc c p found) (\<lambda>err _. E err)" for result saved
  proof (cases result)
    case (Inl err)
    show ?thesis unfolding Inl sum.case
      by (rule runs_pre [OF runs_fact [where P = "\<lambda>_. True" and \<phi> = "E err"]],
          rule runs_bind [OF runs_restore [OF t stable_True]], rule runs_lift) simp_all
  next
    case (Inr x)
    obtain f m where x: "x = (f, m)" by (cases x)
    show ?thesis
    proof (cases f)
      case None
      show ?thesis unfolding Inr x None sum.case prod.case option.case
        by (rule runs_bind [OF runs_return [where Q = "\<lambda>_. ?result (Inr (None, m))"]], simp, rule runs_return)
          (use returnedI [OF raw caps(2), of m] in auto)
    next
      case (Some trace)
      show ?thesis unfolding Inr x Some sum.case prod.case option.case
        apply (rule runs_pre [where P' = J])
         apply (rule runs_bind [OF runs_restore [OF t stable]])
         apply (rule runs_get_known, erule known)
         apply (rule runs_bind [OF runs_frame [OF t ok]])
         apply (rule runs_bind [OF runs_modify [where Q = "\<lambda>_. J"]])
          apply (erule stableD(2) [OF stable])
         apply (rule runs_return)
         apply (simp add: completed_from_def)
        by simp
    qed
  qed
  have complete: "completed_from mc c p (Some (v\<lparr>cm_matched := ?g\<rparr>))" by (rule returnedI [OF raw caps(2)]) simp
  show ?thesis unfolding complete_match_def Let_def
    apply (rule runs_get_known, erule known)
    apply (rule runs_lift_known [OF caps(1)])
    apply (rule runs_if)
     apply (rule runs_return)
    using complete apply simp
    apply (rule runs_bind [OF runs_checkpoint [OF t stable]])
    apply (rule runs_bind [OF caught])
    by (rule rest)
qed

subsection \<open>Hooks of a scope\<close>

lemma runs_scope_control:
  assumes "tolerant (ops mc) E" and "stable I"
  shows "runs I (scope_control mc control) (\<lambda>_. I) (\<lambda>err _. E err)"
  unfolding scope_control_def
  apply (rule runs_control)
    apply (rule runs_return, assumption)
   apply (rule runs_bind [OF runs_post [OF runs_hook_range [OF assms(1)], of _ _ _ "\<lambda>_. I"]], simp, rule runs_return, assumption)
  by (rule runs_bind [OF runs_record_at [OF assms(2)]], rule runs_return)

lemma runs_scope:
  assumes "tolerant (ops mc) E" and "matcher_ok mc" and "stable I" and "\<And>s. I s \<Longrightarrow> current s \<noteq> None"
  shows "runs I (scope_before mc scope) (\<lambda>_. I) (\<lambda>err _. E err)"
    and "runs I (scope_after_failed mc scope reason) (\<lambda>_. I) (\<lambda>err _. E err)"
    and "runs I (scope_after_matched mc scope r) (\<lambda>_. I) (\<lambda>err _. E err)"
proof -
  note dispatch = runs_dispatch [OF assms(1,3,4) map_input_not_Panic [OF assms(2)]]
  show "runs I (scope_before mc scope) (\<lambda>_. I) (\<lambda>err _. E err)"
    unfolding scope_before_def by (rule runs_bind [OF dispatch runs_scope_control [OF assms(1,3)]])
  show "runs I (scope_after_failed mc scope reason) (\<lambda>_. I) (\<lambda>err _. E err)"
    unfolding scope_after_failed_def by (rule runs_bind [OF dispatch runs_scope_control [OF assms(1,3)]])
  show "runs I (scope_after_matched mc scope r) (\<lambda>_. I) (\<lambda>err _. E err)"
    unfolding scope_after_matched_def
    apply (rule runs_bind [OF dispatch], assumption)
    apply (rule runs_control)
      apply (rule runs_return, assumption)
     apply (rule runs_bind [OF runs_post [OF runs_hook_range [OF assms(1)], of _ _ _ "\<lambda>_. I"]], simp, rule runs_return, assumption)
    by (rule runs_bind [OF runs_record_at [OF assms(3)]], rule runs_return)
qed

subsection \<open>Patterns\<close>

lemma outcome_None [simp]: "outcome_of plan mc c None s \<longleftrightarrow> visiting plan mc c s"
  by (simp add: outcome_of_def)

lemma outcomeI:
  "matching plan mc (candidate_context c q) s \<Longrightarrow> completed_from mc c p found \<Longrightarrow> p \<in> set (patterns c) \<Longrightarrow> outcome_of plan mc c found s"
  by (auto simp: outcome_of_def completed_from_def intro: matching_visiting)

lemma outcome_visiting: "outcome_of plan mc c found s \<Longrightarrow> visiting plan mc c s"
  by (simp add: outcome_of_def)

lemma runs_set_current:
  "runs (\<lambda>s. cache_ok plan mc s) (set_current c p) (\<lambda>_. matching plan mc (candidate_context c p)) E"
  unfolding set_current_def by (rule runs_modify) (simp add: matching_def)

text \<open>What all steps of a candidate assume.\<close>

definition ready :: "plan \<Rightarrow> ('e, 'x) matcher \<Rightarrow> (match_error \<Rightarrow> bool) \<Rightarrow> pattern_candidate \<Rightarrow> bool" where
  "ready plan mc E c \<longleftrightarrow> tolerant (ops mc) E \<and> matcher_ok mc \<and> agrees plan [c]"

lemma readyD: "ready plan mc E c \<Longrightarrow> tolerant (ops mc) E" "ready plan mc E c \<Longrightarrow> matcher_ok mc"
  "ready plan mc E c \<Longrightarrow> p \<in> set (patterns c) \<Longrightarrow> placed plan (candidate_context c (Some p)) [] 0 (elements (parsed p))"
proof -
  show "ready plan mc E c \<Longrightarrow> tolerant (ops mc) E" "ready plan mc E c \<Longrightarrow> matcher_ok mc" by (simp_all add: ready_def)
  have "context_source (candidate_context c (Some p)) = pattern_source p" by (simp add: context_source_def candidate_context_def)
  then show "ready plan mc E c \<Longrightarrow> p \<in> set (patterns c) \<Longrightarrow> placed plan (candidate_context c (Some p)) [] 0 (elements (parsed p))"
    by (simp add: ready_def agrees_def placed_def covered_pattern here_from_def leads_to_root)
qed

abbreviation at_pattern :: "plan \<Rightarrow> ('e, 'x) matcher \<Rightarrow> pattern_candidate \<Rightarrow> match_pattern \<Rightarrow> 'e engine \<Rightarrow> bool" where
  "at_pattern plan mc c p \<equiv> matching plan mc (candidate_context c (Some p))"

abbreviation candidate_runs ::
    "plan \<Rightarrow> ('e, 'x) matcher \<Rightarrow> (match_error \<Rightarrow> bool) \<Rightarrow> pattern_candidate \<Rightarrow> ('e engine \<Rightarrow> bool) \<Rightarrow> ('e, 'x candidate_match option) engine_action \<Rightarrow> bool" where
  "candidate_runs plan mc E c P m \<equiv> runs P m (outcome_of plan mc c) (\<lambda>err _. E err)"

text \<open>Whatever is found was returned for the candidate.\<close>

definition gives :: "('e engine \<Rightarrow> bool) \<Rightarrow> ('e, 'x) matcher \<Rightarrow> pattern_candidate \<Rightarrow> 'x candidate_match option \<Rightarrow> 'e engine \<Rightarrow> bool" where
  "gives I mc c found s \<longleftrightarrow> I s \<and> (\<forall>m. found = Some m \<longrightarrow> returned mc c m)"

lemma gives_None [simp]: "gives I mc c None s \<longleftrightarrow> I s"
  by (simp add: gives_def)

lemma gives_Some: "I s \<Longrightarrow> returned mc c m \<Longrightarrow> gives I mc c (Some m) s"
  by (simp add: gives_def)

lemma gives_outcome: "gives (visiting plan mc c) mc c = outcome_of plan mc c"
  by (simp add: gives_def outcome_of_def fun_eq_iff)

lemma gives_matching: "gives (matching plan mc (candidate_context c p)) mc c found s \<Longrightarrow> outcome_of plan mc c found s"
  by (auto simp: gives_def outcome_of_def intro: matching_visiting)

lemma runs_gives:
  assumes "runs P m (gives I mc c) E" and "runs I n Q E" and "\<And>x. returned mc c x \<Longrightarrow> runs I (f x) Q E"
  shows "runs P (abind m (\<lambda>found. case found of None \<Rightarrow> n | Some x \<Rightarrow> f x)) Q E"
proof (rule runs_bind [OF assms(1)], rule runs_option)
  show "runs (gives I mc c found) n Q E" for found
    by (rule runs_pre [OF assms(2)]) (simp add: gives_def)
  show "runs (gives I mc c found) (f x) Q E" if "found = Some x" for found x
    unfolding gives_def that using assms(3) [of x] by (intro runs_fact) simp
qed

lemmas runs_optional = runs_gives [where I = "visiting plan mc c" and mc = mc and c = c for plan mc c, unfolded gives_outcome]

lemma runs_synthetic:
  assumes "ready plan mc E c" and "p \<in> set (patterns c)"
  shows "candidate_runs plan mc E c (at_pattern plan mc c p) (synthetic_match mc c p)"
proof -
  obtain v where v: "raw_match mc c p (match_state_new 0) = Ret v" "raw_ok mc c p v"
    using raw_match_ok [OF readyD(2) [OF assms(1)]] by blast
  show ?thesis unfolding synthetic_match_def
    by (rule runs_lift_known [OF v(1)], rule runs_post [OF runs_complete [OF readyD(1,2) [OF assms(1)] v(2) refl]])
      (auto intro: outcomeI [OF _ _ assms(2)])
qed

lemma visiting_cache: "visiting plan mc c s \<Longrightarrow> cache_ok plan mc s"
  by (simp add: visiting_def)

lemma runs_first_synthetic:
  assumes "ready plan mc E c" and "set ps \<subseteq> set (patterns c)"
  shows "candidate_runs plan mc E c (visiting plan mc c) (first_synthetic mc c ps)"
  using assms(2)
proof (induction ps)
  case Nil
  show ?case unfolding first_synthetic.simps by (rule runs_return) simp
next
  case (Cons p ps)
  show ?case unfolding first_synthetic.simps
  proof (rule runs_bind [OF runs_pre [OF runs_set_current visiting_cache]], assumption)
    show "candidate_runs plan mc E c (at_pattern plan mc c p) (abind (synthetic_match mc c p)
        (\<lambda>found. case found of None \<Rightarrow> first_synthetic mc c ps | Some m \<Rightarrow> areturn (Some m)))"
      by (rule runs_optional [OF runs_synthetic [OF assms(1)] Cons.IH])
        (use Cons.prems in \<open>auto intro!: runs_return simp: outcome_of_def\<close>)
  qed
qed

lemma runs_synthetic_gives:
  assumes "ready plan mc E c" and "p \<in> set (patterns c)"
  shows "runs (at_pattern plan mc c p) (synthetic_match mc c p) (gives (at_pattern plan mc c p) mc c) (\<lambda>err _. E err)"
proof -
  obtain v where v: "raw_match mc c p (match_state_new 0) = Ret v" "raw_ok mc c p v"
    using raw_match_ok [OF readyD(2) [OF assms(1)]] by blast
  show ?thesis unfolding synthetic_match_def
    by (rule runs_lift_known [OF v(1)], rule runs_post [OF runs_complete [OF readyD(1,2) [OF assms(1)] v(2) refl]])
      (use assms(2) in \<open>simp add: gives_def completed_from_def\<close>)
qed

lemma runs_first_completed:
  assumes "ready plan mc E c" and "p \<in> set (patterns c)" and "\<forall>st \<in> set sts. state_ok mc st"
  shows "runs (at_pattern plan mc c p) (first_completed mc c p sts) (gives (at_pattern plan mc c p) mc c) (\<lambda>err _. E err)"
  using assms(3)
proof (induction sts)
  case Nil
  show ?case unfolding first_completed.simps by (rule runs_return) simp
next
  case (Cons st sts)
  note r = readyD [OF assms(1)]
  obtain v where v: "raw_match mc c p st = Ret v" "raw_ok mc c p v"
    using raw_match_ok [OF r(2)] Cons.prems by (metis list.set_intros(1))
  have step: "runs (at_pattern plan mc c p) (complete_match mc c p v) (gives (at_pattern plan mc c p) mc c) (\<lambda>err _. E err)"
    by (rule runs_post [OF runs_complete [OF r(1,2) v(2) refl]])
      (use assms(2) in \<open>simp add: gives_def completed_from_def\<close>)
  show ?case unfolding first_completed.simps
    by (rule runs_bind [OF runs_restore [OF r(1) stable_matching]], rule runs_lift_known [OF v(1)], rule runs_gives [OF step])
      (use Cons in \<open>auto intro!: runs_return intro: gives_Some\<close>)
qed

lemma runs_pattern_scope:
  assumes "ready plan mc E c"
  shows "runs (at_pattern plan mc c p) (scope_before mc scope) (\<lambda>_. at_pattern plan mc c p) (\<lambda>err _. E err)"
    and "runs (at_pattern plan mc c p) (scope_after_failed mc scope reason) (\<lambda>_. at_pattern plan mc c p) (\<lambda>err _. E err)"
    and "runs (at_pattern plan mc c p) (scope_after_matched mc scope r) (\<lambda>_. at_pattern plan mc c p) (\<lambda>err _. E err)"
  using readyD(1,2) [OF assms] by (auto intro!: runs_scope simp: matching_current)

lemma runs_candidate_scope:
  assumes "ready plan mc E c"
  shows "runs (visiting plan mc c) (scope_before mc scope) (\<lambda>_. visiting plan mc c) (\<lambda>err _. E err)"
    and "runs (visiting plan mc c) (scope_after_failed mc scope reason) (\<lambda>_. visiting plan mc c) (\<lambda>err _. E err)"
    and "runs (visiting plan mc c) (scope_after_matched mc scope r) (\<lambda>_. visiting plan mc c) (\<lambda>err _. E err)"
  by (rule runs_scope [OF readyD(1,2) [OF assms] stable_visiting visiting_current]; assumption)+

lemma runs_override:
  assumes "ready plan mc E c" and "p \<in> set (patterns c)"
  shows "candidate_runs plan mc E c (at_pattern plan mc c p) (override_failed_pattern mc c p reason)"
  unfolding override_failed_pattern_def
  by (rule runs_bind [OF runs_pattern_scope(2) [OF assms(1)]], rule runs_if)
    (auto intro: runs_synthetic [OF assms] intro!: runs_return elim: matching_visiting)

lemma runs_close:
  assumes "ready plan mc E c" and "returned mc c m"
  shows "candidate_runs plan mc E c (at_pattern plan mc c p) (close_pattern mc r m)"
  unfolding close_pattern_def
  by (rule runs_bind [OF runs_pattern_scope(3) [OF assms(1)]])
    (use assms(2) in \<open>auto intro!: runs_return simp: outcome_of_def matching_visiting\<close>)

lemma runs_natively:
  assumes "ready plan mc E c" and "p \<in> set (patterns c)"
  shows "candidate_runs plan mc E c (at_pattern plan mc c p) (match_pattern_natively mc c p)"
proof -
  note r = readyD [OF assms(1)]
  have start: "state_ok mc (match_state_new (range_start (trim mc)))"
    using matcher_okD [OF r(2)] by (simp add: state_ok_def match_state_new_def)
  show ?thesis unfolding match_pattern_natively_def Let_def
    apply (rule runs_bind [OF safeD [OF recursion_safe(1) [OF r(3) [OF assms(2)]] r(2,1) start]])
    apply (rule forward_fact)
    apply (rule runs_gives [OF runs_first_completed [OF assms]])
      apply (auto simp: onward_def) [1]
     apply (rule runs_bind [where R = "\<lambda>_. at_pattern plan mc c p"])
      apply (auto intro!: runs_modify runs_return intro: stableD(2)) [1]
     apply (rule runs_override [OF assms])
    by (rule runs_close [OF assms(1)])
qed

lemma runs_one_pattern:
  assumes "ready plan mc E c" and "p \<in> set (patterns c)"
  shows "candidate_runs plan mc E c (visiting plan mc c) (match_one_pattern mc c p)"
proof -
  note r = readyD [OF assms(1)]
  show ?thesis unfolding match_one_pattern_def
    apply (rule runs_bind [where R = "\<lambda>_. visiting plan mc c"])
     apply (rule runs_if)
      apply (rule runs_call_env [OF r(1) stable_visiting], simp add: quiet_def)
     apply (rule runs_return, assumption)
    apply (rule runs_if)
     apply (rule runs_return, simp)
    apply (rule runs_bind [OF runs_pre [OF runs_set_current visiting_cache]], assumption)
    apply (rule runs_bind [OF runs_pattern_scope(1) [OF assms(1)]])
    subgoal for allowed u before
      apply (cases before)
        apply (simp_all add: runs_natively [OF assms] runs_override [OF assms])
      apply (rule impI)
      by (rule runs_gives [OF runs_synthetic_gives [OF assms] runs_override [OF assms] runs_close [OF assms(1)]])
    done
qed

end
