(* ===== verification/Match_Reads.thy ===== *)
theory Match_Reads
  imports Match_Returned
begin

text \<open>
  What a pattern means without hooks: a relation between match states that says how an element reads
  the input, with no cache, no counter, no order of alternatives and no list of results.  The matcher
  finds exactly the related states.
\<close>

subsection \<open>The environment without hooks\<close>

definition plain_ops :: "(type_request \<Rightarrow> type_outcome) \<Rightarrow> ('r \<times> unit, 'x) match_environment" where
  "plain_ops resolve = split_environment (\<lambda>req r. (Inr (resolve req), r)) noop_hooks"

definition plain :: "(type_request \<Rightarrow> type_outcome) \<Rightarrow> ('r \<times> unit, 'x) matcher \<Rightarrow> bool" where
  "plain resolve mc \<longleftrightarrow> ops mc = plain_ops resolve \<and> \<not> recover_type_expression_failures (config mc)"

lemma plain_ops_simps [simp]:
  "checkpoint_branch (plain_ops resolve) e = (Inr None, e)" "restore_branch (plain_ops resolve) n e = (Inr (), e)"
  "env_dispatch (plain_ops resolve) ev e = (Inr Continue, e)" "resolve_type (plain_ops resolve) req e = (Inr (resolve req), e)"
  "allows_regex (plain_ops resolve) k r i e = (Inr True, e)" "complete_typed_captures (plain_ops resolve) c p m e = (Inr (None, m), e)"
  "select_resolution (plain_ops resolve) res e = (Inr (), e)" "take_candidate_state (plain_ops resolve) e = (None, e)"
  "cancellation_requested (plain_ops resolve) e = (False, e)" "begin_match (plain_ops resolve) e = (Inr (), e)"
  "finish_match (plain_ops resolve) b e = (Inr (), e)"
  by (simp_all add: plain_ops_def split_environment_def noop_hooks_def on_hooks_def prod_eq_iff)

lemma quiet_plain: "quiet (plain_ops resolve)"
  by (simp add: quiet_def never_fails_def)

lemma tolerant_plain: "plain resolve mc \<Longrightarrow> tolerant (ops mc) intrinsic"
  by (simp add: plain_def tolerant_def quiet_plain)

subsection \<open>How a pattern reads the input\<close>

definition typed_state :: "('e, 'x) matcher \<Rightarrow> nat \<Rightarrow> text_range \<Rightarrow> type_expr \<Rightarrow> match_state \<Rightarrow> type_resolution \<Rightarrow> match_state \<Rightarrow> bool" where
  "typed_state mc slot sp t st res st' \<longleftrightarrow> (\<exists>cap. resolved_capture mc slot sp t res = Ret cap \<and>
     st' = st\<lparr>extension_checkpoint := None, cursor := range_end (resolution_range res), captures := captures st @ [cap]\<rparr>)"

definition read_type ::
    "(type_request \<Rightarrow> type_outcome) \<Rightarrow> ('e, 'x) matcher \<Rightarrow> nat \<Rightarrow> text_range \<Rightarrow> type_expr \<Rightarrow> match_state \<Rightarrow> tail_prefix list \<Rightarrow> match_state \<Rightarrow> bool" where
  "read_type resolve mc slot sp t st tail st' \<longleftrightarrow>
     (\<exists>res \<in> set (resolutions (resolve (request_at mc sp t (cursor st) tail))). typed_state mc slot sp t st res st')"

inductive reads ::
      "(type_request \<Rightarrow> type_outcome) \<Rightarrow> ('e, 'x) matcher \<Rightarrow> candidate_context \<Rightarrow> spanned_element list \<Rightarrow> tail_prefix list \<Rightarrow>
       match_state \<Rightarrow> match_state \<Rightarrow> bool"
  and reads_element ::
      "(type_request \<Rightarrow> type_outcome) \<Rightarrow> ('e, 'x) matcher \<Rightarrow> candidate_context \<Rightarrow> pattern_element \<Rightarrow> text_range \<Rightarrow> tail_prefix list \<Rightarrow>
       match_state \<Rightarrow> match_state \<Rightarrow> bool"
  for resolve mc cur where
  Empty: "reads resolve mc cur [] tail st st"
| Sequence: "reads_element resolve mc cur e r (if has_tail e then sequence_tail_prefixes es tail else tail) st st1 \<Longrightarrow>
    reads resolve mc cur es tail st1 st2 \<Longrightarrow> reads resolve mc cur (Spanned e r # es) tail st st2"
| ReadLiteral: "match_literal_at (lower mc) (text_of mc) (trim mc) (cursor st) s = Inr stop \<Longrightarrow>
    reads_element resolve mc cur (Literal s) r tail st ((push_implicit_tag s st)\<lparr>cursor := stop\<rparr>)"
| ReadRegex: "compile mc s = Inr re \<Longrightarrow> stop \<in> set (skript_boundaries (text_of mc) (cursor st) (range_end (trim mc))) \<Longrightarrow>
    t \<in> set (regex_results mc re (cursor st) stop) \<Longrightarrow> context_indices cur r = Some slot \<Longrightarrow>
    regex_state mc slot r (st\<lparr>pending_implicit_tag := None\<rparr>) t = Ret st' \<Longrightarrow> reads_element resolve mc cur (Regex s) r tail st st'"
| ReadType: "context_indices cur r = Some slot \<Longrightarrow> read_type resolve mc slot r t (st\<lparr>pending_implicit_tag := None\<rparr>) tail st' \<Longrightarrow>
    reads_element resolve mc cur (TypeExpr t) r tail st st'"
| ReadGroup: "reads resolve mc cur es tail st st' \<Longrightarrow> reads_element resolve mc cur (Group es) r tail st st'"
| TakeOption: "reads resolve mc cur es tail st st' \<Longrightarrow> reads_element resolve mc cur (OptionElement es) r tail st st'"
| SkipOption: "retain_omitted mc (Some cur) (cursor st) es (captures st) = Ret caps \<Longrightarrow>
    reads_element resolve mc cur (OptionElement es) r tail st (st\<lparr>pending_implicit_tag := None, captures := caps\<rparr>)"
| ReadChoice: "j < length bs \<Longrightarrow> reads resolve mc cur (bs ! j) tail st st1 \<Longrightarrow>
    retain_other_branches mc (Some cur) (cursor st) bs j st1 = Ret st' \<Longrightarrow> reads_element resolve mc cur (Choice bs) r tail st st'"
| ReadTag: "match_tag mc s r st = Ret st' \<Longrightarrow> reads_element resolve mc cur (ParseTag s) r tail st st'"
| ReadMark: "match_mark mc n r st = Ret st' \<Longrightarrow> reads_element resolve mc cur (ParseMark n) r tail st st'"
| ReadEmpty: "reads_element resolve mc cur EmptyBranch r tail st (st\<lparr>pending_implicit_tag := None\<rparr>)"

inductive_simps reads_simps:
  "reads resolve mc cur [] tail st st'"
  "reads resolve mc cur (Spanned e r # es) tail st st'"

inductive_simps reads_element_simps:
  "reads_element resolve mc cur (Literal s) r tail st st'"
  "reads_element resolve mc cur (Regex s) r tail st st'"
  "reads_element resolve mc cur (TypeExpr t) r tail st st'"
  "reads_element resolve mc cur (Group es) r tail st st'"
  "reads_element resolve mc cur (OptionElement es) r tail st st'"
  "reads_element resolve mc cur (Choice bs) r tail st st'"
  "reads_element resolve mc cur (ParseTag s) r tail st st'"
  "reads_element resolve mc cur (ParseMark n) r tail st st'"
  "reads_element resolve mc cur EmptyBranch r tail st st'"

subsection \<open>Steps without hooks\<close>

lemma runs_plain_call:
  assumes "plain resolve mc" and "stable I" and "\<And>e. call e = (Inr v, e)"
  shows "runs I (call_env mc mk call) (\<lambda>x s. I s \<and> x = v) (\<lambda>err _. intrinsic err)"
  by (rule runs_post [OF runs_call_env_result [OF tolerant_plain [OF assms(1)] assms(2)]])
    (use assms(3) in \<open>auto simp: never_fails_def\<close>)

lemma runs_plain_dispatch:
  assumes "plain resolve mc" and "matcher_ok mc" and "stable I" and "\<And>s. I s \<Longrightarrow> current s \<noteq> None"
  shows "runs I (dispatch_hook mc scope timing path sp r outcome) (\<lambda>c s. I s \<and> c = Continue) (\<lambda>err _. intrinsic err)"
proof -
  have t: "tolerant (ops mc) intrinsic" by (rule tolerant_plain [OF assms(1)])
  show ?thesis unfolding dispatch_hook_def
    apply (rule runs_bind [OF runs_get [where Q = "\<lambda>c s. I s \<and> c \<noteq> None"]])
     apply (simp add: assms(4))
    apply (rule runs_fact)
    apply (rule runs_bind [OF runs_lift [where Q = "\<lambda>_. I"]])
       apply (auto simp: outcome_simps) [3]
    apply (rule runs_bind [OF runs_map_input [OF t assms(2)]])
    by (rule runs_plain_call [OF assms(1,3)]) (use assms(1) in \<open>simp add: plain_def\<close>)
qed

lemma runs_plain_checkpoint:
  assumes "plain resolve mc" and "stable I"
  shows "runs I (checkpoint mc) (\<lambda>x s. I s \<and> x = None) (\<lambda>err _. intrinsic err)"
  unfolding checkpoint_def by (rule runs_plain_call [OF assms]) (use assms(1) in \<open>simp add: plain_def\<close>)

lemma runs_plain_with_checkpoint:
  assumes "plain resolve mc" and "stable I"
  shows "runs I (with_checkpoint mc st) (\<lambda>x s. I s \<and> x = st) (\<lambda>err _. intrinsic err)"
  unfolding with_checkpoint_def by (rule runs_bind [OF runs_plain_checkpoint [OF assms]], rule runs_return) auto

text \<open>Hooks that do nothing: an element is matched natively.\<close>

lemma runs_plain_hooks:
  assumes "plain resolve mc" and "matcher_ok mc" and "stable I" and "\<And>s. I s \<Longrightarrow> current s \<noteq> None"
    and native: "runs I (native st) (\<lambda>found s. I s \<and> P found) (\<lambda>err _. intrinsic err)"
  shows "runs I (element_hooks mc sp st path native) (\<lambda>found s. I s \<and> P found) (\<lambda>err _. intrinsic err)"
proof -
  note t = tolerant_plain [OF assms(1)]
  note dispatch = runs_plain_dispatch [OF assms(1-4)]
  have failed: "runs I (after_failed_element mc sp start path st0) (\<lambda>found s. I s \<and> found = []) (\<lambda>err _. intrinsic err)" for start st0
    unfolding after_failed_element_def
    by (rule runs_bind [OF runs_restore [OF t assms(3)]], rule runs_bind [OF dispatch], assumption, rule runs_fact)
      (auto intro: runs_return)
  have after: "runs I (after_element mc sp start path st0) (\<lambda>ys s. I s \<and> ys = [st0]) (\<lambda>err _. intrinsic err)" for start st0
    unfolding after_element_def Let_def
    by (rule runs_bind [OF runs_restore [OF t assms(3)]], rule runs_bind [OF dispatch], assumption, rule runs_fact)
      (auto intro!: runs_bind [OF runs_plain_with_checkpoint [OF assms(1,3)]] runs_return)
  have all: "runs I (aconcat (after_element mc sp start path) found) (\<lambda>ys s. I s \<and> ys = found) (\<lambda>err _. intrinsic err)" for start found
  proof (rule runs_post [OF runs_aconcat [where R = "\<lambda>x ys. ys = [x]"]])
    have "list_all2 (\<lambda>x ys. ys = [x]) xs yss \<Longrightarrow> concat yss = xs" for xs :: "match_state list" and yss
      by (induction rule: list_all2_induct) auto
    then show "I s \<and> ys = found" if "I s \<and> (\<exists>yss. list_all2 (\<lambda>x ys. ys = [x]) found yss \<and> ys = concat yss)" for ys s
      using that by auto
  qed (rule after)
  show ?thesis unfolding element_hooks_def Let_def
    apply (rule runs_bind [OF dispatch], assumption, rule runs_fact)
    apply (rule runs_bind [OF runs_plain_with_checkpoint [OF assms(1,3)]], rule runs_fact)
    apply simp
    apply (rule runs_bind [OF native], rule runs_fact)
    apply (rule runs_if)
     apply (rule runs_post [OF failed], simp)
    by (rule runs_post [OF all]) simp
qed

subsection \<open>Typed expressions\<close>

lemma runs_plain_select:
  assumes "plain resolve mc" and "matcher_ok mc" and "state_ok mc st" and "stable I"
  shows "runs I (select_state mc slot sp t st bs saved res) (\<lambda>st' s. I s \<and> typed_state mc slot sp t st res st') (\<lambda>err _. intrinsic err)"
  unfolding select_state_def
proof (rule runs_if)
  note tl = tolerant_plain [OF assms(1)]
  show "runs I (alift (Fail (InvalidTypeResolution (resolution_range res)))) Q (\<lambda>err _. intrinsic err)" for Q :: "match_state \<Rightarrow> _"
    by (rule runs_lift) auto
  assume "\<not> \<not> resolution_legal mc (cursor st) t bs res"
  then have l: "resolution_legal mc (cursor st) t bs res" by simp
  obtain c where c: "resolved_capture mc slot sp t res = Ret c" using resolved_capture_ok [OF assms(2,3) l] by blast
  show "runs I (abind (restore_to mc saved) (\<lambda>_. abind (call_env mc HookFailure (select_resolution (ops mc) res)) (\<lambda>_.
        abind (checkpoint mc) (\<lambda>branch. abind (alift (resolved_capture mc slot sp t res)) (\<lambda>cap.
        areturn (st\<lparr>extension_checkpoint := branch, cursor := range_end (resolution_range res), captures := captures st @ [cap]\<rparr>))))))
      (\<lambda>st' s. I s \<and> typed_state mc slot sp t st res st') (\<lambda>err _. intrinsic err)"
    apply (rule runs_bind [OF runs_restore [OF tl assms(4)]])
    apply (rule runs_bind [OF runs_call_env [OF tl assms(4)]], simp add: quiet_def)
    apply (rule runs_bind [OF runs_plain_checkpoint [OF assms(1,4)]], rule runs_fact)
    apply (rule runs_lift_known [OF c(1)])
    by (rule runs_return) (simp add: c typed_state_def)
qed

lemma list_all2_functional:
  assumes "list_all2 (\<lambda>x y. R x y) xs ys" and "\<And>x y z. R x y \<Longrightarrow> R x z \<Longrightarrow> y = z"
  shows "set ys = {y. \<exists>x \<in> set xs. R x y}"
  using assms(1) by (induction rule: list_all2_induct) (use assms(2) in auto)

lemma typed_state_functional: "typed_state mc slot sp t st res x \<Longrightarrow> typed_state mc slot sp t st res y \<Longrightarrow> x = y"
  by (auto simp: typed_state_def)

lemma runs_plain_report:
  assumes "plain resolve mc" and "matcher_ok mc" and "state_ok mc st" and "stable I"
    and "\<forall>st' \<in> set found. onward mc st st'"
  shows "runs I (report_type_failure mc slot sp t st path anchored failed (offered mc (cursor st) t tail) cause found)
      (\<lambda>out s. I s \<and> out = found) (\<lambda>err _. intrinsic err)"
  by (rule runs_post [OF runs_report [OF tolerant_plain [OF assms(1)] assms(2-4) offered_ok [OF assms(2,3)] assms(5)]])
    (use assms(1) in \<open>auto simp: plain_def\<close>)

lemma runs_plain_type:
  assumes "plain resolve mc" and "matcher_ok mc" and "state_ok mc st" and "context_indices cur sp = Some slot"
  shows "runs (matching plan mc cur) (match_type_expression mc sp t st path tail)
    (\<lambda>found s. matching plan mc cur s \<and> set found = {st'. read_type resolve mc slot sp t st tail st'}) (\<lambda>err _. intrinsic err)"
proof -
  let ?I = "matching plan mc cur"
  let ?bs = "offered mc (cursor st) t tail"
  let ?res = "resolve (request_at mc sp t (cursor st) tail)"
  let ?R = "\<lambda>res st'. typed_state mc slot sp t st res st' \<and> onward mc st st'"
  let ?found = "\<lambda>found. set found = {st'. read_type resolve mc slot sp t st tail st'} \<and> (\<forall>st' \<in> set found. onward mc st st')"
  note tl = tolerant_plain [OF assms(1)]
  have slot: "(current_capture_index (Some cur) sp :: (match_error, nat) outcome) = Ret slot"
    by (simp add: current_capture_index_def assms(4))
  have all: "runs ?I (amap (select_state mc slot sp t st ?bs saved) (resolutions ?res)) (\<lambda>found s. ?I s \<and> ?found found) (\<lambda>err _. intrinsic err)" for saved
  proof (rule runs_post [OF runs_amap [where R = ?R]])
    show "runs ?I (select_state mc slot sp t st ?bs saved res) (\<lambda>st' s. ?I s \<and> ?R res st') (\<lambda>err _. intrinsic err)" for res
      by (rule runs_post [OF runs_conj [OF runs_plain_select [OF assms(1-3) stable_matching] runs_select [OF tl assms(2,3) stable_matching]]]) simp
    show "?I s \<and> ?found found" if "?I s \<and> list_all2 ?R (resolutions ?res) found" for s found
    proof -
      have "set found = {st'. \<exists>res \<in> set (resolutions ?res). typed_state mc slot sp t st res st'}"
        by (rule list_all2_functional [OF list_all2_mono [OF conjunct2 [OF that]] typed_state_functional]) auto
      moreover have "\<forall>st' \<in> set found. onward mc st st'"
        using that by (auto simp: list_all2_conv_all_nth in_set_conv_nth)
      ultimately show ?thesis using that by (simp add: read_type_def)
    qed
  qed
  show ?thesis unfolding match_type_expression_def Let_def offered_def [symmetric] request_at_def [symmetric]
    apply (rule runs_get_known, erule matching_current)
    apply (rule runs_lift_known [OF slot])
    apply (rule runs_bind [OF runs_plain_call [OF assms(1) stable_matching, where v = ?res]])
     apply (use assms(1) in \<open>simp add: plain_def\<close>)
    apply (rule runs_fact, simp only:)
    apply (rule runs_bind [where R = "\<lambda>_. ?I"])
     apply (rule runs_if)
      apply (rule runs_return, assumption)
     apply (rule runs_checkpoint [OF tl stable_matching])
    apply (rule runs_bind [OF all], rule runs_fact)
    apply (rule runs_bind [OF runs_restore [OF tl stable_matching]])
    apply (rule runs_if)
     apply (rule runs_post [OF runs_plain_report [OF assms(1-3) stable_matching]])
      apply simp
     apply simp
    apply (rule runs_return)
    by simp
qed

end
