(* ===== verification/Match_Result.thy ===== *)
theory Match_Result
  imports Match_Returned
begin

text \<open>
  The hooks around registrations and definitions, the loop over the candidates, and the entry points:
  a call never panics, every error has a cause, and every match returned belongs to a candidate.
\<close>

subsection \<open>Registrations and definitions\<close>

lemma runs_patterns:
  assumes "ready plan mc E c" and "set ps \<subseteq> set (patterns c)"
  shows "candidate_runs plan mc E c (visiting plan mc c) (match_patterns mc c ps)"
  using assms(2)
proof (induction ps)
  case Nil
  show ?case unfolding match_patterns.simps by (rule runs_return) simp
next
  case (Cons p ps)
  show ?case unfolding match_patterns.simps
    by (rule runs_optional [OF runs_one_pattern [OF assms(1)] Cons.IH])
      (use Cons.prems in \<open>auto intro!: runs_return simp: outcome_of_def\<close>)
qed

lemma runs_synthetics:
  "ready plan mc E c \<Longrightarrow> candidate_runs plan mc E c (visiting plan mc c) (first_synthetic mc c (patterns c))"
  by (rule runs_first_synthetic) simp_all

lemma runs_none: "candidate_runs plan mc E c (visiting plan mc c) (areturn None)"
  by (rule runs_return) simp

lemma runs_synthetic_if:
  assumes "ready plan mc E c"
  shows "candidate_runs plan mc E c (visiting plan mc c) (synthetic_if mc c after)"
  unfolding synthetic_if_def by (rule runs_if) (rule runs_synthetics [OF assms] runs_none)+

lemma runs_keep:
  assumes "ready plan mc E c" and "\<And>m. val = Some m \<Longrightarrow> returned mc c m"
  shows "candidate_runs plan mc E c (visiting plan mc c) (keep_if_after_matched mc scope r val)"
  unfolding keep_if_after_matched_def
  by (rule runs_bind [OF runs_candidate_scope(3) [OF assms(1)]])
    (use assms(2) in \<open>auto intro!: runs_return simp: outcome_of_def\<close>)

lemma runs_failed_none:
  assumes "ready plan mc E c"
  shows "candidate_runs plan mc E c (visiting plan mc c) (abind (scope_after_failed mc scope reason) (\<lambda>_. areturn None))"
  by (rule runs_bind [OF runs_candidate_scope(2) [OF assms] runs_none])

text \<open>A match that was looked for, and the hooks when there is none.\<close>

lemma runs_when_found:
  assumes "candidate_runs plan mc E c P m" and "candidate_runs plan mc E c (visiting plan mc c) n"
    and "\<And>val. (\<And>x. val = Some x \<Longrightarrow> returned mc c x) \<Longrightarrow> candidate_runs plan mc E c (visiting plan mc c) (f val)"
  shows "candidate_runs plan mc E c P (abind m (\<lambda>val. if val = None then n else f val))"
proof (rule runs_bind [OF assms(1)], rule runs_if)
  show "candidate_runs plan mc E c (outcome_of plan mc c val) n" for val
    by (rule runs_pre [OF assms(2)]) (rule outcome_visiting)
  show "candidate_runs plan mc E c (outcome_of plan mc c val) (f val)" for val
    by (rule runs_pre [OF runs_fact [where P = "visiting plan mc c" and \<phi> = "\<forall>x. val = Some x \<longrightarrow> returned mc c x", OF assms(3)]])
      (auto simp: outcome_of_def)
qed

lemma runs_registration_override:
  assumes "ready plan mc E c"
  shows "candidate_runs plan mc E c (visiting plan mc c) (registration_override mc c after reason)"
  unfolding registration_override_def
  by (rule runs_if)
    (auto intro!: runs_when_found [OF runs_synthetics [OF assms] runs_failed_none [OF assms]] runs_keep [OF assms]
      runs_bind [OF runs_candidate_scope(2) [OF assms] runs_synthetic_if [OF assms]])

lemma runs_close_registration:
  assumes "ready plan mc E c" and "returned mc c m"
  shows "candidate_runs plan mc E c (visiting plan mc c) (close_registration mc r m)"
  unfolding close_registration_def
  by (rule runs_bind [OF runs_candidate_scope(3) [OF assms(1)]], rule runs_if, rule runs_keep [OF assms(1)],
      use assms(2) in simp, rule runs_bind [OF runs_candidate_scope(2) [OF assms(1)]])
    (use assms(2) in \<open>auto intro!: runs_return simp: outcome_of_def\<close>)

lemma runs_registered_patterns:
  assumes "ready plan mc E c"
  shows "candidate_runs plan mc E c (visiting plan mc c) (match_registered_patterns mc c)"
  unfolding match_registered_patterns_def
proof (rule runs_bind [OF runs_patterns [OF assms order.refl]])
  fix found :: "'b candidate_match option"
  have set: "runs (outcome_of plan mc c found) (set_current c p) (\<lambda>_. outcome_of plan mc c found) E'" for p E'
    unfolding set_current_def by (rule runs_modify) (auto simp: outcome_of_def visiting_def)
  show "candidate_runs plan mc E c (outcome_of plan mc c found)
      (abind (set_current c (case found of None \<Rightarrow> None | Some m \<Rightarrow> find (\<lambda>p. pattern_index p = cm_pattern_index m) (patterns c)))
        (\<lambda>_. case found of None \<Rightarrow> abind (scope_after_failed mc RegistrationScope ''no registered pattern matched'')
            (\<lambda>after. registration_override mc c after ''no registered pattern matched'')
          | Some m \<Rightarrow> close_registration mc (trim mc) m))"
  proof (rule runs_bind [OF set], rule runs_option)
    show "candidate_runs plan mc E c (outcome_of plan mc c found) (abind (scope_after_failed mc RegistrationScope ''no registered pattern matched'')
        (\<lambda>after. registration_override mc c after ''no registered pattern matched''))"
      by (rule runs_pre [OF runs_bind [OF runs_candidate_scope(2) [OF assms] runs_registration_override [OF assms]] outcome_visiting])
    show "candidate_runs plan mc E c (outcome_of plan mc c found) (close_registration mc (trim mc) m)" if "found = Some m" for m
      by (rule runs_pre [OF runs_fact [where P = "visiting plan mc c" and \<phi> = "returned mc c m", OF runs_close_registration [OF assms]]])
        (use that in \<open>auto simp: outcome_of_def\<close>)
  qed
qed

lemma runs_registration:
  assumes "ready plan mc E c"
  shows "candidate_runs plan mc E c (visiting plan mc c) (match_registration mc c)"
  unfolding match_registration_def
  apply (rule runs_bind [OF runs_candidate_scope(1) [OF assms]])
  subgoal for before
    apply (cases before)
      apply (simp_all add: runs_registered_patterns [OF assms])
     apply (rule impI)
     apply (rule runs_optional [OF runs_synthetics [OF assms]])
      apply (rule runs_bind [OF runs_candidate_scope(2) [OF assms] runs_failed_none [OF assms]])
     apply (erule runs_close_registration [OF assms])
    by (rule runs_bind [OF runs_candidate_scope(2) [OF assms] runs_registration_override [OF assms]])
  done

lemma runs_candidate:
  assumes "ready plan mc E c"
  shows "candidate_runs plan mc E c (cache_ok plan mc) (match_candidate mc c)"
  unfolding match_candidate_def
  apply (rule runs_bind [OF runs_post [OF runs_set_current matching_visiting]], assumption)
  apply (rule runs_bind [OF runs_candidate_scope(1) [OF assms]])
  subgoal for u before
    apply (cases before)
      apply (simp_all add: runs_registration [OF assms])
     apply (rule impI)
     apply (rule runs_when_found [OF runs_synthetics [OF assms] runs_failed_none [OF assms] runs_keep [OF assms]], simp)
    by (rule runs_bind [OF runs_candidate_scope(2) [OF assms] runs_synthetic_if [OF assms]])
  done

subsection \<open>All candidates\<close>

lemma set_rank_candidates [simp]: "set (rank_candidates cs) = set cs"
proof -
  have "snd ` set (enumerate 0 cs) = set cs" by (metis list.set_map map_snd_enumerate)
  then show ?thesis by (simp add: rank_candidates_def)
qed

lemma returned_extension [simp]: "returned mc c (m\<lparr>cm_extension_state := x\<rparr>) = returned mc c m"
  by (simp add: returned_def)

lemma tracker_failure_cases:
  assumes "matcher_ok mc"
  shows "tracker_failure mc t \<noteq> Panic" "tracker_failure mc t = Fail err \<Longrightarrow> intrinsic err"
  using map_input_not_Panic [OF assms] map_input_intrinsic by (auto simp: tracker_failure_def outcome_simps)

lemma runs_structural:
  assumes "tolerant (ops mc) E" and "matcher_ok mc"
  shows "runs I (alift (structural_failures mc c found t)) (\<lambda>_. I) (\<lambda>err _. E err)"
  using tracker_failure_cases [OF assms(2)] tolerant_intrinsic [OF assms(1)]
  by (intro runs_lift) (auto simp: structural_failures_def structural_failure_def outcome_simps split: if_splits)

lemma runs_take_state:
  assumes "stable I"
  shows "runs I (in_env (\<lambda>e. case take_candidate_state (ops mc) e of (x, e) \<Rightarrow> (Ret x, e))) (\<lambda>_. I) E"
  by (auto simp: runs_def in_env_def stableD [OF assms] split: prod.splits)

text \<open>The matches collected so far; a recovered one is only reported as a failure.\<close>

definition collected :: "('e, 'x) matcher \<Rightarrow> pattern_candidate list \<Rightarrow> 'x candidate_match list \<Rightarrow> bool" where
  "collected mc cs ms \<longleftrightarrow> (\<forall>m \<in> set ms. pm_recovered (cm_matched m) = [] \<and> (\<exists>c \<in> set cs. returned mc c m))"

lemma stable_cache [simp]: "stable (cache_ok plan mc)"
  by (simp add: stable_def)

lemma runs_rank_step:
  assumes r: "ready plan mc E c" and c: "c \<in> set cs" and acc: "collected mc cs (found_matches acc)"
  shows "runs (cache_ok plan mc) (rank_step mc c acc) (\<lambda>acc s. cache_ok plan mc s \<and> collected mc cs (found_matches acc)) (\<lambda>err _. E err)"
proof -
  note t = readyD(1) [OF r] and ok = readyD(2) [OF r]
  have reset: "runs I (amodify (\<lambda>s. s\<lparr>failure := tracker_new\<rparr>)) (\<lambda>_. I) E'" if "stable I" for I :: "'a engine \<Rightarrow> bool" and E'
    by (rule runs_modify, erule stableD(2) [OF that])
  have stable: "stable (outcome_of plan mc c found)" for found :: "'b candidate_match option"
    by (auto simp: outcome_of_def stable_def stableD [OF stable_visiting])
  show ?thesis unfolding rank_step_def Let_def
    apply (rule runs_bind [OF runs_cancelled [OF t stable_cache]])
    apply (rule runs_bind [OF reset [OF stable_cache]])
    apply (rule runs_bind [OF runs_candidate [OF r]])
    subgoal for u v found
      apply (rule runs_bind [OF runs_get [where Q = "\<lambda>_. outcome_of plan mc c found"]], assumption)
      apply (rule runs_bind [OF reset [OF stable]])
      apply (rule runs_bind [OF runs_structural [OF t ok]])
      apply (rule runs_option)
       apply (rule runs_return)
      using acc apply (simp add: outcome_of_def visiting_def)
      apply (rule runs_bind [OF runs_take_state [OF stable]])
      apply (rule runs_return)
      using acc c by (auto simp: collected_def outcome_of_def visiting_def split: list.split)
    done
qed

lemma ready_member: "tolerant (ops mc) E \<Longrightarrow> matcher_ok mc \<Longrightarrow> agrees plan cs \<Longrightarrow> c \<in> set cs \<Longrightarrow> ready plan mc E c"
  by (simp add: ready_def agrees_def)

lemma runs_rank_loop:
  assumes "tolerant (ops mc) E" and "matcher_ok mc" and "agrees plan all" and "set cs \<subseteq> set all" and "collected mc all (found_matches acc)"
  shows "runs (cache_ok plan mc) (rank_loop mc cs acc) (\<lambda>acc s. cache_ok plan mc s \<and> collected mc all (found_matches acc)) (\<lambda>err _. E err)"
  using assms(4,5)
proof (induction cs arbitrary: acc)
  case Nil
  then show ?case unfolding rank_loop.simps by (intro runs_return) simp
next
  case (Cons c cs)
  have c: "c \<in> set all" using Cons.prems(1) by simp
  show ?case unfolding rank_loop.simps
    by (rule runs_bind [OF runs_rank_step [OF ready_member [OF assms(1-3) c] c Cons.prems(2)]], rule runs_fact, rule Cons.IH)
      (use Cons.prems(1) in simp_all)
qed

text \<open>A result: what is selected comes first, and nothing is left over when nothing was found.\<close>

definition legal_result :: "('e, 'x) matcher \<Rightarrow> pattern_candidate list \<Rightarrow> 'x candidate_matches \<Rightarrow> bool" where
  "legal_result mc cs r \<longleftrightarrow>
     collected mc cs ((case selected r of None \<Rightarrow> [] | Some m \<Rightarrow> [m]) @ other_matches r) \<and>
     (selected r = None \<longrightarrow> other_matches r = []) \<and>
     length (candidates (failures r)) \<le> max_candidate_failures (config mc) \<and>
     sorted_wrt (\<lambda>a b. compare_candidate_failure a b \<noteq> Greater) (candidates (failures r))"

lemma sorted_wrt_comparator: "Sorting_Algorithms.sorted c xs \<Longrightarrow> sorted_wrt (\<lambda>a b. compare c a b \<noteq> Greater) xs"
  by (induction rule: Sorting_Algorithms.sorted_induct) auto

lemma sorted_failures:
  "sorted_wrt (\<lambda>a b. compare_candidate_failure a b \<noteq> Greater) (take n (Sorting_Algorithms.sort candidate_failure_comparator fs))"
  using sorted_wrt_take [OF sorted_wrt_comparator [of candidate_failure_comparator "Sorting_Algorithms.sort candidate_failure_comparator fs"]]
  by (simp add: candidate_failure_comparator.rep_eq)

lemma runs_in_environment:
  assumes "tolerant (ops mc) E" and "matcher_ok mc" and "agrees plan cs"
  shows "runs (cache_ok plan mc) (match_in_environment mc cs) (\<lambda>r _. legal_result mc cs r) (\<lambda>err _. E err)"
proof -
  have fb: "runs (\<lambda>s. cache_ok plan mc s \<and> \<phi>) (alift (if b then obind (tracker_failure mc t) (\<lambda>f. Ret (Some (tracker_trace t f))) else Ret None))
      (\<lambda>_ s. \<phi>) (\<lambda>err _. E err)" for b t \<phi>
    using tracker_failure_cases [OF assms(2)] tolerant_intrinsic [OF assms(1)]
    by (intro runs_lift) (auto simp: outcome_simps split: if_splits)
  show ?thesis unfolding match_in_environment_def Let_def
    apply (rule runs_bind [OF runs_rank_loop [OF assms]])
      apply simp
     apply (simp add: collected_def)
    apply (rule runs_bind [OF fb])
    apply (rule runs_return)
    by (auto simp: legal_result_def collected_def sorted_failures split: list.splits)
qed

subsection \<open>The entry points\<close>

lemma runs_env_run:
  assumes "tolerant env_ops E" and "quiet env_ops \<Longrightarrow> never_fails call"
  shows "runs (\<lambda>_. True) (env_run env_ops mk call) (\<lambda>_ _. True) (\<lambda>err _. E err)"
  using assms unfolding tolerant_def never_fails_def runs_def env_run_def
  by (auto split: prod.splits sum.splits) (metis fst_conv isl_def)+

lemma runs_env_cancelled: "tolerant env_ops E \<Longrightarrow> runs (\<lambda>_. True) (env_cancelled env_ops) (\<lambda>_ _. True) (\<lambda>err _. E err)"
  by (auto simp: runs_def env_cancelled_def tolerant_def quiet_def split: prod.splits) (metis fst_conv)+

lemma runs_run_engine:
  assumes "\<And>e. I (engine_new e)" and "runs I m (\<lambda>x _. Q x) (\<lambda>err _. E err)"
  shows "runs (\<lambda>_. True) (run_engine m) (\<lambda>x _. Q x) (\<lambda>err _. E err)"
proof (rule runsI)
  fix e
  note m = runsD [OF assms(2) assms(1), of e]
  show "case run_engine m e of (Ret x, _) \<Rightarrow> Q x | (Fail err, _) \<Rightarrow> E err | (Panic, _) \<Rightarrow> False"
    using m by (cases "m (engine_new e)"; cases "fst (m (engine_new e))") (auto simp: run_engine_def)
qed

lemma validate_config_cases: "validate_config cfg = Ret () \<or> validate_config cfg = Fail InvalidConfiguration"
  by (simp add: validate_config_def)

text \<open>Patterns with the same source have the same elements, and no list in them needs more than 32 bits.\<close>

definition coherent :: "pattern_candidate list \<Rightarrow> bool" where
  "coherent cs \<longleftrightarrow> (\<forall>p \<in> set (concat (map patterns cs)). small (elements (parsed p)) \<and>
     (\<forall>q \<in> set (concat (map patterns cs)). pattern_source p = pattern_source q \<longrightarrow> elements (parsed p) = elements (parsed q)))"

lemma find_agreeing:
  assumes "x \<in> set xs" and "\<And>y. y \<in> set xs \<Longrightarrow> k y = k x \<Longrightarrow> v y = v x"
  shows "(case find (\<lambda>y. k y = k x) xs of None \<Rightarrow> d | Some y \<Rightarrow> v y) = v x"
proof (cases "find (\<lambda>y. k y = k x) xs")
  case None
  then have "\<forall>y \<in> set xs. k y \<noteq> k x" unfolding find_None_iff by blast
  then show ?thesis using assms(1) by blast
next
  case (Some y)
  then show ?thesis using find_SomeD [OF Some] assms(2) [of y] by simp
qed

lemma coherent_agrees:
  assumes "coherent cs"
  shows "\<exists>plan. agrees plan cs"
proof -
  define ps where "ps = concat (map patterns cs)"
  define plan where "plan s = (case find (\<lambda>p. pattern_source p = s) ps of None \<Rightarrow> [] | Some p \<Rightarrow> elements (parsed p))" for s
  have c: "p \<in> set ps \<Longrightarrow> q \<in> set ps \<Longrightarrow> pattern_source p = pattern_source q \<Longrightarrow> elements (parsed p) = elements (parsed q)"
    "p \<in> set ps \<Longrightarrow> small (elements (parsed p))" for p q
    using assms by (auto simp: coherent_def ps_def)
  have "agrees plan cs" unfolding agrees_def
  proof (intro ballI conjI)
    fix x p assume "x \<in> set cs" "p \<in> set (patterns x)"
    then have p: "p \<in> set ps" by (auto simp: ps_def)
    show "plan (pattern_source p) = elements (parsed p)"
      unfolding plan_def by (rule find_agreeing [OF p]) (use c(1) p in blast)
    show "small (elements (parsed p))" by (rule c(2) [OF p])
  qed
  then show ?thesis by blast
qed

lemma ops_matcher_for [simp]: "ops (matcher_for env_ops build low cfg inp) = env_ops"
  by (simp add: matcher_for_def)

lemma runs_entry:
  assumes t: "tolerant env_ops E"
    and found: "\<And>plan. agrees plan cs \<Longrightarrow> runs (cache_ok plan (matcher_for env_ops build low cfg inp)) (match_in_environment (matcher_for env_ops build low cfg inp) cs)
      (\<lambda>r _. Q r) (\<lambda>err _. E err)"
    and c: "coherent cs"
  shows "runs (\<lambda>_. True) (match_with_environment env_ops build low cfg inp cs) (\<lambda>r _. Q r) (\<lambda>err _. E err)"
proof -
  let ?mc = "matcher_for env_ops build low cfg inp"
  obtain plan where plan: "agrees plan cs" using coherent_agrees [OF c] by blast
  note in_env = found [OF plan]
  have engine: "runs (\<lambda>_. True) (run_engine (match_in_environment ?mc cs)) (\<lambda>r _. Q r) (\<lambda>err _. E err)"
    by (rule runs_run_engine [OF _ in_env]) (simp add: cache_ok_def engine_new_def)
  have end_match: "runs (\<lambda>_. True) (abind (env_run env_ops HookFailure (finish_match env_ops b)) (\<lambda>_. alift (case result of Inl err \<Rightarrow> Fail err | Inr m \<Rightarrow> Ret m)))
      (\<lambda>r _. Q r) (\<lambda>err _. E err)" if "case result of Inl err \<Rightarrow> E err | Inr r \<Rightarrow> Q r" for result b
    by (rule runs_bind [OF runs_env_run [OF t]], simp add: quiet_def, rule runs_lift) (use that in \<open>auto split: sum.splits\<close>)
  show ?thesis unfolding match_with_environment_def
    apply (rule runs_bind [where R = "\<lambda>_ _. True"])
     apply (rule runs_lift)
    using validate_config_cases [of cfg] tolerant_intrinsic [OF t, of InvalidConfiguration] apply auto [3]
    apply (rule runs_bind [OF runs_env_cancelled [OF t]])
    apply (rule runs_bind [OF runs_env_run [OF t]])
     apply (simp add: quiet_def)
    apply (rule runs_bind [OF runs_catch [OF engine]])
    apply (rule runs_pre [OF runs_fact [where P = "\<lambda>_. True", OF end_match]])
     apply assumption
    by simp
qed

lemma runs_with_environment:
  assumes "tolerant env_ops E" and "input_ok inp" and "coherent cs"
  shows "runs (\<lambda>_. True) (match_with_environment env_ops build low cfg inp cs)
    (\<lambda>r _. legal_result (matcher_for env_ops build low cfg inp) cs r) (\<lambda>err _. E err)"
  by (rule runs_entry [OF assms(1) runs_in_environment [OF _ matcher_for_ok [OF assms(2)]] assms(3)]) (simp_all add: assms(1))

lemma runsD_fst:
  assumes "runs (\<lambda>_. True) m (\<lambda>x _. Q x) (\<lambda>err _. E err)"
  shows "case fst (m e) of Ret x \<Rightarrow> Q x | Fail err \<Rightarrow> E err | Panic \<Rightarrow> False"
  using runsD [OF assms TrueI, of e] by (cases "m e"; cases "fst (m e)") auto

text \<open>
  C6. Matching is safe in every environment, whatever its resolver, hooks and checkpoints answer: with
  an input whose provenance is valid and patterns that belong to their sources, no index, slice or
  capture slot is ever missing; an error is one of the matcher's own unless the environment can fail or
  cancel; and every match in the result names a candidate and one of its patterns, describes text of
  the trimmed input with its provenance, has its captures sorted and one for every typed slot, running
  exclusive ors for marks (or is what the environment made of such a match), and nothing recovered.
  The failures are sorted and no more than the configured number.
\<close>

theorem matching_is_safe:
  assumes "input_ok inp" and "coherent cs"
  shows "case fst (match_with_environment env_ops build low cfg inp cs e) of
      Ret r \<Rightarrow> legal_result (matcher_for env_ops build low cfg inp) cs r
    | Fail err \<Rightarrow> intrinsic err \<or> \<not> quiet env_ops
    | Panic \<Rightarrow> False"
  by (rule runsD_fst [OF runs_with_environment [OF _ assms]]) (auto simp: tolerant_def)

end
