(* ===== verification/Match_Decides.thy ===== *)
theory Match_Decides
  imports Match_Reads Match_Result
begin

text \<open>Without hooks the matcher finds exactly the states that the pattern reads.\<close>

subsection \<open>The recursion\<close>

definition finds :: "plan \<Rightarrow> (type_request \<Rightarrow> type_outcome) \<Rightarrow> ('r \<times> unit, 'x) matcher \<Rightarrow> candidate_context \<Rightarrow> match_state \<Rightarrow>
    ('r \<times> unit, match_state list) engine_action \<Rightarrow> (match_state \<Rightarrow> bool) \<Rightarrow> bool" where
  "finds plan resolve mc cur st m rel \<longleftrightarrow> (plain resolve mc \<longrightarrow> matcher_ok mc \<longrightarrow> state_ok mc st \<longrightarrow>
     runs (matching plan mc cur) m (\<lambda>found s. matching plan mc cur s \<and> set found = {st'. rel st'}) (\<lambda>err _. intrinsic err))"

lemma findsI:
  "(plain resolve mc \<Longrightarrow> matcher_ok mc \<Longrightarrow> state_ok mc st \<Longrightarrow> tolerant (ops mc) intrinsic \<Longrightarrow>
     runs (matching plan mc cur) m (\<lambda>found s. matching plan mc cur s \<and> set found = {st'. rel st'}) (\<lambda>err _. intrinsic err)) \<Longrightarrow>
   finds plan resolve mc cur st m rel"
  by (simp add: finds_def tolerant_plain)

lemma findsD:
  "finds plan resolve mc cur st m rel \<Longrightarrow> plain resolve mc \<Longrightarrow> matcher_ok mc \<Longrightarrow> state_ok mc st \<Longrightarrow>
     runs (matching plan mc cur) m (\<lambda>found s. matching plan mc cur s \<and> set found = {st'. rel st'}) (\<lambda>err _. intrinsic err)"
  by (simp add: finds_def)

lemma finds_cong: "finds plan resolve mc cur st m rel \<Longrightarrow> (\<And>st'. rel st' = rel' st') \<Longrightarrow> finds plan resolve mc cur st m rel'"
  by (simp add: finds_def)

text \<open>What is found is also legal, so the next step may start from it.\<close>

lemma finds_forward:
  assumes "finds plan resolve mc cur st m rel" and "safe plan mc cur intrinsic st m"
    and "plain resolve mc" and "matcher_ok mc" and "state_ok mc st"
  shows "runs (matching plan mc cur) m
    (\<lambda>found s. matching plan mc cur s \<and> set found = {st'. rel st'} \<and> (\<forall>st' \<in> set found. onward mc st st')) (\<lambda>err _. intrinsic err)"
  by (rule runs_post [OF runs_conj [OF findsD [OF assms(1,3-5)] safeD [OF assms(2,4) tolerant_plain [OF assms(3)] assms(5)]]])
    (auto simp: forward_def)

lemma finds_Nil: "finds plan resolve mc cur st (match_sequence mc [] i st path tail) (reads resolve mc cur [] tail st)"
  by (rule findsI, unfold match_sequence.simps, rule runs_bind [OF runs_restore runs_bind [OF runs_visit runs_return]])
    (auto simp: reads_simps)

lemma finds_Cons:
  fixes tail xs e defines "tail1 \<equiv> if has_tail e then sequence_tail_prefixes xs tail else tail"
  assumes first: "finds plan resolve mc cur st (match_element mc (Spanned e r) st (path @ [ElementSegment (path_index i)]) tail1)
      (reads_element resolve mc cur e r tail1 st)"
    and safe: "safe plan mc cur intrinsic st (match_element mc (Spanned e r) st (path @ [ElementSegment (path_index i)]) tail1)"
    and rest: "\<And>st. finds plan resolve mc cur st (match_sequence mc xs (i + 1) st path tail) (reads resolve mc cur xs tail st)"
  shows "finds plan resolve mc cur st (match_sequence mc (Spanned e r # xs) i st path tail) (reads resolve mc cur (Spanned e r # xs) tail st)"
proof (rule findsI)
  assume a: "plain resolve mc" "matcher_ok mc" "state_ok mc st" and t: "tolerant (ops mc) intrinsic"
  let ?I = "matching plan mc cur"
  have all: "runs ?I (aconcat (\<lambda>st1. match_sequence mc xs (i + 1) st1 path tail) found)
      (\<lambda>ys s. ?I s \<and> set ys = {st2. \<exists>st1 \<in> set found. reads resolve mc cur xs tail st1 st2}) (\<lambda>err _. intrinsic err)"
    if "\<forall>st' \<in> set found. onward mc st st'" for found
  proof (rule runs_post [OF runs_aconcat [where R = "\<lambda>st1 ys. set ys = {st2. reads resolve mc cur xs tail st1 st2}"]])
    show "runs ?I (match_sequence mc xs (i + 1) x path tail) (\<lambda>ys s. ?I s \<and> set ys = {st2. reads resolve mc cur xs tail x st2}) (\<lambda>err _. intrinsic err)"
      if "x \<in> set found" for x
      by (rule findsD [OF rest a(1,2)]) (use that \<open>\<forall>st' \<in> set found. onward mc st st'\<close> in \<open>simp add: onward_def\<close>)
  qed (auto dest: concat_list_all2_set)
  show "runs ?I (match_sequence mc (Spanned e r # xs) i st path tail)
      (\<lambda>found s. ?I s \<and> set found = {st'. reads resolve mc cur (Spanned e r # xs) tail st st'}) (\<lambda>err _. intrinsic err)"
    unfolding match_sequence.simps spanned.sel tail1_def [symmetric]
    apply (rule runs_bind [OF runs_restore [OF t stable_matching]])
    apply (rule runs_bind [OF runs_visit [OF t stable_matching]])
    apply (rule runs_bind [OF finds_forward [OF first safe a]], rule runs_fact)
    apply (rule runs_bind [OF runs_backtracks [OF t stable_matching]])
    apply (rule runs_post [OF all])
     apply simp
    by (auto simp: reads_simps tail1_def)
qed

lemma finds_element:
  assumes "\<And>st. finds plan resolve mc cur st (match_element_default mc e r st path tail) (reads_element resolve mc cur e r tail st)"
  shows "finds plan resolve mc cur st (match_element mc (Spanned e r) st path tail) (reads_element resolve mc cur e r tail st)"
  by (rule findsI, unfold match_element.simps, rule runs_plain_hooks [OF _ _ stable_matching])
    (auto simp: matching_current intro: findsD [OF assms])

lemma finds_literal:
  assumes "here plan cur path (Literal s)"
  shows "finds plan resolve mc cur st (match_element_default mc (Literal s) r st path tail) (reads_element resolve mc cur (Literal s) r tail st)"
proof -
  have "cursor (push_implicit_tag s st) = cursor st" by (simp add: push_implicit_tag_def Let_def split: option.split)
  then have "set (literal_states mc s (push_implicit_tag s st)) = {st'. reads_element resolve mc cur (Literal s) r tail st st'}"
    by (auto simp: literal_states_def reads_element_simps split: sum.splits)
  then show ?thesis
    by (intro findsI, unfold match_element_default.simps, intro runs_post [OF runs_literal [OF assms]]) simp
qed

lemma fresh_regex_iff:
  assumes "compile mc s = Inr re"
  shows "t \<in> set (fresh_transitions mc (Regex s) from) \<longleftrightarrow>
    (\<exists>stop \<in> set (skript_boundaries (text_of mc) from (range_end (trim mc))). t \<in> set (regex_results mc re from stop))"
  by (simp add: fresh_transitions_def assms)

lemma set_try_map: "try_map f xs = Ret ys \<Longrightarrow> set ys = {y. \<exists>x \<in> set xs. f x = Ret y}"
  by (induction xs arbitrary: ys) (auto simp: outcome_simps)

lemma finds_regex:
  assumes "here plan cur path (Regex s)" and "context_indices cur r = Some slot"
  shows "finds plan resolve mc cur st (match_element_default mc (Regex s) r st path tail) (reads_element resolve mc cur (Regex s) r tail st)"
proof (rule findsI, unfold match_element_default.simps)
  assume a: "matcher_ok mc" "tolerant (ops mc) intrinsic"
  have "set found = {st'. reads_element resolve mc cur (Regex s) r tail st st'}"
    if re: "compile mc s = Inr re" and found: "regex_states mc slot r s (st\<lparr>pending_implicit_tag := None\<rparr>) = Ret found" for found re
  proof -
    have f: "set found = {st'. \<exists>t \<in> set (fresh_transitions mc (Regex s) (cursor st)). regex_state mc slot r (st\<lparr>pending_implicit_tag := None\<rparr>) t = Ret st'}"
      using set_try_map [OF found [unfolded regex_states_def]] by simp
    have "reads_element resolve mc cur (Regex s) r tail st st' \<longleftrightarrow>
        (\<exists>t \<in> set (fresh_transitions mc (Regex s) (cursor st)). regex_state mc slot r (st\<lparr>pending_implicit_tag := None\<rparr>) t = Ret st')" for st'
      unfolding reads_element_simps Bex_def fresh_regex_iff [OF re] re assms(2) by blast
    then show ?thesis unfolding f by simp
  qed
  then show "runs (matching plan mc cur) (match_regex mc r s (st\<lparr>pending_implicit_tag := None\<rparr>) path)
      (\<lambda>found t. matching plan mc cur t \<and> set found = {st'. reads_element resolve mc cur (Regex s) r tail st st'}) (\<lambda>err _. intrinsic err)"
    by (intro runs_post [OF runs_regex [OF a(2,1) assms]]) auto
qed

lemma finds_type:
  assumes "context_indices cur r = Some slot"
  shows "finds plan resolve mc cur st (match_element_default mc (TypeExpr t) r st path tail) (reads_element resolve mc cur (TypeExpr t) r tail st)"
  by (rule findsI, unfold match_element_default.simps, rule runs_post [OF runs_plain_type [OF _ _ state_ok_pending assms]])
    (auto simp: reads_element_simps assms)

lemma finds_option:
  assumes taken: "finds plan resolve mc cur st (match_sequence mc es 0 st path tail) (reads resolve mc cur es tail st)" and "covered cur es"
  shows "finds plan resolve mc cur st (match_element_default mc (OptionElement es) r st path tail) (reads_element resolve mc cur (OptionElement es) r tail st)"
proof (rule findsI, unfold match_element_default.simps)
  assume a: "plain resolve mc" "matcher_ok mc" "state_ok mc st"
  obtain caps where caps: "retain_omitted mc (Some cur) (cursor st) es (captures st) = Ret caps"
    using retain_state_ok [OF a(2,3) assms(2) state_ok_captures_of [OF a(3)]] by metis
  show "runs (matching plan mc cur) (abind (match_sequence mc es 0 st path tail) (\<lambda>found. abind (aget current) (\<lambda>cur.
       abind (alift (retain_omitted mc cur (cursor st) es (captures st))) (\<lambda>caps.
       areturn (found @ [st\<lparr>pending_implicit_tag := None, captures := caps\<rparr>])))))
     (\<lambda>found s. matching plan mc cur s \<and> set found = {st'. reads_element resolve mc cur (OptionElement es) r tail st st'}) (\<lambda>err _. intrinsic err)"
    apply (rule runs_bind [OF findsD [OF taken a]])
    apply (rule runs_get_known, drule conjunct1, erule matching_current)
    apply (rule runs_lift_known [OF caps])
    apply (rule runs_return)
    using caps by (auto simp: reads_element_simps)
qed

text \<open>The branches of a choice from the \<open>i\<close>-th on.\<close>

definition reads_branch ::
    "(type_request \<Rightarrow> type_outcome) \<Rightarrow> ('e, 'x) matcher \<Rightarrow> candidate_context \<Rightarrow> spanned_element list list \<Rightarrow> nat \<Rightarrow> tail_prefix list \<Rightarrow>
     match_state \<Rightarrow> match_state \<Rightarrow> bool" where
  "reads_branch resolve mc cur bs i tail st st' \<longleftrightarrow> (\<exists>j st1. i \<le> j \<and> j < length bs \<and> reads resolve mc cur (bs ! j) tail st st1 \<and>
     retain_other_branches mc (Some cur) (cursor st) bs j st1 = Ret st')"

lemma reads_choice: "reads_element resolve mc cur (Choice bs) r tail st st' \<longleftrightarrow> reads_branch resolve mc cur bs 0 tail st st'"
  by (auto simp: reads_element_simps reads_branch_def)

lemma ex_from_Suc: "(\<exists>j x. i \<le> j \<and> P j x) \<longleftrightarrow> (\<exists>x. P i x) \<or> (\<exists>j x. i + 1 \<le> j \<and> P j x)" for i :: nat
proof -
  have "i \<le> j \<longleftrightarrow> j = i \<or> i + 1 \<le> j" for j by auto
  then show ?thesis by simp blast
qed

lemma reads_branch_Suc:
  assumes "i < length bs"
  shows "reads_branch resolve mc cur bs i tail st st' \<longleftrightarrow>
    (\<exists>st1. reads resolve mc cur (bs ! i) tail st st1 \<and> retain_other_branches mc (Some cur) (cursor st) bs i st1 = Ret st') \<or>
    reads_branch resolve mc cur bs (i + 1) tail st st'"
  unfolding reads_branch_def by (subst ex_from_Suc) (simp add: assms)

lemma finds_branches_Cons:
  assumes first: "finds plan resolve mc cur st (match_sequence mc (every ! i) 0 st (path @ [BranchSegment (path_index i)]) tail)
      (reads resolve mc cur (every ! i) tail st)"
    and safe: "safe plan mc cur intrinsic st (match_sequence mc (every ! i) 0 st (path @ [BranchSegment (path_index i)]) tail)"
    and rest: "finds plan resolve mc cur st (match_branches mc every bs (i + 1) st path tail) (reads_branch resolve mc cur every (i + 1) tail st)"
    and "i < length every" and covered: "\<forall>b \<in> set every. covered cur b"
  shows "finds plan resolve mc cur st (match_branches mc every (every ! i # bs) i st path tail) (reads_branch resolve mc cur every i tail st)"
proof (rule findsI, unfold match_branches.simps)
  assume a: "plain resolve mc" "matcher_ok mc" "state_ok mc st"
  let ?I = "matching plan mc cur"
  let ?keep = "retain_other_branches mc (Some cur) (cursor st) every i"
  have kept: "runs ?I (alift (try_map ?keep found)) (\<lambda>ys s. ?I s \<and> set ys = {y. \<exists>x \<in> set found. ?keep x = Ret y}) (\<lambda>err _. intrinsic err)"
    if "\<forall>st' \<in> set found. onward mc st st'" for found
  proof -
    have "\<exists>y. ?keep x = Ret y \<and> True" if "x \<in> set found" for x
    proof -
      have "state_ok mc x" using that \<open>\<forall>st' \<in> set found. onward mc st st'\<close> by (simp add: onward_def)
      from retain_other_ok [OF a(2,3) covered this, of i] show ?thesis by blast
    qed
    then obtain ys where "try_map ?keep found = Ret ys" using try_map_total [of found ?keep "\<lambda>_. True"] by blast
    then show ?thesis using set_try_map [of ?keep found ys] by (intro runs_lift) simp_all
  qed
  show "runs ?I (abind (match_sequence mc (every ! i) 0 st (path @ [BranchSegment (path_index i)]) tail) (\<lambda>found.
     abind (aget current) (\<lambda>cur. abind (alift (try_map (retain_other_branches mc cur (cursor st) every i) found)) (\<lambda>kept.
     abind (match_branches mc every bs (i + 1) st path tail) (\<lambda>more. areturn (kept @ more))))))
    (\<lambda>found s. ?I s \<and> set found = {st'. reads_branch resolve mc cur every i tail st st'}) (\<lambda>err _. intrinsic err)"
    apply (rule runs_bind [OF finds_forward [OF first safe a]], rule runs_fact)
    apply (rule runs_get_known, erule matching_current)
    apply (rule runs_bind [OF kept], simp, rule runs_fact)
    apply (rule runs_bind [OF findsD [OF rest a]], rule runs_fact)
    apply (rule runs_return)
    by (auto simp: reads_branch_Suc [OF assms(4)])
qed

lemma finds_leaf:
  assumes "\<And>err. r = Fail err \<Longrightarrow> intrinsic err" and "matcher_ok mc \<Longrightarrow> r \<noteq> Panic" and "\<And>st'. rel st' \<longleftrightarrow> r = Ret st'"
  shows "finds plan resolve mc cur st (alift (obind r (\<lambda>st. Ret [st]))) rel"
  using assms unfolding finds_def by (auto intro!: runs_lift simp: outcome_simps)

lemma recursion_finds:
  shows "placed plan cur path i es \<Longrightarrow> finds plan resolve mc cur st (match_sequence mc es i st path tail) (reads resolve mc cur es tail st)"
    and "placed_element plan cur path (element x) (span x) \<Longrightarrow>
      finds plan resolve mc cur st (match_element mc x st path tail) (reads_element resolve mc cur (element x) (span x) tail st)"
    and "placed_element plan cur path e r \<Longrightarrow>
      finds plan resolve mc cur st (match_element_default mc e r st path tail) (reads_element resolve mc cur e r tail st)"
    and "\<exists>r. placed_element plan cur path (Choice every) r \<Longrightarrow> bs = drop i every \<Longrightarrow>
      finds plan resolve mc cur st (match_branches mc every bs i st path tail) (reads_branch resolve mc cur every i tail st)"
proof (induction mc es i st path tail and mc x st path tail and mc e r st path tail and mc every bs i st path tail
    rule: match_sequence_match_element_match_element_default_match_branches.induct)
  case (1 mc i st path outer)
  show ?case by (rule finds_Nil)
next
  case (2 mc x xs i st path outer)
  obtain e r where x: "x = Spanned e r" by (cases x)
  have p: "placed_element plan cur (path @ [ElementSegment (path_index i)]) e r" "placed plan cur path (i + 1) xs"
    using placed_Cons "2.prems" by (auto simp: x)
  show ?case unfolding x
    by (rule finds_Cons) (use "2.IH" p recursion_safe(2) [of plan cur _ "Spanned e r"] in \<open>auto simp: x\<close>)
next
  case (3 mc e sp st path tail)
  then show ?case unfolding spanned.sel by (intro finds_element) auto
next
  case (4 mc s sp st path tail)
  then show ?case by (intro finds_literal) (simp add: placed_element_def)
next
  case (5 mc bs sp st path tail)
  then have all: "finds plan resolve mc cur st (match_branches mc bs bs 0 st path tail) (reads_branch resolve mc cur bs 0 tail st)" by auto
  show ?case unfolding reads_choice [abs_def]
    by (intro findsI, unfold match_element_default.simps, intro runs_bind [OF runs_backtracks]) (auto intro: findsD [OF all])
next
  case (6 mc es sp st path tail)
  then have "finds plan resolve mc cur st (match_sequence mc es 0 st path tail) (reads resolve mc cur es tail st)"
    using placed_inside(1) by blast
  then show ?case unfolding match_element_default.simps by (rule finds_cong) (simp add: reads_element_simps)
next
  case (7 mc es sp st path tail)
  then show ?case using placed_inside(2) [OF "7.prems"] by (intro finds_option) (auto simp: placed_def)
next
  case (8 mc s sp st path tail)
  then obtain slot where "here plan cur path (Regex s)" "context_indices cur sp = Some slot"
    using captured_slot(1) by (auto simp: placed_element_def)
  then show ?case by (rule finds_regex)
next
  case (9 mc t sp st path tail)
  then obtain slot where slot: "context_indices cur sp = Some slot"
    using captured_slot(2) by (auto simp: placed_element_def)
  show ?case by (rule finds_type [OF slot])
next
  case (10 mc s sp st path tail)
  show ?case unfolding match_element_default.simps
    by (rule finds_leaf) (simp_all add: match_tag_cases(1,2) reads_element_simps)
next
  case (11 mc n sp st path tail)
  show ?case unfolding match_element_default.simps
    by (rule finds_leaf) (simp_all add: match_tag_cases(3,4) reads_element_simps)
next
  case (12 mc sp st path tail)
  show ?case by (intro findsI, unfold match_element_default.simps, intro runs_return) (auto simp: reads_element_simps)
next
  case (13 mc every i st path tail)
  then show ?case by (intro findsI, unfold match_branches.simps, intro runs_return) (auto simp: reads_branch_def)
next
  case (14 mc every b bs i st path tail)
  then obtain r where r: "placed_element plan cur path (Choice every) r" by blast
  have l: "i < length every" using "14.prems"(2) by (metis drop_eq_Nil leI list.distinct(1))
  then have "b # bs = every ! i # drop (i + 1) every" using "14.prems"(2) Cons_nth_drop_Suc [OF l] by simp
  then have b: "b = every ! i" "bs = drop (i + 1) every" using list.inject by auto
  note p = placed_branch [OF r l]
  show ?case unfolding b(1)
    by (rule finds_branches_Cons) (use 14 p l b r recursion_safe(1) [OF p] in \<open>auto simp: placed_element_def\<close>)
qed

end
