(* ===== verification/Match_Order.thy ===== *)
theory Match_Order
  imports Match_Candidates
begin

text \<open>
  The order in which candidates are tried, stated over the candidates alone, and the proof that
  \<open>rank_candidates\<close> puts them in it.
\<close>

text \<open>A kind comes before another if it is met first in the list.\<close>

definition kind_before :: "match_syntax_kind list \<Rightarrow> match_syntax_kind \<Rightarrow> match_syntax_kind \<Rightarrow> bool" where
  "kind_before ks k l \<longleftrightarrow> (\<exists>before after. ks = before @ k # after \<and> k \<noteq> l \<and> l \<notin> set before)"

text \<open>
  Among candidates of one kind, the resolved order decides, those without one last; then the lower
  priority value, the order of registration and the place in the list.
\<close>

definition tried_before :: "pattern_candidate list \<Rightarrow> nat \<Rightarrow> nat \<Rightarrow> bool" where
  "tried_before cs i j \<longleftrightarrow> (let a = cs ! i; b = cs ! j in
     if candidate_kind a \<noteq> candidate_kind b then kind_before (map candidate_kind cs) (candidate_kind a) (candidate_kind b)
     else (case (resolved_order a, resolved_order b) of
         (Some m, Some n) \<Rightarrow> m < n
       | (Some m, None) \<Rightarrow> True
       | _ \<Rightarrow> False) \<or>
       resolved_order a = resolved_order b \<and> (priority a < priority b \<or>
         priority a = priority b \<and> (registration_order a < registration_order b \<or>
           registration_order a = registration_order b \<and> i < j)))"

definition in_rank_order :: "pattern_candidate list \<Rightarrow> pattern_candidate list \<Rightarrow> bool" where
  "in_rank_order cs ordered \<longleftrightarrow> (\<exists>ns. distinct ns \<and> set ns = {..<length cs} \<and> ordered = map ((!) cs) ns \<and> sorted_wrt (tried_before cs) ns)"

lemma position_append: "position k (xs @ ys) = (if k \<in> set xs then position k xs else length xs + position k ys)"
  by (induction xs) auto

lemma position_less: "k \<in> set xs \<Longrightarrow> position k xs < length xs"
  by (induction xs) auto

lemma extend_unique_grows: "\<exists>zs. extend_unique xs ys = xs @ zs"
proof (induction ys arbitrary: xs)
  case (Cons y ys)
  then obtain zs where "extend_unique (push_unique xs y) ys = push_unique xs y @ zs" by blast
  then show ?case by (auto simp: push_unique_def)
qed simp

lemma position_kinds:
  assumes "position k (extend_unique seen ks) < position l (extend_unique seen ks)" and "k \<in> set ks" and "k \<notin> set seen"
  shows "kind_before ks k l"
  using assms
proof (induction ks arbitrary: seen)
  case (Cons x ks)
  obtain zs where ext: "extend_unique seen (x # ks) = push_unique seen x @ zs"
    using extend_unique_grows [of "push_unique seen x" ks] by auto
  show ?case
  proof (cases "x = k")
    case True
    have "k \<noteq> l" using Cons.prems(1) by auto
    then have "x # ks = [] @ k # ks \<and> k \<noteq> l \<and> l \<notin> set []" using True by simp
    then show ?thesis unfolding kind_before_def by blast
  next
    case x: False
    have l: "l \<notin> set (push_unique seen x)"
    proof
      assume "l \<in> set (push_unique seen x)"
      moreover have "k \<notin> set (push_unique seen x)" using x Cons.prems(3) by auto
      ultimately show False using Cons.prems(1) position_less [of l "push_unique seen x"] unfolding ext by (simp add: position_append)
    qed
    have "kind_before ks k l" by (rule Cons.IH [of "push_unique seen x"]) (use Cons.prems x in auto)
    then obtain before after where "ks = before @ k # after" "k \<noteq> l" "l \<notin> set before" by (auto simp: kind_before_def)
    then have "x # ks = (x # before) @ k # after \<and> k \<noteq> l \<and> l \<notin> set (x # before)" using l by auto
    then show ?thesis unfolding kind_before_def by blast
  qed
qed simp

lemma position_inj: "k \<in> set ks \<Longrightarrow> position k ks = position l ks \<Longrightarrow> k = l"
  by (induction ks) (auto split: if_splits)

lemma registry_key_less:
  "(registry_key (resolved_order a) (priority a) (registration_order a), i) <
      (registry_key (resolved_order b) (priority b) (registration_order b), j) \<Longrightarrow> candidate_kind (cs ! i) = candidate_kind (cs ! j) \<Longrightarrow>
    a = cs ! i \<Longrightarrow> b = cs ! j \<Longrightarrow> tried_before cs i j"
  by (cases "resolved_order a"; cases "resolved_order b") (auto simp: registry_key_def tried_before_def Let_def less_prod_def)

lemma pair_less: "(p, q) < (p', q') \<Longrightarrow> p < p' \<or> p = p' \<and> q < q'" for p :: nat and q :: "'b :: linorder"
  by auto

lemma rank_candidates_in_rank_order: "in_rank_order cs (rank_candidates cs)"
proof -
  define key where "key = (\<lambda>(i :: nat, c :: pattern_candidate).
     (position (candidate_kind c) (kind_order cs), registry_key (resolved_order c) (priority c) (registration_order c), i))"
  define s where "s = sort_key key (enumerate 0 cs)"
  have member: "i < length cs \<and> c = cs ! i" if "(i, c) \<in> set s" for i c
    using that by (auto simp: s_def in_set_enumerate_eq)
  have "mset (map fst s) = mset (map fst (enumerate 0 cs))" unfolding s_def mset_map by simp
  then have perm: "mset (map fst s) = mset [0..<length cs]" by simp
  have d: "distinct (map fst s)" using mset_eq_imp_distinct_iff [OF perm] by simp
  have st: "set (map fst s) = {..<length cs}" using mset_eq_setD [OF perm] by (simp add: atLeast0LessThan)
  have "map snd s = map ((!) cs) (map fst s)" using member by auto
  then have ordered: "rank_candidates cs = map ((!) cs) (map fst s)" by (simp add: rank_candidates_def s_def key_def)
  have "sorted_wrt (\<le>) (map key s)" by (simp add: s_def)
  moreover have "distinct (map key s)"
  proof (subst distinct_map, intro conjI inj_onI)
    show "distinct s" using d by (simp add: distinct_map)
    fix x y assume x: "x \<in> set s" "y \<in> set s" and k: "key x = key y"
    have "fst x = fst y" using k by (auto simp: key_def split: prod.splits)
    then show "x = y" using member x by (metis prod.collapse)
  qed
  ultimately have "sorted_wrt (<) (map key s)" unfolding strict_sorted_iff by blast
  then have "sorted_wrt (\<lambda>x y. key x < key y) s" by (simp add: sorted_wrt_map)
  then have "sorted_wrt (\<lambda>x y. tried_before cs (fst x) (fst y)) s"
  proof (rule sorted_wrt_mono_rel [rotated])
    fix x y assume x: "x \<in> set s" "y \<in> set s" "key x < key y"
    obtain i a j b where xy: "x = (i, a)" "y = (j, b)" by (cases x; cases y)
    have a: "a = cs ! i" "i < length cs" and b: "b = cs ! j" "j < length cs" using member x(1,2) xy by auto
    let ?k = "candidate_kind a" and ?l = "candidate_kind b"
    have mem: "?k \<in> set (map candidate_kind cs)" using a by simp
    show "tried_before cs (fst x) (fst y)"
    proof (cases "?k = ?l")
      case True
      then have "(registry_key (resolved_order a) (priority a) (registration_order a), i) <
          (registry_key (resolved_order b) (priority b) (registration_order b), j)"
        using x(3) xy by (simp add: key_def)
      then show ?thesis using registry_key_less [of a i b j cs] True a b xy by simp
    next
      case False
      have "position ?k (kind_order cs) \<noteq> position ?l (kind_order cs)"
        using position_inj [of ?k "kind_order cs" ?l] mem False by (auto simp: kind_order_def)
      then have "position ?k (kind_order cs) < position ?l (kind_order cs)" using x(3) unfolding xy key_def prod.case by (auto dest: pair_less)
      then have "kind_before (map candidate_kind cs) ?k ?l" 
        using mem position_kinds [of ?k "[]" "map candidate_kind cs" ?l] unfolding kind_order_def by simp
      then show ?thesis using False a b xy by (simp add: tried_before_def Let_def)
    qed
  qed
  then have "sorted_wrt (tried_before cs) (map fst s)" by (simp add: sorted_wrt_map)
  then show ?thesis unfolding in_rank_order_def using d st ordered by blast
qed

end
