(* ===== verification/Match_Chosen.thy ===== *)
theory Match_Chosen
  imports Match_Decides Match_Order
begin

text \<open>
  Which match is returned without hooks: the candidates that read the whole input, in the order of their
  ranks, each with the first of its patterns that does.
\<close>

subsection \<open>Complete readings\<close>

definition complete_reading ::
    "(type_request \<Rightarrow> type_outcome) \<Rightarrow> ('e, 'x) matcher \<Rightarrow> pattern_candidate \<Rightarrow> match_pattern \<Rightarrow> match_state \<Rightarrow> bool" where
  "complete_reading resolve mc c p st \<longleftrightarrow>
     reads resolve mc (candidate_context c (Some p)) (elements (parsed p)) pattern_end (match_state_new (range_start (trim mc))) st \<and>
     cursor st = range_end (trim mc)"

text \<open>The match of a reading: its captures with the omitted ones, sorted by slot.\<close>

definition match_of :: "('e, 'x) matcher \<Rightarrow> pattern_candidate \<Rightarrow> match_pattern \<Rightarrow> match_state \<Rightarrow> 'x candidate_match \<Rightarrow> bool" where
  "match_of mc c p st m \<longleftrightarrow> (\<exists>v caps. raw_match mc c p st = Ret v \<and>
     retain_omitted mc (Some (candidate_context c (Some p))) (range_end (trim mc)) (elements (parsed p)) (captures st) = Ret caps \<and>
     m = v\<lparr>cm_matched := (cm_matched v)\<lparr>pm_captures := sort_key capture_index caps\<rparr>\<rparr>)"

definition pattern_result ::
    "(type_request \<Rightarrow> type_outcome) \<Rightarrow> ('e, 'x) matcher \<Rightarrow> pattern_candidate \<Rightarrow> match_pattern \<Rightarrow> 'x candidate_match option \<Rightarrow> bool" where
  "pattern_result resolve mc c p found \<longleftrightarrow> (case found of
     None \<Rightarrow> \<nexists>st. complete_reading resolve mc c p st
   | Some m \<Rightarrow> \<exists>st. complete_reading resolve mc c p st \<and> match_of mc c p st m)"

definition patterns_result ::
    "(type_request \<Rightarrow> type_outcome) \<Rightarrow> ('e, 'x) matcher \<Rightarrow> pattern_candidate \<Rightarrow> match_pattern list \<Rightarrow> 'x candidate_match option \<Rightarrow> bool" where
  "patterns_result resolve mc c all found \<longleftrightarrow> (case found of
     None \<Rightarrow> \<forall>p \<in> set all. \<nexists>st. complete_reading resolve mc c p st
   | Some m \<Rightarrow> \<exists>ps p qs st. all = ps @ p # qs \<and> (\<forall>q \<in> set ps. \<nexists>st. complete_reading resolve mc c q st) \<and>
       complete_reading resolve mc c p st \<and> match_of mc c p st m)"

text \<open>Nothing is recovered.\<close>

lemma reads_recovered:
  "reads resolve mc cur es tail st st' \<Longrightarrow> recovered_failures st' = recovered_failures st"
  "reads_element resolve mc cur e r tail st st' \<Longrightarrow> recovered_failures st' = recovered_failures st"
proof (induction rule: reads_reads_element.inducts)
  case (ReadRegex s re stop st t r slot st' tail)
  then show ?case by (auto simp: regex_state_def outcome_simps split: cached_transition.splits)
next
  case (ReadChoice j bs tail st st1 st' r)
  then show ?case by (auto simp: retain_other_branches_def outcome_simps)
next
  case (ReadTag s r st st' tail)
  then show ?case by (auto simp: match_tag_def push_mark_def Let_def outcome_simps split: if_splits option.splits)
next
  case (ReadMark n r st st' tail)
  then show ?case by (auto simp: match_mark_def push_mark_def Let_def outcome_simps)
qed (auto simp: push_implicit_tag_def read_type_def typed_state_def Let_def split: option.split)

lemma match_of_fields:
  assumes "match_of mc c p st m" and "complete_reading resolve mc c p st"
  shows "pm_recovered (cm_matched m) = []" "m\<lparr>cm_extension_state := None\<rparr> = m"
  using assms reads_recovered(1) [of resolve mc _ _ _ _ st]
  by (auto simp: match_of_def complete_reading_def raw_match_def match_state_new_def outcome_simps)

subsection \<open>Steps without hooks\<close>

lemma runs_plain_scope:
  assumes "plain resolve mc" and "matcher_ok mc" and "stable I" and "\<And>s. I s \<Longrightarrow> current s \<noteq> None"
  shows "runs I (scope_before mc scope) (\<lambda>x s. I s \<and> x = ScopeContinue) (\<lambda>err _. intrinsic err)"
    and "runs I (scope_after_failed mc scope reason) (\<lambda>x s. I s \<and> x = ScopeContinue) (\<lambda>err _. intrinsic err)"
    and "runs I (scope_after_matched mc scope r) (\<lambda>x s. I s \<and> x) (\<lambda>err _. intrinsic err)"
  unfolding scope_before_def scope_after_failed_def scope_after_matched_def
  by (rule runs_bind [OF runs_plain_dispatch [OF assms]], assumption, rule runs_fact,
      auto simp: scope_control_def intro: runs_return)+

definition plain_ready :: "plan \<Rightarrow> (type_request \<Rightarrow> type_outcome) \<Rightarrow> ('r \<times> unit, 'x) matcher \<Rightarrow> pattern_candidate \<Rightarrow> bool" where
  "plain_ready plan resolve mc c \<longleftrightarrow> plain resolve mc \<and> ready plan mc intrinsic c"

lemma plain_readyD: "plain_ready plan resolve mc c \<Longrightarrow> plain resolve mc" "plain_ready plan resolve mc c \<Longrightarrow> ready plan mc intrinsic c"
  "plain_ready plan resolve mc c \<Longrightarrow> matcher_ok mc" "plain_ready plan resolve mc c \<Longrightarrow> tolerant (ops mc) intrinsic"
  by (auto simp: plain_ready_def ready_def)

lemma runs_plain_pattern_scope:
  assumes "plain_ready plan resolve mc c"
  shows "runs (at_pattern plan mc c p) (scope_before mc scope) (\<lambda>x s. at_pattern plan mc c p s \<and> x = ScopeContinue) (\<lambda>err _. intrinsic err)"
    and "runs (at_pattern plan mc c p) (scope_after_failed mc scope reason) (\<lambda>x s. at_pattern plan mc c p s \<and> x = ScopeContinue) (\<lambda>err _. intrinsic err)"
    and "runs (at_pattern plan mc c p) (scope_after_matched mc scope r) (\<lambda>x s. at_pattern plan mc c p s \<and> x) (\<lambda>err _. intrinsic err)"
  using plain_readyD(1,3) [OF assms] by (auto intro!: runs_plain_scope simp: matching_current)

lemma runs_plain_candidate_scope:
  assumes "plain_ready plan resolve mc c"
  shows "runs (visiting plan mc c) (scope_before mc scope) (\<lambda>x s. visiting plan mc c s \<and> x = ScopeContinue) (\<lambda>err _. intrinsic err)"
    and "runs (visiting plan mc c) (scope_after_failed mc scope reason) (\<lambda>x s. visiting plan mc c s \<and> x = ScopeContinue) (\<lambda>err _. intrinsic err)"
    and "runs (visiting plan mc c) (scope_after_matched mc scope r) (\<lambda>x s. visiting plan mc c s \<and> x) (\<lambda>err _. intrinsic err)"
  by (rule runs_plain_scope [OF plain_readyD(1,3) [OF assms] stable_visiting visiting_current]; assumption)+

subsection \<open>Completion\<close>

lemma runs_plain_call_ok:
  assumes "plain resolve mc" and "stable I" and "\<And>e. call e = (Inr v, e)"
  shows "runs I (call_env mc mk call) (\<lambda>x s. I s \<and> x = v) (\<lambda>_ _. False)"
  using stableD(1) [OF assms(2)] assms(1) by (auto simp: runs_def in_env_def env_run_def assms(3))

lemma runs_plain_complete:
  assumes r: "plain_ready plan resolve mc c" and st: "state_ok mc st" and v: "raw_match mc c p st = Ret v"
  shows "runs (at_pattern plan mc c p) (complete_match mc c p v)
    (\<lambda>found s. at_pattern plan mc c p s \<and> (\<exists>m. found = Some m \<and> match_of mc c p st m)) (\<lambda>err _. intrinsic err)"
proof -
  let ?J = "at_pattern plan mc c p"
  note plain = plain_readyD(1) [OF r]
  have raw: "raw_ok mc c p v" using raw_match_ok [OF plain_readyD(3) [OF r] disjI1 [OF st], of c p] v by auto
  then have e: "range_end (local_range (pm_span (cm_matched v))) = range_end (trim mc)" by (simp add: raw_ok_def)
  have cap: "pm_captures (cm_matched v) = captures st" using v by (auto simp: raw_match_def outcome_simps)
  obtain caps where caps: "retain_omitted mc (Some (candidate_context c (Some p))) (range_end (trim mc)) (elements (parsed p)) (captures st) = Ret caps"
    using completed_good [OF plain_readyD(3) [OF r] raw] unfolding e cap by metis
  let ?g = "(cm_matched v)\<lparr>pm_captures := sort_key capture_index caps\<rparr>"
  have m: "match_of mc c p st (v\<lparr>cm_matched := ?g\<rparr>)" using v caps by (auto simp: match_of_def)
  have call: "runs ?J (call_env mc HookFailure (complete_typed_captures (ops mc) c p ?g)) (\<lambda>x s. ?J s \<and> x = (None, ?g)) (\<lambda>_ _. False)"
    by (rule runs_plain_call_ok [OF plain stable_matching]) (use plain in \<open>simp add: plain_def\<close>)
  have caught: "runs ?J (acatch (call_env mc HookFailure (complete_typed_captures (ops mc) c p ?g)))
      (\<lambda>x s. ?J s \<and> x = Inr (None, ?g)) (\<lambda>err _. intrinsic err)"
    by (rule runs_post [OF runs_catch [OF call]]) (auto split: sum.splits)
  show ?thesis unfolding complete_match_def Let_def e cap
    apply (rule runs_get_known, erule matching_current)
    apply (rule runs_lift_known [OF caps])
    apply (rule runs_if)
     apply (rule runs_return)
    using m apply blast
    apply (rule runs_bind [OF runs_checkpoint [OF plain_readyD(4) [OF r] stable_matching]])
    apply (rule runs_bind [OF caught], rule runs_fact)
    apply (simp only: sum.case prod.case option.case)
    apply (rule runs_bind [OF runs_return [where Q = "\<lambda>_. ?J"]], assumption)
    apply (rule runs_return)
    using m by blast
qed

lemma runs_plain_first_completed:
  assumes r: "plain_ready plan resolve mc c" and ok: "\<forall>st \<in> set sts. state_ok mc st"
  shows "runs (at_pattern plan mc c p) (first_completed mc c p sts)
    (\<lambda>found s. at_pattern plan mc c p s \<and> (case sts of [] \<Rightarrow> found = None | st # _ \<Rightarrow> \<exists>m. found = Some m \<and> match_of mc c p st m))
    (\<lambda>err _. intrinsic err)"
proof (cases sts)
  case Nil
  show ?thesis unfolding Nil first_completed.simps by (rule runs_return) simp
next
  case (Cons st rest)
  have st: "state_ok mc st" using ok Cons by simp
  obtain v where v: "raw_match mc c p st = Ret v" using raw_match_ok [OF plain_readyD(3) [OF r] disjI1 [OF st]] by metis
  show ?thesis unfolding Cons first_completed.simps list.case
    apply (rule runs_bind [OF runs_restore [OF plain_readyD(4) [OF r] stable_matching]])
    apply (rule runs_lift_known [OF v])
    apply (rule runs_bind [OF runs_plain_complete [OF r st v]], rule runs_fact, elim exE conjE, simp only: option.case)
    by (rule runs_return) blast
qed

subsection \<open>One pattern\<close>

lemma runs_plain_override:
  assumes "plain_ready plan resolve mc c"
  shows "runs (at_pattern plan mc c p) (override_failed_pattern mc c p reason)
    (\<lambda>found s. at_pattern plan mc c p s \<and> found = None) (\<lambda>err _. intrinsic err)"
  unfolding override_failed_pattern_def
  by (rule runs_bind [OF runs_plain_pattern_scope(2) [OF assms]], rule runs_fact) (auto intro: runs_return)

lemma runs_plain_close:
  assumes "plain_ready plan resolve mc c"
  shows "runs (at_pattern plan mc c p) (close_pattern mc r v)
    (\<lambda>found s. at_pattern plan mc c p s \<and> found = Some v) (\<lambda>err _. intrinsic err)"
  unfolding close_pattern_def
  by (rule runs_bind [OF runs_plain_pattern_scope(3) [OF assms]], rule runs_fact) (auto intro: runs_return)

text \<open>What the recursion finds, as the list that it returns.\<close>

definition all_readings ::
    "(type_request \<Rightarrow> type_outcome) \<Rightarrow> ('e, 'x) matcher \<Rightarrow> pattern_candidate \<Rightarrow> match_pattern \<Rightarrow> match_state list \<Rightarrow> bool" where
  "all_readings resolve mc c p sts \<longleftrightarrow>
     set sts = {st. reads resolve mc (candidate_context c (Some p)) (elements (parsed p)) pattern_end (match_state_new (range_start (trim mc))) st} \<and>
     (\<forall>st \<in> set sts. state_ok mc st)"

lemma runs_all_readings:
  assumes r: "plain_ready plan resolve mc c" and p: "p \<in> set (patterns c)"
  shows "runs (at_pattern plan mc c p)
    (match_sequence mc (elements (parsed p)) 0 (match_state_new (range_start (trim mc))) [] pattern_end)
    (\<lambda>sts s. at_pattern plan mc c p s \<and> all_readings resolve mc c p sts) (\<lambda>err _. intrinsic err)"
proof -
  note r' = plain_readyD [OF r]
  have start: "state_ok mc (match_state_new (range_start (trim mc)))"
    using matcher_okD [OF r'(3)] by (simp add: state_ok_def match_state_new_def)
  note here = readyD(3) [OF r'(2) p]
  show ?thesis
    by (rule runs_post [OF finds_forward [OF recursion_finds(1) [OF here] recursion_safe(1) [OF here] r'(1,3) start]])
      (auto simp: all_readings_def onward_def)
qed

lemma filter_Nil_complete:
  "all_readings resolve mc c p sts \<Longrightarrow> filter (\<lambda>st. cursor st = range_end (trim mc)) sts = [] \<longleftrightarrow> (\<nexists>st. complete_reading resolve mc c p st)"
  by (auto simp: all_readings_def complete_reading_def filter_empty_conv)

lemma filter_Cons_complete:
  assumes "all_readings resolve mc c p sts" and "filter (\<lambda>st. cursor st = range_end (trim mc)) sts = st # rest"
  shows "complete_reading resolve mc c p st"
proof -
  have "st \<in> set (filter (\<lambda>st. cursor st = range_end (trim mc)) sts)" unfolding assms(2) by simp
  then show ?thesis using assms(1) by (auto simp: all_readings_def complete_reading_def)
qed

lemma runs_plain_natively:
  assumes r: "plain_ready plan resolve mc c" and p: "p \<in> set (patterns c)"
  shows "runs (at_pattern plan mc c p) (match_pattern_natively mc c p)
    (\<lambda>found s. at_pattern plan mc c p s \<and> pattern_result resolve mc c p found) (\<lambda>err _. intrinsic err)"
  unfolding match_pattern_natively_def Let_def
proof (rule runs_bind [OF runs_all_readings [OF assms]], rule runs_fact)
  fix sts assume sts: "all_readings resolve mc c p sts"
  let ?complete = "filter (\<lambda>st. cursor st = range_end (trim mc)) sts"
  have ok: "\<forall>st \<in> set ?complete. state_ok mc st" using sts by (simp add: all_readings_def)
  have mod: "runs (at_pattern plan mc c p) (if b then amodify (\<lambda>s. s\<lparr>failure := f (failure s)\<rparr>) else areturn ())
      (\<lambda>_. at_pattern plan mc c p) (\<lambda>err _. intrinsic err)" for b f
    by (auto intro!: runs_modify runs_return simp: matching_def)
  show "runs (at_pattern plan mc c p) (abind (first_completed mc c p ?complete) (\<lambda>found. case found of
       Some value \<Rightarrow> close_pattern mc (trim mc) value
     | None \<Rightarrow>
         abind (if ?complete = []
           then amodify (\<lambda>s. s\<lparr>failure := fold (\<lambda>st. record_failure (cursor st) TrailingInput) sts (failure s)\<rparr>)
           else areturn ()) (\<lambda>_.
         override_failed_pattern mc c p
           (if ?complete \<noteq> [] then ''pattern default expression completion failed''
            else ''pattern did not consume the complete input''))))
    (\<lambda>found s. at_pattern plan mc c p s \<and> pattern_result resolve mc c p found) (\<lambda>err _. intrinsic err)"
  proof (rule runs_bind [OF runs_plain_first_completed [OF r ok]], rule runs_fact, rule runs_option)
    fix found :: "'b candidate_match option"
    assume f: "case ?complete of [] \<Rightarrow> found = None | st # _ \<Rightarrow> \<exists>m. found = Some m \<and> match_of mc c p st m"
    {
      assume "found = None"
      then have "pattern_result resolve mc c p None"
        using f filter_Nil_complete [OF sts] by (auto simp: pattern_result_def split: list.splits)
      then show "runs (at_pattern plan mc c p) (abind (if ?complete = []
           then amodify (\<lambda>s. s\<lparr>failure := fold (\<lambda>st. record_failure (cursor st) TrailingInput) sts (failure s)\<rparr>)
           else areturn ()) (\<lambda>_. override_failed_pattern mc c p
           (if ?complete \<noteq> [] then ''pattern default expression completion failed''
            else ''pattern did not consume the complete input'')))
        (\<lambda>found s. at_pattern plan mc c p s \<and> pattern_result resolve mc c p found) (\<lambda>err _. intrinsic err)"
        by (intro runs_bind [OF mod] runs_post [OF runs_plain_override [OF r]]) simp
    next
      fix m assume "found = Some m"
      then obtain st rest where st: "?complete = st # rest" "match_of mc c p st m" using f by (auto split: list.splits)
      have "pattern_result resolve mc c p (Some m)"
        using filter_Cons_complete [OF sts st(1)] st(2) by (auto simp: pattern_result_def)
      then show "runs (at_pattern plan mc c p) (close_pattern mc (trim mc) m)
        (\<lambda>found s. at_pattern plan mc c p s \<and> pattern_result resolve mc c p found) (\<lambda>err _. intrinsic err)"
        by (intro runs_post [OF runs_plain_close [OF r]]) simp
    }
  qed
qed

lemma runs_plain_one_pattern:
  assumes r: "plain_ready plan resolve mc c" and p: "p \<in> set (patterns c)"
  shows "runs (visiting plan mc c) (match_one_pattern mc c p)
    (\<lambda>found s. visiting plan mc c s \<and> pattern_result resolve mc c p found) (\<lambda>err _. intrinsic err)"
proof -
  note plain = plain_readyD(1) [OF r]
  have allowed: "runs (visiting plan mc c) (if b
         then call_env mc HookFailure (allows_regex (ops mc) (candidate_kind c) (registration_id c) (pattern_index p))
         else areturn True) (\<lambda>x s. visiting plan mc c s \<and> x = True) (\<lambda>err _. intrinsic err)" for b
    by (rule runs_if, rule runs_plain_call [OF plain stable_visiting], use plain in \<open>simp add: plain_def\<close>, rule runs_return) simp
  show ?thesis unfolding match_one_pattern_def
    apply (rule runs_bind [OF allowed], rule runs_fact)
    apply (simp only: not_True_eq_False if_False)
    apply (rule runs_bind [OF runs_pre [OF runs_set_current visiting_cache]], assumption)
    apply (rule runs_bind [OF runs_plain_pattern_scope(1) [OF r]], rule runs_fact)
    apply (simp only: scope_decision.case)
    apply (rule runs_post [OF runs_plain_natively [OF r p]])
    by (auto intro: matching_visiting)
qed

subsection \<open>One candidate\<close>

abbreviation chooses :: "plan \<Rightarrow> (type_request \<Rightarrow> type_outcome) \<Rightarrow> ('e, 'x) matcher \<Rightarrow> pattern_candidate \<Rightarrow> match_pattern list \<Rightarrow>
    'x candidate_match option \<Rightarrow> 'e engine \<Rightarrow> bool" where
  "chooses plan resolve mc c ps found s \<equiv> visiting plan mc c s \<and> patterns_result resolve mc c ps found"

lemma patterns_result_Cons:
  assumes "pattern_result resolve mc c p None" and "patterns_result resolve mc c ps found"
  shows "patterns_result resolve mc c (p # ps) found"
proof (cases found)
  case None
  then show ?thesis using assms by (simp add: patterns_result_def pattern_result_def)
next
  case (Some m)
  then obtain as q bs st where q: "ps = as @ q # bs" "\<forall>q \<in> set as. \<nexists>st. complete_reading resolve mc c q st"
    "complete_reading resolve mc c q st" "match_of mc c q st m"
    using assms(2) by (auto simp: patterns_result_def)
  show ?thesis unfolding Some patterns_result_def option.case
    by (rule exI [of _ "p # as"], rule exI [of _ q], rule exI [of _ bs], rule exI [of _ st])
      (use q assms(1) in \<open>simp add: pattern_result_def\<close>)
qed

lemma patterns_result_first: "pattern_result resolve mc c p (Some m) \<Longrightarrow> patterns_result resolve mc c (p # ps) (Some m)"
  unfolding patterns_result_def pattern_result_def option.case by (metis append_Nil empty_iff list.set(1))

lemma runs_plain_patterns:
  assumes r: "plain_ready plan resolve mc c" and "set ps \<subseteq> set (patterns c)"
  shows "runs (visiting plan mc c) (match_patterns mc c ps) (chooses plan resolve mc c ps) (\<lambda>err _. intrinsic err)"
  using assms(2)
proof (induction ps)
  case Nil
  show ?case unfolding match_patterns.simps by (rule runs_return) (simp add: patterns_result_def)
next
  case (Cons p ps)
  have p: "p \<in> set (patterns c)" and ps: "set ps \<subseteq> set (patterns c)" using Cons.prems by auto
  show ?case unfolding match_patterns.simps
  proof (rule runs_bind [OF runs_plain_one_pattern [OF r p]], rule runs_fact, rule runs_option)
    fix found :: "'b candidate_match option"
    assume f: "pattern_result resolve mc c p found"
    show "runs (visiting plan mc c) (match_patterns mc c ps) (chooses plan resolve mc c (p # ps)) (\<lambda>err _. intrinsic err)" if "found = None"
      by (rule runs_post [OF Cons.IH [OF ps]]) (use f that patterns_result_Cons in auto)
    show "runs (visiting plan mc c) (areturn (Some m)) (chooses plan resolve mc c (p # ps)) (\<lambda>err _. intrinsic err)" if "found = Some m" for m
      by (rule runs_return) (use f that patterns_result_first in auto)
  qed
qed

lemma runs_plain_failed_none:
  assumes "plain_ready plan resolve mc c"
  shows "runs (visiting plan mc c) (registration_override mc c ScopeContinue reason) (\<lambda>found s. visiting plan mc c s \<and> found = None) (\<lambda>err _. intrinsic err)"
  unfolding registration_override_def
  by (simp, rule runs_bind [OF runs_plain_candidate_scope(2) [OF assms]], rule runs_fact)
    (auto simp: synthetic_if_def intro: runs_return)

lemma runs_plain_close_registration:
  assumes "plain_ready plan resolve mc c"
  shows "runs (visiting plan mc c) (close_registration mc r m) (\<lambda>found s. visiting plan mc c s \<and> found = Some m) (\<lambda>err _. intrinsic err)"
  unfolding close_registration_def keep_if_after_matched_def
  apply (rule runs_bind [OF runs_plain_candidate_scope(3) [OF assms]], rule runs_fact)
  apply (simp only: if_True simp_thms)
  apply (rule runs_bind [OF runs_plain_candidate_scope(3) [OF assms]], rule runs_fact)
  by (auto intro: runs_return)

lemma runs_plain_registered:
  assumes r: "plain_ready plan resolve mc c"
  shows "runs (visiting plan mc c) (match_registered_patterns mc c) (chooses plan resolve mc c (patterns c)) (\<lambda>err _. intrinsic err)"
  unfolding match_registered_patterns_def
proof (rule runs_bind [OF runs_plain_patterns [OF r order.refl]], rule runs_fact)
  fix found :: "'b candidate_match option" assume f: "patterns_result resolve mc c (patterns c) found"
  have set: "runs (visiting plan mc c) (set_current c p) (\<lambda>_. visiting plan mc c) E'" for p E'
    unfolding set_current_def by (rule runs_modify) (auto simp: visiting_def)
  show "runs (visiting plan mc c)
      (abind (set_current c (case found of None \<Rightarrow> None | Some m \<Rightarrow> find (\<lambda>p. pattern_index p = cm_pattern_index m) (patterns c)))
        (\<lambda>_. case found of None \<Rightarrow> abind (scope_after_failed mc RegistrationScope ''no registered pattern matched'')
            (\<lambda>after. registration_override mc c after ''no registered pattern matched'')
          | Some m \<Rightarrow> close_registration mc (trim mc) m)) (chooses plan resolve mc c (patterns c)) (\<lambda>err _. intrinsic err)"
  proof (rule runs_bind [OF set], rule runs_option)
    show "runs (visiting plan mc c) (abind (scope_after_failed mc RegistrationScope ''no registered pattern matched'')
        (\<lambda>after. registration_override mc c after ''no registered pattern matched'')) (chooses plan resolve mc c (patterns c)) (\<lambda>err _. intrinsic err)"
      if "found = None"
      by (rule runs_bind [OF runs_plain_candidate_scope(2) [OF r]], rule runs_fact, simp only:,
          rule runs_post [OF runs_plain_failed_none [OF r]]) (use f that in auto)
    show "runs (visiting plan mc c) (close_registration mc (trim mc) m) (chooses plan resolve mc c (patterns c)) (\<lambda>err _. intrinsic err)"
      if "found = Some m" for m
      by (rule runs_post [OF runs_plain_close_registration [OF r]]) (use f that in auto)
  qed
qed

lemma runs_plain_candidate:
  assumes r: "plain_ready plan resolve mc c"
  shows "runs (cache_ok plan mc) (match_candidate mc c) (chooses plan resolve mc c (patterns c)) (\<lambda>err _. intrinsic err)"
  unfolding match_candidate_def match_registration_def
  apply (rule runs_bind [OF runs_post [OF runs_set_current matching_visiting]], assumption)
  apply (rule runs_bind [OF runs_plain_candidate_scope(1) [OF r]], rule runs_fact)
  apply (simp only: scope_decision.case)
  apply (rule runs_bind [OF runs_plain_candidate_scope(1) [OF r]], rule runs_fact)
  apply (simp only: scope_decision.case)
  by (rule runs_plain_registered [OF r])

subsection \<open>All candidates\<close>

definition readable :: "(type_request \<Rightarrow> type_outcome) \<Rightarrow> ('e, 'x) matcher \<Rightarrow> pattern_candidate \<Rightarrow> bool" where
  "readable resolve mc c \<longleftrightarrow> (\<exists>p \<in> set (patterns c). \<exists>st. complete_reading resolve mc c p st)"

abbreviation chosen :: "(type_request \<Rightarrow> type_outcome) \<Rightarrow> ('e, 'x) matcher \<Rightarrow> pattern_candidate \<Rightarrow> 'x candidate_match \<Rightarrow> bool" where
  "chosen resolve mc c m \<equiv> patterns_result resolve mc c (patterns c) (Some m)"

definition chosen_all ::
    "(type_request \<Rightarrow> type_outcome) \<Rightarrow> ('e, 'x) matcher \<Rightarrow> pattern_candidate list \<Rightarrow> 'x candidate_match list \<Rightarrow> bool" where
  "chosen_all resolve mc cs ms \<longleftrightarrow> list_all2 (chosen resolve mc) (filter (readable resolve mc) cs) ms"

lemma chosen_all_Nil [simp]: "chosen_all resolve mc [] []"
  by (simp add: chosen_all_def)

lemma chosen_all_append: "chosen_all resolve mc as ms \<Longrightarrow> chosen_all resolve mc bs ns \<Longrightarrow> chosen_all resolve mc (as @ bs) (ms @ ns)"
  by (simp add: chosen_all_def list_all2_appendI)

lemma chosen_all_None: "patterns_result resolve mc c (patterns c) None \<Longrightarrow> chosen_all resolve mc [c] []"
  by (auto simp: chosen_all_def readable_def patterns_result_def)

lemma chosen_all_Some:
  assumes "chosen resolve mc c m"
  shows "chosen_all resolve mc [c] [m]" "pm_recovered (cm_matched m) = []" "m\<lparr>cm_extension_state := None\<rparr> = m"
proof -
  obtain as p bs st where p: "patterns c = as @ p # bs" "complete_reading resolve mc c p st" "match_of mc c p st m"
    using assms by (auto simp: patterns_result_def)
  then have "readable resolve mc c" unfolding readable_def by auto
  then show "chosen_all resolve mc [c] [m]" using assms by (simp add: chosen_all_def)
  show "pm_recovered (cm_matched m) = []" "m\<lparr>cm_extension_state := None\<rparr> = m" using match_of_fields [OF p(3,2)] .
qed

lemma runs_plain_take_state:
  assumes "plain resolve mc" and "stable I"
  shows "runs I (in_env (\<lambda>e. case take_candidate_state (ops mc) e of (x, e) \<Rightarrow> (Ret x, e))) (\<lambda>x s. I s \<and> x = None) E"
  using assms(1) by (auto simp: runs_def in_env_def stableD [OF assms(2)] plain_def split: prod.splits)

lemma runs_plain_rank_step:
  assumes r: "plain_ready plan resolve mc c" and acc: "chosen_all resolve mc done_cs (found_matches acc)"
  shows "runs (cache_ok plan mc) (rank_step mc c acc)
    (\<lambda>acc s. cache_ok plan mc s \<and> chosen_all resolve mc (done_cs @ [c]) (found_matches acc)) (\<lambda>err _. intrinsic err)"
proof -
  note r' = plain_readyD [OF r]
  have reset: "runs I (amodify (\<lambda>s. s\<lparr>failure := tracker_new\<rparr>)) (\<lambda>_. I) E'" if "stable I" for I :: "('a \<times> unit) engine \<Rightarrow> bool" and E'
    by (rule runs_modify, erule stableD(2) [OF that])
  show ?thesis unfolding rank_step_def Let_def
    apply (rule runs_bind [OF runs_cancelled [OF r'(4) stable_cache]])
    apply (rule runs_bind [OF reset [OF stable_cache]])
    apply (rule runs_bind [OF runs_plain_candidate [OF r]], rule runs_fact)
    apply (rule runs_bind [OF runs_get [where Q = "\<lambda>_. visiting plan mc c"]], assumption)
    apply (rule runs_bind [OF reset [OF stable_visiting]])
    apply (rule runs_bind [OF runs_structural [OF r'(4,3)]])
    apply (rule runs_option)
     apply (rule runs_return)
     apply (simp add: visiting_def chosen_all_append [OF acc chosen_all_None, simplified])
    apply (rule runs_bind [OF runs_plain_take_state [OF r'(1) stable_visiting]], rule runs_fact)
    apply (rule runs_return)
    subgoal for u v found t w fs m x s
      using chosen_all_append [OF acc chosen_all_Some(1) [of resolve mc c m]] chosen_all_Some(2,3) [of resolve mc c m]
      by (simp add: visiting_def)
    done
qed

lemma runs_plain_rank_loop:
  assumes "plain resolve mc" and "matcher_ok mc" and "agrees plan all" and "set cs \<subseteq> set all"
    and "chosen_all resolve mc done_cs (found_matches acc)"
  shows "runs (cache_ok plan mc) (rank_loop mc cs acc)
    (\<lambda>acc s. cache_ok plan mc s \<and> chosen_all resolve mc (done_cs @ cs) (found_matches acc)) (\<lambda>err _. intrinsic err)"
  using assms(4,5)
proof (induction cs arbitrary: acc done_cs)
  case Nil
  then show ?case unfolding rank_loop.simps by (intro runs_return) simp
next
  case (Cons c cs)
  have c: "c \<in> set all" and cs: "set cs \<subseteq> set all" using Cons.prems(1) by auto
  have r: "plain_ready plan resolve mc c"
    using ready_member [OF tolerant_plain [OF assms(1)] assms(2,3) c] assms(1) by (simp add: plain_ready_def)
  show ?case unfolding rank_loop.simps
    by (rule runs_bind [OF runs_plain_rank_step [OF r Cons.prems(2)]], rule runs_fact,
        rule runs_post [OF Cons.IH [OF cs]], assumption) simp
qed

definition all_found :: "'x candidate_matches \<Rightarrow> 'x candidate_match list" where
  "all_found r = (case selected r of None \<Rightarrow> [] | Some m \<Rightarrow> [m]) @ other_matches r"

lemma runs_plain_in_environment:
  assumes "plain resolve mc" and "matcher_ok mc" and "agrees plan cs"
  shows "runs (cache_ok plan mc) (match_in_environment mc cs)
    (\<lambda>r _. chosen_all resolve mc (rank_candidates cs) (all_found r)) (\<lambda>err _. intrinsic err)"
proof -
  have fb: "runs I (alift (if b then obind (tracker_failure mc t) (\<lambda>f. Ret (Some (tracker_trace t f))) else Ret None))
      (\<lambda>_. I) (\<lambda>err _. intrinsic err)" for b t I
    using tracker_failure_cases [OF assms(2)] by (intro runs_lift) (auto simp: outcome_simps split: if_splits)
  show ?thesis unfolding match_in_environment_def Let_def
    apply (rule runs_bind [OF runs_plain_rank_loop [OF assms, where done_cs = "[]"]])
      apply simp
     apply simp
    apply (rule runs_fact)
    apply (rule runs_bind [OF fb])
    apply (rule runs_return)
    by (auto simp: all_found_def split: list.split)
qed

text \<open>
  C5. Without hooks, which match is returned is determined by how patterns read the input: there is one
  match for each candidate with a pattern that reads the whole trimmed input, in the order of the ranks
  of the candidates (kinds as they are first met, then resolved orders with missing ones last, priorities,
  registrations and places in the list), and it is a reading by the first such pattern, with its captures
  sorted and the captures of what it skipped filled in.  A reading is a relation on match states without a cache, a
  search order, counters or a failure tracker.
\<close>

theorem matching_decides:
  fixes e :: "'r \<times> unit"
  assumes "input_ok inp" and "coherent cs" and "\<not> recover_type_expression_failures cfg"
  shows "case fst (match_pattern_candidates (\<lambda>req r. (Inr (resolve req), r)) noop_hooks build low cfg inp cs e) of
      Ret (r :: 'x candidate_matches) \<Rightarrow> in_rank_order cs (rank_candidates cs) \<and> chosen_all resolve
        (matcher_for (plain_ops resolve :: ('r \<times> unit, 'x) match_environment) build low cfg inp) (rank_candidates cs) (all_found r)
    | Fail err \<Rightarrow> intrinsic err
    | Panic \<Rightarrow> False"
proof -
  let ?ops = "plain_ops resolve :: ('r \<times> unit, 'x) match_environment"
  let ?mc = "matcher_for ?ops build low cfg inp"
  have plain: "plain resolve ?mc" using assms(3) by (simp add: plain_def matcher_for_def)
  have t: "tolerant ?ops intrinsic" using tolerant_plain [OF plain] by (simp add: matcher_for_def)
  have "runs (\<lambda>_. True) (match_with_environment ?ops build low cfg inp cs)
      (\<lambda>r _. chosen_all resolve ?mc (rank_candidates cs) (all_found r)) (\<lambda>err _. intrinsic err)"
    by (rule runs_entry [OF t runs_plain_in_environment [OF plain matcher_for_ok [OF assms(1)]] assms(2)])
  then have "runs (\<lambda>_. True) (match_with_environment ?ops build low cfg inp cs)
      (\<lambda>r _. in_rank_order cs (rank_candidates cs) \<and> chosen_all resolve ?mc (rank_candidates cs) (all_found r)) (\<lambda>err _. intrinsic err)"
    using rank_candidates_in_rank_order by simp
  then show ?thesis unfolding match_pattern_candidates_def plain_ops_def [symmetric] by (rule runsD_fst)
qed

end
