(* ===== verification/Match_Samples.thy ===== *)
theory Match_Samples
  imports Match_Chosen "HOL-Library.Code_Target_Numeral"
begin

text \<open>
  A pattern with a choice, parse marks and a typed expression, matched against a line, and the
  instances of the theorems on the matcher at this run.
\<close>

definition sample_type :: type_expr where
  "sample_type = \<lparr>alternatives = [\<lparr>alt_name = ''text'', alt_plural = False\<rparr>], nullable = False, allow_literals = True,
     allow_expressions = True, time = 0\<rparr>"

definition sample_elements :: "spanned_element list" where
  "sample_elements = [Spanned (Literal ''hi '') (range_new 0 3), Spanned (Choice
     [[Spanned (ParseMark 1) (range_new 4 5), Spanned (Literal ''a'') (range_new 6 7)],
      [Spanned (ParseMark 2) (range_new 8 9), Spanned (Literal ''b'') (range_new 10 11)]]) (range_new 3 12),
     Spanned (Literal '' '') (range_new 12 13), Spanned (TypeExpr sample_type) (range_new 13 19)]"

definition sample_match_pattern :: match_pattern where
  "sample_match_pattern = \<lparr>pattern_index = 0, pattern_source = ''hi (1:a|2:b) %text%'',
     parsed = \<lparr>elements = sample_elements, warnings = []\<rparr>\<rparr>"

definition sample_candidate :: pattern_candidate where
  "sample_candidate = \<lparr>candidate_kind = EffectSyntax, definition_id = ''effect:hi'', registration_id = ''effect:hi#0'', priority = 0,
     registration_order = 0, resolved_order = None, patterns = [sample_match_pattern]\<rparr>"

definition sample_input :: match_input where
  "sample_input = \<lparr>input_text = '' hi b x'', input_mapping = FixedSpan \<lparr>span_range = range_new 7 14, span_origins = []\<rparr>\<rparr>"

definition no_regex :: regex_builder where
  "no_regex limit pattern = Inl ''no engine''"

text \<open>A resolver that accepts any text up to each end it is offered.\<close>

definition accept_any :: "type_request \<Rightarrow> type_outcome" where
  "accept_any req = \<lparr>resolutions = map (\<lambda>b. \<lparr>resolution_range = range_new (range_start (request_remaining req)) b,
     alternative_index = Some 0, resolution_id = None\<rparr>) (candidate_ends req), outcome_failure = None\<rparr>"

definition sample_run :: "(unit \<times> unit, match_error, unit candidate_matches) action" where
  "sample_run = match_pattern_candidates (\<lambda>req r. (Inr (accept_any req), r)) noop_hooks no_regex (\<lambda>c. [c]) default_config
     sample_input [sample_candidate]"

definition found_mark :: "(match_error, unit candidate_matches) outcome \<Rightarrow> (int \<times> str list) option" where
  "found_mark r = (case r of
     Ret r \<Rightarrow> map_option (\<lambda>m. (pm_mark (cm_matched m), map capture_value (pm_captures (cm_matched m)))) (selected r)
   | _ \<Rightarrow> None)"

lemma sample_match: "found_mark (fst (sample_run ((), ()))) = Some (2, [''x''])"
  by code_simp

lemma sample_input_ok: "input_ok sample_input"
  by (simp add: input_ok_def sample_input_def utf8_ok.simps utf8_step_def)

lemma sample_coherent: "coherent [sample_candidate]"
  by (simp add: coherent_def sample_candidate_def sample_match_pattern_def sample_elements_def)

lemma sample_found: "\<exists>r m. fst (sample_run ((), ())) = Ret r \<and> selected r = Some m \<and> pm_mark (cm_matched m) = 2"
  using sample_match by (auto simp: found_mark_def split: outcome.splits)

theorem matching_is_safe_witness:
  "\<exists>r m. fst (sample_run ((), ())) = Ret r \<and> selected r = Some m \<and> pm_mark (cm_matched m) = 2 \<and>
     legal_result (matcher_for (plain_ops accept_any :: (unit \<times> unit, unit) match_environment) no_regex (\<lambda>c. [c]) default_config sample_input)
       [sample_candidate] r"
proof -
  obtain r m where r: "fst (sample_run ((), ())) = Ret r" "selected r = Some m" "pm_mark (cm_matched m) = 2" using sample_found by blast
  show ?thesis
    using matching_is_safe [OF sample_input_ok sample_coherent, where e = "((), ())" and build = no_regex and low = "\<lambda>c. [c]"
        and cfg = default_config and env_ops = "plain_ops accept_any :: (unit \<times> unit, unit) match_environment"] r
    by (auto simp: sample_run_def match_pattern_candidates_def plain_ops_def)
qed

theorem matching_decides_witness:
  "\<exists>r m. fst (sample_run ((), ())) = Ret r \<and> selected r = Some m \<and> pm_mark (cm_matched m) = 2 \<and>
     chosen_all accept_any (matcher_for (plain_ops accept_any :: (unit \<times> unit, unit) match_environment) no_regex (\<lambda>c. [c]) default_config sample_input)
       (rank_candidates [sample_candidate]) (all_found r)"
proof -
  obtain r m where r: "fst (sample_run ((), ())) = Ret r" "selected r = Some m" "pm_mark (cm_matched m) = 2" using sample_found by blast
  show ?thesis
    using matching_decides [OF sample_input_ok sample_coherent, where 'x = unit and e = "((), ())" and build = no_regex and low = "\<lambda>c. [c]"
        and cfg = default_config and resolve = accept_any] r
    by (auto simp: sample_run_def default_config_def)
qed

end
