(* ===== verification/Function_Registry.thy ===== *)
theory Function_Registry
  imports Plural_Rules Match_Scan Pattern_Display Ordered_Map
begin

text \<open>
  \<open>skript-parser/src/function_registry.rs\<close>: the functions that a document declares, collected by a
  transaction with savepoints, and their lookup by name.  The Unicode properties of characters are
  tables and enter as the parameter \<open>char_table\<close>, the case mapping as \<open>case_table\<close>.
\<close>

record char_table =
  is_alphabetic :: "nat \<Rightarrow> bool"
  is_numeric :: "nat \<Rightarrow> bool"

definition is_alphanumeric :: "char_table \<Rightarrow> nat \<Rightarrow> bool" where
  "is_alphanumeric ct c \<longleftrightarrow> is_alphabetic ct c \<or> is_numeric ct c"

datatype function_scope = GlobalScope | LocalScope

record function_policy =
  allow_local_functions :: bool
  allow_overloads :: bool
  allow_default_values :: bool
  allow_named_arguments :: bool
  allow_plural_parameters :: bool
  allow_leading_underscore :: bool
  allow_returns_keyword :: bool
  allow_arrow_return :: bool
  wide_named_argument_names :: bool
  case_insensitive_parameters :: bool

definition skript_2_15_4 :: function_policy where
  "skript_2_15_4 = \<lparr>allow_local_functions = True, allow_overloads = True, allow_default_values = True, allow_named_arguments = True,
     allow_plural_parameters = True, allow_leading_underscore = True, allow_returns_keyword = True, allow_arrow_return = True,
     wide_named_argument_names = True, case_insensitive_parameters = True\<rparr>"

definition skript_2_6_4 :: function_policy where
  "skript_2_6_4 = \<lparr>allow_local_functions = False, allow_overloads = False, allow_default_values = True, allow_named_arguments = False,
     allow_plural_parameters = True, allow_leading_underscore = False, allow_returns_keyword = False, allow_arrow_return = False,
     wide_named_argument_names = False, case_insensitive_parameters = True\<rparr>"

definition is_at_least_skript_minor :: "nat \<Rightarrow> nat \<Rightarrow> nat \<Rightarrow> bool" where
  "is_at_least_skript_minor major minor required_minor \<longleftrightarrow> major > 2 \<or> major = 2 \<and> minor \<ge> required_minor"

definition policy_for_version :: "nat \<Rightarrow> nat \<Rightarrow> nat \<Rightarrow> bool \<Rightarrow> function_policy" where
  "policy_for_version major minor patch case_insensitive_variables =
     \<lparr>allow_local_functions = is_at_least_skript_minor major minor 7,
      allow_overloads = is_at_least_skript_minor major minor 12,
      allow_default_values = True,
      allow_named_arguments = is_at_least_skript_minor major minor 14,
      allow_plural_parameters = True,
      allow_leading_underscore = is_at_least_skript_minor major minor 12,
      allow_returns_keyword = is_at_least_skript_minor major minor 8,
      allow_arrow_return = is_at_least_skript_minor major minor 14,
      wide_named_argument_names = is_at_least_skript_minor major minor 15,
      case_insensitive_parameters = (if is_at_least_skript_minor major minor 8 then case_insensitive_variables else True)\<rparr>"

subsection \<open>Declarations\<close>

record return_contract =
  return_type :: "str option"
  return_single :: bool

record parameter_declaration =
  param_name :: str
  param_type :: str
  param_single :: bool
  default_source :: "str option"

record function_declaration =
  decl_source :: str
  decl_span :: text_range
  decl_scope :: function_scope
  decl_name :: str
  decl_parameters :: "parameter_declaration list"
  return_of :: return_contract
  decl_metadata :: "(str, str) btree"

datatype function_error =
    Frozen
  | InvalidSavepoint
  | InvalidFunctionName
  | InvalidDeclarationSpan text_range
  | InvalidParameterName str
  | DuplicateParameter str str
  | LocalFunctionsUnsupported str
  | PluralParametersUnsupported str str
  | DefaultValuesUnsupported str str
  | ReturnsKeywordUnsupported str
  | ArrowReturnUnsupported str
  | OverloadsUnsupported str
  | DuplicateSignature str function_scope

definition is_valid_function_name :: "char_table \<Rightarrow> str \<Rightarrow> bool \<Rightarrow> bool" where
  "is_valid_function_name ct name underscore = (case codes name of
     [] \<Rightarrow> False
   | c # cs \<Rightarrow> (is_alphabetic ct c \<or> underscore \<and> c = byte CHR ''_'') \<and>
       list_all (\<lambda>c. c = byte CHR ''_'' \<or> is_alphanumeric ct c) cs)"

text \<open>One round of the loop over the parameters; the state is the set of names seen.\<close>

definition validate_parameter ::
    "case_table \<Rightarrow> function_policy \<Rightarrow> str \<Rightarrow> parameter_declaration \<Rightarrow> str list \<Rightarrow> (function_error, str list) outcome" where
  "validate_parameter tab policy function p names =
     (if str_trim (param_name p) = [] then Fail (InvalidParameterName function)
      else
        (let name = (if case_insensitive_parameters policy then to_lower tab (param_name p) else param_name p) in
         if name \<in> set names then Fail (DuplicateParameter function (param_name p))
         else if \<not> param_single p \<and> \<not> allow_plural_parameters policy then Fail (PluralParametersUnsupported function (param_name p))
         else if default_source p \<noteq> None \<and> \<not> allow_default_values policy then Fail (DefaultValuesUnsupported function (param_name p))
         else Ret (name # names)))"

definition check_return_syntax :: "function_policy \<Rightarrow> function_declaration \<Rightarrow> (function_error, unit) outcome" where
  "check_return_syntax policy d =
     (let syntax = bt_get (decl_metadata d) ''function.return-syntax'' in
      if syntax = Some ''returns'' \<and> \<not> allow_returns_keyword policy then Fail (ReturnsKeywordUnsupported (decl_name d))
      else if syntax = Some ''arrow'' \<and> \<not> allow_arrow_return policy then Fail (ArrowReturnUnsupported (decl_name d))
      else Ret ())"

definition validate_declaration ::
    "char_table \<Rightarrow> case_table \<Rightarrow> function_policy \<Rightarrow> function_declaration \<Rightarrow> (function_error, unit) outcome" where
  "validate_declaration ct tab policy d =
     (if \<not> is_valid_function_name ct (decl_name d) (allow_leading_underscore policy) then Fail InvalidFunctionName
      else if \<not> is_valid_for (decl_span d) (decl_source d) then Fail (InvalidDeclarationSpan (decl_span d))
      else if decl_scope d = LocalScope \<and> \<not> allow_local_functions policy then Fail (LocalFunctionsUnsupported (decl_name d))
      else obind (check_return_syntax policy d) (\<lambda>_.
        obind (try_for (validate_parameter tab policy (decl_name d)) (decl_parameters d) []) (\<lambda>_. Ret ())))"

text \<open>The types and pluralities of the parameters: two functions of a scope may share a name, not these.\<close>

definition signature_shape :: "function_declaration \<Rightarrow> (str \<times> bool) list" where
  "signature_shape d = map (\<lambda>p. (param_type p, param_single p)) (decl_parameters d)"

subsection \<open>Definitions\<close>

record parameter_definition =
  pdef_name :: str
  pdef_type :: str
  pdef_single :: bool
  pdef_optional :: bool

record function_definition =
  parser_id :: str
  fdef_name :: str
  fdef_definition_id :: str
  fdef_registration_id :: str
  fdef_registration_order :: nat
  fdef_return_type :: "str option"
  return_type_is_single :: bool
  parameters :: "parameter_definition list"
  fdef_metadata :: "(str, str) btree"

definition scope_name :: "function_scope \<Rightarrow> str" where
  "scope_name s = (case s of GlobalScope \<Rightarrow> ''global'' | LocalScope \<Rightarrow> ''local'')"

definition show_bool :: "bool \<Rightarrow> str" where
  "show_bool b = (if b then ''true'' else ''false'')"

definition parameter_metadata :: "nat \<times> parameter_declaration \<Rightarrow> (str, str) btree \<Rightarrow> (str, str) btree" where
  "parameter_metadata = (\<lambda>(i, p) m.
     let m = bt_insert (''function.parameter.'' @ show_nat i @ ''.name'') (param_name p) m in
     case default_source p of
       None \<Rightarrow> m
     | Some s \<Rightarrow> bt_insert (''function.parameter.'' @ show_nat i @ ''.default-source'') s m)"

definition project_definition ::
    "function_declaration \<Rightarrow> str \<Rightarrow> nat \<Rightarrow> nat \<Rightarrow> str \<Rightarrow> str \<Rightarrow> function_policy \<Rightarrow> function_definition" where
  "project_definition d document revision order def_id reg_id policy =
     (let m = bt_insert ''function.scope'' (scope_name (decl_scope d)) (decl_metadata d);
          m = bt_insert ''function.document-id'' document m;
          m = bt_insert ''function.revision'' (show_nat revision) m;
          m = bt_insert ''function.named-arguments'' (show_bool (allow_named_arguments policy)) m;
          m = bt_insert ''function.named-argument-pattern'' (if wide_named_argument_names policy then ''wide'' else ''ascii'') m;
          m = fold parameter_metadata (enumerate 0 (decl_parameters d)) m
      in \<lparr>parser_id = ''document.function'', fdef_name = decl_name d, fdef_definition_id = def_id, fdef_registration_id = reg_id,
          fdef_registration_order = order, fdef_return_type = return_type (return_of d),
          return_type_is_single = return_single (return_of d),
          parameters = map (\<lambda>p. \<lparr>pdef_name = param_name p, pdef_type = param_type p, pdef_single = param_single p,
            pdef_optional = default_source p \<noteq> None\<rparr>) (decl_parameters d),
          fdef_metadata = m\<rparr>)"

record function_registration =
  declared :: function_declaration
  fdefinition :: function_definition

subsection \<open>Transactions\<close>

record function_savepoint =
  sp_transaction :: nat
  sp_count :: nat
  sp_order :: nat

record function_registry =
  freg_document :: str
  freg_revision :: nat
  freg_policy :: function_policy
  freg_id :: nat
  registrations :: "function_registration list"
  next_order :: nat
  frozen :: bool

text \<open>The identity comes from an atomic counter of 64 bits that the caller threads.\<close>

definition functions_new :: "str \<Rightarrow> nat \<Rightarrow> function_policy \<Rightarrow> nat \<Rightarrow> function_registry \<times> nat" where
  "functions_new doc revision pol counter =
     (\<lparr>freg_document = doc, freg_revision = revision, freg_policy = pol, freg_id = counter, registrations = [], next_order = 0, frozen = False\<rparr>,
      (counter + 1) mod 2 ^ 64)"

definition ensure_mutable :: "(function_registry, function_error, unit) action" where
  "ensure_mutable t = (if frozen t then Fail Frozen else Ret (), t)"

definition same_scope :: "function_declaration \<Rightarrow> function_registry \<Rightarrow> function_registration list" where
  "same_scope d t = filter (\<lambda>r. decl_name (declared r) = decl_name d \<and> decl_scope (declared r) = decl_scope d) (registrations t)"

definition admit :: "function_declaration \<Rightarrow> function_registry \<Rightarrow> (function_error, unit) outcome" where
  "admit d t =
     (if list_ex (\<lambda>r. signature_shape (declared r) = signature_shape d) (same_scope d t)
      then Fail (DuplicateSignature (decl_name d) (decl_scope d))
      else if \<not> allow_overloads (freg_policy t) \<and> same_scope d t \<noteq> [] then Fail (OverloadsUnsupported (decl_name d))
      else Ret ())"

definition registration_of :: "function_declaration \<Rightarrow> function_registry \<Rightarrow> function_registration" where
  "registration_of d t =
     (let order = next_order t;
          def_id = ''function:document:'' @ freg_document t @ CHR '':'' # show_nat order
      in \<lparr>declared = d, fdefinition = project_definition d (freg_document t) (freg_revision t) order def_id (def_id @ '':0'') (freg_policy t)\<rparr>)"

definition append_registration :: "function_declaration \<Rightarrow> function_registry \<Rightarrow> function_registry" where
  "append_registration d t = t\<lparr>next_order := sat_inc_u64 (next_order t), registrations := registrations t @ [registration_of d t]\<rparr>"

definition functions_register ::
    "char_table \<Rightarrow> case_table \<Rightarrow> function_declaration \<Rightarrow> (function_registry, function_error, function_registration) action" where
  "functions_register ct tab d =
     abind ensure_mutable (\<lambda>_ t.
       case obind (validate_declaration ct tab (freg_policy t) d) (\<lambda>_. admit d t) of
         Ret _ \<Rightarrow> (Ret (registration_of d t), append_registration d t)
       | Fail e \<Rightarrow> (Fail e, t)
       | Panic \<Rightarrow> (Panic, t))"

definition remove_declarations_in_span :: "text_range \<Rightarrow> (function_registry, function_error, nat) action" where
  "remove_declarations_in_span sp =
     abind ensure_mutable (\<lambda>_ t.
       let kept = filter (\<lambda>r. decl_span (declared r) \<noteq> sp) (registrations t)
       in (Ret (length (registrations t) - length kept), t\<lparr>registrations := kept\<rparr>))"

definition functions_savepoint :: "function_registry \<Rightarrow> function_savepoint" where
  "functions_savepoint t = \<lparr>sp_transaction = freg_id t, sp_count = length (registrations t), sp_order = next_order t\<rparr>"

definition functions_rollback :: "function_savepoint \<Rightarrow> (function_registry, function_error, unit) action" where
  "functions_rollback sp =
     abind ensure_mutable (\<lambda>_ t.
       if sp_transaction sp \<noteq> freg_id t \<or> sp_count sp > length (registrations t) then (Fail InvalidSavepoint, t)
       else (Ret (), t\<lparr>registrations := take (sp_count sp) (registrations t), next_order := sp_order sp\<rparr>))"

record function_snapshot =
  snap_document :: str
  snap_revision :: nat
  snap_policy :: function_policy
  snap_registrations :: "function_registration list"

definition functions_freeze :: "(function_registry, function_error, function_snapshot) action" where
  "functions_freeze =
     abind ensure_mutable (\<lambda>_ t.
       (Ret \<lparr>snap_document = freg_document t, snap_revision = freg_revision t, snap_policy = freg_policy t, snap_registrations = registrations t\<rparr>,
        t\<lparr>frozen := True\<rparr>))"

subsection \<open>Lookup\<close>

definition lookup_references :: "function_registration list \<Rightarrow> str \<Rightarrow> function_scope \<Rightarrow> function_registration list" where
  "lookup_references rs name scope =
     (let named = filter (\<lambda>r. decl_name (declared r) = name) rs;
          locals = filter (\<lambda>r. decl_scope (declared r) = LocalScope) named;
          globals = filter (\<lambda>r. decl_scope (declared r) = GlobalScope) named;
          shapes = map (\<lambda>r. signature_shape (declared r)) locals
      in if scope = GlobalScope then globals
         else locals @ filter (\<lambda>r. signature_shape (declared r) \<notin> set shapes) globals)"

definition lookup_functions :: "function_registry \<Rightarrow> str \<Rightarrow> function_scope \<Rightarrow> function_definition list" where
  "lookup_functions t name scope = map fdefinition (lookup_references (registrations t) name scope)"

definition snapshot_lookup :: "function_snapshot \<Rightarrow> str \<Rightarrow> function_scope \<Rightarrow> function_definition list" where
  "snapshot_lookup snap name scope = map fdefinition (lookup_references (snap_registrations snap) name scope)"

definition snapshot_definitions :: "function_snapshot \<Rightarrow> function_definition list" where
  "snapshot_definitions snap = map fdefinition (snap_registrations snap)"

end
