(* ===== verification/Function_Call.thy ===== *)
theory Function_Call
  imports Function_Registry
begin

text \<open>
  \<open>skript-parser/src/function.rs\<close>: the syntax of a function call, its arguments, and their assignment to
  the parameters of a definition.  The parts that parse the values run the expression parser and are not
  modelled here.
\<close>

subsection \<open>The syntax of a call\<close>

datatype argument_kind = NamedArgument | UnnamedArgument

record parsed_argument =
  arg_kind :: argument_kind
  arg_name :: "str option"
  arg_value :: text_range
  arg_raw :: text_range

record call_syntax =
  call_name :: str
  call_arguments :: "parsed_argument list"
  call_range :: text_range

definition is_name_char :: "char_table \<Rightarrow> nat \<Rightarrow> bool" where
  "is_name_char ct c \<longleftrightarrow> c = byte CHR ''_'' \<or> is_alphabetic ct c \<or> is_numeric ct c"

function name_end :: "char_table \<Rightarrow> str \<Rightarrow> nat \<Rightarrow> nat \<Rightarrow> nat option" where
  "name_end ct input cursor end =
     (if cursor < end then
        (case next_char input cursor end of
           None \<Rightarrow> None
         | Some (c, w) \<Rightarrow> if is_name_char ct c then name_end ct input (cursor + w) end else Some cursor)
      else Some cursor)"
  by pat_completeness auto
termination
  by (relation "measure (\<lambda>(_, _, cursor, end). end - cursor)") (auto dest: next_char_width)

declare name_end.simps [simp del]

text \<open>Where the name of a named argument ends, in the text of the argument.\<close>

definition wide_name_end :: "str \<Rightarrow> nat option" where
  "wide_name_end v = (case find_byte CHR '':'' v of
     None \<Rightarrow> None
   | Some e \<Rightarrow> if e > 0 \<and> \<not> list_ex (\<lambda>c. c \<in> set [CHR '':'', CHR ''('', CHR '')'', CHR 0x7B, CHR 0x7D, CHR 0x22, CHR '','']) (take e v)
       then Some e else None)"

definition is_ascii_alphanumeric :: "char \<Rightarrow> bool" where
  "is_ascii_alphanumeric c \<longleftrightarrow> 48 \<le> byte c \<and> byte c \<le> 57 \<or> 65 \<le> byte c \<and> byte c \<le> 90 \<or> 97 \<le> byte c \<and> byte c \<le> 122"

definition ascii_name_end :: "str \<Rightarrow> nat option" where
  "ascii_name_end v =
     (let e = length (takeWhile (\<lambda>c. c = CHR ''_'' \<or> is_ascii_alphanumeric c) v)
      in if e > 0 \<and> take 1 (drop e v) = '':'' then Some e else None)"

definition named_end :: "function_policy \<Rightarrow> str \<Rightarrow> nat option" where
  "named_end pol v =
     (if \<not> allow_named_arguments pol then None
      else if wide_named_argument_names pol then wide_name_end v else ascii_name_end v)"

definition unnamed_argument :: "text_range \<Rightarrow> parsed_argument" where
  "unnamed_argument trimmed = \<lparr>arg_kind = UnnamedArgument, arg_name = None, arg_value = trimmed, arg_raw = trimmed\<rparr>"

definition parse_argument :: "str \<Rightarrow> text_range \<Rightarrow> function_policy \<Rightarrow> parsed_argument option" where
  "parse_argument input r pol = (case str_slice r input of
     None \<Rightarrow> None
   | Some text \<Rightarrow>
       (let local_range = java_trim_range text;
            trimmed = range_new (range_start r + range_start local_range) (range_start r + range_end local_range) in
        if range_is_empty local_range then None
        else (case str_slice trimmed input of
          None \<Rightarrow> None
        | Some v \<Rightarrow> (case named_end pol v of
            None \<Rightarrow> Some (unnamed_argument trimmed)
          | Some e \<Rightarrow>
              (let raw_value = range_new (range_start trimmed + e + 1) (range_end trimmed) in
               case str_slice raw_value input of
                 None \<Rightarrow> None
               | Some raw_text \<Rightarrow>
                   (let local_value = java_trim_range raw_text in
                    if range_is_empty local_value then Some (unnamed_argument trimmed)
                    else Some \<lparr>arg_kind = NamedArgument, arg_name = Some (str_trim (take e v)),
                      arg_value = range_new (range_start raw_value + range_start local_value) (range_start raw_value + range_end local_value),
                      arg_raw = trimmed\<rparr>))))))"

definition push_argument :: "str \<Rightarrow> text_range \<Rightarrow> function_policy \<Rightarrow> parsed_argument list \<Rightarrow> parsed_argument list" where
  "push_argument input r pol parts = (case parse_argument input r pol of None \<Rightarrow> parts | Some a \<Rightarrow> parts @ [a])"

function split_from ::
    "str \<Rightarrow> function_policy \<Rightarrow> nat \<Rightarrow> nat \<Rightarrow> nat \<Rightarrow> nat \<Rightarrow> parsed_argument list \<Rightarrow> parsed_argument list option" where
  "split_from input pol end start cursor depth parts =
     (if cursor < end then
        (case next_char input cursor end of
           None \<Rightarrow> None
         | Some (c, w) \<Rightarrow>
             if c = byte CHR 0x22 then
               (case find_quote_end input (cursor + w) end of
                  None \<Rightarrow> None | Some q \<Rightarrow> split_from input pol end start (q + w) depth parts)
             else if c = byte CHR 0x7B then
               (case find_variable_end input (cursor + w) end of
                  None \<Rightarrow> None | Some q \<Rightarrow> split_from input pol end start (q + 1) depth parts)
             else if c = byte CHR ''('' then split_from input pol end start (cursor + w) (depth + 1) parts
             else if c = byte CHR '')'' \<and> depth > 0 then split_from input pol end start (cursor + w) (depth - 1) parts
             else if c = byte CHR '','' \<and> depth = 0 then
               split_from input pol end (cursor + w) (cursor + w) depth (push_argument input (range_new start cursor) pol parts)
             else split_from input pol end start (cursor + w) depth parts)
      else Some (push_argument input (range_new start end) pol parts))"
  by pat_completeness auto
termination
  by (relation "measure (\<lambda>(_, _, end, _, cursor, _, _). end - cursor)")
    (auto simp: find_quote_end_def find_variable_end_def dest!: next_char_width quote_end_bounds variable_end_bounds)

declare split_from.simps [simp del]

definition split_arguments :: "str \<Rightarrow> text_range \<Rightarrow> function_policy \<Rightarrow> parsed_argument list option" where
  "split_arguments input r pol =
     (if range_is_empty r then Some [] else split_from input pol (range_end r) (range_start r) (range_start r) 0 [])"

definition parse_call_syntax ::
    "char_table \<Rightarrow> str \<Rightarrow> text_range \<Rightarrow> nat list \<Rightarrow> function_policy \<Rightarrow> call_syntax option" where
  "parse_call_syntax ct input r candidate_ends pol = (case next_char input (range_start r) (range_end r) of
     None \<Rightarrow> None
   | Some (c, w) \<Rightarrow>
       if c \<noteq> byte CHR ''_'' \<and> \<not> is_alphabetic ct c then None
       else (case name_end ct input (range_start r + w) (range_end r) of
         None \<Rightarrow> None
       | Some cursor \<Rightarrow> (case next_char input cursor (range_end r) of
           None \<Rightarrow> None
         | Some (c, w) \<Rightarrow>
             if c \<noteq> byte CHR ''('' then None
             else (case find_parenthesis_end input (cursor + 1) (range_end r) of
               None \<Rightarrow> None
             | Some close \<Rightarrow>
                 if close + 1 \<notin> set candidate_ends then None
                 else (case str_slice (range_new (range_start r) cursor) input of
                   None \<Rightarrow> None
                 | Some name \<Rightarrow> (case split_arguments input (range_new (cursor + 1) close) pol of
                     None \<Rightarrow> None
                   | Some args \<Rightarrow> Some \<lparr>call_name = name, call_arguments = args, call_range = range_new (range_start r) (close + 1)\<rparr>))))))"

fun duplicate_from :: "str list \<Rightarrow> parsed_argument list \<Rightarrow> bool" where
  "duplicate_from names [] = False"
| "duplicate_from names (a # as) =
     (case (arg_kind a, arg_name a) of
        (NamedArgument, Some n) \<Rightarrow> n \<in> set names \<or> duplicate_from (n # names) as
      | _ \<Rightarrow> duplicate_from names as)"

definition duplicate_named_argument :: "parsed_argument list \<Rightarrow> bool" where
  "duplicate_named_argument as = duplicate_from [] as"

subsection \<open>Arguments and parameters\<close>

record mapped_argument =
  supplied_name :: "str option"
  mapped_values :: "text_range list"

definition required_parameters_are_present :: "parameter_definition list \<Rightarrow> mapped_argument list \<Rightarrow> bool" where
  "required_parameters_are_present ps ms = list_all (\<lambda>(p, m). pdef_optional p \<or> mapped_values m \<noteq> []) (zip ps ms)"

definition parameter_index :: "parameter_definition list \<Rightarrow> str \<Rightarrow> nat option" where
  "parameter_index ps = map_of (rev (zip (map pdef_name ps) [0..<length ps]))"

text \<open>The parameter that a named argument names.\<close>

definition named_index :: "parameter_definition list \<Rightarrow> parsed_argument \<Rightarrow> nat option" where
  "named_index ps a = (if arg_kind a = NamedArgument then (case arg_name a of None \<Rightarrow> None | Some n \<Rightarrow> parameter_index ps n) else None)"

definition push_value :: "text_range \<Rightarrow> mapped_argument \<Rightarrow> mapped_argument" where
  "push_value v m = m\<lparr>mapped_values := mapped_values m @ [v]\<rparr>"

definition push_at :: "nat \<Rightarrow> (mapped_argument \<Rightarrow> mapped_argument) \<Rightarrow> mapped_argument list \<Rightarrow> ('e, mapped_argument list) outcome" where
  "push_at i f ms = (if i < length ms then Ret (ms[i := f (ms ! i)]) else Panic)"

definition place_named :: "parameter_definition list \<Rightarrow> parsed_argument \<Rightarrow> mapped_argument list \<Rightarrow> mapped_argument list" where
  "place_named ps a ms = (case named_index ps a of
     None \<Rightarrow> ms
   | Some i \<Rightarrow> ms[i := push_value (arg_value a) ((ms ! i)\<lparr>supplied_name := arg_name a\<rparr>)])"

fun place_rest ::
    "parameter_definition list \<Rightarrow> parsed_argument list \<Rightarrow> nat \<Rightarrow> mapped_argument list \<Rightarrow> mapped_argument list option" where
  "place_rest ps [] cursor ms = Some ms"
| "place_rest ps (a # as) cursor ms = (case named_index ps a of
     Some i \<Rightarrow> place_rest ps as (max cursor (i + 1)) ms
   | None \<Rightarrow>
       (let end = (case List.map_filter (named_index ps) as of [] \<Rightarrow> length ps | i # _ \<Rightarrow> i) in
        case find (\<lambda>i. mapped_values (ms ! i) = []) [cursor..<end] of
          None \<Rightarrow> None
        | Some slot \<Rightarrow> place_rest ps as (slot + 1)
            (ms[slot := push_value (if arg_kind a = NamedArgument then arg_raw a else arg_value a) (ms ! slot)])))"

definition map_exact_arguments ::
    "parameter_definition list \<Rightarrow> parsed_argument list \<Rightarrow> ('e, mapped_argument list option) outcome" where
  "map_exact_arguments ps as =
     (let empty = replicate (length ps) \<lparr>supplied_name = None, mapped_values = []\<rparr>;
          checked = (\<lambda>ms. if required_parameters_are_present ps ms then Some ms else None) in
      if \<not> list_ex (\<lambda>a. arg_kind a = NamedArgument) as
      then obind (try_for (\<lambda>(i, a). push_at i (push_value (arg_value a))) (enumerate 0 as) empty) (\<lambda>ms. Ret (checked ms))
      else Ret (case place_rest ps as 0 (fold (place_named ps) as empty) of None \<Rightarrow> None | Some ms \<Rightarrow> checked ms))"

subsection \<open>The children of a call\<close>

record function_argument =
  parameter_name :: str
  argument_name :: "str option"
  child_start :: nat
  child_count :: nat
  omitted :: bool

record function_call =
  fcall_name :: str
  fcall_definition_id :: str
  fcall_registration_id :: str
  fcall_arguments :: "function_argument list"

datatype children_error = BlankIdentity | BadParameterName | ChildRangeOverflow | ChildrenNotContiguous | OmittedWithChildren | ChildrenNotOwned

definition checked_add :: "nat \<Rightarrow> nat \<Rightarrow> nat option" where
  "checked_add a b = (if a + b \<le> u64_max then Some (a + b) else None)"

text \<open>One round of the loop; the state is the set of names and the next child.\<close>

definition validate_argument :: "nat \<Rightarrow> function_argument \<Rightarrow> str list \<times> nat \<Rightarrow> (children_error, str list \<times> nat) outcome" where
  "validate_argument children a = (\<lambda>(names, next_child).
     if str_trim (parameter_name a) = [] \<or> parameter_name a \<in> set names \<or> (\<exists>n \<in> set_option (argument_name a). str_trim n = [])
     then Fail BadParameterName
     else obind (ok_or ChildRangeOverflow (checked_add (child_start a) (child_count a))) (\<lambda>end.
       if child_start a \<noteq> next_child \<or> end > children then Fail ChildrenNotContiguous
       else if omitted a \<noteq> (child_count a = 0) \<or> (omitted a \<and> argument_name a \<noteq> None) then Fail OmittedWithChildren
       else Ret (parameter_name a # names, end)))"

definition validate_children :: "function_call \<Rightarrow> nat \<Rightarrow> (children_error, unit) outcome" where
  "validate_children f children =
     (if list_ex (\<lambda>s. str_trim s = []) [fcall_name f, fcall_definition_id f, fcall_registration_id f] then Fail BlankIdentity
      else obind (try_for (validate_argument children) (fcall_arguments f) ([], 0)) (\<lambda>(names, next_child).
        if next_child \<noteq> children then Fail ChildrenNotOwned else Ret ()))"

definition component_type :: "str \<Rightarrow> str" where
  "component_type c = (case strip_suffix c ''[]'' of None \<Rightarrow> c | Some s \<Rightarrow> s)"

definition shape_of :: "function_definition \<Rightarrow> (str \<times> bool) list" where
  "shape_of d = map (\<lambda>p. (pdef_type p, pdef_single p)) (parameters d)"

definition is_list_signature :: "function_definition \<Rightarrow> bool" where
  "is_list_signature d \<longleftrightarrow> length (parameters d) = 1 \<and> \<not> pdef_single (parameters d ! 0)"

definition allows_named_arguments :: "function_definition \<Rightarrow> bool" where
  "allows_named_arguments d \<longleftrightarrow> bt_get (fdef_metadata d) ''function.named-arguments'' \<noteq> Some ''false''"

end
