(* ===== verification/Function_History.thy ===== *)
theory Function_History
  imports Function_Registry
begin

text \<open>
  The contract of the function registry: which declarations are accepted, what every history of a
  transaction keeps, how savepoints behave, and which functions a call sees.
\<close>

subsection \<open>Acceptance\<close>

definition parameter_key :: "case_table \<Rightarrow> function_policy \<Rightarrow> parameter_declaration \<Rightarrow> str" where
  "parameter_key tab pol p = (if case_insensitive_parameters pol then to_lower tab (param_name p) else param_name p)"

definition parameter_allowed :: "function_policy \<Rightarrow> parameter_declaration \<Rightarrow> bool" where
  "parameter_allowed pol p \<longleftrightarrow> str_trim (param_name p) \<noteq> [] \<and> (param_single p \<or> allow_plural_parameters pol) \<and>
     (default_source p = None \<or> allow_default_values pol)"

definition declaration_ok :: "char_table \<Rightarrow> case_table \<Rightarrow> function_policy \<Rightarrow> function_declaration \<Rightarrow> bool" where
  "declaration_ok ct tab pol d \<longleftrightarrow>
     is_valid_function_name ct (decl_name d) (allow_leading_underscore pol) \<and> is_valid_for (decl_span d) (decl_source d) \<and>
     (decl_scope d = GlobalScope \<or> allow_local_functions pol) \<and>
     (bt_get (decl_metadata d) ''function.return-syntax'' = Some ''returns'' \<longrightarrow> allow_returns_keyword pol) \<and>
     (bt_get (decl_metadata d) ''function.return-syntax'' = Some ''arrow'' \<longrightarrow> allow_arrow_return pol) \<and>
     (\<forall>p \<in> set (decl_parameters d). parameter_allowed pol p) \<and> distinct (map (parameter_key tab pol) (decl_parameters d))"

lemma validate_parameters_Ret_iff:
  "try_for (validate_parameter tab pol f) ps names = Ret names' \<longleftrightarrow>
     (\<forall>p \<in> set ps. parameter_allowed pol p) \<and> distinct (map (parameter_key tab pol) ps) \<and>
     set (map (parameter_key tab pol) ps) \<inter> set names = {} \<and> names' = rev (map (parameter_key tab pol) ps) @ names"
  by (induction ps arbitrary: names)
    (auto simp: validate_parameter_def parameter_allowed_def parameter_key_def Let_def outcome_simps)

lemma validate_parameters_not_Panic: "try_for (validate_parameter tab pol f) ps names \<noteq> Panic"
  by (induction ps arbitrary: names) (auto simp: validate_parameter_def Let_def)

lemma validate_not_Panic: "validate_declaration ct tab pol d \<noteq> Panic"
  by (auto simp: validate_declaration_def check_return_syntax_def Let_def outcome_simps validate_parameters_not_Panic)

lemma validate_declaration_Ret_iff: "validate_declaration ct tab pol d = Ret () \<longleftrightarrow> declaration_ok ct tab pol d"
proof -
  have "decl_scope d = GlobalScope \<or> decl_scope d = LocalScope" by (cases "decl_scope d") simp_all
  then show ?thesis
    by (auto simp: validate_declaration_def declaration_ok_def check_return_syntax_def Let_def outcome_simps validate_parameters_Ret_iff)
qed

definition clashes :: "function_policy \<Rightarrow> function_declaration \<Rightarrow> function_declaration \<Rightarrow> bool" where
  "clashes pol c d \<longleftrightarrow> decl_name c = decl_name d \<and> decl_scope c = decl_scope d \<and>
     (signature_shape c = signature_shape d \<or> \<not> allow_overloads pol)"

lemma admit_Ret_iff: "admit d t = Ret () \<longleftrightarrow> (\<forall>r \<in> set (registrations t). \<not> clashes (freg_policy t) (declared r) d)"
  by (auto simp: admit_def same_scope_def clashes_def list_ex_iff filter_empty_conv)

lemma admit_not_Panic: "admit d t \<noteq> Panic"
  by (simp add: admit_def)

definition accepts :: "char_table \<Rightarrow> case_table \<Rightarrow> function_registry \<Rightarrow> function_declaration \<Rightarrow> bool" where
  "accepts ct tab t d \<longleftrightarrow> \<not> frozen t \<and> declaration_ok ct tab (freg_policy t) d \<and>
     (\<forall>r \<in> set (registrations t). \<not> clashes (freg_policy t) (declared r) d)"

lemma ensure_mutable_simps [simp]:
  "frozen t \<Longrightarrow> abind ensure_mutable f t = (Fail Frozen, t)" "\<not> frozen t \<Longrightarrow> abind ensure_mutable f t = f () t"
  by (simp_all add: abind_def ensure_mutable_def)

lemma functions_register_cases:
  "case functions_register ct tab d t of
     (Ret r, t') \<Rightarrow> accepts ct tab t d \<and> r = registration_of d t \<and> t' = append_registration d t
   | (Fail e, t') \<Rightarrow> \<not> accepts ct tab t d \<and> t' = t
   | (Panic, t') \<Rightarrow> False"
proof (cases "frozen t")
  case True
  then show ?thesis by (simp add: functions_register_def accepts_def)
next
  case False
  define r where "r = obind (validate_declaration ct tab (freg_policy t) d) (\<lambda>_. admit d t)"
  have "r \<noteq> Panic" by (auto simp: r_def outcome_simps validate_not_Panic admit_not_Panic)
  moreover have "r = Ret () \<longleftrightarrow> accepts ct tab t d"
    using False by (simp add: r_def outcome_simps accepts_def validate_declaration_Ret_iff admit_Ret_iff)
  ultimately show ?thesis
    unfolding functions_register_def ensure_mutable_simps(2) [OF False] r_def [symmetric] by (cases r) simp_all
qed

text \<open>
  C28. A declaration is accepted exactly if the transaction is not frozen, the declaration is valid
  under the version policy (name, span, scope, return spelling, parameters with names of their own) and
  no function of its scope with its name has the same signature, or any signature where overloads do not
  exist.  An accepted declaration is appended, under the next order and the identity made of the document
  and that order, with its name, return contract and parameters; a refused one changes nothing, and
  nothing panics.
\<close>

theorem functions_register_exact:
  "case functions_register ct tab d t of
     (Ret r, t') \<Rightarrow> accepts ct tab t d \<and>
       t' = t\<lparr>registrations := registrations t @ [r], next_order := min (next_order t + 1) u64_max\<rparr> \<and>
       declared r = d \<and> fdef_registration_order (fdefinition r) = next_order t \<and>
       fdef_definition_id (fdefinition r) = ''function:document:'' @ freg_document t @ '':'' @ show_nat (next_order t) \<and>
       fdef_registration_id (fdefinition r) = fdef_definition_id (fdefinition r) @ '':0'' \<and>
       fdef_name (fdefinition r) = decl_name d \<and> fdef_return_type (fdefinition r) = return_type (return_of d) \<and>
       return_type_is_single (fdefinition r) = return_single (return_of d) \<and>
       map (\<lambda>p. (pdef_name p, pdef_type p, pdef_single p, pdef_optional p)) (parameters (fdefinition r)) =
         map (\<lambda>p. (param_name p, param_type p, param_single p, default_source p \<noteq> None)) (decl_parameters d)
   | (Fail e, t') \<Rightarrow> \<not> accepts ct tab t d \<and> t' = t
   | (Panic, t') \<Rightarrow> False"
proof -
  have entry: "declared (registration_of d t) = d"
    "fdef_registration_order (fdefinition (registration_of d t)) = next_order t"
    "fdef_definition_id (fdefinition (registration_of d t)) = ''function:document:'' @ freg_document t @ '':'' @ show_nat (next_order t)"
    "fdef_registration_id (fdefinition (registration_of d t)) = fdef_definition_id (fdefinition (registration_of d t)) @ '':0''"
    "fdef_name (fdefinition (registration_of d t)) = decl_name d"
    "fdef_return_type (fdefinition (registration_of d t)) = return_type (return_of d)"
    "return_type_is_single (fdefinition (registration_of d t)) = return_single (return_of d)"
    "map (\<lambda>p. (pdef_name p, pdef_type p, pdef_single p, pdef_optional p)) (parameters (fdefinition (registration_of d t))) =
       map (\<lambda>p. (param_name p, param_type p, param_single p, default_source p \<noteq> None)) (decl_parameters d)"
    by (simp_all add: registration_of_def project_definition_def Let_def)
  show ?thesis
    using functions_register_cases [where ct = ct and tab = tab and d = d and t = t]
    by (auto simp: entry append_registration_def sat_inc_u64_def split: prod.splits outcome.splits)
qed

subsection \<open>Histories\<close>

text \<open>What is registered is legal, projected from its declaration, and has an order of its own.\<close>

definition projected :: "function_registry \<Rightarrow> function_registration \<Rightarrow> bool" where
  "projected t r \<longleftrightarrow> (\<exists>n < next_order t. r = registration_of (declared r) (t\<lparr>next_order := n\<rparr>) \<and>
     fdef_registration_order (fdefinition r) = n)"

definition functions_ok :: "char_table \<Rightarrow> case_table \<Rightarrow> function_registry \<Rightarrow> bool" where
  "functions_ok ct tab t \<longleftrightarrow>
     (\<forall>r \<in> set (registrations t). declaration_ok ct tab (freg_policy t) (declared r) \<and> projected t r) \<and>
     sorted_wrt (\<lambda>c d. \<not> clashes (freg_policy t) (declared c) (declared d)) (registrations t) \<and>
     sorted_wrt (<) (map (fdef_registration_order \<circ> fdefinition) (registrations t))"

definition projects :: "function_registry \<Rightarrow> function_registration \<Rightarrow> bool" where
  "projects t r \<longleftrightarrow> (\<exists>n. r = registration_of (declared r) (t\<lparr>next_order := n\<rparr>))"

definition registered_ok :: "char_table \<Rightarrow> case_table \<Rightarrow> function_registry \<Rightarrow> bool" where
  "registered_ok ct tab t \<longleftrightarrow>
     (\<forall>r \<in> set (registrations t). declaration_ok ct tab (freg_policy t) (declared r) \<and> projects t r) \<and>
     sorted_wrt (\<lambda>c d. \<not> clashes (freg_policy t) (declared c) (declared d)) (registrations t)"

text \<open>
  Everything that can happen to a transaction: any registration, any removal, freezing, savepoints at any
  time and rollbacks to any savepoint ever taken, whatever their results are.  With it go the savepoints
  taken, the states of those that are used as a stack (a rollback drops the younger ones, a removal or
  any other rollback all of them), and whether the history is disciplined: every rollback was to a
  savepoint of that stack and no order has saturated.
\<close>

inductive history ::
    "char_table \<Rightarrow> case_table \<Rightarrow> function_registry \<Rightarrow> function_savepoint list \<Rightarrow> function_registry list \<Rightarrow> bool \<Rightarrow> bool" for ct tab where
  Start: "t = fst (functions_new doc revision pol counter) \<Longrightarrow> history ct tab t [] [] True"
| Register: "history ct tab t taken saved disciplined \<Longrightarrow> functions_register ct tab d t = (res, t') \<Longrightarrow>
    history ct tab t' taken saved (disciplined \<and> next_order t < u64_max)"
| Save: "history ct tab t taken saved disciplined \<Longrightarrow>
    history ct tab t (functions_savepoint t # taken) (if frozen t then [] else t # saved) disciplined"
| Rollback: "history ct tab t taken (younger @ u # older) disciplined \<Longrightarrow> functions_rollback (functions_savepoint u) t = (res, t') \<Longrightarrow>
    history ct tab t' taken (u # older) disciplined"
| Stale: "history ct tab t taken saved disciplined \<Longrightarrow> sp \<in> set taken \<Longrightarrow> functions_rollback sp t = (res, t') \<Longrightarrow>
    history ct tab t' taken [] False"
| Remove: "history ct tab t taken saved disciplined \<Longrightarrow> remove_declarations_in_span sp t = (res, t') \<Longrightarrow>
    history ct tab t' taken [] disciplined"
| Freeze: "history ct tab t taken saved disciplined \<Longrightarrow> functions_freeze t = (res, t') \<Longrightarrow> history ct tab t' taken [] disciplined"

text \<open>A later state of the same transaction.\<close>

definition extends :: "function_registry \<Rightarrow> function_registry \<Rightarrow> bool" where
  "extends u t \<longleftrightarrow> (\<exists>rs n. t = u\<lparr>registrations := registrations u @ rs, next_order := n\<rparr> \<and> next_order u \<le> n)"

lemma extends_refl: "extends t t"
  unfolding extends_def by (rule exI [of _ "[]"], rule exI [of _ "next_order t"]) simp

lemma extends_append:
  assumes "extends u t" and "next_order t \<le> u64_max"
  shows "extends u (append_registration d t)"
proof -
  obtain rs n where t: "t = u\<lparr>registrations := registrations u @ rs, next_order := n\<rparr>" "next_order u \<le> n"
    using assms(1) by (auto simp: extends_def)
  have "next_order u \<le> sat_inc_u64 n" using t sat_inc_u64_le [of n] assms(2) by simp
  then show ?thesis unfolding extends_def
    by (intro exI [of _ "rs @ [registration_of d t]"] exI [of _ "sat_inc_u64 n"]) (simp add: t(1) append_registration_def)
qed

lemma rollback_extends: "extends u t \<Longrightarrow> \<not> frozen u \<Longrightarrow> functions_rollback (functions_savepoint u) t = (Ret (), u)"
  by (auto simp: extends_def functions_rollback_def functions_savepoint_def)

lemma projected_cong:
  "projected t r \<Longrightarrow> freg_document t' = freg_document t \<Longrightarrow> freg_revision t' = freg_revision t \<Longrightarrow> freg_policy t' = freg_policy t \<Longrightarrow>
   next_order t \<le> next_order t' \<Longrightarrow> projected t' r"
  unfolding projected_def registration_of_def Let_def by (auto intro: less_le_trans)

lemma projected_order: "projected t r \<Longrightarrow> fdef_registration_order (fdefinition r) < next_order t"
  by (auto simp: projected_def)

lemma functions_ok_append:
  assumes "functions_ok ct tab t" and "accepts ct tab t d" and "next_order t < u64_max"
  shows "functions_ok ct tab (append_registration d t)"
proof -
  let ?t = "append_registration d t" and ?r = "registration_of d t"
  have n: "next_order t < next_order ?t" using sat_inc_u64_less [OF assms(3)] by (simp add: append_registration_def)
  have new: "projected ?t ?r" "declared ?r = d" "fdef_registration_order (fdefinition ?r) = next_order t"
    using n by (auto simp: projected_def registration_of_def append_registration_def project_definition_def Let_def)
  have old: "projected ?t r" if "r \<in> set (registrations t)" for r
    by (rule projected_cong [of t]) (use that assms(1) n in \<open>auto simp: functions_ok_def append_registration_def\<close>)
  show ?thesis
    using assms(1,2) new old projected_order
    by (auto simp: functions_ok_def append_registration_def accepts_def sorted_wrt_append)
qed

lemma functions_ok_filter:
  assumes "functions_ok ct tab t"
  shows "functions_ok ct tab (t\<lparr>registrations := filter P (registrations t)\<rparr>)"
proof -
  have "sorted_wrt (<) (map (fdef_registration_order \<circ> fdefinition) (filter P (registrations t)))"
    using assms unfolding functions_ok_def sorted_wrt_map by (intro sorted_wrt_filter) simp
  then show ?thesis using assms by (auto simp: functions_ok_def projected_def registration_of_def intro: sorted_wrt_filter)
qed

lemma functions_ok_registered: "functions_ok ct tab t \<Longrightarrow> registered_ok ct tab t"
  unfolding functions_ok_def registered_ok_def projected_def projects_def by blast

lemma projects_cong:
  assumes "projects t r" "freg_document t' = freg_document t" "freg_revision t' = freg_revision t" "freg_policy t' = freg_policy t"
  shows "projects t' r"
proof -
  obtain n where n: "r = registration_of (declared r) (t\<lparr>next_order := n\<rparr>)" using assms(1) unfolding projects_def by blast
  have "registration_of (declared r) (t'\<lparr>next_order := n\<rparr>) = registration_of (declared r) (t\<lparr>next_order := n\<rparr>)"
    using assms(2-) by (simp add: registration_of_def)
  then show ?thesis using n unfolding projects_def by metis
qed

lemma projects_new: "projects t (registration_of d t)" "declared (registration_of d t) = d"
  unfolding projects_def by (rule exI [of _ "next_order t"]) (simp_all add: registration_of_def Let_def)

lemma registered_ok_append:
  assumes "registered_ok ct tab t" and "accepts ct tab t d"
  shows "registered_ok ct tab (append_registration d t)"
proof -
  have "projects (append_registration d t) r" if "projects t r" for r
    by (rule projects_cong [OF that]) (simp_all add: append_registration_def)
  then show ?thesis
    using assms projects_new by (auto simp: registered_ok_def append_registration_def accepts_def sorted_wrt_append)
qed

lemma registered_ok_part:
  assumes "registered_ok ct tab t" and "set rs \<subseteq> set (registrations t)"
    and "sorted_wrt (\<lambda>c d. \<not> clashes (freg_policy t) (declared c) (declared d)) rs"
    and "freg_document t' = freg_document t" "freg_revision t' = freg_revision t" "freg_policy t' = freg_policy t" "registrations t' = rs"
  shows "registered_ok ct tab t'"
proof -
  have "projects t' r" if "projects t r" for r by (rule projects_cong [OF that assms(4-6)])
  then show ?thesis using assms by (auto simp: registered_ok_def)
qed

definition history_ok ::
    "char_table \<Rightarrow> case_table \<Rightarrow> function_registry \<Rightarrow> function_savepoint list \<Rightarrow> function_registry list \<Rightarrow> bool \<Rightarrow> bool" where
  "history_ok ct tab t taken saved disciplined \<longleftrightarrow>
     (\<forall>u \<in> set (t # saved). registered_ok ct tab u \<and> next_order u \<le> u64_max \<and> (disciplined \<longrightarrow> functions_ok ct tab u)) \<and>
     (\<forall>u \<in> set saved. \<not> frozen u) \<and> (\<forall>sp \<in> set taken. sp_order sp \<le> u64_max) \<and>
     sorted_wrt (\<lambda>younger older. extends older younger) (t # saved)"

lemma history_ok_alone:
  "history_ok ct tab t taken [] disciplined \<longleftrightarrow>
   registered_ok ct tab t \<and> next_order t \<le> u64_max \<and> (disciplined \<longrightarrow> functions_ok ct tab t) \<and> (\<forall>sp \<in> set taken. sp_order sp \<le> u64_max)"
  by (auto simp: history_ok_def)

lemma history_ok_stale:
  assumes ok: "history_ok ct tab t taken saved disciplined" and sp: "sp_order sp \<le> u64_max"
    and r: "functions_rollback sp t = (res, t')"
  shows "history_ok ct tab t' taken [] False"
proof (cases "t' = t")
  case True
  then show ?thesis using ok unfolding history_ok_alone by (simp add: history_ok_def)
next
  case False
  have "\<not> frozen t" using r False by (auto simp: functions_rollback_def)
  then have t': "t' = t\<lparr>registrations := take (sp_count sp) (registrations t), next_order := sp_order sp\<rparr>"
    using r False by (auto simp: functions_rollback_def split: if_splits)
  have t: "registered_ok ct tab t" "\<forall>sp \<in> set taken. sp_order sp \<le> u64_max" using ok by (simp_all add: history_ok_def)
  have "registered_ok ct tab t'"
    by (rule registered_ok_part [OF t(1), of "take (sp_count sp) (registrations t)"])
      (use t(1) in \<open>auto simp: t' registered_ok_def dest: in_set_takeD intro: sorted_wrt_take\<close>)
  then show ?thesis using sp t(2) by (simp add: history_ok_alone t')
qed

lemma history_invariant: "history ct tab t taken saved disciplined \<Longrightarrow> history_ok ct tab t taken saved disciplined"
proof (induction rule: history.induct)
  case (Start t doc revision pol counter)
  have "functions_ok ct tab t" "next_order t = 0" using Start by (simp_all add: functions_new_def functions_ok_def)
  then show ?case by (simp add: history_ok_alone functions_ok_registered)
next
  case (Register t taken saved disciplined d res t')
  consider r where "res = Ret r" "accepts ct tab t d" "t' = append_registration d t" | "t' = t"
    using functions_register_cases [where ct = ct and tab = tab and d = d and t = t] Register.hyps(2) by (cases res) auto
  then show ?case
  proof cases
    case 1
    have t: "registered_ok ct tab t" "next_order t \<le> u64_max" "disciplined \<longrightarrow> functions_ok ct tab t"
      using Register.IH by (simp_all add: history_ok_def)
    have "registered_ok ct tab t'" "next_order t' \<le> u64_max" "disciplined \<and> next_order t < u64_max \<longrightarrow> functions_ok ct tab t'"
      unfolding 1(3) using registered_ok_append [OF t(1) 1(2)] functions_ok_append [OF _ 1(2)] t(3)
      by (auto simp: append_registration_def sat_inc_u64_def)
    moreover have "\<forall>u \<in> set saved. extends u t'" using Register.IH t(2) by (simp add: history_ok_def 1(3) extends_append)
    ultimately show ?thesis using Register.IH by (auto simp: history_ok_def)
  next
    case 2
    then show ?thesis using Register.IH by (auto simp: history_ok_def)
  qed
next
  case (Save t taken saved disciplined)
  then have "next_order t \<le> u64_max" by (simp add: history_ok_def)
  then show ?case using Save.IH by (auto simp: history_ok_def functions_savepoint_def extends_refl)
next
  case (Rollback t taken younger u older disciplined res t')
  then have "extends u t" "\<not> frozen u" by (auto simp: history_ok_def)
  then have "t' = u" using Rollback.hyps(2) rollback_extends by simp
  then show ?case using Rollback.IH by (auto simp: history_ok_def extends_refl sorted_wrt_append)
next
  case (Stale t taken saved disciplined sp res t')
  have "sp_order sp \<le> u64_max" using Stale.IH Stale.hyps(2) by (simp add: history_ok_def)
  then show ?case by (rule history_ok_stale [OF Stale.IH _ Stale.hyps(3)])
next
  case (Remove t taken saved disciplined sp res t')
  let ?kept = "filter (\<lambda>r. decl_span (declared r) \<noteq> sp) (registrations t)"
  have t: "registered_ok ct tab t" "next_order t \<le> u64_max" "disciplined \<longrightarrow> functions_ok ct tab t" "\<forall>sp \<in> set taken. sp_order sp \<le> u64_max"
    using Remove.IH by (simp_all add: history_ok_def)
  have "registered_ok ct tab (t\<lparr>registrations := ?kept\<rparr>)"
    by (rule registered_ok_part [OF t(1), of ?kept]) (use t(1) in \<open>auto simp: registered_ok_def intro: sorted_wrt_filter\<close>)
  moreover have "t' = t \<or> t' = t\<lparr>registrations := ?kept\<rparr>"
    using Remove.hyps(2) by (cases "frozen t") (auto simp: remove_declarations_in_span_def Let_def)
  ultimately show ?case using t functions_ok_filter by (auto simp: history_ok_alone)
next
  case (Freeze t taken saved disciplined res t')
  have t: "registered_ok ct tab t" "next_order t \<le> u64_max" "disciplined \<longrightarrow> functions_ok ct tab t" "\<forall>sp \<in> set taken. sp_order sp \<le> u64_max"
    using Freeze.IH by (simp_all add: history_ok_def)
  have "t' = t \<or> t' = t\<lparr>frozen := True\<rparr>" using Freeze.hyps(2) by (cases "frozen t") (auto simp: functions_freeze_def)
  moreover have "registered_ok ct tab (t\<lparr>frozen := True\<rparr>)"
    by (rule registered_ok_part [OF t(1), of "registrations t"]) (use t(1) in \<open>auto simp: registered_ok_def\<close>)
  moreover have "functions_ok ct tab (t\<lparr>frozen := True\<rparr>)" if "functions_ok ct tab t"
  proof -
    have "projected (t\<lparr>frozen := True\<rparr>) r" if "projected t r" for r by (rule projected_cong [OF that]) simp_all
    then show ?thesis using that by (auto simp: functions_ok_def)
  qed
  ultimately show ?case using t by (auto simp: history_ok_alone)
qed

lemma show_nat_inj: "show_nat m = show_nat n \<longleftrightarrow> m = n"
  by (metis of_nat_eq_iff show_nat_reads)

lemma functions_ok_identities:
  assumes "functions_ok ct tab t"
  shows "distinct (map (fdef_definition_id \<circ> fdefinition) (registrations t))"
proof -
  have id: "fdef_definition_id (fdefinition r) = ''function:document:'' @ freg_document t @ CHR '':'' # show_nat (fdef_registration_order (fdefinition r))"
    if "r \<in> set (registrations t)" for r
  proof -
    have "projected t r" using assms that by (simp add: functions_ok_def)
    then obtain n where n: "r = registration_of (declared r) (t\<lparr>next_order := n\<rparr>)" "fdef_registration_order (fdefinition r) = n"
      unfolding projected_def by blast
    have "fdef_definition_id (fdefinition (registration_of d (t\<lparr>next_order := n\<rparr>))) = ''function:document:'' @ freg_document t @ CHR '':'' # show_nat n" for d
      by (simp add: registration_of_def project_definition_def Let_def)
    then show ?thesis unfolding n(2) using n(1) by metis
  qed
  have "distinct (map (fdef_registration_order \<circ> fdefinition) (registrations t))"
    using assms by (simp add: functions_ok_def strict_sorted_iff)
  then show ?thesis by (auto simp: distinct_map inj_on_def id show_nat_inj)
qed

text \<open>
  C27. Whatever happens to a transaction, its functions are valid under the policy, projected faithfully
  and without two that clash, and rolling back to a savepoint of the stack (taken since the last removal
  and the last other rollback, and not dropped by a rollback to an older one) gives exactly the state in
  which it was taken.  If the history is disciplined (every rollback was of that kind, and the 64-bit order
  has not saturated), the orders ascend below the next one and the identities are distinct.
\<close>

theorem function_histories:
  assumes "history ct tab t taken saved disciplined"
  shows "registered_ok ct tab t \<and>
    (\<forall>u \<in> set saved. functions_rollback (functions_savepoint u) t = (Ret (), u)) \<and>
    (disciplined \<longrightarrow> functions_ok ct tab t \<and> distinct (map (fdef_definition_id \<circ> fdefinition) (registrations t)))"
  using history_invariant [OF assms] rollback_extends functions_ok_identities by (auto simp: history_ok_def)

subsection \<open>Lookup\<close>

lemma no_clash_shapes:
  assumes "sorted_wrt (\<lambda>c d. \<not> clashes pol (declared c) (declared d)) rs"
    and "\<forall>r \<in> set rs. decl_name (declared r) = name \<and> decl_scope (declared r) = scope"
  shows "distinct (map (\<lambda>r. signature_shape (declared r)) rs)"
  using assms by (induction rs) (auto simp: clashes_def)

text \<open>
  C31. What a call sees: exactly the functions of its name that are local, or global and not hidden by a
  local one with the same signature (only the global ones from the global scope), local ones first, each
  signature once.
\<close>

theorem lookup_shadows:
  assumes "functions_ok ct tab t"
  shows "let found = lookup_references (registrations t) name scope in
     set found = {r \<in> set (registrations t). decl_name (declared r) = name \<and>
       (if scope = GlobalScope then decl_scope (declared r) = GlobalScope
        else decl_scope (declared r) = LocalScope \<or>
          (\<forall>l \<in> set (registrations t). decl_name (declared l) = name \<and> decl_scope (declared l) = LocalScope \<longrightarrow>
             signature_shape (declared l) \<noteq> signature_shape (declared r)))} \<and>
     distinct (map (\<lambda>r. signature_shape (declared r)) found) \<and>
     sorted_wrt (\<lambda>a b. decl_scope (declared a) = GlobalScope \<longrightarrow> decl_scope (declared b) = GlobalScope) found \<and>
     lookup_functions t name scope = map fdefinition found"
proof -
  let ?in = "\<lambda>s. filter (\<lambda>r. decl_scope (declared r) = s) (filter (\<lambda>r. decl_name (declared r) = name) (registrations t))"
  have d: "distinct (map (\<lambda>r. signature_shape (declared r)) (filter P (?in s)))" for P s
    by (rule no_clash_shapes [of "freg_policy t" _ name s])
      (use assms in \<open>auto simp: functions_ok_def intro!: sorted_wrt_filter\<close>)
  have g: "sorted_wrt R xs" if "\<forall>x \<in> set xs. \<forall>y \<in> set xs. R x y" for R and xs :: "function_registration list"
    using that by (induction xs) auto
  have scopes: "s \<noteq> GlobalScope \<longleftrightarrow> s = LocalScope" for s by (cases s) simp_all
  show ?thesis
  proof (cases "scope = GlobalScope")
    case True
    then show ?thesis using d [of "\<lambda>_. True" GlobalScope]
      by (auto simp: lookup_references_def lookup_functions_def intro!: g)
  next
    case False
    let ?shape = "\<lambda>r. signature_shape (declared r)"
    have found: "lookup_references (registrations t) name scope =
        ?in LocalScope @ filter (\<lambda>r. ?shape r \<notin> ?shape ` set (?in LocalScope)) (?in GlobalScope)"
      using False by (simp add: lookup_references_def Let_def)
    have m: "r \<in> set (lookup_references (registrations t) name scope) \<longleftrightarrow> r \<in> set (registrations t) \<and> decl_name (declared r) = name \<and>
        (decl_scope (declared r) = LocalScope \<or> (\<forall>l \<in> set (registrations t). decl_name (declared l) = name \<and>
          decl_scope (declared l) = LocalScope \<longrightarrow> ?shape l \<noteq> ?shape r))" for r
      unfolding found using scopes [of "decl_scope (declared r)"] by (auto simp: image_iff)
    have dist: "distinct (map ?shape (lookup_references (registrations t) name scope))"
    proof -
      have disj: "S \<inter> ?shape ` set (filter (\<lambda>r. ?shape r \<notin> S) rs) = {}" for S rs by auto
      have all: "distinct (map ?shape (?in LocalScope))" using d [of "\<lambda>_. True" LocalScope] by simp
      show ?thesis unfolding found map_append distinct_append set_map by (intro conjI all d disj)
    qed
    have srt: "sorted_wrt (\<lambda>a b. decl_scope (declared a) = GlobalScope \<longrightarrow> decl_scope (declared b) = GlobalScope)
        (lookup_references (registrations t) name scope)"
      unfolding found by (auto simp: sorted_wrt_append intro!: g)
    show ?thesis unfolding Let_def lookup_functions_def if_not_P [OF False]
      by (intro conjI dist srt refl) (simp add: set_eq_iff m)
  qed
qed

end
