(* ===== verification/Function_Arguments.thy ===== *)
theory Function_Arguments
  imports Function_Call Function_History
begin

text \<open>
  The assignment of the arguments of a call to the parameters of a function, and the decision whether the
  children of a call are owned by its parameters.
\<close>

subsection \<open>Named arguments\<close>

lemma parameter_index_SomeD:
  assumes "parameter_index ps n = Some i"
  shows "i < length ps" "pdef_name (ps ! i) = n"
proof -
  have "(n, i) \<in> set (zip (map pdef_name ps) [0..<length ps])"
    using map_of_SomeD [OF assms [unfolded parameter_index_def]] by simp
  then show "i < length ps" "pdef_name (ps ! i) = n" by (auto simp: set_zip)
qed

lemma named_index_SomeD:
  assumes "named_index ps a = Some i"
  shows "i < length ps" "arg_name a = Some (pdef_name (ps ! i))" "arg_kind a = NamedArgument"
  using assms parameter_index_SomeD by (auto simp: named_index_def split: if_splits option.splits)

text \<open>No two arguments name the same parameter.\<close>

definition names_apart :: "parameter_definition list \<Rightarrow> parsed_argument list \<Rightarrow> bool" where
  "names_apart ps as \<longleftrightarrow> sorted_wrt (\<lambda>a b. named_index ps a \<noteq> None \<longrightarrow> named_index ps a \<noteq> named_index ps b) as"

lemma names_apart_Cons:
  "names_apart ps (a # as) \<longleftrightarrow> names_apart ps as \<and> (\<forall>b \<in> set as. named_index ps a \<noteq> None \<longrightarrow> named_index ps a \<noteq> named_index ps b)"
  by (auto simp: names_apart_def)

lemma duplicate_from_mono: "duplicate_from names as \<Longrightarrow> set names \<subseteq> set names' \<Longrightarrow> duplicate_from names' as"
proof (induction as arbitrary: names names')
  case (Cons a as)
  have "set (n # names) \<subseteq> set (n # names')" for n using Cons.prems(2) by auto
  then show ?case using Cons by (fastforce split: argument_kind.splits option.splits)
qed simp

lemma duplicate_from_names:
  assumes "\<not> duplicate_from names as"
  shows "names_apart ps as" "a \<in> set as \<Longrightarrow> named_index ps a = Some i \<Longrightarrow> pdef_name (ps ! i) \<notin> set names"
proof -
  have "names_apart ps as \<and> (\<forall>a \<in> set as. \<forall>i. named_index ps a = Some i \<longrightarrow> pdef_name (ps ! i) \<notin> set names)"
    using assms
  proof (induction as arbitrary: names)
    case Nil
    then show ?case by (simp add: names_apart_def)
  next
    case (Cons a as)
    show ?case
    proof (cases "named_index ps a")
      case None
      have "\<not> duplicate_from names as" using Cons.prems duplicate_from_mono [of names as "n # names" for n] by (fastforce split: argument_kind.splits option.splits)
      then show ?thesis using Cons.IH None by (simp add: names_apart_Cons)
    next
      case (Some i)
      note a = named_index_SomeD [OF Some]
      have d: "pdef_name (ps ! i) \<notin> set names" "\<not> duplicate_from (pdef_name (ps ! i) # names) as"
        using Cons.prems a(2,3) by simp_all
      note IH = Cons.IH [OF d(2)]
      have "Some i \<noteq> named_index ps b" if "b \<in> set as" for b
      proof
        assume "Some i = named_index ps b"
        from conjunct2 [OF IH, THEN bspec, OF that, THEN spec, THEN mp, OF this [symmetric]] show False by simp
      qed
      then have "names_apart ps (a # as)" using IH Some by (simp add: names_apart_Cons)
      then show ?thesis using IH Some d(1) by simp
    qed
  qed
  then show "names_apart ps as" "a \<in> set as \<Longrightarrow> named_index ps a = Some i \<Longrightarrow> pdef_name (ps ! i) \<notin> set names" by blast+
qed

text \<open>What an argument becomes; a name that is no parameter is part of the value.\<close>

definition used_value :: "parsed_argument \<Rightarrow> text_range" where
  "used_value a = (if arg_kind a = NamedArgument then arg_raw a else arg_value a)"

definition entry_of :: "parameter_definition list \<Rightarrow> parsed_argument \<Rightarrow> mapped_argument" where
  "entry_of ps a = (if named_index ps a = None then \<lparr>supplied_name = None, mapped_values = [used_value a]\<rparr>
     else \<lparr>supplied_name = arg_name a, mapped_values = [arg_value a]\<rparr>)"

abbreviation empty_entry :: mapped_argument where
  "empty_entry \<equiv> \<lparr>supplied_name = None, mapped_values = []\<rparr>"

text \<open>\<open>fs\<close> assigns a parameter of its own to every argument, in order for the positional ones.\<close>

definition assigned :: "parameter_definition list \<Rightarrow> parsed_argument list \<Rightarrow> nat list \<Rightarrow> mapped_argument list \<Rightarrow> bool" where
  "assigned ps as fs ms \<longleftrightarrow>
     length fs = length as \<and> length ms = length ps \<and> distinct fs \<and> (\<forall>i \<in> set fs. i < length ps) \<and>
     (\<forall>k < length as. ms ! (fs ! k) = entry_of ps (as ! k) \<and> (\<forall>i. named_index ps (as ! k) = Some i \<longrightarrow> fs ! k = i)) \<and>
     (\<forall>j < length ps. j \<notin> set fs \<longrightarrow> ms ! j = empty_entry) \<and>
     (\<forall>l < length as. \<forall>k < l. named_index ps (as ! k) = None \<longrightarrow> named_index ps (as ! l) = None \<longrightarrow> fs ! k < fs ! l)"

lemma place_named_nth:
  assumes "names_apart ps as" and "length ms = length ps" and "\<forall>a \<in> set as. \<forall>i. named_index ps a = Some i \<longrightarrow> ms ! i = empty_entry"
  shows "length (fold (place_named ps) as ms) = length ps"
    "a \<in> set as \<Longrightarrow> named_index ps a = Some i \<Longrightarrow> fold (place_named ps) as ms ! i = entry_of ps a"
    "(\<And>a. a \<in> set as \<Longrightarrow> named_index ps a \<noteq> Some j) \<Longrightarrow> fold (place_named ps) as ms ! j = ms ! j"
proof -
  have "length (fold (place_named ps) as ms) = length ps \<and>
    (\<forall>a \<in> set as. \<forall>i. named_index ps a = Some i \<longrightarrow> fold (place_named ps) as ms ! i = entry_of ps a) \<and>
    (\<forall>j. (\<forall>a \<in> set as. named_index ps a \<noteq> Some j) \<longrightarrow> fold (place_named ps) as ms ! j = ms ! j)"
    using assms
  proof (induction as arbitrary: ms)
    case (Cons a as)
    let ?ms = "place_named ps a ms"
    have apart: "names_apart ps as" "named_index ps a = Some i \<Longrightarrow> b \<in> set as \<Longrightarrow> named_index ps b \<noteq> Some i" for b i
      using Cons.prems(1) by (auto simp: names_apart_Cons)
    have len: "length ?ms = length ps" using Cons.prems(2) by (simp add: place_named_def split: option.split)
    have here: "?ms ! i = entry_of ps a" if "named_index ps a = Some i" for i
      using that named_index_SomeD(1) [OF that] Cons.prems(2,3)
      by (simp add: place_named_def push_value_def entry_of_def)
    have there: "?ms ! j = ms ! j" if "named_index ps a \<noteq> Some j" for j
      using that by (auto simp: place_named_def split: option.split)
    have "\<forall>b \<in> set as. \<forall>i. named_index ps b = Some i \<longrightarrow> ?ms ! i = empty_entry"
    proof (intro ballI allI impI)
      fix b i assume b: "b \<in> set as" "named_index ps b = Some i"
      then have "named_index ps a \<noteq> Some i" using apart(2) by blast
      then show "?ms ! i = empty_entry" using there Cons.prems(3) b by simp
    qed
    note IH = Cons.IH [OF apart(1) len this]
    have "fold (place_named ps) as ?ms ! i = entry_of ps b" if "b = a \<or> b \<in> set as" "named_index ps b = Some i" for b i
    proof (cases "b \<in> set as")
      case True
      show ?thesis using IH True that(2) by simp
    next
      case False
      then have "named_index ps a = Some i" "b = a" using that by simp_all
      then show ?thesis using IH here apart(2) by auto
    qed
    moreover have "fold (place_named ps) as ?ms ! j = ms ! j" if "\<forall>b \<in> set (a # as). named_index ps b \<noteq> Some j" for j
      using that IH there by simp
    ultimately show ?case using IH by simp
  qed simp
  then show "length (fold (place_named ps) as ms) = length ps"
    "a \<in> set as \<Longrightarrow> named_index ps a = Some i \<Longrightarrow> fold (place_named ps) as ms ! i = entry_of ps a"
    "(\<And>a. a \<in> set as \<Longrightarrow> named_index ps a \<noteq> Some j) \<Longrightarrow> fold (place_named ps) as ms ! j = ms ! j" by blast+
qed

subsection \<open>Positional arguments\<close>

lemma find_upt_SomeD:
  assumes "find P [c..<n] = Some i"
  shows "c \<le> i" "i < n" "P i"
  using assms by (auto simp: find_Some_iff)

text \<open>What the second loop assigns.\<close>

definition rest_assigned ::
    "parameter_definition list \<Rightarrow> parsed_argument list \<Rightarrow> nat \<Rightarrow> mapped_argument list \<Rightarrow> nat list \<Rightarrow> mapped_argument list \<Rightarrow> bool" where
  "rest_assigned ps as c ms fs ms' \<longleftrightarrow>
     length fs = length as \<and> length ms' = length ms \<and>
     (\<forall>k < length as. case named_index ps (as ! k) of
        Some i \<Rightarrow> fs ! k = i
      | None \<Rightarrow> c \<le> fs ! k \<and> fs ! k < length ps \<and> mapped_values (ms ! (fs ! k)) = [] \<and>
          ms' ! (fs ! k) = push_value (used_value (as ! k)) (ms ! (fs ! k))) \<and>
     (\<forall>l < length as. \<forall>k < l. named_index ps (as ! k) = None \<longrightarrow> named_index ps (as ! l) = None \<longrightarrow> fs ! k < fs ! l) \<and>
     (\<forall>j. (\<forall>k < length as. named_index ps (as ! k) = None \<longrightarrow> fs ! k \<noteq> j) \<longrightarrow> ms' ! j = ms ! j)"

lemma rest_assignedD:
  assumes "rest_assigned ps as c ms fs ms'"
  shows "length fs = length as" "length ms' = length ms"
    "k < length as \<Longrightarrow> named_index ps (as ! k) = Some i \<Longrightarrow> fs ! k = i"
    "k < length as \<Longrightarrow> named_index ps (as ! k) = None \<Longrightarrow> c \<le> fs ! k \<and> fs ! k < length ps \<and> mapped_values (ms ! (fs ! k)) = [] \<and>
       ms' ! (fs ! k) = push_value (used_value (as ! k)) (ms ! (fs ! k))"
    "l < length as \<Longrightarrow> k < l \<Longrightarrow> named_index ps (as ! k) = None \<Longrightarrow> named_index ps (as ! l) = None \<Longrightarrow> fs ! k < fs ! l"
    "\<forall>k < length as. named_index ps (as ! k) = None \<longrightarrow> fs ! k \<noteq> j \<Longrightarrow> ms' ! j = ms ! j"
  using assms by (fastforce simp: rest_assigned_def)+

lemma rest_assigned_named:
  assumes r: "rest_assigned ps as c' ms fs ms'" and "named_index ps a = Some i" and "c \<le> c'"
  shows "rest_assigned ps (a # as) c ms (i # fs) ms'"
  unfolding rest_assigned_def length_Cons All_less_Suc2 nth_Cons_0 nth_Cons_Suc assms(2) option.case
proof (intro conjI)
  show "\<forall>k < length as. case named_index ps (as ! k) of Some i \<Rightarrow> fs ! k = i
      | None \<Rightarrow> c \<le> fs ! k \<and> fs ! k < length ps \<and> mapped_values (ms ! (fs ! k)) = [] \<and>
          ms' ! (fs ! k) = push_value (used_value (as ! k)) (ms ! (fs ! k))"
    using rest_assignedD(3,4) [OF r] le_trans [OF assms(3)] by (simp split: option.split)
  show "\<forall>l < length as. (Some i = None \<longrightarrow> named_index ps (as ! l) = None \<longrightarrow> i < fs ! l) \<and>
      (\<forall>k < l. named_index ps (as ! k) = None \<longrightarrow> named_index ps (as ! l) = None \<longrightarrow> fs ! k < fs ! l)"
    using rest_assignedD(5) [OF r] by simp
  show "\<forall>j. (Some i = None \<longrightarrow> i \<noteq> j) \<and> (\<forall>k < length as. named_index ps (as ! k) = None \<longrightarrow> fs ! k \<noteq> j) \<longrightarrow> ms' ! j = ms ! j"
    using rest_assignedD(6) [OF r] by simp
qed (simp_all add: rest_assignedD(1,2) [OF r])

lemma rest_assigned_slot:
  assumes r: "rest_assigned ps as (s + 1) (ms[s := push_value (used_value a) (ms ! s)]) fs ms'"
    and "named_index ps a = None" and "c \<le> s" and "s < length ps" and "mapped_values (ms ! s) = []" and "length ms = length ps"
  shows "rest_assigned ps (a # as) c ms (s # fs) ms'"
proof -
  note d = rest_assignedD [OF r]
  have later: "s < fs ! k" if "k < length as" "named_index ps (as ! k) = None" for k
    using d(4) [OF that] by simp
  have here: "ms' ! s = push_value (used_value a) (ms ! s)"
    using d(6) [of s] later assms(4,6) by (metis less_irrefl nth_list_update_eq)
  show ?thesis
    unfolding rest_assigned_def length_Cons All_less_Suc2 nth_Cons_0 nth_Cons_Suc assms(2) option.case
  proof (intro conjI)
    show "\<forall>k < length as. case named_index ps (as ! k) of Some i \<Rightarrow> fs ! k = i
        | None \<Rightarrow> c \<le> fs ! k \<and> fs ! k < length ps \<and> mapped_values (ms ! (fs ! k)) = [] \<and>
            ms' ! (fs ! k) = push_value (used_value (as ! k)) (ms ! (fs ! k))"
    proof (intro allI impI)
      fix k assume k: "k < length as"
      show "case named_index ps (as ! k) of Some i \<Rightarrow> fs ! k = i
        | None \<Rightarrow> c \<le> fs ! k \<and> fs ! k < length ps \<and> mapped_values (ms ! (fs ! k)) = [] \<and>
            ms' ! (fs ! k) = push_value (used_value (as ! k)) (ms ! (fs ! k))"
      proof (cases "named_index ps (as ! k)")
        case None
        then show ?thesis using d(4) [OF k None] later [OF k None] assms(3) by simp
      qed (use d(3) [OF k] in simp)
    qed
    show "\<forall>l < length as. (None = None \<longrightarrow> named_index ps (as ! l) = None \<longrightarrow> s < fs ! l) \<and>
        (\<forall>k < l. named_index ps (as ! k) = None \<longrightarrow> named_index ps (as ! l) = None \<longrightarrow> fs ! k < fs ! l)"
      using d(5) later by blast
    show "\<forall>j. (None = None \<longrightarrow> s \<noteq> j) \<and> (\<forall>k < length as. named_index ps (as ! k) = None \<longrightarrow> fs ! k \<noteq> j) \<longrightarrow> ms' ! j = ms ! j"
      using d(6) by simp
  qed (use d(1,2) here assms(3-6) in simp_all)
qed

lemma next_named_bound:
  "(case List.map_filter (named_index ps) as of [] \<Rightarrow> length ps | i # _ \<Rightarrow> i) \<le> length ps"
proof (cases "List.map_filter (named_index ps) as")
  case (Cons i rest)
  then have "i \<in> set (List.map_filter (named_index ps) as)" by simp
  then show ?thesis using Cons named_index_SomeD(1) by (auto simp: map_filter_def less_imp_le)
qed simp

lemma place_rest_assigned:
  "place_rest ps as c ms = Some ms' \<Longrightarrow> length ms = length ps \<Longrightarrow> \<exists>fs. rest_assigned ps as c ms fs ms'"
proof (induction as arbitrary: c ms)
  case Nil
  then show ?case by (simp add: rest_assigned_def)
next
  case (Cons a as)
  show ?case
  proof (cases "named_index ps a")
    case (Some i)
    then obtain fs where "rest_assigned ps as (max c (i + 1)) ms fs ms'" using Cons by auto
    from rest_assigned_named [OF this Some max.cobounded1] show ?thesis by blast
  next
    case None
    define stop where "stop = (case List.map_filter (named_index ps) as of [] \<Rightarrow> length ps | i # _ \<Rightarrow> i)"
    obtain s where s: "find (\<lambda>i. mapped_values (ms ! i) = []) [c..<stop] = Some s"
      "place_rest ps as (s + 1) (ms[s := push_value (used_value a) (ms ! s)]) = Some ms'"
      using Cons.prems(1) None by (auto simp: stop_def [symmetric] used_value_def Let_def split: option.splits)
    then obtain fs where fs: "rest_assigned ps as (s + 1) (ms[s := push_value (used_value a) (ms ! s)]) fs ms'"
      using Cons.IH [OF s(2)] Cons.prems(2) by auto
    note f = find_upt_SomeD [OF s(1)]
    have "s < length ps" using f(2) next_named_bound [of ps as] by (simp add: stop_def)
    from rest_assigned_slot [OF fs None f(1) this f(3) Cons.prems(2)] show ?thesis by blast
  qed
qed

text \<open>Both loops together.\<close>

lemma placed_assigned:
  assumes apart: "names_apart ps as"
    and p: "place_rest ps as 0 (fold (place_named ps) as (replicate (length ps) empty_entry)) = Some ms"
  shows "\<exists>fs. assigned ps as fs ms"
proof -
  let ?ms = "fold (place_named ps) as (replicate (length ps) empty_entry)"
  have "\<forall>a \<in> set as. \<forall>i. named_index ps a = Some i \<longrightarrow> replicate (length ps) empty_entry ! i = empty_entry"
    by (auto dest: named_index_SomeD(1))
  note named = place_named_nth [OF apart length_replicate this]
  obtain fs where r: "rest_assigned ps as 0 ?ms fs ms" using place_rest_assigned [OF p named(1)] by blast
  note d = rest_assignedD [OF r]
  have empty: "?ms ! j = empty_entry" if "\<And>a. a \<in> set as \<Longrightarrow> named_index ps a \<noteq> Some j" "j < length ps" for j
    using named(3) [OF that(1)] that(2) by simp
  have filled: "named_index ps a \<noteq> Some (fs ! k)" if "k < length as" "named_index ps (as ! k) = None" "a \<in> set as" for a k
    using d(4) [OF that(1,2)] named(2) [OF that(3)] by (auto simp: entry_of_def)
  have bound: "fs ! k < length ps" if "k < length as" for k
    using d(3,4) [OF that] named_index_SomeD(1) by (cases "named_index ps (as ! k)") auto
  have untouched: "ms ! j = ?ms ! j" if "\<And>k. k < length as \<Longrightarrow> named_index ps (as ! k) = None \<Longrightarrow> fs ! k \<noteq> j" for j
    using d(6) that by blast
  have entry: "ms ! (fs ! k) = entry_of ps (as ! k)" if k: "k < length as" for k
  proof (cases "named_index ps (as ! k)")
    case None
    then have "?ms ! (fs ! k) = empty_entry" using empty filled [OF k None] bound [OF k] by blast
    then show ?thesis using d(4) [OF k None] None by (simp add: entry_of_def push_value_def)
  next
    case (Some i)
    have "ms ! i = ?ms ! i" using untouched filled Some k by (metis nth_mem)
    then show ?thesis using d(3) [OF k Some] named(2) [OF nth_mem [OF k] Some] by simp
  qed
  have apart_nth: "named_index ps (as ! k) \<noteq> named_index ps (as ! l)" if "k < l" "l < length as" "named_index ps (as ! k) \<noteq> None" for k l
    using apart that by (simp add: names_apart_def sorted_wrt_iff_nth_less)
  have less: "fs ! k \<noteq> fs ! l" if "k < l" "l < length as" for k l
    using that d(3,5) filled apart_nth
    by (cases "named_index ps (as ! k)"; cases "named_index ps (as ! l)") (metis less_trans nat_neq_iff nth_mem option.inject option.distinct(1))+
  have "distinct fs" unfolding distinct_conv_nth d(1) using less by (metis nat_neq_iff)
  moreover have "ms ! j = empty_entry" if "j < length ps" "j \<notin> set fs" for j
  proof -
    have not: "fs ! k \<noteq> j" if "k < length as" for k using that \<open>j \<notin> set fs\<close> d(1) by (metis nth_mem)
    then have "named_index ps a \<noteq> Some j" if "a \<in> set as" for a
      using that d(3) by (metis in_set_conv_nth)
    then show ?thesis using untouched [of j] not empty [of j] that(1) by simp
  qed
  ultimately have "assigned ps as fs ms"
    using d(1,2,3,5) named(1) entry bound by (auto simp: assigned_def in_set_conv_nth)
  then show ?thesis by blast
qed

fun filled :: "nat \<Rightarrow> parsed_argument list \<Rightarrow> mapped_argument list \<Rightarrow> mapped_argument list" where
  "filled n [] ms = ms"
| "filled n (a # as) ms = filled (Suc n) as (ms[n := push_value (arg_value a) (ms ! n)])"

lemma positional_loop:
  "n + length as \<le> length ms \<Longrightarrow>
   try_for (\<lambda>(i, a). push_at i (push_value (arg_value a))) (enumerate n as) ms = Ret (filled n as ms)"
  by (induction as arbitrary: n ms) (auto simp: push_at_def)

lemma filled_nth:
  "n + length as \<le> length ms \<Longrightarrow> length (filled n as ms) = length ms \<and>
   (\<forall>k < length as. filled n as ms ! (n + k) = push_value (arg_value (as ! k)) (ms ! (n + k))) \<and>
   (\<forall>j. j < n \<or> n + length as \<le> j \<longrightarrow> filled n as ms ! j = ms ! j)"
proof (induction as arbitrary: n ms)
  case (Cons a as)
  let ?ms = "ms[n := push_value (arg_value a) (ms ! n)]"
  have IH: "length (filled (Suc n) as ?ms) = length ms"
    "\<And>k. k < length as \<Longrightarrow> filled (Suc n) as ?ms ! (Suc n + k) = push_value (arg_value (as ! k)) (?ms ! (Suc n + k))"
    "\<And>j. j < Suc n \<or> Suc n + length as \<le> j \<Longrightarrow> filled (Suc n) as ?ms ! j = ?ms ! j"
    using Cons.IH [of "Suc n" ?ms] Cons.prems by auto
  have n: "n < length ms" using Cons.prems by simp
  have "filled n (a # as) ms ! (n + k) = push_value (arg_value ((a # as) ! k)) (ms ! (n + k))" if "k < length (a # as)" for k
  proof (cases k)
    case 0
    then show ?thesis using IH(3) [of n] n by simp
  next
    case (Suc m)
    then show ?thesis using IH(2) [of m] that by simp
  qed
  then show ?case using IH(1,3) by simp
qed simp

lemma positional_assigned:
  assumes "\<not> list_ex (\<lambda>a. arg_kind a = NamedArgument) as" and "length as \<le> length ps"
  shows "assigned ps as [0..<length as] (filled 0 as (replicate (length ps) empty_entry))"
proof -
  have "named_index ps a = None \<and> used_value a = arg_value a" if "a \<in> set as" for a
    using assms(1) that by (auto simp: list_ex_iff named_index_def used_value_def)
  then show ?thesis
    using filled_nth [of 0 as "replicate (length ps) empty_entry"] assms(2) by (auto simp: assigned_def entry_of_def push_value_def)
qed

text \<open>
  C30. When the arguments of a call are assigned to the parameters of a function (no name twice, not more
  arguments than parameters), nothing is out of range, and in an assignment every argument has a
  parameter of its own: a named one the parameter of its name, the others in the order of the call, a
  name that is no parameter as part of the value.  Every parameter without an argument stays empty and
  is optional.
\<close>

theorem map_exact_arguments_assigns:
  assumes "\<not> duplicate_named_argument as" and "length as \<le> length ps"
  shows "\<exists>found. map_exact_arguments ps as = (Ret found :: ('e, mapped_argument list option) outcome) \<and>
    (\<forall>ms. found = Some ms \<longrightarrow> (\<exists>fs. assigned ps as fs ms \<and> (\<forall>j < length ps. j \<notin> set fs \<longrightarrow> pdef_optional (ps ! j))))"
proof -
  have optional: "\<forall>j < length ps. j \<notin> set fs \<longrightarrow> pdef_optional (ps ! j)"
    if a: "assigned ps as fs ms" and r: "required_parameters_are_present ps ms" for fs ms
  proof (intro allI impI)
    fix j assume j: "j < length ps" "j \<notin> set fs"
    have len: "length ms = length ps" and "ms ! j = empty_entry" using a j by (simp_all add: assigned_def)
    then have "(ps ! j, empty_entry) \<in> set (zip ps ms)" using j(1) by (auto simp: set_zip)
    then show "pdef_optional (ps ! j)" using r by (auto simp: required_parameters_are_present_def list_all_iff)
  qed
  show ?thesis
  proof (cases "list_ex (\<lambda>a. arg_kind a = NamedArgument) as")
    case True
    have "names_apart ps as" using duplicate_from_names(1) assms(1) by (simp add: duplicate_named_argument_def)
    note placed = placed_assigned [OF this]
    show ?thesis
    proof (rule exI, rule conjI)
      show "map_exact_arguments ps as = Ret (case place_rest ps as 0 (fold (place_named ps) as (replicate (length ps) empty_entry)) of
          None \<Rightarrow> None | Some ms \<Rightarrow> if required_parameters_are_present ps ms then Some ms else None)"
        using True by (simp add: map_exact_arguments_def Let_def)
      show "\<forall>ms. (case place_rest ps as 0 (fold (place_named ps) as (replicate (length ps) empty_entry)) of
          None \<Rightarrow> None | Some ms \<Rightarrow> if required_parameters_are_present ps ms then Some ms else None) = Some ms \<longrightarrow>
        (\<exists>fs. assigned ps as fs ms \<and> (\<forall>j < length ps. j \<notin> set fs \<longrightarrow> pdef_optional (ps ! j)))"
      proof (intro allI impI)
        fix ms assume "(case place_rest ps as 0 (fold (place_named ps) as (replicate (length ps) empty_entry)) of
          None \<Rightarrow> None | Some ms \<Rightarrow> if required_parameters_are_present ps ms then Some ms else None) = Some ms"
        then have "place_rest ps as 0 (fold (place_named ps) as (replicate (length ps) empty_entry)) = Some ms"
          "required_parameters_are_present ps ms" by (auto split: option.splits if_splits)
        then show "\<exists>fs. assigned ps as fs ms \<and> (\<forall>j < length ps. j \<notin> set fs \<longrightarrow> pdef_optional (ps ! j))"
          using placed optional by blast
      qed
    qed
  next
    case False
    let ?ms = "filled 0 as (replicate (length ps) empty_entry)"
    note a = positional_assigned [OF False assms(2)]
    show ?thesis
    proof (rule exI, rule conjI)
      show "map_exact_arguments ps as = Ret (if required_parameters_are_present ps ?ms then Some ?ms else None)"
        using False assms(2) by (simp add: map_exact_arguments_def Let_def positional_loop)
      show "\<forall>ms. (if required_parameters_are_present ps ?ms then Some ?ms else None) = Some ms \<longrightarrow>
        (\<exists>fs. assigned ps as fs ms \<and> (\<forall>j < length ps. j \<notin> set fs \<longrightarrow> pdef_optional (ps ! j)))"
        using a optional [OF a] by (metis option.discI option.inject)
    qed
  qed
qed

subsection \<open>The children of a call\<close>

text \<open>Children belong to the arguments in order, each to one, and an omitted argument has none.\<close>

definition argument_ok :: "function_argument \<Rightarrow> bool" where
  "argument_ok a \<longleftrightarrow> str_trim (parameter_name a) \<noteq> [] \<and> (\<forall>n. argument_name a = Some n \<longrightarrow> str_trim n \<noteq> []) \<and>
     (omitted a \<longleftrightarrow> child_count a = 0) \<and> (omitted a \<longrightarrow> argument_name a = None)"

definition children_ok :: "function_argument list \<Rightarrow> nat \<Rightarrow> nat \<Rightarrow> bool" where
  "children_ok as first stop \<longleftrightarrow> (\<forall>a \<in> set as. argument_ok a) \<and> distinct (map parameter_name as) \<and>
     (\<forall>i < length as. child_start (as ! i) = first + sum_list (map child_count (take i as))) \<and>
     first + sum_list (map child_count as) = stop"

lemma children_ok_Cons:
  "children_ok (a # as) first stop \<longleftrightarrow> argument_ok a \<and> parameter_name a \<notin> set (map parameter_name as) \<and> child_start a = first \<and>
     children_ok as (first + child_count a) stop"
  unfolding children_ok_def length_Cons All_less_Suc2 by (auto simp: add.assoc)

lemma validate_arguments_Ret_iff:
  assumes "children \<le> u64_max"
  shows "try_for (validate_argument children) as (names, first) = Ret (names', stop) \<and> stop \<le> children \<longleftrightarrow>
    children_ok as first stop \<and> set (map parameter_name as) \<inter> set names = {} \<and> names' = rev (map parameter_name as) @ names \<and> stop \<le> children"
proof (induction as arbitrary: names first)
  case Nil
  then show ?case by (auto simp: children_ok_def)
next
  case (Cons a as)
  have step: "validate_argument children a (names, first) = Ret (n, s) \<longleftrightarrow> argument_ok a \<and> parameter_name a \<notin> set names \<and>
      child_start a = first \<and> s = first + child_count a \<and> s \<le> children \<and> n = parameter_name a # names" for n s
    using assms
    by (auto simp: validate_argument_def argument_ok_def checked_add_def outcome_simps split: option.splits)
  show ?case
  proof (cases "validate_argument children a (names, first) = Ret (parameter_name a # names, first + child_count a)")
    case True
    then have "argument_ok a" "parameter_name a \<notin> set names" "child_start a = first" using step by blast+
    then show ?thesis using True Cons.IH [of "parameter_name a # names" "first + child_count a"] by (auto simp: children_ok_Cons)
  next
    case False
    have not: "\<not> (argument_ok a \<and> parameter_name a \<notin> set names \<and> child_start a = first \<and> first + child_count a \<le> children)"
      using False step by blast
    have "validate_argument children a (names, first) \<noteq> Ret x" for x using False step by (cases x) auto
    moreover have "first + child_count a \<le> stop" if "children_ok as (first + child_count a) stop"
      using that by (simp add: children_ok_def)
    ultimately show ?thesis using not by (auto simp: children_ok_Cons outcome_simps)
  qed
qed

text \<open>
  C33. The children of a call are accepted exactly if its identities are not blank, the parameter names
  are not blank and distinct, the arguments own the children from the first to the last in order and
  without a gap, and exactly the arguments without children are omitted, without a name.  Nothing panics.
\<close>

theorem validate_children_exact:
  assumes "children \<le> u64_max"
  shows "validate_children f children \<noteq> Panic \<and>
    (validate_children f children = Ret () \<longleftrightarrow>
       str_trim (fcall_name f) \<noteq> [] \<and> str_trim (fcall_definition_id f) \<noteq> [] \<and> str_trim (fcall_registration_id f) \<noteq> [] \<and>
       children_ok (fcall_arguments f) 0 children)"
proof
  have step: "validate_argument children a x \<noteq> Panic" for a x
    by (cases x) (auto simp: validate_argument_def outcome_simps)
  have "try_for (validate_argument children) as x \<noteq> Panic" for as x
    by (induction as arbitrary: x) (auto simp: outcome_simps step)
  then show "validate_children f children \<noteq> Panic" by (auto simp: validate_children_def outcome_simps split: prod.splits)
  have "(\<exists>names. try_for (validate_argument children) as ([], 0) = Ret (names, children)) \<longleftrightarrow> children_ok as 0 children" for as
    using validate_arguments_Ret_iff [OF assms, of as "[]" 0 _ children] by auto
  then show "validate_children f children = Ret () \<longleftrightarrow>
       str_trim (fcall_name f) \<noteq> [] \<and> str_trim (fcall_definition_id f) \<noteq> [] \<and> str_trim (fcall_registration_id f) \<noteq> [] \<and>
       children_ok (fcall_arguments f) 0 children"
    by (auto simp: validate_children_def outcome_simps split: if_splits)
qed

end
