(* ===== verification/Expression_List.thy ===== *)
theory Expression_List
  imports Match_Scan
begin

text \<open>
  \<open>skript-parser/src/expression_list.rs\<close>: an expression list is split at its top-level commas and
  words \<open>and\<close>, \<open>or\<close>, \<open>nor\<close>, and the delimiters decide whether it is a conjunction.
\<close>

datatype list_conjunction = AndList | OrList

datatype list_delimiter = CommaDelimiter | AndDelimiter | OrDelimiter | NorDelimiter

record raw_list =
  pieces :: "text_range list"
  delimiters :: "list_delimiter list"

subsection \<open>Conjunctions\<close>

definition incoming_conjunction :: "list_delimiter \<Rightarrow> list_conjunction option" where
  "incoming_conjunction d = (case d of
     CommaDelimiter \<Rightarrow> None | AndDelimiter \<Rightarrow> Some AndList | NorDelimiter \<Rightarrow> Some AndList | OrDelimiter \<Rightarrow> Some OrList)"

definition conjunction_step :: "raw_list \<Rightarrow> nat \<Rightarrow> list_conjunction option \<Rightarrow> ('e, list_conjunction option) outcome" where
  "conjunction_step l first_piece mode =
     (if first_piece = 0 \<or> first_piece - 1 \<ge> length (delimiters l) then Panic
      else (case incoming_conjunction (delimiters l ! (first_piece - 1)) of
          None \<Rightarrow> Ret mode
        | Some i \<Rightarrow> Ret (Some (case mode of None \<Rightarrow> i | Some m \<Rightarrow> if m = i then m else AndList))))"

definition conjunction_for_children :: "raw_list \<Rightarrow> nat list \<Rightarrow> ('e, list_conjunction) outcome" where
  "conjunction_for_children l child_starts =
     obind (try_for (conjunction_step l) (drop 1 child_starts) None) (\<lambda>mode.
     Ret (case mode of None \<Rightarrow> AndList | Some m \<Rightarrow> m))"

subsection \<open>Delimiters\<close>

definition is_java_regex_whitespace :: "nat \<Rightarrow> bool" where
  "is_java_regex_whitespace c \<longleftrightarrow> c \<in> {32, 9, 10, 11, 12, 13}"

function skip_whitespace :: "str \<Rightarrow> nat \<Rightarrow> nat \<Rightarrow> nat" where
  "skip_whitespace input cursor end =
     (case next_char input cursor end of
        None \<Rightarrow> cursor
      | Some (c, w) \<Rightarrow> if is_java_regex_whitespace c then skip_whitespace input (cursor + w) end else cursor)"
  by pat_completeness auto
termination
  by (relation "measure (\<lambda>(_, cursor, end). end - cursor)") (auto dest: next_char_width)

declare skip_whitespace.simps [simp del]

definition ascii_lower :: "char \<Rightarrow> char" where
  "ascii_lower c = (if 65 \<le> byte c \<and> byte c \<le> 90 then char_of (byte c + 32) else c)"

definition eq_ignore_ascii_case :: "str \<Rightarrow> str \<Rightarrow> bool" where
  "eq_ignore_ascii_case a b \<longleftrightarrow> map ascii_lower a = map ascii_lower b"

definition starts_with_word :: "str \<Rightarrow> str \<Rightarrow> bool" where
  "starts_with_word remaining word = (case str_slice (range_new 0 (length word)) remaining of
     None \<Rightarrow> False | Some s \<Rightarrow> eq_ignore_ascii_case s word)"

definition list_operator_at :: "str \<Rightarrow> nat \<Rightarrow> nat \<Rightarrow> (nat \<times> list_delimiter) option" where
  "list_operator_at input start end = (case str_slice (range_new start end) input of
     None \<Rightarrow> None
   | Some remaining \<Rightarrow>
       map_option (\<lambda>(word, d). (start + length word, d)) (find (\<lambda>(word, d). starts_with_word remaining word)
         [(''and'', AndDelimiter), (''nor'', NorDelimiter), (''or'', OrDelimiter)]))"

definition whitespace_at :: "str \<Rightarrow> nat \<Rightarrow> nat \<Rightarrow> bool" where
  "whitespace_at input cursor end = (case next_char input cursor end of None \<Rightarrow> False | Some (c, w) \<Rightarrow> is_java_regex_whitespace c)"

definition comma_delimiter :: "str \<Rightarrow> nat \<Rightarrow> nat \<Rightarrow> nat \<times> list_delimiter" where
  "comma_delimiter input comma end =
     (let word_start = skip_whitespace input (comma + 1) end in
      case list_operator_at input word_start end of
        Some (word_end, d) \<Rightarrow>
          if word_start > comma + 1 \<and> word_end < end \<and> whitespace_at input word_end end
          then (skip_whitespace input word_end end, d) else (word_start, CommaDelimiter)
      | None \<Rightarrow> (word_start, CommaDelimiter))"

definition word_delimiter :: "str \<Rightarrow> nat \<Rightarrow> nat \<Rightarrow> (nat \<times> list_delimiter) option" where
  "word_delimiter input whitespace end =
     (case list_operator_at input (skip_whitespace input whitespace end) end of
        None \<Rightarrow> None
      | Some (word_end, d) \<Rightarrow>
          if word_end \<ge> end \<or> \<not> whitespace_at input word_end end then None
          else Some (skip_whitespace input word_end end, d))"

subsection \<open>Splitting\<close>

definition push_piece :: "str \<Rightarrow> nat \<Rightarrow> nat \<Rightarrow> text_range list \<Rightarrow> text_range list option" where
  "push_piece input start end ps = (case str_slice (range_new start end) input of
     None \<Rightarrow> None
   | Some source \<Rightarrow>
       (let trimmed = java_trim_range source in
        if range_is_empty trimmed then None
        else Some (ps @ [range_new (start + range_start trimmed) (start + range_end trimmed)])))"

text \<open>The end of a string, a variable or a parenthesis; the end of the range if it is not closed.\<close>

definition past :: "nat option \<Rightarrow> nat \<Rightarrow> nat" where
  "past close end = (case close of None \<Rightarrow> end | Some q \<Rightarrow> q + 1)"

lemma skip_whitespace_ge: "cursor \<le> skip_whitespace input cursor end"
proof (induction input cursor "end" rule: skip_whitespace.induct)
  case (1 input cursor "end")
  then show ?case by (subst skip_whitespace.simps) (fastforce split: option.split)
qed

lemma list_operator_at_SomeD:
  assumes "list_operator_at input start end = Some (q, d)"
  shows "start < q"
  using assms by (auto simp: list_operator_at_def split: option.splits if_splits)

lemma comma_delimiter_greater:
  assumes "comma_delimiter input comma end = (q, d)"
  shows "comma < q"
proof (cases "list_operator_at input (skip_whitespace input (comma + 1) end) end")
  case None
  then show ?thesis using assms skip_whitespace_ge [of "comma + 1" input "end"] by (simp add: comma_delimiter_def)
next
  case (Some x)
  obtain p e where x: "x = (p, e)" by (cases x)
  have "comma < skip_whitespace input (comma + 1) end" "comma < skip_whitespace input p end"
    using skip_whitespace_ge [of "comma + 1" input "end"] skip_whitespace_ge [of p input "end"] list_operator_at_SomeD [OF Some [unfolded x]]
    by linarith+
  then show ?thesis using assms Some by (auto simp: comma_delimiter_def x Let_def split: if_splits)
qed

lemma word_delimiter_SomeD:
  assumes "word_delimiter input cursor end = Some (q, d)"
  obtains p where "list_operator_at input (skip_whitespace input cursor end) end = Some (p, d)" "p < end" "whitespace_at input p end"
    "q = skip_whitespace input p end" "cursor < q"
proof -
  obtain p where p: "list_operator_at input (skip_whitespace input cursor end) end = Some (p, d)" "p < end" "whitespace_at input p end"
    "q = skip_whitespace input p end"
    using assms by (auto simp: word_delimiter_def split: option.splits if_splits)
  moreover have "cursor < q"
    using skip_whitespace_ge [of cursor input "end"] skip_whitespace_ge [of p input "end"] list_operator_at_SomeD [OF p(1)] p(4) by linarith
  ultimately show thesis using that by blast
qed

lemma past_greater: "(\<And>q. close = Some q \<Longrightarrow> cursor \<le> q) \<Longrightarrow> cursor < end \<Longrightarrow> cursor < past close end"
  by (auto simp: past_def split: option.split intro: le_imp_less_Suc)

lemma parenthesis_end_ge: "parenthesis_end input depth cursor end = Some q \<Longrightarrow> cursor \<le> q \<and> q < end"
proof (induction input depth cursor "end" rule: parenthesis_end.induct)
  case (1 input depth cursor "end")
  from 1(6) 1(1-5) show ?case
    by (subst (asm) parenthesis_end.simps)
      (fastforce simp: find_quote_end_def find_variable_end_def split: if_splits option.splits
        dest: next_char_width quote_end_bounds variable_end_bounds)
qed

lemma past_decreases:
  assumes "cursor < end" and "close \<in> {find_quote_end input (cursor + w) end, find_variable_end input (cursor + w) end,
    find_parenthesis_end input (cursor + w) end}"
  shows "cursor < past close end"
proof (rule past_greater [OF _ assms(1)])
  show "cursor \<le> q" if "close = Some q" for q
    using assms(2) that quote_end_bounds [of input False "cursor + w" "end" q] variable_end_bounds [of input 0 "cursor + w" "end" q]
      parenthesis_end_ge [of input 0 "cursor + w" "end" q]
    by (auto simp: find_quote_end_def find_variable_end_def find_parenthesis_end_def)
qed

function split_loop ::
    "str \<Rightarrow> nat \<Rightarrow> nat \<Rightarrow> nat \<Rightarrow> text_range list \<Rightarrow> list_delimiter list \<Rightarrow> (nat \<times> text_range list \<times> list_delimiter list) option" where
  "split_loop input end part_start cursor ps ds =
     (if cursor < end then
        (case next_char input cursor end of
           None \<Rightarrow> None
         | Some (c, w) \<Rightarrow>
             if c = byte CHR 0x22 then split_loop input end part_start (past (find_quote_end input (cursor + w) end) end) ps ds
             else if c = byte CHR 0x7B then split_loop input end part_start (past (find_variable_end input (cursor + w) end) end) ps ds
             else if c = byte CHR ''('' then split_loop input end part_start (past (find_parenthesis_end input (cursor + w) end) end) ps ds
             else if c = byte CHR '','' then
               (case comma_delimiter input cursor end of (q, d) \<Rightarrow>
                case push_piece input part_start cursor ps of
                  None \<Rightarrow> None
                | Some ps \<Rightarrow> split_loop input end q q ps (ds @ [d]))
             else if is_java_regex_whitespace c then
               (case word_delimiter input cursor end of
                  Some (q, d) \<Rightarrow>
                    (case push_piece input part_start cursor ps of
                       None \<Rightarrow> None
                     | Some ps \<Rightarrow> split_loop input end q q ps (ds @ [d]))
                | None \<Rightarrow> split_loop input end part_start (cursor + w) ps ds)
             else split_loop input end part_start (cursor + w) ps ds)
      else Some (part_start, ps, ds))"
  by pat_completeness auto
termination
  by (relation "measure (\<lambda>(_, end, _, cursor, _, _). end - cursor)")
    (auto dest: next_char_width comma_delimiter_greater [OF sym] intro!: diff_less_mono2 past_decreases elim!: word_delimiter_SomeD)

declare split_loop.simps [simp del]

definition split_expression_list :: "str \<Rightarrow> text_range \<Rightarrow> raw_list option" where
  "split_expression_list input r =
     (case split_loop input (range_end r) (range_start r) (range_start r) [] [] of
        None \<Rightarrow> None
      | Some (part_start, ps, ds) \<Rightarrow>
          if ds = [] then None
          else (case push_piece input part_start (range_end r) ps of
              None \<Rightarrow> None
            | Some ps \<Rightarrow> Some \<lparr>pieces = ps, delimiters = ds\<rparr>))"

end
