(* ===== verification/List_Syntax.thy ===== *)
theory List_Syntax
  imports Expression_List Match_Context
begin

text \<open>
  The lexical grammar of expression lists, over positions and the characters that stand there, without
  the functions of the program: strings, variables and parentheses as balanced units, whitespace, and
  the delimiters.  The lemmas show that the scanners of the program decide it.
\<close>

subsection \<open>Units\<close>

text \<open>
  \<open>string_to b i q\<close>: the string whose text goes on at \<open>i\<close> (within an expression between percent signs
  if \<open>b\<close>) is closed by the quote at \<open>q\<close>; a doubled quote stands for a quote.
\<close>

inductive string_to :: "str \<Rightarrow> nat \<Rightarrow> bool \<Rightarrow> nat \<Rightarrow> nat \<Rightarrow> bool" for input "end" where
  Close: "next_char input i end = Some (34, w) \<Longrightarrow> \<not> byte_is input (i + w) CHR 0x22 \<Longrightarrow> string_to input end False i i"
| Doubled: "next_char input i end = Some (34, w) \<Longrightarrow> byte_is input (i + w) CHR 0x22 \<Longrightarrow> string_to input end False (i + w + 1) q \<Longrightarrow>
    string_to input end False i q"
| Percent: "next_char input i end = Some (37, w) \<Longrightarrow> string_to input end (\<not> b) (i + w) q \<Longrightarrow> string_to input end b i q"
| Text: "next_char input i end = Some (c, w) \<Longrightarrow> c \<noteq> 37 \<Longrightarrow> c \<noteq> 34 \<or> b \<Longrightarrow> string_to input end b (i + w) q \<Longrightarrow> string_to input end b i q"

text \<open>A variable: balanced braces.\<close>

inductive variable_to :: "str \<Rightarrow> nat \<Rightarrow> nat \<Rightarrow> nat \<Rightarrow> bool" for input "end" where
  Close: "next_char input i end = Some (125, w) \<Longrightarrow> variable_to input end i i"
| Nested: "next_char input i end = Some (123, w) \<Longrightarrow> variable_to input end (i + w) m \<Longrightarrow> variable_to input end (m + 1) q \<Longrightarrow>
    variable_to input end i q"
| Text: "next_char input i end = Some (c, w) \<Longrightarrow> c \<notin> {123, 125} \<Longrightarrow> variable_to input end (i + w) q \<Longrightarrow> variable_to input end i q"

text \<open>A parenthesis: balanced parentheses, with strings and variables in it as units.\<close>

inductive parenthesis_to :: "str \<Rightarrow> nat \<Rightarrow> nat \<Rightarrow> nat \<Rightarrow> bool" for input "end" where
  Close: "next_char input i end = Some (41, w) \<Longrightarrow> parenthesis_to input end i i"
| Nested: "next_char input i end = Some (40, w) \<Longrightarrow> parenthesis_to input end (i + w) m \<Longrightarrow> parenthesis_to input end (m + 1) q \<Longrightarrow>
    parenthesis_to input end i q"
| String: "next_char input i end = Some (34, w) \<Longrightarrow> string_to input end False (i + w) m \<Longrightarrow> parenthesis_to input end (m + 1) q \<Longrightarrow>
    parenthesis_to input end i q"
| Variable: "next_char input i end = Some (123, w) \<Longrightarrow> variable_to input end (i + w) m \<Longrightarrow> parenthesis_to input end (m + 1) q \<Longrightarrow>
    parenthesis_to input end i q"
| Text: "next_char input i end = Some (c, w) \<Longrightarrow> c \<notin> {34, 40, 41, 123} \<Longrightarrow> parenthesis_to input end (i + w) q \<Longrightarrow>
    parenthesis_to input end i q"

lemma string_to_code: "string_to input end b i q \<Longrightarrow> quote_end input b i end = Some q"
proof (induction rule: string_to.induct)
  case (Close i w)
  then show ?case by (subst quote_end.simps) (simp add: next_char_width)
next
  case (Doubled i w q)
  then show ?case by (subst quote_end.simps) (simp add: next_char_width)
next
  case (Percent i w b q)
  then show ?case by (subst quote_end.simps) (simp add: next_char_width)
next
  case (Text i c w b q)
  then show ?case by (subst quote_end.simps) (auto simp: next_char_width)
qed

lemma string_code_to: "quote_end input b i end = Some q \<Longrightarrow> string_to input end b i q"
proof (induction input b i "end" arbitrary: q rule: quote_end.induct)
  case (1 input b i "end")
  from 1(3) obtain c w where n: "next_char input i end = Some (c, w)" and lt: "i < end"
    by (subst (asm) quote_end.simps) (auto split: if_splits option.splits)
  note q = 1(3) [unfolded quote_end.simps [of input b i "end"]]
  show ?case
  proof (cases "c = byte CHR 0x22 \<and> \<not> b")
    case quote: True
    then have n34: "next_char input i end = Some (34, w)" using n by simp
    show ?thesis
    proof (cases "byte_is input (i + w) CHR 0x22")
      case True
      then have "quote_end input b (i + w + 1) end = Some q" using q lt n quote by simp
      from 1(1) [OF lt n refl quote True this] show ?thesis using string_to.Doubled [OF n34 True] quote by simp
    next
      case False
      then have "q = i" using q lt n quote by simp
      then show ?thesis using string_to.Close [OF n34 False] quote by simp
    qed
  next
    case other: False
    then have "quote_end input (if c = byte CHR ''%'' then \<not> b else b) (i + w) end = Some q" using q lt n by auto
    from 1(2) [OF lt n refl other this] show ?thesis
      using string_to.Percent [of input i "end" w b q] string_to.Text [of input i "end" c w b q] n other
      by (cases "c = 37") auto
  qed
qed

lemma string_to_iff: "string_to input end False i q \<longleftrightarrow> find_quote_end input i end = Some q"
  unfolding find_quote_end_def by (rule iffI [OF string_to_code string_code_to])

lemma ascii_width: "utf8_ok input \<Longrightarrow> next_char input i end = Some (c, w) \<Longrightarrow> c < 128 \<Longrightarrow> w = 1"
  using next_charD(9) [of input i "end" c w "char_of c"] by simp

lemma variable_to_bounds: "variable_to input end i q \<Longrightarrow> i \<le> q \<and> q < end"
  by (induction rule: variable_to.induct) (auto dest: next_char_width)

lemma variable_to_code:
  assumes ok: "utf8_ok input"
  shows "variable_to input end i m \<Longrightarrow> variable_end input d i end = (if d = 0 then Some m else variable_end input (d - 1) (m + 1) end)"
proof (induction arbitrary: d rule: variable_to.induct)
  case (Close i w)
  then show ?case using ascii_width [OF ok Close] by (subst variable_end.simps) (simp add: next_char_width)
next
  case (Nested i w m q)
  have "variable_end input d i end = variable_end input (d + 1) (i + w) end"
    using Nested.hyps(1) by (subst variable_end.simps) (simp add: next_char_width)
  then show ?case using Nested.IH(1) [of "d + 1"] Nested.IH(2) [of d] by simp
next
  case (Text i c w q)
  have "variable_end input d i end = variable_end input d (i + w) end"
    using Text.hyps by (subst variable_end.simps) (auto simp: next_char_width)
  then show ?case using Text.IH by simp
qed

lemma variable_code_to:
  assumes ok: "utf8_ok input"
  shows "variable_end input d i end = Some q \<Longrightarrow>
    \<exists>m. variable_to input end i m \<and> (if d = 0 then q = m else variable_end input (d - 1) (m + 1) end = Some q)"
proof (induction "end - i" arbitrary: i d q rule: less_induct)
  case less
  from less.prems obtain c w where n: "next_char input i end = Some (c, w)" and lt: "i < end"
    by (subst (asm) variable_end.simps) (auto split: if_splits option.splits)
  note q = less.prems [unfolded variable_end.simps [of input d i "end"]]
  have w: "0 < w" using next_char_width [OF n] by simp
  consider (close) "c = 125" | (nested) "c = 123" | (plain) "c \<notin> {123, 125}" by blast
  then show ?case
  proof cases
    case close
    then show ?thesis using q n lt variable_to.Close [of input i "end" w] ascii_width [OF ok n]
      by (intro exI [of _ i]) (auto split: if_splits)
  next
    case nested
    then have "variable_end input (d + 1) (i + w) end = Some q" using q n lt by simp
    then obtain m where m: "variable_to input end (i + w) m" "variable_end input d (m + 1) end = Some q"
      using less.hyps [of "i + w" "d + 1" q] lt w by fastforce
    have "i < m + 1" "m < end" using variable_to_bounds [OF m(1)] w by auto
    then obtain m' where "variable_to input end (m + 1) m'" "if d = 0 then q = m' else variable_end input (d - 1) (m' + 1) end = Some q"
      using less.hyps [of "m + 1" d q] m(2) lt by fastforce
    then show ?thesis using variable_to.Nested [OF _ m(1)] n nested by blast
  next
    case plain
    then have "variable_end input d (i + w) end = Some q" using q n lt by auto
    then obtain m where "variable_to input end (i + w) m" "if d = 0 then q = m else variable_end input (d - 1) (m + 1) end = Some q"
      using less.hyps [of "i + w" d q] lt w by fastforce
    then show ?thesis using variable_to.Text [OF n plain] by blast
  qed
qed

lemma variable_to_iff: "utf8_ok input \<Longrightarrow> variable_to input end i q \<longleftrightarrow> find_variable_end input i end = Some q"
  using variable_to_code [of input "end" i q 0] variable_code_to [of input 0 i "end" q] by (auto simp: find_variable_end_def)

lemma parenthesis_to_bounds: "parenthesis_to input end i q \<Longrightarrow> i \<le> q \<and> q < end"
proof (induction rule: parenthesis_to.induct)
  case (String i w m q)
  then show ?case using string_to_code [OF String.hyps(2)] quote_end_bounds by fastforce
next
  case (Variable i w m q)
  then show ?case using variable_to_bounds by fastforce
qed (auto dest: next_char_width)

lemma parenthesis_to_code:
  assumes ok: "utf8_ok input"
  shows "parenthesis_to input end i m \<Longrightarrow>
    parenthesis_end input d i end = (if d = 0 then Some m else parenthesis_end input (d - 1) (m + 1) end)"
proof (induction arbitrary: d rule: parenthesis_to.induct)
  case (Close i w)
  then show ?case using ascii_width [OF ok Close] by (subst parenthesis_end.simps) (simp add: next_char_width)
next
  case (Nested i w m q)
  have "parenthesis_end input d i end = parenthesis_end input (d + 1) (i + w) end"
    using Nested.hyps(1) by (subst parenthesis_end.simps) (simp add: next_char_width)
  then show ?case using Nested.IH(1) [of "d + 1"] Nested.IH(2) [of d] by simp
next
  case (String i w m q)
  have "w = 1" using ascii_width [OF ok String.hyps(1)] by simp
  then have "parenthesis_end input d i end = parenthesis_end input d (m + 1) end"
    using String.hyps(1,2) string_to_iff by (subst parenthesis_end.simps) (simp add: next_char_width)
  then show ?case using String.IH by simp
next
  case (Variable i w m q)
  have "parenthesis_end input d i end = parenthesis_end input d (m + 1) end"
    using Variable.hyps(1,2) variable_to_iff [OF ok] by (subst parenthesis_end.simps) (simp add: next_char_width)
  then show ?case using Variable.IH by simp
next
  case (Text i c w q)
  have "parenthesis_end input d i end = parenthesis_end input d (i + w) end"
    using Text.hyps by (subst parenthesis_end.simps) (auto simp: next_char_width)
  then show ?case using Text.IH by simp
qed

lemma parenthesis_code_to:
  assumes ok: "utf8_ok input"
  shows "parenthesis_end input d i end = Some q \<Longrightarrow>
    \<exists>m. parenthesis_to input end i m \<and> (if d = 0 then q = m else parenthesis_end input (d - 1) (m + 1) end = Some q)"
proof (induction "end - i" arbitrary: i d q rule: less_induct)
  case less
  from less.prems obtain c w where n: "next_char input i end = Some (c, w)" and lt: "i < end"
    by (subst (asm) parenthesis_end.simps) (auto split: if_splits option.splits)
  note q = less.prems [unfolded parenthesis_end.simps [of input d i "end"]]
  have w: "0 < w" using next_char_width [OF n] by simp
  have step: "\<exists>m. parenthesis_to input end j m \<and> (if d = 0 then q = m else parenthesis_end input (d - 1) (m + 1) end = Some q)"
    if "parenthesis_end input d j end = Some q" "i < j" for j
    using less.hyps [of j d q] that lt by fastforce
  consider (close) "c = 41" | (nested) "c = 40" | (string) "c = 34" | (variable) "c = 123" | (plain) "c \<notin> {34, 40, 41, 123}" by blast
  then show ?case
  proof cases
    case close
    then show ?thesis using q n lt parenthesis_to.Close [of input i "end" w] ascii_width [OF ok n]
      by (intro exI [of _ i]) (auto split: if_splits)
  next
    case nested
    then have "parenthesis_end input (d + 1) (i + w) end = Some q" using q n lt by simp
    then obtain m where m: "parenthesis_to input end (i + w) m" "parenthesis_end input d (m + 1) end = Some q"
      using less.hyps [of "i + w" "d + 1" q] lt w by fastforce
    have "i < m + 1" using parenthesis_to_bounds [OF m(1)] w by auto
    from step [OF m(2) this] show ?thesis using parenthesis_to.Nested [OF _ m(1)] n nested by blast
  next
    case string
    then have "w = 1" using ascii_width [OF ok n] by simp
    then obtain m where m: "find_quote_end input (i + w) end = Some m" "parenthesis_end input d (m + 1) end = Some q"
      using q n lt string by (auto split: option.splits)
    have t: "string_to input end False (i + w) m" using m(1) string_to_iff by simp
    have "i < m + 1" using m(1) quote_end_bounds w by (fastforce simp: find_quote_end_def)
    from step [OF m(2) this] show ?thesis using parenthesis_to.String [OF _ t] n string by blast
  next
    case variable
    then obtain m where m: "find_variable_end input (i + w) end = Some m" "parenthesis_end input d (m + 1) end = Some q"
      using q n lt by (auto split: option.splits)
    have t: "variable_to input end (i + w) m" using m(1) variable_to_iff [OF ok] by simp
    have "i < m + 1" using variable_to_bounds [OF t] w by auto
    from step [OF m(2) this] show ?thesis using parenthesis_to.Variable [OF _ t] n variable by blast
  next
    case plain
    then have "parenthesis_end input d (i + w) end = Some q" using q n lt by auto
    from step [OF this] show ?thesis using parenthesis_to.Text [OF n plain] w by fastforce
  qed
qed

lemma parenthesis_to_iff: "utf8_ok input \<Longrightarrow> parenthesis_to input end i q \<longleftrightarrow> find_parenthesis_end input i end = Some q"
  using parenthesis_to_code [of input "end" i q 0] parenthesis_code_to [of input 0 i "end" q] by (auto simp: find_parenthesis_end_def)

text \<open>
  The unit at a position: a string, a variable or a parenthesis as a whole, which takes the rest of the
  range if it is not closed, or any other character.
\<close>

inductive unit_at :: "str \<Rightarrow> nat \<Rightarrow> nat \<Rightarrow> nat \<Rightarrow> bool" for input "end" where
  String: "next_char input i end = Some (34, w) \<Longrightarrow> string_to input end False (i + w) q \<Longrightarrow> unit_at input end i (q + 1)"
| Variable: "next_char input i end = Some (123, w) \<Longrightarrow> variable_to input end (i + w) q \<Longrightarrow> unit_at input end i (q + 1)"
| Parenthesis: "next_char input i end = Some (40, w) \<Longrightarrow> parenthesis_to input end (i + w) q \<Longrightarrow> unit_at input end i (q + 1)"
| Unclosed: "next_char input i end = Some (c, w) \<Longrightarrow> c = 34 \<and> (\<nexists>q. string_to input end False (i + w) q) \<or>
    c = 123 \<and> (\<nexists>q. variable_to input end (i + w) q) \<or> c = 40 \<and> (\<nexists>q. parenthesis_to input end (i + w) q) \<Longrightarrow>
    unit_at input end i end"
| Character: "next_char input i end = Some (c, w) \<Longrightarrow> c \<notin> {34, 40, 123} \<Longrightarrow> unit_at input end i (i + w)"

subsection \<open>Whitespace and delimiters\<close>

definition blank_at :: "str \<Rightarrow> nat \<Rightarrow> nat \<Rightarrow> bool" where
  "blank_at input end i \<longleftrightarrow> (\<exists>w. \<exists>c \<in> {9, 10, 11, 12, 13, 32}. next_char input i end = Some (c, w))"

text \<open>All the whitespace from \<open>i\<close> on ends at \<open>j\<close>.\<close>

inductive blanks :: "str \<Rightarrow> nat \<Rightarrow> nat \<Rightarrow> nat \<Rightarrow> bool" for input "end" where
  Stop: "\<not> blank_at input end i \<Longrightarrow> blanks input end i i"
| Step: "blank_at input end i \<Longrightarrow> blanks input end (i + 1) j \<Longrightarrow> blanks input end i j"

text \<open>One of the words, in capitals or not.\<close>

definition in_case :: "char \<Rightarrow> char \<Rightarrow> bool" where
  "in_case x c \<longleftrightarrow> c = x \<or> byte c + 32 = byte x"

definition word_at :: "str \<Rightarrow> nat \<Rightarrow> nat \<Rightarrow> nat \<Rightarrow> list_delimiter \<Rightarrow> bool" where
  "word_at input end i q d \<longleftrightarrow> (\<exists>(w, d') \<in> {(''and'', AndDelimiter), (''nor'', NorDelimiter), (''or'', OrDelimiter)}.
     d = d' \<and> q = i + length w \<and> (\<exists>s. str_slice (range_new i end) input = Some s \<and> list_all2 in_case w (take (length w) s)))"

text \<open>A word with whitespace after it; the whitespace ends at \<open>q\<close>.\<close>

definition spaced_word :: "str \<Rightarrow> nat \<Rightarrow> nat \<Rightarrow> nat \<Rightarrow> list_delimiter \<Rightarrow> bool" where
  "spaced_word input end i q d \<longleftrightarrow> (\<exists>p. word_at input end i p d \<and> blank_at input end p \<and> blanks input end p q)"

inductive delimiter_from :: "str \<Rightarrow> nat \<Rightarrow> nat \<Rightarrow> nat \<Rightarrow> list_delimiter \<Rightarrow> bool" for input "end" where
  Word: "blank_at input end i \<Longrightarrow> blanks input end i s \<Longrightarrow> spaced_word input end s q d \<Longrightarrow> delimiter_from input end i q d"
| CommaWord: "next_char input i end = Some (44, w) \<Longrightarrow> blanks input end (i + 1) s \<Longrightarrow> i + 1 < s \<Longrightarrow>
    spaced_word input end s q d \<Longrightarrow> delimiter_from input end i q d"
| Comma: "next_char input i end = Some (44, w) \<Longrightarrow> blanks input end (i + 1) q \<Longrightarrow>
    \<not> (i + 1 < q \<and> (\<exists>q' d. spaced_word input end q q' d)) \<Longrightarrow> delimiter_from input end i q CommaDelimiter"

subsection \<open>The scanners of the program\<close>

lemma blank_at_iff: "blank_at input end i \<longleftrightarrow> whitespace_at input i end"
  by (auto simp: blank_at_def whitespace_at_def is_java_regex_whitespace_def split: option.split)

lemma blank_cases:
  assumes "utf8_ok input"
  obtains (blank) c where "blank_at input end i" "next_char input i end = Some (c, 1)" "is_java_regex_whitespace c"
  | (other) "\<not> blank_at input end i" "\<And>c w. next_char input i end = Some (c, w) \<Longrightarrow> \<not> is_java_regex_whitespace c"
proof (cases "blank_at input end i")
  case True
  then obtain c w where c: "next_char input i end = Some (c, w)" "c \<in> {9, 10, 11, 12, 13, 32}" by (auto simp: blank_at_def)
  then have "w = 1" using ascii_width [OF assms c(1)] by auto
  then show thesis using blank [of c] True c by (auto simp: is_java_regex_whitespace_def)
next
  case False
  moreover have "\<not> is_java_regex_whitespace c" if "next_char input i end = Some (c, w)" for c w
    using False that by (simp add: blank_at_iff whitespace_at_def)
  ultimately show thesis by (rule other)
qed

lemma blanks_iff:
  assumes ok: "utf8_ok input"
  shows "blanks input end i j \<longleftrightarrow> skip_whitespace input i end = j"
proof
  assume "blanks input end i j"
  then show "skip_whitespace input i end = j"
  proof (induction rule: blanks.induct)
    case (Stop i)
    then show ?case by (subst skip_whitespace.simps) (auto simp: blank_at_iff whitespace_at_def split: option.split)
  next
    case (Step i j)
    obtain c where "next_char input i end = Some (c, 1)" "is_java_regex_whitespace c"
      using Step.hyps(1) by (rule_tac blank_cases [OF ok, of "end" i]) auto
    then show ?case using Step.IH by (subst skip_whitespace.simps) simp
  qed
next
  have "blanks input end i (skip_whitespace input i end)"
  proof (induction "end - i" arbitrary: i rule: less_induct)
    case less
    show ?case
    proof (rule blank_cases [OF ok, of "end" i])
      fix c assume b: "blank_at input end i" "next_char input i end = Some (c, 1)" "is_java_regex_whitespace c"
      have "blanks input end (i + 1) (skip_whitespace input (i + 1) end)"
        using next_char_width [OF b(2)] by (intro less.hyps) simp
      moreover have "skip_whitespace input i end = skip_whitespace input (i + 1) end"
        using b by (subst skip_whitespace.simps) simp
      ultimately show ?thesis using blanks.Step [OF b(1)] by simp
    next
      assume o: "\<not> blank_at input end i" "\<And>c w. next_char input i end = Some (c, w) \<Longrightarrow> \<not> is_java_regex_whitespace c"
      have "skip_whitespace input i end = i" using o(2) by (subst skip_whitespace.simps) (auto split: option.split)
      then show ?thesis using blanks.Stop [OF o(1)] by simp
    qed
  qed
  then show "skip_whitespace input i end = j \<Longrightarrow> blanks input end i j" by simp
qed

lemma ascii_lower_in_case:
  assumes "97 \<le> byte x" "byte x \<le> 122"
  shows "ascii_lower c = ascii_lower x \<longleftrightarrow> in_case x c"
proof -
  have x: "ascii_lower x = x" using assms by (simp add: ascii_lower_def)
  show ?thesis
  proof (cases "65 \<le> byte c \<and> byte c \<le> 90")
    case True
    have "byte (char_of (byte c + 32) :: char) = byte c + 32" using True by (simp add: of_char_of)
    then have "char_of (byte c + 32) = x \<longleftrightarrow> byte c + 32 = byte x" by (metis char_of_char)
    then show ?thesis using True assms unfolding x by (auto simp: ascii_lower_def in_case_def)
  next
    case False
    then show ?thesis using assms unfolding x by (auto simp: ascii_lower_def in_case_def)
  qed
qed

definition list_word :: "str \<Rightarrow> bool" where
  "list_word w \<longleftrightarrow> (\<forall>x \<in> set w. 97 \<le> byte x \<and> byte x \<le> 122)"

lemma same_word: "list_word w \<Longrightarrow> map ascii_lower t = map ascii_lower w \<longleftrightarrow> list_all2 in_case w t"
proof (induction w arbitrary: t)
  case (Cons x w)
  then show ?case using ascii_lower_in_case [of x] by (cases t) (auto simp: list_word_def)
qed simp

lemma starts_with_word_iff:
  assumes ok: "utf8_ok s" and w: "list_word w"
  shows "starts_with_word s w \<longleftrightarrow> list_all2 in_case w (take (length w) s)"
proof
  assume l: "list_all2 in_case w (take (length w) s)"
  then have len: "length w \<le> length s" by (auto dest: list_all2_lengthD)
  have "is_char_boundary s (length w)"
  proof (cases w)
    case Nil
    then show ?thesis by simp
  next
    case (Cons y ys)
    have "in_case (w ! length ys) (s ! length ys)" using l Cons len by (auto simp: list_all2_conv_all_nth)
    moreover have "w ! length ys \<in> set w" using Cons by (intro nth_mem) simp
    then have "byte (w ! length ys) \<le> 122" using w by (simp add: list_word_def)
    ultimately have "byte (s ! length ys) < 128" by (auto simp: in_case_def)
    then show ?thesis using boundary_after_ascii [OF ok, of "length ys"] len Cons by simp
  qed
  then have "str_slice (range_new 0 (length w)) s = Some (take (length w) s)" by (simp add: str_slice_def)
  then show "starts_with_word s w" using l same_word [OF w] by (simp add: starts_with_word_def eq_ignore_ascii_case_def)
next
  assume "starts_with_word s w"
  then show "list_all2 in_case w (take (length w) s)"
    using same_word [OF w] by (auto simp: starts_with_word_def str_slice_def eq_ignore_ascii_case_def split: option.splits if_splits)
qed

lemma list_words: "list_word ''and''" "list_word ''nor''" "list_word ''or''"
  by (simp_all add: list_word_def)

lemma word_at_iff:
  assumes ok: "utf8_ok input"
  shows "word_at input end i q d \<longleftrightarrow> list_operator_at input i end = Some (q, d)"
proof (cases "str_slice (range_new i end) input")
  case None
  then show ?thesis by (auto simp: word_at_def list_operator_at_def)
next
  case (Some s)
  note sw = starts_with_word_iff [OF str_slice_utf8_ok [OF ok Some]]
  note w = sw [OF list_words(1)] sw [OF list_words(2)] sw [OF list_words(3)]
  have first: "\<not> (starts_with_word s ''and'' \<and> starts_with_word s ''nor'')" "\<not> (starts_with_word s ''and'' \<and> starts_with_word s ''or'')"
    "\<not> (starts_with_word s ''nor'' \<and> starts_with_word s ''or'')"
    unfolding w by (cases s; auto simp: in_case_def)+
  have "word_at input end i q d \<longleftrightarrow> d = AndDelimiter \<and> q = i + 3 \<and> starts_with_word s ''and'' \<or>
      d = NorDelimiter \<and> q = i + 3 \<and> starts_with_word s ''nor'' \<or> d = OrDelimiter \<and> q = i + 2 \<and> starts_with_word s ''or''"
    unfolding word_at_def w using Some by auto
  moreover have "list_operator_at input i end = Some (q, d) \<longleftrightarrow> d = AndDelimiter \<and> q = i + 3 \<and> starts_with_word s ''and'' \<or>
      d = NorDelimiter \<and> q = i + 3 \<and> starts_with_word s ''nor'' \<or> d = OrDelimiter \<and> q = i + 2 \<and> starts_with_word s ''or''"
    using first Some by (auto simp: list_operator_at_def)
  ultimately show ?thesis by blast
qed

lemma spaced_word_iff:
  assumes ok: "utf8_ok input"
  shows "spaced_word input end i q d \<longleftrightarrow>
    (\<exists>p. list_operator_at input i end = Some (p, d) \<and> whitespace_at input p end \<and> q = skip_whitespace input p end)"
  unfolding spaced_word_def by (auto simp: word_at_iff [OF ok] blanks_iff [OF ok] blank_at_iff)

lemma whitespace_at_less: "whitespace_at input p end \<Longrightarrow> p < end"
  by (auto simp: whitespace_at_def dest: next_char_width split: option.splits)

lemma word_delimiter_iff:
  assumes ok: "utf8_ok input"
  shows "word_delimiter input i end = Some (q, d) \<longleftrightarrow> (\<exists>s. blanks input end i s \<and> spaced_word input end s q d)"
proof (cases "list_operator_at input (skip_whitespace input i end) end")
  case None
  then show ?thesis by (simp add: word_delimiter_def spaced_word_iff [OF ok] blanks_iff [OF ok])
next
  case (Some x)
  obtain p d' where x: "x = (p, d')" by (cases x)
  show ?thesis
  proof (cases "whitespace_at input p end")
    case True
    then show ?thesis using Some x whitespace_at_less [OF True]
      by (auto simp: word_delimiter_def spaced_word_iff [OF ok] blanks_iff [OF ok])
  next
    case False
    then show ?thesis using Some x by (simp add: word_delimiter_def spaced_word_iff [OF ok] blanks_iff [OF ok])
  qed
qed

lemma comma_delimiter_iff:
  assumes ok: "utf8_ok input"
  shows "comma_delimiter input i end = (q, d) \<longleftrightarrow> (\<exists>s. blanks input end (i + 1) s \<and>
    (i + 1 < s \<and> spaced_word input end s q d \<or>
     d = CommaDelimiter \<and> q = s \<and> \<not> (i + 1 < s \<and> (\<exists>q' d'. spaced_word input end s q' d'))))"
proof -
  let ?s = "skip_whitespace input (i + 1) end"
  show ?thesis
  proof (cases "list_operator_at input ?s end")
    case None
    then show ?thesis by (auto simp: comma_delimiter_def spaced_word_iff [OF ok] blanks_iff [OF ok])
  next
    case (Some x)
    obtain p d' where x: "x = (p, d')" by (cases x)
    show ?thesis
    proof (cases "i + 1 < ?s \<and> whitespace_at input p end")
      case True
      then have "comma_delimiter input i end = (skip_whitespace input p end, d')"
        using Some x whitespace_at_less [of input p "end"] by (simp add: comma_delimiter_def)
      moreover have "spaced_word input end ?s q d \<longleftrightarrow> q = skip_whitespace input p end \<and> d = d'" for q d
        using Some x True by (auto simp: spaced_word_iff [OF ok])
      ultimately show ?thesis using True by (auto simp: blanks_iff [OF ok])
    next
      case False
      then have "comma_delimiter input i end = (?s, CommaDelimiter)" using Some x by (auto simp: comma_delimiter_def)
      moreover have "\<not> (i + 1 < ?s \<and> spaced_word input end ?s q d)" for q d
        using Some x False by (auto simp: spaced_word_iff [OF ok])
      ultimately show ?thesis by (auto simp: blanks_iff [OF ok])
    qed
  qed
qed

end
