(* ===== verification/Expression_Grammar.thy ===== *)
theory Expression_Grammar
  imports List_Syntax
begin

text \<open>
  What an expression list is, as a grammar over the units and delimiters of \<open>List_Syntax\<close>, and the proof that
  \<open>split_expression_list\<close> decides it; where its pieces lie; and when the list is a disjunction.
\<close>

subsection \<open>The grammar\<close>

text \<open>
  \<open>list_from input end a c raws ds\<close>: from position \<open>c\<close> in the piece that began at \<open>a\<close> to the end of the
  range, the pieces are \<open>raws\<close> (not trimmed) with the delimiters \<open>ds\<close> between them.
\<close>

inductive list_from :: "str \<Rightarrow> nat \<Rightarrow> nat \<Rightarrow> nat \<Rightarrow> (nat \<times> nat) list \<Rightarrow> list_delimiter list \<Rightarrow> bool" for input "end" where
  Last: "\<not> c < end \<Longrightarrow> list_from input end a c [(a, end)] []"
| Unit: "c < end \<Longrightarrow> (\<And>q d. \<not> delimiter_from input end c q d) \<Longrightarrow> unit_at input end c c' \<Longrightarrow> list_from input end a c' raws ds \<Longrightarrow>
    list_from input end a c raws ds"
| Delimiter: "c < end \<Longrightarrow> delimiter_from input end c q d \<Longrightarrow> list_from input end q q raws ds \<Longrightarrow>
    list_from input end a c ((a, c) # raws) (d # ds)"

text \<open>The same in terms of the scanners of the program.  First the end of the unit at a position.\<close>

definition unit_end :: "str \<Rightarrow> nat \<Rightarrow> nat \<Rightarrow> nat option" where
  "unit_end input end pos = (case next_char input pos end of
     None \<Rightarrow> None
   | Some (c, w) \<Rightarrow> Some
       (if c = byte CHR 0x22 then past (find_quote_end input (pos + w) end) end
        else if c = byte CHR 0x7B then past (find_variable_end input (pos + w) end) end
        else if c = byte CHR ''('' then past (find_parenthesis_end input (pos + w) end) end
        else pos + w))"

text \<open>The delimiter that begins at a position, and where the next piece begins.\<close>

definition delimiter_at :: "str \<Rightarrow> nat \<Rightarrow> nat \<Rightarrow> (nat \<times> list_delimiter) option" where
  "delimiter_at input end pos = (case next_char input pos end of
     None \<Rightarrow> None
   | Some (c, w) \<Rightarrow>
       if c = byte CHR '','' then Some (comma_delimiter input pos end)
       else if is_java_regex_whitespace c then word_delimiter input pos end else None)"

inductive list_by :: "str \<Rightarrow> nat \<Rightarrow> nat \<Rightarrow> nat \<Rightarrow> (nat \<times> nat) list \<Rightarrow> list_delimiter list \<Rightarrow> bool" for input "end" where
  Last: "\<not> c < end \<Longrightarrow> list_by input end a c [(a, end)] []"
| Unit: "c < end \<Longrightarrow> delimiter_at input end c = None \<Longrightarrow> unit_end input end c = Some c' \<Longrightarrow> list_by input end a c' raws ds \<Longrightarrow>
    list_by input end a c raws ds"
| Delimiter: "c < end \<Longrightarrow> delimiter_at input end c = Some (q, d) \<Longrightarrow> list_by input end q q raws ds \<Longrightarrow>
    list_by input end a c ((a, c) # raws) (d # ds)"

lemma unit_at_iff:
  assumes ok: "utf8_ok input"
  shows "unit_at input end i j \<longleftrightarrow> unit_end input end i = Some j"
proof (cases "next_char input i end")
  case None
  then show ?thesis by (auto simp: unit_end_def elim: unit_at.cases)
next
  case (Some x)
  obtain c w where x: "x = (c, w)" by (cases x)
  note n = Some [unfolded x]
  have past: "past close end = j \<longleftrightarrow> (\<exists>q. close = Some q \<and> j = q + 1) \<or> (\<nexists>q. close = Some q) \<and> j = end" for close
    by (cases close) (auto simp: past_def)
  have "unit_at input end i j \<longleftrightarrow>
      (c = 34 \<and> ((\<exists>q. string_to input end False (i + w) q \<and> j = q + 1) \<or> (\<nexists>q. string_to input end False (i + w) q) \<and> j = end)) \<or>
      (c = 123 \<and> ((\<exists>q. variable_to input end (i + w) q \<and> j = q + 1) \<or> (\<nexists>q. variable_to input end (i + w) q) \<and> j = end)) \<or>
      (c = 40 \<and> ((\<exists>q. parenthesis_to input end (i + w) q \<and> j = q + 1) \<or> (\<nexists>q. parenthesis_to input end (i + w) q) \<and> j = end)) \<or>
      c \<notin> {34, 40, 123} \<and> j = i + w"
    by (subst unit_at.simps) (auto simp: n)
  then show ?thesis
    unfolding string_to_iff variable_to_iff [OF ok] parenthesis_to_iff [OF ok] past [symmetric]
    by (auto simp: unit_end_def n)
qed

lemma delimiter_from_iff:
  assumes ok: "utf8_ok input"
  shows "delimiter_from input end i q d \<longleftrightarrow> delimiter_at input end i = Some (q, d)"
proof (cases "next_char input i end")
  case None
  then show ?thesis by (auto simp: delimiter_at_def blank_at_def elim: delimiter_from.cases)
next
  case (Some x)
  obtain c w where x: "x = (c, w)" by (cases x)
  note n = Some [unfolded x]
  have blank: "blank_at input end i \<longleftrightarrow> is_java_regex_whitespace c"
    by (auto simp: blank_at_def n is_java_regex_whitespace_def)
  have "delimiter_from input end i q d \<longleftrightarrow>
      is_java_regex_whitespace c \<and> (\<exists>s. blanks input end i s \<and> spaced_word input end s q d) \<or>
      c = 44 \<and> (\<exists>s. blanks input end (i + 1) s \<and> (i + 1 < s \<and> spaced_word input end s q d \<or>
        d = CommaDelimiter \<and> q = s \<and> \<not> (i + 1 < s \<and> (\<exists>q' d'. spaced_word input end s q' d'))))"
    by (subst delimiter_from.simps) (auto simp: n blank)
  also have "\<dots> \<longleftrightarrow> is_java_regex_whitespace c \<and> word_delimiter input i end = Some (q, d) \<or> c = 44 \<and> comma_delimiter input i end = (q, d)"
    by (simp only: word_delimiter_iff [OF ok] comma_delimiter_iff [OF ok])
  also have "\<dots> \<longleftrightarrow> delimiter_at input end i = Some (q, d)"
    by (auto simp: delimiter_at_def n is_java_regex_whitespace_def)
  finally show ?thesis .
qed

lemma list_from_iff:
  assumes ok: "utf8_ok input"
  shows "list_from input end a c raws ds \<longleftrightarrow> list_by input end a c raws ds"
proof
  have none: "(\<forall>q d. \<not> delimiter_from input end c q d) \<longleftrightarrow> delimiter_at input end c = None" for c
    by (cases "delimiter_at input end c") (auto simp: delimiter_from_iff [OF ok])
  show "list_by input end a c raws ds" if "list_from input end a c raws ds"
    using that
  proof (induction rule: list_from.induct)
    case (Unit c c' a raws ds)
    have "delimiter_at input end c = None" using Unit.hyps(2) none by blast
    moreover have "unit_end input end c = Some c'" using Unit.hyps(3) by (rule iffD1 [OF unit_at_iff [OF ok]])
    ultimately show ?case by (rule list_by.Unit [OF Unit.hyps(1) _ _ Unit.IH])
  next
    case (Delimiter c q d raws ds a)
    then show ?case by (intro list_by.Delimiter) (simp_all add: delimiter_from_iff [OF ok])
  qed (rule list_by.Last)
  show "list_from input end a c raws ds" if "list_by input end a c raws ds"
    using that
  proof (induction rule: list_by.induct)
    case (Unit c c' a raws ds)
    show ?case
      by (rule list_from.Unit [OF Unit.hyps(1) _ _ Unit.IH])
        (use Unit.hyps(2,3) in \<open>simp_all add: delimiter_from_iff [OF ok] unit_at_iff [OF ok]\<close>)
  next
    case (Delimiter c q d raws ds a)
    then show ?case by (intro list_from.Delimiter) (simp_all add: delimiter_from_iff [OF ok])
  qed (rule list_from.Last)
qed

definition piece_of :: "str \<Rightarrow> nat \<times> nat \<Rightarrow> text_range \<Rightarrow> bool" where
  "piece_of input raw p \<longleftrightarrow> (\<exists>s. str_slice (range_new (fst raw) (snd raw)) input = Some s \<and> \<not> range_is_empty (java_trim_range s) \<and>
     p = range_new (fst raw + range_start (java_trim_range s)) (fst raw + range_end (java_trim_range s)))"

lemma push_piece_Some_iff: "push_piece input a b ps = Some ps' \<longleftrightarrow> (\<exists>p. piece_of input (a, b) p \<and> ps' = ps @ [p])"
  by (auto simp: push_piece_def piece_of_def Let_def split: option.splits)

text \<open>The loop in terms of the grammar: all pieces but the last are pushed.\<close>

definition loop_result ::
    "str \<Rightarrow> nat \<Rightarrow> nat \<Rightarrow> nat \<Rightarrow> text_range list \<Rightarrow> list_delimiter list \<Rightarrow> nat \<times> text_range list \<times> list_delimiter list \<Rightarrow> bool" where
  "loop_result input end a c ps ds res \<longleftrightarrow> (\<exists>raws s ds' qs. list_by input end a c (raws @ [(s, end)]) ds' \<and>
     list_all2 (piece_of input) raws qs \<and> res = (s, ps @ qs, ds @ ds'))"

lemma list_by_ends: "list_by input end a c raws ds \<Longrightarrow> (\<exists>init s. raws = init @ [(s, end)]) \<and> length raws = length ds + 1"
proof (induction rule: list_by.induct)
  case (Last c a)
  then show ?case by auto
next
  case (Delimiter c q d raws ds a)
  then obtain init s where "raws = init @ [(s, end)]" by blast
  then have "(a, c) # raws = ((a, c) # init) @ [(s, end)]" by simp
  then show ?case using Delimiter.IH by (metis length_Cons add_Suc)
qed auto

inductive_simps list_from_done: "list_by input end a c raws ds"

lemma loop_result_done: "\<not> c < end \<Longrightarrow> loop_result input end a c ps ds res \<longleftrightarrow> res = (a, ps, ds)"
  unfolding loop_result_def by (subst list_from_done) auto

lemma loop_result_unit:
  "c < end \<Longrightarrow> delimiter_at input end c = None \<Longrightarrow> unit_end input end c = Some c' \<Longrightarrow>
   loop_result input end a c ps ds res \<longleftrightarrow> loop_result input end a c' ps ds res"
  unfolding loop_result_def by (subst list_from_done) auto

lemma loop_result_stuck:
  "c < end \<Longrightarrow> next_char input c end = None \<Longrightarrow> \<not> loop_result input end a c ps ds res"
  unfolding loop_result_def by (subst list_from_done) (auto simp: delimiter_at_def unit_end_def)

lemma loop_result_delimiter:
  assumes "c < end" and d: "delimiter_at input end c = Some (q, d)"
  shows "loop_result input end a c ps ds res \<longleftrightarrow> (\<exists>ps'. push_piece input a c ps = Some ps' \<and> loop_result input end q q ps' (ds @ [d]) res)"
proof
  assume "loop_result input end a c ps ds res"
  then obtain raws s ds' qs where l: "list_by input end a c (raws @ [(s, end)]) ds'" "list_all2 (piece_of input) raws qs" "res = (s, ps @ qs, ds @ ds')"
    by (auto simp: loop_result_def)
  then obtain raws1 ds1 where r: "raws @ [(s, end)] = (a, c) # raws1" "ds' = d # ds1" "list_by input end q q raws1 ds1"
    using l(1) assms by (subst (asm) list_from_done) auto
  then obtain raws2 where "raws = (a, c) # raws2" "raws1 = raws2 @ [(s, end)]"
    using list_by_ends [OF r(3)] by (cases raws) auto
  moreover from this obtain p qs2 where p: "qs = p # qs2" "piece_of input (a, c) p" "list_all2 (piece_of input) raws2 qs2"
    using l(2) by (auto simp: list_all2_Cons1)
  ultimately have "loop_result input end q q (ps @ [p]) (ds @ [d]) res"
    unfolding loop_result_def using l(3) r(2,3) by (intro exI [of _ raws2] exI [of _ s] exI [of _ ds1] exI [of _ qs2]) simp
  then show "\<exists>ps'. push_piece input a c ps = Some ps' \<and> loop_result input end q q ps' (ds @ [d]) res"
    using p(2) by (auto simp: push_piece_Some_iff)
next
  assume "\<exists>ps'. push_piece input a c ps = Some ps' \<and> loop_result input end q q ps' (ds @ [d]) res"
  then obtain p raws s ds' qs where p: "piece_of input (a, c) p" and l: "list_by input end q q (raws @ [(s, end)]) ds'"
      "list_all2 (piece_of input) raws qs" "res = (s, (ps @ [p]) @ qs, (ds @ [d]) @ ds')"
    by (auto simp: loop_result_def push_piece_Some_iff)
  show "loop_result input end a c ps ds res" unfolding loop_result_def
    by (rule exI [of _ "(a, c) # raws"], rule exI [of _ s], rule exI [of _ "d # ds'"], rule exI [of _ "p # qs"])
      (use p l list_by.Delimiter [OF assms l(1)] in simp)
qed

lemma unit_cases:
  assumes "next_char input c end = Some (ch, w)"
  shows "ch \<in> {34, 123, 40} \<Longrightarrow> delimiter_at input end c = None"
    "ch \<noteq> 44 \<Longrightarrow> \<not> is_java_regex_whitespace ch \<Longrightarrow> delimiter_at input end c = None"
    "ch = 34 \<Longrightarrow> unit_end input end c = Some (past (find_quote_end input (c + w) end) end)"
    "ch = 123 \<Longrightarrow> unit_end input end c = Some (past (find_variable_end input (c + w) end) end)"
    "ch = 40 \<Longrightarrow> unit_end input end c = Some (past (find_parenthesis_end input (c + w) end) end)"
    "ch \<notin> {34, 123, 40} \<Longrightarrow> unit_end input end c = Some (c + w)"
  using assms by (auto simp: delimiter_at_def unit_end_def is_java_regex_whitespace_def)

lemma split_loop_iff: "split_loop input end a c ps ds = Some res \<longleftrightarrow> loop_result input end a c ps ds res"
proof (induction input "end" a c ps ds rule: split_loop.induct)
  case (1 input "end" a c ps ds)
  show ?case
  proof (cases "c < end")
    case False
    then show ?thesis by (subst split_loop.simps) (auto simp: loop_result_done)
  next
    case lt: True
    show ?thesis
    proof (cases "next_char input c end")
      case None
      then show ?thesis using lt by (subst split_loop.simps) (simp add: loop_result_stuck)
    next
      case (Some x)
      obtain ch w where x: "x = (ch, w)" by (cases x)
      note n = Some [unfolded x]
      note u = unit_cases [OF n]
      consider (quote) "ch = 34" | (var) "ch = 123" | (paren) "ch = 40" | (comma) "ch = 44"
        | (ws) "ch \<notin> {34, 123, 40, 44}" "is_java_regex_whitespace ch" | (other) "ch \<notin> {34, 123, 40, 44}" "\<not> is_java_regex_whitespace ch"
        by blast
      then show ?thesis
      proof cases
        case quote
        then show ?thesis using 1(1) [OF lt n refl] u(1,3) loop_result_unit [OF lt] by (subst split_loop.simps) (simp add: lt n)
      next
        case var
        then show ?thesis using 1(2) [OF lt n refl] u(1,4) loop_result_unit [OF lt] by (subst split_loop.simps) (simp add: lt n)
      next
        case paren
        then show ?thesis using 1(3) [OF lt n refl] u(1,5) loop_result_unit [OF lt] by (subst split_loop.simps) (simp add: lt n)
      next
        case comma
        obtain q d where q: "comma_delimiter input c end = (q, d)" by (cases "comma_delimiter input c end")
        have "delimiter_at input end c = Some (q, d)" using comma n q by (simp add: delimiter_at_def)
        then show ?thesis using 1(4) [OF lt n refl] comma loop_result_delimiter [OF lt]
          by (subst split_loop.simps) (auto simp: lt n q split: option.splits)
      next
        case ws
        show ?thesis
        proof (cases "word_delimiter input c end")
          case None
          then have "delimiter_at input end c = None" using ws n by (auto simp: delimiter_at_def)
          then show ?thesis using 1(5) [OF lt n refl] ws u(6) loop_result_unit [OF lt] None by (subst split_loop.simps) (simp add: lt n)
        next
          case (Some y)
          obtain q d where y: "y = (q, d)" by (cases y)
          then have "delimiter_at input end c = Some (q, d)" using ws n Some by (auto simp: delimiter_at_def)
          then show ?thesis using 1(6) [OF lt n refl] ws Some y loop_result_delimiter [OF lt]
            by (subst split_loop.simps) (auto simp: lt n split: option.splits)
        qed
      next
        case other
        then show ?thesis using 1(7) [OF lt n refl] u(2,6) loop_result_unit [OF lt] by (subst split_loop.simps) (simp add: lt n)
      qed
    qed
  qed
qed

text \<open>The function decides the grammar.\<close>

lemma split_decides:
  "split_expression_list input r = Some l \<longleftrightarrow>
     (\<exists>raws. list_by input (range_end r) (range_start r) (range_start r) raws (delimiters l) \<and> delimiters l \<noteq> [] \<and>
        list_all2 (piece_of input) raws (pieces l))"
proof -
  let ?e = "range_end r"
  have "split_expression_list input r = Some l \<longleftrightarrow> (\<exists>s ps. split_loop input ?e (range_start r) (range_start r) [] [] = Some (s, ps, delimiters l) \<and>
      delimiters l \<noteq> [] \<and> push_piece input s ?e ps = Some (pieces l))"
    by (cases l) (auto simp: split_expression_list_def split: option.splits)
  also have "\<dots> \<longleftrightarrow> (\<exists>raws s ps p. list_by input ?e (range_start r) (range_start r) (raws @ [(s, ?e)]) (delimiters l) \<and>
      delimiters l \<noteq> [] \<and> list_all2 (piece_of input) raws ps \<and> piece_of input (s, ?e) p \<and> pieces l = ps @ [p])"
    by (auto simp: split_loop_iff loop_result_def push_piece_Some_iff)
  also have "\<dots> \<longleftrightarrow> (\<exists>raws. list_by input ?e (range_start r) (range_start r) raws (delimiters l) \<and> delimiters l \<noteq> [] \<and>
      list_all2 (piece_of input) raws (pieces l))"
  proof
    assume "\<exists>raws. list_by input ?e (range_start r) (range_start r) raws (delimiters l) \<and> delimiters l \<noteq> [] \<and>
      list_all2 (piece_of input) raws (pieces l)"
    then obtain raws where l: "list_by input ?e (range_start r) (range_start r) raws (delimiters l)" "delimiters l \<noteq> []"
      "list_all2 (piece_of input) raws (pieces l)" by blast
    then obtain init s where "raws = init @ [(s, ?e)]" using list_by_ends by blast
    then show "\<exists>raws s ps p. list_by input ?e (range_start r) (range_start r) (raws @ [(s, ?e)]) (delimiters l) \<and>
      delimiters l \<noteq> [] \<and> list_all2 (piece_of input) raws ps \<and> piece_of input (s, ?e) p \<and> pieces l = ps @ [p]"
      using l by (auto simp: list_all2_append1 list_all2_Cons1)
  next
    assume "\<exists>raws s ps p. list_by input ?e (range_start r) (range_start r) (raws @ [(s, ?e)]) (delimiters l) \<and>
      delimiters l \<noteq> [] \<and> list_all2 (piece_of input) raws ps \<and> piece_of input (s, ?e) p \<and> pieces l = ps @ [p]"
    then obtain raws s ps p where l: "list_by input ?e (range_start r) (range_start r) (raws @ [(s, ?e)]) (delimiters l)"
      "delimiters l \<noteq> []" "list_all2 (piece_of input) raws ps" "piece_of input (s, ?e) p" "pieces l = ps @ [p]" by blast
    have "list_all2 (piece_of input) (raws @ [(s, ?e)]) (pieces l)" using l(3-5) by (simp add: list_all2_appendI)
    then show "\<exists>raws. list_by input ?e (range_start r) (range_start r) raws (delimiters l) \<and> delimiters l \<noteq> [] \<and>
      list_all2 (piece_of input) raws (pieces l)" using l(1,2) by blast
  qed
  finally show ?thesis .
qed

subsection \<open>Where the pieces lie\<close>

lemma skip_whitespace_le: "utf8_ok input \<Longrightarrow> pos \<le> end \<Longrightarrow> skip_whitespace input pos end \<le> end"
proof (induction input pos "end" rule: skip_whitespace.induct)
  case (1 input pos "end")
  then show ?case by (subst skip_whitespace.simps) (auto split: option.split dest: next_charD(5))
qed

lemma delimiter_at_bounds:
  assumes "utf8_ok input" and "delimiter_at input end c = Some (q, d)"
  shows "c < q \<and> q \<le> end"
proof -
  obtain ch w where n: "next_char input c end = Some (ch, w)" using assms(2) by (auto simp: delimiter_at_def split: option.splits)
  note skip = skip_whitespace_le [OF assms(1)]
  show ?thesis
  proof (cases "ch = 44")
    case True
    then have q: "comma_delimiter input c end = (q, d)" using assms(2) n by (simp add: delimiter_at_def)
    have "c + 1 \<le> end" using next_charD(2) [OF assms(1) n] by simp
    then have "q \<le> end" using q skip [of "c + 1"] skip
      by (auto simp: comma_delimiter_def Let_def split: option.splits prod.splits if_splits)
    then show ?thesis using comma_delimiter_greater [OF q] by simp
  next
    case False
    then have "word_delimiter input c end = Some (q, d)" using assms(2) n by (auto simp: delimiter_at_def split: if_splits)
    then obtain p where "p < end" "q = skip_whitespace input p end" "c < q" by (rule word_delimiter_SomeD)
    then show ?thesis using skip [of p] by simp
  qed
qed

lemma unit_end_bounds:
  assumes "utf8_ok input" and "unit_end input end c = Some c'"
  shows "c < c' \<and> c' \<le> end"
proof -
  obtain ch w where n: "next_char input c end = Some (ch, w)" using assms(2) by (auto simp: unit_end_def split: option.splits)
  note d = next_charD [OF assms(1) n]
  have past: "c < past close end \<and> past close end \<le> end"
    if "close \<in> {find_quote_end input (c + w) end, find_variable_end input (c + w) end, find_parenthesis_end input (c + w) end}" for close
  proof
    show "c < past close end" using past_decreases [OF d(2) that] .
    have "q < end" if "close = Some q" for q
      using \<open>close \<in> _\<close> that quote_end_bounds [of input False "c + w" "end" q] variable_end_bounds [of input 0 "c + w" "end" q]
        parenthesis_end_ge [of input 0 "c + w" "end" q]
      unfolding find_quote_end_def find_variable_end_def find_parenthesis_end_def by blast
    then show "past close end \<le> end" by (cases close) (auto simp: past_def Suc_le_eq)
  qed
  show ?thesis using assms(2) n past d(4,5) by (auto simp: unit_end_def)
qed

definition raws_between :: "nat \<Rightarrow> nat \<Rightarrow> (nat \<times> nat) list \<Rightarrow> bool" where
  "raws_between a end raws \<longleftrightarrow> (\<forall>(x, y) \<in> set raws. a \<le> x \<and> y \<le> end) \<and> sorted_wrt (\<lambda>(_, y) (x, _). y < x) raws"

lemma list_by_between: "list_by input end a c raws ds \<Longrightarrow> utf8_ok input \<Longrightarrow> a \<le> c \<Longrightarrow> c \<le> end \<Longrightarrow> raws_between a end raws"
proof (induction rule: list_by.induct)
  case (Last c a)
  then show ?case by (simp add: raws_between_def)
next
  case (Unit c c' a raws ds)
  then show ?case using unit_end_bounds [OF Unit.prems(1) Unit.hyps(3)] by simp
next
  case (Delimiter c q d raws ds a)
  then have q: "c < q" "q \<le> end" using delimiter_at_bounds by blast+
  then have "raws_between q end raws" using Delimiter by simp
  then show ?case using q Delimiter.prems by (fastforce simp: raws_between_def)
qed

lemma piece_of_inside:
  assumes "utf8_ok input" and "piece_of input raw p"
  shows "is_valid_for p input" "range_start p < range_end p" "fst raw \<le> range_start p" "range_end p \<le> snd raw"
proof -
  obtain s where s: "str_slice (range_new (fst raw) (snd raw)) input = Some s" "\<not> range_is_empty (java_trim_range s)"
    "p = range_new (fst raw + range_start (java_trim_range s)) (fst raw + range_end (java_trim_range s))"
    using assms(2) by (auto simp: piece_of_def)
  have v: "is_valid_for (java_trim_range s) s" by (rule java_trim_valid [OF str_slice_utf8_ok [OF assms(1) s(1)]])
  have "length s = snd raw - fst raw" "fst raw \<le> snd raw"
    using str_slice_SomeD [OF s(1)] by (auto simp: range_len_def is_valid_for_def)
  then show "range_start p < range_end p" "fst raw \<le> range_start p" "range_end p \<le> snd raw"
    using v s(2,3) by (auto simp: is_valid_for_def range_is_empty_def)
  show "is_valid_for p input" unfolding s(3)
    using slice_valid_within [OF s(1) v] by simp
qed

lemma list_all2_member: "list_all2 R xs ys \<Longrightarrow> y \<in> set ys \<Longrightarrow> \<exists>x \<in> set xs. R x y"
  by (induction rule: list_all2_induct) auto

lemma pieces_sorted:
  assumes "utf8_ok input" and "list_all2 (piece_of input) raws ps" and "sorted_wrt (\<lambda>(_, y) (x, _). y < x) raws"
  shows "sorted_wrt (\<lambda>p q. range_end p < range_start q) ps"
  using assms(2,3)
proof (induction rule: list_all2_induct)
  case (Cons raw raws p ps)
  have "range_end p < range_start q" if "q \<in> set ps" for q
  proof -
    from list_all2_member [OF Cons.hyps(2) that] obtain raw' where r: "raw' \<in> set raws" "piece_of input raw' q" by blast
    have "snd raw < fst raw'" using Cons.prems r(1) by (auto simp: case_prod_beta)
    then show ?thesis using piece_of_inside(3) [OF assms(1) r(2)] piece_of_inside(4) [OF assms(1) Cons.hyps(1)] by simp
  qed
  then show ?case using Cons by auto
qed simp

text \<open>The pieces of a list: valid, in order inside the range, not empty and never adjacent.\<close>

lemma list_layout:
  assumes ok: "utf8_ok input" and r: "range_start r \<le> range_end r" and l: "split_expression_list input r = Some l"
  shows "length (pieces l) = length (delimiters l) + 1"
    "p \<in> set (pieces l) \<Longrightarrow> is_valid_for p input \<and> range_contains r p \<and> range_start p < range_end p"
    "sorted_wrt (\<lambda>p q. range_end p < range_start q) (pieces l)"
proof -
  obtain raws where raws: "list_by input (range_end r) (range_start r) (range_start r) raws (delimiters l)"
    "list_all2 (piece_of input) raws (pieces l)" using l split_decides by blast
  have b: "raws_between (range_start r) (range_end r) raws" by (rule list_by_between [OF raws(1) ok]) (use r in simp_all)
  show "length (pieces l) = length (delimiters l) + 1" using list_by_ends [OF raws(1)] list_all2_lengthD [OF raws(2)] by simp
  show "sorted_wrt (\<lambda>p q. range_end p < range_start q) (pieces l)"
    using pieces_sorted [OF ok raws(2)] b by (simp add: raws_between_def)
  show "is_valid_for p input \<and> range_contains r p \<and> range_start p < range_end p" if "p \<in> set (pieces l)"
  proof -
    from list_all2_member [OF raws(2) that] obtain raw where raw: "raw \<in> set raws" "piece_of input raw p" by blast
    have "range_start r \<le> fst raw" "snd raw \<le> range_end r" using b raw(1) by (auto simp: raws_between_def)
    then show ?thesis using piece_of_inside [OF ok raw(2)] by (simp add: range_contains_def)
  qed
qed

text \<open>
  C29. A range of a text is split exactly when the grammar derives a list with a delimiter from it whose
  pieces are not blank, and the result is the trimmed pieces and the delimiters of that derivation:
  commas and the words and, or, nor outside closed strings, variables and parentheses (an unclosed one
  takes the rest), a word only between whitespace, and a word after a comma and whitespace in place of
  the comma.  There is one piece more than delimiters, and
  the pieces are valid, not empty, inside the range, in order and never adjacent.
\<close>

theorem split_lists_correct:
  assumes "utf8_ok input" and "range_start r \<le> range_end r"
  shows "(split_expression_list input r = Some l \<longleftrightarrow>
      (\<exists>raws. list_from input (range_end r) (range_start r) (range_start r) raws (delimiters l) \<and> delimiters l \<noteq> [] \<and>
         list_all2 (piece_of input) raws (pieces l))) \<and>
    (split_expression_list input r = Some l \<longrightarrow> length (pieces l) = length (delimiters l) + 1 \<and>
      (\<forall>p \<in> set (pieces l). is_valid_for p input \<and> range_contains r p \<and> range_start p < range_end p) \<and>
      sorted_wrt (\<lambda>p q. range_end p < range_start q) (pieces l))"
  unfolding list_from_iff [OF assms(1)] using split_decides [of input r l] list_layout [OF assms] by blast

subsection \<open>Conjunctions\<close>

text \<open>The explicit words in front of the children after the first.\<close>

definition explicit_conjunctions :: "raw_list \<Rightarrow> nat list \<Rightarrow> list_conjunction list" where
  "explicit_conjunctions l child_starts =
     concat (map (\<lambda>i. case incoming_conjunction (delimiters l ! (i - 1)) of None \<Rightarrow> [] | Some c \<Rightarrow> [c]) (drop 1 child_starts))"

definition combined :: "list_conjunction list \<Rightarrow> list_conjunction option" where
  "combined cs = (if cs = [] then None else Some (if set cs = {OrList} then OrList else AndList))"

lemma combined_snoc: "combined (cs @ [c]) = Some (case combined cs of None \<Rightarrow> c | Some m \<Rightarrow> if m = c then m else AndList)"
proof (cases "cs = []")
  case True
  then show ?thesis by (cases c) (simp_all add: combined_def)
next
  case False
  have "set (cs @ [AndList]) \<noteq> {OrList}" by auto
  moreover have "set (cs @ [OrList]) = {OrList} \<longleftrightarrow> set cs = {OrList}" using False by (cases cs) auto
  ultimately show ?thesis using False by (cases c) (simp_all add: combined_def)
qed

lemma conjunction_step_combined:
  assumes "0 < i" and "i \<le> length (delimiters l)"
  shows "conjunction_step l i (combined cs) = Ret (combined (cs @
    (case incoming_conjunction (delimiters l ! (i - 1)) of None \<Rightarrow> [] | Some c \<Rightarrow> [c])))"
proof (cases "incoming_conjunction (delimiters l ! (i - 1))")
  case None
  then show ?thesis using assms by (simp add: conjunction_step_def)
next
  case (Some c)
  then show ?thesis using assms by (simp add: conjunction_step_def combined_snoc)
qed

lemma conjunction_loop:
  assumes "\<forall>i \<in> set is. 0 < i \<and> i \<le> length (delimiters l)"
  shows "try_for (conjunction_step l) is (combined cs) = Ret (combined (cs @
    concat (map (\<lambda>i. case incoming_conjunction (delimiters l ! (i - 1)) of None \<Rightarrow> [] | Some c \<Rightarrow> [c]) is)))"
  using assms by (induction "is" arbitrary: cs) (simp_all add: conjunction_step_combined)

lemma explicit_loop:
  assumes "\<forall>i \<in> set (drop 1 child_starts). 0 < i \<and> i \<le> length (delimiters l)"
  shows "try_for (conjunction_step l) (drop 1 child_starts) None = Ret (combined (explicit_conjunctions l child_starts))"
  using conjunction_loop [OF assms, of "[]"] unfolding explicit_conjunctions_def by (simp add: combined_def)

text \<open>
  A list is a disjunction exactly if every explicit word in front of a child after the first is \<open>or\<close>
  and there is one; commas do not count, \<open>nor\<close> counts as \<open>and\<close>, and mixed words give a conjunction.
\<close>

lemma list_disjunction:
  assumes "\<forall>i \<in> set (drop 1 child_starts). 0 < i \<and> i \<le> length (delimiters l)"
  shows "conjunction_for_children l child_starts =
    Ret (if set (explicit_conjunctions l child_starts) = {OrList} then OrList else AndList)"
  unfolding conjunction_for_children_def explicit_loop [OF assms] by (simp add: combined_def)

end
