(* ===== verification/Function_Syntax.thy ===== *)
theory Function_Syntax
  imports Function_Call Expression_Grammar
begin

text \<open>Where a call and its arguments lie in the txt0.\<close>

subsection \<open>One argument\<close>

definition argument_inside :: "str \<Rightarrow> nat \<Rightarrow> nat \<Rightarrow> parsed_argument \<Rightarrow> bool" where
  "argument_inside input a b x \<longleftrightarrow>
     is_valid_for (arg_raw x) input \<and> a \<le> range_start (arg_raw x) \<and> range_end (arg_raw x) \<le> b \<and>
     is_valid_for (arg_value x) input \<and> range_start (arg_value x) < range_end (arg_value x) \<and> range_contains (arg_raw x) (arg_value x) \<and>
     (arg_kind x = NamedArgument \<longleftrightarrow> arg_name x \<noteq> None)"

lemma range_new_eta: "range_new (range_start r) (range_end r) = (r :: text_range)"
  by (simp add: range_new_def)

lemma trimmed_slice:
  assumes "utf8_ok input" and "str_slice r input = Some txt0" and "\<not> range_is_empty (java_trim_range txt0)"
  defines "t \<equiv> range_new (range_start r + range_start (java_trim_range txt0)) (range_start r + range_end (java_trim_range txt0))"
  shows "is_valid_for t input" "range_start t < range_end t" "range_contains r t"
proof -
  have "piece_of input (range_start r, range_end r) t"
    using assms(2,3) by (auto simp: piece_of_def t_def range_new_eta)
  from piece_of_inside [OF assms(1) this] show "is_valid_for t input" "range_start t < range_end t" "range_contains r t"
    by (simp_all add: range_contains_def)
qed

lemma parse_argument_inside:
  assumes ok: "utf8_ok input" and p: "parse_argument input r pol = Some x"
  shows "argument_inside input (range_start r) (range_end r) x"
proof -
  obtain txt0 where txt0: "str_slice r input = Some txt0" "\<not> range_is_empty (java_trim_range txt0)"
    using p by (auto simp: parse_argument_def Let_def split: option.splits if_splits)
  define t where "t = range_new (range_start r + range_start (java_trim_range txt0)) (range_start r + range_end (java_trim_range txt0))"
  note t = trimmed_slice [OF ok txt0, folded t_def]
  have unnamed: "argument_inside input (range_start r) (range_end r) (unnamed_argument t)"
    using t by (simp add: argument_inside_def unnamed_argument_def range_contains_def)
  obtain v where v: "str_slice t input = Some v"
    using p txt0 by (auto simp: parse_argument_def Let_def t_def [symmetric] split: option.splits)
  show ?thesis
  proof (cases "x = unnamed_argument t")
    case False
    obtain e raw_text where e: "str_slice (range_new (range_start t + e + 1) (range_end t)) input = Some raw_text"
        "\<not> range_is_empty (java_trim_range raw_text)"
        "x = \<lparr>arg_kind = NamedArgument, arg_name = Some (str_trim (take e v)),
           arg_value = range_new (range_start t + e + 1 + range_start (java_trim_range raw_text)) (range_start t + e + 1 + range_end (java_trim_range raw_text)),
           arg_raw = t\<rparr>"
      using p txt0 v False by (auto simp: parse_argument_def Let_def t_def [symmetric] split: option.splits if_splits)
    show ?thesis using trimmed_slice [OF ok e(1,2)] t by (auto simp: argument_inside_def e(3) range_contains_def)
  qed (use unnamed in simp)
qed

subsection \<open>The arguments of a call\<close>

definition arguments_between :: "str \<Rightarrow> nat \<Rightarrow> nat \<Rightarrow> parsed_argument list \<Rightarrow> bool" where
  "arguments_between input a b xs \<longleftrightarrow> (\<forall>x \<in> set xs. argument_inside input a b x) \<and>
     sorted_wrt (\<lambda>x y. range_end (arg_raw x) < range_start (arg_raw y)) xs"

lemma push_argument_between:
  assumes "utf8_ok input"
  shows "\<exists>xs. push_argument input (range_new a b) pol parts = parts @ xs \<and> arguments_between input a b xs"
  using parse_argument_inside [OF assms, of "range_new a b" pol]
  by (auto simp: push_argument_def arguments_between_def split: option.split)

lemma arguments_between_append:
  assumes "arguments_between input a b xs" and "arguments_between input c d ys" and "b < c" and "a \<le> c" and "b \<le> d"
  shows "arguments_between input a d (xs @ ys)"
  using assms by (fastforce simp: arguments_between_def argument_inside_def sorted_wrt_append)

lemma split_from_between:
  "utf8_ok input \<Longrightarrow> split_from input pol end start pos depth parts = Some out \<Longrightarrow> start \<le> pos \<Longrightarrow> pos \<le> end \<Longrightarrow>
   \<exists>xs. out = parts @ xs \<and> arguments_between input start end xs"
proof (induction input pol "end" start pos depth parts rule: split_from.induct)
  case (1 input pol "end" start pos depth parts)
  note ok = "1.prems"(1)
  show ?case
  proof (cases "pos < end")
    case False
    then show ?thesis using "1.prems"(2,4) push_argument_between [OF ok, of start "end" pol parts] by (subst (asm) split_from.simps) auto
  next
    case lt: True
    obtain c w where n: "next_char input pos end = Some (c, w)"
      using "1.prems"(2) lt by (subst (asm) split_from.simps) (auto split: option.splits)
    note d = next_charD [OF ok n]
    consider (quote) "c = 34" | (var) "c = 123" | (open_paren) "c = 40" | (close_paren) "c = 41" "depth > 0"
      | (comma) "c = 44" "depth = 0" | (other) "c \<notin> {34, 123, 40}" "\<not> (c = 41 \<and> depth > 0)" "\<not> (c = 44 \<and> depth = 0)" by blast
    then show ?thesis
    proof cases
      case quote
      then obtain q where q: "find_quote_end input (pos + w) end = Some q" "split_from input pol end start (q + w) depth parts = Some out"
        using "1.prems"(2) lt n by (subst (asm) split_from.simps) (auto split: option.splits)
      have "pos + w \<le> q" "q < end" using quote_end_bounds [of input False "pos + w" "end" q] q(1) by (simp_all add: find_quote_end_def)
      moreover have "w = 1" using d(9) [of "CHR 0x22"] quote by simp
      ultimately show ?thesis using "1.IH"(1) [OF lt n refl _ q(1) ok q(2)] quote "1.prems"(3) by simp
    next
      case var
      then obtain q where q: "find_variable_end input (pos + w) end = Some q" "split_from input pol end start (q + 1) depth parts = Some out"
        using "1.prems"(2) lt n by (subst (asm) split_from.simps) (auto split: option.splits)
      have "pos + w \<le> q" "q < end" using variable_end_bounds [of input 0 "pos + w" "end" q] q(1) by (simp_all add: find_variable_end_def)
      then show ?thesis using "1.IH"(2) [OF lt n refl _ _ q(1) ok q(2)] var "1.prems"(3) by simp
    next
      case open_paren
      then have "split_from input pol end start (pos + w) (depth + 1) parts = Some out"
        using "1.prems"(2) lt n by (subst (asm) split_from.simps) simp
      then show ?thesis using "1.IH"(3) [OF lt n refl] open_paren ok "1.prems"(3) d(5) by simp
    next
      case close_paren
      then have "split_from input pol end start (pos + w) (depth - 1) parts = Some out"
        using "1.prems"(2) lt n by (subst (asm) split_from.simps) simp
      then show ?thesis using "1.IH"(4) [OF lt n refl] close_paren ok "1.prems"(3) d(5) by simp
    next
      case comma
      obtain xs where xs: "push_argument input (range_new start pos) pol parts = parts @ xs" "arguments_between input start pos xs"
        using push_argument_between [OF ok] by blast
      have "split_from input pol end (pos + w) (pos + w) depth (parts @ xs) = Some out"
        using comma "1.prems"(2) lt n xs(1) by (subst (asm) split_from.simps) simp
      then obtain ys where "out = (parts @ xs) @ ys" "arguments_between input (pos + w) end ys"
        using "1.IH"(5) [OF lt n refl] comma ok d(5) xs(1) by auto
      moreover have "arguments_between input start end (xs @ ys)"
        by (rule arguments_between_append [OF xs(2) calculation(2)]) (use d(2,4) "1.prems"(3) in simp_all)
      ultimately show ?thesis by simp
    next
      case other
      then have "split_from input pol end start (pos + w) depth parts = Some out"
        using "1.prems"(2) lt n by (subst (asm) split_from.simps) (simp split: if_splits)
      then show ?thesis using "1.IH"(6) [OF lt n refl] other ok "1.prems"(3) d(5) by simp
    qed
  qed
qed

subsection \<open>The call\<close>

lemma name_end_bounds: "utf8_ok input \<Longrightarrow> name_end ct input pos end = Some k \<Longrightarrow> pos \<le> k"
proof (induction ct input pos "end" rule: name_end.induct)
  case (1 ct input pos "end")
  then show ?case by (subst (asm) (2) name_end.simps) (fastforce split: if_splits option.splits)
qed

text \<open>
  C32. A call is recognized where its name is followed by an opening parenthesis and the matching one
  closes at one of the ends that are offered.  Its arguments lie between the parentheses, in order and
  never adjacent, as valid and non-empty ranges; exactly the named ones have a name.
\<close>

theorem call_layout:
  assumes ok: "utf8_ok input" and p: "parse_call_syntax ct input r ends pol = Some c"
  shows "\<exists>open_paren close_paren. call_range c = range_new (range_start r) (close_paren + 1) \<and> close_paren + 1 \<in> set ends \<and>
    close_paren < range_end r \<and> str_slice (range_new (range_start r) open_paren) input = Some (call_name c) \<and> call_name c \<noteq> [] \<and>
    byte_is input open_paren CHR ''('' \<and> byte_is input close_paren CHR '')'' \<and>
    arguments_between input (open_paren + 1) close_paren (call_arguments c)"
proof -
  obtain c0 w0 k c1 w1 q name args where n0: "next_char input (range_start r) (range_end r) = Some (c0, w0)"
    and k: "name_end ct input (range_start r + w0) (range_end r) = Some k"
    and n1: "next_char input k (range_end r) = Some (c1, w1)" "c1 = byte CHR ''(''"
    and q: "find_parenthesis_end input (k + 1) (range_end r) = Some q" "q + 1 \<in> set ends"
    and name: "str_slice (range_new (range_start r) k) input = Some name"
    and args: "split_arguments input (range_new (k + 1) q) pol = Some args"
    and c: "c = \<lparr>call_name = name, call_arguments = args, call_range = range_new (range_start r) (q + 1)\<rparr>"
    using p by (auto simp: parse_call_syntax_def split: option.splits if_splits)
  note d0 = next_charD [OF ok n0] and d1 = next_charD [OF ok n1(1)]
  have "range_start r < k" using name_end_bounds [OF ok k] d0(4) by simp
  then have "name \<noteq> []" using str_slice_SomeD(3) [OF name] by (auto simp: range_len_def)
  moreover have "byte_is input k CHR ''(''" using d1(2,3) d1(9) [OF n1(2)] by (simp add: byte_is_def)
  moreover have close: "byte_is input q CHR '')''" "k + 1 \<le> q" "q < range_end r"
    using parenthesis_end_byte [OF ok q(1) [unfolded find_parenthesis_end_def]] parenthesis_end_ge [OF q(1) [unfolded find_parenthesis_end_def]]
    by simp_all
  moreover have "arguments_between input (k + 1) q args"
  proof (cases "k + 1 = q")
    case True
    then show ?thesis using args by (auto simp: split_arguments_def range_is_empty_def arguments_between_def)
  next
    case False
    then have "split_from input pol q (k + 1) (k + 1) 0 [] = Some args"
      using args by (auto simp: split_arguments_def range_is_empty_def split: if_splits)
    from split_from_between [OF ok this order.refl close(2)] show ?thesis by auto
  qed
  ultimately show ?thesis using q(2) name by (intro exI [of _ k] exI [of _ q]) (simp add: c)
qed

end
