(* ===== verification/Function_Samples.thy ===== *)
theory Function_Samples
  imports Function_Arguments Function_Syntax "HOL-Library.Code_Target_Numeral"
begin

text \<open>Transactions of the function registry and calls of functions for the witnesses.\<close>

subsection \<open>Examples\<close>

definition all_letters :: char_table where
  "all_letters = \<lparr>is_alphabetic = (\<lambda>c. 97 \<le> c \<and> c \<le> 122), is_numeric = (\<lambda>c. 48 \<le> c \<and> c \<le> 57)\<rparr>"

definition no_case :: case_table where
  "no_case = \<lparr>to_upper = (\<lambda>s. s), to_lower = (\<lambda>s. s)\<rparr>"

definition sample_function :: "str \<Rightarrow> function_scope \<Rightarrow> nat \<Rightarrow> function_declaration" where
  "sample_function name scope i = \<lparr>decl_source = ''f()'', decl_span = range_new i 3, decl_scope = scope, decl_name = name,
     decl_parameters = [\<lparr>param_name = ''x'', param_type = ''Number'', param_single = True, default_source = None\<rparr>],
     return_of = \<lparr>return_type = None, return_single = True\<rparr>, decl_metadata = []\<rparr>"

definition sample_registry :: function_registry where
  "sample_registry = fst (functions_new ''doc'' 1 skript_2_15_4 7)"

definition sample_register :: "function_declaration \<Rightarrow> function_registry \<Rightarrow> function_registry" where
  "sample_register d t = snd (functions_register all_letters no_case d t)"

definition two_functions :: function_registry where
  "two_functions = sample_register (sample_function ''f'' LocalScope 1) (sample_register (sample_function ''f'' GlobalScope 0) sample_registry)"

lemma sample_registers:
  "functions_register all_letters no_case (sample_function ''f'' GlobalScope 0) sample_registry =
     (Ret (registration_of (sample_function ''f'' GlobalScope 0) sample_registry), sample_register (sample_function ''f'' GlobalScope 0) sample_registry)"
  "functions_register all_letters no_case (sample_function ''f'' LocalScope 1) (sample_register (sample_function ''f'' GlobalScope 0) sample_registry) =
     (Ret (registration_of (sample_function ''f'' LocalScope 1) (sample_register (sample_function ''f'' GlobalScope 0) sample_registry)), two_functions)"
  by code_simp+

lemma sample_registry_history:
  "\<exists>taken. functions_savepoint sample_registry \<in> set taken \<and> history all_letters no_case two_functions taken [sample_registry] True"
proof -
  let ?one = "sample_register (sample_function ''f'' GlobalScope 0) sample_registry"
  have "\<not> frozen sample_registry" by code_simp
  moreover have "history all_letters no_case sample_registry [] [] True"
    by (rule history.Start [where t = sample_registry]) (simp add: sample_registry_def)
  ultimately have "history all_letters no_case sample_registry [functions_savepoint sample_registry] [sample_registry] True"
    using history.Save by fastforce
  from history.Register [OF this sample_registers(1)]
  have "history all_letters no_case ?one [functions_savepoint sample_registry] [sample_registry] (next_order sample_registry < u64_max)"
    by simp
  moreover have "next_order sample_registry < u64_max" "next_order ?one < u64_max" by code_simp+
  ultimately have "history all_letters no_case ?one [functions_savepoint sample_registry] [sample_registry] True" by simp
  from history.Register [OF this sample_registers(2)] \<open>next_order ?one < u64_max\<close>
  have "history all_letters no_case two_functions [functions_savepoint sample_registry] [sample_registry] True" by simp
  then show ?thesis by (intro exI [of _ "[functions_savepoint sample_registry]"]) simp
qed

theorem function_histories_witness:
  "functions_ok all_letters no_case two_functions \<and> length (registrations two_functions) = 2 \<and>
   functions_rollback (functions_savepoint sample_registry) two_functions = (Ret (), sample_registry)"
proof -
  have "length (registrations two_functions) = 2" by code_simp
  moreover obtain taken where "history all_letters no_case two_functions taken [sample_registry] True" using sample_registry_history by blast
  ultimately show ?thesis using function_histories [of all_letters no_case two_functions taken "[sample_registry]" True] by simp
qed

theorem lookup_shadows_witness:
  "map (decl_scope \<circ> declared) (lookup_references (registrations two_functions) ''f'' LocalScope) = [LocalScope] \<and>
   map (decl_scope \<circ> declared) (lookup_references (registrations two_functions) ''f'' GlobalScope) = [GlobalScope] \<and>
   distinct (map (\<lambda>r. signature_shape (declared r)) (lookup_references (registrations two_functions) ''f'' LocalScope))"
proof -
  have ok: "functions_ok all_letters no_case two_functions" using sample_registry_history history_invariant by (fastforce simp: history_ok_def)
  have "map (decl_scope \<circ> declared) (lookup_references (registrations two_functions) ''f'' LocalScope) = [LocalScope]"
    "map (decl_scope \<circ> declared) (lookup_references (registrations two_functions) ''f'' GlobalScope) = [GlobalScope]" by code_simp+
  then show ?thesis using lookup_shadows [OF ok, of "''f''" LocalScope] by (simp add: Let_def)
qed

text \<open>
  Savepoints count on an append-only list, which a removal breaks: rolling back to one that is older than
  the removal may keep a declaration that was registered after the savepoint, and its identity is handed
  out again.  Such a history is not disciplined.
\<close>

definition reused_identity :: function_registry where
  "reused_identity =
     (let t = two_functions;
          sp = functions_savepoint t;
          t = snd (remove_declarations_in_span (range_new 0 3) t);
          t = sample_register (sample_function ''late'' GlobalScope 2) t;
          t = snd (functions_rollback sp t)
      in sample_register (sample_function ''later'' GlobalScope 3) t)"

lemma rollback_after_removal:
  "map (decl_name \<circ> declared) (registrations reused_identity) = [''f'', ''late'', ''later''] \<and>
   map (fdef_definition_id \<circ> fdefinition) (registrations reused_identity) =
     [''function:document:doc:1'', ''function:document:doc:2'', ''function:document:doc:2'']"
  by code_simp

subsection \<open>Calls\<close>

definition sample_call_text :: str where
  "sample_call_text = ''f(1, b: {x}, c:2)''"

definition named_call_argument :: "str \<Rightarrow> text_range \<Rightarrow> text_range \<Rightarrow> parsed_argument" where
  "named_call_argument n v raw = \<lparr>arg_kind = NamedArgument, arg_name = Some n, arg_value = v, arg_raw = raw\<rparr>"

definition sample_arguments :: "parsed_argument list" where
  "sample_arguments = [unnamed_argument (range_new 2 3), named_call_argument ''b'' (range_new 8 11) (range_new 5 11),
     named_call_argument ''c'' (range_new 15 16) (range_new 13 16)]"

definition sample_call :: call_syntax where
  "sample_call = \<lparr>call_name = ''f'', call_arguments = sample_arguments, call_range = range_new 0 17\<rparr>"

lemma sample_call_parsed: "parse_call_syntax all_letters sample_call_text (range_new 0 17) [17] skript_2_15_4 = Some sample_call"
  by code_simp

theorem call_layout_witness:
  "\<exists>open_paren close_paren. close_paren = 16 \<and> byte_is sample_call_text close_paren CHR '')'' \<and>
     arguments_between sample_call_text (open_paren + 1) close_paren sample_arguments"
proof -
  have "utf8_ok sample_call_text" by (simp add: sample_call_text_def utf8_ok.simps utf8_step_def)
  from call_layout [OF this sample_call_parsed] show ?thesis by (auto simp: sample_call_def range_new_def)
qed

definition sample_parameters :: "parameter_definition list" where
  "sample_parameters = map (\<lambda>(n, opt). \<lparr>pdef_name = n, pdef_type = ''Number'', pdef_single = True, pdef_optional = opt\<rparr>)
     [(''a'', False), (''c'', False), (''b'', False), (''d'', True)]"

definition sample_mapped :: "mapped_argument list" where
  "sample_mapped = [\<lparr>supplied_name = None, mapped_values = [range_new 2 3]\<rparr>, \<lparr>supplied_name = Some ''c'', mapped_values = [range_new 15 16]\<rparr>,
     \<lparr>supplied_name = Some ''b'', mapped_values = [range_new 8 11]\<rparr>, \<lparr>supplied_name = None, mapped_values = []\<rparr>]"

lemma sample_maps: "map_exact_arguments sample_parameters sample_arguments = (Ret (Some sample_mapped) :: (unit, mapped_argument list option) outcome)"
  by code_simp

theorem map_exact_arguments_assigns_witness:
  "map_exact_arguments sample_parameters sample_arguments = (Ret (Some sample_mapped) :: (unit, mapped_argument list option) outcome) \<and>
   (\<exists>fs. assigned sample_parameters sample_arguments fs sample_mapped)"
proof -
  have "\<not> duplicate_named_argument sample_arguments" "length sample_arguments \<le> length sample_parameters" by code_simp+
  from map_exact_arguments_assigns [OF this, where 'e = unit] show ?thesis using sample_maps by auto
qed

definition sample_function_call :: function_call where
  "sample_function_call = \<lparr>fcall_name = ''f'', fcall_definition_id = ''d'', fcall_registration_id = ''r'', fcall_arguments =
     [\<lparr>parameter_name = ''a'', argument_name = None, child_start = 0, child_count = 2, omitted = False\<rparr>,
      \<lparr>parameter_name = ''b'', argument_name = None, child_start = 2, child_count = 0, omitted = True\<rparr>]\<rparr>"

theorem validate_children_exact_witness:
  "validate_children sample_function_call 2 = Ret () \<and> children_ok (fcall_arguments sample_function_call) 0 2"
proof -
  have v: "validate_children sample_function_call 2 = Ret ()" by code_simp
  have "(2 :: nat) \<le> u64_max" by (simp add: u64_max_def)
  from validate_children_exact [OF this, of sample_function_call] show ?thesis using v by simp
qed

end
