(* ===== verification/Expression_Samples.thy ===== *)
theory Expression_Samples
  imports Expression_Grammar "HOL-Library.Code_Target_Numeral"
begin

text \<open>An expression list with a comma, a word after a comma and a word inside parentheses.\<close>

definition sample_list :: raw_list where
  "sample_list = \<lparr>pieces = [range_new 0 1, range_new 3 4, range_new 9 18], delimiters = [CommaDelimiter, OrDelimiter]\<rparr>"

lemma sample_split: "split_expression_list ''1, 2, or (3 and 4)'' (range_new 0 18) = Some sample_list"
  by code_simp

theorem split_lists_correct_witness:
  "split_expression_list ''1, 2, or (3 and 4)'' (range_new 0 18) = Some sample_list \<and>
   (\<exists>raws. list_from ''1, 2, or (3 and 4)'' 18 0 0 raws [CommaDelimiter, OrDelimiter] \<and>
      list_all2 (piece_of ''1, 2, or (3 and 4)'') raws [range_new 0 1, range_new 3 4, range_new 9 18])"
proof -
  have "utf8_ok ''1, 2, or (3 and 4)''" by (simp add: utf8_ok.simps utf8_step_def)
  moreover have "range_start (range_new 0 18) \<le> range_end (range_new 0 18)" by simp
  ultimately show ?thesis
    using split_lists_correct [of "''1, 2, or (3 and 4)''" "range_new 0 18" sample_list] sample_split by (simp add: sample_list_def)
qed

text \<open>The words decide: \<open>1, 2, or (3 and 4)\<close> is a disjunction of three.\<close>

lemma sample_disjunction: "conjunction_for_children sample_list [0, 1, 2] = (Ret OrList :: (unit, list_conjunction) outcome)"
  by code_simp

end
