(* ===== verification/Spec2Isabelle.thy ===== *)
theory Spec2Isabelle
  imports Tree_Session State_Samples Pattern_Display Match_Samples Function_Samples Expression_Samples
begin

text \<open>
  A verification development for Skript-LSP, a language server for Skript written in Rust.

  \<^bold>\<open>The program.\<close>  \<open>skript-parser\<close> turns a script into a tree in two stages: a lossless raw tree of
  lines and indentation, then a typed tree by matching syntax patterns.  Component extensions run as
  WebAssembly modules under \<open>parser-wasm\<close>; they may rewrite the text before the raw tree is built,
  and share data through a transactional state store.  The development follows that path:

  \<^item> \<open>Utf8\<close>, \<open>Text_Range\<close> (\<open>skript-parser/src/text.rs\<close> and the string functions of the standard
    library that are used): byte strings, character boundaries, ranges and slices.
  \<^item> \<open>Expansion_Graph\<close> (\<open>expansion.rs\<close>): macro expansions with their call and definition sites;
    construction, extension, backtraces.
  \<^item> \<open>Source_Map\<close>, \<open>Mapped_Source\<close> (\<open>source_map.rs\<close>): segments that tile a virtual text and
    their origins in the original; lookup, text edits, registration of expansions.
  \<^item> \<open>Raw_Lines\<close>, \<open>Raw_Tree\<close>, \<open>Raw_Tree_Parse\<close>, \<open>Raw_Tree_Result\<close> (\<open>raw_tree.rs\<close>): physical lines,
    comments, indentation, the raw tree and its diagnostics.
  \<^item> \<open>Tree_Edit\<close> (\<open>tree_edit.rs\<close>): the replacement of a node of the raw tree, or of the children of a
    section, by a tree that a macro generated.
  \<^item> \<open>State_Types\<close>, \<open>State_Registry\<close>, \<open>State_Store\<close> (\<open>parser-wasm/src/state/mod.rs\<close>): scopes,
    namespaces, quotas and access rules; \<open>StateStore\<close>, \<open>ParseTransaction\<close> and
    \<open>InvocationTransaction\<close> with every operation.
  \<^item> \<open>State_Codec\<close>, \<open>State_Persistent\<close> (\<open>parser-wasm/src/state/persistent.rs\<close>): the binary
    encoding and the \<open>redb\<close> backend of the persistent scope.
  \<^item> \<open>Plural_Rules\<close>, \<open>Syntax_Pattern\<close> (\<open>syntax-pattern-parser/src/plural.rs\<close>, \<open>pattern.rs\<close>): the
    plural rules of a server and the parser of registration patterns.
  \<^item> \<open>Failure_Trace\<close>, \<open>Failure_Tracker\<close> (\<open>failure.rs\<close>, \<open>FailureTracker\<close> of \<open>pattern_match.rs\<close>): traces
    of parse failures, the order that decides which one is shown, and the tracker of the matcher.
  \<^item> \<open>Match_Scan\<close>, \<open>Match_Types\<close>, \<open>Pattern_Match\<close>, \<open>Match_Candidates\<close> (\<open>pattern_match.rs\<close>): the
    backtracking matcher of an input against candidate patterns, with the hooks of extensions, the
    caches, the limits and the ranking of candidates and failures.  Its recursion is structural, so it
    needs no fuel; the limits are part of the model.
  \<^item> \<open>Function_Registry\<close> (\<open>function_registry.rs\<close>), \<open>Function_Call\<close> (the part of \<open>function.rs\<close> in front of
    the expression parser): the functions that a document declares, and the calls of functions.
  \<^item> \<open>Expression_List\<close> (\<open>expression_list.rs\<close>): splitting a list of expressions at its top-level
    delimiters.  All loops end at the end of the range, which is their measure.

  \<^bold>\<open>How the model reads.\<close>  Structs are records with prefixed fields, enums are datatypes, \<open>BTreeMap\<close>
  and \<open>BTreeSet\<close> are the ordered association lists of \<open>Ordered_Map\<close> (sets where the order is never
  seen).  A fallible function returns an \<open>outcome\<close> (\<open>Prelude\<close>): \<open>Ret\<close>, \<open>Fail\<close> with the error of the
  source, or \<open>Panic\<close> for \<open>expect\<close>, \<open>unwrap\<close> and indexing out of range.  Methods on \<open>&mut self\<close> that
  can fail half-way are \<open>action\<close>s: the state after the failure is part of the result.  Strings are
  lists of bytes, expansion identities are 32-bit words, revisions saturate at 2^64 - 1.

  \<^bold>\<open>What the lemmas show.\<close>
  \<^item> Expansion graphs: \<open>new\<close> accepts exactly the well-formed acyclic graphs; extension keeps the invariant; backtraces are
    complete.  The walk over parents takes fuel \<open>Suc (length m)\<close>, the number of expansions plus one:
    a path that repeats none is no longer, and a longer one is reported as a cycle first.
  \<^item> Source maps: \<open>new\<close> accepts exactly the tilings with valid origins; a valid batch of edits refines a
    reference splice of the text; every range maps to faithful origins; errors are exact.  Registering an
    expansion does not check the range of its definition site, so the invariant is kept exactly if that is valid.
  \<^item> Raw trees: parsing is total, lossless, and produces a well-formed tree with nested spans and
    exact diagnostics.
  \<^item> Tree edits: \<open>Linked_Forest\<close> builds the forest behind links in which nothing occurs twice;
    \<open>Tree_Arena\<close> relates arenas and forests (inflating reads back what flattening writes),
    \<open>Tree_Fragment\<close> shows that exactly the well-formed fragments pass, \<open>Tree_Layout\<close> and
    \<open>Tree_Projection\<close> follow the lines and spans of a forest behind the source, \<open>Tree_Refine\<close> and
    \<open>Tree_Correct\<close> reduce the edit to a reference edit of the forest, \<open>Tree_Parsed\<close> shows that parsed
    trees are editable, and \<open>Tree_Session\<close> composes parsing, text edits and tree edits.  The
    recursions over arenas take fuel one more than the number of nodes: a path that repeats no node
    is no longer, and the code stops at the first repetition.
  \<^item> State: \<open>State_Overlay\<close> reduces every operation of an invocation to one view (own writes over
    accepted writes over committed data); \<open>State_Publish\<close> gives the contract of a publication;
    \<open>State_History\<close> is the step relation of the store and the soundness of optimistic concurrency
    control; \<open>State_Speculation\<close> the step relation of a speculating parse, the memo key and deltas;
    \<open>State_Cache\<close> and \<open>State_Durability\<close> the agreement of cache and database, schema changes,
    durability and failures.  \<open>State_Samples\<close> holds a concrete store for the witnesses.
  \<^item> Registration patterns: \<open>Pattern_Grammar\<close> states the grammar over the bytes of a pattern;
    \<open>Pattern_Sound\<close> and \<open>Pattern_Complete\<close> prove that the parser decides it, \<open>Pattern_Correct\<close> that
    errors and spans are exact, \<open>Pattern_Display\<close> what printing and parsing a type expression gives,
    and when that is the expression itself.  The two mutually
    recursive functions take fuel \<open>2 * length raw + 2\<close>: a sequence at offset \<open>k\<close> needs
    \<open>2 * (length raw - k) + 1\<close>, a choice one more, and every round consumes a character.
  \<^item> Pattern matcher: \<open>Match_Logic\<close> is a Hoare logic for actions; \<open>Match_Lexical\<close>, \<open>Match_Context\<close>,
    \<open>Match_Leaves\<close>, \<open>Match_Types_Safe\<close> and \<open>Match_Safe\<close> go from split points and cache contents up to
    the recursion over elements, \<open>Match_Returned\<close> and \<open>Match_Result\<close> on to candidates and the entry
    points, for every environment.  \<open>Match_Reads\<close> says what a pattern means without hooks, and
    \<open>Match_Decides\<close> and \<open>Match_Chosen\<close> show that the matcher finds and returns exactly that, in the order
    that \<open>Match_Order\<close> states.
    \<open>Match_Samples\<close> holds a run for the witnesses.
  \<^item> Functions: \<open>Function_History\<close> shows which declarations a transaction accepts, what every history of
    registrations, savepoints, rollbacks (to any savepoint), removals and freezes keeps, what more holds if
    no rollback crosses a removal, and which functions a call sees;
    \<open>Function_Syntax\<close> where the arguments of a call lie, \<open>Function_Arguments\<close> how they are assigned to the
    parameters and which child ranges are accepted.  \<open>Function_Samples\<close> holds the witnesses.
  \<^item> Expression lists: \<open>List_Syntax\<close> states strings, variables, parentheses, whitespace and delimiters over
    positions and characters, without the functions of the program, and shows that the scanners decide
    them; \<open>Expression_Grammar\<close> states the grammar of lists over these and shows that splitting decides it.
    \<open>Expression_Samples\<close> holds the witnesses.

  \<^bold>\<open>Interfaces.\<close>  \<open>ordered_map\<close> (\<open>Ordered_Map\<close>) is the contract of the maps, interpreted by the
  association lists; \<open>prefix_codec\<close> (\<open>State_Codec\<close>) the contract of the self-delimiting encodings,
  interpreted for strings, namespaces and record keys.

  \<^bold>\<open>Parameters.\<close>  \<open>redb\<close> is a record of operations with the documented law \<open>redb_ok\<close> (a scan returns the
  content; a committed write transaction applies its operations); \<open>memory_redb\<close> shows that it can
  hold.  URL normalization, the hashed path of a database and the data directory of the system are
  fields of \<open>store_env\<close> with no law; so are the Unicode case mappings (\<open>case_table\<close>, \<open>lower_table\<close>) and
  the classes of alphabetic and numeric characters (\<open>char_table\<close>).
  The matcher runs in a \<open>match_environment\<close>, a record of operations on a state of its own (the trait
  \<open>PatternMatchEnvironment\<close>), and calls a regular expression engine (\<open>regex_builder\<close>); neither has a law.

  \<^bold>\<open>Not modelled.\<close>  Mutex poisoning (it takes a panic elsewhere).  The parsers of
  \<open>skript-parser\<close> above the pattern matcher (expressions, statements, the catalogue of candidates; of function calls the values of
  the arguments and the choice of an overload, which the expression parser makes), the hosts of WebAssembly modules (\<open>parser-wasm/src/host\<close>), the
  syntax catalogue and its generator (\<open>syntaxes\<close>, \<open>ssg\<close>), the language server front end, the core
  library components and the utilities: they are the next parts of the plan, or glue around
  third-party code (wasmtime, tower-lsp, HTTP).  The step relation of the store excludes the
  registration of a component between two steps.  In \<open>rebase_range\<close> the subtraction of \<open>usize\<close> is that
  of natural numbers: \<open>Tree_Layout\<close> shows that no span of an editable line starts before the line.
\<close>

end
